(* ===== verification/Prelude.thy ===== *)
theory Prelude imports Main "HOL-Library.Word" "HOL-Library.Monad_Syntax" begin

text \<open>
  What the component theories share: the C integer types of the PDP-11 the kernel is written
  for, wrap-around on signed values, lemmas on 16-bit words, and singly linked lists threaded
  through a table (process, callout, clist-block and buffer lists all have this shape).

  Conventions. An operation returns an \<open>option\<close> where the C code can panic, read or write
  outside an array or follow a wild pointer: \<open>None\<close> is "the kernel does not continue from
  here". A user-visible error is never \<open>None\<close>: it is the value the code stores in
  \<open>u.u_error\<close>. The processor-priority calls (spl) have no counterpart: each
  definition is one critical section.
\<close>

named_theorems seg_simps "segment lists of resource maps"
named_theorems path_simps "linked lists threaded through a table"
named_theorems frame_simps "fields an operation leaves alone"

section \<open>C integers\<close>

type_synonym u_int = "16 word"
type_synonym u_char = "8 word"

text \<open>
  A signed C value is an \<open>int\<close>; where the code can overflow, the result is brought back into
  the width of the type by \<open>wrap16\<close> (int, short) or \<open>wrap32\<close> (long).
\<close>

definition wrap16 :: "int \<Rightarrow> int" where
  "wrap16 x = (x + 32768) mod 65536 - 32768"

definition wrap32 :: "int \<Rightarrow> int" where
  "wrap32 x = (x + 2147483648) mod 4294967296 - 2147483648"

definition int16 :: "int \<Rightarrow> bool" where
  "int16 x \<longleftrightarrow> - 32768 \<le> x \<and> x \<le> 32767"

definition int32 :: "int \<Rightarrow> bool" where
  "int32 x \<longleftrightarrow> - 2147483648 \<le> x \<and> x \<le> 2147483647"

lemma wrap16_id [simp]: "int16 x \<Longrightarrow> wrap16 x = x"
  by (simp add: wrap16_def int16_def)

lemma wrap32_id [simp]: "int32 x \<Longrightarrow> wrap32 x = x"
  by (simp add: wrap32_def int32_def)

lemma int16_wrap16 [simp]: "int16 (wrap16 x)"
proof -
  have "0 \<le> (x + 32768) mod 65536" "(x + 32768) mod 65536 < 65536" by simp_all
  then show ?thesis unfolding wrap16_def int16_def by linarith
qed

lemma int32_wrap32 [simp]: "int32 (wrap32 x)"
proof -
  have "0 \<le> (x + 2147483648) mod 4294967296" "(x + 2147483648) mod 4294967296 < 4294967296"
    by simp_all
  then show ?thesis unfolding wrap32_def int32_def by linarith
qed

text \<open>C division and remainder truncate towards zero.\<close>

definition cdiv :: "int \<Rightarrow> int \<Rightarrow> int" where
  "cdiv a b = sgn a * sgn b * (\<bar>a\<bar> div \<bar>b\<bar>)"

definition cmod :: "int \<Rightarrow> int \<Rightarrow> int" where
  "cmod a b = a - cdiv a b * b"

lemma cdiv_nonneg: "0 \<le> a \<Longrightarrow> 0 < b \<Longrightarrow> cdiv a b = a div b"
  by (cases "a = 0") (simp_all add: cdiv_def)

lemma cmod_nonneg: "0 \<le> a \<Longrightarrow> 0 < b \<Longrightarrow> cmod a b = a mod b"
  by (simp add: cmod_def cdiv_nonneg minus_div_mult_eq_mod)

section \<open>Unsigned 16-bit arithmetic without wrap-around\<close>

lemma unat16_lt [simp]: "unat (w :: u_int) < 65536"
  using unsigned_less [of w] by simp

lemma unat16_inj: "unat (a :: u_int) = unat b \<longleftrightarrow> a = b"
  by (metis word_unat_eq_iff)

lemma unat16_add: "unat (a :: u_int) + unat b < 65536 \<Longrightarrow> unat (a + b) = unat a + unat b"
  by (simp add: unat_word_ariths)

lemma unat16_sub: "b \<le> (a :: u_int) \<Longrightarrow> unat (a - b) = unat a - unat b"
  by (simp add: unat_sub)

lemma unat16_eq0: "(w :: u_int) = 0 \<longleftrightarrow> unat w = 0"
  by (simp add: unat_eq_zero)

lemma unat16_pos: "0 < unat (w :: u_int) \<longleftrightarrow> w \<noteq> 0"
  by (simp add: unat_gt_0)

section \<open>Singly linked lists threaded through a table\<close>

text \<open>
  \<open>lpath nxt p xs\<close>: following \<open>nxt\<close> from the pointer \<open>p\<close> visits exactly the entries
  \<open>xs\<close> and then meets NULL (\<open>None\<close>). \<open>walk n nxt p\<close> computes that list with at most
  \<open>n\<close> steps; \<open>None\<close> is a traversal that has not ended by then.
\<close>

fun lpath :: "('a \<Rightarrow> 'a option) \<Rightarrow> 'a option \<Rightarrow> 'a list \<Rightarrow> bool" where
  "lpath nxt p [] \<longleftrightarrow> p = None"
| "lpath nxt p (x # xs) \<longleftrightarrow> p = Some x \<and> lpath nxt (nxt x) xs"

fun walk :: "nat \<Rightarrow> ('a \<Rightarrow> 'a option) \<Rightarrow> 'a option \<Rightarrow> 'a list option" where
  "walk n nxt None = Some []"
| "walk 0 nxt (Some x) = None"
| "walk (Suc n) nxt (Some x) = map_option ((#) x) (walk n nxt (nxt x))"

lemma lpath_unique: "lpath nxt p xs \<Longrightarrow> lpath nxt p ys \<Longrightarrow> xs = ys"
proof (induction xs arbitrary: p ys)
  case Nil
  then show ?case by (cases ys) auto
next
  case (Cons x xs)
  then show ?case by (cases ys) auto
qed

lemma lpath_append:
  "lpath nxt p (xs @ y # ys) \<Longrightarrow> lpath nxt (Some y) (y # ys)"
  by (induction xs arbitrary: p) auto

lemma lpath_distinct: "lpath nxt p xs \<Longrightarrow> distinct xs"
proof (induction xs arbitrary: p)
  case Nil
  then show ?case by simp
next
  case (Cons x xs)
  have "x \<notin> set xs"
  proof
    assume "x \<in> set xs"
    then obtain as bs where xs: "xs = as @ x # bs" by (meson split_list)
    from Cons.prems have "lpath nxt (nxt x) (as @ x # bs)" by (simp add: xs)
    then have "lpath nxt (Some x) (x # bs)" by (rule lpath_append)
    moreover from Cons.prems have "lpath nxt (Some x) (x # xs)" by simp
    ultimately have "x # bs = x # xs" by (rule lpath_unique)
    then show False by (simp add: xs)
  qed
  with Cons show ?case by auto
qed

lemma lpath_upd_notin [simp]:
  "x \<notin> set xs \<Longrightarrow> lpath (nxt(x := v)) p xs \<longleftrightarrow> lpath nxt p xs"
  by (induction xs arbitrary: p) auto

lemma lpath_cong: "(\<And>x. x \<in> set xs \<Longrightarrow> f x = g x) \<Longrightarrow> lpath f p xs = lpath g p xs"
  by (induction xs arbitrary: p) auto

lemma lpath_None [simp]: "lpath nxt None xs \<longleftrightarrow> xs = []"
  by (cases xs) auto

lemma lpath_Some: "lpath nxt (Some x) xs \<longleftrightarrow> (\<exists>ys. xs = x # ys \<and> lpath nxt (nxt x) ys)"
  by (cases xs) auto

lemma walk_lpath: "walk n nxt p = Some xs \<Longrightarrow> lpath nxt p xs"
  by (induction n nxt p arbitrary: xs rule: walk.induct) auto

lemma walk_enough: "lpath nxt p xs \<Longrightarrow> length xs \<le> n \<Longrightarrow> walk n nxt p = Some xs"
proof (induction xs arbitrary: p n)
  case Nil
  then show ?case by simp
next
  case (Cons x xs)
  then show ?case by (cases n) auto
qed

lemma walk_cong:
  "(\<And>x. x \<in> set xs \<Longrightarrow> f x = g x) \<Longrightarrow> walk n f p = Some xs \<Longrightarrow> walk n g p = Some xs"
proof (induction xs arbitrary: n p)
  case Nil
  then show ?case by (cases "(n, f, p)" rule: walk.cases) auto
next
  case (Cons x xs)
  then show ?case by (cases "(n, f, p)" rule: walk.cases) auto
qed

lemma finite_distinct_length:
  "distinct xs \<Longrightarrow> set xs \<subseteq> {..<n::nat} \<Longrightarrow> length xs \<le> n"
  using card_mono [of "{..<n}" "set xs"] by (simp add: distinct_card)

text \<open>Appending at the tail of a list, and unlinking an inner element.\<close>

lemma lpath_snoc:
  "lpath nxt p (xs @ [y]) \<Longrightarrow> z \<notin> set (xs @ [y]) \<Longrightarrow> nxt' z = None \<Longrightarrow> nxt' y = Some z \<Longrightarrow>
   (\<And>x. x \<in> set xs \<Longrightarrow> nxt' x = nxt x) \<Longrightarrow> lpath nxt' p (xs @ [y, z])"
proof (induction xs arbitrary: p)
  case Nil
  then show ?case by simp
next
  case (Cons x xs)
  then show ?case by auto
qed

lemma lpath_unlink:
  "lpath nxt p (xs @ y # z # zs) \<Longrightarrow> lpath (nxt(y := nxt z)) p (xs @ y # zs)"
proof (induction xs arbitrary: p)
  case Nil
  then have "distinct (y # z # zs)" using lpath_distinct [of nxt p "y # z # zs"] by simp
  with Nil show ?case by (auto simp del: fun_upd_apply simp: fun_upd_same fun_upd_other)
next
  case (Cons x xs)
  then have "distinct ((x # xs) @ y # z # zs)"
    using lpath_distinct [of nxt p "(x # xs) @ y # z # zs"] by simp
  with Cons show ?case by (auto simp del: fun_upd_apply simp: fun_upd_same fun_upd_other)
qed

text \<open>A loop over a list whose body may fail keeps what the body keeps.\<close>

lemma fold_bind_None: "fold (\<lambda>p st. Option.bind st (f p)) ps None = None"
  by (induction ps) auto

lemma fold_bind_inv:
  assumes "fold (\<lambda>p st. Option.bind st (f p)) ps (Some s) = Some s'" "P s"
    and "\<And>p s s'. p \<in> set ps \<Longrightarrow> P s \<Longrightarrow> f p s = Some s' \<Longrightarrow> P s'"
  shows "P s'"
  using assms
proof (induction ps arbitrary: s)
  case Nil
  then show ?case by simp
next
  case (Cons p ps)
  then obtain t where t: "f p s = Some t" by (cases "f p s") (auto simp: fold_bind_None)
  then have "P t" using Cons.prems(2) Cons.prems(3) [of p s t] by simp
  show ?case
  proof (rule Cons.IH [OF _ \<open>P t\<close>])
    show "fold (\<lambda>p st. Option.bind st (f p)) ps (Some t) = Some s'" using Cons.prems(1) t by simp
  qed (use Cons.prems(3) in auto)
qed

lemma fold_bind_total:
  assumes "P s" and "\<And>p s. p \<in> set ps \<Longrightarrow> P s \<Longrightarrow> \<exists>s'. f p s = Some s' \<and> P s'"
  shows "\<exists>s'. fold (\<lambda>p st. Option.bind st (f p)) ps (Some s) = Some s' \<and> P s'"
  using assms
proof (induction ps arbitrary: s)
  case Nil
  then show ?case by simp
next
  case (Cons p ps)
  then obtain t where t: "f p s = Some t" "P t" by force
  have "\<exists>s'. fold (\<lambda>p st. Option.bind st (f p)) ps (Some t) = Some s' \<and> P s'"
    by (rule Cons.IH [OF t(2)]) (use Cons.prems(2) in auto)
  then show ?case using t(1) by simp
qed

lemmas lpath_intros = lpath_snoc lpath_unlink

declare lpath.simps [path_simps] lpath_Some [path_simps]

end
