(* ===== verification/ResourceMap.thy ===== *)
theory ResourceMap imports Prelude begin

text \<open>
  The resource-map allocator of \<open>src/sys/sys/subr_rmap.c\<close>: first-fit \<open>malloc\<close>, coalescing
  \<open>mfree\<close> and the three-segment \<open>malloc3\<close>, on the array of segment descriptors as the C
  code has it (slots, a terminator of size 0, whatever lies behind it). The abstract level is a
  sorted list of segments over natural numbers, and above it the set of free addresses.
\<close>

section \<open>Data\<close>

record mapent =
  m_size :: u_int
  m_addr :: u_int

text \<open>
  \<open>m_map\<close> is the whole array, free slots behind the terminator included; \<open>m_limit\<close> is the
  index \<open>mp->m_limit - mp->m_map\<close>.
\<close>

record rmap =
  m_map :: "mapent list"
  m_limit :: nat
  m_name :: string

datatype mapid = Coremap | Swapmap | Ubmap

datatype notice = ShortOfSwap | Overflow string u_int u_int

text \<open>
  The part of the kernel state the allocator works on. \<open>runin\<close> is the flag the swapper sleeps
  on, \<open>runin_wakeups\<close> counts the calls \<open>wakeup(&runin)\<close>, \<open>notices\<close> holds what was
  printed, the newest first.
\<close>

record vmem =
  coremap :: rmap
  swapmap :: rmap
  ub_map :: rmap
  runin :: bool
  runin_wakeups :: nat
  notices :: "notice list"

fun get_map :: "mapid \<Rightarrow> 'a vmem_scheme \<Rightarrow> rmap" where
  "get_map Coremap s = coremap s"
| "get_map Swapmap s = swapmap s"
| "get_map Ubmap s = ub_map s"

fun put_map :: "mapid \<Rightarrow> rmap \<Rightarrow> 'a vmem_scheme \<Rightarrow> 'a vmem_scheme" where
  "put_map Coremap m s = s\<lparr>coremap := m\<rparr>"
| "put_map Swapmap m s = s\<lparr>swapmap := m\<rparr>"
| "put_map Ubmap m s = s\<lparr>ub_map := m\<rparr>"

section \<open>malloc\<close>

text \<open>
  The loop \<open>for (ep = bp;; ++ep) { *ep = *++bp; if (!bp->m_size) break; }\<close>, started at the
  head of the given rest of the array: everything up to and including the terminator moves one
  slot to the left. \<open>None\<close>: the array has no terminator.
\<close>

fun shift_left :: "mapent list \<Rightarrow> mapent list option" where
  "shift_left (e # f # es) =
     (if m_size f = 0 then Some (f # f # es) else map_option ((#) f) (shift_left (f # es)))"
| "shift_left _ = None"

text \<open>
  The search loop of \<open>malloc\<close>, at the slot \<open>bp\<close> that is the head of the list. \<open>Inl\<close>: the
  terminator was reached, no entry is big enough.
\<close>

fun first_fit :: "u_int \<Rightarrow> mapent list \<Rightarrow> (unit + u_int \<times> mapent list) option" where
  "first_fit sz [] = None"
| "first_fit sz (e # es) =
     (if m_size e = 0 then Some (Inl ())
      else if sz \<le> m_size e then
        (let addr = m_addr e; e' = e\<lparr>m_size := m_size e - sz\<rparr> in
         if m_size e' \<noteq> 0 then Some (Inr (addr, e'\<lparr>m_addr := m_addr e + sz\<rparr> # es))
         else map_option (\<lambda>es'. Inr (addr, es')) (shift_left (e' # es)))
      else map_option (map_sum id (map_prod id ((#) e))) (first_fit sz es))"

text \<open>One pass of the code between the label \<open>again\<close> and \<open>return(addr)\<close>.\<close>

definition malloc_once ::
  "mapid \<Rightarrow> u_int \<Rightarrow> 'a vmem_scheme \<Rightarrow> (unit + u_int \<times> 'a vmem_scheme) option" where
  "malloc_once mp sz s =
     map_option (map_sum id (map_prod id (\<lambda>es. put_map mp ((get_map mp s)\<lparr>m_map := es\<rparr>) s)))
       (first_fit sz (m_map (get_map mp s)))"

text \<open>
  \<open>malloc\<close>. \<open>xumount\<close> stands for \<open>xumount(NODEV)\<close>, \<open>xuncore n\<close> for \<open>xuncore(n)\<close>, the
  routines of vm_text.c that give unused shared text back to the maps before the one retry;
  their effect on the state is an argument. The panic on a zero size is \<open>None\<close>, the null
  result is the address 0.
\<close>

definition malloc ::
  "('a vmem_scheme \<Rightarrow> 'a vmem_scheme) \<Rightarrow> (u_int \<Rightarrow> 'a vmem_scheme \<Rightarrow> 'a vmem_scheme) \<Rightarrow>
   mapid \<Rightarrow> u_int \<Rightarrow> 'a vmem_scheme \<Rightarrow> (u_int \<times> 'a vmem_scheme) option" where
  "malloc xumount xuncore mp sz s =
     (if sz = 0 then None
      else do {
        r \<leftarrow> malloc_once mp sz s;
        case r of
          Inr found \<Rightarrow> Some found
        | Inl _ \<Rightarrow>
           (if mp = Ubmap then Some (0, s)
            else do {
              let s1 = (if mp = Swapmap
                        then xumount (s\<lparr>notices := ShortOfSwap # notices s\<rparr>)
                        else xuncore sz s);
              r' \<leftarrow> malloc_once mp sz s1;
              case r' of Inr found \<Rightarrow> Some found | Inl _ \<Rightarrow> Some (0, s1)
            })
      })"

section \<open>mfree\<close>

text \<open>
  The loop that looks for the piece starting after the returned space: the number of slots it
  passes.
\<close>

fun find_slot :: "u_int \<Rightarrow> mapent list \<Rightarrow> nat option" where
  "find_slot addr [] = None"
| "find_slot addr (e # es) =
     (if m_size e \<noteq> 0 \<and> m_addr e \<le> addr then map_option Suc (find_slot addr es) else Some 0)"

text \<open>\<open>for (start = bp; bp->m_size; ++bp);\<close>: the number of slots passed.\<close>

fun find_end :: "mapent list \<Rightarrow> nat option" where
  "find_end [] = None"
| "find_end (e # es) = (if m_size e \<noteq> 0 then map_option Suc (find_end es) else Some 0)"

text \<open>
  \<open>for (ep = bp - 1; ep >= start; *bp-- = *ep--);\<close>, where \<open>bp\<close> is the slot behind the
  terminator: slots \<open>start\<close> to \<open>stop\<close> move one to the right, the last one first.
\<close>

definition shift_right :: "nat \<Rightarrow> nat \<Rightarrow> mapent list \<Rightarrow> mapent list" where
  "shift_right start stop es =
     fold (\<lambda>ep es. es[Suc ep := es ! ep]) (rev [start ..< Suc stop]) es"

text \<open>
  \<open>mfree\<close> on the array. The result carries \<open>True\<close> when the map was full and the space is
  lost. \<open>None\<close>: a missing terminator, or the new entry written behind the end of the array.
\<close>

definition mfree_map ::
  "nat \<Rightarrow> u_int \<Rightarrow> u_int \<Rightarrow> mapent list \<Rightarrow> (bool \<times> mapent list) option" where
  "mfree_map limit sz addr es = do {
     bp \<leftarrow> find_slot addr es;
     let ep = bp - 1;
     if bp \<noteq> 0 \<and> m_addr (es ! ep) + m_size (es ! ep) \<ge> addr then do {
       let es = es[ep := (es ! ep)\<lparr>m_size := m_size (es ! ep) + sz\<rparr>];
       if m_size (es ! bp) \<noteq> 0 \<and> addr + sz \<ge> m_addr (es ! bp) then do {
         let es = es[ep := (es ! ep)\<lparr>m_size := m_size (es ! ep) + m_size (es ! bp)\<rparr>];
         rest \<leftarrow> shift_left (drop bp es);
         Some (False, take bp es @ rest)
       } else Some (False, es)
     }
     else if m_size (es ! bp) \<noteq> 0 \<and> addr + sz \<ge> m_addr (es ! bp) then
       Some (False, es[bp := \<lparr>m_size = m_size (es ! bp) + sz, m_addr = addr\<rparr>])
     else do {
       n \<leftarrow> find_end (drop bp es);
       let t = bp + n;
       if Suc t > limit then Some (True, es)
       else if Suc t \<ge> length es then None
       else Some (False, (shift_right bp t es)[bp := \<lparr>m_size = sz, m_addr = addr\<rparr>])
     }
   }"

text \<open>
  The whole routine: nothing for size 0, a panic for address 0, a wakeup of the swapper when
  core is given back, and the warning when the map overflows. The warning's format string says
  "lost %u clicks at 0%o", its arguments are the address and then the size.
\<close>

definition mfree :: "mapid \<Rightarrow> u_int \<Rightarrow> u_int \<Rightarrow> 'a vmem_scheme \<Rightarrow> 'a vmem_scheme option" where
  "mfree mp sz addr s =
     (if sz = 0 then Some s
      else if addr = 0 then None
      else do {
        let s1 = (if mp = Coremap \<and> runin s
                  then s\<lparr>runin := False, runin_wakeups := Suc (runin_wakeups s)\<rparr> else s);
        (lost, es) \<leftarrow> mfree_map (m_limit (get_map mp s1)) sz addr (m_map (get_map mp s1));
        let s2 = put_map mp ((get_map mp s1)\<lparr>m_map := es\<rparr>) s1;
        Some (if lost then s2\<lparr>notices := Overflow (m_name (get_map mp s2)) addr sz # notices s2\<rparr>
              else s2)
      })"

section \<open>malloc3\<close>

text \<open>
  The local variables of \<open>malloc3\<close>: the array, \<open>madd\<close> (the entry each request was given, as
  an index), \<open>remap\<close> (the first entry that became empty) and \<open>found\<close>.
\<close>

record m3 =
  m3_map :: "mapent list"
  m3_madd :: "nat option list"
  m3_remap :: "nat option"
  m3_found :: nat

text \<open>The body of the inner loop, for the entry \<open>bp\<close> and the request \<open>next\<close>; after the third
  find the code has left the loops, so nothing more happens.\<close>

definition m3_step :: "u_int list \<Rightarrow> nat \<Rightarrow> nat \<Rightarrow> m3 \<Rightarrow> m3" where
  "m3_step sizes bp nx v =
     (let e = m3_map v ! bp in
      if m3_found v \<noteq> 3 \<and> m3_madd v ! nx = None \<and> sizes ! nx \<le> m_size e then
        v\<lparr>m3_madd := (m3_madd v)[nx := Some bp],
          m3_map := (m3_map v)[bp := e\<lparr>m_size := m_size e - sizes ! nx\<rparr>],
          m3_remap := (if m_size e - sizes ! nx = 0 \<and> m3_remap v = None then Some bp
                       else m3_remap v),
          m3_found := Suc (m3_found v)\<rparr>
      else v)"

text \<open>The outer loop; the first argument counts the slots left in the array.\<close>

fun m3_scan :: "nat \<Rightarrow> u_int list \<Rightarrow> nat \<Rightarrow> m3 \<Rightarrow> m3 option" where
  "m3_scan 0 sizes bp v = None"
| "m3_scan (Suc k) sizes bp v =
     (if m_size (m3_map v ! bp) = 0 then Some v
      else let v' = fold (m3_step sizes bp) [0, 1, 2] v in
        if m3_found v' = 3 then Some v' else m3_scan k sizes (Suc bp) v')"

text \<open>Give the sizes back after a failed pass.\<close>

definition m3_restore :: "u_int list \<Rightarrow> m3 \<Rightarrow> mapent list" where
  "m3_restore sizes v =
     fold (\<lambda>nx es. case m3_madd v ! nx of None \<Rightarrow> es
        | Some bp \<Rightarrow> es[bp := (es ! bp)\<lparr>m_size := m_size (es ! bp) + sizes ! nx\<rparr>])
       [0, 1, 2] (m3_map v)"

text \<open>The code at the label \<open>resolve\<close>: the three addresses, and the array with them advanced.\<close>

definition m3_resolve :: "u_int list \<Rightarrow> m3 \<Rightarrow> u_int list \<times> mapent list" where
  "m3_resolve sizes v =
     fold (\<lambda>nx (a, es). let bp = the (m3_madd v ! nx) in
        (a @ [m_addr (es ! bp)], es[bp := (es ! bp)\<lparr>m_addr := m_addr (es ! bp) + sizes ! nx\<rparr>]))
       [0, 1, 2] ([], m3_map v)"

text \<open>The final loop, which drops entries of size 0; it ends on an address of 0. The first
  argument counts the slots left.\<close>

fun m3_compact :: "nat \<Rightarrow> nat \<Rightarrow> nat \<Rightarrow> mapent list \<Rightarrow> mapent list option" where
  "m3_compact 0 r bp es = None"
| "m3_compact (Suc k) r bp es =
     (if m_size (es ! bp) \<noteq> 0 \<or> m_addr (es ! bp) = 0 then
        (let es' = es[r := es ! bp] in
         if m_addr (es ! bp) = 0 then Some es' else m3_compact k (Suc r) (Suc bp) es')
      else m3_compact k r (Suc bp) es)"

text \<open>One pass: \<open>Inl\<close> carries the array with the old sizes restored, \<open>Inr\<close> the three
  addresses (data, stack, u.) and the array after the allocation.\<close>

definition malloc3_once ::
  "u_int list \<Rightarrow> mapent list \<Rightarrow> (mapent list + u_int list \<times> mapent list) option" where
  "malloc3_once sizes es = do {
     v \<leftarrow> m3_scan (length es) sizes 0
           \<lparr>m3_map = es, m3_madd = [None, None, None], m3_remap = None, m3_found = 0\<rparr>;
     if m3_found v = 3 then do {
       let (a, es1) = m3_resolve sizes v;
       es2 \<leftarrow> (case m3_remap v of None \<Rightarrow> Some es1
               | Some r \<Rightarrow> m3_compact (length es1 - Suc r) r (Suc r) es1);
       Some (Inr (a, es2))
     } else Some (Inl (m3_restore sizes v))
   }"

definition malloc3 ::
  "('a vmem_scheme \<Rightarrow> 'a vmem_scheme) \<Rightarrow> (u_int \<Rightarrow> 'a vmem_scheme \<Rightarrow> 'a vmem_scheme) \<Rightarrow>
   mapid \<Rightarrow> u_int \<Rightarrow> u_int \<Rightarrow> u_int \<Rightarrow> 'a vmem_scheme \<Rightarrow>
   (u_int \<times> u_int list \<times> 'a vmem_scheme) option" where
  "malloc3 xumount xuncore mp d_size s_size u_size s =
     (let sizes = [d_size, s_size, u_size];
          set_es = (\<lambda>es st. put_map mp ((get_map mp st)\<lparr>m_map := es\<rparr>) st) in
      do {
        r \<leftarrow> malloc3_once sizes (m_map (get_map mp s));
        case r of
          Inr (a, es) \<Rightarrow> Some (a ! 2, a, set_es es s)
        | Inl es \<Rightarrow>
            (let s1 = set_es es s in
             if mp = Ubmap then Some (0, [], s1)
             else do {
               let s2 = (if mp = Swapmap then xumount (s1\<lparr>notices := ShortOfSwap # notices s1\<rparr>)
                         else xuncore d_size (xuncore s_size (xuncore u_size s1)));
               r' \<leftarrow> malloc3_once sizes (m_map (get_map mp s2));
               case r' of
                 Inr (a, es') \<Rightarrow> Some (a ! 2, a, set_es es' s2)
               | Inl es' \<Rightarrow> Some (0, [], set_es es' s2)
             })
      })"

end
