(* ===== verification/Segments.thy ===== *)
theory Segments imports Prelude begin

text \<open>
  The abstract view of a resource map: a list of segments (base, length) over the natural
  numbers, sorted and never adjacent, and the set of addresses it stands for. A set of
  addresses has at most one such list (\<open>segs_from_unique\<close>), so statements about the set
  determine the map.
\<close>

type_synonym segment = "nat \<times> nat"

text \<open>Sorted, non-empty, separated by a gap, starting above \<open>lo\<close>, below 2^16.\<close>

fun segs_from :: "nat \<Rightarrow> segment list \<Rightarrow> bool" where
  "segs_from lo [] \<longleftrightarrow> True"
| "segs_from lo ((a, n) # xs) \<longleftrightarrow> lo < a \<and> 0 < n \<and> a + n < 65536 \<and> segs_from (a + n) xs"

fun cells :: "segment list \<Rightarrow> nat set" where
  "cells [] = {}"
| "cells ((a, n) # xs) = {a ..< a + n} \<union> cells xs"

text \<open>First fit, and return of a piece with coalescing on both sides.\<close>

fun seg_alloc :: "nat \<Rightarrow> segment list \<Rightarrow> (nat \<times> segment list) option" where
  "seg_alloc n [] = None"
| "seg_alloc n ((a, m) # xs) =
     (if n \<le> m then Some (a, if n = m then xs else (a + n, m - n) # xs)
      else map_option (map_prod id ((#) (a, m))) (seg_alloc n xs))"

fun seg_free :: "nat \<Rightarrow> nat \<Rightarrow> segment list \<Rightarrow> segment list" where
  "seg_free a n [] = [(a, n)]"
| "seg_free a n ((b, m) # xs) =
     (if a + n < b then (a, n) # (b, m) # xs
      else if a + n = b then (a, n + m) # xs
      else if b + m = a then seg_free b (m + n) xs
      else (b, m) # seg_free a n xs)"

section \<open>Elementary facts\<close>

lemma segs_from_mono [seg_simps]: "segs_from lo xs \<Longrightarrow> lo' \<le> lo \<Longrightarrow> segs_from lo' xs"
  by (cases xs) auto

lemma cells_above: "segs_from lo xs \<Longrightarrow> x \<in> cells xs \<Longrightarrow> lo < x"
proof (induction lo xs rule: segs_from.induct)
  case (2 lo a n xs)
  then show ?case by fastforce
qed simp

lemma cells_below: "segs_from lo xs \<Longrightarrow> x \<in> cells xs \<Longrightarrow> x < 65536"
proof (induction lo xs rule: segs_from.induct)
  case (2 lo a n xs)
  then show ?case by fastforce
qed simp

lemma base_in_cells: "segs_from lo ((a, n) # xs) \<Longrightarrow> a \<in> cells ((a, n) # xs)"
  by simp

lemma end_notin_cells: "segs_from lo ((a, n) # xs) \<Longrightarrow> a + n \<notin> cells ((a, n) # xs)"
  by (auto dest: cells_above)

lemma cells_append [simp]: "cells (xs @ ys) = cells xs \<union> cells ys"
  by (induction xs rule: cells.induct) auto

lemma segs_from_append:
  "segs_from lo (xs @ ys) \<longleftrightarrow>
     segs_from lo xs \<and> segs_from (if xs = [] then lo else fst (last xs) + snd (last xs)) ys"
  by (induction lo xs rule: segs_from.induct) auto

lemma intervals_apart:
  fixes a b n m :: nat
  assumes "{a ..< a + n} \<inter> {b ..< b + m} = {}" "0 < n" "0 < m"
  shows "a + n \<le> b \<or> b + m \<le> a"
proof (rule ccontr)
  assume "\<not> ?thesis"
  then have "max a b \<in> {a ..< a + n} \<inter> {b ..< b + m}" using assms(2,3) by auto
  with assms(1) show False by blast
qed

text \<open>A set of addresses determines its segment list.\<close>

lemma segs_head_eq:
  assumes x: "segs_from lo ((a, n) # xs)" and y: "segs_from lo' ((b, m) # ys)"
    and eq: "cells ((a, n) # xs) = cells ((b, m) # ys)"
  shows "a = b \<and> n = m"
proof -
  have "a \<le> v" if "v \<in> cells ((a, n) # xs)" for v
    using that x by (auto dest: cells_above)
  moreover have "b \<le> v" if "v \<in> cells ((b, m) # ys)" for v
    using that y by (auto dest: cells_above)
  ultimately have ab: "a = b"
    using base_in_cells [OF x] base_in_cells [OF y] eq by (metis le_antisym)
  have "a + n \<notin> {b ..< b + m}" "b + m \<notin> {a ..< a + n}"
    using end_notin_cells [OF x] end_notin_cells [OF y] eq by auto
  with ab x y show ?thesis by auto
qed

lemma segs_from_unique:
  "segs_from lo xs \<Longrightarrow> segs_from lo' ys \<Longrightarrow> cells xs = cells ys \<Longrightarrow> xs = ys"
proof (induction xs arbitrary: lo lo' ys)
  case Nil
  then show ?case by (cases ys) (auto dest: base_in_cells)
next
  case (Cons p xs)
  obtain a n where p: "p = (a, n)" by force
  from Cons.prems p obtain b m zs where ys: "ys = (b, m) # zs"
    by (cases ys) (auto dest: base_in_cells)
  have eq: "a = b \<and> n = m" using segs_head_eq Cons.prems p ys by blast
  have "cells zs = cells ((b, m) # zs) - {b ..< b + m}"
    using Cons.prems(2) ys by (auto dest: cells_above)
  moreover have "cells xs = cells ((a, n) # xs) - {a ..< a + n}"
    using Cons.prems(1) p by (auto dest: cells_above)
  ultimately have "cells xs = cells zs" using Cons.prems(3) eq p ys by simp
  then show ?case using Cons.IH [of "a + n" "b + m" zs] Cons.prems p ys eq by simp
qed

section \<open>Allocation\<close>

lemma seg_alloc_None: "seg_alloc n xs = None \<longleftrightarrow> (\<forall>(a, m) \<in> set xs. m < n)"
  by (induction n xs rule: seg_alloc.induct) auto

lemma seg_alloc_Some:
  assumes "segs_from lo xs" "0 < n" "seg_alloc n xs = Some (a, ys)"
  shows "segs_from lo ys \<and> lo < a \<and> a + n < 65536 \<and> {a ..< a + n} \<subseteq> cells xs \<and>
         cells ys = cells xs - {a ..< a + n}"
  using assms
proof (induction n xs arbitrary: lo a ys rule: seg_alloc.induct)
  case (1 n)
  then show ?case by simp
next
  case (2 n b m xs)
  show ?case
  proof (cases "n \<le> m")
    case True
    have "cells xs \<inter> {b ..< b + m} = {}" using "2.prems"(1) by (auto dest: cells_above)
    with True "2.prems" show ?thesis by (cases "n = m") (auto elim: segs_from_mono)
  next
    case False
    with "2.prems" obtain zs where zs: "seg_alloc n xs = Some (a, zs)" "ys = (b, m) # zs" by auto
    have IH: "segs_from (b + m) zs \<and> b + m < a \<and> a + n < 65536 \<and> {a ..< a + n} \<subseteq> cells xs \<and>
        cells zs = cells xs - {a ..< a + n}"
      using "2.IH" [OF False, of "b + m" a zs] "2.prems" zs by simp
    then show ?thesis using "2.prems" zs by auto
  qed
qed

section \<open>Return\<close>

lemma seg_free_correct:
  assumes "segs_from lo xs" "lo < a" "0 < n" "a + n < 65536" "{a ..< a + n} \<inter> cells xs = {}"
  shows "segs_from lo (seg_free a n xs) \<and> cells (seg_free a n xs) = cells xs \<union> {a ..< a + n}"
  using assms
proof (induction a n xs arbitrary: lo rule: seg_free.induct)
  case (1 a n)
  then show ?case by simp
next
  case (2 a n b m xs)
  have rest: "segs_from (b + m) xs" and mb: "0 < m" "lo < b" "b + m < 65536"
    using "2.prems" by simp_all
  have disj: "{a ..< a + n} \<inter> {b ..< b + m} = {}" "{a ..< a + n} \<inter> cells xs = {}"
    using "2.prems"(5) unfolding cells.simps by blast+
  have "a + n \<le> b \<or> b + m \<le> a"
    using intervals_apart [OF disj(1) "2.prems"(3) mb(1)] .
  then consider "a + n < b" | "a + n = b" | "b + m = a" "b < a" | "b + m < a"
    using "2.prems"(3) mb(1) by linarith
  then show ?case
  proof cases
    case 1
    then show ?thesis using "2.prems" by auto
  next
    case 2
    then show ?thesis using "2.prems" by (auto simp: add.assoc)
  next
    case 3
    have "{b ..< b + (m + n)} = {b ..< b + m} \<union> {a ..< a + n}" using 3 by auto
    moreover have "{b ..< b + m} \<inter> cells xs = {}" using rest by (auto dest: cells_above)
    moreover have "segs_from lo xs" using rest mb by (auto elim: segs_from_mono)
    ultimately show ?thesis
      using "2.IH"(1) [of lo] 3 "2.prems" mb disj by (auto simp: Int_Un_distrib2)
  next
    case 4
    then show ?thesis using "2.IH"(2) [of "b + m"] rest "2.prems" disj mb by auto
  qed
qed

text \<open>Returning what first fit took restores the map.\<close>

lemma seg_free_alloc:
  assumes "segs_from 0 xs" "0 < n" "seg_alloc n xs = Some (a, ys)"
  shows "seg_free a n ys = xs"
proof -
  note al = seg_alloc_Some [OF assms]
  then have "segs_from 0 (seg_free a n ys) \<and> cells (seg_free a n ys) = cells ys \<union> {a ..< a + n}"
    using assms(2) by (intro seg_free_correct) auto
  moreover have "cells ys \<union> {a ..< a + n} = cells xs" using al by auto
  ultimately show ?thesis using segs_from_unique assms(1) by metis
qed

end
