(* ===== verification/Space_Allocator.thy ===== *)
theory Space_Allocator imports Prelude begin

text \<open>
  What the kernel relies on when it takes and returns address space: the interface
  \<open>space_allocator\<close>, and what follows for any sequence of requests, that the pieces handed
  out never overlap each other nor the free space.
\<close>

definition block :: "u_int \<Rightarrow> u_int \<Rightarrow> nat set" where
  "block a n = {unat a ..< unat a + unat n}"

lemma block_nonempty: "n \<noteq> 0 \<Longrightarrow> unat a \<in> block a n"
  by (simp add: block_def unat_gt_0)

text \<open>A piece a caller may hold: not empty, not at address 0, within the address space.\<close>

definition good_block :: "u_int \<times> u_int \<Rightarrow> bool" where
  "good_block p \<longleftrightarrow> fst p \<noteq> 0 \<and> snd p \<noteq> 0 \<and> unat (fst p) + unat (snd p) < 65536"

locale space_allocator =
  fixes get :: "u_int \<Rightarrow> 'm \<Rightarrow> (u_int \<times> 'm) option"
    and give :: "u_int \<Rightarrow> u_int \<Rightarrow> 'm \<Rightarrow> 'm"
    and space :: "'m \<Rightarrow> nat set"
    and inv :: "'m \<Rightarrow> bool"
  assumes get_inv: "inv m \<Longrightarrow> n \<noteq> 0 \<Longrightarrow> get n m = Some (a, m') \<Longrightarrow> inv m'"
    and get_good: "inv m \<Longrightarrow> n \<noteq> 0 \<Longrightarrow> get n m = Some (a, m') \<Longrightarrow> good_block (a, n)"
    and get_free: "inv m \<Longrightarrow> n \<noteq> 0 \<Longrightarrow> get n m = Some (a, m') \<Longrightarrow> block a n \<subseteq> space m"
    and get_space: "inv m \<Longrightarrow> n \<noteq> 0 \<Longrightarrow> get n m = Some (a, m') \<Longrightarrow>
        space m' = space m - block a n"
    and give_inv: "inv m \<Longrightarrow> good_block (a, n) \<Longrightarrow> block a n \<inter> space m = {} \<Longrightarrow> inv (give n a m)"
    and give_space: "inv m \<Longrightarrow> good_block (a, n) \<Longrightarrow> block a n \<inter> space m = {} \<Longrightarrow>
        space (give n a m) \<subseteq> space m \<union> block a n"

text \<open>Runs of requests and returns; the list holds the pieces that are out.\<close>

inductive alloc_run ::
  "(u_int \<Rightarrow> 'm \<Rightarrow> (u_int \<times> 'm) option) \<Rightarrow> (u_int \<Rightarrow> u_int \<Rightarrow> 'm \<Rightarrow> 'm) \<Rightarrow> 'm \<Rightarrow>
   'm \<Rightarrow> (u_int \<times> u_int) list \<Rightarrow> bool" for get give m0 where
  run_start: "alloc_run get give m0 m0 []"
| run_get: "alloc_run get give m0 m A \<Longrightarrow> n \<noteq> 0 \<Longrightarrow> get n m = Some (a, m') \<Longrightarrow>
     alloc_run get give m0 m' ((a, n) # A)"
| run_give: "alloc_run get give m0 m A \<Longrightarrow> (a, n) \<in> set A \<Longrightarrow>
     alloc_run get give m0 (give n a m) (remove1 (a, n) A)"

text \<open>The pieces in a list are pairwise disjoint.\<close>

fun apart :: "(u_int \<times> u_int) list \<Rightarrow> bool" where
  "apart [] \<longleftrightarrow> True"
| "apart (p # ps) \<longleftrightarrow>
     (\<forall>q \<in> set ps. block (fst p) (snd p) \<inter> block (fst q) (snd q) = {}) \<and> apart ps"

definition held :: "(u_int \<times> u_int) list \<Rightarrow> nat set" where
  "held A = (\<Union>p \<in> set A. block (fst p) (snd p))"

lemma held_Cons [simp]: "held (p # A) = block (fst p) (snd p) \<union> held A"
  by (simp add: held_def)

lemma held_Nil [simp]: "held [] = {}"
  by (simp add: held_def)

lemma apart_remove1: "apart A \<Longrightarrow> apart (remove1 p A)"
  by (induction A) (auto dest: notin_set_remove1 [THEN contrapos_pp] set_remove1_subset [THEN subsetD])

lemma apart_Cons: "apart (p # A) \<longleftrightarrow> block (fst p) (snd p) \<inter> held A = {} \<and> apart A"
  by (auto simp: held_def)

lemma held_remove1:
  assumes "apart A" "p \<in> set A" "snd p \<noteq> 0"
  shows "held (remove1 p A) = held A - block (fst p) (snd p)"
  using assms
proof (induction A)
  case Nil
  then show ?case by simp
next
  case (Cons q A)
  show ?case
  proof (cases "p = q")
    case True
    then show ?thesis using Cons.prems(1) unfolding apart_Cons by auto
  next
    case False
    then have p: "p \<in> set A" using Cons.prems(2) by simp
    then have "block (fst q) (snd q) \<inter> block (fst p) (snd p) = {}" using Cons.prems(1) by auto
    moreover have "held (remove1 p A) = held A - block (fst p) (snd p)"
      using Cons.IH Cons.prems p by simp
    ultimately show ?thesis using False by auto
  qed
qed

context space_allocator begin

lemma run_safe:
  assumes "alloc_run get give m0 m A" "inv m0"
  shows "inv m \<and> apart A \<and> held A \<inter> space m = {} \<and> space m \<union> held A \<subseteq> space m0 \<and>
    (\<forall>p \<in> set A. good_block p)"
  using assms(1)
proof (induction rule: alloc_run.induct)
  case run_start
  then show ?case using assms(2) by simp
next
  case (run_get m A n a m')
  note free = get_free [of m n a m'] and space = get_space [of m n a m']
  have "block a n \<inter> held A = {}" using run_get free by blast
  then have "apart ((a, n) # A)" using run_get unfolding apart_Cons by simp
  moreover have "held ((a, n) # A) \<inter> space m' = {}" using run_get space by auto
  moreover have "space m' \<union> held ((a, n) # A) \<subseteq> space m0" using run_get space free by auto
  ultimately show ?case using run_get get_inv get_good by auto
next
  case (run_give m A a n)
  then have g: "good_block (a, n)" and n: "n \<noteq> 0" by (auto simp: good_block_def)
  have sub: "block a n \<subseteq> held A" using run_give.hyps(2) by (force simp: held_def)
  then have d: "block a n \<inter> space m = {}" using run_give.IH by blast
  have h: "held (remove1 (a, n) A) = held A - block a n"
    using held_remove1 [of A "(a, n)"] run_give n by simp
  have s: "space (give n a m) \<subseteq> space m \<union> block a n" using give_space g d run_give.IH by blast
  have "held (remove1 (a, n) A) \<inter> space (give n a m) = {}" using h s run_give.IH by blast
  moreover have "space (give n a m) \<union> held (remove1 (a, n) A) \<subseteq> space m0"
    using h s sub run_give.IH by blast
  moreover have "\<forall>p \<in> set (remove1 (a, n) A). good_block p"
    using run_give.IH set_remove1_subset by fastforce
  ultimately show ?case using give_inv [OF _ g d] run_give.IH apart_remove1 by blast
qed

end

end
