(* ===== verification/ResourceMapSpec.thy ===== *)
theory ResourceMapSpec imports ResourceMap Segments Space_Allocator begin

text \<open>
  The array operations of \<open>ResourceMap\<close> refine the segment lists of \<open>Segments\<close>: the segments
  of an array are its entries before the terminator.
\<close>

definition seg :: "mapent \<Rightarrow> segment" where
  "seg e = (unat (m_addr e), unat (m_size e))"

definition live :: "mapent list \<Rightarrow> mapent list" where
  "live es = takeWhile (\<lambda>e. m_size e \<noteq> 0) es"

definition segs :: "mapent list \<Rightarrow> segment list" where
  "segs es = map seg (live es)"

definition terminated :: "mapent list \<Rightarrow> bool" where
  "terminated es \<longleftrightarrow> (\<exists>e \<in> set es. m_size e = 0)"

text \<open>The invariant of a map: a terminator, and sorted, separated, non-wrapping segments above
  address 0.\<close>

definition wf_arr :: "mapent list \<Rightarrow> bool" where
  "wf_arr es \<longleftrightarrow> terminated es \<and> segs_from 0 (segs es)"

section \<open>Arrays as live entries, terminator, garbage\<close>

lemma live_append [simp]:
  "\<forall>u \<in> set us. m_size u \<noteq> 0 \<Longrightarrow> m_size t = 0 \<Longrightarrow> live (us @ t # gs) = us"
  by (induction us) (auto simp: live_def)

lemma terminated_append [simp]: "m_size t = 0 \<Longrightarrow> terminated (us @ t # gs)"
  by (auto simp: terminated_def)

lemma segs_arr:
  "\<forall>u \<in> set us. m_size u \<noteq> 0 \<Longrightarrow> m_size t = 0 \<Longrightarrow> es = us @ t # gs \<Longrightarrow> segs es = map seg us"
  by (simp add: segs_def)

lemma arr_split:
  assumes "terminated es"
  obtains us t gs where "es = us @ t # gs" "\<forall>u \<in> set us. m_size u \<noteq> 0" "m_size t = 0"
  using assms unfolding terminated_def
proof (induction es arbitrary: thesis)
  case Nil
  then show ?case by simp
next
  case (Cons e es)
  show ?case
  proof (cases "m_size e = 0")
    case True
    then show ?thesis using Cons.prems(1) [of "[]" e es] by simp
  next
    case False
    then show ?thesis using Cons.IH Cons.prems
      by (metis append_Cons set_ConsD)
  qed
qed

lemma unat_seg_pos: "m_size e \<noteq> 0 \<longleftrightarrow> 0 < snd (seg e)"
  by (simp add: seg_def unat_gt_0)

section \<open>malloc\<close>

lemma shift_left_append [seg_simps]:
  "\<forall>u \<in> set us. m_size u \<noteq> 0 \<Longrightarrow> m_size t = 0 \<Longrightarrow>
   shift_left (e # us @ t # gs) = Some (us @ t # t # gs)"
  by (induction us arbitrary: e) auto

lemma first_fit_fails:
  assumes "\<forall>u \<in> set us. m_size u \<noteq> 0" "m_size t = 0" "seg_alloc (unat sz) (map seg us) = None"
  shows "first_fit sz (us @ t # gs) = Some (Inl ())"
  using assms
proof (induction us)
  case (Cons u us)
  then have "\<not> sz \<le> m_size u"
    by (auto simp: seg_alloc_None seg_def word_le_nat_alt)
  with Cons show ?case by (auto simp: seg_alloc_None)
qed simp

lemma first_fit_finds:
  assumes "\<forall>u \<in> set us. m_size u \<noteq> 0" "m_size t = 0" "segs_from lo (map seg us)" "sz \<noteq> 0"
    and "seg_alloc (unat sz) (map seg us) = Some (a, xs)"
  shows "\<exists>w vs gs'. first_fit sz (us @ t # gs) = Some (Inr (w, vs @ t # gs')) \<and> unat w = a \<and>
    map seg vs = xs \<and> (\<forall>v \<in> set vs. m_size v \<noteq> 0) \<and>
    length (vs @ t # gs') = length (us @ t # gs)"
  using assms
proof (induction us arbitrary: lo a xs)
  case Nil
  then show ?case by simp
next
  case (Cons u us)
  have su: "seg u = (unat (m_addr u), unat (m_size u))" by (simp add: seg_def)
  have u: "m_size u \<noteq> 0" "unat (m_addr u) + unat (m_size u) < 65536"
    using Cons.prems by (auto simp: seg_def)
  show ?case
  proof (cases "sz \<le> m_size u")
    case True
    then have le: "unat sz \<le> unat (m_size u)" by (simp add: word_le_nat_alt)
    show ?thesis
    proof (cases "sz = m_size u")
      case True
      have "first_fit sz ((u # us) @ t # gs) = Some (Inr (m_addr u, us @ t # t # gs))"
        using u True Cons.prems by (simp add: shift_left_append Let_def)
      then show ?thesis using Cons.prems True by (fastforce simp: seg_def)
    next
      case False
      then have ne: "unat sz \<noteq> unat (m_size u)" by (simp add: unat16_inj)
      then have nz: "m_size u - sz \<noteq> 0" using False by simp
      let ?u = "u\<lparr>m_size := m_size u - sz, m_addr := m_addr u + sz\<rparr>"
      have "seg ?u = (unat (m_addr u) + unat sz, unat (m_size u) - unat sz)"
        using le u(2) \<open>sz \<le> m_size u\<close> by (simp add: seg_def unat16_add unat16_sub)
      moreover have "first_fit sz ((u # us) @ t # gs) = Some (Inr (m_addr u, (?u # us) @ t # gs))"
        using u nz \<open>sz \<le> m_size u\<close> by (simp add: Let_def)
      ultimately show ?thesis using Cons.prems le ne nz
        by (intro exI [of _ "m_addr u"] exI [of _ "?u # us"] exI [of _ gs]) (auto simp: seg_def)
    qed
  next
    case False
    then have "\<not> unat sz \<le> unat (m_size u)" by (simp add: word_le_nat_alt)
    with Cons.prems obtain ys where ys: "seg_alloc (unat sz) (map seg us) = Some (a, ys)"
      "xs = seg u # ys" by (auto simp: su)
    have "segs_from (unat (m_addr u) + unat (m_size u)) (map seg us)"
      using Cons.prems by (simp add: su)
    from Cons.IH [OF _ Cons.prems(2) this Cons.prems(4) ys(1)] Cons.prems(1)
    obtain w vs gs' where "first_fit sz (us @ t # gs) = Some (Inr (w, vs @ t # gs'))"
      "unat w = a" "map seg vs = ys" "\<forall>v \<in> set vs. m_size v \<noteq> 0"
      "length (vs @ t # gs') = length (us @ t # gs)" by auto
    then show ?thesis using False u ys
      by (intro exI [of _ w] exI [of _ "u # vs"] exI [of _ gs']) auto
  qed
qed

text \<open>Both in one statement over arrays.\<close>

lemma first_fit_refines:
  assumes "wf_arr es" "sz \<noteq> 0"
  shows "case seg_alloc (unat sz) (segs es) of
      None \<Rightarrow> first_fit sz es = Some (Inl ())
    | Some (a, xs) \<Rightarrow> \<exists>w es'. first_fit sz es = Some (Inr (w, es')) \<and> unat w = a \<and>
        segs es' = xs \<and> wf_arr es' \<and> length es' = length es"
proof -
  from assms(1) obtain us t gs where es: "es = us @ t # gs" "\<forall>u \<in> set us. m_size u \<noteq> 0"
    "m_size t = 0" by (auto simp: wf_arr_def elim: arr_split)
  then have so: "segs_from 0 (map seg us)" using assms(1) by (simp add: wf_arr_def segs_def)
  show ?thesis
  proof (cases "seg_alloc (unat sz) (segs es)")
    case None
    then show ?thesis using first_fit_fails [OF es(2,3)] es by (simp add: segs_def)
  next
    case (Some p)
    obtain a xs where p: "p = (a, xs)" by force
    have al: "seg_alloc (unat sz) (map seg us) = Some (a, xs)" using Some p es by (simp add: segs_def)
    from first_fit_finds [OF es(2,3) so assms(2) al]
    obtain w vs gs' where r: "first_fit sz es = Some (Inr (w, vs @ t # gs'))" "unat w = a"
      "map seg vs = xs" "\<forall>v \<in> set vs. m_size v \<noteq> 0" "length (vs @ t # gs') = length es"
      using es(1) by blast
    have "segs_from 0 xs" using seg_alloc_Some [OF so _ al] assms(2) by (simp add: unat_gt_0)
    then have "wf_arr (vs @ t # gs')" using r es(3) by (simp add: wf_arr_def segs_def)
    then show ?thesis using r es(3) Some p by (auto simp: segs_def)
  qed
qed

section \<open>mfree\<close>

lemma seg_in_cells: "segs_from lo xs \<Longrightarrow> p \<in> set xs \<Longrightarrow> fst p \<in> cells xs"
  by (induction lo xs rule: segs_from.induct) auto

lemma find_slot_append:
  assumes "\<forall>u \<in> set ls. m_size u \<noteq> 0 \<and> m_addr u \<le> addr" "\<not> (m_size e \<noteq> 0 \<and> m_addr e \<le> addr)"
  shows "find_slot addr (ls @ e # es) = Some (length ls)"
  using assms by (induction ls) auto

lemma find_end_append:
  assumes "\<forall>u \<in> set us. m_size u \<noteq> 0" "m_size t = 0"
  shows "find_end (us @ t # gs) = Some (length us)"
  using assms by (induction us) auto

lemma shift_right_append:
  "zs \<noteq> [] \<Longrightarrow> k = length ls + length zs - 1 \<Longrightarrow>
   shift_right (length ls) k (ls @ zs @ g # gs) = ls @ hd zs # zs @ gs"
proof (induction zs arbitrary: k g gs rule: rev_induct)
  case Nil
  then show ?case by simp
next
  case (snoc z zs)
  have k: "k = length ls + length zs" using snoc.prems by simp
  have first: "shift_right (length ls) k (ls @ (zs @ [z]) @ g # gs) =
     fold (\<lambda>ep es. es[Suc ep := es ! ep]) (rev [length ls ..< length ls + length zs])
       (ls @ zs @ z # z # gs)"
    by (simp add: shift_right_def k nth_append list_update_append)
  show ?case
  proof (cases "zs = []")
    case True
    then show ?thesis using first by simp
  next
    case False
    then have "Suc (length ls + length zs - 1) = length ls + length zs" by simp
    then have "shift_right (length ls) (length ls + length zs - 1) (ls @ zs @ z # z # gs) =
      fold (\<lambda>ep es. es[Suc ep := es ! ep]) (rev [length ls ..< length ls + length zs])
       (ls @ zs @ z # z # gs)" unfolding shift_right_def by simp
    then have "shift_right (length ls) k (ls @ (zs @ [z]) @ g # gs) = ls @ hd zs # zs @ z # gs"
      using first snoc.IH [OF False refl, of z "z # gs"] by simp
    then show ?thesis using False by simp
  qed
qed

lemma seg_free_skip:
  "\<forall>(b, m) \<in> set xs. b + m < a \<Longrightarrow> seg_free a n (xs @ ys) = xs @ seg_free a n ys"
  by (induction xs) auto

lemma seg_free_here:
  "segs_from a ys \<Longrightarrow> (\<And>b m zs. ys = (b, m) # zs \<Longrightarrow> a + n < b) \<Longrightarrow> seg_free a n ys = (a, n) # ys"
  by (cases ys) auto

lemma segs_ends:
  "segs_from lo (xs @ (b, m) # ys) \<Longrightarrow> (c, k) \<in> set xs \<Longrightarrow> c + k < b"
proof (induction xs arbitrary: lo)
  case Nil
  then show ?case by simp
next
  case (Cons p xs)
  obtain d l where p: "p = (d, l)" by force
  show ?case
  proof (cases "(c, k) = p")
    case True
    then have "segs_from (c + k) (xs @ (b, m) # ys)" using Cons.prems p by simp
    moreover have "b \<in> cells (xs @ (b, m) # ys)"
      using seg_in_cells [OF calculation, of "(b, m)"] by simp
    ultimately show ?thesis by (rule cells_above)
  next
    case False
    then have "(c, k) \<in> set xs" using Cons.prems(2) by simp
    moreover have "segs_from (d + l) (xs @ (b, m) # ys)" using Cons.prems(1) p by simp
    ultimately show ?thesis using Cons.IH by blast
  qed
qed

text \<open>The array split at the returned space: everything left of it, everything right of it.\<close>

lemma slot_split:
  assumes "wf_arr es" "unat addr + unat sz < 65536"
    and disj: "{unat addr ..< unat addr + unat sz} \<inter> cells (segs es) = {}" and sz: "sz \<noteq> 0"
  obtains ls rs t gs where "es = ls @ rs @ t # gs" "\<forall>u \<in> set (ls @ rs). m_size u \<noteq> 0" "m_size t = 0"
    "segs_from 0 (map seg ls @ map seg rs)" "find_slot addr es = Some (length ls)"
    "\<forall>u \<in> set ls. fst (seg u) + snd (seg u) \<le> unat addr"
    "\<forall>u \<in> set rs. unat addr + unat sz \<le> fst (seg u)"
proof -
  from assms(1) obtain us t gs where es: "es = us @ t # gs" "\<forall>u \<in> set us. m_size u \<noteq> 0"
    "m_size t = 0" by (auto simp: wf_arr_def elim: arr_split)
  have so: "segs_from 0 (map seg us)" and ce: "cells (segs es) = cells (map seg us)"
    using assms(1) es by (simp_all add: wf_arr_def segs_def)
  define ls where "ls = takeWhile (\<lambda>u. m_addr u \<le> addr) us"
  define rs where "rs = dropWhile (\<lambda>u. m_addr u \<le> addr) us"
  have us: "us = ls @ rs" by (simp add: ls_def rs_def)
  have low: "\<forall>u \<in> set ls. m_addr u \<le> addr" unfolding ls_def by (auto dest: set_takeWhileD)
  have high: "\<not> m_addr r \<le> addr" if "rs = r # rs'" for r rs'
    using that unfolding rs_def by (simp add: dropWhile_eq_Cons_conv)
  have lsz: "\<forall>u \<in> set ls. m_size u \<noteq> 0 \<and> m_addr u \<le> addr" using low es(2) us by simp
  have slot: "find_slot addr es = Some (length ls)"
  proof (cases rs)
    case Nil
    then have "es = ls @ t # gs" using es(1) us by simp
    then show ?thesis using find_slot_append [OF lsz, of t gs] es(3) by simp
  next
    case (Cons r rs')
    then have "es = ls @ r # (rs' @ t # gs)" using es(1) us by simp
    then show ?thesis using find_slot_append [OF lsz, of r "rs' @ t # gs"] high [OF Cons] by simp
  qed
  have apart: "fst (seg u) + snd (seg u) \<le> unat addr \<or> unat addr + unat sz \<le> fst (seg u)"
    if u: "u \<in> set us" for u
  proof -
    obtain as bs where "us = as @ u # bs" using u by (meson split_list)
    then have sub: "{fst (seg u) ..< fst (seg u) + snd (seg u)} \<subseteq> cells (map seg us)"
      by (cases "seg u") auto
    have "0 < snd (seg u)" using u es(2) unat_seg_pos by blast
    moreover have "{unat addr ..< unat addr + unat sz} \<inter>
        {fst (seg u) ..< fst (seg u) + snd (seg u)} = {}" using disj ce sub by blast
    ultimately show ?thesis
      using intervals_apart [of "unat addr" "unat sz" "fst (seg u)" "snd (seg u)"] sz
      by (auto simp: unat_gt_0)
  qed
  have left: "\<forall>u \<in> set ls. fst (seg u) + snd (seg u) \<le> unat addr"
  proof
    fix u assume u: "u \<in> set ls"
    then have "m_addr u \<le> addr" using low by blast
    then have "fst (seg u) \<le> unat addr" by (simp add: seg_def word_le_nat_alt)
    moreover have "0 < unat sz" using sz by (simp add: unat_gt_0)
    moreover have "u \<in> set us" using u us by simp
    ultimately show "fst (seg u) + snd (seg u) \<le> unat addr" using apart [of u] by linarith
  qed
  have right: "\<forall>u \<in> set rs. unat addr + unat sz \<le> fst (seg u)"
  proof (cases rs)
    case (Cons r rs')
    then have "unat addr < fst (seg r)" using high by (simp add: seg_def word_le_nat_alt)
    moreover have "r \<in> set us" using us Cons by simp
    ultimately have r: "unat addr + unat sz \<le> fst (seg r)" using apart [of r] by linarith
    have "segs_from 0 (map seg ls @ seg r # map seg rs')" using so us Cons by simp
    then have "segs_from 0 (map seg ls) \<and> segs_from (fst (seg r) + snd (seg r)) (map seg rs')"
      by (cases "seg r") (auto simp: segs_from_append)
    then have "fst (seg r) < fst p" if "p \<in> set (map seg rs')" for p
      using seg_in_cells [OF _ that] cells_above by (meson add_lessD1)
    with r show ?thesis using Cons by fastforce
  qed simp
  show thesis
    by (rule that [of ls rs t gs]) (use es us so slot left right in simp_all)
qed

lemma not_abutting: "unat a + unat b < unat (addr :: u_int) \<Longrightarrow> \<not> addr \<le> a + b"
proof -
  assume less: "unat a + unat b < unat addr"
  then have "unat a + unat b < 65536" using unat16_lt [of addr] by linarith
  with less show ?thesis by (simp add: word_le_nat_alt unat16_add)
qed

text \<open>The three ways the returned space can lie, with the array written out.\<close>

lemma mfree_left:
  assumes sp: "find_slot addr (ls @ e # rs @ t # gs) = Some (Suc (length ls))"
    and nz: "\<forall>u \<in> set rs. m_size u \<noteq> 0" "m_size t = 0" "m_size e \<noteq> 0"
    and adj: "fst (seg e) + snd (seg e) = unat addr" and w: "unat addr + unat sz < 65536"
    and rs: "\<forall>u \<in> set rs. unat addr + unat sz \<le> fst (seg u)"
    and so: "segs_from lo (map seg rs)"
  shows "\<exists>es' vs g'. mfree_map limit sz addr (ls @ e # rs @ t # gs) = Some (False, es') \<and>
    es' = ls @ vs @ t # g' \<and> (\<forall>v \<in> set vs. m_size v \<noteq> 0) \<and>
    length es' = length (ls @ e # rs @ t # gs) \<and>
    map seg vs = seg_free (fst (seg e)) (snd (seg e) + unat sz) (map seg rs)"
proof -
  let ?es = "ls @ e # rs @ t # gs"
  have ew: "unat (m_addr e) + unat (m_size e) = unat addr" using adj by (simp add: seg_def)
  then have edge: "m_addr e + m_size e = addr"
    using w by (simp add: unat16_inj [symmetric] unat16_add)
  have sum: "unat (m_size e + sz) = unat (m_size e) + unat sz"
    using ew w by (intro unat16_add) linarith
  then have enz: "m_size e + sz \<noteq> 0" using nz(3) by (simp add: unat16_eq0)
  let ?e = "e\<lparr>m_size := m_size e + sz\<rparr>"
  have se: "seg ?e = (fst (seg e), snd (seg e) + unat sz)" using sum by (simp add: seg_def)
  show ?thesis
  proof (cases rs)
    case Nil
    then have "mfree_map limit sz addr ?es = Some (False, ls @ [?e] @ t # gs)"
      using sp nz(2) edge by (simp add: mfree_map_def nth_append list_update_append Let_def)
    then show ?thesis using Nil enz se by (intro exI [of _ "[?e]"] exI [of _ gs] exI) auto
  next
    case (Cons r rs')
    have ar: "unat (addr + sz) = unat addr + unat sz" using w by (rule unat16_add)
    have sr: "seg r = (unat (m_addr r), unat (m_size r))" by (simp add: seg_def)
    show ?thesis
    proof (cases "m_addr r \<le> addr + sz")
      case True
      then have touch: "unat addr + unat sz = unat (m_addr r)"
        using rs Cons ar by (simp add: seg_def word_le_nat_alt)
      have rw: "unat (m_addr r) + unat (m_size r) < 65536" using so Cons by (simp add: sr)
      have sum2: "unat (m_size e + sz + m_size r) = unat (m_size e) + unat sz + unat (m_size r)"
        using sum rw touch ew by (subst unat16_add) simp_all
      let ?e2 = "e\<lparr>m_size := m_size e + sz + m_size r\<rparr>"
      have "shift_left (r # rs' @ t # gs) = Some (rs' @ t # t # gs)"
        using nz Cons by (intro shift_left_append) simp_all
      then have "mfree_map limit sz addr ?es = Some (False, ls @ (?e2 # rs') @ t # t # gs)"
        using sp nz edge Cons True
        by (simp add: mfree_map_def nth_append list_update_append Let_def)
      moreover have "m_size ?e2 \<noteq> 0" using sum2 enz sum by (auto simp: unat16_eq0)
      moreover have "seg_free (fst (seg e)) (snd (seg e) + unat sz) (map seg rs) = seg ?e2 # map seg rs'"
        using Cons sum2 touch ew by (simp add: seg_def)
      ultimately show ?thesis using nz Cons
        by (intro exI [of _ "?e2 # rs'"] exI [of _ "t # gs"] exI) auto
    next
      case False
      then have gap: "unat addr + unat sz < unat (m_addr r)" using ar by (simp add: word_le_nat_alt)
      then have "mfree_map limit sz addr ?es = Some (False, ls @ (?e # rs) @ t # gs)"
        using sp nz edge Cons False
        by (simp add: mfree_map_def nth_append list_update_append Let_def)
      moreover have "seg_free (fst (seg e)) (snd (seg e) + unat sz) (map seg rs) = seg ?e # map seg rs"
        using Cons se gap ew by (simp add: seg_def)
      ultimately show ?thesis using nz Cons enz
        by (intro exI [of _ "?e # rs"] exI [of _ gs] exI) auto
    qed
  qed
qed

lemma mfree_right:
  assumes sp: "find_slot addr (ls @ r # rs @ t # gs) = Some (length ls)"
    and nz: "\<forall>u \<in> set rs. m_size u \<noteq> 0" "m_size t = 0" "m_size r \<noteq> 0"
    and noleft: "\<forall>u \<in> set ls. fst (seg u) + snd (seg u) < unat addr"
    and adj: "unat addr + unat sz = fst (seg r)"
    and w: "fst (seg r) + snd (seg r) < 65536"
  shows "\<exists>v. mfree_map limit sz addr (ls @ r # rs @ t # gs) = Some (False, ls @ v # rs @ t # gs) \<and>
    m_size v \<noteq> 0 \<and> seg v = (unat addr, unat sz + snd (seg r))"
proof -
  have ar: "addr + sz = m_addr r"
    using adj w by (simp add: unat16_inj [symmetric] seg_def unat16_add)
  have sum: "unat (m_size r + sz) = unat (m_size r) + unat sz"
    using adj w by (intro unat16_add) (simp add: seg_def)
  have ne: "\<not> addr \<le> m_addr (last ls) + m_size (last ls)" if "ls \<noteq> []"
    using noleft that by (intro not_abutting) (simp add: seg_def)
  let ?v = "\<lparr>m_size = m_size r + sz, m_addr = addr\<rparr>"
  have "mfree_map limit sz addr (ls @ r # rs @ t # gs) = Some (False, ls @ ?v # rs @ t # gs)"
    using sp nz ar ne
    by (cases ls rule: rev_cases) (auto simp: mfree_map_def nth_append list_update_append Let_def)
  moreover have "m_size ?v \<noteq> 0" using sum nz(3) by (simp add: unat16_eq0)
  ultimately show ?thesis using sum by (simp add: seg_def)
qed

lemma mfree_new:
  assumes sp: "find_slot addr (ls @ rs @ t # gs) = Some (length ls)"
    and nz: "\<forall>u \<in> set rs. m_size u \<noteq> 0" "m_size t = 0"
    and noleft: "\<forall>u \<in> set ls. fst (seg u) + snd (seg u) < unat addr"
    and noright: "\<forall>u \<in> set rs. unat addr + unat sz < fst (seg u)"
    and w: "unat addr + unat sz < 65536"
  shows "mfree_map limit sz addr (ls @ rs @ t # gs) =
    (if Suc (length (ls @ rs)) > limit then Some (True, ls @ rs @ t # gs)
     else case gs of [] \<Rightarrow> None
       | g # gs' \<Rightarrow> Some (False, ls @ \<lparr>m_size = sz, m_addr = addr\<rparr> # rs @ t # gs'))"
proof -
  let ?es = "ls @ rs @ t # gs"
  have ne: "\<not> addr \<le> m_addr (last ls) + m_size (last ls)" if "ls \<noteq> []"
    using noleft that by (intro not_abutting) (simp add: seg_def)
  have A: "\<not> (length ls \<noteq> 0 \<and> m_addr (?es ! (length ls - 1)) + m_size (?es ! (length ls - 1)) \<ge> addr)"
    using ne by (cases ls rule: rev_cases) (auto simp: nth_append)
  have B: "\<not> (m_size (?es ! length ls) \<noteq> 0 \<and> addr + sz \<ge> m_addr (?es ! length ls))"
  proof (cases rs)
    case (Cons r rs')
    then show ?thesis using noright w by (simp add: seg_def word_le_nat_alt unat16_add)
  qed (simp add: nz)
  have C: "find_end (drop (length ls) ?es) = Some (length rs)"
    using find_end_append [OF nz] by simp
  have D: "shift_right (length ls) (length ls + length rs) (ls @ rs @ t # g # gs') =
     ls @ hd (rs @ [t]) # rs @ t # gs'" for g gs'
    using shift_right_append [of "rs @ [t]" _ ls g gs'] by simp
  show ?thesis
  proof (cases gs)
    case Nil
    show ?thesis unfolding mfree_map_def sp Option.bind.bind_lunit if_not_P [OF A] if_not_P [OF B] Let_def C
      by (simp add: Nil)
  next
    case (Cons g gs')
    show ?thesis unfolding mfree_map_def sp Option.bind.bind_lunit if_not_P [OF A] if_not_P [OF B] Let_def C
      by (simp add: Cons D list_update_append)
  qed
qed

text \<open>A piece that touches no segment.\<close>

definition isolated :: "nat \<Rightarrow> nat \<Rightarrow> segment list \<Rightarrow> bool" where
  "isolated a n xs \<longleftrightarrow> (\<forall>p \<in> set xs. fst p + snd p < a \<or> a + n < fst p)"

lemma segs_length: "terminated es \<Longrightarrow> length (segs es) < length es"
  by (erule arr_split) (simp add: segs_def)

lemma seg_free_isolated_length: "isolated a n xs \<Longrightarrow> length (seg_free a n xs) = Suc (length xs)"
  by (induction a n xs rule: seg_free.induct) (auto simp: isolated_def)

lemma seg_free_head: "ys \<noteq> [] \<Longrightarrow> fst (hd ys) = a + n \<Longrightarrow>
   seg_free a n ys = (a, n + snd (hd ys)) # tl ys"
  by (cases ys) auto

lemma seg_free_join: "seg_free (b + m) n ((b, m) # ys) = seg_free b (m + n) ys" if "0 < m"
  using that by simp

lemma segs_from_left:
  "segs_from lo (xs @ ys) \<Longrightarrow> segs_from lo xs"
  by (simp add: segs_from_append)

lemma segs_from_right: "segs_from lo (xs @ ys) \<Longrightarrow> segs_from lo ys"
proof (induction xs arbitrary: lo)
  case (Cons p xs)
  obtain a b where p: "p = (a, b)" by force
  then have "segs_from (a + b) ys" using Cons by simp
  then show ?case by (rule segs_from_mono) (use Cons.prems p in simp)
qed simp

text \<open>\<open>mfree\<close> on a map with a slot behind the terminator or a limit that guards it: either the
  piece is lost, and then the map was full and the piece touched no segment, or the result is
  the abstract return.\<close>

lemma mfree_map_refines:
  assumes wf: "wf_arr es" and sz: "sz \<noteq> 0" and w: "unat addr + unat sz < 65536"
    and disj: "{unat addr ..< unat addr + unat sz} \<inter> cells (segs es) = {}"
    and lim: "limit < length es"
  shows "(mfree_map limit sz addr es = Some (True, es) \<and> limit \<le> length (segs es) \<and>
          isolated (unat addr) (unat sz) (segs es)) \<or>
    (\<exists>es'. mfree_map limit sz addr es = Some (False, es') \<and> terminated es' \<and>
       segs es' = seg_free (unat addr) (unat sz) (segs es) \<and> length es' = length es)"
proof -
  let ?a = "unat addr" and ?n = "unat sz"
  have n0: "0 < ?n" using sz by (simp add: unat_gt_0)
  from slot_split [OF wf w disj sz] obtain ls rs t gs where es: "es = ls @ rs @ t # gs"
    and nz: "\<forall>u \<in> set (ls @ rs). m_size u \<noteq> 0" "m_size t = 0"
    and so: "segs_from 0 (map seg ls @ map seg rs)" and slot: "find_slot addr es = Some (length ls)"
    and left: "\<forall>u \<in> set ls. fst (seg u) + snd (seg u) \<le> ?a"
    and right: "\<forall>u \<in> set rs. ?a + ?n \<le> fst (seg u)" by metis
  have sg: "segs es = map seg ls @ map seg rs"
    using live_append [OF nz(1,2), of gs] es by (simp add: segs_def)
  have seg_nz: "0 < snd (seg u)" if "u \<in> set (ls @ rs)" for u
    using nz(1) that unat_seg_pos by blast
  show ?thesis
  proof (cases "\<exists>u \<in> set ls. fst (seg u) + snd (seg u) = ?a")
    case True
    then obtain u as bs where u: "ls = as @ u # bs" "fst (seg u) + snd (seg u) = ?a"
      by (metis split_list)
    have "bs = []"
    proof (rule ccontr)
      assume "bs \<noteq> []"
      then obtain v vs where v: "bs = v # vs" by (cases bs) auto
      have "segs_from 0 ((map seg as @ [seg u]) @ seg v # map seg vs @ map seg rs)"
        using so u v by simp
      then have "fst (seg u) + snd (seg u) < fst (seg v)"
        using segs_ends [of 0 "map seg as @ [seg u]" "fst (seg v)" "snd (seg v)"] by simp
      moreover have "v \<in> set ls" using u v by simp
      ultimately show False using left u(2) seg_nz [of v] by fastforce
    qed
    with u have ls: "ls = as @ [u]" by simp
    have so_as: "\<forall>(b, m) \<in> set (map seg as). b + m < fst (seg u)"
    proof -
      have "segs_from 0 (map seg as @ (fst (seg u), snd (seg u)) # map seg rs)"
        using so ls by simp
      from segs_ends [OF this] show ?thesis by blast
    qed
    have so_rs: "segs_from 0 (map seg rs)" using so by (rule segs_from_right)
    have slot': "find_slot addr (as @ u # rs @ t # gs) = Some (Suc (length as))"
      using slot es ls by simp
    have nz': "\<forall>v \<in> set rs. m_size v \<noteq> 0" "m_size u \<noteq> 0" using nz ls by auto
    from mfree_left [OF slot' nz'(1) nz(2) nz'(2) u(2) w right so_rs, of limit]
    obtain es' vs g' where r: "mfree_map limit sz addr es = Some (False, es')"
      "es' = as @ vs @ t # g'" "\<forall>v \<in> set vs. m_size v \<noteq> 0" "length es' = length es"
      "map seg vs = seg_free (fst (seg u)) (snd (seg u) + ?n) (map seg rs)"
      using es ls by auto
    have "segs es' = map seg (as @ vs)"
      by (rule segs_arr [of _ t _ g']) (use r nz ls in auto)
    also have "\<dots> = seg_free ?a ?n (map seg as @ seg u # map seg rs)"
    proof -
      have "\<forall>(b, m) \<in> set (map seg as). b + m < ?a" using so_as u(2) by fastforce
      then have "seg_free ?a ?n (map seg as @ seg u # map seg rs) =
          map seg as @ seg_free ?a ?n (seg u # map seg rs)" by (rule seg_free_skip)
      also have "seg_free ?a ?n (seg u # map seg rs) = map seg vs"
        using r(5) u(2) seg_free_join [of "snd (seg u)" "fst (seg u)" ?n "map seg rs"]
          seg_nz [of u] ls by simp
      finally show ?thesis by simp
    qed
    finally have "segs es' = seg_free ?a ?n (segs es)" using sg ls by simp
    moreover have "terminated es'" using terminated_append [OF nz(2), of "as @ vs" g'] r(2) by simp
    ultimately show ?thesis using r by blast
  next
    case False
    with left have noleft: "\<forall>u \<in> set ls. fst (seg u) + snd (seg u) < ?a" by fastforce
    then have skip: "seg_free ?a ?n (segs es) = map seg ls @ seg_free ?a ?n (map seg rs)"
      unfolding sg by (intro seg_free_skip) auto
    show ?thesis
    proof (cases "rs \<noteq> [] \<and> fst (seg (hd rs)) = ?a + ?n")
      case True
      then obtain r rs' where rs: "rs = r # rs'" "?a + ?n = fst (seg r)" by (cases rs) auto
      have "fst (seg r) + snd (seg r) < 65536"
        using segs_from_right [OF so] rs(1) by (cases "seg r") simp
      with mfree_right [of addr ls r rs' t gs sz limit] slot es rs nz noleft
      obtain v where v: "mfree_map limit sz addr es = Some (False, ls @ v # rs' @ t # gs)"
        "m_size v \<noteq> 0" "seg v = (?a, ?n + snd (seg r))" by auto
      have "segs (ls @ v # rs' @ t # gs) = map seg (ls @ v # rs')"
        using live_append [of "ls @ v # rs'" t gs] v(2) nz rs by (simp add: segs_def)
      also have "\<dots> = seg_free ?a ?n (segs es)"
        using skip rs v(3) by (simp add: seg_free_head)
      finally have "segs (ls @ v # rs' @ t # gs) = seg_free ?a ?n (segs es)" .
      moreover have "terminated (ls @ v # rs' @ t # gs)"
        using terminated_append [OF nz(2), of "ls @ v # rs'" gs] by simp
      ultimately show ?thesis using v(1) es rs by auto
    next
      case False
      have noright: "\<forall>u \<in> set rs. ?a + ?n < fst (seg u)"
      proof (cases rs)
        case (Cons r rs')
        then have r: "?a + ?n < fst (seg r)" using False right by fastforce
        have "segs_from (fst (seg r) + snd (seg r)) (map seg rs')"
          using segs_from_right [OF so] Cons by (cases "seg r") simp
        then have "fst (seg r) < fst (seg u)" if "u \<in> set rs'" for u
          using seg_in_cells [of _ "map seg rs'" "seg u"] that cells_above
          by (metis add_lessD1 image_eqI image_set)
        with r show ?thesis using Cons by fastforce
      qed simp
      have nz': "\<forall>u \<in> set rs. m_size u \<noteq> 0" using nz by simp
      have slot': "find_slot addr (ls @ rs @ t # gs) = Some (length ls)" using slot es by simp
      note new = mfree_new [OF slot' nz' nz(2) noleft noright w, of limit]
      have iso: "isolated ?a ?n (segs es)" using noleft noright unfolding sg isolated_def by auto
      show ?thesis
      proof (cases "Suc (length (ls @ rs)) > limit")
        case True
        then show ?thesis using new es iso sg by simp
      next
        case False
        with lim es obtain g gs' where gs: "gs = g # gs'" by (cases gs) auto
        let ?v = "\<lparr>m_size = sz, m_addr = addr\<rparr>"
        have r: "mfree_map limit sz addr es = Some (False, ls @ ?v # rs @ t # gs')"
          using new False es gs by simp
        have "segs (ls @ ?v # rs @ t # gs') = map seg (ls @ ?v # rs)"
          using live_append [of "ls @ ?v # rs" t gs'] nz sz by (simp add: segs_def)
        also have "\<dots> = seg_free ?a ?n (segs es)"
        proof -
          have "seg_free ?a ?n (map seg rs) = (?a, ?n) # map seg rs"
            using noright by (cases rs) (auto simp: seg_def)
          then show ?thesis using skip by (simp add: seg_def)
        qed
        finally have "segs (ls @ ?v # rs @ t # gs') = seg_free ?a ?n (segs es)" .
        moreover have "terminated (ls @ ?v # rs @ t # gs')"
          using terminated_append [OF nz(2), of "ls @ ?v # rs" gs'] by simp
        ultimately show ?thesis using r es gs by auto
      qed
    qed
  qed
qed

section \<open>The routines on the kernel state\<close>

definition map_arr :: "mapid \<Rightarrow> 'a vmem_scheme \<Rightarrow> mapent list" where
  "map_arr mp s = m_map (get_map mp s)"

text \<open>The free addresses of a map.\<close>

definition free_space :: "mapid \<Rightarrow> 'a vmem_scheme \<Rightarrow> nat set" where
  "free_space mp s = cells (segs (map_arr mp s))"

text \<open>A map in order: a well-formed array, its limit an index of the array.\<close>

definition wf_map :: "mapid \<Rightarrow> 'a vmem_scheme \<Rightarrow> bool" where
  "wf_map mp s \<longleftrightarrow> wf_arr (map_arr mp s) \<and> m_limit (get_map mp s) < length (map_arr mp s)"

definition set_arr :: "mapid \<Rightarrow> mapent list \<Rightarrow> 'a vmem_scheme \<Rightarrow> 'a vmem_scheme" where
  "set_arr mp es s = put_map mp ((get_map mp s)\<lparr>m_map := es\<rparr>) s"

text \<open>No segment is large enough.\<close>

definition no_fit :: "mapid \<Rightarrow> u_int \<Rightarrow> 'a vmem_scheme \<Rightarrow> bool" where
  "no_fit mp sz s \<longleftrightarrow> (\<forall>p \<in> set (segs (map_arr mp s)). snd p < unat sz)"

lemma get_put_map [simp]: "get_map mp (put_map mp m s) = m"
  by (cases mp) simp_all

lemma get_put_other [simp]: "mp \<noteq> mp' \<Longrightarrow> get_map mp (put_map mp' m s) = get_map mp s"
  by (cases mp; cases mp') simp_all

lemma map_arr_set_arr [simp]: "map_arr mp (set_arr mp es s) = es"
  by (simp add: map_arr_def set_arr_def)

lemma limit_set_arr [simp]: "m_limit (get_map mp (set_arr mp es s)) = m_limit (get_map mp s)"
  by (simp add: set_arr_def)

lemma set_arr_other [simp]: "mp \<noteq> mp' \<Longrightarrow> get_map mp (set_arr mp' es s) = get_map mp s"
  by (simp add: set_arr_def)

lemma malloc_once_fails:
  assumes "wf_map mp s" "sz \<noteq> 0" "no_fit mp sz s"
  shows "malloc_once mp sz s = Some (Inl ())"
proof -
  have "seg_alloc (unat sz) (segs (map_arr mp s)) = None"
    using assms(3) by (auto simp: no_fit_def seg_alloc_None)
  then show ?thesis using first_fit_refines [of "map_arr mp s" sz] assms(1,2)
    by (simp add: malloc_once_def wf_map_def map_arr_def)
qed

lemma seg_alloc_first:
  "segs_from lo xs \<Longrightarrow> seg_alloc n xs = Some (a, ys) \<Longrightarrow> (b, m) \<in> set xs \<Longrightarrow> n \<le> m \<Longrightarrow> a \<le> b"
proof (induction n xs arbitrary: lo ys rule: seg_alloc.induct)
  case (2 n c k xs)
  show ?case
  proof (cases "n \<le> k")
    case True
    have "c \<le> b" using "2.prems" seg_in_cells [of "c + k" xs "(b, m)"] cells_above [of "c + k" xs b]
      by auto
    then show ?thesis using "2.prems" True by (auto split: if_splits)
  next
    case False
    then show ?thesis using "2.prems" "2.IH" [OF False, of "c + k"] by auto
  qed
qed simp

lemma malloc_once_finds:
  assumes wf: "wf_map mp s" and sz: "sz \<noteq> 0" and fit: "\<not> no_fit mp sz s"
  obtains a es where "malloc_once mp sz s = Some (Inr (a, set_arr mp es s))" "good_block (a, sz)"
    "block a sz \<subseteq> free_space mp s" "cells (segs es) = free_space mp s - block a sz"
    "wf_arr es" "length es = length (map_arr mp s)"
    "\<forall>p \<in> set (segs (map_arr mp s)). unat sz \<le> snd p \<longrightarrow> unat a \<le> fst p"
    "seg_alloc (unat sz) (segs (map_arr mp s)) = Some (unat a, segs es)"
proof -
  have arr: "wf_arr (map_arr mp s)" using wf by (simp add: wf_map_def)
  have sf: "segs_from 0 (segs (map_arr mp s))" using arr by (simp add: wf_arr_def)
  obtain b xs where al: "seg_alloc (unat sz) (segs (map_arr mp s)) = Some (b, xs)"
    using fit seg_alloc_None [of "unat sz" "segs (map_arr mp s)"]
    by (cases "seg_alloc (unat sz) (segs (map_arr mp s))") (auto simp: no_fit_def)
  from first_fit_refines [OF arr sz] al obtain a es where
    r: "first_fit sz (map_arr mp s) = Some (Inr (a, es))" "unat a = b" "segs es = xs" "wf_arr es"
      "length es = length (map_arr mp s)" by auto
  have n0: "0 < unat sz" using sz by (simp add: unat_gt_0)
  note al_ok = seg_alloc_Some [OF sf n0 al]
  have good: "good_block (a, sz)" using al_ok r sz by (auto simp: good_block_def unat_gt_0 [symmetric])
  have once: "malloc_once mp sz s = Some (Inr (a, set_arr mp es s))"
    using r(1) by (simp add: malloc_once_def map_arr_def set_arr_def)
  show thesis
  proof (rule that [OF once good])
    show "block a sz \<subseteq> free_space mp s" "cells (segs es) = free_space mp s - block a sz"
      using al_ok r by (simp_all add: block_def free_space_def)
    show "\<forall>p \<in> set (segs (map_arr mp s)). unat sz \<le> snd p \<longrightarrow> unat a \<le> fst p"
      using seg_alloc_first [OF sf al] r(2) by auto
  qed (use r al in simp_all)
qed

end
