(* ===== verification/ResourceMapProps.thy ===== *)
theory ResourceMapProps imports ResourceMapSpec begin

text \<open>
  What \<open>malloc\<close> and \<open>mfree\<close> promise on the kernel state, the interpretation of the
  allocator interface on them, and the one way they can fail.
\<close>

section \<open>malloc\<close>

lemma malloc_finds:
  assumes "malloc_once mp sz s = Some (Inr (a, s'))" "sz \<noteq> 0"
  shows "malloc xu xc mp sz s = Some (a, s')"
  using assms by (simp add: malloc_def)

lemma wf_set_arr:
  "wf_map mp s \<Longrightarrow> wf_arr es \<Longrightarrow> length es = length (map_arr mp s) \<Longrightarrow> wf_map mp (set_arr mp es s)"
  by (simp add: wf_map_def)

text \<open>C1: When some segment is large enough, malloc hands out the base of the first such segment;
  the piece was free, is not free afterwards, nothing else changes in the map's free space, the
  map stays well formed and the other maps are untouched.\<close>

theorem malloc_allocates:
  assumes "wf_map mp s" "sz \<noteq> 0" "\<not> no_fit mp sz s"
  shows "\<exists>a s'. malloc xu xc mp sz s = Some (a, s') \<and> good_block (a, sz) \<and>
    block a sz \<subseteq> free_space mp s \<and> free_space mp s' = free_space mp s - block a sz \<and>
    wf_map mp s' \<and> (\<forall>mp'. mp' \<noteq> mp \<longrightarrow> get_map mp' s' = get_map mp' s) \<and>
    (\<forall>p \<in> set (segs (map_arr mp s)). unat sz \<le> snd p \<longrightarrow> unat a \<le> fst p)"
proof -
  obtain a es where once: "malloc_once mp sz s = Some (Inr (a, set_arr mp es s))"
    and r: "good_block (a, sz)" "block a sz \<subseteq> free_space mp s"
      "cells (segs es) = free_space mp s - block a sz" "wf_arr es"
      "length es = length (map_arr mp s)"
      "\<forall>p \<in> set (segs (map_arr mp s)). unat sz \<le> snd p \<longrightarrow> unat a \<le> fst p"
    using malloc_once_finds [OF assms] by metis
  have "free_space mp (set_arr mp es s) = free_space mp s - block a sz"
    using r(3) by (simp add: free_space_def)
  then show ?thesis using malloc_finds [OF once assms(2)] r wf_set_arr [OF assms(1) r(4,5)]
    by (intro exI [of _ a] exI [of _ "set_arr mp es s"]) simp
qed

definition demo_vmem :: vmem where
  "demo_vmem =
     (let m = \<lparr>m_map = [\<lparr>m_size = 4, m_addr = 10\<rparr>, \<lparr>m_size = 8, m_addr = 20\<rparr>,
                       \<lparr>m_size = 0, m_addr = 0\<rparr>, \<lparr>m_size = 0, m_addr = 0\<rparr>],
             m_limit = 3, m_name = ''demo''\<rparr>
      in \<lparr>coremap = m, swapmap = m, ub_map = m, runin = True, runin_wakeups = 0, notices = []\<rparr>)"

lemma demo_segs [simp]: "segs (map_arr mp demo_vmem) = [(10, 4), (20, 8)]"
  by (cases mp) (simp_all add: map_arr_def demo_vmem_def segs_def live_def seg_def Let_def)

lemma demo_wf [simp]: "wf_map mp demo_vmem"
proof -
  have "terminated (map_arr mp demo_vmem)" "m_limit (get_map mp demo_vmem) < length (map_arr mp demo_vmem)"
    by (cases mp; simp add: map_arr_def demo_vmem_def terminated_def Let_def)+
  then show ?thesis by (simp add: wf_map_def wf_arr_def)
qed

theorem malloc_allocates_witness:
  "\<exists>a s'. malloc id (\<lambda>_. id) Coremap 5 demo_vmem = Some (a, s') \<and> block a 5 \<subseteq> free_space Coremap demo_vmem"
  using malloc_allocates [of Coremap demo_vmem 5 id "\<lambda>_. id"] by (auto simp: no_fit_def)

text \<open>When no segment is large enough malloc asks the text code once to give memory back
  (xumount for the swap map, xuncore for the core map, nothing for the Unibus map) and then either
  allocates from what came back or returns the null address, the map as the reclaim left it.\<close>

lemma malloc_exhausted:
  assumes "wf_map mp s" "sz \<noteq> 0" "no_fit mp sz s"
    and "s1 = (case mp of Swapmap \<Rightarrow> xu (s\<lparr>notices := ShortOfSwap # notices s\<rparr>)
               | Coremap \<Rightarrow> xc sz s | Ubmap \<Rightarrow> s)"
    and "wf_map mp s1"
  shows "malloc xu xc mp sz s =
    (if no_fit mp sz s1 then Some (0, s1) else malloc xu xc mp sz s1)"
proof -
  note once = malloc_once_fails [OF assms(1-3)]
  show ?thesis
  proof (cases "no_fit mp sz s1")
    case True
    then have "malloc_once mp sz s1 = Some (Inl ())" using malloc_once_fails assms(2,5) by blast
    then show ?thesis using once True assms(2,4)
      by (cases mp) (simp_all add: malloc_def Let_def)
  next
    case False
    obtain a es where r: "malloc_once mp sz s1 = Some (Inr (a, set_arr mp es s1))"
      using malloc_once_finds [OF assms(5,2) False] by metis
    then have "malloc xu xc mp sz s1 = Some (a, set_arr mp es s1)"
      by (rule malloc_finds) (rule assms(2))
    then show ?thesis using once r False assms(2,3,4)
      by (cases mp) (simp_all add: malloc_def Let_def)
  qed
qed

lemma malloc_exhausted_witness:
  "malloc id (\<lambda>_. id) Coremap 9 demo_vmem = Some (0, demo_vmem)"
  using malloc_exhausted [of Coremap demo_vmem 9 demo_vmem "\<lambda>_. id" id] by (simp add: no_fit_def)

section \<open>mfree\<close>

lemma all_mapid: "(\<forall>mp. P mp) \<longleftrightarrow> P Coremap \<and> P Swapmap \<and> P Ubmap"
  by (metis mapid.exhaust)

lemma mfree_map_state:
  "sz \<noteq> 0 \<Longrightarrow> addr \<noteq> 0 \<Longrightarrow>
   mfree_map (m_limit (get_map mp s)) sz addr (map_arr mp s) = Some (lost, es) \<Longrightarrow>
   \<exists>s'. mfree mp sz addr s = Some s' \<and> map_arr mp s' = es \<and>
     m_limit (get_map mp s') = m_limit (get_map mp s) \<and>
     (\<forall>mp'. mp' \<noteq> mp \<longrightarrow> get_map mp' s' = get_map mp' s) \<and>
     (runin s' \<longleftrightarrow> runin s \<and> mp \<noteq> Coremap) \<and>
     runin_wakeups s' = runin_wakeups s + (if mp = Coremap \<and> runin s then 1 else 0)"
  by (cases mp) (auto simp: mfree_def map_arr_def all_mapid Let_def)

lemma mfree_effect:
  assumes "wf_map mp s" "good_block (addr, sz)" "block addr sz \<inter> free_space mp s = {}"
  shows "\<exists>s'. mfree mp sz addr s = Some s' \<and> wf_map mp s' \<and>
    (free_space mp s' = free_space mp s \<union> block addr sz \<or>
     free_space mp s' = free_space mp s \<and> m_limit (get_map mp s) \<le> length (segs (map_arr mp s)) \<and>
       isolated (unat addr) (unat sz) (segs (map_arr mp s))) \<and>
    (\<forall>mp'. mp' \<noteq> mp \<longrightarrow> get_map mp' s' = get_map mp' s) \<and>
    (runin s' \<longleftrightarrow> runin s \<and> mp \<noteq> Coremap) \<and>
    runin_wakeups s' = runin_wakeups s + (if mp = Coremap \<and> runin s then 1 else 0)"
proof -
  let ?es = "map_arr mp s" and ?lim = "m_limit (get_map mp s)"
  have wf: "wf_arr ?es" "?lim < length ?es" using assms(1) by (auto simp: wf_map_def)
  have sz: "sz \<noteq> 0" "addr \<noteq> 0" "unat addr + unat sz < 65536"
    using assms(2) by (auto simp: good_block_def)
  have disj: "{unat addr ..< unat addr + unat sz} \<inter> cells (segs ?es) = {}"
    using assms(3) by (simp add: block_def free_space_def)
  from mfree_map_refines [OF wf(1) sz(1,3) disj wf(2)] show ?thesis
  proof (elim disjE conjE exE)
    assume m: "mfree_map ?lim sz addr ?es = Some (True, ?es)"
      and full: "?lim \<le> length (segs ?es)" and iso: "isolated (unat addr) (unat sz) (segs ?es)"
    from mfree_map_state [OF sz(1,2) m] show ?thesis
      using wf full iso by (auto simp: wf_map_def free_space_def)
  next
    fix es'
    assume m: "mfree_map ?lim sz addr ?es = Some (False, es')" and t: "terminated es'"
      and sg: "segs es' = seg_free (unat addr) (unat sz) (segs ?es)" and l: "length es' = length ?es"
    have "segs_from 0 (segs es') \<and> cells (segs es') = cells (segs ?es) \<union> block addr sz"
      unfolding sg block_def
      using seg_free_correct [of 0 "segs ?es" "unat addr" "unat sz"] wf(1) sz disj
      by (simp add: wf_arr_def unat_gt_0)
    with mfree_map_state [OF sz(1,2) m] t l wf show ?thesis
      by (auto simp: wf_map_def wf_arr_def free_space_def)
  qed
qed

text \<open>C2: mfree of a piece that is in use grows the free space by exactly that piece, joining it
  to its neighbours so that the map stays well formed; only when the array is full and the piece
  touches no free segment is it lost. The other maps are untouched, and giving core back wakes the
  swapper when it waits on runin.\<close>

theorem mfree_correct:
  assumes "wf_map mp s" "good_block (addr, sz)" "block addr sz \<inter> free_space mp s = {}"
  shows "\<exists>s'. mfree mp sz addr s = Some s' \<and> wf_map mp s' \<and>
    (free_space mp s' = free_space mp s \<union> block addr sz \<or>
     free_space mp s' = free_space mp s \<and> m_limit (get_map mp s) \<le> length (segs (map_arr mp s)) \<and>
       isolated (unat addr) (unat sz) (segs (map_arr mp s))) \<and>
    (\<forall>mp'. mp' \<noteq> mp \<longrightarrow> get_map mp' s' = get_map mp' s) \<and>
    (runin s' \<longleftrightarrow> runin s \<and> mp \<noteq> Coremap) \<and>
    runin_wakeups s' = runin_wakeups s + (if mp = Coremap \<and> runin s then 1 else 0)"
  using assms by (rule mfree_effect)

theorem mfree_correct_witness:
  "\<exists>s'. mfree Coremap 6 14 demo_vmem = Some s' \<and>
     free_space Coremap s' = free_space Coremap demo_vmem \<union> block 14 6 \<and>
     \<not> runin s' \<and> runin_wakeups s' = 1"
proof -
  have "block 14 6 \<inter> free_space Coremap demo_vmem = {}"
    by (auto simp: block_def free_space_def)
  moreover have "good_block (14, 6)" by (simp add: good_block_def)
  moreover have "\<not> isolated 14 6 (segs (map_arr Coremap demo_vmem))" by (simp add: isolated_def)
  moreover have "runin demo_vmem" "runin_wakeups demo_vmem = 0"
    by (simp_all add: demo_vmem_def Let_def)
  ultimately show ?thesis using mfree_correct [of Coremap demo_vmem 14 6] by auto
qed

text \<open>A piece that malloc handed out and mfree takes back leaves the free segments exactly as
  they were before, unless the array has no slot left for the piece.\<close>

lemma malloc_mfree_roundtrip:
  assumes "wf_map mp s" "sz \<noteq> 0" "\<not> no_fit mp sz s" "malloc xu xc mp sz s = Some (a, s1)"
    and "length (segs (map_arr mp s1)) < m_limit (get_map mp s)"
  shows "\<exists>s2. mfree mp sz a s1 = Some s2 \<and> segs (map_arr mp s2) = segs (map_arr mp s)"
proof -
  obtain a' es where once: "malloc_once mp sz s = Some (Inr (a', set_arr mp es s))"
    and r: "good_block (a', sz)" "cells (segs es) = free_space mp s - block a' sz" "wf_arr es"
      "length es = length (map_arr mp s)"
      "seg_alloc (unat sz) (segs (map_arr mp s)) = Some (unat a', segs es)"
    using malloc_once_finds [OF assms(1-3)] by metis
  have s1: "a = a'" "s1 = set_arr mp es s" using malloc_finds [OF once assms(2)] assms(4) by auto
  have sz: "sz \<noteq> 0" "a' \<noteq> 0" "unat a' + unat sz < 65536" using r(1) by (auto simp: good_block_def)
  have disj: "{unat a' ..< unat a' + unat sz} \<inter> cells (segs es) = {}"
    using r(2) by (auto simp: block_def)
  have lim: "m_limit (get_map mp s1) < length es" using assms(1) s1 r(4) by (simp add: wf_map_def)
  from mfree_map_refines [OF r(3) sz(1,3) disj lim]
  obtain es' where m: "mfree_map (m_limit (get_map mp s1)) sz a' (map_arr mp s1) = Some (False, es')"
    and sg: "segs es' = seg_free (unat a') (unat sz) (segs es)"
    using assms(5) s1 by fastforce
  have "segs es' = segs (map_arr mp s)"
    using seg_free_alloc [OF _ _ r(5)] sg assms(1,2) by (simp add: wf_map_def wf_arr_def unat_gt_0)
  then show ?thesis using mfree_map_state [OF sz(1,2) m] s1 by auto
qed

lemma malloc_mfree_roundtrip_witness:
  "\<exists>s2. mfree Swapmap 3 10 (set_arr Swapmap (\<lparr>m_size = 1, m_addr = 13\<rparr> # tl (map_arr Swapmap demo_vmem)) demo_vmem)
     = Some s2 \<and> segs (map_arr Swapmap s2) = [(10, 4), (20, 8)]"
proof -
  let ?s1 = "set_arr Swapmap (\<lparr>m_size = 1, m_addr = 13\<rparr> # tl (map_arr Swapmap demo_vmem)) demo_vmem"
  have "malloc id (\<lambda>_. id) Swapmap 3 demo_vmem = Some (10, ?s1)"
    by (simp add: malloc_def malloc_once_def demo_vmem_def set_arr_def map_arr_def Let_def)
  moreover have "segs (map_arr Swapmap ?s1) = [(13, 1), (20, 8)]"
    by (simp add: segs_def live_def seg_def map_arr_def demo_vmem_def Let_def set_arr_def)
  moreover have "m_limit (get_map Swapmap demo_vmem) = 3" by (simp add: demo_vmem_def Let_def)
  ultimately show ?thesis
    using malloc_mfree_roundtrip [of Swapmap demo_vmem 3 id "\<lambda>_. id" 10 ?s1]
    by (simp add: no_fit_def)
qed

section \<open>The allocator interface\<close>

text \<open>
  The maps as a client sees them between two reclaims: a request that fails returns the null
  address, one that succeeds the base.
\<close>

definition map_get :: "mapid \<Rightarrow> u_int \<Rightarrow> 'a vmem_scheme \<Rightarrow> (u_int \<times> 'a vmem_scheme) option" where
  "map_get mp n s = (case malloc id (\<lambda>_. id) mp n s of
     Some (a, s') \<Rightarrow> if a = 0 then None else Some (a, s') | None \<Rightarrow> None)"

definition map_give :: "mapid \<Rightarrow> u_int \<Rightarrow> u_int \<Rightarrow> 'a vmem_scheme \<Rightarrow> 'a vmem_scheme" where
  "map_give mp n a s = (case mfree mp n a s of Some s' \<Rightarrow> s' | None \<Rightarrow> s)"

lemma no_fit_notice [simp]: "no_fit mp n (s\<lparr>notices := ns\<rparr>) = no_fit mp n s"
  by (cases mp) (simp_all add: no_fit_def map_arr_def)

lemma wf_map_notice [simp]: "wf_map mp (s\<lparr>notices := ns\<rparr>) = wf_map mp s"
  by (cases mp) (simp_all add: wf_map_def map_arr_def)

lemma map_get_none:
  assumes "wf_map mp s" "n \<noteq> 0" "no_fit mp n s"
  shows "map_get mp n s = None"
proof -
  have "malloc_once mp n s = Some (Inl ())"
    "malloc_once mp n (s\<lparr>notices := ShortOfSwap # notices s\<rparr>) = Some (Inl ())"
    using assms by (auto intro!: malloc_once_fails)
  then show ?thesis using assms(2) by (cases mp) (simp_all add: map_get_def malloc_def Let_def)
qed

lemma map_get_Some:
  assumes "wf_map mp s" "n \<noteq> 0" "map_get mp n s = Some (a, s')"
  shows "wf_map mp s' \<and> good_block (a, n) \<and> block a n \<subseteq> free_space mp s \<and>
    free_space mp s' = free_space mp s - block a n"
proof (cases "no_fit mp n s")
  case True
  then show ?thesis using map_get_none assms by fastforce
next
  case False
  obtain b es where once: "malloc_once mp n s = Some (Inr (b, set_arr mp es s))"
    and r: "good_block (b, n)" "block b n \<subseteq> free_space mp s"
      "cells (segs es) = free_space mp s - block b n" "wf_arr es"
      "length es = length (map_arr mp s)"
    using malloc_once_finds [OF assms(1,2) False] by metis
  have "a = b \<and> s' = set_arr mp es s"
    using malloc_finds [OF once assms(2), of id "\<lambda>_. id"] assms(3) r(1)
    by (simp add: map_get_def good_block_def)
  then show ?thesis using r wf_set_arr [OF assms(1) r(4,5)] by (simp add: free_space_def)
qed

lemma map_give_effect:
  assumes "wf_map mp s" "good_block (a, n)" "block a n \<inter> free_space mp s = {}"
  shows "wf_map mp (map_give mp n a s) \<and>
    free_space mp (map_give mp n a s) \<subseteq> free_space mp s \<union> block a n"
  using mfree_effect [OF assms] by (auto simp: map_give_def)

interpretation rm: space_allocator "map_get mp" "map_give mp" "free_space mp" "wf_map mp" for mp
  by unfold_locales (use map_get_Some map_give_effect in blast)+

text \<open>C3: Along any sequence of allocations and returns on one resource map, the pieces held by
  the callers are pairwise disjoint, disjoint from the free space, inside the original free space,
  and never at address 0; the map stays well formed.\<close>

theorem resource_map_safe:
  assumes "alloc_run (map_get mp) (map_give mp) s0 s A" "wf_map mp s0"
  shows "wf_map mp s \<and> apart A \<and> held A \<inter> free_space mp s = {} \<and>
    free_space mp s \<union> held A \<subseteq> free_space mp s0 \<and> (\<forall>p \<in> set A. good_block p)"
  using assms by (rule rm.run_safe)

lemma demo_run:
  "\<exists>s. alloc_run (map_get Swapmap) (map_give Swapmap) demo_vmem s [(10, 2), (20, 5)]"
proof -
  let ?m = "\<lambda>es. demo_vmem\<lparr>swapmap := \<lparr>m_map = es, m_limit = 3, m_name = ''demo''\<rparr>\<rparr>"
  let ?t = "[\<lparr>m_size = 0, m_addr = 0\<rparr>, \<lparr>m_size = 0, m_addr = 0\<rparr>]"
  have 1: "map_get Swapmap 5 demo_vmem =
      Some (20, ?m ([\<lparr>m_size = 4, m_addr = 10\<rparr>, \<lparr>m_size = 3, m_addr = 25\<rparr>] @ ?t))"
    by (simp add: map_get_def malloc_def malloc_once_def demo_vmem_def Let_def)
  have 2: "map_get Swapmap 2 (?m ([\<lparr>m_size = 4, m_addr = 10\<rparr>, \<lparr>m_size = 3, m_addr = 25\<rparr>] @ ?t)) =
      Some (10, ?m ([\<lparr>m_size = 2, m_addr = 12\<rparr>, \<lparr>m_size = 3, m_addr = 25\<rparr>] @ ?t))"
    by (simp add: map_get_def malloc_def malloc_once_def demo_vmem_def Let_def)
  show ?thesis
    using alloc_run.run_get [where get = "map_get Swapmap" and give = "map_give Swapmap" and ?m0.0 = demo_vmem, OF _ _ 2]
      alloc_run.run_get [where get = "map_get Swapmap" and give = "map_give Swapmap" and ?m0.0 = demo_vmem, OF _ _ 1]
      alloc_run.run_start [of "map_get Swapmap" "map_give Swapmap" demo_vmem] by fastforce
qed

theorem resource_map_safe_witness:
  "\<exists>s :: vmem. wf_map Swapmap s \<and> held [(10, 2), (20, 5)] \<inter> free_space Swapmap s = {}"
proof -
  obtain s where "alloc_run (map_get Swapmap) (map_give Swapmap) demo_vmem s [(10, 2), (20, 5)]"
    using demo_run by blast
  from resource_map_safe [OF this demo_wf] show ?thesis by blast
qed

section \<open>The limit of a map\<close>

text \<open>
  param.c sets \<open>m_limit\<close> of each map to the address behind its array
  (\<open>&_coremap[CMAPSIZ]\<close>), map.h calls it the address of the last slot. With the limit one
  behind the array the guard of \<open>mfree\<close> lets the terminator of a full array be copied out of
  bounds.
\<close>

text \<open>With m_limit set to the array's end, as param.c does, returning an isolated piece to a
  map whose every slot but the terminator is in use writes behind the array.\<close>

lemma mfree_overrun:
  assumes wf: "wf_arr (map_arr mp s)" and lim: "m_limit (get_map mp s) = length (map_arr mp s)"
    and good: "good_block (addr, sz)" and disj: "block addr sz \<inter> free_space mp s = {}"
    and iso: "isolated (unat addr) (unat sz) (segs (map_arr mp s))"
    and full: "length (map_arr mp s) = Suc (length (segs (map_arr mp s)))"
  shows "mfree mp sz addr s = None"
proof -
  have sz: "sz \<noteq> 0" "addr \<noteq> 0" "unat addr + unat sz < 65536"
    using good by (auto simp: good_block_def)
  have d: "{unat addr ..< unat addr + unat sz} \<inter> cells (segs (map_arr mp s)) = {}"
    using disj by (simp add: block_def free_space_def)
  from slot_split [OF wf sz(3) d sz(1)] obtain ls rs t gs
    where es: "map_arr mp s = ls @ rs @ t # gs"
    and nz: "\<forall>u \<in> set (ls @ rs). m_size u \<noteq> 0" "m_size t = 0"
    and slot: "find_slot addr (map_arr mp s) = Some (length ls)"
    and ls: "\<forall>u \<in> set ls. fst (seg u) + snd (seg u) \<le> unat addr"
    and rs: "\<forall>u \<in> set rs. unat addr + unat sz \<le> fst (seg u)" by metis
  have sg: "segs (map_arr mp s) = map seg ls @ map seg rs"
    using live_append [OF nz, of gs] es by (simp add: segs_def)
  then have gs: "gs = []" using full es by simp
  have touch: "fst (seg u) + snd (seg u) < unat addr \<or> unat addr + unat sz < fst (seg u)"
    if "u \<in> set (ls @ rs)" for u
    using iso that unfolding sg isolated_def by auto
  have left: "\<forall>u \<in> set ls. fst (seg u) + snd (seg u) < unat addr"
  proof
    fix u assume u: "u \<in> set ls"
    then have "fst (seg u) + snd (seg u) \<le> unat addr" using ls by blast
    with touch [of u] u show "fst (seg u) + snd (seg u) < unat addr" by auto
  qed
  have right: "\<forall>u \<in> set rs. unat addr + unat sz < fst (seg u)"
  proof
    fix u assume u: "u \<in> set rs"
    then have "unat addr + unat sz \<le> fst (seg u)" using rs by blast
    with touch [of u] u show "unat addr + unat sz < fst (seg u)" by auto
  qed
  have "mfree_map (m_limit (get_map mp s)) sz addr (map_arr mp s) = None"
    using mfree_new [of addr ls rs t gs sz] slot es nz left right sz(3) lim gs by simp
  then show ?thesis using sz(1,2) by (cases mp) (simp_all add: mfree_def map_arr_def)
qed

definition full_vmem :: vmem where
  "full_vmem =
     (let m = \<lparr>m_map = [\<lparr>m_size = 4, m_addr = 10\<rparr>, \<lparr>m_size = 8, m_addr = 20\<rparr>,
                       \<lparr>m_size = 0, m_addr = 0\<rparr>],
             m_limit = 3, m_name = ''full''\<rparr>
      in \<lparr>coremap = m, swapmap = m, ub_map = m, runin = False, runin_wakeups = 0, notices = []\<rparr>)"

lemma mfree_overrun_witness: "mfree Swapmap 3 40 full_vmem = None"
proof -
  have sg: "segs (map_arr Swapmap full_vmem) = [(10, 4), (20, 8)]"
    "m_limit (get_map Swapmap full_vmem) = 3" "length (map_arr Swapmap full_vmem) = 3"
    "terminated (map_arr Swapmap full_vmem)"
    by (simp_all add: map_arr_def full_vmem_def segs_def live_def seg_def Let_def terminated_def)
  show ?thesis
    by (rule mfree_overrun)
      (auto simp: wf_arr_def sg isolated_def good_block_def block_def free_space_def simp del: get_map.simps)
qed

end
