(* ===== verification/Clist.thy ===== *)
theory Clist imports Prelude begin

text \<open>
  The character lists of \<open>src/sys/sys/tty_subr.c\<close>: queues of bytes kept in aligned 32-byte
  blocks, each a next pointer (2 bytes) and 30 data bytes, with one shared free list. Pointers
  are addresses (natural numbers, NULL is 0); the masks \<open>& CROUND\<close> and \<open>& ~CROUND\<close> are
  remainder and truncation by the block size.
\<close>

section \<open>Data\<close>

abbreviation (input) CBLOCK :: nat where "CBLOCK \<equiv> 32"
abbreviation (input) CBSIZE :: nat where "CBSIZE \<equiv> 30"

text \<open>\<open>c_info b\<close> is the address of the first data byte of block \<open>b\<close>; \<open>blk a\<close> is
  \<open>a & ~CROUND\<close>, \<open>off a\<close> is \<open>a & CROUND\<close>.\<close>

definition c_info :: "nat \<Rightarrow> nat" where "c_info b = b + 2"

definition blk :: "nat \<Rightarrow> nat" where "blk a = a - a mod CBLOCK"

definition off :: "nat \<Rightarrow> nat" where "off a = a mod CBLOCK"

lemma off_less: "off a < CBLOCK"
  by (simp add: off_def)

lemma chunk_less:
  assumes "cc \<noteq> 0" "nc = min (min (CBLOCK - off a) cc) (nat k)" "\<not> k - int nc \<le> 0"
  shows "cc - nc < cc"
proof -
  have "0 < nat k" using assms(3) by linarith
  moreover have "0 < CBLOCK - off a" using off_less [of a] by linarith
  ultimately have "0 < nc" using assms(1,2) by (simp only: min_def split: if_splits) simp_all
  then show ?thesis using assms(1) by simp
qed

record clist =
  c_cc :: int
  c_cf :: nat
  c_cl :: nat

text \<open>
  The memory of the blocks and the globals of clist.h; \<open>cl_wakeups\<close> counts the calls
  \<open>wakeup(&cwaiting)\<close>.
\<close>

record clmem =
  c_next :: "nat \<Rightarrow> nat"
  c_char :: "nat \<Rightarrow> u_char"
  cfreelist :: nat
  cfreecount :: int
  cwaiting :: bool
  cl_wakeups :: nat

definition empty_clist :: clist where
  "empty_clist = \<lparr>c_cc = 0, c_cf = 0, c_cl = 0\<rparr>"

section \<open>The free list\<close>

text \<open>\<open>bp->c_next = cfreelist; cfreelist = bp; cfreecount += CBSIZE;\<close>\<close>

definition put_block :: "nat \<Rightarrow> clmem \<Rightarrow> clmem" where
  "put_block bp m = m\<lparr>c_next := (c_next m)(bp := cfreelist m), cfreelist := bp,
     cfreecount := cfreecount m + int CBSIZE\<rparr>"

text \<open>\<open>if (cwaiting) { wakeup(&cwaiting); cwaiting = 0; }\<close>\<close>

definition wake_waiting :: "clmem \<Rightarrow> clmem" where
  "wake_waiting m = (if cwaiting m then m\<lparr>cl_wakeups := Suc (cl_wakeups m), cwaiting := False\<rparr> else m)"

text \<open>\<open>cfreelist = bp->c_next; cfreecount -= CBSIZE; bp->c_next = NULL;\<close>\<close>

definition take_block :: "nat \<Rightarrow> clmem \<Rightarrow> clmem" where
  "take_block bp m = m\<lparr>cfreelist := c_next m bp, cfreecount := cfreecount m - int CBSIZE,
     c_next := (c_next m)(bp := 0)\<rparr>"

text \<open>The loop of \<open>cinit\<close> from the block \<open>cp\<close>, \<open>n\<close> blocks.\<close>

fun cinit_loop :: "nat \<Rightarrow> nat \<Rightarrow> clmem \<Rightarrow> clmem" where
  "cinit_loop 0 cp m = m"
| "cinit_loop (Suc n) cp m = cinit_loop n (cp + CBLOCK) (put_block cp m)"

text \<open>\<open>cinit\<close> with the array \<open>cfree\<close> at the given address: round up to a block, then free
  every block that starts at or before \<open>&cfree[nclist - 1]\<close>.\<close>

definition cinit :: "nat \<Rightarrow> nat \<Rightarrow> clmem \<Rightarrow> clmem" where
  "cinit cfree nclist m =
     (let ccp = blk (cfree + (CBLOCK - 1)); final = cfree + CBLOCK * nclist - CBLOCK in
      if nclist = 0 \<or> final < ccp then m
      else cinit_loop (Suc ((final - ccp) div CBLOCK)) ccp m)"

section \<open>Taking characters out\<close>

definition getc :: "clist \<Rightarrow> clmem \<Rightarrow> int \<times> clist \<times> clmem" where
  "getc p m =
     (if c_cc p \<le> 0 then (- 1, empty_clist, m)
      else
        let c = uint (c_char m (c_cf p));
            p1 = p\<lparr>c_cf := c_cf p + 1, c_cc := c_cc p - 1\<rparr> in
        if c_cc p1 \<le> 0 then
          (c, p1\<lparr>c_cf := 0, c_cl := 0\<rparr>, wake_waiting (put_block (blk (c_cf p1 - 1)) m))
        else if off (c_cf p1) = 0 then
          (let bp = c_cf p1 - CBLOCK in
           (c, p1\<lparr>c_cf := c_info (c_next m bp)\<rparr>, wake_waiting (put_block bp m)))
        else (c, p1, m))"

text \<open>The bytes at \<open>n\<close> consecutive addresses, and a block of bytes stored (\<open>bcopy\<close>).\<close>

definition load :: "nat \<Rightarrow> nat \<Rightarrow> clmem \<Rightarrow> u_char list" where
  "load a n m = map (c_char m) [a ..< a + n]"

fun store :: "nat \<Rightarrow> u_char list \<Rightarrow> clmem \<Rightarrow> clmem" where
  "store a [] m = m"
| "store a (c # cs) m = store (Suc a) cs (m\<lparr>c_char := (c_char m)(a := c)\<rparr>)"

text \<open>The loop of \<open>q_to_b\<close>; the last component is the buffer filled so far.\<close>

function q_to_b_loop :: "nat \<Rightarrow> clist \<Rightarrow> clmem \<Rightarrow> u_char list \<Rightarrow> clist \<times> clmem \<times> u_char list" where
  "q_to_b_loop cc q m buf =
     (if cc = 0 then (q, m, buf)
      else
        let nc = min (min (CBLOCK - off (c_cf q)) cc) (nat (c_cc q));
            buf' = buf @ load (c_cf q) nc m;
            q1 = q\<lparr>c_cf := c_cf q + nc, c_cc := c_cc q - int nc\<rparr> in
        if c_cc q1 \<le> 0 then
          (q1\<lparr>c_cf := 0, c_cl := 0\<rparr>, wake_waiting (put_block (blk (c_cf q1 - 1)) m), buf')
        else if off (c_cf q1) = 0 then
          (let bp = c_cf q1 - CBLOCK in
           q_to_b_loop (cc - nc) (q1\<lparr>c_cf := c_info (c_next m bp)\<rparr>)
             (wake_waiting (put_block bp m)) buf')
        else q_to_b_loop (cc - nc) q1 m buf')"
  by pat_completeness auto
termination
proof (relation "measure (\<lambda>(cc, q, m, buf). cc)", goal_cases)
  case 1
  then show ?case by simp
next
  case (2 cc q m buf nc buf' q1 bp)
  have "c_cc q1 = c_cc q - int nc" unfolding 2(4) by simp
  with 2(5) have "\<not> c_cc q - int nc \<le> 0" by argo
  then have "cc - nc < cc" by (rule chunk_less [OF 2(1,2)])
  then show ?case by (simp only: in_measure prod.case)
next
  case (3 cc q m buf nc buf' q1)
  have "c_cc q1 = c_cc q - int nc" unfolding 3(4) by simp
  with 3(5) have "\<not> c_cc q - int nc \<le> 0" by argo
  then have "cc - nc < cc" by (rule chunk_less [OF 3(1,2)])
  then show ?case by (simp only: in_measure prod.case)
qed

declare q_to_b_loop.simps [simp del]

definition q_to_b :: "clist \<Rightarrow> int \<Rightarrow> clmem \<Rightarrow> u_char list \<times> clist \<times> clmem" where
  "q_to_b q cc m =
     (if cc \<le> 0 then ([], q, m)
      else if c_cc q \<le> 0 then ([], empty_clist, m)
      else case q_to_b_loop (nat cc) q m [] of (q', m', buf) \<Rightarrow> (buf, q', m'))"

text \<open>\<open>ndqb\<close>: the number of contiguous characters at the head of the list, up to the first one
  that shares a bit with the flag.\<close>

definition ndqb :: "clist \<Rightarrow> u_char \<Rightarrow> clmem \<Rightarrow> int" where
  "ndqb q flag m =
     (if c_cc q \<le> 0 then - c_cc q
      else
        let cc = int (blk (c_cf q + CBSIZE)) - int (c_cf q);
            cc = (if c_cc q < cc then c_cc q else cc) in
        if flag = 0 then cc
        else int (length (takeWhile (\<lambda>c. and c flag = 0) (load (c_cf q) (nat cc) m))))"

text \<open>The loop of \<open>ndflush\<close>. A list that is not in order may make no progress, so the loop
  is a partial function.\<close>

partial_function (option) ndflush_loop :: "int \<Rightarrow> clist \<Rightarrow> clmem \<Rightarrow> (clist \<times> clmem) option" where
  "ndflush_loop cc q m =
     (if cc > 0 \<and> c_cc q \<noteq> 0 then
        (let bp = blk (c_cf q);
             stop = (if bp = blk (c_cl q - 1) then c_cl q else bp + CBLOCK);
             rem = int stop - int (c_cf q) in
         if cc \<ge> rem then
           ndflush_loop (cc - rem)
             (q\<lparr>c_cc := c_cc q - rem, c_cf := c_info (c_next m bp)\<rparr>)
             (wake_waiting (put_block bp m))
         else
           (let q1 = q\<lparr>c_cc := c_cc q - cc, c_cf := nat (int (c_cf q) + cc)\<rparr> in
            if c_cc q1 \<le> 0 then Some (q1, wake_waiting (put_block bp m)) else Some (q1, m)))
      else Some (q, m))"

definition ndflush :: "clist \<Rightarrow> int \<Rightarrow> clmem \<Rightarrow> (clist \<times> clmem) option" where
  "ndflush q cc m =
     (if c_cc q \<le> 0 then Some (q, m)
      else do {
        (q', m') \<leftarrow> ndflush_loop cc q m;
        Some (if c_cc q' \<le> 0 then empty_clist else q', m')
      })"

section \<open>Putting characters in\<close>

definition putc :: "int \<Rightarrow> clist \<Rightarrow> clmem \<Rightarrow> int \<times> clist \<times> clmem" where
  "putc c p m =
     (let deposit = (\<lambda>cp p m. (0, p\<lparr>c_cc := c_cc p + 1, c_cl := cp + 1\<rparr>,
                        m\<lparr>c_char := (c_char m)(cp := word_of_int c)\<rparr>)) in
      if c_cl p = 0 \<or> c_cc p < 0 then
        (if cfreelist m = 0 then (- 1, p, m)
         else let bp = cfreelist m in
           deposit (c_info bp) (p\<lparr>c_cf := c_info bp\<rparr>) (take_block bp m))
      else if off (c_cl p) = 0 then
        (let bp = c_cl p - CBLOCK;
             m1 = m\<lparr>c_next := (c_next m)(bp := cfreelist m)\<rparr> in
         if c_next m1 bp = 0 then (- 1, p, m1)
         else let bp' = c_next m1 bp in
           deposit (c_info bp') p (take_block bp' m1))
      else deposit (c_cl p) p m)"

text \<open>The loop of \<open>b_to_q\<close> from the position \<open>cq\<close>: the new position, what was left over.\<close>

function b_to_q_loop :: "u_char list \<Rightarrow> nat \<Rightarrow> clmem \<Rightarrow> nat \<times> clmem \<times> u_char list" where
  "b_to_q_loop cs cq m =
     (if cs = [] then (cq, m, cs)
      else
        let write = (\<lambda>cq m. let nc = min (length cs) (CBLOCK - off cq) in
                       b_to_q_loop (drop nc cs) (cq + nc) (store cq (take nc cs) m)) in
        if off cq = 0 then
          (let bp = cq - CBLOCK;
               m1 = m\<lparr>c_next := (c_next m)(bp := cfreelist m)\<rparr> in
           if c_next m1 bp = 0 then (cq, m1, cs)
           else let bp' = c_next m1 bp in write (c_info bp') (take_block bp' m1))
        else write cq m)"
  by pat_completeness auto
termination
  by (relation "measure (\<lambda>(cs, cq, m). length cs)") (auto simp: off_less)

declare b_to_q_loop.simps [simp del]

text \<open>\<open>b_to_q\<close> with the buffer as a list (its length is \<open>cc\<close>): the number of bytes not
  transferred.\<close>

definition b_to_q :: "u_char list \<Rightarrow> clist \<Rightarrow> clmem \<Rightarrow> int \<times> clist \<times> clmem" where
  "b_to_q cs q m =
     (if cs = [] then (0, q, m)
      else
        let finish = (\<lambda>(cq, m', rest) q. (int (length rest),
              q\<lparr>c_cl := cq, c_cc := c_cc q + (int (length cs) - int (length rest))\<rparr>, m')) in
        if c_cl q = 0 \<or> c_cc q < 0 then
          (if cfreelist m = 0 then finish (c_cl q, m, cs) q
           else let bp = cfreelist m in
             finish (b_to_q_loop cs (c_info bp) (take_block bp m)) (q\<lparr>c_cf := c_info bp\<rparr>))
        else finish (b_to_q_loop cs (c_cl q) m) q)"

section \<open>Looking at and removing the end\<close>

definition nextc :: "clist \<Rightarrow> nat \<Rightarrow> clmem \<Rightarrow> nat" where
  "nextc p cp m =
     (if c_cc p \<noteq> 0 \<and> cp + 1 \<noteq> c_cl p then
        (if off (cp + 1) = 0 then c_info (c_next m (cp + 1 - CBLOCK)) else cp + 1)
      else 0)"

text \<open>\<open>while (bp->c_next != target) bp = bp->c_next;\<close>\<close>

partial_function (option) find_pred :: "nat \<Rightarrow> nat \<Rightarrow> clmem \<Rightarrow> nat option" where
  "find_pred target bp m =
     (if c_next m bp \<noteq> target then find_pred target (c_next m bp) m else Some bp)"

text \<open>\<open>unputc\<close>. The character is read through a \<open>char *\<close>, which is signed.\<close>

definition unputc :: "clist \<Rightarrow> clmem \<Rightarrow> (int \<times> clist \<times> clmem) option" where
  "unputc p m =
     (if c_cc p \<le> 0 then Some (- 1, p, m)
      else
        let p1 = p\<lparr>c_cl := c_cl p - 1, c_cc := c_cc p - 1\<rparr>;
            c = sint (c_char m (c_cl p1)) in
        if c_cc p1 \<le> 0 then
          Some (c, p1\<lparr>c_cl := 0, c_cf := 0\<rparr>, put_block (blk (c_cl p1)) m)
        else if off (c_cl p1) = 2 then
          (let dead = blk (c_cl p1) in do {
             obp \<leftarrow> find_pred dead (blk (c_cf p1)) m;
             let bp = c_next m obp;
             let m1 = put_block bp m;
             Some (c, p1\<lparr>c_cl := obp + CBLOCK\<rparr>, m1\<lparr>c_next := (c_next m1)(obp := 0)\<rparr>)
           })
        else Some (c, p1, m))"

text \<open>\<open>catq\<close>: the queues are different objects. The loop copies through a buffer of
  \<open>CBSIZE * 4\<close> bytes; the result of \<open>b_to_q\<close> is ignored.\<close>

partial_function (option) catq_loop :: "clist \<Rightarrow> clist \<Rightarrow> clmem \<Rightarrow> (clist \<times> clist \<times> clmem) option" where
  "catq_loop src dst m =
     (if c_cc src > 0 then
        (case q_to_b src (int (CBSIZE * 4)) m of
          (buf, src', m1) \<Rightarrow>
            (case b_to_q buf dst m1 of (_, dst', m2) \<Rightarrow> catq_loop src' dst' m2))
      else Some (src, dst, m))"

definition catq :: "clist \<Rightarrow> clist \<Rightarrow> clmem \<Rightarrow> (clist \<times> clist \<times> clmem) option" where
  "catq src dst m =
     (if c_cc dst = 0 then Some (empty_clist, src, m) else catq_loop src dst m)"

end
