(* ===== verification/ClistSpec.thy ===== *)
theory ClistSpec imports Clist begin

text \<open>
  The block chains of \<open>Clist\<close> implement byte queues. A queue in order runs through a list of
  blocks; the bytes it holds are those at the addresses from \<open>c_cf\<close> to \<open>c_cl\<close> along that
  chain. The free blocks form a list of their own, and \<open>cfreecount\<close> is its size in bytes.
\<close>

section \<open>Chains of blocks\<close>

definition block_addr :: "nat \<Rightarrow> bool" where
  "block_addr b \<longleftrightarrow> b \<noteq> 0 \<and> b mod 32 = 0"

fun chain :: "clmem \<Rightarrow> nat \<Rightarrow> nat \<Rightarrow> nat list \<Rightarrow> bool" where
  "chain m cf cl [] \<longleftrightarrow> False"
| "chain m cf cl [b] \<longleftrightarrow> block_addr b \<and> b + 2 \<le> cf \<and> cf < cl \<and> cl \<le> b + 32"
| "chain m cf cl (b # b' # bs) \<longleftrightarrow> block_addr b \<and> b + 2 \<le> cf \<and> cf < b + 32 \<and> c_next m b = b' \<and>
     chain m (b' + 2) cl (b' # bs)"

fun span :: "nat \<Rightarrow> nat \<Rightarrow> nat list \<Rightarrow> nat list" where
  "span cf cl [] = []"
| "span cf cl [b] = [cf ..< cl]"
| "span cf cl (b # b' # bs) = [cf ..< b + 32] @ span (b' + 2) cl (b' # bs)"

definition holds :: "clmem \<Rightarrow> clist \<Rightarrow> nat list \<Rightarrow> u_char list \<Rightarrow> bool" where
  "holds m q bl bs \<longleftrightarrow>
     (if bl = [] then q = empty_clist \<and> bs = []
      else chain m (c_cf q) (c_cl q) bl \<and> c_cc q = int (length bs) \<and>
        bs = map (c_char m) (span (c_cf q) (c_cl q) bl))"

fun freel :: "clmem \<Rightarrow> nat \<Rightarrow> nat list \<Rightarrow> bool" where
  "freel m p [] \<longleftrightarrow> p = 0"
| "freel m p (b # bs) \<longleftrightarrow> p = b \<and> block_addr b \<and> freel m (c_next m b) bs"

definition pool :: "clmem \<Rightarrow> clist \<Rightarrow> nat list \<Rightarrow> u_char list \<Rightarrow> nat list \<Rightarrow> bool" where
  "pool m q bl bs fl \<longleftrightarrow> holds m q bl bs \<and> freel m (cfreelist m) fl \<and>
     cfreecount m = 30 * int (length fl) \<and> distinct (bl @ fl)"

text \<open>\<open>queue U q m bs\<close>: the queue holds the bytes \<open>bs\<close>; it and the free list together own
  exactly the blocks \<open>U\<close>.\<close>

definition queue :: "nat set \<Rightarrow> clist \<Rightarrow> clmem \<Rightarrow> u_char list \<Rightarrow> bool" where
  "queue U q m bs \<longleftrightarrow> (\<exists>bl fl. pool m q bl bs fl \<and> set bl \<union> set fl = U)"

text \<open>Memory outside the blocks \<open>U\<close> is as it was.\<close>

definition frame :: "nat set \<Rightarrow> clmem \<Rightarrow> clmem \<Rightarrow> bool" where
  "frame U m m' \<longleftrightarrow> (\<forall>b. b \<notin> U \<longrightarrow> c_next m' b = c_next m b) \<and>
     (\<forall>a. blk a \<notin> U \<longrightarrow> c_char m' a = c_char m a)"

lemma frame_refl [simp]: "frame U m m"
  by (simp add: frame_def)

lemma frame_trans: "frame U m m' \<Longrightarrow> frame U m' m'' \<Longrightarrow> frame U m m''"
  by (simp add: frame_def)

lemma blk_in: "block_addr b \<Longrightarrow> b \<le> a \<Longrightarrow> a < b + 32 \<Longrightarrow> blk a = b \<and> off a = a - b"
proof -
  assume a: "block_addr b" "b \<le> a" "a < b + 32"
  then have "a mod 32 = (a - b) mod 32" by (metis block_addr_def add.right_neutral le_add_diff_inverse mod_add_left_eq plus_nat.add_0)
  then show ?thesis using a by (simp add: blk_def off_def)
qed

lemma off_end: "block_addr b \<Longrightarrow> off (b + 32) = 0"
  by (simp add: off_def block_addr_def)

lemma chain_blocks: "chain m cf cl bl \<Longrightarrow> b \<in> set bl \<Longrightarrow> block_addr b"
  by (induction m cf cl bl rule: chain.induct) auto

lemma freel_blocks: "freel m p fl \<Longrightarrow> b \<in> set fl \<Longrightarrow> block_addr b"
  by (induction fl arbitrary: p) auto

lemma chain_not_Nil: "chain m cf cl bl \<Longrightarrow> bl \<noteq> []"
  by auto

lemma chain_head: "chain m cf cl (b # bl) \<Longrightarrow> block_addr b \<and> b + 2 \<le> cf \<and> cf < b + 32"
  by (cases bl) auto

lemma chain_last: "chain m cf cl bl \<Longrightarrow> block_addr (last bl) \<and> last bl + 2 < cl \<and> cl \<le> last bl + 32"
  by (induction m cf cl bl rule: chain.induct) auto

lemma span_blocks: "chain m cf cl bl \<Longrightarrow> a \<in> set (span cf cl bl) \<Longrightarrow> blk a \<in> set bl"
proof (induction m cf cl bl rule: chain.induct)
  case (2 m cf cl b)
  then show ?case using blk_in [of b a] by auto
next
  case (3 m cf cl b b' bs)
  then show ?case using blk_in [of b a] by auto
qed simp

lemma span_not_Nil: "chain m cf cl bl \<Longrightarrow> span cf cl bl \<noteq> []"
  by (induction m cf cl bl rule: chain.induct) auto

lemma chain_cong:
  "(\<And>b. b \<in> set (butlast bl) \<Longrightarrow> c_next m' b = c_next m b) \<Longrightarrow> chain m' cf cl bl = chain m cf cl bl"
  by (induction m cf cl bl rule: chain.induct) auto

lemma freel_cong: "(\<And>b. b \<in> set fl \<Longrightarrow> c_next m' b = c_next m b) \<Longrightarrow> freel m' p fl = freel m p fl"
  by (induction fl arbitrary: p) auto

lemma holds_frame:
  assumes "holds m p pl ps" "frame U m m'" "set pl \<inter> U = {}"
  shows "holds m' p pl ps"
proof (cases "pl = []")
  case True
  then show ?thesis using assms(1) by (simp add: holds_def)
next
  case False
  then have c: "chain m (c_cf p) (c_cl p) pl" "c_cc p = int (length ps)"
    "ps = map (c_char m) (span (c_cf p) (c_cl p) pl)" using assms(1) by (auto simp: holds_def)
  have "chain m' (c_cf p) (c_cl p) pl = chain m (c_cf p) (c_cl p) pl"
  proof (rule chain_cong)
    fix b assume "b \<in> set (butlast pl)"
    then have "b \<in> set pl" by (rule in_set_butlastD)
    then show "c_next m' b = c_next m b" using assms(2,3) by (auto simp: frame_def)
  qed
  moreover have "map (c_char m') (span (c_cf p) (c_cl p) pl) = ps"
    unfolding c(3) using assms(2,3) span_blocks [OF c(1)]
    by (intro map_cong refl) (auto simp: frame_def)
  ultimately show ?thesis using False c by (simp add: holds_def)
qed

text \<open>\<open>n\<close> bytes taken off the front, all from the first block.\<close>

lemma chain_chunk:
  assumes "chain m cf cl (b # bl)" "0 < n" "n \<le> 32 - off cf" "n \<le> length (span cf cl (b # bl))"
  shows "blk (cf + n - 1) = b \<and>
   ((bl = [] \<and> n = length (span cf cl (b # bl)) \<and> span cf cl (b # bl) = [cf ..< cf + n]) \<or>
    (bl \<noteq> [] \<and> cf + n = b + 32 \<and> c_next m b = hd bl \<and> chain m (hd bl + 2) cl bl \<and>
      span cf cl (b # bl) = [cf ..< cf + n] @ span (hd bl + 2) cl bl) \<or>
    (cf + n < b + 32 \<and> chain m (cf + n) cl (b # bl) \<and>
      span cf cl (b # bl) = [cf ..< cf + n] @ span (cf + n) cl (b # bl)))"
proof -
  have b: "block_addr b" "b + 2 \<le> cf" "cf < b + 32" using chain_head [OF assms(1)] by auto
  have o: "off cf = cf - b" using blk_in [OF b(1) _ b(3)] b(2) by simp
  then have n: "cf + n \<le> b + 32" using assms(3) b by linarith
  then have blk: "blk (cf + n - 1) = b" using blk_in [OF b(1), of "cf + n - 1"] b assms(2) by simp
  have app: "[cf ..< e] = [cf ..< cf + n] @ [cf + n ..< e]" if "cf + n \<le> e" for e
    using upt_add_eq_append [of cf "cf + n" "e - (cf + n)"] that by simp
  show ?thesis
  proof (cases bl)
    case Nil
    then have cl: "cf < cl" "cl \<le> b + 32" using assms(1) by auto
    show ?thesis
    proof (cases "cf + n = cl")
      case True
      then show ?thesis using blk Nil by auto
    next
      case False
      then have "cf + n < cl" using assms(4) Nil cl unfolding Nil span.simps length_upt by linarith
      then show ?thesis using blk Nil b cl app [of cl] assms(1) by simp
    qed
  next
    case (Cons b' bs)
    show ?thesis
    proof (cases "cf + n = b + 32")
      case True
      then show ?thesis using blk Cons assms(1) by simp
    next
      case False
      then have "cf + n < b + 32" using n by simp
      then show ?thesis using blk Cons b assms(1) app [of "b + 32"] by simp
    qed
  qed
qed

section \<open>The free list\<close>

lemma wake_waiting_fields [simp]:
  "c_next (wake_waiting m) = c_next m" "c_char (wake_waiting m) = c_char m"
  "cfreelist (wake_waiting m) = cfreelist m" "cfreecount (wake_waiting m) = cfreecount m"
  by (simp_all add: wake_waiting_def)

lemma freel_put:
  assumes "freel m (cfreelist m) fl" "block_addr b" "b \<notin> set fl"
  shows "freel (put_block b m) b (b # fl)"
proof -
  have "freel (put_block b m) (cfreelist m) fl = freel m (cfreelist m) fl"
    using assms(3) by (intro freel_cong) (auto simp: put_block_def)
  then show ?thesis using assms by (simp add: put_block_def)
qed

lemma put_block_fields [simp]:
  "cfreelist (put_block b m) = b" "cfreecount (put_block b m) = cfreecount m + 30"
  "c_char (put_block b m) = c_char m" "c_next (put_block b m) = (c_next m)(b := cfreelist m)"
  by (simp_all add: put_block_def)


lemma put_block_pool:
  assumes "holds m' q bl bs" "m' = wake_waiting (put_block b m) \<or> m' = put_block b m"
    and "freel m (cfreelist m) fl" "cfreecount m = 30 * int (length fl)"
    and "block_addr b" "b \<notin> set fl" "distinct (bl @ fl)" "b \<notin> set bl"
  shows "pool m' q bl bs (b # fl)"
proof -
  have "freel m' b (b # fl) = freel (put_block b m) b (b # fl)"
    using assms(2) by (intro freel_cong) auto
  then have "freel m' b (b # fl)" using freel_put assms(3,5,6) by simp
  moreover have "cfreelist m' = b" "cfreecount m' = cfreecount m + 30" using assms(2) by auto
  ultimately show ?thesis using assms by (simp add: pool_def)
qed

section \<open>Taking characters out\<close>

text \<open>What \<open>getc\<close> and \<open>q_to_b\<close> do after they have read \<open>n\<close> bytes of the first block.\<close>

definition advance :: "nat \<Rightarrow> clist \<Rightarrow> clmem \<Rightarrow> clist \<times> clmem" where
  "advance n q m =
     (let q1 = q\<lparr>c_cf := c_cf q + n, c_cc := c_cc q - int n\<rparr> in
      if c_cc q1 \<le> 0 then
        (q1\<lparr>c_cf := 0, c_cl := 0\<rparr>, wake_waiting (put_block (blk (c_cf q1 - 1)) m))
      else if off (c_cf q1) = 0 then
        (q1\<lparr>c_cf := c_info (c_next m (c_cf q1 - 32))\<rparr>,
         wake_waiting (put_block (c_cf q1 - 32) m))
      else (q1, m))"

text \<open>The bytes already consumed of the first block.\<close>

definition slack :: "clist \<Rightarrow> int" where
  "slack q = (if c_cc q = 0 then 0 else int (off (c_cf q)) - 2)"

lemma getc_advance:
  "0 < c_cc p \<Longrightarrow> getc p m = (uint (c_char m (c_cf p)), advance 1 p m)"
  by (simp add: getc_def advance_def Let_def)

lemma getc_none: "c_cc p \<le> 0 \<Longrightarrow> getc p m = (- 1, empty_clist, m)"
  by (simp add: getc_def)

lemma q_to_b_loop_advance:
  assumes "cc \<noteq> 0" "nc = min (min (32 - off (c_cf q)) cc) (nat (c_cc q))"
    and "advance nc q m = (q', m')"
  shows "q_to_b_loop cc q m buf =
    (if c_cc q' \<le> 0 then (q', m', buf @ load (c_cf q) nc m)
     else q_to_b_loop (cc - nc) q' m' (buf @ load (c_cf q) nc m))"
  using assms(3) unfolding q_to_b_loop.simps [of cc] assms(2) [symmetric] Let_def advance_def
  using assms(1) by (auto split: if_splits)

lemma queue_empty: "queue U q m [] \<Longrightarrow> q = empty_clist"
  by (auto simp: queue_def pool_def holds_def dest: span_not_Nil split: if_splits)

lemma queue_cc: "queue U q m bs \<Longrightarrow> c_cc q = int (length bs)"
  by (auto simp: queue_def pool_def holds_def empty_clist_def split: if_splits)

lemma advance_queue:
  assumes "queue U q m bs" "0 < n" "n \<le> 32 - off (c_cf q)" "n \<le> length bs"
  shows "\<exists>q' m'. advance n q m = (q', m') \<and> queue U q' m' (drop n bs) \<and> frame U m m' \<and>
    load (c_cf q) n m = take n bs \<and>
    cfreecount m + slack q + int n \<le> cfreecount m' + slack q'"
proof -
  obtain bl0 fl where p: "pool m q bl0 bs fl" and U: "set bl0 \<union> set fl = U"
    using assms(1) by (auto simp: queue_def)
  have "bl0 \<noteq> []" using p assms(2,4) by (auto simp: pool_def holds_def)
  then obtain b bl where bl0: "bl0 = b # bl" by (cases bl0) auto
  have c: "chain m (c_cf q) (c_cl q) (b # bl)" and cc: "c_cc q = int (length bs)"
    and bs: "bs = map (c_char m) (span (c_cf q) (c_cl q) (b # bl))"
    and fl: "freel m (cfreelist m) fl" "cfreecount m = 30 * int (length fl)"
    and d: "distinct (b # bl @ fl)"
    using p bl0 by (auto simp: pool_def holds_def)
  have b: "block_addr b" "b + 2 \<le> c_cf q" "c_cf q < b + 32" using chain_head [OF c] by auto
  have offb: "off (c_cf q) = c_cf q - b" using blk_in [OF b(1) _ b(3)] b(2) by simp
  have slack: "slack q = int (c_cf q) - int b - 2"
    using cc assms(2,4) offb b by (auto simp: slack_def)
  note ch = chain_chunk [OF c assms(2,3)]
  have n: "n \<le> length (span (c_cf q) (c_cl q) (b # bl))" using assms(4) bs by simp
  let ?sp = "span (c_cf q) (c_cl q) (b # bl)"
  consider (all) "bl = []" "n = length ?sp" "?sp = [c_cf q ..< c_cf q + n]"
    | (cross) "bl \<noteq> []" "c_cf q + n = b + 32" "c_next m b = hd bl" "chain m (hd bl + 2) (c_cl q) bl"
      "?sp = [c_cf q ..< c_cf q + n] @ span (hd bl + 2) (c_cl q) bl"
    | (inner) "c_cf q + n < b + 32" "chain m (c_cf q + n) (c_cl q) (b # bl)"
      "?sp = [c_cf q ..< c_cf q + n] @ span (c_cf q + n) (c_cl q) (b # bl)"
    using ch [OF n] by blast
  then show ?thesis
  proof cases
    case all
    have nb: "n = length bs" "bs = map (c_char m) [c_cf q ..< c_cf q + n]"
      using all(2,3) bs by simp_all
    let ?m = "wake_waiting (put_block b m)"
    have adv: "advance n q m = (empty_clist, ?m)"
      using ch [OF n] nb(1) cc by (simp add: advance_def Let_def empty_clist_def)
    have "pool ?m empty_clist [] [] (b # fl)"
      using fl b d by (intro put_block_pool) (auto simp: holds_def)
    then have "queue U empty_clist ?m (drop n bs)"
      using U bl0 all(1) nb(1) unfolding queue_def by (intro exI [of _ "[]"] exI [of _ "b # fl"]) auto
    moreover have "frame U m ?m" using U bl0 by (auto simp: frame_def)
    moreover have "load (c_cf q) n m = take n bs" using nb by (simp add: load_def)
    moreover have "slack q + int n \<le> 30"
      using slack offb b assms(3) by linarith
    ultimately show ?thesis using adv by (simp add: slack_def empty_clist_def)
  next
    case cross
    have bsx: "bs = map (c_char m) [c_cf q ..< c_cf q + n] @ map (c_char m) (span (hd bl + 2) (c_cl q) bl)"
      using bs unfolding cross(5) by simp
    let ?m = "wake_waiting (put_block b m)"
    let ?q = "q\<lparr>c_cf := hd bl + 2, c_cc := c_cc q - int n\<rparr>"
    have len: "n < length bs" using arg_cong [OF bsx, of length] span_not_Nil [OF cross(4)] by simp
    have adv: "advance n q m = (?q, ?m)"
      using len cc cross off_end [OF b(1)] by (simp add: advance_def Let_def c_info_def)
    have c': "chain ?m (hd bl + 2) (c_cl q) bl" using cross(4) d
      by (subst chain_cong [where m = m]) (auto dest: in_set_butlastD)
    have "holds ?m ?q bl (drop n bs)"
      using c' cross(1) cc len bsx by (simp add: holds_def)
    then have "pool ?m ?q bl (drop n bs) (b # fl)"
      using fl b d by (intro put_block_pool) auto
    then have "queue U ?q ?m (drop n bs)"
      using U bl0 unfolding queue_def by (intro exI [of _ bl] exI [of _ "b # fl"]) auto
    moreover have "frame U m ?m" using U bl0 by (auto simp: frame_def)
    moreover have "load (c_cf q) n m = take n bs" using bsx by (simp add: load_def)
    moreover have "slack ?q = 0"
    proof -
      have "block_addr (hd bl)" using chain_head cross(1,4) by (cases bl) auto
      then have "off (hd bl + 2) = 2" using blk_in [of "hd bl" "hd bl + 2"] by simp
      then show ?thesis by (simp add: slack_def)
    qed
    moreover have "slack q + int n = 30" using slack cross(2) by linarith
    ultimately show ?thesis using adv by (intro exI [of _ ?q] exI [of _ ?m]) simp
  next
    case inner
    have bsx: "bs = map (c_char m) [c_cf q ..< c_cf q + n] @
        map (c_char m) (span (c_cf q + n) (c_cl q) (b # bl))"
      using bs unfolding inner(3) by simp
    let ?q = "q\<lparr>c_cf := c_cf q + n, c_cc := c_cc q - int n\<rparr>"
    have len: "n < length bs" using arg_cong [OF bsx, of length] span_not_Nil [OF inner(2)] by simp
    have o: "off (c_cf q + n) = c_cf q + n - b" using blk_in [OF b(1), of "c_cf q + n"] b inner(1) by simp
    then have o0: "off (c_cf q + n) \<noteq> 0" using b by simp
    have adv: "advance n q m = (?q, m)" using len cc o0 by (simp add: advance_def Let_def)
    have "holds m ?q (b # bl) (drop n bs)" using inner(2) bsx len cc by (simp add: holds_def)
    then have "pool m ?q (b # bl) (drop n bs) fl" using fl d by (simp add: pool_def)
    then have "queue U ?q m (drop n bs)" using U bl0 unfolding queue_def by blast
    moreover have "load (c_cf q) n m = take n bs" using bsx by (simp add: load_def)
    moreover have "slack ?q = slack q + int n" using slack len cc o b by (simp add: slack_def)
    ultimately show ?thesis using adv by simp
  qed
qed

text \<open>The contiguous run at the head of the queue.\<close>

lemma first_run:
  assumes "queue U q m bs" "bs \<noteq> []"
  obtains n where "0 < n" "n \<le> 32 - off (c_cf q)" "n \<le> length bs"
    "int n = int (if blk (c_cf q) = blk (c_cl q - 1) then c_cl q else blk (c_cf q) + 32) - int (c_cf q)"
    "n = min (32 - off (c_cf q)) (length bs)" "blk (c_cf q + 30) = blk (c_cf q) + 32"
    "c_cf q = blk (c_cf q) + off (c_cf q)"
    "n < length bs \<Longrightarrow> off (c_cf q + n) = 0" "blk (c_cf q + n - 1) = blk (c_cf q)"
proof -
  obtain bl0 fl where p: "pool m q bl0 bs fl" and U: "set bl0 \<union> set fl = U"
    using assms(1) by (auto simp: queue_def)
  have "bl0 \<noteq> []" using p assms(2) by (auto simp: pool_def holds_def)
  then obtain b bl where bl0: "bl0 = b # bl" by (cases bl0) auto
  have c: "chain m (c_cf q) (c_cl q) (b # bl)"
    and bs: "length bs = length (span (c_cf q) (c_cl q) (b # bl))" and d: "distinct (b # bl)"
    using p bl0 by (auto simp: pool_def holds_def)
  have b: "block_addr b" "b + 2 \<le> c_cf q" "c_cf q < b + 32" using chain_head [OF c] by auto
  have offb: "off (c_cf q) = c_cf q - b" and blkb: "blk (c_cf q) = b"
    using blk_in [OF b(1) _ b(3)] b(2) by simp_all
  have b32: "block_addr (b + 32)" using b(1) by (simp add: block_addr_def)
  have blk30: "blk (c_cf q + 30) = b + 32" using blk_in [OF b32, of "c_cf q + 30"] b by simp
  define n where "n = min (32 - off (c_cf q)) (length bs)"
  have n: "0 < n" "n \<le> 32 - off (c_cf q)" "n \<le> length bs"
    using assms(2) off_less [of "c_cf q"] by (auto simp: n_def)
  have cf: "c_cf q = b + off (c_cf q)" using offb b(2) by linarith
  have last: "blk (c_cf q + n - 1) = b" using blk_in [OF b(1), of "c_cf q + n - 1"] b n cf by simp
  have full: "off (c_cf q + n) = 0" if "n < length bs"
  proof -
    have "n = 32 - off (c_cf q)" using that unfolding n_def by linarith
    then have "c_cf q + n = b + 32" using cf off_less [of "c_cf q"] by linarith
    then show ?thesis using off_end [OF b(1)] by simp
  qed
  have stop: "int n = int (if b = blk (c_cl q - 1) then c_cl q else b + 32) - int (c_cf q)"
  proof (cases bl)
    case Nil
    then have cl: "c_cf q < c_cl q" "c_cl q \<le> b + 32" using c by auto
    have "blk (c_cl q - 1) = b" using blk_in [OF b(1), of "c_cl q - 1"] b cl by simp
    moreover have "length bs = c_cl q - c_cf q" using bs Nil by simp
    moreover have "c_cl q - c_cf q \<le> 32 - off (c_cf q)"
      using cl cf off_less [of "c_cf q"] by linarith
    ultimately show ?thesis using cl by (simp add: n_def)
  next
    case (Cons b' bs')
    have l: "block_addr (last bl)" "last bl + 2 < c_cl q" "c_cl q \<le> last bl + 32"
      using chain_last [OF c] Cons by auto
    then have "blk (c_cl q - 1) = last bl" using blk_in [OF l(1), of "c_cl q - 1"] by simp
    moreover have "last bl \<noteq> b" using d Cons by (metis distinct.simps(2) last_in_set list.distinct(1))
    moreover have "b + 32 - c_cf q < length bs"
    proof -
      have "0 < length (span (b' + 2) (c_cl q) bl)"
        using span_not_Nil [of m "b' + 2" "c_cl q" bl] c Cons by simp
      moreover have "length bs = (b + 32 - c_cf q) + length (span (b' + 2) (c_cl q) bl)"
        using bs Cons by simp
      ultimately show ?thesis by linarith
    qed
    ultimately show ?thesis using b offb by (simp add: n_def)
  qed
  show thesis
    by (rule that [of n]) (use n cf last full stop blkb blk30 in \<open>simp_all only: n_def [symmetric]\<close>)
qed

lemma advance_freecount: "advance n q m = (q', m') \<Longrightarrow> cfreecount m \<le> cfreecount m'"
  by (simp add: advance_def Let_def split: if_splits) auto

lemma getc_queue:
  assumes "queue U q m (c # bs)"
  obtains q' m' where "getc q m = (uint c, q', m')" "queue U q' m' bs" "frame U m m'"
    "cfreecount m \<le> cfreecount m'"
proof -
  have cc: "0 < c_cc q" using queue_cc [OF assms] by simp
  have o: "1 \<le> 32 - off (c_cf q)" using off_less [of "c_cf q"] by simp
  have l: "1 \<le> length (c # bs)" by simp
  obtain q' m' where
    r: "advance 1 q m = (q', m')" "queue U q' m' (drop 1 (c # bs))" "frame U m m'"
      "load (c_cf q) 1 m = take 1 (c # bs)"
    using advance_queue [OF assms zero_less_one o l] by blast
  have "c_char m (c_cf q) = c" using r(4) by (simp add: load_def)
  then show thesis using that [of q' m'] r advance_freecount [OF r(1)] getc_advance [OF cc, of m]
    by simp
qed

lemma getc_empty:
  "queue U q m [] \<Longrightarrow> getc q m = (- 1, empty_clist, m) \<and> queue U empty_clist m []"
  using queue_empty [of U q m] by (simp add: getc_none empty_clist_def)

lemma q_to_b_loop_queue:
  assumes "queue U q m bs" "bs \<noteq> []"
  shows "\<exists>q' m'. q_to_b_loop cc q m buf = (q', m', buf @ take cc bs) \<and> queue U q' m' (drop cc bs) \<and>
    frame U m m' \<and> cfreecount m + slack q + int (min cc (length bs)) \<le> cfreecount m' + slack q'"
  using assms
proof (induction cc arbitrary: q m bs buf rule: less_induct)
  case (less cc)
  show ?case
  proof (cases "cc = 0")
    case True
    then show ?thesis using less.prems by (simp add: q_to_b_loop.simps [of 0])
  next
    case False
    define nc where nc: "nc = min (min (32 - off (c_cf q)) cc) (nat (c_cc q))"
    have cc: "c_cc q = int (length bs)" using queue_cc less.prems by blast
    have "off (c_cf q) < 32" "0 < length bs" using off_less less.prems(2) by auto
    then have n: "0 < nc" "nc \<le> 32 - off (c_cf q)" "nc \<le> length bs" "nc \<le> cc"
      using False cc unfolding nc by auto
    from advance_queue [OF less.prems(1) n(1-3)] obtain q1 m1 where
      a: "advance nc q m = (q1, m1)" "queue U q1 m1 (drop nc bs)" "frame U m m1"
      "load (c_cf q) nc m = take nc bs" "cfreecount m + slack q + int nc \<le> cfreecount m1 + slack q1"
      by auto
    note loop = q_to_b_loop_advance [OF False nc a(1), of buf, unfolded a(4)]
    have cc1: "c_cc q1 = int (length (drop nc bs))" using queue_cc a(2) by blast
    show ?thesis
    proof (cases "length bs \<le> nc")
      case True
      then have "q_to_b_loop cc q m buf = (q1, m1, buf @ take cc bs)"
        using loop cc1 n(3,4) by simp
      then show ?thesis using a True n by simp
    next
      case more: False
      then have ne: "drop nc bs \<noteq> []" by simp
      have lt: "cc - nc < cc" using n by simp
      from less.IH [OF lt a(2) ne, of "buf @ take nc bs"] obtain q' m' where
        r: "q_to_b_loop (cc - nc) q1 m1 (buf @ take nc bs) = (q', m', (buf @ take nc bs) @ take (cc - nc) (drop nc bs))"
        "queue U q' m' (drop (cc - nc) (drop nc bs))" "frame U m1 m'"
        "cfreecount m1 + slack q1 + int (min (cc - nc) (length (drop nc bs))) \<le> cfreecount m' + slack q'"
        by blast
      have "take nc bs @ take (cc - nc) (drop nc bs) = take cc bs"
        using n(4) by (metis le_add_diff_inverse take_add)
      moreover have "drop (cc - nc) (drop nc bs) = drop cc bs" using n(4) by simp
      moreover have "\<not> c_cc q1 \<le> 0" using more cc1 by simp
      moreover have "int (min cc (length bs)) = int nc + int (min (cc - nc) (length (drop nc bs)))"
        using n(3,4) by simp
      ultimately show ?thesis
        using loop r a frame_trans [OF a(3) r(3)] by (intro exI [of _ q'] exI [of _ m']) simp
    qed
  qed
qed

text \<open>The free count is a multiple of the block capacity, so whole blocks come back.\<close>

lemma queue_freecount: "queue U q m bs \<Longrightarrow> \<exists>k. cfreecount m = 30 * int k"
  by (auto simp: queue_def pool_def)

lemma queue_slack: "queue U q m bs \<Longrightarrow> 0 \<le> slack q \<and> slack q < 30 \<and> (bs = [] \<longrightarrow> slack q = 0)"
proof -
  assume q: "queue U q m bs"
  show ?thesis
  proof (cases "bs = []")
    case True
    then have "q = empty_clist" using queue_empty q by blast
    then show ?thesis using True by (simp add: slack_def empty_clist_def)
  next
    case False
    obtain bl fl where "holds m q bl bs" using q by (auto simp: queue_def pool_def)
    then have c: "chain m (c_cf q) (c_cl q) bl" "bl \<noteq> []" using False
      by (simp_all add: holds_def split: if_splits)
    then obtain b bl' where "bl = b # bl'" by (cases bl) auto
    then have b: "block_addr b" "b + 2 \<le> c_cf q" "c_cf q < b + 32" using c chain_head by auto
    then have "off (c_cf q) = c_cf q - b" using blk_in [OF b(1) _ b(3)] by simp
    then show ?thesis using b False by (simp add: slack_def)
  qed
qed

lemma whole_blocks:
  assumes "queue U q m bs" "queue U q' m' (drop n bs)" "n \<le> length bs"
    and "cfreecount m + slack q + int n \<le> cfreecount m' + slack q'" "30 dvd n \<or> n = length bs"
  shows "cfreecount m + int n \<le> cfreecount m'"
proof -
  obtain i j where k: "cfreecount m = 30 * int i" "cfreecount m' = 30 * int j"
    using queue_freecount assms(1,2) by metis
  note sl = queue_slack [OF assms(1)] queue_slack [OF assms(2)]
  show ?thesis
  proof (cases "n = length bs")
    case True
    then show ?thesis using sl assms(4) by simp
  next
    case False
    then obtain d where n: "n = 30 * d" using assms(5) by (auto elim: dvdE)
    have "30 * int i + int n \<le> 30 * int j + slack q'" using sl assms(4) k by linarith
    then have "30 * (int i + int d) < 30 * (int j + 1)" using sl n by simp
    then have "i + d \<le> j" by simp
    then show ?thesis using k n by simp
  qed
qed

lemma q_to_b_queue:
  assumes "queue U q m bs" "0 < cc"
  obtains q' m' where "q_to_b q cc m = (take (nat cc) bs, q', m')" "queue U q' m' (drop (nat cc) bs)"
    "frame U m m'" "30 dvd cc \<or> int (length bs) \<le> cc \<Longrightarrow>
       cfreecount m + int (min (nat cc) (length bs)) \<le> cfreecount m'"
proof (cases "bs = []")
  case True
  then have "q = empty_clist" "c_cc q = 0" using queue_empty queue_cc assms(1) by auto
  then show thesis using that [of empty_clist m] assms True by (simp add: q_to_b_def)
next
  case False
  then have "0 < c_cc q" using queue_cc [OF assms(1)] by simp
  then have q: "q_to_b q cc m = (case q_to_b_loop (nat cc) q m [] of (q', m', buf) \<Rightarrow> (buf, q', m'))"
    using assms(2) by (simp add: q_to_b_def)
  from q_to_b_loop_queue [OF assms(1) False, of "nat cc" "[]"] obtain q' m' where
    r: "q_to_b_loop (nat cc) q m [] = (q', m', take (nat cc) bs)" "queue U q' m' (drop (nat cc) bs)"
    "frame U m m'" "cfreecount m + slack q + int (min (nat cc) (length bs)) \<le> cfreecount m' + slack q'"
    by auto
  have "cfreecount m + int (min (nat cc) (length bs)) \<le> cfreecount m'"
    if "30 dvd cc \<or> int (length bs) \<le> cc"
  proof -
    have d: "drop (nat cc) bs = drop (min (nat cc) (length bs)) bs" by (simp add: min_def)
    have "30 dvd min (nat cc) (length bs) \<or> min (nat cc) (length bs) = length bs"
      using that assms(2) by (auto simp: min_def) (metis dvd_nat_abs_iff abs_of_pos of_nat_numeral int_dvd_int_iff int_nat_eq less_imp_le)
    then show ?thesis by (intro whole_blocks [OF assms(1) r(2)[unfolded d] _ r(4)]) auto
  qed
  then show thesis using that q r by simp
qed

section \<open>Counting and flushing\<close>

lemma ndqb_queue:
  assumes "queue U q m bs" "bs \<noteq> []"
  obtains n where "0 < n" "n \<le> length bs" "load (c_cf q) n m = take n bs"
    "ndqb q flag m = int (length (takeWhile (\<lambda>c. and c flag = 0) (take n bs)))"
    "ndqb q 0 m = int n"
proof -
  from first_run [OF assms] obtain n where n: "0 < n" "n \<le> 32 - off (c_cf q)" "n \<le> length bs"
    "n = min (32 - off (c_cf q)) (length bs)" "blk (c_cf q + 30) = blk (c_cf q) + 32"
    "c_cf q = blk (c_cf q) + off (c_cf q)" by metis
  have cc: "c_cc q = int (length bs)" using queue_cc assms(1) by blast
  from advance_queue [OF assms(1) n(1-3)] have load: "load (c_cf q) n m = take n bs" by auto
  have "int (blk (c_cf q + 30)) - int (c_cf q) = int (32 - off (c_cf q))"
    using n(5,6) off_less [of "c_cf q"] by linarith
  then have k: "(if c_cc q < int (blk (c_cf q + 30)) - int (c_cf q) then c_cc q
      else int (blk (c_cf q + 30)) - int (c_cf q)) = int n"
    using cc n(4) by simp
  have "\<not> c_cc q \<le> 0" using cc assms(2) by simp
  then have nd: "ndqb q f m = (if f = 0 then int n
      else int (length (takeWhile (\<lambda>c. and c f = 0) (take n bs))))" for f
    unfolding ndqb_def Let_def k by (simp add: load)
  have all: "takeWhile (\<lambda>c. True) xs = xs" for xs :: "u_char list" by (induction xs) simp_all
  have "ndqb q flag m = int (length (takeWhile (\<lambda>c. and c flag = 0) (take n bs)))"
    using nd [of flag] n(3) by (cases "flag = 0") (simp_all add: all)
  then show thesis using that n(1,3) load nd [of 0] by simp
qed

lemma ndflush_loop_queue:
  assumes "queue U q m bs"
  shows "\<exists>q' m'. ndflush_loop cc q m = Some (q', m') \<and> frame U m m' \<and>
    queue U (if c_cc q' \<le> 0 then empty_clist else q') m' (drop (nat cc) bs)"
  using assms
proof (induction "length bs" arbitrary: q m bs cc rule: less_induct)
  case less
  have cc: "c_cc q = int (length bs)" using queue_cc less.prems by blast
  show ?case
  proof (cases "cc > 0 \<and> bs \<noteq> []")
    case False
    then have "ndflush_loop cc q m = Some (q, m)"
      using cc by (subst ndflush_loop.simps) auto
    moreover have "drop (nat cc) bs = bs" using False by auto
    moreover have "q = empty_clist" if "bs = []" using that less.prems queue_empty by blast
    ultimately show ?thesis using less.prems cc by auto
  next
    case True
    then have ne: "bs \<noteq> []" and pos: "cc > 0" by auto
    from first_run [OF less.prems ne] obtain n where n: "0 < n" "n \<le> 32 - off (c_cf q)" "n \<le> length bs"
      "int n = int (if blk (c_cf q) = blk (c_cl q - 1) then c_cl q else blk (c_cf q) + 32) - int (c_cf q)"
      "n < length bs \<Longrightarrow> off (c_cf q + n) = 0" "blk (c_cf q + n - 1) = blk (c_cf q)"
      "n = min (32 - off (c_cf q)) (length bs)" "c_cf q = blk (c_cf q) + off (c_cf q)" by metis
    let ?b = "blk (c_cf q)"
    have loop: "ndflush_loop cc q m =
        (if cc \<ge> int n then
           ndflush_loop (cc - int n) (q\<lparr>c_cc := c_cc q - int n, c_cf := c_info (c_next m ?b)\<rparr>)
             (wake_waiting (put_block ?b m))
         else (let q1 = q\<lparr>c_cc := c_cc q - cc, c_cf := nat (int (c_cf q) + cc)\<rparr> in
            if c_cc q1 \<le> 0 then Some (q1, wake_waiting (put_block ?b m)) else Some (q1, m)))"
      unfolding ndflush_loop.simps [of cc q m] Let_def n(4) [symmetric]
      using pos ne cc by (simp only: of_nat_eq_0_iff length_0_conv simp_thms if_True not_False_eq_True)
    show ?thesis
    proof (cases "cc \<ge> int n")
      case False
      then have nc: "0 < nat cc" "nat cc < n" "cc = int (nat cc)" using pos by auto
      from advance_queue [OF less.prems nc(1)] nc n obtain q1 m1 where
        a: "advance (nat cc) q m = (q1, m1)" "queue U q1 m1 (drop (nat cc) bs)" "frame U m m1"
        by (metis less_imp_le less_le_trans)
      have cf: "nat (int (c_cf q) + cc) = c_cf q + nat cc" using nc by linarith
      have "off (c_cf q + nat cc) \<noteq> 0"
      proof -
        have b: "?b mod 32 = 0" using n(8) unfolding off_def
          by (metis add_right_imp_eq mod_add_self2 mod_eq_0_iff_dvd minus_mod_eq_mult_div blk_def dvd_minus_mod)
        have "c_cf q + nat cc = ?b + (off (c_cf q) + nat cc)" using n(8) by simp
        moreover have "off (c_cf q) + nat cc < 32" using nc n(2) off_less [of "c_cf q"] by linarith
        moreover have "0 < off (c_cf q) + nat cc" using nc by linarith
        ultimately show ?thesis unfolding off_def using b
          by (metis add.commute add_0 mod_add_right_eq mod_less not_less_zero)
      qed
      then have "q1 = q\<lparr>c_cc := c_cc q - cc, c_cf := c_cf q + nat cc\<rparr> \<and> m1 = m"
        using a(1) cc nc n(3) by (auto simp: advance_def Let_def split: if_splits)
      moreover have "\<not> c_cc q - cc \<le> 0" using nc n(3) cc by linarith
      ultimately show ?thesis using loop False a cf by (auto simp: Let_def)
    next
      case True
      from advance_queue [OF less.prems n(1-3)] obtain q1 m1 where
        a: "advance n q m = (q1, m1)" "queue U q1 m1 (drop n bs)" "frame U m m1" by blast
      have dd: "drop (nat (cc - int n)) (drop n bs) = drop (nat cc) bs" using True by (simp add: nat_diff_distrib')
      show ?thesis
      proof (cases "n = length bs")
        case all: True
        then have q1: "q1 = empty_clist" "m1 = wake_waiting (put_block ?b m)"
          using a(1) cc n(6) by (auto simp: advance_def Let_def empty_clist_def)
        have "ndflush_loop cc q m =
            Some (q\<lparr>c_cc := 0, c_cf := c_info (c_next m ?b)\<rparr>, wake_waiting (put_block ?b m))"
          using loop True cc all by (subst (asm) ndflush_loop.simps [of "cc - int n"]) simp
        moreover have "drop (nat cc) bs = drop n bs" using True all by simp
        ultimately show ?thesis using a q1 by simp
      next
        case False
        then have lt: "n < length bs" using n(3) by simp
        have "n = 32 - off (c_cf q)" using n(7) lt by (simp add: min_def split: if_splits)
        then have end32: "c_cf q + n - 32 = ?b" using n(8) off_less [of "c_cf q"] by linarith
        have "q1 = q\<lparr>c_cc := c_cc q - int n, c_cf := c_info (c_next m ?b)\<rparr> \<and> m1 = wake_waiting (put_block ?b m)"
          using a(1) cc lt n(5) [OF lt] end32 by (auto simp: advance_def Let_def)
        then have eq: "ndflush_loop cc q m = ndflush_loop (cc - int n) q1 m1" using loop True by simp
        have "length (drop n bs) < length bs" using n(1) ne by simp
        from less.hyps [OF this a(2), of "cc - int n"] show ?thesis
          unfolding eq dd using a(3) frame_trans by blast
      qed
    qed
  qed
qed

lemma ndflush_queue:
  assumes "queue U q m bs"
  obtains q' m' where "ndflush q cc m = Some (q', m')" "queue U q' m' (drop (nat cc) bs)" "frame U m m'"
proof (cases "bs = []")
  case True
  then have "c_cc q = 0" using queue_cc [OF assms] by simp
  then show thesis using that [of q m] assms True by (simp add: ndflush_def)
next
  case False
  then have "\<not> c_cc q \<le> 0" using queue_cc [OF assms] by simp
  then show thesis using that ndflush_loop_queue [OF assms, of cc] by (auto simp: ndflush_def)
qed

section \<open>Putting characters in\<close>

lemma store_fields [simp]:
  "c_next (store a cs m) = c_next m" "cfreelist (store a cs m) = cfreelist m"
  "cfreecount (store a cs m) = cfreecount m"
  by (induction a cs m rule: store.induct) simp_all

lemma c_char_store:
  "c_char (store a cs m) x = (if a \<le> x \<and> x < a + length cs then cs ! (x - a) else c_char m x)"
proof (induction a cs m rule: store.induct)
  case (2 a c cs m)
  show ?case
  proof (cases "x = a")
    case False
    then have "a \<le> x \<Longrightarrow> x - a = Suc (x - Suc a)" by simp
    then show ?thesis using 2 False by auto
  qed (use 2 in simp)
qed auto

lemma store_load: "map (c_char (store a cs m)) [a ..< a + length cs] = cs"
  by (intro nth_equalityI) (simp_all add: c_char_store)

lemma take_block_fields [simp]:
  "cfreelist (take_block b m) = c_next m b" "cfreecount (take_block b m) = cfreecount m - 30"
  "c_char (take_block b m) = c_char m" "c_next (take_block b m) = (c_next m)(b := 0)"
  by (simp_all add: take_block_def)

lemma span_last:
  "chain m cf cl bl \<Longrightarrow> distinct bl \<Longrightarrow> a \<in> set (span cf cl bl) \<Longrightarrow> blk a = last bl \<Longrightarrow> a < cl"
proof (induction m cf cl bl rule: chain.induct)
  case (3 m cf cl b b' bs)
  show ?case
  proof (cases "a \<in> set [cf ..< b + 32]")
    case True
    then have "blk a = b" using "3.prems"(1) blk_in [of b a] by auto
    then show ?thesis using "3.prems" last_in_set [of "b' # bs"] by simp
  next
    case False
    then have "a \<in> set (span (b' + 2) cl (b' # bs))" using "3.prems"(3) by auto
    moreover have "chain m (b' + 2) cl (b' # bs)" "distinct (b' # bs)" using "3.prems"(1,2) by simp_all
    moreover have "blk a = last (b' # bs)" using "3.prems"(4) by simp
    ultimately show ?thesis by (intro "3.IH")
  qed
qed auto

lemma chain_extend:
  "chain m cf cl bl \<Longrightarrow> cl + n \<le> last bl + 32 \<Longrightarrow>
   chain m cf (cl + n) bl \<and> span cf (cl + n) bl = span cf cl bl @ [cl ..< cl + n]"
proof (induction m cf cl bl rule: chain.induct)
  case (2 m cf cl b)
  then show ?case using upt_add_eq_append [of cf cl n] by simp
qed auto

lemma chain_grow:
  "chain m cf cl bl \<Longrightarrow> cl = last bl + 32 \<Longrightarrow> block_addr b' \<Longrightarrow> c_next m' (last bl) = b' \<Longrightarrow>
   (\<And>b. b \<in> set (butlast bl) \<Longrightarrow> c_next m' b = c_next m b) \<Longrightarrow> 0 < n \<Longrightarrow> n \<le> 30 \<Longrightarrow>
   chain m' cf (b' + 2 + n) (bl @ [b']) \<and>
   span cf (b' + 2 + n) (bl @ [b']) = span cf cl bl @ [b' + 2 ..< b' + 2 + n]"
proof (induction m cf cl bl rule: chain.induct)
  case (2 m cf cl b)
  then show ?case by simp
next
  case (3 m cf cl b b1 bs)
  have "chain m' (b1 + 2) (b' + 2 + n) ((b1 # bs) @ [b']) \<and>
    span (b1 + 2) (b' + 2 + n) ((b1 # bs) @ [b']) = span (b1 + 2) cl (b1 # bs) @ [b' + 2 ..< b' + 2 + n]"
    by (rule "3.IH") (use "3.prems" in simp_all)
  then show ?case using "3.prems" by simp
qed simp

text \<open>A chunk written behind the last byte, within its block.\<close>

lemma append_inner:
  assumes "queue U q m bs" "bs \<noteq> []" "off (c_cl q) \<noteq> 0" "length cs \<le> 32 - off (c_cl q)"
  shows "queue U (q\<lparr>c_cl := c_cl q + length cs, c_cc := c_cc q + int (length cs)\<rparr>)
      (store (c_cl q) cs m) (bs @ cs) \<and> frame U m (store (c_cl q) cs m)"
proof -
  obtain bl fl where p: "pool m q bl bs fl" and U: "set bl \<union> set fl = U"
    using assms(1) by (auto simp: queue_def)
  have ne: "bl \<noteq> []" using p assms(2) by (auto simp: pool_def holds_def)
  then have c: "chain m (c_cf q) (c_cl q) bl" and cc: "c_cc q = int (length bs)"
    and bs: "bs = map (c_char m) (span (c_cf q) (c_cl q) bl)"
    and fl: "freel m (cfreelist m) fl" "cfreecount m = 30 * int (length fl)" "distinct (bl @ fl)"
    using p by (auto simp: pool_def holds_def)
  have l: "block_addr (last bl)" "last bl + 2 < c_cl q" "c_cl q \<le> last bl + 32"
    using chain_last [OF c] by auto
  then have "c_cl q \<noteq> last bl + 32" using assms(3) off_end by metis
  then have lt: "c_cl q < last bl + 32" using l(3) by simp
  have o: "off (c_cl q) = c_cl q - last bl" using blk_in [OF l(1) _ lt] l(2) by simp
  then have room: "c_cl q + length cs \<le> last bl + 32" using assms(4) l(2,3) by linarith
  let ?m = "store (c_cl q) cs m" and ?cl = "c_cl q + length cs"
  have e: "chain m (c_cf q) ?cl bl" "span (c_cf q) ?cl bl = span (c_cf q) (c_cl q) bl @ [c_cl q ..< ?cl]"
    using chain_extend [OF c room] by auto
  have "chain ?m (c_cf q) ?cl bl" using e(1) by (subst chain_cong [where m = m]) simp_all
  moreover have "map (c_char ?m) (span (c_cf q) (c_cl q) bl) = bs"
    unfolding bs
  proof (intro map_cong refl)
    fix a assume a: "a \<in> set (span (c_cf q) (c_cl q) bl)"
    have "\<not> (c_cl q \<le> a \<and> a < ?cl)"
    proof
      assume r: "c_cl q \<le> a \<and> a < ?cl"
      then have "blk a = last bl" using blk_in [OF l(1), of a] l(2) room by simp
      then show False using span_last [OF c _ a] fl(3) r by simp
    qed
    then show "c_char ?m a = c_char m a" by (auto simp: c_char_store)
  qed
  ultimately have "holds ?m (q\<lparr>c_cl := ?cl, c_cc := c_cc q + int (length cs)\<rparr>) bl (bs @ cs)"
    using ne cc e(2) store_load [of "c_cl q" cs m] by (simp add: holds_def)
  moreover have "freel ?m (cfreelist ?m) fl" using fl(1) by (subst freel_cong [where m = m]) simp_all
  ultimately have "pool ?m (q\<lparr>c_cl := ?cl, c_cc := c_cc q + int (length cs)\<rparr>) bl (bs @ cs) fl"
    using fl by (simp add: pool_def)
  moreover have "frame U m ?m"
  proof -
    have "blk a = last bl" if "c_cl q \<le> a" "a < ?cl" for a
      using blk_in [OF l(1), of a] that l(2) room by simp
    then show ?thesis using U ne last_in_set [OF ne] by (auto simp: frame_def c_char_store)
  qed
  ultimately show ?thesis using U unfolding queue_def by blast
qed

text \<open>A chunk that opens a new block behind a full one.\<close>

lemma queue_cl_end:
  assumes "queue U q m bs" "bs \<noteq> []" "off (c_cl q) = 0"
  obtains bl fl where "pool m q bl bs fl" "set bl \<union> set fl = U" "bl \<noteq> []" "c_cl q = last bl + 32"
proof -
  obtain bl fl where p: "pool m q bl bs fl" and U: "set bl \<union> set fl = U"
    using assms(1) by (auto simp: queue_def)
  have ne: "bl \<noteq> []" using p assms(2) by (auto simp: pool_def holds_def)
  then have c: "chain m (c_cf q) (c_cl q) bl" using p by (auto simp: pool_def holds_def)
  have l: "block_addr (last bl)" "last bl + 2 < c_cl q" "c_cl q \<le> last bl + 32"
    using chain_last [OF c] by auto
  have "c_cl q = last bl + 32"
  proof (rule ccontr)
    assume "c_cl q \<noteq> last bl + 32"
    then have "off (c_cl q) = c_cl q - last bl" using blk_in [OF l(1), of "c_cl q"] l by simp
    then show False using assms(3) l(2) by simp
  qed
  then show thesis using that p U ne by blast
qed

lemma append_outer:
  assumes "queue U q m bs" "bs \<noteq> []" "off (c_cl q) = 0" "cs \<noteq> []" "length cs \<le> 30"
    and m1: "m1 = m\<lparr>c_next := (c_next m)(c_cl q - 32 := cfreelist m)\<rparr>"
    and b: "b = cfreelist m" "b \<noteq> 0" and m2: "m2 = store (b + 2) cs (take_block b m1)"
  shows "queue U (q\<lparr>c_cl := b + 2 + length cs, c_cc := c_cc q + int (length cs)\<rparr>) m2 (bs @ cs) \<and>
    frame U m m2"
proof -
  obtain bl fl where p: "pool m q bl bs fl" and U: "set bl \<union> set fl = U" and ne: "bl \<noteq> []"
    and cl: "c_cl q = last bl + 32" using queue_cl_end [OF assms(1-3)] by metis
  have c: "chain m (c_cf q) (c_cl q) bl" and cc: "c_cc q = int (length bs)"
    and bs: "bs = map (c_char m) (span (c_cf q) (c_cl q) bl)"
    and fl: "freel m (cfreelist m) fl" "cfreecount m = 30 * int (length fl)" "distinct (bl @ fl)"
    using p ne by (auto simp: pool_def holds_def)
  obtain fl' where fl': "fl = b # fl'" using fl(1) b by (cases fl) auto
  have ba: "block_addr b" using fl(1) fl' by simp
  let ?l = "last bl" and ?n = "length cs"
  have l_in: "?l \<in> set bl" using ne by simp
  have nx: "c_next m2 = (c_next m)(?l := b, b := 0)" using m1 m2 cl b(1) by simp
  have lb: "?l \<noteq> b" using l_in fl(3) fl' by auto
  have n: "0 < ?n" using assms(4) by simp
  have bl_same: "c_next m2 x = c_next m x" if "x \<in> set (butlast bl)" for x
  proof -
    have "x \<noteq> ?l" using that fl(3) ne
      by (metis append_butlast_last_id distinct_append not_distinct_conv_prefix)
    moreover have "x \<noteq> b" using in_set_butlastD [OF that] fl(3) fl' by auto
    ultimately show ?thesis by (simp add: nx)
  qed
  have l1: "c_next m2 ?l = b" using lb by (simp add: nx)
  have g: "chain m2 (c_cf q) (b + 2 + ?n) (bl @ [b])"
    "span (c_cf q) (b + 2 + ?n) (bl @ [b]) = span (c_cf q) (c_cl q) bl @ [b + 2 ..< b + 2 + ?n]"
    using chain_grow [OF c cl ba l1 bl_same n assms(5)] by simp_all
  have inb: "blk a = b" if "b + 2 \<le> a" "a < b + 2 + ?n" for a
    using blk_in [OF ba, of a] that assms(5) by simp
  have old: "map (c_char m2) (span (c_cf q) (c_cl q) bl) = bs"
    unfolding bs
  proof (intro map_cong refl)
    fix a assume "a \<in> set (span (c_cf q) (c_cl q) bl)"
    then have "blk a \<noteq> b" using span_blocks [OF c] fl(3) fl' by auto
    then have "\<not> (b + 2 \<le> a \<and> a < b + 2 + ?n)" using inb by blast
    then show "c_char m2 a = c_char m a" unfolding m2 by (auto simp: c_char_store m1)
  qed
  have new: "map (c_char m2) [b + 2 ..< b + 2 + ?n] = cs" unfolding m2 by (rule store_load)
  have "holds m2 (q\<lparr>c_cl := b + 2 + ?n, c_cc := c_cc q + int ?n\<rparr>) (bl @ [b]) (bs @ cs)"
    using g cc old new by (simp add: holds_def)
  moreover have "freel m2 (cfreelist m2) fl'"
  proof -
    have "cfreelist m2 = c_next m b" using m1 m2 cl lb by simp
    moreover have "freel m2 (c_next m b) fl' = freel m (c_next m b) fl'"
      by (rule freel_cong) (use nx fl(3) fl' l_in in auto)
    ultimately show ?thesis using fl(1) fl' by simp
  qed
  moreover have "cfreecount m2 = 30 * int (length fl')" using fl(2) fl' m1 m2 by simp
  ultimately have "pool m2 (q\<lparr>c_cl := b + 2 + ?n, c_cc := c_cc q + int ?n\<rparr>) (bl @ [b]) (bs @ cs) fl'"
    using fl(3) fl' by (auto simp: pool_def)
  moreover have "set (bl @ [b]) \<union> set fl' = U" using U fl' by auto
  moreover have "frame U m m2"
  proof -
    have "?l \<in> U" "b \<in> U" using U l_in fl' by auto
    moreover have "c_char m2 a = c_char m a" if "blk a \<notin> U" for a
    proof -
      have "\<not> (b + 2 \<le> a \<and> a < b + 2 + ?n)" using inb that \<open>b \<in> U\<close> by blast
      then show ?thesis unfolding m2 by (auto simp: c_char_store m1)
    qed
    ultimately show ?thesis using nx by (auto simp: frame_def)
  qed
  ultimately show ?thesis unfolding queue_def by blast
qed

text \<open>The block behind the end, when there is none to take.\<close>

lemma append_none:
  assumes "queue U q m bs" "bs \<noteq> []" "off (c_cl q) = 0"
    and m1: "m1 = m\<lparr>c_next := (c_next m)(c_cl q - 32 := cfreelist m)\<rparr>" and "cfreelist m = 0"
  shows "queue U q m1 bs \<and> frame U m m1"
proof -
  obtain bl fl where p: "pool m q bl bs fl" and U: "set bl \<union> set fl = U" and ne: "bl \<noteq> []"
    and cl: "c_cl q = last bl + 32" using queue_cl_end [OF assms(1-3)] by metis
  have fl: "fl = []" using p assms(5) by (cases fl) (auto simp: pool_def block_addr_def)
  have c: "chain m (c_cf q) (c_cl q) bl" and d: "distinct bl" using p ne by (auto simp: pool_def holds_def)
  have "c_next m1 x = c_next m x" if "x \<in> set (butlast bl)" for x
    using that d ne cl m1 by (metis append_butlast_last_id distinct_append not_distinct_conv_prefix
        add_diff_cancel_right' clmem.select_convs(1) clmem.surjective clmem.update_convs(1) fun_upd_other)
  then have "chain m1 (c_cf q) (c_cl q) bl" using c by (subst chain_cong [where m = m]) auto
  moreover have "c_char m1 = c_char m" "cfreelist m1 = cfreelist m" "cfreecount m1 = cfreecount m"
    by (simp_all add: m1)
  ultimately have "pool m1 q bl bs fl" using p ne fl by (simp add: pool_def holds_def)
  moreover have "frame U m m1" using U cl last_in_set [OF ne] by (auto simp: frame_def m1)
  ultimately show ?thesis using U unfolding queue_def by blast
qed

text \<open>The first block of an empty queue.\<close>

lemma append_first:
  assumes "queue U q m []" "cs \<noteq> []" "length cs \<le> 30" "b = cfreelist m" "b \<noteq> 0"
    and m2: "m2 = store (b + 2) cs (take_block b m)"
  shows "queue U (q\<lparr>c_cf := b + 2, c_cl := b + 2 + length cs, c_cc := c_cc q + int (length cs)\<rparr>) m2 cs \<and>
    frame U m m2"
proof -
  obtain bl fl where p: "pool m q bl [] fl" and U: "set bl \<union> set fl = U"
    using assms(1) by (auto simp: queue_def)
  have q: "q = empty_clist" using queue_empty [OF assms(1)] .
  have bl: "bl = []" using p by (auto simp: pool_def holds_def dest: span_not_Nil split: if_splits)
  have fl: "freel m (cfreelist m) fl" "cfreecount m = 30 * int (length fl)" "distinct fl"
    using p by (auto simp: pool_def)
  obtain fl' where fl': "fl = b # fl'" using fl(1) assms(4,5) by (cases fl) auto
  have ba: "block_addr b" using fl(1) fl' by simp
  have "holds m2 (q\<lparr>c_cf := b + 2, c_cl := b + 2 + length cs, c_cc := c_cc q + int (length cs)\<rparr>) [b] cs"
    using ba assms(2,3) q store_load [of "b + 2" cs "take_block b m"]
    by (simp add: holds_def m2 empty_clist_def)
  moreover have "freel m2 (c_next m b) fl'"
    using fl fl' by (subst freel_cong [where m = m]) (auto simp: m2)
  ultimately have "pool m2 (q\<lparr>c_cf := b + 2, c_cl := b + 2 + length cs, c_cc := c_cc q + int (length cs)\<rparr>)
      [b] cs fl'"
    using fl fl' by (simp add: pool_def m2)
  moreover have "frame U m m2"
  proof -
    have "b \<in> U" using U fl' by auto
    moreover have "blk a = b" if "b + 2 \<le> a" "a < b + 2 + length cs" for a
      using blk_in [OF ba, of a] that assms(3) by simp
    ultimately show ?thesis by (auto simp: frame_def m2 c_char_store)
  qed
  moreover have "set [b] \<union> set fl' = U" using U bl fl' by auto
  ultimately show ?thesis unfolding queue_def by blast
qed

end
