(* ===== verification/Byte_Fifo.thy ===== *)
theory Byte_Fifo imports Prelude begin

text \<open>
  What the terminal code relies on when it queues characters: the interface \<open>byte_fifo\<close>, and
  the conservation law that follows for every interleaving of puts and gets.
\<close>

locale byte_fifo =
  fixes put :: "'c \<Rightarrow> 's \<Rightarrow> 's option"
    and get :: "'s \<Rightarrow> ('c \<times> 's) option"
    and bytes :: "'s \<Rightarrow> 'c list"
    and ok :: "'s \<Rightarrow> bool"
  assumes put_law: "ok s \<Longrightarrow> put c s = Some s' \<Longrightarrow> ok s' \<and> bytes s' = bytes s @ [c]"
    and get_law: "ok s \<Longrightarrow> get s = Some (c, s') \<Longrightarrow> ok s' \<and> bytes s = c # bytes s'"
    and get_empty: "ok s \<Longrightarrow> get s = None \<longleftrightarrow> bytes s = []"

text \<open>Runs of puts and gets: what went in, what came out, both in order.\<close>

inductive fifo_run ::
  "('c \<Rightarrow> 's \<Rightarrow> 's option) \<Rightarrow> ('s \<Rightarrow> ('c \<times> 's) option) \<Rightarrow> 's \<Rightarrow> 's \<Rightarrow> 'c list \<Rightarrow> 'c list \<Rightarrow> bool"
  for put get s0 where
  fifo_start: "fifo_run put get s0 s0 [] []"
| fifo_put: "fifo_run put get s0 s ins outs \<Longrightarrow> put c s = Some s' \<Longrightarrow>
     fifo_run put get s0 s' (ins @ [c]) outs"
| fifo_get: "fifo_run put get s0 s ins outs \<Longrightarrow> get s = Some (c, s') \<Longrightarrow>
     fifo_run put get s0 s' ins (outs @ [c])"

inductive_cases fifo_runE: "fifo_run put get s0 s ins outs"

context byte_fifo begin

lemma run_conserves:
  assumes "fifo_run put get s0 s ins outs" "ok s0"
  shows "ok s \<and> bytes s0 @ ins = outs @ bytes s"
  using assms(1)
proof (induction rule: fifo_run.induct)
  case fifo_start
  then show ?case using assms(2) by simp
next
  case (fifo_put s ins outs c s')
  then have "ok s" "bytes s0 @ ins = outs @ bytes s" by simp_all
  moreover from put_law [OF this(1) fifo_put.hyps(2)] have "ok s'" "bytes s' = bytes s @ [c]" by simp_all
  ultimately show ?case by (metis append_assoc)
next
  case (fifo_get s ins outs c s')
  then have "ok s" "bytes s0 @ ins = outs @ bytes s" by simp_all
  moreover from get_law [OF this(1) fifo_get.hyps(2)] have "ok s'" "bytes s = c # bytes s'" by simp_all
  ultimately show ?case by simp
qed

end

end
