(* ===== verification/ClistProps.thy ===== *)
theory ClistProps imports ClistSpec Byte_Fifo begin

text \<open>
  What each operation of \<open>Clist\<close> does to the byte queue it implements, that \<open>catq\<close> never
  loses a byte, and the interpretation of the queue interface on \<open>putc\<close> and \<open>getc\<close>.
\<close>

section \<open>putc and b_to_q\<close>

lemma queue_cl: "queue U q m bs \<Longrightarrow> bs \<noteq> [] \<Longrightarrow> c_cl q \<noteq> 0 \<and> \<not> c_cc q < 0"
proof -
  assume q: "queue U q m bs" and ne: "bs \<noteq> []"
  obtain bl fl where "holds m q bl bs" using q by (auto simp: queue_def pool_def)
  then have "chain m (c_cf q) (c_cl q) bl" using ne by (simp add: holds_def split: if_splits)
  then have "last bl + 2 < c_cl q" using chain_last by blast
  then show ?thesis using queue_cc [OF q] by auto
qed

lemma queue_empty_fields: "queue U q m [] \<Longrightarrow> c_cl q = 0 \<and> c_cc q = 0 \<and> c_cf q = 0"
  by (drule queue_empty) (simp add: empty_clist_def)

lemma putc_queue:
  assumes "queue U q m bs"
  obtains q' m' where "putc c q m = (0, q', m')" "queue U q' m' (bs @ [word_of_int c])" "frame U m m'"
  | m' where "putc c q m = (- 1, q, m')" "cfreelist m = 0" "queue U q m' bs" "frame U m m'"
proof -
  let ?w = "word_of_int c :: u_char"
  show thesis
  proof (cases "bs = []")
    case True
    then have q: "c_cl q = 0" "c_cc q = 0"
      using queue_empty_fields assms by auto
    show thesis
    proof (cases "cfreelist m = 0")
      case True
      then show thesis using that(2) [of m] q assms by (simp add: putc_def Let_def)
    next
      case False
      define b where "b = cfreelist m"
      define m2 where "m2 = store (b + 2) [?w] (take_block b m)"
      have eq: "putc c q m = (0, q\<lparr>c_cf := b + 2, c_cl := b + 2 + length [?w], c_cc := c_cc q + int (length [?w])\<rparr>, m2)"
        using False q by (simp add: putc_def Let_def b_def m2_def c_info_def)
      have "queue U (q\<lparr>c_cf := b + 2, c_cl := b + 2 + length [?w], c_cc := c_cc q + int (length [?w])\<rparr>) m2 [?w] \<and>
          frame U m m2"
        by (rule append_first) (use assms True False in \<open>simp_all add: b_def m2_def\<close>)
      then show thesis using that(1) [OF eq] True by simp
    qed
  next
    case ne: False
    have cl: "c_cl q \<noteq> 0" "\<not> c_cc q < 0" using queue_cl [OF assms ne] by auto
    show thesis
    proof (cases "off (c_cl q) = 0")
      case True
      define m1 where "m1 = m\<lparr>c_next := (c_next m)(c_cl q - 32 := cfreelist m)\<rparr>"
      show thesis
      proof (cases "cfreelist m = 0")
        case z: True
        have "putc c q m = (- 1, q, m1)" using cl True z by (simp add: putc_def Let_def m1_def)
        then show thesis using that(2) append_none [OF assms ne True m1_def z] z by blast
      next
        case False
        define b where "b = cfreelist m"
        define m2 where "m2 = store (b + 2) [?w] (take_block b m1)"
        have eq: "putc c q m = (0, q\<lparr>c_cl := b + 2 + length [?w], c_cc := c_cc q + int (length [?w])\<rparr>, m2)"
          using cl True False by (simp add: putc_def Let_def m1_def b_def m2_def c_info_def)
        have "queue U (q\<lparr>c_cl := b + 2 + length [?w], c_cc := c_cc q + int (length [?w])\<rparr>) m2 (bs @ [?w]) \<and>
            frame U m m2"
          by (rule append_outer [OF assms ne True _ _ m1_def b_def _ m2_def]) (use False b_def in simp_all)
        then show thesis using that(1) [OF eq] by simp
      qed
    next
      case False
      have eq: "putc c q m = (0, q\<lparr>c_cl := c_cl q + length [?w], c_cc := c_cc q + int (length [?w])\<rparr>,
          store (c_cl q) [?w] m)"
        using cl False by (simp add: putc_def Let_def)
      have "length [?w] \<le> 32 - off (c_cl q)" using off_less [of "c_cl q"] by simp
      from append_inner [OF assms ne False this] that(1) [OF eq] show thesis by simp
    qed
  qed
qed

lemma b_to_q_loop_queue:
  assumes "queue U q m bs" "bs \<noteq> []"
  shows "\<exists>k cl m'. b_to_q_loop cs (c_cl q) m = (cl, m', drop k cs) \<and> k \<le> length cs \<and>
    queue U (q\<lparr>c_cl := cl, c_cc := c_cc q + int k\<rparr>) m' (bs @ take k cs) \<and> frame U m m' \<and>
    (k < length cs \<longrightarrow> cfreelist m' = 0 \<and> cfreecount m < int (length cs))"
  using assms
proof (induction "length cs" arbitrary: cs q m bs rule: less_induct)
  case less
  show ?case
  proof (cases "cs = []")
    case True
    then show ?thesis using less.prems by (auto simp: b_to_q_loop.simps [of "[]"])
  next
    case ne: False
    define step where "step = (\<lambda>cq m. let nc = min (length cs) (32 - off cq) in
        b_to_q_loop (drop nc cs) (cq + nc) (store cq (take nc cs) m))"
    have continue: "\<exists>k cl m'. step a m1 = (cl, m', drop k cs) \<and> k \<le> length cs \<and>
        queue U (q\<lparr>c_cl := cl, c_cc := c_cc q + int k\<rparr>) m' (bs @ take k cs) \<and> frame U m m' \<and>
        (k < length cs \<longrightarrow> cfreelist m' = 0 \<and> cfreecount m < int (length cs))"
      if nc: "nc = min (length cs) (32 - off a)"
        and st: "queue U (q\<lparr>c_cl := a + nc, c_cc := c_cc q + int nc\<rparr>)
               (store a (take nc cs) m1) (bs @ take nc cs)" "frame U m (store a (take nc cs) m1)"
        and fc: "cfreecount m \<le> cfreecount m1 + int nc \<or> nc = length cs" for a m1 nc
    proof -
      let ?q = "q\<lparr>c_cl := a + nc, c_cc := c_cc q + int nc\<rparr>" and ?m = "store a (take nc cs) m1"
      have n: "0 < nc" "nc \<le> length cs" using ne off_less [of a] nc by auto
      have "length (drop nc cs) < length cs" "bs @ take nc cs \<noteq> []" using n less.prems(2) by simp_all
      from less.hyps [OF this(1) st(1) this(2)] obtain k cl m' where
        r: "b_to_q_loop (drop nc cs) (a + nc) ?m = (cl, m', drop k (drop nc cs))" "k \<le> length cs - nc"
        "queue U (?q\<lparr>c_cl := cl, c_cc := c_cc ?q + int k\<rparr>) m' ((bs @ take nc cs) @ take k (drop nc cs))"
        "frame U ?m m'" "k < length cs - nc \<longrightarrow> cfreelist m' = 0 \<and> cfreecount ?m < int (length cs - nc)"
        by auto
      have "step a m1 = (cl, m', drop (nc + k) cs)"
        using r(1) by (simp add: step_def nc [symmetric] add.commute)
      moreover have "take nc cs @ take k (drop nc cs) = take (nc + k) cs" by (simp add: take_add)
      moreover have "?q\<lparr>c_cl := cl, c_cc := c_cc ?q + int k\<rparr> = q\<lparr>c_cl := cl, c_cc := c_cc q + int (nc + k)\<rparr>"
        by simp
      moreover have "nc + k < length cs \<longrightarrow> cfreelist m' = 0 \<and> cfreecount m < int (length cs)"
        using r(5) fc n by auto
      ultimately show ?thesis using r(2,3,4) n frame_trans [OF st(2) r(4)]
        by (intro exI [of _ "nc + k"] exI [of _ cl] exI [of _ m']) (simp only: append_assoc, simp)
    qed
    show ?thesis
    proof (cases "off (c_cl q) = 0")
      case True
      define m1 where "m1 = m\<lparr>c_next := (c_next m)(c_cl q - 32 := cfreelist m)\<rparr>"
      show ?thesis
      proof (cases "cfreelist m = 0")
        case z: True
        have "b_to_q_loop cs (c_cl q) m = (c_cl q, m1, cs)"
          using ne True z unfolding b_to_q_loop.simps [of cs] by (simp add: Let_def m1_def)
        moreover have "cfreecount m = 0"
        proof -
          obtain bl fl where "pool m q bl bs fl" using less.prems(1) by (auto simp: queue_def)
          then have "freel m 0 fl" "cfreecount m = 30 * int (length fl)" using z by (simp_all add: pool_def)
          then show ?thesis by (cases fl) (auto simp: block_addr_def)
        qed
        ultimately show ?thesis using append_none [OF less.prems True m1_def z] ne z
          by (intro exI [of _ 0] exI [of _ "c_cl q"] exI [of _ m1]) (simp add: m1_def)
      next
        case False
        define b where "b = cfreelist m"
        let ?nc = "min (length cs) 30"
        have o: "off (b + 2) = 2"
        proof -
          obtain bl fl where "pool m q bl bs fl" using less.prems(1) by (auto simp: queue_def)
          then have "block_addr b" using False by (cases fl) (auto simp: pool_def b_def)
          then show ?thesis using blk_in [of b "b + 2"] by simp
        qed
        have eq: "b_to_q_loop cs (c_cl q) m = step (b + 2) (take_block b m1)"
          using ne True False unfolding b_to_q_loop.simps [of cs] step_def
          by (simp add: Let_def m1_def b_def c_info_def)
        have nc: "take ?nc cs \<noteq> []" "length (take ?nc cs) \<le> 30" using ne by auto
        have b0: "b \<noteq> 0" using False by (simp add: b_def)
        have n2: "?nc = min (length cs) (32 - off (b + 2))" unfolding o by simp
        have len: "length (take ?nc cs) = ?nc" by simp
        have "cfreecount m \<le> cfreecount (take_block b m1) + int ?nc \<or> ?nc = length cs"
          by (auto simp: m1_def min_def)
        then show ?thesis
          using append_outer [OF less.prems True nc m1_def b_def b0 refl] unfolding eq len
          by (intro continue [OF n2]) blast+
      qed
    next
      case False
      have eq: "b_to_q_loop cs (c_cl q) m = step (c_cl q) m"
        using ne False unfolding b_to_q_loop.simps [of cs] step_def by (simp add: Let_def)
      let ?nc = "min (length cs) (32 - off (c_cl q))"
      have le: "length (take ?nc cs) \<le> 32 - off (c_cl q)" and len: "length (take ?nc cs) = ?nc"
        by simp_all
      show ?thesis
        using append_inner [OF less.prems False le] unfolding eq len
        by (intro continue [OF refl]) auto
    qed
  qed
qed

lemma b_to_q_queue:
  assumes "queue U q m bs"
  obtains k q' m' where "b_to_q cs q m = (int (length cs - k), q', m')" "k \<le> length cs"
    "queue U q' m' (bs @ take k cs)" "frame U m m'"
    "k < length cs \<Longrightarrow> cfreelist m' = 0 \<and> cfreecount m < int (length cs)"
proof (cases "cs = []")
  case True
  then show thesis using that [of 0 q m] assms by (simp add: b_to_q_def)
next
  case ne: False
  show thesis
  proof (cases "bs = []")
    case False
    note cl = queue_cl [OF assms False]
    from b_to_q_loop_queue [OF assms False, of cs] obtain k cl m' where
      r: "b_to_q_loop cs (c_cl q) m = (cl, m', drop k cs)" "k \<le> length cs"
      "queue U (q\<lparr>c_cl := cl, c_cc := c_cc q + int k\<rparr>) m' (bs @ take k cs)" "frame U m m'"
      "k < length cs \<longrightarrow> cfreelist m' = 0 \<and> cfreecount m < int (length cs)" by blast
    have "b_to_q cs q m = (int (length cs - k), q\<lparr>c_cl := cl, c_cc := c_cc q + int k\<rparr>, m')"
      using ne cl r(1,2) by (simp add: b_to_q_def Let_def of_nat_diff)
    then show thesis using that r by blast
  next
    case e: True
    then have q: "c_cl q = 0" "c_cc q = 0" "q = empty_clist"
      using queue_empty_fields queue_empty assms by auto
    show thesis
    proof (cases "cfreelist m = 0")
      case z: True
      have "cfreecount m = 0"
      proof -
        obtain bl fl where "pool m q bl bs fl" using assms by (auto simp: queue_def)
        then have "freel m 0 fl" "cfreecount m = 30 * int (length fl)" using z by (simp_all add: pool_def)
        then show ?thesis by (cases fl) (auto simp: block_addr_def)
      qed
      moreover have "b_to_q cs q m = (int (length cs), q, m)"
        using z ne q by (simp add: b_to_q_def Let_def empty_clist_def)
      ultimately show thesis using that [of 0 q m] assms e z ne by simp
    next
      case False
      define b where "b = cfreelist m"
      define nc where "nc = min (length cs) 30"
      define m2 where "m2 = store (b + 2) (take nc cs) (take_block b m)"
      have ba: "block_addr b"
      proof -
        obtain bl fl where "pool m q bl bs fl" using assms by (auto simp: queue_def)
        then show ?thesis using False by (cases fl) (auto simp: pool_def b_def)
      qed
      then have o: "off (b + 2) = 2" using blk_in [of b "b + 2"] by simp
      have nc: "take nc cs \<noteq> []" "length (take nc cs) \<le> 30" "length (take nc cs) = nc"
        using ne by (auto simp: nc_def)
      let ?q = "q\<lparr>c_cf := b + 2, c_cl := b + 2 + nc, c_cc := int nc\<rparr>"
      have st: "queue U ?q m2 (take nc cs)" "frame U m m2"
        using append_first [OF assms [unfolded e] nc(1,2) b_def _ m2_def] False q nc(3)
        by (auto simp: b_def)
      have first: "b_to_q_loop cs (b + 2) (take_block b m) = b_to_q_loop (drop nc cs) (b + 2 + nc) m2"
        using ne by (subst b_to_q_loop.simps) (simp add: o [simplified] Let_def nc_def m2_def)
      from b_to_q_loop_queue [OF st(1) nc(1), of "drop nc cs"] obtain k cl m' where
        r: "b_to_q_loop (drop nc cs) (b + 2 + nc) m2 = (cl, m', drop k (drop nc cs))"
        "k \<le> length cs - nc"
        "queue U (?q\<lparr>c_cl := cl, c_cc := c_cc ?q + int k\<rparr>) m' (take nc cs @ take k (drop nc cs))"
        "frame U m2 m'" "k < length cs - nc \<longrightarrow> cfreelist m' = 0 \<and> cfreecount m2 < int (length cs - nc)"
        by auto
      have nl: "nc \<le> length cs" by (simp add: nc_def)
      have "b_to_q cs q m = (int (length cs - (nc + k)), ?q\<lparr>c_cl := cl, c_cc := c_cc ?q + int k\<rparr>, m')"
        using ne q False r(1,2) nl
        by (simp add: b_to_q_def Let_def b_def [symmetric] c_info_def first [simplified]
            of_nat_diff empty_clist_def)
      moreover have "take nc cs @ take k (drop nc cs) = take (nc + k) cs" by (simp add: take_add)
      moreover have "nc + k < length cs \<Longrightarrow> cfreelist m' = 0 \<and> cfreecount m < int (length cs)"
      proof -
        assume lt: "nc + k < length cs"
        then have "nc = 30" by (auto simp: nc_def min_def split: if_splits)
        moreover have "cfreecount m2 = cfreecount m - 30" by (simp add: m2_def)
        ultimately show ?thesis using r(5) lt by auto
      qed
      ultimately show thesis using that [of "nc + k"] r(2,3) nl e frame_trans [OF st(2) r(4)] by simp
    qed
  qed
qed

section \<open>nextc and unputc\<close>

lemma blk_end_last: "chain m cf cl bl \<Longrightarrow> blk (cl - 1) = last bl"
proof -
  assume c: "chain m cf cl bl"
  then have l: "block_addr (last bl)" "last bl + 2 < cl" "cl \<le> last bl + 32" using chain_last by auto
  then show ?thesis using blk_in [of "last bl" "cl - 1"] by simp
qed

text \<open>The characters met by \<open>nextc\<close> from the address \<open>a\<close>, at most \<open>n\<close> of them.\<close>

fun scan :: "nat \<Rightarrow> clist \<Rightarrow> nat \<Rightarrow> clmem \<Rightarrow> u_char list" where
  "scan 0 p a m = []"
| "scan (Suc n) p a m = (if a = 0 then [] else c_char m a # scan n p (nextc p a m) m)"

lemma scan_span:
  assumes "chain m cf (c_cl p) bl" "distinct bl" "c_cc p \<noteq> 0"
  shows "scan n p cf m = take n (map (c_char m) (span cf (c_cl p) bl))"
  using assms
proof (induction n arbitrary: cf bl)
  case 0
  then show ?case by simp
next
  case (Suc n)
  then obtain b bl' where bl: "bl = b # bl'" by (cases bl) auto
  have c: "chain m cf (c_cl p) (b # bl')" using Suc.prems(1) bl by simp
  have b: "block_addr b" "b + 2 \<le> cf" "cf < b + 32" using chain_head [OF c] by auto
  have one: "1 \<le> 32 - off cf" using off_less [of cf] by simp
  have len: "1 \<le> length (span cf (c_cl p) (b # bl'))"
    using span_not_Nil [OF c] by (cases "span cf (c_cl p) (b # bl')") auto
  have blkcf: "blk (cf + 1 - 1) = b" using blk_in [OF b(1)] b by simp
  have not_end: "cf + 1 \<noteq> c_cl p" if "last bl \<noteq> b"
  proof
    assume "cf + 1 = c_cl p"
    then have "blk (cf + 1 - 1) = last bl" using blk_end_last [OF Suc.prems(1)] by (simp only:)
    then show False using blkcf that by simp
  qed
  have cf0: "cf \<noteq> 0" using b(2) by simp
  from chain_chunk [OF c zero_less_one one len] consider
    (all) "span cf (c_cl p) (b # bl') = [cf ..< cf + 1]" "bl' = []"
    | (cross) "bl' \<noteq> []" "cf + 1 = b + 32" "c_next m b = hd bl'" "chain m (hd bl' + 2) (c_cl p) bl'"
      "span cf (c_cl p) (b # bl') = [cf ..< cf + 1] @ span (hd bl' + 2) (c_cl p) bl'"
    | (inner) "cf + 1 < b + 32" "chain m (cf + 1) (c_cl p) (b # bl')"
      "span cf (c_cl p) (b # bl') = [cf ..< cf + 1] @ span (cf + 1) (c_cl p) (b # bl')"
    by blast
  then show ?case
  proof cases
    case all
    then have "[cf ..< c_cl p] = [cf ..< cf + 1]" by simp
    moreover have "cf < c_cl p" using c all(2) by simp
    ultimately have "c_cl p = cf + 1" by (metis add_diff_cancel_left' le_add_diff_inverse length_upt less_imp_le)
    then have "nextc p cf m = 0" by (simp add: nextc_def)
    then have "scan (Suc n) p cf m = [c_char m cf]" using cf0 by (cases n) simp_all
    then show ?thesis unfolding bl all(1) by simp
  next
    case cross
    have "last bl \<noteq> b" using Suc.prems(2) bl cross(1) by (metis distinct.simps(2) last_ConsR last_in_set)
    then have ne: "cf + 1 \<noteq> c_cl p" by (rule not_end)
    have o: "off (cf + 1) = 0" unfolding cross(2) by (rule off_end [OF b(1)])
    have "cf + 1 - 32 = b" using cross(2) by linarith
    then have "nextc p cf m = hd bl' + 2"
      using ne Suc.prems(3) cross(3) o by (simp add: nextc_def c_info_def)
    moreover have "distinct bl'" using Suc.prems(2) bl by simp
    ultimately show ?thesis unfolding bl cross(5) using Suc.IH [OF cross(4) _ Suc.prems(3)] cf0 by simp
  next
    case inner
    have "cf + 1 \<noteq> c_cl p"
    proof (cases "bl' = []")
      case True
      then show ?thesis using inner(2) by simp
    next
      case False
      then have "last bl \<noteq> b" using Suc.prems(2) bl by (metis distinct.simps(2) last_ConsR last_in_set)
      then show ?thesis by (rule not_end)
    qed
    moreover have "off (cf + 1) \<noteq> 0" using blk_in [OF b(1), of "cf + 1"] b inner(1) by simp
    ultimately have "nextc p cf m = cf + 1" using Suc.prems(3) by (simp add: nextc_def)
    then show ?thesis unfolding bl inner(3)
      using Suc.IH [OF inner(2) _ Suc.prems(3)] cf0 Suc.prems(2) bl by simp
  qed
qed

lemma scan_queue:
  assumes "queue U q m bs"
  shows "scan n q (c_cf q) m = take n bs"
proof (cases "bs = []")
  case True
  then have "c_cf q = 0" using queue_empty_fields assms by auto
  then show ?thesis using True by (cases n) simp_all
next
  case False
  obtain bl fl where p: "pool m q bl bs fl" using assms by (auto simp: queue_def)
  then have c: "chain m (c_cf q) (c_cl q) bl" "distinct bl"
    and bs: "bs = map (c_char m) (span (c_cf q) (c_cl q) bl)"
    using False by (auto simp: pool_def holds_def split: if_splits)
  have "c_cc q \<noteq> 0" using queue_cc [OF assms] False by simp
  from scan_span [OF c this] show ?thesis using bs by simp
qed

text \<open>The last character of a chain, and what is left without it.\<close>

lemma chain_pop:
  assumes "chain m cf cl bl" "distinct bl"
  shows "(bl = [last bl] \<and> span cf cl bl = [cl - 1] \<and> blk (cl - 1) = last bl) \<or>
    (\<exists>us p k. bl = us @ [p, k] \<and> cl = k + 3 \<and> block_addr p \<and> c_next m p = k \<and> chain m cf (p + 32) (us @ [p]) \<and>
       span cf cl bl = span cf (p + 32) (us @ [p]) @ [cl - 1]) \<or>
    (off (cl - 1) > 2 \<and> chain m cf (cl - 1) bl \<and> span cf cl bl = span cf (cl - 1) bl @ [cl - 1])"
  using assms
proof (induction m cf cl bl rule: chain.induct)
  case (2 m cf cl b)
  then have b: "block_addr b" "b + 2 \<le> cf" "cf < cl" "cl \<le> b + 32" by auto
  have bo: "blk (cl - 1) = b" "off (cl - 1) = cl - 1 - b" using blk_in [of b "cl - 1"] b by auto
  show ?case
  proof (cases "cf = cl - 1")
    case True
    then have "[cf ..< cl] = [cl - 1]" using b(3) by (metis Suc_diff_1 less_zeroE upt_rec gr0I upt_conv_Nil lessI order_refl)
    then show ?thesis using bo by simp
  next
    case False
    then have "cf < cl - 1" using b(3) by simp
    moreover have "[cf ..< cl] = [cf ..< cl - 1] @ [cl - 1]"
      using b(3) calculation upt_Suc_append [of cf "cl - 1"] by simp
    moreover have "2 < cl - 1 - b" "cl - 1 \<le> b + 32" using calculation(1) b by linarith+
    ultimately show ?thesis using b bo by simp
  qed
next
  case (3 m cf cl b b' bs)
  then have b: "block_addr b" "b + 2 \<le> cf" "cf < b + 32" "c_next m b = b'"
    and c: "chain m (b' + 2) cl (b' # bs)" and d: "distinct (b' # bs)" by auto
  have b': "block_addr b'" using chain_head [OF c] by simp
  from "3.IH" [OF c d] show ?case
  proof (elim disjE exE conjE)
    assume s: "b' # bs = [last (b' # bs)]" "span (b' + 2) cl (b' # bs) = [cl - 1]"
    then have bs: "bs = []" by simp
    then have "[b' + 2 ..< cl] = [cl - 1]" using s(2) by simp
    then have "length [b' + 2 ..< cl] = 1" by simp
    then have "cl = b' + 3" by simp
    moreover have "span cf cl (b # b' # bs) = span cf (b + 32) ([] @ [b]) @ [cl - 1]"
      using s(2) bs by simp
    moreover have "chain m cf (b + 32) ([] @ [b])" "b # b' # bs = [] @ [b, b']" using b bs by simp_all
    ultimately show ?thesis using b(1,4) by blast
  next
    fix us p k
    assume s: "b' # bs = us @ [p, k]" "cl = k + 3" "block_addr p" "c_next m p = k" "chain m (b' + 2) (p + 32) (us @ [p])"
      "span (b' + 2) cl (b' # bs) = span (b' + 2) (p + 32) (us @ [p]) @ [cl - 1]"
    obtain zs where zs: "us @ [p] = b' # zs" using s(1) by (cases us) auto
    have "chain m cf (p + 32) ((b # us) @ [p])" using b s(5) zs by simp
    moreover have "span cf cl (b # b' # bs) = span cf (p + 32) ((b # us) @ [p]) @ [cl - 1]"
      using s(6) zs by simp
    moreover have "b # b' # bs = (b # us) @ [p, k]" using s(1) by simp
    ultimately show ?thesis using s(2-4) by blast
  next
    assume s: "2 < off (cl - 1)" "chain m (b' + 2) (cl - 1) (b' # bs)"
      "span (b' + 2) cl (b' # bs) = span (b' + 2) (cl - 1) (b' # bs) @ [cl - 1]"
    then show ?thesis using b by simp
  qed
qed simp

lemma find_pred_chain:
  "chain m cf cl (us @ [p]) \<Longrightarrow> distinct (us @ [p, k]) \<Longrightarrow> c_next m p = k \<Longrightarrow>
   find_pred k (hd (us @ [p])) m = Some p"
proof (induction us arbitrary: cf)
  case Nil
  then show ?case by (subst find_pred.simps) simp
next
  case (Cons u us)
  then obtain v vs where v: "us @ [p] = v # vs" by (cases us) auto
  have c: "c_next m u = v" "chain m (v + 2) cl (us @ [p])" using Cons.prems(1) v by auto
  have "v \<noteq> k"
  proof -
    have "v \<in> set (us @ [p])" using v by simp
    then show ?thesis using Cons.prems(2) by auto
  qed
  then show ?case using Cons.IH [OF c(2)] Cons.prems v c(1) by (subst find_pred.simps) simp
qed

lemma unputc_queue:
  assumes "queue U q m (bs @ [c])"
  obtains q' m' where "unputc q m = Some (sint c, q', m')" "queue U q' m' bs" "frame U m m'"
proof -
  obtain bl fl where p: "pool m q bl (bs @ [c]) fl" and U: "set bl \<union> set fl = U"
    using assms by (auto simp: queue_def)
  have ch: "chain m (c_cf q) (c_cl q) bl" and cc: "c_cc q = int (length bs) + 1" and ne: "bl \<noteq> []"
    and bs: "bs @ [c] = map (c_char m) (span (c_cf q) (c_cl q) bl)"
    and fl: "freel m (cfreelist m) fl" "cfreecount m = 30 * int (length fl)" "distinct (bl @ fl)"
    using p by (auto simp: pool_def holds_def split: if_splits)
  have cl: "c_cl q > 2" using chain_last [OF ch] by linarith
  have d: "distinct bl" using fl(3) by simp
  have l: "block_addr (last bl)" "last bl \<in> set bl" using chain_last [OF ch] ne by auto
  from chain_pop [OF ch d] show thesis
  proof (elim disjE exE conjE)
    assume s: "bl = [last bl]" "span (c_cf q) (c_cl q) bl = [c_cl q - 1]" "blk (c_cl q - 1) = last bl"
    have b: "bs = []" "c = c_char m (c_cl q - 1)" using bs unfolding s(2) by simp_all
    let ?m = "put_block (last bl) m"
    have "unputc q m = Some (sint c, empty_clist, ?m)"
      using cc b s(3) by (simp add: unputc_def Let_def empty_clist_def)
    moreover have "pool ?m empty_clist [] [] (last bl # fl)"
    proof (rule put_block_pool)
      show "last bl \<notin> set fl" "distinct ([] @ fl)" using l(2) fl(3) by auto
    qed (use fl l in \<open>auto simp: holds_def\<close>)
    then have "queue U empty_clist ?m []"
      using U s(1) unfolding queue_def by (metis list.set(1,2) insert_is_Un sup_bot_left)
    moreover have "frame U m ?m" using U l(2) by (auto simp: frame_def)
    ultimately show thesis using that b by simp
  next
    fix us pr k
    assume s: "bl = us @ [pr, k]" "c_cl q = k + 3" "block_addr pr" "c_next m pr = k"
      "chain m (c_cf q) (pr + 32) (us @ [pr])"
      "span (c_cf q) (c_cl q) bl = span (c_cf q) (pr + 32) (us @ [pr]) @ [c_cl q - 1]"
    have b: "bs = map (c_char m) (span (c_cf q) (pr + 32) (us @ [pr]))" "c = c_char m (c_cl q - 1)"
      using bs unfolding s(6) by simp_all
    have ka: "block_addr k" using l(1) s(1) by simp
    have o: "off (k + 2) = 2" "blk (k + 2) = k" using blk_in [OF ka, of "k + 2"] by simp_all
    have hd: "blk (c_cf q) = hd (us @ [pr])"
    proof -
      obtain v vs where v: "us @ [pr] = v # vs" by (cases us) auto
      then have "block_addr v \<and> v + 2 \<le> c_cf q \<and> c_cf q < v + 32" using s(5) chain_head by metis
      then show ?thesis using v blk_in [of v "c_cf q"] by simp
    qed
    have find: "find_pred k (blk (c_cf q)) m = Some pr"
      unfolding hd by (rule find_pred_chain [OF s(5)]) (use d s in simp_all)
    have nb: "bs \<noteq> []" using b(1) span_not_Nil [OF s(5)] by simp
    let ?m1 = "put_block k m" let ?m = "?m1\<lparr>c_next := (c_next ?m1)(pr := 0)\<rparr>"
    let ?q = "q\<lparr>c_cl := pr + 32, c_cc := c_cc q - 1\<rparr>"
    have "unputc q m = Some (sint c, ?q, ?m)"
      using cc nb s(2,4) b(2) find by (simp add: unputc_def Let_def o [simplified])
    moreover have ck: "distinct (us @ [pr])" "k \<notin> set (us @ [pr])" "k \<notin> set fl" "pr \<notin> set fl"
      "distinct ((us @ [pr]) @ fl)" using fl(3) s(1) by auto
    have "pool ?m ?q (us @ [pr]) bs (k # fl)"
    proof -
      have "chain ?m (c_cf q) (pr + 32) (us @ [pr])"
        using s(5) ck by (subst chain_cong [where m = m]) auto
      then have "holds ?m ?q (us @ [pr]) bs" using b(1) cc nb by (simp add: holds_def)
      moreover have "freel ?m k (k # fl)"
      proof -
        have "freel ?m (cfreelist m) fl = freel m (cfreelist m) fl"
          using ck by (intro freel_cong) auto
        then show ?thesis using fl(1) ka ck s(1) by simp
      qed
      ultimately show ?thesis using fl(2) ck by (auto simp: pool_def)
    qed
    then have "queue U ?q ?m bs" using U s(1) unfolding queue_def by fastforce
    moreover have "frame U m ?m" using U s(1) by (auto simp: frame_def)
    ultimately show thesis using that by blast
  next
    assume s: "2 < off (c_cl q - 1)" "chain m (c_cf q) (c_cl q - 1) bl"
      "span (c_cf q) (c_cl q) bl = span (c_cf q) (c_cl q - 1) bl @ [c_cl q - 1]"
    have b: "bs = map (c_char m) (span (c_cf q) (c_cl q - 1) bl)" "c = c_char m (c_cl q - 1)"
      using bs unfolding s(3) by simp_all
    have nb: "bs \<noteq> []" using b(1) span_not_Nil [OF s(2)] by simp
    let ?q = "q\<lparr>c_cl := c_cl q - 1, c_cc := c_cc q - 1\<rparr>"
    have "unputc q m = Some (sint c, ?q, m)"
      using cc nb s(1) b(2) by (simp add: unputc_def Let_def)
    moreover have "pool m ?q bl bs fl"
      using s(2) b(1) cc ne nb fl by (simp add: pool_def holds_def)
    then have "queue U ?q m bs" using U unfolding queue_def by blast
    ultimately show thesis using that by simp
  qed
qed

section \<open>catq\<close>

text \<open>Two queues and the free list, sharing the blocks \<open>U\<close>.\<close>

definition two_queues :: "nat set \<Rightarrow> clist \<Rightarrow> u_char list \<Rightarrow> clist \<Rightarrow> u_char list \<Rightarrow> clmem \<Rightarrow> bool" where
  "two_queues U src as dst bs m \<longleftrightarrow> (\<exists>la lb fl. holds m src la as \<and> holds m dst lb bs \<and>
     freel m (cfreelist m) fl \<and> cfreecount m = 30 * int (length fl) \<and> distinct (la @ lb @ fl) \<and>
     set (la @ lb @ fl) = U)"

lemma holds_cc: "holds m q bl bs \<Longrightarrow> c_cc q = int (length bs) \<and> (bl = [] \<longleftrightarrow> bs = [])"
  using span_not_Nil [of m "c_cf q" "c_cl q" bl]
  by (cases "bl = []") (simp_all add: holds_def empty_clist_def)

lemma holds_empty: "holds m q bl [] \<Longrightarrow> q = empty_clist \<and> bl = []"
  by (frule holds_cc) (simp add: holds_def)

lemma catq_loop_step:
  assumes "two_queues U src as dst bs m" "as \<noteq> []"
  obtains src' dst' m1 m2 where "q_to_b src 120 m = (take 120 as, src', m1)"
    "b_to_q (take 120 as) dst m1 = (0, dst', m2)"
    "two_queues U src' (drop 120 as) dst' (bs @ take 120 as) m2" "frame U m m2"
proof -
  obtain la lb fl where h: "holds m src la as" "holds m dst lb bs"
    and f: "freel m (cfreelist m) fl" "cfreecount m = 30 * int (length fl)"
    and d: "distinct (la @ lb @ fl)" and U: "set (la @ lb @ fl) = U"
    using assms(1) by (auto simp: two_queues_def)
  have "pool m src la as fl" using h f d by (simp add: pool_def Int_Un_distrib)
  then have q1: "queue (set la \<union> set fl) src m as" unfolding queue_def by blast
  obtain src' m1 where a: "q_to_b src 120 m = (take (nat 120) as, src', m1)"
    "queue (set la \<union> set fl) src' m1 (drop (nat 120) as)" "frame (set la \<union> set fl) m m1"
    "30 dvd (120 :: int) \<or> int (length as) \<le> 120 \<Longrightarrow>
       cfreecount m + int (min (nat 120) (length as)) \<le> cfreecount m1"
    using q_to_b_queue [OF q1, of 120] zero_less_numeral by metis
  obtain la' fl' where p1: "pool m1 src' la' (drop (nat 120) as) fl'"
    and U1: "set la' \<union> set fl' = set la \<union> set fl" using a(2) by (auto simp: queue_def)
  have lb1: "set lb \<inter> (set la \<union> set fl) = {}" using d by auto
  then have "holds m1 dst lb bs" using holds_frame [OF h(2) a(3)] by simp
  then have "pool m1 dst lb bs fl'" using p1 lb1 U1 d by (auto simp: pool_def)
  then have q2: "queue (set lb \<union> set fl') dst m1 bs" unfolding queue_def by blast
  obtain k dst' m2 where b: "b_to_q (take 120 as) dst m1 = (int (length (take 120 as) - k), dst', m2)"
    "k \<le> length (take 120 as)" "queue (set lb \<union> set fl') dst' m2 (bs @ take k (take 120 as))"
    "frame (set lb \<union> set fl') m1 m2"
    "k < length (take 120 as) \<Longrightarrow> cfreelist m2 = 0 \<and> cfreecount m1 < int (length (take 120 as))"
    using b_to_q_queue [OF q2, of "take 120 as"] by metis
  have "int (length (take 120 as)) \<le> cfreecount m1" using a(4) f(2) by simp
  then have k: "k = length (take 120 as)" using b(2,5) by fastforce
  have "take k (take 120 as) = take 120 as" unfolding k by (rule take_all) simp
  then obtain lb' fl'' where p2: "pool m2 dst' lb' (bs @ take 120 as) fl''"
    and U2: "set lb' \<union> set fl'' = set lb \<union> set fl'" using b(3) by (auto simp: queue_def)
  have la1: "set la' \<inter> (set lb \<union> set fl') = {}" using p1 lb1 U1 by (auto simp: pool_def)
  then have h2: "holds m2 src' la' (drop 120 as)" using holds_frame [OF _ b(4)] p1 by (simp add: pool_def)
  have "two_queues U src' (drop 120 as) dst' (bs @ take 120 as) m2"
    unfolding two_queues_def
  proof (intro exI conjI)
    show "holds m2 src' la' (drop 120 as)" by (rule h2)
    show "holds m2 dst' lb' (bs @ take 120 as)" "freel m2 (cfreelist m2) fl''"
      "cfreecount m2 = 30 * int (length fl'')" using p2 by (simp_all add: pool_def)
    show "distinct (la' @ lb' @ fl'')" using p1 p2 la1 U2 by (auto simp: pool_def)
    show "set (la' @ lb' @ fl'') = U" using U U1 U2 by auto
  qed
  moreover have "frame U m m2" using a(3) b(4) U U1 unfolding frame_def by auto
  ultimately show thesis using that a(1) b(1) k by simp
qed

lemma catq_loop_queue:
  assumes "two_queues U src as dst bs m"
  shows "\<exists>dst' m'. catq_loop src dst m = Some (empty_clist, dst', m') \<and>
    two_queues U empty_clist [] dst' (bs @ as) m' \<and> frame U m m'"
  using assms
proof (induction "length as" arbitrary: src as dst bs m rule: less_induct)
  case less
  have cc: "c_cc src = int (length as)" using less.prems holds_cc by (auto simp: two_queues_def)
  show ?case
  proof (cases "as = []")
    case True
    then have "src = empty_clist" using less.prems holds_empty by (auto simp: two_queues_def)
    then show ?thesis using less.prems True cc by (subst catq_loop.simps) auto
  next
    case False
    from catq_loop_step [OF less.prems False] obtain src' dst' m1 m2 where
      s: "q_to_b src 120 m = (take 120 as, src', m1)" "b_to_q (take 120 as) dst m1 = (0, dst', m2)"
      "two_queues U src' (drop 120 as) dst' (bs @ take 120 as) m2" "frame U m m2" by metis
    have "length (drop 120 as) < length as" using False by simp
    from less.hyps [OF this s(3)] obtain dst'' m' where
      r: "catq_loop src' dst' m2 = Some (empty_clist, dst'', m')"
      "two_queues U empty_clist [] dst'' (bs @ as) m'" "frame U m2 m'" by auto
    have "catq_loop src dst m = Some (empty_clist, dst'', m')"
      using s(1,2) r(1) cc False by (subst catq_loop.simps) simp
    then show ?thesis using r frame_trans [OF s(4) r(3)] by blast
  qed
qed

lemma catq_queue:
  assumes "two_queues U src as dst bs m"
  obtains dst' m' where "catq src dst m = Some (empty_clist, dst', m')"
    "two_queues U empty_clist [] dst' (bs @ as) m'" "frame U m m'"
proof (cases "bs = []")
  case True
  then have "c_cc dst = 0" using assms holds_cc by (fastforce simp: two_queues_def)
  moreover have "two_queues U empty_clist [] src as m"
  proof -
    obtain la lb fl where h: "holds m src la as" "holds m dst lb bs" "freel m (cfreelist m) fl"
      "cfreecount m = 30 * int (length fl)" "distinct (la @ lb @ fl)" "set (la @ lb @ fl) = U"
      using assms by (auto simp: two_queues_def)
    then have "lb = []" using True holds_empty by blast
    then show ?thesis using h unfolding two_queues_def
      by (intro exI [of _ "[]"] exI [of _ la] exI [of _ fl]) (auto simp: holds_def)
  qed
  ultimately show thesis using that [of src m] True by (simp add: catq_def)
next
  case False
  then have "c_cc dst \<noteq> 0" using assms holds_cc by (fastforce simp: two_queues_def)
  then show thesis using that catq_loop_queue [OF assms] by (auto simp: catq_def)
qed

section \<open>cinit\<close>

lemma cinit_loop_queue:
  assumes "freel m (cfreelist m) fl" "cfreecount m = 30 * int (length fl)" "distinct fl"
    and "block_addr cp" "\<forall>b \<in> set fl. b < cp"
  shows "\<exists>fl'. freel (cinit_loop n cp m) (cfreelist (cinit_loop n cp m)) fl' \<and>
    cfreecount (cinit_loop n cp m) = 30 * int (length fl') \<and> distinct fl' \<and>
    set fl' = set fl \<union> (\<lambda>i. cp + 32 * i) ` {..<n}"
  using assms
proof (induction n arbitrary: cp m fl)
  case 0
  then show ?case by auto
next
  case (Suc n)
  let ?m = "put_block cp m"
  have notin: "cp \<notin> set fl" using Suc.prems(5) by blast
  have f: "freel ?m (cfreelist ?m) (cp # fl)" using freel_put [OF Suc.prems(1,4) notin] by simp
  have "\<exists>fl'. freel (cinit_loop n (cp + 32) ?m) (cfreelist (cinit_loop n (cp + 32) ?m)) fl' \<and>
    cfreecount (cinit_loop n (cp + 32) ?m) = 30 * int (length fl') \<and> distinct fl' \<and>
    set fl' = set (cp # fl) \<union> (\<lambda>i. cp + 32 + 32 * i) ` {..<n}"
  proof (rule Suc.IH [OF f])
    show "cfreecount ?m = 30 * int (length (cp # fl))" using Suc.prems(2) by simp
    show "distinct (cp # fl)" using Suc.prems(3) notin by simp
    show "block_addr (cp + 32)" using Suc.prems(4) by (simp add: block_addr_def)
    show "\<forall>b\<in>set (cp # fl). b < cp + 32" using Suc.prems(5) by auto
  qed
  moreover have "set (cp # fl) \<union> (\<lambda>i. cp + 32 + 32 * i) ` {..<n} =
      set fl \<union> (\<lambda>i. cp + 32 * i) ` {..<Suc n}"
    by (auto simp: lessThan_Suc_eq_insert_0 image_image)
  ultimately show ?case by simp
qed

text \<open>The blocks \<open>cinit\<close> finds: aligned, starting inside the array but not behind its last
  element.\<close>

definition cinit_blocks :: "nat \<Rightarrow> nat \<Rightarrow> nat set" where
  "cinit_blocks cfree nclist = {b. b mod 32 = 0 \<and> cfree \<le> b \<and> b \<le> cfree + 32 * nclist - 32}"

lemma blk_mult: "blk a = 32 * (a div 32)"
  by (simp add: blk_def minus_mod_eq_mult_div)

lemma blk_up: "b mod 32 = 0 \<Longrightarrow> a \<le> b \<longleftrightarrow> blk (a + 31) \<le> b"
proof -
  assume "b mod 32 = 0"
  then have b: "b = 32 * (b div 32)" by (metis mult_div_mod_eq add.right_neutral)
  have "(a + 31) div 32 \<le> b div 32 \<longleftrightarrow> (a + 31) div 32 < Suc (b div 32)" by (rule less_Suc_eq_le [symmetric])
  also have "\<dots> \<longleftrightarrow> a + 31 < Suc (b div 32) * 32" by (rule div_less_iff_less_mult) simp
  also have "\<dots> \<longleftrightarrow> a \<le> 32 * (b div 32)" by simp linarith
  finally show ?thesis unfolding blk_mult using b by linarith
qed

lemma cinit_queue:
  assumes "cfreelist m = 0" "cfreecount m = 0" "0 < cfree" "0 < nclist"
  shows "queue (cinit_blocks cfree nclist) empty_clist (cinit cfree nclist m) []"
proof -
  let ?ccp = "blk (cfree + 31)" and ?fin = "cfree + 32 * nclist - 32"
  have ccp: "?ccp mod 32 = 0" "cfree \<le> ?ccp"
    using blk_up [of ?ccp cfree] by (simp_all add: blk_mult)
  have iff: "b \<in> cinit_blocks cfree nclist \<longleftrightarrow> b mod 32 = 0 \<and> ?ccp \<le> b \<and> b \<le> ?fin" for b
    using blk_up [of b cfree] by (auto simp: cinit_blocks_def)
  have ba: "block_addr ?ccp" using ccp assms(3) by (simp add: block_addr_def)
  show ?thesis
  proof (cases "?fin < ?ccp")
    case True
    then have "cinit_blocks cfree nclist = {}" using iff by auto
    moreover have "pool m empty_clist [] [] []" using assms by (simp add: pool_def holds_def)
    ultimately show ?thesis using True by (auto simp: queue_def cinit_def Let_def)
  next
    case False
    let ?n = "Suc ((?fin - ?ccp) div 32)" let ?m = "cinit_loop ?n ?ccp m"
    have "\<exists>fl'. freel ?m (cfreelist ?m) fl' \<and> cfreecount ?m = 30 * int (length fl') \<and> distinct fl' \<and>
        set fl' = set [] \<union> (\<lambda>i. ?ccp + 32 * i) ` {..<?n}"
      by (rule cinit_loop_queue) (use assms ba in simp_all)
    then obtain fl where fl: "freel ?m (cfreelist ?m) fl" "cfreecount ?m = 30 * int (length fl)"
      "distinct fl" "set fl = (\<lambda>i. ?ccp + 32 * i) ` {..<?n}" by auto
    have "set fl = cinit_blocks cfree nclist"
    proof (intro equalityI subsetI)
      fix b assume "b \<in> set fl"
      then obtain i where i: "b = ?ccp + 32 * i" "i \<le> (?fin - ?ccp) div 32" using fl(4) by auto
      then have "32 * i \<le> ?fin - ?ccp" by (meson le_trans mult_le_mono2 times_div_less_eq_dividend)
      then have "b \<le> ?fin" "?ccp \<le> b" using i(1) False by linarith+
      moreover have "b mod 32 = 0" using i(1) ccp(1) by (metis mod_mult_self2)
      ultimately show "b \<in> cinit_blocks cfree nclist" unfolding iff by blast
    next
      fix b assume "b \<in> cinit_blocks cfree nclist"
      then have b: "b mod 32 = 0" "?ccp \<le> b" "b \<le> ?fin" using iff by auto
      then have "32 dvd b - ?ccp" using ccp(1) by (simp add: dvd_diff_nat mod_eq_0_iff_dvd)
      then obtain i where i: "b - ?ccp = 32 * i" by (auto elim: dvdE)
      then have "b = ?ccp + 32 * i" using b(2) by simp
      moreover have "i \<le> (?fin - ?ccp) div 32"
        using i b(3) by (metis diff_le_mono div_le_mono nonzero_mult_div_cancel_left zero_neq_numeral)
      ultimately show "b \<in> set fl" using fl(4) by auto
    qed
    moreover have "pool ?m empty_clist [] [] fl" using fl by (simp add: pool_def holds_def)
    moreover have "cinit cfree nclist m = ?m" using False assms(4) by (simp add: cinit_def Let_def)
    ultimately show ?thesis unfolding queue_def
      by (intro exI [of _ "[]"] exI [of _ fl]) (simp only: list.set Un_empty_left simp_thms)
  qed
qed

section \<open>The queue interface\<close>

type_synonym tty_queue = "clist \<times> clmem"

definition q_put :: "u_char \<Rightarrow> tty_queue \<Rightarrow> tty_queue option" where
  "q_put c s = (case putc (uint c) (fst s) (snd s) of
     (r, q, m) \<Rightarrow> if r = 0 then Some (q, m) else None)"

definition q_get :: "tty_queue \<Rightarrow> (u_char \<times> tty_queue) option" where
  "q_get s = (case getc (fst s) (snd s) of
     (c, q, m) \<Rightarrow> if c = - 1 then None else Some (word_of_int c, q, m))"

definition q_bytes :: "tty_queue \<Rightarrow> u_char list" where
  "q_bytes s = scan (nat (c_cc (fst s))) (fst s) (c_cf (fst s)) (snd s)"

definition q_ok :: "nat set \<Rightarrow> tty_queue \<Rightarrow> bool" where
  "q_ok U s \<longleftrightarrow> (\<exists>bs. queue U (fst s) (snd s) bs)"

lemma q_bytes_queue: "queue U q m bs \<Longrightarrow> q_bytes (q, m) = bs"
  using scan_queue [of U q m bs "length bs"] queue_cc [of U q m bs] by (simp add: q_bytes_def)

lemma q_put_law: "q_ok U s \<Longrightarrow> q_put c s = Some s' \<Longrightarrow> q_ok U s' \<and> q_bytes s' = q_bytes s @ [c]"
proof -
  assume ok: "q_ok U s" and put: "q_put c s = Some s'"
  obtain q m where s: "s = (q, m)" by force
  obtain bs where q: "queue U q m bs" using ok s by (auto simp: q_ok_def)
  show ?thesis
    by (rule putc_queue [OF q, of "uint c"])
      (use put s q_bytes_queue [OF q] q_bytes_queue in \<open>auto simp: q_put_def q_ok_def\<close>)
qed

lemma getc_cases:
  assumes "queue U q m bs"
  shows "(bs = [] \<and> q_get (q, m) = None) \<or>
    (\<exists>c cs q' m'. bs = c # cs \<and> q_get (q, m) = Some (c, q', m') \<and> queue U q' m' cs)"
proof (cases bs)
  case Nil
  then show ?thesis using getc_empty assms by (simp add: q_get_def)
next
  case (Cons c cs)
  obtain q' m' where "getc q m = (uint c, q', m')" "queue U q' m' cs"
    using getc_queue assms Cons by metis
  moreover have "uint c \<noteq> - 1" using uint_ge_0 [of c] by linarith
  ultimately show ?thesis using Cons by (simp add: q_get_def)
qed

lemma q_get_law: "q_ok U s \<Longrightarrow> q_get s = Some (c, s') \<Longrightarrow> q_ok U s' \<and> q_bytes s = c # q_bytes s'"
  using getc_cases [of U "fst s" "snd s"] q_bytes_queue
  by (cases s) (fastforce simp: q_ok_def)

lemma q_get_none: "q_ok U s \<Longrightarrow> q_get s = None \<longleftrightarrow> q_bytes s = []"
  using getc_cases [of U "fst s" "snd s"] q_bytes_queue
  by (cases s) (fastforce simp: q_ok_def)

interpretation tq: byte_fifo q_put q_get q_bytes "q_ok U" for U
  by unfold_locales (use q_put_law q_get_law q_get_none in blast)+

section \<open>The properties\<close>

definition blank_mem :: clmem where
  "blank_mem = \<lparr>c_next = \<lambda>_. 0, c_char = \<lambda>_. 0, cfreelist = 0, cfreecount = 0, cwaiting = False,
     cl_wakeups = 0\<rparr>"

lemma blank_queue: "queue (cinit_blocks 64 3) empty_clist (cinit 64 3 blank_mem) []"
  by (rule cinit_queue) (simp_all add: blank_mem_def)

text \<open>C4: From an initialised free list, every interleaving of putc and getc on a queue delivers
  the bytes in the order they were put: what was put is what was got followed by what is still in
  the queue.\<close>

theorem clist_fifo:
  assumes "cfreelist m = 0" "cfreecount m = 0" "0 < cfree" "0 < nclist"
    and "fifo_run q_put q_get (empty_clist, cinit cfree nclist m) s ins outs"
  shows "ins = outs @ q_bytes s"
proof -
  note q = cinit_queue [OF assms(1-4)]
  have "q_ok (cinit_blocks cfree nclist) (empty_clist, cinit cfree nclist m)"
    using q by (auto simp: q_ok_def)
  from tq.run_conserves [OF assms(5) this] q_bytes_queue [OF q] show ?thesis by simp
qed

definition demo_q0 :: tty_queue where "demo_q0 = (empty_clist, cinit 64 3 blank_mem)"
definition demo_q1 :: tty_queue where "demo_q1 = the (q_put 7 demo_q0)"
definition demo_q2 :: tty_queue where "demo_q2 = the (q_put 200 demo_q1)"
definition demo_q3 :: tty_queue where "demo_q3 = snd (the (q_get demo_q2))"

lemma demo_puts: "q_put 7 demo_q0 = Some demo_q1" "q_put 200 demo_q1 = Some demo_q2"
proof -
  have "\<not> Option.is_none (q_put 7 demo_q0)" "\<not> Option.is_none (q_put 200 demo_q1)" by code_simp+
  then show "q_put 7 demo_q0 = Some demo_q1" "q_put 200 demo_q1 = Some demo_q2"
    by (auto simp: demo_q1_def demo_q2_def Option.is_none_def)
qed

lemma demo_get: "q_get demo_q2 = Some (7, demo_q3)"
proof -
  have "map_option fst (q_get demo_q2) = Some 7" by code_simp
  then show ?thesis by (auto simp: demo_q3_def)
qed

lemma demo_q_run: "fifo_run q_put q_get demo_q0 demo_q3 [7, 200] [7]"
proof -
  have "fifo_run q_put q_get demo_q0 demo_q0 [] []" by (rule fifo_start)
  then have "fifo_run q_put q_get demo_q0 demo_q1 ([] @ [7]) []" by (rule fifo_put) (rule demo_puts)
  then have "fifo_run q_put q_get demo_q0 demo_q2 (([] @ [7]) @ [200]) []" by (rule fifo_put) (rule demo_puts)
  then have "fifo_run q_put q_get demo_q0 demo_q3 (([] @ [7]) @ [200]) ([] @ [7])"
    by (rule fifo_get) (rule demo_get)
  then show ?thesis by simp
qed

lemma demo_q2_queue: "queue (cinit_blocks 64 3) (fst demo_q2) (snd demo_q2) [7, 200]"
proof -
  have "q_ok (cinit_blocks 64 3) demo_q0" using blank_queue by (auto simp: q_ok_def demo_q0_def)
  from q_put_law [OF this demo_puts(1)] q_put_law [OF _ demo_puts(2)]
  have "q_ok (cinit_blocks 64 3) demo_q2 \<and> q_bytes demo_q2 = q_bytes demo_q0 @ [7, 200]" by fastforce
  moreover have "q_bytes demo_q0 = []" using q_bytes_queue [OF blank_queue] by (simp add: demo_q0_def)
  moreover obtain bs where "queue (cinit_blocks 64 3) (fst demo_q2) (snd demo_q2) bs"
    using calculation(1) by (auto simp: q_ok_def)
  moreover from q_bytes_queue [OF this] have "q_bytes demo_q2 = bs" by simp
  ultimately show ?thesis by simp
qed

theorem clist_fifo_witness: "[7, 200] = [7] @ q_bytes demo_q3"
  by (rule clist_fifo [of blank_mem 64 3]) (use demo_q_run in \<open>simp_all add: blank_mem_def demo_q0_def\<close>)

text \<open>q_to_b moves the first cc bytes of the queue to the buffer in order, b_to_q appends the
  buffer to the queue and reports how many bytes it could not place; both keep the queue and the
  free list in order and touch no block of anyone else, and b_to_q places everything when cfreecount
  says there is room.\<close>

lemma clist_block_transfer:
  assumes "queue U q m bs" "0 < cc"
  shows "(\<exists>q' m'. q_to_b q cc m = (take (nat cc) bs, q', m') \<and> queue U q' m' (drop (nat cc) bs) \<and>
      frame U m m') \<and>
    (\<exists>k q' m'. b_to_q cs q m = (int (length cs - k), q', m') \<and> k \<le> length cs \<and>
      queue U q' m' (bs @ take k cs) \<and> frame U m m' \<and>
      (int (length cs) \<le> cfreecount m \<longrightarrow> k = length cs))"
proof (intro conjI)
  show "\<exists>q' m'. q_to_b q cc m = (take (nat cc) bs, q', m') \<and> queue U q' m' (drop (nat cc) bs) \<and>
      frame U m m'" using q_to_b_queue [OF assms] by metis
  show "\<exists>k q' m'. b_to_q cs q m = (int (length cs - k), q', m') \<and> k \<le> length cs \<and>
      queue U q' m' (bs @ take k cs) \<and> frame U m m' \<and>
      (int (length cs) \<le> cfreecount m \<longrightarrow> k = length cs)"
  proof -
    obtain k q' m' where "b_to_q cs q m = (int (length cs - k), q', m')" "k \<le> length cs"
      "queue U q' m' (bs @ take k cs)" "frame U m m'"
      "k < length cs \<Longrightarrow> cfreelist m' = 0 \<and> cfreecount m < int (length cs)"
      using b_to_q_queue [OF assms(1), of cs] by metis
    moreover from this(2,5) have "int (length cs) \<le> cfreecount m \<longrightarrow> k = length cs" by linarith
    ultimately show ?thesis by blast
  qed
qed

lemma clist_block_transfer_witness:
  "\<exists>q' m'. q_to_b (fst demo_q2) 5 (snd demo_q2) = ([7, 200], q', m')"
  using clist_block_transfer [OF demo_q2_queue, of 5 "[]"] by auto

text \<open>ndflush returns, and drops exactly the first cc bytes of the queue, giving their blocks
  back to the free list.\<close>

lemma ndflush_correct:
  assumes "queue U q m bs"
  shows "\<exists>q' m'. ndflush q cc m = Some (q', m') \<and> queue U q' m' (drop (nat cc) bs) \<and> frame U m m'"
  using ndflush_queue [OF assms] by metis

lemma ndflush_correct_witness:
  "\<exists>q' m'. ndflush (fst demo_q2) 1 (snd demo_q2) = Some (q', m') \<and>
     queue (cinit_blocks 64 3) q' m' [200]"
  using ndflush_correct [OF demo_q2_queue, of 1] by auto

text \<open>unputc removes the last byte of the queue and returns it sign-extended, where getc returns
  the first byte as an unsigned value: a byte of 128 or more comes back negative, and 255 comes back
  as the -1 that also means an empty queue.\<close>

lemma unputc_correct:
  assumes "queue U q m (bs @ [c])"
  shows "\<exists>q' m'. unputc q m = Some (sint c, q', m') \<and> queue U q' m' bs \<and> frame U m m' \<and>
    (128 \<le> uint c \<longleftrightarrow> sint c < 0)"
proof -
  have u: "0 \<le> uint c" "uint c < 256" using uint_lt2p [of c] uint_ge_0 [of c] by simp_all
  have "sint c = (uint c + 128) mod 256 - 128"
    by (simp add: sint_uint signed_take_bit_eq_take_bit_shift take_bit_eq_mod)
  moreover have "(uint c + 128) mod 256 = (if uint c < 128 then uint c + 128 else uint c - 128)"
    using u mod_pos_pos_trivial [of "uint c - 128" 256] mod_add_self2 [of "uint c - 128" 256]
    by (auto simp: add.commute)
  ultimately have "128 \<le> uint c \<longleftrightarrow> sint c < 0" using u by (simp split: if_splits)
  then show ?thesis using unputc_queue [OF assms] by metis
qed

lemma unputc_correct_witness:
  "\<exists>q' m'. unputc (fst demo_q2) (snd demo_q2) = Some (- 56, q', m')"
proof -
  have "queue (cinit_blocks 64 3) (fst demo_q2) (snd demo_q2) ([7] @ [200])" using demo_q2_queue by simp
  from unputc_correct [OF this] show ?thesis by auto
qed

text \<open>catq moves the whole of one queue behind the other and loses nothing, although it ignores
  what b_to_q reports: the blocks its reads free always suffice for its writes. The source is left
  empty and no other memory changes.\<close>

lemma catq_lossless:
  assumes "two_queues U src as dst bs m"
  shows "\<exists>dst' m'. catq src dst m = Some (empty_clist, dst', m') \<and>
    two_queues U empty_clist [] dst' (bs @ as) m' \<and> frame U m m'"
  using catq_queue [OF assms] by metis

lemma catq_lossless_witness:
  "\<exists>dst' m'. catq (fst demo_q2) empty_clist (snd demo_q2) = Some (empty_clist, dst', m')"
proof -
  obtain bl fl where "pool (snd demo_q2) (fst demo_q2) bl [7, 200] fl" "set bl \<union> set fl = cinit_blocks 64 3"
    using demo_q2_queue by (auto simp: queue_def)
  then have "two_queues (cinit_blocks 64 3) (fst demo_q2) [7, 200] empty_clist [] (snd demo_q2)"
    unfolding two_queues_def
    by (intro exI [of _ bl] exI [of _ "[]"] exI [of _ fl]) (simp add: pool_def holds_def [of _ empty_clist])
  from catq_lossless [OF this] show ?thesis by auto
qed

text \<open>Following nextc from the head visits exactly the bytes of the queue, in order, and then
  NULL; ndqb with no mask counts a non-empty contiguous prefix of them.\<close>

lemma nextc_visits:
  assumes "queue U q m bs"
  shows "scan n q (c_cf q) m = take n bs \<and>
    (bs \<noteq> [] \<longrightarrow> (\<exists>k. ndqb q 0 m = int k \<and> 0 < k \<and> k \<le> length bs \<and> load (c_cf q) k m = take k bs))"
proof -
  have "\<exists>k. ndqb q 0 m = int k \<and> 0 < k \<and> k \<le> length bs \<and> load (c_cf q) k m = take k bs" if "bs \<noteq> []"
    using ndqb_queue [OF assms that, of 0] by metis
  then show ?thesis using scan_queue [OF assms] by blast
qed

lemma nextc_visits_witness: "scan 9 (fst demo_q2) (c_cf (fst demo_q2)) (snd demo_q2) = [7, 200]"
  using nextc_visits [OF demo_q2_queue, of 9] by simp

end
