(* ===== verification/Kern.thy ===== *)
theory Kern imports Prelude begin

text \<open>
  The kernel state the process-management theories share: the process table (struct proc, proc.h),
  the user structure of the running process (struct user, user.h), the scheduler's globals, and the
  user memory system calls read and write. Process pointers are indices into the table, \<open>None\<close>
  is NULL.

  \<open>p_un\<close> overlays the exit status of a zombie on fields no one reads after death; the model
  keeps the two apart. Addresses the linker chooses (sleep channels) are fields of the state.
\<close>

section \<open>Error numbers, signals, states\<close>

text \<open>The values \<open>u.u_error\<close> takes (errno.h).\<close>

datatype errno = NOERR | EPERM | ENOENT | ESRCH | EINTR | EIO | EBADF | EACCES | EFAULT | EINVAL | EMFILE | ENFILE
  | ENOSPC | EFBIG | EROFS | EWOULDBLOCK | ETXTBSY | ENOTSOCK | ENOBUFS | ENXIO | ECHILD | EAGAIN | ENOMEM | EBUSY
  | ENOTTY | EPIPE | EOPNOTSUPP

type_synonym sigset = "32 word"

abbreviation (input) "NSIG \<equiv> 32 :: int"
abbreviation (input) "SIGKILL \<equiv> 9 :: int"
abbreviation (input) "SIGALRM \<equiv> 14 :: int"
abbreviation (input) "SIGTERM \<equiv> 15 :: int"
abbreviation (input) "SIGURG \<equiv> 16 :: int"
abbreviation (input) "SIGSTOP \<equiv> 17 :: int"
abbreviation (input) "SIGTSTP \<equiv> 18 :: int"
abbreviation (input) "SIGCONT \<equiv> 19 :: int"
abbreviation (input) "SIGCHLD \<equiv> 20 :: int"
abbreviation (input) "SIGTTIN \<equiv> 21 :: int"
abbreviation (input) "SIGTTOU \<equiv> 22 :: int"
abbreviation (input) "SIGIO \<equiv> 23 :: int"
abbreviation (input) "SIGXCPU \<equiv> 24 :: int"
abbreviation (input) "SIGVTALRM \<equiv> 26 :: int"
abbreviation (input) "SIGPROF \<equiv> 27 :: int"
abbreviation (input) "SIGWINCH \<equiv> 28 :: int"

text \<open>\<open>sigmask(m)\<close> is \<open>(long)1 << (m - 1)\<close>; the PDP-11 \<open>ashc\<close> takes its count modulo 64, a
  count outside 0..31 shifts every bit out. Signal 0 has the empty mask.\<close>

definition sigmask :: "int \<Rightarrow> sigset" where
  "sigmask m = (if 1 \<le> m \<and> m \<le> 32 then push_bit (nat (m - 1)) 1 else 0)"

datatype pstat = SFREE | SSLEEP | SWAIT | SRUN | SIDL | SZOMB | SSTOP

text \<open>The bits of \<open>p_flag\<close>.\<close>

abbreviation (input) "SLOAD \<equiv> 0x0001 :: u_int"
abbreviation (input) "SSYS \<equiv> 0x0002 :: u_int"
abbreviation (input) "SSWAP \<equiv> 0x0008 :: u_int"
abbreviation (input) "STRC \<equiv> 0x0010 :: u_int"
abbreviation (input) "SWTED \<equiv> 0x0020 :: u_int"
abbreviation (input) "SOMASK \<equiv> 0x0080 :: u_int"
abbreviation (input) "SVFORK \<equiv> 0x0100 :: u_int"
abbreviation (input) "SDETACH \<equiv> 0x1000 :: u_int"

definition flag :: "u_int \<Rightarrow> u_int \<Rightarrow> bool" where
  "flag f b \<longleftrightarrow> and f b \<noteq> 0"

definition set_flag :: "u_int \<Rightarrow> u_int \<Rightarrow> u_int" where
  "set_flag b f = or f b"

definition clr_flag :: "u_int \<Rightarrow> u_int \<Rightarrow> u_int" where
  "clr_flag b f = and f (not b)"

text \<open>Priorities (param.h).\<close>

abbreviation (input) "PSWP \<equiv> 0 :: int"
abbreviation (input) "PZERO \<equiv> 25 :: int"
abbreviation (input) "PSLEP \<equiv> 40 :: int"
abbreviation (input) "PUSER \<equiv> 50 :: int"
abbreviation (input) "NZERO \<equiv> 0 :: int"

section \<open>Processes\<close>

record k_itimerval =
  it_interval :: int
  it_value :: int

text \<open>Where \<open>p_prev\<close> points: the head of one of the lists, or the \<open>p_nxt\<close> of an entry.\<close>

datatype plink = Allproc | Zombproc | Nxt nat

record proc =
  p_nxt :: "nat option"
  p_prev :: "plink option"
  p_pptr :: "nat option"
  p_flag :: u_int
  p_uid :: int
  p_pid :: int
  p_ppid :: int
  p_sig :: sigset
  p_stat :: pstat
  p_pri :: int
  p_cpu :: u_char
  p_time :: int
  p_nice :: int
  p_slptime :: int
  p_cursig :: int
  p_idhash :: nat
  p_sigmask :: sigset
  p_sigignore :: sigset
  p_sigcatch :: sigset
  p_pgrp :: int
  p_link :: "nat option"
  p_addr :: u_int
  p_wchan :: u_int
  p_realtimer :: k_itimerval

section \<open>The user structure\<close>

text \<open>Signal dispositions: \<open>SIG_DFL\<close>, \<open>SIG_IGN\<close>, the kernel's own \<open>SIG_CATCH\<close> and
  \<open>SIG_HOLD\<close>, or a handler's address.\<close>

datatype handler = SIG_DFL | SIG_IGN | SIG_CATCH | SIG_HOLD | Handler u_int

record sigstack =
  ss_sp :: u_int
  ss_onstack :: u_int

record uprof =
  pr_base :: u_int
  pr_size :: u_int
  pr_off :: u_int
  pr_scale :: u_int

record rlimit =
  rlim_cur :: int
  rlim_max :: int

text \<open>struct k_rusage.\<close>

record k_rusage =
  ru_utime :: int
  ru_stime :: int
  ru_ovly :: int
  ru_nswap :: int
  ru_inblock :: int
  ru_oublock :: int
  ru_msgsnd :: int
  ru_msgrcv :: int
  ru_nsignals :: int
  ru_nvcsw :: int
  ru_nivcsw :: int

text \<open>
  The fields of struct user the modelled system calls use. \<open>u_r\<close> is split into its two views:
  \<open>r_val1\<close>, \<open>r_val2\<close> and \<open>r_long\<close>. \<open>u_ar0\<close> is the saved registers, by the
  offsets of reg.h.
\<close>

record user =
  u_procp :: nat
  u_error :: errno
  r_val1 :: int
  r_val2 :: int
  r_long :: "32 word"
  u_uid :: int
  u_ruid :: int
  u_gid :: int
  u_rgid :: int
  u_groups :: "int list"
  u_pcb_sigc :: u_int
  u_signal :: "int \<Rightarrow> handler"
  u_sigmask :: "int \<Rightarrow> sigset"
  u_sigonstack :: sigset
  u_sigintr :: sigset
  u_oldmask :: sigset
  u_sigstack :: sigstack
  u_rlimit :: "rlimit list"
  u_ru :: k_rusage
  u_cru :: k_rusage
  u_timer :: "k_itimerval list"
  u_acflag :: u_char
  u_ar0 :: "int \<Rightarrow> u_int"
  u_eosys :: int
  u_code :: u_int
  u_ssize :: u_int
  uo_ovbase :: u_int
  uo_curov :: u_int
  u_ofile :: "nat option list"
  u_pofile :: "u_char list"
  u_lastfile :: int
  u_prof :: uprof

section \<open>The kernel's globals\<close>

record kern =
  procs :: "nat \<Rightarrow> proc"
  nproc :: nat
  freeproc :: "nat option"
  zombproc :: "nat option"
  allproc :: "nat option"
  qs :: "nat option"
  pidhash :: "nat list"
  slpque :: "nat \<Rightarrow> nat option"
  runrun :: int
  curpri :: int
  noproc :: bool
  k_runin :: bool
  k_runout :: bool
  panicstr :: bool
  a_lbolt :: u_int
  a_runin :: u_int
  a_runout :: u_int
  a_u :: u_int
  a_proc :: "nat \<Rightarrow> u_int"
  u :: user
  umem :: "u_int \<Rightarrow> u_int option"

text \<open>Assignment to a field of a process and of the user structure.\<close>

definition upd_proc :: "nat \<Rightarrow> (proc \<Rightarrow> proc) \<Rightarrow> 'a kern_scheme \<Rightarrow> 'a kern_scheme" where
  "upd_proc p f k = k\<lparr>procs := (procs k)(p := f (procs k p))\<rparr>"

definition upd_u :: "(user \<Rightarrow> user) \<Rightarrow> 'a kern_scheme \<Rightarrow> 'a kern_scheme" where
  "upd_u f k = k\<lparr>u := f (u k)\<rparr>"

definition set_error :: "errno \<Rightarrow> 'a kern_scheme \<Rightarrow> 'a kern_scheme" where
  "set_error e = upd_u (\<lambda>v. v\<lparr>u_error := e\<rparr>)"

lemma upd_proc_simps [simp]:
  "procs (upd_proc p f k) = (procs k)(p := f (procs k p))"
  "nproc (upd_proc p f k) = nproc k" "freeproc (upd_proc p f k) = freeproc k"
  "zombproc (upd_proc p f k) = zombproc k" "allproc (upd_proc p f k) = allproc k"
  "qs (upd_proc p f k) = qs k" "pidhash (upd_proc p f k) = pidhash k"
  "slpque (upd_proc p f k) = slpque k" "runrun (upd_proc p f k) = runrun k"
  "curpri (upd_proc p f k) = curpri k" "noproc (upd_proc p f k) = noproc k"
  "k_runin (upd_proc p f k) = k_runin k" "k_runout (upd_proc p f k) = k_runout k"
  "panicstr (upd_proc p f k) = panicstr k" "a_lbolt (upd_proc p f k) = a_lbolt k"
  "a_runin (upd_proc p f k) = a_runin k" "a_runout (upd_proc p f k) = a_runout k"
  "a_u (upd_proc p f k) = a_u k" "a_proc (upd_proc p f k) = a_proc k"
  "u (upd_proc p f k) = u k" "umem (upd_proc p f k) = umem k"
  by (simp_all add: upd_proc_def)

lemma upd_u_simps [simp]:
  "procs (upd_u g k) = procs k" "nproc (upd_u g k) = nproc k" "allproc (upd_u g k) = allproc k"
  "zombproc (upd_u g k) = zombproc k" "qs (upd_u g k) = qs k" "slpque (upd_u g k) = slpque k"
  "runrun (upd_u g k) = runrun k" "curpri (upd_u g k) = curpri k" "u (upd_u g k) = g (u k)"
  "umem (upd_u g k) = umem k" "pidhash (upd_u g k) = pidhash k"
  "k_runin (upd_u g k) = k_runin k" "k_runout (upd_u g k) = k_runout k"
  "freeproc (upd_u g k) = freeproc k" "noproc (upd_u g k) = noproc k" "panicstr (upd_u g k) = panicstr k"
  "a_lbolt (upd_u g k) = a_lbolt k" "a_runin (upd_u g k) = a_runin k" "a_runout (upd_u g k) = a_runout k"
  "a_u (upd_u g k) = a_u k" "a_proc (upd_u g k) = a_proc k"
  by (simp_all add: upd_u_def)

lemma set_error_simps [simp]:
  "procs (set_error e k) = procs k" "u (set_error e k) = (u k)\<lparr>u_error := e\<rparr>"
  "umem (set_error e k) = umem k"
  by (simp_all add: set_error_def)

section \<open>User memory\<close>

text \<open>
  \<open>copyin\<close> and \<open>copyout\<close> (mch_copy.s) as the system calls see them: word by word (every
  object the calls move is a whole number of words), EFAULT at the first unmapped word. A failing
  copyout leaves the words before the bad one written.
\<close>

fun copyin_words :: "(u_int \<Rightarrow> u_int option) \<Rightarrow> u_int \<Rightarrow> nat \<Rightarrow> u_int list option" where
  "copyin_words m a 0 = Some []"
| "copyin_words m a (Suc n) = do { w \<leftarrow> m a; ws \<leftarrow> copyin_words m (a + 2) n; Some (w # ws) }"

fun copyout_words ::
  "(u_int \<Rightarrow> u_int option) \<Rightarrow> u_int \<Rightarrow> u_int list \<Rightarrow> errno \<times> (u_int \<Rightarrow> u_int option)" where
  "copyout_words m a [] = (NOERR, m)"
| "copyout_words m a (w # ws) =
     (if m a = None then (EFAULT, m) else copyout_words (m(a \<mapsto> w)) (a + 2) ws)"

text \<open>A long is two words, the high one first.\<close>

definition long_words :: "32 word \<Rightarrow> u_int list" where
  "long_words l = [ucast (drop_bit 16 l), ucast l]"

definition words_long :: "u_int \<Rightarrow> u_int \<Rightarrow> 32 word" where
  "words_long h l = or (push_bit 16 (ucast h)) (ucast l)"

lemma copyout_dom: "dom (snd (copyout_words m a ws)) = dom m"
proof (induction m a ws rule: copyout_words.induct)
  case (2 m a w ws)
  show ?case
  proof (cases "m a = None")
    case False
    then have "dom (m(a \<mapsto> w)) = dom m" by auto
    with 2 [OF False] have "dom (snd (copyout_words (m(a \<mapsto> w)) (a + 2) ws)) = dom m"
      by (rule trans)
    then show ?thesis using False by simp
  qed simp
qed simp

lemma long_roundtrip: "words_long (ucast (drop_bit 16 l)) (ucast l) = l"
  unfolding words_long_def
  by (rule bit_word_eqI) (auto simp: bit_or_iff bit_push_bit_iff bit_ucast_iff bit_drop_bit_eq)

end
