(* ===== verification/Umem.thy ===== *)
theory Umem imports Kern begin

text \<open>
  Lemmas on the words of user memory: a block copied out to mapped words reads back, and leaves the
  other words alone.
\<close>

section \<open>Round trips through user memory\<close>

text \<open>The words of a block of memory that does not wrap around onto itself.\<close>

definition mapped :: "(u_int \<Rightarrow> u_int option) \<Rightarrow> u_int \<Rightarrow> nat \<Rightarrow> bool" where
  "mapped m a n \<longleftrightarrow> (\<forall>i < n. m (a + of_nat (2 * i)) \<noteq> None)"

lemma mapped_Suc: "mapped m a (Suc n) \<longleftrightarrow> m a \<noteq> None \<and> mapped m (a + 2) n"
proof -
  have "(\<forall>i < Suc n. P i) \<longleftrightarrow> P 0 \<and> (\<forall>i < n. P (Suc i))" for P by (auto simp: less_Suc_eq_0_disj)
  from this [of "\<lambda>i. m (a + of_nat (2 * i)) \<noteq> None"] show ?thesis
    unfolding mapped_def by (simp add: add.assoc)
qed

lemma copyin_cong:
  assumes "\<And>i. i < n \<Longrightarrow> m (a + of_nat (2 * i)) = m' (a + of_nat (2 * i))"
  shows "copyin_words m a n = copyin_words m' a n"
  using assms
proof (induction n arbitrary: a)
  case (Suc n)
  have "m a = m' a" using Suc.prems [of 0] by simp
  moreover have "copyin_words m (a + 2) n = copyin_words m' (a + 2) n"
  proof (rule Suc.IH)
    fix i assume "i < n"
    then show "m (a + 2 + of_nat (2 * i)) = m' (a + 2 + of_nat (2 * i))"
      using Suc.prems [of "Suc i"] by (simp add: add.assoc)
  qed
  ultimately show ?case by simp
qed simp

lemma copyout_other:
  "(\<And>i. i < length ws \<Longrightarrow> b \<noteq> a + of_nat (2 * i)) \<Longrightarrow> snd (copyout_words m a ws) b = m b"
proof (induction ws arbitrary: m a)
  case (Cons w ws)
  have "b \<noteq> a" using Cons.prems [of 0] by simp
  moreover have "snd (copyout_words (m(a \<mapsto> w)) (a + 2) ws) b = (m(a \<mapsto> w)) b"
  proof (rule Cons.IH)
    fix i assume "i < length ws"
    then show "b \<noteq> a + 2 + of_nat (2 * i)" using Cons.prems [of "Suc i"] by (simp add: add.assoc)
  qed
  ultimately show ?case by simp
qed simp

lemma stride_distinct:
  assumes "0 < i" "i < 32768"
  shows "(a :: u_int) \<noteq> a + of_nat (2 * i)"
proof
  assume "a = a + of_nat (2 * i)"
  then have "(of_nat (2 * i) :: u_int) = 0" by (metis add_cancel_right_right)
  moreover have "unat (of_nat n :: u_int) = n mod 65536" for n
    by (simp add: unat_of_nat take_bit_eq_mod)
  from this [of "2 * i"] have "unat (of_nat (2 * i) :: u_int) = 2 * i" using assms(2) by simp
  ultimately show False using assms(1) by simp
qed

lemma copy_roundtrip:
  assumes "mapped m a (length ws)" "length ws \<le> 32768"
  shows "fst (copyout_words m a ws) = NOERR \<and> copyin_words (snd (copyout_words m a ws)) a (length ws) = Some ws"
  using assms
proof (induction ws arbitrary: m a)
  case (Cons w ws)
  have m: "m a \<noteq> None" "mapped m (a + 2) (length ws)" using Cons.prems(1) by (simp_all add: mapped_Suc)
  define m' where "m' = m(a \<mapsto> w)"
  have "mapped m' (a + 2) (length ws)" using m(2) by (simp add: mapped_def m'_def)
  from Cons.IH [OF this] have IH: "fst (copyout_words m' (a + 2) ws) = NOERR"
    "copyin_words (snd (copyout_words m' (a + 2) ws)) (a + 2) (length ws) = Some ws"
    using Cons.prems(2) by simp_all
  have "snd (copyout_words m' (a + 2) ws) a = m' a"
  proof (rule copyout_other)
    fix i assume "i < length ws"
    then show "a \<noteq> a + 2 + of_nat (2 * i)"
      using stride_distinct [of "Suc i" a] Cons.prems(2) by (simp add: add.assoc)
  qed
  then have "snd (copyout_words m' (a + 2) ws) a = Some w" by (simp add: m'_def)
  then show ?case using m(1) IH by (simp add: m'_def)
qed simp

lemma copyin_append:
  "copyin_words m a (length xs + n) = Some (xs @ ys) \<Longrightarrow> length ys = n \<Longrightarrow>
   copyin_words m (a + of_nat (2 * length xs)) n = Some ys"
proof (induction xs arbitrary: a)
  case (Cons x xs)
  then have "copyin_words m (a + 2) (length xs + n) = Some (xs @ ys)"
    by (auto simp: bind_eq_Some_conv)
  then have "copyin_words m (a + 2 + of_nat (2 * length xs)) n = Some ys" using Cons by blast
  then show ?case by (simp add: add.assoc)
qed simp


end
