(* ===== verification/Sched.thy ===== *)
theory Sched imports Kern begin

text \<open>
  The scheduler of \<open>src/sys/sys/kern_synch.c\<close> and the process lists of
  \<open>src/sys/sys/kern_proc.c\<close>: the run queue \<open>qs\<close>, the sleep queues \<open>slpque\<close>, both threaded
  through \<open>p_link\<close>, wakeup, and the choice of the next process.
\<close>

section \<open>Process lists\<close>

text \<open>The processes on a list threaded through \<open>p_nxt\<close>, from the given head.\<close>

definition list_from :: "nat option \<Rightarrow> 'a kern_scheme \<Rightarrow> nat list option" where
  "list_from head k = walk (nproc k) (\<lambda>p. p_nxt (procs k p)) head"

text \<open>
  \<open>spgrp\<close>. The recursion follows the children of children; the first argument bounds its depth
  (a cycle of parents would exhaust the kernel stack). \<open>SIGTSTP\<close>, \<open>SIGTTIN\<close> and
  \<open>SIGTTOU\<close> are taken out of the pending signals.
\<close>

definition tty_stops :: sigset where
  "tty_stops = or (sigmask SIGTSTP) (or (sigmask SIGTTIN) (sigmask SIGTTOU))"

fun spgrp :: "nat \<Rightarrow> nat \<Rightarrow> 'a kern_scheme \<Rightarrow> 'a kern_scheme option" where
  "spgrp 0 tp k = None"
| "spgrp (Suc n) tp k =
     (let k1 = upd_proc tp (\<lambda>p. p\<lparr>p_sig := and (p_sig p) (not tty_stops),
                 p_flag := set_flag SDETACH (p_flag p)\<rparr>) k;
          visit = (\<lambda>p st. Option.bind st (\<lambda>s. if p_pptr (procs s p) = Some tp then spgrp n p s else Some s))
      in do {
        as \<leftarrow> list_from (allproc k1) k1;
        k2 \<leftarrow> fold visit as (Some k1);
        zs \<leftarrow> list_from (zombproc k2) k2;
        fold visit zs (Some k2)
      })"

text \<open>\<open>inferior\<close>: the chain of parents; \<open>None\<close> when it leaves the table or never ends.\<close>

partial_function (option) inferior :: "nat \<Rightarrow> 'a kern_scheme \<Rightarrow> bool option" where
  "inferior p k =
     (if p = u_procp (u k) then Some True
      else if p_ppid (procs k p) = 0 then Some False
      else case p_pptr (procs k p) of None \<Rightarrow> None | Some q \<Rightarrow> inferior q k)"

text \<open>\<open>PIDHASH\<close>, and \<open>pfind\<close>: the hash chain through \<open>p_idhash\<close>, ended by index 0.\<close>

definition PIDHASH :: "int \<Rightarrow> nat" where
  "PIDHASH pid = nat (pid mod 64)"

partial_function (option) pfind_from :: "int \<Rightarrow> nat \<Rightarrow> 'a kern_scheme \<Rightarrow> nat option option" where
  "pfind_from pid p k =
     (if p = 0 then Some None
      else if p_pid (procs k p) = pid then Some (Some p)
      else pfind_from pid (p_idhash (procs k p)) k)"

definition pfind :: "int \<Rightarrow> 'a kern_scheme \<Rightarrow> nat option option" where
  "pfind pid k = pfind_from pid (pidhash k ! PIDHASH pid) k"

text \<open>\<open>pqinit\<close>: the loop \<open>for (p = procNPROC; --p > proc; freeproc = p) p->p_nxt = freeproc\<close>,
  counting \<open>p\<close> down.\<close>

fun pqinit_loop :: "nat \<Rightarrow> 'a kern_scheme \<Rightarrow> 'a kern_scheme" where
  "pqinit_loop 0 k = k"
| "pqinit_loop (Suc p) k =
     (if p = 0 then k
      else pqinit_loop p ((upd_proc p (\<lambda>q. q\<lparr>p_nxt := freeproc k\<rparr>) k)\<lparr>freeproc := Some p\<rparr>))"

definition pqinit :: "'a kern_scheme \<Rightarrow> 'a kern_scheme" where
  "pqinit k =
     (let k1 = pqinit_loop (nproc k) (k\<lparr>freeproc := None\<rparr>);
          k2 = (upd_proc 0 (\<lambda>q. q\<lparr>p_nxt := None, p_prev := Some Allproc\<rparr>) k1)\<lparr>allproc := Some 0\<rparr>
      in k2\<lparr>zombproc := None\<rparr>)"

section \<open>Priorities\<close>

text \<open>\<open>setpri\<close>. The result of the C function is the new priority.\<close>

definition setpri :: "nat \<Rightarrow> 'a kern_scheme \<Rightarrow> int \<times> 'a kern_scheme" where
  "setpri pp k =
     (let p = uint (p_cpu (procs k pp)) div 16 + (PUSER + p_nice (procs k pp));
          p = (if p > 127 then 127 else p);
          k1 = (if p < curpri k then k\<lparr>runrun := runrun k + 1\<rparr> else k)
      in (p, upd_proc pp (\<lambda>q. q\<lparr>p_pri := p\<rparr>) k1))"

text \<open>
  \<open>SCHMAG * a\<close> with \<open>#define SCHMAG 8/10\<close> is \<open>8/10 * a\<close>, that is \<open>(8/10) * a\<close>: 0 times
  \<open>a\<close>. (\<open>a * SCHMAG\<close> in \<open>schedcpu\<close> is \<open>(a * 8) / 10\<close>.)
\<close>

definition SCHMAG_times :: "int \<Rightarrow> int" where
  "SCHMAG_times a = cdiv 8 10 * a"

text \<open>The loop \<open>while (a && --p->p_slptime) a = SCHMAG * a\<close> on \<open>a\<close> and \<open>p_slptime\<close>, whose type
  is char: it is stepped down from the given value until one of the two is 0.\<close>

definition char_dec :: "int \<Rightarrow> int" where
  "char_dec s = (if s = - 128 then 127 else s - 1)"

partial_function (option) updatepri_loop :: "int \<Rightarrow> int \<Rightarrow> (int \<times> int) option" where
  "updatepri_loop a s =
     (if a = 0 then Some (a, s)
      else let s1 = char_dec s in
        if s1 = 0 then Some (a, s1) else updatepri_loop (SCHMAG_times a) s1)"

definition updatepri :: "nat \<Rightarrow> 'a kern_scheme \<Rightarrow> 'a kern_scheme option" where
  "updatepri p k =
     (let a = uint (p_cpu (procs k p)); s = char_dec (p_slptime (procs k p)) in do {
        (a, s) \<leftarrow> updatepri_loop a s;
        let a = (if a < 0 then 0 else a);
        let a = (if a > 255 then 255 else a);
        Some (snd (setpri p (upd_proc p (\<lambda>q. q\<lparr>p_slptime := s, p_cpu := word_of_int a\<rparr>) k)))
      })"

section \<open>The run queue\<close>

definition setrq :: "nat \<Rightarrow> 'a kern_scheme \<Rightarrow> 'a kern_scheme" where
  "setrq p k = (upd_proc p (\<lambda>q. q\<lparr>p_link := qs k\<rparr>) k)\<lparr>qs := Some p\<rparr>"

text \<open>The search of \<open>remrq\<close> from the entry \<open>q\<close>; \<open>None\<close> is the panic (or an endless list).\<close>

partial_function (option) remrq_from :: "nat \<Rightarrow> nat option \<Rightarrow> 'a kern_scheme \<Rightarrow> 'a kern_scheme option" where
  "remrq_from p q k = (case q of None \<Rightarrow> None
     | Some x \<Rightarrow>
        (if p_link (procs k x) = Some p
         then Some (upd_proc x (\<lambda>r. r\<lparr>p_link := p_link (procs k p)\<rparr>) k)
         else remrq_from p (p_link (procs k x)) k))"

definition remrq :: "nat \<Rightarrow> 'a kern_scheme \<Rightarrow> 'a kern_scheme option" where
  "remrq p k =
     (if qs k = Some p then Some (k\<lparr>qs := p_link (procs k p)\<rparr>)
      else remrq_from p (qs k) k)"

section \<open>The sleep queues\<close>

text \<open>\<open>HASH(x)\<close> with \<open>SQSIZE\<close> 0100.\<close>

definition HASH :: "u_int \<Rightarrow> nat" where
  "HASH x = unat (and (drop_bit 5 x) 63)"

text \<open>
  A pointer to a link: the head of sleep queue \<open>h\<close>, or the \<open>p_link\<close> of a process.
\<close>

datatype lptr = Head nat | Link nat

fun deref :: "lptr \<Rightarrow> 'a kern_scheme \<Rightarrow> nat option" where
  "deref (Head h) k = slpque k h"
| "deref (Link q) k = p_link (procs k q)"

fun assign :: "lptr \<Rightarrow> nat option \<Rightarrow> 'a kern_scheme \<Rightarrow> 'a kern_scheme" where
  "assign (Head h) v k = k\<lparr>slpque := (slpque k)(h := v)\<rparr>"
| "assign (Link q) v k = upd_proc q (\<lambda>r. r\<lparr>p_link := v\<rparr>) k"

text \<open>The loop of \<open>unsleep\<close>: \<open>while (*hp != p) hp = &(*hp)->p_link\<close>.\<close>

partial_function (option) unsleep_from :: "nat \<Rightarrow> lptr \<Rightarrow> 'a kern_scheme \<Rightarrow> lptr option" where
  "unsleep_from p hp k = (case deref hp k of None \<Rightarrow> None
     | Some q \<Rightarrow> if q = p then Some hp else unsleep_from p (Link q) k)"

definition unsleep :: "nat \<Rightarrow> 'a kern_scheme \<Rightarrow> 'a kern_scheme option" where
  "unsleep p k =
     (if p_wchan (procs k p) = 0 then Some k
      else do {
        hp \<leftarrow> unsleep_from p (Head (HASH (p_wchan (procs k p)))) k;
        let k1 = assign hp (p_link (procs k p)) k;
        Some (upd_proc p (\<lambda>q. q\<lparr>p_wchan := 0\<rparr>) k1)
      })"

text \<open>
  The inline expansion of \<open>setrun\<close> in \<open>wakeup\<close>, up to the nested wakeup of the swapper, which
  the second component announces.
\<close>

definition wake_run :: "nat \<Rightarrow> 'a kern_scheme \<Rightarrow> ('a kern_scheme \<times> bool) option" where
  "wake_run p k = do {
     k1 \<leftarrow> (if p_slptime (procs k p) > 1 then updatepri p k else Some k);
     let k2 = upd_proc p (\<lambda>q. q\<lparr>p_slptime := 0, p_stat := SRUN\<rparr>) k1;
     let k3 = (if flag (p_flag (procs k2 p)) SLOAD then setrq p k2 else k2);
     let k4 = k3\<lparr>runrun := runrun k3 + 1\<rparr>;
     if \<not> flag (p_flag (procs k4 p)) SLOAD \<and> k_runout k4
     then Some (k4\<lparr>k_runout := False\<rparr>, True) else Some (k4, False)
   }"

text \<open>The loop of \<open>wakeup\<close> at the link \<open>q\<close> (\<open>restart\<close> is the queue's head again). The panic on
  a queued process that neither sleeps nor is stopped is \<open>None\<close>.\<close>

partial_function (option) wakeup_at :: "u_int \<Rightarrow> lptr \<Rightarrow> 'a kern_scheme \<Rightarrow> 'a kern_scheme option" where
  "wakeup_at chan q k = (case deref q k of None \<Rightarrow> Some k
     | Some p \<Rightarrow>
        (if p_stat (procs k p) \<noteq> SSLEEP \<and> p_stat (procs k p) \<noteq> SSTOP then None
         else if p_wchan (procs k p) = chan then
           (let k1 = assign q (p_link (procs k p)) (upd_proc p (\<lambda>r. r\<lparr>p_wchan := 0\<rparr>) k) in
            if p_stat (procs k p) = SSLEEP then
              Option.bind (wake_run p k1) (\<lambda>(k2, swapper).
                Option.bind (if swapper then wakeup_at (a_runout k2) (Head (HASH (a_runout k2))) k2
                             else Some k2)
                  (\<lambda>k3. wakeup_at chan (Head (HASH chan)) k3))
            else wakeup_at chan q (upd_proc p (\<lambda>r. r\<lparr>p_slptime := 0\<rparr>) k1))
         else wakeup_at chan (Link p) k))"

definition wakeup :: "u_int \<Rightarrow> 'a kern_scheme \<Rightarrow> 'a kern_scheme option" where
  "wakeup chan k = wakeup_at chan (Head (HASH chan)) k"

definition setrun :: "nat \<Rightarrow> 'a kern_scheme \<Rightarrow> 'a kern_scheme option" where
  "setrun p k = do {
     k1 \<leftarrow> (case p_stat (procs k p) of
             SSTOP \<Rightarrow> unsleep p k | SSLEEP \<Rightarrow> unsleep p k | SIDL \<Rightarrow> Some k | _ \<Rightarrow> None);
     k2 \<leftarrow> (if p_slptime (procs k1 p) > 1 then updatepri p k1 else Some k1);
     let k3 = upd_proc p (\<lambda>q. q\<lparr>p_stat := SRUN\<rparr>) k2;
     let k4 = (if flag (p_flag (procs k3 p)) SLOAD then setrq p k3 else k3);
     let k5 = (if p_pri (procs k4 p) < curpri k4 then k4\<lparr>runrun := runrun k4 + 1\<rparr> else k4);
     if \<not> flag (p_flag (procs k5 p)) SLOAD \<and> k_runout k5
     then wakeup (a_runout k5) (k5\<lparr>k_runout := False\<rparr>)
     else Some k5
   }"

section \<open>Choosing the next process\<close>

text \<open>
  The search loop of \<open>swtch\<close> over the run queue: the best process so far with its predecessor
  (\<open>pp\<close>, \<open>pq\<close>), its priority \<open>n\<close>, and the previous entry \<open>q\<close>.
\<close>

partial_function (option) swtch_search ::
  "nat option \<Rightarrow> nat option \<Rightarrow> nat option \<Rightarrow> nat option \<Rightarrow> int \<Rightarrow> 'a kern_scheme \<Rightarrow>
   (nat option \<times> nat option \<times> int) option" where
  "swtch_search p q pp pq n k = (case p of None \<Rightarrow> Some (pp, pq, n)
     | Some x \<Rightarrow>
        (if flag (p_flag (procs k x)) SLOAD \<and> p_pri (procs k x) < n
         then swtch_search (p_link (procs k x)) (Some x) (Some x) q (p_pri (procs k x)) k
         else swtch_search (p_link (procs k x)) (Some x) pp pq n k))"

text \<open>
  One turn of the code between the labels \<open>loop\<close> and the final \<open>longjmp\<close>: \<open>Inl\<close> is
  \<open>idle()\<close>, after which the code goes back to \<open>loop\<close>; \<open>Inr\<close> carries the process that is
  resumed and whether at its swap label (\<open>u_ssave\<close>).
\<close>

definition swtch_pick ::
  "'a kern_scheme \<Rightarrow> ('a kern_scheme + nat \<times> bool \<times> 'a kern_scheme) option" where
  "swtch_pick k =
     (let k1 = k\<lparr>noproc := False, runrun := 0\<rparr> in do {
        (pp, pq, n) \<leftarrow> swtch_search (qs k1) None None None 128 k1;
        case pp of None \<Rightarrow> Some (Inl k1)
        | Some p \<Rightarrow>
            (let lnk = p_link (procs k1 p);
                 k2 = (case pq of Some q \<Rightarrow> upd_proc q (\<lambda>r. r\<lparr>p_link := lnk\<rparr>) k1
                       | None \<Rightarrow> k1\<lparr>qs := lnk\<rparr>);
                 k3 = k2\<lparr>curpri := n\<rparr>;
                 sw = flag (p_flag (procs k3 p)) SSWAP
             in Some (Inr (p, sw, upd_proc p (\<lambda>r. r\<lparr>p_flag := clr_flag SSWAP (p_flag r)\<rparr>) k3)))
      })"

end
