(* ===== verification/SchedSpec.thy ===== *)
theory SchedSpec imports Sched begin

text \<open>
  The run queue and the sleep queues as lists: the invariant of \<open>p_link\<close>, and what unsleep,
  setrq, remrq, setrun and wakeup do to it.
\<close>

section \<open>The invariant of the queues\<close>

abbreviation lnk :: "'a kern_scheme \<Rightarrow> nat \<Rightarrow> nat option" where
  "lnk k \<equiv> \<lambda>p. p_link (procs k p)"

abbreviation wchan :: "'a kern_scheme \<Rightarrow> nat \<Rightarrow> u_int" where
  "wchan k p \<equiv> p_wchan (procs k p)"

abbreviation stat :: "'a kern_scheme \<Rightarrow> nat \<Rightarrow> pstat" where
  "stat k p \<equiv> p_stat (procs k p)"

abbreviation loaded :: "'a kern_scheme \<Rightarrow> nat \<Rightarrow> bool" where
  "loaded k p \<equiv> flag (p_flag (procs k p)) SLOAD"

text \<open>\<open>Q\<close> is the run queue, \<open>S h\<close> sleep queue \<open>h\<close>: a process is on the sleep queue of its
  channel exactly while it has one, and the run queue holds runnable processes in core.\<close>

definition queues :: "'a kern_scheme \<Rightarrow> nat list \<Rightarrow> (nat \<Rightarrow> nat list) \<Rightarrow> bool" where
  "queues k Q S \<longleftrightarrow> lpath (lnk k) (qs k) Q \<and> (\<forall>h. lpath (lnk k) (slpque k h) (S h)) \<and>
     (\<forall>h. set (S h) = {p. wchan k p \<noteq> 0 \<and> HASH (wchan k p) = h}) \<and>
     (\<forall>p \<in> set Q. wchan k p = 0 \<and> stat k p = SRUN \<and> loaded k p)"

definition sched_ok :: "'a kern_scheme \<Rightarrow> bool" where
  "sched_ok k \<longleftrightarrow> (\<exists>Q S. queues k Q S)"

text \<open>Whoever waits is asleep or stopped.\<close>

definition sleepers_ok :: "'a kern_scheme \<Rightarrow> bool" where
  "sleepers_ok k \<longleftrightarrow> (\<forall>p. wchan k p \<noteq> 0 \<longrightarrow> stat k p = SSLEEP \<or> stat k p = SSTOP)"

definition on_runq :: "'a kern_scheme \<Rightarrow> nat \<Rightarrow> bool" where
  "on_runq k p \<longleftrightarrow> (\<exists>Q. lpath (lnk k) (qs k) Q \<and> p \<in> set Q)"

lemma on_runq_queues: "queues k Q S \<Longrightarrow> on_runq k p \<longleftrightarrow> p \<in> set Q"
  unfolding on_runq_def queues_def using lpath_unique by blast

lemma HASH_less: "HASH x < 64"
proof -
  have "and (drop_bit 5 x) 63 \<le> 63" by (rule word_and_le1)
  then have "unat (and (drop_bit 5 x) 63) \<le> unat (63 :: u_int)" by (simp add: word_le_nat_alt)
  then show ?thesis by (simp add: HASH_def)
qed

text \<open>What the scheduler never touches: identity, flags, signals, nice values of every process, the
  table's lists and the user structure.\<close>

definition core_of :: "proc \<Rightarrow> _" where
  "core_of q = (p_nxt q, p_prev q, p_pptr q, p_flag q, p_uid q, p_pid q, p_ppid q, p_sig q, p_nice q,
     p_cursig q, p_idhash q, p_sigmask q, p_sigignore q, p_sigcatch q, p_pgrp q, p_realtimer q)"

definition same_core :: "'a kern_scheme \<Rightarrow> 'a kern_scheme \<Rightarrow> bool" where
  "same_core k k' \<longleftrightarrow> (\<forall>p. core_of (procs k' p) = core_of (procs k p)) \<and> u k' = u k \<and>
     nproc k' = nproc k \<and> allproc k' = allproc k \<and> zombproc k' = zombproc k \<and> pidhash k' = pidhash k \<and>
     umem k' = umem k \<and> curpri k' = curpri k \<and> a_runout k' = a_runout k \<and> a_proc k' = a_proc k \<and>
     a_lbolt k' = a_lbolt k \<and> a_runin k' = a_runin k \<and> k_runin k' = k_runin k \<and> a_u k' = a_u k"

lemma same_core_refl [simp]: "same_core k k"
  by (simp add: same_core_def)

lemma same_core_trans: "same_core k k' \<Longrightarrow> same_core k' k'' \<Longrightarrow> same_core k k''"
  by (simp add: same_core_def)

lemma same_core_flag: "same_core k k' \<Longrightarrow> p_flag (procs k' p) = p_flag (procs k p)"
  by (simp add: same_core_def core_of_def)

section \<open>Priorities\<close>

lemma updatepri_loop_total:
  "updatepri_loop a s = Some (if a = 0 then (a, s)
     else if char_dec s = 0 then (a, 0) else (0, char_dec s))"
  by (subst updatepri_loop.simps, simp, subst updatepri_loop.simps)
    (simp add: SCHMAG_times_def cdiv_def)

lemma setpri_fields:
  "\<exists>pri rr. snd (setpri p k) = (upd_proc p (\<lambda>q. q\<lparr>p_pri := pri\<rparr>) k)\<lparr>runrun := rr\<rparr>"
  by (rule exI [of _ "fst (setpri p k)"], rule exI [of _ "runrun (snd (setpri p k))"])
    (simp add: setpri_def Let_def upd_proc_def)

lemma updatepri_fields:
  "\<exists>k' cpu s pri rr. updatepri p k = Some k' \<and>
     k' = (upd_proc p (\<lambda>q. q\<lparr>p_slptime := s, p_cpu := cpu, p_pri := pri\<rparr>) k)\<lparr>runrun := rr\<rparr>"
proof -
  obtain a s where "updatepri_loop (uint (p_cpu (procs k p))) (char_dec (p_slptime (procs k p))) = Some (a, s)"
    by (metis updatepri_loop_total surj_pair)
  then obtain b where u: "updatepri p k =
      Some (snd (setpri p (upd_proc p (\<lambda>q. q\<lparr>p_slptime := s, p_cpu := b\<rparr>) k)))"
    by (simp add: updatepri_def Let_def)
  obtain pri rr where "snd (setpri p (upd_proc p (\<lambda>q. q\<lparr>p_slptime := s, p_cpu := b\<rparr>) k)) =
      (upd_proc p (\<lambda>q. q\<lparr>p_pri := pri\<rparr>) (upd_proc p (\<lambda>q. q\<lparr>p_slptime := s, p_cpu := b\<rparr>) k))\<lparr>runrun := rr\<rparr>"
    using setpri_fields by blast
  then show ?thesis using u
    by (intro exI [of _ "snd (setpri p (upd_proc p (\<lambda>q. q\<lparr>p_slptime := s, p_cpu := b\<rparr>) k))"]
        exI [of _ b] exI [of _ s] exI [of _ pri] exI [of _ rr]) (simp add: upd_proc_def)
qed

text \<open>States that agree on everything the queues are made of.\<close>

definition same_queues :: "'a kern_scheme \<Rightarrow> 'a kern_scheme \<Rightarrow> bool" where
  "same_queues k k' \<longleftrightarrow> (\<forall>p. lnk k' p = lnk k p \<and> wchan k' p = wchan k p \<and> stat k' p = stat k p) \<and>
     qs k' = qs k \<and> slpque k' = slpque k"

lemma same_queues_queues: "same_queues k k' \<Longrightarrow> same_core k k' \<Longrightarrow> queues k' Q S = queues k Q S"
  unfolding queues_def same_queues_def by (simp add: same_core_flag)

lemma queues_cong:
  assumes "queues k Q S" "\<And>x. lnk k' x = lnk k x" "\<And>x. wchan k' x = wchan k x" "qs k' = qs k"
    "slpque k' = slpque k" "\<And>x. x \<in> set Q \<Longrightarrow> stat k' x = stat k x \<and> loaded k' x = loaded k x"
  shows "queues k' Q S"
proof -
  have "lnk k' = lnk k" using assms(2) by blast
  then show ?thesis using assms unfolding queues_def by simp
qed

lemma updatepri_same:
  "\<exists>k'. updatepri p k = Some k' \<and> same_queues k k' \<and> same_core k k' \<and> k_runout k' = k_runout k"
  using updatepri_fields [of p k]
  by (auto simp: same_queues_def same_core_def core_of_def)

section \<open>Taking a process off its queue\<close>

text \<open>The link behind the processes \<open>pre\<close> of queue \<open>h\<close>.\<close>

definition link_at :: "nat \<Rightarrow> nat list \<Rightarrow> lptr" where
  "link_at h pre = (if pre = [] then Head h else Link (last pre))"

lemma deref_link_at:
  "lpath (lnk k) (slpque k h) (pre @ rest) \<Longrightarrow> deref (link_at h pre) k = (case rest of [] \<Rightarrow> None | p # _ \<Rightarrow> Some p)"
proof (cases pre rule: rev_cases)
  case Nil
  then show "lpath (lnk k) (slpque k h) (pre @ rest) \<Longrightarrow> ?thesis"
    by (cases rest) (auto simp: link_at_def)
next
  case (snoc xs y)
  assume l: "lpath (lnk k) (slpque k h) (pre @ rest)"
  then have "lpath (lnk k) (Some y) (y # rest)" using snoc lpath_append [of "lnk k" _ xs y rest] by simp
  then show ?thesis using snoc by (cases rest) (auto simp: link_at_def)
qed

definition unlinked :: "nat \<Rightarrow> nat \<Rightarrow> nat list \<Rightarrow> 'a kern_scheme \<Rightarrow> 'a kern_scheme" where
  "unlinked h p pre k = assign (link_at h pre) (p_link (procs k p)) (upd_proc p (\<lambda>r. r\<lparr>p_wchan := 0\<rparr>) k)"

lemma assign_fields [simp]:
  "procs (assign q v k) x = (if q = Link x then (procs k x)\<lparr>p_link := v\<rparr> else procs k x)"
  "qs (assign q v k) = qs k" "runrun (assign q v k) = runrun k"
  "k_runout (assign q v k) = k_runout k"
  by (cases q; simp)+

lemma assign_core [simp]: "same_core k (assign q v k)"
  by (cases q) (simp_all add: same_core_def core_of_def)

lemma unlink_queues:
  assumes "queues k Q S" "S h = pre @ p # rest"
  shows "queues (unlinked h p pre k) Q (S(h := pre @ rest))"
proof -
  let ?k = "unlinked h p pre k"
  have lp: "lpath (lnk k) (slpque k h) (pre @ p # rest)"
    using assms(1) unfolding queues_def assms(2) [symmetric] by blast
  have d: "distinct (pre @ p # rest)" using lpath_distinct [OF lp] .
  have mem: "x \<in> set (S h) \<longleftrightarrow> wchan k x \<noteq> 0 \<and> HASH (wchan k x) = h" for x
    using assms(1) by (auto simp: queues_def)
  have p: "wchan k p \<noteq> 0" "HASH (wchan k p) = h" using mem [of p] assms(2) by simp_all
  have pre: "wchan k x \<noteq> 0 \<and> HASH (wchan k x) = h" if "x \<in> set pre" for x
    using mem [of x] assms(2) that by simp
  have ln: "lnk ?k x = (if link_at h pre = Link x then p_link (procs k p) else lnk k x)" for x
    by (simp add: unlinked_def)
  have same_lnk: "lnk ?k x = lnk k x" if "x \<notin> set pre" for x
    using ln [of x] that by (auto simp: link_at_def split: if_splits)
  have wc: "wchan ?k x = (if x = p then 0 else wchan k x)" for x by (simp add: unlinked_def)
  have st: "stat ?k x = stat k x" "loaded ?k x = loaded k x" for x by (simp_all add: unlinked_def)
  have Q: "lpath (lnk ?k) (qs ?k) Q"
  proof -
    have "lnk ?k x = lnk k x" if "x \<in> set Q" for x
      using that assms(1) pre by (intro same_lnk) (auto simp: queues_def)
    then have "lpath (lnk ?k) (qs k) Q = lpath (lnk k) (qs k) Q" by (rule lpath_cong)
    then show ?thesis using assms(1) by (simp add: queues_def unlinked_def)
  qed
  have here: "lpath (lnk ?k) (slpque ?k h) (pre @ rest)"
  proof (cases pre rule: rev_cases)
    case Nil
    then have "lpath (lnk ?k) (p_link (procs k p)) rest = lpath (lnk k) (p_link (procs k p)) rest"
      by (intro lpath_cong same_lnk) (simp add: Nil)
    moreover have "lpath (lnk k) (p_link (procs k p)) rest" using lp Nil by simp
    ultimately show ?thesis using Nil by (simp add: unlinked_def link_at_def)
  next
    case (snoc xs y)
    have "lpath (lnk k) (slpque k h) (xs @ y # p # rest)" using lp snoc by simp
    then have "lpath ((lnk k)(y := lnk k p)) (slpque k h) (xs @ y # rest)" by (rule lpath_unlink)
    moreover have "(lnk k)(y := lnk k p) = lnk ?k"
    proof
      fix x show "((lnk k)(y := lnk k p)) x = lnk ?k x" unfolding ln [of x] by (simp add: snoc link_at_def)
    qed
    moreover have "slpque ?k h = slpque k h" using snoc by (simp add: unlinked_def link_at_def)
    ultimately show ?thesis using snoc by simp
  qed
  have others: "lpath (lnk ?k) (slpque ?k g) (S g)" if "g \<noteq> h" for g
  proof -
    have "lnk ?k x = lnk k x" if x: "x \<in> set (S g)" for x
    proof (rule same_lnk)
      have "HASH (wchan k x) = g" using x assms(1) by (auto simp: queues_def)
      then show "x \<notin> set pre" using pre [of x] \<open>g \<noteq> h\<close> by auto
    qed
    then have "lpath (lnk ?k) (slpque k g) (S g) = lpath (lnk k) (slpque k g) (S g)" by (rule lpath_cong)
    moreover have "slpque ?k g = slpque k g" using that by (auto simp: unlinked_def link_at_def)
    ultimately show ?thesis using assms(1) by (simp add: queues_def)
  qed
  have sets: "set ((S(h := pre @ rest)) g) = {x. wchan ?k x \<noteq> 0 \<and> HASH (wchan ?k x) = g}" for g
  proof -
    have "set (S g) = {x. wchan k x \<noteq> 0 \<and> HASH (wchan k x) = g}" using assms(1) by (simp add: queues_def)
    then show ?thesis using d assms(2) p by (cases "g = h") (auto simp: wc set_eq_iff)
  qed
  have "\<forall>x \<in> set Q. wchan ?k x = 0 \<and> stat ?k x = SRUN \<and> loaded ?k x"
    using assms(1) by (auto simp: queues_def wc st)
  then show ?thesis using Q here others sets unfolding queues_def by simp
qed

lemma unlinked_fields:
  "wchan (unlinked h p pre k) x = (if x = p then 0 else wchan k x)"
  "stat (unlinked h p pre k) x = stat k x"
  "qs (unlinked h p pre k) = qs k" "k_runout (unlinked h p pre k) = k_runout k"
  by (simp_all add: unlinked_def)

lemma unlinked_core: "same_core k (unlinked h p pre k)"
  unfolding unlinked_def
  by (rule same_core_trans [OF _ assign_core]) (simp add: same_core_def core_of_def)

section \<open>The run queue\<close>

lemma setrq_queues:
  assumes "queues k Q S" "wchan k p = 0" "stat k p = SRUN" "loaded k p" "p \<notin> set Q"
  shows "queues (setrq p k) (p # Q) S"
proof -
  have "p \<notin> set (S h)" for h using assms(1,2) by (auto simp: queues_def)
  then have "lpath (lnk (setrq p k)) (slpque k h) (S h) = lpath (lnk k) (slpque k h) (S h)" for h
    by (intro lpath_cong) (auto simp: setrq_def)
  moreover have "lpath (lnk (setrq p k)) (qs k) Q = lpath (lnk k) (qs k) Q"
    using assms(5) by (intro lpath_cong) (auto simp: setrq_def)
  ultimately show ?thesis using assms by (auto simp: queues_def setrq_def)
qed

lemma setrq_core: "same_core k (setrq p k)"
  by (simp add: setrq_def same_core_def core_of_def)

lemma setrq_fields [simp]:
  "wchan (setrq p k) x = wchan k x" "stat (setrq p k) x = stat k x"
  "k_runout (setrq p k) = k_runout k" "runrun (setrq p k) = runrun k"
  "slpque (setrq p k) = slpque k"
  by (simp_all add: setrq_def)

section \<open>wakeup\<close>

definition waiters :: "'a kern_scheme \<Rightarrow> nat set" where
  "waiters k = {p. wchan k p \<noteq> 0}"

lemma finite_waiters: "queues k Q S \<Longrightarrow> finite (waiters k)"
proof -
  assume q: "queues k Q S"
  have "waiters k \<subseteq> (\<Union>h<64. set (S h))"
    using q HASH_less by (fastforce simp: waiters_def queues_def)
  then show ?thesis by (rule finite_subset) simp
qed

text \<open>Some processes that waited for a channel in \<open>C\<close> were woken: their wait is over, and those
  that slept became runnable, on the run queue if they are in core. Everyone else is as before.\<close>

definition woke :: "u_int set \<Rightarrow> 'a kern_scheme \<Rightarrow> 'a kern_scheme \<Rightarrow> bool" where
  "woke C k k' \<longleftrightarrow> same_core k k' \<and>
     (\<forall>p. (wchan k' p = wchan k p \<and> stat k' p = stat k p \<and> (on_runq k' p \<longleftrightarrow> on_runq k p)) \<or>
        (wchan k p \<in> C \<and> wchan k p \<noteq> 0 \<and> wchan k' p = 0 \<and>
         stat k' p = (if stat k p = SSLEEP then SRUN else stat k p) \<and>
         (on_runq k' p \<longleftrightarrow> stat k p = SSLEEP \<and> loaded k p)))"

lemma woke_refl [simp]: "woke C k k"
  by (simp add: woke_def)

lemma woke_trans:
  assumes "woke C k k'" "woke C k' k''"
  shows "woke C k k''"
  unfolding woke_def
proof (intro conjI allI)
  have c: "same_core k k'" "same_core k' k''" using assms by (simp_all add: woke_def)
  then show "same_core k k''" by (rule same_core_trans)
  fix p
  let ?unchanged = "\<lambda>k k'. wchan k' p = wchan k p \<and> stat k' p = stat k p \<and> (on_runq k' p \<longleftrightarrow> on_runq k p)"
  let ?woken = "\<lambda>k k'. wchan k p \<in> C \<and> wchan k p \<noteq> 0 \<and> wchan k' p = 0 \<and>
         stat k' p = (if stat k p = SSLEEP then SRUN else stat k p) \<and>
         (on_runq k' p \<longleftrightarrow> stat k p = SSLEEP \<and> loaded k p)"
  have "?unchanged k k' \<or> ?woken k k'" "?unchanged k' k'' \<or> ?woken k' k''"
    using assms by (simp_all add: woke_def)
  moreover have "loaded k' p = loaded k p" using same_core_flag [OF c(1)] by simp
  ultimately show "?unchanged k k'' \<or> ?woken k k''" by auto
qed

lemma woke_mono: "woke C k k' \<Longrightarrow> C \<subseteq> D \<Longrightarrow> woke D k k'"
  unfolding woke_def by blast

lemma wake_run_ok:
  assumes q: "queues k Q S" and w: "wchan k p = 0" "stat k p = SSLEEP"
  obtains k' sw where "wake_run p k = Some (k', sw)" "queues k' (if loaded k p then p # Q else Q) S"
    "same_core k k'" "\<And>x. wchan k' x = wchan k x" "\<And>x. stat k' x = (if x = p then SRUN else stat k x)"
    "sw \<Longrightarrow> k_runout k" "k_runout k' \<Longrightarrow> k_runout k"
proof -
  obtain k1 where k1: "(if p_slptime (procs k p) > 1 then updatepri p k else Some k) = Some k1"
    "same_queues k k1" "same_core k k1" "k_runout k1 = k_runout k"
  proof (cases "p_slptime (procs k p) > 1")
    case True
    obtain k1 where "updatepri p k = Some k1" "same_queues k k1" "same_core k k1" "k_runout k1 = k_runout k"
      using updatepri_same [of p k] by blast
    then show thesis using that True by simp
  next
    case False
    then show thesis using that [of k] by (simp add: same_queues_def)
  qed
  let ?k2 = "upd_proc p (\<lambda>q. q\<lparr>p_slptime := 0, p_stat := SRUN\<rparr>) k1"
  have q1: "queues k1 Q S" using same_queues_queues [OF k1(2,3)] q by simp
  have pQ: "p \<notin> set Q" using q w(2) by (auto simp: queues_def)
  have q2: "queues ?k2 Q S" by (rule queues_cong [OF q1]) (use pQ in auto)
  have c2: "same_core k1 ?k2" by (simp add: same_core_def core_of_def)
  have ld: "loaded ?k2 p = loaded k p" using same_core_flag [OF same_core_trans [OF k1(3) c2], of p] by simp
  define k3 where "k3 = (if loaded k p then setrq p ?k2 else ?k2)"
  have q3: "queues k3 (if loaded k p then p # Q else Q) S"
  proof (cases "loaded k p")
    case True
    have "wchan ?k2 p = 0" using k1(2) w(1) by (simp add: same_queues_def)
    moreover have "stat ?k2 p = SRUN" by simp
    ultimately show ?thesis using setrq_queues [OF q2 _ _ _ pQ] True ld by (simp add: k3_def)
  qed (use q2 in \<open>simp add: k3_def\<close>)
  have c3: "same_core k k3"
    using same_core_trans [OF k1(3) same_core_trans [OF c2 setrq_core]] same_core_trans [OF k1(3) c2]
    by (simp add: k3_def)
  have st: "wchan k3 x = wchan k x" "stat k3 x = (if x = p then SRUN else stat k x)" for x
    using k1(2) by (auto simp: same_queues_def k3_def)
  have ro: "k_runout k3 = k_runout k" using k1(4) by (simp add: k3_def)
  have l3: "flag (p_flag (procs k3 p)) SLOAD = loaded k p" using same_core_flag [OF c3, of p] by simp
  define k5 where "k5 = (if \<not> loaded k p \<and> k_runout k
     then k3\<lparr>runrun := runrun k3 + 1, k_runout := False\<rparr> else k3\<lparr>runrun := runrun k3 + 1\<rparr>)"
  have k5: "procs k5 = procs k3" "qs k5 = qs k3" "slpque k5 = slpque k3" "same_core k3 k5"
    by (simp_all add: k5_def same_core_def)
  have r: "wake_run p k = Some (k5, \<not> loaded k p \<and> k_runout k)"
    unfolding wake_run_def k1(1) Option.bind.bind_lunit Let_def ld k3_def [symmetric]
    using l3 ro by (simp add: k5_def)
  show thesis
  proof (rule that [OF r])
    show "queues k5 (if loaded k p then p # Q else Q) S"
      by (rule queues_cong [OF q3]) (simp_all add: k5)
    show "same_core k k5" using same_core_trans [OF c3 k5(4)] .
    show "\<And>x. wchan k5 x = wchan k x" "\<And>x. stat k5 x = (if x = p then SRUN else stat k x)"
      using st k5(1) by simp_all
    show "k_runout k5 \<Longrightarrow> k_runout k" using ro by (simp add: k5_def split: if_splits)
  qed simp
qed

lemma wakeup_at_ok:
  assumes "queues k Q S" "sleepers_ok k" "S (HASH chan) = pre @ rest" "\<forall>x \<in> set pre. wchan k x \<noteq> chan"
    and "chan \<noteq> 0" "a_runout k \<noteq> 0" "chan \<in> C" "k_runout k \<longrightarrow> a_runout k \<in> C"
  shows "\<exists>k' Q' S'. wakeup_at chan (link_at (HASH chan) pre) k = Some k' \<and> queues k' Q' S' \<and>
    sleepers_ok k' \<and> woke C k k' \<and> (\<forall>p. wchan k' p \<noteq> chan) \<and> (k_runout k' \<longrightarrow> k_runout k)"
  using assms
proof (induction "(card (waiters k), length rest)" arbitrary: k Q S chan pre rest
    rule: wf_induct_rule [OF wf_lex_prod [OF wf_less_than wf_less_than]])
  case (1 k rest Q S chan pre)
  let ?h = "HASH chan"
  note IH = "1.hyps"
  have lp: "lpath (lnk k) (slpque k ?h) (pre @ rest)"
    using "1.prems"(1) unfolding queues_def "1.prems"(3) [symmetric] by blast
  have mem: "x \<in> set (pre @ rest) \<longleftrightarrow> wchan k x \<noteq> 0 \<and> HASH (wchan k x) = ?h" for x
    using "1.prems"(1) unfolding queues_def "1.prems"(3) [symmetric] by blast
  note deref = deref_link_at [OF lp]
  note unfold = wakeup_at.simps [of chan "link_at ?h pre" k]
  show ?case
  proof (cases rest)
    case Nil
    have "wakeup_at chan (link_at ?h pre) k = Some k" unfolding unfold deref Nil by simp
    moreover have "wchan k p \<noteq> chan" for p
      using mem [of p] "1.prems"(4,5) Nil by auto
    ultimately show ?thesis using "1.prems"(1,2) by (intro exI [of _ k] exI [of _ Q] exI [of _ S]) simp
  next
    case (Cons p rest')
    have wp: "wchan k p \<noteq> 0" using mem [of p] Cons by simp
    then have stp: "stat k p = SSLEEP \<or> stat k p = SSTOP" using "1.prems"(2) by (simp add: sleepers_ok_def)
    show ?thesis
    proof (cases "wchan k p = chan")
      case False
      have link: "link_at ?h (pre @ [p]) = Link p" by (simp add: link_at_def)
      have eq: "wakeup_at chan (link_at ?h pre) k = wakeup_at chan (link_at ?h (pre @ [p])) k"
        unfolding unfold deref Cons link using stp False by auto
      have "\<exists>k' Q' S'. wakeup_at chan (link_at ?h (pre @ [p])) k = Some k' \<and> queues k' Q' S' \<and>
          sleepers_ok k' \<and> woke C k k' \<and> (\<forall>p. wchan k' p \<noteq> chan) \<and> (k_runout k' \<longrightarrow> k_runout k)"
        by (rule IH [of k rest' Q S]) (use "1.prems" Cons False in auto)
      then show ?thesis unfolding eq .
    next
      case True
      have Sh: "S ?h = pre @ p # rest'" using "1.prems"(3) Cons by simp
      define k1 where "k1 = unlinked ?h p pre k"
      have q1: "queues k1 Q (S(?h := pre @ rest'))"
        unfolding k1_def by (rule unlink_queues [OF "1.prems"(1) Sh])
      have f1: "wchan k1 x = (if x = p then 0 else wchan k x)" "stat k1 x = stat k x" for x
        by (simp_all add: k1_def unlinked_fields)
      have c1: "same_core k k1" unfolding k1_def by (rule unlinked_core)
      have ro1: "k_runout k1 = k_runout k" by (simp add: k1_def unlinked_fields)
      have w1: "waiters k1 = waiters k - {p}" using f1 by (auto simp: waiters_def)
      have less: "card (waiters k1) < card (waiters k)"
        unfolding w1 using finite_waiters [OF "1.prems"(1)] wp
        by (intro card_Diff1_less) (auto simp: waiters_def)
      have pQ: "p \<notin> set Q" using "1.prems"(1) wp by (auto simp: queues_def)
      have runq0: "on_runq k x \<longleftrightarrow> x \<in> set Q" "on_runq k1 x \<longleftrightarrow> x \<in> set Q" for x
        using on_runq_queues [OF "1.prems"(1)] on_runq_queues [OF q1] by simp_all
      have assign: "assign (link_at ?h pre) (p_link (procs k p)) (upd_proc p (\<lambda>r. r\<lparr>p_wchan := 0\<rparr>) k) = k1"
        by (simp add: k1_def unlinked_def)
      show ?thesis
      proof (cases "stat k p = SSLEEP")
        case False
        then have stop: "stat k p = SSTOP" using stp by simp
        let ?k2 = "upd_proc p (\<lambda>r. r\<lparr>p_slptime := 0\<rparr>) k1"
        have eq: "wakeup_at chan (link_at ?h pre) k = wakeup_at chan (link_at ?h pre) ?k2"
          unfolding unfold deref Cons using stop True by (simp add: Let_def assign)
        have sq: "same_queues k1 ?k2" and c2: "same_core k1 ?k2"
          by (simp_all add: same_queues_def same_core_def core_of_def)
        have q2: "queues ?k2 Q (S(?h := pre @ rest'))" using same_queues_queues [OF sq c2] q1 by simp
        have s2: "sleepers_ok ?k2" using "1.prems"(2) f1 by (auto simp: sleepers_ok_def)
        have runq2: "on_runq ?k2 x \<longleftrightarrow> x \<in> set Q" for x using on_runq_queues [OF q2] by simp
        have wk: "woke C k ?k2"
          unfolding woke_def using same_core_trans [OF c1 c2] f1 runq0 runq2 pQ stop True "1.prems"(5,7)
          by (auto simp: wp)
        have "\<exists>k' Q' S'. wakeup_at chan (link_at ?h pre) ?k2 = Some k' \<and> queues k' Q' S' \<and>
            sleepers_ok k' \<and> woke C ?k2 k' \<and> (\<forall>p. wchan k' p \<noteq> chan) \<and> (k_runout k' \<longrightarrow> k_runout ?k2)"
        proof (rule IH [of ?k2 rest' Q "S(?h := pre @ rest')"])
          have "waiters ?k2 = waiters k1" by (auto simp: waiters_def)
          then show "((card (waiters ?k2), length rest'), card (waiters k), length rest) \<in> less_than <*lex*> less_than"
            using less by simp
          show "a_runout ?k2 \<noteq> 0" "k_runout ?k2 \<longrightarrow> a_runout ?k2 \<in> C"
            using "1.prems"(6,8) same_core_trans [OF c1 c2] ro1 by (simp_all add: same_core_def)
          show "\<forall>x\<in>set pre. wchan ?k2 x \<noteq> chan" using "1.prems"(4,5) f1 by auto
        qed (use q2 s2 "1.prems" in auto)
        then show ?thesis unfolding eq using woke_trans [OF wk] ro1 by auto
      next
        case sleep: True
        have st1: "stat k1 p = SSLEEP" "wchan k1 p = 0" using f1 sleep by simp_all
        obtain k2 sw where r: "wake_run p k1 = Some (k2, sw)"
          and q2: "queues k2 (if loaded k1 p then p # Q else Q) (S(?h := pre @ rest'))"
          and c2: "same_core k1 k2" and f2: "\<And>x. wchan k2 x = wchan k1 x"
            "\<And>x. stat k2 x = (if x = p then SRUN else stat k1 x)"
          and sw: "sw \<Longrightarrow> k_runout k1" "k_runout k2 \<Longrightarrow> k_runout k1"
          using wake_run_ok [OF q1 st1(2,1)] by metis
        have s2: "sleepers_ok k2" using "1.prems"(2) f1 f2 by (auto simp: sleepers_ok_def)
        have ld: "loaded k1 p = loaded k p" using same_core_flag [OF c1] by simp
        have runq2: "on_runq k2 x \<longleftrightarrow> x \<in> set (if loaded k p then p # Q else Q)" for x
          using on_runq_queues [OF q2] ld by simp
        have wk2: "woke C k k2"
          unfolding woke_def
          using same_core_trans [OF c1 c2] f1 f2 runq0 runq2 pQ sleep True "1.prems"(5,7) by (auto simp: wp)
        have w2: "waiters k2 = waiters k1" using f2 by (auto simp: waiters_def)
        have cc: "a_runout k2 = a_runout k" using same_core_trans [OF c1 c2] by (simp add: same_core_def)
        have inC: "k_runout k2 \<longrightarrow> a_runout k2 \<in> C" using "1.prems"(8) cc sw(2) ro1 by simp
        have "\<exists>k3 Q3 S3. (if sw then wakeup_at (a_runout k2) (Head (HASH (a_runout k2))) k2 else Some k2) = Some k3 \<and>
            queues k3 Q3 S3 \<and> sleepers_ok k3 \<and> woke C k2 k3 \<and> (k_runout k3 \<longrightarrow> k_runout k2)"
        proof (cases sw)
          case False
          then show ?thesis using q2 s2 by auto
        next
          case sT: True
          have "\<exists>k' Q' S'. wakeup_at (a_runout k2) (link_at (HASH (a_runout k2)) []) k2 = Some k' \<and>
              queues k' Q' S' \<and> sleepers_ok k' \<and> woke C k2 k' \<and> (\<forall>p. wchan k' p \<noteq> a_runout k2) \<and>
              (k_runout k' \<longrightarrow> k_runout k2)"
          proof (rule IH [of k2 "(S(?h := pre @ rest')) (HASH (a_runout k2))" "if loaded k1 p then p # Q else Q"
                "S(?h := pre @ rest')"])
            show "((card (waiters k2), length ((S(?h := pre @ rest')) (HASH (a_runout k2)))),
                card (waiters k), length rest) \<in> less_than <*lex*> less_than" using less w2 by simp
            show "a_runout k2 \<in> C" using "1.prems"(8) sw(1) sT ro1 cc by simp
          qed (use q2 s2 inC cc "1.prems" in auto)
          then show ?thesis using sT by (auto simp: link_at_def)
        qed
        then obtain k3 Q3 S3 where k3: "(if sw then wakeup_at (a_runout k2) (Head (HASH (a_runout k2))) k2
              else Some k2) = Some k3" "queues k3 Q3 S3" "sleepers_ok k3" "woke C k2 k3"
            "k_runout k3 \<longrightarrow> k_runout k2" by blast
        have head: "Head ?h = link_at ?h []" by (simp add: link_at_def)
        have eq: "wakeup_at chan (link_at ?h pre) k = wakeup_at chan (link_at ?h []) k3"
          unfolding unfold deref Cons using sleep True
          by (simp add: Let_def assign r k3(1) head [symmetric])
        have sub: "waiters k3 \<subseteq> waiters k2" using k3(4) unfolding waiters_def woke_def by (metis (mono_tags, lifting) mem_Collect_eq subsetI)
        have less3: "card (waiters k3) < card (waiters k)"
          using card_mono [OF finite_waiters [OF q2] sub] less w2 by simp
        have cc3: "a_runout k3 = a_runout k2" using k3(4) by (simp add: woke_def same_core_def)
        have "\<exists>k' Q' S'. wakeup_at chan (link_at ?h []) k3 = Some k' \<and> queues k' Q' S' \<and>
            sleepers_ok k' \<and> woke C k3 k' \<and> (\<forall>p. wchan k' p \<noteq> chan) \<and> (k_runout k' \<longrightarrow> k_runout k3)"
          by (rule IH [of k3 "S3 ?h" Q3 S3]) (use less3 k3 cc cc3 inC "1.prems" in auto)
        then obtain k' Q' S' where k': "wakeup_at chan (link_at ?h []) k3 = Some k'" "queues k' Q' S'"
          "sleepers_ok k'" "woke C k3 k'" "\<forall>p. wchan k' p \<noteq> chan" "k_runout k' \<longrightarrow> k_runout k3" by blast
        have "woke C k k'" using woke_trans [OF wk2 woke_trans [OF k3(4) k'(4)]] .
        moreover have "k_runout k' \<longrightarrow> k_runout k" using k'(6) k3(5) sw(2) ro1 by simp
        ultimately show ?thesis unfolding eq using k' by blast
      qed
    qed
  qed
qed

lemma wakeup_ok:
  assumes "sched_ok k" "sleepers_ok k" "chan \<noteq> 0" "a_runout k \<noteq> 0"
  obtains k' where "wakeup chan k = Some k'" "sched_ok k'" "sleepers_ok k'" "\<And>p. wchan k' p \<noteq> chan"
    "woke (if k_runout k then {chan, a_runout k} else {chan}) k k'" "k_runout k' \<Longrightarrow> k_runout k"
proof -
  obtain Q S where q: "queues k Q S" using assms(1) by (auto simp: sched_ok_def)
  have "\<exists>k' Q' S'. wakeup_at chan (link_at (HASH chan) []) k = Some k' \<and> queues k' Q' S' \<and> sleepers_ok k' \<and>
    woke (if k_runout k then {chan, a_runout k} else {chan}) k k' \<and> (\<forall>p. wchan k' p \<noteq> chan) \<and>
    (k_runout k' \<longrightarrow> k_runout k)"
    by (rule wakeup_at_ok [OF q assms(2), where rest = "S (HASH chan)"]) (use assms in auto)
  then show thesis using that by (auto simp: wakeup_def link_at_def sched_ok_def)
qed

end
