(* ===== verification/SchedProps.thy ===== *)
theory SchedProps imports SchedSpec begin

text \<open>
  The remaining scheduler operations on queues in order, and the properties of
  \<open>src/sys/sys/kern_synch.c\<close> and \<open>src/sys/sys/kern_proc.c\<close>.
\<close>

section \<open>unsleep and setrun\<close>

lemma unsleep_from_finds:
  "lpath (lnk k) (slpque k h) (pre @ rest) \<Longrightarrow> rest = mid @ p # post \<Longrightarrow> p \<notin> set mid \<Longrightarrow>
   unsleep_from p (link_at h pre) k = Some (link_at h (pre @ mid))"
proof (induction mid arbitrary: pre rest)
  case Nil
  then show ?case using deref_link_at [OF Nil.prems(1)] by (subst unsleep_from.simps) simp
next
  case (Cons x mid)
  have l: "lpath (lnk k) (slpque k h) ((pre @ [x]) @ mid @ p # post)" using Cons.prems by simp
  have "link_at h (pre @ [x]) = Link x" by (simp add: link_at_def)
  then have "unsleep_from p (link_at h pre) k = unsleep_from p (link_at h (pre @ [x])) k"
    using deref_link_at [OF Cons.prems(1)] Cons.prems(2,3) by (subst unsleep_from.simps) simp
  then show ?case using Cons.IH [OF l refl] Cons.prems(3) by simp
qed

lemma unsleep_queues:
  assumes "queues k Q S"
  obtains k' S' where "unsleep p k = Some k'" "queues k' Q S'" "same_core k k'"
    "\<And>x. wchan k' x = (if x = p then 0 else wchan k x)" "\<And>x. stat k' x = stat k x"
    "k_runout k' = k_runout k"
proof (cases "wchan k p = 0")
  case True
  then show thesis using that [of k S] assms by (auto simp: unsleep_def)
next
  case False
  let ?h = "HASH (wchan k p)"
  have "p \<in> set (S ?h)" using assms False by (auto simp: queues_def)
  then obtain pre rest where S: "S ?h = pre @ p # rest" "p \<notin> set pre" by (meson split_list_first)
  have lp: "lpath (lnk k) (slpque k ?h) ([] @ pre @ p # rest)"
    using assms unfolding queues_def append_Nil S(1) [symmetric] by blast
  have "unsleep_from p (link_at ?h []) k = Some (link_at ?h pre)"
    using unsleep_from_finds [OF lp refl S(2)] by simp
  then have "unsleep_from p (Head ?h) k = Some (link_at ?h pre)" by (simp add: link_at_def)
  then have r: "unsleep p k =
      Some (upd_proc p (\<lambda>q. q\<lparr>p_wchan := 0\<rparr>) (assign (link_at ?h pre) (p_link (procs k p)) k))"
    using False by (simp add: unsleep_def)
  let ?k = "upd_proc p (\<lambda>q. q\<lparr>p_wchan := 0\<rparr>) (assign (link_at ?h pre) (p_link (procs k p)) k)"
  have "queues (unlinked ?h p pre k) Q (S(?h := pre @ rest))" by (rule unlink_queues [OF assms S(1)])
  then have "queues ?k Q (S(?h := pre @ rest))"
    by (rule queues_cong; cases "link_at ?h pre") (simp_all add: unlinked_def)
  moreover have "same_core k ?k"
    by (rule same_core_trans [OF assign_core [of k "link_at ?h pre" "p_link (procs k p)"]])
      (simp add: same_core_def core_of_def)
  ultimately show thesis using that [OF r] by simp
qed

text \<open>The processes other than \<open>p\<close> after a call that made \<open>p\<close> runnable: as before, or woken
  because they waited for the swapper's channel.\<close>

definition others_kept :: "nat \<Rightarrow> 'a kern_scheme \<Rightarrow> 'a kern_scheme \<Rightarrow> bool" where
  "others_kept p k k' \<longleftrightarrow> (\<forall>x. x \<noteq> p \<longrightarrow>
     (wchan k' x = wchan k x \<and> stat k' x = stat k x \<and> (on_runq k' x \<longleftrightarrow> on_runq k x)) \<or>
     (k_runout k \<and> wchan k x = a_runout k \<and> wchan k' x = 0 \<and>
      stat k' x = (if stat k x = SSLEEP then SRUN else stat k x)))"

lemma setrun_ok:
  assumes "sched_ok k" "sleepers_ok k" "a_runout k \<noteq> 0"
    and "stat k p \<in> {SSLEEP, SSTOP, SIDL}" "stat k p = SIDL \<longrightarrow> wchan k p = 0"
  obtains k' where "setrun p k = Some k'" "sched_ok k'" "sleepers_ok k'" "same_core k k'"
    "stat k' p = SRUN" "wchan k' p = 0" "on_runq k' p \<longleftrightarrow> loaded k p" "others_kept p k k'"
    "k_runout k' \<longrightarrow> k_runout k"
proof -
  obtain Q S where q: "queues k Q S" using assms(1) by (auto simp: sched_ok_def)
  obtain k1 S1 where u: "unsleep p k = Some k1" "queues k1 Q S1" "same_core k k1"
    "\<And>x. wchan k1 x = (if x = p then 0 else wchan k x)" "\<And>x. stat k1 x = stat k x"
    "k_runout k1 = k_runout k" using unsleep_queues [OF q, of p] by metis
  have "stat k p = SIDL \<Longrightarrow> unsleep p k = Some k" using assms(5) by (simp add: unsleep_def)
  then have first: "(case stat k p of SSTOP \<Rightarrow> unsleep p k | SSLEEP \<Rightarrow> unsleep p k | SIDL \<Rightarrow> Some k
      | _ \<Rightarrow> None) = Some k1" using assms(4) u(1) by auto
  obtain k2 where k2: "(if p_slptime (procs k1 p) > 1 then updatepri p k1 else Some k1) = Some k2"
    "same_queues k1 k2" "same_core k1 k2" "k_runout k2 = k_runout k1"
  proof (cases "p_slptime (procs k1 p) > 1")
    case True
    obtain k2 where "updatepri p k1 = Some k2" "same_queues k1 k2" "same_core k1 k2" "k_runout k2 = k_runout k1"
      using updatepri_same [of p k1] by blast
    then show thesis using that True by simp
  next
    case False
    then show thesis using that [of k1] by (simp add: same_queues_def)
  qed
  have q2: "queues k2 Q S1" using same_queues_queues [OF k2(2,3)] u(2) by simp
  have pQ: "p \<notin> set Q" using q assms(4) by (auto simp: queues_def)
  let ?k3 = "upd_proc p (\<lambda>q. q\<lparr>p_stat := SRUN\<rparr>) k2"
  have q3: "queues ?k3 Q S1" by (rule queues_cong [OF q2]) (use pQ in auto)
  have c3: "same_core k2 ?k3" by (simp add: same_core_def core_of_def)
  note c03 = same_core_trans [OF u(3) same_core_trans [OF k2(3) c3]]
  have ld: "loaded ?k3 p = loaded k p" using same_core_flag [OF c03, of p] by simp
  define k4 where "k4 = (if loaded k p then setrq p ?k3 else ?k3)"
  have w2: "wchan k2 x = (if x = p then 0 else wchan k x)" "stat k2 x = stat k x" for x
    using k2(2) u(4,5) by (simp_all add: same_queues_def)
  have q4: "queues k4 (if loaded k p then p # Q else Q) S1"
  proof (cases "loaded k p")
    case True
    have "wchan ?k3 p = 0" using w2 by simp
    moreover have "stat ?k3 p = SRUN" by simp
    ultimately show ?thesis using setrq_queues [OF q3 _ _ _ pQ] True ld by (simp add: k4_def)
  qed (use q3 in \<open>simp add: k4_def\<close>)
  have c4: "same_core k k4" using c03 same_core_trans [OF c03 setrq_core] by (simp add: k4_def)
  have f4: "wchan k4 x = (if x = p then 0 else wchan k x)" "stat k4 x = (if x = p then SRUN else stat k x)"
    for x using w2 by (simp_all add: k4_def)
  have ro4: "k_runout k4 = k_runout k" using k2(4) u(6) by (simp add: k4_def)
  define k5 where "k5 = (if p_pri (procs k4 p) < curpri k4 then k4\<lparr>runrun := runrun k4 + 1\<rparr> else k4)"
  have k5: "procs k5 = procs k4" "qs k5 = qs k4" "slpque k5 = slpque k4" "k_runout k5 = k_runout k4"
    "same_core k4 k5" "a_runout k5 = a_runout k4" by (simp_all add: k5_def same_core_def)
  have l5: "flag (p_flag (procs k5 p)) SLOAD = loaded k p"
    using same_core_flag [OF c4, of p] k5(1) by simp
  have eq: "setrun p k = (if \<not> loaded k p \<and> k_runout k then wakeup (a_runout k5) (k5\<lparr>k_runout := False\<rparr>)
      else Some k5)"
    unfolding setrun_def first k2(1) Option.bind.bind_lunit Let_def ld k4_def [symmetric] k5_def [symmetric]
    using l5 k5(4) ro4 by simp
  have q5: "queues k5 (if loaded k p then p # Q else Q) S1" by (rule queues_cong [OF q4]) (simp_all add: k5)
  have s5: "sleepers_ok k5" using assms(2) f4 k5(1) by (auto simp: sleepers_ok_def)
  have c5: "same_core k k5" using same_core_trans [OF c4 k5(5)] .
  have runq5: "on_runq k5 x \<longleftrightarrow> x \<in> set (if loaded k p then p # Q else Q)" for x
    using on_runq_queues [OF q5] .
  have runq: "on_runq k x \<longleftrightarrow> x \<in> set Q" for x using on_runq_queues [OF q] .
  show thesis
  proof (cases "\<not> loaded k p \<and> k_runout k")
    case False
    show thesis
    proof (rule that [of k5])
      show "setrun p k = Some k5" using eq False by simp
      show "others_kept p k k5" unfolding others_kept_def using f4 k5(1) runq5 runq by auto
    qed (use q5 s5 c5 f4 k5 runq5 pQ ro4 in \<open>auto simp: sched_ok_def\<close>)
  next
    case True
    let ?k6 = "k5\<lparr>k_runout := False\<rparr>"
    have q6: "queues ?k6 Q S1" by (rule queues_cong [of k5]) (use q5 True in auto)
    have s6: "sleepers_ok ?k6" using s5 by (simp add: sleepers_ok_def)
    have a: "a_runout ?k6 = a_runout k" using c5 by (simp add: same_core_def)
    have a0: "a_runout k5 \<noteq> 0" "a_runout ?k6 \<noteq> 0" using assms(3) a by simp_all
    obtain k' where w: "wakeup (a_runout k5) ?k6 = Some k'" "sched_ok k'" "sleepers_ok k'"
      "\<And>x. wchan k' x \<noteq> a_runout k5"
      "woke (if k_runout ?k6 then {a_runout k5, a_runout ?k6} else {a_runout k5}) ?k6 k'"
      "k_runout k' \<Longrightarrow> k_runout ?k6"
      using wakeup_ok [OF _ s6 a0] q6 by (metis sched_ok_def)
    then have wk: "woke {a_runout k} ?k6 k'" using a by simp
    have c6: "same_core k ?k6" using c5 by (simp add: same_core_def)
    have f6: "wchan ?k6 x = (if x = p then 0 else wchan k x)" "stat ?k6 x = (if x = p then SRUN else stat k x)"
      for x using f4 k5(1) by simp_all
    have runq6: "on_runq ?k6 x \<longleftrightarrow> on_runq k x" for x
      using on_runq_queues [OF q6] runq by simp
    have each: "(wchan k' x = wchan ?k6 x \<and> stat k' x = stat ?k6 x \<and> (on_runq k' x \<longleftrightarrow> on_runq ?k6 x)) \<or>
        (wchan ?k6 x = a_runout k \<and> wchan ?k6 x \<noteq> 0 \<and> wchan k' x = 0 \<and>
         stat k' x = (if stat ?k6 x = SSLEEP then SRUN else stat ?k6 x))" for x
      using wk unfolding woke_def by blast
    have p6: "stat k' p = SRUN \<and> wchan k' p = 0 \<and> \<not> on_runq k' p"
      using each [of p] f6 runq6 runq pQ by auto
    show thesis
    proof (rule that [of k'])
      show "setrun p k = Some k'" using eq True w(1) by simp
      show "others_kept p k k'" unfolding others_kept_def
      proof (intro allI impI)
        fix x assume "x \<noteq> p"
        then have e: "wchan ?k6 x = wchan k x" "stat ?k6 x = stat k x" using f6 [of x] by (simp_all only: if_False)
        show "(wchan k' x = wchan k x \<and> stat k' x = stat k x \<and> on_runq k' x = on_runq k x) \<or>
          (k_runout k \<and> wchan k x = a_runout k \<and> wchan k' x = 0 \<and>
           stat k' x = (if stat k x = SSLEEP then SRUN else stat k x))"
          using each [of x] True unfolding e runq6 by blast
      qed
      show "same_core k k'" using same_core_trans [OF c6] wk by (simp add: woke_def)
      show "k_runout k' \<longrightarrow> k_runout k" using True by simp
      show "sched_ok k'" "sleepers_ok k'" by (rule w)+
      show "stat k' p = SRUN" "wchan k' p = 0" "on_runq k' p \<longleftrightarrow> loaded k p" using p6 True by simp_all
    qed
  qed
qed

section \<open>remrq and swtch\<close>

lemma remrq_from_finds:
  "lpath (lnk k) (Some x) (x # mid @ p # post) \<Longrightarrow> p \<noteq> x \<Longrightarrow> p \<notin> set mid \<Longrightarrow>
   remrq_from p (Some x) k = Some (upd_proc (last (x # mid)) (\<lambda>r. r\<lparr>p_link := p_link (procs k p)\<rparr>) k)"
proof (induction mid arbitrary: x)
  case Nil
  then show ?case by (subst remrq_from.simps) simp
next
  case (Cons y mid)
  then have "p_link (procs k x) = Some y" "lpath (lnk k) (Some y) (y # mid @ p # post)" by simp_all
  then show ?case using Cons.IH [of y] Cons.prems(3) by (subst remrq_from.simps) simp
qed

lemma runq_unlink:
  assumes "queues k Q S" "Q = pre @ p # post"
  shows "queues (if pre = [] then k\<lparr>qs := p_link (procs k p)\<rparr>
      else upd_proc (last pre) (\<lambda>r. r\<lparr>p_link := p_link (procs k p)\<rparr>) k) (pre @ post) S"
    (is "queues ?k _ _")
proof -
  have lp: "lpath (lnk k) (qs k) (pre @ p # post)" using assms by (simp add: queues_def)
  have notS: "x \<notin> set (S h)" if "x \<in> set Q" for x h using assms(1) that by (auto simp: queues_def)
  have q: "lpath (lnk ?k) (qs ?k) (pre @ post)"
  proof (cases pre rule: rev_cases)
    case Nil
    then show ?thesis using lp by simp
  next
    case (snoc xs y)
    then have "lpath ((lnk k)(y := lnk k p)) (qs k) (xs @ y # post)" using lp lpath_unlink by simp
    moreover have "(lnk k)(y := lnk k p) = lnk ?k" using snoc by auto
    ultimately show ?thesis using snoc by simp
  qed
  have s: "lpath (lnk ?k) (slpque ?k h) (S h)" for h
  proof -
    have "lnk ?k x = lnk k x" if "x \<in> set (S h)" for x
      using that notS [of "last pre" h] assms(2) by (cases "pre = []") auto
    then have "lpath (lnk ?k) (slpque k h) (S h) = lpath (lnk k) (slpque k h) (S h)" by (rule lpath_cong)
    moreover have "slpque ?k h = slpque k h" by simp
    moreover have "lpath (lnk k) (slpque k h) (S h)" using assms(1) by (simp add: queues_def)
    ultimately show ?thesis by (simp only:)
  qed
  show ?thesis using assms q s unfolding queues_def by auto
qed

lemma remrq_queues:
  assumes "queues k Q S" "Q = pre @ p # post"
  shows "\<exists>k'. remrq p k = Some k' \<and> queues k' (pre @ post) S \<and> same_core k k' \<and> stat k' = stat k"
proof -
  have lp: "lpath (lnk k) (qs k) (pre @ p # post)" using assms by (simp add: queues_def)
  then have d: "p \<notin> set pre" using lpath_distinct by fastforce
  let ?k = "if pre = [] then k\<lparr>qs := p_link (procs k p)\<rparr>
      else upd_proc (last pre) (\<lambda>r. r\<lparr>p_link := p_link (procs k p)\<rparr>) k"
  have "remrq p k = Some ?k"
  proof (cases pre)
    case Nil
    then show ?thesis using lp by (simp add: remrq_def)
  next
    case (Cons x mid)
    then have "qs k = Some x" "lpath (lnk k) (Some x) (x # mid @ p # post)" using lp by simp_all
    then show ?thesis using remrq_from_finds [of k x mid p post] d Cons by (simp add: remrq_def)
  qed
  moreover have "same_core k ?k" "stat ?k = stat k" by (auto simp: same_core_def core_of_def)
  ultimately show ?thesis using runq_unlink [OF assms] by blast
qed

text \<open>The first process of a list with the least priority.\<close>

fun best :: "('a \<Rightarrow> int) \<Rightarrow> 'a list \<Rightarrow> int \<Rightarrow> bool" where
  "best f [] n \<longleftrightarrow> True"
| "best f (x # xs) n \<longleftrightarrow> n \<le> f x \<and> best f xs n"

lemma best_iff: "best f xs n \<longleftrightarrow> (\<forall>x \<in> set xs. n \<le> f x)"
  by (induction xs) auto

lemma swtch_search_finds:
  assumes "lpath (lnk k) p rest" "\<forall>x \<in> set rest. loaded k x"
    and "q = (if pre = [] then None else Some (last pre))"
    and "case pp of None \<Rightarrow> n = 128 \<and> pre = []
      | Some b \<Rightarrow> \<exists>us vs. pre = us @ b # vs \<and> pq = (if us = [] then None else Some (last us)) \<and>
          n = p_pri (procs k b) \<and> n < 128 \<and> (\<forall>x \<in> set us. n < p_pri (procs k x)) \<and>
          (\<forall>x \<in> set vs. n \<le> p_pri (procs k x))"
    and "\<forall>x \<in> set rest. p_pri (procs k x) < 128"
  shows "\<exists>pp' pq' n'. swtch_search p q pp pq n k = Some (pp', pq', n') \<and>
    (case pp' of None \<Rightarrow> pre @ rest = []
      | Some b \<Rightarrow> \<exists>us vs. pre @ rest = us @ b # vs \<and> pq' = (if us = [] then None else Some (last us)) \<and>
          n' = p_pri (procs k b) \<and> (\<forall>x \<in> set us. n' < p_pri (procs k x)) \<and>
          (\<forall>x \<in> set vs. n' \<le> p_pri (procs k x)))"
  using assms
proof (induction rest arbitrary: p q pp pq n pre)
  case Nil
  then have "p = None" by simp
  then have "swtch_search p q pp pq n k = Some (pp, pq, n)" by (subst swtch_search.simps) simp
  then show ?case using Nil.prems(4) by (cases pp) auto
next
  case (Cons x rest)
  then have p: "p = Some x" "lpath (lnk k) (p_link (procs k x)) rest" "loaded k x" by simp_all
  have x128: "p_pri (procs k x) < 128" using Cons.prems(5) by simp
  show ?case
  proof (cases "p_pri (procs k x) < n")
    case True
    have eq: "swtch_search p q pp pq n k =
        swtch_search (p_link (procs k x)) (Some x) (Some x) q (p_pri (procs k x)) k"
      using p True by (subst swtch_search.simps) simp
    have all: "\<forall>y \<in> set pre. p_pri (procs k x) < p_pri (procs k y)"
      using Cons.prems(4) True by (cases pp) fastforce+
    have ex: "\<exists>us vs. pre @ [x] = us @ x # vs \<and> q = (if us = [] then None else Some (last us)) \<and>
        p_pri (procs k x) = p_pri (procs k x) \<and> p_pri (procs k x) < 128 \<and>
        (\<forall>y \<in> set us. p_pri (procs k x) < p_pri (procs k y)) \<and> (\<forall>y \<in> set vs. p_pri (procs k x) \<le> p_pri (procs k y))"
      using all Cons.prems(3) x128 by (intro exI [of _ pre] exI [of _ "[]"]) simp
    have "\<exists>pp' pq' n'. swtch_search (p_link (procs k x)) (Some x) (Some x) q (p_pri (procs k x)) k =
        Some (pp', pq', n') \<and> (case pp' of None \<Rightarrow> (pre @ [x]) @ rest = []
      | Some b \<Rightarrow> \<exists>us vs. (pre @ [x]) @ rest = us @ b # vs \<and> pq' = (if us = [] then None else Some (last us)) \<and>
          n' = p_pri (procs k b) \<and> (\<forall>x \<in> set us. n' < p_pri (procs k x)) \<and>
          (\<forall>x \<in> set vs. n' \<le> p_pri (procs k x)))"
      by (rule Cons.IH [OF p(2)]) (use Cons.prems ex in auto)
    then show ?thesis unfolding eq append_assoc append_Cons append_Nil .
  next
    case False
    have eq: "swtch_search p q pp pq n k = swtch_search (p_link (procs k x)) (Some x) pp pq n k"
      using p False by (subst swtch_search.simps) simp
    obtain b us vs where b: "pp = Some b" "pre = us @ b # vs" "pq = (if us = [] then None else Some (last us))"
      "n = p_pri (procs k b)" "n < 128" "\<forall>x \<in> set us. n < p_pri (procs k x)" "\<forall>x \<in> set vs. n \<le> p_pri (procs k x)"
      using Cons.prems(4) False x128 by (cases pp) auto
    have ex: "\<exists>us vs. pre @ [x] = us @ b # vs \<and> pq = (if us = [] then None else Some (last us)) \<and>
        n = p_pri (procs k b) \<and> n < 128 \<and> (\<forall>y \<in> set us. n < p_pri (procs k y)) \<and> (\<forall>y \<in> set vs. n \<le> p_pri (procs k y))"
      using b False by (intro exI [of _ us] exI [of _ "vs @ [x]"]) auto
    have "\<exists>pp' pq' n'. swtch_search (p_link (procs k x)) (Some x) pp pq n k =
        Some (pp', pq', n') \<and> (case pp' of None \<Rightarrow> (pre @ [x]) @ rest = []
      | Some b \<Rightarrow> \<exists>us vs. (pre @ [x]) @ rest = us @ b # vs \<and> pq' = (if us = [] then None else Some (last us)) \<and>
          n' = p_pri (procs k b) \<and> (\<forall>x \<in> set us. n' < p_pri (procs k x)) \<and>
          (\<forall>x \<in> set vs. n' \<le> p_pri (procs k x)))"
      by (rule Cons.IH [OF p(2)]) (use Cons.prems b(1) ex in auto)
    then show ?thesis unfolding eq append_assoc append_Cons append_Nil .
  qed
qed

lemma remrq_from_panics:
  "lpath (lnk k) q rest \<Longrightarrow> p \<notin> set (tl rest) \<Longrightarrow> remrq_from p q k = None"
proof (induction rest arbitrary: q)
  case Nil
  then show ?case by (subst remrq_from.simps) simp
next
  case (Cons x rest)
  then have x: "q = Some x" "lpath (lnk k) (p_link (procs k x)) rest" "p \<notin> set rest" by simp_all
  have "p \<notin> set (tl rest)" using x(3) by (cases rest) auto
  then have "remrq_from p (p_link (procs k x)) k = None" by (rule Cons.IH [OF x(2)])
  moreover have "p_link (procs k x) \<noteq> Some p" using x(2,3) by (cases rest) auto
  ultimately show ?case using x(1) by (subst remrq_from.simps) simp
qed

lemma swtch_pick_queues:
  assumes q: "queues k Q S" and pri: "\<forall>p \<in> set Q. p_pri (procs k p) < 128"
  shows "(Q = [] \<and> swtch_pick k = Some (Inl (k\<lparr>noproc := False, runrun := 0\<rparr>))) \<or>
    (\<exists>us p vs k'. Q = us @ p # vs \<and>
       swtch_pick k = Some (Inr (p, flag (p_flag (procs k p)) SSWAP, k')) \<and>
       queues k' (us @ vs) S \<and> curpri k' = p_pri (procs k p) \<and> runrun k' = 0 \<and>
       (\<forall>x \<in> set us. p_pri (procs k p) < p_pri (procs k x)) \<and>
       (\<forall>x \<in> set vs. p_pri (procs k p) \<le> p_pri (procs k x)) \<and>
       (\<forall>x. stat k' x = stat k x \<and> wchan k' x = wchan k x))"
proof -
  let ?k1 = "k\<lparr>noproc := False, runrun := 0\<rparr>"
  have q1: "queues ?k1 Q S" by (rule queues_cong [OF q]) simp_all
  have lp: "lpath (lnk ?k1) (qs ?k1) Q" "\<forall>x \<in> set Q. loaded ?k1 x" using q1 by (simp_all add: queues_def)
  have pr: "procs ?k1 = procs k" by simp
  have "\<exists>pp' pq' n'. swtch_search (qs ?k1) None None None 128 ?k1 = Some (pp', pq', n') \<and>
    (case pp' of None \<Rightarrow> Q = []
      | Some b \<Rightarrow> \<exists>us vs. Q = us @ b # vs \<and> pq' = (if us = [] then None else Some (last us)) \<and>
          n' = p_pri (procs k b) \<and> (\<forall>x \<in> set us. n' < p_pri (procs k x)) \<and>
          (\<forall>x \<in> set vs. n' \<le> p_pri (procs k x)))"
    by (rule swtch_search_finds [OF lp(1,2), where pre = "[]" and pp = None and q = None and pq = None
          and n = 128, unfolded append_Nil pr]) (use pri in simp_all)
  then obtain pp pq n where s: "swtch_search (qs ?k1) None None None 128 ?k1 = Some (pp, pq, n)"
    and c: "case pp of None \<Rightarrow> Q = []
      | Some b \<Rightarrow> \<exists>us vs. Q = us @ b # vs \<and> pq = (if us = [] then None else Some (last us)) \<and>
          n = p_pri (procs k b) \<and> (\<forall>x \<in> set us. n < p_pri (procs k x)) \<and>
          (\<forall>x \<in> set vs. n \<le> p_pri (procs k x))" by blast
  show ?thesis
  proof (cases pp)
    case None
    then have "swtch_pick k = Some (Inl ?k1)" using s unfolding swtch_pick_def Let_def by simp
    then show ?thesis using c None by simp
  next
    case (Some p)
    then obtain us vs where Q: "Q = us @ p # vs" and pq: "pq = (if us = [] then None else Some (last us))"
      and n: "n = p_pri (procs k p)" "\<forall>x \<in> set us. n < p_pri (procs k x)"
        "\<forall>x \<in> set vs. n \<le> p_pri (procs k x)" using c by auto
    define k2 where "k2 = (if us = [] then ?k1\<lparr>qs := p_link (procs ?k1 p)\<rparr>
      else upd_proc (last us) (\<lambda>r. r\<lparr>p_link := p_link (procs ?k1 p)\<rparr>) ?k1)"
    have q2: "queues k2 (us @ vs) S" unfolding k2_def by (rule runq_unlink [OF q1 Q])
    let ?k' = "upd_proc p (\<lambda>r. r\<lparr>p_flag := clr_flag SSWAP (p_flag r)\<rparr>) (k2\<lparr>curpri := n\<rparr>)"
    have f2: "p_flag (procs k2 x) = p_flag (procs k x)" "stat k2 x = stat k x" "wchan k2 x = wchan k x"
      "runrun k2 = 0" for x by (simp_all add: k2_def)
    have r: "swtch_pick k = Some (Inr (p, flag (p_flag (procs k p)) SSWAP, ?k'))"
      using s Some pq unfolding swtch_pick_def Let_def
      by (simp add: k2_def)
    have "distinct Q" using q lpath_distinct by (auto simp: queues_def)
    then have "p \<notin> set (us @ vs)" using Q by auto
    then have q': "queues ?k' (us @ vs) S"
      by (intro queues_cong [OF q2]) auto
    have "curpri ?k' = p_pri (procs k p)" "runrun ?k' = 0" "\<forall>x. stat ?k' x = stat k x \<and> wchan ?k' x = wchan k x"
      using n(1) f2 by auto
    then show ?thesis using Q r q' n by blast
  qed
qed

section \<open>The process table\<close>

text \<open>The processes on the hash chain from index \<open>p\<close>; index 0 ends a chain.\<close>

fun hash_chain :: "'a kern_scheme \<Rightarrow> nat \<Rightarrow> nat list \<Rightarrow> bool" where
  "hash_chain k p [] \<longleftrightarrow> p = 0"
| "hash_chain k p (x # xs) \<longleftrightarrow> p = x \<and> x \<noteq> 0 \<and> hash_chain k (p_idhash (procs k x)) xs"

text \<open>Every process with a pid is on the chain of its pid, and pids are unique.\<close>

definition hash_ok :: "'a kern_scheme \<Rightarrow> (nat \<Rightarrow> nat list) \<Rightarrow> bool" where
  "hash_ok k H \<longleftrightarrow> length (pidhash k) = 64 \<and> (\<forall>h < 64. hash_chain k (pidhash k ! h) (H h)) \<and>
     (\<forall>h < 64. \<forall>p \<in> set (H h). PIDHASH (p_pid (procs k p)) = h)"

lemma pfind_from_chain:
  "hash_chain k p xs \<Longrightarrow> pfind_from pid p k = Some (find (\<lambda>x. p_pid (procs k x) = pid) xs)"
proof (induction xs arbitrary: p)
  case Nil
  then show ?case by (subst pfind_from.simps) simp
next
  case (Cons x xs)
  then show ?case by (subst pfind_from.simps) simp
qed

lemma PIDHASH_less: "PIDHASH pid < 64"
  by (simp add: PIDHASH_def nat_less_iff)

lemma pqinit_loop_list:
  assumes "lpath (\<lambda>x. p_nxt (procs k x)) (freeproc k) xs" "\<forall>x \<in> set xs. p \<le> x" "0 < p"
  shows "lpath (\<lambda>x. p_nxt (procs (pqinit_loop p k) x)) (freeproc (pqinit_loop p k)) ([1 ..< p] @ xs) \<and>
    procs (pqinit_loop p k) 0 = procs k 0 \<and> nproc (pqinit_loop p k) = nproc k"
  using assms
proof (induction p arbitrary: k xs)
  case 0
  then show ?case by simp
next
  case (Suc p)
  show ?case
  proof (cases "p = 0")
    case True
    then show ?thesis using Suc.prems by simp
  next
    case False
    let ?k = "(upd_proc p (\<lambda>q. q\<lparr>p_nxt := freeproc k\<rparr>) k)\<lparr>freeproc := Some p\<rparr>"
    have "p \<notin> set xs" using Suc.prems(2) by auto
    then have "lpath (\<lambda>x. p_nxt (procs ?k x)) (freeproc k) xs = lpath (\<lambda>x. p_nxt (procs k x)) (freeproc k) xs"
      by (intro lpath_cong) auto
    then have l: "lpath (\<lambda>x. p_nxt (procs ?k x)) (freeproc ?k) (p # xs)" using Suc.prems(1) by simp
    have "\<forall>x \<in> set (p # xs). p \<le> x" using Suc.prems(2) by auto
    from Suc.IH [OF l this] False show ?thesis by simp
  qed
qed

section \<open>The properties\<close>

text \<open>A small system: process 1 runnable, 2 asleep and 3 stopped on the same channel.\<close>

definition demo_proc :: proc where
  "demo_proc = \<lparr>p_nxt = None, p_prev = None, p_pptr = Some 0, p_flag = SLOAD, p_uid = 7, p_pid = 0, p_ppid = 1,
     p_sig = 0, p_stat = SFREE, p_pri = 60, p_cpu = 200, p_time = 0, p_nice = 0, p_slptime = 5,
     p_cursig = 0, p_idhash = 0, p_sigmask = 0, p_sigignore = 0, p_sigcatch = 0, p_pgrp = 9,
     p_link = None, p_addr = 0, p_wchan = 0, p_realtimer = \<lparr>it_interval = 0, it_value = 0\<rparr>\<rparr>"

definition demo_ru :: k_rusage where
  "demo_ru = \<lparr>ru_utime = 0, ru_stime = 0, ru_ovly = 0, ru_nswap = 0, ru_inblock = 0, ru_oublock = 0,
     ru_msgsnd = 0, ru_msgrcv = 0, ru_nsignals = 0, ru_nvcsw = 0, ru_nivcsw = 0\<rparr>"

definition demo_user :: user where
  "demo_user = \<lparr>u_procp = 1, u_error = NOERR, r_val1 = 0, r_val2 = 0, r_long = 0, u_uid = 7, u_ruid = 7,
     u_gid = 3, u_rgid = 3, u_groups = [3], u_pcb_sigc = 0, u_signal = \<lambda>_. SIG_DFL, u_sigmask = \<lambda>_. 0,
     u_sigonstack = 0, u_sigintr = 0, u_oldmask = 0, u_sigstack = \<lparr>ss_sp = 0, ss_onstack = 0\<rparr>,
     u_rlimit = [], u_ru = demo_ru, u_cru = demo_ru, u_timer = [], u_acflag = 0,
     u_ar0 = (\<lambda>_. 0), u_eosys = 0, u_code = 0, u_ssize = 0, uo_ovbase = 0, uo_curov = 0, u_ofile = replicate 30 None,
     u_pofile = replicate 30 0, u_lastfile = -1, u_prof = \<lparr>pr_base = 0, pr_size = 0, pr_off = 0, pr_scale = 0\<rparr>\<rparr>"

definition demo_kern :: kern where
  "demo_kern = \<lparr>procs = (\<lambda>_. demo_proc)
       (1 := demo_proc\<lparr>p_stat := SRUN, p_pid := 11, p_nxt := Some 2\<rparr>,
        2 := demo_proc\<lparr>p_stat := SSLEEP, p_wchan := 0x40, p_link := Some 3, p_pid := 12, p_nxt := Some 3\<rparr>,
        3 := demo_proc\<lparr>p_stat := SSTOP, p_wchan := 0x40, p_pid := 13\<rparr>),
     nproc = 8, freeproc = None, zombproc = None, allproc = Some 1, qs = Some 1,
     pidhash = (replicate 64 0)[11 := 1, 12 := 2, 13 := 3],
     slpque = (\<lambda>_. None)(2 := Some 2), runrun = 0, curpri = 50, noproc = False, k_runin = False,
     k_runout = False, panicstr = False, a_lbolt = 2, a_runin = 4, a_runout = 6, a_u = 8,
     a_proc = (\<lambda>p. 0x1000 + of_nat p), u = demo_user, umem = (\<lambda>_. None)\<rparr>"

lemma demo_queues: "queues demo_kern [1] ((\<lambda>_. [])(2 := [2, 3]))"
proof -
  have "HASH 0x40 = 2" by (simp add: HASH_def)
  then show ?thesis by (auto simp: queues_def demo_kern_def demo_proc_def flag_def)
qed

lemma demo_sched: "sched_ok demo_kern" "sleepers_ok demo_kern" "a_runout demo_kern \<noteq> 0"
  using demo_queues by (auto simp: sched_ok_def sleepers_ok_def demo_kern_def demo_proc_def)

text \<open>C5: wakeup returns, keeps the run and sleep queues in order, and wakes exactly the processes
  that wait for the channel: none is left waiting for it, a sleeping one becomes runnable and is on
  the run queue if it is in core, a stopped one stays stopped. A process waiting for another channel
  keeps its place, unless the swapper itself had to be woken.\<close>

theorem wakeup_wakes:
  assumes "sched_ok k" "sleepers_ok k" "chan \<noteq> 0" "a_runout k \<noteq> 0"
  shows "\<exists>k'. wakeup chan k = Some k' \<and> sched_ok k' \<and> sleepers_ok k' \<and> same_core k k' \<and>
    (\<forall>p. wchan k' p \<noteq> chan) \<and>
    (\<forall>p. wchan k p = chan \<longrightarrow> stat k' p = (if stat k p = SSLEEP then SRUN else SSTOP) \<and>
       (on_runq k' p \<longleftrightarrow> stat k p = SSLEEP \<and> loaded k p)) \<and>
    (\<forall>p. wchan k p \<noteq> chan \<and> (k_runout k \<longrightarrow> wchan k p \<noteq> a_runout k) \<longrightarrow>
       wchan k' p = wchan k p \<and> stat k' p = stat k p \<and> (on_runq k' p \<longleftrightarrow> on_runq k p))"
proof -
  obtain k' where k': "wakeup chan k = Some k'" "sched_ok k'" "sleepers_ok k'" "\<And>p. wchan k' p \<noteq> chan"
    and w: "woke (if k_runout k then {chan, a_runout k} else {chan}) k k'"
    using wakeup_ok [OF assms] by metis
  have each: "wchan k p = chan \<Longrightarrow> stat k' p = (if stat k p = SSLEEP then SRUN else stat k p) \<and>
       (on_runq k' p \<longleftrightarrow> stat k p = SSLEEP \<and> loaded k p)"
    "wchan k p \<noteq> chan \<Longrightarrow> k_runout k \<longrightarrow> wchan k p \<noteq> a_runout k \<Longrightarrow>
       wchan k' p = wchan k p \<and> stat k' p = stat k p \<and> (on_runq k' p \<longleftrightarrow> on_runq k p)" for p
    using w k'(4) [of p] unfolding woke_def by (metis, metis empty_iff insert_iff)
  have "stat k p \<noteq> SSLEEP \<Longrightarrow> wchan k p = chan \<Longrightarrow> stat k p = SSTOP" for p
    using assms(2,3) unfolding sleepers_ok_def by metis
  then show ?thesis using k' w each by (intro exI [of _ k']) (auto simp: woke_def)
qed

theorem wakeup_wakes_witness:
  "\<exists>k'. wakeup 0x40 demo_kern = Some k' \<and> stat k' 2 = SRUN \<and> on_runq k' 2 \<and> stat k' 3 = SSTOP \<and>
     (\<forall>p. wchan k' p \<noteq> 0x40)"
proof -
  have "stat demo_kern 2 = SSLEEP" "wchan demo_kern 2 = 0x40" "loaded demo_kern 2"
    "stat demo_kern 3 = SSTOP" "wchan demo_kern 3 = 0x40"
    by (simp_all add: demo_kern_def demo_proc_def flag_def)
  then show ?thesis using wakeup_wakes [OF demo_sched(1,2) _ demo_sched(3), of "0x40"] by fastforce
qed

text \<open>setrun takes a sleeping, stopped or new process off its sleep queue and makes it runnable,
  on the run queue exactly if it is in core; no other process is affected except one that waits for
  the swapper's channel. For any other state it panics.\<close>

lemma setrun_correct:
  assumes "sched_ok k" "sleepers_ok k" "a_runout k \<noteq> 0" "stat k p = SIDL \<longrightarrow> wchan k p = 0"
  shows "if stat k p \<in> {SSLEEP, SSTOP, SIDL} then
      \<exists>k'. setrun p k = Some k' \<and> sched_ok k' \<and> sleepers_ok k' \<and> same_core k k' \<and>
        stat k' p = SRUN \<and> wchan k' p = 0 \<and> (on_runq k' p \<longleftrightarrow> loaded k p) \<and> others_kept p k k'
    else setrun p k = None"
proof (cases "stat k p \<in> {SSLEEP, SSTOP, SIDL}")
  case True
  show ?thesis using setrun_ok [OF assms(1-3) True assms(4)] True by (metis (no_types))
next
  case False
  then show ?thesis by (cases "stat k p") (simp_all add: setrun_def)
qed

lemma setrun_correct_witness: "\<exists>k'. setrun 3 demo_kern = Some k' \<and> stat k' 3 = SRUN \<and> on_runq k' 3"
proof -
  have s: "stat demo_kern 3 = SSTOP" "loaded demo_kern 3"
    by (simp_all add: demo_kern_def demo_proc_def flag_def)
  then show ?thesis using setrun_correct [OF demo_sched, of 3] by auto
qed

text \<open>C6: swtch takes from the run queue the first process with the best (least) priority and leaves
  every other process queued; it idles only when the run queue is empty.\<close>

theorem swtch_picks_best:
  assumes "queues k Q S" "\<forall>p \<in> set Q. p_pri (procs k p) < 128"
  shows "if Q = [] then swtch_pick k = Some (Inl (k\<lparr>noproc := False, runrun := 0\<rparr>))
    else \<exists>us p vs k'. Q = us @ p # vs \<and>
       swtch_pick k = Some (Inr (p, flag (p_flag (procs k p)) SSWAP, k')) \<and>
       queues k' (us @ vs) S \<and> curpri k' = p_pri (procs k p) \<and> runrun k' = 0 \<and>
       (\<forall>x \<in> set us. p_pri (procs k p) < p_pri (procs k x)) \<and>
       (\<forall>x \<in> set vs. p_pri (procs k p) \<le> p_pri (procs k x)) \<and>
       (\<forall>x. stat k' x = stat k x \<and> wchan k' x = wchan k x)"
proof (cases "Q = []")
  case True
  then show ?thesis using swtch_pick_queues [OF assms] by auto
next
  case False
  then show ?thesis using swtch_pick_queues [OF assms] by auto
qed

theorem swtch_picks_best_witness:
  "\<exists>k'. swtch_pick demo_kern = Some (Inr (1, False, k')) \<and> curpri k' = 60"
proof -
  have "\<forall>p \<in> set [1]. p_pri (procs demo_kern p) < 128" "p_pri (procs demo_kern 1) = 60"
    "\<not> flag (p_flag (procs demo_kern 1)) SSWAP"
    by (simp_all add: demo_kern_def demo_proc_def flag_def)
  then show ?thesis using swtch_picks_best [OF demo_queues] by (auto simp: Cons_eq_append_conv)
qed

text \<open>remrq takes exactly the given process off the run queue, wherever it stands, and panics
  when it is not there; setrq followed by remrq restores the queue.\<close>

lemma remrq_correct:
  assumes "queues k Q S"
  shows "(p \<in> set Q \<longrightarrow> (\<exists>k'. remrq p k = Some k' \<and> queues k' (remove1 p Q) S \<and> same_core k k')) \<and>
    (p \<notin> set Q \<longrightarrow> remrq p k = None) \<and>
    (wchan k p = 0 \<and> stat k p = SRUN \<and> loaded k p \<and> p \<notin> set Q \<longrightarrow>
      (\<exists>k'. remrq p (setrq p k) = Some k' \<and> queues k' Q S))"
proof (intro conjI impI)
  assume "p \<in> set Q"
  then obtain pre post where Q: "Q = pre @ p # post" "p \<notin> set pre" by (meson split_list_first)
  then have "remove1 p Q = pre @ post" by (simp add: remove1_append)
  then show "\<exists>k'. remrq p k = Some k' \<and> queues k' (remove1 p Q) S \<and> same_core k k'"
    using remrq_queues [OF assms Q(1)] by auto
next
  assume p: "p \<notin> set Q"
  have l: "lpath (lnk k) (qs k) Q" using assms by (simp add: queues_def)
  have "p \<notin> set (tl Q)" using p by (cases Q) auto
  moreover have "qs k \<noteq> Some p" using l p by (cases Q) auto
  ultimately show "remrq p k = None" using remrq_from_panics [OF l] by (simp add: remrq_def)
next
  assume "wchan k p = 0 \<and> stat k p = SRUN \<and> loaded k p \<and> p \<notin> set Q"
  then have "queues (setrq p k) (p # Q) S" using setrq_queues [OF assms] by blast
  then show "\<exists>k'. remrq p (setrq p k) = Some k' \<and> queues k' Q S"
    using remrq_queues [of "setrq p k" "p # Q" S "[]" p Q] by auto
qed

lemma remrq_correct_witness:
  "(\<exists>k'. remrq 1 demo_kern = Some k' \<and> queues k' [] ((\<lambda>_. [])(2 := [2, 3]))) \<and> remrq 2 demo_kern = None"
  using remrq_correct [OF demo_queues, of 1] remrq_correct [OF demo_queues, of 2] by auto

text \<open>When a process that has slept for three seconds or more is made ready, updatepri sets its
  CPU usage to 0, so its priority becomes the base priority of its nice value: the factor is
  written 8/10 and multiplied from the left, which is integer division first. The decay by eight
  tenths per second that schedcpu applies does not happen here.\<close>

lemma updatepri_forgets:
  assumes "3 \<le> p_slptime (procs k p)" "p_slptime (procs k p) \<le> 127" "p_nice (procs k p) \<le> 20"
  shows "\<exists>k'. updatepri p k = Some k' \<and> p_cpu (procs k' p) = 0 \<and>
    p_pri (procs k' p) = PUSER + p_nice (procs k p)"
proof -
  let ?s = "p_slptime (procs k p)" and ?a = "uint (p_cpu (procs k p))"
  have s: "char_dec ?s = ?s - 1" "char_dec (?s - 1) = ?s - 2" "?s - 2 \<noteq> 0"
    using assms(1) by (auto simp: char_dec_def)
  obtain t where "updatepri_loop ?a (char_dec ?s) = Some (0, t)"
    using updatepri_loop_total [of ?a "?s - 1"] s by (cases "?a = 0") auto
  then show ?thesis using assms(3) by (auto simp: updatepri_def setpri_def Let_def)
qed

lemma updatepri_forgets_witness:
  "\<exists>k'. updatepri 2 demo_kern = Some k' \<and> p_cpu (procs k' 2) = 0 \<and> p_pri (procs k' 2) = 50"
proof -
  have "p_slptime (procs demo_kern 2) = 5" "p_nice (procs demo_kern 2) = 0"
    by (simp_all add: demo_kern_def demo_proc_def)
  then show ?thesis using updatepri_forgets [of demo_kern 2] by simp
qed

text \<open>pfind returns a process with the given pid if any process on the hash chains has it, and
  NULL otherwise; it always returns.\<close>

lemma pfind_correct:
  assumes "hash_ok k H"
  shows "\<exists>r. pfind pid k = Some r \<and>
    (case r of Some p \<Rightarrow> p \<in> set (H (PIDHASH pid)) \<and> p_pid (procs k p) = pid
     | None \<Rightarrow> \<forall>h < 64. \<forall>p \<in> set (H h). p_pid (procs k p) \<noteq> pid)"
proof -
  let ?xs = "H (PIDHASH pid)"
  have "hash_chain k (pidhash k ! PIDHASH pid) ?xs"
    using assms PIDHASH_less by (simp add: hash_ok_def)
  then have r: "pfind pid k = Some (find (\<lambda>x. p_pid (procs k x) = pid) ?xs)"
    unfolding pfind_def by (rule pfind_from_chain)
  show ?thesis
  proof (cases "find (\<lambda>x. p_pid (procs k x) = pid) ?xs")
    case None
    then have "\<forall>p \<in> set ?xs. p_pid (procs k p) \<noteq> pid" by (simp add: find_None_iff)
    have "p_pid (procs k p) \<noteq> pid" if "h < 64" "p \<in> set (H h)" for h p
    proof
      assume "p_pid (procs k p) = pid"
      moreover have "PIDHASH (p_pid (procs k p)) = h" using assms that by (simp add: hash_ok_def)
      ultimately show False using that(2) \<open>\<forall>p \<in> set ?xs. p_pid (procs k p) \<noteq> pid\<close> by auto
    qed
    then show ?thesis using r None by simp
  next
    case (Some p)
    then have "p \<in> set ?xs \<and> p_pid (procs k p) = pid" by (auto simp: find_Some_iff)
    then show ?thesis using r Some by simp
  qed
qed

lemma pfind_correct_witness:
  "\<exists>r. pfind 12 demo_kern = Some r \<and> (case r of Some p \<Rightarrow> p = 2 | None \<Rightarrow> False)"
proof -
  let ?H = "(\<lambda>_. [])(11 := [1], 12 := [2], 13 := [3]) :: nat \<Rightarrow> nat list"
  have "hash_chain demo_kern (pidhash demo_kern ! h) (?H h)" if "h < 64" for h
    using that by (simp add: demo_kern_def demo_proc_def nth_list_update)
  then have "hash_ok demo_kern ?H"
    by (auto simp: hash_ok_def demo_kern_def demo_proc_def PIDHASH_def split: if_splits)
  from pfind_correct [OF this, of 12] obtain r where r: "pfind 12 demo_kern = Some r"
    "case r of Some p \<Rightarrow> p \<in> set (?H (PIDHASH 12)) \<and> p_pid (procs demo_kern p) = 12
     | None \<Rightarrow> \<forall>h < 64. \<forall>p \<in> set (?H h). p_pid (procs demo_kern p) \<noteq> 12" by blast
  have "PIDHASH 12 = 12" by (simp add: PIDHASH_def)
  have "r \<noteq> None"
  proof
    assume "r = None"
    then have "\<forall>h < 64. \<forall>p \<in> set (?H h). p_pid (procs demo_kern p) \<noteq> 12" using r(2) by simp
    then have "\<forall>p \<in> set (?H 12). p_pid (procs demo_kern p) \<noteq> 12" by (rule allE [of _ 12]) simp
    then show False by (simp add: demo_kern_def)
  qed
  then have "r = Some 2" using r(2) \<open>PIDHASH 12 = 12\<close> by auto
  then show ?thesis using r(1) by simp
qed

text \<open>After pqinit every process slot but slot 0 is on the free list, in ascending order, slot 0
  alone is on the list of all processes, and there are no zombies.\<close>

lemma pqinit_lists:
  assumes "0 < nproc k"
  shows "list_from (freeproc (pqinit k)) (pqinit k) = Some [1 ..< nproc k] \<and>
    list_from (allproc (pqinit k)) (pqinit k) = Some [0] \<and> zombproc (pqinit k) = None"
proof -
  let ?k1 = "pqinit_loop (nproc k) (k\<lparr>freeproc := None\<rparr>)"
  have l: "lpath (\<lambda>x. p_nxt (procs ?k1 x)) (freeproc ?k1) ([1 ..< nproc k] @ [])" "nproc ?k1 = nproc k"
    using pqinit_loop_list [of "k\<lparr>freeproc := None\<rparr>" "[]" "nproc k"] assms by simp_all
  have "lpath (\<lambda>x. p_nxt (procs (pqinit k) x)) (freeproc (pqinit k)) [1 ..< nproc k] =
      lpath (\<lambda>x. p_nxt (procs ?k1 x)) (freeproc ?k1) [1 ..< nproc k]"
    unfolding pqinit_def Let_def by (simp) (intro lpath_cong, auto)
  then have f: "lpath (\<lambda>x. p_nxt (procs (pqinit k) x)) (freeproc (pqinit k)) [1 ..< nproc k]" using l(1) by simp
  have n: "nproc (pqinit k) = nproc k" using l(2) by (simp add: pqinit_def Let_def)
  have a: "lpath (\<lambda>x. p_nxt (procs (pqinit k) x)) (allproc (pqinit k)) [0]"
    by (simp add: pqinit_def Let_def)
  show ?thesis using walk_enough [OF f] walk_enough [OF a] assms n
    by (simp add: list_from_def) (simp add: pqinit_def Let_def)
qed

lemma pqinit_lists_witness: "list_from (freeproc (pqinit demo_kern)) (pqinit demo_kern) = Some [1 ..< 8]"
  using pqinit_lists [of demo_kern] by (simp add: demo_kern_def)

end
