(* ===== verification/Sig.thy ===== *)
theory Sig imports Sched begin

text \<open>
  Signals, \<open>src/sys/sys/kern_sig.c\<close>: the system calls that set dispositions and masks, kill, the
  posting of a signal to a process (psignal), the search for one to take (issig) and its delivery
  (psig). Arguments of a system call are arguments of its definition; handlers are code addresses.
\<close>

section \<open>Masks\<close>

definition cantmask :: sigset where
  "cantmask = or (sigmask SIGKILL) (or (sigmask SIGCONT) (sigmask SIGSTOP))"

definition stopsigmask :: sigset where
  "stopsigmask = or (sigmask SIGSTOP) (or (sigmask SIGTSTP) (or (sigmask SIGTTIN) (sigmask SIGTTOU)))"

section \<open>sigvec and its relatives\<close>

record sigvec_rec =
  sv_handler :: handler
  sv_mask :: sigset
  sv_flags :: u_int

abbreviation (input) "SV_ONSTACK \<equiv> 1 :: u_int"
abbreviation (input) "SV_INTERRUPT \<equiv> 2 :: u_int"

text \<open>A handler as the word in user memory: \<open>SIG_DFL\<close> is 0, \<open>SIG_IGN\<close> 1, and the kernel's
  \<open>SIG_CATCH\<close> and \<open>SIG_HOLD\<close> 2 and 3.\<close>

fun handler_word :: "handler \<Rightarrow> u_int" where
  "handler_word SIG_DFL = 0"
| "handler_word SIG_IGN = 1"
| "handler_word SIG_CATCH = 2"
| "handler_word SIG_HOLD = 3"
| "handler_word (Handler a) = a"

definition word_handler :: "u_int \<Rightarrow> handler" where
  "word_handler w = (if w = 0 then SIG_DFL else if w = 1 then SIG_IGN else if w = 2 then SIG_CATCH
     else if w = 3 then SIG_HOLD else Handler w)"

definition sigvec_words :: "sigvec_rec \<Rightarrow> u_int list" where
  "sigvec_words sv = handler_word (sv_handler sv) # long_words (sv_mask sv) @ [sv_flags sv]"

definition words_sigvec :: "u_int list \<Rightarrow> sigvec_rec" where
  "words_sigvec ws = \<lparr>sv_handler = word_handler (ws ! 0), sv_mask = words_long (ws ! 1) (ws ! 2),
     sv_flags = ws ! 3\<rparr>"

definition setsigvec :: "int \<Rightarrow> sigvec_rec \<Rightarrow> 'a kern_scheme \<Rightarrow> 'a kern_scheme" where
  "setsigvec sig sv k =
     (let bit = sigmask sig; p = u_procp (u k);
          k1 = upd_u (\<lambda>v. v\<lparr>u_signal := (u_signal v)(sig := sv_handler sv),
                 u_sigmask := (u_sigmask v)(sig := and (sv_mask sv) (not cantmask)),
                 u_sigintr := (if flag (sv_flags sv) SV_INTERRUPT then or (u_sigintr v) bit
                               else and (u_sigintr v) (not bit)),
                 u_sigonstack := (if flag (sv_flags sv) SV_ONSTACK then or (u_sigonstack v) bit
                                  else and (u_sigonstack v) (not bit))\<rparr>) k
      in if sv_handler sv = SIG_IGN then
           upd_proc p (\<lambda>q. q\<lparr>p_sig := and (p_sig q) (not bit), p_sigignore := or (p_sigignore q) bit,
             p_sigcatch := and (p_sigcatch q) (not bit)\<rparr>) k1
         else
           upd_proc p (\<lambda>q. q\<lparr>p_sigignore := and (p_sigignore q) (not bit),
             p_sigcatch := (if sv_handler sv = SIG_DFL then and (p_sigcatch q) (not bit)
                            else or (p_sigcatch q) bit)\<rparr>) k1)"

text \<open>The old vector, as \<open>sigvec\<close> copies it out.\<close>

definition old_sigvec :: "int \<Rightarrow> 'a kern_scheme \<Rightarrow> sigvec_rec" where
  "old_sigvec sig k =
     \<lparr>sv_handler = u_signal (u k) sig, sv_mask = u_sigmask (u k) sig,
      sv_flags = or (if and (u_sigonstack (u k)) (sigmask sig) \<noteq> 0 then SV_ONSTACK else 0)
                    (if and (u_sigintr (u k)) (sigmask sig) \<noteq> 0 then SV_INTERRUPT else 0)\<rparr>"

definition sigvec :: "u_int \<Rightarrow> int \<Rightarrow> u_int \<Rightarrow> u_int \<Rightarrow> 'a kern_scheme \<Rightarrow> 'a kern_scheme" where
  "sigvec sigtramp signo nsv osv k =
     (let k0 = upd_u (\<lambda>v. v\<lparr>u_pcb_sigc := sigtramp\<rparr>) k; sig = signo in
      if sig \<le> 0 \<or> sig \<ge> NSIG \<or> sig = SIGKILL \<or> sig = SIGSTOP then set_error EINVAL k0
      else
        let (e, m) = (if osv \<noteq> 0 then copyout_words (umem k0) osv (sigvec_words (old_sigvec sig k0))
                      else (NOERR, umem k0));
            k1 = (if osv \<noteq> 0 then set_error e (k0\<lparr>umem := m\<rparr>) else k0) in
        if e \<noteq> NOERR then k1
        else if nsv = 0 then k1
        else (case copyin_words (umem k1) nsv 4 of
          None \<Rightarrow> set_error EFAULT k1
        | Some ws \<Rightarrow>
            let sv = words_sigvec ws; k2 = set_error NOERR k1 in
            if sig = SIGCONT \<and> sv_handler sv = SIG_IGN then set_error EINVAL k2
            else setsigvec sig sv k2))"

definition sigblock :: "sigset \<Rightarrow> 'a kern_scheme \<Rightarrow> 'a kern_scheme" where
  "sigblock msk k =
     (let p = u_procp (u k); k1 = upd_u (\<lambda>v. v\<lparr>r_long := p_sigmask (procs k p)\<rparr>) k in
      upd_proc p (\<lambda>q. q\<lparr>p_sigmask := or (p_sigmask q) (and msk (not cantmask))\<rparr>) k1)"

definition sigsetmask :: "sigset \<Rightarrow> 'a kern_scheme \<Rightarrow> 'a kern_scheme" where
  "sigsetmask msk k =
     (let p = u_procp (u k); k1 = upd_u (\<lambda>v. v\<lparr>r_long := p_sigmask (procs k p)\<rparr>) k in
      upd_proc p (\<lambda>q. q\<lparr>p_sigmask := and msk (not cantmask)\<rparr>) k1)"

text \<open>\<open>sigpause\<close> up to the loop that sleeps on \<open>&u\<close> for ever: it is left by a signal only.\<close>

definition sigpause :: "sigset \<Rightarrow> 'a kern_scheme \<Rightarrow> 'a kern_scheme" where
  "sigpause msk k =
     (let p = u_procp (u k); k1 = upd_u (\<lambda>v. v\<lparr>u_oldmask := p_sigmask (procs k p)\<rparr>) k in
      upd_proc p (\<lambda>q. q\<lparr>p_flag := set_flag SOMASK (p_flag q), p_sigmask := and msk (not cantmask)\<rparr>) k1)"

definition sigstack_call :: "u_int \<Rightarrow> u_int \<Rightarrow> 'a kern_scheme \<Rightarrow> 'a kern_scheme" where
  "sigstack_call nss oss k =
     (let (e, m) = (if oss \<noteq> 0 then copyout_words (umem k) oss
                       [ss_sp (u_sigstack (u k)), ss_onstack (u_sigstack (u k))]
                    else (NOERR, umem k));
          k1 = (if oss \<noteq> 0 then set_error e (k\<lparr>umem := m\<rparr>) else k) in
      if e \<noteq> NOERR then k1
      else if nss = 0 then k1
      else (case copyin_words (umem k1) nss 2 of
        None \<Rightarrow> set_error EFAULT k1
      | Some ws \<Rightarrow> upd_u (\<lambda>v. v\<lparr>u_error := NOERR, u_sigstack := \<lparr>ss_sp = ws ! 0, ss_onstack = ws ! 1\<rparr>\<rparr>) k1))"

section \<open>Posting a signal\<close>

text \<open>\<open>stop\<close>.\<close>

definition pptr_chan :: "nat \<Rightarrow> 'a kern_scheme \<Rightarrow> u_int" where
  "pptr_chan p k = (case p_pptr (procs k p) of None \<Rightarrow> 0 | Some q \<Rightarrow> a_proc k q)"

definition stop :: "nat \<Rightarrow> 'a kern_scheme \<Rightarrow> 'a kern_scheme option" where
  "stop p k =
     (let k1 = upd_proc p (\<lambda>q. q\<lparr>p_stat := SSTOP, p_flag := clr_flag SWTED (p_flag q)\<rparr>) k in
      wakeup (pptr_chan p k1) k1)"

text \<open>The first part of psignal: the action the signal will have; \<open>None\<close>: it is ignored.\<close>

definition psig_action :: "int \<Rightarrow> proc \<Rightarrow> handler option" where
  "psig_action sig q =
     (let msk = sigmask sig in
      if flag (p_flag q) STRC then Some SIG_DFL
      else if and (p_sigignore q) msk \<noteq> 0 then None
      else if and (p_sigmask q) msk \<noteq> 0 then Some SIG_HOLD
      else if and (p_sigcatch q) msk \<noteq> 0 then Some SIG_CATCH
      else Some SIG_DFL)"

definition is_stop :: "int \<Rightarrow> bool" where
  "is_stop sig \<longleftrightarrow> sig = SIGSTOP \<or> sig = SIGTSTP \<or> sig = SIGTTIN \<or> sig = SIGTTOU"

text \<open>The second part: the signal becomes pending; a SIGKILL, or a SIGTERM that will have its default
  action, takes a positive nice value away; SIGCONT and the stop signals cancel each other.\<close>

definition psig_post :: "int \<Rightarrow> handler \<Rightarrow> proc \<Rightarrow> proc" where
  "psig_post sig action q =
     (let q1 = q\<lparr>p_sig := or (p_sig q) (sigmask sig)\<rparr> in
      if sig = SIGKILL \<or> sig = SIGTERM \<and> \<not> (flag (p_flag q) STRC \<or> action \<noteq> SIG_DFL) then
        (if p_nice q1 > NZERO then q1\<lparr>p_nice := NZERO\<rparr> else q1)
      else if sig = SIGCONT then q1\<lparr>p_sig := and (p_sig q1) (not stopsigmask)\<rparr>
      else if is_stop sig then q1\<lparr>p_sig := and (p_sig q1) (not (sigmask SIGCONT))\<rparr>
      else q1)"

text \<open>The label \<open>run\<close>, and taking the signal away again.\<close>

definition psig_run :: "nat \<Rightarrow> 'a kern_scheme \<Rightarrow> 'a kern_scheme option" where
  "psig_run p k =
     setrun p (if p_pri (procs k p) > PUSER then upd_proc p (\<lambda>q. q\<lparr>p_pri := PUSER\<rparr>) k else k)"

definition take_away :: "int \<Rightarrow> nat \<Rightarrow> 'a kern_scheme \<Rightarrow> 'a kern_scheme" where
  "take_away sig p = upd_proc p (\<lambda>q. q\<lparr>p_sig := and (p_sig q) (not (sigmask sig))\<rparr>)"

definition quiet_sig :: "int \<Rightarrow> bool" where
  "quiet_sig sig \<longleftrightarrow> sig = SIGIO \<or> sig = SIGURG \<or> sig = SIGCHLD \<or> sig = SIGWINCH"

text \<open>
  psignal. The recursive calls send SIGKILL and SIGCHLD, which do not recurse again. \<open>None\<close>: a
  process without a parent pointer is stopped, or a panic in setrun or wakeup.
\<close>

function psignal :: "nat \<Rightarrow> int \<Rightarrow> 'a kern_scheme \<Rightarrow> 'a kern_scheme option" where
  "psignal p sig k =
     (case psig_action sig (procs k p) of None \<Rightarrow> Some k
      | Some action \<Rightarrow>
        let k1 = upd_proc p (psig_post sig action) k; q = procs k1 p in
        if action = SIG_HOLD then Some k1
        else (case p_stat q of
          SSLEEP \<Rightarrow>
            if p_pri q \<le> PZERO then Some k1
            else if flag (p_flag q) STRC then psig_run p k1
            else if is_stop sig then
              (if action \<noteq> SIG_DFL then psig_run p k1
               else if sig \<noteq> SIGSTOP \<and> p_pptr q = Some 1 then
                 map_option (take_away sig p) (psignal p SIGKILL k1)
               else if flag (p_flag q) SVFORK then Some k1
               else
                 let k2 = upd_proc p (\<lambda>r. r\<lparr>p_cursig := sig\<rparr>) (take_away sig p k1) in
                 (case p_pptr q of None \<Rightarrow> None
                  | Some pp \<Rightarrow> Option.bind (psignal pp SIGCHLD k2) (stop p)))
            else if quiet_sig sig then
              (if action \<noteq> SIG_DFL then psig_run p k1 else Some (take_away sig p k1))
            else psig_run p k1
        | SSTOP \<Rightarrow>
            if flag (p_flag q) STRC then Some k1
            else if sig = SIGKILL then psig_run p k1
            else if sig = SIGCONT then
              (if action \<noteq> SIG_DFL \<or> p_wchan q = 0 then psig_run p k1
               else Some (upd_proc p (\<lambda>r. r\<lparr>p_stat := SSLEEP\<rparr>) k1))
            else if is_stop sig then Some (take_away sig p k1)
            else if p_wchan q \<noteq> 0 \<and> p_pri q > PZERO then unsleep p k1
            else Some k1
        | _ \<Rightarrow> Some k1))"
  by pat_completeness auto
termination
  by (relation "measure (\<lambda>(p, sig, k). if is_stop sig then 1 else 0)") (auto simp: is_stop_def)

declare psignal.simps [simp del]

section \<open>kill\<close>

definition gsignal :: "int \<Rightarrow> int \<Rightarrow> 'a kern_scheme \<Rightarrow> 'a kern_scheme option" where
  "gsignal pgrp sig k =
     (if pgrp = 0 then Some k
      else do {
        ps \<leftarrow> list_from (allproc k) k;
        fold (\<lambda>p st. Option.bind st (\<lambda>s. if p_pgrp (procs s p) = pgrp then psignal p sig s else Some s))
          ps (Some k)
      })"

text \<open>One turn of the loop of killpg1: the count \<open>f\<close>, the error, the state.\<close>

definition killpg1_visit ::
  "int \<Rightarrow> int \<Rightarrow> bool \<Rightarrow> nat \<Rightarrow> nat \<times> errno \<times> 'a kern_scheme \<Rightarrow> (nat \<times> errno \<times> 'a kern_scheme) option" where
  "killpg1_visit signo pgrp all p = (\<lambda>(f, error, k).
     (let q = procs k p in
      if (p_pgrp q \<noteq> pgrp \<and> \<not> all) \<or> p_ppid q = 0 \<or> flag (p_flag q) SSYS \<or> (all \<and> p = u_procp (u k))
      then Some (f, error, k)
      else do {
        denied \<leftarrow> (if u_uid (u k) \<noteq> 0 \<and> u_uid (u k) \<noteq> p_uid q then
                     (if signo \<noteq> SIGCONT then Some True else map_option Not (inferior p k))
                   else Some False);
        if denied then Some (f, if \<not> all then EPERM else error, k)
        else do {
          k1 \<leftarrow> (if signo \<noteq> 0 then psignal p signo k else Some k);
          Some (Suc f, error, k1)
        }
      }))"

definition killpg1 :: "int \<Rightarrow> int \<Rightarrow> bool \<Rightarrow> 'a kern_scheme \<Rightarrow> (errno \<times> 'a kern_scheme) option" where
  "killpg1 signo pgrp all k =
     (let pg = (if \<not> all \<and> pgrp = 0 then p_pgrp (procs k (u_procp (u k))) else pgrp) in
      if \<not> all \<and> pgrp = 0 \<and> pg = 0 then Some (ESRCH, k)
      else do {
        ps \<leftarrow> list_from (allproc k) k;
        (f, error, k1) \<leftarrow> fold (\<lambda>p st. Option.bind st (killpg1_visit signo pg all p)) ps (Some (0, NOERR, k));
        Some (if error \<noteq> NOERR then error else if f = 0 then ESRCH else NOERR, k1)
      })"

definition kill :: "int \<Rightarrow> int \<Rightarrow> 'a kern_scheme \<Rightarrow> 'a kern_scheme option" where
  "kill pid signo k =
     (if signo < 0 \<or> signo \<ge> NSIG then Some (set_error EINVAL k)
      else if pid > 0 then do {
        r \<leftarrow> pfind pid k;
        case r of None \<Rightarrow> Some (set_error ESRCH k)
        | Some p \<Rightarrow> do {
            denied \<leftarrow> (if u_uid (u k) \<noteq> 0 \<and> u_uid (u k) \<noteq> p_uid (procs k p) then
                         (if signo \<noteq> SIGCONT then Some True else map_option Not (inferior p k))
                       else Some False);
            if denied then Some (set_error EPERM k)
            else if signo \<noteq> 0 then psignal p signo k
            else Some k
          }
      }
      else do {
        (e, k1) \<leftarrow> (if pid = - 1 then killpg1 signo 0 True k
                    else if pid = 0 then killpg1 signo 0 False k
                    else killpg1 signo (wrap16 (- pid)) False k);
        Some (set_error e k1)
      })"

definition killpg :: "int \<Rightarrow> int \<Rightarrow> 'a kern_scheme \<Rightarrow> 'a kern_scheme option" where
  "killpg pgrp signo k =
     (if signo < 0 \<or> signo \<ge> NSIG then Some (set_error EINVAL k)
      else do { (e, k1) \<leftarrow> killpg1 signo pgrp False k; Some (set_error e k1) })"

section \<open>Taking a signal\<close>

text \<open>\<open>ffs\<close>: the number of the lowest bit that is set, counted from 1; 0 for no bit.\<close>

definition ffs :: "sigset \<Rightarrow> int" where
  "ffs w = (case find (bit w) [0 ..< 32] of None \<Rightarrow> 0 | Some i \<Rightarrow> int i + 1)"

text \<open>
  What \<open>issig\<close> comes to: no signal, the signal to send, or a point where the process stops and
  gives up the processor (\<open>swtch\<close>): \<open>Stopped\<close> goes back to the top of the loop when it runs
  again, \<open>Traced\<close> first asks its parent (\<open>procxmt\<close>); it carries the signal taken.
\<close>

datatype issig_out = NoSig | Send int | Stopped | Traced int

text \<open>The switch on \<open>u.u_signal[sig]\<close>; \<open>None\<close> is \<open>continue\<close> (or a \<open>break\<close> out of it).\<close>

definition issig_act :: "int \<Rightarrow> 'a kern_scheme \<Rightarrow> (issig_out option \<times> 'a kern_scheme) option" where
  "issig_act sig k =
     (let p = u_procp (u k); q = procs k p in
      case u_signal (u k) sig of
        SIG_DFL \<Rightarrow>
          if p_ppid q = 0 then Some (None, k)
          else if (sig = SIGTSTP \<or> sig = SIGTTIN \<or> sig = SIGTTOU) \<and> p_pptr q = Some 1 then
            map_option (Pair None) (psignal p SIGKILL k)
          else if is_stop sig then
            (if flag (p_flag q) STRC then Some (None, k)
             else (case p_pptr q of None \<Rightarrow> None
               | Some pp \<Rightarrow> map_option (Pair (Some Stopped)) (Option.bind (psignal pp SIGCHLD k) (stop p))))
          else if sig = SIGCONT \<or> quiet_sig sig then Some (None, k)
          else Some (Some (Send sig), k)
      | SIG_HOLD \<Rightarrow> Some (None, k)
      | SIG_IGN \<Rightarrow> Some (None, k)
      | _ \<Rightarrow> Some (Some (Send sig), k))"

text \<open>The signals the loop of issig looks at.\<close>

definition issig_bits :: "proc \<Rightarrow> sigset" where
  "issig_bits q =
     (let b = and (p_sig q) (not (p_sigmask q));
          b = (if \<not> flag (p_flag q) STRC then and b (not (p_sigignore q)) else b)
      in if flag (p_flag q) SVFORK then and b (not stopsigmask) else b)"

partial_function (option) issig :: "'a kern_scheme \<Rightarrow> (issig_out \<times> 'a kern_scheme) option" where
  "issig k =
     (let p = u_procp (u k); sig = ffs (issig_bits (procs k p)) in
      if issig_bits (procs k p) = 0 then Some (NoSig, upd_proc p (\<lambda>q. q\<lparr>p_cursig := 0\<rparr>) k)
      else
        let k1 = upd_proc p (\<lambda>q. q\<lparr>p_cursig := sig\<rparr>) (take_away sig p k) in
        if flag (p_flag (procs k1 p)) STRC then
          (case p_pptr (procs k1 p) of None \<Rightarrow> None
           | Some pp \<Rightarrow> Option.bind (psignal pp SIGCHLD k1)
                (\<lambda>k2. map_option (Pair (Traced sig)) (stop p k2)))
        else
          Option.bind (issig_act sig k1) (\<lambda>(r, k2).
            case r of None \<Rightarrow> issig k2 | Some out \<Rightarrow> Some (out, k2)))"

text \<open>The rest of the traced branch, when the process runs again and \<open>procxmt()\<close> has returned
  \<open>done\<close>: stop again, rescan, or take what the parent left in \<open>p_cursig\<close>.\<close>

definition issig_traced :: "bool \<Rightarrow> int \<Rightarrow> 'a kern_scheme \<Rightarrow> (issig_out \<times> 'a kern_scheme) option" where
  "issig_traced finished sig0 k =
     (let p = u_procp (u k); q = procs k p; put_back = (\<lambda>s. upd_proc p (\<lambda>r. r\<lparr>p_sig := or (p_sig r) (sigmask s)\<rparr>)) in
      if \<not> finished \<and> flag (p_flag q) STRC then map_option (Pair (Traced sig0)) (stop p k)
      else if \<not> flag (p_flag q) STRC then issig (put_back sig0 k)
      else
        let sig = p_cursig q in
        if sig = 0 then issig k
        else if and (p_sigmask q) (sigmask sig) \<noteq> 0 then issig (put_back sig k)
        else Option.bind (issig_act sig k) (\<lambda>(r, k2). case r of None \<Rightarrow> issig k2 | Some out \<Rightarrow> Some (out, k2)))"

text \<open>The macro \<open>ISSIG\<close>'s test before it calls issig.\<close>

definition ISSIG_test :: "proc \<Rightarrow> bool" where
  "ISSIG_test q \<longleftrightarrow> p_sig q \<noteq> 0 \<and>
     (flag (p_flag q) STRC \<or> and (p_sig q) (not (or (p_sigignore q) (p_sigmask q))) \<noteq> 0)"

section \<open>Delivery\<close>

text \<open>The saved registers (reg.h) and the bits of the processor status (psl.h).\<close>

abbreviation (input) "R0 \<equiv> 0 :: int"
abbreviation (input) "R1 \<equiv> - 3 :: int"
abbreviation (input) "R5 \<equiv> - 7 :: int"
abbreviation (input) "R6 \<equiv> - 4 :: int"
abbreviation (input) "R7 \<equiv> 1 :: int"
abbreviation (input) "RPS \<equiv> 2 :: int"
abbreviation (input) "PSL_T \<equiv> 0x10 :: u_int"
abbreviation (input) "PSL_USERCLR \<equiv> 0xe0 :: u_int"
abbreviation (input) "PSL_USERSET \<equiv> 0xf000 :: u_int"

definition USERMODE :: "u_int \<Rightarrow> bool" where
  "USERMODE ps \<longleftrightarrow> and ps PSL_USERSET = PSL_USERSET"

text \<open>struct sigcontext (10 words), behind the three words of struct sigframe.\<close>

record sigcontext =
  sc_onstack :: u_int
  sc_mask :: sigset
  sc_sp :: u_int
  sc_fp :: u_int
  sc_r1 :: u_int
  sc_r0 :: u_int
  sc_pc :: u_int
  sc_ps :: u_int
  sc_ovno :: u_int

definition context_words :: "sigcontext \<Rightarrow> u_int list" where
  "context_words sc = sc_onstack sc # long_words (sc_mask sc) @
     [sc_sp sc, sc_fp sc, sc_r1 sc, sc_r0 sc, sc_pc sc, sc_ps sc, sc_ovno sc]"

definition words_context :: "u_int list \<Rightarrow> sigcontext" where
  "words_context ws = \<lparr>sc_onstack = ws ! 0, sc_mask = words_long (ws ! 1) (ws ! 2), sc_sp = ws ! 3,
     sc_fp = ws ! 4, sc_r1 = ws ! 5, sc_r0 = ws ! 6, sc_pc = ws ! 7, sc_ps = ws ! 8, sc_ovno = ws ! 9\<rparr>"

text \<open>The part of \<open>sendsig\<close> behind the check of the stack: the frame goes to \<open>n\<close> (the result of
  copyout is not looked at), and the handler is entered through the trampoline.\<close>

definition build_frame :: "handler \<Rightarrow> int \<Rightarrow> sigset \<Rightarrow> u_int \<Rightarrow> u_int \<Rightarrow> 'a kern_scheme \<Rightarrow> 'a kern_scheme" where
  "build_frame p sig msk oonstack n k =
     (let v = u k; regs = u_ar0 v; coded = (sig = 4 \<or> sig = 8);
          sc = \<lparr>sc_onstack = oonstack, sc_mask = msk, sc_sp = regs R6, sc_fp = regs R5, sc_r1 = regs R1,
                sc_r0 = regs R0, sc_pc = regs R7, sc_ps = regs RPS,
                sc_ovno = (if uo_ovbase v \<noteq> 0 then uo_curov v else 0)\<rparr>;
          sf = [word_of_int sig, if coded then u_code v else 0, n + 6] @ context_words sc;
          regs' = regs(R0 := handler_word p, R6 := n, R7 := u_pcb_sigc v, RPS := and (regs RPS) (not PSL_T))
      in (upd_u (\<lambda>v. v\<lparr>u_code := (if coded then 0 else u_code v), u_ar0 := regs'\<rparr>) k)
           \<lparr>umem := snd (copyout_words (umem k) n sf)\<rparr>)"

text \<open>The user's stack is beyond repair: an illegal-instruction signal that cannot be caught.\<close>

definition stack_trashed :: "'a kern_scheme \<Rightarrow> 'a kern_scheme option" where
  "stack_trashed k =
     (let k1 = upd_u (\<lambda>v. v\<lparr>u_signal := (u_signal v)(4 := SIG_DFL)\<rparr>) k; m = not (sigmask 4); p = u_procp (u k1) in
      psignal p 4 (upd_proc p (\<lambda>q. q\<lparr>p_sigignore := and (p_sigignore q) m, p_sigcatch := and (p_sigcatch q) m,
        p_sigmask := and (p_sigmask q) m\<rparr>) k1))"

text \<open>
  \<open>sendsig\<close> (machdep.c). \<open>grow\<close> (kern_mman.c: extends the stack segment, with the memory
  management of the machine) is an argument; it says whether it succeeded.
\<close>

definition sendsig ::
  "(u_int \<Rightarrow> 'a kern_scheme \<Rightarrow> bool \<times> 'a kern_scheme) \<Rightarrow> handler \<Rightarrow> int \<Rightarrow> sigset \<Rightarrow> 'a kern_scheme \<Rightarrow>
   'a kern_scheme option" where
  "sendsig grow p sig msk k =
     (let v = u k; oonstack = ss_onstack (u_sigstack v);
          alt = (oonstack = 0 \<and> and (u_sigonstack v) (sigmask sig) \<noteq> 0);
          n = (if alt then ss_sp (u_sigstack v) else u_ar0 v R6) - 26;
          k1 = (if alt then upd_u (\<lambda>v. v\<lparr>u_sigstack := (u_sigstack v)\<lparr>ss_onstack := 1\<rparr>\<rparr>) k else k)
      in if ss_onstack (u_sigstack (u k1)) = 0 \<and> n < - push_bit 6 (u_ssize v) then
           (case grow n k1 of
             (True, k2) \<Rightarrow> Some (build_frame p sig msk oonstack n k2)
           | (False, k2) \<Rightarrow> stack_trashed k2)
         else Some (build_frame p sig msk oonstack n k1))"

text \<open>\<open>sigreturn\<close>: the system call the trampoline makes when the handler returns.\<close>

definition sigreturn :: "u_int \<Rightarrow> 'a kern_scheme \<Rightarrow> 'a kern_scheme" where
  "sigreturn scp k =
     (case copyin_words (umem k) scp 10 of None \<Rightarrow> set_error EFAULT k
      | Some ws \<Rightarrow>
         let sc = words_context ws; k1 = set_error NOERR k in
         if and (sc_ps sc) PSL_USERCLR \<noteq> 0 \<or> \<not> USERMODE (sc_ps sc) then set_error EINVAL k1
         else
           let k2 = upd_u (\<lambda>v. v\<lparr>u_eosys := 1,
                 u_sigstack := (u_sigstack v)\<lparr>ss_onstack := and (sc_onstack sc) 1\<rparr>,
                 u_ar0 := (u_ar0 v)(R6 := sc_sp sc, R5 := sc_fp sc, R1 := sc_r1 sc, R0 := sc_r0 sc,
                   R7 := sc_pc sc, RPS := sc_ps sc)\<rparr>) k1
           in upd_proc (u_procp (u k2)) (\<lambda>q. q\<lparr>p_sigmask := and (sc_mask sc) (not cantmask)\<rparr>) k2)"

text \<open>psig either enters the handler or ends the process with a status.\<close>

datatype 'k psig_out = Delivered 'k | Exit int 'k

definition dumps_core :: "int \<Rightarrow> bool" where
  "dumps_core sig \<longleftrightarrow> sig \<in> {4, 6, 10, 3, 5, 7, 8, 11, 12}"

text \<open>\<open>core\<close> (writes the image through the file system) is an argument; it returns whether it
  succeeded.\<close>

definition psig ::
  "(u_int \<Rightarrow> 'a kern_scheme \<Rightarrow> bool \<times> 'a kern_scheme) \<Rightarrow> ('a kern_scheme \<Rightarrow> bool \<times> 'a kern_scheme) \<Rightarrow>
   'a kern_scheme \<Rightarrow> 'a kern_scheme psig_out option" where
  "psig grow core k =
     (let p = u_procp (u k); sig = p_cursig (procs k p); msk = sigmask sig; action = u_signal (u k) sig in
      if action \<noteq> SIG_DFL then
        let k1 = set_error NOERR k;
            somask = flag (p_flag (procs k1 p)) SOMASK;
            returnmask = (if somask then u_oldmask (u k1) else p_sigmask (procs k1 p));
            k2 = (if somask then upd_proc p (\<lambda>q. q\<lparr>p_flag := clr_flag SOMASK (p_flag q)\<rparr>) k1 else k1);
            k3 = upd_proc p (\<lambda>q. q\<lparr>p_sigmask := or (p_sigmask q) (or (u_sigmask (u k2) sig) msk)\<rparr>) k2;
            k4 = upd_u (\<lambda>v. v\<lparr>u_ru := (u_ru v)\<lparr>ru_nsignals := wrap32 (ru_nsignals (u_ru v) + 1)\<rparr>\<rparr>) k3
        in map_option (\<lambda>s. Delivered (upd_proc p (\<lambda>q. q\<lparr>p_cursig := 0\<rparr>) s))
             (sendsig grow action sig returnmask k4)
      else
        let k1 = upd_u (\<lambda>v. v\<lparr>u_acflag := or (u_acflag v) 0x10\<rparr>) k in
        if dumps_core sig then
          (case core k1 of (True, k2) \<Rightarrow> Some (Exit (sig + 128) k2) | (False, k2) \<Rightarrow> Some (Exit sig k2))
        else Some (Exit sig k1))"

end
