(* ===== verification/SigSpec.thy ===== *)
theory SigSpec imports Sig SchedProps begin

text \<open>
  Lemmas on masks, on stop and on psignal: it never panics on a system in order, keeps the queues in
  order, and what it does to the process it is sent to.
\<close>

section \<open>Masks\<close>

lemma bit_sigmask: "bit (sigmask s) i \<longleftrightarrow> 1 \<le> s \<and> s \<le> 32 \<and> i = nat (s - 1)"
  by (auto simp: sigmask_def bit_push_bit_iff bit_1_iff bit_exp_iff)

lemma sigmask_nz: "1 \<le> s \<Longrightarrow> s \<le> 32 \<Longrightarrow> sigmask s \<noteq> 0"
  using bit_sigmask [of s "nat (s - 1)"] by auto

lemma and_sigmask: "and w (sigmask s) \<noteq> 0 \<longleftrightarrow> 1 \<le> s \<and> s \<le> 32 \<and> bit w (nat (s - 1))"
  (is "?l \<longleftrightarrow> ?r")
proof
  assume ?l
  then obtain i where "bit (and w (sigmask s)) i" by (metis bit_0_eq bit_eqI bot_apply bot_bool_def)
  then show ?r by (auto simp: bit_and_iff bit_sigmask)
next
  assume ?r
  then have "bit (and w (sigmask s)) (nat (s - 1))" by (simp add: bit_and_iff bit_sigmask)
  then show ?l by auto
qed

text \<open>A signal is in a set.\<close>

definition has_sig :: "sigset \<Rightarrow> int \<Rightarrow> bool" where
  "has_sig w s \<longleftrightarrow> and w (sigmask s) \<noteq> 0"

lemma has_sig_iff: "has_sig w s \<longleftrightarrow> 1 \<le> s \<and> s \<le> 32 \<and> bit w (nat (s - 1))"
  by (simp add: has_sig_def and_sigmask)

lemma has_sig_sigmask: "has_sig (sigmask t) s \<longleftrightarrow> s = t \<and> 1 \<le> t \<and> t \<le> 32"
  by (auto simp: has_sig_iff bit_sigmask)

lemma has_sig_or [simp]: "has_sig (or v w) s \<longleftrightarrow> has_sig v s \<or> has_sig w s"
  by (auto simp: has_sig_iff bit_or_iff)

lemma has_sig_and: "has_sig (and v w) s \<longleftrightarrow> has_sig v s \<and> has_sig w s"
  by (auto simp: has_sig_iff bit_and_iff)

lemma has_sig_not: "1 \<le> s \<Longrightarrow> s \<le> 32 \<Longrightarrow> has_sig (not w) s \<longleftrightarrow> \<not> has_sig w s"
  by (auto simp: has_sig_iff bit_not_iff_eq)

lemma has_sig_range: "has_sig w s \<Longrightarrow> 1 \<le> s \<and> s \<le> 32"
  by (simp add: has_sig_iff)

lemma has_sig_diff: "has_sig (and v (not w)) s \<longleftrightarrow> has_sig v s \<and> \<not> has_sig w s"
  using has_sig_not has_sig_range by (auto simp: has_sig_and)

lemma has_sig_zero [simp]: "\<not> has_sig 0 s"
  by (simp add: has_sig_def)

lemma has_cantmask: "has_sig cantmask s \<longleftrightarrow> s = SIGKILL \<or> s = SIGCONT \<or> s = SIGSTOP"
  by (auto simp: cantmask_def has_sig_sigmask)

lemma has_stopsigmask: "has_sig stopsigmask s \<longleftrightarrow> is_stop s"
  by (auto simp: stopsigmask_def has_sig_sigmask is_stop_def)

lemma psig_action_has:
  "psig_action sig q = (if flag (p_flag q) STRC then Some SIG_DFL
     else if has_sig (p_sigignore q) sig then None
     else if has_sig (p_sigmask q) sig then Some SIG_HOLD
     else if has_sig (p_sigcatch q) sig then Some SIG_CATCH else Some SIG_DFL)"
  by (simp add: psig_action_def has_sig_def Let_def)

lemma psig_post_fields [simp]:
  "p_stat (psig_post s a q) = p_stat q" "p_wchan (psig_post s a q) = p_wchan q"
  "p_link (psig_post s a q) = p_link q" "p_flag (psig_post s a q) = p_flag q"
  "p_pri (psig_post s a q) = p_pri q" "p_pptr (psig_post s a q) = p_pptr q"
  "p_ppid (psig_post s a q) = p_ppid q" "p_cursig (psig_post s a q) = p_cursig q"
  "p_sigmask (psig_post s a q) = p_sigmask q" "p_sigignore (psig_post s a q) = p_sigignore q"
  "p_sigcatch (psig_post s a q) = p_sigcatch q" "p_uid (psig_post s a q) = p_uid q"
  "p_pid (psig_post s a q) = p_pid q" "p_pgrp (psig_post s a q) = p_pgrp q"
  "p_nxt (psig_post s a q) = p_nxt q" "p_prev (psig_post s a q) = p_prev q"
  "p_idhash (psig_post s a q) = p_idhash q" "p_realtimer (psig_post s a q) = p_realtimer q"
  by (simp_all add: psig_post_def Let_def)

lemma psig_post_sig:
  "has_sig (p_sig (psig_post s a q)) t \<longleftrightarrow>
     (has_sig (p_sig q) t \<or> t = s \<and> 1 \<le> s \<and> s \<le> 32) \<and>
     (s = SIGCONT \<longrightarrow> \<not> is_stop t) \<and> (is_stop s \<longrightarrow> t \<noteq> SIGCONT)"
  by (auto simp: psig_post_def Let_def has_sig_sigmask has_sig_diff has_stopsigmask is_stop_def)

section \<open>Updates that leave the queues alone\<close>

lemma queues_upd:
  assumes "queues k Q S" "\<And>q. p_link (f q) = p_link q" "\<And>q. p_wchan (f q) = p_wchan q"
    and "p \<in> set Q \<longrightarrow> p_stat (f (procs k p)) = p_stat (procs k p) \<and>
      flag (p_flag (f (procs k p))) SLOAD = flag (p_flag (procs k p)) SLOAD"
  shows "queues (upd_proc p f k) Q S"
  by (rule queues_cong [OF assms(1)]) (use assms in auto)

lemma sched_ok_upd:
  assumes "sched_ok k" "\<And>q. p_link (f q) = p_link q" "\<And>q. p_wchan (f q) = p_wchan q"
    and "\<And>q. p_stat (f q) = p_stat q" "\<And>q. p_flag (f q) = p_flag q"
  shows "sched_ok (upd_proc p f k)"
  using assms(1) queues_upd [OF _ assms(2,3)] assms(4,5) unfolding sched_ok_def by metis

lemma sleepers_ok_upd:
  assumes "sleepers_ok k" "\<And>q. p_wchan (f q) = p_wchan q" "\<And>q. p_stat (f q) = p_stat q"
  shows "sleepers_ok (upd_proc p f k)"
  using assms by (simp add: sleepers_ok_def)

text \<open>The addresses of the swapper's channel and of the processes are not NULL.\<close>

definition addrs_ok :: "'a kern_scheme \<Rightarrow> bool" where
  "addrs_ok k \<longleftrightarrow> a_runout k \<noteq> 0 \<and> (\<forall>q. a_proc k q \<noteq> 0)"

lemma addrs_ok_upd [simp]: "addrs_ok (upd_proc p f k) = addrs_ok k"
  by (simp add: addrs_ok_def)

lemma addrs_ok_core: "same_core k k' \<Longrightarrow> addrs_ok k' = addrs_ok k"
  by (simp add: addrs_ok_def same_core_def)

lemma on_runq_stat: "sched_ok k \<Longrightarrow> on_runq k p \<Longrightarrow> stat k p = SRUN \<and> wchan k p = 0 \<and> loaded k p"
proof -
  assume "sched_ok k" "on_runq k p"
  then obtain Q S where q: "queues k Q S" by (auto simp: sched_ok_def)
  then show ?thesis using on_runq_queues [OF q] \<open>on_runq k p\<close> by (simp add: queues_def)
qed

lemma on_runq_upd:
  assumes "\<And>q. p_link (f q) = p_link q"
  shows "on_runq (upd_proc p f k) x = on_runq k x"
proof -
  have "lnk (upd_proc p f k) = lnk k" using assms by auto
  then show ?thesis by (simp add: on_runq_def)
qed

section \<open>stop\<close>

lemma stop_ok:
  assumes "sched_ok k" "sleepers_ok k" "addrs_ok k" "\<not> on_runq k p" "p_pptr (procs k p) = Some pp"
  obtains k' where "stop p k = Some k'" "sched_ok k'" "sleepers_ok k'"
    "same_core (upd_proc p (\<lambda>q. q\<lparr>p_stat := SSTOP, p_flag := clr_flag SWTED (p_flag q)\<rparr>) k) k'"
    "stat k' p = SSTOP" "wchan k p \<noteq> a_proc k pp \<Longrightarrow> (k_runout k \<longrightarrow> wchan k p \<noteq> a_runout k) \<Longrightarrow> wchan k' p = wchan k p"
    "\<not> on_runq k' p" "woke (if k_runout k then {a_proc k pp, a_runout k} else {a_proc k pp})
      (upd_proc p (\<lambda>q. q\<lparr>p_stat := SSTOP, p_flag := clr_flag SWTED (p_flag q)\<rparr>) k) k'"
proof -
  define k1 where "k1 = upd_proc p (\<lambda>q. q\<lparr>p_stat := SSTOP, p_flag := clr_flag SWTED (p_flag q)\<rparr>) k"
  obtain Q S where q: "queues k Q S" using assms(1) by (auto simp: sched_ok_def)
  have pQ: "p \<notin> set Q" using assms(4) on_runq_queues [OF q] by simp
  have q1: "queues k1 Q S" unfolding k1_def by (rule queues_upd [OF q]) (use pQ in auto)
  then have s1: "sched_ok k1" by (auto simp: sched_ok_def)
  have sl1: "sleepers_ok k1" using assms(2) by (auto simp: sleepers_ok_def k1_def)
  have a: "pptr_chan p k1 = a_proc k pp" "a_proc k pp \<noteq> 0" "a_runout k1 \<noteq> 0"
    using assms(3,5) by (simp_all add: pptr_chan_def addrs_ok_def k1_def)
  obtain k' where w: "wakeup (a_proc k pp) k1 = Some k'" "sched_ok k'" "sleepers_ok k'"
    "woke (if k_runout k1 then {a_proc k pp, a_runout k1} else {a_proc k pp}) k1 k'"
    using wakeup_ok [OF s1 sl1 a(2,3)] by metis
  have st: "stop p k = Some k'" using w(1) a(1) by (simp add: stop_def Let_def k1_def)
  have e: "(wchan k' p = wchan k p \<and> stat k' p = SSTOP \<and> (on_runq k' p \<longleftrightarrow> on_runq k1 p)) \<or>
     (wchan k p \<in> (if k_runout k then {a_proc k pp, a_runout k} else {a_proc k pp}) \<and>
      wchan k' p = 0 \<and> stat k' p = SSTOP \<and> \<not> on_runq k' p)"
  proof -
    have p1: "wchan k1 p = wchan k p" "stat k1 p = SSTOP" "k_runout k1 = k_runout k" "a_runout k1 = a_runout k" by (simp_all add: k1_def)
    have "(wchan k' p = wchan k1 p \<and> stat k' p = stat k1 p \<and> (on_runq k' p \<longleftrightarrow> on_runq k1 p)) \<or>
        (wchan k1 p \<in> (if k_runout k1 then {a_proc k pp, a_runout k1} else {a_proc k pp}) \<and> wchan k1 p \<noteq> 0 \<and>
         wchan k' p = 0 \<and> stat k' p = (if stat k1 p = SSLEEP then SRUN else stat k1 p) \<and>
         (on_runq k' p \<longleftrightarrow> stat k1 p = SSLEEP \<and> loaded k1 p))"
      using w(4) unfolding woke_def by blast
    then show ?thesis unfolding p1 by (simp split del: if_split) blast
  qed
  have notrun: "\<not> on_runq k1 p" using on_runq_queues [OF q1] pQ by simp
  show thesis
  proof (rule that [OF st w(2,3)])
    show "same_core (upd_proc p (\<lambda>q. q\<lparr>p_stat := SSTOP, p_flag := clr_flag SWTED (p_flag q)\<rparr>) k) k'"
      unfolding k1_def [symmetric] using w(4) by (simp add: woke_def)
    show "stat k' p = SSTOP" using e by blast
    show "wchan k p \<noteq> a_proc k pp \<Longrightarrow> (k_runout k \<longrightarrow> wchan k p \<noteq> a_runout k) \<Longrightarrow> wchan k' p = wchan k p"
      using e by (auto split: if_splits)
    show "\<not> on_runq k' p" using e notrun by blast
    show "woke (if k_runout k then {a_proc k pp, a_runout k} else {a_proc k pp})
      (upd_proc p (\<lambda>q. q\<lparr>p_stat := SSTOP, p_flag := clr_flag SWTED (p_flag q)\<rparr>) k) k'"
      using w(4) by (simp add: k1_def split: if_splits)
  qed
qed

section \<open>The invariant of signal posting\<close>

text \<open>What posting a signal leaves alone in every process (\<open>SWTED\<close> apart, which stop clears), and
  in the system.\<close>

definition ident :: "proc \<Rightarrow> _" where
  "ident q = (p_nxt q, p_prev q, p_pptr q, clr_flag SWTED (p_flag q), p_uid q, p_pid q, p_ppid q,
     p_idhash q, p_sigmask q, p_sigignore q, p_sigcatch q, p_pgrp q, p_realtimer q)"

definition globals_of :: "'a kern_scheme \<Rightarrow> _" where
  "globals_of k = (u k, nproc k, allproc k, zombproc k, pidhash k, umem k, curpri k, a_runout k, a_proc k,
     a_lbolt k, a_runin k, k_runin k, a_u k)"

definition live :: "'a kern_scheme \<Rightarrow> nat \<Rightarrow> bool" where
  "live k q \<longleftrightarrow> stat k q \<in> {SSLEEP, SSTOP, SRUN}"

definition sig_frame :: "'a kern_scheme \<Rightarrow> 'a kern_scheme \<Rightarrow> bool" where
  "sig_frame k k' \<longleftrightarrow> (\<forall>q. ident (procs k' q) = ident (procs k q) \<and>
     (wchan k' q = wchan k q \<or> wchan k' q = 0) \<and> (live k' q \<longleftrightarrow> live k q)) \<and> globals_of k' = globals_of k"

text \<open>Process 0 is the swapper, and the only one that waits for \<open>runout\<close>; its parent's pid and its
  process group are 0. Every other process has a parent, which is not itself.\<close>

definition sig_inv :: "'a kern_scheme \<Rightarrow> bool" where
  "sig_inv k \<longleftrightarrow> sched_ok k \<and> sleepers_ok k \<and> addrs_ok k \<and> (\<forall>q. wchan k q = a_runout k \<longrightarrow> q = 0) \<and>
     (\<forall>q. q \<noteq> 0 \<and> live k q \<longrightarrow> p_pptr (procs k q) \<noteq> None \<and> p_pptr (procs k q) \<noteq> Some q) \<and>
     p_ppid (procs k 0) = 0 \<and> p_pgrp (procs k 0) = 0"

lemma sig_frame_refl [simp]: "sig_frame k k"
  by (simp add: sig_frame_def)

lemma sig_frame_trans: "sig_frame k k' \<Longrightarrow> sig_frame k' k'' \<Longrightarrow> sig_frame k k''"
  unfolding sig_frame_def by metis

lemma sig_frame_inv:
  assumes "sig_inv k" "sig_frame k k'" "sched_ok k'" "sleepers_ok k'"
  shows "sig_inv k'"
proof -
  have g: "a_runout k' = a_runout k" "a_proc k' = a_proc k"
    using assms(2) by (simp_all add: sig_frame_def globals_of_def)
  have pp: "p_pptr (procs k' q) = p_pptr (procs k q)" "p_ppid (procs k' q) = p_ppid (procs k q)"
    "p_pgrp (procs k' q) = p_pgrp (procs k q)" for q
    using assms(2) by (simp_all add: sig_frame_def ident_def)
  have w: "wchan k' q = wchan k q \<or> wchan k' q = 0" "live k' q \<longleftrightarrow> live k q" for q
    using assms(2) by (auto simp: sig_frame_def)
  have "addrs_ok k'" "a_runout k' \<noteq> 0" using assms(1) g by (simp_all add: sig_inv_def addrs_ok_def)
  moreover have "wchan k' q = a_runout k' \<longrightarrow> q = 0" for q
    using w(1) [of q] assms(1) g(1) \<open>a_runout k' \<noteq> 0\<close> by (auto simp: sig_inv_def)
  ultimately show ?thesis using assms(1,3,4) pp w(2) by (simp add: sig_inv_def)
qed

lemma core_ident: "core_of q' = core_of q \<Longrightarrow> ident q' = ident q"
  by (simp add: core_of_def ident_def)

lemma same_core_globals: "same_core k k' \<Longrightarrow> globals_of k' = globals_of k"
  by (simp add: same_core_def globals_of_def)

lemma same_core_proc: "same_core k k' \<Longrightarrow> core_of (procs k' q) = core_of (procs k q)"
  by (simp add: same_core_def)

lemma woke_frame: "woke C k k' \<Longrightarrow> sig_frame k k'"
proof -
  assume w: "woke C k k'"
  then have c: "same_core k k'" by (simp add: woke_def)
  have "(wchan k' q = wchan k q \<or> wchan k' q = 0) \<and> (live k' q \<longleftrightarrow> live k q)" for q
    using w unfolding woke_def live_def by (metis insert_iff)
  then show ?thesis unfolding sig_frame_def
    using core_ident [OF same_core_proc [OF c]] same_core_globals [OF c] by blast
qed

lemma setrun_frame:
  assumes "same_core k k'" "stat k' p = SRUN" "wchan k' p = 0" "others_kept p k k'" "live k p"
  shows "sig_frame k k'"
proof -
  have "(wchan k' q = wchan k q \<or> wchan k' q = 0) \<and> (live k' q \<longleftrightarrow> live k q)" for q
  proof (cases "q = p")
    case True
    then show ?thesis using assms by (simp add: live_def)
  next
    case False
    then show ?thesis using assms(4) unfolding others_kept_def live_def by (metis insert_iff)
  qed
  then show ?thesis unfolding sig_frame_def
    using core_ident [OF same_core_proc [OF assms(1)]] same_core_globals [OF assms(1)] by blast
qed

lemma upd_frame:
  assumes "\<And>q. ident (f q) = ident q" "\<And>q. p_wchan (f q) = p_wchan q"
    and "p_stat (f (procs k p)) = p_stat (procs k p)"
  shows "sig_frame k (upd_proc p f k)"
  using assms by (simp add: sig_frame_def live_def globals_of_def)

lemma and_clr:
  fixes b c f :: "'a :: len word"
  assumes "and b c = 0"
  shows "and (and f (not c)) b = and f b"
proof (rule bit_word_eqI)
  fix n assume "n < LENGTH('a)"
  then show "bit (and (and f (not c)) b) n = bit (and f b) n"
    using bit_and_iff [of b c n] assms by (auto simp: bit_and_iff bit_not_iff_eq possible_bit_word)
qed

lemma ident_flag:
  assumes "ident q' = ident q" "and b SWTED = 0"
  shows "flag (p_flag q') b = flag (p_flag q) b"
proof -
  have "and f b = and (clr_flag SWTED f) b" for f
    unfolding clr_flag_def by (rule and_clr [OF assms(2), symmetric])
  moreover have "clr_flag SWTED (p_flag q') = clr_flag SWTED (p_flag q)"
    using assms(1) by (simp add: ident_def)
  ultimately show ?thesis unfolding flag_def by metis
qed

lemma frame_flags:
  assumes "sig_frame k k'"
  shows "loaded k' q = loaded k q" "flag (p_flag (procs k' q)) STRC = flag (p_flag (procs k q)) STRC"
    "flag (p_flag (procs k' q)) SVFORK = flag (p_flag (procs k q)) SVFORK"
    "flag (p_flag (procs k' q)) SSYS = flag (p_flag (procs k q)) SSYS"
  using ident_flag [of "procs k' q" "procs k q"] assms by (simp_all add: sig_frame_def)

text \<open>The processes other than \<open>p\<close>: nothing but what waking the swapper does.\<close>

definition others_same :: "nat \<Rightarrow> 'a kern_scheme \<Rightarrow> 'a kern_scheme \<Rightarrow> bool" where
  "others_same p k k' \<longleftrightarrow> (\<forall>x. x \<noteq> p \<longrightarrow> core_of (procs k' x) = core_of (procs k x) \<and>
     (wchan k x \<noteq> a_runout k \<longrightarrow> wchan k' x = wchan k x \<and> stat k' x = stat k x \<and>
        (on_runq k' x \<longleftrightarrow> on_runq k x)))"

lemma others_same_upd:
  assumes "\<And>q. p_link (f q) = p_link q"
  shows "others_same p k (upd_proc p f k)"
  using on_runq_upd [of f p k] assms by (simp add: others_same_def)

lemma others_same_trans:
  "others_same p k k' \<Longrightarrow> others_same p k' k'' \<Longrightarrow> a_runout k' = a_runout k \<Longrightarrow> others_same p k k''"
  unfolding others_same_def by metis

lemma sig_inv_upd:
  assumes "sig_inv k" "\<And>q. ident (f q) = ident q" "\<And>q. p_wchan (f q) = p_wchan q"
    and "\<And>q. p_stat (f q) = p_stat q" "\<And>q. p_link (f q) = p_link q" "\<And>q. p_flag (f q) = p_flag q"
  shows "sig_inv (upd_proc p f k)" "sig_frame k (upd_proc p f k)" "others_same p k (upd_proc p f k)"
proof -
  show f: "sig_frame k (upd_proc p f k)" using upd_frame assms(2-4) by blast
  show "sig_inv (upd_proc p f k)"
  proof (rule sig_frame_inv [OF assms(1) f])
    show "sched_ok (upd_proc p f k)" by (rule sched_ok_upd) (use assms in \<open>simp_all add: sig_inv_def\<close>)
    show "sleepers_ok (upd_proc p f k)" by (rule sleepers_ok_upd) (use assms in \<open>simp_all add: sig_inv_def\<close>)
  qed
  show "others_same p k (upd_proc p f k)" by (rule others_same_upd) (rule assms(5))
qed

lemma psig_run_ok:
  assumes "sig_inv k" "stat k p = SSLEEP \<or> stat k p = SSTOP"
  obtains k' where "psig_run p k = Some k'" "sig_inv k'" "sig_frame k k'" "others_same p k k'"
    "stat k' p = SRUN" "wchan k' p = 0" "on_runq k' p \<longleftrightarrow> loaded k p" "p_sig (procs k' p) = p_sig (procs k p)"
    "p_cursig (procs k' p) = p_cursig (procs k p)"
proof -
  define k1 where "k1 = (if p_pri (procs k p) > PUSER then upd_proc p (\<lambda>q. q\<lparr>p_pri := PUSER\<rparr>) k else k)"
  have k1: "sig_inv k1" "sig_frame k k1" "others_same p k k1"
    using sig_inv_upd [OF assms(1), of "\<lambda>q. q\<lparr>p_pri := PUSER\<rparr>" p] assms(1)
    by (simp_all add: k1_def ident_def others_same_def)
  have f1: "stat k1 p = stat k p" "core_of (procs k1 p) = core_of (procs k p)" "a_runout k1 = a_runout k"
    by (simp_all add: k1_def core_of_def)
  have ok: "sched_ok k1" "sleepers_ok k1" "a_runout k1 \<noteq> 0"
    using k1(1) by (simp_all add: sig_inv_def addrs_ok_def)
  have s1: "stat k1 p \<in> {SSLEEP, SSTOP, SIDL}" "stat k1 p = SIDL \<longrightarrow> wchan k1 p = 0" using assms(2) f1(1) by auto
  obtain k' where k': "setrun p k1 = Some k'" "sched_ok k'" "sleepers_ok k'" "same_core k1 k'"
    "stat k' p = SRUN" "wchan k' p = 0" "on_runq k' p \<longleftrightarrow> loaded k1 p" "others_kept p k1 k'"
    by (rule setrun_ok [OF ok s1])
  have live: "live k1 p" using assms(2) f1(1) by (auto simp: live_def)
  have fr: "sig_frame k1 k'" using setrun_frame [OF k'(4-6,8) live] .
  have "core_of (procs k' p) = core_of (procs k p)" using f1(2) same_core_proc [OF k'(4), of p] by simp
  then have c: "p_sig (procs k' p) = p_sig (procs k p)" "p_cursig (procs k' p) = p_cursig (procs k p)"
    by (simp_all add: core_of_def)
  have "others_same p k1 k'"
    unfolding others_same_def using same_core_proc [OF k'(4)] k'(8) unfolding others_kept_def by metis
  then have o: "others_same p k k'" using others_same_trans [OF k1(3)] f1(3) by simp
  have r: "psig_run p k = Some k'" using k'(1) by (simp add: psig_run_def k1_def)
  show thesis
    by (rule that [OF r sig_frame_inv [OF k1(1) fr k'(2,3)] sig_frame_trans [OF k1(2) fr] o k'(5,6)])
      (use k'(7) frame_flags(1) [OF k1(2)] c in auto)
qed

lemma sig_inv_unsleep:
  assumes "sig_inv k" "stat k p = SSTOP"
  obtains k' where "unsleep p k = Some k'" "sig_inv k'" "sig_frame k k'" "others_same p k k'"
    "stat k' p = SSTOP" "wchan k' p = 0" "core_of (procs k' p) = core_of (procs k p)"
proof -
  obtain Q S where q: "queues k Q S" using assms(1) by (auto simp: sig_inv_def sched_ok_def)
  obtain k' S' where u: "unsleep p k = Some k'" "queues k' Q S'" "same_core k k'"
    "\<And>x. wchan k' x = (if x = p then 0 else wchan k x)" "\<And>x. stat k' x = stat k x"
    using unsleep_queues [OF q, of p] by metis
  have so: "sched_ok k'" using u(2) by (auto simp: sched_ok_def)
  have sl: "sleepers_ok k'" using assms(1) u(4,5) by (simp add: sig_inv_def sleepers_ok_def)
  have f: "sig_frame k k'"
    unfolding sig_frame_def live_def
    using u(4,5) core_ident [OF same_core_proc [OF u(3)]] same_core_globals [OF u(3)] by simp
  have o: "others_same p k k'"
    unfolding others_same_def
    using u(4,5) same_core_proc [OF u(3)] on_runq_queues [OF q] on_runq_queues [OF u(2)] by simp
  show thesis
    by (rule that [OF u(1) sig_frame_inv [OF assms(1) f so sl] f o])
      (use u(4,5) assms(2) same_core_proc [OF u(3)] in auto)
qed

lemma sig_inv_sleep_again:
  assumes "sig_inv k" "stat k p = SSTOP" "wchan k p \<noteq> 0"
    and k': "k' = upd_proc p (\<lambda>r. r\<lparr>p_stat := SSLEEP\<rparr>) k"
  shows "sig_inv k'" "sig_frame k k'" "others_same p k k'"
proof -
  obtain Q S where q: "queues k Q S" using assms(1) by (auto simp: sig_inv_def sched_ok_def)
  have "p \<notin> set Q" using q assms(3) by (auto simp: queues_def)
  then have "queues k' Q S" unfolding k' by (intro queues_upd [OF q]) auto
  then have so: "sched_ok k'" by (auto simp: sched_ok_def)
  have sl: "sleepers_ok k'" using assms(1) by (simp add: sig_inv_def sleepers_ok_def k')
  show f: "sig_frame k k'"
    using assms(2) by (simp add: sig_frame_def ident_def live_def globals_of_def k')
  show "sig_inv k'" using sig_frame_inv [OF assms(1) f so sl] .
  show "others_same p k k'" unfolding k' by (rule others_same_upd) simp
qed

section \<open>psignal as a state machine of the process\<close>

text \<open>
  The state a process is in after a signal has been posted to it. Interruptible means asleep at a
  priority above \<open>PZERO\<close>; \<open>a\<close> is the action psig_action found.
\<close>

definition interruptible :: "proc \<Rightarrow> bool" where
  "interruptible q \<longleftrightarrow> p_stat q = SSLEEP \<and> p_pri q > PZERO"

definition stat_after :: "int \<Rightarrow> handler option \<Rightarrow> proc \<Rightarrow> pstat" where
  "stat_after sig a q =
     (if a = None \<or> a = Some SIG_HOLD then p_stat q
      else if interruptible q \<and> (flag (p_flag q) STRC \<or> a \<noteq> Some SIG_DFL \<or> \<not> quiet_sig sig) then SRUN
      else if p_stat q = SSTOP \<and> \<not> flag (p_flag q) STRC \<and>
        (sig = SIGKILL \<or> sig = SIGCONT \<and> (a \<noteq> Some SIG_DFL \<or> p_wchan q = 0)) then SRUN
      else if p_stat q = SSTOP \<and> \<not> flag (p_flag q) STRC \<and> sig = SIGCONT then SSLEEP
      else p_stat q)"

text \<open>The signals pending afterwards.\<close>

definition sig_after :: "int \<Rightarrow> handler option \<Rightarrow> proc \<Rightarrow> sigset" where
  "sig_after sig a q =
     (case a of None \<Rightarrow> p_sig q
      | Some h \<Rightarrow>
          if h = SIG_DFL \<and> interruptible q \<and> \<not> flag (p_flag q) STRC \<and> quiet_sig sig
          then and (p_sig (psig_post sig h q)) (not (sigmask sig)) else p_sig (psig_post sig h q))"

definition posted :: "int \<Rightarrow> nat \<Rightarrow> 'a kern_scheme \<Rightarrow> 'a kern_scheme \<Rightarrow> bool" where
  "posted sig p k k' \<longleftrightarrow> sig_inv k' \<and> sig_frame k k' \<and> others_same p k k' \<and>
     stat k' p = stat_after sig (psig_action sig (procs k p)) (procs k p) \<and>
     p_sig (procs k' p) = sig_after sig (psig_action sig (procs k p)) (procs k p) \<and>
     (stat k' p = SSLEEP \<longrightarrow> wchan k' p = wchan k p) \<and>
     (stat k p \<noteq> SRUN \<and> stat k' p = SRUN \<longrightarrow> wchan k' p = 0 \<and> (on_runq k' p \<longleftrightarrow> loaded k p)) \<and>
     p_cursig (procs k' p) = p_cursig (procs k p)"

lemma take_away_fields [simp]:
  "procs (take_away s p k) = (procs k)(p := (procs k p)\<lparr>p_sig := and (p_sig (procs k p)) (not (sigmask s))\<rparr>)"
  by (simp add: take_away_def)

lemma psignal_plain:
  assumes "sig_inv k" "\<not> is_stop sig"
  shows "\<exists>k'. psignal p sig k = Some k' \<and> posted sig p k k'"
proof (cases "psig_action sig (procs k p)")
  case None
  then show ?thesis
    using assms(1) by (auto simp: psignal.simps posted_def others_same_def stat_after_def sig_after_def)
next
  case (Some a)
  define k1 where "k1 = upd_proc p (psig_post sig a) k"
  have id: "ident (psig_post sig a q) = ident q" for q by (simp add: ident_def)
  have k1: "sig_inv k1" "sig_frame k k1" "others_same p k k1"
    unfolding k1_def using sig_inv_upd [OF assms(1) id] by simp_all
  have q: "procs k1 p = psig_post sig a (procs k p)" and ro: "a_runout k1 = a_runout k"
    by (simp_all add: k1_def)
  note unfold = psignal.simps [of p sig k] Some option.case k1_def [symmetric] Let_def
  note defs = stat_after_def sig_after_def interruptible_def
  have runs: "\<exists>k'. psig_run p k1 = Some k' \<and> posted sig p k k'"
    if st: "stat k p = SSLEEP \<or> stat k p = SSTOP"
      and sa: "stat_after sig (Some a) (procs k p) = SRUN"
      and ga: "sig_after sig (Some a) (procs k p) = p_sig (psig_post sig a (procs k p))"
  proof -
    have "stat k1 p = SSLEEP \<or> stat k1 p = SSTOP" using st q by simp
    then obtain k' where k': "psig_run p k1 = Some k'" "sig_inv k'" "sig_frame k1 k'" "others_same p k1 k'"
      "stat k' p = SRUN" "wchan k' p = 0" "on_runq k' p \<longleftrightarrow> loaded k1 p"
      "p_sig (procs k' p) = p_sig (procs k1 p)" "p_cursig (procs k' p) = p_cursig (procs k1 p)"
      by (rule psig_run_ok [OF k1(1)])
    then have "posted sig p k k'"
      unfolding posted_def Some
      using sig_frame_trans [OF k1(2) k'(3)] others_same_trans [OF k1(3) k'(4) ro] sa ga q by simp
    then show ?thesis using k'(1) by blast
  qed
  have keep: "posted sig p k k1"
    if "stat_after sig (Some a) (procs k p) = stat k p"
      and "sig_after sig (Some a) (procs k p) = p_sig (psig_post sig a (procs k p))"
    unfolding posted_def Some using k1 q that by simp
  consider (held) "a = SIG_HOLD" | (sleep) "a \<noteq> SIG_HOLD" "stat k p = SSLEEP"
    | (stopped) "a \<noteq> SIG_HOLD" "stat k p = SSTOP"
    | (other) "a \<noteq> SIG_HOLD" "stat k p \<noteq> SSLEEP" "stat k p \<noteq> SSTOP" by blast
  then show ?thesis
  proof cases
    case held
    then show ?thesis unfolding unfold using keep by (simp add: defs)
  next
    case other
    then show ?thesis unfolding unfold using keep q by (cases "stat k p") (simp_all add: defs)
  next
    case sleep
    show ?thesis
    proof (cases "p_pri (procs k p) > PZERO")
      case False
      then show ?thesis unfolding unfold using keep sleep q by (simp add: defs)
    next
      case pri: True
      show ?thesis
      proof (cases "flag (p_flag (procs k p)) STRC \<or> a \<noteq> SIG_DFL \<or> \<not> quiet_sig sig")
        case True
        then show ?thesis
          unfolding unfold using runs sleep pri assms(2) q by (auto simp: defs)
      next
        case False
        have t: "sig_inv (take_away sig p k1)" "sig_frame k1 (take_away sig p k1)"
          "others_same p k1 (take_away sig p k1)"
          unfolding take_away_def
          using sig_inv_upd [OF k1(1), of "\<lambda>q. q\<lparr>p_sig := and (p_sig q) (not (sigmask sig))\<rparr>"]
          by (simp_all add: ident_def)
        have "psignal p sig k = Some (take_away sig p k1)"
          unfolding unfold using False sleep pri assms(2) q by simp
        moreover have "posted sig p k (take_away sig p k1)"
          unfolding posted_def Some
          using t sig_frame_trans [OF k1(2) t(2)] others_same_trans [OF k1(3) t(3) ro] False sleep pri q
          by (simp add: defs)
        ultimately show ?thesis by blast
      qed
    qed
  next
    case stopped
    show ?thesis
    proof (cases "flag (p_flag (procs k p)) STRC")
      case True
      then show ?thesis unfolding unfold using keep stopped q by (simp add: defs)
    next
      case untraced: False
      consider (run) "sig = SIGKILL \<or> sig = SIGCONT \<and> (a \<noteq> SIG_DFL \<or> wchan k p = 0)"
        | (resume) "sig = SIGCONT" "a = SIG_DFL" "wchan k p \<noteq> 0"
        | (unsleep) "sig \<noteq> SIGKILL" "sig \<noteq> SIGCONT" by blast
      then show ?thesis
      proof cases
        case run
        then show ?thesis unfolding unfold using runs untraced stopped q by (auto simp: defs)
      next
        case resume
        define k2 where "k2 = upd_proc p (\<lambda>r. r\<lparr>p_stat := SSLEEP\<rparr>) k1"
        have st: "stat k1 p = SSTOP" "wchan k1 p \<noteq> 0" using stopped resume q by simp_all
        note t = sig_inv_sleep_again [OF k1(1) st k2_def]
        have "psignal p sig k = Some k2"
          unfolding unfold using untraced stopped resume q by (simp add: k2_def)
        moreover have "posted sig p k k2"
          unfolding posted_def Some
          using t(1) sig_frame_trans [OF k1(2) t(2)] others_same_trans [OF k1(3) t(3) ro] untraced stopped resume q
          by (simp add: defs k2_def)
        ultimately show ?thesis by blast
      next
        case unsleep
        show ?thesis
        proof (cases "wchan k p \<noteq> 0 \<and> p_pri (procs k p) > PZERO")
          case False
          then show ?thesis unfolding unfold using keep stopped unsleep untraced assms(2) q by (auto simp: defs)
        next
          case True
          have "stat k1 p = SSTOP" using stopped q by simp
          then obtain k2 where t: "Sched.unsleep p k1 = Some k2" "sig_inv k2" "sig_frame k1 k2"
            "others_same p k1 k2" "stat k2 p = SSTOP" "wchan k2 p = 0" "core_of (procs k2 p) = core_of (procs k1 p)"
            by (rule sig_inv_unsleep [OF k1(1)])
          have c: "p_sig (procs k2 p) = p_sig (procs k1 p)" "p_cursig (procs k2 p) = p_cursig (procs k1 p)"
            using t(7) by (simp_all add: core_of_def)
          have "psignal p sig k = Some k2"
            unfolding unfold using untraced stopped unsleep True assms(2) q t(1) by simp
          moreover have "posted sig p k k2"
            unfolding posted_def Some
            using t(2,5,6) c sig_frame_trans [OF k1(2) t(3)] others_same_trans [OF k1(3) t(4) ro] untraced
              stopped unsleep q by (simp add: defs)
          ultimately show ?thesis by blast
        qed
      qed
    qed
  qed
qed

text \<open>
  The stop signals. A process asleep at an interruptible priority with the default action is killed
  when it is a child of init (unless the signal is SIGSTOP), left alone inside vfork, and stopped
  otherwise.
\<close>

definition stop_now :: "int \<Rightarrow> handler option \<Rightarrow> proc \<Rightarrow> bool" where
  "stop_now sig a q \<longleftrightarrow> a = Some SIG_DFL \<and> interruptible q \<and> \<not> flag (p_flag q) STRC \<and>
     \<not> (sig \<noteq> SIGSTOP \<and> p_pptr q = Some 1) \<and> \<not> flag (p_flag q) SVFORK"

lemma sig_inv_runout: "sig_inv k \<Longrightarrow> p \<noteq> 0 \<Longrightarrow> wchan k p \<noteq> a_runout k"
  by (auto simp: sig_inv_def)

lemma sig_inv_stop:
  assumes "sig_inv k" "stat k p \<noteq> SRUN \<or> \<not> on_runq k p" "p \<noteq> 0" "live k p"
  obtains k' where "stop p k = Some k'" "sig_inv k'" "sig_frame k k'" "stat k' p = SSTOP"
    "\<not> on_runq k' p" "p_sig (procs k' p) = p_sig (procs k p)" "p_cursig (procs k' p) = p_cursig (procs k p)"
    "\<And>q. q \<noteq> p \<Longrightarrow> core_of (procs k' q) = core_of (procs k q)"
    "pptr_chan p k \<noteq> wchan k p \<Longrightarrow> wchan k' p = wchan k p"
proof -
  define k1 where "k1 = upd_proc p (\<lambda>q. q\<lparr>p_stat := SSTOP, p_flag := clr_flag SWTED (p_flag q)\<rparr>) k"
  have ok: "sched_ok k" "sleepers_ok k" "addrs_ok k" using assms(1) by (simp_all add: sig_inv_def)
  have nr: "\<not> on_runq k p" using assms(2) on_runq_stat [OF ok(1)] by blast
  obtain pp where pp: "p_pptr (procs k p) = Some pp" using assms(1,3,4) by (auto simp: sig_inv_def)
  obtain k' where k': "stop p k = Some k'" "sched_ok k'" "sleepers_ok k'" "same_core k1 k'" "stat k' p = SSTOP"
    "wchan k p \<noteq> a_proc k pp \<Longrightarrow> (k_runout k \<longrightarrow> wchan k p \<noteq> a_runout k) \<Longrightarrow> wchan k' p = wchan k p"
    "\<not> on_runq k' p" "sig_frame k1 k'"
    using stop_ok [OF ok nr pp, folded k1_def] woke_frame by metis
  have "clr_flag SWTED (clr_flag SWTED f) = clr_flag SWTED f" for f by (simp add: clr_flag_def and.assoc)
  then have "ident (procs k1 q) = ident (procs k q)" for q by (simp add: k1_def ident_def)
  then have f1: "sig_frame k k1" using assms(4) by (simp add: sig_frame_def k1_def live_def globals_of_def)
  note f = sig_frame_trans [OF f1 k'(8)]
  have c: "core_of (procs k' q) = core_of (procs k1 q)" for q by (rule same_core_proc [OF k'(4)])
  show thesis
  proof (rule that [OF k'(1) sig_frame_inv [OF assms(1) f k'(2,3)] f k'(5,7)])
    show "p_sig (procs k' p) = p_sig (procs k p)" "p_cursig (procs k' p) = p_cursig (procs k p)"
      using c [of p] by (simp_all add: core_of_def k1_def)
    show "\<And>q. q \<noteq> p \<Longrightarrow> core_of (procs k' q) = core_of (procs k q)" using c by (simp add: k1_def)
    show "pptr_chan p k \<noteq> wchan k p \<Longrightarrow> wchan k' p = wchan k p"
      using k'(6) sig_inv_runout [OF assms(1,3)] pp by (simp add: pptr_chan_def)
  qed
qed

text \<open>The other processes get no signal but a SIGCHLD.\<close>

definition only_chld :: "nat \<Rightarrow> 'a kern_scheme \<Rightarrow> 'a kern_scheme \<Rightarrow> bool" where
  "only_chld p k k' \<longleftrightarrow> (\<forall>q s. q \<noteq> p \<longrightarrow> has_sig (p_sig (procs k' q)) s \<longrightarrow>
     has_sig (p_sig (procs k q)) s \<or> s = SIGCHLD)"

lemma core_sig: "core_of q' = core_of q \<Longrightarrow> p_sig q' = p_sig q"
  by (simp add: core_of_def)

lemma others_only_chld: "others_same p k k' \<Longrightarrow> only_chld p k k'"
  unfolding others_same_def only_chld_def using core_sig by metis

lemma only_chld_refl [simp]: "only_chld p k k"
  by (simp add: only_chld_def)

lemma only_chld_trans: "only_chld p k k' \<Longrightarrow> only_chld p k' k'' \<Longrightarrow> only_chld p k k''"
  unfolding only_chld_def by blast

lemma sig_after_chld: "has_sig (sig_after SIGCHLD a q) s \<Longrightarrow> has_sig (p_sig q) s \<or> s = SIGCHLD"
  by (auto simp: sig_after_def psig_post_sig has_sig_diff split: option.splits if_splits)

lemma posted_chld: "posted SIGCHLD pp k k' \<Longrightarrow> only_chld p k k'"
proof -
  assume a: "posted SIGCHLD pp k k'"
  then have o: "only_chld pp k k'" by (simp add: posted_def others_only_chld)
  have "has_sig (p_sig (procs k' pp)) s \<Longrightarrow> has_sig (p_sig (procs k pp)) s \<or> s = SIGCHLD" for s
    using a sig_after_chld by (simp add: posted_def)
  with o show ?thesis unfolding only_chld_def by metis
qed

lemma psignal_stop_eq:
  assumes "is_stop sig" "psig_action sig (procs k p) = Some a" "k1 = upd_proc p (psig_post sig a) k"
  shows "psignal p sig k =
    (if a = SIG_HOLD \<or> stat k p \<noteq> SSTOP \<and> \<not> interruptible (procs k p) then Some k1
     else if stat k p = SSTOP then
       (if flag (p_flag (procs k p)) STRC then Some k1 else Some (take_away sig p k1))
     else if flag (p_flag (procs k p)) STRC \<or> a \<noteq> SIG_DFL then psig_run p k1
     else if sig \<noteq> SIGSTOP \<and> p_pptr (procs k p) = Some 1 then
       map_option (take_away sig p) (psignal p SIGKILL k1)
     else if flag (p_flag (procs k p)) SVFORK then Some k1
     else (case p_pptr (procs k p) of None \<Rightarrow> None
       | Some pp \<Rightarrow> Option.bind
           (psignal pp SIGCHLD (upd_proc p (\<lambda>r. r\<lparr>p_cursig := sig\<rparr>) (take_away sig p k1))) (stop p)))"
proof -
  have q: "procs k1 p = psig_post sig a (procs k p)" by (simp add: assms(3))
  have "sig \<noteq> SIGKILL" "sig \<noteq> SIGCONT" using assms(1) by (auto simp: is_stop_def)
  then show ?thesis
    unfolding psignal.simps [of p sig k] assms(2) option.case assms(3) [symmetric] Let_def interruptible_def
    using assms(1) q by (cases "stat k p") auto
qed

lemma psignal_stop:
  assumes inv: "sig_inv k" and stp: "is_stop sig" and "p \<noteq> 0"
  obtains k' where "psignal p sig k = Some k'" "sig_inv k'" "sig_frame k k'"
    "stop_now sig (psig_action sig (procs k p)) (procs k p) \<Longrightarrow>
       stat k' p = SSTOP \<and> \<not> on_runq k' p \<and> p_cursig (procs k' p) = sig \<and>
       p_sig (procs k' p) = and (p_sig (psig_post sig SIG_DFL (procs k p))) (not (sigmask sig)) \<and>
       (wchan k p \<noteq> pptr_chan p k \<longrightarrow> wchan k' p = wchan k p)"
    "stat k p = SSTOP \<Longrightarrow> stat k' p = SSTOP \<and> wchan k' p = wchan k p" "only_chld p k k'"
proof (cases "psig_action sig (procs k p)")
  case None
  then have "psignal p sig k = Some k" by (simp add: psignal.simps)
  then show thesis using inv that [of k] None by (simp add: stop_now_def)
next
  case (Some a)
  define k1 where "k1 = upd_proc p (psig_post sig a) k"
  have id: "ident (psig_post sig a q) = ident q" for q by (simp add: ident_def)
  have k1: "sig_inv k1" "sig_frame k k1" unfolding k1_def using sig_inv_upd [OF inv id] by simp_all
  have q: "procs k1 p = psig_post sig a (procs k p)" by (simp add: k1_def)
  have no: "\<not> is_stop SIGKILL" "\<not> is_stop SIGCHLD" by (simp_all add: is_stop_def)
  have t: "sig_inv (take_away sig p k')" "sig_frame k' (take_away sig p k')" if "sig_inv k'" for k' :: "'a kern_scheme"
    unfolding take_away_def using that sig_inv_upd [OF that, of "\<lambda>q. q\<lparr>p_sig := and (p_sig q) (not (sigmask sig))\<rparr>"]
    by (simp_all add: ident_def)
  have o: "only_chld p k k1" "only_chld p k' (take_away sig p k')" for k' :: "'a kern_scheme"
    by (simp_all add: only_chld_def k1_def)
  consider (stop) "stop_now sig (Some a) (procs k p)"
    | (kept) "psignal p sig k = Some k1" "\<not> stop_now sig (Some a) (procs k p)"
    | (run) "psignal p sig k = psig_run p k1" "stat k p = SSLEEP" "\<not> stop_now sig (Some a) (procs k p)"
    | (kill) "psignal p sig k = map_option (take_away sig p) (psignal p SIGKILL k1)" "stat k p = SSLEEP"
        "\<not> stop_now sig (Some a) (procs k p)"
    | (taken) "psignal p sig k = Some (take_away sig p k1)" "stat k p = SSTOP" "\<not> stop_now sig (Some a) (procs k p)"
    using psignal_stop_eq [OF stp Some k1_def]
    by (auto simp: stop_now_def interruptible_def split: if_splits)
  then show thesis
  proof cases
    case kept
    then show thesis using that [OF kept(1) k1] Some q o(1) by simp
  next
    case run
    have "stat k1 p = SSLEEP \<or> stat k1 p = SSTOP" using run(2) q by simp
    then obtain k' where "psig_run p k1 = Some k'" "sig_inv k'" "sig_frame k1 k'" "others_same p k1 k'"
      by (metis psig_run_ok [OF k1(1)])
    then show thesis
      using that [of k'] run Some sig_frame_trans [OF k1(2)] only_chld_trans [OF o(1) others_only_chld] by simp
  next
    case kill
    obtain k' where "psignal p SIGKILL k1 = Some k'" "sig_inv k'" "sig_frame k1 k'" "others_same p k1 k'"
      using psignal_plain [OF k1(1) no(1)] by (auto simp: posted_def)
    then show thesis
      using that [of "take_away sig p k'"] kill t sig_frame_trans [OF sig_frame_trans [OF k1(2)]] Some
        only_chld_trans [OF only_chld_trans [OF o(1) others_only_chld] o(2)] by simp
  next
    case taken
    then show thesis using that [OF taken(1) t(1) [OF k1(1)] sig_frame_trans [OF k1(2) t(2) [OF k1(1)]]] Some q
      only_chld_trans [OF o] by simp
  next
    case stop
    have a: "a = SIG_DFL" and int: "stat k p = SSLEEP" "PZERO < p_pri (procs k p)"
      using stop by (auto simp: stop_now_def interruptible_def)
    obtain pp where pp: "p_pptr (procs k p) = Some pp" "pp \<noteq> p"
      using inv \<open>p \<noteq> 0\<close> int(1) by (auto simp: sig_inv_def live_def)
    define k2 where "k2 = upd_proc p (\<lambda>r. r\<lparr>p_cursig := sig\<rparr>) (take_away sig p k1)"
    have k2: "sig_inv k2" "sig_frame k k2"
      unfolding k2_def using sig_inv_upd [OF t(1) [OF k1(1)], of "\<lambda>r. r\<lparr>p_cursig := sig\<rparr>" p]
        sig_frame_trans [OF sig_frame_trans [OF k1(2) t(2) [OF k1(1)]]] by (simp_all add: ident_def)
    obtain k3 where k3: "psignal pp SIGCHLD k2 = Some k3" "sig_inv k3" "sig_frame k2 k3" "others_same pp k2 k3"
      "only_chld p k2 k3"
    proof -
      obtain k3 where "psignal pp SIGCHLD k2 = Some k3" "posted SIGCHLD pp k2 k3"
        using psignal_plain [OF k2(1) no(2)] by blast
      then show thesis using that [of k3] posted_chld [of pp k2 k3 p] by (simp add: posted_def)
    qed
    have o2: "only_chld p k k2" by (simp add: only_chld_def k1_def k2_def)
    have w2: "wchan k2 p = wchan k p" "stat k2 p = SSLEEP" "p_cursig (procs k2 p) = sig"
      "p_sig (procs k2 p) = and (p_sig (psig_post sig a (procs k p))) (not (sigmask sig))"
      using q int(1) by (simp_all add: k2_def)
    have w3: "wchan k3 p = wchan k p" "stat k3 p = SSLEEP" "core_of (procs k3 p) = core_of (procs k2 p)"
      using k3(4) pp(2) sig_inv_runout [OF k2(1) \<open>p \<noteq> 0\<close>] w2 unfolding others_same_def by metis+
    have live: "stat k3 p \<noteq> SRUN \<or> \<not> on_runq k3 p" "live k3 p" using w3(2) by (simp_all add: live_def)
    obtain k' where k': "stop p k3 = Some k'" "sig_inv k'" "sig_frame k3 k'" "stat k' p = SSTOP"
      "\<not> on_runq k' p" "p_sig (procs k' p) = p_sig (procs k3 p)" "p_cursig (procs k' p) = p_cursig (procs k3 p)"
      "pptr_chan p k3 \<noteq> wchan k3 p \<Longrightarrow> wchan k' p = wchan k3 p"
      "\<And>q. q \<noteq> p \<Longrightarrow> core_of (procs k' q) = core_of (procs k3 q)"
      using sig_inv_stop [OF k3(2) live(1) \<open>p \<noteq> 0\<close> live(2)] by metis
    have "globals_of k3 = globals_of k" "ident (procs k3 p) = ident (procs k p)"
      using sig_frame_trans [OF k2(2) k3(3)] by (simp_all add: sig_frame_def)
    then have pc: "pptr_chan p k3 = pptr_chan p k"
      by (simp add: pptr_chan_def ident_def globals_of_def split: option.splits)
    have r: "psignal p sig k = Some k'"
      using psignal_stop_eq [OF stp Some k1_def] int stop pp k3(1) k'(1)
      by (auto simp: stop_now_def interruptible_def k2_def)
    show thesis
    proof (rule that [OF r k'(2) sig_frame_trans [OF sig_frame_trans [OF k2(2) k3(3)] k'(3)]])
      show "stat k' p = SSTOP \<and> \<not> on_runq k' p \<and> p_cursig (procs k' p) = sig \<and>
         p_sig (procs k' p) = and (p_sig (psig_post sig SIG_DFL (procs k p))) (not (sigmask sig)) \<and>
         (wchan k p \<noteq> pptr_chan p k \<longrightarrow> wchan k' p = wchan k p)"
        using k'(4-8) w2 w3 a pc by (auto simp: core_of_def)
      have "only_chld p k3 k'" using core_sig [OF k'(9)] by (simp add: only_chld_def)
      then show "only_chld p k k'" using only_chld_trans [OF only_chld_trans [OF o2 k3(5)]] by blast
    qed (use int(1) in simp)
  qed
qed

lemma psignal_ok:
  assumes "sig_inv k" "p \<noteq> 0 \<or> \<not> is_stop sig"
  obtains k' where "psignal p sig k = Some k'" "sig_inv k'" "sig_frame k k'" "only_chld p k k'"
proof (cases "is_stop sig")
  case True
  then show thesis using psignal_stop [OF assms(1) True] assms(2) that by metis
next
  case False
  obtain k' where "psignal p sig k = Some k'" "posted sig p k k'"
    using psignal_plain [OF assms(1) False] by blast
  then show thesis using that [of k'] others_only_chld [of p k k'] by (simp add: posted_def)
qed

section \<open>The signals no call can shut out\<close>

definition shut_out :: "sigset \<Rightarrow> bool" where
  "shut_out w \<longleftrightarrow> has_sig w SIGKILL \<or> has_sig w SIGSTOP"

definition proc_open :: "proc \<Rightarrow> bool" where
  "proc_open q \<longleftrightarrow> \<not> shut_out (p_sigmask q) \<and> \<not> shut_out (p_sigignore q) \<and> \<not> shut_out (p_sigcatch q)"

definition user_open :: "user \<Rightarrow> bool" where
  "user_open v \<longleftrightarrow> u_signal v SIGKILL = SIG_DFL \<and> u_signal v SIGSTOP = SIG_DFL \<and>
     \<not> shut_out (u_oldmask v) \<and> (\<forall>s. \<not> shut_out (u_sigmask v s))"

definition kill_open :: "'a kern_scheme \<Rightarrow> bool" where
  "kill_open k \<longleftrightarrow> sig_inv k \<and> user_open (u k) \<and> (\<forall>q. proc_open (procs k q))"

lemma shut_out_or [simp]: "shut_out (or v w) \<longleftrightarrow> shut_out v \<or> shut_out w"
  by (auto simp: shut_out_def)

lemma shut_out_sigmask: "shut_out (sigmask s) \<longleftrightarrow> s = SIGKILL \<or> s = SIGSTOP"
  by (auto simp: shut_out_def has_sig_sigmask)

lemma shut_out_and: "shut_out (and v w) \<Longrightarrow> shut_out v"
  by (auto simp: shut_out_def has_sig_and)

lemma shut_out_cantmask [simp]: "\<not> shut_out (and w (not cantmask))"
  by (auto simp: shut_out_def has_sig_diff has_cantmask)

lemma sig_inv_proc:
  assumes "sig_inv k" "\<And>q. p_link (f q) = p_link q" "\<And>q. p_wchan (f q) = p_wchan q"
    and "\<And>q. p_stat (f q) = p_stat q" "\<And>q. flag (p_flag (f q)) SLOAD = flag (p_flag q) SLOAD"
    and "\<And>q. p_pptr (f q) = p_pptr q" "\<And>q. p_ppid (f q) = p_ppid q" "\<And>q. p_pgrp (f q) = p_pgrp q"
  shows "sig_inv (upd_proc p f k)"
proof -
  obtain Q S where "queues k Q S" using assms(1) by (auto simp: sig_inv_def sched_ok_def)
  then have "queues (upd_proc p f k) Q S" by (rule queues_upd) (use assms in auto)
  then have "sched_ok (upd_proc p f k)" by (auto simp: sched_ok_def)
  then show ?thesis
    using assms by (simp add: sig_inv_def sleepers_ok_def live_def)
qed

lemma sig_inv_view:
  assumes "procs k' = procs k" "qs k' = qs k" "slpque k' = slpque k" "a_runout k' = a_runout k" "a_proc k' = a_proc k"
  shows "sig_inv k' = sig_inv k"
  using assms by (simp add: sig_inv_def sched_ok_def queues_def sleepers_ok_def addrs_ok_def live_def)

lemma sig_inv_u [simp]: "sig_inv (upd_u g k) = sig_inv k" "sig_inv (k\<lparr>umem := m\<rparr>) = sig_inv k"
  "sig_inv (set_error e k) = sig_inv k"
  by (rule sig_inv_view; simp add: set_error_def)+

lemma kill_open_frame: "kill_open k \<Longrightarrow> sig_inv k' \<Longrightarrow> sig_frame k k' \<Longrightarrow> kill_open k'"
  unfolding kill_open_def sig_frame_def globals_of_def ident_def proc_open_def by simp

lemma kill_open_psignal:
  assumes "kill_open k" "p \<noteq> 0 \<or> \<not> is_stop sig" "psignal p sig k = Some k'"
  shows "kill_open k'"
  using psignal_ok [of k p sig] kill_open_frame [OF assms(1)] assms by (metis kill_open_def option.inject)

lemma pfind_from_nonzero: "pfind_from pid p k = Some r \<Longrightarrow> r \<noteq> Some 0"
  by (rule pfind_from.raw_induct [where P = "\<lambda>pid p k r. r \<noteq> Some 0"]) (force split: if_splits)+

lemma kill_open_gsignal:
  assumes "kill_open k" "gsignal pgrp sig k = Some k'"
  shows "kill_open k'"
proof (cases "pgrp = 0")
  case False
  then obtain ps where f: "fold (\<lambda>p st. Option.bind st (\<lambda>s. if p_pgrp (procs s p) = pgrp then psignal p sig s
      else Some s)) ps (Some k) = Some k'"
    using assms(2) by (auto simp: gsignal_def bind_eq_Some_conv)
  show ?thesis
  proof (rule fold_bind_inv [where P = kill_open, OF f assms(1)])
    fix p and s s' :: "'a kern_scheme"
    assume s: "kill_open s" "(if p_pgrp (procs s p) = pgrp then psignal p sig s else Some s) = Some s'"
    have "p = 0 \<Longrightarrow> p_pgrp (procs s p) \<noteq> pgrp" using s(1) False by (simp add: kill_open_def sig_inv_def)
    then show "kill_open s'" using s kill_open_psignal [OF s(1)] by (auto split: if_splits)
  qed
qed (use assms in \<open>simp add: gsignal_def\<close>)

lemma kill_open_visit:
  assumes "kill_open k" "killpg1_visit signo pgrp all p (f, e, k) = Some (f', e', k')"
  shows "kill_open k'"
proof -
  have p0: "p_ppid (procs k p) \<noteq> 0 \<Longrightarrow> p \<noteq> 0"
    using assms(1) unfolding kill_open_def sig_inv_def by metis
  have "k' = k \<or> p \<noteq> 0 \<and> psignal p signo k = Some k'"
    using assms(2) p0 by (auto simp: killpg1_visit_def Let_def bind_eq_Some_conv split: if_splits)
  then show ?thesis using kill_open_psignal [OF assms(1)] assms(1) by blast
qed

lemma kill_open_killpg1:
  assumes "kill_open k" "killpg1 signo pgrp all k = Some (e, k')"
  shows "kill_open k'"
proof -
  have "k' = k \<or> (\<exists>pg ps f e'. fold (\<lambda>p st. Option.bind st (killpg1_visit signo pg all p)) ps
      (Some (0, NOERR, k)) = Some (f, e', k'))"
    using assms(2) by (auto simp: killpg1_def Let_def bind_eq_Some_conv split: if_splits)
  then show ?thesis
  proof
    assume "\<exists>pg ps f e'. fold (\<lambda>p st. Option.bind st (killpg1_visit signo pg all p)) ps
      (Some (0, NOERR, k)) = Some (f, e', k')"
    then obtain pg ps f e' where f: "fold (\<lambda>p st. Option.bind st (killpg1_visit signo pg all p)) ps
      (Some (0, NOERR, k)) = Some (f, e', k')" by blast
    have "(\<lambda>(f, e, s). kill_open s) (f, e', k')"
      by (rule fold_bind_inv [OF f]) (use assms(1) kill_open_visit in \<open>auto split: prod.splits\<close>)
    then show ?thesis by simp
  qed (use assms(1) in simp)
qed

lemma kill_open_error [simp]: "kill_open (set_error e k) = kill_open k"
  by (simp add: kill_open_def user_open_def)

lemma kill_open_kill:
  assumes "kill_open k" "kill pid signo k = Some k'"
  shows "kill_open k'"
proof (cases "signo < 0 \<or> signo \<ge> NSIG")
  case True
  then show ?thesis using assms by (auto simp: kill_def)
next
  case False
  show ?thesis
  proof (cases "pid > 0")
    case True
    then obtain r where r: "pfind pid k = Some r" using assms(2) False by (auto simp: kill_def bind_eq_Some_conv)
    show ?thesis
    proof (cases r)
      case None
      then show ?thesis using assms True False r by (auto simp: kill_def)
    next
      case (Some p)
      then have "p \<noteq> 0" using r pfind_from_nonzero unfolding pfind_def by metis
      then show ?thesis
        using assms True False r Some kill_open_psignal [OF assms(1), of p signo]
        by (auto simp: kill_def bind_eq_Some_conv split: if_splits)
    qed
  next
    case neg: False
    then obtain e k1 pg all where "killpg1 signo pg all k = Some (e, k1)" "k' = set_error e k1"
      using assms(2) False by (auto simp: kill_def bind_eq_Some_conv split: if_splits)
    then show ?thesis using kill_open_killpg1 [OF assms(1)] by auto
  qed
qed

lemma kill_open_killpg: "kill_open k \<Longrightarrow> killpg pgrp signo k = Some k' \<Longrightarrow> kill_open k'"
  using kill_open_killpg1 by (auto simp: killpg_def bind_eq_Some_conv split: if_splits)

end
