(* ===== verification/SigTake.thy ===== *)
theory SigTake imports SigSpec begin

text \<open>
  Lemmas on issig: the loop ends because the pending signals get lighter (a signal that stops weighs
  two, since it may be exchanged for a SIGKILL), and what it returns.
\<close>

section \<open>ffs\<close>

lemma ffs_sig:
  assumes "w \<noteq> 0"
  shows "has_sig w (ffs w)"
proof -
  obtain i where i: "bit w i" using assms by (metis bit_0_eq bit_eqI bot_apply bot_bool_def)
  then have "i < 32" using bit_imp_le_length [of w i] by simp
  then have "find (bit w) [0 ..< 32] \<noteq> None" using i by (auto simp: find_None_iff)
  then obtain j where j: "find (bit w) [0 ..< 32] = Some j" by blast
  then have "bit w j" "j < 32" by (auto simp: find_Some_iff)
  then show ?thesis using j by (simp add: ffs_def has_sig_iff)
qed

section \<open>The weight of the pending signals\<close>

definition heavy :: "nat \<Rightarrow> nat" where
  "heavy i = (if is_stop (int i + 1) then 2 else 1)"

definition weight :: "sigset \<Rightarrow> nat" where
  "weight w = (\<Sum>i | i < 32 \<and> bit w i. heavy i)"

lemma heavy_pos: "0 < heavy i" by (simp add: heavy_def)

lemma weight_take:
  assumes "has_sig w s"
  shows "weight w = weight (and w (not (sigmask s))) + heavy (nat (s - 1))"
proof -
  let ?i = "nat (s - 1)"
  have s: "1 \<le> s" "s \<le> 32" "bit w ?i" using assms by (simp_all add: has_sig_iff)
  have b: "bit (and w (not (sigmask s))) i \<longleftrightarrow> bit w i \<and> i \<noteq> ?i" if "i < 32" for i
    using s that by (auto simp: bit_and_iff bit_not_iff_eq bit_sigmask possible_bit_word)
  have "{i. i < 32 \<and> bit w i} = insert ?i {i. i < 32 \<and> bit (and w (not (sigmask s))) i}"
    using b s by auto
  moreover have "?i \<notin> {i. i < 32 \<and> bit (and w (not (sigmask s))) i}" using b s by auto
  ultimately show ?thesis by (simp add: weight_def)
qed

lemma weight_or: "weight (or w (sigmask s)) \<le> weight w + (if 1 \<le> s \<and> s \<le> 32 then heavy (nat (s - 1)) else 0)"
proof (cases "1 \<le> s \<and> s \<le> 32")
  case True
  have "{i. i < 32 \<and> bit (or w (sigmask s)) i} \<subseteq> insert (nat (s - 1)) {i. i < 32 \<and> bit w i}"
    by (auto simp: bit_or_iff bit_sigmask)
  then have "weight (or w (sigmask s)) \<le> sum heavy (insert (nat (s - 1)) {i. i < 32 \<and> bit w i})"
    unfolding weight_def by (intro sum_mono2) auto
  also have "\<dots> \<le> heavy (nat (s - 1)) + weight w"
    unfolding weight_def by (subst sum.insert_if) auto
  finally show ?thesis using True by simp
next
  case False
  then have "sigmask s = 0" by (auto simp: sigmask_def)
  then show ?thesis by simp
qed

lemma issig_bits_sub: "has_sig (issig_bits q) s \<Longrightarrow> has_sig (p_sig q) s \<and> \<not> has_sig (p_sigmask q) s"
  by (auto simp: issig_bits_def Let_def has_sig_diff split: if_splits)

section \<open>Signals to the running process\<close>

lemma psignal_running:
  assumes "stat k p = SRUN"
  shows "psignal p sig k = Some (case psig_action sig (procs k p) of None \<Rightarrow> k
    | Some a \<Rightarrow> upd_proc p (psig_post sig a) k)"
  using assms by (simp add: psignal.simps [of p sig k] Let_def split: option.splits)

lemma psig_post_kill: "p_sig (psig_post SIGKILL a q) = or (p_sig q) (sigmask SIGKILL)"
  by (simp add: psig_post_def Let_def)

text \<open>The process that is running: not the swapper, and on no queue.\<close>

definition running :: "'a kern_scheme \<Rightarrow> bool" where
  "running k \<longleftrightarrow> sig_inv k \<and> u_procp (u k) \<noteq> 0 \<and> stat k (u_procp (u k)) = SRUN \<and>
     \<not> on_runq k (u_procp (u k))"

abbreviation cur :: "'a kern_scheme \<Rightarrow> proc" where
  "cur k \<equiv> procs k (u_procp (u k))"

lemma frame_u: "sig_frame k k' \<Longrightarrow> u k' = u k"
  by (simp add: sig_frame_def globals_of_def)

lemma frame_ident: "sig_frame k k' \<Longrightarrow> ident (procs k' q) = ident (procs k q)"
  by (simp add: sig_frame_def)

lemma running_upd:
  assumes "running k" "\<And>q. ident (f q) = ident q" "\<And>q. p_wchan (f q) = p_wchan q"
    and "\<And>q. p_stat (f q) = p_stat q" "\<And>q. p_link (f q) = p_link q" "\<And>q. p_flag (f q) = p_flag q"
  shows "running (upd_proc p f k)" "sig_frame k (upd_proc p f k)"
  using assms sig_inv_upd [OF _ assms(2-6), of k p] on_runq_upd [of f p k] by (auto simp: running_def)

text \<open>Telling the parent, then stopping.\<close>

lemma report_stop:
  assumes "running k"
  obtains pp k1 k' where "p_pptr (cur k) = Some pp" "psignal pp SIGCHLD k = Some k1"
    "stop (u_procp (u k)) k1 = Some k'" "sig_inv k'" "sig_frame k k'" "stat k' (u_procp (u k)) = SSTOP"
    "p_cursig (procs k' (u_procp (u k))) = p_cursig (cur k)"
proof -
  let ?p = "u_procp (u k)"
  have inv: "sig_inv k" "?p \<noteq> 0" "stat k ?p = SRUN" "\<not> on_runq k ?p" using assms by (simp_all add: running_def)
  obtain pp where pp: "p_pptr (cur k) = Some pp" "pp \<noteq> ?p" using inv by (auto simp: sig_inv_def live_def)
  have "\<not> is_stop SIGCHLD" by (simp add: is_stop_def)
  then obtain k1 where k1: "psignal pp SIGCHLD k = Some k1" "sig_inv k1" "sig_frame k k1" "others_same pp k k1"
    using psignal_plain [OF inv(1)] unfolding posted_def by blast
  have s1: "stat k1 ?p = SRUN" "on_runq k1 ?p = on_runq k ?p" "core_of (procs k1 ?p) = core_of (cur k)"
    using k1(4) pp(2) sig_inv_runout [OF inv(1,2)] inv(3) unfolding others_same_def by metis+
  have st: "stat k1 ?p \<noteq> SRUN \<or> \<not> on_runq k1 ?p" "live k1 ?p" using s1 inv(4) by (simp_all add: live_def)
  obtain k' where k': "stop ?p k1 = Some k'" "sig_inv k'" "sig_frame k1 k'" "stat k' ?p = SSTOP"
    "p_cursig (procs k' ?p) = p_cursig (procs k1 ?p)"
    using sig_inv_stop [OF k1(2) st(1) inv(2) st(2)] by metis
  have "p_cursig (procs k' ?p) = p_cursig (cur k)" using k'(5) s1(3) by (simp add: core_of_def)
  then show thesis using that [OF pp(1) k1(1) k'(1,2) sig_frame_trans [OF k1(3) k'(3)] k'(4)] by simp
qed

section \<open>What issig comes to\<close>

definition takes :: "issig_out \<Rightarrow> 'a kern_scheme \<Rightarrow> bool" where
  "takes out k \<longleftrightarrow> (case out of
     NoSig \<Rightarrow> running k \<and> issig_bits (cur k) = 0 \<and> p_cursig (cur k) = 0
   | Send s \<Rightarrow> running k \<and> p_cursig (cur k) = s \<and> u_signal (u k) s \<noteq> SIG_HOLD \<and> u_signal (u k) s \<noteq> SIG_IGN \<and>
       (u_signal (u k) s = SIG_DFL \<longrightarrow> \<not> is_stop s \<and> s \<noteq> SIGCONT \<and> \<not> quiet_sig s) \<and>
       \<not> has_sig (p_sigmask (cur k)) s
   | Stopped \<Rightarrow> stat k (u_procp (u k)) = SSTOP \<and> is_stop (p_cursig (cur k))
   | Traced s \<Rightarrow> stat k (u_procp (u k)) = SSTOP \<and> p_cursig (cur k) = s \<and> flag (p_flag (cur k)) STRC)"

text \<open>\<open>r\<close> and \<open>k'\<close> are a legal outcome of the switch for \<open>sig\<close>.\<close>

definition act_ok :: "int \<Rightarrow> 'a kern_scheme \<Rightarrow> issig_out option \<Rightarrow> 'a kern_scheme \<Rightarrow> bool" where
  "act_ok sig k r k' \<longleftrightarrow> sig_inv k' \<and> sig_frame k k' \<and>
     (case r of Some out \<Rightarrow> takes out k'
      | None \<Rightarrow> running k' \<and> weight (p_sig (cur k')) \<le> weight (p_sig (cur k)) + (if is_stop sig then 1 else 0))"

lemma issig_act_kill:
  assumes "running k" "is_stop sig"
  shows "\<exists>k'. psignal (u_procp (u k)) SIGKILL k = Some k' \<and> act_ok sig k None k'"
proof (cases "psig_action SIGKILL (cur k)")
  case None
  then have "psignal (u_procp (u k)) SIGKILL k = Some k" using psignal_running [of k "u_procp (u k)" SIGKILL] assms(1) by (simp add: running_def)
  then show ?thesis using assms by (simp add: act_ok_def running_def)
next
  case (Some a)
  let ?k = "upd_proc (u_procp (u k)) (psig_post SIGKILL a) k"
  have "psignal (u_procp (u k)) SIGKILL k = Some ?k" using psignal_running [of k "u_procp (u k)" SIGKILL] assms(1) Some by (simp add: running_def)
  moreover have "running ?k" "sig_frame k ?k"
    using running_upd [OF assms(1), of "psig_post SIGKILL a"] by (simp_all add: ident_def)
  moreover have "p_sig (cur ?k) = or (p_sig (cur k)) (sigmask SIGKILL)" by (simp add: psig_post_kill)
  moreover have "heavy (nat (SIGKILL - 1)) = 1" by (simp add: heavy_def is_stop_def)
  ultimately show ?thesis
    using weight_or [of "p_sig (cur k)" SIGKILL] assms(2) by (auto simp: act_ok_def running_def)
qed

lemma issig_act_stop:
  assumes "running k" "p_cursig (cur k) = sig" "is_stop sig"
  shows "\<exists>k'. (case p_pptr (cur k) of None \<Rightarrow> None
       | Some pp \<Rightarrow> map_option (Pair (Some Stopped))
           (Option.bind (psignal pp SIGCHLD k) (stop (u_procp (u k))))) = Some (Some Stopped, k') \<and>
     act_ok sig k (Some Stopped) k'"
proof -
  obtain pp k1 k' where "p_pptr (cur k) = Some pp" "psignal pp SIGCHLD k = Some k1"
    "stop (u_procp (u k)) k1 = Some k'" "sig_inv k'" "sig_frame k k'" "stat k' (u_procp (u k)) = SSTOP"
    "p_cursig (procs k' (u_procp (u k))) = p_cursig (cur k)"
    by (rule report_stop [OF assms(1)])
  moreover have "u k' = u k" using \<open>sig_frame k k'\<close> by (rule frame_u)
  ultimately show ?thesis using assms(2,3) by (intro exI [of _ k']) (simp add: act_ok_def takes_def)
qed

lemma issig_act_ok:
  assumes "running k" "p_cursig (cur k) = sig" "\<not> has_sig (p_sigmask (cur k)) sig"
  shows "\<exists>r k'. issig_act sig k = Some (r, k') \<and> act_ok sig k r k'"
proof -
  have inv: "sig_inv k" using assms(1) by (simp add: running_def)
  have none: "act_ok sig k None k" using assms(1) inv by (simp add: act_ok_def)
  show ?thesis
  proof (cases "u_signal (u k) sig = SIG_DFL")
    case dfl: True
    consider (swapper) "p_ppid (cur k) = 0"
      | (orphan) "p_ppid (cur k) \<noteq> 0" "sig = SIGTSTP \<or> sig = SIGTTIN \<or> sig = SIGTTOU" "p_pptr (cur k) = Some 1"
      | (traced) "p_ppid (cur k) \<noteq> 0" "\<not> ((sig = SIGTSTP \<or> sig = SIGTTIN \<or> sig = SIGTTOU) \<and> p_pptr (cur k) = Some 1)"
          "is_stop sig" "flag (p_flag (cur k)) STRC"
      | (stop) "p_ppid (cur k) \<noteq> 0" "\<not> ((sig = SIGTSTP \<or> sig = SIGTTIN \<or> sig = SIGTTOU) \<and> p_pptr (cur k) = Some 1)"
          "is_stop sig" "\<not> flag (p_flag (cur k)) STRC"
      | (quiet) "p_ppid (cur k) \<noteq> 0" "\<not> is_stop sig" "sig = SIGCONT \<or> quiet_sig sig"
      | (send) "p_ppid (cur k) \<noteq> 0" "\<not> is_stop sig" "\<not> (sig = SIGCONT \<or> quiet_sig sig)"
      by (cases "is_stop sig") blast+
    then show ?thesis
    proof cases
      case swapper
      then show ?thesis using none dfl by (simp add: issig_act_def Let_def)
    next
      case orphan
      then have s: "is_stop sig" by (auto simp: is_stop_def)
      obtain k' where "psignal (u_procp (u k)) SIGKILL k = Some k'" "act_ok sig k None k'"
        using issig_act_kill [OF assms(1) s] by blast
      then show ?thesis using dfl orphan by (simp add: issig_act_def Let_def)
    next
      case traced
      then have "issig_act sig k = Some (None, k)" using dfl by (auto simp: issig_act_def Let_def)
      then show ?thesis using none by blast
    next
      case stop
      obtain k' where k': "(case p_pptr (cur k) of None \<Rightarrow> None
         | Some pp \<Rightarrow> map_option (Pair (Some Stopped)) (Option.bind (psignal pp SIGCHLD k) (Sig.stop (u_procp (u k)))))
         = Some (Some Stopped, k')" "act_ok sig k (Some Stopped) k'"
        using issig_act_stop [OF assms(1,2) stop(3)] by blast
      have "issig_act sig k = Some (Some Stopped, k')"
        unfolding issig_act_def Let_def dfl handler.case k'(1) [symmetric] using stop(1,2,3,4) by auto
      then show ?thesis using k'(2) by blast
    next
      case quiet
      then have "issig_act sig k = Some (None, k)" using dfl by (auto simp: issig_act_def Let_def is_stop_def)
      then show ?thesis using none by blast
    next
      case send
      then have "issig_act sig k = Some (Some (Send sig), k)" using dfl
        by (auto simp: issig_act_def Let_def is_stop_def)
      then show ?thesis using send dfl assms inv by (auto simp: act_ok_def takes_def)
    qed
  next
    case False
    then show ?thesis using none assms inv
      by (cases "u_signal (u k) sig") (auto simp: issig_act_def Let_def act_ok_def takes_def)
  qed
qed

lemma issig_ok:
  assumes "running k"
  shows "\<exists>out k'. issig k = Some (out, k') \<and> sig_inv k' \<and> sig_frame k k' \<and> takes out k'"
  using assms
proof (induction "weight (p_sig (cur k))" arbitrary: k rule: less_induct)
  case less
  let ?p = "u_procp (u k)" and ?sig = "ffs (issig_bits (cur k))"
  have inv: "sig_inv k" using less.prems by (simp add: running_def)
  show ?case
  proof (cases "issig_bits (cur k) = 0")
    case True
    let ?k = "upd_proc ?p (\<lambda>q. q\<lparr>p_cursig := 0\<rparr>) k"
    have "running ?k" "sig_frame k ?k"
      using running_upd [OF less.prems, of "\<lambda>q. q\<lparr>p_cursig := 0\<rparr>"] by (simp_all add: ident_def)
    moreover have "issig k = Some (NoSig, ?k)" using True by (subst issig.simps) (simp add: Let_def)
    moreover have "takes NoSig ?k" using calculation(1) True by (auto simp: takes_def issig_bits_def Let_def split: if_splits)
    ultimately show ?thesis by (auto simp: running_def)
  next
    case False
    define k1 where "k1 = upd_proc ?p (\<lambda>q. q\<lparr>p_cursig := ?sig\<rparr>) (take_away ?sig ?p k)"
    have hs: "has_sig (p_sig (cur k)) ?sig" "\<not> has_sig (p_sigmask (cur k)) ?sig"
      using issig_bits_sub [OF ffs_sig [OF False]] by simp_all
    have t: "running (take_away ?sig ?p k)" "sig_frame k (take_away ?sig ?p k)"
      unfolding take_away_def
      using running_upd [OF less.prems, of "\<lambda>q. q\<lparr>p_sig := and (p_sig q) (not (sigmask ?sig))\<rparr>"]
      by (simp_all add: ident_def)
    have ut: "u (take_away ?sig ?p k) = u k" by (simp add: take_away_def)
    have k1: "running k1" "sig_frame k k1" "u k1 = u k"
      unfolding k1_def using running_upd [OF t(1), of "\<lambda>q. q\<lparr>p_cursig := ?sig\<rparr>"] ut
        sig_frame_trans [OF t(2)] by (simp_all add: ident_def)
    have f1: "p_cursig (cur k1) = ?sig" "p_sig (cur k1) = and (p_sig (cur k)) (not (sigmask ?sig))"
      "p_sigmask (cur k1) = p_sigmask (cur k)" "p_flag (cur k1) = p_flag (cur k)"
      using k1(3) by (simp_all add: k1_def)
    have up: "u_procp (u k1) = ?p" using k1(3) by simp
    note unfold = issig.simps [of k] Let_def k1_def [symmetric]
    show ?thesis
    proof (cases "flag (p_flag (cur k1)) STRC")
      case True
      obtain pp k2 k' where r: "p_pptr (cur k1) = Some pp" "psignal pp SIGCHLD k1 = Some k2"
        "stop (u_procp (u k1)) k2 = Some k'" "sig_inv k'" "sig_frame k1 k'" "stat k' (u_procp (u k1)) = SSTOP"
        "p_cursig (procs k' (u_procp (u k1))) = p_cursig (cur k1)"
        by (rule report_stop [OF k1(1)])
      have "issig k = Some (Traced ?sig, k')"
        unfolding unfold using False True r up by simp
      moreover have "takes (Traced ?sig) k'"
        using r f1 True frame_flags(2) [OF r(5)] frame_u [OF r(5)] by (simp add: takes_def)
      ultimately show ?thesis using r(4) sig_frame_trans [OF k1(2) r(5)] by blast
    next
      case untraced: False
      have m: "\<not> has_sig (p_sigmask (cur k1)) ?sig" using hs(2) f1(3) by simp
      obtain r k2 where a: "issig_act ?sig k1 = Some (r, k2)" "act_ok ?sig k1 r k2"
        using issig_act_ok [OF k1(1) f1(1) m] by blast
      have e: "issig k = (case r of None \<Rightarrow> issig k2 | Some out \<Rightarrow> Some (out, k2))"
        unfolding unfold using False untraced a(1) up by simp
      show ?thesis
      proof (cases r)
        case (Some out)
        then show ?thesis using e a(2) sig_frame_trans [OF k1(2)] by (auto simp: act_ok_def)
      next
        case None
        have r2: "running k2" "sig_frame k1 k2"
          "weight (p_sig (cur k2)) \<le> weight (p_sig (cur k1)) + (if is_stop ?sig then 1 else 0)"
          using a(2) None by (simp_all add: act_ok_def)
        have "int (nat (?sig - 1)) + 1 = ?sig" using has_sig_range [OF hs(1)] by simp
        then have "weight (p_sig (cur k2)) < weight (p_sig (cur k))"
          using weight_take [OF hs(1)] r2(3) f1(2) by (simp add: heavy_def split: if_splits)
        then obtain out k' where "issig k2 = Some (out, k')" "sig_inv k'" "sig_frame k2 k'" "takes out k'"
          using less.hyps [OF _ r2(1)] by blast
        then show ?thesis using e None sig_frame_trans [OF sig_frame_trans [OF k1(2) r2(2)]] by auto
      qed
    qed
  qed
qed

end
