(* ===== verification/SigProps.thy ===== *)
theory SigProps imports SigTake Umem begin

declare copyin_words.simps [simp del] copyout_words.simps [simp del]

text \<open>
  The properties of signals: what psignal does to the state of a process, that no wakeup is lost
  while a process is stopped, that SIGKILL and SIGSTOP cannot be shut out by any sequence of signal
  calls, who may signal whom, and that issig ends.
\<close>

section \<open>A system to try them on\<close>

definition demo_sys :: kern where
  "demo_sys = (upd_proc 0 (\<lambda>q. q\<lparr>p_ppid := 0, p_pgrp := 0\<rparr>) demo_kern)
     \<lparr>a_proc := (\<lambda>p. 0x1000 + of_nat (p mod 64))\<rparr>"

lemma demo_addr: "0x1000 + of_nat (q mod 64) \<noteq> (0 :: u_int)"
proof -
  have "unat (of_nat (q mod 64) :: u_int) = q mod 64"
    by (simp add: unat_of_nat)
  then have "unat (0x1000 + of_nat (q mod 64) :: u_int) = 0x1000 + q mod 64"
    using mod_less_divisor [of 64 q] by (subst unat16_add) simp_all
  then show ?thesis by (metis add_is_0 unat_0 zero_neq_numeral)
qed

lemma demo_sys_inv: "sig_inv demo_sys"
proof -
  have "queues demo_sys [1] ((\<lambda>_. [])(2 := [2, 3]))"
    unfolding demo_sys_def by (rule queues_cong [OF demo_queues]) auto
  then have "sched_ok demo_sys" by (auto simp: sched_ok_def)
  then show ?thesis
    using demo_addr
    by (auto simp: sig_inv_def sleepers_ok_def addrs_ok_def demo_sys_def demo_kern_def demo_proc_def live_def)
qed

lemma demo_sys_stat: "stat demo_sys 2 = SSLEEP" "stat demo_sys 3 = SSTOP" "wchan demo_sys 2 = 0x40"
  "p_pri (procs demo_sys 2) = 60" "p_flag (procs demo_sys 2) = SLOAD" "p_flag (procs demo_sys 3) = SLOAD"
  "p_pptr (procs demo_sys 2) = Some 0"
  "psig_action s (procs demo_sys 2) = Some SIG_DFL" "psig_action s (procs demo_sys 3) = Some SIG_DFL"
  by (simp_all add: demo_sys_def demo_kern_def demo_proc_def psig_action_def flag_def Let_def)

section \<open>What psignal does to the process\<close>



text \<open>The action of a signal depends on the fields posting leaves alone.\<close>

lemma psig_action_ident: "ident q' = ident q \<Longrightarrow> psig_action s q' = psig_action s q"
  using ident_flag [of q' q STRC] by (simp add: psig_action_def ident_def Let_def)

lemma stop_wait_resume:
  assumes inv: "sig_inv k" and p: "p \<noteq> 0" "interruptible (procs k p)"
    "psig_action SIGTSTP (procs k p) = Some SIG_DFL" "psig_action SIGCONT (procs k p) = Some SIG_DFL"
    "\<not> flag (p_flag (procs k p)) STRC" "\<not> flag (p_flag (procs k p)) SVFORK" "p_pptr (procs k p) \<noteq> Some 1"
    and chan: "wchan k p \<noteq> 0" "wchan k p \<noteq> pptr_chan p k"
  obtains k1 where "psignal p SIGTSTP k = Some k1" "sig_inv k1" "stat k1 p = SSTOP" "wchan k1 p = wchan k p"
    "\<not> on_runq k1 p" "psig_action SIGCONT (procs k1 p) = Some SIG_DFL" "\<not> flag (p_flag (procs k1 p)) STRC"
    "loaded k1 p = loaded k p"
proof -
  have t: "is_stop SIGTSTP" by (simp add: is_stop_def)
  have now: "stop_now SIGTSTP (psig_action SIGTSTP (procs k p)) (procs k p)"
    using p by (simp add: stop_now_def)
  obtain k1 where k1: "psignal p SIGTSTP k = Some k1" "sig_inv k1" "sig_frame k k1"
    "stat k1 p = SSTOP \<and> \<not> on_runq k1 p \<and> (wchan k p \<noteq> pptr_chan p k \<longrightarrow> wchan k1 p = wchan k p)"
    using psignal_stop [OF inv t p(1)] now by metis
  have "ident (procs k1 p) = ident (procs k p)" using k1(3) by (simp add: sig_frame_def)
  then have "psig_action SIGCONT (procs k1 p) = Some SIG_DFL" using psig_action_ident p(4) by metis
  then show thesis using that [OF k1(1,2)] k1(4) chan p(5) frame_flags [OF k1(3)] by simp
qed

lemma cont_plain: "\<not> is_stop SIGCONT" by (simp add: is_stop_def)

text \<open>C8: A process that sleeps interruptibly and is stopped by SIGTSTP keeps its place on the sleep
  queue. If it is continued before its wakeup comes it goes back to sleep on the same channel; if the
  wakeup comes first, it is remembered, and SIGCONT makes the process runnable. No wakeup is lost.\<close>

theorem stopped_wakeup_remembered:
  assumes inv: "sig_inv k" and p: "p \<noteq> 0" "interruptible (procs k p)"
    "psig_action SIGTSTP (procs k p) = Some SIG_DFL" "psig_action SIGCONT (procs k p) = Some SIG_DFL"
    "\<not> flag (p_flag (procs k p)) STRC" "\<not> flag (p_flag (procs k p)) SVFORK" "p_pptr (procs k p) \<noteq> Some 1"
    and chan: "wchan k p \<noteq> 0" "wchan k p \<noteq> pptr_chan p k"
  shows "\<exists>k1 k2 k3 k4. psignal p SIGTSTP k = Some k1 \<and> stat k1 p = SSTOP \<and>
    psignal p SIGCONT k1 = Some k2 \<and> stat k2 p = SSLEEP \<and> wchan k2 p = wchan k p \<and>
    wakeup (wchan k p) k1 = Some k3 \<and> stat k3 p = SSTOP \<and> wchan k3 p = 0 \<and>
    psignal p SIGCONT k3 = Some k4 \<and> stat k4 p = SRUN \<and> (on_runq k4 p \<longleftrightarrow> loaded k p)"
proof -
  obtain k1 where k1: "psignal p SIGTSTP k = Some k1" "sig_inv k1" "stat k1 p = SSTOP" "wchan k1 p = wchan k p"
    "\<not> on_runq k1 p" "psig_action SIGCONT (procs k1 p) = Some SIG_DFL" "\<not> flag (p_flag (procs k1 p)) STRC"
    "loaded k1 p = loaded k p"
    using stop_wait_resume [OF assms] by metis
  obtain k2 where k2: "psignal p SIGCONT k1 = Some k2" "posted SIGCONT p k1 k2"
    using psignal_plain [OF k1(2) cont_plain] by blast
  have s2: "stat k2 p = SSLEEP" using k2(2) k1 chan(1) by (simp add: posted_def stat_after_def interruptible_def)
  then have w2: "wchan k2 p = wchan k p" using k2(2) k1(4) by (simp add: posted_def)
  have ok: "sched_ok k1" "sleepers_ok k1" "a_runout k1 \<noteq> 0" using k1(2) by (simp_all add: sig_inv_def addrs_ok_def)
  obtain k3 where k3: "wakeup (wchan k p) k1 = Some k3" "sched_ok k3" "sleepers_ok k3" "wchan k3 p \<noteq> wchan k p"
    "woke (if k_runout k1 then {wchan k p, a_runout k1} else {wchan k p}) k1 k3"
    using wakeup_ok [OF ok(1,2) chan(1) ok(3)] by metis
  have i3: "sig_inv k3" using sig_frame_inv [OF k1(2) woke_frame [OF k3(5)] k3(2,3)] .
  have s3: "stat k3 p = SSTOP" "wchan k3 p = 0"
    using k3(4,5) k1(3,4) unfolding woke_def by (metis pstat.distinct)+
  have id: "ident (procs k3 p) = ident (procs k1 p)" using woke_frame [OF k3(5)] by (simp add: sig_frame_def)
  obtain k4 where k4: "psignal p SIGCONT k3 = Some k4" "posted SIGCONT p k3 k4"
    using psignal_plain [OF i3 cont_plain] by blast
  have a: "psig_action SIGCONT (procs k3 p) = Some SIG_DFL" "\<not> flag (p_flag (procs k3 p)) STRC"
    using psig_action_ident [OF id] ident_flag [OF id, of STRC] k1 by simp_all
  have s4: "stat k4 p = SRUN" using k4(2) s3 a by (simp add: posted_def stat_after_def interruptible_def)
  then have "on_runq k4 p \<longleftrightarrow> loaded k p"
    using k4(2) s3 frame_flags(1) [OF woke_frame [OF k3(5)]] k1(8) by (simp add: posted_def)
  then show ?thesis using k1 k2(1) s2 w2 k3(1) s3 k4(1) s4 by blast
qed

theorem stopped_wakeup_remembered_witness:
  "\<exists>k1 k3 k4. psignal 2 SIGTSTP demo_sys = Some k1 \<and> wakeup 0x40 k1 = Some k3 \<and> stat k3 2 = SSTOP \<and>
     psignal 2 SIGCONT k3 = Some k4 \<and> stat k4 2 = SRUN"
proof -
  have "interruptible (procs demo_sys 2)" "\<not> flag (p_flag (procs demo_sys 2)) STRC"
    "\<not> flag (p_flag (procs demo_sys 2)) SVFORK" "wchan demo_sys 2 \<noteq> pptr_chan 2 demo_sys"
    using demo_sys_stat by (simp_all add: interruptible_def flag_def pptr_chan_def)
      (simp add: demo_sys_def)
  then show ?thesis
    using stopped_wakeup_remembered [OF demo_sys_inv, of 2] demo_sys_stat by auto
qed

section \<open>SIGKILL and SIGSTOP cannot be shut out\<close>

text \<open>
  What user processes can do to the signal state: the system calls, posting, taking and delivering
  signals, and the switch to another process, whose user structure is as it left it. \<open>grow\<close> is the
  stack extension: it changes the stack size and the memory.
\<close>

definition grow_frame :: "(u_int \<Rightarrow> kern \<Rightarrow> bool \<times> kern) \<Rightarrow> bool" where
  "grow_frame grow \<longleftrightarrow> (\<forall>n s. \<exists>m z. snd (grow n s) = (upd_u (\<lambda>v. v\<lparr>u_ssize := z\<rparr>) s)\<lparr>umem := m\<rparr>)"

inductive sig_call :: "kern \<Rightarrow> kern \<Rightarrow> bool" where
  sigvec: "sig_call k (sigvec tramp signo nsv osv k)"
| sigblock: "sig_call k (sigblock msk k)"
| sigsetmask: "sig_call k (sigsetmask msk k)"
| sigpause: "sig_call k (sigpause msk k)"
| sigstack: "sig_call k (sigstack_call nss oss k)"
| sigreturn: "sig_call k (sigreturn scp k)"
| kill: "kill pid signo k = Some k' \<Longrightarrow> sig_call k k'"
| killpg: "killpg pgrp signo k = Some k' \<Longrightarrow> sig_call k k'"
| gsignal: "gsignal pgrp sig k = Some k' \<Longrightarrow> sig_call k k'"
| post: "psignal p sig k = Some k' \<Longrightarrow> p \<noteq> 0 \<Longrightarrow> sig_call k k'"
| issig: "running k \<Longrightarrow> issig k = Some (out, k') \<Longrightarrow> sig_call k k'"
| deliver: "psig grow core k = Some (Delivered k') \<Longrightarrow> grow_frame grow \<Longrightarrow> sig_call k k'"
| switch: "user_open v \<Longrightarrow> sig_call k (upd_u (\<lambda>_. v) k)"

lemma kill_open_u: "kill_open k \<Longrightarrow> user_open (g (u k)) \<Longrightarrow> kill_open (upd_u g k)"
  by (simp add: kill_open_def)

lemma kill_open_mem [simp]: "kill_open (k\<lparr>umem := m\<rparr>) = kill_open k"
  by (simp add: kill_open_def)

lemma kill_open_proc:
  assumes "kill_open k" "\<And>q. p_link (f q) = p_link q" "\<And>q. p_wchan (f q) = p_wchan q"
    and "\<And>q. p_stat (f q) = p_stat q" "\<And>q. flag (p_flag (f q)) SLOAD = flag (p_flag q) SLOAD"
    and "\<And>q. p_pptr (f q) = p_pptr q" "\<And>q. p_ppid (f q) = p_ppid q" "\<And>q. p_pgrp (f q) = p_pgrp q"
    and "\<And>q. proc_open q \<Longrightarrow> proc_open (f q)"
  shows "kill_open (upd_proc p f k)"
  using assms sig_inv_proc [OF _ assms(2-8), of k p] by (simp add: kill_open_def)

lemma kill_open_setsigvec:
  assumes "kill_open k" "sig \<noteq> SIGKILL" "sig \<noteq> SIGSTOP"
  shows "kill_open (setsigvec sig sv k)"
proof -
  have u: "kill_open (upd_u (\<lambda>v. v\<lparr>u_signal := (u_signal v)(sig := h),
     u_sigmask := (u_sigmask v)(sig := and (sv_mask sv) (not cantmask)), u_sigintr := a v, u_sigonstack := b v\<rparr>) k)"
    for h a b by (rule kill_open_u [OF assms(1)]) (use assms in \<open>simp add: kill_open_def user_open_def\<close>)
  have s: "\<not> shut_out (sigmask sig)" using assms(2,3) by (simp add: shut_out_sigmask)
  show ?thesis
    unfolding setsigvec_def Let_def
    by (auto intro!: kill_open_proc u simp: proc_open_def s dest: shut_out_and)
qed

lemma kill_open_sigvec:
  assumes "kill_open k"
  shows "kill_open (sigvec tramp signo nsv osv k)"
proof -
  have k0: "kill_open (upd_u (\<lambda>v. v\<lparr>u_pcb_sigc := tramp\<rparr>) k)"
    by (rule kill_open_u [OF assms]) (use assms in \<open>simp add: kill_open_def user_open_def\<close>)
  then show ?thesis
    unfolding sigvec_def Let_def
    by (auto simp: kill_open_setsigvec split: prod.split option.split)
qed

lemma loaded_somask [simp]: "flag (set_flag SOMASK f) SLOAD = flag f SLOAD"
  "flag (clr_flag SOMASK f) SLOAD = flag f SLOAD"
proof -
  have "and (SOMASK :: u_int) SLOAD = 0" "and SLOAD (SOMASK :: u_int) = 0" by simp_all
  then show "flag (set_flag SOMASK f) SLOAD = flag f SLOAD" "flag (clr_flag SOMASK f) SLOAD = flag f SLOAD"
    unfolding flag_def set_flag_def clr_flag_def using and_clr [of SLOAD SOMASK f]
    by (simp_all add: bit.conj_disj_distrib2)
qed

lemma kill_open_masks:
  assumes "kill_open k"
  shows "kill_open (sigblock msk k)" "kill_open (sigsetmask msk k)" "kill_open (sigpause msk k)"
    "kill_open (sigstack_call nss oss k)" "kill_open (sigreturn scp k)"
proof -
  have v: "user_open (u k)" "\<not> shut_out (p_sigmask (procs k p))" for p
    using assms by (simp_all add: kill_open_def proc_open_def)
  have u: "kill_open (upd_u g k)" if "user_open (g (u k))" for g
    by (rule kill_open_u [OF assms]) (rule that)
  show "kill_open (sigblock msk k)"
    unfolding sigblock_def Let_def
    by (intro kill_open_proc u) (use v in \<open>simp_all add: user_open_def proc_open_def\<close>)
  show "kill_open (sigsetmask msk k)"
    unfolding sigsetmask_def Let_def
    by (intro kill_open_proc u) (use v in \<open>simp_all add: user_open_def proc_open_def\<close>)
  show "kill_open (sigpause msk k)"
    unfolding sigpause_def Let_def
    by (intro kill_open_proc u) (use v in \<open>simp_all add: user_open_def proc_open_def\<close>)
  show "kill_open (sigstack_call nss oss k)"
    unfolding sigstack_call_def Let_def
    by (auto split: prod.split option.split intro!: kill_open_u simp: assms user_open_def)
      (use v in \<open>simp_all add: user_open_def\<close>)
  show "kill_open (sigreturn scp k)"
    unfolding sigreturn_def Let_def
    by (auto split: option.split intro!: kill_open_proc kill_open_u simp: assms proc_open_def)
      (use v in \<open>simp_all add: user_open_def\<close>)
qed

lemma kill_open_frame_built: "kill_open k \<Longrightarrow> kill_open (build_frame p sig msk oo n k)"
  unfolding build_frame_def Let_def
  by (simp, rule kill_open_u) (simp_all add: kill_open_def user_open_def)

lemma kill_open_trashed:
  assumes "kill_open k" "stack_trashed k = Some k'"
  shows "kill_open k'"
proof (rule kill_open_psignal [OF _ _ assms(2) [unfolded stack_trashed_def Let_def]])
  have u: "user_open (u k)" using assms(1) by (simp add: kill_open_def)
  show "kill_open (upd_proc (u_procp (u (upd_u (\<lambda>v. v\<lparr>u_signal := (u_signal v)(4 := SIG_DFL)\<rparr>) k)))
      (\<lambda>q. q\<lparr>p_sigignore := and (p_sigignore q) (not (sigmask 4)), p_sigcatch := and (p_sigcatch q) (not (sigmask 4)),
        p_sigmask := and (p_sigmask q) (not (sigmask 4))\<rparr>)
      (upd_u (\<lambda>v. v\<lparr>u_signal := (u_signal v)(4 := SIG_DFL)\<rparr>) k))"
    by (intro kill_open_proc kill_open_u assms(1))
      (use u in \<open>auto simp: user_open_def proc_open_def dest: shut_out_and\<close>)
qed (simp add: is_stop_def)

lemma kill_open_sendsig:
  assumes "kill_open k" "grow_frame grow" "sendsig grow p sig msk k = Some k'"
  shows "kill_open k'"
proof -
  define alt where "alt \<longleftrightarrow> ss_onstack (u_sigstack (u k)) = 0 \<and> and (u_sigonstack (u k)) (sigmask sig) \<noteq> 0"
  define n where "n = (if alt then ss_sp (u_sigstack (u k)) else u_ar0 (u k) R6) - 26"
  define k1 where "k1 = (if alt then upd_u (\<lambda>v. v\<lparr>u_sigstack := (u_sigstack v)\<lparr>ss_onstack := 1\<rparr>\<rparr>) k else k)"
  have k1: "kill_open k1"
    unfolding k1_def using assms(1) by (auto intro!: kill_open_u simp: user_open_def kill_open_def)
  obtain ok k2 where gr: "grow n k1 = (ok, k2)" by force
  obtain m z where "snd (grow n k1) = (upd_u (\<lambda>v. v\<lparr>u_ssize := z\<rparr>) k1)\<lparr>umem := m\<rparr>"
    using assms(2) unfolding grow_frame_def by blast
  moreover have "kill_open (upd_u (\<lambda>v. v\<lparr>u_ssize := z\<rparr>) k1)"
    by (rule kill_open_u [OF k1]) (use k1 in \<open>simp add: user_open_def kill_open_def\<close>)
  ultimately have k2: "kill_open k2" using gr by simp
  show ?thesis
    using assms(3) k1 k2 kill_open_frame_built kill_open_trashed [OF k2]
    unfolding sendsig_def Let_def alt_def [symmetric] n_def [symmetric] k1_def [symmetric] gr
    by (cases ok) (auto split: if_splits)
qed

lemma kill_open_psig:
  assumes "kill_open k" "grow_frame grow" "psig grow core k = Some (Delivered k')"
  shows "kill_open k'"
proof -
  let ?p = "u_procp (u k)" and ?sig = "p_cursig (cur k)"
  let ?k1 = "set_error NOERR k"
  define k2 where "k2 = (if flag (p_flag (procs ?k1 ?p)) SOMASK
    then upd_proc ?p (\<lambda>q. q\<lparr>p_flag := clr_flag SOMASK (p_flag q)\<rparr>) ?k1 else ?k1)"
  define k4 where "k4 = upd_u (\<lambda>v. v\<lparr>u_ru := (u_ru v)\<lparr>ru_nsignals := wrap32 (ru_nsignals (u_ru v) + 1)\<rparr>\<rparr>)
    (upd_proc ?p (\<lambda>q. q\<lparr>p_sigmask := or (p_sigmask q) (or (u_sigmask (u k2) ?sig) (sigmask ?sig))\<rparr>) k2)"
  have act: "u_signal (u k) ?sig \<noteq> SIG_DFL"
    using assms(3) by (auto simp: psig_def Let_def split: if_splits prod.splits bool.splits)
  have uk: "user_open (u k)" "user_open (u k2)" using assms(1) by (simp_all add: kill_open_def k2_def user_open_def)
  have s: "\<not> shut_out (sigmask ?sig)" "\<not> shut_out (u_sigmask (u k2) ?sig)"
    using act uk by (auto simp: shut_out_sigmask user_open_def)
  have k2: "kill_open k2"
    unfolding k2_def using assms(1) by (auto intro!: kill_open_proc simp: proc_open_def)
  have k4: "kill_open k4"
    unfolding k4_def by (intro kill_open_u kill_open_proc k2) (use uk s in \<open>simp_all add: user_open_def proc_open_def\<close>)
  obtain msk k5 where k5: "sendsig grow (u_signal (u k) ?sig) ?sig msk k4 = Some k5"
    "k' = upd_proc ?p (\<lambda>q. q\<lparr>p_cursig := 0\<rparr>) k5"
    using assms(3) act unfolding psig_def Let_def k2_def [symmetric] k4_def [symmetric] by auto
  show ?thesis
    unfolding k5(2) using kill_open_sendsig [OF k4 assms(2) k5(1)]
    by (intro kill_open_proc) (simp_all add: proc_open_def)
qed

lemma kill_open_step: "sig_call k k' \<Longrightarrow> kill_open k \<Longrightarrow> kill_open k'"
proof (induction rule: sig_call.induct)
  case (issig k out k')
  then obtain out' k'' where "issig k = Some (out', k'')" "sig_inv k''" "sig_frame k k''"
    using issig_ok by blast
  then show ?case using kill_open_frame [OF issig.prems] issig.hyps(2) by simp
next
  case (deliver grow core k k')
  then show ?case using kill_open_psig by blast
next
  case (kill pid signo k k')
  then show ?case using kill_open_kill by blast
next
  case (killpg pgrp signo k k')
  then show ?case using kill_open_killpg by blast
next
  case (gsignal pgrp sig k k')
  then show ?case using kill_open_gsignal by blast
next
  case (post p sig k k')
  then show ?case using kill_open_psignal by blast
next
  case (switch v k)
  show ?case by (rule kill_open_u [OF switch.prems switch.hyps])
qed (rule kill_open_sigvec kill_open_masks, assumption)+

lemma kill_open_run: "sig_call\<^sup>*\<^sup>* k k' \<Longrightarrow> kill_open k \<Longrightarrow> kill_open k'"
  by (induction rule: rtranclp_induct) (auto intro: kill_open_step)

lemma open_action:
  assumes "proc_open q"
  shows "psig_action SIGKILL q = Some SIG_DFL" "psig_action SIGSTOP q = Some SIG_DFL"
  using assms by (simp_all add: psig_action_has proc_open_def shut_out_def)

text \<open>C9: Whatever sequence of signal calls processes make, in any order (setting handlers, blocking
  every signal, pausing, returning from handlers with a forged context, signalling each other),
  SIGKILL and SIGSTOP keep their default action for every process. A SIGKILL then makes any process
  that sleeps interruptibly or is stopped runnable, unless it is being traced and stopped.\<close>

theorem kill_never_shut_out:
  assumes "kill_open k" "sig_call\<^sup>*\<^sup>* k k'"
  shows "psig_action SIGKILL (procs k' p) = Some SIG_DFL \<and> psig_action SIGSTOP (procs k' p) = Some SIG_DFL \<and>
    u_signal (u k') SIGKILL = SIG_DFL \<and> u_signal (u k') SIGSTOP = SIG_DFL \<and>
    (interruptible (procs k' p) \<or> stat k' p = SSTOP \<and> \<not> flag (p_flag (procs k' p)) STRC \<longrightarrow>
      (\<exists>k''. psignal p SIGKILL k' = Some k'' \<and> stat k'' p = SRUN \<and> has_sig (p_sig (procs k'' p)) SIGKILL))"
proof -
  have k': "kill_open k'" using kill_open_run assms by blast
  then have a: "psig_action SIGKILL (procs k' p) = Some SIG_DFL" "psig_action SIGSTOP (procs k' p) = Some SIG_DFL"
    using open_action by (simp_all add: kill_open_def)
  have "\<not> is_stop SIGKILL" by (simp add: is_stop_def)
  then obtain k'' where k'': "psignal p SIGKILL k' = Some k''" "posted SIGKILL p k' k''"
    using psignal_plain k' unfolding kill_open_def by blast
  have "\<not> quiet_sig SIGKILL" by (simp add: quiet_sig_def)
  then have s: "has_sig (p_sig (procs k'' p)) SIGKILL"
    using k''(2) a(1) by (simp add: posted_def sig_after_def psig_post_kill has_sig_sigmask)
  have "stat k'' p = SRUN" if "interruptible (procs k' p) \<or> stat k' p = SSTOP \<and> \<not> flag (p_flag (procs k' p)) STRC"
    using k''(2) a(1) that \<open>\<not> quiet_sig SIGKILL\<close> by (auto simp: posted_def stat_after_def)
  then show ?thesis using a k' k''(1) s by (auto simp: kill_open_def user_open_def)
qed

lemma demo_sys_open: "kill_open demo_sys"
proof -
  have "\<not> shut_out 0" by (simp add: shut_out_def)
  then have "user_open (u demo_sys)" "proc_open (procs demo_sys q)" for q
    by (simp_all add: user_open_def proc_open_def demo_sys_def demo_kern_def demo_proc_def demo_user_def)
  then show ?thesis using demo_sys_inv by (simp add: kill_open_def)
qed

theorem kill_never_shut_out_witness:
  "let k = sigsetmask (not 0) (sigblock (not 0) demo_sys) in
     psig_action SIGKILL (procs k 1) = Some SIG_DFL \<and> (\<exists>k''. psignal 3 SIGKILL k = Some k'' \<and> stat k'' 3 = SRUN)"
proof -
  let ?k = "sigsetmask (not 0) (sigblock (not 0) demo_sys)"
  have r: "sig_call\<^sup>*\<^sup>* demo_sys ?k" by (meson converse_rtranclp_into_rtranclp r_into_rtranclp sig_call.intros(2,3))
  have "stat ?k 3 = SSTOP" "\<not> flag (p_flag (procs ?k 3)) STRC"
    by (simp_all add: sigsetmask_def sigblock_def demo_sys_def demo_kern_def demo_proc_def demo_user_def flag_def Let_def)
  then show ?thesis
    using kill_never_shut_out [OF demo_sys_open r, of 1] kill_never_shut_out [OF demo_sys_open r, of 3] by (auto simp: Let_def)
qed

section \<open>Who may signal whom\<close>

text \<open>What a call that signals processes of user \<open>w\<close> only does to a process of another user.\<close>

definition spared :: "nat \<Rightarrow> 'a kern_scheme \<Rightarrow> 'a kern_scheme \<Rightarrow> bool" where
  "spared q k k' \<longleftrightarrow> sig_inv k' \<and> sig_frame k k' \<and>
     (\<forall>s. has_sig (p_sig (procs k' q)) s \<longrightarrow> has_sig (p_sig (procs k q)) s \<or> s = SIGCHLD)"

lemma spared_psignal:
  assumes "spared q k s" "p \<noteq> q" "p \<noteq> 0" "psignal p signo s = Some s'"
  shows "spared q k s'"
proof -
  obtain t where "psignal p signo s = Some t" "sig_inv t" "sig_frame s t" "only_chld p s t"
    using psignal_ok [of s p signo] assms(1,3) unfolding spared_def by metis
  then show ?thesis
    using assms sig_frame_trans [of k s t] unfolding spared_def only_chld_def by (metis option.inject)
qed

lemma spared_visit:
  assumes "spared q k s" "u_uid (u k) \<noteq> 0" "p_uid (procs k q) \<noteq> u_uid (u k)" "signo \<noteq> SIGCONT"
    and "killpg1_visit signo pgrp all p (f, e, s) = Some (f', e', s')"
  shows "spared q k s'"
proof -
  have fr: "u s = u k" "ident (procs s q) = ident (procs k q)"
    using assms(1) frame_u frame_ident unfolding spared_def by blast+
  then have uid: "p_uid (procs s q) = p_uid (procs k q)" by (simp add: ident_def)
  have p0: "p_ppid (procs s p) \<noteq> 0 \<Longrightarrow> p \<noteq> 0"
    using assms(1) unfolding spared_def sig_inv_def by metis
  have "s' = s \<or> p \<noteq> q \<and> p \<noteq> 0 \<and> psignal p signo s = Some s'"
    using assms(2-5) p0 fr(1) uid by (auto simp: killpg1_visit_def Let_def bind_eq_Some_conv split: if_splits)
  then show ?thesis using spared_psignal [OF assms(1)] assms(1) by blast
qed

lemma spared_killpg1:
  assumes "sig_inv k" "u_uid (u k) \<noteq> 0" "p_uid (procs k q) \<noteq> u_uid (u k)" "signo \<noteq> SIGCONT"
    and "killpg1 signo pgrp all k = Some (e, k')"
  shows "spared q k k'"
proof -
  have refl: "spared q k k" using assms(1) by (simp add: spared_def)
  have "k' = k \<or> (\<exists>pg ps f e'. fold (\<lambda>p st. Option.bind st (killpg1_visit signo pg all p)) ps
      (Some (0, NOERR, k)) = Some (f, e', k'))"
    using assms(5) by (auto simp: killpg1_def Let_def bind_eq_Some_conv split: if_splits)
  then show ?thesis
  proof
    assume "\<exists>pg ps f e'. fold (\<lambda>p st. Option.bind st (killpg1_visit signo pg all p)) ps
      (Some (0, NOERR, k)) = Some (f, e', k')"
    then obtain pg ps f e' where f: "fold (\<lambda>p st. Option.bind st (killpg1_visit signo pg all p)) ps
      (Some (0, NOERR, k)) = Some (f, e', k')" by blast
    have "(\<lambda>(f, e, s). spared q k s) (f, e', k')"
      by (rule fold_bind_inv [OF f]) (use refl spared_visit [OF _ assms(2-4)] in \<open>auto split: prod.splits\<close>)
    then show ?thesis by simp
  qed (use refl in simp)
qed

lemma spared_error: "spared q k k' \<Longrightarrow> procs k'' = procs k' \<Longrightarrow> u k'' = (u k')\<lparr>u_error := e\<rparr> \<Longrightarrow>
  has_sig (p_sig (procs k'' q)) s \<Longrightarrow> has_sig (p_sig (procs k q)) s \<or> s = SIGCHLD"
  by (simp add: spared_def)

text \<open>A user who is not root cannot signal a process of another user, by pid, by process group or
  by broadcast: whatever kill is called with (SIGCONT apart), the process receives no signal but
  the SIGCHLD of a child that was stopped. A bad signal number is EINVAL, an unknown pid ESRCH, and
  naming the process itself EPERM.\<close>

lemma kill_permission:
  assumes "sig_inv k" "u_uid (u k) \<noteq> 0" "p_uid (procs k q) \<noteq> u_uid (u k)" "signo \<noteq> SIGCONT"
    and "kill pid signo k = Some k'"
  shows "(has_sig (p_sig (procs k' q)) s \<longrightarrow> has_sig (p_sig (procs k q)) s \<or> s = SIGCHLD) \<and>
    (signo < 0 \<or> signo \<ge> NSIG \<longrightarrow> k' = set_error EINVAL k) \<and>
    (0 \<le> signo \<and> signo < NSIG \<and> pid > 0 \<and> pfind pid k = Some None \<longrightarrow> k' = set_error ESRCH k) \<and>
    (0 \<le> signo \<and> signo < NSIG \<and> pid > 0 \<and> pfind pid k = Some (Some q) \<longrightarrow> k' = set_error EPERM k)"
proof (cases "signo < 0 \<or> signo \<ge> NSIG")
  case True
  then show ?thesis using assms(5) by (auto simp: kill_def)
next
  case False
  have refl: "spared q k k" using assms(1) by (simp add: spared_def)
  show ?thesis
  proof (cases "pid > 0")
    case True
    then obtain r where r: "pfind pid k = Some r" using assms(5) False by (auto simp: kill_def bind_eq_Some_conv)
    show ?thesis
    proof (cases r)
      case None
      then show ?thesis using assms(5) True False r by (auto simp: kill_def)
    next
      case (Some p)
      then have "p \<noteq> 0" using r pfind_from_nonzero unfolding pfind_def by metis
      then show ?thesis
        using assms True False r Some spared_psignal [OF refl, of p signo k']
        by (auto simp: kill_def spared_def split: if_splits)
    qed
  next
    case neg: False
    then obtain e k1 pg all where kp: "killpg1 signo pg all k = Some (e, k1)" "k' = set_error e k1"
      using assms(5) False by (auto simp: kill_def bind_eq_Some_conv split: if_splits)
    then show ?thesis
      using spared_killpg1 [OF assms(1-4) kp(1)] neg False by (simp add: spared_def)
  qed
qed

lemma kill_permission_witness:
  "let k = upd_proc 3 (\<lambda>q. q\<lparr>p_uid := 8\<rparr>) demo_sys in
     kill 13 SIGKILL k = Some (set_error EPERM k) \<and> kill 14 SIGKILL k = Some (set_error ESRCH k)"
proof -
  let ?k = "upd_proc 3 (\<lambda>q. q\<lparr>p_uid := 8\<rparr>) demo_sys"
  have inv: "sig_inv ?k" by (rule sig_inv_proc [OF demo_sys_inv]) simp_all
  have pf: "pfind 13 ?k = Some (Some 3)" "pfind 14 ?k = Some None"
    by (simp_all add: pfind_def PIDHASH_def pfind_from.simps demo_sys_def demo_kern_def demo_proc_def)
  have us: "u_uid (u ?k) = 7" "p_uid (procs ?k 3) = 8"
    by (simp_all add: demo_sys_def demo_kern_def demo_user_def)
  obtain k1 k2 where r: "kill 13 SIGKILL ?k = Some k1" "kill 14 SIGKILL ?k = Some k2"
    using pf us by (simp add: kill_def)
  show ?thesis
    using kill_permission [OF inv _ _ _ r(1), of 3] kill_permission [OF inv _ _ _ r(2), of 3] us pf r
    by (simp add: Let_def)
qed

section \<open>Taking a signal\<close>

text \<open>C10: issig always returns. It reports no signal only if none is left that is pending and neither
  blocked nor ignored; a signal it returns is one with a handler or a fatal default action, and is
  not blocked; it stops only for a stop signal, after telling the parent; signals whose default is
  to be ignored are dropped.\<close>

theorem issig_returns:
  assumes "running k"
  shows "\<exists>out k'. issig k = Some (out, k') \<and> sig_inv k' \<and> sig_frame k k' \<and>
    (case out of
       NoSig \<Rightarrow> running k' \<and> issig_bits (cur k') = 0 \<and> p_cursig (cur k') = 0
     | Send s \<Rightarrow> running k' \<and> p_cursig (cur k') = s \<and> u_signal (u k') s \<noteq> SIG_HOLD \<and> u_signal (u k') s \<noteq> SIG_IGN \<and>
         (u_signal (u k') s = SIG_DFL \<longrightarrow> \<not> is_stop s \<and> s \<noteq> SIGCONT \<and> \<not> quiet_sig s) \<and>
         \<not> has_sig (p_sigmask (cur k')) s
     | Stopped \<Rightarrow> stat k' (u_procp (u k')) = SSTOP \<and> is_stop (p_cursig (cur k'))
     | Traced s \<Rightarrow> stat k' (u_procp (u k')) = SSTOP \<and> p_cursig (cur k') = s \<and> flag (p_flag (cur k')) STRC)"
  using issig_ok [OF assms] unfolding takes_def by blast

text \<open>Process 1 runs, with a SIGCHLD and a SIGTERM pending.\<close>

definition demo_run :: kern where
  "demo_run = (upd_proc 1 (\<lambda>q. q\<lparr>p_sig := or (sigmask SIGCHLD) (sigmask SIGTERM), p_link := None\<rparr>) demo_sys)\<lparr>qs := None\<rparr>"

lemma demo_run_running: "running demo_run"
proof -
  have "HASH 0x40 = 2" by (simp add: HASH_def)
  then have q: "queues demo_run [] ((\<lambda>_. [])(2 := [2, 3]))"
    by (auto simp: queues_def demo_run_def demo_sys_def demo_kern_def demo_proc_def)
  then have "\<not> on_runq demo_run 1" by (simp add: on_runq_queues)
  moreover have "sig_inv demo_run"
    using demo_sys_inv q
    by (auto simp: sig_inv_def sched_ok_def sleepers_ok_def live_def demo_run_def addrs_ok_def)
  ultimately show ?thesis
    by (simp add: running_def) (simp add: demo_run_def demo_sys_def demo_kern_def demo_proc_def demo_user_def)
qed

theorem issig_returns_witness: "\<exists>out k'. issig demo_run = Some (out, k') \<and> sig_inv k'"
  using issig_returns [OF demo_run_running] by blast

section \<open>Round trips\<close>

lemma context_roundtrip: "words_context (context_words sc) = sc" "length (context_words sc) = 10"
  by (simp_all add: words_context_def context_words_def long_words_def long_roundtrip)

definition frame_addr :: "int \<Rightarrow> 'a kern_scheme \<Rightarrow> u_int" where
  "frame_addr sig k = (if ss_onstack (u_sigstack (u k)) = 0 \<and> has_sig (u_sigonstack (u k)) sig
     then ss_sp (u_sigstack (u k)) else u_ar0 (u k) R6) - 26"

text \<open>The frame fits into the stack as it is.\<close>

definition stack_room :: "int \<Rightarrow> 'a kern_scheme \<Rightarrow> bool" where
  "stack_room sig k \<longleftrightarrow> ss_onstack (u_sigstack (u k)) \<noteq> 0 \<or> has_sig (u_sigonstack (u k)) sig \<or>
     \<not> frame_addr sig k < - push_bit 6 (u_ssize (u k))"

definition saved_context :: "sigset \<Rightarrow> 'a kern_scheme \<Rightarrow> sigcontext" where
  "saved_context msk k = (let regs = u_ar0 (u k) in
     \<lparr>sc_onstack = ss_onstack (u_sigstack (u k)), sc_mask = msk, sc_sp = regs R6, sc_fp = regs R5,
      sc_r1 = regs R1, sc_r0 = regs R0, sc_pc = regs R7, sc_ps = regs RPS,
      sc_ovno = (if uo_ovbase (u k) \<noteq> 0 then uo_curov (u k) else 0)\<rparr>)"

lemma sendsig_room:
  assumes "stack_room sig k" "mapped (umem k) (frame_addr sig k) 13"
  obtains k1 c where "sendsig grow p sig msk k = Some k1" "procs k1 = procs k" "u_procp (u k1) = u_procp (u k)"
    "copyin_words (umem k1) (frame_addr sig k) 13 =
       Some ([word_of_int sig, c, frame_addr sig k + 6] @ context_words (saved_context msk k))"
    "u_ar0 (u k1) R0 = handler_word p" "u_ar0 (u k1) R6 = frame_addr sig k" "u_ar0 (u k1) R7 = u_pcb_sigc (u k)"
proof -
  let ?alt = "ss_onstack (u_sigstack (u k)) = 0 \<and> has_sig (u_sigonstack (u k)) sig"
  define k0 where "k0 = (if ?alt then upd_u (\<lambda>v. v\<lparr>u_sigstack := (u_sigstack v)\<lparr>ss_onstack := 1\<rparr>\<rparr>) k else k)"
  define c where "c = (if sig = 4 \<or> sig = 8 then u_code (u k) else 0)"
  define sf where "sf = [word_of_int sig, c, frame_addr sig k + 6] @ context_words (saved_context msk k)"
  define k1 where "k1 = build_frame p sig msk (ss_onstack (u_sigstack (u k))) (frame_addr sig k) k0"
  have r: "sendsig grow p sig msk k = Some k1"
    using assms(1)
    by (auto simp: sendsig_def Let_def k1_def k0_def frame_addr_def stack_room_def has_sig_def [symmetric])
  have u0: "u_ar0 (u k0) = u_ar0 (u k)" "umem k0 = umem k" "u_code (u k0) = u_code (u k)"
    "uo_ovbase (u k0) = uo_ovbase (u k)" "uo_curov (u k0) = uo_curov (u k)" "u_pcb_sigc (u k0) = u_pcb_sigc (u k)"
    "procs k0 = procs k" "u_procp (u k0) = u_procp (u k)" by (simp_all add: k0_def)
  have m: "umem k1 = snd (copyout_words (umem k) (frame_addr sig k) sf)"
    unfolding k1_def build_frame_def Let_def sf_def saved_context_def c_def u0 by simp
  have len: "length sf = 13" by (simp add: sf_def context_roundtrip)
  have "copyin_words (umem k1) (frame_addr sig k) 13 = Some sf"
    using copy_roundtrip [of "umem k" "frame_addr sig k" sf] assms(2) len m by simp
  then show thesis
    using that [OF r, of c] u0 unfolding sf_def by (simp add: k1_def build_frame_def Let_def)
qed

text \<open>sendsig and sigreturn are inverse: the handler is entered through the trampoline with the
  signal number and its context on the stack it chose, and when it returns, whatever it did to the
  registers and to the rest of memory, sigreturn restores the interrupted program's registers, stack
  choice and signal mask, the last without the signals that cannot be blocked.\<close>

lemma sigreturn_restores:
  fixes k :: "'a kern_scheme"
  assumes "stack_room sig k" "mapped (umem k) (frame_addr sig k) 13"
    and "USERMODE (u_ar0 (u k) RPS)" "and (u_ar0 (u k) RPS) PSL_USERCLR = 0"
    and "ss_onstack (u_sigstack (u k)) \<in> {0, 1}"
  shows "\<exists>k1. sendsig grow p sig msk k = Some k1 \<and> u_ar0 (u k1) R7 = u_pcb_sigc (u k) \<and>
    u_ar0 (u k1) R0 = handler_word p \<and> u_ar0 (u k1) R6 = frame_addr sig k \<and>
    (\<forall>k2 :: 'a kern_scheme. u_procp (u k2) = u_procp (u k) \<and>
      copyin_words (umem k2) (frame_addr sig k + 6) 10 = copyin_words (umem k1) (frame_addr sig k + 6) 10 \<longrightarrow>
      (let k' = sigreturn (frame_addr sig k + 6) k2 in
        u_error (u k') = NOERR \<and> (\<forall>r \<in> {R0, R1, R5, R6, R7, RPS}. u_ar0 (u k') r = u_ar0 (u k) r) \<and>
        ss_onstack (u_sigstack (u k')) = ss_onstack (u_sigstack (u k)) \<and>
        p_sigmask (cur k') = and msk (not cantmask)))"
proof -
  obtain k1 c where k1: "sendsig grow p sig msk k = Some k1" "u_procp (u k1) = u_procp (u k)"
    "copyin_words (umem k1) (frame_addr sig k) 13 =
       Some ([word_of_int sig, c, frame_addr sig k + 6] @ context_words (saved_context msk k))"
    "u_ar0 (u k1) R0 = handler_word p" "u_ar0 (u k1) R6 = frame_addr sig k" "u_ar0 (u k1) R7 = u_pcb_sigc (u k)"
    by (rule sendsig_room [OF assms(1,2)])
  have ctx: "copyin_words (umem k1) (frame_addr sig k + 6) 10 = Some (context_words (saved_context msk k))"
    using copyin_append [of "umem k1" "frame_addr sig k" "[word_of_int sig, c, frame_addr sig k + 6]" 10]
      k1(3) context_roundtrip(2) by simp
  have one: "and (ss_onstack (u_sigstack (u k))) 1 = ss_onstack (u_sigstack (u k))"
    using assms(5) by auto
  show ?thesis
  proof (intro exI conjI allI impI)
    fix k2 :: "'a kern_scheme" assume k2: "u_procp (u k2) = u_procp (u k) \<and>
      copyin_words (umem k2) (frame_addr sig k + 6) 10 = copyin_words (umem k1) (frame_addr sig k + 6) 10"
    then have "copyin_words (umem k2) (frame_addr sig k + 6) 10 = Some (context_words (saved_context msk k))"
      using ctx by simp
    then show "let k' = sigreturn (frame_addr sig k + 6) k2 in
        u_error (u k') = NOERR \<and> (\<forall>r \<in> {R0, R1, R5, R6, R7, RPS}. u_ar0 (u k') r = u_ar0 (u k) r) \<and>
        ss_onstack (u_sigstack (u k')) = ss_onstack (u_sigstack (u k)) \<and>
        p_sigmask (cur k') = and msk (not cantmask)"
      using assms(3,4) one by (simp add: sigreturn_def context_roundtrip saved_context_def Let_def)
  qed (rule k1)+
qed

text \<open>All of user memory mapped, and a process in user mode.\<close>

definition demo_mem :: kern where
  "demo_mem = upd_u (\<lambda>v. v\<lparr>u_ar0 := (\<lambda>_. 0)(RPS := 0xf000, R6 := 0x8000)\<rparr>) (demo_sys\<lparr>umem := \<lambda>_. Some 0\<rparr>)"

lemma demo_mem_fields: "mapped (umem demo_mem) a n" "u_ar0 (u demo_mem) RPS = 0xf000"
  "u_ar0 (u demo_mem) R6 = 0x8000" "ss_onstack (u_sigstack (u demo_mem)) = 0" "u_sigonstack (u demo_mem) = 0"
  "u_ssize (u demo_mem) = 0" "u_signal (u demo_mem) s = SIG_DFL" "u_sigmask (u demo_mem) s = 0" "u_sigintr (u demo_mem) = 0"
  by (simp_all add: demo_mem_def mapped_def demo_sys_def demo_kern_def demo_user_def)

lemma sigreturn_restores_witness:
  "\<exists>k1. sendsig (\<lambda>_ s. (False, s)) (Handler 0x100) 2 (sigmask 3) demo_mem = Some k1 \<and> u_ar0 (u k1) R0 = 0x100 \<and>
     u_ar0 (u (sigreturn (frame_addr 2 demo_mem + 6) k1)) RPS = 0xf000 \<and>
     u_ar0 (u (sigreturn (frame_addr 2 demo_mem + 6) k1)) R6 = 0x8000"
proof -
  have room: "stack_room 2 demo_mem" by (simp add: stack_room_def demo_mem_fields)
  have ps: "USERMODE (u_ar0 (u demo_mem) RPS)" "and (u_ar0 (u demo_mem) RPS) PSL_USERCLR = 0"
    "ss_onstack (u_sigstack (u demo_mem)) \<in> {0, 1}"
    by (simp_all add: USERMODE_def demo_mem_fields)
  obtain k1 where k1: "sendsig (\<lambda>_ s. (False, s)) (Handler 0x100) 2 (sigmask 3) demo_mem = Some k1"
    "u_ar0 (u k1) R0 = handler_word (Handler 0x100)"
    and k2: "\<forall>k2 :: kern. u_procp (u k2) = u_procp (u demo_mem) \<and>
      copyin_words (umem k2) (frame_addr 2 demo_mem + 6) 10 = copyin_words (umem k1) (frame_addr 2 demo_mem + 6) 10 \<longrightarrow>
      (let k' = sigreturn (frame_addr 2 demo_mem + 6) k2 in
        u_error (u k') = NOERR \<and> (\<forall>r \<in> {R0, R1, R5, R6, R7, RPS}. u_ar0 (u k') r = u_ar0 (u demo_mem) r) \<and>
        ss_onstack (u_sigstack (u k')) = ss_onstack (u_sigstack (u demo_mem)) \<and>
        p_sigmask (cur k') = and (sigmask 3) (not cantmask))"
    using sigreturn_restores [OF room demo_mem_fields(1) ps, of "\<lambda>_ s. (False, s)" "Handler 0x100" "sigmask 3"]
    by blast
  have "u_procp (u k1) = u_procp (u demo_mem)"
    using sendsig_room [OF room demo_mem_fields(1)] k1(1) by (metis option.inject)
  then have "\<forall>r \<in> {R0, R1, R5, R6, R7, RPS}. u_ar0 (u (sigreturn (frame_addr 2 demo_mem + 6) k1)) r = u_ar0 (u demo_mem) r"
    using k2 [THEN spec, of k1] unfolding Let_def by blast
  then show ?thesis using k1 demo_mem_fields(2,3) by (intro exI [of _ k1]) simp
qed

lemma handler_roundtrip: "handler_word (word_handler w) = w"
  by (simp add: word_handler_def)

lemma flag_bits: "or (if and f 1 \<noteq> 0 then 1 else 0) (if and f 2 \<noteq> 0 then 2 else 0) = and f (3 :: u_int)"
proof -
  have three: "and f 3 = of_bool (bit f 0) + 2 * of_bool (bit f 1)"
  proof -
    have "and f 3 = take_bit (Suc (Suc 0)) f" by (simp add: take_bit_eq_mask mask_eq_exp_minus_1)
    also have "\<dots> = of_bool (bit f 0) + 2 * of_bool (bit f 1)"
      by (simp add: take_bit_Suc bit_0 bit_Suc mod_2_eq_odd)
    finally show ?thesis .
  qed
  have one: "and f 1 = 0 \<longleftrightarrow> \<not> bit f 0" using and_exp_eq_0_iff_not_bit [of f 0] by simp
  have two: "and f 2 = 0 \<longleftrightarrow> \<not> bit f 1" using and_exp_eq_0_iff_not_bit [of f 1] by simp
  show ?thesis unfolding three one two by (cases "bit f 0"; cases "bit f 1") simp_all
qed

lemma setsigvec_old:
  assumes "1 \<le> sig" "sig < NSIG"
  shows "old_sigvec sig (setsigvec sig sv k) =
    \<lparr>sv_handler = sv_handler sv, sv_mask = and (sv_mask sv) (not cantmask), sv_flags = and (sv_flags sv) 3\<rparr>"
proof -
  have s: "has_sig (sigmask sig) sig" using assms by (simp add: has_sig_sigmask)
  have on: "has_sig (if c then or w (sigmask sig) else and w (not (sigmask sig))) sig \<longleftrightarrow> c" for c w
    using s by (simp add: has_sig_diff)
  have u: "\<exists>q. u (setsigvec sig sv k) = (u k)\<lparr>u_signal := (u_signal (u k))(sig := sv_handler sv),
      u_sigmask := (u_sigmask (u k))(sig := and (sv_mask sv) (not cantmask)),
      u_sigintr := (if flag (sv_flags sv) SV_INTERRUPT then or (u_sigintr (u k)) (sigmask sig)
                    else and (u_sigintr (u k)) (not (sigmask sig))),
      u_sigonstack := (if flag (sv_flags sv) SV_ONSTACK then or (u_sigonstack (u k)) (sigmask sig)
                       else and (u_sigonstack (u k)) (not (sigmask sig)))\<rparr>"
    by (simp add: setsigvec_def Let_def)
  then show ?thesis
    using on flag_bits [of "sv_flags sv"]
    by (simp add: old_sigvec_def has_sig_def [symmetric] flag_def)
qed

text \<open>sigvec reads back what it was given: after a vector has been set for a signal that may be
  caught, asking for the old vector returns the same handler and flags, and the mask without the
  signals that cannot be blocked. SIGKILL and SIGSTOP, and ignoring SIGCONT, are EINVAL and change
  nothing but the trampoline's address.\<close>

lemma sigvec_roundtrip:
  assumes "1 \<le> signo" "signo < NSIG" "nsv \<noteq> 0" "osv \<noteq> 0" "copyin_words (umem k) nsv 4 = Some ws"
    and "mapped (umem k) osv 4"
  shows "if signo = SIGKILL \<or> signo = SIGSTOP \<or> signo = SIGCONT \<and> ws ! 0 = 1
    then \<exists>e. sigvec t signo nsv 0 k = set_error EINVAL (set_error e (upd_u (\<lambda>v. v\<lparr>u_pcb_sigc := t\<rparr>) k))
    else let k' = sigvec t signo 0 osv (sigvec t signo nsv 0 k) in
      u_error (u k') = NOERR \<and>
      copyin_words (umem k') osv 4 =
        Some (ws ! 0 # long_words (and (words_long (ws ! 1) (ws ! 2)) (not cantmask)) @ [and (ws ! 3) 3])"
proof (cases "signo = SIGKILL \<or> signo = SIGSTOP \<or> signo = SIGCONT \<and> ws ! 0 = 1")
  case True
  have "word_handler 1 = SIG_IGN" by (simp add: word_handler_def)
  moreover have "set_error EINVAL s = set_error EINVAL (set_error e s)" for e and s :: "'a kern_scheme"
    by (simp add: set_error_def upd_u_def)
  ultimately show ?thesis
    using True assms by (auto simp: sigvec_def Let_def words_sigvec_def)
next
  case False
  define sv where "sv = words_sigvec ws"
  have ign: "\<not> (signo = SIGCONT \<and> sv_handler sv = SIG_IGN)"
    using False by (auto simp: sv_def words_sigvec_def word_handler_def split: if_splits)
  have svf: "sv_handler sv = word_handler (ws ! 0)" "sv_mask sv = words_long (ws ! 1) (ws ! 2)" "sv_flags sv = ws ! 3"
    by (simp_all add: sv_def words_sigvec_def)
  define k1 where "k1 = setsigvec signo sv (set_error NOERR (upd_u (\<lambda>v. v\<lparr>u_pcb_sigc := t\<rparr>) k))"
  have r1: "sigvec t signo nsv 0 k = k1"
    using False assms ign by (auto simp: sigvec_def Let_def k1_def sv_def)
  have m1: "umem k1 = umem k" by (simp add: k1_def setsigvec_def Let_def)
  define k2 where "k2 = upd_u (\<lambda>v. v\<lparr>u_pcb_sigc := t\<rparr>) k1"
  have "old_sigvec signo k2 = old_sigvec signo k1" by (simp add: old_sigvec_def k2_def)
  then have old: "sigvec_words (old_sigvec signo k2) =
      ws ! 0 # long_words (and (words_long (ws ! 1) (ws ! 2)) (not cantmask)) @ [and (ws ! 3) 3]" (is "_ = ?ws")
    using svf by (simp add: setsigvec_old [OF assms(1,2)] k1_def sigvec_words_def handler_roundtrip)
  have len: "length ?ws = 4" by (simp add: long_words_def)
  obtain e m where co: "copyout_words (umem k) osv ?ws = (e, m)" by force
  have rt: "e = NOERR" "copyin_words m osv 4 = Some ?ws"
    using copy_roundtrip [of "umem k" osv ?ws] assms(6) len co by simp_all
  have "sigvec t signo 0 osv k1 = set_error NOERR (k2\<lparr>umem := m\<rparr>)"
    using False assms(1,2,4) co rt(1) m1 old by (simp add: sigvec_def Let_def k2_def [symmetric]) (simp add: k2_def m1)
  then show ?thesis using False rt r1 by (auto simp: Let_def)
qed

lemma copyin4: "copyin_words m a 4 = do { w0 \<leftarrow> m a; w1 \<leftarrow> m (a + 2); w2 \<leftarrow> m (a + 4); w3 \<leftarrow> m (a + 6);
  Some [w0, w1, w2, w3] }"
  by (simp add: eval_nat_numeral(2,3) copyin_words.simps add.assoc)

lemma sigvec_roundtrip_witness:
  "let k = demo_mem\<lparr>umem := (\<lambda>_. Some 0)(0x40 \<mapsto> 0x100, 0x42 \<mapsto> 0xffff, 0x44 \<mapsto> 0xffff, 0x46 \<mapsto> 2)\<rparr> in
     copyin_words (umem (sigvec 6 2 0 0x80 (sigvec 6 2 0x40 0 k))) 0x80 4 = Some [0x100, 0xfffa, 0xfeff, 2]"
proof -
  let ?k = "demo_mem\<lparr>umem := (\<lambda>_. Some 0)(0x40 \<mapsto> 0x100, 0x42 \<mapsto> 0xffff, 0x44 \<mapsto> 0xffff, 0x46 \<mapsto> 2)\<rparr>"
  have ci: "copyin_words (umem ?k) 0x40 4 = Some [0x100, 0xffff, 0xffff, 2]"
    by (simp add: copyin4)
  have mp: "mapped (umem ?k) 0x80 4" by (auto simp: mapped_def)
  have "long_words (and (words_long 0xffff 0xffff) (not cantmask)) = [0xfffa, 0xfeff]" by code_simp
  then show ?thesis
    using sigvec_roundtrip [OF _ _ _ _ ci mp, of 2 6] by (simp add: Let_def)
qed

end
