(* ===== verification/SigFrame.thy ===== *)
theory SigFrame imports SigTake begin

text \<open>
  What an extension of the kernel's state adds is untouched by the scheduler and by signals: every
  operation of Sched and psignal keeps \<open>kern.more\<close>.
\<close>

lemma upd_proc_more [simp]: "kern.more (upd_proc p f k) = kern.more k"
  by (simp add: upd_proc_def)

lemma upd_u_more [simp]: "kern.more (upd_u f k) = kern.more k"
  by (simp add: upd_u_def)

lemma set_error_more [simp]: "kern.more (set_error e k) = kern.more k"
  by (simp add: set_error_def)

lemma setpri_more [simp]: "kern.more (snd (setpri p k)) = kern.more k"
  by (simp add: setpri_def Let_def)

lemma updatepri_more: "updatepri p k = Some k' \<Longrightarrow> kern.more k' = kern.more k"
  by (auto simp: updatepri_def Let_def bind_eq_Some_conv)

lemma setrq_more [simp]: "kern.more (setrq p k) = kern.more k"
  by (simp add: setrq_def)

lemma assign_more [simp]: "kern.more (assign q v k) = kern.more k"
  by (cases q) simp_all

lemma unsleep_more: "unsleep p k = Some k' \<Longrightarrow> kern.more k' = kern.more k"
  by (auto simp: unsleep_def Let_def bind_eq_Some_conv split: if_splits)

lemma wake_run_more: "wake_run p k = Some (k', sw) \<Longrightarrow> kern.more k' = kern.more k"
  by (auto simp: wake_run_def Let_def bind_eq_Some_conv dest!: updatepri_more split: if_splits)

lemma wakeup_at_more: "wakeup_at chan q k = Some k' \<Longrightarrow> kern.more k' = kern.more k"
proof (rule wakeup_at.raw_induct [where P = "\<lambda>_ _ k k'. kern.more k' = kern.more k"])
  fix f :: "u_int \<Rightarrow> lptr \<Rightarrow> 'a kern_scheme \<Rightarrow> 'a kern_scheme option" and chan q k r
  assume ih: "\<And>chan q k r. f chan q k = Some r \<Longrightarrow> kern.more r = kern.more k"
    and step: "(case deref q k of None \<Rightarrow> Some k
     | Some p \<Rightarrow>
        (if p_stat (procs k p) \<noteq> SSLEEP \<and> p_stat (procs k p) \<noteq> SSTOP then None
         else if p_wchan (procs k p) = chan then
           (let k1 = assign q (p_link (procs k p)) (upd_proc p (\<lambda>r. r\<lparr>p_wchan := 0\<rparr>) k) in
            if p_stat (procs k p) = SSLEEP then
              Option.bind (wake_run p k1) (\<lambda>(k2, swapper).
                Option.bind (if swapper then f (a_runout k2) (Head (HASH (a_runout k2))) k2
                             else Some k2)
                  (\<lambda>k3. f chan (Head (HASH chan)) k3))
            else f chan q (upd_proc p (\<lambda>r. r\<lparr>p_slptime := 0\<rparr>) k1))
         else f chan (Link p) k)) = Some r"
  show "kern.more r = kern.more k"
    using step by (auto simp: Let_def bind_eq_Some_conv split: option.splits if_splits
        dest!: ih wake_run_more)
qed

lemma wakeup_more: "wakeup chan k = Some k' \<Longrightarrow> kern.more k' = kern.more k"
  unfolding wakeup_def by (rule wakeup_at_more)

lemma setpri_u [simp]: "u (snd (setpri p k)) = u k"
  by (simp add: setpri_def Let_def)

lemma updatepri_u: "updatepri p k = Some k' \<Longrightarrow> u k' = u k"
  by (auto simp: updatepri_def Let_def bind_eq_Some_conv)

lemma wake_run_u: "wake_run p k = Some (k', sw) \<Longrightarrow> u k' = u k"
  by (auto simp: wake_run_def Let_def bind_eq_Some_conv setrq_def dest!: updatepri_u split: if_splits)

lemma assign_u [simp]: "u (assign q v k) = u k"
  by (cases q) simp_all

lemma wakeup_at_u: "wakeup_at chan q k = Some k' \<Longrightarrow> u k' = u k"
proof (rule wakeup_at.raw_induct [where P = "\<lambda>_ _ k k'. u k' = u k"])
  fix f :: "u_int \<Rightarrow> lptr \<Rightarrow> 'a kern_scheme \<Rightarrow> 'a kern_scheme option" and chan q k r
  assume ih: "\<And>chan q k r. f chan q k = Some r \<Longrightarrow> u r = u k"
    and step: "(case deref q k of None \<Rightarrow> Some k
     | Some p \<Rightarrow>
        (if p_stat (procs k p) \<noteq> SSLEEP \<and> p_stat (procs k p) \<noteq> SSTOP then None
         else if p_wchan (procs k p) = chan then
           (let k1 = assign q (p_link (procs k p)) (upd_proc p (\<lambda>r. r\<lparr>p_wchan := 0\<rparr>) k) in
            if p_stat (procs k p) = SSLEEP then
              Option.bind (wake_run p k1) (\<lambda>(k2, swapper).
                Option.bind (if swapper then f (a_runout k2) (Head (HASH (a_runout k2))) k2
                             else Some k2)
                  (\<lambda>k3. f chan (Head (HASH chan)) k3))
            else f chan q (upd_proc p (\<lambda>r. r\<lparr>p_slptime := 0\<rparr>) k1))
         else f chan (Link p) k)) = Some r"
  show "u r = u k"
    using step by (auto simp: Let_def bind_eq_Some_conv split: option.splits if_splits dest!: ih wake_run_u)
qed

lemma setrun_more:
  assumes "setrun p k = Some k'"
  shows "kern.more k' = kern.more k"
proof -
  obtain k1 k2 where a: "(case stat k p of SSTOP \<Rightarrow> unsleep p k | SSLEEP \<Rightarrow> unsleep p k | SIDL \<Rightarrow> Some k | _ \<Rightarrow> None) = Some k1"
    and b: "(if p_slptime (procs k1 p) > 1 then updatepri p k1 else Some k1) = Some k2"
    and c: "(let k3 = upd_proc p (\<lambda>q. q\<lparr>p_stat := SRUN\<rparr>) k2;
        k4 = (if flag (p_flag (procs k3 p)) SLOAD then setrq p k3 else k3);
        k5 = (if p_pri (procs k4 p) < curpri k4 then k4\<lparr>runrun := runrun k4 + 1\<rparr> else k4)
      in if \<not> flag (p_flag (procs k5 p)) SLOAD \<and> k_runout k5
         then wakeup (a_runout k5) (k5\<lparr>k_runout := False\<rparr>) else Some k5) = Some k'"
    using assms unfolding setrun_def bind_eq_Some_conv by blast
  have "kern.more k1 = kern.more k" using a by (auto split: pstat.splits dest!: unsleep_more)
  moreover have "kern.more k2 = kern.more k1" using b by (auto split: if_splits dest!: updatepri_more)
  moreover have "kern.more k' = kern.more k2"
  proof -
    define k4 where "k4 = (let k3 = upd_proc p (\<lambda>q. q\<lparr>p_stat := SRUN\<rparr>) k2 in
        if flag (p_flag (procs k3 p)) SLOAD then setrq p k3 else k3)"
    define k5 where "k5 = (if p_pri (procs k4 p) < curpri k4 then k4\<lparr>runrun := runrun k4 + 1\<rparr> else k4)"
    have "kern.more k4 = kern.more k2" by (simp add: k4_def Let_def)
    moreover have "kern.more k5 = kern.more k4" by (simp add: k5_def)
    moreover have "(if \<not> flag (p_flag (procs k5 p)) SLOAD \<and> k_runout k5
         then wakeup (a_runout k5) (k5\<lparr>k_runout := False\<rparr>) else Some k5) = Some k'"
      using c unfolding k5_def k4_def Let_def .
    then have "kern.more k' = kern.more k5" by (auto split: if_splits dest!: wakeup_more)
    ultimately show ?thesis by simp
  qed
  ultimately show ?thesis by simp
qed

lemma psig_run_more: "psig_run p k = Some k' \<Longrightarrow> kern.more k' = kern.more k"
  by (auto simp: psig_run_def split: if_splits dest!: setrun_more)

lemma stop_more: "stop p k = Some k' \<Longrightarrow> kern.more k' = kern.more k"
  by (auto simp: stop_def Let_def dest!: wakeup_more)

lemma take_away_more [simp]: "kern.more (take_away s p k) = kern.more k"
  by (simp add: take_away_def)

lemma psignal_more: "psignal p sig k = Some k' \<Longrightarrow> kern.more k' = kern.more k"
proof (induction p sig k arbitrary: k' rule: psignal.induct)
  case (1 p sig k)
  show ?case
  proof (cases "psig_action sig (procs k p)")
    case None
    then show ?thesis using 1(3) by (simp add: psignal.simps)
  next
    case (Some a)
    note ih = 1(1) [OF Some refl refl] 1(2) [OF Some refl refl]
    show ?thesis
      using 1(3) Some ih
      by (subst (asm) psignal.simps)
        (auto simp: Let_def bind_eq_Some_conv split: pstat.splits if_splits option.splits
          dest!: psig_run_more unsleep_more stop_more)
  qed
qed

end
