(* ===== verification/Callout.thy ===== *)
theory Callout imports Sig begin

text \<open>
  The timeout queue and the clock interrupt, \<open>src/sys/sys/kern_clock.c\<close>. The callout table is
  threaded through \<open>c_next\<close>; \<open>callfree\<close> heads the unused entries and \<open>calltodo\<close> the pending ones,
  whose times are kept as differences. The routine a callout runs is an address; what running it
  does to the kernel is an argument (\<open>call\<close>), as are addupc and vmmeter.
\<close>

section \<open>The state\<close>

record callout =
  c_time :: int
  c_arg :: u_int
  c_func :: u_int
  c_next :: "nat option"

record clk = kern +
  callouts :: "nat \<Rightarrow> callout"
  callfree :: "nat option"
  calltodo :: "nat option"
  time_sec :: int
  time_usec :: int
  lbolt :: int
  boottime_sec :: int
  tz_minuteswest :: int
  tz_dsttime :: int

abbreviation (input) "LINEHZ \<equiv> 60 :: int"
abbreviation (input) "RLIM_INFINITY \<equiv> 0x7fffffff :: int"

definition BASEPRI :: "u_int \<Rightarrow> bool" where
  "BASEPRI ps \<longleftrightarrow> and ps 0xe0 = 0"

definition upd_callout :: "nat \<Rightarrow> (callout \<Rightarrow> callout) \<Rightarrow> 'a clk_scheme \<Rightarrow> 'a clk_scheme" where
  "upd_callout i f k = k\<lparr>callouts := (callouts k)(i := f (callouts k i))\<rparr>"

text \<open>\<open>p->c_next\<close> and the assignment to it, where \<open>p\<close> may be \<open>&calltodo\<close> (\<open>None\<close>).\<close>

fun next_of :: "nat option \<Rightarrow> 'a clk_scheme \<Rightarrow> nat option" where
  "next_of None k = calltodo k"
| "next_of (Some i) k = c_next (callouts k i)"

fun set_next :: "nat option \<Rightarrow> nat option \<Rightarrow> 'a clk_scheme \<Rightarrow> 'a clk_scheme" where
  "set_next None v k = k\<lparr>calltodo := v\<rparr>"
| "set_next (Some i) v k = upd_callout i (\<lambda>c. c\<lparr>c_next := v\<rparr>) k"

section \<open>timeout and untimeout\<close>

text \<open>The search of timeout: the entry to insert behind, and the time left over.\<close>

partial_function (option) timeout_from ::
  "nat option \<Rightarrow> int \<Rightarrow> 'a clk_scheme \<Rightarrow> (nat option \<times> int) option" where
  "timeout_from p1 t k = (case next_of p1 k of None \<Rightarrow> Some (p1, t)
     | Some p2 \<Rightarrow>
        (if c_time (callouts k p2) < t then
           timeout_from (Some p2)
             (if c_time (callouts k p2) > 0 then t - c_time (callouts k p2) else t) k
         else Some (p1, t)))"

text \<open>\<open>None\<close> is the panic for a full table.\<close>

definition timeout :: "u_int \<Rightarrow> u_int \<Rightarrow> int \<Rightarrow> 'a clk_scheme \<Rightarrow> 'a clk_scheme option" where
  "timeout fun arg t0 k =
     (let t = (if t0 \<le> 0 then 1 else t0) in
      case callfree k of None \<Rightarrow> None
      | Some pnew \<Rightarrow> do {
          let k1 = k\<lparr>callfree := c_next (callouts k pnew)\<rparr>;
          let k2 = upd_callout pnew (\<lambda>c. c\<lparr>c_arg := arg, c_func := fun\<rparr>) k1;
          (p1, t) \<leftarrow> timeout_from None t k2;
          let p2 = next_of p1 k2;
          let k3 = set_next p1 (Some pnew) k2;
          let k4 = upd_callout pnew (\<lambda>c. c\<lparr>c_next := p2, c_time := t\<rparr>) k3;
          Some (case p2 of None \<Rightarrow> k4
                | Some i \<Rightarrow> upd_callout i (\<lambda>c. c\<lparr>c_time := wrap16 (c_time c - t)\<rparr>) k4)
        })"

definition unlink_callout :: "nat option \<Rightarrow> nat \<Rightarrow> 'a clk_scheme \<Rightarrow> 'a clk_scheme" where
  "unlink_callout p1 p2 k =
     (let c = callouts k p2;
          k1 = (case c_next c of Some j \<Rightarrow>
                  if c_time c > 0 then upd_callout j (\<lambda>d. d\<lparr>c_time := wrap16 (c_time d + c_time c)\<rparr>) k
                  else k
                | None \<Rightarrow> k);
          k2 = set_next p1 (c_next (callouts k1 p2)) k1;
          k3 = upd_callout p2 (\<lambda>d. d\<lparr>c_next := callfree k2\<rparr>) k2
      in k3\<lparr>callfree := Some p2\<rparr>)"

partial_function (option) untimeout_from ::
  "nat option \<Rightarrow> u_int \<Rightarrow> u_int \<Rightarrow> 'a clk_scheme \<Rightarrow> 'a clk_scheme option" where
  "untimeout_from p1 fun arg k = (case next_of p1 k of None \<Rightarrow> Some k
     | Some p2 \<Rightarrow>
        (if c_func (callouts k p2) = fun \<and> c_arg (callouts k p2) = arg then Some (unlink_callout p1 p2 k)
         else untimeout_from (Some p2) fun arg k))"

definition untimeout :: "u_int \<Rightarrow> u_int \<Rightarrow> 'a clk_scheme \<Rightarrow> 'a clk_scheme option" where
  "untimeout fun arg k = untimeout_from None fun arg k"

section \<open>The clock interrupt\<close>

text \<open>The loop of hardclock over the pending callouts; the second component is \<open>needsoft\<close>.\<close>

partial_function (option) tick_from ::
  "nat option \<Rightarrow> bool \<Rightarrow> 'a clk_scheme \<Rightarrow> (bool \<times> 'a clk_scheme) option" where
  "tick_from p1 needsoft k = (case p1 of None \<Rightarrow> Some (needsoft, k)
     | Some i \<Rightarrow>
        (let k1 = upd_callout i (\<lambda>c. c\<lparr>c_time := wrap16 (c_time c - 1)\<rparr>) k;
             t = c_time (callouts k1 i) in
         if t > 0 then Some (needsoft, k1)
         else if t = 0 then Some (True, k1)
         else tick_from (c_next (callouts k1 i)) True k1))"

text \<open>An interval timer of the user structure (\<open>ITIMER_VIRTUAL\<close> is at 0, \<open>ITIMER_PROF\<close> at 1): at
  a tick it is decremented, and when it runs out its signal is posted and it is reloaded.\<close>

definition upd_timer :: "nat \<Rightarrow> (k_itimerval \<Rightarrow> k_itimerval) \<Rightarrow> 'a kern_scheme \<Rightarrow> 'a kern_scheme" where
  "upd_timer i f = upd_u (\<lambda>v. v\<lparr>u_timer := (u_timer v)[i := f (u_timer v ! i)]\<rparr>)"

definition run_timer :: "nat \<Rightarrow> int \<Rightarrow> 'a kern_scheme \<Rightarrow> 'a kern_scheme option" where
  "run_timer i sig k =
     (if it_value (u_timer (u k) ! i) = 0 then Some k
      else let k1 = upd_timer i (\<lambda>t. t\<lparr>it_value := wrap32 (it_value t - 1)\<rparr>) k in
        if it_value (u_timer (u k1) ! i) \<noteq> 0 then Some k1
        else do {
          k2 \<leftarrow> psignal (u_procp (u k1)) sig k1;
          Some (upd_timer i (\<lambda>t. t\<lparr>it_value := it_interval t\<rparr>) k2)
        })"

text \<open>Charging the tick to the mode the processor is in, and to the running process.\<close>

definition charge_mode :: "u_int \<Rightarrow> 'a kern_scheme \<Rightarrow> 'a kern_scheme option" where
  "charge_mode ps k =
     (if USERMODE ps then
        run_timer 0 SIGVTALRM
          (upd_u (\<lambda>v. v\<lparr>u_ru := (u_ru v)\<lparr>ru_utime := wrap32 (ru_utime (u_ru v) + 1)\<rparr>\<rparr>) k)
      else if \<not> noproc k then
        Some (upd_u (\<lambda>v. v\<lparr>u_ru := (u_ru v)\<lparr>ru_stime := wrap32 (ru_stime (u_ru v) + 1)\<rparr>\<rparr>) k)
      else Some k)"

definition cpu_limit :: "'a kern_scheme \<Rightarrow> 'a kern_scheme option" where
  "cpu_limit k =
     (let v = u k; used = wrap32 (ru_utime (u_ru v) + ru_stime (u_ru v) + 1) in
      if used > rlim_cur (u_rlimit v ! 0) then do {
        k1 \<leftarrow> psignal (u_procp v) SIGXCPU k;
        let l = u_rlimit (u k1) ! 0;
        Some (if rlim_cur l < rlim_max l
              then upd_u (\<lambda>v. v\<lparr>u_rlimit := (u_rlimit v)[0 := l\<lparr>rlim_cur := wrap32 (rlim_cur l + 5 * LINEHZ)\<rparr>]\<rparr>) k1
              else k1)
      }
      else Some k)"

definition charge_proc :: "'a kern_scheme \<Rightarrow> 'a kern_scheme option" where
  "charge_proc k =
     (if noproc k then Some k
      else do {
        let p = u_procp (u k);
        let k1 = upd_proc p (\<lambda>q. q\<lparr>p_cpu := (if p_cpu q + 1 = 0 then p_cpu q else p_cpu q + 1)\<rparr>) k;
        k2 \<leftarrow> cpu_limit k1;
        run_timer 1 SIGPROF k2
      })"

text \<open>softclock: each due callout goes back to the free list and its routine is run with its
  argument and its time, until the first entry is not due. \<open>addupc\<close> gets \<open>pc\<close>.\<close>

type_synonym 'a callf = "u_int \<Rightarrow> u_int \<Rightarrow> int \<Rightarrow> 'a clk_scheme \<Rightarrow> 'a clk_scheme option"

partial_function (option) softclock_loop :: "'a callf \<Rightarrow> 'a clk_scheme \<Rightarrow> 'a clk_scheme option" where
  "softclock_loop call k = (case calltodo k of None \<Rightarrow> Some k
     | Some p1 \<Rightarrow>
        (let c = callouts k p1 in
         if c_time c > 0 then Some k
         else
           let k1 = k\<lparr>calltodo := c_next c\<rparr>;
               k2 = (upd_callout p1 (\<lambda>d. d\<lparr>c_next := callfree k1\<rparr>) k1)\<lparr>callfree := Some p1\<rparr>
           in Option.bind (call (c_func c) (c_arg c) (c_time c) k2) (softclock_loop call)))"

definition softclock ::
  "'a callf \<Rightarrow> (u_int \<Rightarrow> 'a clk_scheme \<Rightarrow> 'a clk_scheme) \<Rightarrow> u_int \<Rightarrow> u_int \<Rightarrow> 'a clk_scheme \<Rightarrow> 'a clk_scheme option" where
  "softclock call addupc pc ps k = do {
     k1 \<leftarrow> softclock_loop call k;
     Some (if USERMODE ps \<and> pr_scale (u_prof (u k1)) \<noteq> 0 then addupc pc k1 else k1)
   }"

definition hardclock ::
  "'a callf \<Rightarrow> (u_int \<Rightarrow> 'a clk_scheme \<Rightarrow> 'a clk_scheme) \<Rightarrow> u_int \<Rightarrow> u_int \<Rightarrow> 'a clk_scheme \<Rightarrow> 'a clk_scheme option" where
  "hardclock call addupc pc ps k = do {
     (needsoft, k1) \<leftarrow> tick_from (calltodo k) False k;
     let needsoft = needsoft \<or> (USERMODE ps \<and> pr_scale (u_prof (u k1)) \<noteq> 0);
     k2 \<leftarrow> charge_mode ps k1;
     k3 \<leftarrow> charge_proc k2;
     let k4 = k3\<lparr>lbolt := lbolt k3 + 1\<rparr>;
     let k5 = (if lbolt k4 \<ge> LINEHZ
               then k4\<lparr>lbolt := lbolt k4 - LINEHZ, time_sec := wrap32 (time_sec k4 + 1)\<rparr> else k4);
     if needsoft \<and> BASEPRI ps then softclock call addupc pc ps k5 else Some k5
   }"

section \<open>profil, hzto\<close>

definition profil :: "u_int \<Rightarrow> u_int \<Rightarrow> u_int \<Rightarrow> u_int \<Rightarrow> 'a kern_scheme \<Rightarrow> 'a kern_scheme" where
  "profil bufbase bufsize pcoffset pcscale =
     upd_u (\<lambda>v. v\<lparr>u_prof := \<lparr>pr_base = bufbase, pr_size = bufsize, pr_off = pcoffset, pr_scale = pcscale\<rparr>\<rparr>)"

text \<open>The argument is the absolute time; \<open>0x7fff / 1000 - 1000\<close> is \<open>- 968\<close>. The result is cut
  to an int.\<close>

definition hzto :: "int \<Rightarrow> int \<Rightarrow> 'a clk_scheme \<Rightarrow> int" where
  "hzto tv_sec tv_usec k =
     (let sec = wrap32 (tv_sec - time_sec k) in
      wrap16 (if sec \<le> 32767 div 1000 - 1000 then
          cdiv (wrap32 (wrap32 (sec * 1000) + cdiv (wrap32 (tv_usec - time_usec k)) 1000)) (1000 div LINEHZ)
        else if sec \<le> 32767 div LINEHZ then wrap32 (sec * LINEHZ)
        else 0x7fff))"

end
