(* ===== verification/Timer_Queue.thy ===== *)
theory Timer_Queue imports Prelude begin

text \<open>
  The contract of a timer queue. \<open>rep m n s L\<close>: in the state \<open>s\<close> the events \<open>L\<close> are pending,
  each with the number of ticks left until it is due (0: due), in the order in which they will run;
  there is room for \<open>n\<close> more, and no event is overdue by more than \<open>m\<close> ticks. The client's
  lemmas say when an event becomes due.
\<close>

section \<open>Pending events\<close>

definition insert_due :: "int \<Rightarrow> 'e \<Rightarrow> (int \<times> 'e) list \<Rightarrow> (int \<times> 'e) list" where
  "insert_due t e L = takeWhile (\<lambda>x. fst x < t) L @ (t, e) # dropWhile (\<lambda>x. fst x < t) L"

definition one_tick :: "(int \<times> 'e) list \<Rightarrow> (int \<times> 'e) list" where
  "one_tick L = map (\<lambda>(d, e). (max 0 (d - 1), e)) L"

fun cancel_first :: "'e \<Rightarrow> (int \<times> 'e) list \<Rightarrow> (int \<times> 'e) list" where
  "cancel_first e [] = []"
| "cancel_first e ((d, f) # L) = (if f = e then L else (d, f) # cancel_first e L)"

definition due :: "(int \<times> 'e) list \<Rightarrow> 'e list" where
  "due L = map snd (takeWhile (\<lambda>x. fst x \<le> 0) L)"

lemma set_insert_due: "set (insert_due t e L) = insert (t, e) (set L)"
proof -
  have "set L = set (takeWhile (\<lambda>x. fst x < t) L @ dropWhile (\<lambda>x. fst x < t) L)" by simp
  then show ?thesis unfolding insert_due_def by (simp only: set_append list.set) blast
qed

lemma one_tick_iterate:
  "\<forall>x \<in> set L. 0 \<le> fst x \<Longrightarrow> (one_tick ^^ j) L = map (\<lambda>(d, e). (max 0 (d - int j), e)) L"
proof (induction j)
  case 0
  then show ?case by (auto intro!: map_idI [symmetric])
next
  case (Suc j)
  then show ?case by (auto simp: one_tick_def)
qed

section \<open>The contract\<close>

locale timer_queue =
  fixes rep :: "nat \<Rightarrow> nat \<Rightarrow> 's \<Rightarrow> (int \<times> 'e) list \<Rightarrow> bool"
    and arm :: "'e \<Rightarrow> int \<Rightarrow> 's \<Rightarrow> 's option"
    and tick :: "'s \<Rightarrow> 's option"
    and limit :: int
  assumes rep_nonneg: "rep m n s L \<Longrightarrow> x \<in> set L \<Longrightarrow> 0 \<le> fst x"
    and arm_rep: "rep m (Suc n) s L \<Longrightarrow> t \<le> limit \<Longrightarrow>
      \<exists>s'. arm e t s = Some s' \<and> rep m n s' (insert_due (max 1 t) e L)"
    and tick_rep: "rep m n s L \<Longrightarrow> int m < limit \<Longrightarrow> \<exists>s'. tick s = Some s' \<and> rep (Suc m) n s' (one_tick L)"
begin

text \<open>\<open>ticks j s\<close>: the state after \<open>j\<close> ticks.\<close>

fun ticks :: "nat \<Rightarrow> 's \<Rightarrow> 's option" where
  "ticks 0 s = Some s"
| "ticks (Suc j) s = Option.bind (tick s) (ticks j)"

lemma ticks_rep:
  "rep m n s L \<Longrightarrow> int (m + j) \<le> limit \<Longrightarrow> \<exists>s'. ticks j s = Some s' \<and> rep (m + j) n s' ((one_tick ^^ j) L)"
proof (induction j arbitrary: m s L)
  case 0
  then show ?case by simp
next
  case (Suc j)
  then have m: "int m < limit" by simp
  obtain s1 where s1: "tick s = Some s1" "rep (Suc m) n s1 (one_tick L)"
    using tick_rep [OF Suc.prems(1) m] by blast
  have "int (Suc m + j) \<le> limit" using Suc.prems(2) by simp
  from Suc.IH [OF s1(2) this] s1(1) show ?case by (auto simp: funpow_swap1)
qed

text \<open>An event armed for \<open>t\<close> ticks has \<open>t - j\<close> left after \<open>j\<close>; no other event is delayed.\<close>

lemma armed_then_due:
  assumes "rep m (Suc n) s L" "0 < t" "t \<le> limit" "int (m + j) \<le> limit"
  shows "\<exists>s1 s2 L2. arm e t s = Some s1 \<and> ticks j s1 = Some s2 \<and> rep (m + j) n s2 L2 \<and>
    (max 0 (t - int j), e) \<in> set L2 \<and> (\<forall>(d, f) \<in> set L. (max 0 (d - int j), f) \<in> set L2)"
proof -
  obtain s1 where s1: "arm e t s = Some s1" "rep m n s1 (insert_due t e L)"
    using arm_rep [OF assms(1,3), of e] assms(2) by (auto simp: max_def)
  obtain s2 where s2: "ticks j s1 = Some s2" "rep (m + j) n s2 ((one_tick ^^ j) (insert_due t e L))"
    using ticks_rep [OF s1(2) assms(4)] by blast
  have nn: "\<forall>x \<in> set (insert_due t e L). 0 \<le> fst x" using rep_nonneg [OF s1(2)] by blast
  have "(max 0 (t - int j), e) \<in> set ((one_tick ^^ j) (insert_due t e L))"
    unfolding one_tick_iterate [OF nn] by (auto simp: set_insert_due)
  moreover have "\<forall>(d, f) \<in> set L. (max 0 (d - int j), f) \<in> set ((one_tick ^^ j) (insert_due t e L))"
    unfolding one_tick_iterate [OF nn] by (force simp: set_insert_due)
  ultimately show ?thesis using s1(1) s2 by blast
qed

end

end
