(* ===== verification/CalloutSpec.thy ===== *)
theory CalloutSpec imports Callout Timer_Queue begin

text \<open>
  The timeout queue as a list of events with the ticks left until each is due: the invariant of the
  callout table, and timeout, untimeout and the clock tick on it. The differences are handled on
  plain lists first.
\<close>

section \<open>Differences\<close>

type_synonym event = "u_int \<times> u_int"

fun undelta :: "int \<Rightarrow> (int \<times> 'e) list \<Rightarrow> (int \<times> 'e) list" where
  "undelta acc [] = []"
| "undelta acc ((c, e) # cs) = (acc + max 0 c, e) # undelta (acc + max 0 c) cs"

text \<open>Behind an event that is not due, no difference is negative.\<close>

fun ordered :: "(int \<times> 'e) list \<Rightarrow> bool" where
  "ordered [] \<longleftrightarrow> True"
| "ordered ((c, e) # cs) \<longleftrightarrow> (0 < c \<longrightarrow> (\<forall>x \<in> set cs. 0 \<le> fst x)) \<and> ordered cs"

fun d_insert :: "int \<Rightarrow> 'e \<Rightarrow> (int \<times> 'e) list \<Rightarrow> (int \<times> 'e) list" where
  "d_insert t e [] = [(t, e)]"
| "d_insert t e ((c, f) # cs) =
     (if c < t then (c, f) # d_insert (if c > 0 then t - c else t) e cs else (t, e) # (c - t, f) # cs)"

fun d_tick :: "(int \<times> 'e) list \<Rightarrow> (int \<times> 'e) list" where
  "d_tick [] = []"
| "d_tick ((c, f) # cs) = (c - 1, f) # (if c - 1 < 0 then d_tick cs else cs)"

fun d_cancel :: "'e \<Rightarrow> (int \<times> 'e) list \<Rightarrow> (int \<times> 'e) list" where
  "d_cancel e [] = []"
| "d_cancel e ((c, f) # cs) =
     (if f = e then (case cs of [] \<Rightarrow> [] | (d, g) # ds \<Rightarrow> (if c > 0 then d + c else d, g) # ds)
      else (c, f) # d_cancel e cs)"

lemma undelta_ge: "x \<in> set (undelta acc cs) \<Longrightarrow> acc \<le> fst x"
  by (induction acc cs rule: undelta.induct) force+

lemma undelta_shift: "undelta (acc + b) cs = map (\<lambda>(d, e). (d + b, e)) (undelta acc cs)"
  by (induction acc cs rule: undelta.induct) (simp_all add: add.assoc add.commute add.left_commute)

lemma undelta_insert: "0 < t \<Longrightarrow> undelta acc (d_insert t e cs) = insert_due (acc + t) e (undelta acc cs)"
proof (induction t e cs arbitrary: acc rule: d_insert.induct)
  case (1 t e)
  then show ?case by (simp add: insert_due_def)
next
  case (2 t e c f cs)
  show ?case
  proof (cases "c < t")
    case True
    then have lt: "acc + max 0 c < acc + t" using 2(2) by simp
    have "0 < (if c > 0 then t - c else t)" "acc + max 0 c + (if c > 0 then t - c else t) = acc + t"
      using True 2(2) by auto
    then have "undelta (acc + max 0 c) (d_insert (if c > 0 then t - c else t) e cs) =
        insert_due (acc + t) e (undelta (acc + max 0 c) cs)"
      using 2(1) [OF True, of "acc + max 0 c"] by metis
    then show ?thesis using True lt by (simp add: insert_due_def)
  next
    case False
    then show ?thesis using 2(2) by (simp add: insert_due_def)
  qed
qed

lemma undelta_tick: "undelta 0 (d_tick cs) = one_tick (undelta 0 cs)"
proof (induction cs rule: d_tick.induct)
  case 1
  then show ?case by (simp add: one_tick_def)
next
  case (2 c f cs)
  show ?case
  proof (cases "c - 1 < 0")
    case True
    then show ?thesis using 2 by (simp add: one_tick_def)
  next
    case False
    have "undelta c cs = undelta (c - 1 + 1) cs" by simp
    also have "\<dots> = map (\<lambda>(d, e). (d + 1, e)) (undelta (c - 1) cs)" by (rule undelta_shift)
    finally have u: "undelta c cs = map (\<lambda>(d, e). (d + 1, e)) (undelta (c - 1) cs)" .
    have "x \<in> set (undelta (c - 1) cs) \<Longrightarrow> 0 \<le> fst x" for x
      using undelta_ge [of x "c - 1" cs] False by linarith
    then have "map (\<lambda>(d, e). (max 0 (d + 1 - 1), e)) (undelta (c - 1) cs) = undelta (c - 1) cs"
      by (intro map_idI) force
    then show ?thesis using False u by (simp add: one_tick_def o_def split_def)
  qed
qed

lemma undelta_cancel: "ordered cs \<Longrightarrow> undelta acc (d_cancel e cs) = cancel_first e (undelta acc cs)"
proof (induction e cs arbitrary: acc rule: d_cancel.induct)
  case (2 e c f cs)
  show ?case
  proof (cases "f = e")
    case True
    then show ?thesis using 2(2) by (cases cs) (auto simp: max_def add.assoc add.commute add.left_commute)
  qed (use 2 in simp)
qed simp

lemma ordered_cons: "\<forall>x \<in> set cs. 0 \<le> fst x \<Longrightarrow> ordered cs"
  by (induction cs) auto

lemma d_insert_nonneg: "\<forall>x \<in> set cs. 0 \<le> fst x \<Longrightarrow> 0 < t \<Longrightarrow> \<forall>x \<in> set (d_insert t e cs). 0 \<le> fst x"
  by (induction t e cs rule: d_insert.induct) auto

lemma ordered_insert: "ordered cs \<Longrightarrow> 0 < t \<Longrightarrow> ordered (d_insert t e cs)"
proof (induction t e cs rule: d_insert.induct)
  case (2 t e c f cs)
  show ?case
  proof (cases "c < t")
    case True
    have "0 < c \<longrightarrow> (\<forall>x \<in> set (d_insert (if c > 0 then t - c else t) e cs). 0 \<le> fst x)"
      using 2(2) True d_insert_nonneg [of cs "t - c" e] by auto
    moreover have "ordered (d_insert (if c > 0 then t - c else t) e cs)" using 2 True by simp
    ultimately show ?thesis using True by simp
  next
    case False
    then show ?thesis using 2 by auto
  qed
qed simp

lemma ordered_tick: "ordered cs \<Longrightarrow> ordered (d_tick cs)"
  by (induction cs rule: d_tick.induct) fastforce+

lemma d_cancel_nonneg: "\<forall>x \<in> set cs. 0 \<le> fst x \<Longrightarrow> \<forall>x \<in> set (d_cancel e cs). 0 \<le> fst x"
proof (induction e cs rule: d_cancel.induct)
  case (2 e c f cs)
  then show ?case by (cases cs) auto
qed simp

lemma ordered_cancel: "ordered cs \<Longrightarrow> ordered (d_cancel e cs)"
proof (induction e cs rule: d_cancel.induct)
  case (2 e c f cs)
  show ?case
  proof (cases "f = e")
    case True
    then show ?thesis using 2(2) by (cases cs) auto
  next
    case False
    then show ?thesis using 2 d_cancel_nonneg [of cs e] by auto
  qed
qed simp

lemma d_insert_low: "x \<in> set (d_insert t e cs) \<Longrightarrow> 0 < t \<Longrightarrow> \<forall>y \<in> set cs. - m \<le> fst y \<Longrightarrow> 0 \<le> m \<Longrightarrow> - m \<le> fst x"
  by (induction t e cs rule: d_insert.induct) (auto split: if_splits)

lemma d_tick_low: "x \<in> set (d_tick cs) \<Longrightarrow> \<forall>y \<in> set cs. - m \<le> fst y \<Longrightarrow> 0 \<le> m \<Longrightarrow> - (m + 1) \<le> fst x"
  by (induction cs rule: d_tick.induct) (force split: if_splits)+

lemma d_cancel_low: "x \<in> set (d_cancel e cs) \<Longrightarrow> \<forall>y \<in> set cs. - m \<le> fst y \<Longrightarrow> - m \<le> fst x"
  by (induction e cs rule: d_cancel.induct) (auto split: if_splits list.splits)

lemma cancel_first_subset: "set (cancel_first e L) \<subseteq> set L"
  by (induction e L rule: cancel_first.induct) auto

section \<open>The callout table\<close>

abbreviation cnext :: "'a clk_scheme \<Rightarrow> nat \<Rightarrow> nat option" where
  "cnext k \<equiv> \<lambda>i. c_next (callouts k i)"

definition event_of :: "callout \<Rightarrow> event" where
  "event_of c = (c_func c, c_arg c)"

definition deltas :: "'a clk_scheme \<Rightarrow> nat list \<Rightarrow> (int \<times> event) list" where
  "deltas k xs = map (\<lambda>i. (c_time (callouts k i), event_of (callouts k i))) xs"

definition clk_lists :: "'a clk_scheme \<Rightarrow> nat list \<Rightarrow> nat list \<Rightarrow> bool" where
  "clk_lists k xs fs \<longleftrightarrow> lpath (cnext k) (calltodo k) xs \<and> lpath (cnext k) (callfree k) fs \<and>
     set xs \<inter> set fs = {}"

text \<open>The differences fit an int: nothing is overdue by more than \<open>m\<close> ticks, nothing due later
  than 32767 ticks from now.\<close>

definition times_ok :: "nat \<Rightarrow> (int \<times> event) list \<Rightarrow> bool" where
  "times_ok m cs \<longleftrightarrow> ordered cs \<and> m \<le> 32767 \<and> (\<forall>x \<in> set cs. - int m \<le> fst x) \<and>
     (\<forall>x \<in> set (undelta 0 cs). fst x \<le> 32767)"

definition pending :: "nat \<Rightarrow> nat \<Rightarrow> 'a clk_scheme \<Rightarrow> (int \<times> event) list \<Rightarrow> bool" where
  "pending m n k L \<longleftrightarrow> (\<exists>xs fs. clk_lists k xs fs \<and> n = length fs \<and> times_ok m (deltas k xs) \<and>
     L = undelta 0 (deltas k xs))"

lemma pending_nonneg: "pending m n k L \<Longrightarrow> x \<in> set L \<Longrightarrow> 0 \<le> fst x"
  unfolding pending_def using undelta_ge by blast

lemma due_ge: "0 \<le> acc \<Longrightarrow> x \<in> set cs \<Longrightarrow> \<exists>y \<in> set (undelta acc cs). fst x \<le> fst y"
  by (induction acc cs rule: undelta.induct) (force simp: max_def)+

lemma times_ok_le: "times_ok m cs \<Longrightarrow> x \<in> set cs \<Longrightarrow> fst x \<le> 32767"
  unfolding times_ok_def using due_ge [of 0 x cs] by force

lemma times_ok_insert:
  assumes "times_ok m cs" "0 < t" "t \<le> 32767"
  shows "times_ok m (d_insert t e cs)"
  using assms unfolding times_ok_def
  by (auto simp: ordered_insert undelta_insert set_insert_due dest!: d_insert_low [where m = "int m"])

lemma times_ok_tick:
  assumes "times_ok m cs" "m < 32767"
  shows "times_ok (Suc m) (d_tick cs)"
proof -
  have "- int (Suc m) \<le> fst x" if "x \<in> set (d_tick cs)" for x
    using d_tick_low [OF that, of "int m"] assms by (simp add: times_ok_def)
  then show ?thesis using assms unfolding times_ok_def
    by (force simp: ordered_tick undelta_tick one_tick_def)
qed

lemma times_ok_cancel: "times_ok m cs \<Longrightarrow> times_ok m (d_cancel e cs)"
  unfolding times_ok_def
  using d_cancel_low [of _ e cs "int m"] cancel_first_subset [of e "undelta 0 cs"]
  by (auto simp: ordered_cancel undelta_cancel)

lemma upd_callout_simps [simp]:
  "callouts (upd_callout i f k) = (callouts k)(i := f (callouts k i))"
  "callfree (upd_callout i f k) = callfree k" "calltodo (upd_callout i f k) = calltodo k"
  "clk.more (upd_callout i f k) = clk.more k"
  by (simp_all add: upd_callout_def)

lemma deltas_cong:
  "(\<And>i. i \<in> set xs \<Longrightarrow> c_time (callouts k' i) = c_time (callouts k i) \<and>
      event_of (callouts k' i) = event_of (callouts k i)) \<Longrightarrow> deltas k' xs = deltas k xs"
  by (simp add: deltas_def)

text \<open>Where the pointer \<open>p1\<close> stands: behind the entries \<open>pre\<close>.\<close>

definition ptr_behind :: "nat list \<Rightarrow> nat option" where
  "ptr_behind pre = (if pre = [] then None else Some (last pre))"

lemma ptr_behind_snoc [simp]: "ptr_behind (pre @ [i]) = Some i" "ptr_behind [] = None"
  by (simp_all add: ptr_behind_def)

lemma next_of_behind:
  "lpath (cnext k) (calltodo k) (pre @ rest) \<Longrightarrow> lpath (cnext k) (next_of (ptr_behind pre) k) rest"
proof (cases pre rule: rev_cases)
  case (snoc xs y)
  assume l: "lpath (cnext k) (calltodo k) (pre @ rest)"
  then have "lpath (cnext k) (Some y) (y # rest)" using snoc lpath_append [of "cnext k" _ xs y rest] by simp
  then show ?thesis using snoc by simp
qed simp

text \<open>Re-linking behind \<open>pre\<close>.\<close>

lemma relink:
  assumes "lpath (cnext k) (calltodo k) (pre @ rest)" "distinct (pre @ new)"
    and "lpath (cnext k') v new" "next_of (ptr_behind pre) k' = v"
    and "\<And>i. i \<in> set pre \<Longrightarrow> Some i \<noteq> ptr_behind pre \<Longrightarrow> cnext k' i = cnext k i"
    and "pre \<noteq> [] \<Longrightarrow> calltodo k' = calltodo k"
  shows "lpath (cnext k') (calltodo k') (pre @ new)"
proof (cases pre rule: rev_cases)
  case Nil
  then show ?thesis using assms by simp
next
  case (snoc xs y)
  have split: "lpath f p (as @ y # bs) \<longleftrightarrow> lpath (f(y := None)) p (as @ [y]) \<and> lpath f (f y) bs"
    if "y \<notin> set as" for f p as and bs :: "nat list"
    using that by (induction as arbitrary: p) auto
  have y: "y \<notin> set xs" "y \<notin> set new" using assms(2) snoc by auto
  have "lpath ((cnext k)(y := None)) (calltodo k) (xs @ [y])"
    using assms(1) split [OF y(1), of "cnext k" _ rest] snoc by simp
  moreover have "lpath ((cnext k)(y := None)) (calltodo k) (xs @ [y]) =
      lpath ((cnext k')(y := None)) (calltodo k) (xs @ [y])"
    by (rule lpath_cong) (use assms(5) snoc y in auto)
  moreover have "calltodo k' = calltodo k" using assms(6) snoc by simp
  moreover have "lpath (cnext k') (cnext k' y) new" using assms(3,4) snoc by simp
  ultimately show ?thesis using split [OF y(1), of "cnext k'" _ new] snoc by simp
qed

section \<open>timeout\<close>

text \<open>The search stops behind a part \<open>pre\<close> of the list, with the time that is left over: there the
  new difference belongs.\<close>

lemma timeout_from_finds:
  assumes "lpath (cnext k) (calltodo k) (pre @ rest)" "0 < t"
  shows "\<exists>mid post t'. rest = mid @ post \<and> timeout_from (ptr_behind pre) t k = Some (ptr_behind (pre @ mid), t') \<and>
    0 < t' \<and> t' \<le> t \<and>
    d_insert t e (deltas k rest) = deltas k mid @ (t', e) #
      (case deltas k post of [] \<Rightarrow> [] | (c, f) # cs \<Rightarrow> (c - t', f) # cs) \<and>
    (case post of [] \<Rightarrow> True | i # _ \<Rightarrow> t' \<le> c_time (callouts k i))"
  using assms
proof (induction rest arbitrary: pre t)
  case Nil
  then have "next_of (ptr_behind pre) k = None" using next_of_behind [of k pre "[]"] by simp
  then show ?case using Nil by (subst timeout_from.simps) (auto simp: deltas_def)
next
  case (Cons i rest)
  let ?c = "c_time (callouts k i)"
  have n: "next_of (ptr_behind pre) k = Some i" using next_of_behind [of k pre "i # rest"] Cons.prems(1) by simp
  show ?case
  proof (cases "?c < t")
    case True
    let ?t = "if ?c > 0 then t - ?c else t"
    have l: "lpath (cnext k) (calltodo k) ((pre @ [i]) @ rest)" "0 < ?t" using Cons.prems True by auto
    obtain mid post t' where ih: "rest = mid @ post"
      "timeout_from (ptr_behind (pre @ [i])) ?t k = Some (ptr_behind ((pre @ [i]) @ mid), t')"
      "0 < t'" "t' \<le> ?t" "d_insert ?t e (deltas k rest) = deltas k mid @ (t', e) #
        (case deltas k post of [] \<Rightarrow> [] | (c, f) # cs \<Rightarrow> (c - t', f) # cs)"
      "case post of [] \<Rightarrow> True | i # _ \<Rightarrow> t' \<le> c_time (callouts k i)"
      using Cons.IH [OF l] by blast
    have "timeout_from (ptr_behind pre) t k = Some (ptr_behind (pre @ i # mid), t')"
      using ih(2) n True by (subst timeout_from.simps) simp
    moreover have "d_insert t e (deltas k (i # rest)) = deltas k (i # mid) @ (t', e) #
        (case deltas k post of [] \<Rightarrow> [] | (c, f) # cs \<Rightarrow> (c - t', f) # cs)"
      using ih(5) True by (simp add: deltas_def)
    moreover have "t' \<le> t" using ih(4) by (auto split: if_splits)
    ultimately show ?thesis using ih(1,3,6)
      by (intro exI [of _ "i # mid"] exI [of _ post] exI [of _ t']) simp
  next
    case False
    then have "timeout_from (ptr_behind pre) t k = Some (ptr_behind pre, t)"
      using n by (subst timeout_from.simps) simp
    then show ?thesis using Cons.prems(2) False
      by (intro exI [of _ "[]"] exI [of _ "i # rest"] exI [of _ t]) (simp add: deltas_def)
  qed
qed

text \<open>The state timeout leaves when the search has ended behind \<open>mid\<close>.\<close>

lemma timeout_lists:
  assumes l: "clk_lists k (mid @ post) (i # fs)"
    and k1: "k1 = k\<lparr>callfree := c_next (callouts k i)\<rparr>"
    and k2: "k2 = upd_callout i (\<lambda>c. c\<lparr>c_arg := arg, c_func := fun\<rparr>) k1"
    and k3: "k3 = set_next (ptr_behind mid) (Some i) k2"
    and k4: "k4 = upd_callout i (\<lambda>c. c\<lparr>c_next := next_of (ptr_behind mid) k2, c_time := t\<rparr>) k3"
    and k5: "k5 = (case next_of (ptr_behind mid) k2 of None \<Rightarrow> k4
                | Some j \<Rightarrow> upd_callout j (\<lambda>c. c\<lparr>c_time := wrap16 (c_time c - t)\<rparr>) k4)"
    and t: "post \<noteq> [] \<Longrightarrow> 0 < t \<and> t \<le> c_time (callouts k (hd post)) \<and> c_time (callouts k (hd post)) \<le> 32767"
  shows "clk_lists k5 (mid @ i # post) fs" "clk.more k5 = clk.more k"
    "deltas k5 (mid @ i # post) = deltas k mid @ (t, (fun, arg)) #
      (case deltas k post of [] \<Rightarrow> [] | (c, f) # cs \<Rightarrow> (c - t, f) # cs)"
proof -
  have lx: "lpath (cnext k) (calltodo k) (mid @ post)" and lf: "lpath (cnext k) (Some i) (i # fs)"
    and free: "callfree k = Some i" and dis: "set (mid @ post) \<inter> set (i # fs) = {}"
    using l by (auto simp: clk_lists_def)
  have d: "distinct (mid @ post)" "distinct (i # fs)" using lpath_distinct [OF lx] lpath_distinct [OF lf] by auto
  have nx: "next_of (ptr_behind mid) k2 = next_of (ptr_behind mid) k"
    using dis by (cases mid rule: rev_cases) (auto simp: k1 k2)
  define P where "P = (case post of [] \<Rightarrow> None | j # _ \<Rightarrow> Some j)"
  have post: "next_of (ptr_behind mid) k = P"
    using next_of_behind [OF lx] by (cases post) (auto simp: P_def)
  note k4 = k4 [unfolded nx post] and k5 = k5 [unfolded nx post]
  have lpost: "lpath (cnext k) P post" using next_of_behind [OF lx] by (simp add: post)
  have cn: "cnext k5 x = (if x = i then P else if ptr_behind mid = Some x then Some i else cnext k x)" for x
    using dis by (cases mid rule: rev_cases; cases post) (auto simp: k5 k4 k3 k2 k1 P_def)
  have tm: "c_time (callouts k5 x) = (if x = i then t
      else if post \<noteq> [] \<and> x = hd post then c_time (callouts k x) - t else c_time (callouts k x))" for x
    using dis t by (cases mid rule: rev_cases; cases post) (auto simp: k5 k4 k3 k2 k1 P_def int16_def)
  have ev: "event_of (callouts k5 x) = (if x = i then (fun, arg) else event_of (callouts k x))" for x
    by (cases mid rule: rev_cases; cases post) (auto simp: k5 k4 k3 k2 k1 P_def event_of_def)
  have todo: "calltodo k5 = (if mid = [] then Some i else calltodo k)"
    by (cases mid rule: rev_cases; cases post) (auto simp: k5 k4 k3 k2 k1 P_def)
  have cf: "callfree k5 = c_next (callouts k i)"
    by (cases mid rule: rev_cases; cases post) (auto simp: k5 k4 k3 k2 k1 P_def)
  have inpost: "x \<noteq> i \<and> ptr_behind mid \<noteq> Some x" if "x \<in> set post" for x
    using that dis d(1) by (cases mid rule: rev_cases) auto
  have "lpath (cnext k5) P post = lpath (cnext k) P post"
    by (rule lpath_cong) (use inpost in \<open>simp add: cn\<close>)
  then have "lpath (cnext k5) (Some i) (i # post)" using lpost by (simp add: cn)
  then have x5: "lpath (cnext k5) (calltodo k5) (mid @ i # post)"
    by (intro relink [OF lx]) (use d dis in \<open>auto simp: cn todo ptr_behind_def\<close>)
  have "x \<noteq> i \<and> ptr_behind mid \<noteq> Some x" if "x \<in> set fs" for x
    using that dis d(2) by (cases mid rule: rev_cases) auto
  then have "lpath (cnext k5) (c_next (callouts k i)) fs = lpath (cnext k) (c_next (callouts k i)) fs"
    by (intro lpath_cong) (simp add: cn)
  then have "lpath (cnext k5) (callfree k5) fs" using lf by (simp add: cf)
  then show "clk_lists k5 (mid @ i # post) fs" using x5 d dis by (auto simp: clk_lists_def)
  show "clk.more k5 = clk.more k"
    by (cases mid rule: rev_cases; cases post) (auto simp: k5 k4 k3 k2 k1 P_def)
  have "deltas k5 mid = deltas k mid"
    by (rule deltas_cong) (use d dis tm ev in \<open>cases post; auto\<close>)
  moreover have "deltas k5 post = (case deltas k post of [] \<Rightarrow> [] | (c, f) # cs \<Rightarrow> (c - t, f) # cs)"
    using d dis by (cases post) (auto simp: deltas_def tm ev)
  ultimately show "deltas k5 (mid @ i # post) = deltas k mid @ (t, (fun, arg)) #
      (case deltas k post of [] \<Rightarrow> [] | (c, f) # cs \<Rightarrow> (c - t, f) # cs)"
    by (simp add: deltas_def tm ev)
qed

lemma timeout_pending:
  assumes "pending m (Suc n) k L" "t \<le> 32767"
  obtains k' where "timeout fun arg t k = Some k'" "pending m n k' (insert_due (max 1 t) (fun, arg) L)"
    "clk.more k' = clk.more k"
proof -
  obtain xs i fs where l: "clk_lists k xs (i # fs)" and n: "n = length fs"
    and ok: "times_ok m (deltas k xs)" and L: "L = undelta 0 (deltas k xs)"
    using assms(1) unfolding pending_def by (metis length_Suc_conv)
  define t0 where "t0 = (if t \<le> 0 then 1 else t)"
  define k1 where "k1 = k\<lparr>callfree := c_next (callouts k i)\<rparr>"
  define k2 where "k2 = upd_callout i (\<lambda>c. c\<lparr>c_arg := arg, c_func := fun\<rparr>) k1"
  have free: "callfree k = Some i" and ni: "i \<notin> set xs" using l by (auto simp: clk_lists_def)
  have t0: "0 < t0" "t0 \<le> 32767" "t0 = max 1 t" using assms(2) by (auto simp: t0_def)
  have "lpath (cnext k2) (calltodo k2) xs = lpath (cnext k) (calltodo k) xs"
    unfolding k2_def k1_def by (simp) (rule lpath_cong, auto)
  then have l2: "lpath (cnext k2) (calltodo k2) ([] @ xs)" using l by (simp add: clk_lists_def)
  have same: "deltas k2 ys = deltas k ys" if "set ys \<subseteq> set xs" for ys
    by (rule deltas_cong) (use that ni in \<open>auto simp: k2_def k1_def\<close>)
  obtain mid post t' where s: "xs = mid @ post" "timeout_from None t0 k2 = Some (ptr_behind mid, t')"
    "0 < t'" "t' \<le> t0" "d_insert t0 (fun, arg) (deltas k2 xs) = deltas k2 mid @ (t', (fun, arg)) #
      (case deltas k2 post of [] \<Rightarrow> [] | (c, f) # cs \<Rightarrow> (c - t', f) # cs)"
    "case post of [] \<Rightarrow> True | i # _ \<Rightarrow> t' \<le> c_time (callouts k2 i)"
    using timeout_from_finds [OF l2 t0(1), of "(fun, arg)"] by auto
  define k3 where "k3 = set_next (ptr_behind mid) (Some i) k2"
  define k4 where "k4 = upd_callout i (\<lambda>c. c\<lparr>c_next := next_of (ptr_behind mid) k2, c_time := t'\<rparr>) k3"
  define k5 where "k5 = (case next_of (ptr_behind mid) k2 of None \<Rightarrow> k4
                | Some j \<Rightarrow> upd_callout j (\<lambda>c. c\<lparr>c_time := wrap16 (c_time c - t')\<rparr>) k4)"
  have bound: "0 < t' \<and> t' \<le> c_time (callouts k (hd post)) \<and> c_time (callouts k (hd post)) \<le> 32767"
    if "post \<noteq> []"
  proof -
    have "(c_time (callouts k (hd post)), event_of (callouts k (hd post))) \<in> set (deltas k xs)"
      using that s(1) by (simp add: deltas_def)
    from times_ok_le [OF ok this] show ?thesis using s(1,3,6) that ni
      by (cases post) (auto simp: k2_def k1_def)
  qed
  note res = timeout_lists [OF l [unfolded s(1)] k1_def k2_def k3_def k4_def k5_def bound]
  have d5: "deltas k5 (mid @ i # post) = d_insert t0 (fun, arg) (deltas k xs)"
    using res(3) s(5) same [of xs] same [of mid] same [of post] by (simp add: s(1))
  have "timeout fun arg t k = Some k5"
    unfolding timeout_def Let_def t0_def [symmetric] free option.case k1_def [symmetric] k2_def [symmetric]
      s(2) Option.bind.simps prod.case k3_def [symmetric] k4_def [symmetric] k5_def [symmetric] ..
  moreover have "pending m n k5 (insert_due (max 1 t) (fun, arg) L)"
    unfolding pending_def
  proof (intro exI conjI)
    show "clk_lists k5 (mid @ i # post) fs" by (rule res(1))
    show "n = length fs" by (rule n)
    show "times_ok m (deltas k5 (mid @ i # post))" unfolding d5 by (rule times_ok_insert [OF ok t0(1,2)])
    show "insert_due (max 1 t) (fun, arg) L = undelta 0 (deltas k5 (mid @ i # post))"
      unfolding d5 undelta_insert [OF t0(1)] L by (simp add: t0(3))
  qed
  moreover have "clk.more k5 = clk.more k" by (rule res(2))
  ultimately show thesis by (rule that)
qed

section \<open>untimeout\<close>

lemma unlink_lists:
  assumes l: "clk_lists k (pre @ i # post) fs" and k': "k' = unlink_callout (ptr_behind pre) i k"
    and b: "post \<noteq> [] \<Longrightarrow> 0 < c_time (callouts k i) \<Longrightarrow>
      int16 (c_time (callouts k (hd post)) + c_time (callouts k i))"
  shows "clk_lists k' (pre @ post) (i # fs)" "clk.more k' = clk.more k"
    "deltas k' (pre @ post) = deltas k pre @ (case deltas k post of [] \<Rightarrow> []
       | (d, g) # ds \<Rightarrow> (if c_time (callouts k i) > 0 then d + c_time (callouts k i) else d, g) # ds)"
proof -
  let ?c = "c_time (callouts k i)"
  have lx: "lpath (cnext k) (calltodo k) (pre @ i # post)" and lf: "lpath (cnext k) (callfree k) fs"
    and dis: "set (pre @ i # post) \<inter> set fs = {}" using l by (auto simp: clk_lists_def)
  have d: "distinct (pre @ i # post)" "distinct fs" using lpath_distinct [OF lx] lpath_distinct [OF lf] by auto
  have lpost: "lpath (cnext k) (cnext k i) post"
    using next_of_behind [OF lx] by simp
  have P: "cnext k i = (case post of [] \<Rightarrow> None | j # _ \<Rightarrow> Some j)" using lpost by (cases post) auto
  note u = k' [unfolded unlink_callout_def Let_def P]
  have cn: "cnext k' x = (if x = i then callfree k else if ptr_behind pre = Some x then cnext k i else cnext k x)" for x
    unfolding u P using d dis P by (cases pre rule: rev_cases; cases post) auto
  have tm: "c_time (callouts k' x) =
      (if post \<noteq> [] \<and> x = hd post \<and> ?c > 0 then c_time (callouts k x) + ?c else c_time (callouts k x))" for x
    unfolding u using d b by (cases pre rule: rev_cases; cases post) auto
  have ev: "event_of (callouts k' x) = event_of (callouts k x)" for x
    unfolding u by (cases pre rule: rev_cases; cases post) (auto simp: event_of_def)
  have todo: "calltodo k' = (if pre = [] then cnext k i else calltodo k)"
    unfolding u P using d P by (cases pre rule: rev_cases; cases post) auto
  have cf: "callfree k' = Some i" unfolding u by simp
  have inpost: "x \<noteq> i \<and> ptr_behind pre \<noteq> Some x" if "x \<in> set post" for x
    using that d(1) by (cases pre rule: rev_cases) auto
  have "lpath (cnext k') (cnext k i) post = lpath (cnext k) (cnext k i) post"
    by (rule lpath_cong) (use inpost in \<open>simp add: cn\<close>)
  then have "lpath (cnext k') (cnext k i) post" using lpost by simp
  moreover have "next_of (ptr_behind pre) k' = cnext k i"
    using d(1) by (cases pre rule: rev_cases) (auto simp: cn todo)
  ultimately have x5: "lpath (cnext k') (calltodo k') (pre @ post)"
    by (intro relink [OF lx]) (use d in \<open>auto simp: cn todo ptr_behind_def\<close>)
  have "x \<noteq> i \<and> ptr_behind pre \<noteq> Some x" if "x \<in> set fs" for x
    using that dis by (cases pre rule: rev_cases) auto
  then have "lpath (cnext k') (callfree k) fs = lpath (cnext k) (callfree k) fs"
    by (intro lpath_cong) (simp add: cn)
  then have "lpath (cnext k') (callfree k') (i # fs)" using lf by (simp add: cf cn)
  then show "clk_lists k' (pre @ post) (i # fs)" using x5 d dis by (auto simp: clk_lists_def)
  show "clk.more k' = clk.more k"
    unfolding u by (cases pre rule: rev_cases; cases post) auto
  have "deltas k' pre = deltas k pre"
    by (rule deltas_cong) (use d tm ev in \<open>cases post; auto\<close>)
  moreover have "deltas k' post = (case deltas k post of [] \<Rightarrow> []
       | (d, g) # ds \<Rightarrow> (if ?c > 0 then d + ?c else d, g) # ds)"
    using d by (cases post) (auto simp: deltas_def tm ev)
  ultimately show "deltas k' (pre @ post) = deltas k pre @ (case deltas k post of [] \<Rightarrow> []
       | (d, g) # ds \<Rightarrow> (if ?c > 0 then d + ?c else d, g) # ds)"
    by (simp add: deltas_def)
qed

lemma d_cancel_append:
  "e \<notin> snd ` set as \<Longrightarrow> d_cancel e (as @ bs) = as @ d_cancel e bs"
  by (induction as) auto

lemma untimeout_from_finds:
  assumes "lpath (cnext k) (calltodo k) (pre @ rest)"
  shows "untimeout_from (ptr_behind pre) fun arg k =
    (case dropWhile (\<lambda>i. event_of (callouts k i) \<noteq> (fun, arg)) rest of [] \<Rightarrow> Some k
     | i # _ \<Rightarrow> Some (unlink_callout
         (ptr_behind (pre @ takeWhile (\<lambda>i. event_of (callouts k i) \<noteq> (fun, arg)) rest)) i k))"
  using assms
proof (induction rest arbitrary: pre)
  case Nil
  then have "next_of (ptr_behind pre) k = None" using next_of_behind [of k pre "[]"] by simp
  then show ?case by (subst untimeout_from.simps) simp
next
  case (Cons i rest)
  have n: "next_of (ptr_behind pre) k = Some i" using next_of_behind [of k pre "i # rest"] Cons.prems(1) by simp
  show ?case
  proof (cases "event_of (callouts k i) = (fun, arg)")
    case True
    then show ?thesis using n by (subst untimeout_from.simps) (simp add: event_of_def)
  next
    case False
    then have "untimeout_from (ptr_behind pre) fun arg k = untimeout_from (ptr_behind (pre @ [i])) fun arg k"
      using n by (subst untimeout_from.simps) (auto simp: event_of_def)
    also have "\<dots> = (case dropWhile (\<lambda>i. event_of (callouts k i) \<noteq> (fun, arg)) rest of [] \<Rightarrow> Some k
     | j # _ \<Rightarrow> Some (unlink_callout
         (ptr_behind ((pre @ [i]) @ takeWhile (\<lambda>i. event_of (callouts k i) \<noteq> (fun, arg)) rest)) j k))"
      using Cons.prems by (intro Cons.IH) simp
    finally show ?thesis using False by (simp only: append_assoc append_Cons append_Nil dropWhile.simps takeWhile.simps if_True not_False_eq_True simp_thms)
  qed
qed

lemma cancel_none: "e \<notin> snd ` set cs \<Longrightarrow> d_cancel e cs = cs"
  by (induction e cs rule: d_cancel.induct) (auto split: list.splits)

lemma undelta_snd: "map snd (undelta acc cs) = map snd cs"
  by (induction acc cs rule: undelta.induct) auto

lemma undelta_append: "undelta acc (as @ bs) = undelta acc as @ undelta (acc + (\<Sum>x \<leftarrow> as. max 0 (fst x))) bs"
  by (induction acc as rule: undelta.induct) (auto simp: add.assoc)

lemma sum_max_nonneg: "0 \<le> (\<Sum>x \<leftarrow> as. max 0 (fst (x :: int \<times> 'e)))"
  by (rule sum_list_nonneg) auto

lemma untimeout_pending:
  assumes "pending m n k L"
  obtains k' where "untimeout fun arg k = Some k'" "clk.more k' = clk.more k"
    "pending m (if (fun, arg) \<in> snd ` set L then Suc n else n) k' (cancel_first (fun, arg) L)"
proof -
  let ?e = "(fun, arg)" and ?P = "\<lambda>i. event_of (callouts k i) \<noteq> (fun, arg)"
  obtain xs fs where l: "clk_lists k xs fs" and n: "n = length fs"
    and ok: "times_ok m (deltas k xs)" and L: "L = undelta 0 (deltas k xs)"
    using assms by (auto simp: pending_def)
  have o: "ordered (deltas k xs)" using ok by (simp add: times_ok_def)
  have lx: "lpath (cnext k) (calltodo k) ([] @ xs)" using l by (simp add: clk_lists_def)
  have "snd ` set L = set (map snd L)" by simp
  then have "snd ` set L = (\<lambda>i. event_of (callouts k i)) ` set xs"
    unfolding L undelta_snd by (simp add: deltas_def)
  then have inL: "?e \<in> snd ` set L \<longleftrightarrow> (\<exists>i \<in> set xs. event_of (callouts k i) = ?e)"
    by (metis (no_types, lifting) image_iff)
  show thesis
  proof (cases "dropWhile ?P xs")
    case Nil
    then have no: "?e \<notin> snd ` set (deltas k xs)" by (auto simp: deltas_def dropWhile_eq_Nil_conv)
    have "cancel_first ?e L = L" unfolding L undelta_cancel [OF o, symmetric] cancel_none [OF no] ..
    moreover have "?e \<notin> snd ` set L" using Nil inL by (simp add: dropWhile_eq_Nil_conv)
    ultimately show thesis
      using that [of k] assms untimeout_from_finds [OF lx, of "fun" arg] Nil by (simp add: untimeout_def)
  next
    case (Cons i post)
    define pre where "pre = takeWhile ?P xs"
    have xs: "xs = pre @ i # post" using Cons pre_def by (metis takeWhile_dropWhile_id)
    have e: "event_of (callouts k i) = ?e" using Cons by (metis (mono_tags, lifting) dropWhile_eq_Cons_conv)
    define k' where "k' = unlink_callout (ptr_behind pre) i k"
    have un: "untimeout fun arg k = Some k'"
      using untimeout_from_finds [OF lx, of "fun" arg] Cons by (simp add: untimeout_def pre_def k'_def)
    have no: "?e \<notin> snd ` set (deltas k pre)" unfolding pre_def by (auto simp: deltas_def dest: set_takeWhileD)
    have b: "int16 (c_time (callouts k (hd post)) + c_time (callouts k i))"
      if ne: "post \<noteq> []" and c: "0 < c_time (callouts k i)"
    proof -
      obtain j js where p: "post = j # js" using ne by (cases post) auto
      have "0 \<le> c_time (callouts k j)"
      proof -
        have "ordered (as @ bs) \<Longrightarrow> ordered bs" for as bs :: "(int \<times> event) list"
          by (induction as) auto
        moreover have "deltas k xs = deltas k pre @ deltas k (i # post)" by (simp add: xs deltas_def)
        ultimately have "ordered (deltas k (i # post))" using o by metis
        then show ?thesis using p c by (simp add: deltas_def)
      qed
      moreover have "c_time (callouts k i) + c_time (callouts k j) \<le> 32767"
      proof -
        let ?s = "(\<Sum>x \<leftarrow> deltas k pre. max 0 (fst x)) + c_time (callouts k i) + c_time (callouts k j)"
        have "(?s, event_of (callouts k j)) \<in> set (undelta 0 (deltas k xs))"
          using calculation c by (simp add: xs p deltas_def undelta_append)
        then have "?s \<le> 32767" using ok by (force simp: times_ok_def)
        then show ?thesis using sum_max_nonneg [of "deltas k pre"] by linarith
      qed
      ultimately show ?thesis using c p by (simp add: int16_def)
    qed
    note res = unlink_lists [OF l [unfolded xs] k'_def b]
    have d: "deltas k' (pre @ post) = d_cancel ?e (deltas k xs)"
      using res(3) no e by (simp add: xs deltas_def d_cancel_append)
    have "pending m (Suc n) k' (cancel_first ?e L)"
      unfolding pending_def
    proof (intro exI conjI)
      show "clk_lists k' (pre @ post) (i # fs)" by (rule res(1))
      show "Suc n = length (i # fs)" by (simp add: n)
      show "times_ok m (deltas k' (pre @ post))" unfolding d by (rule times_ok_cancel [OF ok])
      show "cancel_first ?e L = undelta 0 (deltas k' (pre @ post))"
        unfolding d undelta_cancel [OF o] L ..
    qed
    moreover have "?e \<in> snd ` set L" using inL e xs by auto
    moreover have "clk.more k' = clk.more k" by (rule res(2))
    ultimately show thesis using that [OF un] by simp
  qed
qed

section \<open>The clock tick\<close>

lemma tick_from_lists:
  assumes "lpath (cnext k) p1 xs" "\<forall>i \<in> set xs. - 32768 < c_time (callouts k i) \<and> c_time (callouts k i) \<le> 32767"
  shows "\<exists>needsoft' k'. tick_from p1 needsoft k = Some (needsoft', k') \<and> deltas k' xs = d_tick (deltas k xs) \<and>
    cnext k' = cnext k \<and> calltodo k' = calltodo k \<and> callfree k' = callfree k \<and>
    (\<exists>cs. k' = k\<lparr>callouts := cs\<rparr>) \<and>
    (needsoft' \<longleftrightarrow> needsoft \<or> due (undelta 0 (d_tick (deltas k xs))) \<noteq> [])"
  using assms
proof (induction xs arbitrary: p1 k needsoft)
  case Nil
  have "k = k\<lparr>callouts := callouts k\<rparr>" by simp
  then have "\<exists>cs. k = k\<lparr>callouts := cs\<rparr>" by blast
  moreover have "tick_from p1 needsoft k = Some (needsoft, k)" using Nil by (subst tick_from.simps) simp
  ultimately show ?case
    by (intro exI [of _ needsoft] exI [of _ k]) (simp add: deltas_def due_def)
next
  case (Cons i xs)
  let ?c = "c_time (callouts k i)"
  define k1 where "k1 = upd_callout i (\<lambda>c. c\<lparr>c_time := wrap16 (c_time c - 1)\<rparr>) k"
  have i: "i \<notin> set xs" "p1 = Some i" "lpath (cnext k) (cnext k i) xs"
    using lpath_distinct [OF Cons.prems(1)] Cons.prems(1) by auto
  have t1: "c_time (callouts k1 i) = ?c - 1" using Cons.prems(2) by (simp add: k1_def int16_def)
  have cn: "cnext k1 = cnext k" by (auto simp: k1_def)
  have d1: "deltas k1 xs = deltas k xs" by (rule deltas_cong) (use i(1) in \<open>auto simp: k1_def\<close>)
  have e1: "event_of (callouts k1 i) = event_of (callouts k i)" by (simp add: k1_def event_of_def)
  have k1u: "\<exists>cs. k1 = k\<lparr>callouts := cs\<rparr>" "calltodo k1 = calltodo k" "callfree k1 = callfree k"
    by (auto simp: k1_def upd_callout_def)
  show ?case
  proof (cases "?c - 1 < 0")
    case True
    have l: "lpath (cnext k1) (cnext k1 i) xs" using i(3) cn by (metis (no_types))
    have b: "\<forall>j \<in> set xs. - 32768 < c_time (callouts k1 j) \<and> c_time (callouts k1 j) \<le> 32767"
      using Cons.prems(2) i(1) by (auto simp: k1_def)
    obtain s' k' where ih: "tick_from (cnext k1 i) True k1 = Some (s', k')" "deltas k' xs = d_tick (deltas k1 xs)"
      "cnext k' = cnext k1" "calltodo k' = calltodo k1" "callfree k' = callfree k1" "\<exists>cs. k' = k1\<lparr>callouts := cs\<rparr>" "s'"
      using Cons.IH [OF l b, of True] by (elim exE conjE) blast
    have keep: "callouts k' i = callouts k1 i"
    proof -
      have "\<And>q n. lpath (cnext n) q xs \<Longrightarrow> i \<notin> set xs \<Longrightarrow> tick_from q True n = Some (s', k') \<Longrightarrow>
          callouts k' i = callouts n i"
      proof (induction xs)
        case Nil
        then show ?case by (subst (asm) tick_from.simps) simp
      next
        case (Cons j js)
        define n1 where "n1 = upd_callout j (\<lambda>c. c\<lparr>c_time := wrap16 (c_time c - 1)\<rparr>) n"
        have c1: "cnext n1 = cnext n" "callouts n1 i = callouts n i" using Cons.prems(2) by (auto simp: n1_def)
        have q: "q = Some j" "lpath (cnext n1) (cnext n1 j) js"
          using Cons.prems(1) unfolding c1(1) using fun_cong [OF c1(1), of j] by auto
        have "tick_from q True n = (if c_time (callouts n1 j) > 0 then Some (True, n1)
           else if c_time (callouts n1 j) = 0 then Some (True, n1) else tick_from (cnext n1 j) True n1)"
          unfolding q(1) by (subst tick_from.simps) (simp add: n1_def Let_def)
        then show ?case using Cons.prems Cons.IH [OF q(2)] c1(2) by (auto split: if_splits)
      qed
      from this [OF l i(1) ih(1)] show ?thesis .
    qed
    have "tick_from p1 needsoft k = Some (s', k')"
      using ih(1) t1 True unfolding i(2) by (subst tick_from.simps) (simp add: k1_def [symmetric] Let_def)
    moreover have "deltas k' (i # xs) = d_tick (deltas k (i # xs))"
      using ih(2) [unfolded d1] True t1 e1 keep by (simp add: deltas_def)
    moreover have "due (undelta 0 (d_tick (deltas k (i # xs)))) \<noteq> []"
      using True by (simp add: deltas_def due_def)
    moreover have "\<exists>cs. k' = k\<lparr>callouts := cs\<rparr>"
    proof -
      obtain cs cs' where "k' = k1\<lparr>callouts := cs\<rparr>" "k1 = k\<lparr>callouts := cs'\<rparr>" using ih(6) k1u(1) by blast
      then have "k' = k\<lparr>callouts := cs\<rparr>" by simp
      then show ?thesis by blast
    qed
    moreover have "cnext k' = cnext k" using ih(3) cn by (rule trans)
    moreover have "calltodo k' = calltodo k" "callfree k' = callfree k" using ih(4,5) k1u(2,3) by simp_all
    ultimately show ?thesis using ih(7) by blast
  next
    case False
    then have "tick_from p1 needsoft k = Some (needsoft \<or> ?c = 1, k1)"
      using t1 unfolding i(2) by (subst tick_from.simps) (auto simp: k1_def [symmetric] Let_def)
    moreover have "deltas k1 (i # xs) = d_tick (deltas k (i # xs))"
      using False t1 d1 e1 by (simp add: deltas_def)
    moreover have "due (undelta 0 (d_tick (deltas k (i # xs)))) \<noteq> [] \<longleftrightarrow> ?c = 1"
      using False by (auto simp: deltas_def due_def)
    ultimately show ?thesis using cn k1u by blast
  qed
qed

lemma tick_pending:
  assumes "pending m n k L" "m < 32767"
  obtains k' where "tick_from (calltodo k) s k = Some (s \<or> due (one_tick L) \<noteq> [], k')"
    "pending (Suc m) n k' (one_tick L)" "\<exists>cs. k' = k\<lparr>callouts := cs\<rparr>"
proof -
  obtain xs fs where l: "clk_lists k xs fs" and n: "n = length fs"
    and ok: "times_ok m (deltas k xs)" and L: "L = undelta 0 (deltas k xs)"
    using assms(1) by (auto simp: pending_def)
  have lx: "lpath (cnext k) (calltodo k) xs" using l by (simp add: clk_lists_def)
  have b: "\<forall>i \<in> set xs. - 32768 < c_time (callouts k i) \<and> c_time (callouts k i) \<le> 32767"
  proof
    fix i assume "i \<in> set xs"
    then have e: "(c_time (callouts k i), event_of (callouts k i)) \<in> set (deltas k xs)" by (simp add: deltas_def)
    then have "- int m \<le> c_time (callouts k i)" using ok by (force simp: times_ok_def)
    then show "- 32768 < c_time (callouts k i) \<and> c_time (callouts k i) \<le> 32767"
      using times_ok_le [OF ok e] assms(2) by simp
  qed
  obtain s' k' where t: "tick_from (calltodo k) s k = Some (s', k')" "deltas k' xs = d_tick (deltas k xs)"
    "cnext k' = cnext k" "calltodo k' = calltodo k" "callfree k' = callfree k" "\<exists>cs. k' = k\<lparr>callouts := cs\<rparr>"
    "s' \<longleftrightarrow> s \<or> due (undelta 0 (d_tick (deltas k xs))) \<noteq> []"
    using tick_from_lists [OF lx b, of s] by blast
  have "clk_lists k' xs fs" using l t(3-5) unfolding clk_lists_def by simp
  then have "pending (Suc m) n k' (one_tick L)"
    unfolding pending_def L undelta_tick [symmetric] using n t(2) times_ok_tick [OF ok assms(2)]
    by (intro exI [of _ xs] exI [of _ fs]) simp
  then show thesis using that [of k'] t(1,6,7) by (simp add: undelta_tick L)
qed

end
