(* ===== verification/CalloutProps.thy ===== *)
theory CalloutProps imports CalloutSpec SigFrame SchedProps begin

text \<open>
  The properties of the timeout queue and the clock interrupt. The table of callouts provides the
  contract Timer_Queue; the rest of the clock leaves it alone because signals do.
\<close>

section \<open>The contract\<close>

definition arm_callout :: "event \<Rightarrow> int \<Rightarrow> 'a clk_scheme \<Rightarrow> 'a clk_scheme option" where
  "arm_callout e t k = timeout (fst e) (snd e) t k"

definition tick_callouts :: "'a clk_scheme \<Rightarrow> 'a clk_scheme option" where
  "tick_callouts k = map_option snd (tick_from (calltodo k) False k)"

interpretation callouts: timer_queue pending arm_callout tick_callouts 32767
proof unfold_locales
  fix m n k L x assume "pending m n (k :: 'a clk_scheme) L" "x \<in> set L"
  then show "0 \<le> fst x" by (rule pending_nonneg)
next
  fix m n and t :: int and k :: "'a clk_scheme" and L and e :: event
  assume "pending m (Suc n) k L" "t \<le> 32767"
  from timeout_pending [OF this, of "fst e" "snd e"] obtain k' where
    "timeout (fst e) (snd e) t k = Some k'" "pending m n k' (insert_due (max 1 t) (fst e, snd e) L)" by blast
  then show "\<exists>s'. arm_callout e t k = Some s' \<and> pending m n s' (insert_due (max 1 t) e L)"
    by (simp add: arm_callout_def)
next
  fix m n and k :: "'a clk_scheme" and L assume p: "pending m n k L" "int m < 32767"
  then have "m < 32767" by simp
  from tick_pending [OF p(1) this, of False] obtain k' where
    "tick_from (calltodo k) False k = Some (False \<or> due (one_tick L) \<noteq> [], k')" "pending (Suc m) n k' (one_tick L)"
    by blast
  then show "\<exists>s'. tick_callouts k = Some s' \<and> pending (Suc m) n s' (one_tick L)"
    by (simp add: tick_callouts_def)
qed

text \<open>\<open>j\<close> turns of the loop of hardclock.\<close>

fun clock_ticks :: "nat \<Rightarrow> 'a clk_scheme \<Rightarrow> 'a clk_scheme option" where
  "clock_ticks 0 k = Some k"
| "clock_ticks (Suc j) k = Option.bind (tick_from (calltodo k) False k) (\<lambda>(_, k1). clock_ticks j k1)"

lemma clock_ticks_callouts: "clock_ticks j k = callouts.ticks j k"
proof (induction j arbitrary: k)
  case (Suc j)
  have "tick_callouts k = map_option snd (tick_from (calltodo k) False k)" by (rule tick_callouts_def)
  then show ?case using Suc by (cases "tick_from (calltodo k) False k") auto
qed simp

section \<open>softclock\<close>

lemma due_insert_due: "0 < t \<Longrightarrow> due (insert_due t e L) = due L"
proof (induction L)
  case Nil
  then show ?case by (simp add: due_def insert_due_def)
next
  case (Cons x L)
  then show ?case by (cases x) (auto simp: due_def insert_due_def)
qed

text \<open>A pending callout that is due is the first one.\<close>

lemma pop_pending:
  assumes p: "pending m n k L" and d: "due L = e # es"
  obtains i where "calltodo k = Some i" "c_time (callouts k i) \<le> 0" "event_of (callouts k i) = e"
    "pending m (Suc n) ((upd_callout i (\<lambda>d. d\<lparr>c_next := callfree k\<rparr>) (k\<lparr>calltodo := c_next (callouts k i)\<rparr>))
        \<lparr>callfree := Some i\<rparr>) (tl L)"
    "due (tl L) = es"
proof -
  obtain xs fs where l: "clk_lists k xs fs" and n: "n = length fs"
    and ok: "times_ok m (deltas k xs)" and L: "L = undelta 0 (deltas k xs)"
    using p by (auto simp: pending_def)
  obtain i ys where xs: "xs = i # ys" using d L by (cases xs) (auto simp: due_def deltas_def)
  let ?k = "(upd_callout i (\<lambda>d. d\<lparr>c_next := callfree k\<rparr>) (k\<lparr>calltodo := c_next (callouts k i)\<rparr>))\<lparr>callfree := Some i\<rparr>"
  have lx: "lpath (cnext k) (calltodo k) (i # ys)" and lf: "lpath (cnext k) (callfree k) fs"
    and dis: "set (i # ys) \<inter> set fs = {}" using l by (auto simp: clk_lists_def xs)
  have dy: "i \<notin> set ys" using lpath_distinct [OF lx] by simp
  have c: "c_time (callouts k i) \<le> 0" "event_of (callouts k i) = e" "due (tl L) = es"
    using d by (auto simp: L xs due_def deltas_def split: if_splits)
  have "lpath (cnext ?k) (cnext k i) ys = lpath (cnext k) (cnext k i) ys"
    by (rule lpath_cong) (use dy in auto)
  moreover have "lpath (cnext ?k) (callfree k) fs = lpath (cnext k) (callfree k) fs"
    by (rule lpath_cong) (use dis in auto)
  ultimately have l': "clk_lists ?k ys (i # fs)" using lx lf dis dy by (auto simp: clk_lists_def)
  have dk: "deltas ?k ys = deltas k ys" by (rule deltas_cong) (use dy in auto)
  have u: "tl L = undelta 0 (deltas k ys)" using c(1) by (simp add: L xs deltas_def)
  have "times_ok m (deltas k ys)" using ok c(1) by (simp add: xs deltas_def times_ok_def)
  then have "pending m (Suc n) ?k (tl L)"
    unfolding pending_def using l' n u dk by (intro exI [of _ ys] exI [of _ "i # fs"]) simp
  then show thesis using that [of i] lx c by simp
qed

lemma clk_upd_simps [simp]:
  "callouts (upd_proc p f k) = callouts k" "calltodo (upd_proc p f k) = calltodo k"
  "callfree (upd_proc p f k) = callfree k" "lbolt (upd_proc p f k) = lbolt k"
  "time_sec (upd_proc p f k) = time_sec k" "clk.more (upd_proc p f k) = clk.more k"
  "callouts (upd_u g k) = callouts k" "calltodo (upd_u g k) = calltodo k"
  "callfree (upd_u g k) = callfree k" "lbolt (upd_u g k) = lbolt k"
  "time_sec (upd_u g k) = time_sec k" "clk.more (upd_u g k) = clk.more k"
  by (simp_all add: upd_proc_def upd_u_def)

lemma pending_cong:
  "callouts k' = callouts k \<Longrightarrow> calltodo k' = calltodo k \<Longrightarrow> callfree k' = callfree k \<Longrightarrow>
   pending m n k' L = pending m n k L"
  by (simp add: pending_def clk_lists_def deltas_def)

lemma none_due:
  assumes "pending m n k L" "due L = []"
  shows "softclock_loop call k = Some k"
proof -
  obtain xs fs where l: "clk_lists k xs fs" and L: "L = undelta 0 (deltas k xs)"
    using assms(1) by (auto simp: pending_def)
  show ?thesis
  proof (cases xs)
    case Nil
    then have "calltodo k = None" using l by (simp add: clk_lists_def)
    then show ?thesis by (subst softclock_loop.simps) simp
  next
    case (Cons i ys)
    then have "calltodo k = Some i" "c_time (callouts k i) > 0"
      using l assms(2) by (auto simp: clk_lists_def L due_def deltas_def split: if_splits)
    then show ?thesis by (subst softclock_loop.simps) simp
  qed
qed

text \<open>A routine run from the timeout queue may set and cancel timeouts that are not due yet; \<open>log\<close>
  observes, in the rest of the state, which routines ran.\<close>

definition well_behaved :: "'a callf \<Rightarrow> ('a \<Rightarrow> event list) \<Rightarrow> bool" where
  "well_behaved call log \<longleftrightarrow> (\<forall>f a d k m n L. pending m n k L \<longrightarrow>
     (\<exists>k' m' n' L'. call f a d k = Some k' \<and> pending m' n' k' L' \<and> due L' = due L \<and>
        log (clk.more k') = log (clk.more k) @ [(f, a)]))"

lemma softclock_loop_drains:
  assumes "well_behaved call log" "pending m n k L"
  shows "\<exists>k' m' n' L'. softclock_loop call k = Some k' \<and> pending m' n' k' L' \<and> due L' = [] \<and>
    log (clk.more k') = log (clk.more k) @ due L"
  using assms(2)
proof (induction "due L" arbitrary: m n k L)
  case Nil
  then have "due L = []" by simp
  with Nil.prems none_due [OF Nil.prems this, of call] show ?case by auto
next
  case (Cons e es)
  define i k1 where "i = the (calltodo k)"
    and "k1 = (upd_callout i (\<lambda>d. d\<lparr>c_next := callfree k\<rparr>) (k\<lparr>calltodo := c_next (callouts k i)\<rparr>))\<lparr>callfree := Some i\<rparr>"
  have p: "calltodo k = Some i" "c_time (callouts k i) \<le> 0" "event_of (callouts k i) = e"
    "pending m (Suc n) k1 (tl L)" "due (tl L) = es"
    using pop_pending [OF Cons.prems Cons(2) [symmetric]] unfolding k1_def i_def by (metis option.sel)+
  have e: "e = (c_func (callouts k i), c_arg (callouts k i))" using p(3) by (simp add: event_of_def)
  obtain k2 m2 n2 L2 where c: "call (fst e) (snd e) (c_time (callouts k i)) k1 = Some k2" "pending m2 n2 k2 L2"
    "due L2 = due (tl L)" "log (clk.more k2) = log (clk.more k1) @ [(fst e, snd e)]"
    using assms(1) p(4) unfolding well_behaved_def by blast
  have "es = due L2" using c(3) p(5) by simp
  from Cons(1) [OF this c(2)] obtain k' m' n' L' where r: "softclock_loop call k2 = Some k'" "pending m' n' k' L'"
    "due L' = []" "log (clk.more k') = log (clk.more k2) @ due L2" by blast
  have "softclock_loop call k = Option.bind (call (fst e) (snd e) (c_time (callouts k i)) k1) (softclock_loop call)"
    using p(1,2) by (subst softclock_loop.simps) (simp add: Let_def e k1_def)
  then have "softclock_loop call k = Some k'" using c(1) r(1) by simp
  moreover have "clk.more k1 = clk.more k" by (simp add: k1_def)
  ultimately show ?case using r c(4) p(5) Cons(2) \<open>es = due L2\<close>
    by (intro exI [of _ k'] exI [of _ m'] exI [of _ n'] exI [of _ L']) simp
qed

section \<open>A small queue\<close>

text \<open>Four callouts, none of them in use, after the initialisation of the list.\<close>

definition demo_clk0 :: clk where
  "demo_clk0 = kern.extend demo_kern
     (clk.fields
       (\<lambda>i. \<lparr>c_time = 0, c_arg = 0, c_func = 0, c_next = (if i < 3 then Some (Suc i) else None)\<rparr>)
       (Some 0) None 500000000 0 59 400000000 300 1)"

definition demo_clk :: "event list clk_scheme" where
  "demo_clk = clk.extend demo_clk0 []"

lemma demo_clk_fields [simp]:
  "calltodo demo_clk = None" "callfree demo_clk = Some 0" "time_sec demo_clk = 500000000" "lbolt demo_clk = 59"
  "clk.more demo_clk = []" "time_usec demo_clk = 0" "boottime_sec demo_clk = 400000000"
  by (simp_all add: demo_clk_def demo_clk0_def demo_kern_def kern.defs clk.defs)

lemma demo_pending: "pending 0 4 demo_clk []"
proof -
  have "lpath (cnext demo_clk) (Some 0) [0, 1, 2, 3]"
    by (simp add: demo_clk_def demo_clk0_def demo_kern_def kern.defs clk.defs)
  then show ?thesis
    unfolding pending_def by (intro exI [of _ "[]"] exI [of _ "[0, 1, 2, 3]"])
      (simp add: clk_lists_def deltas_def times_ok_def)
qed

section \<open>Properties\<close>

text \<open>C11: The callout table refines a list of events with the ticks left to each: timeout inserts
  its event before the first one that is due no earlier, untimeout removes the first event with the
  routine and argument, a clock tick takes one tick from every event that has any left and reports
  whether something is due. No event is lost and no other event's time changes.\<close>

theorem callout_refines:
  assumes "pending m n k L"
  shows "(\<forall>t fun arg. n \<noteq> 0 \<longrightarrow> t \<le> 32767 \<longrightarrow>
      (\<exists>k'. timeout fun arg t k = Some k' \<and> pending m (n - 1) k' (insert_due (max 1 t) (fun, arg) L))) \<and>
    (\<forall>t fun arg. n = 0 \<longrightarrow> timeout fun arg t k = None) \<and>
    (\<forall>fun arg. \<exists>k'. untimeout fun arg k = Some k' \<and>
      pending m (if (fun, arg) \<in> snd ` set L then Suc n else n) k' (cancel_first (fun, arg) L)) \<and>
    (m < 32767 \<longrightarrow> (\<exists>k'. tick_from (calltodo k) False k = Some (due (one_tick L) \<noteq> [], k') \<and>
      pending (Suc m) n k' (one_tick L)))"
proof (intro conjI allI impI)
  fix t :: int and "fun" arg :: u_int
  assume "n \<noteq> 0" "t \<le> 32767"
  then have "pending m (Suc (n - 1)) k L" using assms by simp
  from timeout_pending [OF this \<open>t \<le> 32767\<close>]
  show "\<exists>k'. timeout fun arg t k = Some k' \<and> pending m (n - 1) k' (insert_due (max 1 t) (fun, arg) L)" by metis
next
  fix t :: int and "fun" arg :: u_int
  assume "n = 0"
  then have "callfree k = None" using assms by (auto simp: pending_def clk_lists_def)
  then show "timeout fun arg t k = None" by (simp add: timeout_def)
next
  fix "fun" arg :: u_int
  show "\<exists>k'. untimeout fun arg k = Some k' \<and>
      pending m (if (fun, arg) \<in> snd ` set L then Suc n else n) k' (cancel_first (fun, arg) L)"
    using untimeout_pending [OF assms] by metis
next
  assume "m < 32767"
  from tick_pending [OF assms this, of False]
  show "\<exists>k'. tick_from (calltodo k) False k = Some (due (one_tick L) \<noteq> [], k') \<and>
      pending (Suc m) n k' (one_tick L)" by simp metis
qed

theorem callout_refines_witness:
  "\<exists>k'. timeout 0x100 7 3 demo_clk = Some k' \<and> pending 0 3 k' [(3, (0x100, 7))]"
  using callout_refines [OF demo_pending, THEN conjunct1, rule_format, of 3 "0x100" 7]
  by (simp add: insert_due_def)

text \<open>An event set with timeout for t ticks is due exactly when t ticks have passed, not before,
  and setting it delays no other event.\<close>

lemma timeout_fires:
  assumes "pending m (Suc n) k L" "0 < t" "t \<le> 32767" "int (m + j) \<le> 32767"
  shows "\<exists>k1 k2 L2. timeout fun arg t k = Some k1 \<and> clock_ticks j k1 = Some k2 \<and> pending (m + j) n k2 L2 \<and>
    (max 0 (t - int j), (fun, arg)) \<in> set L2 \<and> (\<forall>(d, e) \<in> set L. (max 0 (d - int j), e) \<in> set L2)"
  using callouts.armed_then_due [OF assms, of "(fun, arg)"]
  by (simp add: arm_callout_def clock_ticks_callouts)

lemma timeout_fires_witness:
  "\<exists>k1 k2 L2. timeout 0x100 7 60 demo_clk = Some k1 \<and> clock_ticks 60 k1 = Some k2 \<and> pending 60 3 k2 L2 \<and>
     (0, (0x100, 7)) \<in> set L2"
proof -
  have "pending 0 (Suc 3) demo_clk []" using demo_pending by simp
  from timeout_fires [OF this, of 60 60 "0x100" 7] show ?thesis by auto
qed

text \<open>softclock runs every callout that is due, in the order of the queue and with the arguments
  they were set with, and returns with none of them left, provided the routines only set timeouts
  for later.\<close>

lemma softclock_drains:
  assumes "well_behaved call log" "pending m n k L"
  shows "\<exists>k1 m' n' L'. softclock call addupc pc ps k =
      Some (if USERMODE ps \<and> pr_scale (u_prof (u k1)) \<noteq> 0 then addupc pc k1 else k1) \<and>
    pending m' n' k1 L' \<and> due L' = [] \<and> log (clk.more k1) = log (clk.more k) @ due L"
proof -
  obtain k1 m' n' L' where "softclock_loop call k = Some k1" "pending m' n' k1 L'" "due L' = []"
    "log (clk.more k1) = log (clk.more k) @ due L"
    using softclock_loop_drains [OF assms] by blast
  then show ?thesis by (intro exI [of _ k1] exI [of _ m'] exI [of _ n'] exI [of _ L']) (simp add: softclock_def)
qed

text \<open>A routine that notes that it ran.\<close>

definition demo_call :: "event list callf" where
  "demo_call f a d k = Some (k\<lparr>clk.more := clk.more k @ [(f, a)]\<rparr>)"

lemma pending_more: "pending m n (k\<lparr>clk.more := v\<rparr>) L = pending m n k L"
  by (simp add: pending_def clk_lists_def deltas_def)

lemma softclock_drains_witness:
  "\<exists>k1 k2 k3. timeout 0x100 7 1 demo_clk = Some k1 \<and> clock_ticks 1 k1 = Some k2 \<and>
     softclock demo_call (\<lambda>_ k. k) 0 0 k2 = Some k3 \<and> clk.more k3 = [(0x100, 7)]"
proof -
  have "well_behaved demo_call (\<lambda>v. v)"
    unfolding well_behaved_def demo_call_def by (auto simp: pending_more)
  note drains = softclock_drains [OF this]
  have p4: "pending 0 (Suc 3) demo_clk []" using demo_pending by simp
  obtain k1 where k1: "timeout 0x100 7 1 demo_clk = Some k1" "pending 0 3 k1 [(1, (0x100, 7))]" "clk.more k1 = []"
    using timeout_pending [OF p4, of 1 "0x100" 7] by (auto simp: insert_due_def)
  define L1 :: "(int \<times> event) list" where "L1 = [(1, (0x100, 7))]"
  have "pending 0 3 k1 L1" using k1(2) by (simp add: L1_def)
  then obtain k2 where
    t: "tick_from (calltodo k1) False k1 = Some (False \<or> due (one_tick L1) \<noteq> [], k2)"
    "pending (Suc 0) 3 k2 (one_tick L1)" "\<exists>cs. k2 = k1\<lparr>callouts := cs\<rparr>"
    by (rule tick_pending) simp
  then have "clk.more k2 = clk.more k1" by auto
  note t = this t(1,2)
  have k2: "clock_ticks 1 k1 = Some k2" "pending 1 3 k2 [(0, (0x100, 7))]" "clk.more k2 = []"
    using t k1(3) by (simp_all add: one_tick_def L1_def)
  show ?thesis using drains [OF k2(2), of "\<lambda>_ k. k" 0 0] k1 k2 by (auto simp: due_def)
qed

section \<open>A tick of the clock\<close>

definition timer_step :: "k_itimerval \<Rightarrow> k_itimerval" where
  "timer_step t = (if it_value t = 0 then t
     else if it_value t = 1 then t\<lparr>it_value := it_interval t\<rparr> else t\<lparr>it_value := it_value t - 1\<rparr>)"

text \<open>\<open>charged A k k'\<close>: the state has changed only in the user structure and in the running process,
  which has got the signals \<open>A\<close> unless it ignores them, and has lost none.\<close>

definition charged :: "int set \<Rightarrow> 'a clk_scheme \<Rightarrow> 'a clk_scheme \<Rightarrow> bool" where
  "charged A k k' \<longleftrightarrow> u_procp (u k') = u_procp (u k) \<and> stat k' (u_procp (u k)) = SRUN \<and> noproc k' = noproc k \<and>
     callouts k' = callouts k \<and> calltodo k' = calltodo k \<and> callfree k' = callfree k \<and> lbolt k' = lbolt k \<and>
     time_sec k' = time_sec k \<and> clk.more k' = clk.more k \<and> (\<forall>q. q \<noteq> u_procp (u k) \<longrightarrow> procs k' q = procs k q) \<and>
     p_sigignore (cur k') = p_sigignore (cur k) \<and> p_flag (cur k') = p_flag (cur k) \<and>
     (\<forall>s. has_sig (p_sig (cur k)) s \<longrightarrow> has_sig (p_sig (cur k')) s) \<and>
     (\<forall>s \<in> A. \<not> has_sig (p_sigignore (cur k)) s \<longrightarrow> has_sig (p_sig (cur k')) s)"

lemma charged_trans:
  assumes "charged A k k'" "charged B k' k''" "C \<subseteq> A \<union> B"
  shows "charged C k k''"
  using assms unfolding charged_def by auto

lemma psignal_charged:
  assumes "stat k (u_procp (u k)) = SRUN" "\<not> is_stop s" "s \<noteq> SIGCONT" "1 \<le> s" "s \<le> 32"
  obtains k' where "psignal (u_procp (u k)) s k = Some k'" "charged {s} k k'" "u k' = u k"
    "p_cpu (cur k') = p_cpu (cur k)"
proof (cases "psig_action s (cur k)")
  case None
  then have "has_sig (p_sigignore (cur k)) s" by (auto simp: psig_action_has split: if_splits)
  then show thesis using that [of k] psignal_running [OF assms(1)] assms(1) None by (simp add: charged_def)
next
  case (Some a)
  have "p_cpu (psig_post s a q) = p_cpu q" for q by (simp add: psig_post_def Let_def)
  then show thesis
    using that [of "upd_proc (u_procp (u k)) (psig_post s a) k"] psignal_running [OF assms(1), of s] assms Some
    by (auto simp: charged_def psig_post_sig upd_proc_def)
qed

lemma run_timer_ok:
  assumes "stat k (u_procp (u k)) = SRUN" "\<not> is_stop s" "s \<noteq> SIGCONT" "1 \<le> s" "s \<le> 32"
    and "i < length (u_timer (u k))" "0 \<le> it_value (u_timer (u k) ! i)" "it_value (u_timer (u k) ! i) \<le> 0x7fffffff"
  obtains k' where "run_timer i s k = Some k'"
    "charged (if it_value (u_timer (u k) ! i) = 1 then {s} else {}) k k'"
    "u k' = (u k)\<lparr>u_timer := (u_timer (u k))[i := timer_step (u_timer (u k) ! i)]\<rparr>"
    "p_cpu (cur k') = p_cpu (cur k)"
proof -
  let ?t = "u_timer (u k) ! i"
  define k1 where "k1 = upd_timer i (\<lambda>t. t\<lparr>it_value := wrap32 (it_value t - 1)\<rparr>) k"
  have w: "wrap32 (it_value ?t - 1) = it_value ?t - 1" using assms(7,8) by (simp add: int32_def)
  have c1: "charged {} k k1" using assms(1) by (auto simp: charged_def k1_def upd_timer_def upd_u_def)
  have t1: "u_timer (u k1) ! i = ?t\<lparr>it_value := it_value ?t - 1\<rparr>" "procs k1 = procs k"
    using assms(6) w by (simp_all add: k1_def upd_timer_def)
  have u1: "u k1 = (u k)\<lparr>u_timer := (u_timer (u k))[i := ?t\<lparr>it_value := it_value ?t - 1\<rparr>]\<rparr>"
    using w by (simp add: k1_def upd_timer_def)
  consider "it_value ?t = 0" | "it_value ?t = 1" | "it_value ?t \<noteq> 0" "it_value ?t \<noteq> 1" by blast
  then show thesis
  proof cases
    case 1
    then show thesis using that [of k] assms(1) by (simp add: run_timer_def charged_def timer_step_def)
  next
    case 2
    have s1: "stat k1 (u_procp (u k1)) = SRUN" using c1 by (simp add: charged_def)
    obtain k2 where k2: "psignal (u_procp (u k1)) s k1 = Some k2" "charged {s} k1 k2" "u k2 = u k1"
      "p_cpu (cur k2) = p_cpu (cur k1)"
      using psignal_charged [OF s1 assms(2-5)] by blast
    define k3 where "k3 = upd_timer i (\<lambda>t. t\<lparr>it_value := it_interval t\<rparr>) k2"
    have c3: "charged {} k2 k3"
      using k2(2,3) by (auto simp: charged_def k3_def upd_timer_def upd_u_def)
    have "run_timer i s k = Some k3"
      using 2 t1(1) k2(1) by (simp add: run_timer_def Let_def k1_def [symmetric] k3_def [symmetric])
    moreover have "charged {s} k k3"
      using charged_trans [OF charged_trans [OF c1 k2(2)] c3, of "{s}" "{s}"] by simp
    moreover have "u k3 = (u k)\<lparr>u_timer := (u_timer (u k))[i := timer_step ?t]\<rparr>"
      using 2 k2(3) u1 assms(6) by (simp add: k3_def upd_timer_def timer_step_def)
    moreover have "p_cpu (cur k3) = p_cpu (cur k)" using k2(3,4) t1(2) u1 by (simp add: k3_def upd_timer_def)
    ultimately show thesis using that 2 by simp
  next
    case 3
    then have "run_timer i s k = Some k1" using t1(1) by (simp add: run_timer_def Let_def k1_def [symmetric])
    then show thesis using that 3 c1 u1 t1(2) by (simp add: timer_step_def)
  qed
qed

lemma charge_mode_ok:
  assumes "stat k (u_procp (u k)) = SRUN" "u_timer (u k) = [t0, t1]"
    and "0 \<le> it_value t0" "it_value t0 \<le> 0x7fffffff"
    and "0 \<le> ru_utime (u_ru (u k))" "ru_utime (u_ru (u k)) < 0x3fffffff"
    and "0 \<le> ru_stime (u_ru (u k))" "ru_stime (u_ru (u k)) < 0x3fffffff"
  obtains k' where "charge_mode ps k = Some k'"
    "charged (if USERMODE ps \<and> it_value t0 = 1 then {SIGVTALRM} else {}) k k'"
    "u k' = (u k)\<lparr>u_timer := [if USERMODE ps then timer_step t0 else t0, t1],
       u_ru := (if USERMODE ps then (u_ru (u k))\<lparr>ru_utime := ru_utime (u_ru (u k)) + 1\<rparr>
         else if noproc k then u_ru (u k) else (u_ru (u k))\<lparr>ru_stime := ru_stime (u_ru (u k)) + 1\<rparr>)\<rparr>"
    "p_cpu (cur k') = p_cpu (cur k)"
proof (cases "USERMODE ps")
  case True
  define k1 where "k1 = upd_u (\<lambda>v. v\<lparr>u_ru := (u_ru v)\<lparr>ru_utime := wrap32 (ru_utime (u_ru v) + 1)\<rparr>\<rparr>) k"
  have u1: "u k1 = (u k)\<lparr>u_ru := (u_ru (u k))\<lparr>ru_utime := ru_utime (u_ru (u k)) + 1\<rparr>\<rparr>" "procs k1 = procs k"
    using assms(5,6) by (simp_all add: k1_def int32_def)
  have c1: "charged {} k k1" using assms(1) by (auto simp: charged_def k1_def upd_u_def)
  have "stat k1 (u_procp (u k1)) = SRUN" "0 < length (u_timer (u k1))" "u_timer (u k1) ! 0 = t0"
    using assms(1,2) u1 by simp_all
  then obtain k2 where k2: "run_timer 0 SIGVTALRM k1 = Some k2"
    "charged (if it_value t0 = 1 then {SIGVTALRM} else {}) k1 k2"
    "u k2 = (u k1)\<lparr>u_timer := (u_timer (u k1))[0 := timer_step t0]\<rparr>" "p_cpu (cur k2) = p_cpu (cur k1)"
    using run_timer_ok [of k1 SIGVTALRM 0] assms(3,4) by (auto simp: is_stop_def)
  have "charge_mode ps k = Some k2" using True k2(1) by (simp add: charge_mode_def k1_def)
  then show thesis
    using that [of k2] True u1 assms(2) k2(3,4)
      charged_trans [OF c1 k2(2), of "if it_value t0 = 1 then {SIGVTALRM} else {}"] by simp
next
  case False
  then show thesis
    using that [of "if noproc k then k else upd_u (\<lambda>v. v\<lparr>u_ru := (u_ru v)\<lparr>ru_stime := wrap32 (ru_stime (u_ru v) + 1)\<rparr>\<rparr>) k"]
      assms by (auto simp: charge_mode_def charged_def int32_def upd_u_def)
qed

lemma cpu_limit_ok:
  assumes "stat k (u_procp (u k)) = SRUN" "u_rlimit (u k) \<noteq> []"
    and "0 \<le> ru_utime (u_ru (u k))" "ru_utime (u_ru (u k)) \<le> 0x3fffffff"
    and "0 \<le> ru_stime (u_ru (u k))" "ru_stime (u_ru (u k)) < 0x3fffffff"
  obtains k' lims where "cpu_limit k = Some k'"
    "charged (if ru_utime (u_ru (u k)) + ru_stime (u_ru (u k)) + 1 > rlim_cur (hd (u_rlimit (u k))) then {SIGXCPU} else {}) k k'"
    "u k' = (u k)\<lparr>u_rlimit := lims\<rparr>" "p_cpu (cur k') = p_cpu (cur k)"
proof -
  let ?used = "ru_utime (u_ru (u k)) + ru_stime (u_ru (u k)) + 1" and ?l = "u_rlimit (u k) ! 0"
  have w: "wrap32 ?used = ?used" "hd (u_rlimit (u k)) = ?l"
    using assms by (simp_all add: int32_def hd_conv_nth)
  show thesis
  proof (cases "?used > rlim_cur ?l")
    case True
    obtain k1 where k1: "psignal (u_procp (u k)) SIGXCPU k = Some k1" "charged {SIGXCPU} k k1" "u k1 = u k"
      "p_cpu (cur k1) = p_cpu (cur k)"
      using psignal_charged [OF assms(1), of SIGXCPU] by (auto simp: is_stop_def)
    let ?f = "\<lambda>v. v\<lparr>u_rlimit := (u_rlimit v)[0 := ?l\<lparr>rlim_cur := wrap32 (rlim_cur ?l + 5 * LINEHZ)\<rparr>]\<rparr>"
    define k2 where "k2 = (if rlim_cur ?l < rlim_max ?l then upd_u ?f k1 else k1)"
    have "charged {} k1 k2"
      using k1(2,3) by (auto simp: charged_def k2_def upd_u_def)
    then have c: "charged {SIGXCPU} k k2" by (rule charged_trans [OF k1(2)]) simp
    have e: "cpu_limit k = Some k2"
      unfolding cpu_limit_def Let_def w(1) using True by (simp only: if_True k1(1) k1(3) Option.bind.simps k2_def)
    show thesis
    proof (rule that [OF e])
      show "charged (if ru_utime (u_ru (u k)) + ru_stime (u_ru (u k)) + 1 > rlim_cur (hd (u_rlimit (u k))) then {SIGXCPU} else {}) k k2"
        unfolding w(2) using c True by simp
      show "u k2 = (u k)\<lparr>u_rlimit := u_rlimit (u k2)\<rparr>" "p_cpu (cur k2) = p_cpu (cur k)"
        using k1(3,4) by (simp_all add: k2_def)
    qed
  next
    case False
    then have "cpu_limit k = Some k" unfolding cpu_limit_def Let_def w(1) by simp
    then show thesis
    proof (rule that)
      show "charged (if ru_utime (u_ru (u k)) + ru_stime (u_ru (u k)) + 1 > rlim_cur (hd (u_rlimit (u k))) then {SIGXCPU} else {}) k k"
        unfolding w(2) using False assms(1) by (simp add: charged_def)
      show "u k = (u k)\<lparr>u_rlimit := u_rlimit (u k)\<rparr>" "p_cpu (cur k) = p_cpu (cur k)" by simp_all
    qed
  qed
qed

lemma unat8_lt: "unat (w :: u_char) < 256"
  using unsigned_less [of w] by simp

lemma charge_proc_ok:
  assumes "stat k (u_procp (u k)) = SRUN" "u_rlimit (u k) \<noteq> []" "u_timer (u k) = [t0, t1]"
    and "0 \<le> it_value t1" "it_value t1 \<le> 0x7fffffff" "\<not> noproc k"
    and "0 \<le> ru_utime (u_ru (u k))" "ru_utime (u_ru (u k)) \<le> 0x3fffffff"
    and "0 \<le> ru_stime (u_ru (u k))" "ru_stime (u_ru (u k)) < 0x3fffffff"
  obtains k' where "charge_proc k = Some k'"
    "charged ((if ru_utime (u_ru (u k)) + ru_stime (u_ru (u k)) + 1 > rlim_cur (hd (u_rlimit (u k))) then {SIGXCPU} else {}) \<union>
       (if it_value t1 = 1 then {SIGPROF} else {})) k k'"
    "u_timer (u k') = [t0, timer_step t1]" "u_ru (u k') = u_ru (u k)"
    "unat (p_cpu (cur k')) = min 255 (unat (p_cpu (cur k)) + 1)"
proof -
  let ?p = "u_procp (u k)"
  define k1 where "k1 = upd_proc ?p (\<lambda>q. q\<lparr>p_cpu := (if p_cpu q + 1 = 0 then p_cpu q else p_cpu q + 1)\<rparr>) k"
  have u1: "u k1 = u k" by (simp add: k1_def)
  have c1: "charged {} k k1" using assms(1) by (auto simp: charged_def k1_def upd_proc_def)
  have "stat k1 (u_procp (u k1)) = SRUN" "u_rlimit (u k1) \<noteq> []" using assms(1,2) by (simp_all add: k1_def)
  then obtain k2 lims where k2: "cpu_limit k1 = Some k2"
    "charged (if ru_utime (u_ru (u k)) + ru_stime (u_ru (u k)) + 1 > rlim_cur (hd (u_rlimit (u k))) then {SIGXCPU} else {}) k1 k2"
    "u k2 = (u k)\<lparr>u_rlimit := lims\<rparr>" "p_cpu (cur k2) = p_cpu (cur k1)"
    using cpu_limit_ok [of k1] assms(7-10) unfolding u1 by metis
  have "stat k2 (u_procp (u k2)) = SRUN" "1 < length (u_timer (u k2))" "u_timer (u k2) ! 1 = t1"
    using k2(2,3) assms(3) u1 by (simp_all add: charged_def)
  then obtain k3 where k3: "run_timer 1 SIGPROF k2 = Some k3"
    "charged (if it_value t1 = 1 then {SIGPROF} else {}) k2 k3"
    "u k3 = (u k2)\<lparr>u_timer := (u_timer (u k2))[1 := timer_step t1]\<rparr>" "p_cpu (cur k3) = p_cpu (cur k2)"
    using run_timer_ok [of k2 SIGPROF 1] assms(4,5) by (auto simp: is_stop_def)
  have e: "charge_proc k = Some k3"
    unfolding charge_proc_def Let_def k1_def [symmetric] using assms(6) k2(1) k3(1) by simp
  have "unat (p_cpu (cur k1)) = min 255 (unat (p_cpu (cur k)) + 1)"
  proof (cases "p_cpu (cur k) + 1 = 0")
    case True
    then have "p_cpu (cur k) = - 1" by (simp add: eq_neg_iff_add_eq_0)
    moreover have "unat (- 1 :: u_char) = 255" by code_simp
    ultimately have "unat (p_cpu (cur k)) = 255" by simp
    then show ?thesis using True by (simp add: k1_def)
  next
    case False
    then have "unat (p_cpu (cur k) + 1) = unat (p_cpu (cur k)) + 1" by (metis Suc_eq_plus1 add.commute unatSuc)
    moreover have "unat (p_cpu (cur k) + 1) < 256" by (rule unat8_lt)
    ultimately show ?thesis using False by (simp add: k1_def)
  qed
  then show thesis
    using that [OF e charged_trans [OF c1 charged_trans [OF k2(2) k3(2) subset_refl]]] k3(3,4) k2(3,4) assms(3) u1
    by simp
qed


text \<open>Process 1, in user mode, one tick before its virtual timer runs out.\<close>

definition demo_tick :: "event list clk_scheme" where
  "demo_tick = upd_u (\<lambda>v. v\<lparr>u_timer := [\<lparr>it_interval = 30, it_value = 1\<rparr>, \<lparr>it_interval = 0, it_value = 0\<rparr>],
     u_rlimit := [\<lparr>rlim_cur = 600, rlim_max = 600\<rparr>]\<rparr>) demo_clk"


end
