(* ===== verification/Sleep.thy ===== *)
theory Sleep imports Callout begin

text \<open>
  The two routines of \<open>src/sys/sys/kern_synch.c\<close> that need signals and timeouts: sleep and
  schedcpu, the once-a-second recomputation of priorities.
\<close>

section \<open>sleep\<close>

text \<open>
  Where sleep leaves off: it returns; it aborts the system call (\<open>longjmp\<close> to \<open>u_qsave\<close>); issig
  gives up the processor with the given result; or sleep gives up the processor itself (\<open>swtch\<close>).
\<close>

datatype sleep_out = SRet | SPsig | SIssig issig_out | SSwtch

text \<open>After the test for signals: a wakeup may have happened while issig had the process stopped.\<close>

definition sleep_wait :: "'a kern_scheme \<Rightarrow> (sleep_out \<times> 'a kern_scheme) option" where
  "sleep_wait k =
     (let rp = u_procp (u k) in
      if p_wchan (procs k rp) = 0 then Some (SRet, k)
      else do {
        let k1 = upd_proc rp (\<lambda>q. q\<lparr>p_stat := SSLEEP\<rparr>) k;
        k2 \<leftarrow> (if k_runin k1 then wakeup (a_runin k1) (k1\<lparr>k_runin := False\<rparr>) else Some k1);
        Some (SSwtch, upd_u (\<lambda>v. v\<lparr>u_ru := (u_ru v)\<lparr>ru_nvcsw := wrap32 (ru_nvcsw (u_ru v) + 1)\<rparr>\<rparr>) k2)
      })"

definition sleep_psig :: "'a kern_scheme \<Rightarrow> (sleep_out \<times> 'a kern_scheme) option" where
  "sleep_psig k =
     (let rp = u_procp (u k) in do {
        k1 \<leftarrow> (if p_wchan (procs k rp) \<noteq> 0 then unsleep rp k else Some k);
        Some (SPsig, upd_proc rp (\<lambda>q. q\<lparr>p_stat := SRUN\<rparr>) k1)
      })"

definition after_issig :: "issig_out \<Rightarrow> 'a kern_scheme \<Rightarrow> (sleep_out \<times> 'a kern_scheme) option" where
  "after_issig r k = (case r of NoSig \<Rightarrow> sleep_wait k | Send _ \<Rightarrow> sleep_psig k | _ \<Rightarrow> Some (SIssig r, k))"

text \<open>The insertion at the head of the queue of the channel.\<close>

definition enqueue :: "u_int \<Rightarrow> int \<Rightarrow> nat \<Rightarrow> 'a kern_scheme \<Rightarrow> 'a kern_scheme" where
  "enqueue chan pri rp k =
     (let h = HASH chan;
          k1 = upd_proc rp (\<lambda>q. q\<lparr>p_wchan := chan, p_slptime := 0, p_pri := pri, p_link := slpque k h\<rparr>) k
      in k1\<lparr>slpque := (slpque k1)(h := Some rp)\<rparr>)"

definition sleep :: "u_int \<Rightarrow> int \<Rightarrow> 'a kern_scheme \<Rightarrow> (sleep_out \<times> 'a kern_scheme) option" where
  "sleep chan pri k =
     (let rp = u_procp (u k) in
      if panicstr k then Some (SRet, k)
      else if chan = 0 \<or> p_stat (procs k rp) \<noteq> SRUN then None
      else
        let k1 = enqueue chan pri rp k in
        if pri > PZERO then
          (if ISSIG_test (procs k1 rp) then Option.bind (issig k1) (\<lambda>(r, k2). after_issig r k2)
           else sleep_wait k1)
        else
          let k2 = upd_proc rp (\<lambda>q. q\<lparr>p_stat := SSLEEP\<rparr>) k1 in
          Some (SSwtch, upd_u (\<lambda>v. v\<lparr>u_ru := (u_ru v)\<lparr>ru_nvcsw := wrap32 (ru_nvcsw (u_ru v) + 1)\<rparr>\<rparr>) k2))"

text \<open>When the process runs again after its swtch.\<close>

definition sleep_resume :: "int \<Rightarrow> 'a kern_scheme \<Rightarrow> (sleep_out \<times> 'a kern_scheme) option" where
  "sleep_resume pri k =
     (if pri > PZERO \<and> ISSIG_test (procs k (u_procp (u k))) then do {
        (r, k1) \<leftarrow> issig k;
        Some (case r of NoSig \<Rightarrow> (SRet, k1) | Send _ \<Rightarrow> (SPsig, k1) | _ \<Rightarrow> (SIssig r, k1))
      }
      else Some (SRet, k))"

section \<open>schedcpu\<close>

definition char_inc :: "int \<Rightarrow> int" where
  "char_inc s = (if s = 127 then 127 else s + 1)"

text \<open>\<open>a = (p->p_cpu & 0377) * SCHMAG + p->p_nice\<close>, cut to 0..255.\<close>

definition decay :: "proc \<Rightarrow> int" where
  "decay q =
     (let a = cdiv (uint (p_cpu q) * 8) 10 + p_nice q; a = (if a < 0 then 0 else a)
      in if a > 255 then 255 else a)"

text \<open>The real-time timer.\<close>

definition real_timer :: "nat \<Rightarrow> 'a kern_scheme \<Rightarrow> 'a kern_scheme option" where
  "real_timer p k =
     (if it_value (p_realtimer (procs k p)) = 0 then Some k
      else let k1 = upd_proc p (\<lambda>q. q\<lparr>p_realtimer := (p_realtimer q)
             \<lparr>it_value := wrap32 (it_value (p_realtimer q) - 1)\<rparr>\<rparr>) k in
        if it_value (p_realtimer (procs k1 p)) \<noteq> 0 then Some k1
        else do {
          k2 \<leftarrow> psignal p SIGALRM k1;
          Some (upd_proc p (\<lambda>q. q\<lparr>p_realtimer := (p_realtimer q)\<lparr>it_value := it_interval (p_realtimer q)\<rparr>\<rparr>) k2)
        })"

text \<open>The body of the loop, behind the timer and as a whole.\<close>

definition age :: "proc \<Rightarrow> proc" where
  "age q = (if p_stat q = SSLEEP \<or> p_stat q = SSTOP then q\<lparr>p_slptime := char_inc (p_slptime q)\<rparr> else q)"

definition schedcpu_proc :: "nat \<Rightarrow> 'a kern_scheme \<Rightarrow> 'a kern_scheme option" where
  "schedcpu_proc p k = do {
     k1 \<leftarrow> real_timer p (upd_proc p (\<lambda>q. q\<lparr>p_time := char_inc (p_time q)\<rparr>) k);
     let k2 = upd_proc p age k1;
     if p_slptime (procs k2 p) > 1 then Some k2
     else
       let k3 = upd_proc p (\<lambda>q. q\<lparr>p_cpu := word_of_int (decay q)\<rparr>) k2 in
       Some (if p_pri (procs k3 p) \<ge> PUSER then snd (setpri p k3) else k3)
   }"

text \<open>\<open>vmmeter\<close> and the address of schedcpu are arguments.\<close>

definition schedcpu ::
  "('a clk_scheme \<Rightarrow> 'a clk_scheme) \<Rightarrow> u_int \<Rightarrow> 'a clk_scheme \<Rightarrow> 'a clk_scheme option" where
  "schedcpu vmmeter a_schedcpu k = do {
     k1 \<leftarrow> wakeup (a_lbolt k) k;
     ps \<leftarrow> list_from (allproc k1) k1;
     k2 \<leftarrow> fold (\<lambda>p st. Option.bind st (schedcpu_proc p)) ps (Some k1);
     let k3 = vmmeter k2;
     k4 \<leftarrow> (if k_runin k3 then wakeup (a_runin k3) (k3\<lparr>k_runin := False\<rparr>) else Some k3);
     timeout a_schedcpu 0 LINEHZ (k4\<lparr>runrun := runrun k4 + 1\<rparr>)
   }"

end
