(* ===== verification/SleepProps.thy ===== *)
theory SleepProps imports Sleep CalloutProps SigProps begin

text \<open>The properties of sleep and schedcpu.\<close>

section \<open>Going to sleep\<close>

lemma enqueue_fields [simp]:
  "procs (enqueue c pri p k) x = (if x = p then (procs k p)\<lparr>p_wchan := c, p_slptime := 0, p_pri := pri, p_link := slpque k (HASH c)\<rparr>
     else procs k x)"
  "qs (enqueue c pri p k) = qs k" "u (enqueue c pri p k) = u k" "k_runin (enqueue c pri p k) = k_runin k"
  "k_runout (enqueue c pri p k) = k_runout k" "a_runin (enqueue c pri p k) = a_runin k"
  "a_runout (enqueue c pri p k) = a_runout k" "a_proc (enqueue c pri p k) = a_proc k"
  "slpque (enqueue c pri p k) = (slpque k)(HASH c := Some p)"
  by (simp_all add: enqueue_def Let_def)

lemma enqueue_core: "same_core k (enqueue c pri p k)"
  by (simp add: same_core_def core_of_def) (simp add: enqueue_def Let_def)

lemma enqueue_queues:
  assumes q: "queues k Q S" and "wchan k p = 0" "p \<notin> set Q" "c \<noteq> 0"
  shows "queues (enqueue c pri p k) Q (S(HASH c := p # S (HASH c)))"
proof -
  let ?k = "enqueue c pri p k"
  have ns: "p \<notin> set (S h)" for h using q assms(2) by (auto simp: queues_def)
  have same: "lpath (lnk ?k) v xs = lpath (lnk k) v xs" if "p \<notin> set xs" for v xs
    by (rule lpath_cong) (use that in auto)
  have S: "set (S h) = {x. wchan k x \<noteq> 0 \<and> HASH (wchan k x) = h}" for h using q by (simp add: queues_def)
  have l: "lpath (lnk k) (slpque k h) (S h)" for h using q by (simp add: queues_def)
  have "lpath (lnk ?k) (slpque ?k h) ((S(HASH c := p # S (HASH c))) h)" for h
    using same [OF ns] l by simp
  moreover have "set ((S(HASH c := p # S (HASH c))) h) = {x. wchan ?k x \<noteq> 0 \<and> HASH (wchan ?k x) = h}" for h
    using assms(2,4) by (auto simp: S)
  moreover have "lpath (lnk ?k) (qs ?k) Q" using same [OF assms(3)] q by (simp add: queues_def)
  moreover have "\<forall>x \<in> set Q. wchan ?k x = 0 \<and> stat ?k x = SRUN \<and> loaded ?k x"
    using q assms(3) by (auto simp: queues_def)
  ultimately show ?thesis by (simp add: queues_def)
qed

text \<open>Marked asleep, the process satisfies the invariant of sleepers again.\<close>

lemma fall_asleep:
  assumes "sched_ok k" "sleepers_ok k" "wchan k p = 0" "\<not> on_runq k p" "c \<noteq> 0"
    and k1_def: "k1 = upd_proc p (\<lambda>q. q\<lparr>p_stat := SSLEEP\<rparr>) (enqueue c pri p k)"
  shows "sched_ok k1" "sleepers_ok k1" "\<not> on_runq k1 p" "same_core k k1"
proof -
  obtain Q S where q: "queues k Q S" using assms(1) by (auto simp: sched_ok_def)
  have pQ: "p \<notin> set Q" using assms(4) on_runq_queues [OF q] by simp
  have q1: "queues k1 Q (S(HASH c := p # S (HASH c)))"
    unfolding k1_def by (rule queues_upd [OF enqueue_queues [OF q assms(3) pQ assms(5)]]) (use pQ in auto)
  then show "sched_ok k1" by (auto simp: sched_ok_def)
  show "sleepers_ok k1" using assms(2) by (auto simp: sleepers_ok_def k1_def)
  show "\<not> on_runq k1 p" using on_runq_queues [OF q1] pQ by simp
  have "same_core (enqueue c pri p k) k1" by (simp add: k1_def same_core_def core_of_def)
  with enqueue_core show "same_core k k1" by (rule same_core_trans)
qed

lemma sched_u [simp]:
  "sched_ok (upd_u g k) = sched_ok k" "sleepers_ok (upd_u g k) = sleepers_ok k" "on_runq (upd_u g k) p = on_runq k p"
  by (simp_all add: sched_ok_def queues_def sleepers_ok_def on_runq_def)

lemma wakeup_sleeper:
  assumes "sched_ok k" "sleepers_ok k" "stat k p = SSLEEP" "wchan k p = c" "c \<noteq> 0" "a_runout k \<noteq> 0"
  shows "\<exists>k'. wakeup c k = Some k' \<and> stat k' p = SRUN \<and> wchan k' p = 0 \<and> (on_runq k' p \<longleftrightarrow> loaded k p)"
proof -
  obtain k' where w: "wakeup c k = Some k'" "\<And>p. wchan k' p \<noteq> c"
    "woke (if k_runout k then {c, a_runout k} else {c}) k k'"
    using wakeup_ok [OF assms(1,2,5,6)] by metis
  then show ?thesis using assms(3,4) w(2) [of p] unfolding woke_def by (metis (no_types, lifting))
qed

lemma sched_ok_runin:
  "sched_ok (k\<lparr>k_runin := b\<rparr>) = sched_ok k" "sleepers_ok (k\<lparr>k_runin := b\<rparr>) = sleepers_ok k"
  "on_runq (k\<lparr>k_runin := b\<rparr>) p = on_runq k p"
  by (simp_all add: sched_ok_def queues_def sleepers_ok_def on_runq_def)

text \<open>sleep, when no signal stands in its way.\<close>

lemma sleep_quiet:
  assumes "sched_ok k" "sleepers_ok k" "a_runout k \<noteq> 0" "a_runin k \<noteq> 0" "\<not> panicstr k" "c \<noteq> 0"
    and p: "p = u_procp (u k)" "stat k p = SRUN" "wchan k p = 0" "\<not> on_runq k p"
    and "pri \<le> PZERO \<or> \<not> ISSIG_test (procs k p)" "k_runin k \<longrightarrow> pri \<le> PZERO \<or> c \<noteq> a_runin k \<and> c \<noteq> a_runout k"
  obtains k1 where "sleep c pri k = Some (SSwtch, k1)" "sched_ok k1" "sleepers_ok k1" "stat k1 p = SSLEEP"
    "wchan k1 p = c" "a_runout k1 = a_runout k" "loaded k1 p = loaded k p" "\<not> on_runq k1 p"
    "pri \<le> PZERO \<Longrightarrow> k1 = upd_u (\<lambda>v. v\<lparr>u_ru := (u_ru v)\<lparr>ru_nvcsw := wrap32 (ru_nvcsw (u_ru v) + 1)\<rparr>\<rparr>)
      (upd_proc p (\<lambda>q. q\<lparr>p_stat := SSLEEP\<rparr>) (enqueue c pri p k))"
proof -
  define ka where "ka = upd_proc p (\<lambda>q. q\<lparr>p_stat := SSLEEP\<rparr>) (enqueue c pri p k)"
  let ?f = "\<lambda>v. v\<lparr>u_ru := (u_ru v)\<lparr>ru_nvcsw := wrap32 (ru_nvcsw (u_ru v) + 1)\<rparr>\<rparr>"
  note a = fall_asleep [OF assms(1,2) p(3,4) assms(6) ka_def]
  have fa: "stat ka p = SSLEEP" "wchan ka p = c" "a_runout ka = a_runout k" "loaded ka p = loaded k p"
    "k_runin ka = k_runin k" "a_runin ka = a_runin k"
    by (simp_all add: ka_def)
  have start: "sleep c pri k = (if pri > PZERO then sleep_wait (enqueue c pri p k) else Some (SSwtch, upd_u ?f ka))"
    using assms(5,6,11) p by (auto simp: sleep_def Let_def ka_def ISSIG_test_def)
  show thesis
  proof (cases "pri > PZERO")
    case False
    then have "sleep c pri k = Some (SSwtch, upd_u ?f ka)" using start by simp
    then show thesis by (rule that) (use a fa in \<open>simp_all add: ka_def\<close>)
  next
    case True
    obtain kb where b: "(if k_runin ka then wakeup (a_runin ka) (ka\<lparr>k_runin := False\<rparr>) else Some ka) = Some kb"
      "sched_ok kb" "sleepers_ok kb" "stat kb p = SSLEEP" "wchan kb p = c" "a_runout kb = a_runout k"
      "loaded kb p = loaded k p" "\<not> on_runq kb p"
    proof (cases "k_runin ka")
      case False
      then show thesis using that [of ka] a fa by simp
    next
      case run: True
      define kr where "kr = ka\<lparr>k_runin := False\<rparr>"
      have ok: "sched_ok kr" "sleepers_ok kr" "a_runin ka \<noteq> 0" "a_runout kr \<noteq> 0"
        using a fa assms(3,4) by (simp_all add: sched_ok_runin kr_def)
      obtain kb where w: "wakeup (a_runin ka) kr = Some kb" "sched_ok kb" "sleepers_ok kb"
        "woke (if k_runout kr then {a_runin ka, a_runout kr} else {a_runin ka}) kr kb"
        using wakeup_ok [OF ok] by metis
      have core: "same_core kr kb" using w(4) by (simp add: woke_def)
      have r: "wchan kr p = c" "stat kr p = SSLEEP" "on_runq kr p = on_runq ka p" "a_runout kr = a_runout ka"
        "loaded kr p = loaded k p"
        using fa by (simp_all add: kr_def sched_ok_runin)
      have "c \<noteq> a_runin ka" "c \<noteq> a_runout ka" using assms(12) True run fa by auto
      then have "wchan kb p = c \<and> stat kb p = SSLEEP \<and> (on_runq kb p \<longleftrightarrow> on_runq ka p)"
        using w(4) r unfolding woke_def by (metis empty_iff insert_iff)
      moreover have "a_runout kb = a_runout k" using core fa r by (simp add: same_core_def)
      moreover have "loaded kb p = loaded k p" using same_core_flag [OF core, of p] r by simp
      ultimately show thesis using that [of kb] w run a by (simp add: kr_def)
    qed
    have e: "u_procp (u (enqueue c pri p k)) = p" "wchan (enqueue c pri p k) p \<noteq> 0" using assms(6) p(1) by simp_all
    have "sleep_wait (enqueue c pri p k) = Some (SSwtch, upd_u ?f kb)"
      unfolding sleep_wait_def Let_def e(1) if_not_P [OF e(2)] ka_def [symmetric] b(1) by simp
    then have "sleep c pri k = Some (SSwtch, upd_u ?f kb)" using start True by simp
    then show thesis by (rule that) (use b True in simp_all)
  qed
qed

text \<open>sleep, when a signal is caught.\<close>

lemma sleep_caught:
  assumes "sched_ok k" "sleepers_ok k" "\<not> panicstr k" "c \<noteq> 0" "pri > PZERO"
    and p: "p = u_procp (u k)" "stat k p = SRUN" "wchan k p = 0" "\<not> on_runq k p"
    and s: "ISSIG_test (procs k p)" "\<not> flag (p_flag (procs k p)) STRC"
    and h: "issig_bits (procs k p) \<noteq> 0" "u_signal (u k) (ffs (issig_bits (procs k p))) = Handler a"
  obtains k1 where "sleep c pri k = Some (SPsig, k1)" "sched_ok k1" "sleepers_ok k1" "stat k1 p = SRUN" "wchan k1 p = 0"
    "p_cursig (procs k1 p) = ffs (issig_bits (procs k p))" "\<not> on_runq k1 p"
proof -
  let ?s = "ffs (issig_bits (procs k p))"
  define ka where "ka = enqueue c pri p k"
  define kb where "kb = upd_proc p (\<lambda>q. q\<lparr>p_cursig := ?s\<rparr>) (take_away ?s p ka)"
  have fa: "issig_bits (procs ka p) = issig_bits (procs k p)" "ISSIG_test (procs ka p)" "u ka = u k"
    using s by (simp_all add: ka_def issig_bits_def ISSIG_test_def Let_def)
  have ub: "u kb = u k" using fa(3) by (simp add: kb_def take_away_def)
  have "issig ka = Some (Send ?s, kb)"
    by (subst issig.simps) (use h s(2) p(1) fa ub in \<open>simp add: Let_def kb_def ka_def issig_act_def take_away_def\<close>)
  then have sl: "sleep c pri k = sleep_psig kb"
    using assms(3-5) p s fa(2) by (simp add: sleep_def Let_def ka_def after_issig_def)
  obtain Q S where q: "queues k Q S" using assms(1) by (auto simp: sched_ok_def)
  have pQ: "p \<notin> set Q" using p(4) on_runq_queues [OF q] by simp
  have "queues kb Q (S(HASH c := p # S (HASH c)))"
    unfolding kb_def take_away_def ka_def
    by (intro queues_upd enqueue_queues [OF q p(3) pQ assms(4)]) auto
  then obtain kc S' where un: "unsleep p kb = Some kc" "queues kc Q S'" "same_core kb kc"
    "\<And>x. wchan kc x = (if x = p then 0 else wchan kb x)" "\<And>x. stat kc x = stat kb x"
    using unsleep_queues [of kb Q _ p] by metis
  define kd where "kd = upd_proc p (\<lambda>q. q\<lparr>p_stat := SRUN\<rparr>) kc"
  have "wchan kb p \<noteq> 0" using assms(4) by (simp add: kb_def ka_def)
  then have "sleep c pri k = Some (SPsig, kd)"
    using sl un(1) ub p(1) by (simp add: sleep_psig_def Let_def kd_def)
  moreover have qd: "queues kd Q S'" unfolding kd_def by (rule queues_upd [OF un(2)]) (use pQ in auto)
  moreover have "\<not> on_runq kd p" using on_runq_queues [OF qd] pQ by simp
  moreover have "sleepers_ok kd"
  proof -
    have "wchan kd x = (if x = p then 0 else wchan k x)" "stat kd x = (if x = p then SRUN else stat k x)" for x
      by (simp_all add: kd_def un(4,5)) (simp_all add: kb_def ka_def)
    then show ?thesis using assms(2) by (simp add: sleepers_ok_def)
  qed
  moreover have "p_cursig (procs kd p) = ?s"
    using un(3) by (simp add: kd_def same_core_def core_of_def kb_def)
  ultimately show thesis using that [of kd] un(4) by (auto simp: sched_ok_def kd_def)
qed

section \<open>Signals to a process that must not be disturbed\<close>

lemma psignal_undisturbed:
  assumes "sig_inv k" "stat k p = SSLEEP" "p_pri (procs k p) \<le> PZERO"
  shows "\<exists>k'. psignal p s k = Some k' \<and> sig_inv k' \<and> stat k' p = SSLEEP \<and> wchan k' p = wchan k p \<and>
    p_pri (procs k' p) = p_pri (procs k p) \<and> loaded k' p = loaded k p \<and> a_runout k' = a_runout k"
proof (cases "psig_action s (procs k p)")
  case None
  then show ?thesis using assms by (simp add: psignal.simps)
next
  case (Some a)
  let ?k = "upd_proc p (psig_post s a) k"
  have "psignal p s k = Some ?k" using assms Some by (simp add: psignal.simps [of p s k] Let_def)
  moreover have "sig_inv ?k"
    using sig_inv_upd(1) [OF assms(1), of "psig_post s a" p] by (simp add: ident_def)
  ultimately show ?thesis using assms(2) by (intro exI [of _ ?k]) simp
qed

definition post_all :: "nat \<Rightarrow> int list \<Rightarrow> 'a kern_scheme \<Rightarrow> 'a kern_scheme option" where
  "post_all p sigs k = fold (\<lambda>s st. Option.bind st (psignal p s)) sigs (Some k)"

lemma post_all_undisturbed:
  assumes "sig_inv k" "stat k p = SSLEEP" "p_pri (procs k p) \<le> PZERO"
  shows "\<exists>k'. post_all p sigs k = Some k' \<and> (sig_inv k' \<and> stat k' p = SSLEEP \<and> p_pri (procs k' p) \<le> PZERO \<and>
    wchan k' p = wchan k p \<and> loaded k' p = loaded k p \<and> a_runout k' = a_runout k)"
  unfolding post_all_def
proof (rule fold_bind_total)
  fix s k' assume i: "sig_inv k' \<and> stat k' p = SSLEEP \<and> p_pri (procs k' p) \<le> PZERO \<and>
    wchan k' p = wchan k p \<and> loaded k' p = loaded k p \<and> a_runout k' = a_runout k"
  then show "\<exists>k''. psignal p s k' = Some k'' \<and> (sig_inv k'' \<and> stat k'' p = SSLEEP \<and> p_pri (procs k'' p) \<le> PZERO \<and>
    wchan k'' p = wchan k p \<and> loaded k'' p = loaded k p \<and> a_runout k'' = a_runout k)"
    using psignal_undisturbed [of k' p s] by metis
qed (use assms in simp)

text \<open>C13: sleep puts the calling process, and no one else, to sleep on the channel and the queues stay
  in order; a wakeup of that channel makes it runnable again, on the run queue if it is in core. With
  an interruptible priority and a caught signal pending it does not sleep: it is off the queue
  again, running, and aborts the system call with the signal taken.\<close>

theorem sleep_correct:
  assumes "sched_ok k" "sleepers_ok k" "a_runout k \<noteq> 0" "a_runin k \<noteq> 0" "\<not> panicstr k" "c \<noteq> 0"
    and "p = u_procp (u k)" "stat k p = SRUN" "wchan k p = 0" "\<not> on_runq k p"
    and "k_runin k \<longrightarrow> c \<noteq> a_runin k \<and> c \<noteq> a_runout k"
  shows "(pri \<le> PZERO \<or> \<not> ISSIG_test (procs k p) \<longrightarrow>
      (\<exists>k1 k2. sleep c pri k = Some (SSwtch, k1) \<and> sched_ok k1 \<and> sleepers_ok k1 \<and> stat k1 p = SSLEEP \<and>
        wchan k1 p = c \<and> wakeup c k1 = Some k2 \<and> stat k2 p = SRUN \<and> wchan k2 p = 0 \<and>
        (on_runq k2 p \<longleftrightarrow> loaded k p))) \<and>
    (pri > PZERO \<and> ISSIG_test (procs k p) \<and> \<not> flag (p_flag (procs k p)) STRC \<and> issig_bits (procs k p) \<noteq> 0 \<and>
       u_signal (u k) (ffs (issig_bits (procs k p))) = Handler a \<longrightarrow>
      (\<exists>k1. sleep c pri k = Some (SPsig, k1) \<and> sched_ok k1 \<and> sleepers_ok k1 \<and> stat k1 p = SRUN \<and>
        wchan k1 p = 0 \<and> \<not> on_runq k1 p \<and> p_cursig (procs k1 p) = ffs (issig_bits (procs k p))))"
proof (intro conjI impI)
  assume "pri \<le> PZERO \<or> \<not> ISSIG_test (procs k p)"
  note quiet = this
  have r: "k_runin k \<longrightarrow> pri \<le> PZERO \<or> c \<noteq> a_runin k \<and> c \<noteq> a_runout k" using assms(11) by blast
  obtain k1 where k1: "sleep c pri k = Some (SSwtch, k1)" "sched_ok k1" "sleepers_ok k1"
    "stat k1 p = SSLEEP" "wchan k1 p = c" "a_runout k1 = a_runout k" "loaded k1 p = loaded k p" "\<not> on_runq k1 p"
    by (rule sleep_quiet [OF assms(1-10) quiet r]) (rule that)
  have "a_runout k1 \<noteq> 0" using k1(6) assms(3) by simp
  from wakeup_sleeper [OF k1(2-5) assms(6) this] show
    "\<exists>k1 k2. sleep c pri k = Some (SSwtch, k1) \<and> sched_ok k1 \<and> sleepers_ok k1 \<and> stat k1 p = SSLEEP \<and>
        wchan k1 p = c \<and> wakeup c k1 = Some k2 \<and> stat k2 p = SRUN \<and> wchan k2 p = 0 \<and> (on_runq k2 p \<longleftrightarrow> loaded k p)"
    using k1 by metis
next
  assume h: "pri > PZERO \<and> ISSIG_test (procs k p) \<and> \<not> flag (p_flag (procs k p)) STRC \<and> issig_bits (procs k p) \<noteq> 0 \<and>
       u_signal (u k) (ffs (issig_bits (procs k p))) = Handler a"
  show "\<exists>k1. sleep c pri k = Some (SPsig, k1) \<and> sched_ok k1 \<and> sleepers_ok k1 \<and> stat k1 p = SRUN \<and>
        wchan k1 p = 0 \<and> \<not> on_runq k1 p \<and> p_cursig (procs k1 p) = ffs (issig_bits (procs k p))"
    using sleep_caught [OF assms(1,2,5,6) _ assms(7-10)] h by metis
qed

text \<open>The running process of \<open>demo_kern\<close>, taken off the run queue.\<close>

definition demo_awake :: kern where
  "demo_awake = demo_kern\<lparr>qs := None\<rparr>"

lemma demo_awake_ok:
  "sched_ok demo_awake" "sleepers_ok demo_awake" "a_runout demo_awake \<noteq> 0" "a_runin demo_awake \<noteq> 0"
  "\<not> panicstr demo_awake" "u_procp (u demo_awake) = 1" "stat demo_awake 1 = SRUN" "wchan demo_awake 1 = 0"
  "\<not> on_runq demo_awake 1" "\<not> k_runin demo_awake" "loaded demo_awake 1" "\<not> ISSIG_test (procs demo_awake 1)"
proof -
  have q: "queues demo_awake [] ((\<lambda>_. [])(2 := [2, 3]))"
    using demo_queues by (simp add: demo_awake_def queues_def)
  then show "sched_ok demo_awake" by (auto simp: sched_ok_def)
  show "\<not> on_runq demo_awake 1" using on_runq_queues [OF q] by simp
  show "sleepers_ok demo_awake" using demo_sched(2) by (simp add: sleepers_ok_def demo_awake_def)
qed (simp_all add: demo_awake_def demo_kern_def demo_proc_def demo_user_def flag_def ISSIG_test_def)

theorem sleep_correct_witness:
  "\<exists>k1 k2. sleep 0x80 30 demo_awake = Some (SSwtch, k1) \<and> stat k1 1 = SSLEEP \<and> wakeup 0x80 k1 = Some k2 \<and>
     on_runq k2 1"
  using sleep_correct [OF demo_awake_ok(1-5), of "0x80" 1 30] demo_awake_ok by auto

text \<open>C14: A process that sleeps at a priority of PZERO or better cannot be disturbed: whatever signals
  are posted to it, SIGKILL and the stop signals included, it stays asleep on its channel until
  that channel is woken.\<close>

theorem sleep_uninterruptible:
  assumes "running k" "p = u_procp (u k)" "wchan k p = 0" "\<not> panicstr k" "c \<noteq> 0" "c \<noteq> a_runout k"
    and "a_runin k \<noteq> 0" "pri \<le> PZERO"
  shows "\<exists>k1. sleep c pri k = Some (SSwtch, k1) \<and>
    (\<forall>sigs. \<exists>k2. post_all p sigs k1 = Some k2 \<and> sig_inv k2 \<and> stat k2 p = SSLEEP \<and> wchan k2 p = c \<and>
       (\<exists>k3. wakeup c k2 = Some k3 \<and> stat k3 p = SRUN \<and> wchan k3 p = 0 \<and> (on_runq k3 p \<longleftrightarrow> loaded k p)))"
proof -
  have inv: "sig_inv k" and r: "stat k p = SRUN" "\<not> on_runq k p" "p \<noteq> 0"
    using assms(1,2) by (simp_all add: running_def)
  have s: "sched_ok k" "sleepers_ok k" "a_runout k \<noteq> 0" using inv by (simp_all add: sig_inv_def addrs_ok_def)
  have q: "pri \<le> PZERO \<or> \<not> ISSIG_test (procs k p)" "k_runin k \<longrightarrow> pri \<le> PZERO \<or> c \<noteq> a_runin k \<and> c \<noteq> a_runout k"
    using assms(8) by simp_all
  obtain k1 where k1: "sleep c pri k = Some (SSwtch, k1)" "sched_ok k1" "sleepers_ok k1" "stat k1 p = SSLEEP"
    "wchan k1 p = c" "a_runout k1 = a_runout k" "loaded k1 p = loaded k p"
    "\<not> on_runq k1 p" "pri \<le> PZERO \<Longrightarrow> k1 = upd_u (\<lambda>v. v\<lparr>u_ru := (u_ru v)\<lparr>ru_nvcsw := wrap32 (ru_nvcsw (u_ru v) + 1)\<rparr>\<rparr>)
      (upd_proc p (\<lambda>q. q\<lparr>p_stat := SSLEEP\<rparr>) (enqueue c pri p k))"
    by (rule sleep_quiet [OF s assms(7,4,5,2) r(1) assms(3) r(2) q]) (rule that)
  note k18 = k1(9) [OF assms(8)]
  have pri: "p_pri (procs k1 p) \<le> PZERO" using assms(8) by (simp add: k18)
  have addr: "addrs_ok k1" using inv by (simp add: sig_inv_def addrs_ok_def k18)
  have "sig_inv k1"
    unfolding sig_inv_def
  proof (intro conjI allI impI)
    fix x assume "wchan k1 x = a_runout k1"
    then show "x = 0" using inv assms(6) by (auto simp: sig_inv_def k18 split: if_splits)
  next
    fix x assume "x \<noteq> 0 \<and> live k1 x"
    then show "p_pptr (procs k1 x) \<noteq> None" "p_pptr (procs k1 x) \<noteq> Some x"
      using inv r(1) by (auto simp: sig_inv_def live_def k18 split: if_splits)
  qed (use k1(2,3) addr inv r(3) in \<open>simp_all add: sig_inv_def k18\<close>)
  then have post: "\<exists>k2. post_all p sigs k1 = Some k2 \<and> (sig_inv k2 \<and> stat k2 p = SSLEEP \<and> p_pri (procs k2 p) \<le> PZERO \<and>
    wchan k2 p = c \<and> loaded k2 p = loaded k p \<and> a_runout k2 = a_runout k)" for sigs
    using post_all_undisturbed [OF _ k1(4) pri, of sigs] k1(5-7) by simp
  have "\<exists>k2. post_all p sigs k1 = Some k2 \<and> sig_inv k2 \<and> stat k2 p = SSLEEP \<and> wchan k2 p = c \<and>
       (\<exists>k3. wakeup c k2 = Some k3 \<and> stat k3 p = SRUN \<and> wchan k3 p = 0 \<and> (on_runq k3 p \<longleftrightarrow> loaded k p))" for sigs
  proof -
    obtain k2 where k2: "post_all p sigs k1 = Some k2" "sig_inv k2" "stat k2 p = SSLEEP" "wchan k2 p = c"
      "loaded k2 p = loaded k p" "a_runout k2 = a_runout k" using post by blast
    have ok: "sched_ok k2" "sleepers_ok k2" using k2(2) by (simp_all add: sig_inv_def)
    have "a_runout k2 \<noteq> 0" using k2(6) s(3) by simp
    from wakeup_sleeper [OF ok k2(3,4) assms(5) this] show ?thesis using k2 by auto
  qed
  then show ?thesis using k1(1) by blast
qed

theorem sleep_uninterruptible_witness:
  "\<exists>k1 k2 k3. sleep 0x80 20 demo_run = Some (SSwtch, k1) \<and> post_all (u_procp (u demo_run)) [SIGKILL, SIGSTOP] k1 = Some k2 \<and>
     stat k2 (u_procp (u demo_run)) = SSLEEP \<and> wakeup 0x80 k2 = Some k3 \<and> stat k3 (u_procp (u demo_run)) = SRUN"
proof -
  have "wchan demo_run (u_procp (u demo_run)) = 0" "\<not> panicstr demo_run" "0x80 \<noteq> a_runout demo_run" "a_runin demo_run \<noteq> 0"
    by (simp_all add: demo_run_def demo_sys_def demo_kern_def demo_proc_def demo_user_def)
  from sleep_uninterruptible [OF demo_run_running refl this(1,2) _ this(3,4), of 20] obtain k1 where
    "sleep 0x80 20 demo_run = Some (SSwtch, k1)"
    "\<forall>sigs. \<exists>k2. post_all (u_procp (u demo_run)) sigs k1 = Some k2 \<and> sig_inv k2 \<and>
       stat k2 (u_procp (u demo_run)) = SSLEEP \<and> wchan k2 (u_procp (u demo_run)) = 0x80 \<and>
       (\<exists>k3. wakeup 0x80 k2 = Some k3 \<and> stat k3 (u_procp (u demo_run)) = SRUN \<and> wchan k3 (u_procp (u demo_run)) = 0 \<and>
         (on_runq k3 (u_procp (u demo_run)) \<longleftrightarrow> loaded demo_run (u_procp (u demo_run))))" by auto
  then show ?thesis by blast
qed

section \<open>schedcpu\<close>

lemma sig_inv_keep:
  assumes "sig_inv k" "\<And>q. p_wchan (f q) = p_wchan q" "\<And>q. p_stat (f q) = p_stat q" "\<And>q. p_link (f q) = p_link q"
    and "\<And>q. p_flag (f q) = p_flag q" "\<And>q. p_pptr (f q) = p_pptr q" "\<And>q. p_ppid (f q) = p_ppid q"
    and "\<And>q. p_pgrp (f q) = p_pgrp q"
  shows "sig_inv (upd_proc p f k)"
proof -
  have "sched_ok (upd_proc p f k)" by (rule sched_ok_upd) (use assms in \<open>simp_all add: sig_inv_def\<close>)
  moreover have "sleepers_ok (upd_proc p f k)" by (rule sleepers_ok_upd) (use assms in \<open>simp_all add: sig_inv_def\<close>)
  ultimately show ?thesis using assms by (simp add: sig_inv_def live_def)
qed

lemma sig_inv_runrun: "sig_inv (k\<lparr>runrun := r\<rparr>) = sig_inv k" "sig_inv (k\<lparr>k_runin := b\<rparr>) = sig_inv k"
  by (simp_all add: sig_inv_def sched_ok_def queues_def sleepers_ok_def addrs_ok_def live_def)

text \<open>\<open>stepped A k k'\<close>: the real-time timers of the processes in \<open>A\<close> have made one step, the others
  none; a timer that ran out has posted its signal, and no pending signal is lost.\<close>

definition stepped :: "nat set \<Rightarrow> 'a kern_scheme \<Rightarrow> 'a kern_scheme \<Rightarrow> bool" where
  "stepped A k k' \<longleftrightarrow> (sig_inv k \<longrightarrow> sig_inv k') \<and> kern.more k' = kern.more k \<and>
     a_runin k' = a_runin k \<and>
     (\<forall>q. p_sigignore (procs k' q) = p_sigignore (procs k q) \<and>
       p_realtimer (procs k' q) = (if q \<in> A then timer_step (p_realtimer (procs k q)) else p_realtimer (procs k q)) \<and>
       (\<forall>s. has_sig (p_sig (procs k q)) s \<longrightarrow> has_sig (p_sig (procs k' q)) s) \<and>
       (q \<in> A \<and> it_value (p_realtimer (procs k q)) = 1 \<and> \<not> has_sig (p_sigignore (procs k q)) SIGALRM \<longrightarrow>
          has_sig (p_sig (procs k' q)) SIGALRM))"

lemma stepped_trans:
  assumes "stepped A k k'" "stepped B k' k''" "A \<inter> B = {}"
  shows "stepped (A \<union> B) k k''"
  unfolding stepped_def
proof (intro conjI allI)
  show "sig_inv k \<longrightarrow> sig_inv k''" "kern.more k'' = kern.more k" "a_runin k'' = a_runin k"
    using assms(1,2) by (simp_all add: stepped_def)
  fix q
  have q: "p_sigignore (procs k' q) = p_sigignore (procs k q)"
    "p_realtimer (procs k' q) = (if q \<in> A then timer_step (p_realtimer (procs k q)) else p_realtimer (procs k q))"
    "\<forall>s. has_sig (p_sig (procs k q)) s \<longrightarrow> has_sig (p_sig (procs k' q)) s"
    "q \<in> A \<and> it_value (p_realtimer (procs k q)) = 1 \<and> \<not> has_sig (p_sigignore (procs k q)) SIGALRM \<longrightarrow>
      has_sig (p_sig (procs k' q)) SIGALRM"
    "p_sigignore (procs k'' q) = p_sigignore (procs k' q)"
    "p_realtimer (procs k'' q) = (if q \<in> B then timer_step (p_realtimer (procs k' q)) else p_realtimer (procs k' q))"
    "\<forall>s. has_sig (p_sig (procs k' q)) s \<longrightarrow> has_sig (p_sig (procs k'' q)) s"
    "q \<in> B \<and> it_value (p_realtimer (procs k' q)) = 1 \<and> \<not> has_sig (p_sigignore (procs k' q)) SIGALRM \<longrightarrow>
      has_sig (p_sig (procs k'' q)) SIGALRM"
    using assms(1,2) by (auto simp: stepped_def)
  have d: "\<not> (q \<in> A \<and> q \<in> B)" using assms(3) by blast
  show "p_sigignore (procs k'' q) = p_sigignore (procs k q)" using q(1,5) by simp
  show "p_realtimer (procs k'' q) = (if q \<in> A \<union> B then timer_step (p_realtimer (procs k q)) else p_realtimer (procs k q))"
    using q(2,6) d by auto
  show "has_sig (p_sig (procs k q)) s \<longrightarrow> has_sig (p_sig (procs k'' q)) s" for s using q(3,7) by blast
  show "q \<in> A \<union> B \<and> it_value (p_realtimer (procs k q)) = 1 \<and> \<not> has_sig (p_sigignore (procs k q)) SIGALRM \<longrightarrow>
      has_sig (p_sig (procs k'' q)) SIGALRM"
    using q d by (cases "q \<in> A") auto
qed

lemma stepped_upd:
  assumes "\<And>q. p_wchan (f q) = p_wchan q" "\<And>q. p_stat (f q) = p_stat q" "\<And>q. p_link (f q) = p_link q"
    and "\<And>q. p_flag (f q) = p_flag q" "\<And>q. p_pptr (f q) = p_pptr q" "\<And>q. p_ppid (f q) = p_ppid q"
    and "\<And>q. p_pgrp (f q) = p_pgrp q" "\<And>q. p_sig (f q) = p_sig q" "\<And>q. p_sigignore (f q) = p_sigignore q"
    and "\<And>q. p_realtimer (f q) = p_realtimer q"
  shows "stepped {} k (upd_proc p f k)"
  using sig_inv_keep [of k f p] assms by (simp add: stepped_def)

lemma stepped_core:
  assumes "same_core k k'" "kern.more k' = kern.more k" "sig_inv k \<longrightarrow> sig_inv k'"
  shows "stepped {} k k'"
proof -
  have "p_sigignore (procs k' q) = p_sigignore (procs k q) \<and> p_realtimer (procs k' q) = p_realtimer (procs k q) \<and>
    p_sig (procs k' q) = p_sig (procs k q)" for q
    using assms(1) by (simp add: same_core_def core_of_def)
  then show ?thesis using assms by (simp add: stepped_def same_core_def)
qed

lemma stepped_wakeup:
  assumes "sig_inv k" "c \<noteq> 0"
  obtains k' where "wakeup c k = Some k'" "stepped {} k k'" "sig_inv k'"
proof -
  have s: "sched_ok k" "sleepers_ok k" "a_runout k \<noteq> 0" using assms by (simp_all add: sig_inv_def addrs_ok_def)
  obtain k' where w: "wakeup c k = Some k'" "sched_ok k'" "sleepers_ok k'"
    "woke (if k_runout k then {c, a_runout k} else {c}) k k'"
    using wakeup_ok [OF s(1,2) assms(2) s(3)] by metis
  have i: "sig_inv k'" by (rule sig_frame_inv [OF assms(1) woke_frame [OF w(4)] w(2,3)])
  moreover have "same_core k k'" using w(4) by (simp add: woke_def)
  ultimately have "stepped {} k k'" using stepped_core wakeup_more [OF w(1)] by blast
  then show thesis using that w(1) i by blast
qed

lemma real_timer_ok:
  assumes "sig_inv k" "0 \<le> it_value (p_realtimer (procs k p))" "it_value (p_realtimer (procs k p)) \<le> 0x7fffffff"
  obtains k' where "real_timer p k = Some k'" "stepped {p} k k'" "sig_inv k'"
proof -
  let ?t = "p_realtimer (procs k p)"
  define k1 where "k1 = upd_proc p (\<lambda>q. q\<lparr>p_realtimer := (p_realtimer q)
             \<lparr>it_value := wrap32 (it_value (p_realtimer q) - 1)\<rparr>\<rparr>) k"
  have w: "wrap32 (it_value ?t - 1) = it_value ?t - 1" using assms(2,3) by (simp add: int32_def)
  have i1: "sig_inv k1" unfolding k1_def by (rule sig_inv_keep [OF assms(1)]) simp_all
  consider "it_value ?t = 0" | "it_value ?t = 1" | "it_value ?t \<noteq> 0" "it_value ?t \<noteq> 1" by blast
  then show thesis
  proof cases
    case 1
    then have "stepped {p} k k" by (auto simp: stepped_def timer_step_def)
    then show thesis using that [of k] 1 assms(1) by (simp add: real_timer_def)
  next
    case 2
    have "\<not> is_stop SIGALRM" by (simp add: is_stop_def)
    then obtain k2 where k2: "psignal p SIGALRM k1 = Some k2" "posted SIGALRM p k1 k2"
      using psignal_plain [OF i1] by blast
    define k3 where "k3 = upd_proc p (\<lambda>q. q\<lparr>p_realtimer := (p_realtimer q)\<lparr>it_value := it_interval (p_realtimer q)\<rparr>\<rparr>) k2"
    have i2: "sig_inv k2" using k2(2) by (simp add: posted_def)
    have i3: "sig_inv k3" unfolding k3_def by (rule sig_inv_keep [OF i2]) simp_all
    have id: "p_realtimer (procs k2 q) = p_realtimer (procs k1 q) \<and> p_sigignore (procs k2 q) = p_sigignore (procs k1 q)" for q
      using k2(2) by (simp add: posted_def sig_frame_def ident_def)
    have oth: "p_sig (procs k2 q) = p_sig (procs k1 q)" if "q \<noteq> p" for q
      using k2(2) that by (simp add: posted_def others_same_def core_of_def)
    have nq: "\<not> quiet_sig SIGALRM" by (simp add: quiet_sig_def)
    have ps: "p_sig (procs k2 p) = sig_after SIGALRM (psig_action SIGALRM (procs k1 p)) (procs k1 p)"
      using k2(2) by (simp add: posted_def)
    have mono: "has_sig (p_sig (procs k1 p)) s \<Longrightarrow> has_sig (p_sig (procs k2 p)) s" for s
      unfolding ps sig_after_def using nq by (auto simp: psig_post_sig is_stop_def split: option.splits)
    have alarm: "\<not> has_sig (p_sigignore (procs k1 p)) SIGALRM \<Longrightarrow> has_sig (p_sig (procs k2 p)) SIGALRM"
      unfolding ps sig_after_def psig_action_has using nq by (auto simp: psig_post_sig is_stop_def split: option.splits)
    have "real_timer p k = Some k3"
      using 2 k2(1) w by (simp add: real_timer_def Let_def k1_def [symmetric] k3_def [symmetric]) (simp add: k1_def)
    moreover have "stepped {p} k k3"
    proof -
      have more: "kern.more k3 = kern.more k" using psignal_more [OF k2(1)] by (simp add: k3_def k1_def)
      have runin: "a_runin k3 = a_runin k" using k2(2)
        by (simp add: k3_def k1_def posted_def sig_frame_def globals_of_def)
      have k: "p_sig (procs k1 q) = p_sig (procs k q)" "p_sigignore (procs k1 q) = p_sigignore (procs k q)"
        "p_sig (procs k3 q) = p_sig (procs k2 q)" "p_sigignore (procs k3 q) = p_sigignore (procs k2 q)" for q
        by (simp_all add: k1_def k3_def)
      have timer: "p_realtimer (procs k3 q) = (if q = p then timer_step (p_realtimer (procs k q)) else p_realtimer (procs k q))" for q
      proof (cases "q = p")
        case True
        then have "p_realtimer (procs k2 p) = ?t\<lparr>it_value := wrap32 (it_value ?t - 1)\<rparr>" using id [of p] by (simp add: k1_def)
        then show ?thesis using True 2 by (simp add: k3_def timer_step_def)
      next
        case False
        then show ?thesis using id [of q] by (simp add: k3_def k1_def)
      qed
      have keeps: "has_sig (p_sig (procs k q)) s \<Longrightarrow> has_sig (p_sig (procs k3 q)) s" for q s
        using mono [of s] oth [of q] k [of q] by (cases "q = p") auto
      show ?thesis unfolding stepped_def
        using i3 more runin timer keeps alarm id k by auto
    qed
    ultimately show thesis using that i3 by blast
  next
    case 3
    then have "real_timer p k = Some k1" using w by (simp add: real_timer_def Let_def k1_def)
    moreover have "stepped {p} k k1" using 3 i1 w by (simp add: stepped_def k1_def timer_step_def)
    ultimately show thesis using that i1 by blast
  qed
qed

lemma schedcpu_proc_ok:
  assumes "sig_inv k" "0 \<le> it_value (p_realtimer (procs k p))" "it_value (p_realtimer (procs k p)) \<le> 0x7fffffff"
  obtains k' where "schedcpu_proc p k = Some k'" "stepped {p} k k'" "sig_inv k'"
proof -
  define k0 where "k0 = upd_proc p (\<lambda>q. q\<lparr>p_time := char_inc (p_time q)\<rparr>) k"
  have s0: "stepped {} k k0" unfolding k0_def by (rule stepped_upd) simp_all
  have i0: "sig_inv k0" "0 \<le> it_value (p_realtimer (procs k0 p))" "it_value (p_realtimer (procs k0 p)) \<le> 0x7fffffff"
    using s0 assms by (simp_all add: stepped_def k0_def)
  obtain k1 where k1: "real_timer p k0 = Some k1" "stepped {p} k0 k1" "sig_inv k1" by (rule real_timer_ok [OF i0])
  define k2 where "k2 = upd_proc p age k1"
  have s2: "stepped {} k1 k2" unfolding k2_def by (rule stepped_upd) (simp_all add: age_def)
  define k3 where "k3 = upd_proc p (\<lambda>q. q\<lparr>p_cpu := word_of_int (decay q)\<rparr>) k2"
  have s3: "stepped {} k2 k3" unfolding k3_def by (rule stepped_upd) simp_all
  define k4 where "k4 = (if p_pri (procs k3 p) \<ge> PUSER then snd (setpri p k3) else k3)"
  have s4: "stepped {} k3 k4"
  proof (cases "p_pri (procs k3 p) \<ge> PUSER")
    case True
    obtain pri rr where e: "k4 = (upd_proc p (\<lambda>q. q\<lparr>p_pri := pri\<rparr>) k3)\<lparr>runrun := rr\<rparr>"
      using setpri_fields [of p k3] True by (auto simp: k4_def)
    have "stepped {} k3 (upd_proc p (\<lambda>q. q\<lparr>p_pri := pri\<rparr>) k3)" by (rule stepped_upd) simp_all
    then show ?thesis unfolding e by (simp add: stepped_def sig_inv_runrun)
  next
    case False
    then show ?thesis by (simp add: k4_def stepped_def)
  qed
  have s02: "stepped {p} k k2"
    using stepped_trans [OF stepped_trans [OF s0 k1(2)] s2] by simp
  have e: "schedcpu_proc p k = Some (if p_slptime (procs k2 p) > 1 then k2 else k4)"
    unfolding schedcpu_proc_def k0_def [symmetric] k1(1) Let_def Option.bind.simps k2_def [symmetric] k3_def [symmetric]
      k4_def [symmetric] by simp
  have "stepped {p} k (if p_slptime (procs k2 p) > 1 then k2 else k4)"
    using s02 stepped_trans [OF stepped_trans [OF s02 s3] s4] by simp
  then show thesis using that [OF e] assms(1) by (simp add: stepped_def)
qed

lemma schedcpu_fold:
  assumes "sig_inv k" "distinct ps"
    and "\<forall>q. 0 \<le> it_value (p_realtimer (procs k q)) \<and> it_value (p_realtimer (procs k q)) \<le> 0x7fffffff"
  shows "\<exists>k'. fold (\<lambda>p st. Option.bind st (schedcpu_proc p)) ps (Some k) = Some k' \<and> stepped (set ps) k k' \<and> sig_inv k'"
  using assms
proof (induction ps arbitrary: k rule: rev_induct)
  case Nil
  then show ?case by (simp add: stepped_def)
next
  case (snoc p ps)
  obtain k1 where k1: "fold (\<lambda>p st. Option.bind st (schedcpu_proc p)) ps (Some k) = Some k1" "stepped (set ps) k k1" "sig_inv k1"
    using snoc by auto
  have "p_realtimer (procs k1 p) = p_realtimer (procs k p)" using k1(2) snoc.prems(2) by (simp add: stepped_def)
  then obtain k2 where k2: "schedcpu_proc p k1 = Some k2" "stepped {p} k1 k2" "sig_inv k2"
    using schedcpu_proc_ok [OF k1(3), of p] snoc.prems(3) by metis
  have "stepped (set ps \<union> {p}) k k2" by (rule stepped_trans [OF k1(2) k2(2)]) (use snoc.prems(2) in simp)
  then show ?case using k1(1) k2 by simp
qed

lemma sig_inv_cong:
  "procs k' = procs k \<Longrightarrow> qs k' = qs k \<Longrightarrow> slpque k' = slpque k \<Longrightarrow> a_runout k' = a_runout k \<Longrightarrow>
   a_proc k' = a_proc k \<Longrightarrow> sig_inv k' = sig_inv k"
  by (simp add: sig_inv_def sched_ok_def queues_def sleepers_ok_def addrs_ok_def live_def)

lemma more_clk:
  "kern.more k' = kern.more (k :: 'a clk_scheme) \<Longrightarrow>
   callouts k' = callouts k \<and> calltodo k' = calltodo k \<and> callfree k' = callfree k"
  by (cases k; cases k') simp

lemma set_next_kern [simp]:
  "procs (set_next p v k) = procs k" "qs (set_next p v k) = qs k" "slpque (set_next p v k) = slpque k"
  "a_runout (set_next p v k) = a_runout k" "a_proc (set_next p v k) = a_proc k"
  by (cases p; simp add: upd_callout_def)+

lemma upd_callout_kern [simp]:
  "procs (upd_callout i f k) = procs k" "qs (upd_callout i f k) = qs k" "slpque (upd_callout i f k) = slpque k"
  "a_runout (upd_callout i f k) = a_runout k" "a_proc (upd_callout i f k) = a_proc k"
  by (simp_all add: upd_callout_def)

lemma timeout_kern:
  "timeout f a t k = Some k' \<Longrightarrow> procs k' = procs k \<and> qs k' = qs k \<and> slpque k' = slpque k \<and>
     a_runout k' = a_runout k \<and> a_proc k' = a_proc k"
  by (auto simp: timeout_def Let_def bind_eq_Some_conv split: option.splits)

text \<open>C15: Once a second schedcpu steps the real-time timer of every process once, and of no other: one
  that runs out is reloaded and its SIGALRM is pending unless the process ignores it. It never
  panics and sets itself a timeout for the next second.\<close>

theorem schedcpu_alarms:
  assumes "sig_inv k" "list_from (allproc k) k = Some ps" "pending m (Suc n) k L"
    and "\<forall>q. 0 \<le> it_value (p_realtimer (procs k q)) \<and> it_value (p_realtimer (procs k q)) \<le> 0x7fffffff"
    and "a_lbolt k \<noteq> 0" "a_runin k \<noteq> 0" "\<forall>k. \<exists>v. vmmeter k = k\<lparr>clk.more := v\<rparr>"
  shows "\<exists>k'. schedcpu vmmeter a_schedcpu k = Some k' \<and> sig_inv k' \<and>
    pending m n k' (insert_due LINEHZ (a_schedcpu, 0) L) \<and>
    (\<forall>q. p_realtimer (procs k' q) = (if q \<in> set ps then timer_step (p_realtimer (procs k q)) else p_realtimer (procs k q))) \<and>
    (\<forall>q \<in> set ps. it_value (p_realtimer (procs k q)) = 1 \<and> \<not> has_sig (p_sigignore (procs k q)) SIGALRM \<longrightarrow>
       has_sig (p_sig (procs k' q)) SIGALRM)"
proof -
  obtain k1 where k1: "wakeup (a_lbolt k) k = Some k1" "stepped {} k k1" "sig_inv k1"
    by (rule stepped_wakeup [OF assms(1,5)])
  have c1: "same_core k k1"
  proof -
    have "sched_ok k" "sleepers_ok k" "a_runout k \<noteq> 0" using assms(1) by (simp_all add: sig_inv_def addrs_ok_def)
    then show ?thesis using wakeup_ok [of k "a_lbolt k"] assms(5) k1(1) unfolding woke_def by (metis option.sel)
  qed
  have "p_nxt (procs k1 q) = p_nxt (procs k q)" for q using c1 by (simp add: same_core_def core_of_def)
  then have ps: "list_from (allproc k1) k1 = Some ps" using assms(2) c1 by (simp add: list_from_def same_core_def)
  have d: "distinct ps" using assms(2) walk_lpath lpath_distinct unfolding list_from_def by blast
  have rng: "\<forall>q. 0 \<le> it_value (p_realtimer (procs k1 q)) \<and> it_value (p_realtimer (procs k1 q)) \<le> 0x7fffffff"
    using assms(4) k1(2) by (simp add: stepped_def)
  obtain k2 where k2: "fold (\<lambda>p st. Option.bind st (schedcpu_proc p)) ps (Some k1) = Some k2"
    "stepped (set ps) k1 k2" "sig_inv k2"
    using schedcpu_fold [OF k1(3) d rng] by blast
  have s2: "stepped (set ps) k k2" using stepped_trans [OF k1(2) k2(2)] by simp
  obtain v where v: "vmmeter k2 = k2\<lparr>clk.more := v\<rparr>" using assms(7) by blast
  define k3 where "k3 = k2\<lparr>clk.more := v\<rparr>"
  have i3: "sig_inv k3" using k2(3) sig_inv_cong [of k3 k2] by (simp add: k3_def)
  have p3: "procs k3 = procs k2" "callouts k3 = callouts k2" "calltodo k3 = calltodo k2" "callfree k3 = callfree k2"
    "a_runin k3 = a_runin k2" by (simp_all add: k3_def)
  have nz: "a_runin k3 \<noteq> 0" using s2 assms(6) p3(5) by (simp add: stepped_def)
  obtain k4 where k4: "(if k_runin k3 then wakeup (a_runin k3) (k3\<lparr>k_runin := False\<rparr>) else Some k3) = Some k4"
    "sig_inv k4" "\<And>q. p_realtimer (procs k4 q) = p_realtimer (procs k3 q)"
    "\<And>q s. has_sig (p_sig (procs k3 q)) s \<Longrightarrow> has_sig (p_sig (procs k4 q)) s" "kern.more k4 = kern.more k3"
  proof (cases "k_runin k3")
    case True
    have "sig_inv (k3\<lparr>k_runin := False\<rparr>)" using i3 by (simp add: sig_inv_runrun)
    then obtain k4 where "wakeup (a_runin k3) (k3\<lparr>k_runin := False\<rparr>) = Some k4" "sig_inv k4"
      "stepped {} (k3\<lparr>k_runin := False\<rparr>) k4" using stepped_wakeup [OF _ nz] by metis
    then show thesis using that [of k4] True by (simp add: stepped_def)
  next
    case False
    then show thesis using that [of k3] i3 by simp
  qed
  define k5 where "k5 = k4\<lparr>runrun := runrun k4 + 1\<rparr>"
  have "callouts k5 = callouts k \<and> calltodo k5 = calltodo k \<and> callfree k5 = callfree k"
    using more_clk [OF k4(5)] more_clk [of k2 k] s2 p3 by (simp add: stepped_def k5_def)
  then have "pending m (Suc n) k5 L" using assms(3) pending_cong [of k5 k] by simp
  then obtain k6 where k6: "timeout a_schedcpu 0 60 k5 = Some k6" "pending m n k6 (insert_due (max 1 60) (a_schedcpu, 0) L)"
    using timeout_pending [of m n k5 L 60 a_schedcpu 0] by auto
  have p6: "procs k6 = procs k4" "sig_inv k6"
    using timeout_kern [OF k6(1)] k4(2) sig_inv_cong [of k6 k4] by (simp_all add: k5_def)
  have "schedcpu vmmeter a_schedcpu k = Some k6"
    unfolding schedcpu_def k1(1) Option.bind.simps ps k2(1) Let_def v k3_def [symmetric] k4(1) k5_def [symmetric] by (rule k6(1))
  moreover have "p_realtimer (procs k6 q) = (if q \<in> set ps then timer_step (p_realtimer (procs k q)) else p_realtimer (procs k q))" for q
    using s2 by (simp add: p6(1) k4(3) p3(1) stepped_def)
  moreover have "has_sig (p_sig (procs k6 q)) SIGALRM"
    if "q \<in> set ps" "it_value (p_realtimer (procs k q)) = 1" "\<not> has_sig (p_sigignore (procs k q)) SIGALRM" for q
    using s2 that k4(4) [of q SIGALRM] by (simp add: p6(1) p3(1) stepped_def)
  ultimately show ?thesis using k6(2) p6(2) by (intro exI [of _ k6]) simp
qed

definition demo_second :: "event list clk_scheme" where
  "demo_second = clk.extend (kern.extend
     (upd_proc 2 (\<lambda>q. q\<lparr>p_realtimer := \<lparr>it_interval = 10, it_value = 1\<rparr>\<rparr>) demo_sys) (kern.more demo_clk0)) []"

theorem schedcpu_alarms_witness:
  "\<exists>k'. schedcpu (\<lambda>k. k) 0x200 demo_second = Some k' \<and>
     p_realtimer (procs k' 2) = \<lparr>it_interval = 10, it_value = 10\<rparr> \<and> has_sig (p_sig (procs k' 2)) SIGALRM"
proof -
  have "sig_inv (upd_proc 2 (\<lambda>q. q\<lparr>p_realtimer := \<lparr>it_interval = 10, it_value = 1\<rparr>\<rparr>) demo_sys)"
    by (rule sig_inv_keep [OF demo_sys_inv]) simp_all
  then have i: "sig_inv demo_second"
    by (simp add: sig_inv_def sched_ok_def queues_def sleepers_ok_def addrs_ok_def live_def demo_second_def kern.defs clk.defs)
  have pr: "procs demo_second = (procs demo_sys)(2 := (procs demo_sys 2)\<lparr>p_realtimer := \<lparr>it_interval = 10, it_value = 1\<rparr>\<rparr>)"
    by (simp add: demo_second_def kern.defs clk.defs)
  have nx: "allproc demo_second = Some 1" "nproc demo_second = 8" "p_nxt (procs demo_second 1) = Some 2"
    "p_nxt (procs demo_second 2) = Some 3" "p_nxt (procs demo_second 3) = None"
    by (simp_all add: demo_second_def demo_sys_def demo_kern_def demo_proc_def kern.defs clk.defs)
  have "lpath (\<lambda>q. p_nxt (procs demo_second q)) (allproc demo_second) [1, 2, 3]" using nx by simp
  from walk_enough [OF this, of 8] have ps: "list_from (allproc demo_second) demo_second = Some [1, 2, 3]"
    by (simp add: list_from_def nx(2))
  have "callouts demo_second = callouts demo_clk" "calltodo demo_second = calltodo demo_clk" "callfree demo_second = callfree demo_clk"
    by (simp_all add: demo_second_def demo_clk_def demo_clk0_def kern.defs clk.defs)
  then have p: "pending 0 (Suc 3) demo_second []" using demo_pending pending_cong [of demo_second demo_clk] by simp
  have rng: "\<forall>q. 0 \<le> it_value (p_realtimer (procs demo_second q)) \<and> it_value (p_realtimer (procs demo_second q)) \<le> 0x7fffffff"
    by (simp add: pr demo_sys_def demo_kern_def demo_proc_def)
  have a: "a_lbolt demo_second \<noteq> 0" "a_runin demo_second \<noteq> 0"
    by (simp_all add: demo_second_def demo_sys_def demo_kern_def kern.defs clk.defs)
  have vm: "\<forall>k :: event list clk_scheme. \<exists>v. k = k\<lparr>clk.more := v\<rparr>"
  proof
    fix k :: "event list clk_scheme"
    have "k = k\<lparr>clk.more := clk.more k\<rparr>" by simp
    then show "\<exists>v. k = k\<lparr>clk.more := v\<rparr>" by blast
  qed
  have two: "p_realtimer (procs demo_second 2) = \<lparr>it_interval = 10, it_value = 1\<rparr>"
    "p_sigignore (procs demo_second 2) = 0"
    by (simp_all add: pr demo_sys_def demo_kern_def demo_proc_def)
  obtain k' where "schedcpu (\<lambda>k. k) 0x200 demo_second = Some k'"
    "\<forall>q. p_realtimer (procs k' q) = (if q \<in> set [1, 2, 3] then timer_step (p_realtimer (procs demo_second q))
       else p_realtimer (procs demo_second q))"
    "\<forall>q \<in> set [1, 2, 3]. it_value (p_realtimer (procs demo_second q)) = 1 \<and>
       \<not> has_sig (p_sigignore (procs demo_second q)) SIGALRM \<longrightarrow> has_sig (p_sig (procs k' q)) SIGALRM"
    using schedcpu_alarms [OF i ps p rng a vm, of "0x200"] by blast
  then show ?thesis using two by (intro exI [of _ k']) (auto simp: timer_step_def)
qed

end
