(* ===== verification/Inode.thy ===== *)
theory Inode imports Kern begin

text \<open>
  The in-core inode (inode.h), as far as the modelled routines use it: flags, device, advisory locks,
  owner, mode, size and disk addresses. \<open>i_rdev\<close>, the device a special file stands for, shares its place
  with the disk addresses in C; no file uses both. Uids and gids are ints from 0 to 65535, as \<open>uid_t\<close> and \<open>gid_t\<close> are.
\<close>

record inode =
  i_flag :: u_int
  i_count :: u_int
  i_dev :: u_int
  i_shlockc :: u_int
  i_exlockc :: u_int
  i_number :: u_int
  i_rdev :: u_int
  i_mode :: u_int
  i_nlink :: u_int
  i_uid :: int
  i_gid :: int
  i_size :: int
  i_atime :: int
  i_mtime :: int
  i_ctime :: int
  i_addr :: "int list"

abbreviation (input) "IUPD \<equiv> 0x2 :: u_int"
abbreviation (input) "IACC \<equiv> 0x4 :: u_int"
abbreviation (input) "ITEXT \<equiv> 0x20 :: u_int"
abbreviation (input) "ICHG \<equiv> 0x40 :: u_int"
abbreviation (input) "IMOD \<equiv> 0x400 :: u_int"
abbreviation (input) "ISHLOCK \<equiv> 0x80 :: u_int"
abbreviation (input) "IEXLOCK \<equiv> 0x100 :: u_int"
abbreviation (input) "ILWAIT \<equiv> 0x200 :: u_int"
abbreviation (input) "IFMT \<equiv> 0xf000 :: u_int"
abbreviation (input) "IFCHR \<equiv> 0x2000 :: u_int"
abbreviation (input) "IFBLK \<equiv> 0x6000 :: u_int"
abbreviation (input) "IFDIR \<equiv> 0x4000 :: u_int"
abbreviation (input) "IFREG \<equiv> 0x8000 :: u_int"
abbreviation (input) "IREAD \<equiv> 0x100 :: u_int"
abbreviation (input) "IWRITE \<equiv> 0x80 :: u_int"
abbreviation (input) "IEXEC \<equiv> 0x40 :: u_int"

text \<open>\<open>ITIMES(ip, &time, &time)\<close>.\<close>

definition ITIMES :: "int \<Rightarrow> inode \<Rightarrow> inode" where
  "ITIMES now ip =
     (if flag (i_flag ip) (or IUPD (or IACC ICHG)) then
        ip\<lparr>i_atime := (if flag (i_flag ip) IACC then now else i_atime ip),
           i_mtime := (if flag (i_flag ip) IUPD then now else i_mtime ip),
           i_ctime := (if flag (i_flag ip) ICHG then now else i_ctime ip),
           i_flag := clr_flag (or IACC (or IUPD ICHG)) (set_flag IMOD (i_flag ip))\<rparr>
      else ip)"

end
