(* ===== verification/Cred.thy ===== *)
theory Cred imports Sched Inode begin

text \<open>
  Who may do what: \<open>src/sys/sys/kern_prot.c\<close> (user and group ids, process groups) and the checks of
  \<open>src/sys/sys/ufs_fio.c\<close>. An int argument is compared with and assigned to a 16-bit unsigned id
  modulo 65536.
\<close>

abbreviation (input) "NGROUPS \<equiv> 16 :: nat"
abbreviation (input) "NOGROUP \<equiv> 65535 :: int"
abbreviation (input) "ASU \<equiv> 2 :: u_char"

definition id16 :: "int \<Rightarrow> int" where
  "id16 x = x mod 65536"

section \<open>The super-user, and access to a file\<close>

definition suser :: "'a kern_scheme \<Rightarrow> bool \<times> 'a kern_scheme" where
  "suser k = (if u_uid (u k) = 0 then (True, upd_u (\<lambda>v. v\<lparr>u_acflag := or (u_acflag v) ASU\<rparr>) k)
     else (False, set_error EPERM k))"

text \<open>The members of the group set stop at the first \<open>NOGROUP\<close>.\<close>

definition in_groups :: "int \<Rightarrow> int list \<Rightarrow> bool" where
  "in_groups gid gs \<longleftrightarrow> gid \<in> set (takeWhile (\<lambda>g. g \<noteq> NOGROUP) gs)"

definition groupmember :: "int \<Rightarrow> 'a kern_scheme \<Rightarrow> bool" where
  "groupmember gid k \<longleftrightarrow> u_gid (u k) = gid \<or> in_groups gid (u_groups (u k))"

text \<open>\<open>access\<close>: the result is true when access is refused. \<open>fs_ronly\<close> is the flag of the inode's file
  system, \<open>xuntext\<close> (vm_text.c) tries to free the text segment, which clears \<open>ITEXT\<close>.\<close>

definition access ::
  "(inode \<Rightarrow> inode) \<Rightarrow> bool \<Rightarrow> u_int \<Rightarrow> inode \<Rightarrow> 'a kern_scheme \<Rightarrow> bool \<times> inode \<times> 'a kern_scheme" where
  "access xuntext fs_ronly mode ip k =
     (let fmt = and (i_mode ip) IFMT;
          ip' = (if mode = IWRITE \<and> flag (i_flag ip) ITEXT then xuntext ip else ip) in
      if mode = IWRITE \<and> fs_ronly \<and> fmt \<noteq> IFCHR \<and> fmt \<noteq> IFBLK then (True, ip, set_error EROFS k)
      else if mode = IWRITE \<and> flag (i_flag ip') ITEXT then (True, ip', set_error ETXTBSY k)
      else if u_uid (u k) = 0 then (False, ip', k)
      else
        let m = (if u_uid (u k) = i_uid ip' then mode
                 else if u_gid (u k) = i_gid ip' \<or> in_groups (i_gid ip') (u_groups (u k)) then drop_bit 3 mode
                 else drop_bit 3 (drop_bit 3 mode))
        in if and (i_mode ip') m \<noteq> 0 then (False, ip', k) else (True, ip', set_error EACCES k))"

text \<open>\<open>owner\<close>, behind the lookup of the name: \<open>None\<close> for no inode, \<open>iput\<close> releases it.\<close>

definition owner ::
  "(inode \<Rightarrow> 'a kern_scheme \<Rightarrow> 'a kern_scheme) \<Rightarrow> inode option \<Rightarrow> 'a kern_scheme \<Rightarrow> inode option \<times> 'a kern_scheme" where
  "owner iput found k = (case found of None \<Rightarrow> (None, k)
     | Some ip \<Rightarrow>
        (if u_uid (u k) = i_uid ip then (Some ip, k)
         else case suser k of (True, k1) \<Rightarrow> (Some ip, k1) | (False, k1) \<Rightarrow> (None, iput ip k1)))"

section \<open>Asking for ids\<close>

definition getpid :: "'a kern_scheme \<Rightarrow> 'a kern_scheme" where
  "getpid k = (let p = procs k (u_procp (u k)) in upd_u (\<lambda>v. v\<lparr>r_val1 := p_pid p, r_val2 := p_ppid p\<rparr>) k)"

definition getpgrp :: "int \<Rightarrow> 'a kern_scheme \<Rightarrow> 'a kern_scheme option" where
  "getpgrp pid0 k =
     (let pid = (if pid0 = 0 then p_pid (procs k (u_procp (u k))) else pid0) in
      map_option (\<lambda>r. case r of None \<Rightarrow> set_error ESRCH k
        | Some p \<Rightarrow> upd_u (\<lambda>v. v\<lparr>r_val1 := p_pgrp (procs k p)\<rparr>) k) (pfind pid k))"

definition getuid :: "'a kern_scheme \<Rightarrow> 'a kern_scheme" where
  "getuid = upd_u (\<lambda>v. v\<lparr>r_val1 := u_ruid v, r_val2 := u_uid v\<rparr>)"

definition getgid :: "'a kern_scheme \<Rightarrow> 'a kern_scheme" where
  "getgid = upd_u (\<lambda>v. v\<lparr>r_val1 := u_rgid v, r_val2 := u_gid v\<rparr>)"

text \<open>The number of entries up to the last one that is not \<open>NOGROUP\<close>.\<close>

definition ngroups :: "int list \<Rightarrow> nat" where
  "ngroups gs = length (dropWhile (\<lambda>g. g = NOGROUP) (rev gs))"

definition getgroups :: "u_int \<Rightarrow> u_int \<Rightarrow> 'a kern_scheme \<Rightarrow> 'a kern_scheme" where
  "getgroups gidsetsize gidset k =
     (let n = ngroups (u_groups (u k)) in
      if unat gidsetsize < n then set_error EINVAL k
      else let (e, m) = copyout_words (umem k) gidset (map word_of_int (take n (u_groups (u k))));
               k1 = set_error e (k\<lparr>umem := m\<rparr>)
        in if e \<noteq> NOERR then k1 else upd_u (\<lambda>v. v\<lparr>r_val1 := int n\<rparr>) k1)"

section \<open>The group set\<close>

definition leave_list :: "int \<Rightarrow> int list \<Rightarrow> int list" where
  "leave_list gid gs = (if gid \<in> set gs then remove1 gid gs @ [NOGROUP] else gs)"

definition leavegroup :: "int \<Rightarrow> 'a kern_scheme \<Rightarrow> 'a kern_scheme" where
  "leavegroup gid = upd_u (\<lambda>v. v\<lparr>u_groups := leave_list (id16 gid) (u_groups v)\<rparr>)"

text \<open>The loop of entergroup: 0 or -1, and the set.\<close>

fun enter_list :: "int \<Rightarrow> int list \<Rightarrow> int \<times> int list" where
  "enter_list gid [] = (- 1, [])"
| "enter_list gid (g # gs) =
     (if g = gid then (0, g # gs)
      else if g = NOGROUP then (0, gid # gs)
      else let (r, gs') = enter_list gid gs in (r, g # gs'))"

definition entergroup :: "int \<Rightarrow> 'a kern_scheme \<Rightarrow> int \<times> 'a kern_scheme" where
  "entergroup gid k =
     (let (r, gs) = enter_list (id16 gid) (u_groups (u k)) in (r, upd_u (\<lambda>v. v\<lparr>u_groups := gs\<rparr>) k))"

section \<open>Changing ids\<close>

definition setpgrp :: "int \<Rightarrow> int \<Rightarrow> 'a kern_scheme \<Rightarrow> 'a kern_scheme option" where
  "setpgrp pid0 pgrp k =
     (let pid = (if pid0 = 0 then p_pid (procs k (u_procp (u k))) else pid0) in
      Option.bind (pfind pid k) (\<lambda>r. case r of None \<Rightarrow> Some (set_error ESRCH k)
       | Some p \<Rightarrow> do {
           denied \<leftarrow> (if p_uid (procs k p) \<noteq> u_uid (u k) \<and> u_uid (u k) \<noteq> 0
                      then map_option Not (inferior p k) else Some False);
           Some (if denied then set_error EPERM k else upd_proc p (\<lambda>q. q\<lparr>p_pgrp := pgrp\<rparr>) k)
         }))"

text \<open>\<open>permit a b x k\<close> is the test \<open>a != x && b != x && !suser()\<close>, negated.\<close>

definition permit :: "int \<Rightarrow> int \<Rightarrow> int \<Rightarrow> 'a kern_scheme \<Rightarrow> bool \<times> 'a kern_scheme" where
  "permit a b x k = (if a \<noteq> x \<and> b \<noteq> x then suser k else (True, k))"

definition setreuid :: "int \<Rightarrow> int \<Rightarrow> 'a kern_scheme \<Rightarrow> 'a kern_scheme" where
  "setreuid ruid0 euid0 k =
     (let ruid = (if ruid0 = - 1 then u_ruid (u k) else id16 ruid0);
          (ok, k1) = permit (u_ruid (u k)) (u_uid (u k)) ruid k in
      if \<not> ok then k1
      else
        let euid = (if euid0 = - 1 then u_uid (u k1) else id16 euid0);
            (ok, k2) = permit (u_ruid (u k1)) (u_uid (u k1)) euid k1 in
        if \<not> ok then k2
        else upd_u (\<lambda>v. v\<lparr>u_ruid := ruid, u_uid := euid\<rparr>)
               (upd_proc (u_procp (u k2)) (\<lambda>q. q\<lparr>p_uid := euid\<rparr>) k2))"

definition setregid :: "int \<Rightarrow> int \<Rightarrow> 'a kern_scheme \<Rightarrow> 'a kern_scheme" where
  "setregid rgid0 egid0 k =
     (let rgid = (if rgid0 = - 1 then u_rgid (u k) else id16 rgid0);
          (ok, k1) = permit (u_rgid (u k)) (u_gid (u k)) rgid k in
      if \<not> ok then k1
      else
        let egid = (if egid0 = - 1 then u_gid (u k1) else id16 egid0);
            (ok, k2) = permit (u_rgid (u k1)) (u_gid (u k1)) egid k1 in
        if \<not> ok then k2
        else
          let k3 = (if u_rgid (u k2) \<noteq> rgid
                    then upd_u (\<lambda>v. v\<lparr>u_rgid := rgid\<rparr>) (snd (entergroup rgid (leavegroup (u_rgid (u k2)) k2)))
                    else k2)
          in upd_u (\<lambda>v. v\<lparr>u_gid := egid\<rparr>) k3)"

text \<open>\<open>copyin\<close> straight into the group set: the words before a fault are there already.\<close>

fun copyin_groups :: "(u_int \<Rightarrow> u_int option) \<Rightarrow> u_int \<Rightarrow> nat \<Rightarrow> int list \<Rightarrow> errno \<times> int list" where
  "copyin_groups m a 0 gs = (NOERR, gs)"
| "copyin_groups m a (Suc n) gs = (case m a of None \<Rightarrow> (EFAULT, gs)
     | Some w \<Rightarrow> let (e, gs') = copyin_groups m (a + 2) n (tl gs) in (e, uint w # gs'))"

definition setgroups :: "u_int \<Rightarrow> u_int \<Rightarrow> 'a kern_scheme \<Rightarrow> 'a kern_scheme" where
  "setgroups gidsetsize gidset k =
     (let (ok, k1) = suser k in
      if \<not> ok then k1
      else if unat gidsetsize > NGROUPS then set_error EINVAL k1
      else
        let (e, gs) = copyin_groups (umem k1) gidset (unat gidsetsize) (u_groups (u k1));
            k2 = upd_u (\<lambda>v. v\<lparr>u_groups := gs, u_error := e\<rparr>) k1
        in if e \<noteq> NOERR then k2
           else upd_u (\<lambda>v. v\<lparr>u_groups := take (unat gidsetsize) gs @ replicate (NGROUPS - unat gidsetsize) NOGROUP\<rparr>) k2)"

end
