(* ===== verification/CredProps.thy ===== *)
theory CredProps imports Cred SchedProps Umem begin

text \<open>
  The properties of ids and permissions: what an unprivileged process can do to its own ids, the group
  set as a set, and the decision of access.
\<close>

section \<open>Fields\<close>

lemma suser_iff: "fst (suser k) \<longleftrightarrow> u_uid (u k) = 0"
  by (simp add: suser_def)

text \<open>Everything the checks leave alone: ids, groups and processes.\<close>

definition same_ids :: "'a kern_scheme \<Rightarrow> 'a kern_scheme \<Rightarrow> bool" where
  "same_ids k k' \<longleftrightarrow> u_uid (u k') = u_uid (u k) \<and> u_ruid (u k') = u_ruid (u k) \<and> u_gid (u k') = u_gid (u k) \<and>
     u_rgid (u k') = u_rgid (u k) \<and> u_groups (u k') = u_groups (u k) \<and> u_procp (u k') = u_procp (u k) \<and>
     procs k' = procs k"

lemma same_ids_simps [simp]: "same_ids k k" "same_ids k (set_error e k)" "same_ids k (snd (suser k))"
  by (simp_all add: same_ids_def suser_def)

lemma permit_ids: "permit a b x k = (ok, k1) \<Longrightarrow> same_ids k k1 \<and> (ok \<longleftrightarrow> x \<in> {a, b} \<or> u_uid (u k) = 0)"
  by (auto simp: permit_def suser_def same_ids_def split: if_splits)

section \<open>The group set\<close>

text \<open>The set is packed at the front, without repetitions, and filled up with \<open>NOGROUP\<close>.\<close>

definition groups_ok :: "int list \<Rightarrow> bool" where
  "groups_ok gs \<longleftrightarrow> (\<exists>xs. length xs \<le> NGROUPS \<and> distinct xs \<and> NOGROUP \<notin> set xs \<and>
     gs = xs @ replicate (NGROUPS - length xs) NOGROUP)"

definition members :: "int list \<Rightarrow> int set" where
  "members gs = set (takeWhile (\<lambda>g. g \<noteq> NOGROUP) gs)"

lemma takeWhile_filled: "NOGROUP \<notin> set xs \<Longrightarrow> takeWhile (\<lambda>g. g \<noteq> NOGROUP) (xs @ replicate n NOGROUP) = xs"
proof (induction xs)
  case Nil
  then show ?case by (cases n) simp_all
qed auto

lemma enter_list_append:
  "gid \<notin> set xs \<Longrightarrow> NOGROUP \<notin> set xs \<Longrightarrow>
   enter_list gid (xs @ ys) = (fst (enter_list gid ys), xs @ snd (enter_list gid ys))"
  by (induction xs) (auto split: prod.splits)

lemma enter_list_member: "gid \<in> set xs \<Longrightarrow> NOGROUP \<notin> set xs \<Longrightarrow> enter_list gid (xs @ ys) = (0, xs @ ys)"
  by (induction xs) (auto split: prod.splits)

lemma enter_ok:
  assumes "groups_ok gs" "gid \<noteq> NOGROUP"
  shows "if gid \<in> members gs \<or> card (members gs) < NGROUPS
    then enter_list gid gs = (0, snd (enter_list gid gs)) \<and> groups_ok (snd (enter_list gid gs)) \<and>
      members (snd (enter_list gid gs)) = insert gid (members gs)
    else enter_list gid gs = (- 1, gs)"
proof -
  obtain xs where xs: "length xs \<le> NGROUPS" "distinct xs" "NOGROUP \<notin> set xs"
    "gs = xs @ replicate (NGROUPS - length xs) NOGROUP" using assms(1) by (auto simp: groups_ok_def)
  have m: "members gs = set xs" using xs(3,4) by (simp add: members_def takeWhile_filled)
  have c: "card (members gs) = length xs" using xs(2) m by (simp add: distinct_card)
  show ?thesis
  proof (cases "gid \<in> set xs")
    case True
    then have "enter_list gid gs = (0, gs)" using xs(3,4) enter_list_member by simp
    then show ?thesis using True m assms(1) by auto
  next
    case False
    note e = enter_list_append [OF False xs(3), of "replicate (NGROUPS - length xs) NOGROUP", folded xs(4)]
    show ?thesis
    proof (cases "length xs < NGROUPS")
      case True
      then have r: "replicate (NGROUPS - length xs) NOGROUP = NOGROUP # replicate (NGROUPS - length (xs @ [gid])) NOGROUP"
        by (simp add: replicate_Suc [symmetric] Suc_diff_Suc del: replicate_Suc)
      then have e': "enter_list gid gs = (0, (xs @ [gid]) @ replicate (NGROUPS - length (xs @ [gid])) NOGROUP)"
        using e assms(2) by simp
      have "groups_ok (snd (enter_list gid gs))"
        unfolding e' groups_ok_def using True False xs assms(2) by (intro exI [of _ "xs @ [gid]"]) auto
      moreover have n: "NOGROUP \<notin> set (xs @ [gid])" using xs(3) assms(2) by simp
      have "members (snd (enter_list gid gs)) = set (xs @ [gid])"
        unfolding e' members_def snd_conv by (subst takeWhile_filled [OF n]) (rule refl)
      ultimately show ?thesis using m c True e' by auto
    next
      case full: False
      then have "NGROUPS - length xs = 0" by simp
      then have "enter_list gid gs = (- 1, gs)" using e xs(4) by simp
      then show ?thesis using False full m c by simp
    qed
  qed
qed

lemma leave_ok:
  assumes "groups_ok gs" "gid \<noteq> NOGROUP"
  shows "groups_ok (leave_list gid gs) \<and> members (leave_list gid gs) = members gs - {gid}"
proof -
  obtain xs where xs: "length xs \<le> NGROUPS" "distinct xs" "NOGROUP \<notin> set xs"
    "gs = xs @ replicate (NGROUPS - length xs) NOGROUP" using assms(1) by (auto simp: groups_ok_def)
  have m: "members gs = set xs" using xs(3,4) by (simp add: members_def takeWhile_filled)
  show ?thesis
  proof (cases "gid \<in> set xs")
    case False
    then have "gid \<notin> set gs" using xs(4) assms(2) by simp
    then show ?thesis using assms(1) m False by (simp add: leave_list_def)
  next
    case True
    let ?ys = "remove1 gid xs"
    have len: "length ?ys = length xs - 1" "0 < length xs" using True by (auto simp: length_remove1)
    have "leave_list gid gs = ?ys @ replicate (NGROUPS - length xs) NOGROUP @ [NOGROUP]"
      using True by (simp add: leave_list_def xs(4) remove1_append)
    also have "replicate (NGROUPS - length xs) NOGROUP @ [NOGROUP] = replicate (Suc (NGROUPS - length xs)) NOGROUP"
      by (simp add: replicate_append_same)
    also have "Suc (NGROUPS - length xs) = NGROUPS - length ?ys" using len xs(1) by arith
    finally have l: "leave_list gid gs = ?ys @ replicate (NGROUPS - length ?ys) NOGROUP" .
    have n: "NOGROUP \<notin> set ?ys" using xs(3) notin_set_remove1 by fast
    have "groups_ok (leave_list gid gs)"
      unfolding l groups_ok_def using len xs(1) n distinct_remove1 [OF xs(2)] by (intro exI [of _ ?ys]) simp
    moreover have "members (leave_list gid gs) = set xs - {gid}"
      unfolding l members_def takeWhile_filled [OF n] by (rule set_remove1_eq [OF xs(2)])
    ultimately show ?thesis using m by simp
  qed
qed

text \<open>The group set behaves as a set of at most 16 gids: entergroup adds the gid, failing with -1
  only if the set is full and the gid is not in it; leavegroup takes it out; groupmember and the
  check in access ask for membership; the packed representation is kept.\<close>

lemma group_set:
  assumes "groups_ok (u_groups (u k))" "id16 gid \<noteq> NOGROUP"
  shows "(let (r, k1) = entergroup gid k; G = members (u_groups (u k)) in
      groups_ok (u_groups (u k1)) \<and>
      (if id16 gid \<in> G \<or> card G < NGROUPS then r = 0 \<and> members (u_groups (u k1)) = insert (id16 gid) G
       else r = - 1 \<and> members (u_groups (u k1)) = G)) \<and>
    (let k1 = leavegroup gid k in
      groups_ok (u_groups (u k1)) \<and> members (u_groups (u k1)) = members (u_groups (u k)) - {id16 gid}) \<and>
    (groupmember (id16 gid) k \<longleftrightarrow> id16 gid = u_gid (u k) \<or> id16 gid \<in> members (u_groups (u k)))"
proof (intro conjI)
  show "let (r, k1) = entergroup gid k; G = members (u_groups (u k)) in
      groups_ok (u_groups (u k1)) \<and>
      (if id16 gid \<in> G \<or> card G < NGROUPS then r = 0 \<and> members (u_groups (u k1)) = insert (id16 gid) G
       else r = - 1 \<and> members (u_groups (u k1)) = G)"
  proof -
    obtain r gs where e: "enter_list (id16 gid) (u_groups (u k)) = (r, gs)" by (meson surj_pair)
    then have "entergroup gid k = (r, upd_u (\<lambda>v. v\<lparr>u_groups := gs\<rparr>) k)" by (simp add: entergroup_def)
    then show ?thesis using enter_ok [OF assms] assms(1) by (simp add: e Let_def split: if_splits)
  qed
  show "let k1 = leavegroup gid k in
      groups_ok (u_groups (u k1)) \<and> members (u_groups (u k1)) = members (u_groups (u k)) - {id16 gid}"
    using leave_ok [OF assms] by (simp add: leavegroup_def Let_def)
  show "groupmember (id16 gid) k \<longleftrightarrow> id16 gid = u_gid (u k) \<or> id16 gid \<in> members (u_groups (u k))"
    by (auto simp: groupmember_def in_groups_def members_def)
qed

definition demo_cred :: kern where
  "demo_cred = upd_u (\<lambda>v. v\<lparr>u_groups := [3, 12] @ replicate 14 NOGROUP\<rparr>) demo_kern"

lemma demo_groups: "groups_ok (u_groups (u demo_cred))" "members (u_groups (u demo_cred)) = {3, 12}"
proof -
  show "groups_ok (u_groups (u demo_cred))"
    unfolding groups_ok_def by (rule exI [of _ "[3, 12]"]) (simp add: demo_cred_def)
  show "members (u_groups (u demo_cred)) = {3, 12}"
    by (simp add: demo_cred_def members_def numeral_eq_Suc)
qed

lemma group_set_witness:
  "members (u_groups (u (snd (entergroup 7 demo_cred)))) = {3, 7, 12} \<and>
   members (u_groups (u (leavegroup 3 demo_cred))) = {12}"
proof -
  have "id16 7 \<noteq> NOGROUP" "id16 3 \<noteq> NOGROUP" by (simp_all add: id16_def)
  from group_set [OF demo_groups(1) this(1)] group_set [OF demo_groups(1) this(2)]
  show ?thesis using demo_groups(2) by (auto simp: Let_def id16_def card_insert_if split: prod.splits)
qed

section \<open>Access to a file\<close>

text \<open>The reference: one of the three classes decides, by the bit of its own triple.\<close>

datatype fclass = Owner | Group | Other

definition class_of :: "'a kern_scheme \<Rightarrow> inode \<Rightarrow> fclass" where
  "class_of k ip = (if u_uid (u k) = i_uid ip then Owner
     else if i_gid ip = u_gid (u k) \<or> i_gid ip \<in> members (u_groups (u k)) then Group else Other)"

fun class_shift :: "fclass \<Rightarrow> nat" where
  "class_shift Owner = 0" | "class_shift Group = 3" | "class_shift Other = 6"

definition mode_bit :: "u_int \<Rightarrow> nat" where
  "mode_bit mode = (if mode = IREAD then 8 else if mode = IWRITE then 7 else 6)"

definition permitted :: "u_int \<Rightarrow> inode \<Rightarrow> 'a kern_scheme \<Rightarrow> bool" where
  "permitted mode ip k \<longleftrightarrow> u_uid (u k) = 0 \<or> bit (i_mode ip) (mode_bit mode - class_shift (class_of k ip))"

lemma and_bit: "and w (push_bit n 1 :: u_int) \<noteq> 0 \<longleftrightarrow> bit w n" if "n < 16" for w :: u_int
  using that and_exp_eq_0_iff_not_bit [of w n] by (simp add: push_bit_eq_mult)

lemma mode_masks:
  "mode \<in> {IREAD, IWRITE, IEXEC} \<Longrightarrow> mode = push_bit (mode_bit mode) 1"
  "mode \<in> {IREAD, IWRITE, IEXEC} \<Longrightarrow> drop_bit 3 mode = push_bit (mode_bit mode - 3) 1"
  "mode \<in> {IREAD, IWRITE, IEXEC} \<Longrightarrow> drop_bit 3 (drop_bit 3 mode) = push_bit (mode_bit mode - 6) 1"
  by (auto simp: mode_bit_def)

text \<open>C17: access decides as the reference does: the super-user may do everything; otherwise the
  permission bit of the one class (owner, group or others) the process belongs to decides, even if
  another class would allow more. Before that, writing is refused on a read-only file system, except
  to devices, with EROFS, and to a text segment that cannot be freed with ETXTBSY.\<close>

theorem access_by_class:
  assumes "mode \<in> {IREAD, IWRITE, IEXEC}"
    and "\<And>ip. i_mode (xuntext ip) = i_mode ip \<and> i_uid (xuntext ip) = i_uid ip \<and> i_gid (xuntext ip) = i_gid ip"
  shows "let (refused, ip', k') = access xuntext fs_ronly mode ip k;
      device = (and (i_mode ip) IFMT = IFCHR \<or> and (i_mode ip) IFMT = IFBLK) in
    if mode = IWRITE \<and> fs_ronly \<and> \<not> device then refused \<and> k' = set_error EROFS k
    else if mode = IWRITE \<and> flag (i_flag ip) ITEXT \<and> flag (i_flag (xuntext ip)) ITEXT
      then refused \<and> k' = set_error ETXTBSY k
    else if permitted mode ip k then \<not> refused \<and> k' = k
    else refused \<and> k' = set_error EACCES k"
proof -
  define ip' where "ip' = (if mode = IWRITE \<and> flag (i_flag ip) ITEXT then xuntext ip else ip)"
  have same: "i_mode ip' = i_mode ip" "i_uid ip' = i_uid ip" "i_gid ip' = i_gid ip" using assms(2) by (simp_all add: ip'_def)
  let ?m = "if u_uid (u k) = i_uid ip' then mode
       else if u_gid (u k) = i_gid ip' \<or> in_groups (i_gid ip') (u_groups (u k)) then drop_bit 3 mode
       else drop_bit 3 (drop_bit 3 mode)"
  have lt: "mode_bit mode < 16" "mode_bit mode - 3 < 16" "mode_bit mode - 6 < 16" by (simp_all add: mode_bit_def)
  have perm: "and (i_mode ip') ?m \<noteq> 0 \<longleftrightarrow> bit (i_mode ip) (mode_bit mode - class_shift (class_of k ip))"
  proof (cases "class_of k ip")
    case Owner
    then have "?m = mode" by (simp add: class_of_def same split: if_splits)
    then show ?thesis using Owner and_bit [OF lt(1), of "i_mode ip"] mode_masks(1) [OF assms(1)] by (simp add: same)
  next
    case Group
    then have "?m = drop_bit 3 mode"
      by (auto simp: class_of_def same in_groups_def members_def split: if_splits)
    then show ?thesis using Group and_bit [OF lt(2), of "i_mode ip"] mode_masks(2) [OF assms(1)] by (simp add: same)
  next
    case Other
    then have "?m = drop_bit 3 (drop_bit 3 mode)"
      by (auto simp: class_of_def same in_groups_def members_def split: if_splits)
    then show ?thesis using Other and_bit [OF lt(3), of "i_mode ip"] mode_masks(3) [OF assms(1)] by (simp add: same)
  qed
  have e: "access xuntext fs_ronly mode ip k =
     (if mode = IWRITE \<and> fs_ronly \<and> and (i_mode ip) IFMT \<noteq> IFCHR \<and> and (i_mode ip) IFMT \<noteq> IFBLK
      then (True, ip, set_error EROFS k)
      else if mode = IWRITE \<and> flag (i_flag ip') ITEXT then (True, ip', set_error ETXTBSY k)
      else if u_uid (u k) = 0 then (False, ip', k)
      else if bit (i_mode ip) (mode_bit mode - class_shift (class_of k ip)) then (False, ip', k)
      else (True, ip', set_error EACCES k))"
    unfolding access_def Let_def ip'_def [symmetric] perm ..
  have t: "mode = IWRITE \<Longrightarrow> flag (i_flag ip') ITEXT \<longleftrightarrow> flag (i_flag ip) ITEXT \<and> flag (i_flag (xuntext ip)) ITEXT"
    by (simp add: ip'_def)
  show ?thesis
  proof (cases "mode = IWRITE")
    case True
    show ?thesis unfolding e permitted_def Let_def using t [OF True] True by (simp split: if_split)
  next
    case False
    show ?thesis unfolding e permitted_def Let_def using False by (simp split: if_split)
  qed
qed

theorem access_by_class_witness:
  "let ip = \<lparr>i_flag = 0, i_count = 1, i_dev = 0, i_shlockc = 0, i_exlockc = 0, i_number = 2, i_rdev = 0, i_mode = 0x81c7, i_nlink = 1, i_uid = 5,
     i_gid = 12, i_size = 0, i_atime = 0, i_mtime = 0, i_ctime = 0, i_addr = []\<rparr> in
   \<not> permitted IREAD ip demo_cred \<and> fst (access (\<lambda>ip. ip) False IREAD ip demo_cred)"
proof -
  let ?ip = "\<lparr>i_flag = 0, i_count = 1, i_dev = 0, i_shlockc = 0, i_exlockc = 0, i_number = 2, i_rdev = 0, i_mode = 0x81c7, i_nlink = 1, i_uid = 5,
     i_gid = 12, i_size = 0, i_atime = 0, i_mtime = 0, i_ctime = 0, i_addr = []\<rparr>"
  have "class_of demo_cred ?ip = Group"
    using demo_groups(2) by (simp add: class_of_def demo_cred_def demo_kern_def demo_user_def)
  moreover have "\<not> bit (0x81c7 :: u_int) 5" by code_simp
  ultimately have "\<not> permitted IREAD ?ip demo_cred"
    by (simp add: permitted_def mode_bit_def demo_cred_def demo_kern_def demo_user_def)
  then show ?thesis using access_by_class [of IREAD "\<lambda>ip. ip" False ?ip demo_cred]
    by (auto simp: Let_def split: prod.splits)
qed

section \<open>What an unprivileged process can make of its ids\<close>

text \<open>The system calls that change ids, with any arguments and results.\<close>

inductive cred_call :: "'a kern_scheme \<Rightarrow> 'a kern_scheme \<Rightarrow> bool" where
  "cred_call k (setreuid ruid euid k)"
| "cred_call k (setregid rgid egid k)"
| "cred_call k (setgroups n a k)"
| "setpgrp pid pgrp k = Some k' \<Longrightarrow> cred_call k k'"
| "cred_call k (getgroups n a k)"

text \<open>\<open>confined U G k\<close>: the uids in use are from \<open>U\<close>, the gids from \<open>G\<close>, and the process table has
  the effective uid of the running process.\<close>

definition confined :: "int set \<Rightarrow> int set \<Rightarrow> 'a kern_scheme \<Rightarrow> bool" where
  "confined U G k \<longleftrightarrow> u_uid (u k) \<in> U \<and> u_ruid (u k) \<in> U \<and> p_uid (procs k (u_procp (u k))) = u_uid (u k) \<and>
     u_gid (u k) \<in> G \<and> u_rgid (u k) \<in> G"

lemma confined_ids: "same_ids k k' \<Longrightarrow> confined U G k' = confined U G k"
  by (simp add: confined_def same_ids_def)

lemma setreuid_confined:
  assumes "confined U G k" "0 \<notin> U"
  shows "confined U G (setreuid ruid0 euid0 k) \<and> u_groups (u (setreuid ruid0 euid0 k)) = u_groups (u k) \<and>
    u_procp (u (setreuid ruid0 euid0 k)) = u_procp (u k) \<and>
    (\<forall>q. q \<noteq> u_procp (u k) \<longrightarrow> procs (setreuid ruid0 euid0 k) q = procs k q)"
proof -
  define ruid where "ruid = (if ruid0 = - 1 then u_ruid (u k) else id16 ruid0)"
  obtain ok1 k1 where p1: "permit (u_ruid (u k)) (u_uid (u k)) ruid k = (ok1, k1)" by (meson surj_pair)
  define euid where "euid = (if euid0 = - 1 then u_uid (u k1) else id16 euid0)"
  obtain ok2 k2 where p2: "permit (u_ruid (u k1)) (u_uid (u k1)) euid k1 = (ok2, k2)" by (meson surj_pair)
  note i = permit_ids [OF p1] permit_ids [OF p2]
  have same: "same_ids k k1" "same_ids k k2" using i unfolding same_ids_def by auto
  have nz: "u_uid (u k) \<noteq> 0" using assms by (auto simp: confined_def)
  have e: "setreuid ruid0 euid0 k = (if \<not> ok1 then k1 else if \<not> ok2 then k2 else
     upd_u (\<lambda>v. v\<lparr>u_ruid := ruid, u_uid := euid\<rparr>) (upd_proc (u_procp (u k2)) (\<lambda>q. q\<lparr>p_uid := euid\<rparr>) k2))"
    by (simp add: setreuid_def Let_def ruid_def [symmetric] p1 euid_def [symmetric] p2)
  have "ok1 \<Longrightarrow> ruid \<in> U" "ok2 \<Longrightarrow> euid \<in> U"
    using i nz assms(1) same by (auto simp: confined_def same_ids_def)
  then show ?thesis unfolding e using assms(1) same by (auto simp: confined_def same_ids_def)
qed

lemma leave_none:
  assumes "groups_ok gs"
  shows "leave_list NOGROUP gs = gs"
proof -
  obtain xs where xs: "NOGROUP \<notin> set xs" "gs = xs @ replicate (NGROUPS - length xs) NOGROUP"
    using assms by (auto simp: groups_ok_def)
  show ?thesis
  proof (cases "NGROUPS - length xs")
    case 0
    then show ?thesis using xs by (simp add: leave_list_def)
  next
    case (Suc n)
    then have "gs = xs @ NOGROUP # replicate n NOGROUP" using xs(2) by simp
    then show ?thesis using xs(1) by (simp add: leave_list_def remove1_append replicate_append_same)
  qed
qed

lemma setregid_confined:
  assumes "confined U G k" "0 \<notin> U" "NOGROUP \<notin> G" "groups_ok (u_groups (u k))" "members (u_groups (u k)) \<subseteq> M" "G \<subseteq> M"
  shows "confined U G (setregid rgid0 egid0 k) \<and> groups_ok (u_groups (u (setregid rgid0 egid0 k))) \<and>
    members (u_groups (u (setregid rgid0 egid0 k))) \<subseteq> M \<and> u_procp (u (setregid rgid0 egid0 k)) = u_procp (u k) \<and>
    procs (setregid rgid0 egid0 k) = procs k"
proof -
  define rgid where "rgid = (if rgid0 = - 1 then u_rgid (u k) else id16 rgid0)"
  obtain ok1 k1 where p1: "permit (u_rgid (u k)) (u_gid (u k)) rgid k = (ok1, k1)" by (meson surj_pair)
  define egid where "egid = (if egid0 = - 1 then u_gid (u k1) else id16 egid0)"
  obtain ok2 k2 where p2: "permit (u_rgid (u k1)) (u_gid (u k1)) egid k1 = (ok2, k2)" by (meson surj_pair)
  note i = permit_ids [OF p1] permit_ids [OF p2]
  have same: "same_ids k k1" "same_ids k k2" using i unfolding same_ids_def by auto
  have nz: "u_uid (u k) \<noteq> 0" using assms(1,2) by (auto simp: confined_def)
  define k3 where "k3 = (if u_rgid (u k2) \<noteq> rgid
      then upd_u (\<lambda>v. v\<lparr>u_rgid := rgid\<rparr>) (snd (entergroup rgid (leavegroup (u_rgid (u k2)) k2))) else k2)"
  have e: "setregid rgid0 egid0 k = (if \<not> ok1 then k1 else if \<not> ok2 then k2 else upd_u (\<lambda>v. v\<lparr>u_gid := egid\<rparr>) k3)"
    by (simp add: setregid_def Let_def rgid_def [symmetric] p1 egid_def [symmetric] p2 k3_def)
  have in_G: "ok1 \<Longrightarrow> rgid \<in> G" "ok2 \<Longrightarrow> egid \<in> G"
    using i nz assms(1) same by (auto simp: confined_def same_ids_def)
  have id: "id16 (id16 x) = id16 x" for x by (simp add: id16_def)
  have rg: "u_rgid (u k) \<in> G" "u_rgid (u k2) = u_rgid (u k)" "u_groups (u k2) = u_groups (u k)"
    using assms(1) same by (simp_all add: confined_def same_ids_def)
  have groups: "groups_ok (u_groups (u k3)) \<and> members (u_groups (u k3)) \<subseteq> M" if "ok1"
  proof (cases "u_rgid (u k2) = rgid")
    case True
    then show ?thesis using assms(4,5) rg(3) by (simp add: k3_def)
  next
    case False
    let ?l = "leave_list (id16 (u_rgid (u k))) (u_groups (u k))"
    have chg: "u_rgid (u k) \<noteq> rgid" using False rg(2) by simp
    then have "rgid0 \<noteq> - 1" by (auto simp: rgid_def)
    then have r: "id16 rgid = rgid" "rgid \<noteq> NOGROUP" "rgid \<in> M" using in_G(1) [OF that] assms(3,6) id
      by (auto simp: rgid_def)
    have l: "groups_ok ?l \<and> members ?l \<subseteq> M"
    proof (cases "id16 (u_rgid (u k)) = NOGROUP")
      case True
      then show ?thesis using leave_none [OF assms(4)] assms(4,5) by simp
    next
      case False
      then show ?thesis using leave_ok [OF assms(4) False] assms(5) by auto
    qed
    then have "groups_ok (snd (enter_list rgid ?l)) \<and> members (snd (enter_list rgid ?l)) \<subseteq> M"
      using enter_ok [OF _ r(2), of ?l] r(3) by (auto split: if_splits)
    moreover have "u_groups (u k3) = snd (enter_list rgid ?l)"
      using chg rg r(1) by (simp add: k3_def entergroup_def leavegroup_def split: prod.splits)
    ultimately show ?thesis by simp
  qed
  have k3: "u_procp (u k3) = u_procp (u k2) \<and> procs k3 = procs k2 \<and> u_uid (u k3) = u_uid (u k2) \<and> u_ruid (u k3) = u_ruid (u k2) \<and>
     u_rgid (u k3) = rgid"
    by (auto simp: k3_def entergroup_def leavegroup_def split: prod.splits)
  show ?thesis
    unfolding e using assms(1,4,5) same in_G groups k3 by (auto simp: confined_def same_ids_def)
qed

lemma cred_step:
  assumes "cred_call k k'" "confined U G k" "0 \<notin> U" "NOGROUP \<notin> G" "G \<subseteq> M"
    and "groups_ok (u_groups (u k))" "members (u_groups (u k)) \<subseteq> M"
  shows "confined U G k' \<and> groups_ok (u_groups (u k')) \<and> members (u_groups (u k')) \<subseteq> M \<and> u_procp (u k') = u_procp (u k) \<and>
    (\<forall>q. q \<noteq> u_procp (u k) \<longrightarrow> p_uid (procs k' q) = p_uid (procs k q))"
  using assms(1)
proof cases
  case (1 ruid euid)
  then show ?thesis using setreuid_confined [OF assms(2,3)] assms(6,7) by simp
next
  case (2 rgid egid)
  then show ?thesis using setregid_confined [OF assms(2-4,6,7,5)] by simp
next
  case (3 n a)
  have "u_uid (u k) \<noteq> 0" using assms(2,3) by (auto simp: confined_def)
  then show ?thesis using 3 assms confined_ids [of k k' U G] by (simp add: setgroups_def suser_def)
next
  case (4 pid pgrp)
  then have "(\<exists>f e. k' = upd_proc e (\<lambda>q. q\<lparr>p_pgrp := f\<rparr>) k) \<or> (\<exists>e. k' = set_error e k)"
    by (auto simp: setpgrp_def Let_def bind_eq_Some_conv split: option.splits if_splits)
  then show ?thesis using assms by (auto simp: confined_def)
next
  case (5 n a)
  then have "same_ids k k'"
    by (auto simp: getgroups_def Let_def same_ids_def split: prod.splits if_splits)
  then show ?thesis using confined_ids [of k k' U G] assms by (simp add: same_ids_def)
qed

text \<open>C16: No sequence of the calls that change ids makes a process privileged or lets it borrow an id:
  if neither its real nor its effective uid is 0, then afterwards both, and the uid in its process
  table entry, are among the two it started with, its gids are among the two it started with, its
  group set holds nothing but its groups and those gids, and the uids of other processes are as
  before.\<close>

theorem ids_confined:
  assumes "cred_call\<^sup>*\<^sup>* k k'" "u_uid (u k) \<noteq> 0" "u_ruid (u k) \<noteq> 0"
    and "p_uid (procs k (u_procp (u k))) = u_uid (u k)"
    and "groups_ok (u_groups (u k))" "u_gid (u k) \<noteq> NOGROUP" "u_rgid (u k) \<noteq> NOGROUP"
  shows "{u_uid (u k'), u_ruid (u k'), p_uid (procs k' (u_procp (u k')))} \<subseteq> {u_uid (u k), u_ruid (u k)} \<and>
    {u_gid (u k'), u_rgid (u k')} \<subseteq> {u_gid (u k), u_rgid (u k)} \<and>
    members (u_groups (u k')) \<subseteq> members (u_groups (u k)) \<union> {u_gid (u k), u_rgid (u k)} \<and>
    (\<forall>q. q \<noteq> u_procp (u k) \<longrightarrow> p_uid (procs k' q) = p_uid (procs k q))"
proof -
  let ?U = "{u_uid (u k), u_ruid (u k)}" and ?G = "{u_gid (u k), u_rgid (u k)}"
  let ?M = "members (u_groups (u k)) \<union> ?G"
  have "confined ?U ?G k' \<and> groups_ok (u_groups (u k')) \<and> members (u_groups (u k')) \<subseteq> ?M \<and>
      u_procp (u k') = u_procp (u k) \<and> (\<forall>q. q \<noteq> u_procp (u k) \<longrightarrow> p_uid (procs k' q) = p_uid (procs k q))"
    using assms(1)
  proof (induction rule: rtranclp_induct)
    case base
    then show ?case using assms by (auto simp: confined_def)
  next
    case (step k1 k2)
    have "0 \<notin> ?U" "NOGROUP \<notin> ?G" "?G \<subseteq> ?M" using assms(2,3,6,7) by auto
    then show ?case using cred_step [OF step(2), of ?U ?G ?M] step(3) by metis
  qed
  then show ?thesis by (auto simp: confined_def)
qed

theorem ids_confined_witness:
  "let k' = setregid 12 (- 1) (setreuid 0 9 demo_cred) in
   {u_uid (u k'), u_ruid (u k'), p_uid (procs k' (u_procp (u k')))} \<subseteq> {u_uid (u demo_cred), u_ruid (u demo_cred)}"
proof -
  have "cred_call\<^sup>*\<^sup>* demo_cred (setregid 12 (- 1) (setreuid 0 9 demo_cred))"
    by (meson cred_call.intros(1,2) r_into_rtranclp rtranclp_trans)
  moreover have "u_uid (u demo_cred) \<noteq> 0" "u_ruid (u demo_cred) \<noteq> 0"
    "p_uid (procs demo_cred (u_procp (u demo_cred))) = u_uid (u demo_cred)"
    "u_gid (u demo_cred) \<noteq> NOGROUP" "u_rgid (u demo_cred) \<noteq> NOGROUP"
    by (simp_all add: demo_cred_def demo_kern_def demo_user_def demo_proc_def)
  ultimately show ?thesis using ids_confined [OF _ _ _ _ demo_groups(1)] unfolding Let_def by blast
qed

end
