(* ===== verification/Resource.thy ===== *)
theory Resource imports Cred Callout begin

text \<open>
  Scheduling priorities, resource limits and usage: \<open>src/sys/sys/kern_resrce.c\<close>. A long in user
  memory is two words, the high one first; CPU limits are kept in clock ticks.
\<close>

abbreviation (input) "PRIO_MIN \<equiv> - 20 :: int"
abbreviation (input) "PRIO_MAX \<equiv> 20 :: int"
abbreviation (input) "RLIM_NLIMITS \<equiv> 6 :: nat"

section \<open>Priorities\<close>

text \<open>The loop over \<open>allproc\<close> that looks for the least nice value among the processes with \<open>P\<close>.\<close>

definition lowest :: "(proc \<Rightarrow> bool) \<Rightarrow> nat list \<Rightarrow> 'a kern_scheme \<Rightarrow> int" where
  "lowest P ps k = fold (\<lambda>p low. if P (procs k p) \<and> p_nice (procs k p) < low then p_nice (procs k p) else low)
     ps (PRIO_MAX + 1)"

definition getpriority :: "int \<Rightarrow> int \<Rightarrow> 'a kern_scheme \<Rightarrow> 'a kern_scheme option" where
  "getpriority which who k =
     (let finish = (\<lambda>low. if low = PRIO_MAX + 1 then set_error ESRCH k else upd_u (\<lambda>v. v\<lparr>r_val1 := low\<rparr>) k) in
      if which = 0 then
        map_option (\<lambda>r. finish (case r of None \<Rightarrow> PRIO_MAX + 1 | Some p \<Rightarrow> p_nice (procs k p)))
          (if who = 0 then Some (Some (u_procp (u k))) else pfind who k)
      else if which = 1 then
        (let w = (if who = 0 then p_pgrp (procs k (u_procp (u k))) else who) in
         map_option (\<lambda>ps. finish (lowest (\<lambda>q. p_pgrp q = w) ps k)) (list_from (allproc k) k))
      else if which = 2 then
        (let w = (if who = 0 then u_uid (u k) else id16 who) in
         map_option (\<lambda>ps. finish (lowest (\<lambda>q. p_uid q = w) ps k)) (list_from (allproc k) k))
      else Some (set_error EINVAL k))"

definition donice :: "nat \<Rightarrow> int \<Rightarrow> 'a kern_scheme \<Rightarrow> 'a kern_scheme" where
  "donice p n0 k =
     (let v = u k; q = procs k p in
      if u_uid v \<noteq> 0 \<and> u_ruid v \<noteq> 0 \<and> u_uid v \<noteq> p_uid q \<and> u_ruid v \<noteq> p_uid q then set_error EPERM k
      else
        let n = (if n0 > PRIO_MAX then PRIO_MAX else n0);
            n = (if n < PRIO_MIN then PRIO_MIN else n);
            (ok, k1) = (if n < p_nice q then suser k else (True, k))
        in if \<not> ok then set_error EACCES k1
           else upd_proc p (\<lambda>r. r\<lparr>p_nice := n\<rparr>) k1)"

text \<open>The loop over \<open>allproc\<close>, and how many processes it found.\<close>

definition nice_all :: "(proc \<Rightarrow> bool) \<Rightarrow> int \<Rightarrow> nat list \<Rightarrow> 'a kern_scheme \<Rightarrow> nat \<times> 'a kern_scheme" where
  "nice_all P prio ps k =
     fold (\<lambda>p (found, k). if P (procs k p) then (Suc found, donice p prio k) else (found, k)) ps (0, k)"

definition setpriority :: "int \<Rightarrow> int \<Rightarrow> int \<Rightarrow> 'a kern_scheme \<Rightarrow> 'a kern_scheme option" where
  "setpriority which who prio k =
     (let finish = (\<lambda>(found, k1). if found = (0 :: nat) then set_error ESRCH k1 else k1) in
      if which = 0 then
        map_option (\<lambda>r. finish (case r of None \<Rightarrow> (0, k) | Some p \<Rightarrow> (1, donice p prio k)))
          (if who = 0 then Some (Some (u_procp (u k))) else pfind who k)
      else if which = 1 then
        (let w = (if who = 0 then p_pgrp (procs k (u_procp (u k))) else who) in
         map_option (\<lambda>ps. finish (nice_all (\<lambda>q. p_pgrp q = w) prio ps k)) (list_from (allproc k) k))
      else if which = 2 then
        (let w = (if who = 0 then u_uid (u k) else id16 who) in
         map_option (\<lambda>ps. finish (nice_all (\<lambda>q. p_uid q = w) prio ps k)) (list_from (allproc k) k))
      else Some (set_error EINVAL k))"

section \<open>Limits\<close>

definition long_at :: "u_int list \<Rightarrow> nat \<Rightarrow> int" where
  "long_at ws i = sint (words_long (ws ! i) (ws ! Suc i))"

definition words_of_long :: "int \<Rightarrow> u_int list" where
  "words_of_long x = long_words (word_of_int x)"

definition ticks_limit :: "int \<Rightarrow> int" where
  "ticks_limit x = (if x \<ge> RLIM_INFINITY div LINEHZ then RLIM_INFINITY else wrap32 (x * LINEHZ))"

definition setrlimit :: "u_int \<Rightarrow> u_int \<Rightarrow> 'a kern_scheme \<Rightarrow> 'a kern_scheme" where
  "setrlimit which lim k =
     (if unat which \<ge> RLIM_NLIMITS then set_error EINVAL k
      else (case copyin_words (umem k) lim 4 of None \<Rightarrow> set_error EFAULT k
       | Some ws \<Rightarrow>
          let k1 = set_error NOERR k;
              old = u_rlimit (u k1) ! unat which;
              f = (if which = 0 then ticks_limit else (\<lambda>x. x));
              alim = \<lparr>rlim_cur = f (long_at ws 0), rlim_max = f (long_at ws 2)\<rparr>;
              (ok, k2) = (if rlim_cur alim > rlim_max old \<or> rlim_max alim > rlim_max old
                          then suser k1 else (True, k1))
          in if \<not> ok then k2
             else upd_u (\<lambda>v. v\<lparr>u_rlimit := (u_rlimit v)[unat which := alim]\<rparr>) k2))"

definition getrlimit :: "u_int \<Rightarrow> u_int \<Rightarrow> 'a kern_scheme \<Rightarrow> 'a kern_scheme" where
  "getrlimit which rlp k =
     (if unat which \<ge> RLIM_NLIMITS then set_error EINVAL k
      else
        let l = u_rlimit (u k) ! unat which;
            f = (\<lambda>x. if which = 0 \<and> x \<noteq> RLIM_INFINITY then cdiv x LINEHZ else x);
            (e, m) = copyout_words (umem k) rlp (words_of_long (f (rlim_cur l)) @ words_of_long (f (rlim_max l)))
        in set_error e (k\<lparr>umem := m\<rparr>))"

section \<open>Usage\<close>

definition usage_list :: "k_rusage \<Rightarrow> int list" where
  "usage_list r = [ru_utime r, ru_stime r, ru_ovly r, ru_nswap r, ru_inblock r, ru_oublock r, ru_msgsnd r,
     ru_msgrcv r, ru_nsignals r, ru_nvcsw r, ru_nivcsw r]"

definition ruadd :: "k_rusage \<Rightarrow> k_rusage \<Rightarrow> k_rusage" where
  "ruadd r r2 = \<lparr>ru_utime = wrap32 (ru_utime r + ru_utime r2), ru_stime = wrap32 (ru_stime r + ru_stime r2),
     ru_ovly = wrap32 (ru_ovly r + ru_ovly r2), ru_nswap = wrap32 (ru_nswap r + ru_nswap r2),
     ru_inblock = wrap32 (ru_inblock r + ru_inblock r2), ru_oublock = wrap32 (ru_oublock r + ru_oublock r2),
     ru_msgsnd = wrap32 (ru_msgsnd r + ru_msgsnd r2), ru_msgrcv = wrap32 (ru_msgrcv r + ru_msgrcv r2),
     ru_nsignals = wrap32 (ru_nsignals r + ru_nsignals r2), ru_nvcsw = wrap32 (ru_nvcsw r + ru_nvcsw r2),
     ru_nivcsw = wrap32 (ru_nivcsw r + ru_nivcsw r2)\<rparr>"

text \<open>\<open>rucvt\<close>: the members of struct rusage in their order; the six between the times and the
  overlay count stay 0.\<close>

definition rucvt :: "k_rusage \<Rightarrow> int list" where
  "rucvt kr = [cdiv (ru_utime kr) LINEHZ, cdiv (wrap32 (cmod (ru_utime kr) LINEHZ * 1000000)) LINEHZ,
     cdiv (ru_stime kr) LINEHZ, cdiv (wrap32 (cmod (ru_stime kr) LINEHZ * 1000000)) LINEHZ,
     0, 0, 0, 0, 0, 0] @ drop 2 (usage_list kr)"

definition getrusage :: "int \<Rightarrow> u_int \<Rightarrow> 'a kern_scheme \<Rightarrow> 'a kern_scheme" where
  "getrusage who rusage k =
     (if who \<noteq> 0 \<and> who \<noteq> - 1 then set_error EINVAL k
      else
        let kr = (if who = 0 then u_ru (u k) else u_cru (u k));
            (e, m) = copyout_words (umem k) rusage (concat (map words_of_long (rucvt kr)))
        in set_error e (k\<lparr>umem := m\<rparr>))"

end
