(* ===== verification/Timeofday.thy ===== *)
theory Timeofday imports Resource begin

text \<open>
  The time of day and the interval timers: \<open>src/sys/sys/kern_time.c\<close>. A time is a pair of seconds and
  microseconds. The real-time timer counts seconds and is in the process table, the other two count
  clock ticks and are in the user structure.
\<close>

type_synonym timeval = "int \<times> int"

definition timeval_words :: "timeval \<Rightarrow> u_int list" where
  "timeval_words t = words_of_long (fst t) @ words_of_long (snd t)"

section \<open>The time of day\<close>

definition tick_usec :: "u_int \<Rightarrow> int" where
  "tick_usec ms = cdiv (wrap32 (uint ms * 1000000)) LINEHZ"

definition gettimeofday :: "u_int \<Rightarrow> u_int \<Rightarrow> 'a clk_scheme \<Rightarrow> 'a clk_scheme" where
  "gettimeofday tp tzp k =
     (let ms = word_of_int (lbolt k) :: u_int;
          (ms, sec) = (if uint ms > LINEHZ then (ms - 60, wrap32 (time_sec k + 1)) else (ms, time_sec k));
          (e, m) = (if tp \<noteq> 0 then copyout_words (umem k) tp (timeval_words (sec, tick_usec ms)) else (NOERR, umem k));
          k1 = (if tp \<noteq> 0 then set_error e (k\<lparr>umem := m\<rparr>) else k) in
      if e \<noteq> NOERR then k1
      else if tzp \<noteq> 0 then
        (let (e, m) = copyout_words (umem k1) tzp [word_of_int (tz_minuteswest k1), word_of_int (tz_dsttime k1)]
         in set_error e (k1\<lparr>umem := m\<rparr>))
      else k1)"

definition setthetime :: "timeval \<Rightarrow> 'a clk_scheme \<Rightarrow> 'a clk_scheme" where
  "setthetime tv k =
     (let (ok, k1) = suser k in
      if \<not> ok then k1
      else k1\<lparr>boottime_sec := wrap32 (boottime_sec k1 + wrap32 (fst tv - time_sec k1)),
        time_sec := fst tv, time_usec := snd tv\<rparr>)"

definition settimeofday :: "u_int \<Rightarrow> u_int \<Rightarrow> 'a clk_scheme \<Rightarrow> 'a clk_scheme" where
  "settimeofday tv tzp k =
     (case (if tv = 0 then Some [] else copyin_words (umem k) tv 4) of None \<Rightarrow> set_error EFAULT k
      | Some ws \<Rightarrow>
          let k1 = (if tv = 0 then k else setthetime (long_at ws 0, long_at ws 2) (set_error NOERR k)) in
          if tzp = 0 then k1
          else (case suser k1 of (False, k2) \<Rightarrow> k2
           | (True, k2) \<Rightarrow>
              (case copyin_words (umem k2) tzp 2 of None \<Rightarrow> set_error EFAULT k2
               | Some zs \<Rightarrow> (set_error NOERR k2)\<lparr>tz_minuteswest := sint (zs ! 0), tz_dsttime := sint (zs ! 1)\<rparr>)))"

definition adjtime :: "u_int \<Rightarrow> u_int \<Rightarrow> 'a clk_scheme \<Rightarrow> 'a clk_scheme" where
  "adjtime delta olddelta k =
     (case suser k of (False, k1) \<Rightarrow> k1
      | (True, k1) \<Rightarrow>
         (case copyin_words (umem k1) delta 4 of None \<Rightarrow> set_error EFAULT k1
          | Some ws \<Rightarrow>
              let k2 = (set_error NOERR k1)\<lparr>time_sec := wrap32 (time_sec k1 + long_at ws 0)\<rparr> in
              if olddelta \<noteq> 0 then k2\<lparr>umem := snd (copyout_words (umem k2) olddelta (timeval_words (0, 0)))\<rparr>
              else k2))"

section \<open>Interval timers\<close>

definition getitimer :: "u_int \<Rightarrow> u_int \<Rightarrow> 'a kern_scheme \<Rightarrow> 'a kern_scheme" where
  "getitimer which itv k =
     (if unat which > 2 then set_error EINVAL k
      else
        let (i, v) = (if which = 0 then
                (let t = p_realtimer (procs k (u_procp (u k))) in (it_interval t, it_value t))
              else (let t = u_timer (u k) ! (unat which - 1) in (cdiv (it_interval t) LINEHZ, cdiv (it_value t) LINEHZ)));
            (e, m) = copyout_words (umem k) itv (timeval_words (i, 0) @ timeval_words (v, 0))
        in set_error e (k\<lparr>umem := m\<rparr>))"

text \<open>Seconds rounded up, and the same in ticks.\<close>

definition round_secs :: "timeval \<Rightarrow> int" where
  "round_secs t = (if snd t \<noteq> 0 then wrap32 (fst t + 1) else fst t)"

definition round_ticks :: "timeval \<Rightarrow> int" where
  "round_ticks t = (if snd t \<noteq> 0 then wrap32 (wrap32 (fst t * LINEHZ) + LINEHZ) else wrap32 (fst t * LINEHZ))"

definition setitimer :: "u_int \<Rightarrow> u_int \<Rightarrow> u_int \<Rightarrow> 'a kern_scheme \<Rightarrow> 'a kern_scheme" where
  "setitimer which itv oitv k =
     (if unat which > 2 then set_error EINVAL k
      else
        let k1 = (if oitv \<noteq> 0 then getitimer which oitv k else k) in
        if itv = 0 then k1
        else (case copyin_words (umem k1) itv 8 of None \<Rightarrow> set_error EFAULT k1
          | Some ws \<Rightarrow>
              let k2 = set_error NOERR k1;
                  i = (long_at ws 0, long_at ws 2); v = (long_at ws 4, long_at ws 6) in
              if which = 0 then
                upd_proc (u_procp (u k2)) (\<lambda>q. q\<lparr>p_realtimer := \<lparr>it_interval = round_secs i, it_value = round_secs v\<rparr>\<rparr>) k2
              else upd_timer (unat which - 1) (\<lambda>_. \<lparr>it_interval = round_ticks i, it_value = round_ticks v\<rparr>) k2))"

definition itimerfix :: "timeval \<Rightarrow> errno \<times> timeval" where
  "itimerfix tv =
     (if fst tv < 0 \<or> fst tv > 100000000 \<or> snd tv < 0 \<or> snd tv \<ge> 1000000 then (EINVAL, tv)
      else if fst tv = 0 \<and> snd tv \<noteq> 0 \<and> snd tv < 1000 div LINEHZ then (NOERR, (0, 1000 div LINEHZ))
      else (NOERR, tv))"

section \<open>Arithmetic\<close>

definition timevalfix :: "timeval \<Rightarrow> timeval" where
  "timevalfix t =
     (let (s, us) = (if snd t < 0 then (wrap32 (fst t - 1), wrap32 (snd t + 1000000)) else t)
      in if us \<ge> 1000000 then (wrap32 (s + 1), wrap32 (us - 1000000)) else (s, us))"

definition timevaladd :: "timeval \<Rightarrow> timeval \<Rightarrow> timeval" where
  "timevaladd t1 t2 = timevalfix (wrap32 (fst t1 + fst t2), wrap32 (snd t1 + snd t2))"

end
