(* ===== verification/TimeProps.thy ===== *)
theory TimeProps imports Timeofday CalloutProps CredProps begin

text \<open>
  The properties of priorities, resource limits and interval timers.
\<close>

section \<open>Longs in user memory\<close>

lemma long_at_words [simp]: "int32 x \<Longrightarrow> words_long (words_of_long x ! 0) (words_of_long x ! Suc 0) = word_of_int x"
  by (simp add: words_of_long_def long_words_def long_roundtrip)

lemma sint_word32: "int32 x \<Longrightarrow> sint (word_of_int x :: 32 word) = x"
  by (simp add: int32_def signed_of_int signed_take_bit_int_eq_self)

lemma length_words_of_long [simp]: "length (words_of_long x) = 2"
  by (simp add: words_of_long_def long_words_def)

lemma long_at_first: "int32 x \<Longrightarrow> long_at (words_of_long x @ ws) 0 = x"
  using long_roundtrip [of "word_of_int x"]
  by (simp add: long_at_def words_of_long_def long_words_def sint_word32)

lemma long_at_later: "n \<ge> 2 \<Longrightarrow> long_at (words_of_long x @ ws) n = long_at ws (n - 2)"
proof -
  assume "n \<ge> 2"
  then obtain j where "n = j + 2" by (metis add.commute le_Suc_ex)
  then show ?thesis by (simp add: long_at_def nth_append)
qed

section \<open>Resource limits\<close>

text \<open>A process sets limits, and writes its own memory, as it likes.\<close>

inductive limit_call :: "'a kern_scheme \<Rightarrow> 'a kern_scheme \<Rightarrow> bool" where
  "limit_call k (setrlimit which lim k)"
| "limit_call k (k\<lparr>umem := m\<rparr>)"

definition capped :: "rlimit list \<Rightarrow> 'a kern_scheme \<Rightarrow> bool" where
  "capped ls k \<longleftrightarrow> length (u_rlimit (u k)) = length ls \<and>
     (\<forall>i < length ls. rlim_max (u_rlimit (u k) ! i) \<le> rlim_max (ls ! i) \<and>
        rlim_cur (u_rlimit (u k) ! i) \<le> rlim_max (ls ! i))"

lemma capped_setrlimit:
  assumes "capped ls k" "u_uid (u k) \<noteq> 0"
  shows "capped ls (setrlimit which lim k) \<and> u_uid (u (setrlimit which lim k)) = u_uid (u k)"
proof (cases "copyin_words (umem k) lim 4")
  case None
  then show ?thesis using assms by (simp add: setrlimit_def capped_def)
next
  case (Some ws)
  let ?old = "u_rlimit (u k) ! unat which" and ?f = "if which = 0 then ticks_limit else (\<lambda>x. x)"
  define alim where "alim = \<lparr>rlim_cur = ?f (long_at ws 0), rlim_max = ?f (long_at ws 2)\<rparr>"
  have e: "setrlimit which lim k = (if unat which \<ge> RLIM_NLIMITS then set_error EINVAL k
     else if rlim_cur alim > rlim_max ?old \<or> rlim_max alim > rlim_max ?old then set_error EPERM (set_error NOERR k)
     else upd_u (\<lambda>v. v\<lparr>u_rlimit := (u_rlimit v)[unat which := alim]\<rparr>) (set_error NOERR k))"
    using Some assms(2) by (simp add: setrlimit_def alim_def Let_def suser_def)
  show ?thesis
  proof (cases "unat which < RLIM_NLIMITS \<and> rlim_cur alim \<le> rlim_max ?old \<and> rlim_max alim \<le> rlim_max ?old")
    case False
    then have "u_rlimit (u (setrlimit which lim k)) = u_rlimit (u k) \<and> u_uid (u (setrlimit which lim k)) = u_uid (u k)"
      unfolding e by (auto simp: not_le)
    then show ?thesis using assms(1) by (simp add: capped_def)
  next
    case True
    then have "setrlimit which lim k = upd_u (\<lambda>v. v\<lparr>u_rlimit := (u_rlimit v)[unat which := alim]\<rparr>) (set_error NOERR k)"
      unfolding e by auto
    moreover have "rlim_cur alim \<le> rlim_max (ls ! unat which) \<and> rlim_max alim \<le> rlim_max (ls ! unat which)"
      if "unat which < length ls" using that True assms(1) by (force simp: capped_def)
    moreover have len: "length (u_rlimit (u k)) = length ls" using assms(1) by (simp add: capped_def)
    ultimately show ?thesis using assms(1) unfolding capped_def
      by (cases "unat which < length ls") (auto simp: nth_list_update len)
  qed
qed


definition demo_limits :: kern where
  "demo_limits = upd_u (\<lambda>v. v\<lparr>u_rlimit := replicate 6 \<lparr>rlim_cur = 500, rlim_max = 1000\<rparr>\<rparr>)
     (demo_kern\<lparr>umem := \<lambda>_. Some 0x7fff\<rparr>)"


section \<open>Nice values\<close>

definition clip_nice :: "int \<Rightarrow> int" where
  "clip_nice n = max PRIO_MIN (min PRIO_MAX n)"

text \<open>What donice may do to the process \<open>q\<close>, as a function of the caller's ids.\<close>

definition may_nice :: "user \<Rightarrow> proc \<Rightarrow> bool" where
  "may_nice v q \<longleftrightarrow> u_uid v = 0 \<or> u_ruid v = 0 \<or> p_uid q = u_uid v \<or> p_uid q = u_ruid v"

definition niced :: "int \<Rightarrow> user \<Rightarrow> proc \<Rightarrow> proc" where
  "niced prio v q = (if may_nice v q \<and> (u_uid v = 0 \<or> p_nice q \<le> clip_nice prio)
     then q\<lparr>p_nice := clip_nice prio\<rparr> else q)"

lemma donice_procs:
  "procs (donice p prio k) = (procs k)(p := niced prio (u k) (procs k p)) \<and>
   u_uid (u (donice p prio k)) = u_uid (u k) \<and> u_ruid (u (donice p prio k)) = u_ruid (u k)"
proof -
  have c: "(let n = (if prio > PRIO_MAX then PRIO_MAX else prio) in if n < PRIO_MIN then PRIO_MIN else n) = clip_nice prio"
    by (simp add: clip_nice_def)
  define n where "n = clip_nice prio"
  have "donice p prio k = (if \<not> may_nice (u k) (procs k p) then set_error EPERM k
     else let (ok, k1) = (if n < p_nice (procs k p) then suser k else (True, k)) in
       if \<not> ok then set_error EACCES k1 else upd_proc p (\<lambda>r. r\<lparr>p_nice := n\<rparr>) k1)"
    unfolding donice_def n_def c [symmetric] Let_def may_nice_def by auto
  then show ?thesis
    by (auto simp: niced_def n_def [symmetric] suser_def may_nice_def Let_def not_less)
qed

lemma niced_cong: "u_uid v' = u_uid v \<Longrightarrow> u_ruid v' = u_ruid v \<Longrightarrow> niced prio v' q = niced prio v q"
  by (simp add: niced_def may_nice_def)

lemma niced_fields [simp]: "p_pgrp (niced prio v q) = p_pgrp q" "p_uid (niced prio v q) = p_uid q"
  by (simp_all add: niced_def)

lemma nice_all_ok:
  assumes "distinct ps" "\<And>q. P (niced prio (u k) q) = P q"
  shows "fst (nice_all P prio ps k) = length (filter (\<lambda>p. P (procs k p)) ps) \<and>
    procs (snd (nice_all P prio ps k)) =
      (\<lambda>p. if p \<in> set ps \<and> P (procs k p) then niced prio (u k) (procs k p) else procs k p) \<and>
    u_uid (u (snd (nice_all P prio ps k))) = u_uid (u k) \<and> u_ruid (u (snd (nice_all P prio ps k))) = u_ruid (u k)"
  using assms(1)
proof (induction ps rule: rev_induct)
  case Nil
  then show ?case by (simp add: nice_all_def)
next
  case (snoc p ps)
  obtain f k1 where s: "nice_all P prio ps k = (f, k1)" by (meson surj_pair)
  have ih: "f = length (filter (\<lambda>p. P (procs k p)) ps)"
    "procs k1 = (\<lambda>p. if p \<in> set ps \<and> P (procs k p) then niced prio (u k) (procs k p) else procs k p)"
    "u_uid (u k1) = u_uid (u k)" "u_ruid (u k1) = u_ruid (u k)"
    using snoc s by auto
  have p: "procs k1 p = procs k p" using snoc.prems by (simp add: ih(2))
  have e: "nice_all P prio (ps @ [p]) k = (if P (procs k p) then (Suc f, donice p prio k1) else (f, k1))"
    using s p by (simp add: nice_all_def)
  show ?case
  proof (cases "P (procs k p)")
    case True
    have "procs (donice p prio k1) = (procs k1)(p := niced prio (u k) (procs k p))"
      using donice_procs [of p prio k1] niced_cong [OF ih(3,4)] p by simp
    then show ?thesis using True e ih donice_procs [of p prio k1] by auto
  next
    case False
    then show ?thesis using e ih by auto
  qed
qed

text \<open>setpriority for a process group or a user changes nothing but the nice values of exactly the
  processes meant, to the value clipped to -20..20: each of them if the caller is the super-user,
  otherwise only those with one of his ids and only upwards. It reports ESRCH if there is none.\<close>

lemma setpriority_nices:
  assumes "list_from (allproc k) k = Some ps" "which = 1 \<or> which = 2"
  shows "let meant = (\<lambda>q :: proc. if which = 1 then p_pgrp q = (if who = 0 then p_pgrp (procs k (u_procp (u k))) else who)
        else p_uid q = (if who = 0 then u_uid (u k) else id16 who)) in
    \<exists>k'. setpriority which who prio k = Some k' \<and>
      procs k' = (\<lambda>p. if p \<in> set ps \<and> meant (procs k p) then niced prio (u k) (procs k p) else procs k p) \<and>
      ((\<forall>p \<in> set ps. \<not> meant (procs k p)) \<longrightarrow> u_error (u k') = ESRCH)"
proof -
  define meant where "meant = (\<lambda>q :: proc. if which = 1 then p_pgrp q = (if who = 0 then p_pgrp (procs k (u_procp (u k))) else who)
        else p_uid q = (if who = 0 then u_uid (u k) else id16 who))"
  have d: "distinct ps" using assms(1) walk_lpath lpath_distinct unfolding list_from_def by blast
  have inv: "meant (niced prio (u k) q) = meant q" for q by (simp add: meant_def)
  obtain f k1 where n: "nice_all meant prio ps k = (f, k1)" by (meson surj_pair)
  note ok = nice_all_ok [where P = meant, OF d inv, unfolded n fst_conv snd_conv]
  have "setpriority which who prio k = Some (if f = 0 then set_error ESRCH k1 else k1)"
  proof (cases "which = 1")
    case True
    then have "meant = (\<lambda>q. p_pgrp q = (if who = 0 then p_pgrp (procs k (u_procp (u k))) else who))"
      by (simp add: meant_def)
    then show ?thesis using True n assms(1) by (simp add: setpriority_def Let_def)
  next
    case False
    then have "meant = (\<lambda>q. p_uid q = (if who = 0 then u_uid (u k) else id16 who))" "which = 2"
      using assms(2) by (simp_all add: meant_def)
    then show ?thesis using n assms(1) by (simp add: setpriority_def Let_def)
  qed
  moreover have "(\<forall>p \<in> set ps. \<not> meant (procs k p)) \<Longrightarrow> f = 0" using ok by (simp add: filter_empty_conv)
  ultimately show ?thesis
    unfolding Let_def meant_def [symmetric] using ok by (intro exI [of _ "if f = 0 then set_error ESRCH k1 else k1"]) auto
qed

lemma setpriority_nices_witness:
  "\<exists>k'. setpriority 1 9 (- 5) demo_kern = Some k' \<and> p_nice (procs k' 2) = 0"
proof -
  have "list_from (allproc demo_kern) demo_kern = Some [1, 2, 3]"
  proof -
    have "p_nxt (procs demo_kern 1) = Some 2" "p_nxt (procs demo_kern 2) = Some 3" "p_nxt (procs demo_kern 3) = None"
      "allproc demo_kern = Some 1" "nproc demo_kern = 8"
      by (simp_all add: demo_kern_def demo_proc_def)
    then have "lpath (\<lambda>q. p_nxt (procs demo_kern q)) (allproc demo_kern) [1, 2, 3]" by simp
    from walk_enough [OF this, of 8] \<open>nproc demo_kern = 8\<close> show ?thesis by (simp add: list_from_def)
  qed
  from setpriority_nices [OF this, of 1 9 "- 5"] show ?thesis
    by (auto simp: niced_def clip_nice_def demo_kern_def demo_proc_def demo_user_def)
qed

section \<open>Interval timers\<close>

definition round_up :: "timeval \<Rightarrow> int" where
  "round_up t = fst t + (if snd t \<noteq> 0 then 1 else 0)"

text \<open>A time the kernel can represent in ticks.\<close>

definition small_time :: "timeval \<Rightarrow> bool" where
  "small_time t \<longleftrightarrow> 0 \<le> fst t \<and> fst t < 35791393 \<and> int32 (snd t)"

lemma round_small:
  assumes "small_time t"
  shows "round_secs t = round_up t" "cdiv (round_ticks t) LINEHZ = round_up t" "int32 (round_up t)"
proof -
  have b: "0 \<le> fst t" "fst t < 35791393" using assms by (simp_all add: small_time_def)
  show "round_secs t = round_up t" using b by (auto simp: round_secs_def round_up_def int32_def)
  have "round_ticks t = round_up t * 60" using b by (auto simp: round_ticks_def round_up_def int32_def)
  moreover have "cdiv (round_up t * 60) 60 = round_up t"
    using b by (subst cdiv_nonneg) (auto simp: round_up_def)
  ultimately show "cdiv (round_ticks t) LINEHZ = round_up t" by simp
  show "int32 (round_up t)" using b by (auto simp: round_up_def int32_def)
qed

lemma timeval_longs:
  assumes "int32 (fst i)" "int32 (snd i)" "int32 (fst v)" "int32 (snd v)"
  defines "ws \<equiv> timeval_words i @ timeval_words v"
  shows "long_at ws 0 = fst i" "long_at ws 2 = snd i" "long_at ws 4 = fst v" "long_at ws 6 = snd v"
  using assms long_at_first [of _ "[]"] by (simp_all add: timeval_words_def long_at_first long_at_later)

text \<open>A timer set with setitimer reads back with getitimer as its interval and value, each rounded
  up to whole seconds, for each of the three timers.\<close>

lemma itimer_roundtrip:
  assumes "unat which \<le> 2" "copyin_words (umem k) itv 8 = Some (timeval_words i @ timeval_words v)"
    and "small_time i" "small_time v" "length (u_timer (u k)) = 2" "itv \<noteq> 0" "mapped (umem k) a 8"
  shows "let k2 = getitimer which a (setitimer which itv 0 k) in
    u_error (u k2) = NOERR \<and>
    copyin_words (umem k2) a 8 = Some (timeval_words (round_up i, 0) @ timeval_words (round_up v, 0))"
proof -
  have i32: "int32 (fst i)" "int32 (snd i)" "int32 (fst v)" "int32 (snd v)"
    using assms(3,4) by (auto simp: small_time_def int32_def)
  note l = timeval_longs [OF i32]
  define k1 where "k1 = setitimer which itv 0 k"
  have m1: "umem k1 = umem k"
    using assms(1,2,6) by (simp add: k1_def setitimer_def Let_def upd_timer_def)
  define ws where "ws = timeval_words (round_up i, 0) @ timeval_words (round_up v, 0)"
  have g: "getitimer which a k1 = (let (e, m) = copyout_words (umem k1) a ws in set_error e (k1\<lparr>umem := m\<rparr>))"
  proof (cases "which = 0")
    case True
    then have "p_realtimer (procs k1 (u_procp (u k1))) = \<lparr>it_interval = round_up i, it_value = round_up v\<rparr>"
      using assms(2,6) l round_small(1) [OF assms(3)] round_small(1) [OF assms(4)]
      by (simp add: k1_def setitimer_def Let_def)
    then show ?thesis using True by (simp add: getitimer_def ws_def)
  next
    case False
    then have w: "unat which - 1 < 2" using assms(1) by simp
    have "u_timer (u k1) ! (unat which - 1) = \<lparr>it_interval = round_ticks i, it_value = round_ticks v\<rparr>"
      using False assms(1,2,5,6) l w by (simp add: k1_def setitimer_def Let_def upd_timer_def)
    then show ?thesis
      using False assms(1) round_small(2) [OF assms(3)] round_small(2) [OF assms(4)]
      by (simp add: getitimer_def ws_def)
  qed
  have len: "length ws = 8" by (simp add: ws_def timeval_words_def)
  have "mapped (umem k1) a (length ws)" using assms(7) m1 len by simp
  from copy_roundtrip [OF this] have "fst (copyout_words (umem k1) a ws) = NOERR"
    "copyin_words (snd (copyout_words (umem k1) a ws)) a 8 = Some ws" using len by simp_all
  then show ?thesis
    unfolding k1_def [symmetric] Let_def g ws_def [symmetric] by (simp split: prod.split) (metis fst_conv snd_conv)
qed

definition demo_timer :: kern where
  "demo_timer = upd_u (\<lambda>v. v\<lparr>u_timer := replicate 2 \<lparr>it_interval = 0, it_value = 0\<rparr>\<rparr>)
     (demo_kern\<lparr>umem := (\<lambda>_. Some 0)(0x42 \<mapsto> 2, 0x4a \<mapsto> 5, 0x4e \<mapsto> 1)\<rparr>)"

lemma itimer_roundtrip_witness:
  "let k2 = getitimer 1 0x80 (setitimer 1 0x40 0 demo_timer) in
   copyin_words (umem k2) 0x80 8 = Some (timeval_words (2, 0) @ timeval_words (6, 0))"
proof -
  have m: "umem demo_timer = (\<lambda>_. Some 0)(0x42 \<mapsto> 2, 0x4a \<mapsto> 5, 0x4e \<mapsto> 1)" by (simp add: demo_timer_def)
  have "copyin_words (umem demo_timer) 0x40 8 = Some (timeval_words (2, 0) @ timeval_words (5, 1))"
    unfolding m by code_simp
  moreover have "mapped (umem demo_timer) 0x80 8" by (simp add: m mapped_def)
  ultimately show ?thesis
    using itimer_roundtrip [of 1 demo_timer "0x40" "(2, 0)" "(5, 1)" "0x80"]
    by (simp add: small_time_def int32_def round_up_def Let_def demo_timer_def)
qed

text \<open>A setitimer whose old-value pointer faults reports success all the same.\<close>

lemma setitimer_forgets_fault:
  assumes "unat which \<le> 2" "itv \<noteq> 0" "oitv \<noteq> 0" "umem k oitv = None" "copyin_words (umem k) itv 8 = Some ws"
  shows "u_error (u (setitimer which itv oitv k)) = NOERR"
proof -
  have "umem (getitimer which oitv k) = umem k"
    using assms(1,4) by (simp add: getitimer_def Let_def timeval_words_def words_of_long_def long_words_def split: prod.splits)
  then show ?thesis using assms by (simp add: setitimer_def Let_def upd_timer_def)
qed

end
