(* ===== verification/Files.thy ===== *)
theory Files imports Callout Inode begin

text \<open>
  The open-file table (struct file, file.h) and the state the descriptor and file-lock routines work on:
  the kernel state with the file table, the next place to look for a free entry (\<open>lastf\<close>), the in-core
  inodes, and the addresses of two members of an inode, on which processes sleep. The descriptors are in
  the user structure of Kern. A file's data is an inode or a socket, by its type, as an index. \<open>f_count\<close>
  is a char, signed.
\<close>

abbreviation (input) "NOFILE \<equiv> 30 :: nat"
abbreviation (input) "UF_EXCLOSE \<equiv> 1 :: u_char"
abbreviation (input) "FOPEN \<equiv> - 1 :: int"
abbreviation (input) "FREAD \<equiv> 0x1 :: u_int"
abbreviation (input) "FWRITE \<equiv> 0x2 :: u_int"
abbreviation (input) "FNDELAY \<equiv> 0x4 :: u_int"
abbreviation (input) "FMARK \<equiv> 0x10 :: u_int"
abbreviation (input) "FDEFER \<equiv> 0x20 :: u_int"
abbreviation (input) "FASYNC \<equiv> 0x40 :: u_int"
abbreviation (input) "FSHLOCK \<equiv> 0x80 :: u_int"
abbreviation (input) "FEXLOCK \<equiv> 0x100 :: u_int"

definition FCNTLCANT :: u_int where
  "FCNTLCANT = or FREAD (or FWRITE (or FMARK (or FDEFER (or FSHLOCK FEXLOCK))))"

datatype ftype = DTYPE_NONE | DTYPE_INODE | DTYPE_SOCKET | DTYPE_PIPE

record file_entry =
  f_flag :: u_int
  f_type :: ftype
  f_count :: u_char
  f_msgcount :: u_int
  f_data :: "nat option"
  f_offset :: int

record fdk = clk +
  files :: "file_entry list"
  lastf :: "nat option"
  inodes :: "nat \<Rightarrow> inode"
  a_inode :: "nat \<Rightarrow> u_int"
  a_shlockc :: "nat \<Rightarrow> u_int"
  a_exlockc :: "nat \<Rightarrow> u_int"

definition upd_file :: "nat \<Rightarrow> (file_entry \<Rightarrow> file_entry) \<Rightarrow> 'a fdk_scheme \<Rightarrow> 'a fdk_scheme" where
  "upd_file fp f k = k\<lparr>files := (files k)[fp := f (files k ! fp)]\<rparr>"

definition upd_inode :: "nat \<Rightarrow> (inode \<Rightarrow> inode) \<Rightarrow> 'a fdk_scheme \<Rightarrow> 'a fdk_scheme" where
  "upd_inode ip f k = k\<lparr>inodes := (inodes k)(ip := f (inodes k ip))\<rparr>"

lemma upd_file_simps [simp]:
  "procs (upd_file fp f k) = procs k" "u (upd_file fp f k) = u k" "umem (upd_file fp f k) = umem k"
  "inodes (upd_file fp f k) = inodes k" "files (upd_file fp f k) = (files k)[fp := f (files k ! fp)]"
  "lastf (upd_file fp f k) = lastf k" "a_shlockc (upd_file fp f k) = a_shlockc k"
  "a_exlockc (upd_file fp f k) = a_exlockc k" "a_inode (upd_file fp f k) = a_inode k"
  "a_runout (upd_file fp f k) = a_runout k" "k_runout (upd_file fp f k) = k_runout k"
  by (simp_all add: upd_file_def)

lemma upd_inode_simps [simp]:
  "procs (upd_inode ip g k) = procs k" "u (upd_inode ip g k) = u k" "umem (upd_inode ip g k) = umem k"
  "inodes (upd_inode ip g k) = (inodes k)(ip := g (inodes k ip))" "files (upd_inode ip g k) = files k"
  "lastf (upd_inode ip g k) = lastf k" "a_shlockc (upd_inode ip g k) = a_shlockc k"
  "a_exlockc (upd_inode ip g k) = a_exlockc k" "a_inode (upd_inode ip g k) = a_inode k"
  "a_runout (upd_inode ip g k) = a_runout k" "k_runout (upd_inode ip g k) = k_runout k"
  by (simp_all add: upd_inode_def)

lemma fdk_upd_u_simps [simp]:
  "files (upd_u g k) = files k" "lastf (upd_u g k) = lastf k" "inodes (upd_u g k) = inodes k"
  "a_shlockc (upd_u g k) = a_shlockc k" "a_exlockc (upd_u g k) = a_exlockc k" "a_inode (upd_u g k) = a_inode k"
  "files (set_error e k) = files k" "lastf (set_error e k) = lastf k" "inodes (set_error e k) = inodes k"
  "a_shlockc (set_error e k) = a_shlockc k" "a_exlockc (set_error e k) = a_exlockc k"
  "a_inode (set_error e k) = a_inode k"
  by (simp_all add: upd_u_def set_error_def)

text \<open>
  What the descriptor routines call and this development does not model, as arguments: locking and
  releasing an inode (ufs_inode.c), the drivers' switch tables, the buffer cache, the mount table's
  devices, sockets. A driver's close or ioctl routine that a signal interrupts (\<open>longjmp\<close>) has the
  result false or \<open>None\<close>.
\<close>

datatype ioctl_cmd = FIONREAD | FIONBIO | FIOASYNC | TIOCGPGRP | TIOCSPGRP | OtherIoctl u_int

record 's fileops =
  x_ilock :: "nat \<Rightarrow> 's \<Rightarrow> 's"
  x_iput :: "nat \<Rightarrow> 's \<Rightarrow> 's"
  x_mounted :: "u_int \<Rightarrow> 's \<Rightarrow> bool"
  x_bflush :: "u_int \<Rightarrow> 's \<Rightarrow> 's"
  x_binval :: "u_int \<Rightarrow> 's \<Rightarrow> 's"
  x_bdclose :: "u_int \<Rightarrow> u_int \<Rightarrow> 's \<Rightarrow> bool \<times> 's"
  x_cdclose :: "u_int \<Rightarrow> u_int \<Rightarrow> 's \<Rightarrow> bool \<times> 's"
  x_cdioctl :: "u_int \<Rightarrow> ioctl_cmd \<Rightarrow> int \<Rightarrow> u_int \<Rightarrow> 's \<Rightarrow> (errno \<times> int) option \<times> 's"
  x_soclose :: "nat option \<Rightarrow> bool \<Rightarrow> 's \<Rightarrow> 's"
  x_so_pgrp :: "nat option \<Rightarrow> 's \<Rightarrow> int"
  x_set_so_pgrp :: "nat option \<Rightarrow> int \<Rightarrow> 's \<Rightarrow> 's"
  x_soo_stat :: "nat option \<Rightarrow> 's \<Rightarrow> errno \<times> u_int list"
  x_sooioctl :: "nat option \<Rightarrow> ioctl_cmd \<Rightarrow> int \<Rightarrow> 's \<Rightarrow> (errno \<times> int) \<times> 's"

end
