(* ===== verification/SysInode.thy ===== *)
theory SysInode imports Files Sleep begin

text \<open>
  \<open>src/sys/sys/sys_inode.c\<close> without the data transfer: ioctl, stat and close on an inode, and
  advisory locks. A file whose data pointer is NULL makes the routines follow a null pointer: \<open>None\<close>.
\<close>

section \<open>ioctl, stat\<close>

text \<open>\<open>ino_ioctl\<close>: the error and the data word; on an interrupted driver EINTR or, when the system call
  is to be restarted, \<open>u_eosys = RESTARTSYS\<close>. It takes the data of any file for an inode; for a socket that is a
  wild pointer.\<close>

definition interrupted :: "'a kern_scheme \<Rightarrow> errno \<times> 'a kern_scheme" where
  "interrupted k =
     (if and (u_sigintr (u k)) (sigmask (p_cursig (procs k (u_procp (u k))))) \<noteq> 0 then (EINTR, k)
      else (NOERR, upd_u (\<lambda>v. v\<lparr>u_eosys := 2\<rparr>) k))"

definition ino_ioctl ::
  "('a fdk_scheme) fileops \<Rightarrow> nat \<Rightarrow> ioctl_cmd \<Rightarrow> int \<Rightarrow> 'a fdk_scheme \<Rightarrow> ((errno \<times> int) \<times> 'a fdk_scheme) option" where
  "ino_ioctl x fp com d k =
     (let f = files k ! fp in
      case (if f_type f = DTYPE_SOCKET then None else f_data f) of None \<Rightarrow> None
      | Some i \<Rightarrow>
          let ip = inodes k i; fmt = and (i_mode ip) IFMT in
          if fmt = IFREG \<or> fmt = IFDIR then
            (if com = FIONREAD then
               Some ((NOERR, if f_type f = DTYPE_PIPE \<and> \<not> flag (f_flag f) FREAD then 0
                 else wrap32 (i_size ip - f_offset f)), k)
             else if com = FIONBIO \<or> com = FIOASYNC then Some ((NOERR, d), k)
             else Some ((ENOTTY, d), k))
          else if fmt = IFCHR then
            (let k1 = upd_u (\<lambda>v. v\<lparr>r_val1 := 0\<rparr>) k in
             case x_cdioctl x (i_rdev ip) com d (f_flag f) k1 of
               (Some r, k2) \<Rightarrow> Some (r, k2)
             | (None, k2) \<Rightarrow> (let (e, k3) = interrupted k2 in Some ((e, d), k3)))
          else Some ((ENOTTY, d), k))"

text \<open>struct stat as the words copied out; \<open>st_size\<close> is words 7 and 8.\<close>

definition long16 :: "int \<Rightarrow> u_int list" where
  "long16 v = long_words (word_of_int v)"

definition btodb :: "int \<Rightarrow> int" where
  "btodb b = drop_bit 10 b"

definition stat_words :: "int \<Rightarrow> inode \<Rightarrow> u_int list" where
  "stat_words st_size ip =
     [i_dev ip, i_number ip, i_mode ip, i_nlink ip, word_of_int (i_uid ip), word_of_int (i_gid ip), i_rdev ip] @
     long16 st_size @ long16 (i_atime ip) @ [0] @ long16 (i_mtime ip) @ [0] @ long16 (i_ctime ip) @ [0] @
     long16 1024 @ long16 (btodb (wrap32 (i_size ip + 1024 - 1))) @ [0, 0, 0, 0]"

section \<open>Advisory locks\<close>

definition ino_unlock_sh :: "nat \<Rightarrow> u_int \<Rightarrow> nat \<Rightarrow> 'a fdk_scheme \<Rightarrow> 'a fdk_scheme option" where
  "ino_unlock_sh fp flags ip k =
     (if \<not> flag flags ISHLOCK then None
      else do {
        let k1 = upd_inode ip (\<lambda>i. i\<lparr>i_shlockc := i_shlockc i - 1\<rparr>) k;
        k2 \<leftarrow> (if i_shlockc (inodes k1 ip) = 0 then
                 (let k2 = upd_inode ip (\<lambda>i. i\<lparr>i_flag := clr_flag ISHLOCK (i_flag i)\<rparr>) k1 in
                  if flag flags ILWAIT then wakeup (a_shlockc k2 ip) k2 else Some k2)
               else Some k1);
        Some (upd_file fp (\<lambda>f. f\<lparr>f_flag := clr_flag FSHLOCK (f_flag f)\<rparr>) k2)
      })"

definition ino_unlock_ex :: "nat \<Rightarrow> u_int \<Rightarrow> nat \<Rightarrow> 'a fdk_scheme \<Rightarrow> 'a fdk_scheme option" where
  "ino_unlock_ex fp flags ip k =
     (if \<not> flag flags IEXLOCK then None
      else do {
        let k1 = upd_inode ip (\<lambda>i. i\<lparr>i_exlockc := i_exlockc i - 1\<rparr>) k;
        k2 \<leftarrow> (if i_exlockc (inodes k1 ip) = 0 then
                 (let k2 = upd_inode ip (\<lambda>i. i\<lparr>i_flag := clr_flag (or IEXLOCK ILWAIT) (i_flag i)\<rparr>) k1 in
                  if flag flags ILWAIT then wakeup (a_exlockc k2 ip) k2 else Some k2)
               else Some k1);
        Some (upd_file fp (\<lambda>f. f\<lparr>f_flag := clr_flag FEXLOCK (f_flag f)\<rparr>) k2)
      })"

definition ino_unlock :: "nat \<Rightarrow> u_int \<Rightarrow> 'a fdk_scheme \<Rightarrow> 'a fdk_scheme option" where
  "ino_unlock fp kind0 k =
     (let kind = and kind0 (f_flag (files k ! fp)) in
      case f_data (files k ! fp) of None \<Rightarrow> Some k
      | Some ip \<Rightarrow>
          if kind = 0 then Some k
          else let flags = i_flag (inodes k ip) in do {
            k1 \<leftarrow> (if flag kind FSHLOCK then ino_unlock_sh fp flags ip k else Some k);
            if flag kind FEXLOCK then ino_unlock_ex fp flags ip k1 else Some k1
          })"

abbreviation (input) "LOCK_SH \<equiv> 1 :: u_int"
abbreviation (input) "LOCK_EX \<equiv> 2 :: u_int"
abbreviation (input) "LOCK_NB \<equiv> 4 :: u_int"
abbreviation (input) "LOCK_UN \<equiv> 8 :: u_int"
abbreviation (input) "PLOCK \<equiv> 35 :: int"

text \<open>
  \<open>ino_lock\<close> from its label \<open>again\<close>: it returns an error number, or it is about to sleep on a channel
  at a priority and goes on from the label when it is woken. The panic is \<open>None\<close>.
\<close>

datatype lock_out = LkRet errno | LkSleep u_int int

definition take_lock :: "nat \<Rightarrow> nat \<Rightarrow> u_int \<Rightarrow> 'a fdk_scheme \<Rightarrow> 'a fdk_scheme" where
  "take_lock fp ip cmd0 k =
     (let (cmd, k1) = (if flag cmd0 LOCK_EX then (clr_flag LOCK_SH cmd0,
            upd_file fp (\<lambda>f. f\<lparr>f_flag := set_flag FEXLOCK (f_flag f)\<rparr>)
              (upd_inode ip (\<lambda>i. i\<lparr>i_exlockc := i_exlockc i + 1, i_flag := set_flag IEXLOCK (i_flag i)\<rparr>) k))
          else (cmd0, k))
      in if flag cmd LOCK_SH \<and> \<not> flag (f_flag (files k1 ! fp)) FSHLOCK then
           upd_file fp (\<lambda>f. f\<lparr>f_flag := set_flag FSHLOCK (f_flag f)\<rparr>)
             (upd_inode ip (\<lambda>i. i\<lparr>i_shlockc := i_shlockc i + 1, i_flag := set_flag ISHLOCK (i_flag i)\<rparr>) k1)
         else k1)"

partial_function (option) ino_lock_again ::
  "nat \<Rightarrow> u_int \<Rightarrow> int \<Rightarrow> 'a fdk_scheme \<Rightarrow> (lock_out \<times> 'a fdk_scheme) option" where
  "ino_lock_again fp cmd pri k = (case f_data (files k ! fp) of None \<Rightarrow> None
     | Some ip \<Rightarrow>
        (if flag (i_flag (inodes k ip)) IEXLOCK then
           (if flag (f_flag (files k ! fp)) FEXLOCK then
              Option.bind (ino_unlock fp FEXLOCK k) (ino_lock_again fp cmd pri)
            else if flag cmd LOCK_NB then Some (LkRet EWOULDBLOCK, k)
            else Some (LkSleep (a_exlockc k ip) pri,
              upd_inode ip (\<lambda>i. i\<lparr>i_flag := set_flag ILWAIT (i_flag i)\<rparr>) k))
         else if flag cmd LOCK_EX \<and> flag (i_flag (inodes k ip)) ISHLOCK then
           (if flag (f_flag (files k ! fp)) FSHLOCK then
              Option.bind (ino_unlock fp FSHLOCK k) (ino_lock_again fp cmd pri)
            else if flag cmd LOCK_NB then Some (LkRet EWOULDBLOCK, k)
            else Some (LkSleep (a_shlockc k ip) PLOCK,
              upd_inode ip (\<lambda>i. i\<lparr>i_flag := set_flag ILWAIT (i_flag i)\<rparr>) k))
         else if flag (f_flag (files k ! fp)) FEXLOCK then None
         else Some (LkRet NOERR, take_lock fp ip cmd k)))"

definition ino_lock :: "nat \<Rightarrow> u_int \<Rightarrow> 'a fdk_scheme \<Rightarrow> (lock_out \<times> 'a fdk_scheme) option" where
  "ino_lock fp cmd k = ino_lock_again fp cmd (if flag cmd LOCK_EX then PLOCK else PLOCK + 4) k"

section \<open>Close and open\<close>

text \<open>Is another open file an inode of the same device and kind?\<close>

definition dev_active :: "u_int \<Rightarrow> u_int \<Rightarrow> 'a fdk_scheme \<Rightarrow> bool" where
  "dev_active dev mode k = list_ex (\<lambda>f. f_type f = DTYPE_INODE \<and> f_count f \<noteq> 0 \<and>
     (case f_data f of None \<Rightarrow> False
      | Some i \<Rightarrow> i_rdev (inodes k i) = dev \<and> and (i_mode (inodes k i)) IFMT = mode)) (files k)"

definition ino_close :: "('a fdk_scheme) fileops \<Rightarrow> nat \<Rightarrow> 'a fdk_scheme \<Rightarrow> 'a fdk_scheme option" where
  "ino_close x fp k = (case f_data (files k ! fp) of None \<Rightarrow> None
     | Some ip \<Rightarrow> do {
         k1 \<leftarrow> (if flag (f_flag (files k ! fp)) (or FSHLOCK FEXLOCK) then ino_unlock fp (or FSHLOCK FEXLOCK) k else Some k);
         let flags = f_flag (files k1 ! fp);
         let dev = i_rdev (inodes k1 ip);
         let mode = and (i_mode (inodes k1 ip)) IFMT;
         let k2 = x_ilock x ip k1;
         k3 \<leftarrow> (if f_type (files k2 ! fp) = DTYPE_PIPE then do {
                  let k3 = upd_inode ip (\<lambda>i. i\<lparr>i_mode := clr_flag (or IREAD IWRITE) (i_mode i)\<rparr>) k2;
                  k4 \<leftarrow> wakeup (a_inode k3 ip + 1) k3;
                  wakeup (a_inode k4 ip + 2) k4
                } else Some k2);
         let k4 = upd_file fp (\<lambda>f. f\<lparr>f_data := None\<rparr>) (x_iput x ip k3);
         if mode \<noteq> IFCHR \<and> mode \<noteq> IFBLK then Some k4
         else if mode = IFBLK \<and> x_mounted x dev k4 then Some k4
         else if dev_active dev mode k4 then Some k4
         else
           let k5 = (if mode = IFBLK then x_binval x dev (x_bflush x dev k4) else k4);
               (returned, k6) = (if mode = IFBLK then x_bdclose x dev flags k5 else x_cdclose x dev flags k5)
           in Some (if \<not> returned \<and> u_error (u k6) = NOERR then set_error EINTR k6 else k6)
       })"

text \<open>\<open>openi\<close>; the drivers' open routines are arguments, with the sizes of the two switch tables.\<close>

definition openi ::
  "(u_int \<Rightarrow> u_int \<Rightarrow> 'a kern_scheme \<Rightarrow> errno \<times> 'a kern_scheme) \<Rightarrow> (u_int \<Rightarrow> u_int \<Rightarrow> 'a kern_scheme \<Rightarrow> errno \<times> 'a kern_scheme) \<Rightarrow>
   nat \<Rightarrow> nat \<Rightarrow> inode \<Rightarrow> u_int \<Rightarrow> 'a kern_scheme \<Rightarrow> errno \<times> 'a kern_scheme" where
  "openi cdopen bdopen nchrdev nblkdev ip mode k =
     (let dev = i_rdev ip; maj = unat (drop_bit 8 dev); fmt = and (i_mode ip) IFMT in
      if fmt = IFCHR then (if maj \<ge> nchrdev then (ENXIO, k) else cdopen dev mode k)
      else if fmt = IFBLK then (if maj \<ge> nblkdev then (ENXIO, k) else bdopen dev mode k)
      else (NOERR, k))"

end
