(* ===== verification/Descrip.thy ===== *)
theory Descrip imports SysInode begin

text \<open>
  \<open>src/sys/sys/kern_descrip.c\<close>: the system calls on descriptors and the open-file table. System calls
  read their arguments as parameters; \<open>x\<close> stands for the routines below (Files).
\<close>

section \<open>Looking up and allocating\<close>

text \<open>The macro \<open>GETF\<close> and the routine \<open>getf\<close>.\<close>

definition getf :: "int \<Rightarrow> 'a kern_scheme \<Rightarrow> nat option \<times> 'a kern_scheme" where
  "getf fd k =
     (if fd < 0 \<or> fd \<ge> int NOFILE then (None, set_error EBADF k)
      else case u_ofile (u k) ! nat fd of None \<Rightarrow> (None, set_error EBADF k) | Some fp \<Rightarrow> (Some fp, k))"

definition getdtablesize :: "'a kern_scheme \<Rightarrow> 'a kern_scheme" where
  "getdtablesize = upd_u (\<lambda>v. v\<lparr>r_val1 := int NOFILE\<rparr>)"

text \<open>\<open>getdopt\<close> and \<open>setdopt\<close> do nothing.\<close>

definition ufalloc :: "nat \<Rightarrow> 'a kern_scheme \<Rightarrow> nat option \<times> 'a kern_scheme" where
  "ufalloc i0 k = (case List.find (\<lambda>i. u_ofile (u k) ! i = None) [i0 ..< NOFILE] of
       None \<Rightarrow> (None, set_error EMFILE k)
     | Some i \<Rightarrow> (Some i, upd_u (\<lambda>v. v\<lparr>r_val1 := int i, u_pofile := (u_pofile v)[i := 0],
           u_lastfile := (if int i > u_lastfile v then int i else u_lastfile v)\<rparr>) k))"

definition ufavail :: "'a kern_scheme \<Rightarrow> nat" where
  "ufavail k = length (filter (\<lambda>i. u_ofile (u k) ! i = None) [0 ..< NOFILE])"

text \<open>The two searches of falloc for a free entry: from \<open>lastf\<close> to the end, then from the start.\<close>

definition free_entry :: "nat \<Rightarrow> file_entry list \<Rightarrow> nat option" where
  "free_entry l fs = List.find (\<lambda>fp. f_count (fs ! fp) = 0) ([l ..< length fs] @ [0 ..< l])"

definition falloc :: "'a fdk_scheme \<Rightarrow> nat option \<times> 'a fdk_scheme" where
  "falloc k = (case ufalloc 0 k of (None, k1) \<Rightarrow> (None, k1)
     | (Some i, k1) \<Rightarrow>
        let l = (case lastf k1 of None \<Rightarrow> 0 | Some l \<Rightarrow> l); k2 = k1\<lparr>lastf := Some l\<rparr> in
        (case free_entry l (files k2) of None \<Rightarrow> (None, set_error ENFILE k2)
         | Some fp \<Rightarrow> (Some fp,
             (upd_file fp (\<lambda>f. f\<lparr>f_count := 1, f_data := None, f_offset := 0\<rparr>)
               (upd_u (\<lambda>v. v\<lparr>u_ofile := (u_ofile v)[i := Some fp]\<rparr>) k2))\<lparr>lastf := Some (Suc fp)\<rparr>)))"

section \<open>Closing\<close>

text \<open>\<open>closef\<close> for an open file; a NULL pointer, which it tolerates, is not passed to it here.\<close>

definition closef :: "('a fdk_scheme) fileops \<Rightarrow> nat \<Rightarrow> bool \<Rightarrow> 'a fdk_scheme \<Rightarrow> 'a fdk_scheme option" where
  "closef x fp nouser k =
     (let f = files k ! fp in
      if sint (f_count f) > 1 then Some (upd_file fp (\<lambda>f. f\<lparr>f_count := f_count f - 1\<rparr>) k)
      else case f_type f of
          DTYPE_SOCKET \<Rightarrow>
            (let k1 = x_soclose x (f_data f) nouser (set_error NOERR k) in
             if \<not> nouser \<and> u_error (u k1) \<noteq> NOERR then Some k1
             else Some (upd_file fp (\<lambda>f. f\<lparr>f_data := None, f_count := 0\<rparr>) (set_error NOERR k1)))
        | DTYPE_NONE \<Rightarrow> Some (upd_file fp (\<lambda>f. f\<lparr>f_count := 0\<rparr>) k)
        | _ \<Rightarrow> map_option (upd_file fp (\<lambda>f. f\<lparr>f_count := 0\<rparr>)) (ino_close x fp k))"

text \<open>The loop \<open>while (u.u_lastfile >= 0 && u.u_ofile[u.u_lastfile] == NULL) u.u_lastfile--\<close>.\<close>

fun drop_last :: "nat option list \<Rightarrow> nat \<Rightarrow> int" where
  "drop_last os 0 = - 1"
| "drop_last os (Suc n) = (if os ! n = None then drop_last os n else int n)"

definition close :: "('a fdk_scheme) fileops \<Rightarrow> int \<Rightarrow> 'a fdk_scheme \<Rightarrow> 'a fdk_scheme option" where
  "close x i k = (case getf i k of (None, k1) \<Rightarrow> Some k1
     | (Some fp, k1) \<Rightarrow>
        let k2 = upd_u (\<lambda>v. v\<lparr>u_ofile := (u_ofile v)[nat i := None]\<rparr>) k1;
            k3 = upd_u (\<lambda>v. v\<lparr>u_lastfile := drop_last (u_ofile v) (nat (u_lastfile v + 1))\<rparr>) k2
        in closef x fp False k3)"

section \<open>Duplicating\<close>

definition dupit :: "nat \<Rightarrow> nat \<Rightarrow> u_char \<Rightarrow> 'a fdk_scheme \<Rightarrow> 'a fdk_scheme" where
  "dupit fd fp flags k =
     upd_u (\<lambda>v. v\<lparr>u_lastfile := (if int fd > u_lastfile v then int fd else u_lastfile v)\<rparr>)
       (upd_file fp (\<lambda>f. f\<lparr>f_count := f_count f + 1\<rparr>)
         (upd_u (\<lambda>v. v\<lparr>u_ofile := (u_ofile v)[fd := Some fp], u_pofile := (u_pofile v)[fd := flags]\<rparr>) k))"

definition not_exclose :: "u_char \<Rightarrow> u_char" where
  "not_exclose f = and f (not UF_EXCLOSE)"

definition dup2 :: "('a fdk_scheme) fileops \<Rightarrow> int \<Rightarrow> int \<Rightarrow> 'a fdk_scheme \<Rightarrow> 'a fdk_scheme option" where
  "dup2 x i j k = (case getf i k of (None, k1) \<Rightarrow> Some k1
     | (Some fp, k1) \<Rightarrow>
        if j < 0 \<or> j \<ge> int NOFILE then Some (set_error EBADF k1)
        else
          let k2 = upd_u (\<lambda>v. v\<lparr>r_val1 := j\<rparr>) k1 in
          if i = j then Some k2
          else (case u_ofile (u k2) ! nat j of
              None \<Rightarrow> Some (dupit (nat j) fp (not_exclose (u_pofile (u k2) ! nat i)) k2)
            | Some old \<Rightarrow> map_option (\<lambda>k3.
                if u_error (u k3) \<noteq> NOERR then k3
                else dupit (nat j) fp (not_exclose (u_pofile (u k3) ! nat i)) k3) (closef x old False k2)))"

text \<open>\<open>dup\<close>: bits above 077 make it dup2 of the low six bits and the second argument word.\<close>

definition dup :: "('a fdk_scheme) fileops \<Rightarrow> int \<Rightarrow> int \<Rightarrow> 'a fdk_scheme \<Rightarrow> 'a fdk_scheme option" where
  "dup x i j k =
     (if and i (not 63) \<noteq> 0 then dup2 x (and i 63) j k
      else (case getf i k of (None, k1) \<Rightarrow> Some k1
        | (Some fp, k1) \<Rightarrow> (case ufalloc 0 k1 of (None, k2) \<Rightarrow> Some k2
             | (Some j, k2) \<Rightarrow> Some (dupit j fp (not_exclose (u_pofile (u k2) ! nat i)) k2))))"

section \<open>fcntl\<close>

definition set_bit_if :: "u_int \<Rightarrow> bool \<Rightarrow> u_int \<Rightarrow> u_int" where
  "set_bit_if b v f = (if v then set_flag b f else clr_flag b f)"

definition fset :: "('a fdk_scheme) fileops \<Rightarrow> nat \<Rightarrow> u_int \<Rightarrow> u_int \<Rightarrow> 'a fdk_scheme \<Rightarrow> (errno \<times> 'a fdk_scheme) option" where
  "fset x fp b v k =
     map_option (\<lambda>((e, _), k1). (e, k1))
       (ino_ioctl x fp (if b = FNDELAY then FIONBIO else FIOASYNC) (sint v)
         (upd_file fp (\<lambda>f. f\<lparr>f_flag := set_bit_if b (v \<noteq> 0) (f_flag f)\<rparr>) k))"

text \<open>The data word for ino_ioctl is \<open>u.u_r.r_val1\<close> itself, which ino_ioctl clears for a device.\<close>

definition fgetown :: "('a fdk_scheme) fileops \<Rightarrow> nat \<Rightarrow> 'a fdk_scheme \<Rightarrow> (errno \<times> int \<times> 'a fdk_scheme) option" where
  "fgetown x fp k =
     (if f_type (files k ! fp) = DTYPE_SOCKET then Some (NOERR, x_so_pgrp x (f_data (files k ! fp)) k, k)
      else map_option (\<lambda>((e, v), k1). (e, wrap16 (- v), k1)) (ino_ioctl x fp TIOCGPGRP
             (if (case f_data (files k ! fp) of None \<Rightarrow> False | Some i \<Rightarrow> and (i_mode (inodes k i)) IFMT = IFCHR)
              then 0 else r_val1 (u k)) k))"

definition fsetown :: "('a fdk_scheme) fileops \<Rightarrow> nat \<Rightarrow> int \<Rightarrow> 'a fdk_scheme \<Rightarrow> (errno \<times> 'a fdk_scheme) option" where
  "fsetown x fp v k =
     (if f_type (files k ! fp) = DTYPE_SOCKET then Some (NOERR, x_set_so_pgrp x (f_data (files k ! fp)) v k)
      else do {
        r \<leftarrow> (if v > 0 then map_option (map_option (\<lambda>p. p_pgrp (procs k p))) (pfind v k) else Some (Some (wrap16 (- v))));
        case r of None \<Rightarrow> Some (ESRCH, k)
        | Some pg \<Rightarrow> map_option (\<lambda>((e, _), k1). (e, k1)) (ino_ioctl x fp TIOCSPGRP pg k)
      })"

datatype fcntl_cmd = F_DUPFD | F_GETFD | F_SETFD | F_GETFL | F_SETFL | F_GETOWN | F_SETOWN | F_OTHER

definition setfl_flags :: "int \<Rightarrow> u_int \<Rightarrow> u_int" where
  "setfl_flags arg f = or (and f FCNTLCANT) (and (word_of_int (arg - FOPEN)) (not FCNTLCANT))"

definition fcntl :: "('a fdk_scheme) fileops \<Rightarrow> int \<Rightarrow> fcntl_cmd \<Rightarrow> int \<Rightarrow> 'a fdk_scheme \<Rightarrow> 'a fdk_scheme option" where
  "fcntl x fdes cmd arg k = (case getf fdes k of (None, k1) \<Rightarrow> Some k1
     | (Some fp, k1) \<Rightarrow>
        let pop = u_pofile (u k1) ! nat fdes in (case cmd of
          F_DUPFD \<Rightarrow>
            if arg < 0 \<or> arg \<ge> int NOFILE then Some (set_error EINVAL k1)
            else (case ufalloc (nat arg) k1 of (None, k2) \<Rightarrow> Some k2
              | (Some i, k2) \<Rightarrow> Some (dupit i fp (not_exclose (u_pofile (u k2) ! nat fdes)) k2))
        | F_GETFD \<Rightarrow> Some (upd_u (\<lambda>v. v\<lparr>r_val1 := uint (and pop 1)\<rparr>) k1)
        | F_SETFD \<Rightarrow> Some (upd_u (\<lambda>v. v\<lparr>u_pofile := (u_pofile v)[nat fdes := or (and pop (not 1)) (and (word_of_int arg) 1)]\<rparr>) k1)
        | F_GETFL \<Rightarrow> Some (upd_u (\<lambda>v. v\<lparr>r_val1 := wrap16 (sint (f_flag (files k1 ! fp)) + FOPEN)\<rparr>) k1)
        | F_SETFL \<Rightarrow> do {
            let k2 = upd_file fp (\<lambda>f. f\<lparr>f_flag := setfl_flags arg (f_flag f)\<rparr>) k1;
            (e, k3) \<leftarrow> fset x fp FNDELAY (and (f_flag (files k2 ! fp)) FNDELAY) k2;
            let k4 = set_error e k3;
            if e \<noteq> NOERR then Some k4
            else do {
              (e, k5) \<leftarrow> fset x fp FASYNC (and (f_flag (files k4 ! fp)) FASYNC) k4;
              let k6 = set_error e k5;
              if e \<noteq> NOERR then map_option snd (fset x fp FNDELAY 0 k6) else Some k6
            }
          }
        | F_GETOWN \<Rightarrow> map_option (\<lambda>(e, v, k2). set_error e (upd_u (\<lambda>w. w\<lparr>r_val1 := v\<rparr>) k2)) (fgetown x fp k1)
        | F_SETOWN \<Rightarrow> map_option (\<lambda>(e, k2). set_error e k2) (fsetown x fp arg k1)
        | F_OTHER \<Rightarrow> Some (set_error EINVAL k1)))"

section \<open>fstat, flock\<close>

definition fstat :: "('a fdk_scheme) fileops \<Rightarrow> int \<Rightarrow> u_int \<Rightarrow> 'a fdk_scheme \<Rightarrow> 'a fdk_scheme option" where
  "fstat x fdes sb k = (case getf fdes k of (None, k1) \<Rightarrow> Some k1
     | (Some fp, k1) \<Rightarrow>
        let f = files k1 ! fp;
            finish = (\<lambda>(e, ws) k2.
              if e \<noteq> NOERR then set_error e k2
              else (case copyout_words (umem k2) sb ws of (e, m) \<Rightarrow> set_error e (k2\<lparr>umem := m\<rparr>)))
        in (case f_type f of
          DTYPE_NONE \<Rightarrow> None
        | DTYPE_SOCKET \<Rightarrow> Some (finish (x_soo_stat x (f_data f) k1) k1)
        | t \<Rightarrow> map_option (\<lambda>ip.
            let k2 = upd_inode ip (ITIMES (time_sec k1)) k1;
                sz = i_size (inodes k2 ip)
            in finish (NOERR, stat_words (if t = DTYPE_PIPE then wrap32 (sz - f_offset f) else sz) (inodes k2 ip)) k2)
            (f_data f)))"

text \<open>The file and the lock commands with which flock calls \<open>ino_lock\<close>, which may have to sleep.\<close>

definition flock :: "int \<Rightarrow> u_int \<Rightarrow> 'a fdk_scheme \<Rightarrow> (lock_out \<times> 'a fdk_scheme) option" where
  "flock fd how0 k = (case getf fd k of (None, k1) \<Rightarrow> Some (LkRet EBADF, k1)
     | (Some fp, k1) \<Rightarrow>
        if f_type (files k1 ! fp) \<noteq> DTYPE_INODE then Some (LkRet EOPNOTSUPP, set_error EOPNOTSUPP k1)
        else if flag how0 LOCK_UN then map_option (\<lambda>k2. (LkRet NOERR, k2)) (ino_unlock fp (or FSHLOCK FEXLOCK) k1)
        else if \<not> flag how0 (or LOCK_SH LOCK_EX) then Some (LkRet NOERR, k1)
        else
          let how = (if flag how0 LOCK_EX then clr_flag LOCK_SH how0 else how0); fl = f_flag (files k1 ! fp) in
          if flag fl FEXLOCK \<and> flag how LOCK_EX \<or> flag fl FSHLOCK \<and> flag how LOCK_SH then Some (LkRet NOERR, k1)
          else map_option (\<lambda>(r, k2). (r, case r of LkRet e \<Rightarrow> set_error e k2 | _ \<Rightarrow> k2)) (ino_lock fp how k1))"

end
