(* ===== verification/FlockProps.thy ===== *)
theory FlockProps imports Descrip SleepProps begin

text \<open>
  Advisory locks (ino_lock, ino_unlock, flock): who holds a lock of an inode, the invariant that the
  counts and flags in the inode say so, exclusion, and that no process sleeps for a lock no one holds.
\<close>

section \<open>Single bits\<close>

lemma lock_flag_bits: "flag f 0x80 \<longleftrightarrow> bit f 7" "flag f 0x100 \<longleftrightarrow> bit f 8" "flag f 0x200 \<longleftrightarrow> bit f 9"
  "flag f 1 \<longleftrightarrow> bit f 0" "flag f 2 \<longleftrightarrow> bit f 1" "flag f 4 \<longleftrightarrow> bit f 2"
proof -
  have p: "flag f (2 ^ n) \<longleftrightarrow> bit f n" for n
    by (simp add: flag_def and_exp_eq_0_iff_not_bit)
  show "flag f 0x80 \<longleftrightarrow> bit f 7" "flag f 0x100 \<longleftrightarrow> bit f 8" "flag f 0x200 \<longleftrightarrow> bit f 9"
    "flag f 1 \<longleftrightarrow> bit f 0" "flag f 2 \<longleftrightarrow> bit f 1" "flag f 4 \<longleftrightarrow> bit f 2"
    using p [of 7] p [of 8] p [of 9] p [of 0] p [of 1] p [of 2] by simp_all
qed

lemma bit_consts:
  "bit (0x80 :: u_int) n \<longleftrightarrow> n = 7" "bit (0x100 :: u_int) n \<longleftrightarrow> n = 8" "bit (0x200 :: u_int) n \<longleftrightarrow> n = 9"
proof -
  have p: "bit (2 ^ m :: u_int) n \<longleftrightarrow> n = m" if "m < 16" for m using that by (auto simp: bit_exp_iff)
  show "bit (0x80 :: u_int) n \<longleftrightarrow> n = 7" "bit (0x100 :: u_int) n \<longleftrightarrow> n = 8" "bit (0x200 :: u_int) n \<longleftrightarrow> n = 9"
    using p [of 7] p [of 8] p [of 9] by simp_all
qed

lemma clr_bits [simp]:
  "flag (clr_flag 0x80 f) 0x80 \<longleftrightarrow> False" "flag (clr_flag 0x80 f) 0x100 \<longleftrightarrow> flag f 0x100"
  "flag (clr_flag 0x80 f) 0x200 \<longleftrightarrow> flag f 0x200" "flag (clr_flag 0x100 f) 0x100 \<longleftrightarrow> False"
  "flag (clr_flag 0x100 f) 0x80 \<longleftrightarrow> flag f 0x80"
  "flag (clr_flag (or 0x100 0x200) f) 0x80 \<longleftrightarrow> flag f 0x80" "flag (clr_flag (or 0x100 0x200) f) 0x100 \<longleftrightarrow> False"
  by (simp_all only: lock_flag_bits clr_flag_def bit_and_iff bit_or_iff bit_not_iff bit_consts) simp_all

lemma clr_300 [simp]:
  "flag (clr_flag 0x300 f) 0x80 \<longleftrightarrow> flag f 0x80" "flag (clr_flag 0x300 f) 0x100 \<longleftrightarrow> False"
proof -
  have "or 0x100 0x200 = (0x300 :: u_int)" by simp
  then show "flag (clr_flag 0x300 f) 0x80 \<longleftrightarrow> flag f 0x80" "flag (clr_flag 0x300 f) 0x100 \<longleftrightarrow> False"
    using clr_bits(6,7) by (simp_all only:)
qed

lemma set_bits [simp]:
  "flag (set_flag 0x80 f) 0x80" "flag (set_flag 0x80 f) 0x100 \<longleftrightarrow> flag f 0x100" "flag (set_flag 0x80 f) 0x200 \<longleftrightarrow> flag f 0x200"
  "flag (set_flag 0x100 f) 0x100" "flag (set_flag 0x100 f) 0x80 \<longleftrightarrow> flag f 0x80" "flag (set_flag 0x100 f) 0x200 \<longleftrightarrow> flag f 0x200"
  "flag (set_flag 0x200 f) 0x80 \<longleftrightarrow> flag f 0x80" "flag (set_flag 0x200 f) 0x100 \<longleftrightarrow> flag f 0x100" "flag (set_flag 0x200 f) 0x200"
  by (simp_all only: lock_flag_bits set_flag_def bit_or_iff bit_consts) simp_all

section \<open>The invariant\<close>

definition holders :: "'a fdk_scheme \<Rightarrow> nat \<Rightarrow> u_int \<Rightarrow> nat set" where
  "holders k ip b = {fp. fp < length (files k) \<and> f_type (files k ! fp) = DTYPE_INODE \<and>
     f_data (files k ! fp) = Some ip \<and> flag (f_flag (files k ! fp)) b}"

definition ip_ok :: "'a fdk_scheme \<Rightarrow> nat \<Rightarrow> bool" where
  "ip_ok k ip \<longleftrightarrow> unat (i_shlockc (inodes k ip)) = card (holders k ip FSHLOCK) \<and>
     unat (i_exlockc (inodes k ip)) = card (holders k ip FEXLOCK) \<and>
     (flag (i_flag (inodes k ip)) ISHLOCK \<longleftrightarrow> holders k ip FSHLOCK \<noteq> {}) \<and>
     (flag (i_flag (inodes k ip)) IEXLOCK \<longleftrightarrow> holders k ip FEXLOCK \<noteq> {}) \<and>
     card (holders k ip FEXLOCK) \<le> 1 \<and> (holders k ip FEXLOCK \<noteq> {} \<longrightarrow> holders k ip FSHLOCK = {}) \<and>
     (\<forall>p. wchan k p = a_exlockc k ip \<longrightarrow> flag (i_flag (inodes k ip)) IEXLOCK \<and> flag (i_flag (inodes k ip)) ILWAIT) \<and>
     (\<forall>p. wchan k p = a_shlockc k ip \<longrightarrow> flag (i_flag (inodes k ip)) ISHLOCK \<and> flag (i_flag (inodes k ip)) ILWAIT)"

text \<open>The addresses of the two channels of each of the \<open>N\<close> inodes.\<close>

definition chans_ok :: "nat \<Rightarrow> 'a fdk_scheme \<Rightarrow> bool" where
  "chans_ok N k \<longleftrightarrow> inj_on (a_exlockc k) {..<N} \<and> inj_on (a_shlockc k) {..<N} \<and>
     a_exlockc k ` {..<N} \<inter> a_shlockc k ` {..<N} = {} \<and>
     (\<forall>ip < N. a_exlockc k ip \<noteq> 0 \<and> a_shlockc k ip \<noteq> 0)"

definition lock_inv :: "nat \<Rightarrow> 'a fdk_scheme \<Rightarrow> bool" where
  "lock_inv N k \<longleftrightarrow> sched_ok k \<and> sleepers_ok k \<and> a_runout k \<noteq> 0 \<and> chans_ok N k \<and> length (files k) < 65536 \<and>
     (\<forall>fp < length (files k). flag (f_flag (files k ! fp)) FSHLOCK \<or> flag (f_flag (files k ! fp)) FEXLOCK \<longrightarrow>
        f_type (files k ! fp) = DTYPE_INODE \<and> (\<exists>ip < N. f_data (files k ! fp) = Some ip)) \<and>
     (\<forall>ip < N. ip_ok k ip)"

text \<open>What an operation on locks may do to the rest: wake processes.\<close>

definition only_wakes :: "'a fdk_scheme \<Rightarrow> 'a fdk_scheme \<Rightarrow> bool" where
  "only_wakes k k' \<longleftrightarrow> sched_ok k' \<and> sleepers_ok k' \<and> a_runout k' = a_runout k \<and> u k' = u k \<and>
     a_exlockc k' = a_exlockc k \<and> a_shlockc k' = a_shlockc k \<and>
     (\<forall>p. wchan k' p = wchan k p \<or> wchan k' p = 0)"

lemma only_wakes_trans: "only_wakes k k1 \<Longrightarrow> only_wakes k1 k2 \<Longrightarrow> only_wakes k k2"
  unfolding only_wakes_def by metis

lemma holders_finite [simp]: "finite (holders k ip b)"
  by (simp add: holders_def)

lemma holders_card: "length (files k) < 65536 \<Longrightarrow> card (holders k ip b) < 65536"
proof -
  assume "length (files k) < 65536"
  moreover have "holders k ip b \<subseteq> {..<length (files k)}" by (auto simp: holders_def)
  from card_mono [OF _ this] have "card (holders k ip b) \<le> length (files k)" by simp
  ultimately show ?thesis by simp
qed

lemma holders_upd:
  assumes "files k' = (files k)[fp := (files k ! fp)\<lparr>f_flag := fl\<rparr>]" "fp < length (files k)"
    and "f_type (files k ! fp) = DTYPE_INODE" "f_data (files k ! fp) = Some ip"
  shows "holders k' ip b = (if flag fl b then insert fp (holders k ip b) else holders k ip b - {fp})"
    and "ip' \<noteq> ip \<Longrightarrow> holders k' ip' b = holders k ip' b"
  using assms(2-4) unfolding holders_def assms(1) by (auto simp: nth_list_update split: if_splits)

lemma lock_inv_upd:
  assumes "lock_inv N k" "fp < length (files k)" "f_type (files k ! fp) = DTYPE_INODE"
    and "f_data (files k ! fp) = Some ip" "ip < N"
    and "files k' = (files k)[fp := (files k ! fp)\<lparr>f_flag := fl\<rparr>]" "inodes k' = (inodes k)(ip := i')"
    and "only_wakes k k'" "ip_ok k' ip"
  shows "lock_inv N k'"
proof -
  note w = assms(8) [unfolded only_wakes_def]
  have other: "ip_ok k' ip'" if "ip' < N" "ip' \<noteq> ip" for ip'
  proof -
    have old: "ip_ok k ip'" using assms(1) that(1) by (simp add: lock_inv_def)
    have h: "holders k' ip' b = holders k ip' b" for b
      using holders_upd(2) [OF assms(6,2,3,4) that(2)] .
    have i: "inodes k' ip' = inodes k ip'" using that(2) by (simp add: assms(7))
    have a: "a_exlockc k' ip' = a_exlockc k ip'" "a_shlockc k' ip' = a_shlockc k ip'" using w by simp_all
    have nz: "a_exlockc k ip' \<noteq> 0" "a_shlockc k ip' \<noteq> 0" using assms(1) that(1) by (simp_all add: lock_inv_def chans_ok_def)
    have c: "wchan k' p = a_exlockc k ip' \<Longrightarrow> wchan k p = a_exlockc k ip'"
      "wchan k' p = a_shlockc k ip' \<Longrightarrow> wchan k p = a_shlockc k ip'" for p
      using w nz by metis+
    show ?thesis using old c unfolding ip_ok_def h i a by blast
  qed
  have "f_type (files k' ! x) = f_type (files k ! x)" "f_data (files k' ! x) = f_data (files k ! x)"
    "x \<noteq> fp \<Longrightarrow> f_flag (files k' ! x) = f_flag (files k ! x)" if "x < length (files k)" for x
    using that assms(2) by (simp_all add: assms(6) nth_list_update)
  moreover have "length (files k') = length (files k)" by (simp add: assms(6))
  ultimately have fl: "\<forall>fp < length (files k'). flag (f_flag (files k' ! fp)) FSHLOCK \<or> flag (f_flag (files k' ! fp)) FEXLOCK \<longrightarrow>
        f_type (files k' ! fp) = DTYPE_INODE \<and> (\<exists>ip < N. f_data (files k' ! fp) = Some ip)"
    using assms(1-5) unfolding lock_inv_def by metis
  show ?thesis
    unfolding lock_inv_def
  proof (intro conjI)
    show "chans_ok N k'" using assms(1) w unfolding lock_inv_def chans_ok_def by presburger
    show "\<forall>ip<N. ip_ok k' ip" using other assms(9) by metis
  qed (use w fl assms(1) in \<open>simp_all add: lock_inv_def assms(6)\<close>)
qed

section \<open>Unlocking\<close>

lemma more_lock_view:
  assumes "kern.more (k' :: 'a fdk_scheme) = kern.more k"
  shows "files k' = files k" "inodes k' = inodes k" "a_exlockc k' = a_exlockc k" "a_shlockc k' = a_shlockc k"
    "a_inode k' = a_inode k" "lastf k' = lastf k"
  using assms by (cases k, cases k', simp)+

lemma wakeup_only_wakes:
  assumes "sched_ok k" "sleepers_ok k" "a_runout k \<noteq> 0" "c \<noteq> 0"
  obtains k' where "wakeup c k = Some k'" "only_wakes k k'" "files k' = files k" "inodes k' = inodes k"
    "\<And>p. wchan k' p \<noteq> c"
proof -
  obtain k' where k': "wakeup c k = Some k'" "sched_ok k'" "sleepers_ok k'" "\<And>p. wchan k' p \<noteq> c"
    "woke (if k_runout k then {c, a_runout k} else {c}) k k'" using wakeup_ok [OF assms(1,2,4,3)] by metis
  note m = more_lock_view [OF wakeup_more [OF k'(1)]]
  have "wchan k' p = wchan k p \<or> wchan k' p = 0" for p using k'(5) unfolding woke_def by metis
  moreover have "same_core k k'" using k'(5) by (simp add: woke_def)
  ultimately show thesis using that [OF k'(1)] k'(2-4) m by (auto simp: only_wakes_def same_core_def)
qed

lemma sched_view [simp]:
  "sched_ok (upd_inode ip g k) = sched_ok k" "sleepers_ok (upd_inode ip g k) = sleepers_ok k"
  "sched_ok (upd_file fp h k) = sched_ok k" "sleepers_ok (upd_file fp h k) = sleepers_ok k"
  by (simp_all add: upd_inode_def upd_file_def sched_ok_def queues_def sleepers_ok_def)

lemma only_wakes_upd: "only_wakes (upd_inode ip g k) k' \<Longrightarrow> only_wakes k (upd_file fp h k')"
  by (simp add: only_wakes_def)

lemma only_wakes_self: "sched_ok k \<Longrightarrow> sleepers_ok k \<Longrightarrow> only_wakes k (upd_file fp h (upd_inode ip g k))"
  by (simp add: only_wakes_def)

lemma card_less1: "finite A \<Longrightarrow> x \<in> A \<Longrightarrow> card (A - {x}) = card A - 1"
  by (simp add: card_Diff_singleton)

lemma word_pred: "unat (c :: u_int) = n \<Longrightarrow> 0 < n \<Longrightarrow> unat (c - 1) = n - 1"
  by (metis gr_implies_not0 unat16_eq0 unat_minus_one)

lemma word_succ: "unat (c :: u_int) = n \<Longrightarrow> n + 1 < 65536 \<Longrightarrow> unat (c + 1) = n + 1"
  by (metis unat16_add unat_1)

text \<open>A holder and its inode, as the lemmas on unlocking and locking assume them.\<close>

lemma lock_inv_ip:
  assumes "lock_inv N k" "fp < length (files k)" "fp \<in> holders k ip b" "b = FSHLOCK \<or> b = FEXLOCK"
  shows "f_type (files k ! fp) = DTYPE_INODE" "f_data (files k ! fp) = Some ip" "ip < N" "ip_ok k ip"
    "a_exlockc k ip \<noteq> 0" "a_shlockc k ip \<noteq> 0" "a_exlockc k ip \<noteq> a_shlockc k ip"
proof -
  show d: "f_type (files k ! fp) = DTYPE_INODE" "f_data (files k ! fp) = Some ip"
    using assms(3) by (simp_all add: holders_def)
  have "flag (f_flag (files k ! fp)) b" using assms(3) by (simp add: holders_def)
  then show n: "ip < N" using assms(1,2,4) d unfolding lock_inv_def by (metis option.inject)
  show "ip_ok k ip" using assms(1) n by (simp add: lock_inv_def)
  have c: "chans_ok N k" using assms(1) by (simp add: lock_inv_def)
  then show "a_exlockc k ip \<noteq> 0" "a_shlockc k ip \<noteq> 0" using n by (simp_all add: chans_ok_def)
  have "a_exlockc k ip \<in> a_exlockc k ` {..<N}" "a_shlockc k ip \<in> a_shlockc k ` {..<N}" using n by auto
  then show "a_exlockc k ip \<noteq> a_shlockc k ip" using c unfolding chans_ok_def by (metis IntI empty_iff)
qed

lemma unlock_sh_ok:
  assumes inv: "lock_inv N k" and fp: "fp < length (files k)" "fp \<in> holders k ip FSHLOCK"
  obtains k' where "ino_unlock_sh fp (i_flag (inodes k ip)) ip k = Some k'" "lock_inv N k'" "only_wakes k k'"
    "files k' = (files k)[fp := (files k ! fp)\<lparr>f_flag := clr_flag FSHLOCK (f_flag (files k ! fp))\<rparr>]"
    "holders k' ip FSHLOCK = holders k ip FSHLOCK - {fp}" "holders k' ip FEXLOCK = holders k ip FEXLOCK"
    "holders k ip FSHLOCK = {fp} \<Longrightarrow> \<forall>p. wchan k' p \<noteq> a_shlockc k ip"
proof -
  note ip = lock_inv_ip [OF inv fp disjI1 [OF refl]]
  have ok: "ip_ok k ip" using ip by simp
  let ?H = "holders k ip FSHLOCK" and ?i = "inodes k ip"
  have pos: "0 < card ?H" using fp(2) by (auto simp: card_gt_0_iff)
  have cnt: "unat (i_shlockc ?i) = card ?H" and exn: "holders k ip FEXLOCK = {}"
    using ok fp(2) by (auto simp: ip_ok_def)
  have c1: "unat (i_shlockc ?i - 1) = card (?H - {fp})" using word_pred [OF cnt pos] card_less1 fp(2) by simp
  have z: "i_shlockc ?i - 1 = 0 \<longleftrightarrow> ?H - {fp} = {}" using c1 by (simp add: unat16_eq0)
  have sh: "flag (i_flag ?i) ISHLOCK" using ok fp(2) by (auto simp: ip_ok_def)
  have ex: "\<not> flag (i_flag ?i) IEXLOCK" using ok exn by (auto simp: ip_ok_def)
  have noex: "wchan k p \<noteq> a_exlockc k ip" for p using ok ex unfolding ip_ok_def by blast
  have base: "sched_ok k" "sleepers_ok k" "a_runout k \<noteq> 0" using inv by (simp_all add: lock_inv_def)
  let ?fl = "clr_flag FSHLOCK (f_flag (files k ! fp))"
  define i' where "i' = (if ?H - {fp} = {} then ?i\<lparr>i_shlockc := i_shlockc ?i - 1, i_flag := clr_flag ISHLOCK (i_flag ?i)\<rparr>
    else ?i\<lparr>i_shlockc := i_shlockc ?i - 1\<rparr>)"
  have "\<exists>k'. ino_unlock_sh fp (i_flag ?i) ip k = Some k' \<and> only_wakes k k' \<and> files k' = (files k)[fp := (files k ! fp)\<lparr>f_flag := ?fl\<rparr>] \<and>
    inodes k' = (inodes k)(ip := i') \<and> (?H - {fp} = {} \<longrightarrow> (\<forall>p. wchan k' p \<noteq> a_shlockc k ip))"
  proof (cases "?H - {fp} = {} \<and> flag (i_flag ?i) ILWAIT")
    case True
    define k2 where "k2 = upd_inode ip (\<lambda>i. i\<lparr>i_shlockc := i_shlockc i - 1, i_flag := clr_flag ISHLOCK (i_flag i)\<rparr>) k"
    have k2: "upd_inode ip (\<lambda>i. i\<lparr>i_flag := clr_flag ISHLOCK (i_flag i)\<rparr>)
        (upd_inode ip (\<lambda>i. i\<lparr>i_shlockc := i_shlockc i - 1\<rparr>) k) = k2" by (simp add: k2_def upd_inode_def)
    have s: "sched_ok k2" "sleepers_ok k2" "a_runout k2 \<noteq> 0" "a_shlockc k2 ip \<noteq> 0" using base ip(6) by (simp_all add: k2_def)
    obtain k3 where k3: "wakeup (a_shlockc k2 ip) k2 = Some k3" "only_wakes k2 k3" "files k3 = files k2"
      "inodes k3 = inodes k2" "\<And>p. wchan k3 p \<noteq> a_shlockc k2 ip" using wakeup_only_wakes [OF s] by metis
    let ?k = "upd_file fp (\<lambda>f. f\<lparr>f_flag := clr_flag FSHLOCK (f_flag f)\<rparr>) k3"
    have "ino_unlock_sh fp (i_flag ?i) ip k = Some ?k"
      using True sh z k3(1) by (simp add: ino_unlock_sh_def Let_def k2)
    moreover have "only_wakes k ?k" using k3(2) unfolding k2_def by (rule only_wakes_upd)
    ultimately show ?thesis using True k3(3-5) by (intro exI [of _ ?k]) (simp add: k2_def i'_def)
  next
    case False
    let ?g = "\<lambda>i. i\<lparr>i_shlockc := i_shlockc i - 1, i_flag := (if ?H - {fp} = {} then clr_flag ISHLOCK (i_flag i) else i_flag i)\<rparr>"
    let ?k = "upd_file fp (\<lambda>f. f\<lparr>f_flag := clr_flag FSHLOCK (f_flag f)\<rparr>) (upd_inode ip ?g k)"
    have "ino_unlock_sh fp (i_flag ?i) ip k = Some ?k"
      using False sh z by (auto simp: ino_unlock_sh_def Let_def upd_inode_def)
    moreover have "?H - {fp} = {} \<Longrightarrow> \<forall>p. wchan k p \<noteq> a_shlockc k ip" using False ok unfolding ip_ok_def by blast
    ultimately show ?thesis using only_wakes_self [OF base(1,2)] by (intro exI [of _ ?k]) (simp add: i'_def)
  qed
  then obtain k' where k': "ino_unlock_sh fp (i_flag ?i) ip k = Some k'" "only_wakes k k'"
    "files k' = (files k)[fp := (files k ! fp)\<lparr>f_flag := ?fl\<rparr>]" "inodes k' = (inodes k)(ip := i')"
    "?H - {fp} = {} \<longrightarrow> (\<forall>p. wchan k' p \<noteq> a_shlockc k ip)" by blast
  have h: "holders k' ip b = (if flag ?fl b then insert fp (holders k ip b) else holders k ip b - {fp})" for b
    by (rule holders_upd(1) [OF k'(3) fp(1) ip(1,2)])
  have "\<not> flag (f_flag (files k ! fp)) FEXLOCK" using exn ip(1,2) fp(1) by (auto simp: holders_def)
  then have h2: "holders k' ip FSHLOCK = ?H - {fp}" "holders k' ip FEXLOCK = {}" using h exn by simp_all
  have a: "a_exlockc k' ip = a_exlockc k ip" "a_shlockc k' ip = a_shlockc k ip" using k'(2) by (simp_all add: only_wakes_def)
  have w: "wchan k' p = wchan k p \<or> wchan k' p = 0" for p using k'(2) by (simp add: only_wakes_def)
  have wex: "wchan k' p \<noteq> a_exlockc k ip" for p using w noex ip(5) by metis
  have wsh: "wchan k' p = a_shlockc k ip \<Longrightarrow> ?H - {fp} \<noteq> {} \<and> flag (i_flag ?i) ILWAIT" for p
    using w k'(5) ok ip(6) unfolding ip_ok_def by metis
  have "inodes k' ip = i'" by (simp add: k'(4))
  moreover have "unat (i_exlockc i') = 0" "unat (i_shlockc i') = card (?H - {fp})"
    "flag (i_flag i') ISHLOCK \<longleftrightarrow> ?H - {fp} \<noteq> {}" "\<not> flag (i_flag i') IEXLOCK" "flag (i_flag i') ILWAIT = flag (i_flag ?i) ILWAIT"
    using c1 ok exn ex sh by (simp_all add: i'_def ip_ok_def)
  ultimately have "ip_ok k' ip" unfolding ip_ok_def h2 a using wex wsh by simp
  then have "lock_inv N k'" by (rule lock_inv_upd [OF inv fp(1) ip(1-3) k'(3,4,2)])
  with k'(1-3,5) h2 exn show thesis using that [of k'] by simp
qed

lemma unlock_ex_ok:
  assumes inv: "lock_inv N k" and fp: "fp < length (files k)" "fp \<in> holders k ip FEXLOCK"
  obtains k' where "ino_unlock_ex fp (i_flag (inodes k ip)) ip k = Some k'" "lock_inv N k'" "only_wakes k k'"
    "files k' = (files k)[fp := (files k ! fp)\<lparr>f_flag := clr_flag FEXLOCK (f_flag (files k ! fp))\<rparr>]"
    "holders k' ip FEXLOCK = {}" "holders k' ip FSHLOCK = {}" "\<forall>p. wchan k' p \<noteq> a_exlockc k ip"
proof -
  note ip = lock_inv_ip [OF inv fp disjI2 [OF refl]]
  have ok: "ip_ok k ip" using ip by simp
  let ?i = "inodes k ip"
  have "card (holders k ip FEXLOCK) \<le> 1" using ok by (simp add: ip_ok_def)
  then have "\<forall>x \<in> holders k ip FEXLOCK. x = fp"
    using card_le_Suc0_iff_eq [OF holders_finite, of k ip FEXLOCK] fp(2) by simp
  then have one: "holders k ip FEXLOCK = {fp}" using fp(2) by blast
  have cnt: "unat (i_exlockc ?i) = 1" "unat (i_shlockc ?i) = 0" and shn: "holders k ip FSHLOCK = {}"
    using ok one by (auto simp: ip_ok_def)
  have c1: "i_exlockc ?i - 1 = 0" using word_pred [OF cnt(1)] by (simp add: unat16_eq0)
  have ex: "flag (i_flag ?i) IEXLOCK" "\<not> flag (i_flag ?i) ISHLOCK" using ok one shn by (auto simp: ip_ok_def)
  have nosh: "wchan k p \<noteq> a_shlockc k ip" for p using ok ex(2) unfolding ip_ok_def by blast
  have base: "sched_ok k" "sleepers_ok k" "a_runout k \<noteq> 0" using inv by (simp_all add: lock_inv_def)
  let ?fl = "clr_flag FEXLOCK (f_flag (files k ! fp))"
  define g :: "inode \<Rightarrow> inode" where "g = (\<lambda>i. i\<lparr>i_exlockc := i_exlockc i - 1, i_flag := clr_flag (or IEXLOCK ILWAIT) (i_flag i)\<rparr>)"
  define k2 where "k2 = upd_inode ip g k"
  have k2: "upd_inode ip (\<lambda>i. i\<lparr>i_flag := clr_flag (or IEXLOCK ILWAIT) (i_flag i)\<rparr>)
      (upd_inode ip (\<lambda>i. i\<lparr>i_exlockc := i_exlockc i - 1\<rparr>) k) = k2" by (simp add: k2_def g_def upd_inode_def)
  have "\<exists>k'. ino_unlock_ex fp (i_flag ?i) ip k = Some k' \<and> only_wakes k k' \<and> files k' = (files k)[fp := (files k ! fp)\<lparr>f_flag := ?fl\<rparr>] \<and>
    inodes k' = (inodes k)(ip := g ?i) \<and> (\<forall>p. wchan k' p \<noteq> a_exlockc k ip)"
  proof (cases "flag (i_flag ?i) ILWAIT")
    case True
    have s: "sched_ok k2" "sleepers_ok k2" "a_runout k2 \<noteq> 0" "a_exlockc k2 ip \<noteq> 0" using base ip(5) by (simp_all add: k2_def)
    obtain k3 where k3: "wakeup (a_exlockc k2 ip) k2 = Some k3" "only_wakes k2 k3" "files k3 = files k2"
      "inodes k3 = inodes k2" "\<And>p. wchan k3 p \<noteq> a_exlockc k2 ip" using wakeup_only_wakes [OF s] by metis
    let ?k = "upd_file fp (\<lambda>f. f\<lparr>f_flag := clr_flag FEXLOCK (f_flag f)\<rparr>) k3"
    have "ino_unlock_ex fp (i_flag ?i) ip k = Some ?k"
      unfolding ino_unlock_ex_def Let_def k2 using True ex c1 k3(1) by simp
    moreover have "only_wakes k ?k" using k3(2) unfolding k2_def by (rule only_wakes_upd)
    ultimately show ?thesis using k3(3-5) by (intro exI [of _ ?k]) (simp add: k2_def)
  next
    case False
    let ?k = "upd_file fp (\<lambda>f. f\<lparr>f_flag := clr_flag FEXLOCK (f_flag f)\<rparr>) k2"
    have "ino_unlock_ex fp (i_flag ?i) ip k = Some ?k"
      unfolding ino_unlock_ex_def Let_def k2 using False ex c1 by simp
    moreover have "\<forall>p. wchan k p \<noteq> a_exlockc k ip" using False ok unfolding ip_ok_def by blast
    ultimately show ?thesis using only_wakes_self [OF base(1,2)] by (intro exI [of _ ?k]) (simp add: k2_def)
  qed
  then obtain k' where k': "ino_unlock_ex fp (i_flag ?i) ip k = Some k'" "only_wakes k k'"
    "files k' = (files k)[fp := (files k ! fp)\<lparr>f_flag := ?fl\<rparr>]" "inodes k' = (inodes k)(ip := g ?i)"
    "\<forall>p. wchan k' p \<noteq> a_exlockc k ip" by blast
  have h: "holders k' ip b = (if flag ?fl b then insert fp (holders k ip b) else holders k ip b - {fp})" for b
    by (rule holders_upd(1) [OF k'(3) fp(1) ip(1,2)])
  have "\<not> flag (f_flag (files k ! fp)) FSHLOCK" using shn ip(1,2) fp(1) by (auto simp: holders_def)
  then have h2: "holders k' ip FSHLOCK = {}" "holders k' ip FEXLOCK = {}" using h shn one by simp_all
  have a: "a_exlockc k' ip = a_exlockc k ip" "a_shlockc k' ip = a_shlockc k ip" using k'(2) by (simp_all add: only_wakes_def)
  have wsh: "wchan k' p \<noteq> a_shlockc k ip" for p using k'(2) nosh ip(6) unfolding only_wakes_def by metis
  have "inodes k' ip = g ?i" by (simp add: k'(4))
  moreover have "unat (i_exlockc (g ?i)) = 0" "unat (i_shlockc (g ?i)) = 0"
    using c1 cnt by (simp_all add: g_def)
  moreover have "\<not> flag (i_flag (g ?i)) ISHLOCK" "\<not> flag (i_flag (g ?i)) IEXLOCK"
    using ex by (simp_all add: g_def)
  ultimately have "ip_ok k' ip" unfolding ip_ok_def h2 a using k'(5) wsh by simp
  then have "lock_inv N k'" by (rule lock_inv_upd [OF inv fp(1) ip(1-3) k'(3,4,2)])
  with k'(1-3,5) h2 show thesis using that [of k'] by simp
qed

lemma flag_and: "flag (and a (f :: u_int)) 0x80 \<longleftrightarrow> flag a 0x80 \<and> flag f 0x80" "flag (and a f) 0x100 \<longleftrightarrow> flag a 0x100 \<and> flag f 0x100"
  by (simp_all add: lock_flag_bits bit_and_iff)

lemma flag_consts [simp]: "flag 0x80 0x80" "flag 0x100 0x100" "\<not> flag 0x80 0x100" "\<not> flag 0x100 0x80" "\<not> flag 0 b"
  by (simp_all add: flag_def)

lemma ino_unlock_holder:
  assumes "fp \<in> holders k ip b" "b = FSHLOCK \<or> b = FEXLOCK"
  shows "ino_unlock fp b k = (if b = FSHLOCK then ino_unlock_sh fp (i_flag (inodes k ip)) ip k
     else ino_unlock_ex fp (i_flag (inodes k ip)) ip k)"
proof -
  have f: "f_data (files k ! fp) = Some ip" "flag (f_flag (files k ! fp)) b" using assms(1) by (simp_all add: holders_def)
  then have n: "and b (f_flag (files k ! fp)) \<noteq> 0" by (simp add: flag_def and.commute)
  from assms(2) show ?thesis
  proof
    assume b: "b = FSHLOCK"
    have "flag (and FSHLOCK (f_flag (files k ! fp))) FSHLOCK" "\<not> flag (and FSHLOCK (f_flag (files k ! fp))) FEXLOCK"
      using f b by (simp_all only: flag_and flag_consts simp_thms)
    then show ?thesis using f n unfolding b ino_unlock_def Let_def by simp
  next
    assume b: "b = FEXLOCK"
    have "flag (and FEXLOCK (f_flag (files k ! fp))) FEXLOCK" "\<not> flag (and FEXLOCK (f_flag (files k ! fp))) FSHLOCK"
      using f b by (simp_all only: flag_and flag_consts simp_thms)
    then show ?thesis using f n unfolding b ino_unlock_def Let_def by simp
  qed
qed

text \<open>Dropping whatever lock a file has.\<close>

lemma ino_unlock_ok:
  assumes inv: "lock_inv N k" and fp: "fp < length (files k)"
  obtains k' where "ino_unlock fp (or FSHLOCK FEXLOCK) k = Some k'" "lock_inv N k'" "only_wakes k k'"
    "\<And>ip. fp \<notin> holders k' ip FSHLOCK \<and> fp \<notin> holders k' ip FEXLOCK"
    "\<And>x. x \<noteq> fp \<Longrightarrow> files k' ! x = files k ! x" "length (files k') = length (files k)"
proof -
  let ?f = "files k ! fp"
  have k180: "or FSHLOCK FEXLOCK = 0x180" by simp
  have f180: "flag (and 0x180 (f_flag ?f)) FSHLOCK \<longleftrightarrow> flag (f_flag ?f) FSHLOCK"
    "flag (and 0x180 (f_flag ?f)) FEXLOCK \<longleftrightarrow> flag (f_flag ?f) FEXLOCK"
    unfolding flag_and k180 [symmetric] by (simp_all only: lock_flag_bits bit_or_iff bit_consts) simp_all
  have base: "sched_ok k" "sleepers_ok k" using inv by (simp_all add: lock_inv_def)
  consider (sh) "flag (f_flag ?f) FSHLOCK" | (ex) "\<not> flag (f_flag ?f) FSHLOCK" "flag (f_flag ?f) FEXLOCK"
    | (none) "\<not> flag (f_flag ?f) FSHLOCK" "\<not> flag (f_flag ?f) FEXLOCK" by blast
  then show thesis
  proof cases
    case sh
    then obtain ip where h: "fp \<in> holders k ip FSHLOCK" "f_data ?f = Some ip"
      using inv fp unfolding lock_inv_def holders_def by blast
    obtain k' where k': "ino_unlock_sh fp (i_flag (inodes k ip)) ip k = Some k'" "lock_inv N k'" "only_wakes k k'"
      "files k' = (files k)[fp := ?f\<lparr>f_flag := clr_flag FSHLOCK (f_flag ?f)\<rparr>]"
      by (rule unlock_sh_ok [OF inv fp h(1)]) (rule that)
    have "ip_ok k ip" using lock_inv_ip [OF inv fp h(1)] by simp
    then have nx: "\<not> flag (f_flag ?f) FEXLOCK" using h by (auto simp: ip_ok_def holders_def)
    have "and 0x180 (f_flag ?f) \<noteq> 0" using sh f180(1) by fastforce
    then have "ino_unlock fp (or FSHLOCK FEXLOCK) k = Some k'"
      unfolding ino_unlock_def k180 Let_def f180 using h(2) sh nx k'(1) by simp
    moreover have "fp \<notin> holders k' i FSHLOCK \<and> fp \<notin> holders k' i FEXLOCK" for i
      using fp nx by (simp add: holders_def k'(4))
    ultimately show thesis using that [of k'] k' by simp
  next
    case ex
    then obtain ip where h: "fp \<in> holders k ip FEXLOCK" "f_data ?f = Some ip"
      using inv fp unfolding lock_inv_def holders_def by blast
    obtain k' where k': "ino_unlock_ex fp (i_flag (inodes k ip)) ip k = Some k'" "lock_inv N k'" "only_wakes k k'"
      "files k' = (files k)[fp := ?f\<lparr>f_flag := clr_flag FEXLOCK (f_flag ?f)\<rparr>]"
      by (rule unlock_ex_ok [OF inv fp h(1)]) (rule that)
    have "and 0x180 (f_flag ?f) \<noteq> 0" using ex(2) f180(2) by fastforce
    then have "ino_unlock fp (or FSHLOCK FEXLOCK) k = Some k'"
      unfolding ino_unlock_def k180 Let_def f180 using h(2) ex k'(1) by simp
    moreover have "fp \<notin> holders k' i FSHLOCK \<and> fp \<notin> holders k' i FEXLOCK" for i
      using fp ex by (simp add: holders_def k'(4))
    ultimately show thesis using that [of k'] k' by simp
  next
    case none
    have "ino_unlock fp (or FSHLOCK FEXLOCK) k = Some k"
      unfolding ino_unlock_def k180 Let_def f180 using none by (simp split: option.split)
    then show thesis using that [of k] inv none base by (simp add: only_wakes_def holders_def)
  qed
qed

section \<open>Locking\<close>

lemma lock_sh_bits [simp]: "\<not> flag (clr_flag 1 c) 1" "flag (clr_flag 1 c) 4 \<longleftrightarrow> flag c 4" "flag (clr_flag 1 c) 2 \<longleftrightarrow> flag c 2"
proof -
  have b1: "bit (1 :: u_int) n \<longleftrightarrow> n = 0" for n by (simp add: bit_1_iff)
  show "\<not> flag (clr_flag 1 c) 1" "flag (clr_flag 1 c) 4 \<longleftrightarrow> flag c 4" "flag (clr_flag 1 c) 2 \<longleftrightarrow> flag c 2"
    by (simp_all only: lock_flag_bits clr_flag_def bit_and_iff bit_not_iff b1) simp_all
qed

lemma take_ok:
  assumes inv: "lock_inv N k" and fp: "fp < length (files k)" "f_type (files k ! fp) = DTYPE_INODE"
    "f_data (files k ! fp) = Some ip" "ip < N"
    and free: "\<not> flag (i_flag (inodes k ip)) IEXLOCK" "flag cmd LOCK_EX \<longrightarrow> \<not> flag (i_flag (inodes k ip)) ISHLOCK"
  defines "k' \<equiv> take_lock fp ip cmd k"
  shows "lock_inv N k'" "only_wakes k k'" "flag cmd LOCK_EX \<Longrightarrow> fp \<in> holders k' ip FEXLOCK"
    "\<not> flag cmd LOCK_EX \<Longrightarrow> flag cmd LOCK_SH \<Longrightarrow> fp \<in> holders k' ip FSHLOCK"
proof -
  let ?i = "inodes k ip" and ?fl = "f_flag (files k ! fp)"
  have ok: "ip_ok k ip" using inv fp(4) by (simp add: lock_inv_def)
  have base: "sched_ok k" "sleepers_ok k" "length (files k) < 65536" using inv by (simp_all add: lock_inv_def)
  have exn: "holders k ip FEXLOCK = {}" using ok free(1) by (auto simp: ip_ok_def)
  have nx: "\<not> flag ?fl FEXLOCK" using exn fp by (auto simp: holders_def)
  have noex: "wchan k p \<noteq> a_exlockc k ip" for p using ok free(1) unfolding ip_ok_def by blast
  have "lock_inv N k' \<and> only_wakes k k' \<and> (flag cmd LOCK_EX \<longrightarrow> fp \<in> holders k' ip FEXLOCK) \<and>
    (\<not> flag cmd LOCK_EX \<longrightarrow> flag cmd LOCK_SH \<longrightarrow> fp \<in> holders k' ip FSHLOCK)"
  proof (cases "flag cmd LOCK_EX")
    case True
    have shn: "holders k ip FSHLOCK = {}" and nsh: "\<not> flag (i_flag ?i) ISHLOCK" using ok free(2) True by (auto simp: ip_ok_def)
    have nosh: "wchan k p \<noteq> a_shlockc k ip" for p using ok nsh unfolding ip_ok_def by blast
    let ?i' = "?i\<lparr>i_exlockc := i_exlockc ?i + 1, i_flag := set_flag IEXLOCK (i_flag ?i)\<rparr>"
    have k': "k' = upd_file fp (\<lambda>f. f\<lparr>f_flag := set_flag FEXLOCK (f_flag f)\<rparr>)
              (upd_inode ip (\<lambda>i. i\<lparr>i_exlockc := i_exlockc i + 1, i_flag := set_flag IEXLOCK (i_flag i)\<rparr>) k)"
      using True by (simp add: k'_def take_lock_def)
    have ow: "only_wakes k k'" unfolding k' by (rule only_wakes_self [OF base(1,2)])
    have f: "files k' = (files k)[fp := (files k ! fp)\<lparr>f_flag := set_flag FEXLOCK ?fl\<rparr>]" "inodes k' = (inodes k)(ip := ?i')"
      by (simp_all add: k')
    have h: "holders k' ip b = (if flag (set_flag FEXLOCK ?fl) b then insert fp (holders k ip b) else holders k ip b - {fp})" for b
      by (rule holders_upd(1) [OF f(1) fp(1-3)])
    have "\<not> flag ?fl FSHLOCK" using shn fp by (auto simp: holders_def)
    then have h2: "holders k' ip FSHLOCK = {}" "holders k' ip FEXLOCK = {fp}" using h shn exn by simp_all
    have a: "procs k' = procs k" "a_exlockc k' ip = a_exlockc k ip" "a_shlockc k' ip = a_shlockc k ip" by (simp_all add: k')
    have "unat (i_exlockc ?i) = 0" "unat (i_shlockc ?i) = 0" using ok shn exn by (simp_all add: ip_ok_def)
    then have "unat (i_exlockc ?i + 1) = 1" "unat (i_shlockc ?i) = 0" using word_succ [of "i_exlockc ?i" 0] by simp_all
    then have "ip_ok k' ip" unfolding ip_ok_def h2 a f(2) using nsh noex nosh by simp
    then have "lock_inv N k'" by (rule lock_inv_upd [OF inv fp f ow])
    then show ?thesis using ow h2 True by simp
  next
    case False
    show ?thesis
    proof (cases "flag cmd LOCK_SH \<and> \<not> flag ?fl FSHLOCK")
      case True
      let ?i' = "?i\<lparr>i_shlockc := i_shlockc ?i + 1, i_flag := set_flag ISHLOCK (i_flag ?i)\<rparr>"
      have k': "k' = upd_file fp (\<lambda>f. f\<lparr>f_flag := set_flag FSHLOCK (f_flag f)\<rparr>)
              (upd_inode ip (\<lambda>i. i\<lparr>i_shlockc := i_shlockc i + 1, i_flag := set_flag ISHLOCK (i_flag i)\<rparr>) k)"
        using False True by (simp add: k'_def take_lock_def)
      have ow: "only_wakes k k'" unfolding k' by (rule only_wakes_self [OF base(1,2)])
      have f: "files k' = (files k)[fp := (files k ! fp)\<lparr>f_flag := set_flag FSHLOCK ?fl\<rparr>]" "inodes k' = (inodes k)(ip := ?i')"
        by (simp_all add: k')
      have h: "holders k' ip b = (if flag (set_flag FSHLOCK ?fl) b then insert fp (holders k ip b) else holders k ip b - {fp})" for b
        by (rule holders_upd(1) [OF f(1) fp(1-3)])
      have h2: "holders k' ip FSHLOCK = insert fp (holders k ip FSHLOCK)" "holders k' ip FEXLOCK = {}"
        using h nx exn by simp_all
      have new: "fp \<notin> holders k ip FSHLOCK" using True by (simp add: holders_def)
      have a: "procs k' = procs k" "a_exlockc k' ip = a_exlockc k ip" "a_shlockc k' ip = a_shlockc k ip" by (simp_all add: k')
      have l: "length (files k') = length (files k)" by (simp add: f(1))
      have "card (holders k ip FSHLOCK) + 1 < 65536"
        using holders_card [of k' ip FSHLOCK] base(3) new unfolding l h2 by simp
      then have c: "unat (i_shlockc ?i + 1) = card (holders k ip FSHLOCK) + 1"
        using word_succ ok unfolding ip_ok_def by metis
      have "unat (i_exlockc ?i) = 0" using ok exn by (simp add: ip_ok_def)
      moreover have "\<forall>p. wchan k p = a_shlockc k ip \<longrightarrow> flag (i_flag ?i) ILWAIT" using ok by (simp add: ip_ok_def)
      ultimately have "ip_ok k' ip" unfolding ip_ok_def h2 a f(2) using c free(1) noex new by simp
      then have "lock_inv N k'" by (rule lock_inv_upd [OF inv fp f ow])
      then show ?thesis using ow h2 False by simp
    next
      case False': False
      then have "k' = k" using False by (auto simp: k'_def take_lock_def)
      moreover have "only_wakes k k" using base by (simp add: only_wakes_def)
      moreover have "flag ?fl FSHLOCK \<Longrightarrow> fp \<in> holders k ip FSHLOCK" using fp by (simp add: holders_def)
      ultimately show ?thesis using inv False False' by auto
    qed
  qed
  then show "lock_inv N k'" "only_wakes k k'" "flag cmd LOCK_EX \<Longrightarrow> fp \<in> holders k' ip FEXLOCK"
    "\<not> flag cmd LOCK_EX \<Longrightarrow> flag cmd LOCK_SH \<Longrightarrow> fp \<in> holders k' ip FSHLOCK" by blast+
qed

text \<open>What ino_lock may answer: the lock, a refusal because another file holds a conflicting one, or the
  channel of the lock to wait for, with \<open>ILWAIT\<close> set.\<close>

definition conflict :: "'a fdk_scheme \<Rightarrow> nat \<Rightarrow> nat \<Rightarrow> u_int \<Rightarrow> bool" where
  "conflict k fp ip cmd \<longleftrightarrow> holders k ip FEXLOCK - {fp} \<noteq> {} \<or> flag cmd LOCK_EX \<and> holders k ip FSHLOCK - {fp} \<noteq> {}"

definition lock_answer :: "nat \<Rightarrow> nat \<Rightarrow> u_int \<Rightarrow> lock_out \<Rightarrow> 'a fdk_scheme \<Rightarrow> bool" where
  "lock_answer fp ip cmd r k' \<longleftrightarrow> (case r of
       LkRet e \<Rightarrow> e = NOERR \<and> \<not> conflict k' fp ip cmd \<and> (if flag cmd LOCK_EX then fp \<in> holders k' ip FEXLOCK
            else flag cmd LOCK_SH \<longrightarrow> fp \<in> holders k' ip FSHLOCK) \<or>
          e = EWOULDBLOCK \<and> flag cmd LOCK_NB \<and> conflict k' fp ip cmd
     | LkSleep c p \<Rightarrow> \<not> flag cmd LOCK_NB \<and> conflict k' fp ip cmd \<and> flag (i_flag (inodes k' ip)) ILWAIT \<and>
          (c = a_exlockc k' ip \<and> flag (i_flag (inodes k' ip)) IEXLOCK \<or>
           c = a_shlockc k' ip \<and> flag (i_flag (inodes k' ip)) ISHLOCK))"

text \<open>One round of the loop that does not release a lock of the file itself.\<close>

lemma again_final:
  assumes inv: "lock_inv N k" and fp: "fp < length (files k)" "f_type (files k ! fp) = DTYPE_INODE"
    "f_data (files k ! fp) = Some ip" "ip < N"
    and own: "fp \<notin> holders k ip FEXLOCK" "flag cmd LOCK_EX \<longrightarrow> fp \<notin> holders k ip FSHLOCK"
  obtains r k' where "ino_lock_again fp cmd pri k = Some (r, k')" "lock_inv N k'" "only_wakes k k'" "lock_answer fp ip cmd r k'"
proof -
  have ok: "ip_ok k ip" using inv fp(4) by (simp add: lock_inv_def)
  have base: "sched_ok k" "sleepers_ok k" using inv by (simp_all add: lock_inv_def)
  have nx: "\<not> flag (f_flag (files k ! fp)) FEXLOCK" "flag cmd LOCK_EX \<Longrightarrow> \<not> flag (f_flag (files k ! fp)) FSHLOCK"
    using own fp by (simp_all add: holders_def)
  have hf: "flag (i_flag (inodes k ip)) IEXLOCK \<longleftrightarrow> holders k ip FEXLOCK \<noteq> {}"
    "flag (i_flag (inodes k ip)) ISHLOCK \<longleftrightarrow> holders k ip FSHLOCK \<noteq> {}" using ok by (simp_all add: ip_ok_def)
  let ?w = "upd_inode ip (\<lambda>i. i\<lparr>i_flag := set_flag ILWAIT (i_flag i)\<rparr>) k"
  let ?fl = "f_flag (files k ! fp)"
  have wait: "lock_inv N ?w" "only_wakes k ?w"
  proof -
    show ow: "only_wakes k ?w" using base by (simp add: only_wakes_def)
    have f: "files ?w = (files k)[fp := (files k ! fp)\<lparr>f_flag := ?fl\<rparr>]"
      "inodes ?w = (inodes k)(ip := (inodes k ip)\<lparr>i_flag := set_flag ILWAIT (i_flag (inodes k ip))\<rparr>)" by simp_all
    have h: "holders ?w ip b = holders k ip b" for b by (simp add: holders_def)
    have "ip_ok ?w ip" using ok unfolding ip_ok_def h by (simp, metis)
    then show "lock_inv N ?w" by (rule lock_inv_upd [OF inv fp f ow])
  qed
  have hw: "holders ?w ip b = holders k ip b" for b by (simp add: holders_def)
  consider (ex) "flag (i_flag (inodes k ip)) IEXLOCK"
    | (sh) "\<not> flag (i_flag (inodes k ip)) IEXLOCK" "flag cmd LOCK_EX" "flag (i_flag (inodes k ip)) ISHLOCK"
    | (free) "\<not> flag (i_flag (inodes k ip)) IEXLOCK" "flag cmd LOCK_EX \<longrightarrow> \<not> flag (i_flag (inodes k ip)) ISHLOCK" by blast
  then show thesis
  proof cases
    case ex
    have c: "conflict k fp ip cmd" using hf ex own by (auto simp: conflict_def)
    show thesis
    proof (cases "flag cmd LOCK_NB")
      case True
      then have "ino_lock_again fp cmd pri k = Some (LkRet EWOULDBLOCK, k)"
        using ex nx fp(3) by (simp add: ino_lock_again.simps)
      then show thesis using that [of "LkRet EWOULDBLOCK" k] inv base c True by (simp add: only_wakes_def lock_answer_def)
    next
      case False
      then have "ino_lock_again fp cmd pri k = Some (LkSleep (a_exlockc k ip) pri, ?w)"
        using ex nx fp(3) by (simp add: ino_lock_again.simps)
      moreover have "lock_answer fp ip cmd (LkSleep (a_exlockc k ip) pri) ?w"
        using ex c False unfolding lock_answer_def conflict_def hw by simp
      ultimately show thesis using that wait by blast
    qed
  next
    case sh
    have c: "conflict k fp ip cmd" using hf sh own by (auto simp: conflict_def)
    show thesis
    proof (cases "flag cmd LOCK_NB")
      case True
      then have "ino_lock_again fp cmd pri k = Some (LkRet EWOULDBLOCK, k)"
        using sh nx fp(3) by (simp add: ino_lock_again.simps)
      then show thesis using that [of "LkRet EWOULDBLOCK" k] inv base c True by (simp add: only_wakes_def lock_answer_def)
    next
      case False
      then have "ino_lock_again fp cmd pri k = Some (LkSleep (a_shlockc k ip) PLOCK, ?w)"
        using sh nx fp(3) by (simp add: ino_lock_again.simps)
      moreover have "lock_answer fp ip cmd (LkSleep (a_shlockc k ip) PLOCK) ?w"
        using sh c False unfolding lock_answer_def conflict_def hw by simp
      ultimately show thesis using that wait by blast
    qed
  next
    case free
    note t = take_ok [OF inv fp free]
    have e: "ino_lock_again fp cmd pri k = Some (LkRet NOERR, take_lock fp ip cmd k)"
      using free nx fp(3) by (auto simp: ino_lock_again.simps)
    have ok': "ip_ok (take_lock fp ip cmd k) ip" using t(1) fp(4) by (simp add: lock_inv_def)
    have "\<not> conflict (take_lock fp ip cmd k) fp ip cmd"
    proof (cases "flag cmd LOCK_EX")
      case True
      from t(3) [OF True] ok' have "holders (take_lock fp ip cmd k) ip FSHLOCK = {}"
        "card (holders (take_lock fp ip cmd k) ip FEXLOCK) \<le> 1" by (auto simp: ip_ok_def)
      with t(3) [OF True] card_le_Suc0_iff_eq [OF holders_finite, of "take_lock fp ip cmd k" ip FEXLOCK]
      show ?thesis by (auto simp: conflict_def)
    next
      case False
      have "holders (take_lock fp ip cmd k) ip FEXLOCK = {}"
      proof (cases "flag cmd LOCK_SH")
        case True
        then show ?thesis using t(4) [OF False True] ok' by (auto simp: ip_ok_def)
      next
        case F: False
        then have "take_lock fp ip cmd k = k" using False by (simp add: take_lock_def)
        then show ?thesis using hf free(1) by simp
      qed
      then show ?thesis using False by (simp add: conflict_def)
    qed
    with e t show thesis using that [OF e t(1,2)] by (simp add: lock_answer_def)
  qed
qed

lemma ino_lock_again_ok:
  assumes inv: "lock_inv N k" and fp: "fp < length (files k)" "f_type (files k ! fp) = DTYPE_INODE"
    "f_data (files k ! fp) = Some ip" "ip < N"
  obtains r k' where "ino_lock_again fp cmd pri k = Some (r, k')" "lock_inv N k'" "only_wakes k k'" "lock_answer fp ip cmd r k'"
proof -
  have ok: "ip_ok k ip" using inv fp(4) by (simp add: lock_inv_def)
  note res = that
  have fin: thesis if i1: "lock_inv N k1" and w1: "only_wakes k k1"
    and f1: "files k1 = (files k)[fp := (files k ! fp)\<lparr>f_flag := fl\<rparr>]"
    and own: "fp \<notin> holders k1 ip FEXLOCK" "flag cmd LOCK_EX \<longrightarrow> fp \<notin> holders k1 ip FSHLOCK"
    and eq: "ino_lock_again fp cmd pri k = ino_lock_again fp cmd pri k1" for k1 fl
  proof -
    have fp1: "fp < length (files k1)" "f_type (files k1 ! fp) = DTYPE_INODE" "f_data (files k1 ! fp) = Some ip"
      using fp by (simp_all add: f1)
    obtain r k' where *: "ino_lock_again fp cmd pri k1 = Some (r, k')" "lock_inv N k'" "only_wakes k1 k'" "lock_answer fp ip cmd r k'"
      by (rule again_final [OF i1 fp1 fp(4) own]) (rule that)
    show thesis by (rule res [of r k']) (use * eq only_wakes_trans [OF w1] in simp_all)
  qed
  consider (ex) "fp \<in> holders k ip FEXLOCK" | (sh) "fp \<notin> holders k ip FEXLOCK" "flag cmd LOCK_EX" "fp \<in> holders k ip FSHLOCK"
    | (none) "fp \<notin> holders k ip FEXLOCK" "flag cmd LOCK_EX \<longrightarrow> fp \<notin> holders k ip FSHLOCK" by blast
  then show thesis
  proof cases
    case ex
    obtain k1 where k1: "ino_unlock_ex fp (i_flag (inodes k ip)) ip k = Some k1" "lock_inv N k1" "only_wakes k k1"
      "files k1 = (files k)[fp := (files k ! fp)\<lparr>f_flag := clr_flag FEXLOCK (f_flag (files k ! fp))\<rparr>]"
      "holders k1 ip FEXLOCK = {}" "holders k1 ip FSHLOCK = {}"
      by (rule unlock_ex_ok [OF inv fp(1) ex]) (rule that)
    have "flag (i_flag (inodes k ip)) IEXLOCK" using ok ex by (auto simp: ip_ok_def)
    moreover have "flag (f_flag (files k ! fp)) FEXLOCK" using ex by (simp add: holders_def)
    moreover have "ino_unlock fp FEXLOCK k = Some k1" using ino_unlock_holder [OF ex] k1(1) by simp
    ultimately have eq: "ino_lock_again fp cmd pri k = ino_lock_again fp cmd pri k1"
      using fp(3) by (subst ino_lock_again.simps) simp
    show thesis by (rule fin [OF k1(2-4) _ _ eq]) (simp_all add: k1(5,6))
  next
    case sh
    obtain k1 where k1: "ino_unlock_sh fp (i_flag (inodes k ip)) ip k = Some k1" "lock_inv N k1" "only_wakes k k1"
      "files k1 = (files k)[fp := (files k ! fp)\<lparr>f_flag := clr_flag FSHLOCK (f_flag (files k ! fp))\<rparr>]"
      "holders k1 ip FSHLOCK = holders k ip FSHLOCK - {fp}" "holders k1 ip FEXLOCK = holders k ip FEXLOCK"
      by (rule unlock_sh_ok [OF inv fp(1) sh(3)]) (rule that)
    have "holders k ip FEXLOCK = {}" using ok sh(3) by (auto simp: ip_ok_def)
    then have "\<not> flag (i_flag (inodes k ip)) IEXLOCK" "flag (i_flag (inodes k ip)) ISHLOCK"
      using ok sh(3) by (auto simp: ip_ok_def)
    moreover have "flag (f_flag (files k ! fp)) FSHLOCK" using sh(3) by (simp add: holders_def)
    moreover have "ino_unlock fp FSHLOCK k = Some k1" using ino_unlock_holder [OF sh(3)] k1(1) by simp
    ultimately have eq: "ino_lock_again fp cmd pri k = ino_lock_again fp cmd pri k1"
      using fp(3) sh(2) by (subst ino_lock_again.simps) simp
    show thesis by (rule fin [OF k1(2-4) _ _ eq]) (use sh(1) in \<open>simp_all add: k1(5,6)\<close>)
  next
    case none
    show thesis using again_final [OF inv fp none] that by metis
  qed
qed

section \<open>Sleeping for a lock\<close>

lemma enqueue_more [simp]: "kern.more (enqueue c pri p k) = kern.more k"
  by (simp add: enqueue_def Let_def)

lemma sleep_others:
  assumes "sched_ok k" "sleepers_ok k" "a_runout k \<noteq> 0" "a_runin k \<noteq> 0" "\<not> panicstr k" "c \<noteq> 0"
    and p: "p = u_procp (u k)" "stat k p = SRUN" "wchan k p = 0" "\<not> on_runq k p"
    and s: "\<not> ISSIG_test (procs k p)" "sleep c pri k = Some (o', k1)"
  shows "kern.more k1 = kern.more k" "q \<noteq> p \<Longrightarrow> wchan k1 q = wchan k q \<or> wchan k1 q = 0" "a_runout k1 = a_runout k"
proof -
  define ka where "ka = upd_proc p (\<lambda>q. q\<lparr>p_stat := SSLEEP\<rparr>) (enqueue c pri p k)"
  let ?f = "\<lambda>v. v\<lparr>u_ru := (u_ru v)\<lparr>ru_nvcsw := wrap32 (ru_nvcsw (u_ru v) + 1)\<rparr>\<rparr>"
  note a = fall_asleep [OF assms(1,2) p(3,4) assms(6) ka_def]
  have fa: "a_runout ka = a_runout k" "k_runin ka = k_runin k" "a_runin ka = a_runin k" "kern.more ka = kern.more k"
    "q \<noteq> p \<Longrightarrow> wchan ka q = wchan k q" for q by (simp_all add: ka_def)
  have start: "sleep c pri k = (if pri > PZERO then sleep_wait (enqueue c pri p k) else Some (SSwtch, upd_u ?f ka))"
    using assms(5,6) s(1) p by (auto simp: sleep_def Let_def ka_def ISSIG_test_def)
  have e: "u_procp (u (enqueue c pri p k)) = p" "wchan (enqueue c pri p k) p \<noteq> 0" using assms(6) p(1) by simp_all
  have wait: "sleep_wait (enqueue c pri p k) =
      map_option (\<lambda>kb. (SSwtch, upd_u ?f kb)) (if k_runin ka then wakeup (a_runin ka) (ka\<lparr>k_runin := False\<rparr>) else Some ka)"
    unfolding sleep_wait_def Let_def e(1) if_not_P [OF e(2)] ka_def [symmetric] by (simp split: Option.bind_splits)
  have "\<exists>kb. k1 = upd_u ?f kb \<and> kern.more kb = kern.more k \<and> a_runout kb = a_runout k \<and>
      (\<forall>q. q \<noteq> p \<longrightarrow> wchan kb q = wchan k q \<or> wchan kb q = 0)"
  proof (cases "pri > PZERO \<and> k_runin ka")
    case False
    then have "k1 = upd_u ?f ka" using s(2) start wait by (auto split: if_splits)
    then show ?thesis using fa by auto
  next
    case True
    define kr where "kr = ka\<lparr>k_runin := False\<rparr>"
    have ok: "sched_ok kr" "sleepers_ok kr" "a_runin ka \<noteq> 0" "a_runout kr \<noteq> 0"
      using a fa assms(3,4) by (simp_all add: sched_ok_runin kr_def)
    obtain kb where w: "wakeup (a_runin ka) kr = Some kb"
      "woke (if k_runout kr then {a_runin ka, a_runout kr} else {a_runin ka}) kr kb"
      using wakeup_ok [OF ok] by metis
    have core: "same_core kr kb" using w(2) by (simp add: woke_def)
    have "k1 = upd_u ?f kb" using s(2) start wait True w(1) by (simp add: kr_def)
    moreover have "kern.more kb = kern.more k" using wakeup_more [OF w(1)] fa(4) by (simp add: kr_def)
    moreover have "a_runout kb = a_runout k" using core fa(1) by (simp add: same_core_def kr_def)
    moreover have "wchan kb q = wchan k q \<or> wchan kb q = 0" if "q \<noteq> p" for q
    proof -
      have "wchan kb q = wchan kr q \<or> wchan kb q = 0" using w(2) unfolding woke_def by metis
      then show ?thesis using fa(5) [OF that] by (simp add: kr_def)
    qed
    ultimately show ?thesis by (intro exI [of _ kb]) auto
  qed
  then obtain kb where "k1 = upd_u ?f kb" "kern.more kb = kern.more k" "a_runout kb = a_runout k"
    "\<forall>q. q \<noteq> p \<longrightarrow> wchan kb q = wchan k q \<or> wchan kb q = 0" by blast
  then show "kern.more k1 = kern.more k" "q \<noteq> p \<Longrightarrow> wchan k1 q = wchan k q \<or> wchan k1 q = 0" "a_runout k1 = a_runout k"
    by simp_all
qed

text \<open>Nothing but wakeups and changes outside the locks: other processes, other system calls.\<close>

definition elsewhere :: "nat \<Rightarrow> 'a fdk_scheme \<Rightarrow> 'a fdk_scheme \<Rightarrow> bool" where
  "elsewhere N k k' \<longleftrightarrow> sched_ok k' \<and> sleepers_ok k' \<and> a_runout k' = a_runout k \<and>
     a_exlockc k' = a_exlockc k \<and> a_shlockc k' = a_shlockc k \<and> length (files k') = length (files k) \<and>
     (\<forall>fp < length (files k). let f = files k ! fp; f' = files k' ! fp in
        (flag (f_flag f') FSHLOCK \<longleftrightarrow> flag (f_flag f) FSHLOCK) \<and> (flag (f_flag f') FEXLOCK \<longleftrightarrow> flag (f_flag f) FEXLOCK) \<and>
        (flag (f_flag f) FSHLOCK \<or> flag (f_flag f) FEXLOCK \<longrightarrow> f_type f' = f_type f \<and> f_data f' = f_data f)) \<and>
     (\<forall>ip < N. let i = inodes k ip; i' = inodes k' ip in
        i_shlockc i' = i_shlockc i \<and> i_exlockc i' = i_exlockc i \<and>
        (flag (i_flag i') ISHLOCK \<longleftrightarrow> flag (i_flag i) ISHLOCK) \<and> (flag (i_flag i') IEXLOCK \<longleftrightarrow> flag (i_flag i) IEXLOCK) \<and>
        (flag (i_flag i') ILWAIT \<longleftrightarrow> flag (i_flag i) ILWAIT) \<and>
        (\<forall>p. wchan k' p = a_exlockc k ip \<longrightarrow> wchan k p = a_exlockc k ip) \<and>
        (\<forall>p. wchan k' p = a_shlockc k ip \<longrightarrow> wchan k p = a_shlockc k ip))"

lemma elsewhere_inv:
  assumes "lock_inv N k" "elsewhere N k k'"
  shows "lock_inv N k'"
proof -
  note e = assms(2) [unfolded elsewhere_def Let_def]
  note i = assms(1) [unfolded lock_inv_def]
  have len: "length (files k') = length (files k)" using e by simp
  have h: "holders k' ip b = holders k ip b" if "b = FSHLOCK \<or> b = FEXLOCK" for ip b
  proof -
    have "f_type (files k' ! fp) = DTYPE_INODE \<and> f_data (files k' ! fp) = Some ip \<and> flag (f_flag (files k' ! fp)) b \<longleftrightarrow>
       f_type (files k ! fp) = DTYPE_INODE \<and> f_data (files k ! fp) = Some ip \<and> flag (f_flag (files k ! fp)) b"
      if "fp < length (files k)" for fp
      using e that \<open>b = FSHLOCK \<or> b = FEXLOCK\<close> by metis
    then show ?thesis unfolding holders_def len by blast
  qed
  have hs: "holders k' ip FSHLOCK = holders k ip FSHLOCK" "holders k' ip FEXLOCK = holders k ip FEXLOCK" for ip
    by (rule h, simp)+
  have "ip_ok k' ip" if "ip < N" for ip
  proof -
    have ok: "ip_ok k ip" using i that by blast
    have q: "i_shlockc (inodes k' ip) = i_shlockc (inodes k ip)" "i_exlockc (inodes k' ip) = i_exlockc (inodes k ip)"
      "flag (i_flag (inodes k' ip)) ISHLOCK \<longleftrightarrow> flag (i_flag (inodes k ip)) ISHLOCK"
      "flag (i_flag (inodes k' ip)) IEXLOCK \<longleftrightarrow> flag (i_flag (inodes k ip)) IEXLOCK"
      "flag (i_flag (inodes k' ip)) ILWAIT \<longleftrightarrow> flag (i_flag (inodes k ip)) ILWAIT"
      "\<And>p. wchan k' p = a_exlockc k ip \<Longrightarrow> wchan k p = a_exlockc k ip"
      "\<And>p. wchan k' p = a_shlockc k ip \<Longrightarrow> wchan k p = a_shlockc k ip"
      "a_exlockc k' ip = a_exlockc k ip" "a_shlockc k' ip = a_shlockc k ip"
      using e that by simp_all
    show ?thesis using ok unfolding ip_ok_def hs q(1-5,8,9) using q(6,7) by blast
  qed
  moreover have "\<forall>fp < length (files k'). flag (f_flag (files k' ! fp)) FSHLOCK \<or> flag (f_flag (files k' ! fp)) FEXLOCK \<longrightarrow>
        f_type (files k' ! fp) = DTYPE_INODE \<and> (\<exists>ip < N. f_data (files k' ! fp) = Some ip)"
    using i e unfolding len by metis
  moreover have "chans_ok N k'" using i e unfolding chans_ok_def by presburger
  ultimately show ?thesis using i e len unfolding lock_inv_def by presburger
qed

section \<open>The system calls\<close>

lemma lock_inv_u [simp]: "lock_inv N (upd_u g k) \<longleftrightarrow> lock_inv N k" "holders (upd_u g k) ip b = holders k ip b"
  by (simp_all add: lock_inv_def chans_ok_def ip_ok_def holders_def)

lemma lock_inv_error [simp]: "lock_inv N (set_error e k) \<longleftrightarrow> lock_inv N k"
  by (simp add: set_error_def)

definition inode_file :: "nat \<Rightarrow> 'a fdk_scheme \<Rightarrow> nat \<Rightarrow> bool" where
  "inode_file N k fp \<longleftrightarrow> fp < length (files k) \<and>
     (f_type (files k ! fp) = DTYPE_INODE \<longrightarrow> (\<exists>ip < N. f_data (files k ! fp) = Some ip))"

text \<open>A call of flock, or a process that goes on with ino_lock after a wakeup.\<close>

definition lock_call :: "nat \<Rightarrow> lock_out \<Rightarrow> 'a fdk_scheme \<Rightarrow> 'a fdk_scheme \<Rightarrow> bool" where
  "lock_call N r k k1 \<longleftrightarrow>
     (\<exists>fd how. (\<forall>fp. Some fp \<in> set (u_ofile (u k)) \<longrightarrow> inode_file N k fp) \<and> length (u_ofile (u k)) = NOFILE \<and>
        flock fd how k = Some (r, k1)) \<or>
     (\<exists>fp cmd pri. inode_file N k fp \<and> f_type (files k ! fp) = DTYPE_INODE \<and> ino_lock_again fp cmd pri k = Some (r, k1))"

definition wait_ok :: "nat \<Rightarrow> lock_out \<Rightarrow> 'a fdk_scheme \<Rightarrow> bool" where
  "wait_ok N r k \<longleftrightarrow> (case r of LkRet e \<Rightarrow> True | LkSleep c p \<Rightarrow>
     (\<exists>ip < N. flag (i_flag (inodes k ip)) ILWAIT \<and>
        (c = a_exlockc k ip \<and> flag (i_flag (inodes k ip)) IEXLOCK \<or> c = a_shlockc k ip \<and> flag (i_flag (inodes k ip)) ISHLOCK)))"

lemma again_call:
  assumes "lock_inv N k" "inode_file N k fp" "f_type (files k ! fp) = DTYPE_INODE"
    "ino_lock_again fp cmd pri k = Some (r, k1)"
  shows "lock_inv N k1" "wait_ok N r k1"
proof -
  obtain ip where ip: "fp < length (files k)" "f_data (files k ! fp) = Some ip" "ip < N"
    using assms(2,3) by (auto simp: inode_file_def)
  obtain r' k' where *: "ino_lock_again fp cmd pri k = Some (r', k')" "lock_inv N k'" "lock_answer fp ip cmd r' k'"
    by (rule ino_lock_again_ok [OF assms(1) ip(1) assms(3) ip(2,3)]) (rule that)
  then show "lock_inv N k1" using assms(4) by simp
  have "lock_answer fp ip cmd r k1" using * assms(4) by simp
  then show "wait_ok N r k1" using ip(3) unfolding lock_answer_def wait_ok_def by (cases r) auto
qed

lemma getf_cases:
  assumes "length (u_ofile (u k)) = NOFILE"
  shows "getf fd k = (None, set_error EBADF k) \<or> (\<exists>fp. getf fd k = (Some fp, k) \<and> Some fp \<in> set (u_ofile (u k)))"
proof (cases "fd < 0 \<or> fd \<ge> int NOFILE \<or> u_ofile (u k) ! nat fd = None")
  case True
  then show ?thesis by (auto simp: getf_def)
next
  case False
  then obtain fp where "u_ofile (u k) ! nat fd = Some fp" by auto
  moreover have "nat fd < length (u_ofile (u k))" using False assms by auto
  ultimately have "Some fp \<in> set (u_ofile (u k))" by (metis nth_mem)
  then show ?thesis using False \<open>u_ofile (u k) ! nat fd = Some fp\<close> by (auto simp: getf_def)
qed

lemma flock_call:
  assumes inv: "lock_inv N k" and v: "\<forall>fp. Some fp \<in> set (u_ofile (u k)) \<longrightarrow> inode_file N k fp" "length (u_ofile (u k)) = NOFILE"
    and c: "flock fd how k = Some (r, k1)"
  shows "lock_inv N k1 \<and> wait_ok N r k1"
  using getf_cases [OF v(2), of fd]
proof
  assume "getf fd k = (None, set_error EBADF k)"
  then show ?thesis using c inv by (auto simp: flock_def wait_ok_def)
next
  assume "\<exists>fp. getf fd k = (Some fp, k) \<and> Some fp \<in> set (u_ofile (u k))"
  then obtain fp where fp: "getf fd k = (Some fp, k)" "inode_file N k fp" using v(1) by blast
  let ?how = "if flag how LOCK_EX then clr_flag LOCK_SH how else how"
  consider (type) "f_type (files k ! fp) \<noteq> DTYPE_INODE" | (unlock) "f_type (files k ! fp) = DTYPE_INODE" "flag how LOCK_UN"
    | (lock) "f_type (files k ! fp) = DTYPE_INODE" "\<not> flag how LOCK_UN" by blast
  then show ?thesis
  proof cases
    case type
    then show ?thesis using c inv fp by (auto simp: flock_def wait_ok_def)
  next
    case unlock
    then have u: "flock fd how k = map_option (\<lambda>k2. (LkRet NOERR, k2)) (ino_unlock fp (or FSHLOCK FEXLOCK) k)"
      using fp by (simp add: flock_def)
    have "fp < length (files k)" using fp(2) by (simp add: inode_file_def)
    then obtain k' where "ino_unlock fp (or FSHLOCK FEXLOCK) k = Some k'" "lock_inv N k'"
      by (rule ino_unlock_ok [OF inv]) (rule that)
    then show ?thesis using c u by (auto simp: wait_ok_def)
  next
    case lock
    have "(r, k1) = (LkRet NOERR, k) \<or>
        map_option (\<lambda>(r, k2). (r, case r of LkRet e \<Rightarrow> set_error e k2 | _ \<Rightarrow> k2)) (ino_lock fp ?how k) = Some (r, k1)"
      using c lock fp(1) by (auto simp: flock_def Let_def split: if_splits)
    then show ?thesis
    proof
      assume "(r, k1) = (LkRet NOERR, k)"
      then show ?thesis using inv by (simp add: wait_ok_def)
    next
      assume "map_option (\<lambda>(r, k2). (r, case r of LkRet e \<Rightarrow> set_error e k2 | _ \<Rightarrow> k2)) (ino_lock fp ?how k) = Some (r, k1)"
      then obtain k2 where k2: "ino_lock fp ?how k = Some (r, k2)" "k1 = (case r of LkRet e \<Rightarrow> set_error e k2 | _ \<Rightarrow> k2)" by auto
      from again_call [OF inv fp(2) lock(1) k2(1) [unfolded ino_lock_def]] k2(2) show ?thesis
        by (cases r) (simp_all add: wait_ok_def)
    qed
  qed
qed

lemma lock_call_ok: "lock_inv N k \<Longrightarrow> lock_call N r k k1 \<Longrightarrow> lock_inv N k1 \<and> wait_ok N r k1"
  unfolding lock_call_def using again_call flock_call by metis

text \<open>The running process can sleep: it is on no queue and no signal is pending.\<close>

definition may_sleep :: "u_int \<Rightarrow> 'a kern_scheme \<Rightarrow> bool" where
  "may_sleep c k \<longleftrightarrow> (let p = u_procp (u k) in stat k p = SRUN \<and> wchan k p = 0 \<and> \<not> on_runq k p \<and>
     \<not> ISSIG_test (procs k p) \<and> \<not> panicstr k \<and> a_runin k \<noteq> 0 \<and> (k_runin k \<longrightarrow> c \<noteq> a_runin k \<and> c \<noteq> a_runout k))"

text \<open>
  The steps of the system: a locking call that returns; one that waits; one whose wait a signal aborts;
  the release of a file's locks when it is closed; and everything else.
\<close>

inductive lock_step :: "nat \<Rightarrow> 'a fdk_scheme \<Rightarrow> 'a fdk_scheme \<Rightarrow> bool" for N where
  returns: "lock_call N (LkRet e) k k' \<Longrightarrow> lock_step N k k'"
| waits: "lock_call N (LkSleep c pri) k k1 \<Longrightarrow> may_sleep c k1 \<Longrightarrow> sleep c pri k1 = Some (SSwtch, k') \<Longrightarrow> lock_step N k k'"
| aborted: "lock_call N (LkSleep c pri) k k1 \<Longrightarrow> interrupted k1 = (e, k') \<Longrightarrow> lock_step N k k'"
| closes: "fp < length (files k) \<Longrightarrow> ino_unlock fp (or FSHLOCK FEXLOCK) k = Some k' \<Longrightarrow> lock_step N k k'"
| other: "elsewhere N k k' \<Longrightarrow> lock_step N k k'"

lemma lock_inv_wait:
  assumes inv: "lock_inv N k" and w: "wait_ok N (LkSleep c pri) k" and m: "may_sleep c k"
    and s: "sleep c pri k = Some (SSwtch, k')"
  shows "lock_inv N k'"
proof -
  define p where "p = u_procp (u k)"
  have base: "sched_ok k" "sleepers_ok k" "a_runout k \<noteq> 0" using inv by (simp_all add: lock_inv_def)
  have ch: "chans_ok N k" using inv by (simp add: lock_inv_def)
  obtain ip where ip: "ip < N" "flag (i_flag (inodes k ip)) ILWAIT"
    "c = a_exlockc k ip \<and> flag (i_flag (inodes k ip)) IEXLOCK \<or> c = a_shlockc k ip \<and> flag (i_flag (inodes k ip)) ISHLOCK"
    using w by (auto simp: wait_ok_def)
  have c0: "c \<noteq> 0" using ip ch by (auto simp: chans_ok_def)
  have q: "stat k p = SRUN" "wchan k p = 0" "\<not> on_runq k p" "\<not> ISSIG_test (procs k p)" "\<not> panicstr k" "a_runin k \<noteq> 0"
    "k_runin k \<longrightarrow> pri \<le> PZERO \<or> c \<noteq> a_runin k \<and> c \<noteq> a_runout k"
    using m by (simp_all add: may_sleep_def Let_def p_def)
  note so = sleep_others [OF base q(6,5) c0 p_def q(1-4) s]
  obtain k1 where k1: "sleep c pri k = Some (SSwtch, k1)" "sched_ok k1" "sleepers_ok k1" "wchan k1 p = c"
    by (rule sleep_quiet [OF base q(6,5) c0 p_def q(1-3) disjI2 [OF q(4)] q(7)]) (rule that)
  have k': "sched_ok k'" "sleepers_ok k'" "wchan k' p = c" using k1 s by simp_all
  note v = more_lock_view [OF so(1)]
  have h: "holders k' i b = holders k i b" for i b by (simp add: holders_def v)
  have "ip_ok k' i" if i: "i < N" for i
  proof -
    have ok: "ip_ok k i" using inv i by (simp add: lock_inv_def)
    have nz: "a_exlockc k i \<noteq> 0" "a_shlockc k i \<noteq> 0" using ch i by (simp_all add: chans_ok_def)
    have dis: "a_exlockc k x \<noteq> a_shlockc k y" if "x < N" "y < N" for x y
      using ch that unfolding chans_ok_def by (metis IntI empty_iff imageI lessThan_iff)
    have inj: "a_exlockc k x = a_exlockc k y \<Longrightarrow> x = y" "a_shlockc k x = a_shlockc k y \<Longrightarrow> x = y" if "x < N" "y < N" for x y
      using ch that unfolding chans_ok_def inj_on_def by (metis lessThan_iff)+
    have "flag (i_flag (inodes k i)) IEXLOCK \<and> flag (i_flag (inodes k i)) ILWAIT" if "wchan k' x = a_exlockc k i" for x
    proof (cases "x = p")
      case True
      then have "c = a_exlockc k i" using that k'(3) by simp
      then have "ip = i" using ip(1,3) i dis inj(1) by metis
      then show ?thesis using ip dis [OF i i] \<open>c = a_exlockc k i\<close> by auto
    next
      case False
      then have "wchan k x = a_exlockc k i" using so(2) [OF False] that nz by metis
      then show ?thesis using ok unfolding ip_ok_def by blast
    qed
    moreover have "flag (i_flag (inodes k i)) ISHLOCK \<and> flag (i_flag (inodes k i)) ILWAIT" if "wchan k' x = a_shlockc k i" for x
    proof (cases "x = p")
      case True
      then have "c = a_shlockc k i" using that k'(3) by simp
      then have "ip = i" using ip(1,3) i dis inj(2) by metis
      then show ?thesis using ip dis [OF i i] \<open>c = a_shlockc k i\<close> by auto
    next
      case False
      then have "wchan k x = a_shlockc k i" using so(2) [OF False] that nz by metis
      then show ?thesis using ok unfolding ip_ok_def by blast
    qed
    ultimately show ?thesis using ok unfolding ip_ok_def h v by blast
  qed
  then show ?thesis using inv k' so(3) unfolding lock_inv_def chans_ok_def v by simp
qed

lemma lock_step_inv: "lock_step N k k' \<Longrightarrow> lock_inv N k \<Longrightarrow> lock_inv N k'"
proof (induction rule: lock_step.induct)
  case (returns e k k')
  then show ?case using lock_call_ok by metis
next
  case (waits c pri k k1 k')
  then show ?case using lock_call_ok lock_inv_wait by metis
next
  case (aborted c pri k k1 e k')
  then have "lock_inv N k1" using lock_call_ok by metis
  then show ?case using aborted(2) by (auto simp: interrupted_def split: if_splits)
next
  case (closes fp k k')
  then show ?case using ino_unlock_ok [of N k fp] by (metis option.inject)
next
  case (other k k')
  then show ?case using elsewhere_inv by blast
qed

section \<open>A process waiting for a lock\<close>

text \<open>Inode 0 is open as file 0, which has the exclusive lock, and as file 1, descriptor 0 of the running process.\<close>

definition demo_inode :: inode where
  "demo_inode = \<lparr>i_flag = IEXLOCK, i_count = 2, i_dev = 0, i_shlockc = 0, i_exlockc = 1, i_number = 2, i_rdev = 0,
     i_mode = 0x81a4, i_nlink = 1, i_uid = 7, i_gid = 3, i_size = 0, i_atime = 0, i_mtime = 0, i_ctime = 0, i_addr = []\<rparr>"

definition demo_file :: file_entry where
  "demo_file = \<lparr>f_flag = 0x3, f_type = DTYPE_INODE, f_count = 1, f_msgcount = 0, f_data = Some 0, f_offset = 0\<rparr>"

definition demo_locked :: fdk where
  "demo_locked = upd_u (\<lambda>v. v\<lparr>u_ofile := (u_ofile v)[0 := Some 1]\<rparr>) (clk.extend (kern.extend demo_awake
     (clk.fields (\<lambda>_. \<lparr>c_time = 0, c_arg = 0, c_func = 0, c_next = None\<rparr>) None None 0 0 0 0 0 0))
     (fdk.fields [demo_file\<lparr>f_flag := 0x103\<rparr>, demo_file] None (\<lambda>_. demo_inode) (\<lambda>_. 0x200) (\<lambda>_. 0x208) (\<lambda>_. 0x20a)))"

lemma demo_locked_fields [simp]:
  "files demo_locked = [demo_file\<lparr>f_flag := 0x103\<rparr>, demo_file]" "inodes demo_locked = (\<lambda>_. demo_inode)"
  "a_shlockc demo_locked = (\<lambda>_. 0x208)" "a_exlockc demo_locked = (\<lambda>_. 0x20a)" "procs demo_locked = procs demo_awake"
  "qs demo_locked = qs demo_awake" "slpque demo_locked = slpque demo_awake" "a_runout demo_locked = a_runout demo_awake"
  "a_runin demo_locked = a_runin demo_awake" "panicstr demo_locked = panicstr demo_awake"
  "k_runin demo_locked = k_runin demo_awake"
  "u demo_locked = (u demo_awake)\<lparr>u_ofile := (u_ofile (u demo_awake))[0 := Some 1]\<rparr>"
  by (simp_all add: demo_locked_def demo_awake_def demo_kern_def kern.defs clk.defs fdk.defs upd_u_def)

lemma demo_locked_inv: "lock_inv 1 demo_locked"
proof -
  have s: "sched_ok demo_locked" "sleepers_ok demo_locked"
    using demo_awake_ok(1,2) by (simp_all add: sched_ok_def queues_def sleepers_ok_def)
  moreover have fl: "flag (0x103 :: u_int) 0x100" "\<not> flag (0x103 :: u_int) 0x80" "\<not> flag (0x3 :: u_int) 0x100" "\<not> flag (0x3 :: u_int) 0x80"
    by (simp_all add: flag_def)
  moreover have "{fp. fp < length (files demo_locked)} = {0, 1}" by auto
  then have "holders demo_locked 0 FEXLOCK = {0}" "holders demo_locked 0 FSHLOCK = {}"
    using fl by (auto simp: holders_def demo_file_def less_Suc_eq nth_Cons')
  moreover have "wchan demo_awake p \<noteq> 0x208" "wchan demo_awake p \<noteq> 0x20a" for p
    by (simp_all add: demo_awake_def demo_kern_def demo_proc_def)
  ultimately have "ip_ok demo_locked 0" unfolding ip_ok_def by (simp add: demo_inode_def flag_def)
  moreover have "chans_ok 1 demo_locked" by (auto simp: chans_ok_def inj_on_def)
  moreover have "f_type (files demo_locked ! x) = DTYPE_INODE" "f_data (files demo_locked ! x) = Some 0" if "x < 2" for x
    using that by (auto simp: demo_file_def less_Suc_eq numeral_2_eq_2)
  ultimately show ?thesis
    using demo_awake_ok(3) s unfolding lock_inv_def by (simp add: numeral_2_eq_2)
qed

section \<open>Properties\<close>

text \<open>ino_lock neither panics nor loops. It grants the lock, and then no other file holds a
  conflicting one; or another file does, and it refuses with EWOULDBLOCK if it may not block, and
  otherwise waits for that lock with \<open>ILWAIT\<close> set. A lock of the file itself never stands in its way.\<close>

lemma ino_lock_answers:
  assumes "lock_inv N k" "inode_file N k fp" "f_type (files k ! fp) = DTYPE_INODE"
  shows "\<exists>r k' ip. ino_lock fp cmd k = Some (r, k') \<and> f_data (files k ! fp) = Some ip \<and> lock_inv N k' \<and> only_wakes k k' \<and>
    lock_answer fp ip cmd r k'"
proof -
  obtain ip where ip: "fp < length (files k)" "f_data (files k ! fp) = Some ip" "ip < N"
    using assms(2,3) by (auto simp: inode_file_def)
  show ?thesis
    unfolding ino_lock_def using ino_lock_again_ok [OF assms(1) ip(1) assms(3) ip(2,3)] ip(2) by metis
qed

lemma ino_lock_answers_witness:
  "\<exists>r k'. ino_lock 1 (or LOCK_EX LOCK_NB) demo_locked = Some (r, k') \<and> lock_inv 1 k'"
proof -
  have "inode_file 1 demo_locked 1" "f_type (files demo_locked ! 1) = DTYPE_INODE"
    by (simp_all add: inode_file_def demo_file_def)
  from ino_lock_answers [OF demo_locked_inv this] show ?thesis by metis
qed

text \<open>C19: Advisory locks exclude each other and no wakeup is lost. After any interleaving of locking
  calls, waits, signals, releases and everything else, at most one open file holds an exclusive lock of
  an inode and then none holds a shared one, and a process that sleeps for a lock sleeps for one that
  some file still holds, whose release (of the last one) wakes every process sleeping there.\<close>

theorem flock_excludes:
  assumes "(lock_step N)\<^sup>*\<^sup>* k0 k" "lock_inv N k0" "ip < N"
  shows "card (holders k ip FEXLOCK) \<le> 1 \<and> (holders k ip FEXLOCK \<noteq> {} \<longrightarrow> holders k ip FSHLOCK = {}) \<and>
    (\<forall>p. wchan k p = a_exlockc k ip \<longrightarrow> (\<exists>fp k2. holders k ip FEXLOCK = {fp} \<and> ino_unlock fp FEXLOCK k = Some k2 \<and>
       (\<forall>q. wchan k2 q \<noteq> a_exlockc k ip))) \<and>
    (\<forall>p. wchan k p = a_shlockc k ip \<longrightarrow> holders k ip FSHLOCK \<noteq> {} \<and>
       (\<forall>fp. holders k ip FSHLOCK = {fp} \<longrightarrow> (\<exists>k2. ino_unlock fp FSHLOCK k = Some k2 \<and> (\<forall>q. wchan k2 q \<noteq> a_shlockc k ip))))"
proof -
  have inv: "lock_inv N k" using assms(1,2) by (induction rule: rtranclp_induct) (auto dest: lock_step_inv)
  have ok: "ip_ok k ip" using inv assms(3) by (simp add: lock_inv_def)
  have one: "card (holders k ip FEXLOCK) \<le> 1" using ok by (simp add: ip_ok_def)
  have ex: "\<exists>fp k2. holders k ip FEXLOCK = {fp} \<and> ino_unlock fp FEXLOCK k = Some k2 \<and> (\<forall>q. wchan k2 q \<noteq> a_exlockc k ip)"
    if "wchan k p = a_exlockc k ip" for p
  proof -
    have "holders k ip FEXLOCK \<noteq> {}" using ok that unfolding ip_ok_def by metis
    then obtain fp where fp: "fp \<in> holders k ip FEXLOCK" by blast
    then have l: "fp < length (files k)" by (simp add: holders_def)
    have "holders k ip FEXLOCK = {fp}" using one fp card_le_Suc0_iff_eq [OF holders_finite, of k ip FEXLOCK] by auto
    moreover obtain k2 where "ino_unlock_ex fp (i_flag (inodes k ip)) ip k = Some k2" "\<forall>q. wchan k2 q \<noteq> a_exlockc k ip"
      by (rule unlock_ex_ok [OF inv l fp]) (rule that)
    ultimately show ?thesis using ino_unlock_holder [OF fp] by simp
  qed
  have sh: "\<exists>k2. ino_unlock fp FSHLOCK k = Some k2 \<and> (\<forall>q. wchan k2 q \<noteq> a_shlockc k ip)" if "holders k ip FSHLOCK = {fp}" for fp
  proof -
    have fp: "fp \<in> holders k ip FSHLOCK" "fp < length (files k)" using that by (auto simp: holders_def)
    obtain k2 where "ino_unlock_sh fp (i_flag (inodes k ip)) ip k = Some k2" "\<forall>q. wchan k2 q \<noteq> a_shlockc k ip"
      using unlock_sh_ok [OF inv fp(2,1)] \<open>holders k ip FSHLOCK = {fp}\<close> by metis
    then show ?thesis using ino_unlock_holder [OF fp(1)] by simp
  qed
  have "wchan k p = a_shlockc k ip \<Longrightarrow> holders k ip FSHLOCK \<noteq> {}" for p using ok unfolding ip_ok_def by blast
  then show ?thesis using one ok ex sh unfolding ip_ok_def by blast
qed

theorem flock_excludes_witness:
  "\<exists>k1 k2. lock_step 1 demo_locked k1 \<and> wchan k1 1 = a_exlockc k1 0 \<and> holders k1 0 FEXLOCK = {0} \<and>
     ino_unlock 0 FEXLOCK k1 = Some k2 \<and> (\<forall>q. wchan k2 q \<noteq> a_exlockc k1 0)"
proof -
  let ?k = "upd_inode 0 (\<lambda>i. i\<lparr>i_flag := set_flag ILWAIT (i_flag i)\<rparr>) demo_locked"
  have fl: "flag IEXLOCK IEXLOCK" "\<not> flag (0x3 :: u_int) FEXLOCK" "\<not> flag (0x3 :: u_int) FSHLOCK" "flag LOCK_EX LOCK_EX" "\<not> flag LOCK_EX LOCK_NB"
    "\<not> flag LOCK_EX LOCK_UN" "flag LOCK_EX (or LOCK_SH LOCK_EX)" "clr_flag LOCK_SH LOCK_EX = LOCK_EX" "\<not> flag LOCK_EX LOCK_SH"
    by (simp_all add: flag_def clr_flag_def)
  have l: "ino_lock 1 LOCK_EX demo_locked = Some (LkSleep 0x20a PLOCK, ?k)"
    unfolding ino_lock_def using fl by (simp add: ino_lock_again.simps demo_file_def demo_inode_def)
  have ua: "u_ofile (u demo_awake) = replicate 30 None" by (simp add: demo_awake_def demo_kern_def demo_user_def)
  then have uo: "u_ofile (u demo_locked) = (replicate 30 None)[0 := Some 1]" by simp
  have "getf 0 demo_locked = (Some 1, demo_locked)" by (simp add: getf_def ua)
  then have "flock 0 LOCK_EX demo_locked = Some (LkSleep 0x20a PLOCK, ?k)"
    using fl l by (simp add: flock_def demo_file_def)
  moreover have "\<forall>fp. Some fp \<in> set (u_ofile (u demo_locked)) \<longrightarrow> inode_file 1 demo_locked fp"
    unfolding uo by (auto simp: inode_file_def demo_file_def set_update_subset_insert [THEN subsetD] dest!: set_update_subset_insert [THEN subsetD])
  moreover have "length (u_ofile (u demo_locked)) = NOFILE" by (simp add: ua)
  ultimately have call: "lock_call 1 (LkSleep 0x20a PLOCK) demo_locked ?k" unfolding lock_call_def by blast
  have inv: "lock_inv 1 ?k" using lock_call_ok [OF demo_locked_inv call] by simp
  then have base: "sched_ok ?k" "sleepers_ok ?k" "a_runout ?k \<noteq> 0" by (simp_all add: lock_inv_def)
  have run: "u_procp (u ?k) = 1" "stat ?k 1 = SRUN" "wchan ?k 1 = 0" "\<not> ISSIG_test (procs ?k 1)" "\<not> panicstr ?k"
    "a_runin ?k \<noteq> 0" "\<not> k_runin ?k" "\<not> on_runq ?k 1"
    using demo_awake_ok by (simp_all add: upd_inode_def on_runq_def)
  then have m: "may_sleep 0x20a ?k" by (simp add: may_sleep_def)
  have q: "\<not> ISSIG_test (procs ?k 1)" "k_runin ?k \<longrightarrow> PLOCK \<le> PZERO \<or> 0x20a \<noteq> a_runin ?k \<and> 0x20a \<noteq> a_runout ?k"
    using run by simp_all
  obtain k1 where k1: "sleep 0x20a PLOCK ?k = Some (SSwtch, k1)" "wchan k1 1 = 0x20a"
    by (rule sleep_quiet [OF base run(6,5) _ run(1) [symmetric] run(2,3,8) disjI2 [OF q(1)] q(2)]) (simp, rule that)
  have v: "kern.more k1 = kern.more ?k"
    by (rule sleep_others(1) [OF base run(6,5) _ run(1) [symmetric] run(2,3,8) q(1) k1(1)]) simp
  have w: "wchan k1 1 = a_exlockc k1 0" using k1(2) more_lock_view(3) [OF v] by simp
  have step: "lock_step 1 demo_locked k1" by (rule lock_step.waits [OF call m k1(1)])
  have z: "(0 :: nat) < 1" by simp
  from flock_excludes [OF r_into_rtranclp [where r = "lock_step 1", OF step] demo_locked_inv z] w obtain fp k2
    where fp: "holders k1 0 FEXLOCK = {fp}" "ino_unlock fp FEXLOCK k1 = Some k2" "\<forall>q. wchan k2 q \<noteq> a_exlockc k1 0"
    by blast
  have "0 \<in> holders k1 0 FEXLOCK"
    using more_lock_view(1) [OF v] by (simp add: holders_def demo_file_def flag_def)
  then have "fp = 0" using fp(1) by simp
  then show ?thesis using step w fp by blast
qed

end
