(* ===== verification/FdProps.thy ===== *)
theory FdProps imports FlockProps begin

text \<open>
  Descriptors (kern_descrip.c): the reference counts of the file table are exact, no descriptor refers to
  a free entry, and the way in which a failing close breaks this.
\<close>

section \<open>Counting references\<close>

lemma count_list_upd:
  "i < length xs \<Longrightarrow> int (count_list (xs[i := x]) y) =
     int (count_list xs y) - (if xs ! i = y then 1 else 0) + (if x = y then 1 else 0)"
proof (induction xs arbitrary: i)
  case (Cons a xs)
  show ?case
  proof (cases i)
    case 0
    then show ?thesis by simp
  next
    case (Suc n)
    then show ?thesis using Cons.IH [of n] Cons.prems by (simp split: if_splits)
  qed
qed simp

lemma sint_char_inc: "sint (c :: u_char) < 127 \<Longrightarrow> sint (c + 1) = sint c + 1"
  using sint_range_size [of c] by (subst sint_word_ariths) (simp add: signed_take_bit_int_eq_self word_size)

lemma sint_char_dec: "- 128 < sint (c :: u_char) \<Longrightarrow> sint (c - 1) = sint c - 1"
  using sint_range_size [of c] by (subst sint_word_ariths) (simp add: signed_take_bit_int_eq_self word_size)

text \<open>
  Descriptors \<open>os\<close>, the highest one in use \<open>l\<close>, and the counts \<open>cs\<close> of the file table, where \<open>oth fp\<close>
  references to file \<open>fp\<close> are held elsewhere (by other processes, in messages).
\<close>

definition fd_ok :: "(nat \<Rightarrow> nat) \<Rightarrow> nat option list \<Rightarrow> int \<Rightarrow> u_char list \<Rightarrow> bool" where
  "fd_ok oth os l cs \<longleftrightarrow> length os = NOFILE \<and> - 1 \<le> l \<and> l < int NOFILE \<and>
     (\<forall>i < NOFILE. os ! i \<noteq> None \<longrightarrow> int i \<le> l) \<and> (\<forall>fp. Some fp \<in> set os \<longrightarrow> fp < length cs) \<and>
     (\<forall>fp < length cs. sint (cs ! fp) = int (count_list os (Some fp)) + int (oth fp))"

lemma count_le: "count_list os y \<le> length os"
  by (induction os) auto

lemma count_pos: "Some fp \<in> set os \<longleftrightarrow> 0 < count_list os (Some fp)"
  by (induction os) auto

lemma fd_ok_dup:
  assumes "fd_ok oth os l cs" "j < NOFILE" "os ! j = None" "fp < length cs" "oth fp \<le> 97"
  shows "fd_ok oth (os[j := Some fp]) (max l (int j)) (cs[fp := cs ! fp + 1])"
proof -
  have len: "length os = NOFILE" using assms(1) by (simp add: fd_ok_def)
  have c: "int (count_list (os[j := Some fp]) (Some y)) = int (count_list os (Some y)) + (if y = fp then 1 else 0)" for y
    using count_list_upd [of j os "Some fp" "Some y"] assms(2,3) len by auto
  have s: "sint (cs ! fp) = int (count_list os (Some fp)) + int (oth fp)" using assms(1,4) by (simp add: fd_ok_def)
  have "count_list (os[j := Some fp]) (Some fp) \<le> 30" using count_le [of "os[j := Some fp]" "Some fp"] len by simp
  then have "sint (cs ! fp) < 127" using s c [of fp] assms(5) by simp
  then have "sint (cs ! fp + 1) = sint (cs ! fp) + 1" by (rule sint_char_inc)
  then have "sint (cs[fp := cs ! fp + 1] ! y) = int (count_list (os[j := Some fp]) (Some y)) + int (oth y)" if "y < length cs" for y
    using assms(1) that s c [of y] by (cases "y = fp") (simp_all add: fd_ok_def)
  moreover have "\<forall>i < NOFILE. os[j := Some fp] ! i \<noteq> None \<longrightarrow> int i \<le> max l (int j)"
  proof (intro allI impI)
    fix i assume "i < NOFILE" "os[j := Some fp] ! i \<noteq> None"
    then show "int i \<le> max l (int j)" using assms(1) by (cases "i = j") (force simp: fd_ok_def)+
  qed
  moreover have "Some y \<in> set (os[j := Some fp]) \<Longrightarrow> y < length cs" for y
    using assms(1,4) set_update_subset_insert [of os j "Some fp"] by (auto simp: fd_ok_def)
  ultimately show ?thesis using assms(1,2) by (simp add: fd_ok_def)
qed

lemma fd_ok_close:
  assumes "fd_ok oth os l cs" "i < NOFILE" "os ! i = Some fp"
  shows "1 \<le> sint (cs ! fp)" "fp < length cs" "fd_ok oth (os[i := None]) l (cs[fp := cs ! fp - 1])"
proof -
  have len: "length os = NOFILE" using assms(1) by (simp add: fd_ok_def)
  have m: "Some fp \<in> set os" using assms(2,3) len by (metis nth_mem)
  then show fp: "fp < length cs" using assms(1) by (simp add: fd_ok_def)
  have s: "sint (cs ! fp) = int (count_list os (Some fp)) + int (oth fp)" using assms(1) fp by (simp add: fd_ok_def)
  then show one: "1 \<le> sint (cs ! fp)" using m count_pos [of fp os] by simp
  have c: "int (count_list (os[i := None]) (Some y)) = int (count_list os (Some y)) - (if y = fp then 1 else 0)" for y
    using count_list_upd [of i os None "Some y"] assms(2,3) len by auto
  have "sint (cs ! fp - 1) = sint (cs ! fp) - 1" using one by (intro sint_char_dec) simp
  then have "sint (cs[fp := cs ! fp - 1] ! y) = int (count_list (os[i := None]) (Some y)) + int (oth y)" if "y < length cs" for y
    using assms(1) that s c [of y] by (cases "y = fp") (simp_all add: fd_ok_def)
  moreover have "\<forall>x < NOFILE. os[i := None] ! x \<noteq> None \<longrightarrow> int x \<le> l"
  proof (intro allI impI)
    fix x assume "x < NOFILE" "os[i := None] ! x \<noteq> None"
    then show "int x \<le> l" using assms(1) len by (cases "x = i") (force simp: fd_ok_def)+
  qed
  moreover have "Some y \<in> set (os[i := None]) \<Longrightarrow> y < length cs" for y
    using assms(1) set_update_subset_insert [of os i None] by (auto simp: fd_ok_def)
  ultimately show "fd_ok oth (os[i := None]) l (cs[fp := cs ! fp - 1])" using assms(1) by (simp add: fd_ok_def)
qed

lemma drop_last_ok: "- 1 \<le> drop_last os n \<and> drop_last os n < int n \<or> drop_last os n = - 1"
  "i < n \<Longrightarrow> os ! i \<noteq> None \<Longrightarrow> int i \<le> drop_last os n"
proof -
  show "- 1 \<le> drop_last os n \<and> drop_last os n < int n \<or> drop_last os n = - 1" by (induction n) auto
  show "i < n \<Longrightarrow> os ! i \<noteq> None \<Longrightarrow> int i \<le> drop_last os n" by (induction n) (auto simp: less_Suc_eq)
qed

lemma fd_ok_last:
  assumes "fd_ok oth os l cs"
  shows "fd_ok oth os (drop_last os (nat (l + 1))) cs"
proof -
  have "int i \<le> drop_last os (nat (l + 1))" if "i < NOFILE" "os ! i \<noteq> None" for i
    using that assms drop_last_ok(2) [of i "nat (l + 1)" os] by (auto simp: fd_ok_def)
  moreover have "- 1 \<le> drop_last os (nat (l + 1))" "drop_last os (nat (l + 1)) < int NOFILE"
    using drop_last_ok(1) [of os "nat (l + 1)"] assms by (auto simp: fd_ok_def)
  ultimately show ?thesis using assms by (simp add: fd_ok_def)
qed

lemma fd_ok_raise: "fd_ok oth os l cs \<Longrightarrow> j < NOFILE \<Longrightarrow> fd_ok oth os (max l (int j)) cs"
  unfolding fd_ok_def by (auto simp: max_def)

section \<open>What the routines below leave alone\<close>

definition fdv :: "'a fdk_scheme \<Rightarrow> nat option list \<times> int \<times> u_char list \<times> errno \<times> nat option" where
  "fdv k = (u_ofile (u k), u_lastfile (u k), map f_count (files k), u_error (u k), lastf k)"

text \<open>No one of them touches descriptors or counts, or reports an error or an interruption from a close.\<close>

definition fileops_ok :: "('a fdk_scheme) fileops \<Rightarrow> bool" where
  "fileops_ok x \<longleftrightarrow> (\<forall>k ip dev fl com d v b.
     fdv (x_ilock x ip k) = fdv k \<and> fdv (x_iput x ip k) = fdv k \<and> fdv (x_bflush x dev k) = fdv k \<and>
     fdv (x_binval x dev k) = fdv k \<and> fst (x_bdclose x dev fl k) \<and> fdv (snd (x_bdclose x dev fl k)) = fdv k \<and>
     fst (x_cdclose x dev fl k) \<and> fdv (snd (x_cdclose x dev fl k)) = fdv k \<and>
     fdv (snd (x_cdioctl x dev com d fl k)) = fdv k \<and> fdv (x_soclose x v b k) = fdv k \<and>
     fdv (x_set_so_pgrp x v d k) = fdv k)"

lemma wakeup_fdv: "wakeup c k = Some k' \<Longrightarrow> fdv k' = fdv k"
  using wakeup_at_u [of c _ k k'] more_lock_view(1,6) [OF wakeup_more] unfolding wakeup_def fdv_def by metis

lemma map_upd_same:
  assumes "g (f (xs ! i)) = g (xs ! i)"
  shows "map g (xs[i := f (xs ! i)]) = map g xs"
proof (rule nth_equalityI)
  fix n assume "n < length (map g (xs[i := f (xs ! i)]))"
  then show "map g (xs[i := f (xs ! i)]) ! n = map g xs ! n" using assms by (cases "n = i") simp_all
qed simp

lemma fdv_upd [simp]:
  "fdv (upd_inode ip g k) = fdv k" "(\<And>e. f_count (h e) = f_count e) \<Longrightarrow> fdv (upd_file fp h k) = fdv k"
  by (simp_all add: fdv_def map_upd_same)

lemma ino_unlock_fdv:
  "ino_unlock_sh fp fl ip k = Some k' \<Longrightarrow> fdv k' = fdv k"
  "ino_unlock_ex fp fl ip k = Some k' \<Longrightarrow> fdv k' = fdv k"
  "ino_unlock fp kd k = Some k' \<Longrightarrow> fdv k' = fdv k"
proof -
  show sh: "fdv k' = fdv k" if "ino_unlock_sh fp fl ip k = Some k'" for fp fl ip and k k' :: "'a fdk_scheme"
    using that by (auto simp: ino_unlock_sh_def Let_def bind_eq_Some_conv dest!: wakeup_fdv split: if_splits)
  show ex: "fdv k' = fdv k" if "ino_unlock_ex fp fl ip k = Some k'" for fp fl ip and k k' :: "'a fdk_scheme"
    using that by (auto simp: ino_unlock_ex_def Let_def bind_eq_Some_conv dest!: wakeup_fdv split: if_splits)
  show "ino_unlock fp kd k = Some k' \<Longrightarrow> fdv k' = fdv k"
    by (auto simp: ino_unlock_def Let_def bind_eq_Some_conv dest!: sh ex split: if_splits option.splits)
qed

lemma ino_ioctl_fdv: "fileops_ok x \<Longrightarrow> ino_ioctl x fp com d k = Some (r, k') \<Longrightarrow> fdv k' = fdv k"
proof -
  assume x: "fileops_ok x" and i: "ino_ioctl x fp com d k = Some (r, k')"
  have u: "fdv (upd_u (\<lambda>v. v\<lparr>r_val1 := n\<rparr>) k) = fdv k" for n by (simp add: fdv_def)
  have s: "fdv (snd (x_cdioctl x dev com d fl k1)) = fdv k1" for dev fl k1 using x unfolding fileops_ok_def by blast
  have t: "fdv (snd (interrupted k1)) = fdv k1" for k1 :: "'a fdk_scheme" by (simp add: interrupted_def fdv_def)
  show ?thesis
    using i s [of _ _ "upd_u (\<lambda>v. v\<lparr>r_val1 := 0\<rparr>) k"] u t
    by (auto simp: ino_ioctl_def Let_def split: if_splits option.splits prod.splits) (metis snd_conv)+
qed

lemma ino_close_fdv:
  assumes x: "fileops_ok x" and c: "ino_close x fp k = Some k'"
  shows "fdv k' = fdv k"
proof -
  have xs: "fdv (x_ilock x ip k) = fdv k" "fdv (x_iput x ip k) = fdv k" "fdv (x_bflush x dev k) = fdv k"
    "fdv (x_binval x dev k) = fdv k" for ip dev and k :: "'a fdk_scheme" using x unfolding fileops_ok_def by blast+
  have d: "x_bdclose x dev fl k = (r, k1) \<Longrightarrow> r \<and> fdv k1 = fdv k" "x_cdclose x dev fl k = (r, k1) \<Longrightarrow> r \<and> fdv k1 = fdv k"
    for dev fl r and k k1 :: "'a fdk_scheme" using x unfolding fileops_ok_def by (metis fst_conv snd_conv)+
  obtain ip k1 k3 where k1: "(if flag (f_flag (files k ! fp)) (or FSHLOCK FEXLOCK) then ino_unlock fp (or FSHLOCK FEXLOCK) k else Some k) = Some k1"
    and k3: "(if f_type (files (x_ilock x ip k1) ! fp) = DTYPE_PIPE then do {
                  let k3 = upd_inode ip (\<lambda>i. i\<lparr>i_mode := clr_flag (or IREAD IWRITE) (i_mode i)\<rparr>) (x_ilock x ip k1);
                  k4 \<leftarrow> wakeup (a_inode k3 ip + 1) k3;
                  wakeup (a_inode k4 ip + 2) k4
                } else Some (x_ilock x ip k1)) = Some k3"
    and k4: "(let flags = f_flag (files k1 ! fp); dev = i_rdev (inodes k1 ip); mode = and (i_mode (inodes k1 ip)) IFMT;
         k4 = upd_file fp (\<lambda>f. f\<lparr>f_data := None\<rparr>) (x_iput x ip k3) in
         if mode \<noteq> IFCHR \<and> mode \<noteq> IFBLK then Some k4
         else if mode = IFBLK \<and> x_mounted x dev k4 then Some k4
         else if dev_active dev mode k4 then Some k4
         else
           let k5 = (if mode = IFBLK then x_binval x dev (x_bflush x dev k4) else k4);
               (returned, k6) = (if mode = IFBLK then x_bdclose x dev flags k5 else x_cdclose x dev flags k5)
           in Some (if \<not> returned \<and> u_error (u k6) = NOERR then set_error EINTR k6 else k6)) = Some k'"
    using c unfolding ino_close_def by (auto simp: Let_def bind_eq_Some_conv split: option.splits)
  have a: "fdv k1 = fdv k" using k1 ino_unlock_fdv(3) by (auto split: if_splits)
  have b: "fdv k3 = fdv k1" using k3 xs by (auto simp: Let_def bind_eq_Some_conv dest!: wakeup_fdv split: if_splits)
  have "fdv k' = fdv (upd_file fp (\<lambda>f. f\<lparr>f_data := None\<rparr>) (x_iput x ip k3))"
    using k4 xs by (auto simp: Let_def dest!: d split: if_splits prod.splits)
  then show ?thesis using a b xs by simp
qed

section \<open>The operations\<close>

abbreviation counts :: "'a fdk_scheme \<Rightarrow> u_char list" where
  "counts k \<equiv> map f_count (files k)"

definition fd_inv :: "(nat \<Rightarrow> nat) \<Rightarrow> 'a fdk_scheme \<Rightarrow> bool" where
  "fd_inv oth k \<longleftrightarrow> fd_ok oth (u_ofile (u k)) (u_lastfile (u k)) (counts k) \<and>
     (\<forall>l. lastf k = Some l \<longrightarrow> l \<le> length (counts k))"

lemma fdv_inv: "fdv k' = fdv k \<Longrightarrow> fd_inv oth k' = fd_inv oth k"
  unfolding fdv_def fd_inv_def by (metis prod.inject)

lemma fd_inv_u [simp]: "(\<And>v. u_ofile (g v) = u_ofile v) \<Longrightarrow> (\<And>v. u_lastfile (g v) = u_lastfile v) \<Longrightarrow> fd_inv oth (upd_u g k) = fd_inv oth k"
  "fd_inv oth (set_error e k) = fd_inv oth k"
  by (simp_all add: fd_inv_def set_error_def)

lemma fd_inv_file [simp]: "(\<And>e. f_count (h e) = f_count e) \<Longrightarrow> fd_inv oth (upd_file fp h k) = fd_inv oth k"
  by (rule fdv_inv) simp

lemma fd_inv_len: "fd_inv oth k \<Longrightarrow> length (u_ofile (u k)) = NOFILE"
  by (simp add: fd_inv_def fd_ok_def)

lemma sint_char_one: "1 \<le> sint (c :: u_char) \<Longrightarrow> \<not> 1 < sint c \<Longrightarrow> c - 1 = 0"
proof -
  assume "1 \<le> sint c" "\<not> 1 < sint c"
  then have "sint c = sint (1 :: u_char)" by simp
  then show ?thesis by (simp add: signed_word_eqI)
qed

lemma closef_counts:
  assumes x: "fileops_ok x" and c: "closef x fp nouser k = Some k'" and e: "u_error (u k) = NOERR"
    and one: "1 \<le> sint (f_count (files k ! fp))" and fp: "fp < length (files k)"
  shows "u_ofile (u k') = u_ofile (u k)" "u_lastfile (u k') = u_lastfile (u k)" "u_error (u k') = NOERR" "lastf k' = lastf k"
    "counts k' = (counts k)[fp := counts k ! fp - 1]"
proof -
  have z: "(counts k1)[fp := 0] = (counts k)[fp := counts k ! fp - 1]"
    if "counts k1 = counts k" "\<not> sint (f_count (files k ! fp)) > 1" for k1 :: "'a fdk_scheme"
    using sint_char_one [OF one that(2)] that(1) fp by simp
  have "u_ofile (u k') = u_ofile (u k) \<and> u_lastfile (u k') = u_lastfile (u k) \<and> u_error (u k') = NOERR \<and> lastf k' = lastf k \<and>
    counts k' = (counts k)[fp := counts k ! fp - 1]"
  proof (cases "sint (f_count (files k ! fp)) > 1")
    case True
    then show ?thesis using c e fp by (auto simp: closef_def map_update)
  next
    case False
    show ?thesis
    proof (cases "f_type (files k ! fp)")
      case DTYPE_NONE
      then have "k' = upd_file fp (\<lambda>f. f\<lparr>f_count := 0\<rparr>) k" using c False by (simp add: closef_def)
      then show ?thesis using z [of k] False e fp by (simp add: map_update)
    next
      case DTYPE_SOCKET
      define k1 where "k1 = x_soclose x (f_data (files k ! fp)) nouser (set_error NOERR k)"
      have v: "fdv k1 = fdv (set_error NOERR k)" using x unfolding fileops_ok_def k1_def by blast
      then have k1: "u_error (u k1) = NOERR" "u_ofile (u k1) = u_ofile (u k)" "u_lastfile (u k1) = u_lastfile (u k)"
        "counts k1 = counts k" "lastf k1 = lastf k" by (simp_all add: fdv_def)
      then have "k' = upd_file fp (\<lambda>f. f\<lparr>f_data := None, f_count := 0\<rparr>) (set_error NOERR k1)"
        using c False DTYPE_SOCKET by (simp add: closef_def k1_def Let_def)
      then show ?thesis using k1 z [of k1] False by (simp add: map_update)
    next
      case DTYPE_INODE
      then obtain k1 where k1: "ino_close x fp k = Some k1" "k' = upd_file fp (\<lambda>f. f\<lparr>f_count := 0\<rparr>) k1"
        using c False by (auto simp: closef_def)
      from ino_close_fdv [OF x k1(1)] show ?thesis using k1(2) z [of k1] False e by (simp add: map_update fdv_def)
    next
      case DTYPE_PIPE
      then obtain k1 where k1: "ino_close x fp k = Some k1" "k' = upd_file fp (\<lambda>f. f\<lparr>f_count := 0\<rparr>) k1"
        using c False by (auto simp: closef_def)
      from ino_close_fdv [OF x k1(1)] show ?thesis using k1(2) z [of k1] False e by (simp add: map_update fdv_def)
    qed
  qed
  then show "u_ofile (u k') = u_ofile (u k)" "u_lastfile (u k') = u_lastfile (u k)" "u_error (u k') = NOERR" "lastf k' = lastf k"
    "counts k' = (counts k)[fp := counts k ! fp - 1]" by simp_all
qed

lemma dupit_inv:
  assumes "fd_inv oth k" "j < NOFILE" "u_ofile (u k) ! j = None" "fp < length (files k)" "oth fp \<le> 97"
  shows "fd_inv oth (dupit j fp fl k)"
proof -
  have "counts (dupit j fp fl k) = (counts k)[fp := counts k ! fp + 1]" using assms(4) by (simp add: dupit_def map_update)
  moreover have "u_ofile (u (dupit j fp fl k)) = (u_ofile (u k))[j := Some fp]" by (simp add: dupit_def)
  moreover have "u_lastfile (u (dupit j fp fl k)) = max (u_lastfile (u k)) (int j)" by (simp add: dupit_def max_def)
  moreover have "lastf (dupit j fp fl k) = lastf k" by (simp add: dupit_def)
  ultimately show ?thesis
    using fd_ok_dup [of oth "u_ofile (u k)" "u_lastfile (u k)" "counts k" j fp] assms by (simp add: fd_inv_def)
qed

lemma getf_some: "getf fd k = (Some fp, k1) \<Longrightarrow> 0 \<le> fd \<and> fd < int NOFILE \<and> u_ofile (u k) ! nat fd = Some fp \<and> k1 = k"
  by (auto simp: getf_def split: if_splits option.splits)

lemma getf_none: "getf fd k = (None, k1) \<Longrightarrow> k1 = set_error EBADF k"
  by (auto simp: getf_def split: if_splits option.splits)

lemma inv_fp: "fd_inv oth k \<Longrightarrow> i < NOFILE \<Longrightarrow> u_ofile (u k) ! i = Some fp \<Longrightarrow> fp < length (files k)"
  using fd_ok_close(2) [of oth "u_ofile (u k)" "u_lastfile (u k)" "counts k" i fp] by (simp add: fd_inv_def)

lemma ufalloc_inv:
  assumes "fd_inv oth k" "ufalloc i0 k = (r, k')"
  shows "fd_inv oth k'" "r = Some j \<Longrightarrow> j < NOFILE \<and> u_ofile (u k') ! j = None \<and> u_ofile (u k') = u_ofile (u k) \<and>
    files k' = files k \<and> lastf k' = lastf k \<and> (\<forall>i. i0 \<le> i \<and> i < j \<longrightarrow> u_ofile (u k) ! i \<noteq> None)"
proof -
  let ?f = "List.find (\<lambda>i. u_ofile (u k) ! i = None) [i0 ..< NOFILE]"
  have "fd_inv oth k' \<and> (r = Some j \<longrightarrow> j < NOFILE \<and> u_ofile (u k') ! j = None \<and> u_ofile (u k') = u_ofile (u k) \<and>
    files k' = files k \<and> lastf k' = lastf k \<and> (\<forall>i. i0 \<le> i \<and> i < j \<longrightarrow> u_ofile (u k) ! i \<noteq> None))"
  proof (cases ?f)
    case None
    then show ?thesis using assms by (auto simp: ufalloc_def)
  next
    case (Some i)
    then obtain n where n: "n < length [i0 ..< NOFILE]" "[i0 ..< NOFILE] ! n = i" "u_ofile (u k) ! i = None"
      "\<forall>m < n. u_ofile (u k) ! ([i0 ..< NOFILE] ! m) \<noteq> None"
      unfolding find_Some_iff by blast
    then have i: "i = i0 + n" "i < NOFILE" by simp_all
    have low: "u_ofile (u k) ! m \<noteq> None" if "i0 \<le> m" "m < i" for m
      using n(4) [rule_format, of "m - i0"] that i by simp
    have k': "r = Some i" "k' = upd_u (\<lambda>v. v\<lparr>r_val1 := int i, u_pofile := (u_pofile v)[i := 0],
           u_lastfile := (if int i > u_lastfile v then int i else u_lastfile v)\<rparr>) k"
      using assms(2) Some by (simp_all add: ufalloc_def)
    have "u_lastfile (u k') = max (u_lastfile (u k)) (int i)" by (simp add: k' max_def)
    then have "fd_inv oth k'"
      using fd_ok_raise [of oth "u_ofile (u k)" "u_lastfile (u k)" "counts k" i] assms(1) i(2) k' by (simp add: fd_inv_def)
    then show ?thesis using k' i(2) n(3) low by auto
  qed
  then show "fd_inv oth k'" "r = Some j \<Longrightarrow> j < NOFILE \<and> u_ofile (u k') ! j = None \<and> u_ofile (u k') = u_ofile (u k) \<and>
    files k' = files k \<and> lastf k' = lastf k \<and> (\<forall>i. i0 \<le> i \<and> i < j \<longrightarrow> u_ofile (u k) ! i \<noteq> None)" by blast+
qed

lemma close_inv:
  assumes inv: "fd_inv oth k" and x: "fileops_ok x" and e: "u_error (u k) = NOERR" and c: "close x i k = Some k'"
  shows "fd_inv oth k'"
proof -
  have inv_err: "fd_inv oth (set_error EBADF k)" using inv by simp
  show ?thesis
  proof (cases "getf i k")
  case (Pair r k1)
  show ?thesis
  proof (cases r)
    case None
    then show ?thesis using c inv_err getf_none [of i k k1] Pair by (simp add: close_def)
  next
    case (Some fp)
    then have g: "0 \<le> i" "nat i < NOFILE" "u_ofile (u k) ! nat i = Some fp" "k1 = k" using getf_some [of i k fp k1] Pair by auto
    define k3 where "k3 = upd_u (\<lambda>v. v\<lparr>u_lastfile := drop_last (u_ofile v) (nat (u_lastfile v + 1))\<rparr>)
      (upd_u (\<lambda>v. v\<lparr>u_ofile := (u_ofile v)[nat i := None]\<rparr>) k)"
    have c3: "closef x fp False k3 = Some k'" using c Pair Some g(4) by (simp add: close_def Let_def k3_def)
    have fd: "fd_ok oth (u_ofile (u k)) (u_lastfile (u k)) (counts k)" using inv by (simp add: fd_inv_def)
    note o = fd_ok_close [OF fd g(2,3)]
    have k3: "u_error (u k3) = NOERR" "1 \<le> sint (f_count (files k3 ! fp))" "fp < length (files k3)"
      using o(1,2) e by (simp_all add: k3_def)
    note cc = closef_counts [OF x c3 k3]
    have "u_ofile (u k') = (u_ofile (u k))[nat i := None]" "lastf k' = lastf k"
      "u_lastfile (u k') = drop_last ((u_ofile (u k))[nat i := None]) (nat (u_lastfile (u k) + 1))"
      "counts k' = (counts k)[fp := counts k ! fp - 1]" using cc by (simp_all add: k3_def)
    then show ?thesis using fd_ok_last [OF o(3)] inv by (simp add: fd_inv_def)
  qed
  qed
qed

lemma dup2_inv:
  assumes inv: "fd_inv oth k" and x: "fileops_ok x" and e: "u_error (u k) = NOERR" and oth: "\<forall>fp. oth fp \<le> 97"
    and c: "dup2 x i j k = Some k'"
  shows "fd_inv oth k'"
proof -
  have inv_err: "fd_inv oth (set_error EBADF k)" using inv by simp
  show ?thesis
  proof (cases "getf i k")
  case (Pair r k1)
  show ?thesis
  proof (cases r)
    case None
    then show ?thesis using c inv_err getf_none [of i k k1] Pair by (simp add: dup2_def)
  next
    case (Some fp)
    then have g: "nat i < NOFILE" "0 \<le> i" "u_ofile (u k) ! nat i = Some fp" "k1 = k" using getf_some [of i k fp k1] Pair by auto
    define k2 where "k2 = upd_u (\<lambda>v. v\<lparr>r_val1 := j\<rparr>) k"
    have inv2: "fd_inv oth k2" using inv by (simp add: k2_def)
    have fp: "fp < length (files k2)" using inv_fp [OF inv g(1,3)] by (simp add: k2_def)
    consider (bad) "j < 0 \<or> j \<ge> int NOFILE" | (same) "0 \<le> j" "j < int NOFILE" "i = j"
      | (free) "0 \<le> j" "j < int NOFILE" "i \<noteq> j" "u_ofile (u k2) ! nat j = None"
      | (old) old where "0 \<le> j" "j < int NOFILE" "i \<noteq> j" "u_ofile (u k2) ! nat j = Some old" by force
    then show ?thesis
    proof cases
      case bad
      then show ?thesis using c inv Pair Some g(4) by (auto simp: dup2_def)
    next
      case same
      then have "k' = k2" using c Pair Some g(4) by (simp add: dup2_def k2_def)
      then show ?thesis using inv2 by simp
    next
      case free
      then have "k' = dupit (nat j) fp (not_exclose (u_pofile (u k2) ! nat i)) k2"
        using c Pair Some g(4) by (simp add: dup2_def Let_def k2_def)
      then show ?thesis using dupit_inv [OF inv2, of "nat j" fp] free fp oth by simp
    next
      case old
      let ?g = "\<lambda>k3. if u_error (u k3) \<noteq> NOERR then k3 else dupit (nat j) fp (not_exclose (u_pofile (u k3) ! nat i)) k3"
      have "dup2 x i j k = map_option ?g (closef x old False k2)"
        using old Pair Some g(4) by (simp add: dup2_def Let_def k2_def)
      then have m: "map_option ?g (closef x old False k2) = Some k'" using c by (rule subst)
      obtain k3 where k3: "closef x old False k2 = Some k3" "k' = ?g k3"
        using m unfolding map_option_eq_Some by blast
      have fd: "fd_ok oth (u_ofile (u k2)) (u_lastfile (u k2)) (counts k2)" using inv2 by (simp add: fd_inv_def)
      have j: "nat j < NOFILE" using old by simp
      note o = fd_ok_close [OF fd j old(4)]
      have e2: "u_error (u k2) = NOERR" using e by (simp add: k2_def)
      have "1 \<le> sint (f_count (files k2 ! old))" "old < length (files k2)" using o(1,2) by simp_all
      note cc = closef_counts [OF x k3(1) e2 this]
      define fl where "fl = not_exclose (u_pofile (u k3) ! nat i)"
      have k': "k' = dupit (nat j) fp fl k3" using k3(2) cc(3) by (simp add: fl_def)
      define ka where "ka = upd_u (\<lambda>v. v\<lparr>u_ofile := (u_ofile v)[nat j := None]\<rparr>) k3"
      have same: "dupit (nat j) fp fl k3 = dupit (nat j) fp fl ka"
        by (simp add: dupit_def upd_u_def upd_file_def ka_def)
      have "u_ofile (u ka) = (u_ofile (u k2))[nat j := None]" "u_lastfile (u ka) = u_lastfile (u k2)" "lastf ka = lastf k2"
        "counts ka = (counts k2)[old := counts k2 ! old - 1]" using cc by (simp_all add: ka_def)
      then have inva: "fd_inv oth ka" using o(3) inv2 by (simp add: fd_inv_def)
      have "length (counts ka) = length (counts k2)" using \<open>counts ka = _\<close> by simp
      then have "fp < length (files ka)" using fp by simp
      moreover have "u_ofile (u ka) ! nat j = None" using fd_inv_len [OF inv2] j \<open>u_ofile (u ka) = _\<close> by simp
      ultimately show ?thesis unfolding k' same using dupit_inv [OF inva j] oth by blast
    qed
  qed
  qed
qed

lemma falloc_inv:
  assumes inv: "fd_inv oth k" and c: "falloc k = (r, k')"
  shows "fd_inv oth k'" "r = Some fp \<Longrightarrow> oth fp = 0 \<and> Some fp \<notin> set (u_ofile (u k)) \<and> fp < length (files k)"
proof -
  obtain ri k1 where u1: "ufalloc 0 k = (ri, k1)" by (meson surj_pair)
  have i1: "fd_inv oth k1" using ufalloc_inv(1) [OF inv u1] .
  have "fd_inv oth k' \<and> (r = Some fp \<longrightarrow> oth fp = 0 \<and> Some fp \<notin> set (u_ofile (u k)) \<and> fp < length (files k))"
  proof (cases ri)
    case None
    then show ?thesis using c i1 u1 by (simp add: falloc_def)
  next
    case (Some i)
    have ui: "i < NOFILE" "u_ofile (u k1) ! i = None" "u_ofile (u k1) = u_ofile (u k)" "files k1 = files k"
      using ufalloc_inv(2) [OF inv u1 Some] by blast+
    define l where "l = (case lastf k1 of None \<Rightarrow> 0 | Some l \<Rightarrow> l)"
    have l: "l \<le> length (files k1)" using i1 by (auto simp: l_def fd_inv_def split: option.split)
    define k2 where "k2 = k1\<lparr>lastf := Some l\<rparr>"
    have i2: "fd_inv oth k2" using i1 l by (simp add: fd_inv_def k2_def)
    show ?thesis
    proof (cases "free_entry l (files k2)")
      case None
      then have "(r, k') = (None, set_error ENFILE k2)" using c u1 Some by (simp add: falloc_def Let_def l_def k2_def)
      then show ?thesis using i2 by simp
    next
      case F: (Some g)
      then have z: "f_count (files k2 ! g) = 0" "g \<in> set ([l ..< length (files k2)] @ [0 ..< l])"
        unfolding free_entry_def find_Some_iff by (auto simp del: set_append)
      then have g: "g < length (files k2)" using l by (auto simp: k2_def)
      have rk: "r = Some g" "k' = (upd_file g (\<lambda>f. f\<lparr>f_count := 1, f_data := None, f_offset := 0\<rparr>)
               (upd_u (\<lambda>v. v\<lparr>u_ofile := (u_ofile v)[i := Some g]\<rparr>) k2))\<lparr>lastf := Some (Suc g)\<rparr>"
        using c unfolding falloc_def u1 Some Let_def option.case prod.case l_def [symmetric] k2_def [symmetric] F by blast+
      have fd: "fd_ok oth (u_ofile (u k2)) (u_lastfile (u k2)) (counts k2)" using i2 by (simp add: fd_inv_def)
      have "sint (counts k2 ! g) = int (count_list (u_ofile (u k2)) (Some g)) + int (oth g)"
        using fd g by (simp add: fd_ok_def)
      then have zero: "count_list (u_ofile (u k2)) (Some g) = 0" "oth g = 0" using z(1) g by simp_all
      have il: "int i \<le> u_lastfile (u k2)" using u1 Some by (auto simp: ufalloc_def k2_def split: option.splits)
      have "counts k' = (counts k2)[g := counts k2 ! g + 1]" using g z(1) by (simp add: rk map_update)
      moreover have "u_ofile (u k') = (u_ofile (u k2))[i := Some g]" "u_lastfile (u k') = max (u_lastfile (u k2)) (int i)"
        "lastf k' = Some (Suc g)" using il by (simp_all add: rk)
      ultimately have "fd_inv oth k'"
        using fd_ok_dup [OF fd ui(1), of g] ui(2) g zero(2) by (simp add: fd_inv_def k2_def)
      moreover have "Some g \<notin> set (u_ofile (u k))" using zero(1) count_pos [of g "u_ofile (u k)"] ui(3) by (simp add: k2_def)
      ultimately show ?thesis using zero(2) g rk(1) ui(4) by (auto simp: k2_def)
    qed
  qed
  then show "fd_inv oth k'" "r = Some fp \<Longrightarrow> oth fp = 0 \<and> Some fp \<notin> set (u_ofile (u k)) \<and> fp < length (files k)" by blast+
qed

lemma dup_to_inv:
  assumes inv: "fd_inv oth k" and oth: "\<forall>fp. oth fp \<le> 97" and fp: "fp < length (files k)"
    and c: "k' = (case ufalloc i0 k of (None, k2) \<Rightarrow> k2 | (Some j, k2) \<Rightarrow> dupit j fp (fl k2) k2)"
  shows "fd_inv oth k'"
proof -
  obtain r k2 where u2: "ufalloc i0 k = (r, k2)" by (meson surj_pair)
  have i2: "fd_inv oth k2" using ufalloc_inv(1) [OF inv u2] .
  show ?thesis
  proof (cases r)
    case None
    then show ?thesis using c u2 i2 by simp
  next
    case (Some j)
    have "j < NOFILE" "u_ofile (u k2) ! j = None" "files k2 = files k" using ufalloc_inv(2) [OF inv u2 Some] by blast+
    then show ?thesis using c u2 Some dupit_inv [OF i2, of j fp] fp oth by simp
  qed
qed

lemma dup_inv:
  assumes inv: "fd_inv oth k" and x: "fileops_ok x" and e: "u_error (u k) = NOERR" and oth: "\<forall>fp. oth fp \<le> 97"
    and c: "dup x i j k = Some k'"
  shows "fd_inv oth k'"
proof -
  have inv_err: "fd_inv oth (set_error EBADF k)" using inv by simp
  show ?thesis
  proof (cases "and i (not 63) \<noteq> 0")
  case True
  then show ?thesis using c dup2_inv [OF inv x e oth] by (simp add: dup_def)
next
  case False
  obtain r k1 where g: "getf i k = (r, k1)" by (meson surj_pair)
  show ?thesis
  proof (cases r)
    case None
    then show ?thesis using c inv_err getf_none [of i k k1] g False by (simp add: dup_def)
  next
    case (Some fp)
    then have gs: "nat i < NOFILE" "u_ofile (u k) ! nat i = Some fp" "k1 = k" using getf_some [of i k fp k1] g by auto
    have "k' = (case ufalloc 0 k of (None, k2) \<Rightarrow> k2 | (Some j, k2) \<Rightarrow> dupit j fp (not_exclose (u_pofile (u k2) ! nat i)) k2)"
      using c False g Some gs(3) by (auto simp: dup_def split: prod.splits option.splits)
    then show ?thesis by (rule dup_to_inv [OF inv oth inv_fp [OF inv gs(1,2)]])
  qed
  qed
qed

lemma fset_inv: "fileops_ok x \<Longrightarrow> fset x fp b v k = Some (e, k') \<Longrightarrow> fd_inv oth k' = fd_inv oth k"
  by (auto simp: fset_def dest!: ino_ioctl_fdv fdv_inv)

lemma fcntl_inv:
  assumes inv: "fd_inv oth k" and x: "fileops_ok x" and oth: "\<forall>fp. oth fp \<le> 97" and c: "fcntl x i cmd arg k = Some k'"
  shows "fd_inv oth k'"
proof -
  have inv_err: "fd_inv oth (set_error EBADF k)" using inv by simp
  obtain r k1 where g: "getf i k = (r, k1)" by (meson surj_pair)
  show ?thesis
  proof (cases r)
    case None
    then show ?thesis using c inv_err getf_none [of i k k1] g by (simp add: fcntl_def)
  next
    case (Some fp)
    then have gs: "nat i < NOFILE" "u_ofile (u k) ! nat i = Some fp" "k1 = k" using getf_some [of i k fp k1] g by auto
    have sp: "fdv (x_set_so_pgrp x d w k2) = fdv k2" for d w and k2 :: "'a fdk_scheme" using x unfolding fileops_ok_def by blast
    show ?thesis
    proof (cases cmd)
      case F_DUPFD
      show ?thesis
      proof (cases "arg < 0 \<or> arg \<ge> int NOFILE")
        case True
        then show ?thesis using c inv g Some gs(3) F_DUPFD by (auto simp: fcntl_def)
      next
        case False
        then have "k' = (case ufalloc (nat arg) k of (None, k2) \<Rightarrow> k2
            | (Some j, k2) \<Rightarrow> dupit j fp (not_exclose (u_pofile (u k2) ! nat i)) k2)"
          using c g Some gs(3) F_DUPFD by (auto simp: fcntl_def split: prod.splits option.splits)
        then show ?thesis by (rule dup_to_inv [OF inv oth inv_fp [OF inv gs(1,2)]])
      qed
    next
      case F_SETFL
      then show ?thesis using c inv g Some gs(3)
        by (auto simp: fcntl_def Let_def bind_eq_Some_conv fset_inv [OF x] split: if_splits)
    next
      case F_GETOWN
      then show ?thesis using c inv g Some gs(3)
        by (auto simp: fcntl_def fgetown_def dest!: ino_ioctl_fdv [OF x] fdv_inv split: if_splits)
    next
      case F_SETOWN
      then show ?thesis using c inv g Some gs(3)
        by (auto simp: fcntl_def fsetown_def bind_eq_Some_conv fdv_inv [OF sp] dest!: ino_ioctl_fdv [OF x] fdv_inv
          split: if_splits option.splits)
    qed (use c inv g Some gs(3) in \<open>auto simp: fcntl_def Let_def\<close>)
  qed
qed

section \<open>Properties\<close>

text \<open>A system call on descriptors, begun with no error.\<close>

inductive fd_call :: "('a fdk_scheme) fileops \<Rightarrow> 'a fdk_scheme \<Rightarrow> 'a fdk_scheme \<Rightarrow> bool" for x where
  dup: "dup x i j (set_error NOERR k) = Some k' \<Longrightarrow> fd_call x k k'"
| dup2: "dup2 x i j (set_error NOERR k) = Some k' \<Longrightarrow> fd_call x k k'"
| fcntl: "fcntl x i cmd arg (set_error NOERR k) = Some k' \<Longrightarrow> fd_call x k k'"
| close: "close x i (set_error NOERR k) = Some k' \<Longrightarrow> fd_call x k k'"
| falloc: "falloc (set_error NOERR k) = (r, k') \<Longrightarrow> fd_call x k k'"

lemma fd_call_inv:
  assumes "fd_call x k k'" "fd_inv oth k" "fileops_ok x" "\<forall>fp. oth fp \<le> 97"
  shows "fd_inv oth k'"
  using assms(1)
proof cases
  case (dup i j)
  show ?thesis by (rule dup_inv [OF _ assms(3) _ assms(4) dup]) (use assms(2) in simp_all)
next
  case (dup2 i j)
  show ?thesis by (rule dup2_inv [OF _ assms(3) _ assms(4) dup2]) (use assms(2) in simp_all)
next
  case (fcntl i cmd arg)
  show ?thesis by (rule fcntl_inv [OF _ assms(3,4) fcntl]) (use assms(2) in simp_all)
next
  case (close i)
  show ?thesis by (rule close_inv [OF _ assms(3) _ close]) (use assms(2) in simp_all)
next
  case (falloc r)
  show ?thesis by (rule falloc_inv(1) [OF _ falloc]) (use assms(2) in simp_all)
qed


text \<open>Three free file entries behind an open one; the routines below do nothing.\<close>

definition quiet_ops :: "('a fdk_scheme) fileops" where
  "quiet_ops = \<lparr>x_ilock = (\<lambda>_ k. k), x_iput = (\<lambda>_ k. k), x_mounted = (\<lambda>_ _. False), x_bflush = (\<lambda>_ k. k),
     x_binval = (\<lambda>_ k. k), x_bdclose = (\<lambda>_ _ k. (True, k)), x_cdclose = (\<lambda>_ _ k. (True, k)),
     x_cdioctl = (\<lambda>_ _ d _ k. (Some (NOERR, d), k)), x_soclose = (\<lambda>_ _ k. k), x_so_pgrp = (\<lambda>_ _. 0),
     x_set_so_pgrp = (\<lambda>_ _ k. k), x_soo_stat = (\<lambda>_ _. (NOERR, [])), x_sooioctl = (\<lambda>_ _ d k. ((NOERR, d), k))\<rparr>"

definition demo_fds :: fdk where
  "demo_fds = upd_u (\<lambda>v. v\<lparr>u_lastfile := 0, u_ofile := (replicate 30 None)[0 := Some 0]\<rparr>)
     (demo_locked\<lparr>files := demo_file # replicate 3 (demo_file\<lparr>f_count := 0\<rparr>)\<rparr>)"

lemma demo_fds_inv: "fd_inv (\<lambda>_. 0) demo_fds"
proof -
  have a: "u_ofile (u demo_fds) = Some 0 # replicate 29 None"
    by (simp add: demo_fds_def numeral_eq_Suc)
  have c: "counts demo_fds = [1, 0, 0, 0]" by (simp add: demo_fds_def demo_file_def numeral_eq_Suc)
  have "lastf demo_locked = None" "u_lastfile (u demo_fds) = 0"
    by (simp_all add: demo_fds_def demo_locked_def kern.defs clk.defs fdk.defs)
  moreover have "sint ([1, 0, 0, 0 :: u_char] ! fp) = int (count_list (Some 0 # replicate 29 None) (Some fp))" if "fp < 4" for fp
    using that by (auto simp: less_Suc_eq numeral_eq_Suc)
  moreover have "\<forall>i < 30. (Some (0 :: nat) # replicate 29 None) ! i \<noteq> None \<longrightarrow> int i \<le> 0"
    by (auto simp: nth_Cons')
  ultimately show ?thesis unfolding fd_inv_def fd_ok_def a c by (simp add: demo_fds_def)
qed

lemma quiet_ops_ok: "fileops_ok quiet_ops"
  by (simp add: fileops_ok_def quiet_ops_def)


text \<open>C21: When the close of the file that dup2 replaces reports an error, dup2 gives up half-way: the
  descriptor still refers to the entry, which closef has already freed, so that falloc may give the
  entry to another open file, which the descriptor then shares.\<close>

theorem dup2_dangling:
  assumes "0 \<le> i" "i < int NOFILE" "u_ofile (u k) ! nat i = Some fp" "0 \<le> j" "j < int NOFILE" "i \<noteq> j"
    and "u_ofile (u k) ! nat j = Some old" "old < length (files k)" "sint (f_count (files k ! old)) \<le> 1"
    and "f_type (files k ! old) = DTYPE_INODE"
    and "ino_close x old (upd_u (\<lambda>v. v\<lparr>r_val1 := j\<rparr>) k) = Some k1" "u_error (u k1) \<noteq> NOERR"
    and "u_ofile (u k1) = u_ofile (u k)" "length (files k1) = length (files k)"
  shows "\<exists>k'. dup2 x i j k = Some k' \<and> u_error (u k') = u_error (u k1) \<and> u_ofile (u k') ! nat j = Some old \<and>
    f_count (files k' ! old) = 0"
proof -
  let ?k = "upd_u (\<lambda>v. v\<lparr>r_val1 := j\<rparr>) k"
  let ?k' = "upd_file old (\<lambda>f. f\<lparr>f_count := 0\<rparr>) k1"
  have "closef x old False ?k = Some ?k'" using assms(9-11) by (simp add: closef_def)
  moreover have "getf i k = (Some fp, k)" using assms(1-3) by (simp add: getf_def)
  ultimately have "dup2 x i j k = Some ?k'" using assms(4-7,12) by (simp add: dup2_def)
  then show ?thesis using assms(7,8,13,14) by (intro exI [of _ ?k']) simp
qed

text \<open>A terminal whose close routine a signal interrupts: the error is EINTR.\<close>

definition tty_ops :: "('a fdk_scheme) fileops" where
  "tty_ops = quiet_ops\<lparr>x_cdclose := (\<lambda>_ _ k. (False, k))\<rparr>"

definition demo_tty :: fdk where
  "demo_tty = upd_u (\<lambda>v. v\<lparr>u_lastfile := 1, u_ofile := (replicate 30 None)[0 := Some 0, 1 := Some 1]\<rparr>)
     (demo_locked\<lparr>files := [demo_file, demo_file\<lparr>f_data := Some 1\<rparr>],
        inodes := (\<lambda>_. demo_inode\<lparr>i_flag := 0, i_mode := IFCHR\<rparr>)(0 := demo_inode)\<rparr>)"

theorem dup2_dangling_witness:
  "\<exists>k'. dup2 tty_ops 0 1 demo_tty = Some k' \<and> u_error (u k') = EINTR \<and> u_ofile (u k') ! 1 = Some 1 \<and>
     f_count (files k' ! 1) = 0 \<and> fst (falloc k') = Some 1"
proof -
  let ?k = "upd_u (\<lambda>v. v\<lparr>r_val1 := 1\<rparr>) demo_tty"
  define k1 where "k1 = set_error EINTR (upd_file 1 (\<lambda>f. f\<lparr>f_data := None\<rparr>) ?k)"
  have f: "files demo_tty = [demo_file, demo_file\<lparr>f_data := Some 1\<rparr>]" "inodes demo_tty 1 = demo_inode\<lparr>i_flag := 0, i_mode := IFCHR\<rparr>"
    "inodes demo_tty 0 = demo_inode" "u_ofile (u demo_tty) = (replicate 30 None)[0 := Some 0, 1 := Some 1]"
    "lastf demo_tty = None"
    by (simp_all add: demo_tty_def demo_locked_def upd_u_def kern.defs clk.defs fdk.defs)
  have e: "u_error (u demo_tty) = NOERR" by (simp add: demo_tty_def demo_awake_def demo_kern_def demo_user_def)
  have b: "\<not> flag (0x3 :: u_int) 0x180" "\<not> flag (0x3 :: u_int) (or FSHLOCK FEXLOCK)" "and IFCHR IFMT = IFCHR" "and (0x81a4 :: u_int) IFMT \<noteq> IFCHR" by (simp_all add: flag_def)
  have t: "x_ilock tty_ops ip k = k" "x_iput tty_ops ip k = k" "x_cdclose tty_ops dev fl k = (False, k)" for ip dev fl and k :: fdk
    by (simp_all add: tty_ops_def quiet_ops_def)
  have "ino_close tty_ops 1 ?k = Some k1"
    unfolding ino_close_def using b e by (simp add: f f(2) [unfolded One_nat_def] t Let_def demo_file_def demo_inode_def dev_active_def k1_def)
  moreover have "u_error (u k1) \<noteq> NOERR" "u_ofile (u k1) = u_ofile (u demo_tty)" "length (files k1) = length (files demo_tty)"
    by (simp_all add: k1_def)
  moreover have "u_ofile (u demo_tty) ! nat 0 = Some 0" "u_ofile (u demo_tty) ! nat 1 = Some 1" "1 < length (files demo_tty)"
    "sint (f_count (files demo_tty ! 1)) \<le> 1" "f_type (files demo_tty ! 1) = DTYPE_INODE" by (simp_all add: f demo_file_def)
  ultimately have "\<exists>k'. dup2 tty_ops 0 1 demo_tty = Some k' \<and> u_error (u k') = u_error (u k1) \<and> u_ofile (u k') ! nat 1 = Some 1 \<and>
    f_count (files k' ! 1) = 0"
    by (intro dup2_dangling [where x = tty_ops and fp = 0]) simp_all
  then obtain k' where k': "dup2 tty_ops 0 1 demo_tty = Some k'" "u_error (u k') = EINTR" "u_ofile (u k') ! 1 = Some 1"
    "f_count (files k' ! 1) = 0" by (auto simp: k1_def)
  have "getf 0 demo_tty = (Some 0, demo_tty)" by (simp add: getf_def f)
  then have "k' = upd_file 1 (\<lambda>f. f\<lparr>f_count := 0\<rparr>) k1"
    using k'(1) \<open>ino_close tty_ops 1 ?k = Some k1\<close> by (simp add: dup2_def closef_def f demo_file_def k1_def)
  then have "files k' = [demo_file, demo_file\<lparr>f_data := None, f_count := 0\<rparr>]" "lastf k' = None"
    "u_ofile (u k') = (replicate 30 None)[0 := Some 0, 1 := Some 1]" by (simp_all add: k1_def f)
  note f' = this
  have "[0 ..< 30] = 0 # Suc 0 # Suc (Suc 0) # [Suc (Suc (Suc 0)) ..< 30]"
    by (simp add: upt_rec [of 0 30] upt_rec [of "Suc 0" 30] upt_rec [of "Suc (Suc 0)" 30])
  then have "List.find (\<lambda>i. u_ofile (u k') ! i = None) [0 ..< NOFILE] = Some (Suc (Suc 0))" by (simp add: f')
  moreover have "free_entry 0 (files k') = Some 1"
    by (simp add: free_entry_def f' demo_file_def upt_rec [of 0 "Suc (Suc 0)"] upt_rec [of "Suc 0" "Suc (Suc 0)"])
  ultimately have "fst (falloc k') = Some 1" by (simp add: falloc_def ufalloc_def f'(2) Let_def)
  then show ?thesis using k' by blast
qed

end
