(* ===== verification/Ring.thy ===== *)
theory Ring imports Prelude begin

text \<open>
  Circular doubly linked lists with a head, as the buffer cache threads its hash chains and free lists:
  \<open>ring n p h xs\<close> says that following the forward pointers \<open>n\<close> from the head \<open>h\<close> visits \<open>xs\<close> and returns
  to \<open>h\<close>, and that the backward pointers \<open>p\<close> are the inverse. The C macros for removal and insertion are
  compositions of pointer assignments.
\<close>

fun rpath :: "('a \<Rightarrow> 'a) \<Rightarrow> ('a \<Rightarrow> 'a) \<Rightarrow> 'a \<Rightarrow> 'a list \<Rightarrow> 'a \<Rightarrow> bool" where
  "rpath n p a [] b \<longleftrightarrow> n a = b \<and> p b = a"
| "rpath n p a (x # xs) b \<longleftrightarrow> n a = x \<and> p x = a \<and> rpath n p x xs b"

definition ring :: "('a \<Rightarrow> 'a) \<Rightarrow> ('a \<Rightarrow> 'a) \<Rightarrow> 'a \<Rightarrow> 'a list \<Rightarrow> bool" where
  "ring n p h xs \<longleftrightarrow> rpath n p h xs h \<and> distinct (h # xs)"

lemma rpath_append: "rpath n p a (xs @ y # ys) b \<longleftrightarrow> rpath n p a xs y \<and> rpath n p y ys b"
  by (induction xs arbitrary: a) auto

lemma rpath_cong:
  "\<forall>z \<in> insert a (set xs). n' z = n z \<Longrightarrow> \<forall>z \<in> insert b (set xs). p' z = p z \<Longrightarrow> rpath n' p' a xs b = rpath n p a xs b"
  by (induction xs arbitrary: a) auto

lemma ring_cong: "\<forall>z \<in> set (h # xs). n' z = n z \<and> p' z = p z \<Longrightarrow> ring n' p' h xs = ring n p h xs"
  unfolding ring_def using rpath_cong [of h xs n' n h p' p] by auto

lemma ring_nth: "ring n p h xs \<Longrightarrow> n h = (if xs = [] then h else xs ! 0)"
  by (cases xs) (auto simp: ring_def)

lemma rpath_last: "rpath n p a xs b \<Longrightarrow> p b = (if xs = [] then a else last xs)"
  by (induction xs arbitrary: a) auto

lemma ring_split:
  assumes "ring n p h (xs @ x # ys)"
  shows "p x = (if xs = [] then h else last xs)" "n x = (if ys = [] then h else ys ! 0)"
proof -
  have c: "rpath n p h xs x" "rpath n p x ys h" using assms by (simp_all add: ring_def rpath_append)
  from rpath_last [OF c(1)] show "p x = (if xs = [] then h else last xs)" .
  from c(2) show "n x = (if ys = [] then h else ys ! 0)" by (cases ys) auto
qed

text \<open>The two assignments of the removal: \<open>x->p->n = x->n; x->n->p = x->p\<close>.\<close>

lemma ring_remove:
  assumes "ring n p h (xs @ x # ys)"
  shows "ring (n(p x := n x)) (p(n x := p x)) h (xs @ ys)"
proof -
  have d: "distinct (h # xs @ x # ys)" and c: "rpath n p h xs x" "rpath n p x ys h"
    using assms by (simp_all add: ring_def rpath_append)
  note s = ring_split [OF assms]
  have "rpath (n(p x := n x)) (p(n x := p x)) h (xs @ ys) h"
  proof (cases xs rule: rev_exhaust)
    case Nil
    show ?thesis
    proof (cases ys)
      case Nil': Nil
      then show ?thesis using Nil s by simp
    next
      case (Cons y zs)
      have "rpath (n(p x := n x)) (p(n x := p x)) y zs h = rpath n p y zs h"
        by (rule rpath_cong) (use d s Nil Cons in auto)
      then show ?thesis using c(2) s Nil Cons by simp
    qed
  next
    case (snoc as a)
    have 1: "rpath (n(p x := n x)) (p(n x := p x)) h as a = rpath n p h as a"
      by (rule rpath_cong) (use d s snoc in \<open>auto split: if_splits dest: nth_mem\<close>)
    have 2: "rpath n p h as a" using c(1) snoc by (simp add: rpath_append)
    show ?thesis
    proof (cases ys)
      case Nil
      then show ?thesis using snoc s 1 2 by (simp add: rpath_append)
    next
      case (Cons y zs)
      have "rpath (n(p x := n x)) (p(n x := p x)) y zs h = rpath n p y zs h"
        by (rule rpath_cong) (use d s snoc Cons in auto)
      then show ?thesis using c(2) s snoc Cons 1 2 by (simp add: rpath_append)
    qed
  qed
  then show ?thesis using d by (simp add: ring_def)
qed

text \<open>Insertion behind the element \<open>a\<close> of the ring (or its head), which covers both ends.\<close>

lemma ring_insert:
  assumes "ring n p h (xs @ ys)" "x \<notin> set (h # xs @ ys)"
  defines "a \<equiv> (if xs = [] then h else last xs)" and "b \<equiv> (if ys = [] then h else ys ! 0)"
  shows "ring (n(x := b, a := x)) (p(x := a, b := x)) h (xs @ x # ys)"
proof -
  have d: "distinct (h # xs @ ys)" and c: "rpath n p h (xs @ ys) h" using assms(1) by (simp_all add: ring_def)
  have ax: "a \<noteq> x" "b \<noteq> x" using assms(2) by (auto simp: a_def b_def)
  have "rpath (n(x := b, a := x)) (p(x := a, b := x)) h xs x"
  proof (cases xs rule: rev_exhaust)
    case Nil
    then show ?thesis using ax by (simp add: a_def)
  next
    case (snoc as z)
    have "rpath n p h as z" using c snoc by (cases ys) (simp_all add: rpath_append)
    moreover have "rpath (n(x := b, a := x)) (p(x := a, b := x)) h as z = rpath n p h as z"
      by (rule rpath_cong) (use d assms(2) snoc in \<open>auto simp: a_def b_def split: if_splits dest: nth_mem\<close>)
    ultimately show ?thesis using snoc ax by (simp add: a_def rpath_append)
  qed
  moreover have "rpath (n(x := b, a := x)) (p(x := a, b := x)) x ys h"
  proof (cases ys)
    case Nil
    then show ?thesis using ax by (simp add: b_def)
  next
    case (Cons y zs)
    have "rpath n p y zs h" using c Cons by (simp add: rpath_append)
    moreover have "rpath (n(x := b, a := x)) (p(x := a, b := x)) y zs h = rpath n p y zs h"
      by (rule rpath_cong) (use d assms(2) Cons in \<open>auto simp: a_def b_def split: if_splits dest: last_in_set\<close>)
    ultimately show ?thesis using Cons ax by (simp add: b_def)
  qed
  ultimately show ?thesis using d assms(2) by (auto simp: ring_def rpath_append)
qed

text \<open>A search along the ring: \<open>for (b = h->n; b != h; b = b->n) if (P b) return b\<close>.\<close>

partial_function (option) ring_find :: "('a \<Rightarrow> bool) \<Rightarrow> ('a \<Rightarrow> 'a) \<Rightarrow> 'a \<Rightarrow> 'a \<Rightarrow> 'a option option" where
  "ring_find P n h b = (if b = h then Some None else if P b then Some (Some b) else ring_find P n h (n b))"

lemma ring_find_rpath: "rpath n p a xs h \<Longrightarrow> h \<notin> set xs \<Longrightarrow> ring_find P n h (n a) = Some (List.find P xs)"
  by (induction xs arbitrary: a) (subst ring_find.simps, auto)+

lemma ring_find_ok: "ring n p h xs \<Longrightarrow> ring_find P n h (n h) = Some (List.find P xs)"
  using ring_find_rpath unfolding ring_def by fastforce

section \<open>Families of rings\<close>

text \<open>
  Several rings threaded through one pair of link fields, one for each head of a set \<open>D\<close>: no element is
  on two rings and no head is an element.
\<close>

definition rings :: "('a \<Rightarrow> 'a) \<Rightarrow> ('a \<Rightarrow> 'a) \<Rightarrow> 'a set \<Rightarrow> ('a \<Rightarrow> 'a list) \<Rightarrow> bool" where
  "rings n p D X \<longleftrightarrow> (\<forall>d \<in> D. ring n p d (X d)) \<and> (\<forall>d \<in> D. set (X d) \<inter> D = {}) \<and>
     (\<forall>d \<in> D. \<forall>e \<in> D. d \<noteq> e \<longrightarrow> set (X d) \<inter> set (X e) = {})"

definition elems :: "'a set \<Rightarrow> ('a \<Rightarrow> 'a list) \<Rightarrow> 'a set" where
  "elems D X = (\<Union>d \<in> D. set (X d))"

lemma elems_upd:
  assumes "e \<in> D"
  shows "elems D (X(e := ys)) = set ys \<union> elems (D - {e}) X" "elems D X = set (X e) \<union> elems (D - {e}) X"
proof -
  have D: "D = insert e (D - {e})" using assms by blast
  have "elems (insert e (D - {e})) (X(e := ys)) = set ys \<union> (\<Union>d \<in> D - {e}. set ((X(e := ys)) d))"
    by (simp only: elems_def UN_insert fun_upd_same)
  also have "(\<Union>d \<in> D - {e}. set ((X(e := ys)) d)) = elems (D - {e}) X" unfolding elems_def by (intro SUP_cong) auto
  finally have "elems (insert e (D - {e})) (X(e := ys)) = set ys \<union> elems (D - {e}) X" .
  then show "elems D (X(e := ys)) = set ys \<union> elems (D - {e}) X" using D by simp
  have "elems (insert e (D - {e})) X = set (X e) \<union> elems (D - {e}) X" by (simp only: elems_def UN_insert)
  then show "elems D X = set (X e) \<union> elems (D - {e}) X" using D by simp
qed

lemma ringsD:
  assumes "rings n p D X"
  shows "d \<in> D \<Longrightarrow> ring n p d (X d)" "d \<in> D \<Longrightarrow> e \<in> D \<Longrightarrow> e \<notin> set (X d)"
    "d \<in> D \<Longrightarrow> e \<in> D \<Longrightarrow> x \<in> set (X d) \<Longrightarrow> x \<in> set (X e) \<Longrightarrow> d = e"
  using assms unfolding rings_def by blast+

lemma ring_near:
  assumes "ring n p h xs" "x \<in> set (h # xs)"
  shows "n x \<in> set (h # xs)" "p x \<in> set (h # xs)"
proof -
  have "n x \<in> set (h # xs) \<and> p x \<in> set (h # xs)"
  proof (cases "x = h")
    case True
    have "rpath n p h xs h" using assms(1) by (simp add: ring_def)
    from rpath_last [OF this] ring_nth [OF assms(1)] show ?thesis using True by (cases xs) auto
  next
    case False
    then obtain as bs where xs: "xs = as @ x # bs" using assms(2) by (auto dest: split_list)
    show ?thesis using ring_split [OF assms(1) [unfolded xs]] unfolding xs by (cases bs; cases as rule: rev_exhaust) auto
  qed
  then show "n x \<in> set (h # xs)" "p x \<in> set (h # xs)" by simp_all
qed

lemma ring_apart:
  assumes "ring n p h xs" "x \<in> set xs"
  shows "n x \<noteq> x" "p x \<noteq> x"
proof -
  obtain as bs where xs: "xs = as @ x # bs" using assms(2) by (auto dest: split_list)
  have d: "h \<noteq> x" "x \<notin> set as" "x \<notin> set bs" using assms(1) unfolding ring_def xs by simp_all
  note s = ring_split [OF assms(1) [unfolded xs]]
  show "n x \<noteq> x" using s(2) d by (cases bs) auto
  show "p x \<noteq> x" using s(1) d by (cases as rule: rev_exhaust) auto
qed

lemma rings_cong_other:
  assumes r: "rings n p D X" and de: "d \<in> D" "e \<in> D" "d \<noteq> e"
    and same: "\<forall>z. z \<notin> insert x (set (e # X e)) \<longrightarrow> n' z = n z \<and> p' z = p z" and x: "x \<notin> set (d # X d)"
  shows "ring n' p' d (X d)"
proof -
  have "z \<notin> insert x (set (e # X e))" if "z \<in> set (d # X d)" for z
    using that ringsD(2) [OF r de(1) de(2)] ringsD(2) [OF r de(2) de(1)] ringsD(3) [OF r de(1) de(2), of z] de(3) x by auto
  then have "ring n' p' d (X d) = ring n p d (X d)" using ring_cong [of d "X d" n' n p' p] same by blast
  then show ?thesis using ringsD(1) [OF r de(1)] by simp
qed

lemma rings_remove:
  assumes r: "rings n p D X" and e: "e \<in> D" "x \<in> set (X e)"
  shows "rings (n(p x := n x)) (p(n x := p x)) D (X(e := remove1 x (X e)))"
    "elems D (X(e := remove1 x (X e))) = elems D X - {x}" "x \<notin> D"
proof -
  obtain as bs where xs: "X e = as @ x # bs" "x \<notin> set as" using e(2) by (auto dest: split_list_first)
  have re: "ring n p e (as @ x # bs)" using ringsD(1) [OF r e(1)] xs by simp
  have rm: "remove1 x (X e) = as @ bs" using xs by (simp add: remove1_append)
  have d: "x \<notin> set (as @ bs)" using re by (simp add: ring_def)
  have sub: "set (remove1 x (X e)) = set (X e) - {x}" using d xs rm by auto
  have near: "n x \<in> set (e # X e)" "p x \<in> set (e # X e)" using ring_near [OF ringsD(1) [OF r e(1)], of x] e(2) by simp_all
  show xD: "x \<notin> D" using ringsD(2) [OF r e(1)] e(2) by blast
  have out: "x \<notin> set (X c)" if "c \<in> D" "c \<noteq> e" for c using ringsD(3) [OF r that(1) e(1)] that(2) e(2) by blast
  show "elems D (X(e := remove1 x (X e))) = elems D X - {x}"
    unfolding elems_upd(1) [OF e(1)] elems_upd(2) [OF e(1), of X] sub using out by (auto simp: elems_def)
  show "rings (n(p x := n x)) (p(n x := p x)) D (X(e := remove1 x (X e)))"
    unfolding rings_def
  proof (intro conjI ballI impI)
    fix c assume c: "c \<in> D"
    show "ring (n(p x := n x)) (p(n x := p x)) c ((X(e := remove1 x (X e))) c)"
    proof (cases "c = e")
      case True
      then show ?thesis using ring_remove [OF re] rm by simp
    next
      case False
      have "ring (n(p x := n x)) (p(n x := p x)) c (X c)"
        by (rule rings_cong_other [OF r c e(1) False, of x]) (use near out [OF c False] c xD in auto)
      then show ?thesis using False by simp
    qed
    show "set ((X(e := remove1 x (X e))) c) \<inter> D = {}" using r c e(1) sub unfolding rings_def by auto
  next
    fix c c' assume "c \<in> D" "c' \<in> D" "c \<noteq> c'"
    then have "set (X c) \<inter> set (X c') = {}" using r unfolding rings_def by blast
    moreover have "set ((X(e := remove1 x (X e))) z) \<subseteq> set (X z)" for z using sub by simp
    ultimately show "set ((X(e := remove1 x (X e))) c) \<inter> set ((X(e := remove1 x (X e))) c') = {}" by blast
  qed
qed

text \<open>Insertion somewhere into the ring of \<open>e\<close>; the heads' neighbours give the two ends.\<close>

lemma rings_insert:
  assumes r: "rings n p D X" and e: "e \<in> D" and xs: "X e = as @ bs" and x: "x \<notin> D" "x \<notin> elems D X"
  defines "a \<equiv> (if as = [] then e else last as)" and "b \<equiv> (if bs = [] then e else bs ! 0)"
  shows "rings (n(x := b, a := x)) (p(x := a, b := x)) D (X(e := as @ x # bs))"
    "elems D (X(e := as @ x # bs)) = insert x (elems D X)"
proof -
  have xo: "x \<notin> set (X c)" if "c \<in> D" for c using x(2) that by (auto simp: elems_def)
  have ab: "a \<in> set (e # X e)" "b \<in> set (e # X e)" unfolding a_def b_def xs by auto
  have re: "ring n p e (as @ bs)" using ringsD(1) [OF r e] xs by simp
  have nx: "x \<notin> set (e # as @ bs)" using xo [OF e] x(1) e xs by auto
  show "elems D (X(e := as @ x # bs)) = insert x (elems D X)"
    unfolding elems_upd(1) [OF e] elems_upd(2) [OF e, of X] xs by auto
  show "rings (n(x := b, a := x)) (p(x := a, b := x)) D (X(e := as @ x # bs))"
    unfolding rings_def
  proof (intro conjI ballI impI)
    fix c assume c: "c \<in> D"
    show "ring (n(x := b, a := x)) (p(x := a, b := x)) c ((X(e := as @ x # bs)) c)"
    proof (cases "c = e")
      case True
      then show ?thesis using ring_insert [OF re nx] unfolding a_def b_def by simp
    next
      case False
      have "ring (n(x := b, a := x)) (p(x := a, b := x)) c (X c)"
        by (rule rings_cong_other [OF r c e False, of x]) (use ab xo [OF c] c x(1) in auto)
      then show ?thesis using False by simp
    qed
    show "set ((X(e := as @ x # bs)) c) \<inter> D = {}" using r c x(1) xs unfolding rings_def by (fastforce split: if_splits)
  next
    fix c c' assume c: "c \<in> D" "c' \<in> D" "c \<noteq> c'"
    show "set ((X(e := as @ x # bs)) c) \<inter> set ((X(e := as @ x # bs)) c') = {}"
      using r c xs xo unfolding rings_def by (fastforce split: if_splits)
  qed
qed

lemma rings_insert_front:
  assumes r: "rings n p D X" and e: "e \<in> D" and x: "x \<notin> D" "x \<notin> elems D X"
  shows "rings (n(x := n e, e := x)) (p(x := e, n e := x)) D (X(e := x # X e))"
    "elems D (X(e := x # X e)) = insert x (elems D X)" "n e \<noteq> x"
proof -
  have n: "n e = (if X e = [] then e else X e ! 0)" by (rule ring_nth [OF ringsD(1) [OF r e]])
  show "rings (n(x := n e, e := x)) (p(x := e, n e := x)) D (X(e := x # X e))"
    using rings_insert(1) [OF r e, of "[]" "X e", OF _ x] n by simp
  show "elems D (X(e := x # X e)) = insert x (elems D X)" using rings_insert(2) [OF r e, of "[]" "X e", OF _ x] by simp
  show "n e \<noteq> x" using ring_near(1) [OF ringsD(1) [OF r e], of e] e x by (auto simp: elems_def)
qed

lemma rings_insert_back:
  assumes r: "rings n p D X" and e: "e \<in> D" and x: "x \<notin> D" "x \<notin> elems D X"
  shows "rings (n(x := e, p e := x)) (p(x := p e, e := x)) D (X(e := X e @ [x]))"
    "elems D (X(e := X e @ [x])) = insert x (elems D X)" "p e \<noteq> x"
proof -
  have "rpath n p e (X e) e" using ringsD(1) [OF r e] by (simp add: ring_def)
  from rpath_last [OF this] have p: "p e = (if X e = [] then e else last (X e))" .
  show "rings (n(x := e, p e := x)) (p(x := p e, e := x)) D (X(e := X e @ [x]))"
    using rings_insert(1) [OF r e, of "X e" "[]", OF _ x] p by simp
  show "elems D (X(e := X e @ [x])) = insert x (elems D X)" using rings_insert(2) [OF r e, of "X e" "[]", OF _ x] by simp
  show "p e \<noteq> x" using ring_near(2) [OF ringsD(1) [OF r e], of e] e x by (auto simp: elems_def)
qed

end
