(* ===== verification/Bio.thy ===== *)
theory Bio imports Callout Ring begin

text \<open>
  The buffer cache: \<open>src/sys/sys/ufs_bio.c\<close> and buf.h. Buffers and list heads are one kind of pointer:
  \<open>Buf i\<close>, the head \<open>Hash h\<close> of a hash chain, the head \<open>Free q\<close> of a free list. Every one has the two pairs
  of link fields. The memory a buffer refers to is its own 1024 bytes, \<open>Own i\<close>, or, after a read from the
  RAM disk (ram.c), two blocks of 512 bytes of that, \<open>Ram b\<close>. The driver's strategy routine is
  an argument \<open>strat\<close>; it may complete the transfer at once, calling \<open>biodone\<close>, or leave that to an
  interrupt.

  A routine that has to sleep stops with \<open>Sleeps\<close>, the channel and the priority.
\<close>

datatype baddr = Own nat | Ram int

datatype bref = Buf nat | Hash nat | Free nat

record buf =
  b_flags :: u_int
  b_forw :: bref
  b_back :: bref
  av_forw :: bref
  av_back :: bref
  b_bcount :: u_int
  b_error :: errno
  b_dev :: u_int
  b_blkno :: int
  b_resid :: u_int
  b_addr :: baddr

record bio = clk +
  bufs :: "bref \<Rightarrow> buf"
  a_buf :: "bref \<Rightarrow> u_int"
  bmem :: "nat \<Rightarrow> u_int list"
  ram :: "int \<Rightarrow> u_int list"
  ram_base :: u_int
  ram_size :: u_int

abbreviation (input) "B_READ \<equiv> 0x1 :: u_int"
abbreviation (input) "B_DONE \<equiv> 0x2 :: u_int"
abbreviation (input) "B_ERROR \<equiv> 0x4 :: u_int"
abbreviation (input) "B_BUSY \<equiv> 0x8 :: u_int"
abbreviation (input) "B_WANTED \<equiv> 0x40 :: u_int"
abbreviation (input) "B_AGE \<equiv> 0x80 :: u_int"
abbreviation (input) "B_ASYNC \<equiv> 0x100 :: u_int"
abbreviation (input) "B_DELWRI \<equiv> 0x200 :: u_int"
abbreviation (input) "B_INVAL \<equiv> 0x800 :: u_int"
abbreviation (input) "B_RAMREMAP \<equiv> 0x8000 :: u_int"
abbreviation (input) "NODEV \<equiv> 0xffff :: u_int"
abbreviation (input) "PRIBIO \<equiv> 20 :: int"
abbreviation (input) "DEV_BSIZE \<equiv> 1024 :: u_int"
abbreviation (input) "BUFHSZ \<equiv> 64 :: nat"

datatype 'r bio_out = Got 'r | Sleeps u_int int

definition upd_buf :: "bref \<Rightarrow> (buf \<Rightarrow> buf) \<Rightarrow> 'a bio_scheme \<Rightarrow> 'a bio_scheme" where
  "upd_buf r f k = k\<lparr>bufs := (bufs k)(r := f (bufs k r))\<rparr>"

definition set_b :: "u_int \<Rightarrow> bref \<Rightarrow> 'a bio_scheme \<Rightarrow> 'a bio_scheme" where
  "set_b b r = upd_buf r (\<lambda>x. x\<lparr>b_flags := set_flag b (b_flags x)\<rparr>)"

definition clr_b :: "u_int \<Rightarrow> bref \<Rightarrow> 'a bio_scheme \<Rightarrow> 'a bio_scheme" where
  "clr_b b r = upd_buf r (\<lambda>x. x\<lparr>b_flags := clr_flag b (b_flags x)\<rparr>)"

abbreviation has_b :: "'a bio_scheme \<Rightarrow> bref \<Rightarrow> u_int \<Rightarrow> bool" where
  "has_b k r b \<equiv> flag (b_flags (bufs k r)) b"

text \<open>The contents of a buffer, 512 words, as the kernel reads and writes them between mapin and mapout.\<close>

definition get_data :: "'a bio_scheme \<Rightarrow> bref \<Rightarrow> u_int list" where
  "get_data k r = (case b_addr (bufs k r) of Own i \<Rightarrow> bmem k i | Ram b \<Rightarrow> ram k b @ ram k (b + 1))"

definition put_data :: "bref \<Rightarrow> u_int list \<Rightarrow> 'a bio_scheme \<Rightarrow> 'a bio_scheme" where
  "put_data r ws k = (case b_addr (bufs k r) of
       Own i \<Rightarrow> k\<lparr>bmem := (bmem k)(i := ws)\<rparr>
     | Ram b \<Rightarrow> k\<lparr>ram := (ram k)(b := take 256 ws, b + 1 := drop 256 ws)\<rparr>)"

text \<open>\<open>clrbuf\<close> (mch_xxx.s).\<close>

definition clrbuf :: "bref \<Rightarrow> 'a bio_scheme \<Rightarrow> 'a bio_scheme" where
  "clrbuf bp = put_data bp (replicate 512 0)"

section \<open>Lists of buffers\<close>

text \<open>The macros of buf.h: removal from and insertion into hash chains and free lists.\<close>

definition bremhash :: "bref \<Rightarrow> 'a bio_scheme \<Rightarrow> 'a bio_scheme" where
  "bremhash bp k =
     (let k1 = upd_buf (b_back (bufs k bp)) (\<lambda>b. b\<lparr>b_forw := b_forw (bufs k bp)\<rparr>) k
      in upd_buf (b_forw (bufs k1 bp)) (\<lambda>b. b\<lparr>b_back := b_back (bufs k1 bp)\<rparr>) k1)"

definition binshash :: "bref \<Rightarrow> bref \<Rightarrow> 'a bio_scheme \<Rightarrow> 'a bio_scheme" where
  "binshash bp dp k =
     (let k1 = upd_buf bp (\<lambda>b. b\<lparr>b_forw := b_forw (bufs k dp)\<rparr>) k;
          k2 = upd_buf bp (\<lambda>b. b\<lparr>b_back := dp\<rparr>) k1;
          k3 = upd_buf (b_forw (bufs k2 dp)) (\<lambda>b. b\<lparr>b_back := bp\<rparr>) k2
      in upd_buf dp (\<lambda>b. b\<lparr>b_forw := bp\<rparr>) k3)"

definition bremfree :: "bref \<Rightarrow> 'a bio_scheme \<Rightarrow> 'a bio_scheme" where
  "bremfree bp k =
     (let k1 = upd_buf (av_back (bufs k bp)) (\<lambda>b. b\<lparr>av_forw := av_forw (bufs k bp)\<rparr>) k
      in upd_buf (av_forw (bufs k1 bp)) (\<lambda>b. b\<lparr>av_back := av_back (bufs k1 bp)\<rparr>) k1)"

definition binsheadfree :: "bref \<Rightarrow> bref \<Rightarrow> 'a bio_scheme \<Rightarrow> 'a bio_scheme" where
  "binsheadfree bp dp k =
     (let k1 = upd_buf (av_forw (bufs k dp)) (\<lambda>b. b\<lparr>av_back := bp\<rparr>) k;
          k2 = upd_buf bp (\<lambda>b. b\<lparr>av_forw := av_forw (bufs k1 dp)\<rparr>) k1;
          k3 = upd_buf dp (\<lambda>b. b\<lparr>av_forw := bp\<rparr>) k2
      in upd_buf bp (\<lambda>b. b\<lparr>av_back := dp\<rparr>) k3)"

definition binstailfree :: "bref \<Rightarrow> bref \<Rightarrow> 'a bio_scheme \<Rightarrow> 'a bio_scheme" where
  "binstailfree bp dp k =
     (let k1 = upd_buf (av_back (bufs k dp)) (\<lambda>b. b\<lparr>av_forw := bp\<rparr>) k;
          k2 = upd_buf bp (\<lambda>b. b\<lparr>av_back := av_back (bufs k1 dp)\<rparr>) k1;
          k3 = upd_buf dp (\<lambda>b. b\<lparr>av_back := bp\<rparr>) k2
      in upd_buf bp (\<lambda>b. b\<lparr>av_forw := dp\<rparr>) k3)"

definition notavail :: "bref \<Rightarrow> 'a bio_scheme \<Rightarrow> 'a bio_scheme" where
  "notavail bp k = set_b B_BUSY bp (bremfree bp k)"

definition bfree :: "bref \<Rightarrow> 'a bio_scheme \<Rightarrow> 'a bio_scheme" where
  "bfree bp = upd_buf bp (\<lambda>b. b\<lparr>b_bcount := 0\<rparr>)"

definition fsbtodb :: "int \<Rightarrow> int" where
  "fsbtodb b = wrap32 (b * 2)"

definition BUFHASH :: "int \<Rightarrow> bref" where
  "BUFHASH blkno = Hash (nat (blkno mod 64))"

text \<open>The search of a hash chain for a block.\<close>

definition is_block :: "u_int \<Rightarrow> int \<Rightarrow> buf \<Rightarrow> bool" where
  "is_block dev dblkno b \<longleftrightarrow> b_blkno b = dblkno \<and> b_dev b = dev \<and> \<not> flag (b_flags b) B_INVAL"

definition find_block :: "u_int \<Rightarrow> int \<Rightarrow> 'a bio_scheme \<Rightarrow> bref option option" where
  "find_block dev blkno k =
     (let dp = BUFHASH blkno in
      ring_find (\<lambda>r. is_block dev (fsbtodb blkno) (bufs k r)) (\<lambda>r. b_forw (bufs k r)) dp (b_forw (bufs k dp)))"

definition incore :: "u_int \<Rightarrow> int \<Rightarrow> 'a bio_scheme \<Rightarrow> bool option" where
  "incore dev blkno k = map_option (\<lambda>r. r \<noteq> None) (find_block dev blkno k)"

section \<open>Release, completion, waiting\<close>

definition brelse :: "bref \<Rightarrow> 'a bio_scheme \<Rightarrow> 'a bio_scheme option" where
  "brelse bp k = do {
     k1 \<leftarrow> (if has_b k bp B_WANTED then wakeup (a_buf k bp) k else Some k);
     k2 \<leftarrow> (if has_b k1 (Free 0) B_WANTED then
              (let k2 = clr_b B_WANTED (Free 0) k1 in wakeup (a_buf k2 (Free 0)) k2) else Some k1);
     let k3 = (if has_b k2 bp B_ERROR then upd_buf bp (\<lambda>b. b\<lparr>b_dev := NODEV\<rparr>) k2 else k2);
     let k4 = (if has_b k3 bp (or B_ERROR B_INVAL) then binsheadfree bp (Free 2) k3
               else binstailfree bp (if has_b k3 bp B_AGE then Free 2 else Free 1) k3);
     Some (clr_b (or B_WANTED (or B_BUSY (or B_ASYNC B_AGE))) bp k4)
   }"

definition biodone :: "bref \<Rightarrow> 'a bio_scheme \<Rightarrow> 'a bio_scheme option" where
  "biodone bp k =
     (if has_b k bp B_DONE then None
      else
        let k1 = set_b B_DONE bp k in
        if has_b k1 bp B_ASYNC then brelse bp k1
        else (let k2 = clr_b B_WANTED bp k1 in wakeup (a_buf k2 bp) k2))"

definition geterror :: "buf \<Rightarrow> errno" where
  "geterror b = (if flag (b_flags b) B_ERROR then (if b_error b \<noteq> NOERR then b_error b else EIO) else NOERR)"

definition biowait :: "bref \<Rightarrow> 'a bio_scheme \<Rightarrow> bref bio_out \<times> 'a bio_scheme" where
  "biowait bp k =
     (if \<not> has_b k bp B_DONE then (Sleeps (a_buf k bp) PRIBIO, k)
      else (Got bp, if u_error (u k) = NOERR then set_error (geterror (bufs k bp)) k else k))"

section \<open>Reading and writing\<close>

definition count_in :: "'a kern_scheme \<Rightarrow> 'a kern_scheme" where
  "count_in = upd_u (\<lambda>v. v\<lparr>u_ru := (u_ru v)\<lparr>ru_inblock := wrap32 (ru_inblock (u_ru v) + 1)\<rparr>\<rparr>)"

definition count_out :: "'a kern_scheme \<Rightarrow> 'a kern_scheme" where
  "count_out = upd_u (\<lambda>v. v\<lparr>u_ru := (u_ru v)\<lparr>ru_oublock := wrap32 (ru_oublock (u_ru v) + 1)\<rparr>\<rparr>)"

definition bwrite ::
  "(bref \<Rightarrow> 'a bio_scheme \<Rightarrow> 'a bio_scheme option) \<Rightarrow> bref \<Rightarrow> 'a bio_scheme \<Rightarrow> (bref bio_out \<times> 'a bio_scheme) option" where
  "bwrite strat bp k = do {
     let fl = b_flags (bufs k bp);
     let k1 = clr_b (or B_READ (or B_DONE (or B_ERROR B_DELWRI))) bp k;
     let k2 = (if \<not> flag fl B_DELWRI then count_out k1 else k1);
     k3 \<leftarrow> strat bp (upd_buf bp (\<lambda>b. b\<lparr>b_bcount := DEV_BSIZE\<rparr>) k2);
     if \<not> flag fl B_ASYNC then
       (case biowait bp k3 of (Sleeps c p, k4) \<Rightarrow> Some (Sleeps c p, k4)
        | (Got _, k4) \<Rightarrow> map_option (\<lambda>k5. (Got bp, k5)) (brelse bp k4))
     else Some (Got bp, if flag fl B_DELWRI then set_b B_AGE bp k3 else k3)
   }"

definition bawrite ::
  "(bref \<Rightarrow> 'a bio_scheme \<Rightarrow> 'a bio_scheme option) \<Rightarrow> bref \<Rightarrow> 'a bio_scheme \<Rightarrow> (bref bio_out \<times> 'a bio_scheme) option" where
  "bawrite strat bp k = bwrite strat bp (set_b B_ASYNC bp k)"

text \<open>\<open>bdwrite\<close>; \<open>tape\<close> tells which devices are magtapes, where a write must not be delayed.\<close>

definition bdwrite ::
  "(bref \<Rightarrow> 'a bio_scheme \<Rightarrow> 'a bio_scheme option) \<Rightarrow> (u_int \<Rightarrow> bool) \<Rightarrow> bref \<Rightarrow> 'a bio_scheme \<Rightarrow>
   (bref bio_out \<times> 'a bio_scheme) option" where
  "bdwrite strat tape bp k =
     (let k1 = (if \<not> has_b k bp B_DELWRI then count_out k else k) in
      if tape (b_dev (bufs k1 bp)) then bawrite strat bp k1
      else map_option (\<lambda>k2. (Got bp, k2)) (brelse bp (set_b (or B_DELWRI B_DONE) bp k1)))"

section \<open>Getting a buffer\<close>

text \<open>The first free list, of AGE and LRU, that is not empty; \<open>Free 0\<close> if both are.\<close>

definition some_free :: "'a bio_scheme \<Rightarrow> bref" where
  "some_free k = (if av_forw (bufs k (Free 2)) \<noteq> Free 2 then Free 2
     else if av_forw (bufs k (Free 1)) \<noteq> Free 1 then Free 1 else Free 0)"

text \<open>A buffer that was remapped to the RAM disk gets its own memory back.\<close>

definition own_memory :: "bref \<Rightarrow> 'a bio_scheme \<Rightarrow> 'a bio_scheme" where
  "own_memory bp k = (if has_b k bp B_RAMREMAP
     then upd_buf bp (\<lambda>b. b\<lparr>b_addr := (case bp of Buf i \<Rightarrow> Own i | _ \<Rightarrow> b_addr b)\<rparr>) k else k)"

partial_function (option) getnewbuf ::
  "(bref \<Rightarrow> 'a bio_scheme \<Rightarrow> 'a bio_scheme option) \<Rightarrow> 'a bio_scheme \<Rightarrow> (bref bio_out \<times> 'a bio_scheme) option" where
  "getnewbuf strat k =
     (let dp = some_free k in
      if dp = Free 0 then Some (Sleeps (a_buf k (Free 0)) (PRIBIO + 1), set_b B_WANTED (Free 0) k)
      else
        let bp = av_forw (bufs k dp); k1 = notavail bp k in
        if has_b k1 bp B_DELWRI then
          Option.bind (bwrite strat bp (set_b B_ASYNC bp k1)) (\<lambda>(_, k2). getnewbuf strat k2)
        else Some (Got bp, upd_buf bp (\<lambda>b. b\<lparr>b_flags := B_BUSY\<rparr>) (own_memory bp k1)))"

text \<open>What getblk does with a new buffer, after getnewbuf has returned, however long that took.\<close>

definition take_new :: "u_int \<Rightarrow> int \<Rightarrow> bref \<Rightarrow> 'a bio_scheme \<Rightarrow> 'a bio_scheme" where
  "take_new dev blkno bp k =
     upd_buf bp (\<lambda>b. b\<lparr>b_dev := dev, b_blkno := fsbtodb blkno, b_error := NOERR\<rparr>)
       (binshash bp (BUFHASH blkno) (bremhash bp (bfree bp k)))"

definition getblk ::
  "(bref \<Rightarrow> 'a bio_scheme \<Rightarrow> 'a bio_scheme option) \<Rightarrow> u_int \<Rightarrow> int \<Rightarrow> 'a bio_scheme \<Rightarrow>
   (bref bio_out \<times> 'a bio_scheme) option" where
  "getblk strat dev blkno k = do {
     r \<leftarrow> find_block dev blkno k;
     case r of
       Some bp \<Rightarrow>
         (if has_b k bp B_BUSY then Some (Sleeps (a_buf k bp) (PRIBIO + 1), set_b B_WANTED bp k)
          else Some (Got bp, notavail bp k))
     | None \<Rightarrow> map_option (\<lambda>(o', k1). case o' of Got bp \<Rightarrow> (Got bp, take_new dev blkno bp k1) | Sleeps c p \<Rightarrow> (Sleeps c p, k1))
                 (getnewbuf strat k)
   }"

definition geteblk ::
  "(bref \<Rightarrow> 'a bio_scheme \<Rightarrow> 'a bio_scheme option) \<Rightarrow> 'a bio_scheme \<Rightarrow> (bref bio_out \<times> 'a bio_scheme) option" where
  "geteblk strat k = map_option (\<lambda>(o', k1). case o' of
       Got bp \<Rightarrow> (Got bp, upd_buf bp (\<lambda>b. b\<lparr>b_dev := NODEV, b_error := NOERR\<rparr>)
          (binshash bp (Free 2) (bremhash bp (bfree bp (set_b B_INVAL bp k1)))))
     | Sleeps c p \<Rightarrow> (Sleeps c p, k1)) (getnewbuf strat k)"

text \<open>Start of a read: \<open>fl\<close> is \<open>B_READ\<close>, with \<open>B_ASYNC\<close> for a read-ahead.\<close>

definition start_read ::
  "(bref \<Rightarrow> 'a bio_scheme \<Rightarrow> 'a bio_scheme option) \<Rightarrow> u_int \<Rightarrow> bref \<Rightarrow> 'a bio_scheme \<Rightarrow> 'a bio_scheme option" where
  "start_read strat fl bp k =
     map_option count_in (strat bp (upd_buf bp (\<lambda>b. b\<lparr>b_bcount := DEV_BSIZE\<rparr>) (set_b fl bp k)))"

definition bread ::
  "(bref \<Rightarrow> 'a bio_scheme \<Rightarrow> 'a bio_scheme option) \<Rightarrow> u_int \<Rightarrow> int \<Rightarrow> 'a bio_scheme \<Rightarrow>
   (bref bio_out \<times> 'a bio_scheme) option" where
  "bread strat dev blkno k = do {
     (o', k1) \<leftarrow> getblk strat dev blkno k;
     case o' of
       Sleeps c p \<Rightarrow> Some (Sleeps c p, k1)
     | Got bp \<Rightarrow>
         (if has_b k1 bp B_DONE then Some (Got bp, k1)
          else map_option (biowait bp) (start_read strat B_READ bp k1))
   }"

text \<open>The two parts of \<open>breada\<close>: the read itself, \<open>None\<close> if the block is in core; the read-ahead.\<close>

definition breada_start ::
  "(bref \<Rightarrow> 'a bio_scheme \<Rightarrow> 'a bio_scheme option) \<Rightarrow> u_int \<Rightarrow> int \<Rightarrow> 'a bio_scheme \<Rightarrow>
   (bref option bio_out \<times> 'a bio_scheme) option" where
  "breada_start strat dev blkno k = do {
     there \<leftarrow> incore dev blkno k;
     if there then Some (Got None, k)
     else do {
       (o', k1) \<leftarrow> getblk strat dev blkno k;
       case o' of
         Sleeps c p \<Rightarrow> Some (Sleeps c p, k1)
       | Got bp \<Rightarrow> map_option (\<lambda>k2. (Got (Some bp), k2))
            (if \<not> has_b k1 bp B_DONE then start_read strat B_READ bp k1 else Some k1)
     }
   }"

definition breada_ahead ::
  "(bref \<Rightarrow> 'a bio_scheme \<Rightarrow> 'a bio_scheme option) \<Rightarrow> u_int \<Rightarrow> int \<Rightarrow> 'a bio_scheme \<Rightarrow>
   (unit bio_out \<times> 'a bio_scheme) option" where
  "breada_ahead strat dev rablkno k = do {
     there \<leftarrow> (if rablkno \<noteq> 0 then incore dev rablkno k else Some True);
     if there then Some (Got (), k)
     else do {
       (o', k1) \<leftarrow> getblk strat dev rablkno k;
       case o' of
         Sleeps c p \<Rightarrow> Some (Sleeps c p, k1)
       | Got rabp \<Rightarrow> map_option (\<lambda>k2. (Got (), k2))
            (if has_b k1 rabp B_DONE then brelse rabp k1 else start_read strat (or B_READ B_ASYNC) rabp k1)
     }
   }"

definition breada ::
  "(bref \<Rightarrow> 'a bio_scheme \<Rightarrow> 'a bio_scheme option) \<Rightarrow> u_int \<Rightarrow> int \<Rightarrow> int \<Rightarrow> 'a bio_scheme \<Rightarrow>
   (bref bio_out \<times> 'a bio_scheme) option" where
  "breada strat dev blkno rablkno k = do {
     (o1, k1) \<leftarrow> breada_start strat dev blkno k;
     case o1 of
       Sleeps c p \<Rightarrow> Some (Sleeps c p, k1)
     | Got r \<Rightarrow> do {
         (o2, k2) \<leftarrow> breada_ahead strat dev rablkno k1;
         case o2 of
           Sleeps c p \<Rightarrow> Some (Sleeps c p, k2)
         | Got _ \<Rightarrow> (case r of None \<Rightarrow> bread strat dev blkno k2 | Some bp \<Rightarrow> Some (biowait bp k2))
       }
   }"

section \<open>Flushing and invalidating\<close>

partial_function (option) blkflush ::
  "(bref \<Rightarrow> 'a bio_scheme \<Rightarrow> 'a bio_scheme option) \<Rightarrow> u_int \<Rightarrow> int \<Rightarrow> 'a bio_scheme \<Rightarrow>
   (unit bio_out \<times> 'a bio_scheme) option" where
  "blkflush strat dev blkno k =
     (let dp = BUFHASH blkno in
      Option.bind (ring_find (\<lambda>r. is_block dev (fsbtodb blkno) (bufs k r) \<and> (has_b k r B_BUSY \<or> has_b k r B_DELWRI))
             (\<lambda>r. b_forw (bufs k r)) dp (b_forw (bufs k dp)))
       (\<lambda>r. case r of None \<Rightarrow> Some (Got (), k)
        | Some ep \<Rightarrow>
           (if has_b k ep B_BUSY then Some (Sleeps (a_buf k ep) (PRIBIO + 1), set_b B_WANTED ep k)
            else Option.bind (bwrite strat ep (notavail ep k)) (\<lambda>(o', k2). case o' of
                Sleeps c p \<Rightarrow> Some (Sleeps c p, k2)
              | Got _ \<Rightarrow> blkflush strat dev blkno k2))))"

text \<open>The first delayed write of the device on a free list, looking through the lists in turn.\<close>

definition delayed_on :: "u_int \<Rightarrow> nat \<Rightarrow> 'a bio_scheme \<Rightarrow> bref option option" where
  "delayed_on dev q k =
     ring_find (\<lambda>r. has_b k r B_DELWRI \<and> (dev = NODEV \<or> dev = b_dev (bufs k r))) (\<lambda>r. av_forw (bufs k r))
       (Free q) (av_forw (bufs k (Free q)))"

definition delayed :: "u_int \<Rightarrow> 'a bio_scheme \<Rightarrow> bref option option" where
  "delayed dev k = do {
     r0 \<leftarrow> delayed_on dev 0 k;
     if r0 \<noteq> None then Some r0
     else do {
       r1 \<leftarrow> delayed_on dev 1 k;
       if r1 \<noteq> None then Some r1 else delayed_on dev 2 k
     }
   }"

partial_function (option) bflush ::
  "(bref \<Rightarrow> 'a bio_scheme \<Rightarrow> 'a bio_scheme option) \<Rightarrow> u_int \<Rightarrow> 'a bio_scheme \<Rightarrow> 'a bio_scheme option" where
  "bflush strat dev k = Option.bind (delayed dev k) (\<lambda>r. case r of None \<Rightarrow> Some k
     | Some bp \<Rightarrow> Option.bind (bwrite strat bp (notavail bp (set_b B_ASYNC bp k))) (\<lambda>(_, k2). bflush strat dev k2))"

text \<open>The walk over one hash chain of binval.\<close>

partial_function (option) binval_from :: "u_int \<Rightarrow> bref \<Rightarrow> bref \<Rightarrow> 'a bio_scheme \<Rightarrow> 'a bio_scheme option" where
  "binval_from dev dp bp k =
     (if bp = dp then Some k
      else let k1 = (if b_dev (bufs k bp) = dev then set_b B_INVAL bp k else k) in
        binval_from dev dp (b_forw (bufs k1 bp)) k1)"

definition binval :: "u_int \<Rightarrow> 'a bio_scheme \<Rightarrow> 'a bio_scheme option" where
  "binval dev k = fold (\<lambda>h st. Option.bind st (\<lambda>k. binval_from dev (Hash h) (b_forw (bufs k (Hash h))) k))
     [0 ..< BUFHSZ] (Some k)"

end
