(* ===== verification/Ramdisk.thy ===== *)
theory Ramdisk imports Bio begin

text \<open>
  The RAM disk driver \<open>src/sys/pdp/ram.c\<close>: a strategy routine that completes every request at once. A
  block read does not copy: it makes the buffer refer to the disk's memory. Raw transfers (\<open>B_PHYS\<close>) are
  not modelled. Device blocks have 512 bytes; a buffer is two of them.
\<close>

text \<open>\<open>raminit\<close>: \<open>base\<close> is the result of \<open>malloc(coremap, ram_size*btoc(NBPG))\<close>; the result is the
  number of clicks used.\<close>

definition raminit :: "u_int \<Rightarrow> 'a bio_scheme \<Rightarrow> u_int \<times> 'a bio_scheme" where
  "raminit base k =
     (if ram_size k \<noteq> 0 then
        (let k1 = k\<lparr>ram_base := base\<rparr> in if base \<noteq> 0 then (ram_size k * 8, k1) else (0, k1))
      else (0, k))"

definition ramopen :: "u_int \<Rightarrow> 'a bio_scheme \<Rightarrow> errno" where
  "ramopen dev k = (if and dev 0xff \<noteq> 0 \<or> ram_base k = 0 then ENXIO else NOERR)"

text \<open>\<open>ramstart\<close> for a write: the copy of the buffer to the disk.\<close>

definition ramstart :: "bref \<Rightarrow> 'a bio_scheme \<Rightarrow> 'a bio_scheme" where
  "ramstart bp k =
     (let b = b_blkno (bufs k bp); ws = get_data k bp in
      if b_bcount (bufs k bp) = 0 then k
      else k\<lparr>ram := (ram k)(b := take 256 ws, b + 1 := drop 256 ws)\<rparr>)"

definition ram_error :: "errno \<Rightarrow> bref \<Rightarrow> 'a bio_scheme \<Rightarrow> 'a bio_scheme" where
  "ram_error e bp = upd_buf bp (\<lambda>b. b\<lparr>b_error := e, b_flags := set_flag B_ERROR (b_flags b)\<rparr>)"

text \<open>The transfer up to \<open>iodone\<close>.\<close>

definition ram_transfer :: "bref \<Rightarrow> 'a bio_scheme \<Rightarrow> 'a bio_scheme" where
  "ram_transfer bp k =
     (let b = bufs k bp in
      if ram_base k = 0 then ram_error ENXIO bp k
      else if b_blkno b < 0 \<or> b_blkno b + uint (b_bcount b + 511) div 512 > uint (ram_size k) then ram_error EINVAL bp k
      else if flag (b_flags b) B_READ then
        upd_buf bp (\<lambda>b. b\<lparr>b_flags := set_flag B_RAMREMAP (b_flags b), b_addr := Ram (b_blkno b)\<rparr>) k
      else if \<not> flag (b_flags b) B_RAMREMAP then ramstart bp k
      else k)"

definition ramstrategy :: "bref \<Rightarrow> 'a bio_scheme \<Rightarrow> 'a bio_scheme option" where
  "ramstrategy bp k = biodone bp (ram_transfer bp k)"

end
