(* ===== verification/BioSpec.thy ===== *)
theory BioSpec imports Ramdisk SigFrame begin

text \<open>
  The structure of the buffer cache: every buffer is on one hash chain, the free lists hold exactly the
  buffers that are not busy, and what the list macros do to these lists. The fields of a buffer other than
  its links are its \<open>cell\<close>.
\<close>

section \<open>The link fields and the rest\<close>

abbreviation fwd :: "'a bio_scheme \<Rightarrow> bref \<Rightarrow> bref" where "fwd k r \<equiv> b_forw (bufs k r)"
abbreviation bck :: "'a bio_scheme \<Rightarrow> bref \<Rightarrow> bref" where "bck k r \<equiv> b_back (bufs k r)"
abbreviation afw :: "'a bio_scheme \<Rightarrow> bref \<Rightarrow> bref" where "afw k r \<equiv> av_forw (bufs k r)"
abbreviation abk :: "'a bio_scheme \<Rightarrow> bref \<Rightarrow> bref" where "abk k r \<equiv> av_back (bufs k r)"

definition payload :: "buf \<Rightarrow> buf" where
  "payload b = b\<lparr>b_forw := Hash 0, b_back := Hash 0, av_forw := Hash 0, av_back := Hash 0\<rparr>"

definition cells :: "'a bio_scheme \<Rightarrow> bref \<Rightarrow> buf" where
  "cells k r = payload (bufs k r)"

lemma payload_simps [simp]:
  "b_flags (payload b) = b_flags b" "b_bcount (payload b) = b_bcount b" "b_error (payload b) = b_error b"
  "b_dev (payload b) = b_dev b" "b_blkno (payload b) = b_blkno b" "b_resid (payload b) = b_resid b"
  "b_addr (payload b) = b_addr b"
  "payload (b\<lparr>b_forw := x\<rparr>) = payload b" "payload (b\<lparr>b_back := x\<rparr>) = payload b"
  "payload (b\<lparr>av_forw := x\<rparr>) = payload b" "payload (b\<lparr>av_back := x\<rparr>) = payload b"
  "payload (b\<lparr>b_flags := fl\<rparr>) = (payload b)\<lparr>b_flags := fl\<rparr>" "payload (b\<lparr>b_bcount := n\<rparr>) = (payload b)\<lparr>b_bcount := n\<rparr>"
  "payload (b\<lparr>b_error := e\<rparr>) = (payload b)\<lparr>b_error := e\<rparr>" "payload (b\<lparr>b_dev := d\<rparr>) = (payload b)\<lparr>b_dev := d\<rparr>"
  "payload (b\<lparr>b_resid := n\<rparr>) = (payload b)\<lparr>b_resid := n\<rparr>" "payload (b\<lparr>b_blkno := m\<rparr>) = (payload b)\<lparr>b_blkno := m\<rparr>" "payload (b\<lparr>b_addr := a\<rparr>) = (payload b)\<lparr>b_addr := a\<rparr>"
  by (simp_all add: payload_def)

text \<open>The fields of a buffer are read off its cell.\<close>

lemma cell_fields:
  "b_flags (bufs k r) = b_flags (cells k r)" "b_error (bufs k r) = b_error (cells k r)"
  "b_dev (bufs k r) = b_dev (cells k r)" "b_blkno (bufs k r) = b_blkno (cells k r)"
  "b_addr (bufs k r) = b_addr (cells k r)" "b_bcount (bufs k r) = b_bcount (cells k r)"
  "b_resid (bufs k r) = b_resid (cells k r)"
  by (simp_all add: cells_def)

lemma upd_buf_simps [simp]:
  "bufs (upd_buf r f k) x = (if x = r then f (bufs k r) else bufs k x)"
  "procs (upd_buf r f k) = procs k" "u (upd_buf r f k) = u k" "a_buf (upd_buf r f k) = a_buf k"
  "bmem (upd_buf r f k) = bmem k" "ram (upd_buf r f k) = ram k" "ram_base (upd_buf r f k) = ram_base k"
  "ram_size (upd_buf r f k) = ram_size k" "a_runout (upd_buf r f k) = a_runout k"
  by (simp_all add: upd_buf_def)

lemma upd_buf_sched [simp]: "sched_ok (upd_buf r f k) = sched_ok k" "sleepers_ok (upd_buf r f k) = sleepers_ok k"
  by (simp_all add: upd_buf_def sched_ok_def queues_def sleepers_ok_def)

lemma cells_upd: "cells (upd_buf r f k) = (cells k)(r := payload (f (bufs k r)))"
  by (auto simp: cells_def)

lemma cells_set [simp]:
  "cells (set_b b r k) = (cells k)(r := (cells k r)\<lparr>b_flags := set_flag b (b_flags (cells k r))\<rparr>)"
  "cells (clr_b b r k) = (cells k)(r := (cells k r)\<lparr>b_flags := clr_flag b (b_flags (cells k r))\<rparr>)"
  by (simp_all add: set_b_def clr_b_def cells_upd cells_def)

text \<open>The state around the buffers.\<close>

definition rest :: "'a bio_scheme \<Rightarrow> 'a bio_scheme" where
  "rest k = k\<lparr>bufs := \<lambda>_. undefined\<rparr>"

lemma rest_upd [simp]: "rest (upd_buf r f k) = rest k" "rest (set_b b r k) = rest k" "rest (clr_b b r k) = rest k"
  by (simp_all add: rest_def upd_buf_def set_b_def clr_b_def)

definition sys_ok :: "'a bio_scheme \<Rightarrow> bool" where
  "sys_ok k \<longleftrightarrow> sched_ok k \<and> sleepers_ok k \<and> a_runout k \<noteq> 0 \<and> (\<forall>r. a_buf k r \<noteq> 0)"

lemma restD:
  assumes "rest k' = rest k"
  shows "u k' = u k" "a_buf k' = a_buf k" "bmem k' = bmem k" "ram k' = ram k" "ram_base k' = ram_base k"
    "ram_size k' = ram_size k" "sys_ok k' = sys_ok k"
proof -
  show "u k' = u k" "a_buf k' = a_buf k" "bmem k' = bmem k" "ram k' = ram k" "ram_base k' = ram_base k"
    "ram_size k' = ram_size k"
    using arg_cong [OF assms, of u] arg_cong [OF assms, of a_buf] arg_cong [OF assms, of bmem]
      arg_cong [OF assms, of ram] arg_cong [OF assms, of ram_base] arg_cong [OF assms, of ram_size] by (simp_all add: rest_def)
  have "sys_ok (rest x) = sys_ok x" for x :: "'a bio_scheme"
    by (simp add: rest_def sys_ok_def sched_ok_def queues_def sleepers_ok_def)
  then show "sys_ok k' = sys_ok k" using assms by metis
qed

section \<open>The list macros\<close>

text \<open>They touch links only, and of one kind.\<close>

lemma macro_cells [simp]:
  "cells (bremhash bp k) = cells k" "cells (binshash bp dp k) = cells k" "cells (bremfree bp k) = cells k"
  "cells (binsheadfree bp dp k) = cells k" "cells (binstailfree bp dp k) = cells k"
  by (auto simp: bremhash_def binshash_def bremfree_def binsheadfree_def binstailfree_def Let_def cells_def)

lemma macro_rest [simp]:
  "rest (bremhash bp k) = rest k" "rest (binshash bp dp k) = rest k" "rest (bremfree bp k) = rest k"
  "rest (binsheadfree bp dp k) = rest k" "rest (binstailfree bp dp k) = rest k"
  by (simp_all add: bremhash_def binshash_def bremfree_def binsheadfree_def binstailfree_def Let_def)

lemma macro_other [simp]:
  "afw (bremhash bp k) = afw k" "abk (bremhash bp k) = abk k" "afw (binshash bp dp k) = afw k" "abk (binshash bp dp k) = abk k"
  "fwd (bremfree bp k) = fwd k" "bck (bremfree bp k) = bck k" "fwd (binsheadfree bp dp k) = fwd k"
  "bck (binsheadfree bp dp k) = bck k" "fwd (binstailfree bp dp k) = fwd k" "bck (binstailfree bp dp k) = bck k"
  by (auto simp: bremhash_def binshash_def bremfree_def binsheadfree_def binstailfree_def Let_def fun_eq_iff)

text \<open>Assignments that leave the links alone.\<close>

lemma field_links [simp]:
  "fwd (set_b b r k) = fwd k" "bck (set_b b r k) = bck k" "afw (set_b b r k) = afw k" "abk (set_b b r k) = abk k"
  "fwd (clr_b b r k) = fwd k" "bck (clr_b b r k) = bck k" "afw (clr_b b r k) = afw k" "abk (clr_b b r k) = abk k"
  by (auto simp: set_b_def clr_b_def fun_eq_iff)

lemma bremhash_links:
  assumes "bck k bp \<noteq> bp"
  shows "fwd (bremhash bp k) = (fwd k)(bck k bp := fwd k bp)" "bck (bremhash bp k) = (bck k)(fwd k bp := bck k bp)"
  using assms by (auto simp: bremhash_def Let_def fun_eq_iff)

lemma binshash_links:
  assumes "bp \<noteq> dp" "fwd k dp \<noteq> bp"
  shows "fwd (binshash bp dp k) = (fwd k)(bp := fwd k dp, dp := bp)" "bck (binshash bp dp k) = (bck k)(bp := dp, fwd k dp := bp)"
  using assms by (auto simp: binshash_def Let_def fun_eq_iff)

lemma bremfree_links:
  assumes "abk k bp \<noteq> bp"
  shows "afw (bremfree bp k) = (afw k)(abk k bp := afw k bp)" "abk (bremfree bp k) = (abk k)(afw k bp := abk k bp)"
  using assms by (auto simp: bremfree_def Let_def fun_eq_iff)

lemma binsheadfree_links:
  assumes "bp \<noteq> dp" "afw k dp \<noteq> bp"
  shows "afw (binsheadfree bp dp k) = (afw k)(bp := afw k dp, dp := bp)"
    "abk (binsheadfree bp dp k) = (abk k)(bp := dp, afw k dp := bp)"
  using assms by (auto simp: binsheadfree_def Let_def fun_eq_iff)

lemma binstailfree_links:
  assumes "bp \<noteq> dp" "abk k dp \<noteq> bp"
  shows "afw (binstailfree bp dp k) = (afw k)(bp := dp, abk k dp := bp)"
    "abk (binstailfree bp dp k) = (abk k)(bp := abk k dp, dp := bp)"
  using assms by (auto simp: binstailfree_def Let_def fun_eq_iff)

section \<open>The invariant of the lists\<close>

text \<open>The heads of the hash chains: \<open>Free 2\<close> heads the chain of the buffers without a block.\<close>

definition heads :: "bref set" where
  "heads = insert (Free 2) (Hash ` {..<BUFHSZ})"

definition fheads :: "bref set" where
  "fheads = {Free 0, Free 1, Free 2}"

definition busy :: "'a bio_scheme \<Rightarrow> nat \<Rightarrow> bool" where
  "busy k i \<longleftrightarrow> flag (b_flags (cells k (Buf i))) B_BUSY"

definition chains_ok :: "nat \<Rightarrow> 'a bio_scheme \<Rightarrow> (bref \<Rightarrow> bref list) \<Rightarrow> bool" where
  "chains_ok N k H \<longleftrightarrow> rings (fwd k) (bck k) heads H \<and> elems heads H = Buf ` {..<N}"

definition free_ok :: "nat \<Rightarrow> 'a bio_scheme \<Rightarrow> (bref \<Rightarrow> bref list) \<Rightarrow> bool" where
  "free_ok N k F \<longleftrightarrow> rings (afw k) (abk k) fheads F \<and> F (Free 0) = [] \<and> elems fheads F = Buf ` {i. i < N \<and> \<not> busy k i}"

lemma chains_ok_cong: "fwd k' = fwd k \<Longrightarrow> bck k' = bck k \<Longrightarrow> chains_ok N k' H = chains_ok N k H"
  unfolding chains_ok_def by simp

lemma free_ok_cong: "afw k' = afw k \<Longrightarrow> abk k' = abk k \<Longrightarrow> (\<forall>i. busy k' i = busy k i) \<Longrightarrow> free_ok N k' F = free_ok N k F"
  unfolding free_ok_def by simp

lemma Buf_heads [simp]: "Buf i \<notin> heads" "Buf i \<notin> fheads"
  by (auto simp: heads_def fheads_def)

text \<open>Moving a buffer to the front of another hash chain.\<close>

lemma rehash_ok:
  assumes h: "chains_ok N k H" and i: "i < N" and d: "d \<in> heads"
  obtains H' where "chains_ok N (binshash (Buf i) d (bremhash (Buf i) k)) H'" "Buf i \<in> set (H' d)"
    "\<And>e j. j \<noteq> i \<Longrightarrow> Buf j \<in> set (H e) \<Longrightarrow> Buf j \<in> set (H' e)"
proof -
  have r: "rings (fwd k) (bck k) heads H" and el: "elems heads H = Buf ` {..<N}" using h by (simp_all add: chains_ok_def)
  have "Buf i \<in> elems heads H" using i el by simp
  then obtain e where e: "e \<in> heads" "Buf i \<in> set (H e)" by (auto simp: elems_def)
  define k1 where "k1 = bremhash (Buf i) k"
  define H1 where "H1 = H(e := remove1 (Buf i) (H e))"
  have l1: "fwd k1 = (fwd k)(bck k (Buf i) := fwd k (Buf i))" "bck k1 = (bck k)(fwd k (Buf i) := bck k (Buf i))"
    unfolding k1_def using bremhash_links ring_apart [OF ringsD(1) [OF r e(1)] e(2)] by blast+
  have r1: "rings (fwd k1) (bck k1) heads H1" "elems heads H1 = elems heads H - {Buf i}"
    unfolding l1 H1_def using rings_remove [OF r e] by blast+
  then have out: "Buf i \<notin> elems heads H1" by blast
  define k2 where "k2 = binshash (Buf i) d k1"
  note in2 = rings_insert_front [OF r1(1) d Buf_heads(1) out]
  have nd: "Buf i \<noteq> d" using d Buf_heads by metis
  have "chains_ok N k2 (H1(d := Buf i # H1 d))"
    unfolding chains_ok_def k2_def binshash_links [OF nd in2(3)] using in2(1,2) r1(2) el i by auto
  moreover have "Buf j \<in> set ((H1(d := Buf i # H1 d)) c)" if "j \<noteq> i" "Buf j \<in> set (H c)" for c j
    using that by (auto simp: H1_def in_set_remove1)
  ultimately show thesis using that [of "H1(d := Buf i # H1 d)"] unfolding k2_def k1_def by simp
qed

text \<open>Taking a buffer off the free lists; putting a busy one back.\<close>

lemma busy_set: "busy (set_b B_BUSY (Buf i) k) j = (j = i \<or> busy k j)"
  by (auto simp: busy_def flag_def set_flag_def bit.conj_disj_distrib2)

lemma notavail_ok:
  assumes f: "free_ok N k F" and i: "i < N" "\<not> busy k i"
  shows "\<exists>F'. free_ok N (notavail (Buf i) k) F'"
    "cells (notavail (Buf i) k) = (cells k)(Buf i := (cells k (Buf i))\<lparr>b_flags := set_flag B_BUSY (b_flags (cells k (Buf i)))\<rparr>)"
    "rest (notavail (Buf i) k) = rest k" "fwd (notavail (Buf i) k) = fwd k" "bck (notavail (Buf i) k) = bck k"
proof -
  have r: "rings (afw k) (abk k) fheads F" and el: "elems fheads F = Buf ` {i. i < N \<and> \<not> busy k i}"
    and f0: "F (Free 0) = []" using f by (simp_all add: free_ok_def)
  have "Buf i \<in> elems fheads F" using i el by simp
  then obtain e where e: "e \<in> fheads" "Buf i \<in> set (F e)" by (auto simp: elems_def)
  have l: "afw (bremfree (Buf i) k) = (afw k)(abk k (Buf i) := afw k (Buf i))"
    "abk (bremfree (Buf i) k) = (abk k)(afw k (Buf i) := abk k (Buf i))"
    using bremfree_links ring_apart [OF ringsD(1) [OF r e(1)] e(2)] by blast+
  show "cells (notavail (Buf i) k) = (cells k)(Buf i := (cells k (Buf i))\<lparr>b_flags := set_flag B_BUSY (b_flags (cells k (Buf i)))\<rparr>)"
    "rest (notavail (Buf i) k) = rest k" "fwd (notavail (Buf i) k) = fwd k" "bck (notavail (Buf i) k) = bck k"
    by (simp_all add: notavail_def)
  have b: "busy (notavail (Buf i) k) j = (j = i \<or> busy k j)" for j
    unfolding notavail_def busy_set by (simp add: busy_def)
  have "free_ok N (notavail (Buf i) k) (F(e := remove1 (Buf i) (F e)))"
    unfolding free_ok_def b using rings_remove [OF r e] el f0 e by (auto simp: notavail_def l)
  then show "\<exists>F'. free_ok N (notavail (Buf i) k) F'" by blast
qed

lemma putfree_ok:
  assumes f: "free_ok N k F" and i: "i < N" "busy k i" and d: "d \<in> {Free 1, Free 2}"
    and k': "k' = binsheadfree (Buf i) d k \<or> k' = binstailfree (Buf i) d k"
    and k'': "afw k'' = afw k'" "abk k'' = abk k'" "\<forall>j. busy k'' j = (j \<noteq> i \<and> busy k j)"
  shows "\<exists>F'. free_ok N k'' F'"
proof -
  have r: "rings (afw k) (abk k) fheads F" and el: "elems fheads F = Buf ` {i. i < N \<and> \<not> busy k i}"
    and f0: "F (Free 0) = []" using f by (simp_all add: free_ok_def)
  have dh: "d \<in> fheads" "Buf i \<noteq> d" "d \<noteq> Free 0" using d by (auto simp: fheads_def)
  have out: "Buf i \<notin> elems fheads F" using i el by auto
  have E: "insert (Buf i) (elems fheads F) = Buf ` {i. i < N \<and> \<not> busy k'' i}" using el i k''(3) by auto
  from k' show ?thesis
  proof
    assume k': "k' = binsheadfree (Buf i) d k"
    note l = rings_insert_front [OF r dh(1) Buf_heads(2) out]
    have "free_ok N k'' (F(d := Buf i # F d))"
      unfolding free_ok_def k'' k' binsheadfree_links [OF dh(2) l(3)] using l(1,2) E k''(3) dh(3) f0 by simp
    then show ?thesis by blast
  next
    assume k': "k' = binstailfree (Buf i) d k"
    note l = rings_insert_back [OF r dh(1) Buf_heads(2) out]
    have "free_ok N k'' (F(d := F d @ [Buf i]))"
      unfolding free_ok_def k'' k' binstailfree_links [OF dh(2) l(3)] using l(1,2) E k''(3) dh(3) f0 by simp
    then show ?thesis by blast
  qed
qed

end
