(* ===== verification/BioCache.thy ===== *)
theory BioCache imports BioSpec begin

text \<open>
  What the buffer cache holds: the invariant on the contents of the buffers of one RAM disk, the contents of
  a block as the file system sees it, and the effect of changing one buffer on both.
\<close>

section \<open>Flags\<close>

lemma fl_set: "flag (set_flag b f) c \<longleftrightarrow> flag f c \<or> and b c \<noteq> 0"
proof -
  have "and (or f b) c = or (and f c) (and b c)" by (simp add: bit.conj_disj_distrib2)
  then show ?thesis by (auto simp: flag_def set_flag_def or_eq_0_iff)
qed

lemma fl_clr: "flag (clr_flag b f) c \<longleftrightarrow> flag f (and (not b) c)"
  by (simp add: flag_def clr_flag_def and.assoc)

lemma fl_or: "flag f (or a b) \<longleftrightarrow> flag f a \<or> flag f b"
proof -
  have "and f (or a b) = or (and f a) (and f b)" by (simp add: bit.conj_disj_distrib)
  then show ?thesis by (auto simp: flag_def or_eq_0_iff)
qed

lemma fl_0 [simp]: "\<not> flag f 0" "\<not> flag 0 f" by (simp_all add: flag_def)

lemma fl_busy [simp]: "flag 8 b \<longleftrightarrow> and 8 b \<noteq> 0" by (simp add: flag_def)

lemmas fl = fl_set fl_clr fl_or

section \<open>Buffers that hold a block\<close>

definition live :: "buf \<Rightarrow> bool" where
  "live c \<longleftrightarrow> \<not> flag (b_flags c) B_INVAL \<and> b_dev c \<noteq> NODEV"

definition full :: "buf \<Rightarrow> bool" where
  "full c \<longleftrightarrow> flag (b_flags c) B_DONE \<and> \<not> flag (b_flags c) B_ERROR"

definition in_disk :: "'a bio_scheme \<Rightarrow> int \<Rightarrow> bool" where
  "in_disk k n \<longleftrightarrow> 0 \<le> n \<and> n + 2 \<le> uint (ram_size k)"

definition disk :: "'a bio_scheme \<Rightarrow> int \<Rightarrow> u_int list" where
  "disk k n = ram k n @ ram k (n + 1)"

text \<open>The data of buffer \<open>i\<close> are those of the disk.\<close>

definition clean :: "'a bio_scheme \<Rightarrow> nat \<Rightarrow> bool" where
  "clean k i \<longleftrightarrow> get_data k (Buf i) = disk k (b_blkno (cells k (Buf i)))"

text \<open>The state of one buffer: \<open>H\<close> is the hash chains.\<close>

definition cell_ok :: "u_int \<Rightarrow> (bref \<Rightarrow> bref list) \<Rightarrow> 'a bio_scheme \<Rightarrow> nat \<Rightarrow> bool" where
  "cell_ok D H k i \<longleftrightarrow> (let c = cells k (Buf i) in
     (b_dev c = D \<or> b_dev c = NODEV) \<and> b_resid c = 0 \<and>
     b_addr c = (if flag (b_flags c) B_RAMREMAP then Ram (b_blkno c) else Own i) \<and>
     (live c \<longrightarrow> (\<exists>b. b_blkno c = fsbtodb b \<and> Buf i \<in> set (H (BUFHASH b)))) \<and>
     (flag (b_flags c) B_DELWRI \<longrightarrow> live c \<and> full c) \<and>
     (live c \<and> full c \<longrightarrow> in_disk k (b_blkno c)) \<and>
     (\<not> busy k i \<longrightarrow> \<not> flag (b_flags c) B_ASYNC \<and> (flag (b_flags c) B_ERROR \<longrightarrow> b_dev c = NODEV) \<and>
        (live c \<and> full c \<and> \<not> flag (b_flags c) B_DELWRI \<longrightarrow> clean k i)))"

definition sizes_ok :: "'a bio_scheme \<Rightarrow> bool" where
  "sizes_ok k \<longleftrightarrow> (\<forall>n. length (ram k n) = 256) \<and> (\<forall>i. length (bmem k i) = 512) \<and> ram_base k \<noteq> 0"

text \<open>No block has two buffers.\<close>

definition unique :: "nat \<Rightarrow> 'a bio_scheme \<Rightarrow> bool" where
  "unique N k \<longleftrightarrow> (\<forall>i < N. \<forall>j < N. i \<noteq> j \<longrightarrow> live (cells k (Buf i)) \<longrightarrow> live (cells k (Buf j)) \<longrightarrow>
     b_blkno (cells k (Buf i)) \<noteq> b_blkno (cells k (Buf j)))"

definition blocks_ok :: "nat \<Rightarrow> u_int \<Rightarrow> (bref \<Rightarrow> bref list) \<Rightarrow> 'a bio_scheme \<Rightarrow> bool" where
  "blocks_ok N D H k \<longleftrightarrow> (\<forall>i < N. cell_ok D H k i) \<and> unique N k \<and> sizes_ok k"

text \<open>The whole invariant: \<open>N\<close> buffers that cache blocks of device \<open>D\<close>.\<close>

definition cache_ok :: "nat \<Rightarrow> u_int \<Rightarrow> 'a bio_scheme \<Rightarrow> bool" where
  "cache_ok N D k \<longleftrightarrow> sys_ok k \<and> D \<noteq> NODEV \<and> (\<exists>H. chains_ok N k H \<and> blocks_ok N D H k) \<and> (\<exists>F. free_ok N k F)"

section \<open>The contents of a block\<close>

text \<open>As the cache's client sees it: what the buffer of the block holds, if it holds anything, else what is on the disk.\<close>

definition content :: "u_int \<Rightarrow> 'a bio_scheme \<Rightarrow> int \<Rightarrow> u_int list" where
  "content dev k blkno = (case find_block dev blkno k of
       Some (Some r) \<Rightarrow> (if full (bufs k r) then get_data k r else disk k (fsbtodb blkno))
     | _ \<Rightarrow> disk k (fsbtodb blkno))"

definition cdata :: "'a bio_scheme \<Rightarrow> nat \<Rightarrow> u_int list" where
  "cdata k i = (if full (cells k (Buf i)) then get_data k (Buf i) else disk k (b_blkno (cells k (Buf i))))"

text \<open>The same, looking at all buffers instead of one hash chain.\<close>

definition content_at :: "nat \<Rightarrow> 'a bio_scheme \<Rightarrow> int \<Rightarrow> u_int list" where
  "content_at N k n = (case List.find (\<lambda>i. live (cells k (Buf i)) \<and> b_blkno (cells k (Buf i)) = n) [0 ..< N] of
       Some i \<Rightarrow> cdata k i | None \<Rightarrow> disk k n)"

lemma content_at_held:
  assumes "unique N k" "i < N" "live (cells k (Buf i))"
  shows "content_at N k (b_blkno (cells k (Buf i))) = cdata k i"
proof -
  let ?P = "\<lambda>j. live (cells k (Buf j)) \<and> b_blkno (cells k (Buf j)) = b_blkno (cells k (Buf i))"
  have u: "j = i" if "j < N" "?P j" for j using assms that unfolding unique_def by metis
  have "List.find ?P [0 ..< N] = Some i"
  proof (cases "List.find ?P [0 ..< N]")
    case None
    then show ?thesis using assms(2,3) by (auto simp: find_None_iff)
  next
    case (Some j)
    then have "j < N" "?P j" by (auto simp: find_Some_iff)
    then show ?thesis using u Some by simp
  qed
  then show ?thesis by (simp add: content_at_def)
qed

lemma content_at_free:
  "(\<forall>i < N. live (cells k (Buf i)) \<longrightarrow> b_blkno (cells k (Buf i)) \<noteq> n) \<Longrightarrow> content_at N k n = disk k n"
proof -
  assume "\<forall>i < N. live (cells k (Buf i)) \<longrightarrow> b_blkno (cells k (Buf i)) \<noteq> n"
  then have "List.find (\<lambda>i. live (cells k (Buf i)) \<and> b_blkno (cells k (Buf i)) = n) [0 ..< N] = None"
    by (auto simp: find_None_iff)
  then show ?thesis by (simp add: content_at_def)
qed

lemma fsbtodb_form: "\<exists>q. fsbtodb b = 2 * (b - 2147483648 * q)"
proof -
  have "fsbtodb b = b * 2 + 2147483648 - 4294967296 * ((b * 2 + 2147483648) div 4294967296) - 2147483648"
    unfolding fsbtodb_def wrap32_def by (simp add: minus_mult_div_eq_mod)
  then show ?thesis by (intro exI [of _ "(b * 2 + 2147483648) div 4294967296"]) (simp add: algebra_simps)
qed

lemma fsbtodb_even: "even (fsbtodb b)"
  using fsbtodb_form [of b] by auto

lemma fsbtodb_hash:
  assumes "fsbtodb b = fsbtodb b'"
  shows "BUFHASH b = BUFHASH b'"
proof -
  obtain q q' where "fsbtodb b = 2 * (b - 2147483648 * q)" "fsbtodb b' = 2 * (b' - 2147483648 * q')"
    using fsbtodb_form by meson
  then have "b - b' = 64 * (33554432 * (q - q'))" using assms by simp
  then have "b mod 64 = b' mod 64" unfolding mod_eq_dvd_iff by (rule dvdI)
  then show ?thesis by (simp add: BUFHASH_def)
qed

section \<open>Searching a hash chain\<close>

lemma is_block_cells: "is_block D n (bufs k r) = is_block D n (cells k r)"
  by (simp add: is_block_def cell_fields)

lemma is_block_live: "D \<noteq> NODEV \<Longrightarrow> is_block D n c \<Longrightarrow> live c \<and> b_blkno c = n \<and> b_dev c = D"
  by (simp add: is_block_def live_def)

lemma chain_search:
  fixes Q :: "bref \<Rightarrow> bool" and b :: int
  assumes "chains_ok N k H" "blocks_ok N D H k" "D \<noteq> NODEV"
  defines "s \<equiv> ring_find (\<lambda>r. is_block D (fsbtodb b) (bufs k r) \<and> Q r) (\<lambda>r. b_forw (bufs k r)) (BUFHASH b) (b_forw (bufs k (BUFHASH b)))"
  shows "i < N \<Longrightarrow> live (cells k (Buf i)) \<Longrightarrow> b_blkno (cells k (Buf i)) = fsbtodb b \<Longrightarrow> Q (Buf i) \<Longrightarrow> s = Some (Some (Buf i))"
    "\<forall>i < N. live (cells k (Buf i)) \<longrightarrow> b_blkno (cells k (Buf i)) = fsbtodb b \<longrightarrow> \<not> Q (Buf i) \<Longrightarrow> s = Some None"
proof -
  let ?d = "BUFHASH b"
  have d: "?d \<in> heads" by (auto simp: BUFHASH_def heads_def)
  have r: "ring (fwd k) (bck k) ?d (H ?d)" using assms(1) ringsD(1) [OF _ d] by (auto simp: chains_ok_def)
  let ?P = "\<lambda>r. is_block D (fsbtodb b) (bufs k r) \<and> Q r"
  have f: "s = Some (List.find ?P (H ?d))"
    unfolding s_def using ring_find_ok [OF r] by simp
  have mem: "\<exists>j < N. r = Buf j" if "r \<in> set (H ?d)" for r
    using that assms(1) d unfolding chains_ok_def elems_def by blast
  show "s = Some None" if n: "\<forall>i < N. live (cells k (Buf i)) \<longrightarrow> b_blkno (cells k (Buf i)) = fsbtodb b \<longrightarrow> \<not> Q (Buf i)"
    unfolding f using mem is_block_live [OF assms(3)] n by (auto simp: find_None_iff is_block_cells; metis)
  show "s = Some (Some (Buf i))"
    if i: "i < N" "live (cells k (Buf i))" "b_blkno (cells k (Buf i)) = fsbtodb b" "Q (Buf i)"
  proof -
    have c: "cell_ok D H k i" using assms(2) i(1) by (simp add: blocks_ok_def)
    then obtain b' where b': "b_blkno (cells k (Buf i)) = fsbtodb b'" "Buf i \<in> set (H (BUFHASH b'))"
      using i(2) unfolding cell_ok_def Let_def by blast
    have "Buf i \<in> set (H ?d)" using b' i(3) fsbtodb_hash by metis
    moreover have "?P (Buf i)" using c i unfolding is_block_cells cell_ok_def live_def Let_def by (simp add: is_block_def)
    ultimately have "List.find ?P (H ?d) \<noteq> None" by (auto simp: find_None_iff)
    then obtain r where r: "List.find ?P (H ?d) = Some r" by auto
    then have "r \<in> set (H ?d)" "?P r" by (auto simp: find_Some_iff)
    then obtain j where j: "r = Buf j" "j < N" using mem by blast
    have "live (cells k (Buf j))" "b_blkno (cells k (Buf j)) = fsbtodb b"
      using conjunct1 [OF \<open>?P r\<close>] is_block_live [OF assms(3)] j by (auto simp: is_block_cells)
    then have "j = i" using assms(2) i j(2) unfolding blocks_ok_def unique_def by metis
    then show ?thesis using f r j by simp
  qed
qed

lemma find_block_ok:
  assumes "chains_ok N k H" "blocks_ok N D H k" "D \<noteq> NODEV"
  shows "i < N \<Longrightarrow> live (cells k (Buf i)) \<Longrightarrow> b_blkno (cells k (Buf i)) = fsbtodb b \<Longrightarrow> find_block D b k = Some (Some (Buf i))"
    "\<forall>i < N. live (cells k (Buf i)) \<longrightarrow> b_blkno (cells k (Buf i)) \<noteq> fsbtodb b \<Longrightarrow> find_block D b k = Some None"
  using chain_search [OF assms, where b = b and Q = "\<lambda>_. True"] by (simp_all add: find_block_def Let_def)

lemma full_cells: "full (bufs k r) = full (cells k r)"
  by (simp add: full_def cell_fields)

lemma content_eq:
  assumes "chains_ok N k H" "blocks_ok N D H k" "D \<noteq> NODEV"
  shows "content D k b = content_at N k (fsbtodb b)"
proof (cases "\<exists>i < N. live (cells k (Buf i)) \<and> b_blkno (cells k (Buf i)) = fsbtodb b")
  case True
  then obtain i where i: "i < N" "live (cells k (Buf i))" "b_blkno (cells k (Buf i)) = fsbtodb b" by blast
  have "unique N k" using assms(2) by (simp add: blocks_ok_def)
  then show ?thesis using content_at_held [OF _ i(1,2)] find_block_ok(1) [OF assms i] i(3)
    by (simp add: content_def cdata_def full_cells)
next
  case False
  then have n: "\<forall>i < N. live (cells k (Buf i)) \<longrightarrow> b_blkno (cells k (Buf i)) \<noteq> fsbtodb b" by blast
  show ?thesis using content_at_free [OF n] find_block_ok(2) [OF assms n] by (simp add: content_def)
qed

section \<open>Changing one buffer\<close>

text \<open>From \<open>k\<close> to \<open>k'\<close> only buffer \<open>i\<close> changes, and on the disk only the block it held.\<close>

definition only :: "nat \<Rightarrow> 'a bio_scheme \<Rightarrow> 'a bio_scheme \<Rightarrow> bool" where
  "only i k k' \<longleftrightarrow> (\<forall>j. j \<noteq> i \<longrightarrow> cells k' (Buf j) = cells k (Buf j)) \<and> (\<forall>j. j \<noteq> i \<longrightarrow> bmem k' j = bmem k j) \<and>
     ram_size k' = ram_size k \<and> ram_base k' = ram_base k \<and>
     (\<forall>m. ram k' m \<noteq> ram k m \<longrightarrow> live (cells k (Buf i)) \<and> (m = b_blkno (cells k (Buf i)) \<or> m = b_blkno (cells k (Buf i)) + 1))"

lemma only_busy: "only i k k' \<Longrightarrow> j \<noteq> i \<Longrightarrow> busy k' j = busy k j"
  by (simp add: only_def busy_def)

lemma only_disk:
  assumes o: "only i k k'" and n: "even n" and c: "live (cells k (Buf i)) \<Longrightarrow> b_blkno (cells k (Buf i)) \<noteq> n"
    and ev: "live (cells k (Buf i)) \<Longrightarrow> even (b_blkno (cells k (Buf i)))"
  shows "disk k' n = disk k n"
proof -
  have "ram k' m = ram k m" if m: "m = n \<or> m = n + 1" for m
  proof (rule ccontr)
    assume "ram k' m \<noteq> ram k m"
    then have l: "live (cells k (Buf i))" "m = b_blkno (cells k (Buf i)) \<or> m = b_blkno (cells k (Buf i)) + 1"
      using o by (auto simp: only_def)
    show False using c [OF l(1)] ev [OF l(1)] l(2) m n by presburger
  qed
  then show ?thesis by (simp add: disk_def)
qed

lemma cell_even: "cell_ok D H k i \<Longrightarrow> live (cells k (Buf i)) \<Longrightarrow> even (b_blkno (cells k (Buf i)))"
  unfolding cell_ok_def Let_def using fsbtodb_even by metis

lemma other_data:
  assumes o: "only i k k'" and j: "j \<noteq> i" "cell_ok D H k j" "live (cells k (Buf j))"
    and c: "live (cells k (Buf i)) \<Longrightarrow> b_blkno (cells k (Buf i)) \<noteq> b_blkno (cells k (Buf j))"
    and ev: "live (cells k (Buf i)) \<Longrightarrow> even (b_blkno (cells k (Buf i)))"
  shows "get_data k' (Buf j) = get_data k (Buf j)" "disk k' (b_blkno (cells k (Buf j))) = disk k (b_blkno (cells k (Buf j)))"
proof -
  show d: "disk k' (b_blkno (cells k (Buf j))) = disk k (b_blkno (cells k (Buf j)))"
    using only_disk [OF o cell_even [OF j(2,3)] c ev] by blast
  have c: "cells k' (Buf j) = cells k (Buf j)" "bmem k' j = bmem k j" using o j(1) by (simp_all add: only_def)
  have "b_addr (cells k (Buf j)) = Ram (b_blkno (cells k (Buf j))) \<or> b_addr (cells k (Buf j)) = Own j"
    using j(2) unfolding cell_ok_def Let_def by metis
  then show "get_data k' (Buf j) = get_data k (Buf j)"
    using d c unfolding get_data_def cell_fields disk_def by auto
qed

lemma only_blocks:
  assumes b: "blocks_ok N D H k" and i: "i < N" and o: "only i k k'" and s: "sizes_ok k'"
    and H: "\<And>e j. j \<noteq> i \<Longrightarrow> Buf j \<in> set (H e) \<Longrightarrow> Buf j \<in> set (H' e)"
    and c: "cell_ok D H' k' i"
    and u: "\<And>j. live (cells k' (Buf i)) \<Longrightarrow> j < N \<Longrightarrow> j \<noteq> i \<Longrightarrow> live (cells k (Buf j)) \<Longrightarrow>
       b_blkno (cells k (Buf j)) \<noteq> b_blkno (cells k' (Buf i))"
  shows "blocks_ok N D H' k'"
proof -
  have un: "unique N k" and ok: "\<And>j. j < N \<Longrightarrow> cell_ok D H k j" using b by (simp_all add: blocks_ok_def)
  have same: "cells k' (Buf j) = cells k (Buf j)" if "j \<noteq> i" for j using o that by (simp add: only_def)
  have "cell_ok D H' k' j" if j: "j < N" for j
  proof (cases "j = i")
    case True
    then show ?thesis using c by simp
  next
    case False
    have "clean k' j = clean k j" if l: "live (cells k (Buf j))"
      using other_data [OF o False ok [OF j] l] un i j False l cell_even [OF ok [OF i]] same [OF False]
      unfolding clean_def unique_def by metis
    moreover have "in_disk k' n = in_disk k n" for n using o by (simp add: in_disk_def only_def)
    ultimately show ?thesis using ok [OF j] same [OF False] only_busy [OF o False] H [OF False]
      unfolding cell_ok_def Let_def by metis
  qed
  moreover have "unique N k'" using un u same unfolding unique_def by metis
  ultimately show ?thesis using s by (simp add: blocks_ok_def)
qed

lemma only_content:
  assumes b: "blocks_ok N D H k" and i: "i < N" and o: "only i k k'" and b': "blocks_ok N D H' k'" and n: "even n"
  shows "content_at N k' n =
    (if live (cells k' (Buf i)) \<and> b_blkno (cells k' (Buf i)) = n then cdata k' i
     else if live (cells k (Buf i)) \<and> b_blkno (cells k (Buf i)) = n then disk k' n else content_at N k n)"
proof -
  have un: "unique N k" and ok: "\<And>j. j < N \<Longrightarrow> cell_ok D H k j" using b by (simp_all add: blocks_ok_def)
  have un': "unique N k'" using b' by (simp add: blocks_ok_def)
  have same: "cells k' (Buf j) = cells k (Buf j)" if "j \<noteq> i" for j using o that by (simp add: only_def)
  let ?h = "\<lambda>k j. live (cells k (Buf j)) \<and> b_blkno (cells k (Buf j)) = n"
  consider (new) "?h k' i" | (old) "\<not> ?h k' i" "?h k i" | (other) "\<not> ?h k' i" "\<not> ?h k i" by blast
  then show ?thesis
  proof cases
    case new
    then show ?thesis using content_at_held [OF un' i] by simp
  next
    case old
    have "\<forall>j < N. live (cells k' (Buf j)) \<longrightarrow> b_blkno (cells k' (Buf j)) \<noteq> n"
      using old un same i unfolding unique_def by metis
    from content_at_free [OF this] show ?thesis using old by auto
  next
    case other
    have ev: "live (cells k (Buf i)) \<Longrightarrow> even (b_blkno (cells k (Buf i)))" by (rule cell_even [OF ok [OF i]])
    show ?thesis
    proof (cases "\<exists>j < N. ?h k j")
      case True
      then obtain j where j: "j < N" "?h k j" by blast
      then have ji: "j \<noteq> i" using other by blast
      have h': "?h k' j" using j same [OF ji] by simp
      have "live (cells k (Buf i)) \<Longrightarrow> b_blkno (cells k (Buf i)) \<noteq> b_blkno (cells k (Buf j))" using other j by auto
      note d = other_data [OF o ji ok [OF j(1)] conjunct1 [OF j(2)] this ev]
      have "cdata k' j = cdata k j" unfolding cdata_def same [OF ji] using d by simp
      moreover have "content_at N k' n = cdata k' j" using content_at_held [OF un' j(1)] h' by blast
      moreover have "content_at N k n = cdata k j" using content_at_held [OF un j(1)] j(2) by blast
      ultimately show ?thesis using other by auto
    next
      case False
      then have "\<forall>j < N. \<not> ?h k' j" using other same by metis
      then have "content_at N k' n = disk k' n" "content_at N k n = disk k n" using False content_at_free by blast+
      moreover have "disk k' n = disk k n" using only_disk [OF o n _ ev] other by blast
      ultimately show ?thesis using other by auto
    qed
  qed
qed

end
