(* ===== verification/BioOps.thy ===== *)
theory BioOps imports BioCache begin

text \<open>
  The operations of the buffer cache keep its invariant: releasing, writing and getting a buffer, on the RAM
  disk. Each lemma says which buffer and which block the operation changes.
\<close>

section \<open>Frames\<close>

definition same_mem :: "'a bio_scheme \<Rightarrow> 'a bio_scheme \<Rightarrow> bool" where
  "same_mem k k' \<longleftrightarrow> bmem k' = bmem k \<and> ram k' = ram k \<and> ram_base k' = ram_base k \<and> ram_size k' = ram_size k \<and>
     a_buf k' = a_buf k \<and> u k' = u k"

definition same_links :: "'a bio_scheme \<Rightarrow> 'a bio_scheme \<Rightarrow> bool" where
  "same_links k k' \<longleftrightarrow> fwd k' = fwd k \<and> bck k' = bck k \<and> afw k' = afw k \<and> abk k' = abk k"

definition same_cells :: "'a bio_scheme \<Rightarrow> 'a bio_scheme \<Rightarrow> bool" where
  "same_cells k k' \<longleftrightarrow> (\<forall>j. cells k' (Buf j) = cells k (Buf j))"

lemma same_memI: "rest k' = rest k \<Longrightarrow> same_mem k k'"
  using restD [of k' k] by (simp add: same_mem_def)

lemma same_trans:
  "same_mem k k' \<Longrightarrow> same_mem k' k'' \<Longrightarrow> same_mem k k''"
  "same_links k k' \<Longrightarrow> same_links k' k'' \<Longrightarrow> same_links k k''"
  "same_cells k k' \<Longrightarrow> same_cells k' k'' \<Longrightarrow> same_cells k k''"
  by (simp_all add: same_mem_def same_links_def same_cells_def)

lemma same_refl [simp]: "same_mem k k" "same_links k k" "same_cells k k"
  by (simp_all add: same_mem_def same_links_def same_cells_def)

lemma more_bio:
  assumes "kern.more (k' :: 'a bio_scheme) = kern.more k"
  shows "bufs k' = bufs k" "a_buf k' = a_buf k" "bmem k' = bmem k" "ram k' = ram k" "ram_base k' = ram_base k"
    "ram_size k' = ram_size k"
  using assms by (cases k, cases k', simp)+

lemma wakeup_u: "wakeup c k = Some k' \<Longrightarrow> u k' = u k"
  unfolding wakeup_def by (rule wakeup_at_u)

lemma wake_ok:
  assumes "sys_ok k"
  obtains k' where "wakeup (a_buf k r) k = Some k'" "sys_ok k'" "bufs k' = bufs k" "same_mem k k'"
proof -
  have a: "sched_ok k" "sleepers_ok k" "a_runout k \<noteq> 0" "\<And>r. a_buf k r \<noteq> 0" using assms by (simp_all add: sys_ok_def)
  obtain k' where k': "wakeup (a_buf k r) k = Some k'" "sched_ok k'" "sleepers_ok k'"
    "woke (if k_runout k then {a_buf k r, a_runout k} else {a_buf k r}) k k'"
    using wakeup_ok [OF a(1,2) a(4) a(3)] by metis
  note m = more_bio [OF wakeup_more [OF k'(1)]]
  have "a_runout k' = a_runout k" using k'(4) by (auto simp: woke_def same_core_def)
  then have "sys_ok k'" using k'(2,3) a m by (simp add: sys_ok_def)
  moreover have "same_mem k k'" using m wakeup_u [OF k'(1)] by (simp add: same_mem_def)
  ultimately show thesis using that k'(1) m(1) by blast
qed

lemma bufs_same: "bufs k' = bufs k \<Longrightarrow> same_links k k' \<and> same_cells k k'"
  by (simp add: same_links_def same_cells_def cells_def)

lemma maybe_wake:
  assumes "sys_ok k"
  obtains k' where "(if b then wakeup (a_buf k r) k else Some k) = Some k'" "sys_ok k'" "same_mem k k'"
    "same_links k k'" "cells k' = cells k"
proof (cases b)
  case True
  obtain k' where k': "wakeup (a_buf k r) k = Some k'" "sys_ok k'" "bufs k' = bufs k" "same_mem k k'"
    using wake_ok [OF assms] .
  have "cells k' = cells k" using k'(3) by (simp add: cells_def fun_eq_iff)
  then show ?thesis using that [of k'] k' bufs_same [OF k'(3)] True by simp
next
  case False
  then show ?thesis using that [of k] assms by simp
qed

lemma same_lists:
  assumes "same_links k k'" "same_cells k k'"
  shows "chains_ok N k' H = chains_ok N k H" "free_ok N k' F = free_ok N k F" "busy k' = busy k"
proof -
  show b: "busy k' = busy k" using assms(2) by (simp add: same_cells_def busy_def fun_eq_iff)
  show "chains_ok N k' H = chains_ok N k H" using assms(1) by (intro chains_ok_cong) (simp_all add: same_links_def)
  show "free_ok N k' F = free_ok N k F" using assms(1) b by (intro free_ok_cong) (simp_all add: same_links_def)
qed

text \<open>A change of fields other than the links.\<close>

lemma upd_field_links:
  assumes "\<And>b. b_forw (f b) = b_forw b \<and> b_back (f b) = b_back b \<and> av_forw (f b) = av_forw b \<and> av_back (f b) = av_back b"
  shows "same_links k (upd_buf r f k)"
  using assms by (simp add: same_links_def fun_eq_iff)

lemma flags_links [simp]: "same_links k (set_b b r k)" "same_links k (clr_b b r k)"
  by (simp_all add: set_b_def clr_b_def upd_field_links)

section \<open>brelse\<close>

definition released :: "buf \<Rightarrow> buf" where
  "released c = c\<lparr>b_dev := (if flag (b_flags c) B_ERROR then NODEV else b_dev c),
     b_flags := clr_flag (or B_WANTED (or B_BUSY (or B_ASYNC B_AGE))) (b_flags c)\<rparr>"

lemma brelse_run:
  assumes s: "sys_ok k" and h: "chains_ok N k H" and f: "free_ok N k F" and i: "i < N" "busy k i"
  obtains k' F' where "brelse (Buf i) k = Some k'" "sys_ok k'" "chains_ok N k' H" "free_ok N k' F'" "same_mem k k'"
    "\<And>j. j \<noteq> i \<Longrightarrow> cells k' (Buf j) = cells k (Buf j)" "cells k' (Buf i) = released (cells k (Buf i))"
proof -
  obtain k1 where k1: "(if has_b k (Buf i) B_WANTED then wakeup (a_buf k (Buf i)) k else Some k) = Some k1" "sys_ok k1"
    "same_mem k k1" "same_links k k1" "cells k1 = cells k"
    using maybe_wake [OF s] by metis
  define k1' where "k1' = (if has_b k1 (Free 0) B_WANTED then clr_b B_WANTED (Free 0) k1 else k1)"
  have r1: "rest k1' = rest k1" by (simp add: k1'_def)
  have s1: "sys_ok k1'" "same_mem k1 k1'" using restD(7) [OF r1] k1(2) same_memI [OF r1] by simp_all
  have l1: "same_links k1 k1'" "same_cells k1 k1'" by (simp_all add: k1'_def same_cells_def)
  obtain k2 where k2: "(if has_b k1 (Free 0) B_WANTED then wakeup (a_buf k1' (Free 0)) k1' else Some k1') = Some k2"
    "sys_ok k2" "same_mem k1' k2" "same_links k1' k2" "cells k2 = cells k1'"
    using maybe_wake [OF s1(1)] by metis
  have run2: "(if has_b k1 (Free 0) B_WANTED then
              (let k2 = clr_b B_WANTED (Free 0) k1 in wakeup (a_buf k2 (Free 0)) k2) else Some k1) = Some k2"
    using k2(1) unfolding k1'_def by (auto simp: Let_def split: if_splits)
  have m2: "same_mem k k2" and n2: "same_links k k2" and c2: "same_cells k k2"
    using same_trans(1) [OF k1(3) same_trans(1) [OF s1(2) k2(3)]] same_trans(2) [OF k1(4) same_trans(2) [OF l1(1) k2(4)]]
      l1(2) k1(5) k2(5) by (simp_all add: same_cells_def)
  define k3 where "k3 = (if has_b k2 (Buf i) B_ERROR then upd_buf (Buf i) (\<lambda>b. b\<lparr>b_dev := NODEV\<rparr>) k2 else k2)"
  have r3: "rest k3 = rest k2" by (simp add: k3_def)
  have n3: "same_links k2 k3" by (simp add: k3_def upd_field_links)
  have b3: "busy k3 = busy k" using same_lists(3) [OF n2 c2] by (auto simp: k3_def busy_def fun_eq_iff cells_upd cells_def)
  have f3: "free_ok N k3 F" "chains_ok N k3 H"
    using free_ok_cong [of k3 k2] chains_ok_cong [of k3 k2] n3 b3 same_lists [OF n2 c2] h f by (simp_all add: same_links_def)
  define d where "d = (if has_b k3 (Buf i) (or B_ERROR B_INVAL) \<or> has_b k3 (Buf i) B_AGE then Free 2 else Free 1)"
  define k4 where "k4 = (if has_b k3 (Buf i) (or B_ERROR B_INVAL) then binsheadfree (Buf i) (Free 2) k3
               else binstailfree (Buf i) (if has_b k3 (Buf i) B_AGE then Free 2 else Free 1) k3)"
  define k5 where "k5 = clr_b (or B_WANTED (or B_BUSY (or B_ASYNC B_AGE))) (Buf i) k4"
  have run: "brelse (Buf i) k = Some k5"
    unfolding brelse_def using k1(1) run2 by (simp add: Let_def k5_def k4_def k3_def)
  have c4: "cells k4 = cells k3" by (simp add: k4_def)
  have r5: "rest k5 = rest k3" by (simp add: k5_def k4_def)
  have n5: "fwd k5 = fwd k3" "bck k5 = bck k3" by (simp_all add: k5_def k4_def)
  have c5: "cells k5 = (cells k3)(Buf i := (cells k3 (Buf i))\<lparr>b_flags :=
      clr_flag (or B_WANTED (or B_BUSY (or B_ASYNC B_AGE))) (b_flags (cells k3 (Buf i)))\<rparr>)"
    unfolding k5_def cells_set c4 ..
  have b5: "busy k5 j = (j \<noteq> i \<and> busy k3 j)" for j by (simp add: busy_def c5 fl)
  have k4': "k4 = binsheadfree (Buf i) d k3 \<or> k4 = binstailfree (Buf i) d k3" by (simp add: k4_def d_def)
  have a5: "afw k5 = afw k4" "abk k5 = abk k4" by (simp_all add: k5_def)
  have "\<exists>F'. free_ok N k5 F'"
    by (rule putfree_ok [OF f3(1) i(1) _ _ k4' a5]) (use b5 b3 i(2) in \<open>simp_all add: d_def\<close>)
  then obtain F' where F': "free_ok N k5 F'" by blast
  have "sys_ok k5" using restD(7) [OF r5] restD(7) [OF r3] k2(2) by simp
  moreover have "chains_ok N k5 H" using f3(2) chains_ok_cong [OF n5] by simp
  moreover have "same_mem k k5" using same_trans(1) [OF m2 same_memI] r5 r3 by metis
  moreover have "cells k5 (Buf j) = cells k (Buf j)" if "j \<noteq> i" for j
    using c2 that unfolding c5 by (simp add: k3_def cells_upd same_cells_def)
  moreover have "cells k5 (Buf i) = released (cells k (Buf i))"
  proof -
    have "cells k2 (Buf i) = cells k (Buf i)" using c2 by (simp add: same_cells_def)
    moreover have "cells k3 (Buf i) = (if flag (b_flags (cells k2 (Buf i))) B_ERROR then (cells k2 (Buf i))\<lparr>b_dev := NODEV\<rparr> else cells k2 (Buf i))"
      by (simp add: k3_def cells_upd cell_fields) (simp add: cells_def)
    ultimately show ?thesis unfolding c5 released_def by simp
  qed
  ultimately show thesis using that run F' by blast
qed

lemma released_simps [simp]:
  "b_flags (released c) = clr_flag (or B_WANTED (or B_BUSY (or B_ASYNC B_AGE))) (b_flags c)"
  "b_blkno (released c) = b_blkno c" "b_addr (released c) = b_addr c" "b_error (released c) = b_error c" "b_resid (released c) = b_resid c"
  "b_dev (released c) = (if flag (b_flags c) B_ERROR then NODEV else b_dev c)"
  by (simp_all add: released_def)

lemma released_state:
  "full (released c) = full c" "live (released c) \<longleftrightarrow> live c \<and> \<not> flag (b_flags c) B_ERROR"
  "flag (b_flags (released c)) B_DELWRI = flag (b_flags c) B_DELWRI"
  "flag (b_flags (released c)) B_RAMREMAP = flag (b_flags c) B_RAMREMAP"
  "flag (b_flags (released c)) B_ERROR = flag (b_flags c) B_ERROR" "\<not> flag (b_flags (released c)) B_BUSY"
  "\<not> flag (b_flags (released c)) B_ASYNC"
  by (auto simp: full_def live_def fl)

lemma get_data_same:
  "same_mem k k' \<Longrightarrow> b_addr (cells k' (Buf i)) = b_addr (cells k (Buf i)) \<Longrightarrow> get_data k' (Buf i) = get_data k (Buf i)"
  by (simp add: get_data_def same_mem_def cell_fields split: baddr.splits)

lemma disk_same: "same_mem k k' \<Longrightarrow> disk k' n = disk k n" "same_mem k k' \<Longrightarrow> in_disk k' n = in_disk k n"
  "same_mem k k' \<Longrightarrow> sizes_ok k' = sizes_ok k"
  by (simp_all add: disk_def same_mem_def in_disk_def sizes_ok_def)

lemma only_same: "same_mem k k' \<Longrightarrow> (\<And>j. j \<noteq> i \<Longrightarrow> cells k' (Buf j) = cells k (Buf j)) \<Longrightarrow> only i k k'"
  by (simp add: only_def same_mem_def)

lemma cache_okD:
  assumes "cache_ok N D k"
  obtains H F where "sys_ok k" "D \<noteq> NODEV" "chains_ok N k H" "free_ok N k F" "blocks_ok N D H k" "unique N k" "sizes_ok k"
    "\<And>i. i < N \<Longrightarrow> cell_ok D H k i"
  using assms unfolding cache_ok_def blocks_ok_def by blast

lemma brelse_ok:
  assumes c: "cache_ok N D k" and i: "i < N" "busy k i"
    and coh: "live (cells k (Buf i)) \<and> full (cells k (Buf i)) \<and> \<not> flag (b_flags (cells k (Buf i))) B_DELWRI \<longrightarrow> clean k i"
  obtains k' where "brelse (Buf i) k = Some k'" "cache_ok N D k'" "same_mem k k'" "\<not> busy k' i"
    "\<And>j. j \<noteq> i \<Longrightarrow> cells k' (Buf j) = cells k (Buf j)" "cells k' (Buf i) = released (cells k (Buf i))"
    "\<And>n. even n \<Longrightarrow> content_at N k' n = content_at N k n"
proof -
  obtain H F where k: "sys_ok k" "D \<noteq> NODEV" "chains_ok N k H" "free_ok N k F" "blocks_ok N D H k" "unique N k" "sizes_ok k"
    "\<And>i. i < N \<Longrightarrow> cell_ok D H k i" using cache_okD [OF c] by blast
  obtain k' F' where k': "brelse (Buf i) k = Some k'" "sys_ok k'" "chains_ok N k' H" "free_ok N k' F'" "same_mem k k'"
    "\<And>j. j \<noteq> i \<Longrightarrow> cells k' (Buf j) = cells k (Buf j)" and ci: "cells k' (Buf i) = released (cells k (Buf i))"
    using brelse_run [OF k(1,3,4) i] by metis
  have o: "only i k k'" using only_same [OF k'(5)] k'(6) by blast
  have g: "get_data k' (Buf i) = get_data k (Buf i)" using get_data_same [OF k'(5)] ci by simp
  have cl: "clean k' i = clean k i" unfolding clean_def g ci using disk_same(1) [OF k'(5)] by simp
  have b: "busy k i" "\<not> busy k' i" using i(2) by (simp_all add: busy_def ci fl)
  have ok: "cell_ok D H k i" by (rule k(8) [OF i(1)])
  have ok': "cell_ok D H k' i"
    unfolding cell_ok_def Let_def ci released_state disk_same(2) [OF k'(5)] cl
    using ok coh b(2) unfolding cell_ok_def Let_def full_def by (cases "flag (b_flags (cells k (Buf i))) B_ERROR") (simp_all add: fl_clr)
  have bl: "blocks_ok N D H k'"
    by (rule only_blocks [OF k(5) i(1) o _ _ ok'])
      (use disk_same(3) [OF k'(5)] k(6,7) i ci in \<open>auto simp: released_state unique_def\<close>)
  have cache: "cache_ok N D k'" unfolding cache_ok_def using k'(2-4) k(2) bl by blast
  have "content_at N k' n = content_at N k n" if n: "even n" for n
  proof -
    have d: "cdata k' i = cdata k i" unfolding cdata_def ci released_state g using disk_same(1) [OF k'(5)] by simp
    have "live (cells k (Buf i)) \<Longrightarrow> content_at N k (b_blkno (cells k (Buf i))) = cdata k i"
      by (rule content_at_held [OF k(6) i(1)])
    moreover have "flag (b_flags (cells k (Buf i))) B_ERROR \<Longrightarrow> cdata k i = disk k' (b_blkno (cells k (Buf i)))"
      unfolding cdata_def full_def using disk_same(1) [OF k'(5)] by simp
    ultimately show ?thesis unfolding only_content [OF k(5) i(1) o bl n] ci released_state released_simps d by auto
  qed
  then show thesis using that [OF k'(1) cache k'(5) b(2)] k'(6) ci by blast
qed

section \<open>bwrite\<close>

text \<open>The state in which the RAM disk's transfer of a write has been done, with the buffer still busy.\<close>

definition written :: "'a bio_scheme \<Rightarrow> 'a bio_scheme \<Rightarrow> nat \<Rightarrow> bool" where
  "written k k' i \<longleftrightarrow> (\<forall>j. j \<noteq> i \<longrightarrow> cells k' (Buf j) = cells k (Buf j)) \<and>
     cells k' (Buf i) = (cells k (Buf i))\<lparr>
        b_flags := set_flag B_DONE (clr_flag (or B_READ (or B_DONE (or B_ERROR B_DELWRI))) (b_flags (cells k (Buf i)))),
        b_bcount := DEV_BSIZE\<rparr> \<and>
     bmem k' = bmem k \<and> ram_size k' = ram_size k \<and> ram_base k' = ram_base k \<and> a_buf k' = a_buf k \<and>
     ram k' = (ram k)(b_blkno (cells k (Buf i)) := take 256 (get_data k (Buf i)),
        b_blkno (cells k (Buf i)) + 1 := drop 256 (get_data k (Buf i))) \<and>
     u_error (u k') = u_error (u k)"

lemma rams_lists:
  "sys_ok (ramstart bp k) = sys_ok k" "bufs (ramstart bp k) = bufs k" "bmem (ramstart bp k) = bmem k"
  "ram_size (ramstart bp k) = ram_size k" "ram_base (ramstart bp k) = ram_base k" "a_buf (ramstart bp k) = a_buf k"
  "u (ramstart bp k) = u k"
  by (simp_all add: ramstart_def Let_def sys_ok_def sched_ok_def queues_def sleepers_ok_def)

lemma write_transfer:
  assumes c: "cache_ok N D k" and i: "i < N" and dk: "in_disk k (b_blkno (cells k (Buf i)))"
    and k1: "k1 = clr_b (or B_READ (or B_DONE (or B_ERROR B_DELWRI))) (Buf i) k"
    and k2: "k2 = (if b then k1 else count_out k1)"
    and k3: "k3 = set_b B_DONE (Buf i) (ram_transfer (Buf i) (upd_buf (Buf i) (\<lambda>b. b\<lparr>b_bcount := DEV_BSIZE\<rparr>) k2))"
  shows "written k k3 i" "sys_ok k3" "same_links k k3"
    "b_flags (cells (ram_transfer (Buf i) (upd_buf (Buf i) (\<lambda>b. b\<lparr>b_bcount := DEV_BSIZE\<rparr>) k2)) (Buf i)) =
       clr_flag (or B_READ (or B_DONE (or B_ERROR B_DELWRI))) (b_flags (cells k (Buf i)))"
proof -
  obtain H where k: "sys_ok k" "sizes_ok k" "cell_ok D H k i" using cache_okD [OF c] i by metis
  define kb where "kb = upd_buf (Buf i) (\<lambda>b. b\<lparr>b_bcount := DEV_BSIZE\<rparr>) k2"
  have k2': "bufs k2 = bufs k1" "sys_ok k2 = sys_ok k1" "bmem k2 = bmem k1" "ram k2 = ram k1" "ram_base k2 = ram_base k1"
    "ram_size k2 = ram_size k1" "a_buf k2 = a_buf k1" "u_error (u k2) = u_error (u k1)"
    by (simp_all add: k2 count_out_def upd_u_def sys_ok_def sched_ok_def queues_def sleepers_ok_def)
  have r1: "rest k1 = rest k" by (simp add: k1)
  note r1 = restD [OF r1]
  have cb: "cells kb = (cells k)(Buf i := (cells k (Buf i))\<lparr>
      b_flags := clr_flag (or B_READ (or B_DONE (or B_ERROR B_DELWRI))) (b_flags (cells k (Buf i))), b_bcount := DEV_BSIZE\<rparr>)"
  proof -
    have "cells k2 = cells k1" using k2'(1) by (simp add: cells_def fun_eq_iff)
    then show ?thesis unfolding kb_def by (simp add: cells_upd k1 cells_def [of k2, symmetric])
  qed
  have mb: "sys_ok kb" "bmem kb = bmem k" "ram kb = ram k" "ram_base kb = ram_base k" "ram_size kb = ram_size k"
    "a_buf kb = a_buf k" "u_error (u kb) = u_error (u k)"
    using r1 k2' k(1) by (simp_all add: kb_def sys_ok_def)
  have lb: "same_links k kb"
    using k2'(1) flags_links(2) [of k] upd_field_links [of "\<lambda>b. b\<lparr>b_bcount := DEV_BSIZE\<rparr>" k2]
    unfolding kb_def k1 same_links_def by simp
  have base: "ram_base k \<noteq> 0" using k(2) by (simp add: sizes_ok_def)
  have rd: "\<not> flag (b_flags (cells kb (Buf i))) B_READ" by (simp add: cb fl)
  have inr: "\<not> (b_blkno (cells k (Buf i)) < 0 \<or> b_blkno (cells k (Buf i)) + 2 > uint (ram_size k))"
    using dk by (simp add: in_disk_def)
  have g: "get_data kb (Buf i) = get_data k (Buf i)" using mb by (simp add: get_data_def cell_fields cb split: baddr.splits)
  have fb: "has_b kb (Buf i) B_RAMREMAP = flag (b_flags (cells k (Buf i))) B_RAMREMAP" by (simp add: cell_fields cb fl)
  have nz: "uint (b_bcount (cells kb (Buf i)) + 511) div 512 = 2" "b_bcount (cells kb (Buf i)) \<noteq> 0" by (simp_all add: cb)
  define kt where "kt = ram_transfer (Buf i) kb"
  have kt: "kt = (if has_b kb (Buf i) B_RAMREMAP then kb else ramstart (Buf i) kb)"
    unfolding kt_def ram_transfer_def Let_def using base inr rd mb nz by (simp add: cell_fields cb)
  have ramt: "ram kt = (ram k)(b_blkno (cells k (Buf i)) := take 256 (get_data k (Buf i)),
        b_blkno (cells k (Buf i)) + 1 := drop 256 (get_data k (Buf i)))"
  proof (cases "has_b kb (Buf i) B_RAMREMAP")
    case True
    then have "get_data k (Buf i) = ram k (b_blkno (cells k (Buf i))) @ ram k (b_blkno (cells k (Buf i)) + 1)"
      using k(3) fb by (simp add: cell_ok_def Let_def get_data_def cell_fields)
    moreover have "length (ram k n) = 256" for n using k(2) by (simp add: sizes_ok_def)
    ultimately show ?thesis using True mb by (simp add: kt)
  next
    case False
    then show ?thesis using nz(2) mb g by (simp add: kt ramstart_def Let_def cell_fields) (simp add: cb)
  qed
  have k3': "k3 = set_b B_DONE (Buf i) kt" by (simp add: k3 kt_def kb_def)
  have ct: "cells kt = cells kb" by (simp add: kt cells_def rams_lists fun_eq_iff)
  have r3: "rest k3 = rest kt" by (simp add: k3')
  note r3 = restD [OF r3]
  show "written k k3 i"
    unfolding written_def k3' cells_set ct cb using ramt mb r3 by (simp add: k3' [symmetric]) (simp add: kt rams_lists)
  show "sys_ok k3" using r3(7) mb(1) by (simp add: kt rams_lists)
  show "b_flags (cells (ram_transfer (Buf i) (upd_buf (Buf i) (\<lambda>b. b\<lparr>b_bcount := DEV_BSIZE\<rparr>) k2)) (Buf i)) =
       clr_flag (or B_READ (or B_DONE (or B_ERROR B_DELWRI))) (b_flags (cells k (Buf i)))"
    using ct cb unfolding kt_def kb_def by simp
  show "same_links k k3"
    using lb unfolding k3' kt same_links_def by (simp add: rams_lists)
qed

lemma split_256: "length (ram k n) = 256 \<Longrightarrow> length (ram k (n + 1)) = 256 \<Longrightarrow>
    take 256 (ram k n @ ram k (n + 1)) = ram k n \<and> drop 256 (ram k n @ ram k (n + 1)) = ram k (n + 1)"
  by simp

lemma data_length:
  assumes "cell_ok D H k i" "sizes_ok k"
  shows "length (get_data k (Buf i)) = 512"
proof -
  have "b_addr (cells k (Buf i)) = Ram (b_blkno (cells k (Buf i))) \<or> b_addr (cells k (Buf i)) = Own i"
    using assms(1) unfolding cell_ok_def Let_def by metis
  then show ?thesis using assms(2) unfolding get_data_def cell_fields sizes_ok_def by auto
qed

lemma written_ok:
  assumes c: "cache_ok N D k" and i: "i < N" "busy k i" and l: "live (cells k (Buf i))"
    and dk: "in_disk k (b_blkno (cells k (Buf i)))"
    and w: "written k k' i" "sys_ok k'" "same_links k k'"
  shows "cache_ok N D k'" "busy k' i" "clean k' i" "live (cells k' (Buf i))" "full (cells k' (Buf i))"
    "\<not> flag (b_flags (cells k' (Buf i))) B_DELWRI"
    "\<And>n. even n \<Longrightarrow> content_at N k' n = (if n = b_blkno (cells k (Buf i)) then get_data k (Buf i) else content_at N k n)"
proof -
  obtain H F where k: "D \<noteq> NODEV" "chains_ok N k H" "free_ok N k F" "blocks_ok N D H k" "unique N k" "sizes_ok k"
    "cell_ok D H k i" using cache_okD [OF c] i(1) by metis
  let ?c = "cells k (Buf i)"
  have c': "cells k' (Buf i) = ?c\<lparr>
        b_flags := set_flag B_DONE (clr_flag (or B_READ (or B_DONE (or B_ERROR B_DELWRI))) (b_flags ?c)),
        b_bcount := DEV_BSIZE\<rparr>" and m: "bmem k' = bmem k" "ram_size k' = ram_size k"
    and r: "ram k' = (ram k)(b_blkno ?c := take 256 (get_data k (Buf i)), b_blkno ?c + 1 := drop 256 (get_data k (Buf i)))"
    using w(1) by (simp_all add: written_def)
  have o: "only i k k'" using w(1) l by (auto simp: only_def written_def)
  have len: "length (get_data k (Buf i)) = 512" by (rule data_length [OF k(7,6)])
  have d: "disk k' (b_blkno ?c) = get_data k (Buf i)" by (simp add: disk_def r)
  have a: "b_addr ?c = Ram (b_blkno ?c) \<or> b_addr ?c = Own i" using k(7) unfolding cell_ok_def Let_def by metis
  have g: "get_data k' (Buf i) = get_data k (Buf i)"
    using a
  proof
    assume "b_addr ?c = Ram (b_blkno ?c)"
    then show ?thesis using d by (simp add: get_data_def cell_fields c' disk_def)
  next
    assume "b_addr ?c = Own i"
    then show ?thesis by (simp add: get_data_def cell_fields c' m)
  qed
  show cl: "clean k' i" by (simp add: clean_def c' g d)
  show l': "live (cells k' (Buf i))" using l by (simp add: live_def c' fl)
  show f': "full (cells k' (Buf i))" by (simp add: full_def c' fl)
  show nd: "\<not> flag (b_flags (cells k' (Buf i))) B_DELWRI" by (simp add: c' fl)
  show b': "busy k' i" using i(2) by (simp add: busy_def c' fl)
  have bu: "busy k' j = busy k j" for j using only_busy [OF o] i(2) b' by (cases "j = i") simp_all
  have s': "sizes_ok k'" using k(6) len w(1) by (auto simp: sizes_ok_def written_def)
  have rm: "flag (b_flags (cells k' (Buf i))) B_RAMREMAP = flag (b_flags ?c) B_RAMREMAP"
    "b_dev (cells k' (Buf i)) = b_dev ?c" "b_blkno (cells k' (Buf i)) = b_blkno ?c" "b_addr (cells k' (Buf i)) = b_addr ?c"
    "b_resid (cells k' (Buf i)) = b_resid ?c"
    by (simp_all add: c' fl)
  have dk': "in_disk k' n = in_disk k n" for n by (simp add: in_disk_def m)
  have ok': "cell_ok D H k' i"
    unfolding cell_ok_def Let_def rm dk' using k(7) l l' f' nd dk b' unfolding cell_ok_def Let_def by simp
  have bl: "blocks_ok N D H k'"
    by (rule only_blocks [OF k(4) i(1) o s' _ ok']) (use k(5) l i(1) rm(3) in \<open>auto simp: unique_def\<close>)
  have "chains_ok N k' H" using k(2) chains_ok_cong [of k' k] w(3) by (simp add: same_links_def)
  moreover have "free_ok N k' F" using k(3) free_ok_cong [of k' k] w(3) bu by (simp add: same_links_def)
  ultimately show "cache_ok N D k'" unfolding cache_ok_def using w(2) k(1) bl by blast
  show "content_at N k' n = (if n = b_blkno ?c then get_data k (Buf i) else content_at N k n)" if n: "even n" for n
    unfolding only_content [OF k(4) i(1) o bl n] rm using l l' by (simp add: cdata_def f' g)
qed

text \<open>Changes of a buffer that do not matter for the invariant.\<close>

definition alike :: "buf \<Rightarrow> buf \<Rightarrow> bool" where
  "alike c c' \<longleftrightarrow> b_dev c' = b_dev c \<and> b_blkno c' = b_blkno c \<and> b_addr c' = b_addr c \<and> b_resid c' = b_resid c \<and>
     (flag (b_flags c) B_BUSY \<or> flag (b_flags c') B_ASYNC = flag (b_flags c) B_ASYNC) \<and>
     (\<forall>f \<in> {B_INVAL, B_DONE, B_ERROR, B_DELWRI, B_BUSY, B_RAMREMAP}. flag (b_flags c') f = flag (b_flags c) f)"

lemma alike_ok:
  assumes c: "cache_ok N D k" and i: "i < N" and m: "same_mem k k'" "same_links k k'" "sys_ok k'"
    and o: "\<forall>j. j \<noteq> i \<longrightarrow> cells k' (Buf j) = cells k (Buf j)" and a: "alike (cells k (Buf i)) (cells k' (Buf i))"
  shows "cache_ok N D k'" "busy k' j = busy k j" "\<And>n. even n \<Longrightarrow> content_at N k' n = content_at N k n" "clean k' i = clean k i"
proof -
  obtain H F where k: "D \<noteq> NODEV" "chains_ok N k H" "free_ok N k F" "blocks_ok N D H k" "unique N k" "sizes_ok k"
    "cell_ok D H k i" using cache_okD [OF c] i(1) by metis
  let ?c = "cells k (Buf i)" and ?c' = "cells k' (Buf i)"
  have oo: "only i k k'" using only_same [OF m(1)] o by blast
  have l: "live ?c' = live ?c" "full ?c' = full ?c" "b_blkno ?c' = b_blkno ?c" using a by (simp_all add: alike_def live_def full_def)
  have bi: "busy k' i = busy k i" using a by (simp add: alike_def busy_def)
  show b: "busy k' j = busy k j" for j using only_busy [OF oo] bi by (cases "j = i") simp_all
  have g: "get_data k' (Buf i) = get_data k (Buf i)" using get_data_same [OF m(1)] a by (simp add: alike_def)
  show cl: "clean k' i = clean k i" by (simp add: clean_def g l disk_same(1) [OF m(1)])
  have a': "b_resid ?c' = b_resid ?c" "b_dev ?c' = b_dev ?c" "b_addr ?c' = b_addr ?c" "flag (b_flags ?c') B_DELWRI = flag (b_flags ?c) B_DELWRI"
    "flag (b_flags ?c') B_ERROR = flag (b_flags ?c) B_ERROR" "flag (b_flags ?c') B_RAMREMAP = flag (b_flags ?c) B_RAMREMAP"
    using a by (simp_all add: alike_def)
  have as: "\<not> busy k i \<Longrightarrow> flag (b_flags ?c') B_ASYNC = flag (b_flags ?c) B_ASYNC"
    using a by (auto simp: alike_def busy_def)
  have ok': "cell_ok D H k' i"
    using k(7) as unfolding cell_ok_def Let_def l bi cl disk_same(2) [OF m(1)] a' by auto
  have bl: "blocks_ok N D H k'"
    by (rule only_blocks [OF k(4) i oo _ _ ok']) (use disk_same(3) [OF m(1)] k(5,6) i l in \<open>auto simp: unique_def\<close>)
  have "chains_ok N k' H" using k(2) chains_ok_cong [of k' k] m(2) by (simp add: same_links_def)
  moreover have "free_ok N k' F" using k(3) free_ok_cong [of k' k] m(2) b by (simp add: same_links_def)
  ultimately show "cache_ok N D k'" unfolding cache_ok_def using m(3) k(1) bl by blast
  show "content_at N k' n = content_at N k n" if n: "even n" for n
  proof -
    have "cdata k' i = cdata k i" by (simp add: cdata_def l g disk_same(1) [OF m(1)])
    then show ?thesis unfolding only_content [OF k(4) i(1) oo bl n] l using content_at_held [OF k(5) i] by auto
  qed
qed

lemma set_error_same: "u_error (u k) = e \<Longrightarrow> set_error e k = k"
  by (cases "u k"; cases k) (simp add: set_error_def upd_u_def)

lemma wait_done:
  assumes "flag (b_flags (cells k bp)) B_DONE" "\<not> flag (b_flags (cells k bp)) B_ERROR"
  shows "biowait bp k = (Got bp, k)"
  using assms set_error_same [of k NOERR] by (simp add: biowait_def geterror_def cell_fields)

text \<open>What an operation on buffer \<open>i\<close> leaves alone.\<close>

definition beside :: "nat \<Rightarrow> 'a bio_scheme \<Rightarrow> 'a bio_scheme \<Rightarrow> bool" where
  "beside i k k' \<longleftrightarrow> (\<forall>j. j \<noteq> i \<longrightarrow> cells k' (Buf j) = cells k (Buf j)) \<and> bmem k' = bmem k \<and> ram_size k' = ram_size k \<and>
     u_error (u k') = u_error (u k)"

lemma biodone_step:
  assumes "\<not> has_b k bp B_DONE" "k3 = set_b B_DONE bp k"
  shows "biodone bp k = (if has_b k bp B_ASYNC then brelse bp k3 else wakeup (a_buf k bp) (clr_b B_WANTED bp k3))"
  using assms by (simp add: biodone_def Let_def cell_fields fl) (simp add: clr_b_def set_b_def)

lemma bwrite_ok:
  assumes c: "cache_ok N D k" and i: "i < N" "busy k i" and l: "live (cells k (Buf i))"
    and dk: "in_disk k (b_blkno (cells k (Buf i)))"
  obtains k' where "bwrite ramstrategy (Buf i) k = Some (Got (Buf i), k')" "cache_ok N D k'" "beside i k k'"
    "\<not> busy k' i" "\<not> flag (b_flags (cells k' (Buf i))) B_DELWRI" "b_blkno (cells k' (Buf i)) = b_blkno (cells k (Buf i))"
    "\<And>n. even n \<Longrightarrow> content_at N k' n = (if n = b_blkno (cells k (Buf i)) then get_data k (Buf i) else content_at N k n)"
proof -
  let ?f = "b_flags (bufs k (Buf i))"
  define k1 where "k1 = clr_b (or B_READ (or B_DONE (or B_ERROR B_DELWRI))) (Buf i) k"
  define k2 where "k2 = (if flag ?f B_DELWRI then k1 else count_out k1)"
  define kt where "kt = ram_transfer (Buf i) (upd_buf (Buf i) (\<lambda>b. b\<lparr>b_bcount := DEV_BSIZE\<rparr>) k2)"
  define k3 where "k3 = set_b B_DONE (Buf i) kt"
  note w = write_transfer [OF c i(1) dk k1_def k2_def k3_def [unfolded kt_def]]
  note wo = written_ok [OF c i l dk w(1,2,3)]
  have c3: "cells k3 (Buf i) = (cells k (Buf i))\<lparr>
        b_flags := set_flag B_DONE (clr_flag (or B_READ (or B_DONE (or B_ERROR B_DELWRI))) (b_flags (cells k (Buf i)))),
        b_bcount := DEV_BSIZE\<rparr>" and bk: "beside i k k3"
    using w(1) by (simp_all add: written_def beside_def)
  have ft: "b_flags (bufs kt (Buf i)) = clr_flag (or B_READ (or B_DONE (or B_ERROR B_DELWRI))) ?f"
    using w(4) by (simp add: kt_def cell_fields)
  have nd: "\<not> has_b kt (Buf i) B_DONE" and as: "has_b kt (Buf i) B_ASYNC = flag ?f B_ASYNC" unfolding ft by (simp_all add: fl)
  have fl2: "b_flags (bufs k (Buf i)) = b_flags (cells k (Buf i))" by (simp add: cell_fields)
  have strat: "ramstrategy (Buf i) (upd_buf (Buf i) (\<lambda>b. b\<lparr>b_bcount := DEV_BSIZE\<rparr>) k2) =
    (if flag ?f B_ASYNC then brelse (Buf i) k3 else wakeup (a_buf kt (Buf i)) (clr_b B_WANTED (Buf i) k3))"
    unfolding ramstrategy_def kt_def [symmetric] using biodone_step [OF nd k3_def] as by simp
  have run: "bwrite ramstrategy (Buf i) k = Option.bind (ramstrategy (Buf i) (upd_buf (Buf i) (\<lambda>b. b\<lparr>b_bcount := DEV_BSIZE\<rparr>) k2))
     (\<lambda>k3. if \<not> flag ?f B_ASYNC then
       (case biowait (Buf i) k3 of (Sleeps c p, k4) \<Rightarrow> Some (Sleeps c p, k4)
        | (Got _, k4) \<Rightarrow> map_option (\<lambda>k5. (Got (Buf i), k5)) (brelse (Buf i) k4))
     else Some (Got (Buf i), if flag ?f B_DELWRI then set_b B_AGE (Buf i) k3 else k3))"
    unfolding bwrite_def Let_def k2_def k1_def by (cases "flag ?f B_DELWRI") simp_all
  show thesis
  proof (cases "flag ?f B_ASYNC")
    case True
    obtain k4 where k4: "brelse (Buf i) k3 = Some k4" "cache_ok N D k4" "same_mem k3 k4" "\<not> busy k4 i"
      "\<And>j. j \<noteq> i \<Longrightarrow> cells k4 (Buf j) = cells k3 (Buf j)" "cells k4 (Buf i) = released (cells k3 (Buf i))"
      "\<And>n. even n \<Longrightarrow> content_at N k4 n = content_at N k3 n"
      using brelse_ok [OF wo(1) i(1) wo(2)] wo(3) by metis
    have d4: "\<not> flag (b_flags (cells k4 (Buf i))) B_DELWRI" using wo(6) k4(6) released_state(3) by simp
    have bk4: "beside i k k4" using bk k4(3,5) by (simp add: beside_def same_mem_def)
    define k5 where "k5 = (if flag ?f B_DELWRI then set_b B_AGE (Buf i) k4 else k4)"
    have r5: "rest k5 = rest k4" by (simp add: k5_def)
    have al: "alike (cells k4 (Buf i)) (cells k5 (Buf i))" by (simp add: k5_def alike_def fl)
    have o5: "\<forall>j. j \<noteq> i \<longrightarrow> cells k5 (Buf j) = cells k4 (Buf j)" by (simp add: k5_def)
    have l5: "same_links k4 k5" by (simp add: k5_def)
    have s5: "sys_ok k5" using restD(7) [OF r5] k4(2) by (simp add: cache_ok_def)
    note a5 = alike_ok [OF k4(2) i(1) same_memI [OF r5] l5 s5 o5 al]
    have "bwrite ramstrategy (Buf i) k = Some (Got (Buf i), k5)" unfolding run strat using True k4(1) by (simp add: k5_def)
    moreover have "beside i k k5" using bk4 o5 restD [OF r5] by (simp add: beside_def)
    moreover have "\<not> flag (b_flags (cells k5 (Buf i))) B_DELWRI" using al d4 by (simp add: alike_def)
    moreover have "b_blkno (cells k5 (Buf i)) = b_blkno (cells k (Buf i))" using al k4(6) c3 by (simp add: alike_def)
    ultimately show thesis using that [of k5] a5 k4(4,7) wo(7) by metis
  next
    case False
    define kw where "kw = clr_b B_WANTED (Buf i) k3"
    have rw: "rest kw = rest k3" by (simp add: kw_def)
    have lw: "same_links k3 kw" by (simp add: kw_def)
    have "sys_ok kw" using restD(7) [OF rw] w(2) by simp
    then obtain kx where kx: "wakeup (a_buf kw (Buf i)) kw = Some kx" "sys_ok kx" "bufs kx = bufs kw" "same_mem kw kx"
      using wake_ok by metis
    have mx: "same_mem k3 kx" using same_trans(1) [OF same_memI [OF rw] kx(4)] .
    have lx: "same_links k3 kx" using same_trans(2) [OF lw] bufs_same [OF kx(3)] by blast
    have cx: "cells kx = cells kw" using kx(3) by (simp add: cells_def fun_eq_iff)
    have ox: "\<forall>j. j \<noteq> i \<longrightarrow> cells kx (Buf j) = cells k3 (Buf j)" by (simp add: cx kw_def)
    have alx: "alike (cells k3 (Buf i)) (cells kx (Buf i))" by (simp add: cx kw_def alike_def fl)
    note ax = alike_ok [OF wo(1) i(1) mx lx kx(2) ox alx]
    have fx: "flag (b_flags (cells kx (Buf i))) B_DONE" "\<not> flag (b_flags (cells kx (Buf i))) B_ERROR"
      "\<not> flag (b_flags (cells kx (Buf i))) B_DELWRI"
      using alx wo(5,6) by (simp_all add: alike_def full_def)
    obtain k4 where k4: "brelse (Buf i) kx = Some k4" "cache_ok N D k4" "same_mem kx k4" "\<not> busy k4 i"
      "\<And>j. j \<noteq> i \<Longrightarrow> cells k4 (Buf j) = cells kx (Buf j)" "cells k4 (Buf i) = released (cells kx (Buf i))"
      "\<And>n. even n \<Longrightarrow> content_at N k4 n = content_at N kx n"
      using brelse_ok [OF ax(1) i(1)] ax(2,4) wo(2,3) by metis
    have aw: "a_buf kt = a_buf kw" unfolding kw_def k3_def by (simp add: clr_b_def set_b_def)
    have "bwrite ramstrategy (Buf i) k = Some (Got (Buf i), k4)"
      unfolding run strat kw_def [symmetric] using False kx(1) aw wait_done [OF fx(1,2)] k4(1) by simp
    moreover have "beside i k k4" using bk ox k4(3,5) mx by (simp add: beside_def same_mem_def)
    moreover have "\<not> flag (b_flags (cells k4 (Buf i))) B_DELWRI" using fx(3) k4(6) released_state(3) by simp
    moreover have "b_blkno (cells k4 (Buf i)) = b_blkno (cells k (Buf i))" using alx k4(6) c3 by (simp add: alike_def)
    ultimately show thesis using that [of k4] k4(2,4,7) ax(3) wo(7) by metis
  qed
qed

end
