(* ===== verification/BioGet.thy ===== *)
theory BioGet imports BioOps begin

text \<open>
  Getting a buffer: \<open>getnewbuf\<close> ends, whatever delayed writes it meets, \<open>getblk\<close> returns the one buffer
  of the block, \<open>bread\<close> with the contents of the block in it.
\<close>

section \<open>Taking a buffer off the free lists\<close>

lemma notavail_cache:
  assumes c: "cache_ok N D k" and i: "i < N" "\<not> busy k i"
  defines "k' \<equiv> notavail (Buf i) k"
  shows "cache_ok N D k'" "busy k' j = (j = i \<or> busy k j)" "same_mem k k'" "clean k' i = clean k i"
    "cells k' = (cells k)(Buf i := (cells k (Buf i))\<lparr>b_flags := set_flag B_BUSY (b_flags (cells k (Buf i)))\<rparr>)"
    "\<And>n. even n \<Longrightarrow> content_at N k' n = content_at N k n"
proof -
  obtain H F where k: "D \<noteq> NODEV" "chains_ok N k H" "free_ok N k F" "blocks_ok N D H k" "unique N k" "sizes_ok k"
    "cell_ok D H k i" "sys_ok k" using cache_okD [OF c] i(1) by metis
  note n = notavail_ok [OF k(3) i, folded k'_def]
  let ?c = "cells k (Buf i)" and ?c' = "cells k' (Buf i)"
  show cs: "cells k' = (cells k)(Buf i := ?c\<lparr>b_flags := set_flag B_BUSY (b_flags ?c)\<rparr>)" by (rule n(2))
  show m: "same_mem k k'" by (rule same_memI [OF n(3)])
  have oo: "only i k k'" using only_same [OF m] cs by simp
  have l: "live ?c' = live ?c" "full ?c' = full ?c" "b_blkno ?c' = b_blkno ?c" "b_dev ?c' = b_dev ?c" "b_addr ?c' = b_addr ?c"
    "b_resid ?c' = b_resid ?c" "flag (b_flags ?c') B_DELWRI = flag (b_flags ?c) B_DELWRI"
    "flag (b_flags ?c') B_ERROR = flag (b_flags ?c) B_ERROR" "flag (b_flags ?c') B_RAMREMAP = flag (b_flags ?c) B_RAMREMAP"
    by (simp_all add: cs live_def full_def fl)
  have bi: "busy k' i" by (simp add: busy_def cs fl)
  show b: "busy k' j = (j = i \<or> busy k j)" for j using only_busy [OF oo] bi by (cases "j = i") simp_all
  have g: "get_data k' (Buf i) = get_data k (Buf i)" using get_data_same [OF m] l by simp
  show "clean k' i = clean k i" by (simp add: clean_def g l disk_same(1) [OF m])
  have ok': "cell_ok D H k' i"
    using k(7) bi unfolding cell_ok_def Let_def l disk_same(2) [OF m] by simp
  have bl: "blocks_ok N D H k'"
    by (rule only_blocks [OF k(4) i(1) oo _ _ ok']) (use disk_same(3) [OF m] k(5,6) i l in \<open>auto simp: unique_def\<close>)
  have "chains_ok N k' H" using k(2) chains_ok_cong [OF n(4,5)] by simp
  moreover have "sys_ok k'" using restD(7) [OF n(3)] k(8) by simp
  ultimately show "cache_ok N D k'" unfolding cache_ok_def using k(1) bl n(1) by blast
  show "content_at N k' n = content_at N k n" if n: "even n" for n
  proof -
    have "cdata k' i = cdata k i" by (simp add: cdata_def l g disk_same(1) [OF m])
    then show ?thesis unfolding only_content [OF k(4) i(1) oo bl n] l using content_at_held [OF k(5) i(1)] by auto
  qed
qed

text \<open>Nothing a client of the cache could notice happens between \<open>k\<close> and \<open>k'\<close>.\<close>

definition quiet :: "nat \<Rightarrow> 'a bio_scheme \<Rightarrow> 'a bio_scheme \<Rightarrow> bool" where
  "quiet N k k' \<longleftrightarrow> (\<forall>j. busy k' j = busy k j) \<and> (\<forall>j. busy k j \<longrightarrow> cells k' (Buf j) = cells k (Buf j)) \<and> bmem k' = bmem k \<and>
     ram_size k' = ram_size k \<and> u_error (u k') = u_error (u k) \<and> (\<forall>n. even n \<longrightarrow> content_at N k' n = content_at N k n) \<and>
     (\<forall>j. live (cells k' (Buf j)) \<longrightarrow> live (cells k (Buf j)) \<and> b_blkno (cells k' (Buf j)) = b_blkno (cells k (Buf j)))"

lemma quiet_trans: "quiet N k k' \<Longrightarrow> quiet N k' k'' \<Longrightarrow> quiet N k k''"
  unfolding quiet_def by metis

lemma quiet_refl [simp]: "quiet N k k" by (simp add: quiet_def)

text \<open>The delayed writes that are not in use; getnewbuf's measure.\<close>

definition delayed_bufs :: "nat \<Rightarrow> 'a bio_scheme \<Rightarrow> nat set" where
  "delayed_bufs N k = {i. i < N \<and> \<not> busy k i \<and> flag (b_flags (cells k (Buf i))) B_DELWRI}"

lemma some_free_ok:
  assumes f: "free_ok N k F" and i: "i < N" "\<not> busy k i"
  obtains j where "some_free k \<noteq> Free 0" "av_forw (bufs k (some_free k)) = Buf j" "j < N" "\<not> busy k j"
proof -
  have r: "rings (afw k) (abk k) fheads F" and el: "elems fheads F = Buf ` {i. i < N \<and> \<not> busy k i}"
    and f0: "F (Free 0) = []" using f by (simp_all add: free_ok_def)
  have fh: "Free 1 \<in> fheads" "Free 2 \<in> fheads" by (simp_all add: fheads_def)
  have n: "afw k d = (if F d = [] then d else F d ! 0)" if "d \<in> fheads" for d
    by (rule ring_nth [OF ringsD(1) [OF r that]])
  have nd: "F d ! 0 \<noteq> d" if "d \<in> fheads" "F d \<noteq> []" for d
    using ringsD(2) [OF r that(1) that(1)] that(2) by (metis length_greater_0_conv nth_mem)
  have "Buf i \<in> elems fheads F" using el i by simp
  then have ne: "F (Free 1) \<noteq> [] \<or> F (Free 2) \<noteq> []" using f0 by (auto simp: elems_def fheads_def)
  have s: "some_free k = (if F (Free 2) \<noteq> [] then Free 2 else Free 1)"
    unfolding some_free_def n [OF fh(1)] n [OF fh(2)] using nd fh ne by auto
  then have sf: "some_free k \<in> fheads" "F (some_free k) \<noteq> []" "some_free k \<noteq> Free 0" using ne by (auto simp: fheads_def)
  have "F (some_free k) ! 0 \<in> set (F (some_free k))" using sf(2) nth_mem [of 0] by (metis length_greater_0_conv)
  then have "F (some_free k) ! 0 \<in> elems fheads F" unfolding elems_def using sf(1) by blast
  then obtain j where "F (some_free k) ! 0 = Buf j" "j < N" "\<not> busy k j" using el by auto
  then show thesis using that sf n [OF sf(1)] by simp
qed

text \<open>One round of getnewbuf that finds a delayed write: it is written, and is free again.\<close>

lemma flush_ok:
  assumes c: "cache_ok N D k" and j: "j < N" "\<not> busy k j" "flag (b_flags (cells k (Buf j))) B_DELWRI"
  obtains k' where "bwrite ramstrategy (Buf j) (if as then set_b B_ASYNC (Buf j) (notavail (Buf j) k) else notavail (Buf j) k) =
      Some (Got (Buf j), k')" "cache_ok N D k'" "quiet N k k'" "delayed_bufs N k' = delayed_bufs N k - {j}"
proof -
  define k1 where "k1 = notavail (Buf j) k"
  note n = notavail_cache [OF c j(1,2), folded k1_def]
  define k2 where "k2 = (if as then set_b B_ASYNC (Buf j) k1 else k1)"
  have r2: "rest k2 = rest k1" by (simp add: k2_def)
  have o2: "\<forall>i. i \<noteq> j \<longrightarrow> cells k2 (Buf i) = cells k1 (Buf i)" by (simp add: k2_def)
  have s2: "sys_ok k2" using restD(7) [OF r2] n(1) by (simp add: cache_ok_def)
  have a2: "alike (cells k1 (Buf j)) (cells k2 (Buf j))" by (simp add: k2_def alike_def fl n(5))
  have l2: "same_links k1 k2" by (simp add: k2_def)
  note a = alike_ok [OF n(1) j(1) same_memI [OF r2] l2 s2 o2 a2]
  obtain H where H: "cell_ok D H k j" "unique N k" using cache_okD [OF c] j(1) by metis
  have lf: "live (cells k (Buf j))" "full (cells k (Buf j))" "in_disk k (b_blkno (cells k (Buf j)))"
    using H(1) j(3) by (simp_all add: cell_ok_def Let_def)
  have c2: "live (cells k2 (Buf j))" "b_blkno (cells k2 (Buf j)) = b_blkno (cells k (Buf j))" "in_disk k2 n = in_disk k n" for n
    using lf(1) restD(6) [OF r2] n(3) by (simp_all add: k2_def n(5) live_def fl in_disk_def same_mem_def)
  have b2: "busy k2 j" using a(2) n(2) by simp
  obtain k' where k': "bwrite ramstrategy (Buf j) k2 = Some (Got (Buf j), k')" "cache_ok N D k'" "beside j k2 k'"
    "\<not> busy k' j" "\<not> flag (b_flags (cells k' (Buf j))) B_DELWRI" "b_blkno (cells k' (Buf j)) = b_blkno (cells k2 (Buf j))"
    "\<And>n. even n \<Longrightarrow> content_at N k' n = (if n = b_blkno (cells k2 (Buf j)) then get_data k2 (Buf j) else content_at N k2 n)"
    using bwrite_ok [OF a(1) j(1) b2 c2(1)] c2 lf(3) by metis
  have m2: "same_mem k k2" using same_trans(1) [OF n(3) same_memI [OF r2]] .
  have o': "cells k' (Buf i) = cells k (Buf i)" if "i \<noteq> j" for i
    using that k'(3) o2 by (simp add: beside_def n(5))
  have g: "get_data k2 (Buf j) = get_data k (Buf j)" by (rule get_data_same [OF m2]) (simp add: k2_def n(5))
  have cn: "content_at N k' m = content_at N k m" if m: "even m" for m
    using k'(7) [OF m] a(3) [OF m] n(6) [OF m] content_at_held [OF H(2) j(1) lf(1)] lf(2) g c2(2) by (simp add: cdata_def)
  have bu: "busy k' i = busy k i" for i using o' k'(4) j(2) by (cases "i = j") (simp_all add: busy_def)
  have "\<forall>i. busy k i \<longrightarrow> cells k' (Buf i) = cells k (Buf i)" using o' j(2) by metis
  moreover have "live (cells k' (Buf i)) \<longrightarrow> live (cells k (Buf i)) \<and> b_blkno (cells k' (Buf i)) = b_blkno (cells k (Buf i))" for i
    using o' k'(6) c2(2) lf(1) by (cases "i = j") simp_all
  ultimately have "quiet N k k'" using bu k'(3) m2 cn by (simp add: quiet_def beside_def same_mem_def)
  moreover have "delayed_bufs N k' = delayed_bufs N k - {j}" using bu o' k'(5) by (auto simp: delayed_bufs_def; metis)
  ultimately show thesis using that k'(1,2) unfolding k2_def k1_def by blast
qed

section \<open>getnewbuf\<close>

text \<open>The state just before the buffer is taken, \<open>k0\<close>, and what taking it does.\<close>

definition taken :: "nat \<Rightarrow> nat \<Rightarrow> 'a bio_scheme \<Rightarrow> 'a bio_scheme \<Rightarrow> bool" where
  "taken N i k0 k' \<longleftrightarrow> i < N \<and> \<not> busy k0 i \<and> \<not> flag (b_flags (cells k0 (Buf i))) B_DELWRI \<and>
     sys_ok k' \<and> same_mem k0 k' \<and> fwd k' = fwd k0 \<and> bck k' = bck k0 \<and> (\<exists>F. free_ok N k' F) \<and>
     cells k' = (cells k0)(Buf i := (cells k0 (Buf i))\<lparr>b_addr := Own i, b_flags := B_BUSY\<rparr>)"

lemma take_last:
  assumes c: "cache_ok N D k" and i: "i < N" "\<not> busy k i" "\<not> flag (b_flags (cells k (Buf i))) B_DELWRI"
  shows "taken N i k (upd_buf (Buf i) (\<lambda>b. b\<lparr>b_flags := B_BUSY\<rparr>) (own_memory (Buf i) (notavail (Buf i) k)))" (is "taken N i k ?k'")
proof -
  obtain H F where k: "sys_ok k" "free_ok N k F" "cell_ok D H k i" using cache_okD [OF c] i(1) by metis
  define k1 where "k1 = notavail (Buf i) k"
  note n = notavail_ok [OF k(2) i(1,2), folded k1_def]
  have r: "rest ?k' = rest k" using n(3) by (simp add: own_memory_def k1_def [symmetric])
  have l: "same_links k1 ?k'"
    unfolding k1_def [symmetric] same_links_def own_memory_def by (auto simp: fun_eq_iff)
  have c1: "cells k1 = (cells k)(Buf i := (cells k (Buf i))\<lparr>b_flags := set_flag B_BUSY (b_flags (cells k (Buf i)))\<rparr>)"
    by (rule n(2))
  have o: "cells (own_memory (Buf i) k1) = (cells k1)(Buf i := (cells k1 (Buf i))\<lparr>b_addr := Own i\<rparr>)"
  proof (cases "has_b k1 (Buf i) B_RAMREMAP")
    case True
    then show ?thesis by (simp add: own_memory_def cells_upd) (simp add: cells_def)
  next
    case False
    then have "\<not> flag (b_flags (cells k (Buf i))) B_RAMREMAP" by (simp add: cell_fields c1 fl)
    then have "b_addr (cells k1 (Buf i)) = Own i" using k(3) by (simp add: c1 cell_ok_def Let_def)
    then have "(cells k1 (Buf i))\<lparr>b_addr := Own i\<rparr> = cells k1 (Buf i)" by (cases "cells k1 (Buf i)") simp
    then have "(cells k1)(Buf i := (cells k1 (Buf i))\<lparr>b_addr := Own i\<rparr>) = cells k1" by (simp add: fun_upd_idem)
    moreover have "own_memory (Buf i) k1 = k1" using False by (simp add: own_memory_def)
    ultimately show ?thesis by metis
  qed
  have cs: "cells ?k' = (cells k)(Buf i := (cells k (Buf i))\<lparr>b_addr := Own i, b_flags := B_BUSY\<rparr>)"
    unfolding k1_def [symmetric] cells_upd payload_simps cells_def [symmetric] o by (simp add: c1)
  have b: "busy ?k' j = busy k1 j" for j unfolding busy_def cs n(2) by (simp add: fl)
  have "\<exists>F. free_ok N ?k' F" using n(1) free_ok_cong [of ?k' k1] l b by (simp add: same_links_def)
  then show ?thesis
    unfolding taken_def using i restD(7) [OF r] k(1) same_memI [OF r] cs l n(4,5) by (simp add: same_links_def)
qed

lemma getnewbuf_ok:
  assumes "cache_ok N D k" "\<exists>i < N. \<not> busy k i"
  shows "\<exists>k0 k' i. getnewbuf ramstrategy k = Some (Got (Buf i), k') \<and> cache_ok N D k0 \<and> quiet N k k0 \<and> taken N i k0 k'"
  using assms
proof (induction "card (delayed_bufs N k)" arbitrary: k rule: less_induct)
  case less
  obtain F where F: "free_ok N k F" using less.prems(1) by (auto simp: cache_ok_def)
  obtain j where j: "some_free k \<noteq> Free 0" "av_forw (bufs k (some_free k)) = Buf j" "j < N" "\<not> busy k j"
    using some_free_ok [OF F] less.prems(2) by metis
  note n = notavail_cache [OF less.prems(1) j(3,4)]
  have dw: "has_b (notavail (Buf j) k) (Buf j) B_DELWRI = flag (b_flags (cells k (Buf j))) B_DELWRI"
    by (simp add: cell_fields n(5) fl)
  show ?case
  proof (cases "flag (b_flags (cells k (Buf j))) B_DELWRI")
    case False
    then have "getnewbuf ramstrategy k = Some (Got (Buf j), upd_buf (Buf j) (\<lambda>b. b\<lparr>b_flags := B_BUSY\<rparr>) (own_memory (Buf j) (notavail (Buf j) k)))"
      using j dw by (subst getnewbuf.simps) (simp add: Let_def)
    then show ?thesis using take_last [OF less.prems(1) j(3,4) False] less.prems(1) quiet_refl by blast
  next
    case True
    obtain k1 where k1: "bwrite ramstrategy (Buf j) (set_b B_ASYNC (Buf j) (notavail (Buf j) k)) = Some (Got (Buf j), k1)"
      "cache_ok N D k1" "quiet N k k1" "delayed_bufs N k1 = delayed_bufs N k - {j}"
      using flush_ok [OF less.prems(1) j(3,4) True, of True] by auto
    have fin: "finite (delayed_bufs N k)" unfolding delayed_bufs_def by simp
    have "j \<in> delayed_bufs N k" using j(3,4) True by (simp add: delayed_bufs_def)
    then have sm: "card (delayed_bufs N k1) < card (delayed_bufs N k)" unfolding k1(4) by (rule card_Diff1_less [OF fin])
    have "\<exists>i < N. \<not> busy k1 i" using less.prems(2) k1(3) by (simp add: quiet_def)
    then obtain k0 k' i where *: "getnewbuf ramstrategy k1 = Some (Got (Buf i), k')" "cache_ok N D k0" "quiet N k1 k0" "taken N i k0 k'"
      using less.hyps [OF sm k1(2)] by blast
    have "getnewbuf ramstrategy k = getnewbuf ramstrategy k1"
      using j dw True k1(1) by (subst getnewbuf.simps) (simp add: Let_def)
    then show ?thesis using * quiet_trans [OF k1(3)] by metis
  qed
qed

section \<open>getblk\<close>

text \<open>What the caller of getblk and bread gets: buffer \<open>i\<close>, busy, holding block \<open>n\<close>.\<close>

definition gets :: "nat \<Rightarrow> int \<Rightarrow> nat \<Rightarrow> 'a bio_scheme \<Rightarrow> 'a bio_scheme \<Rightarrow> bool" where
  "gets N n i k k' \<longleftrightarrow> i < N \<and> live (cells k' (Buf i)) \<and> b_blkno (cells k' (Buf i)) = n \<and>
     (\<forall>j. busy k' j = (j = i \<or> busy k j)) \<and> \<not> busy k i \<and> (\<forall>j. busy k j \<longrightarrow> cells k' (Buf j) = cells k (Buf j)) \<and>
     (\<forall>j. busy k j \<longrightarrow> bmem k' j = bmem k j) \<and> ram_size k' = ram_size k \<and> u_error (u k') = u_error (u k) \<and>
     (\<forall>m. even m \<longrightarrow> content_at N k' m = content_at N k m) \<and>
     \<not> flag (b_flags (cells k' (Buf i))) B_ERROR \<and>
     (full (cells k' (Buf i)) \<and> \<not> flag (b_flags (cells k' (Buf i))) B_DELWRI \<longrightarrow> clean k' i)"

definition none_busy_at :: "nat \<Rightarrow> 'a bio_scheme \<Rightarrow> int \<Rightarrow> bool" where
  "none_busy_at N k n \<longleftrightarrow> (\<forall>i < N. live (cells k (Buf i)) \<longrightarrow> b_blkno (cells k (Buf i)) = n \<longrightarrow> \<not> busy k i)"

lemma take_new_ok:
  assumes c: "cache_ok N D k" and t: "taken N i k k1"
    and new: "\<forall>j < N. live (cells k (Buf j)) \<longrightarrow> b_blkno (cells k (Buf j)) \<noteq> fsbtodb b"
  shows "cache_ok N D (take_new D b (Buf i) k1)" "gets N (fsbtodb b) i k (take_new D b (Buf i) k1)"
    "\<not> full (cells (take_new D b (Buf i) k1) (Buf i))" "\<not> flag (b_flags (cells (take_new D b (Buf i) k1) (Buf i))) B_DELWRI"
proof -
  let ?k' = "take_new D b (Buf i) k1" and ?c = "cells k (Buf i)"
  obtain H where k: "D \<noteq> NODEV" "chains_ok N k H" "blocks_ok N D H k" "unique N k" "sizes_ok k"
    "cell_ok D H k i" using cache_okD [OF c] t by (metis taken_def)
  have i: "i < N" "\<not> busy k i" "\<not> flag (b_flags ?c) B_DELWRI" and s1: "sys_ok k1" and m1: "same_mem k k1"
    and c1: "cells k1 = (cells k)(Buf i := ?c\<lparr>b_addr := Own i, b_flags := B_BUSY\<rparr>)" and l1: "fwd k1 = fwd k" "bck k1 = bck k"
    using t by (simp_all add: taken_def)
  obtain F where F: "free_ok N k1 F" using t by (auto simp: taken_def)
  have d: "BUFHASH b \<in> heads" by (auto simp: BUFHASH_def heads_def)
  define kb where "kb = bfree (Buf i) k1"
  define k2 where "k2 = binshash (Buf i) (BUFHASH b) (bremhash (Buf i) kb)"
  have lb: "same_links k1 kb" unfolding kb_def bfree_def by (simp add: upd_field_links)
  have "chains_ok N kb H" using k(2) l1 lb chains_ok_cong [of kb k] by (simp add: same_links_def)
  then obtain H' where H': "chains_ok N k2 H'" "Buf i \<in> set (H' (BUFHASH b))"
    "\<And>e j. j \<noteq> i \<Longrightarrow> Buf j \<in> set (H e) \<Longrightarrow> Buf j \<in> set (H' e)" unfolding k2_def using rehash_ok i(1) d by metis
  have k': "?k' = upd_buf (Buf i) (\<lambda>b'. b'\<lparr>b_dev := D, b_blkno := fsbtodb b, b_error := NOERR\<rparr>) k2"
    by (simp add: take_new_def k2_def kb_def)
  have l': "same_links k2 ?k'" unfolding k' by (simp add: upd_field_links)
  have r': "rest ?k' = rest k1" unfolding k' k2_def kb_def bfree_def by simp
  have m': "same_mem k ?k'" using same_trans(1) [OF m1 same_memI [OF r']] .
  have c2: "cells k2 = cells kb" by (simp add: k2_def)
  have cs: "cells ?k' (Buf j) = (if j = i then ?c\<lparr>b_addr := Own i, b_flags := B_BUSY, b_bcount := 0, b_dev := D, b_blkno := fsbtodb b, b_error := NOERR\<rparr> else cells k (Buf j))" for j
    unfolding k' cells_upd payload_simps cells_def [symmetric] c2 kb_def bfree_def by (simp add: c1)
  have bu: "busy ?k' j = (j = i \<or> busy k j)" "busy k1 j = (j = i \<or> busy k j)" for j by (simp_all add: busy_def cs c1)
  have a2: "afw ?k' = afw k1" "abk ?k' = abk k1" using l' lb by (simp_all add: same_links_def k2_def)
  have F': "free_ok N ?k' F" using F free_ok_cong [OF a2] bu by simp
  have h': "chains_ok N ?k' H'" using H'(1) l' chains_ok_cong [of ?k' k2] by (simp add: same_links_def)
  show nf: "\<not> full (cells ?k' (Buf i))" by (simp add: cs full_def)
  show nd: "\<not> flag (b_flags (cells ?k' (Buf i))) B_DELWRI" by (simp add: cs)
  have lv: "live (cells ?k' (Buf i))" using k(1) by (simp add: cs live_def)
  have o: "only i k ?k'" using only_same [OF m'] cs by simp
  have ok': "cell_ok D H' ?k' i" using lv nf nd bu(1) [of i] H'(2) k(6) by (auto simp: cell_ok_def Let_def cs)
  have bl: "blocks_ok N D H' ?k'"
    by (rule only_blocks [OF k(3) i(1) o _ H'(3) ok']) (use disk_same(3) [OF m'] k(5) new cs in auto)
  show cc: "cache_ok N D ?k'" unfolding cache_ok_def using restD(7) [OF r'] s1 k(1) h' bl F' by blast
  have "content_at N ?k' n = content_at N k n" if n: "even n" for n
  proof -
    have 1: "content_at N k (fsbtodb b) = disk k (fsbtodb b)" by (rule content_at_free [OF new])
    have 2: "live ?c \<Longrightarrow> content_at N k (b_blkno ?c) = disk k (b_blkno ?c)"
      using content_at_held [OF k(4) i(1)] k(6) i(2,3) by (simp add: cdata_def cell_ok_def Let_def clean_def)
    show ?thesis unfolding only_content [OF k(3) i(1) o bl n] using 1 2 nf disk_same(1) [OF m']
      by (auto simp: cdata_def cs)
  qed
  then show "gets N (fsbtodb b) i k ?k'"
    unfolding gets_def using i lv nf bu(1) m' cs by (auto simp: same_mem_def)
qed

lemma quiet_gets: "quiet N k k0 \<Longrightarrow> gets N n i k0 k' \<Longrightarrow> gets N n i k k'"
  by (simp add: quiet_def gets_def)

lemma getblk_ok:
  assumes c: "cache_ok N D k" and f: "\<exists>i < N. \<not> busy k i" and nb: "none_busy_at N k (fsbtodb b)"
  obtains i k' where "getblk ramstrategy D b k = Some (Got (Buf i), k')" "cache_ok N D k'" "gets N (fsbtodb b) i k k'"
    "\<not> flag (b_flags (cells k' (Buf i))) B_ASYNC"
proof -
  obtain H where k: "D \<noteq> NODEV" "chains_ok N k H" "blocks_ok N D H k" "\<And>i. i < N \<Longrightarrow> cell_ok D H k i" using cache_okD [OF c] by metis
  show thesis
  proof (cases "\<exists>i < N. live (cells k (Buf i)) \<and> b_blkno (cells k (Buf i)) = fsbtodb b")
    case True
    then obtain i where i: "i < N" "live (cells k (Buf i))" "b_blkno (cells k (Buf i)) = fsbtodb b" by blast
    then have b: "\<not> busy k i" using nb by (simp add: none_busy_at_def)
    note n = notavail_cache [OF c i(1) b]
    have "getblk ramstrategy D b k = Some (Got (Buf i), notavail (Buf i) k)"
      using find_block_ok(1) [OF k(2,3,1) i] b by (simp add: getblk_def cell_fields busy_def)
    moreover have "gets N (fsbtodb b) i k (notavail (Buf i) k)"
      unfolding gets_def n(2,4) n(5) using i b n(3,6) k(4) [OF i(1)]
      by (auto simp: same_mem_def live_def full_def fl cell_ok_def Let_def)
    moreover have "\<not> flag (b_flags (cells (notavail (Buf i) k) (Buf i))) B_ASYNC"
      using k(4) [OF i(1)] b by (simp add: n(5) fl cell_ok_def Let_def)
    ultimately show thesis using that n(1) by blast
  next
    case False
    obtain k0 k1 i where g: "getnewbuf ramstrategy k = Some (Got (Buf i), k1)" "cache_ok N D k0" "quiet N k k0" "taken N i k0 k1"
      using getnewbuf_ok [OF c f] by blast
    have miss: "find_block D b k = Some None" using find_block_ok(2) [OF k(2,3,1)] False by blast
    have new: "\<forall>j < N. live (cells k0 (Buf j)) \<longrightarrow> b_blkno (cells k0 (Buf j)) \<noteq> fsbtodb b"
      using False g(3) unfolding quiet_def by metis
    note t = take_new_ok [OF g(2,4) new]
    have "getblk ramstrategy D b k = Some (Got (Buf i), take_new D b (Buf i) k1)" by (simp add: getblk_def miss g(1))
    moreover have "gets N (fsbtodb b) i k (take_new D b (Buf i) k1)"
      by (rule quiet_gets [OF g(3) t(2)])
    moreover have "\<not> flag (b_flags (cells (take_new D b (Buf i) k1) (Buf i))) B_ASYNC"
      using g(4) by (simp add: take_new_def cells_upd bfree_def taken_def cells_def [symmetric])
    ultimately show thesis using that t(1) by blast
  qed
qed

section \<open>bread\<close>

text \<open>A read from the RAM disk, up to \<open>iodone\<close>: the buffer now refers to the disk's memory.\<close>

lemma read_transfer:
  assumes c: "cache_ok N D k" and i: "i < N" and dk: "in_disk k (b_blkno (cells k (Buf i)))"
  defines "kt \<equiv> ram_transfer (Buf i) (upd_buf (Buf i) (\<lambda>b. b\<lparr>b_bcount := DEV_BSIZE\<rparr>) (set_b B_READ (Buf i) k))"
  shows "rest kt = rest k" "same_links k kt"
    "cells kt = (cells k)(Buf i := (cells k (Buf i))\<lparr>b_bcount := DEV_BSIZE,
       b_addr := Ram (b_blkno (cells k (Buf i))), b_flags := set_flag B_RAMREMAP (set_flag B_READ (b_flags (cells k (Buf i))))\<rparr>)"
proof -
  have order: "b\<lparr>b_flags := f, b_addr := a\<rparr> = b\<lparr>b_addr := a, b_flags := f\<rparr>" for b :: buf and f a by (cases b) simp
  define kb where "kb = upd_buf (Buf i) (\<lambda>b. b\<lparr>b_bcount := DEV_BSIZE\<rparr>) (set_b B_READ (Buf i) k)"
  have r: "rest kb = rest k" by (simp add: kb_def)
  note rr = restD [OF r]
  have cb: "cells kb = (cells k)(Buf i := (cells k (Buf i))\<lparr>b_flags := set_flag B_READ (b_flags (cells k (Buf i))), b_bcount := DEV_BSIZE\<rparr>)"
    unfolding kb_def cells_upd payload_simps cells_def [symmetric] by simp
  have lb: "same_links k kb" 
    unfolding kb_def by (rule same_trans(2) [OF flags_links(1) upd_field_links]) simp
  have base: "ram_base kb \<noteq> 0" using c rr by (auto simp: cache_ok_def blocks_ok_def sizes_ok_def)
  have inr: "\<not> (b_blkno (bufs kb (Buf i)) < 0 \<or> b_blkno (bufs kb (Buf i)) + uint (b_bcount (bufs kb (Buf i)) + 511) div 512 > uint (ram_size kb))"
    using dk rr by (simp add: cell_fields cb in_disk_def)
  have "has_b kb (Buf i) B_READ" by (simp add: cell_fields cb fl)
  then have kt: "kt = upd_buf (Buf i) (\<lambda>b. b\<lparr>b_addr := Ram (b_blkno b), b_flags := set_flag B_RAMREMAP (b_flags b)\<rparr>) kb"
    unfolding kt_def kb_def [symmetric] ram_transfer_def Let_def using base inr
    by (simp add: upd_buf_def order)
  show "rest kt = rest k" using r by (simp add: kt)
  show "same_links k kt" unfolding kt by (rule same_trans(2) [OF lb upd_field_links]) simp
  show "cells kt = (cells k)(Buf i := (cells k (Buf i))\<lparr>b_bcount := DEV_BSIZE,
       b_addr := Ram (b_blkno (cells k (Buf i))), b_flags := set_flag B_RAMREMAP (set_flag B_READ (b_flags (cells k (Buf i))))\<rparr>)"
    unfolding kt cells_upd payload_simps cells_def [symmetric] by (simp add: cb cell_fields)
qed

lemma start_read_ok:
  assumes c: "cache_ok N D k" and i: "i < N" "busy k i" and l: "live (cells k (Buf i))"
    and dk: "in_disk k (b_blkno (cells k (Buf i)))"
    and f: "\<not> flag (b_flags (cells k (Buf i))) B_DONE" "\<not> flag (b_flags (cells k (Buf i))) B_ASYNC"
      "\<not> flag (b_flags (cells k (Buf i))) B_ERROR"
  obtains k' where "start_read ramstrategy B_READ (Buf i) k = Some k'" "cache_ok N D k'" "beside i k k'"
    "\<And>m. even m \<Longrightarrow> content_at N k' m = content_at N k m" "busy k' i" "live (cells k' (Buf i))" "full (cells k' (Buf i))"
    "b_blkno (cells k' (Buf i)) = b_blkno (cells k (Buf i))" "\<not> flag (b_flags (cells k' (Buf i))) B_DELWRI" "clean k' i"
proof -
  obtain H F where k: "D \<noteq> NODEV" "chains_ok N k H" "free_ok N k F" "blocks_ok N D H k" "unique N k" "sizes_ok k"
    "cell_ok D H k i" "sys_ok k" using cache_okD [OF c] i(1) by metis
  let ?c = "cells k (Buf i)"
  define kt where "kt = ram_transfer (Buf i) (upd_buf (Buf i) (\<lambda>b. b\<lparr>b_bcount := DEV_BSIZE\<rparr>) (set_b B_READ (Buf i) k))"
  note t = read_transfer [OF c i(1) dk, folded kt_def]
  define kw where "kw = clr_b B_WANTED (Buf i) (set_b B_DONE (Buf i) kt)"
  have nd: "\<not> has_b kt (Buf i) B_DONE" "\<not> has_b kt (Buf i) B_ASYNC" using f by (simp_all add: cell_fields t(3) fl)
  have rw: "rest kw = rest k" using t(1) by (simp add: kw_def)
  have lw: "same_links k kw"
    unfolding kw_def by (rule same_trans(2) [OF t(2) same_trans(2) [OF flags_links(1) flags_links(2)]])
  have cw: "cells kw (Buf j) = (if j = i then ?c\<lparr>b_bcount := DEV_BSIZE,
       b_addr := Ram (b_blkno ?c), b_flags := clr_flag B_WANTED (set_flag B_DONE (set_flag B_RAMREMAP (set_flag B_READ (b_flags ?c))))\<rparr> else cells k (Buf j))" for j
    by (simp add: kw_def t(3))
  have "sys_ok kw" using restD(7) [OF rw] k(8) by simp
  then obtain kx where kx: "wakeup (a_buf kw (Buf i)) kw = Some kx" "sys_ok kx" "bufs kx = bufs kw" "same_mem kw kx"
    using wake_ok by metis
  have cx: "cells kx = cells kw" using kx(3) by (simp add: cells_def fun_eq_iff)
  have lx: "same_links k kx" using same_trans(2) [OF lw] bufs_same [OF kx(3)] by blast
  have mx: "same_mem k kx" using same_trans(1) [OF same_memI [OF rw] kx(4)] .
  have aw: "a_buf kt = a_buf kw" unfolding kw_def by (simp add: clr_b_def set_b_def)
  have run: "start_read ramstrategy B_READ (Buf i) k = Some (count_in kx)"
    unfolding start_read_def ramstrategy_def kt_def [symmetric] using biodone_step [OF nd(1) refl] nd(2) kx(1)
    by (simp add: kw_def [symmetric] aw)
  define k' where "k' = count_in kx"
  have k': "bufs k' = bufs kx" "sys_ok k' = sys_ok kx" "bmem k' = bmem kx" "ram k' = ram kx" "ram_base k' = ram_base kx"
    "ram_size k' = ram_size kx" "a_buf k' = a_buf kx" "u_error (u k') = u_error (u kx)"
    by (simp_all add: k'_def count_in_def upd_u_def sys_ok_def sched_ok_def queues_def sleepers_ok_def)
  have m': "bmem k' = bmem k" "ram k' = ram k" "ram_base k' = ram_base k" "ram_size k' = ram_size k" "u_error (u k') = u_error (u k)"
    using k' mx by (simp_all add: same_mem_def)
  have c': "cells k' (Buf j) = (if j = i then ?c\<lparr>b_bcount := DEV_BSIZE,
       b_addr := Ram (b_blkno ?c), b_flags := clr_flag B_WANTED (set_flag B_DONE (set_flag B_RAMREMAP (set_flag B_READ (b_flags ?c))))\<rparr> else cells k (Buf j))" for j
  proof -
    have "cells k' = cells kw" using k'(1) cx by (simp add: cells_def fun_eq_iff)
    then show ?thesis using cw by simp
  qed
  have o: "only i k k'" using m' c' by (simp add: only_def)
  have l': "live (cells k' (Buf i))" and f': "full (cells k' (Buf i))" using l f by (simp_all add: c' live_def full_def fl)
  have dl: "\<not> flag (b_flags ?c) B_DELWRI" using k(7) f(1) by (auto simp: cell_ok_def Let_def full_def)
  have nd': "\<not> flag (b_flags (cells k' (Buf i))) B_DELWRI" using dl by (simp add: c' fl)
  have b': "busy k' i" using i(2) by (simp add: c' busy_def fl)
  have cl: "clean k' i" by (simp add: clean_def get_data_def cell_fields c' disk_def)
  have dk': "in_disk k' n = in_disk k n" for n by (simp add: in_disk_def m')
  have ok': "cell_ok D H k' i"
    unfolding cell_ok_def Let_def dk' using k(7) l l' f' nd' dk b' by (simp add: cell_ok_def Let_def c' fl)
  have bl: "blocks_ok N D H k'"
    by (rule only_blocks [OF k(4) i(1) o _ _ ok']) (use k(5,6) l i(1) m' in \<open>auto simp: unique_def c' sizes_ok_def\<close>)
  have bu: "busy k' j = busy k j" for j using only_busy [OF o] i(2) b' by (cases "j = i") simp_all
  have "chains_ok N k' H" using k(2) chains_ok_cong [of k' k] lx k'(1) by (simp add: same_links_def)
  moreover have "free_ok N k' F" using k(3) free_ok_cong [of k' k] lx bu k'(1) by (simp add: same_links_def)
  ultimately have cc: "cache_ok N D k'" unfolding cache_ok_def using kx(2) k'(2) k(1) bl by blast
  have ct: "content_at N k' n = content_at N k n" if n: "even n" for n
  proof -
    have "content_at N k (b_blkno ?c) = disk k (b_blkno ?c)"
      using content_at_held [OF k(5) i(1) l] f(1) by (simp add: cdata_def full_def)
    moreover have "cdata k' i = disk k (b_blkno ?c)" using f' cl m' by (simp add: cdata_def clean_def disk_def c')
    ultimately show ?thesis unfolding only_content [OF k(4) i(1) o bl n] using l' by (auto simp: c')
  qed
  have "beside i k k'" using m' c' by (simp add: beside_def)
  then show thesis using that [of k'] run cc ct b' l' f' nd' cl by (simp add: k'_def [symmetric] c')
qed

lemma bread_ok:
  assumes c: "cache_ok N D k" and f: "\<exists>i < N. \<not> busy k i" and nb: "none_busy_at N k (fsbtodb b)" and dk: "in_disk k (fsbtodb b)"
  obtains i k' where "bread ramstrategy D b k = Some (Got (Buf i), k')" "cache_ok N D k'" "gets N (fsbtodb b) i k k'"
    "full (cells k' (Buf i))" "get_data k' (Buf i) = content_at N k (fsbtodb b)"
proof -
  obtain i k1 where g: "getblk ramstrategy D b k = Some (Got (Buf i), k1)" "cache_ok N D k1" "gets N (fsbtodb b) i k k1"
    "\<not> flag (b_flags (cells k1 (Buf i))) B_ASYNC" using getblk_ok [OF c f nb] by metis
  have i: "i < N" "busy k1 i" "live (cells k1 (Buf i))" "b_blkno (cells k1 (Buf i)) = fsbtodb b"
    "\<not> flag (b_flags (cells k1 (Buf i))) B_ERROR" using g(3) by (simp_all add: gets_def)
  obtain H where un: "unique N k1" using cache_okD [OF g(2)] by metis
  have cont: "content_at N k1 (fsbtodb b) = content_at N k (fsbtodb b)" using g(3) fsbtodb_even by (simp add: gets_def)
  show thesis
  proof (cases "flag (b_flags (cells k1 (Buf i))) B_DONE")
    case True
    then have fu: "full (cells k1 (Buf i))" using i(5) by (simp add: full_def)
    have "bread ramstrategy D b k = Some (Got (Buf i), k1)" using True by (simp add: bread_def g(1) cell_fields)
    moreover have "get_data k1 (Buf i) = content_at N k (fsbtodb b)"
      using content_at_held [OF un i(1,3)] fu cont by (simp add: cdata_def i(4))
    ultimately show thesis using that g(2,3) fu by blast
  next
    case False
    have dk1: "in_disk k1 (b_blkno (cells k1 (Buf i)))" using dk g(3) i(4) by (simp add: in_disk_def gets_def)
    obtain k2 where s: "start_read ramstrategy B_READ (Buf i) k1 = Some k2" "cache_ok N D k2" "beside i k1 k2"
      "\<And>m. even m \<Longrightarrow> content_at N k2 m = content_at N k1 m" "busy k2 i" "live (cells k2 (Buf i))" "full (cells k2 (Buf i))"
      "b_blkno (cells k2 (Buf i)) = b_blkno (cells k1 (Buf i))" "\<not> flag (b_flags (cells k2 (Buf i))) B_DELWRI" "clean k2 i"
      using start_read_ok [OF g(2) i(1-3) dk1 False g(4) i(5)] by metis
    have fu: "flag (b_flags (cells k2 (Buf i))) B_DONE" "\<not> flag (b_flags (cells k2 (Buf i))) B_ERROR"
      using s(7) by (simp_all add: full_def)
    have run: "bread ramstrategy D b k = Some (Got (Buf i), k2)"
      using False s(1) wait_done [OF fu] by (simp add: bread_def g(1) cell_fields)
    have un2: "unique N k2" using cache_okD [OF s(2)] by metis
    have data: "get_data k2 (Buf i) = content_at N k (fsbtodb b)"
      using content_at_held [OF un2 i(1) s(6)] s(7,8) i(4) s(4) [OF fsbtodb_even] cont by (simp add: cdata_def)
    have b2: "busy k2 j = busy k1 j" for j using s(3,5) i(2) by (cases "j = i") (simp_all add: beside_def busy_def)
    have "gets N (fsbtodb b) i k k2"
      unfolding gets_def b2
    proof (intro conjI allI impI)
      fix j assume "busy k j"
      then show "cells k2 (Buf j) = cells k (Buf j)" using g(3) s(3) unfolding gets_def beside_def by metis
    qed (use g(3) s i(4) fu in \<open>simp_all add: gets_def beside_def\<close>)
    then show thesis using that run s(2,7) data by blast
  qed
qed

end
