(* ===== verification/Block_Store.thy ===== *)
theory Block_Store imports Prelude begin

text \<open>
  The contract of a store of numbered blocks: \<open>get\<close> is what the store holds, reading returns it and changes
  nothing, writing changes one block. A sequence of reads and writes then does what it would do to a plain
  function from block numbers to contents.
\<close>

datatype 'm blk_op = Rd int | Wr 'm int "u_int list"

locale block_store =
  fixes good :: "'s \<Rightarrow> bool"
    and usable :: "'s \<Rightarrow> int \<Rightarrow> bool"
    and get :: "'s \<Rightarrow> int \<Rightarrow> u_int list"
    and rd :: "int \<Rightarrow> 's \<Rightarrow> (u_int list \<times> 's) option"
    and wr :: "'m \<Rightarrow> int \<Rightarrow> u_int list \<Rightarrow> 's \<Rightarrow> 's option"
  assumes rd_ok: "good s \<Longrightarrow> usable s b \<Longrightarrow>
      \<exists>s'. rd b s = Some (get s b, s') \<and> good s' \<and> usable s' = usable s \<and> (\<forall>c. usable s c \<longrightarrow> get s' c = get s c)"
    and wr_ok: "good s \<Longrightarrow> usable s b \<Longrightarrow> length ws = 512 \<Longrightarrow>
      \<exists>s'. wr m b ws s = Some s' \<and> good s' \<and> usable s' = usable s \<and>
        (\<forall>c. usable s c \<longrightarrow> get s' c = (if c = b then ws else get s c))"
begin

text \<open>A session with the store, and the same on a function.\<close>

fun session :: "'m blk_op list \<Rightarrow> 's \<Rightarrow> (u_int list list \<times> 's) option" where
  "session [] s = Some ([], s)"
| "session (Rd b # ops) s = Option.bind (rd b s) (\<lambda>(ws, s1). map_option (\<lambda>(r, s2). (ws # r, s2)) (session ops s1))"
| "session (Wr m b ws # ops) s = Option.bind (wr m b ws s) (\<lambda>s1. session ops s1)"

fun plain :: "'m blk_op list \<Rightarrow> (int \<Rightarrow> u_int list) \<Rightarrow> u_int list list \<times> (int \<Rightarrow> u_int list)" where
  "plain [] f = ([], f)"
| "plain (Rd b # ops) f = (let (r, f') = plain ops f in (f b # r, f'))"
| "plain (Wr m b ws # ops) f = plain ops (f(b := ws))"

fun op_ok :: "(int \<Rightarrow> bool) \<Rightarrow> 'm blk_op \<Rightarrow> bool" where
  "op_ok v (Rd b) = v b"
| "op_ok v (Wr m b ws) = (v b \<and> length ws = 512)"

lemma plain_cong:
  assumes "\<forall>op \<in> set ops. op_ok v op" "\<forall>b. v b \<longrightarrow> f b = g b"
  shows "fst (plain ops f) = fst (plain ops g) \<and> (\<forall>b. v b \<longrightarrow> snd (plain ops f) b = snd (plain ops g) b)"
  using assms by (induction ops f arbitrary: g rule: plain.induct) (auto simp: Let_def split_beta)

lemma session_plain:
  assumes "good s" "\<forall>op \<in> set ops. op_ok (usable s) op"
  shows "\<exists>s'. session ops s = Some (fst (plain ops (get s)), s') \<and> good s' \<and> usable s' = usable s \<and>
    (\<forall>b. usable s b \<longrightarrow> get s' b = snd (plain ops (get s)) b)"
  using assms
proof (induction ops arbitrary: s)
  case Nil
  then show ?case by simp
next
  case (Cons op ops)
  show ?case
  proof (cases op)
    case (Rd b)
    then have ub: "usable s b" using Cons.prems(2) by simp
    obtain s1 where s1: "rd b s = Some (get s b, s1)" "good s1" "usable s1 = usable s" "\<forall>c. usable s c \<longrightarrow> get s1 c = get s c"
      using rd_ok [OF Cons.prems(1) ub] by blast
    have ops: "\<forall>op \<in> set ops. op_ok (usable s1) op" using Cons.prems(2) s1(3) by simp
    obtain s2 where s2: "session ops s1 = Some (fst (plain ops (get s1)), s2)" "good s2" "usable s2 = usable s1"
      "\<forall>b. usable s1 b \<longrightarrow> get s2 b = snd (plain ops (get s1)) b" using Cons.IH [OF s1(2) ops] by blast
    have p: "fst (plain ops (get s1)) = fst (plain ops (get s))" "\<And>b. usable s b \<Longrightarrow> snd (plain ops (get s1)) b = snd (plain ops (get s)) b"
      using plain_cong [of ops "usable s" "get s1" "get s"] ops s1(3,4) by auto
    show ?thesis using s1 s2 p Rd by (auto simp: split_beta)
  next
    case (Wr m b ws)
    then have ub: "usable s b" "length ws = 512" using Cons.prems(2) by simp_all
    obtain s1 where s1: "wr m b ws s = Some s1" "good s1" "usable s1 = usable s"
      "\<forall>c. usable s c \<longrightarrow> get s1 c = (if c = b then ws else get s c)" using wr_ok [OF Cons.prems(1) ub] by blast
    have ops: "\<forall>op \<in> set ops. op_ok (usable s1) op" using Cons.prems(2) s1(3) by simp
    obtain s2 where s2: "session ops s1 = Some (fst (plain ops (get s1)), s2)" "good s2" "usable s2 = usable s1"
      "\<forall>b. usable s1 b \<longrightarrow> get s2 b = snd (plain ops (get s1)) b" using Cons.IH [OF s1(2) ops] by blast
    have p: "fst (plain ops (get s1)) = fst (plain ops ((get s)(b := ws)))"
      "\<And>c. usable s c \<Longrightarrow> snd (plain ops (get s1)) c = snd (plain ops ((get s)(b := ws))) c"
      using plain_cong [of ops "usable s" "get s1" "(get s)(b := ws)"] ops s1(3,4) by auto
    show ?thesis using s1 s2 p Wr by auto
  qed
qed

end

end
