(* ===== verification/BioStore.thy ===== *)
theory BioStore imports BioGet Block_Store begin

text \<open>
  The buffer cache as its clients use it: reading a block, changing it, writing it at once, later or whenever
  the buffer is needed. The cache is an interpretation of the block store of Block_Store.
\<close>

section \<open>Filling a buffer\<close>

lemma put_data_ok:
  assumes c: "cache_ok N D k" and i: "i < N" "busy k i" and l: "live (cells k (Buf i))"
    and dk: "in_disk k (b_blkno (cells k (Buf i)))" and ws: "length ws = 512"
  defines "k' \<equiv> put_data (Buf i) ws k"
  shows "cache_ok N D k'" "cells k' = cells k" "get_data k' (Buf i) = ws" "ram_size k' = ram_size k" "u k' = u k"
    "\<And>n. even n \<Longrightarrow> n \<noteq> b_blkno (cells k (Buf i)) \<Longrightarrow> content_at N k' n = content_at N k n"
proof -
  obtain H F where k: "D \<noteq> NODEV" "chains_ok N k H" "free_ok N k F" "blocks_ok N D H k" "unique N k" "sizes_ok k"
    "cell_ok D H k i" "sys_ok k" using cache_okD [OF c] i(1) by metis
  let ?c = "cells k (Buf i)"
  have a: "b_addr ?c = Ram (b_blkno ?c) \<or> b_addr ?c = Own i" using k(7) unfolding cell_ok_def Let_def by metis
  have bf: "bufs k' = bufs k" "ram_size k' = ram_size k" "ram_base k' = ram_base k" "u k' = u k" "sys_ok k' = sys_ok k"
    by (simp_all add: k'_def put_data_def sys_ok_def sched_ok_def queues_def sleepers_ok_def split: baddr.splits)
  then show cs: "cells k' = cells k" and "ram_size k' = ram_size k" "u k' = u k" by (simp_all add: cells_def fun_eq_iff)
  show g: "get_data k' (Buf i) = ws"
    unfolding get_data_def bf(1) using a by (auto simp: k'_def put_data_def cell_fields)
  have o: "only i k k'"
    using a l bf(2,3) unfolding only_def cs by (auto simp: k'_def put_data_def cell_fields split: if_splits)
  have s': "sizes_ok k'" using k(6) ws bf(3) by (auto simp: sizes_ok_def k'_def put_data_def split: baddr.splits)
  have dk': "in_disk k' n = in_disk k n" "busy k' j = busy k j" for n j by (simp_all add: in_disk_def bf(2) busy_def cs)
  have ok': "cell_ok D H k' i" using k(7) i(2) unfolding cell_ok_def Let_def cs dk' by simp
  have bl: "blocks_ok N D H k'"
    by (rule only_blocks [OF k(4) i(1) o s' _ ok']) (use k(5) i(1) l cs in \<open>auto simp: unique_def\<close>)
  have "chains_ok N k' H" using k(2) chains_ok_cong [of k' k] bf(1) by simp
  moreover have "free_ok N k' F" using k(3) free_ok_cong [of k' k] bf(1) dk' by simp
  ultimately show "cache_ok N D k'" unfolding cache_ok_def using bf(5) k(8,1) bl by blast
  show "content_at N k' n = content_at N k n" if n: "even n" "n \<noteq> b_blkno ?c" for n
    unfolding only_content [OF k(4) i(1) o bl n(1)] cs using n(2) by simp
qed

section \<open>Delayed and asynchronous writes\<close>

lemma bdwrite_ok:
  assumes c: "cache_ok N D k" and i: "i < N" "busy k i" and l: "live (cells k (Buf i))"
    and dk: "in_disk k (b_blkno (cells k (Buf i)))" and ne: "\<not> flag (b_flags (cells k (Buf i))) B_ERROR" and t: "\<not> tape D"
  obtains k' where "bdwrite ramstrategy tape (Buf i) k = Some (Got (Buf i), k')" "cache_ok N D k'" "beside i k k'" "\<not> busy k' i"
    "\<And>n. even n \<Longrightarrow> content_at N k' n = (if n = b_blkno (cells k (Buf i)) then get_data k (Buf i) else content_at N k n)"
proof -
  obtain H F where k: "D \<noteq> NODEV" "chains_ok N k H" "free_ok N k F" "blocks_ok N D H k" "unique N k" "sizes_ok k"
    "cell_ok D H k i" "sys_ok k" using cache_okD [OF c] i(1) by metis
  let ?c = "cells k (Buf i)"
  define k1 where "k1 = (if \<not> has_b k (Buf i) B_DELWRI then count_out k else k)"
  define k2 where "k2 = set_b (or B_DELWRI B_DONE) (Buf i) k1"
  have k1: "bufs k1 = bufs k" "sys_ok k1 = sys_ok k" "bmem k1 = bmem k" "ram k1 = ram k" "ram_base k1 = ram_base k"
    "ram_size k1 = ram_size k" "u_error (u k1) = u_error (u k)"
    by (simp_all add: k1_def count_out_def upd_u_def sys_ok_def sched_ok_def queues_def sleepers_ok_def)
  have dv: "b_dev ?c = D" using k(7) l by (auto simp: cell_ok_def Let_def live_def)
  have r2: "rest k2 = rest k1" by (simp add: k2_def)
  note r2 = restD [OF r2]
  have c1: "cells k1 = cells k" using k1(1) by (simp add: cells_def fun_eq_iff)
  have c2: "cells k2 = (cells k)(Buf i := ?c\<lparr>b_flags := set_flag (or B_DELWRI B_DONE) (b_flags ?c)\<rparr>)"
    unfolding k2_def cells_set c1 ..
  have m2: "bmem k2 = bmem k" "ram k2 = ram k" "ram_base k2 = ram_base k" "ram_size k2 = ram_size k" "u_error (u k2) = u_error (u k)"
    using r2 k1 by simp_all
  have o: "only i k k2" using m2 c2 by (simp add: only_def)
  have l2: "live (cells k2 (Buf i))" "full (cells k2 (Buf i))" "flag (b_flags (cells k2 (Buf i))) B_DELWRI"
    "b_blkno (cells k2 (Buf i)) = b_blkno ?c" "b_dev (cells k2 (Buf i)) = b_dev ?c" "b_resid (cells k2 (Buf i)) = b_resid ?c" "b_addr (cells k2 (Buf i)) = b_addr ?c"
    "flag (b_flags (cells k2 (Buf i))) B_RAMREMAP = flag (b_flags ?c) B_RAMREMAP" and b2: "busy k2 i"
    using l ne i(2) by (simp_all add: c2 live_def full_def fl busy_def)
  have s2: "sizes_ok k2" using k(6) m2 by (simp add: sizes_ok_def)
  have ok2: "cell_ok D H k2 i"
    unfolding cell_ok_def Let_def l2(4-8) using k(7) l2(1-3) b2 dk l m2(4) by (simp add: cell_ok_def Let_def in_disk_def)
  have bl: "blocks_ok N D H k2"
    by (rule only_blocks [OF k(4) i(1) o s2 _ ok2]) (use k(5) i(1) l l2(4) in \<open>auto simp: unique_def\<close>)
  have lk: "same_links k k2" using flags_links(1) [of k1] k1(1) by (simp add: k2_def same_links_def)
  have bu: "busy k2 j = busy k j" for j using only_busy [OF o] i(2) b2 by (cases "j = i") simp_all
  have "chains_ok N k2 H" using k(2) chains_ok_cong [of k2 k] lk by (simp add: same_links_def)
  moreover have "free_ok N k2 F" using k(3) free_ok_cong [of k2 k] lk bu by (simp add: same_links_def)
  ultimately have cc: "cache_ok N D k2" unfolding cache_ok_def using r2(7) k1(2) k(8,1) bl by blast
  have g: "get_data k2 (Buf i) = get_data k (Buf i)" using m2 l2(7) by (simp add: get_data_def cell_fields split: baddr.splits)
  obtain k' where k': "brelse (Buf i) k2 = Some k'" "cache_ok N D k'" "same_mem k2 k'" "\<not> busy k' i"
      "\<And>j. j \<noteq> i \<Longrightarrow> cells k' (Buf j) = cells k2 (Buf j)" "cells k' (Buf i) = released (cells k2 (Buf i))"
      "\<And>n. even n \<Longrightarrow> content_at N k' n = content_at N k2 n"
    using brelse_ok [OF cc i(1) b2] l2(3) by metis
  have "bdwrite ramstrategy tape (Buf i) k = Some (Got (Buf i), k')"
    using t dv k'(1) unfolding k2_def bdwrite_def Let_def k1_def [symmetric] by (simp add: cell_fields c1)
  moreover have "beside i k k'" using k'(3,5) m2 c2 by (simp add: beside_def same_mem_def)
  moreover have "content_at N k' n = (if n = b_blkno ?c then get_data k (Buf i) else content_at N k n)" if n: "even n" for n
    unfolding k'(7) [OF n] only_content [OF k(4) i(1) o bl n] using l2 l g by (auto simp: cdata_def)
  ultimately show thesis using that k'(2,4) by blast
qed

lemma bawrite_ok:
  assumes c: "cache_ok N D k" and i: "i < N" "busy k i" and l: "live (cells k (Buf i))"
    and dk: "in_disk k (b_blkno (cells k (Buf i)))"
  obtains k' where "bawrite ramstrategy (Buf i) k = Some (Got (Buf i), k')" "cache_ok N D k'" "beside i k k'" "\<not> busy k' i"
    "\<And>n. even n \<Longrightarrow> content_at N k' n = (if n = b_blkno (cells k (Buf i)) then get_data k (Buf i) else content_at N k n)"
proof -
  define k1 where "k1 = set_b B_ASYNC (Buf i) k"
  have r: "rest k1 = rest k" by (simp add: k1_def)
  have ln: "same_links k k1" by (simp add: k1_def)
  have s: "sys_ok k1" using restD(7) [OF r] c by (simp add: cache_ok_def)
  have o: "\<forall>j. j \<noteq> i \<longrightarrow> cells k1 (Buf j) = cells k (Buf j)" by (simp add: k1_def)
  have a: "alike (cells k (Buf i)) (cells k1 (Buf i))" using i(2) by (simp add: k1_def alike_def fl busy_def)
  note al = alike_ok [OF c i(1) same_memI [OF r] ln s o a]
  have l1: "live (cells k1 (Buf i))" "b_blkno (cells k1 (Buf i)) = b_blkno (cells k (Buf i))" "in_disk k1 (b_blkno (cells k1 (Buf i)))"
    using l a dk restD(6) [OF r] by (simp_all add: live_def alike_def in_disk_def)
  have g: "get_data k1 (Buf i) = get_data k (Buf i)" using get_data_same [OF same_memI [OF r]] a by (simp add: alike_def)
  have b1: "busy k1 i" using al(2) i(2) by simp
  obtain k' where k': "bwrite ramstrategy (Buf i) k1 = Some (Got (Buf i), k')" "cache_ok N D k'" "beside i k1 k'" "\<not> busy k' i"
    "\<And>n. even n \<Longrightarrow> content_at N k' n = (if n = b_blkno (cells k1 (Buf i)) then get_data k1 (Buf i) else content_at N k1 n)"
    using bwrite_ok [OF al(1) i(1) b1 l1(1,3)] by metis
  have "beside i k k'" using k'(3) o restD [OF r] by (simp add: beside_def)
  then show thesis using that [of k'] k'(1,2,4,5) al(3) g l1(2) by (simp add: bawrite_def k1_def)
qed

section \<open>Clients\<close>

text \<open>The ways a client gives back a block that it has changed.\<close>

datatype wmode = Sync | Async | Delayed

definition put_back ::
  "(bref \<Rightarrow> 'a bio_scheme \<Rightarrow> 'a bio_scheme option) \<Rightarrow> (u_int \<Rightarrow> bool) \<Rightarrow> wmode \<Rightarrow> bref \<Rightarrow> 'a bio_scheme \<Rightarrow>
   (bref bio_out \<times> 'a bio_scheme) option" where
  "put_back strat tape m = (case m of Sync \<Rightarrow> bwrite strat | Async \<Rightarrow> bawrite strat | Delayed \<Rightarrow> bdwrite strat tape)"

text \<open>\<open>bp = bread(dev, b); ... brelse(bp)\<close>, with the data read in between.\<close>

definition read_block ::
  "(bref \<Rightarrow> 'a bio_scheme \<Rightarrow> 'a bio_scheme option) \<Rightarrow> u_int \<Rightarrow> int \<Rightarrow> 'a bio_scheme \<Rightarrow> (u_int list \<times> 'a bio_scheme) option" where
  "read_block strat dev b k = do {
     (o', k1) \<leftarrow> bread strat dev b k;
     case o' of Sleeps c p \<Rightarrow> None | Got bp \<Rightarrow> map_option (\<lambda>k2. (get_data k1 bp, k2)) (brelse bp k1)
   }"

text \<open>\<open>bp = getblk(dev, b); ...; bwrite(bp)\<close> (or bawrite, bdwrite), with the data stored in between.\<close>

definition write_block ::
  "(bref \<Rightarrow> 'a bio_scheme \<Rightarrow> 'a bio_scheme option) \<Rightarrow> (u_int \<Rightarrow> bool) \<Rightarrow> u_int \<Rightarrow> wmode \<Rightarrow> int \<Rightarrow> u_int list \<Rightarrow>
   'a bio_scheme \<Rightarrow> 'a bio_scheme option" where
  "write_block strat tape dev m b ws k = do {
     (o', k1) \<leftarrow> getblk strat dev b k;
     case o' of Sleeps c p \<Rightarrow> None
     | Got bp \<Rightarrow> do {
         (o2, k2) \<leftarrow> put_back strat tape m bp (put_data bp ws k1);
         case o2 of Sleeps c p \<Rightarrow> None | Got _ \<Rightarrow> Some k2
       }
   }"

lemma put_back_ok:
  assumes c: "cache_ok N D k" and i: "i < N" "busy k i" and l: "live (cells k (Buf i))"
    and dk: "in_disk k (b_blkno (cells k (Buf i)))" and ne: "\<not> flag (b_flags (cells k (Buf i))) B_ERROR" and t: "\<not> tape D"
  obtains k' where "put_back ramstrategy tape m (Buf i) k = Some (Got (Buf i), k')" "cache_ok N D k'" "beside i k k'" "\<not> busy k' i"
    "\<And>n. even n \<Longrightarrow> content_at N k' n = (if n = b_blkno (cells k (Buf i)) then get_data k (Buf i) else content_at N k n)"
proof (cases m)
  case Sync
  obtain k' where "bwrite ramstrategy (Buf i) k = Some (Got (Buf i), k')" "cache_ok N D k'" "beside i k k'" "\<not> busy k' i"
    "\<And>n. even n \<Longrightarrow> content_at N k' n = (if n = b_blkno (cells k (Buf i)) then get_data k (Buf i) else content_at N k n)"
    using bwrite_ok [OF c i l dk] by metis
  then show thesis using that Sync by (simp add: put_back_def)
next
  case Async
  show thesis by (rule bawrite_ok [OF c i l dk]) (use that Async in \<open>simp add: put_back_def\<close>)
next
  case Delayed
  show thesis by (rule bdwrite_ok [where tape = tape, OF c i l dk ne t]) (use that Delayed in \<open>simp add: put_back_def\<close>)
qed

text \<open>All buffers are free: no operation is in progress.\<close>

definition idle :: "nat \<Rightarrow> u_int \<Rightarrow> 'a bio_scheme \<Rightarrow> bool" where
  "idle N D k \<longleftrightarrow> cache_ok N D k \<and> (\<forall>i < N. \<not> busy k i) \<and> 0 < N"

definition on_disk :: "'a bio_scheme \<Rightarrow> int \<Rightarrow> bool" where
  "on_disk k b \<longleftrightarrow> 0 \<le> b \<and> 2 * b + 2 \<le> uint (ram_size k)"

lemma on_disk_fsbtodb:
  assumes "on_disk k b"
  shows "fsbtodb b = 2 * b" "in_disk k (fsbtodb b)"
proof -
  have "uint (ram_size k) < 65536" using uint_lt2p [of "ram_size k"] by simp
  then have "int32 (b * 2)" using assms by (simp add: int32_def on_disk_def)
  then show f: "fsbtodb b = 2 * b" by (simp add: fsbtodb_def)
  show "in_disk k (fsbtodb b)" using assms by (simp add: f in_disk_def on_disk_def)
qed

lemma content_cache: "cache_ok N D k \<Longrightarrow> content D k b = content_at N k (fsbtodb b)"
  unfolding cache_ok_def using content_eq by blast

lemma idle_nb: "idle N D k \<Longrightarrow> none_busy_at N k n" "idle N D k \<Longrightarrow> \<exists>i < N. \<not> busy k i"
  by (auto simp: idle_def none_busy_at_def)

lemma read_block_ok:
  assumes s: "idle N D k" and b: "on_disk k b"
  obtains k' where "read_block ramstrategy D b k = Some (content D k b, k')" "idle N D k'" "ram_size k' = ram_size k"
    "u_error (u k') = u_error (u k)" "content D k' = content D k"
proof -
  have c: "cache_ok N D k" using s by (simp add: idle_def)
  obtain i k1 where k1: "bread ramstrategy D b k = Some (Got (Buf i), k1)" "cache_ok N D k1" "gets N (fsbtodb b) i k k1"
    "full (cells k1 (Buf i))" "get_data k1 (Buf i) = content_at N k (fsbtodb b)"
    using bread_ok [OF c idle_nb(2) idle_nb(1) on_disk_fsbtodb(2)] s b by metis
  have i: "i < N" "busy k1 i" "\<And>j. busy k1 j = (j = i \<or> busy k j)" using k1(3) by (simp_all add: gets_def)
  have coh: "live (cells k1 (Buf i)) \<and> full (cells k1 (Buf i)) \<and> \<not> flag (b_flags (cells k1 (Buf i))) B_DELWRI \<longrightarrow> clean k1 i"
    using k1(3) by (simp add: gets_def)
  obtain k2 where k2: "brelse (Buf i) k1 = Some k2" "cache_ok N D k2" "same_mem k1 k2" "\<not> busy k2 i"
    "\<And>j. j \<noteq> i \<Longrightarrow> cells k2 (Buf j) = cells k1 (Buf j)" "\<And>n. even n \<Longrightarrow> content_at N k2 n = content_at N k1 n"
    using brelse_ok [OF k1(2) i(1,2) coh] by metis
  have "read_block ramstrategy D b k = Some (content D k b, k2)"
    unfolding read_block_def using k1(1,5) k2(1) content_cache [OF c] by simp
  moreover have "\<not> busy k2 j" if "j < N" for j
  proof (cases "j = i")
    case False
    then have "busy k2 j = busy k1 j" using k2(5) by (simp add: busy_def)
    then show ?thesis using i(3) s that False by (simp add: idle_def)
  qed (use k2(4) in simp)
  then have "idle N D k2" using k2(2) s by (simp add: idle_def)
  moreover have "content D k2 = content D k"
    using k2(6) [OF fsbtodb_even] k1(3) fsbtodb_even by (simp add: fun_eq_iff content_cache [OF k2(2)] content_cache [OF c] gets_def)
  ultimately show thesis using that k2(3) k1(3) by (simp add: same_mem_def gets_def)
qed

lemma write_block_ok:
  assumes s: "idle N D k" and b: "on_disk k b" and ws: "length ws = 512" and t: "\<not> tape D"
  obtains k' where "write_block ramstrategy tape D m b ws k = Some k'" "idle N D k'" "ram_size k' = ram_size k"
    "u_error (u k') = u_error (u k)" "\<And>c. content D k' c = (if fsbtodb c = fsbtodb b then ws else content D k c)"
proof -
  have c: "cache_ok N D k" using s by (simp add: idle_def)
  obtain i k1 where k1: "getblk ramstrategy D b k = Some (Got (Buf i), k1)" "cache_ok N D k1" "gets N (fsbtodb b) i k k1"
    using getblk_ok [OF c idle_nb(2) idle_nb(1)] s by metis
  have i: "i < N" "busy k1 i" "\<And>j. busy k1 j = (j = i \<or> busy k j)" "live (cells k1 (Buf i))"
    "b_blkno (cells k1 (Buf i)) = fsbtodb b" "\<not> flag (b_flags (cells k1 (Buf i))) B_ERROR" "ram_size k1 = ram_size k"
    using k1(3) by (simp_all add: gets_def)
  have dk: "in_disk k1 (b_blkno (cells k1 (Buf i)))" using on_disk_fsbtodb(2) [OF b] i by (simp add: in_disk_def)
  define k2 where "k2 = put_data (Buf i) ws k1"
  note p = put_data_ok [OF k1(2) i(1,2,4) dk ws, folded k2_def]
  have c2: "busy k2 j = busy k1 j" "in_disk k2 n = in_disk k1 n" for j n by (simp_all add: busy_def p in_disk_def)
  obtain k3 where k3: "put_back ramstrategy tape m (Buf i) k2 = Some (Got (Buf i), k3)" "cache_ok N D k3" "beside i k2 k3" "\<not> busy k3 i"
    "\<And>n. even n \<Longrightarrow> content_at N k3 n = (if n = b_blkno (cells k2 (Buf i)) then get_data k2 (Buf i) else content_at N k2 n)"
    by (rule put_back_ok [OF p(1) i(1), of tape m]) (use i dk t c2 p(2) in auto)
  have "write_block ramstrategy tape D m b ws k = Some k3" unfolding write_block_def using k1(1) k3(1) by (simp add: k2_def)
  moreover have "\<not> busy k3 j" if "j < N" for j
  proof (cases "j = i")
    case False
    then have "busy k3 j = busy k1 j" using k3(3) p(2) by (simp add: busy_def beside_def)
    then show ?thesis using i(3) s that False by (simp add: idle_def)
  qed (use k3(4) in simp)
  then have "idle N D k3" using k3(2) s by (simp add: idle_def)
  moreover have "content D k3 x = (if fsbtodb x = fsbtodb b then ws else content D k x)" for x
    unfolding content_cache [OF k3(2)] content_cache [OF c] k3(5) [OF fsbtodb_even] p(2,3) i(5)
    using p(6) [OF fsbtodb_even, of x] k1(3) fsbtodb_even i(5) by (simp add: gets_def)
  moreover have "ram_size k3 = ram_size k" "u_error (u k3) = u_error (u k)"
    using k3(3) p(4,5) k1(3) by (simp_all add: beside_def gets_def)
  ultimately show thesis using that by blast
qed

text \<open>The cache on the RAM disk is a block store, whatever the number of buffers.\<close>

interpretation cache: block_store "\<lambda>k. idle N D k \<and> \<not> tape D" on_disk "content D" "read_block ramstrategy D" "write_block ramstrategy tape D"
  for N D tape
proof unfold_locales
  fix s :: "'a bio_scheme" and b
  assume s: "idle N D s \<and> \<not> tape D" and b: "on_disk s b"
  obtain k' where "read_block ramstrategy D b s = Some (content D s b, k')" "idle N D k'" "ram_size k' = ram_size s"
    "content D k' = content D s" using read_block_ok [OF _ b] s by metis
  then show "\<exists>s'. read_block ramstrategy D b s = Some (content D s b, s') \<and> (idle N D s' \<and> \<not> tape D) \<and> on_disk s' = on_disk s \<and>
      (\<forall>c. on_disk s c \<longrightarrow> content D s' c = content D s c)"
    using s by (auto simp: on_disk_def fun_eq_iff)
next
  fix s :: "'a bio_scheme" and b ws m
  assume s: "idle N D s \<and> \<not> tape D" and b: "on_disk s b" and ws: "length (ws :: u_int list) = 512"
  obtain k' where k': "write_block ramstrategy tape D m b ws s = Some k'" "idle N D k'" "ram_size k' = ram_size s"
    "\<And>c. content D k' c = (if fsbtodb c = fsbtodb b then ws else content D s c)"
    using write_block_ok [OF _ b ws, of N D tape m] s by metis
  have "content D k' c = (if c = b then ws else content D s c)" if "on_disk s c" for c
    using k'(4) on_disk_fsbtodb(1) [OF that] on_disk_fsbtodb(1) [OF b] by auto
  then show "\<exists>s'. write_block ramstrategy tape D m b ws s = Some s' \<and> (idle N D s' \<and> \<not> tape D) \<and> on_disk s' = on_disk s \<and>
      (\<forall>c. on_disk s c \<longrightarrow> content D s' c = (if c = b then ws else content D s c))"
    using s k' by (auto simp: on_disk_def fun_eq_iff)
qed

end
