(* ===== verification/BioProps.thy ===== *)
theory BioProps imports BioStore CalloutProps begin

text \<open>
  Properties of the buffer cache on the RAM disk: it is invisible but for the time it saves, it never gives one
  block two buffers, flushing it makes the disk agree with it, a read past the end of the disk fails alone.
\<close>

section \<open>Flushing\<close>

lemma state_eqI:
  fixes k k' :: "'a bio_scheme"
  assumes "rest k' = rest k" "cells k' = cells k" "same_links k k'"
  shows "k' = k"
proof -
  have "b' = b" if "payload b' = payload b" "b_forw b' = b_forw b" "b_back b' = b_back b" "av_forw b' = av_forw b"
    "av_back b' = av_back b" for b b'
    using that by (cases b; cases b') (simp add: payload_def)
  moreover have "payload (bufs k' r) = payload (bufs k r)" for r using fun_cong [OF assms(2), of r] by (simp add: cells_def)
  ultimately have "bufs k' = bufs k" using assms(3) by (simp add: same_links_def fun_eq_iff)
  then show ?thesis using assms(1) by (cases k; cases k') (simp add: rest_def)
qed

lemma bremfree_set: "bremfree bp (set_b b bp k) = set_b b bp (bremfree bp k)"
proof (rule state_eqI)
  show "same_links (set_b b bp (bremfree bp k)) (bremfree bp (set_b b bp k))"
    by (simp add: same_links_def) (auto simp: bremfree_def Let_def set_b_def fun_eq_iff)
qed simp_all

lemma notavail_set: "notavail bp (set_b B_ASYNC bp k) = set_b B_ASYNC bp (notavail bp k)"
proof -
  have o: "set_flag B_BUSY (set_flag B_ASYNC f) = set_flag B_ASYNC (set_flag B_BUSY f)" for f
    unfolding set_flag_def or.assoc or.commute [of B_ASYNC B_BUSY] ..
  have "set_b B_BUSY bp (set_b B_ASYNC bp k1) = set_b B_ASYNC bp (set_b B_BUSY bp k1)" for k1 :: "'a bio_scheme"
    by (rule state_eqI) (simp_all add: o same_links_def)
  then show ?thesis unfolding notavail_def bremfree_set .
qed

lemma delayed_on_ok:
  assumes f: "free_ok N k F" and q: "Free q \<in> fheads"
  shows "delayed_on dev q k = Some (List.find (\<lambda>r. has_b k r B_DELWRI \<and> (dev = NODEV \<or> dev = b_dev (bufs k r))) (F (Free q)))"
proof -
  have "rings (afw k) (abk k) fheads F" using f by (simp add: free_ok_def)
  from ringsD(1) [OF this q] have "ring (afw k) (abk k) (Free q) (F (Free q))" .
  from ring_find_ok [OF this] show ?thesis unfolding delayed_on_def by simp
qed

lemma delayed_ok:
  assumes f: "free_ok N k F" and dv: "\<forall>i < N. flag (b_flags (cells k (Buf i))) B_DELWRI \<longrightarrow> dev = NODEV \<or> dev = b_dev (cells k (Buf i))"
  obtains "delayed dev k = Some None" "delayed_bufs N k = {}"
  | j where "delayed dev k = Some (Some (Buf j))" "j < N" "\<not> busy k j" "flag (b_flags (cells k (Buf j))) B_DELWRI"
proof -
  let ?P = "\<lambda>r. has_b k r B_DELWRI \<and> (dev = NODEV \<or> dev = b_dev (bufs k r))"
  have q: "Free 0 \<in> fheads" "Free 1 \<in> fheads" "Free 2 \<in> fheads" by (simp_all add: fheads_def)
  note d = delayed_on_ok [OF f q(1)] delayed_on_ok [OF f q(2)] delayed_on_ok [OF f q(3)]
  have el: "elems fheads F = Buf ` {i. i < N \<and> \<not> busy k i}" using f by (simp add: free_ok_def)
  define g where "g q = List.find ?P (F (Free q))" for q
  have dg: "delayed dev k = Some (if g 0 \<noteq> None then g 0 else if g 1 \<noteq> None then g 1 else g 2)"
    unfolding delayed_def d g_def by simp
  have gs: "g q \<noteq> None" if "r \<in> set (F (Free q))" "?P r" for r q using that by (auto simp: g_def find_None_iff)
  show thesis
  proof (cases "\<exists>r \<in> elems fheads F. ?P r")
    case True
    then have "g 0 \<noteq> None \<or> g 1 \<noteq> None \<or> g 2 \<noteq> None" using gs unfolding elems_def fheads_def by blast
    then have "\<exists>r q. delayed dev k = Some (Some r) \<and> Free q \<in> fheads \<and> g q = Some r" unfolding dg using q by auto
    then have "\<exists>r q. delayed dev k = Some (Some r) \<and> Free q \<in> fheads \<and> List.find ?P (F (Free q)) = Some r" by (simp add: g_def)
    then obtain r q where r: "delayed dev k = Some (Some r)" "Free q \<in> fheads" "List.find ?P (F (Free q)) = Some r" by blast
    then have "r \<in> set (F (Free q))" "?P r" by (auto simp: find_Some_iff)
    then have "r \<in> elems fheads F" using r(2) by (auto simp: elems_def)
    then obtain j where "r = Buf j" "j < N" "\<not> busy k j" using el by auto
    then show thesis using that(2) r(1) \<open>?P r\<close> by (simp add: cell_fields)
  next
    case False
    then have "g q = None" if "Free q \<in> fheads" for q using that by (auto simp: g_def find_None_iff elems_def)
    then have "delayed dev k = Some None" using q unfolding dg by simp
    moreover have "delayed_bufs N k = {}"
    proof (rule ccontr)
      assume "delayed_bufs N k \<noteq> {}"
      then obtain j where j: "j < N" "\<not> busy k j" "flag (b_flags (cells k (Buf j))) B_DELWRI" by (auto simp: delayed_bufs_def)
      then have "Buf j \<in> elems fheads F" using el by simp
      moreover have "?P (Buf j)" using j dv by (simp add: cell_fields)
      ultimately show False using False by blast
    qed
    ultimately show thesis by (rule that(1))
  qed
qed

lemma bflush_ok:
  assumes "cache_ok N D k" "dev = D \<or> dev = NODEV"
  shows "\<exists>k'. bflush ramstrategy dev k = Some k' \<and> cache_ok N D k' \<and> quiet N k k' \<and> delayed_bufs N k' = {}"
  using assms(1)
proof (induction "card (delayed_bufs N k)" arbitrary: k rule: less_induct)
  case less
  obtain H F where F: "free_ok N k F" "\<And>i. i < N \<Longrightarrow> cell_ok D H k i" using cache_okD [OF less.prems] by metis
  have dv: "\<forall>i < N. flag (b_flags (cells k (Buf i))) B_DELWRI \<longrightarrow> dev = NODEV \<or> dev = b_dev (cells k (Buf i))"
    using F(2) assms(2) by (auto simp: cell_ok_def Let_def live_def)
  show ?case
  proof (rule delayed_ok [OF F(1) dv])
    assume "delayed dev k = Some None" "delayed_bufs N k = {}"
    then show ?thesis using less.prems by (subst bflush.simps) auto
  next
    fix j assume j: "delayed dev k = Some (Some (Buf j))" "j < N" "\<not> busy k j" "flag (b_flags (cells k (Buf j))) B_DELWRI"
    obtain k1 where k1: "bwrite ramstrategy (Buf j) (set_b B_ASYNC (Buf j) (notavail (Buf j) k)) = Some (Got (Buf j), k1)"
      "cache_ok N D k1" "quiet N k k1" "delayed_bufs N k1 = delayed_bufs N k - {j}"
      using flush_ok [OF less.prems j(2-4), of True] by auto
    have fin: "finite (delayed_bufs N k)" unfolding delayed_bufs_def by simp
    have "j \<in> delayed_bufs N k" using j by (simp add: delayed_bufs_def)
    then have sm: "card (delayed_bufs N k1) < card (delayed_bufs N k)" unfolding k1(4) by (rule card_Diff1_less [OF fin])
    have "bflush ramstrategy dev k = bflush ramstrategy dev k1"
      using j(1) k1(1) notavail_set [of "Buf j" k] by (subst bflush.simps) simp
    then show ?thesis using less.hyps [OF sm k1(2)] quiet_trans [OF k1(3)] by metis
  qed
qed

lemma clean_content:
  assumes c: "cache_ok N D k" and f: "\<forall>i < N. \<not> busy k i" "delayed_bufs N k = {}"
  shows "disk k (fsbtodb b) = content D k b"
proof -
  obtain H F where k: "unique N k" "\<And>i. i < N \<Longrightarrow> cell_ok D H k i" using cache_okD [OF c] by metis
  show ?thesis
  proof (cases "\<exists>i < N. live (cells k (Buf i)) \<and> b_blkno (cells k (Buf i)) = fsbtodb b")
    case True
    then obtain i where i: "i < N" "live (cells k (Buf i))" "b_blkno (cells k (Buf i)) = fsbtodb b" by blast
    have "\<not> flag (b_flags (cells k (Buf i))) B_DELWRI" using f i(1) by (auto simp: delayed_bufs_def)
    then have "cdata k i = disk k (fsbtodb b)" using k(2) [OF i(1)] f(1) i unfolding cdata_def clean_def cell_ok_def Let_def by auto
    then show ?thesis unfolding content_cache [OF c] using content_at_held [OF k(1) i(1,2)] i(3) by simp
  next
    case False
    then show ?thesis unfolding content_cache [OF c] by (intro content_at_free [symmetric]) blast
  qed
qed

section \<open>Reading past the end\<close>

lemma read_past_ok:
  assumes c: "cache_ok N D k" and i: "i < N" "busy k i" and l: "live (cells k (Buf i))"
    and dk: "\<not> in_disk k (b_blkno (cells k (Buf i)))"
    and f: "\<not> flag (b_flags (cells k (Buf i))) B_DONE" "\<not> flag (b_flags (cells k (Buf i))) B_ASYNC"
  obtains k' where "start_read ramstrategy B_READ (Buf i) k = Some k'" "cache_ok N D k'" "beside i k k'"
    "\<And>m. even m \<Longrightarrow> content_at N k' m = content_at N k m" "busy k' i"
    "flag (b_flags (cells k' (Buf i))) B_DONE" "flag (b_flags (cells k' (Buf i))) B_ERROR" "b_error (cells k' (Buf i)) = EINVAL"
    "live (cells k' (Buf i))" "b_blkno (cells k' (Buf i)) = b_blkno (cells k (Buf i))"
proof -
  obtain H F where k: "D \<noteq> NODEV" "chains_ok N k H" "free_ok N k F" "blocks_ok N D H k" "unique N k" "sizes_ok k"
    "cell_ok D H k i" "sys_ok k" using cache_okD [OF c] i(1) by metis
  let ?c = "cells k (Buf i)"
  define kb where "kb = upd_buf (Buf i) (\<lambda>b. b\<lparr>b_bcount := DEV_BSIZE\<rparr>) (set_b B_READ (Buf i) k)"
  define kt where "kt = ram_error EINVAL (Buf i) kb"
  define kw where "kw = clr_b B_WANTED (Buf i) (set_b B_DONE (Buf i) kt)"
  have rb: "rest kb = rest k" and rw: "rest kw = rest k" by (simp_all add: kw_def kt_def ram_error_def kb_def)
  note rr = restD [OF rb]
  have cb: "cells kb = (cells k)(Buf i := ?c\<lparr>b_flags := set_flag B_READ (b_flags ?c), b_bcount := DEV_BSIZE\<rparr>)"
    unfolding kb_def cells_upd payload_simps cells_def [symmetric] by simp
  have lb: "same_links k kb" unfolding kb_def by (rule same_trans(2) [OF flags_links(1) upd_field_links]) simp
  have lt: "same_links k kt" unfolding kt_def ram_error_def by (rule same_trans(2) [OF lb upd_field_links]) simp
  have lw: "same_links k kw"
    unfolding kw_def by (rule same_trans(2) [OF lt same_trans(2) [OF flags_links(1) flags_links(2)]])
  have ct: "cells kt = (cells kb)(Buf i := (cells kb (Buf i))\<lparr>b_error := EINVAL, b_flags := set_flag B_ERROR (b_flags (cells kb (Buf i)))\<rparr>)"
    unfolding kt_def ram_error_def cells_upd payload_simps cells_def [symmetric] by (simp add: cell_fields)
  have base: "ram_base kb \<noteq> 0" using k(6) rr by (simp add: sizes_ok_def)
  have out: "b_blkno (bufs kb (Buf i)) < 0 \<or> b_blkno (bufs kb (Buf i)) + uint (b_bcount (bufs kb (Buf i)) + 511) div 512 > uint (ram_size kb)"
    using dk rr by (auto simp: cell_fields cb in_disk_def)
  have kt: "ram_transfer (Buf i) kb = kt" unfolding ram_transfer_def Let_def kt_def using base out by simp
  have nd: "\<not> has_b kt (Buf i) B_DONE" "\<not> has_b kt (Buf i) B_ASYNC" using f by (simp_all add: cell_fields ct cb fl)
  have "sys_ok kw" using restD(7) [OF rw] k(8) by simp
  then obtain kx where kx: "wakeup (a_buf kw (Buf i)) kw = Some kx" "sys_ok kx" "bufs kx = bufs kw" "same_mem kw kx"
    using wake_ok by metis
  have lx: "same_links k kx" using same_trans(2) [OF lw] bufs_same [OF kx(3)] by blast
  have mx: "same_mem k kx" using same_trans(1) [OF same_memI [OF rw] kx(4)] .
  have aw: "a_buf kt = a_buf kw" unfolding kw_def by (simp add: clr_b_def set_b_def)
  have run: "start_read ramstrategy B_READ (Buf i) k = Some (count_in kx)"
    unfolding start_read_def ramstrategy_def kb_def [symmetric] kt using biodone_step [OF nd(1) refl] nd(2) kx(1)
    by (simp add: kw_def [symmetric] aw)
  define k' where "k' = count_in kx"
  have k': "bufs k' = bufs kx" "sys_ok k' = sys_ok kx" "bmem k' = bmem kx" "ram k' = ram kx" "ram_base k' = ram_base kx"
    "ram_size k' = ram_size kx" "a_buf k' = a_buf kx" "u_error (u k') = u_error (u kx)"
    by (simp_all add: k'_def count_in_def upd_u_def sys_ok_def sched_ok_def queues_def sleepers_ok_def)
  have m': "bmem k' = bmem k" "ram k' = ram k" "ram_base k' = ram_base k" "ram_size k' = ram_size k" "u_error (u k') = u_error (u k)"
    using k' mx by (simp_all add: same_mem_def)
  have ck: "cells k' = cells kw" using k'(1) kx(3) by (simp add: cells_def fun_eq_iff)
  have oc: "cells k' (Buf j) = cells k (Buf j)" if "j \<noteq> i" for j using that by (simp add: ck kw_def ct cb)
  have o: "only i k k'" using m' oc by (simp add: only_def)
  have f': "flag (b_flags (cells k' (Buf i))) B_DONE" "flag (b_flags (cells k' (Buf i))) B_ERROR"
    "b_error (cells k' (Buf i)) = EINVAL" "b_blkno (cells k' (Buf i)) = b_blkno ?c" "b_dev (cells k' (Buf i)) = b_dev ?c"
    "b_addr (cells k' (Buf i)) = b_addr ?c" "live (cells k' (Buf i))" "busy k' i"
    "flag (b_flags (cells k' (Buf i))) B_RAMREMAP = flag (b_flags ?c) B_RAMREMAP"
    "flag (b_flags (cells k' (Buf i))) B_DELWRI = flag (b_flags ?c) B_DELWRI" "b_resid (cells k' (Buf i)) = b_resid ?c"
    using l i(2) by (simp_all add: ck kw_def ct cb fl live_def busy_def)
  have nf: "\<not> full (cells k' (Buf i))" "\<not> full ?c" using f'(2) f(1) by (simp_all add: full_def)
  have ok': "cell_ok D H k' i" unfolding cell_ok_def Let_def f'(4-11) using k(7) nf f'(8) l by (auto simp: cell_ok_def Let_def)
  have bl: "blocks_ok N D H k'"
    by (rule only_blocks [OF k(4) i(1) o _ _ ok']) (use k(5,6) l i(1) m' f'(4) in \<open>auto simp: unique_def sizes_ok_def\<close>)
  have bu: "busy k' j = busy k j" for j using only_busy [OF o] i(2) f'(8) by (cases "j = i") simp_all
  have "chains_ok N k' H" using k(2) chains_ok_cong [of k' k] lx k'(1) by (simp add: same_links_def)
  moreover have "free_ok N k' F" using k(3) free_ok_cong [of k' k] lx bu k'(1) by (simp add: same_links_def)
  ultimately have cc: "cache_ok N D k'" unfolding cache_ok_def using kx(2) k'(2) k(1) bl by blast
  have "content_at N k' n = content_at N k n" if n: "even n" for n
    unfolding only_content [OF k(4) i(1) o bl n] using content_at_held [OF k(5) i(1) l] nf m'(2) f'(4,7) l
    by (auto simp: cdata_def disk_def)
  then show thesis using that [of k'] run cc f'(1-4,7,8) oc m' by (simp add: k'_def [symmetric] beside_def)
qed

section \<open>The cache in use\<close>

text \<open>
  What the kernel does with the cache, call by call and in any order, by clients that own the buffers they
  have got: getblk and bread with a free buffer left, storing into a buffer, giving it back in one of the
  ways, releasing a buffer that was not changed, flushing. Where getblk sleeps it has set
  \<open>B_WANTED\<close> and will start again.
\<close>

inductive cache_use :: "nat \<Rightarrow> u_int \<Rightarrow> (u_int \<Rightarrow> bool) \<Rightarrow> 'a bio_scheme \<Rightarrow> 'a bio_scheme \<Rightarrow> bool" for N D tape where
  getblk: "\<exists>i < N. \<not> busy k i \<Longrightarrow> getblk ramstrategy D b k = Some (r, k') \<Longrightarrow> cache_use N D tape k k'"
| bread: "\<exists>i < N. \<not> busy k i \<Longrightarrow> on_disk k b \<Longrightarrow> bread ramstrategy D b k = Some (r, k') \<Longrightarrow> cache_use N D tape k k'"
| store: "i < N \<Longrightarrow> busy k i \<Longrightarrow> live (cells k (Buf i)) \<Longrightarrow> in_disk k (b_blkno (cells k (Buf i))) \<Longrightarrow> length ws = 512 \<Longrightarrow>
    cache_use N D tape k (put_data (Buf i) ws k)"
| give: "i < N \<Longrightarrow> busy k i \<Longrightarrow> live (cells k (Buf i)) \<Longrightarrow> in_disk k (b_blkno (cells k (Buf i))) \<Longrightarrow>
    \<not> flag (b_flags (cells k (Buf i))) B_ERROR \<Longrightarrow> put_back ramstrategy tape m (Buf i) k = Some (r, k') \<Longrightarrow> cache_use N D tape k k'"
| release: "i < N \<Longrightarrow> busy k i \<Longrightarrow> full (cells k (Buf i)) \<and> \<not> flag (b_flags (cells k (Buf i))) B_DELWRI \<longrightarrow> clean k i \<Longrightarrow>
    brelse (Buf i) k = Some k' \<Longrightarrow> cache_use N D tape k k'"
| flush: "dev = D \<or> dev = NODEV \<Longrightarrow> bflush ramstrategy dev k = Some k' \<Longrightarrow> cache_use N D tape k k'"

lemma want_ok:
  assumes c: "cache_ok N D k" and i: "i < N"
  shows "cache_ok N D (set_b B_WANTED (Buf i) k)"
proof -
  have "rest (set_b B_WANTED (Buf i) k) = rest k" by simp
  note r = same_memI [OF this] restD(7) [OF this]
  show ?thesis
    by (rule alike_ok(1) [OF c i r(1)]) (use r(2) c in \<open>auto simp: cache_ok_def alike_def fl\<close>)
qed

lemma getblk_total:
  assumes c: "cache_ok N D k" and f: "\<exists>i < N. \<not> busy k i"
  obtains (got) i k' where "getblk ramstrategy D b k = Some (Got (Buf i), k')" "cache_ok N D k'" "gets N (fsbtodb b) i k k'"
     "none_busy_at N k (fsbtodb b)"
  | (wait) i where "i < N" "busy k i" "live (cells k (Buf i))" "b_blkno (cells k (Buf i)) = fsbtodb b"
     "getblk ramstrategy D b k = Some (Sleeps (a_buf k (Buf i)) (PRIBIO + 1), set_b B_WANTED (Buf i) k)"
proof (cases "none_busy_at N k (fsbtodb b)")
  case True
  then show thesis using getblk_ok [OF c f] got by metis
next
  case False
  then obtain i where i: "i < N" "live (cells k (Buf i))" "b_blkno (cells k (Buf i)) = fsbtodb b" "busy k i"
    by (auto simp: none_busy_at_def)
  obtain H where H: "D \<noteq> NODEV" "chains_ok N k H" "blocks_ok N D H k" using cache_okD [OF c] by metis
  have "getblk ramstrategy D b k = Some (Sleeps (a_buf k (Buf i)) (PRIBIO + 1), set_b B_WANTED (Buf i) k)"
    using find_block_ok(1) [OF H(2,3,1) i(1-3)] i(4) by (simp add: getblk_def cell_fields busy_def)
  then show thesis using wait i by blast
qed

lemma cache_use_ok:
  assumes "cache_use N D tape k k'" "cache_ok N D k" "\<not> tape D"
  shows "cache_ok N D k'"
  using assms
proof cases
  case (getblk b r)
  show ?thesis
  proof (cases rule: getblk_total [OF assms(2) getblk(1), of b, case_names got wait])
    case (got i k1)
    then show ?thesis using getblk(2) by simp
  next
    case (wait i)
    then show ?thesis using getblk(2) want_ok [OF assms(2) wait(1)] by simp
  qed
next
  case (bread b r)
  show ?thesis
  proof (cases "none_busy_at N k (fsbtodb b)")
    case True
    show ?thesis using bread_ok [OF assms(2) bread(1) True on_disk_fsbtodb(2) [OF bread(2)]] bread(3) by (metis option.inject prod.inject)
  next
    case False
    show ?thesis
    proof (cases rule: getblk_total [OF assms(2) bread(1), of b, case_names got wait])
      case (got i k1)
      then show ?thesis using False by simp
    next
      case (wait i)
      then show ?thesis using bread(3) want_ok [OF assms(2) wait(1)] by (simp add: bread_def)
    qed
  qed
next
  case (store i ws)
  then show ?thesis using put_data_ok(1) [OF assms(2)] by simp
next
  case (give i m r)
  show ?thesis using put_back_ok [OF assms(2) give(1-5), of tape m] assms(3) give(6) by (metis option.inject prod.inject)
next
  case (release i)
  have "live (cells k (Buf i)) \<and> full (cells k (Buf i)) \<and> \<not> flag (b_flags (cells k (Buf i))) B_DELWRI \<longrightarrow> clean k i"
    using release(3) by blast
  then show ?thesis using brelse_ok [OF assms(2) release(1,2)] release(4) by (metis option.inject)
next
  case (flush dev)
  then show ?thesis using bflush_ok [OF assms(2)] by (metis option.inject)
qed

lemma error_cache:
  "cache_ok N D k \<Longrightarrow> cache_ok N D (set_error e k)" "content_at N (set_error e k) n = content_at N k n"
proof -
  have b: "bufs (set_error e k) = bufs k" "bmem (set_error e k) = bmem k" "ram (set_error e k) = ram k"
    "ram_base (set_error e k) = ram_base k" "ram_size (set_error e k) = ram_size k" "sys_ok (set_error e k) = sys_ok k"
    by (simp_all add: set_error_def upd_u_def sys_ok_def sched_ok_def queues_def sleepers_ok_def)
  then have c: "cells (set_error e k) = cells k" by (simp add: cells_def fun_eq_iff)
  have d: "disk (set_error e k) = disk k" "get_data (set_error e k) = get_data k" "in_disk (set_error e k) = in_disk k"
    by (simp_all add: disk_def get_data_def in_disk_def fun_eq_iff b split: baddr.split)
  have cd: "cdata (set_error e k) = cdata k" by (simp add: cdata_def fun_eq_iff c d)
  show "content_at N (set_error e k) n = content_at N k n" unfolding content_at_def c cd d ..
  show "cache_ok N D k \<Longrightarrow> cache_ok N D (set_error e k)"
    unfolding cache_ok_def blocks_ok_def cell_ok_def unique_def sizes_ok_def clean_def busy_def chains_ok_def free_ok_def Let_def c d b .
qed

section \<open>A small cache\<close>

text \<open>Two buffers without a block, on a RAM disk of 500 blocks of zeros.\<close>

definition demo_ring :: "bref \<Rightarrow> bref" where
  "demo_ring = id(Free 2 := Buf 0, Buf 0 := Buf 1, Buf 1 := Free 2)"

definition demo_back :: "bref \<Rightarrow> bref" where
  "demo_back = id(Free 2 := Buf 1, Buf 0 := Free 2, Buf 1 := Buf 0)"

definition demo_bio :: bio where
  "demo_bio = clk.extend demo_clk0 (bio.fields
     (\<lambda>r. \<lparr>b_flags = B_INVAL, b_forw = demo_ring r, b_back = demo_back r, av_forw = demo_ring r, av_back = demo_back r,
        b_bcount = 0, b_error = NOERR, b_dev = NODEV, b_blkno = 0, b_resid = 0,
        b_addr = (case r of Buf i \<Rightarrow> Own i | _ \<Rightarrow> Own 0)\<rparr>)
     (\<lambda>r. case r of Buf 0 \<Rightarrow> 0x400 | Buf (Suc i) \<Rightarrow> 0x420 | _ \<Rightarrow> 0x200)
     (\<lambda>_. replicate 512 0) (\<lambda>_. replicate 256 0) 0x2000 1000)"

lemma demo_bio_fields [simp]:
  "fwd demo_bio = demo_ring" "bck demo_bio = demo_back" "afw demo_bio = demo_ring" "abk demo_bio = demo_back"
  "ram_size demo_bio = 1000" "ram_base demo_bio = 0x2000" "ram demo_bio = (\<lambda>_. replicate 256 0)"
  "bmem demo_bio = (\<lambda>_. replicate 512 0)" "u demo_bio = demo_user"
  "b_flags (cells demo_bio r) = B_INVAL" "b_dev (cells demo_bio r) = NODEV" "b_resid (cells demo_bio r) = 0" "b_addr (cells demo_bio (Buf i)) = Own i"
  by (simp_all add: demo_bio_def demo_clk0_def demo_kern_def cells_def kern.defs clk.defs bio.defs fun_eq_iff)

lemma demo_sys: "sys_ok demo_bio"
proof -
  have "sched_ok demo_bio = sched_ok demo_kern" "sleepers_ok demo_bio = sleepers_ok demo_kern" "a_runout demo_bio = a_runout demo_kern"
    by (simp_all add: demo_bio_def demo_clk0_def sched_ok_def queues_def sleepers_ok_def kern.defs clk.defs)
  moreover have "a_buf demo_bio r \<noteq> 0" for r
    by (simp add: demo_bio_def demo_clk0_def kern.defs clk.defs bio.defs split: bref.split nat.split)
  ultimately show ?thesis using demo_sched by (simp add: sys_ok_def)
qed

lemma demo_rings:
  assumes "Free 2 \<in> Hs" "\<forall>i. Buf i \<notin> Hs"
  shows "rings demo_ring demo_back Hs ((\<lambda>_. [])(Free 2 := [Buf 0, Buf 1]))" "elems Hs ((\<lambda>_. [])(Free 2 := [Buf 0, Buf 1])) = Buf ` {..<2}"
proof -
  have "ring demo_ring demo_back d (((\<lambda>_. [])(Free 2 := [Buf 0, Buf 1])) d)" if "d \<in> Hs" for d
    using assms(2) that by (auto simp: ring_def demo_ring_def demo_back_def)
  then show "rings demo_ring demo_back Hs ((\<lambda>_. [])(Free 2 := [Buf 0, Buf 1]))" using assms by (auto simp: rings_def)
  show "elems Hs ((\<lambda>_. [])(Free 2 := [Buf 0, Buf 1])) = Buf ` {..<2}"
    unfolding elems_upd(1) [OF assms(1)] by (auto simp: elems_def numeral_2_eq_2 less_Suc_eq)
qed

lemma demo_idle: "idle 2 0x300 demo_bio"
proof -
  let ?X = "(\<lambda>_. [])(Free 2 := [Buf 0, Buf 1])"
  have fl: "\<not> flag B_INVAL B_BUSY" "flag B_INVAL B_INVAL" "\<not> flag B_INVAL B_DELWRI" "\<not> flag B_INVAL B_RAMREMAP"
    "\<not> flag B_INVAL B_ASYNC" by (simp_all add: flag_def)
  have b: "\<not> busy demo_bio i" for i by (simp add: busy_def fl)
  have "Free 2 \<in> heads" "Free 2 \<in> fheads" by (simp_all add: heads_def fheads_def)
  note r = demo_rings [OF this(1)] demo_rings [OF this(2)]
  have c: "chains_ok 2 demo_bio ?X" using r by (simp add: chains_ok_def)
  have "{i. i < 2 \<and> \<not> busy demo_bio i} = {..<2}" using b by auto
  then have f: "free_ok 2 demo_bio ?X" using r by (simp add: free_ok_def)
  have l: "\<not> live (cells demo_bio r)" for r by (simp add: live_def)
  have "cell_ok 0x300 ?X demo_bio i" for i unfolding cell_ok_def Let_def by (simp add: l fl)
  then have "blocks_ok 2 0x300 ?X demo_bio" using l by (simp add: blocks_ok_def unique_def sizes_ok_def)
  then show ?thesis using demo_sys c f b unfolding idle_def cache_ok_def by auto
qed

lemma demo_content: "content 0x300 demo_bio b = replicate 512 0"
proof -
  have c: "cache_ok 2 0x300 demo_bio" using demo_idle by (simp add: idle_def)
  have "\<not> live (cells demo_bio r)" for r by (simp add: live_def)
  then have "content_at 2 demo_bio (fsbtodb b) = disk demo_bio (fsbtodb b)" by (intro content_at_free) simp
  then show ?thesis unfolding content_cache [OF c] by (simp add: disk_def flip: replicate_add)
qed

section \<open>Properties\<close>

text \<open>C22: The buffer cache is invisible. Any sequence of block reads (bread, brelse) and writes (getblk,
  then bwrite, bawrite or bdwrite), through any number of buffers, reads what the same sequence would read
  from a plain array of blocks, and leaves the contents that array would have; no operation fails or waits.\<close>

theorem cache_transparent:
  assumes "idle N D k" "\<not> tape D" "\<forall>op \<in> set ops. cache.op_ok (on_disk k) op"
  shows "\<exists>k'. cache.session D tape ops k = Some (fst (cache.plain ops (content D k)), k') \<and> idle N D k' \<and>
    (\<forall>b. on_disk k b \<longrightarrow> content D k' b = snd (cache.plain ops (content D k)) b)"
  using cache.session_plain [of N D k tape ops] assms by blast

theorem cache_transparent_witness:
  "\<exists>k'. cache.session 0x300 (\<lambda>_. False) [Wr Delayed 7 (replicate 512 1), Rd 8, Wr Sync 9 (replicate 512 2), Rd 7] demo_bio =
     Some ([replicate 512 0, replicate 512 1], k') \<and> content 0x300 k' 9 = replicate 512 2"
proof -
  let ?ops = "[Wr Delayed 7 (replicate 512 1), Rd 8, Wr Sync 9 (replicate 512 2), Rd 7]"
  have o: "\<forall>op \<in> set ?ops. cache.op_ok (on_disk demo_bio) op" "on_disk demo_bio 9" by (simp_all add: on_disk_def)
  have p: "cache.plain ?ops (content 0x300 demo_bio) = ([replicate 512 0, replicate 512 1],
      (content 0x300 demo_bio)(7 := replicate 512 1, 9 := replicate 512 2))"
    by (simp add: demo_content Let_def split_beta)
  from cache_transparent [OF demo_idle, of "\<lambda>_. False", OF _ o(1)] show ?thesis unfolding p using o(2) by auto
qed



text \<open>C24: bflush makes the disk agree with the cache. It ends, after writing every delayed write of the
  device, and then the disk holds for every block what a read through the cache returns, which is what it
  returned before.\<close>

theorem bflush_durable:
  assumes "idle N D k" "dev = D \<or> dev = NODEV"
  shows "\<exists>k'. bflush ramstrategy dev k = Some k' \<and> idle N D k' \<and> (\<forall>b. content D k' b = content D k b \<and> disk k' (fsbtodb b) = content D k b)"
proof -
  have c: "cache_ok N D k" using assms(1) by (simp add: idle_def)
  obtain k' where k': "bflush ramstrategy dev k = Some k'" "cache_ok N D k'" "quiet N k k'" "delayed_bufs N k' = {}"
    using bflush_ok [OF c assms(2)] by blast
  have i: "idle N D k'" using assms(1) k'(2,3) by (simp add: idle_def quiet_def)
  have q: "\<And>n. even n \<Longrightarrow> content_at N k' n = content_at N k n" using k'(3) by (simp add: quiet_def)
  have e: "content D k' b = content D k b" for b
    unfolding content_cache [OF c] content_cache [OF k'(2)] by (rule q [OF fsbtodb_even])
  have "disk k' (fsbtodb b) = content D k' b" for b by (rule clean_content [OF k'(2) _ k'(4)]) (use i in \<open>simp add: idle_def\<close>)
  then show ?thesis using k'(1) i e by auto
qed

theorem bflush_durable_witness:
  "\<exists>k k'. write_block ramstrategy (\<lambda>_. False) 0x300 Delayed 7 (replicate 512 1) demo_bio = Some k \<and>
     bflush ramstrategy 0x300 k = Some k' \<and> ram k' 14 @ ram k' 15 = replicate 512 1"
proof -
  have b: "on_disk demo_bio 7" by (simp add: on_disk_def)
  obtain k where k: "write_block ramstrategy (\<lambda>_. False) 0x300 Delayed 7 (replicate 512 1) demo_bio = Some k" "idle 2 0x300 k"
    "content 0x300 k 7 = replicate 512 1"
    using write_block_ok [OF demo_idle b, of "replicate 512 1" "\<lambda>_. False" Delayed] by (metis length_replicate)
  have "fsbtodb 7 = 14" using on_disk_fsbtodb(1) [OF b] by simp
  moreover obtain k' where "bflush ramstrategy 0x300 k = Some k'" "disk k' (fsbtodb 7) = content 0x300 k 7"
    using bflush_durable [OF k(2) disjI1 [OF refl]] by blast
  ultimately show ?thesis using k(1,3) by (auto simp: disk_def)
qed

lemma bread_past_ok:
  assumes "idle N D k" "\<not> in_disk k (fsbtodb b)" "u_error (u k) = NOERR"
  obtains i k' where "bread ramstrategy D b k = Some (Got (Buf i), k')" "cache_ok N D k'" "i < N" "b_blkno (cells k' (Buf i)) = fsbtodb b"
    "live (cells k' (Buf i))" "\<And>j. busy k' j = (j = i \<or> busy k j)" "flag (b_flags (cells k' (Buf i))) B_ERROR"
    "u_error (u k') = EINVAL" "\<And>m. even m \<Longrightarrow> content_at N k' m = content_at N k m"
proof -
  have c: "cache_ok N D k" using assms(1) by (simp add: idle_def)
  obtain i k1 where g: "getblk ramstrategy D b k = Some (Got (Buf i), k1)" "cache_ok N D k1" "gets N (fsbtodb b) i k k1"
    "\<not> flag (b_flags (cells k1 (Buf i))) B_ASYNC" using getblk_ok [OF c idle_nb(2) idle_nb(1)] assms(1) by metis
  have i: "i < N" "busy k1 i" "live (cells k1 (Buf i))" "b_blkno (cells k1 (Buf i)) = fsbtodb b"
    "\<not> flag (b_flags (cells k1 (Buf i))) B_ERROR" "\<And>j. busy k1 j = (j = i \<or> busy k j)" "ram_size k1 = ram_size k"
    using g(3) by (simp_all add: gets_def)
  have out: "\<not> in_disk k1 (b_blkno (cells k1 (Buf i)))" using assms(2) i by (simp add: in_disk_def)
  have "cell_ok D H k1 i \<Longrightarrow> \<not> full (cells k1 (Buf i))" for H using out i(3) by (auto simp: cell_ok_def Let_def)
  then have nd: "\<not> flag (b_flags (cells k1 (Buf i))) B_DONE" using cache_okD [OF g(2)] i(1,5) unfolding full_def by metis
  obtain k2 where s: "start_read ramstrategy B_READ (Buf i) k1 = Some k2" "cache_ok N D k2" "beside i k1 k2"
    "\<And>m. even m \<Longrightarrow> content_at N k2 m = content_at N k1 m" "busy k2 i" "flag (b_flags (cells k2 (Buf i))) B_DONE"
    "flag (b_flags (cells k2 (Buf i))) B_ERROR" "b_error (cells k2 (Buf i)) = EINVAL" "live (cells k2 (Buf i))"
    "b_blkno (cells k2 (Buf i)) = b_blkno (cells k1 (Buf i))"
    using read_past_ok [OF g(2) i(1-3) out nd g(4)] by metis
  define k3 where "k3 = set_error EINVAL k2"
  have "u_error (u k2) = NOERR" using s(3) g(3) assms(3) by (simp add: beside_def gets_def)
  then have run: "bread ramstrategy D b k = Some (Got (Buf i), k3)"
    using nd s(1,6-8) by (simp add: bread_def g(1) cell_fields biowait_def geterror_def k3_def)
  have c3: "cells k3 = cells k2" by (simp add: k3_def set_error_def upd_u_def cells_def fun_eq_iff)
  have "busy k3 j = (j = i \<or> busy k j)" for j
    using s(3,5) i(6) by (cases "j = i") (simp_all add: busy_def c3 beside_def)
  moreover have "cache_ok N D k3" "\<And>m. even m \<Longrightarrow> content_at N k3 m = content_at N k m"
    using s(2,4) g(3) by (simp_all add: k3_def error_cache gets_def)
  moreover have "u_error (u k3) = EINVAL" by (simp add: k3_def set_error_def)
  ultimately show thesis using that run i(1,4) s(7,9,10) by (metis c3)
qed

text \<open>A read past the end of the disk fails, and only that. bread returns a buffer marked \<open>B_ERROR\<close> with
  EINVAL in \<open>u_error\<close>; releasing it takes the buffer away from the block, so that the next read tries again,
  and no block's contents have changed.\<close>

lemma bread_past_end:
  assumes "idle N D k" "\<not> in_disk k (fsbtodb b)" "u_error (u k) = NOERR"
  shows "\<exists>i k1 k2. bread ramstrategy D b k = Some (Got (Buf i), k1) \<and> flag (b_flags (bufs k1 (Buf i))) B_ERROR \<and>
    u_error (u k1) = EINVAL \<and> brelse (Buf i) k1 = Some k2 \<and> idle N D k2 \<and> find_block D b k2 = Some None \<and>
    content D k2 = content D k"
proof -
  have c: "cache_ok N D k" using assms(1) by (simp add: idle_def)
  obtain i k1 where r: "bread ramstrategy D b k = Some (Got (Buf i), k1)" "cache_ok N D k1" "i < N"
    "b_blkno (cells k1 (Buf i)) = fsbtodb b" "live (cells k1 (Buf i))" "\<And>j. busy k1 j = (j = i \<or> busy k j)"
    "flag (b_flags (cells k1 (Buf i))) B_ERROR" "u_error (u k1) = EINVAL" "\<And>m. even m \<Longrightarrow> content_at N k1 m = content_at N k m"
    using bread_past_ok [OF assms] by metis
  obtain k2 where k2: "brelse (Buf i) k1 = Some k2" "cache_ok N D k2" "\<not> busy k2 i"
    "\<And>j. j \<noteq> i \<Longrightarrow> cells k2 (Buf j) = cells k1 (Buf j)" "cells k2 (Buf i) = released (cells k1 (Buf i))"
    "\<And>n. even n \<Longrightarrow> content_at N k2 n = content_at N k1 n"
    using brelse_ok [OF r(2,3)] r(6,7) by (metis full_def)
  have "busy k2 j = (j \<noteq> i \<and> busy k j)" for j
    using k2(3,4) r(6) by (cases "j = i") (simp_all add: busy_def)
  then have "idle N D k2" using k2(2) assms(1) by (simp add: idle_def)
  moreover have "\<forall>j < N. live (cells k2 (Buf j)) \<longrightarrow> b_blkno (cells k2 (Buf j)) \<noteq> fsbtodb b"
  proof (intro allI impI)
    fix j assume j: "j < N" "live (cells k2 (Buf j))"
    moreover have "\<not> live (cells k2 (Buf i))" using k2(5) r(7) by (simp add: live_def)
    ultimately have ji: "j \<noteq> i" by auto
    have "unique N k1" using cache_okD [OF r(2)] by metis
    then show "b_blkno (cells k2 (Buf j)) \<noteq> fsbtodb b" using r(3-5) j ji k2(4) [OF ji] unfolding unique_def by metis
  qed
  then have "find_block D b k2 = Some None" using find_block_ok(2) cache_okD [OF k2(2)] by metis
  moreover have "content D k2 = content D k"
    unfolding fun_eq_iff content_cache [OF k2(2)] content_cache [OF c] using k2(6) r(9) fsbtodb_even by simp
  ultimately show ?thesis using r(1,7,8) k2(1) by (auto simp: cell_fields)
qed

lemma bread_past_end_witness:
  "\<exists>i k1. bread ramstrategy 0x300 500 demo_bio = Some (Got (Buf i), k1) \<and> u_error (u k1) = EINVAL"
proof -
  have "fsbtodb 500 = 1000" by (simp add: fsbtodb_def int32_def)
  then have "\<not> in_disk demo_bio (fsbtodb 500)" "u_error (u demo_bio) = NOERR" by (simp_all add: in_disk_def demo_user_def)
  from bread_past_end [OF demo_idle this] show ?thesis by blast
qed



end
