(* ===== verification/BioFrame.thy ===== *)
theory BioFrame imports BioStore begin

text \<open>
  What the buffer cache leaves alone in a bigger state: the operations keep every field that an extension of the
  state adds, and assignments to such fields do not matter to the cache.
\<close>

section \<open>The cache keeps the rest of the state\<close>

lemma more_more: "kern.more (k' :: 'a bio_scheme) = kern.more k \<Longrightarrow> bio.more k' = bio.more k"
  by (cases k; cases k') simp

lemma wakeup_bmore: "wakeup c k = Some k' \<Longrightarrow> bio.more k' = bio.more (k :: 'a bio_scheme)"
  by (rule more_more [OF wakeup_more])

lemma upd_bmore [simp]:
  "bio.more (upd_buf r f k) = bio.more k" "bio.more (set_b b r k) = bio.more k" "bio.more (clr_b b r k) = bio.more k"
  "bio.more (upd_u g k) = bio.more k" "bio.more (set_error e k) = bio.more k" "bio.more (count_in k) = bio.more k"
  "bio.more (count_out k) = bio.more k" "bio.more (put_data r ws k) = bio.more k" "bio.more (clrbuf r k) = bio.more k"
  by (simp_all add: upd_buf_def set_b_def clr_b_def upd_u_def set_error_def count_in_def count_out_def put_data_def clrbuf_def
      split: baddr.split)

lemma macro_bmore [simp]:
  "bio.more (bremhash bp k) = bio.more k" "bio.more (binshash bp dp k) = bio.more k" "bio.more (bremfree bp k) = bio.more k"
  "bio.more (binsheadfree bp dp k) = bio.more k" "bio.more (binstailfree bp dp k) = bio.more k" "bio.more (notavail bp k) = bio.more k"
  "bio.more (bfree bp k) = bio.more k" "bio.more (own_memory bp k) = bio.more k" "bio.more (take_new dev b bp k) = bio.more k"
  by (simp_all add: bremhash_def binshash_def bremfree_def binsheadfree_def binstailfree_def notavail_def bfree_def own_memory_def
      take_new_def Let_def)

text \<open>The fields around the cache: those of an extension, and the time.\<close>

definition outer :: "'a bio_scheme \<Rightarrow> int \<times> 'a" where
  "outer k = (time_sec k, bio.more k)"

lemma outerD: "outer k' = outer k \<Longrightarrow> bio.more k' = bio.more k" "outer k' = outer k \<Longrightarrow> time_sec k' = time_sec k"
  by (simp_all add: outer_def)

lemma wakeup_outer: "wakeup c k = Some k' \<Longrightarrow> outer k' = outer (k :: 'a bio_scheme)"
  using wakeup_more [of c k k'] by (cases k; cases k') (simp add: outer_def)

lemma upd_outer [simp]:
  "outer (upd_buf r f k) = outer k" "outer (set_b b r k) = outer k" "outer (clr_b b r k) = outer k"
  "outer (upd_u g k) = outer k" "outer (set_error e k) = outer k" "outer (count_in k) = outer k"
  "outer (count_out k) = outer k" "outer (put_data r ws k) = outer k" "outer (k\<lparr>ram := m\<rparr>) = outer k" "outer (k\<lparr>ram_base := a\<rparr>) = outer k" "outer (k\<lparr>ram_size := n\<rparr>) = outer k"
  by (simp_all add: outer_def upd_buf_def set_b_def clr_b_def upd_u_def set_error_def count_in_def count_out_def put_data_def split: baddr.split)

lemma macro_outer [simp]:
  "outer (bremhash bp k) = outer k" "outer (binshash bp dp k) = outer k" "outer (bremfree bp k) = outer k"
  "outer (binsheadfree bp dp k) = outer k" "outer (binstailfree bp dp k) = outer k" "outer (notavail bp k) = outer k"
  "outer (bfree bp k) = outer k" "outer (own_memory bp k) = outer k" "outer (take_new dev b bp k) = outer k"
  by (simp_all add: bremhash_def binshash_def bremfree_def binsheadfree_def binstailfree_def notavail_def bfree_def own_memory_def
      take_new_def Let_def)

lemma brelse_outer:
  assumes "brelse bp k = Some k'"
  shows "outer k' = outer k"
proof -
  obtain k1 k2 where k1: "(if has_b k bp B_WANTED then wakeup (a_buf k bp) k else Some k) = Some k1"
    and k2: "(if has_b k1 (Free 0) B_WANTED then
              (let k2 = clr_b B_WANTED (Free 0) k1 in wakeup (a_buf k2 (Free 0)) k2) else Some k1) = Some k2"
    and k': "(let k3 = (if has_b k2 bp B_ERROR then upd_buf bp (\<lambda>b. b\<lparr>b_dev := NODEV\<rparr>) k2 else k2);
         k4 = (if has_b k3 bp (or B_ERROR B_INVAL) then binsheadfree bp (Free 2) k3
               else binstailfree bp (if has_b k3 bp B_AGE then Free 2 else Free 1) k3)
       in Some (clr_b (or B_WANTED (or B_BUSY (or B_ASYNC B_AGE))) bp k4)) = Some k'"
    using assms unfolding brelse_def bind_eq_Some_conv by blast
  have "outer k1 = outer k" using k1 by (auto split: if_splits dest: wakeup_outer)
  moreover have "outer k2 = outer k1" using k2 by (auto simp: Let_def split: if_splits dest: wakeup_outer)
  moreover have "outer k' = outer k2" using k' by (auto simp: Let_def split: if_splits)
  ultimately show ?thesis by simp
qed

lemma biodone_outer: "biodone bp k = Some k' \<Longrightarrow> outer k' = outer k"
  by (auto simp: biodone_def Let_def split: if_splits dest!: brelse_outer wakeup_outer)

lemma ramstrategy_outer: "ramstrategy bp k = Some k' \<Longrightarrow> outer k' = outer k"
  by (auto simp: ramstrategy_def ram_transfer_def ram_error_def ramstart_def Let_def split: if_splits dest!: biodone_outer)

lemma biowait_outer: "biowait bp k = (r, k') \<Longrightarrow> outer k' = outer k"
  by (auto simp: biowait_def split: if_splits)

lemma bwrite_outer:
  assumes "bwrite ramstrategy bp k = Some (r, k')"
  shows "outer k' = outer k"
proof -
  let ?f = "b_flags (bufs k bp)"
  obtain k3 where k3: "ramstrategy bp (upd_buf bp (\<lambda>b. b\<lparr>b_bcount := DEV_BSIZE\<rparr>)
      (let k1 = clr_b (or B_READ (or B_DONE (or B_ERROR B_DELWRI))) bp k in if \<not> flag ?f B_DELWRI then count_out k1 else k1)) = Some k3"
    and k': "(if \<not> flag ?f B_ASYNC then
       (case biowait bp k3 of (Sleeps c p, k4) \<Rightarrow> Some (Sleeps c p, k4)
        | (Got _, k4) \<Rightarrow> map_option (\<lambda>k5. (Got bp, k5)) (brelse bp k4))
     else Some (Got bp, if flag ?f B_DELWRI then set_b B_AGE bp k3 else k3)) = Some (r, k')"
    using assms unfolding bwrite_def Let_def bind_eq_Some_conv by blast
  have "outer k3 = outer k" using ramstrategy_outer [OF k3] by (simp add: Let_def split: if_splits)
  moreover have "outer k' = outer k3"
    using k' by (auto split: if_splits prod.splits bio_out.splits dest!: brelse_outer dest: biowait_outer)
  ultimately show ?thesis by simp
qed

lemma bdwrite_outer:
  assumes "bdwrite ramstrategy tape bp k = Some (y, k')"
  shows "outer k' = outer k"
proof -
  define k1 where "k1 = (if \<not> has_b k bp B_DELWRI then count_out k else k)"
  have o: "outer k1 = outer k" by (simp add: k1_def)
  have "(if tape (b_dev (bufs k1 bp)) then bawrite ramstrategy bp k1
      else map_option (\<lambda>k2. (Got bp, k2)) (brelse bp (set_b (or B_DELWRI B_DONE) bp k1))) = Some (y, k')"
    using assms unfolding bdwrite_def Let_def k1_def .
  then show ?thesis using o by (auto simp: bawrite_def split: if_splits dest!: brelse_outer bwrite_outer)
qed

lemma getnewbuf_more_aux: "getnewbuf s k = Some y \<Longrightarrow> s = ramstrategy \<longrightarrow> outer (snd y) = outer k"
proof (rule getnewbuf.raw_induct [where P = "\<lambda>s k y. s = ramstrategy \<longrightarrow> outer (snd y) = outer k"])
  fix g :: "(bref \<Rightarrow> 'a bio_scheme \<Rightarrow> 'a bio_scheme option) \<Rightarrow> 'a bio_scheme \<Rightarrow> (bref bio_out \<times> 'a bio_scheme) option" and s k y
  assume ih: "\<And>s k y. g s k = Some y \<Longrightarrow> s = ramstrategy \<longrightarrow> outer (snd y) = outer k"
    and step: "(let dp = some_free k in
      if dp = Free 0 then Some (Sleeps (a_buf k (Free 0)) (PRIBIO + 1), set_b B_WANTED (Free 0) k)
      else
        let bp = av_forw (bufs k dp); k1 = notavail bp k in
        if has_b k1 bp B_DELWRI then
          Option.bind (bwrite s bp (set_b B_ASYNC bp k1)) (\<lambda>(_, k2). g s k2)
        else Some (Got bp, upd_buf bp (\<lambda>b. b\<lparr>b_flags := B_BUSY\<rparr>) (own_memory bp k1))) = Some y"
  show "s = ramstrategy \<longrightarrow> outer (snd y) = outer k"
    using step by (auto simp: Let_def bind_eq_Some_conv split: if_splits dest!: ih bwrite_outer)
qed

lemma getnewbuf_outer: "getnewbuf ramstrategy k = Some (r, k') \<Longrightarrow> outer k' = outer k"
  using getnewbuf_more_aux [of ramstrategy k "(r, k')"] by simp

lemma getblk_outer:
  assumes "getblk ramstrategy dev b k = Some (r, k')"
  shows "outer k' = outer k"
proof -
  obtain q where q: "find_block dev b k = Some q" using assms by (auto simp: getblk_def bind_eq_Some_conv)
  show ?thesis
  proof (cases q)
    case None
    then obtain o' k1 where "getnewbuf ramstrategy k = Some (o', k1)"
      "(case o' of Got bp \<Rightarrow> (Got bp, take_new dev b bp k1) | Sleeps c p \<Rightarrow> (Sleeps c p, k1)) = (r, k')"
      using assms q by (auto simp: getblk_def)
    then show ?thesis using getnewbuf_outer by (cases o') fastforce+
  next
    case (Some bp)
    then show ?thesis using assms q by (auto simp: getblk_def split: if_splits)
  qed
qed

lemma bread_outer:
  assumes "bread ramstrategy dev b k = Some (r, k')"
  shows "outer k' = outer k"
proof -
  obtain o' k1 where g: "getblk ramstrategy dev b k = Some (o', k1)" using assms by (auto simp: bread_def bind_eq_Some_conv)
  note m = getblk_outer [OF g]
  show ?thesis
  proof (cases o')
    case (Got bp)
    then show ?thesis
      using assms g m by (auto simp: bread_def start_read_def split: if_splits dest!: ramstrategy_outer biowait_outer)
  next
    case (Sleeps c p)
    then show ?thesis using assms g m by (auto simp: bread_def)
  qed
qed

lemmas brelse_bmore = outerD(1) [OF brelse_outer]
lemmas bwrite_bmore = outerD(1) [OF bwrite_outer]
lemmas bdwrite_bmore = outerD(1) [OF bdwrite_outer]
lemmas getblk_bmore = outerD(1) [OF getblk_outer]
lemmas bread_bmore = outerD(1) [OF bread_outer]

section \<open>The rest of the state does not matter to the cache\<close>

definition same_cache :: "'a bio_scheme \<Rightarrow> 'a bio_scheme \<Rightarrow> bool" where
  "same_cache k k' \<longleftrightarrow> bufs k' = bufs k \<and> same_mem k k' \<and> sys_ok k' = sys_ok k"

lemma same_cache_cong:
  assumes "same_cache k k'"
  shows "cells k' = cells k" "cache_ok N D k' = cache_ok N D k" "content_at N k' = content_at N k" "content D k' = content D k"
    "get_data k' = get_data k" "busy k' = busy k" "on_disk k' = on_disk k" "none_busy_at N k' = none_busy_at N k" "clean k' = clean k"
proof -
  have b: "bufs k' = bufs k" "bmem k' = bmem k" "ram k' = ram k"
    "ram_base k' = ram_base k" "ram_size k' = ram_size k" "sys_ok k' = sys_ok k"
    using assms by (simp_all add: same_cache_def same_mem_def)
  show c: "cells k' = cells k" by (simp add: cells_def fun_eq_iff b)
  show g: "get_data k' = get_data k" by (simp add: get_data_def fun_eq_iff b split: baddr.split)
  have d: "disk k' = disk k" "in_disk k' = in_disk k" "sizes_ok k' = sizes_ok k"
    by (simp_all add: disk_def in_disk_def sizes_ok_def fun_eq_iff b)
  show bu: "busy k' = busy k" by (simp add: busy_def fun_eq_iff c)
  show "on_disk k' = on_disk k" "none_busy_at N k' = none_busy_at N k"
    by (simp_all add: on_disk_def none_busy_at_def fun_eq_iff b c bu)
  show cl: "clean k' = clean k" by (simp add: clean_def fun_eq_iff c g d)
  have cd: "cdata k' = cdata k" by (simp add: cdata_def fun_eq_iff c g d)
  show "content_at N k' = content_at N k" unfolding content_at_def c cd d by simp
  show "content D k' = content D k" unfolding content_def fun_eq_iff find_block_def b g d by simp
  show "cache_ok N D k' = cache_ok N D k"
    unfolding cache_ok_def blocks_ok_def cell_ok_def unique_def chains_ok_def free_ok_def Let_def c d b bu cl ..
qed

section \<open>Reading and writing while other buffers are busy\<close>

text \<open>From \<open>k\<close> to \<open>k'\<close> only the blocks \<open>E\<close> may have changed, and no buffer has been taken or given back.\<close>

definition touches :: "nat \<Rightarrow> u_int \<Rightarrow> int set \<Rightarrow> 'a bio_scheme \<Rightarrow> 'a bio_scheme \<Rightarrow> bool" where
  "touches N D E k k' \<longleftrightarrow> cache_ok N D k' \<and> (\<forall>j. busy k' j = busy k j) \<and> (\<forall>j. busy k j \<longrightarrow> cells k' (Buf j) = cells k (Buf j)) \<and>
     (\<forall>j. busy k j \<longrightarrow> bmem k' j = bmem k j) \<and> ram_size k' = ram_size k \<and> u_error (u k') = u_error (u k) \<and>
     (\<forall>b. on_disk k b \<longrightarrow> b \<notin> E \<longrightarrow> content D k' b = content D k b)"

lemma touches_none_busy:
  assumes "touches N D E k k'" "none_busy_at N k n"
  shows "none_busy_at N k' n"
  using assms unfolding touches_def none_busy_at_def by metis

lemma touches_trans: "touches N D E k k' \<Longrightarrow> touches N D E' k' k'' \<Longrightarrow> touches N D (E \<union> E') k k''"
  unfolding touches_def on_disk_def by (metis UnCI)

lemma touches_cache: "touches N D E k k' \<Longrightarrow> same_cache k' k'' \<Longrightarrow> touches N D E k k''"
  unfolding touches_def using same_cache_cong [of k' k''] by (simp add: same_cache_def same_mem_def)

lemma touches_refl: "cache_ok N D k \<Longrightarrow> touches N D {} k k"
  by (simp add: touches_def)

lemma put_data_bmem:
  assumes "cache_ok N D k" "i < N" "j \<noteq> i"
  shows "bmem (put_data (Buf i) ws k) j = bmem k j"
proof -
  obtain H where "cell_ok D H k i" using cache_okD [OF assms(1)] assms(2) by metis
  then have "b_addr (bufs k (Buf i)) = Own i \<or> b_addr (bufs k (Buf i)) = Ram (b_blkno (bufs k (Buf i)))"
    by (auto simp: cell_ok_def Let_def cell_fields)
  then show ?thesis using assms(3) by (auto simp: put_data_def)
qed

lemma read_step:
  assumes c: "cache_ok N D k" and f: "\<exists>i < N. \<not> busy k i" and nb: "none_busy_at N k (fsbtodb b)" and b: "on_disk k b"
  obtains i k1 where "bread ramstrategy D b k = Some (Got (Buf i), k1)" "get_data k1 (Buf i) = content D k b"
    "\<not> has_b k1 (Buf i) B_ERROR" "b_resid (bufs k1 (Buf i)) = 0" "bio.more k1 = bio.more k" "sys_ok k1"
    "\<And>k2. same_cache k1 k2 \<Longrightarrow> \<exists>k3. brelse (Buf i) k2 = Some k3 \<and> touches N D {} k k3 \<and> bio.more k3 = bio.more k2"
proof -
  obtain i k1 where k1: "bread ramstrategy D b k = Some (Got (Buf i), k1)" "cache_ok N D k1" "gets N (fsbtodb b) i k k1"
    "full (cells k1 (Buf i))" "get_data k1 (Buf i) = content_at N k (fsbtodb b)"
    using bread_ok [OF c f nb on_disk_fsbtodb(2) [OF b]] by metis
  have i: "i < N" "busy k1 i" "\<And>j. busy k1 j = (j = i \<or> busy k j)" "\<not> busy k i"
    "\<And>j. busy k j \<Longrightarrow> cells k1 (Buf j) = cells k (Buf j)" "ram_size k1 = ram_size k" "u_error (u k1) = u_error (u k)"
    "\<And>j. busy k j \<Longrightarrow> bmem k1 j = bmem k j"
    using k1(3) by (simp_all add: gets_def)
  have ct: "content D k1 = content D k"
    using k1(3) fsbtodb_even by (simp add: fun_eq_iff content_cache [OF k1(2)] content_cache [OF c] gets_def)
  obtain H F where h: "cell_ok D H k1 i" "sys_ok k1" using cache_okD [OF k1(2)] i(1) by metis
  have rel: "\<exists>k3. brelse (Buf i) k2 = Some k3 \<and> touches N D {} k k3 \<and> bio.more k3 = bio.more k2" if s: "same_cache k1 k2" for k2
  proof -
    note sc = same_cache_cong [OF s]
    have coh: "live (cells k2 (Buf i)) \<and> full (cells k2 (Buf i)) \<and> \<not> flag (b_flags (cells k2 (Buf i))) B_DELWRI \<longrightarrow> clean k2 i"
      using k1(3) unfolding sc by (simp add: gets_def)
    obtain k3 where k3: "brelse (Buf i) k2 = Some k3" "cache_ok N D k3" "same_mem k2 k3" "\<not> busy k3 i"
      "\<And>j. j \<noteq> i \<Longrightarrow> cells k3 (Buf j) = cells k2 (Buf j)" "\<And>n. even n \<Longrightarrow> content_at N k3 n = content_at N k2 n"
      using brelse_ok [of N D k2 i] coh k1(2) i(1,2) unfolding sc by metis
    have bu: "busy k3 j = busy k j" for j
      using k3(4,5) i(3,4) sc(1,6) by (cases "j = i") (simp_all add: busy_def)
    have "content D k3 b = content D k b" for b
      unfolding content_cache [OF k3(2)] ct [symmetric] content_cache [OF k1(2)] using k3(6) [OF fsbtodb_even] sc(3) by simp
    moreover have "cells k3 (Buf j) = cells k (Buf j)" if "busy k j" for j
      using k3(5) [of j] i(4,5) that sc(1) by (cases "j = i") simp_all
    moreover have "ram_size k3 = ram_size k" "u_error (u k3) = u_error (u k)" "\<And>j. busy k j \<Longrightarrow> bmem k3 j = bmem k j"
      using k3(3) s i(6-8) by (simp_all add: same_mem_def same_cache_def)
    ultimately have "touches N D {} k k3" using k3(2) bu by (simp add: touches_def)
    then show ?thesis using k3(1) brelse_bmore [OF k3(1)] by blast
  qed
  have "\<not> has_b k1 (Buf i) B_ERROR" using k1(4) by (simp add: full_def cell_fields)
  moreover have "b_resid (bufs k1 (Buf i)) = 0" using h(1) by (simp add: cell_ok_def Let_def cell_fields)
  ultimately show thesis
    using that k1(1,5) rel bread_bmore [OF k1(1)] h(2) by (simp add: content_cache [OF c])
qed

lemma write_step:
  assumes c: "cache_ok N D k" and f: "\<exists>i < N. \<not> busy k i" and nb: "none_busy_at N k (fsbtodb b)" and b: "on_disk k b"
  obtains i k1 where "getblk ramstrategy D b k = Some (Got (Buf i), k1)" "length (get_data k1 (Buf i)) = 512" "bio.more k1 = bio.more k"
    "\<And>ws k2. length ws = 512 \<Longrightarrow> same_cache (put_data (Buf i) ws k1) k2 \<Longrightarrow>
       \<exists>k3. bwrite ramstrategy (Buf i) k2 = Some (Got (Buf i), k3) \<and> touches N D {b} k k3 \<and> content D k3 b = ws \<and> bio.more k3 = bio.more k2"
proof -
  obtain i k1 where k1: "getblk ramstrategy D b k = Some (Got (Buf i), k1)" "cache_ok N D k1" "gets N (fsbtodb b) i k k1"
    using getblk_ok [OF c f nb] by metis
  have i: "i < N" "busy k1 i" "\<And>j. busy k1 j = (j = i \<or> busy k j)" "live (cells k1 (Buf i))" "\<not> busy k i"
    "b_blkno (cells k1 (Buf i)) = fsbtodb b" "\<And>j. busy k j \<Longrightarrow> cells k1 (Buf j) = cells k (Buf j)" "ram_size k1 = ram_size k"
    "u_error (u k1) = u_error (u k)" "\<And>j. busy k j \<Longrightarrow> bmem k1 j = bmem k j"
    using k1(3) by (simp_all add: gets_def)
  have dk: "in_disk k1 (b_blkno (cells k1 (Buf i)))" using on_disk_fsbtodb(2) [OF b] i by (simp add: in_disk_def)
  obtain H F where h: "cell_ok D H k1 i" "sizes_ok k1" using cache_okD [OF k1(2)] i(1) by metis
  have wr: "\<exists>k3. bwrite ramstrategy (Buf i) k2 = Some (Got (Buf i), k3) \<and> touches N D {b} k k3 \<and> content D k3 b = ws \<and> bio.more k3 = bio.more k2"
    if ws: "length ws = 512" and s: "same_cache (put_data (Buf i) ws k1) k2" for ws k2
  proof -
    note p = put_data_ok [OF k1(2) i(1,2,4) dk ws]
    note sc = same_cache_cong [OF s]
    have c2: "cells k2 = cells k1" "busy k2 j = busy k1 j" for j using p(2) sc(1) by (simp_all add: busy_def)
    have rs: "ram_size k2 = ram_size k" "u_error (u k2) = u_error (u k)"
      using s p(4,5) i(8,9) by (simp_all add: same_cache_def same_mem_def)
    have dk2: "in_disk k2 (b_blkno (cells k2 (Buf i)))" using on_disk_fsbtodb(2) [OF b] i(6) rs c2 by (simp add: in_disk_def)
    have l2: "live (cells k2 (Buf i))" "busy k2 i" "cache_ok N D k2" using i(2,4) c2 p(1) sc(2) by simp_all
    obtain k3 where k3: "bwrite ramstrategy (Buf i) k2 = Some (Got (Buf i), k3)" "cache_ok N D k3" "beside i k2 k3" "\<not> busy k3 i"
      "\<And>n. even n \<Longrightarrow> content_at N k3 n = (if n = b_blkno (cells k2 (Buf i)) then get_data k2 (Buf i) else content_at N k2 n)"
      using bwrite_ok [OF l2(3) i(1) l2(2,1) dk2] by metis
    have ct: "content D k3 x = (if fsbtodb x = fsbtodb b then ws else content D k x)" for x
      unfolding content_cache [OF k3(2)] content_cache [OF c] k3(5) [OF fsbtodb_even] c2(1) sc(3,5)
      using p(3) p(6) [OF fsbtodb_even, of x] k1(3) fsbtodb_even i(6) by (simp add: gets_def)
    have "busy k3 j = busy k j" for j
      using k3(3,4) i(3,5) c2 by (cases "j = i") (simp_all add: busy_def beside_def)
    moreover have "cells k3 (Buf j) = cells k (Buf j)" if "busy k j" for j
      using k3(3) i(5,7) that c2(1) by (cases "j = i") (simp_all add: beside_def)
    moreover have "content D k3 x = content D k x" if "on_disk k x" "x \<noteq> b" for x
      using ct on_disk_fsbtodb(1) [OF that(1)] on_disk_fsbtodb(1) [OF b] that(2) by simp
    moreover have "bmem k3 j = bmem k j" if "busy k j" for j
      using k3(3) s i(5,10) put_data_bmem [OF k1(2) i(1), of j ws] that by (auto simp: beside_def same_cache_def same_mem_def)
    ultimately have "touches N D {b} k k3" using k3(2,3) rs by (simp add: touches_def beside_def)
    then show ?thesis using k3(1) ct bwrite_bmore [OF k3(1)] by auto
  qed
  show thesis using that [OF k1(1) data_length [OF h] getblk_bmore [OF k1(1)]] wr by blast
qed

end
