(* ===== verification/FsAlloc.thy ===== *)
theory FsAlloc imports Ramdisk begin

text \<open>
  The free lists of a file system: \<open>src/sys/sys/ufs_alloc.c\<close>, fs.h, and badblock and getfs of ufs_subr.c.
  The super blocks are those of the mount table, by index. A block of the file system is the 512 words of a buffer;
  \<open>daddr_t\<close> and \<open>time_t\<close> are two words there, the high one first. Messages on the console are not modelled.

  \<open>ip->i_fs\<close> and \<open>ip->i_dev\<close> are the arguments \<open>f\<close> and \<open>dev\<close>.
\<close>

record fs =
  fs_isize :: u_int
  fs_fsize :: int
  fs_nfree :: int
  fs_free :: "int list"
  fs_ninode :: int
  fs_inode :: "u_int list"
  fs_flock :: u_char
  fs_ilock :: u_char
  fs_fmod :: u_char
  fs_ronly :: u_char
  fs_time :: int
  fs_tfree :: int
  fs_tinode :: u_int
  fs_step :: u_int
  fs_cyl :: u_int
  fs_fsmnt :: "u_int list"
  fs_lasti :: u_int
  fs_nbehind :: u_int

record mount =
  m_dev :: u_int
  m_inodp :: "nat option"

record fsk = bio +
  mounts :: "mount list"
  fss :: "nat \<Rightarrow> fs"
  a_flock :: "nat \<Rightarrow> u_int"

abbreviation (input) "NICFREE \<equiv> 50 :: int"
abbreviation (input) "NICINOD \<equiv> 100 :: int"
abbreviation (input) "SUPERB \<equiv> 1 :: int"
abbreviation (input) "PINOD \<equiv> 10 :: int"

definition dbtofsb :: "int \<Rightarrow> int" where
  "dbtofsb b = b div 2"

definition upd_fs :: "nat \<Rightarrow> (fs \<Rightarrow> fs) \<Rightarrow> 'a fsk_scheme \<Rightarrow> 'a fsk_scheme" where
  "upd_fs f g k = k\<lparr>fss := (fss k)(f := g (fss k f))\<rparr>"

text \<open>Sequencing: a routine that sleeps stops the one that called it.\<close>

definition and_then :: "('r bio_out \<times> 'k) option \<Rightarrow> ('r \<Rightarrow> 'k \<Rightarrow> ('s bio_out \<times> 'k) option) \<Rightarrow> ('s bio_out \<times> 'k) option" where
  "and_then r g = (case r of None \<Rightarrow> None | Some (Sleeps c p, k) \<Rightarrow> Some (Sleeps c p, k) | Some (Got x, k) \<Rightarrow> g x k)"

section \<open>Structures in a block\<close>

definition put_words :: "bref \<Rightarrow> u_int list \<Rightarrow> 'a bio_scheme \<Rightarrow> 'a bio_scheme" where
  "put_words bp ws k = put_data bp (ws @ drop (length ws) (get_data k bp)) k"

definition daddr_words :: "int \<Rightarrow> u_int list" where
  "daddr_words b = long_words (word_of_int b)"

definition daddr_at :: "nat \<Rightarrow> u_int list \<Rightarrow> int" where
  "daddr_at i ws = sint (words_long (ws ! i) (ws ! Suc i))"

text \<open>\<open>struct fblk\<close>: as in the super block, the count and the 50 addresses.\<close>

definition fblk_words :: "fs \<Rightarrow> u_int list" where
  "fblk_words s = word_of_int (fs_nfree s) # concat (map daddr_words (fs_free s))"

definition load_fblk :: "u_int list \<Rightarrow> fs \<Rightarrow> fs" where
  "load_fblk ws s = s\<lparr>fs_nfree := sint (ws ! 0), fs_free := map (\<lambda>i. daddr_at (Suc (2 * i)) ws) [0 ..< 50]\<rparr>"

definition char_pair :: "u_char \<Rightarrow> u_char \<Rightarrow> u_int" where
  "char_pair lo hi = or (ucast lo) (push_bit 8 (ucast hi))"

definition sb_words :: "fs \<Rightarrow> u_int list" where
  "sb_words s = [fs_isize s] @ daddr_words (fs_fsize s) @ fblk_words s @ [word_of_int (fs_ninode s)] @ fs_inode s @
     [char_pair (fs_flock s) (fs_ilock s), char_pair (fs_fmod s) (fs_ronly s)] @ daddr_words (fs_time s) @
     daddr_words (fs_tfree s) @ [fs_tinode s, fs_step s, fs_cyl s] @ fs_fsmnt s @ [fs_lasti s, fs_nbehind s]"

section \<open>Blocks\<close>

definition badblock :: "fs \<Rightarrow> int \<Rightarrow> bool" where
  "badblock s bn \<longleftrightarrow> bn < uint (fs_isize s) \<or> bn \<ge> fs_fsize s"

text \<open>The loop of alloc that takes a block off the list of the super block; \<open>None\<close> if there is none.\<close>

function take_bno :: "fs \<Rightarrow> int option \<times> fs" where
  "take_bno s = (if fs_nfree s \<le> 0 then (None, s)
     else if fs_nfree s > NICFREE then (None, s)
     else let s1 = s\<lparr>fs_nfree := fs_nfree s - 1\<rparr>; bno = fs_free s ! nat (fs_nfree s1) in
       if bno = 0 then (None, s1) else if badblock s1 bno then take_bno s1 else (Some bno, s1))"
  by pat_completeness auto
termination
  by (relation "measure (\<lambda>s. nat (fs_nfree s))") auto

declare take_bno.simps [simp del]

definition nospace :: "nat \<Rightarrow> 'a fsk_scheme \<Rightarrow> 'a fsk_scheme" where
  "nospace f k = set_error ENOSPC (upd_fs f (\<lambda>s. s\<lparr>fs_nfree := 0, fs_tfree := 0\<rparr>) k)"

text \<open>The super block is written back, synchronously.\<close>

definition write_super ::
  "(bref \<Rightarrow> 'a fsk_scheme \<Rightarrow> 'a fsk_scheme option) \<Rightarrow> u_int \<Rightarrow> nat \<Rightarrow> 'a fsk_scheme \<Rightarrow> (bref bio_out \<times> 'a fsk_scheme) option" where
  "write_super strat dev f k = and_then (getblk strat dev SUPERB k) (\<lambda>bp k1.
     let k2 = upd_fs f (\<lambda>s. s\<lparr>fs_fmod := 0, fs_time := time_sec k1\<rparr>) k1 in
     bwrite strat bp (put_words bp (sb_words (fss k2 f)) k2))"

definition unlock_free :: "nat \<Rightarrow> 'a fsk_scheme \<Rightarrow> 'a fsk_scheme option" where
  "unlock_free f k = (let k1 = upd_fs f (\<lambda>s. s\<lparr>fs_flock := 0\<rparr>) k in wakeup (a_flock k1 f) k1)"

text \<open>The super block's list is used up: the next one is in the block just taken. The result tells if
  there is anything in it.\<close>

definition next_list ::
  "(bref \<Rightarrow> 'a fsk_scheme \<Rightarrow> 'a fsk_scheme option) \<Rightarrow> u_int \<Rightarrow> nat \<Rightarrow> int \<Rightarrow> 'a fsk_scheme \<Rightarrow> (bool bio_out \<times> 'a fsk_scheme) option" where
  "next_list strat dev f bno k =
     and_then (bread strat dev bno (upd_fs f (\<lambda>s. s\<lparr>fs_flock := fs_flock s + 1\<rparr>) k)) (\<lambda>bp k1.
       let k2 = (if \<not> has_b k1 bp B_ERROR \<and> b_resid (bufs k1 bp) = 0 then upd_fs f (load_fblk (get_data k1 bp)) k1 else k1)
       in Option.bind (brelse bp k2) (\<lambda>k3.
          and_then (write_super strat dev f k3) (\<lambda>_ k4.
            map_option (\<lambda>k5. (Got (0 < fs_nfree (fss k5 f)), k5)) (unlock_free f k4))))"

text \<open>\<open>alloc\<close>: the buffer of the new block, or none. Before it fails, alloc sleeps five times for a second, which
  has no effect of its own.\<close>

definition alloc ::
  "(bref \<Rightarrow> 'a fsk_scheme \<Rightarrow> 'a fsk_scheme option) \<Rightarrow> u_int \<Rightarrow> nat \<Rightarrow> bool \<Rightarrow> 'a fsk_scheme \<Rightarrow>
   (bref option bio_out \<times> 'a fsk_scheme) option" where
  "alloc strat dev f clrflg k =
     (if fs_flock (fss k f) \<noteq> 0 then Some (Sleeps (a_flock k f) PINOD, k)
      else case take_bno (fss k f) of
        (None, s) \<Rightarrow> Some (Got None, nospace f (upd_fs f (\<lambda>_. s) k))
      | (Some bno, s) \<Rightarrow>
          (let k1 = upd_fs f (\<lambda>_. s) k in
           and_then (if fs_nfree s \<le> 0 then next_list strat dev f bno k1 else Some (Got True, k1)) (\<lambda>more k2.
             if \<not> more then Some (Got None, nospace f k2)
             else and_then (getblk strat dev bno k2) (\<lambda>bp k3.
               let k4 = upd_buf bp (\<lambda>b. b\<lparr>b_resid := 0\<rparr>) k3;
                   k5 = (if clrflg then clrbuf bp k4 else k4)
               in Some (Got (Some bp), upd_fs f (\<lambda>s. s\<lparr>fs_fmod := 1, fs_tfree := wrap32 (fs_tfree s - 1)\<rparr>) k5)))))"

text \<open>The super block's list is full: it moves into the block that is being freed.\<close>

definition spill_list ::
  "(bref \<Rightarrow> 'a fsk_scheme \<Rightarrow> 'a fsk_scheme option) \<Rightarrow> u_int \<Rightarrow> nat \<Rightarrow> int \<Rightarrow> 'a fsk_scheme \<Rightarrow> (unit bio_out \<times> 'a fsk_scheme) option" where
  "spill_list strat dev f bno k =
     and_then (getblk strat dev bno (upd_fs f (\<lambda>s. s\<lparr>fs_flock := fs_flock s + 1\<rparr>) k)) (\<lambda>bp k1.
       let k2 = upd_fs f (\<lambda>s. s\<lparr>fs_nfree := 0\<rparr>) (put_words bp (fblk_words (fss k1 f)) k1) in
       and_then (bwrite strat bp k2) (\<lambda>_ k3. map_option (\<lambda>k4. (Got (), k4)) (unlock_free f k3)))"

definition free ::
  "(bref \<Rightarrow> 'a fsk_scheme \<Rightarrow> 'a fsk_scheme option) \<Rightarrow> u_int \<Rightarrow> nat \<Rightarrow> int \<Rightarrow> 'a fsk_scheme \<Rightarrow> (unit bio_out \<times> 'a fsk_scheme) option" where
  "free strat dev f bno k =
     (if badblock (fss k f) bno then Some (Got (), k)
      else if fs_flock (fss k f) \<noteq> 0 then Some (Sleeps (a_flock k f) PINOD, k)
      else
        let k1 = (if fs_nfree (fss k f) \<le> 0 then upd_fs f (\<lambda>s. s\<lparr>fs_nfree := 1, fs_free := (fs_free s)[0 := 0]\<rparr>) k else k) in
        and_then (if fs_nfree (fss k1 f) \<ge> NICFREE then spill_list strat dev f bno k1 else Some (Got (), k1)) (\<lambda>_ k2.
          Some (Got (), upd_fs f (\<lambda>s. s\<lparr>fs_free := (fs_free s)[nat (fs_nfree s) := bno], fs_nfree := fs_nfree s + 1,
             fs_tfree := wrap32 (fs_tfree s + 1), fs_fmod := 1\<rparr>) k2)))"

section \<open>Inodes\<close>

definition ifree :: "nat \<Rightarrow> u_int \<Rightarrow> 'a fsk_scheme \<Rightarrow> 'a fsk_scheme" where
  "ifree f ino = upd_fs f (\<lambda>s.
     let s1 = s\<lparr>fs_tinode := fs_tinode s + 1\<rparr> in
     if fs_ilock s1 \<noteq> 0 then s1
     else if fs_ninode s1 \<ge> NICINOD then (if fs_lasti s1 > ino then s1\<lparr>fs_nbehind := fs_nbehind s1 + 1\<rparr> else s1)
     else s1\<lparr>fs_inode := (fs_inode s1)[nat (fs_ninode s1) := ino], fs_ninode := fs_ninode s1 + 1, fs_fmod := 1\<rparr>)"

section \<open>The mount table\<close>

definition fix_counts :: "fs \<Rightarrow> fs" where
  "fix_counts s = (if fs_nfree s > NICFREE \<or> fs_ninode s > NICINOD then s\<lparr>fs_nfree := 0, fs_ninode := 0\<rparr> else s)"

definition getfs :: "u_int \<Rightarrow> 'a fsk_scheme \<Rightarrow> nat option \<times> 'a fsk_scheme" where
  "getfs dev k = (case List.find (\<lambda>i. m_inodp (mounts k ! i) \<noteq> None \<and> m_dev (mounts k ! i) = dev) [0 ..< length (mounts k)] of
       None \<Rightarrow> (None, k) | Some f \<Rightarrow> (Some f, upd_fs f fix_counts k))"

end
