(* ===== verification/FsSpec.thy ===== *)
theory FsSpec imports FsAlloc BioFrame begin

text \<open>
  The free list of a file system as a stack of block numbers: the list in the super block, then the lists in the
  blocks it is chained through. What taking a block and giving one back do to it.
\<close>

section \<open>Structures in blocks\<close>

lemma daddr_roundtrip: "int32 b \<Longrightarrow> daddr_at 0 (daddr_words b) = b"
  by (simp add: daddr_at_def daddr_words_def long_words_def long_roundtrip sint_sbintrunc' signed_take_bit_int_eq_self int32_def)

lemma daddr_int32 [simp]: "int32 (daddr_at i ws)"
  using sint_lt [of "words_long (ws ! i) (ws ! Suc i)"] sint_ge [of "words_long (ws ! i) (ws ! Suc i)"]
  by (simp add: int32_def daddr_at_def)

lemma length_daddr [simp]: "length (daddr_words b) = 2"
  by (simp add: daddr_words_def long_words_def)

lemma daddr_at_drop: "n + 1 < length ws \<Longrightarrow> daddr_at n ws = daddr_at 0 (drop n ws)"
  by (simp add: daddr_at_def)

lemma daddr_at_append: "daddr_at 0 (daddr_words b @ ws) = daddr_at 0 (daddr_words b)"
  by (simp add: daddr_at_def daddr_words_def long_words_def)

lemma length_concat_daddr [simp]: "length (concat (map daddr_words bs)) = 2 * length bs"
  "length (concat (map (daddr_words \<circ> g) xs)) = 2 * length xs"
  by (induction bs) (simp_all, induction xs, simp_all)

lemma daddr_list:
  "i < length bs \<Longrightarrow> \<forall>b \<in> set bs. int32 b \<Longrightarrow> daddr_at (2 * i) (concat (map daddr_words bs) @ ws) = bs ! i"
proof (induction bs arbitrary: i)
  case (Cons b bs)
  show ?case
  proof (cases i)
    case 0
    then show ?thesis using Cons.prems daddr_at_append daddr_roundtrip by simp
  next
    case (Suc j)
    have "daddr_at (2 * i) (concat (map daddr_words (b # bs)) @ ws) = daddr_at (2 * j) (concat (map daddr_words bs) @ ws)"
      by (simp add: daddr_at_def nth_append Suc)
    then show ?thesis using Cons Suc by simp
  qed
qed simp

lemma length_fblk: "length (fs_free s) = 50 \<Longrightarrow> length (fblk_words s) = 101"
  by (simp add: fblk_words_def)

text \<open>What \<open>load_fblk\<close> reads from a block written by \<open>free\<close>.\<close>

lemma fblk_roundtrip:
  assumes "length (fs_free s) = 50" "\<forall>b \<in> set (fs_free s). int32 b" "0 \<le> fs_nfree s" "fs_nfree s \<le> 50"
  shows "load_fblk (fblk_words s @ ws) s' = s'\<lparr>fs_nfree := fs_nfree s, fs_free := fs_free s\<rparr>"
proof -
  have n: "sint (word_of_int (fs_nfree s) :: u_int) = fs_nfree s"
    using assms(3,4) by (simp add: sint_sbintrunc' signed_take_bit_int_eq_self)
  have "daddr_at (Suc (2 * i)) (fblk_words s @ ws) = fs_free s ! i" if "i < 50" for i
  proof -
    have "daddr_at (Suc (2 * i)) (fblk_words s @ ws) = daddr_at (2 * i) (concat (map daddr_words (fs_free s)) @ ws)"
      by (simp add: daddr_at_def fblk_words_def)
    then show ?thesis using daddr_list assms(1,2) that by simp
  qed
  then have "map (\<lambda>i. daddr_at (Suc (2 * i)) (fblk_words s @ ws)) [0 ..< 50] = fs_free s"
    using assms(1) by (simp add: list_eq_iff_nth_eq)
  then show ?thesis using n by (simp add: load_fblk_def fblk_words_def)
qed

section \<open>The stack of free blocks\<close>

text \<open>The entries in use of a list of addresses.\<close>

definition entries :: "int \<Rightarrow> int list \<Rightarrow> int list" where
  "entries n bs = take (nat n) bs"

definition block_entries :: "u_int list \<Rightarrow> int list" where
  "block_entries ws = entries (sint (ws ! 0)) (map (\<lambda>i. daddr_at (Suc (2 * i)) ws) [0 ..< 50])"

text \<open>
  \<open>flist ok C fr xs\<close>: with the entries \<open>fr\<close> in the super block and the contents \<open>C\<close> of blocks, the free blocks are
  \<open>xs\<close>, the next one first, all of them blocks that \<open>ok\<close> allows. The lowest entry is the number of the block
  with the next entries; 0 ends the list.
\<close>

inductive flist :: "(int \<Rightarrow> bool) \<Rightarrow> (int \<Rightarrow> u_int list) \<Rightarrow> int list \<Rightarrow> int list \<Rightarrow> bool" for ok C where
  none: "flist ok C [] []"
| ends: "flist ok C [0] []"
| link: "ok b \<Longrightarrow> b \<notin> set xs \<Longrightarrow> 1 \<le> sint (C b ! 0) \<Longrightarrow> sint (C b ! 0) \<le> 50 \<Longrightarrow> flist ok C (block_entries (C b)) xs \<Longrightarrow> flist ok C [b] (b # xs)"
| pop: "ok b \<Longrightarrow> b \<notin> set xs \<Longrightarrow> fr \<noteq> [] \<Longrightarrow> flist ok C fr xs \<Longrightarrow> flist ok C (fr @ [b]) (b # xs)"

lemma flist_cong: "flist ok C fr xs \<Longrightarrow> \<forall>b \<in> set xs. ok b \<longrightarrow> C' b = C b \<and> ok' b \<Longrightarrow> flist ok' C' fr xs"
proof (induction rule: flist.induct)
  case (link b xs)
  then show ?case by (intro flist.link) auto
next
  case (pop b xs fr)
  then show ?case by (intro flist.pop) auto
qed (auto intro: flist.intros)

lemma flist_ok: "flist ok C fr xs \<Longrightarrow> b \<in> set xs \<Longrightarrow> ok b"
  by (induction rule: flist.induct) auto

lemma flist_distinct: "flist ok C fr xs \<Longrightarrow> distinct xs"
  by (induction rule: flist.induct) auto

text \<open>The blocks that may be on the list: in the data part of the file system and on the disk.\<close>

definition usable :: "fs \<Rightarrow> 'a bio_scheme \<Rightarrow> int \<Rightarrow> bool" where
  "usable s k b \<longleftrightarrow> \<not> badblock s b \<and> on_disk k b \<and> 1 < b \<and> int32 b"

definition super_ok :: "fs \<Rightarrow> bool" where
  "super_ok s \<longleftrightarrow> fs_flock s = 0 \<and> 0 \<le> fs_nfree s \<and> fs_nfree s \<le> NICFREE \<and> length (fs_free s) = 50 \<and> (\<forall>b \<in> set (fs_free s). int32 b) \<and>
     length (fs_inode s) = 100 \<and> length (fs_fsmnt s) = 6"

text \<open>The state of a file system: its free blocks are \<open>xs\<close>, none of them, nor the super block, is in use.\<close>

definition fs_ok :: "nat \<Rightarrow> u_int \<Rightarrow> nat \<Rightarrow> int list \<Rightarrow> 'a fsk_scheme \<Rightarrow> bool" where
  "fs_ok N D f xs k \<longleftrightarrow> cache_ok N D k \<and> super_ok (fss k f) \<and> a_flock k f \<noteq> 0 \<and> on_disk k SUPERB \<and>
     flist (usable (fss k f) k) (content D k) (entries (fs_nfree (fss k f)) (fs_free (fss k f))) xs \<and>
     (\<forall>b \<in> insert SUPERB (set xs). none_busy_at N k (fsbtodb b))"

section \<open>Assignments to the super block\<close>

lemma upd_fs_cache [simp]: "same_cache k (upd_fs f g k)"
  by (simp add: same_cache_def same_mem_def upd_fs_def sys_ok_def sched_ok_def queues_def sleepers_ok_def)

lemma upd_fs_simps [simp]:
  "fss (upd_fs f g k) = (fss k)(f := g (fss k f))" "a_flock (upd_fs f g k) = a_flock k" "bufs (upd_fs f g k) = bufs k"
  "u (upd_fs f g k) = u k" "ram_size (upd_fs f g k) = ram_size k" "bmem (upd_fs f g k) = bmem k"
  by (simp_all add: upd_fs_def)

lemma bmore_fsk:
  assumes "bio.more (k' :: 'a fsk_scheme) = bio.more k"
  shows "fss k' = fss k" "a_flock k' = a_flock k" "mounts k' = mounts k"
  using assms by (cases k; cases k'; simp)+

lemma put_upd_fs: "same_cache (put_data bp ws k) (put_data bp ws (upd_fs f g k))"
  by (simp add: same_cache_def same_mem_def put_data_def upd_fs_def sys_ok_def sched_ok_def queues_def sleepers_ok_def split: baddr.split)

lemma get_upd_fs [simp]: "get_data (upd_fs f g k) bp = get_data k bp"
  by (simp add: get_data_def upd_fs_def split: baddr.split)

lemma same_cache_sys: "same_cache k k' \<Longrightarrow> sys_ok k' = sys_ok k"
  by (simp add: same_cache_def)

lemma length_sb: "super_ok s \<Longrightarrow> length (sb_words s) = 222"
  by (simp add: sb_words_def super_ok_def length_fblk)

lemma super_ok_int:
  "super_ok (s\<lparr>fs_fmod := x\<rparr>) = super_ok s" "super_ok (s\<lparr>fs_time := t\<rparr>) = super_ok s" "super_ok (s\<lparr>fs_tfree := t\<rparr>) = super_ok s"
  by (simp_all add: super_ok_def)

section \<open>Taking an entry\<close>

lemma take_bno_some:
  assumes "flist (usable s k) C (entries (fs_nfree s) (fs_free s)) (x # xs)" "super_ok s"
  shows "take_bno s = (Some x, s\<lparr>fs_nfree := fs_nfree s - 1\<rparr>)" "1 \<le> fs_nfree s"
    "fs_nfree s \<noteq> 1 \<Longrightarrow> flist (usable s k) C (entries (fs_nfree s - 1) (fs_free s)) xs"
    "fs_nfree s = 1 \<Longrightarrow> 1 \<le> sint (C x ! 0) \<and> sint (C x ! 0) \<le> 50 \<and> flist (usable s k) C (block_entries (C x)) xs"
proof -
  let ?e = "entries (fs_nfree s) (fs_free s)"
  have len: "length ?e = nat (fs_nfree s)" using assms(2) by (auto simp: entries_def super_ok_def min_def nat_le_iff)
  have "?e \<noteq> []" using assms(1) by (auto elim: flist.cases)
  then show n1: "1 \<le> fs_nfree s" using len by (cases "?e") auto
  have ux: "usable s k x" using flist_ok [OF assms(1)] by simp
  have "nat (fs_nfree s - 1) < 50" using n1 assms(2) by (auto simp: super_ok_def nat_less_iff)
  then have sn: "?e = entries (fs_nfree s - 1) (fs_free s) @ [fs_free s ! nat (fs_nfree s - 1)]"
    using n1 assms(2) take_Suc_conv_app_nth [of "nat (fs_nfree s - 1)" "fs_free s"] by (simp add: entries_def super_ok_def Suc_nat_eq_nat_zadd1)
  have la: "last ?e = x" using assms(1) by (cases rule: flist.cases) simp_all
  then have x: "fs_free s ! nat (fs_nfree s - 1) = x" unfolding sn by simp
  show "take_bno s = (Some x, s\<lparr>fs_nfree := fs_nfree s - 1\<rparr>)"
    using n1 assms(2) x ux by (subst take_bno.simps) (simp add: Let_def super_ok_def usable_def badblock_def)
  show "flist (usable s k) C (entries (fs_nfree s - 1) (fs_free s)) xs" if "fs_nfree s \<noteq> 1"
  proof -
    have "1 < length ?e" using len n1 that by simp
    with assms(1) show ?thesis by (cases rule: flist.cases) (use sn in auto)
  qed
  show "1 \<le> sint (C x ! 0) \<and> sint (C x ! 0) \<le> 50 \<and> flist (usable s k) C (block_entries (C x)) xs" if "fs_nfree s = 1"
  proof -
    have "length ?e = 1" using len that by simp
    with assms(1) show ?thesis by (cases rule: flist.cases) auto
  qed
qed

lemma take_bno_none:
  assumes "flist (usable s k) C (entries (fs_nfree s) (fs_free s)) []" "super_ok s"
  shows "fst (take_bno s) = None"
proof -
  let ?e = "entries (fs_nfree s) (fs_free s)"
  have len: "length ?e = nat (fs_nfree s)" using assms(2) by (auto simp: entries_def super_ok_def min_def nat_le_iff)
  from assms(1) have "?e = [] \<or> ?e = [0]" by (cases rule: flist.cases) simp_all
  then show ?thesis
  proof
    assume "?e = []"
    then show ?thesis using len by (subst take_bno.simps) simp
  next
    assume e: "?e = [0]"
    then have "nat (fs_nfree s) = 1" using len by simp
    then have "fs_nfree s = 1" by simp
    moreover have "fs_free s ! 0 = 0" using e calculation assms(2) by (cases "fs_free s") (auto simp: entries_def)
    ultimately show ?thesis by (subst take_bno.simps) (simp add: Let_def)
  qed
qed

end
