(* ===== verification/FsProps.thy ===== *)
theory FsProps imports FsSpec BioProps begin

text \<open>
  Properties of the block allocator on the buffer cache: alloc and free work on a stack of free blocks, through
  the cache and across the blocks the list is chained through.
\<close>

section \<open>alloc\<close>

lemma wake_more:
  assumes "sys_ok k"
  obtains k' where "wakeup (a_buf k r) k = Some k'" "same_cache k k'" "bio.more k' = bio.more k"
proof -
  obtain k' where k': "wakeup (a_buf k r) k = Some k'" "sys_ok k'" "bufs k' = bufs k" "same_mem k k'" using wake_ok [OF assms] .
  then show thesis using that [OF k'(1)] wakeup_bmore [OF k'(1)] assms by (simp add: same_cache_def)
qed

lemma wake_chan:
  fixes k :: "'a bio_scheme"
  assumes "sys_ok k" "c \<noteq> 0"
  obtains k' where "wakeup c k = Some k'" "same_cache k k'" "bio.more k' = bio.more k"
proof -
  have a: "sched_ok k" "sleepers_ok k" "a_runout k \<noteq> 0" using assms by (simp_all add: sys_ok_def)
  obtain k' where k': "wakeup c k = Some k'" "sched_ok k'" "sleepers_ok k'"
    "woke (if k_runout k then {c, a_runout k} else {c}) k k'" using wakeup_ok [OF a(1,2) assms(2) a(3)] by metis
  note m = more_bio [OF wakeup_more [OF k'(1)]]
  have "a_runout k' = a_runout k" using k'(4) by (auto simp: woke_def same_core_def)
  then have "sys_ok k'" using k'(2,3) assms(1) m by (simp add: sys_ok_def)
  then have "same_cache k k'" using m wakeup_u [OF k'(1)] assms(1) by (simp add: same_cache_def same_mem_def)
  then show thesis using that k'(1) wakeup_bmore [OF k'(1)] by blast
qed

lemma cache_sys: "cache_ok N D k \<Longrightarrow> sys_ok k"
  by (simp add: cache_ok_def)

lemma unlock_free_ok:
  assumes "sys_ok k" "a_flock k f \<noteq> 0"
  obtains k' where "unlock_free f k = Some k'" "same_cache k k'" "fss k' = (fss k)(f := (fss k f)\<lparr>fs_flock := 0\<rparr>)" "a_flock k' = a_flock k"
proof -
  let ?k = "upd_fs f (\<lambda>s. s\<lparr>fs_flock := 0\<rparr>) k"
  have "sys_ok ?k" "a_flock ?k f \<noteq> 0" using assms by (simp_all add: same_cache_sys [OF upd_fs_cache])
  then obtain k' where k': "wakeup (a_flock ?k f) ?k = Some k'" "same_cache ?k k'" "bio.more k' = bio.more ?k" using wake_chan by metis
  have "same_cache k k'" using k'(2) upd_fs_cache [of k f] unfolding same_cache_def by (metis same_trans(1))
  then show thesis using that [of k'] k'(1) bmore_fsk [OF k'(3)] by (simp add: unlock_free_def Let_def)
qed

text \<open>The super block is written: only block 1 changes.\<close>

lemma write_super_ok:
  assumes c: "cache_ok N D k" and f: "\<exists>i < N. \<not> busy k i" and nb: "none_busy_at N k (fsbtodb SUPERB)" and b: "on_disk k SUPERB"
    and sb: "length (sb_words (fss k f)) = 222"
  obtains r k' where "write_super ramstrategy D f k = Some (Got r, k')" "touches N D {SUPERB} k k'" "a_flock k' = a_flock k"
    "fss k' = (fss k)(f := (fss k f)\<lparr>fs_fmod := 0, fs_time := fs_time (fss k' f)\<rparr>)"
proof -
  obtain i k1 where k1: "getblk ramstrategy D SUPERB k = Some (Got (Buf i), k1)" "length (get_data k1 (Buf i)) = 512" "bio.more k1 = bio.more k"
    and wr: "\<And>ws k2. length ws = 512 \<Longrightarrow> same_cache (put_data (Buf i) ws k1) k2 \<Longrightarrow>
       \<exists>k3. bwrite ramstrategy (Buf i) k2 = Some (Got (Buf i), k3) \<and> touches N D {SUPERB} k k3 \<and> content D k3 SUPERB = ws \<and> bio.more k3 = bio.more k2"
    using write_step [OF c f nb b] by metis
  define g where "g = (\<lambda>s :: fs. s\<lparr>fs_fmod := 0, fs_time := time_sec k1\<rparr>)"
  define ws where "ws = sb_words (g (fss k f)) @ drop 222 (get_data k1 (Buf i))"
  have l2: "length (sb_words (g (fss k f))) = 222" using sb by (simp add: g_def sb_words_def fblk_words_def daddr_words_def long_words_def)
  then have l: "length ws = 512" using k1(2) by (simp add: ws_def)
  have f1: "fss k1 = fss k" "a_flock k1 = a_flock k" using bmore_fsk [OF k1(3)] by simp_all
  have p: "put_words (Buf i) (sb_words (fss (upd_fs f g k1) f)) (upd_fs f g k1) = put_data (Buf i) ws (upd_fs f g k1)"
    using l2 f1 by (simp add: put_words_def ws_def)
  obtain k3 where k3: "bwrite ramstrategy (Buf i) (put_data (Buf i) ws (upd_fs f g k1)) = Some (Got (Buf i), k3)"
    "touches N D {SUPERB} k k3" "bio.more k3 = bio.more (put_data (Buf i) ws (upd_fs f g k1))"
    using wr [OF l put_upd_fs] by blast
  have "write_super ramstrategy D f k = Some (Got (Buf i), k3)"
    unfolding write_super_def and_then_def using k1(1) k3(1) p by (simp add: Let_def g_def)
  moreover have "bio.more k3 = bio.more (upd_fs f g k1)" using k3(3) by simp
  note m = bmore_fsk [OF this]
  have "fss k3 = (fss k)(f := g (fss k f))" using m(1) f1 by simp
  ultimately show thesis using that k3(2) m(2) f1(2) by (simp add: g_def)
qed

text \<open>Loading the next part of the list: the super block's entries are those of the block.\<close>

lemma next_list_ok:
  assumes c: "cache_ok N D k" and f: "\<exists>i < N. \<not> busy k i" and nb: "none_busy_at N k (fsbtodb b)" "none_busy_at N k (fsbtodb SUPERB)"
    and b: "on_disk k b" "on_disk k SUPERB" and s: "super_ok (fss k f)" "a_flock k f \<noteq> 0" and n: "1 \<le> sint (content D k b ! 0)" "sint (content D k b ! 0) \<le> 50"
  obtains k' where "next_list ramstrategy D f b k = Some (Got True, k')" "touches N D {SUPERB} k k'" "a_flock k' = a_flock k"
    "super_ok (fss k' f)" "entries (fs_nfree (fss k' f)) (fs_free (fss k' f)) = block_entries (content D k b)"
    "fs_isize (fss k' f) = fs_isize (fss k f)" "fs_fsize (fss k' f) = fs_fsize (fss k f)" "fs_tfree (fss k' f) = fs_tfree (fss k f)"
proof -
  define ka where "ka = upd_fs f (\<lambda>s. s\<lparr>fs_flock := fs_flock s + 1\<rparr>) k"
  have sc: "same_cache k ka" by (simp add: ka_def)
  note q = same_cache_cong [OF sc]
  have rs: "ram_size ka = ram_size k" by (simp add: ka_def)
  obtain i k1 where k1: "bread ramstrategy D b ka = Some (Got (Buf i), k1)" "get_data k1 (Buf i) = content D k b"
    "\<not> has_b k1 (Buf i) B_ERROR" "b_resid (bufs k1 (Buf i)) = 0" "bio.more k1 = bio.more ka"
    and rel: "\<And>k2. same_cache k1 k2 \<Longrightarrow> \<exists>k3. brelse (Buf i) k2 = Some k3 \<and> touches N D {} ka k3 \<and> bio.more k3 = bio.more k2"
    by (rule read_step [of N D ka b]) (use c f nb b in \<open>auto simp: q\<close>)
  define k2 where "k2 = upd_fs f (load_fblk (content D k b)) k1"
  obtain k3 where k3: "brelse (Buf i) k2 = Some k3" "touches N D {} ka k3" "bio.more k3 = bio.more k2"
    using rel [OF upd_fs_cache] unfolding k2_def by blast
  have f1: "fss k1 = fss ka" "a_flock k1 = a_flock k" using bmore_fsk [OF k1(5)] by (simp_all add: ka_def)
  have f3: "fss k3 f = (load_fblk (content D k b) (fss k f))\<lparr>fs_flock := 1\<rparr>" "a_flock k3 = a_flock k"
    using bmore_fsk [OF k3(3)] f1 s(1) by (simp_all add: k2_def ka_def load_fblk_def super_ok_def)
  have c3: "cache_ok N D k3" "\<exists>i < N. \<not> busy k3 i" "none_busy_at N k3 (fsbtodb SUPERB)" "on_disk k3 SUPERB"
    using k3(2) f b(2) touches_none_busy [OF k3(2)] nb(2) by (simp_all add: touches_def q on_disk_def rs)
  have l3: "length (sb_words (fss k3 f)) = 222"
    using s(1) by (simp add: f3 sb_words_def super_ok_def load_fblk_def fblk_words_def)
  obtain r k4 where k4: "write_super ramstrategy D f k3 = Some (Got r, k4)" "touches N D {SUPERB} k3 k4" "a_flock k4 = a_flock k3"
    "fss k4 = (fss k3)(f := (fss k3 f)\<lparr>fs_fmod := 0, fs_time := fs_time (fss k4 f)\<rparr>)"
    using write_super_ok [OF c3 l3] by metis
  have "sys_ok k4" using k4(2) by (simp add: touches_def cache_ok_def)
  then obtain k5 where k5: "unlock_free f k4 = Some k5" "same_cache k4 k5" "fss k5 = (fss k4)(f := (fss k4 f)\<lparr>fs_flock := 0\<rparr>)" "a_flock k5 = a_flock k4"
    by (rule unlock_free_ok) (use s(2) f3(2) k4(3) in auto)
  define t where "t = fs_time (fss k4 f)"
  have "fss k4 f = (load_fblk (content D k b) (fss k f))\<lparr>fs_flock := 1, fs_fmod := 0, fs_time := t\<rparr>"
    using fun_cong [OF k4(4), of f, folded t_def] f3(1) by simp
  then have f5: "fss k5 f = (load_fblk (content D k b) (fss k f))\<lparr>fs_flock := 0, fs_fmod := 0, fs_time := t\<rparr>"
    using fun_cong [OF k5(3), of f] by simp
  have ld: "fs_nfree (fss k5 f) = sint (content D k b ! 0)" "fs_free (fss k5 f) = map (\<lambda>i. daddr_at (Suc (2 * i)) (content D k b)) [0 ..< 50]"
    by (simp_all add: f5 load_fblk_def)
  have run: "next_list ramstrategy D f b k = Some (Got True, k5)"
    unfolding next_list_def and_then_def using k1 k3(1) k4(1) k5(1) ld(1) n(1) by (simp add: ka_def [symmetric] k2_def [symmetric] Let_def)
  have "super_ok (fss k5 f)"
    using s(1) n ld unfolding super_ok_def by (auto simp: f5 load_fblk_def)
  moreover have "touches N D {SUPERB} k k5"
    using touches_cache [OF touches_trans [OF k3(2) k4(2)] k5(2)] q by (simp add: touches_def rs) (simp add: ka_def)
  moreover have "entries (fs_nfree (fss k5 f)) (fs_free (fss k5 f)) = block_entries (content D k b)"
    by (simp add: ld block_entries_def)
  moreover have "fs_isize (fss k5 f) = fs_isize (fss k f)" "fs_fsize (fss k5 f) = fs_fsize (fss k f)" "fs_tfree (fss k5 f) = fs_tfree (fss k f)"
    by (simp_all add: f5 load_fblk_def)
  ultimately show thesis using that run k5(4) k4(3) f3(2) by simp
qed

lemma touches_mono: "touches N D E k k' \<Longrightarrow> E \<subseteq> E' \<Longrightarrow> touches N D E' k k'"
  unfolding touches_def by blast

text \<open>A block that is taken off: what is left, before alloc gets the block's buffer.\<close>

lemma usable_cong: "fs_isize s' = fs_isize s \<Longrightarrow> fs_fsize s' = fs_fsize s \<Longrightarrow> ram_size k' = ram_size k \<Longrightarrow> usable s' k' = usable s k"
  by (simp add: usable_def badblock_def on_disk_def fun_eq_iff)

lemma fs_okD:
  assumes "fs_ok N D f xs k"
  shows "cache_ok N D k" "super_ok (fss k f)" "a_flock k f \<noteq> 0" "on_disk k SUPERB"
    "flist (usable (fss k f) k) (content D k) (entries (fs_nfree (fss k f)) (fs_free (fss k f))) xs"
    "\<And>b. b \<in> set xs \<Longrightarrow> none_busy_at N k (fsbtodb b)" "none_busy_at N k (fsbtodb SUPERB)" "\<And>b. b \<in> set xs \<Longrightarrow> usable (fss k f) k b"
    "distinct xs"
  using assms flist_ok flist_distinct unfolding fs_ok_def by blast+

lemma fs_okI:
  assumes o: "fs_ok N D f ys k" and t: "touches N D E k k'" and E: "E \<inter> set xs = {}" and sub: "set xs \<subseteq> set ys"
    and s: "super_ok (fss k' f)" "fs_isize (fss k' f) = fs_isize (fss k f)" "fs_fsize (fss k' f) = fs_fsize (fss k f)" "a_flock k' = a_flock k"
    and l: "flist (usable (fss k f) k) (content D k) (entries (fs_nfree (fss k' f)) (fs_free (fss k' f))) xs"
  shows "fs_ok N D f xs k'"
proof -
  note d = fs_okD [OF o]
  have rs: "ram_size k' = ram_size k" "cache_ok N D k'" using t by (simp_all add: touches_def)
  have u: "usable (fss k' f) k' = usable (fss k f) k" by (rule usable_cong) (use s rs in simp_all)
  have "content D k' b = content D k b" if "b \<in> set xs" "usable (fss k f) k b" for b
    using t that E unfolding touches_def usable_def by blast
  then have "flist (usable (fss k f) k) (content D k') (entries (fs_nfree (fss k' f)) (fs_free (fss k' f))) xs"
    by (intro flist_cong [OF l]) auto
  moreover have "\<forall>b \<in> insert SUPERB (set xs). none_busy_at N k' (fsbtodb b)" using touches_none_busy [OF t] d(6,7) sub by blast
  ultimately show ?thesis unfolding fs_ok_def u using s(1,4) rs d(3,4) by (simp add: on_disk_def)
qed

lemma alloc_front:
  assumes o: "fs_ok N D f (x # xs) k" and f: "\<exists>i < N. \<not> busy k i"
  obtains k' where "(case take_bno (fss k f) of (None, s) \<Rightarrow> None | (Some b, s) \<Rightarrow>
       if b \<noteq> x then None
       else if fs_nfree s \<le> 0 then next_list ramstrategy D f b (upd_fs f (\<lambda>_. s) k) else Some (Got True, upd_fs f (\<lambda>_. s) k)) = Some (Got True, k')"
    "fs_ok N D f xs k'" "none_busy_at N k' (fsbtodb x)" "fs_tfree (fss k' f) = fs_tfree (fss k f)" "touches N D {SUPERB} k k'"
    "fs_isize (fss k' f) = fs_isize (fss k f)" "fs_fsize (fss k' f) = fs_fsize (fss k f)"
proof -
  note d = fs_okD [OF o]
  have x: "usable (fss k f) k x" "none_busy_at N k (fsbtodb x)" "x \<notin> set xs" using d by auto
  let ?s = "(fss k f)\<lparr>fs_nfree := fs_nfree (fss k f) - 1\<rparr>"
  note t = take_bno_some [OF d(5,2)]
  define k1 where "k1 = upd_fs f (\<lambda>_. ?s) k"
  have sc: "same_cache k k1" by (simp add: k1_def)
  note q = same_cache_cong [OF sc]
  have t1: "touches N D {} k k1" using touches_cache [OF touches_refl [OF d(1)] sc] .
  have s1: "fss k1 f = ?s" "super_ok (fss k1 f)" "a_flock k1 = a_flock k" "ram_size k1 = ram_size k"
    using d(2) t(2) by (simp_all add: k1_def super_ok_def)
  show thesis
  proof (cases "fs_nfree (fss k f) = 1")
    case False
    then have fl: "flist (usable (fss k f) k) (content D k) (entries (fs_nfree (fss k1 f)) (fs_free (fss k1 f))) xs"
      using t(3) by (simp add: s1)
    have "fs_ok N D f xs k1" by (rule fs_okI [OF o t1 _ _ s1(2) _ _ s1(3) fl]) (auto simp: s1)
    moreover have "touches N D {SUPERB} k k1" using touches_mono [OF t1] by blast
    ultimately show thesis using that [of k1] t(1) False t(2) x(2) q(8) by (simp add: k1_def [symmetric] s1)
  next
    case True
    have n: "1 \<le> sint (content D k1 x ! 0)" "sint (content D k1 x ! 0) \<le> 50"
      and fl: "flist (usable (fss k f) k) (content D k) (block_entries (content D k x)) xs" using t(4) [OF True] q(4) by simp_all
    obtain k2 where k2: "next_list ramstrategy D f x k1 = Some (Got True, k2)" "touches N D {SUPERB} k1 k2" "a_flock k2 = a_flock k1"
      "super_ok (fss k2 f)" "entries (fs_nfree (fss k2 f)) (fs_free (fss k2 f)) = block_entries (content D k1 x)"
      "fs_isize (fss k2 f) = fs_isize (fss k1 f)" "fs_fsize (fss k2 f) = fs_fsize (fss k1 f)" "fs_tfree (fss k2 f) = fs_tfree (fss k1 f)"
      by (rule next_list_ok [OF _ _ _ _ _ _ s1(2) _ n]) (use d f x s1 in \<open>auto simp: q usable_def\<close>)
    have t2: "touches N D {SUPERB} k k2" using touches_trans [OF t1 k2(2)] by simp
    have "SUPERB \<notin> set xs" using d(8) by (auto simp: usable_def)
    then have "fs_ok N D f xs k2"
      by (intro fs_okI [OF o t2 _ _ k2(4)]) (use k2(3,5-7) s1 fl q(4) in auto)
    moreover have "k1 = upd_fs f (\<lambda>_. (fss k f)\<lparr>fs_nfree := 0\<rparr>) k" using True by (simp add: k1_def)
    ultimately show thesis using that [of k2] t(1) True k2(1,6-8) x(2) touches_none_busy [OF t2] t2 s1 by simp
  qed
qed

text \<open>The buffer of the block, and clearing it.\<close>

lemma fs_ok_same:
  assumes o: "fs_ok N D f xs k" and c: "cache_ok N D k'" and more: "fss k' f = (fss k f)\<lparr>fs_fmod := m, fs_tfree := t\<rparr>" "a_flock k' = a_flock k"
    and rs: "ram_size k' = ram_size k" and ct: "\<And>b. b \<in> set xs \<Longrightarrow> content D k' b = content D k b"
    and nb: "\<And>b. b \<in> insert SUPERB (set xs) \<Longrightarrow> none_busy_at N k' (fsbtodb b)"
  shows "fs_ok N D f xs k'"
proof -
  note d = fs_okD [OF o]
  have u: "usable (fss k' f) k' = usable (fss k f) k" by (rule usable_cong) (simp_all add: more rs)
  have "flist (usable (fss k f) k) (content D k') (entries (fs_nfree (fss k' f)) (fs_free (fss k' f))) xs"
    using flist_cong [OF d(5), of "content D k'"] ct by (simp add: more)
  then show ?thesis unfolding fs_ok_def u using c d(2-4) more rs nb by (simp add: on_disk_def super_ok_def)
qed

lemma alloc_back:
  assumes o: "fs_ok N D f xs k" and f: "\<exists>i < N. \<not> busy k i" and x: "usable (fss k f) k x" "none_busy_at N k (fsbtodb x)" "x \<notin> set xs"
  obtains i k1 k2 where "getblk ramstrategy D x k = Some (Got (Buf i), k1)"
    "k2 = (let k4 = upd_buf (Buf i) (\<lambda>b. b\<lparr>b_resid := 0\<rparr>) k1; k5 = (if clr then clrbuf (Buf i) k4 else k4)
               in upd_fs f (\<lambda>s. s\<lparr>fs_fmod := 1, fs_tfree := wrap32 (fs_tfree s - 1)\<rparr>) k5)"
    "fs_ok N D f xs k2" "i < N" "\<not> busy k i" "\<forall>j. busy k2 j = (j = i \<or> busy k j)" "is_block D (fsbtodb x) (bufs k2 (Buf i))"
    "clr \<longrightarrow> get_data k2 (Buf i) = replicate 512 0" "fs_tfree (fss k2 f) = wrap32 (fs_tfree (fss k f) - 1)"
    "fss k2 f = (fss k f)\<lparr>fs_fmod := 1, fs_tfree := wrap32 (fs_tfree (fss k f) - 1)\<rparr>" "u_error (u k2) = u_error (u k)"
    "\<forall>b. on_disk k b \<longrightarrow> b \<noteq> x \<longrightarrow> content D k2 b = content D k b" "ram_size k2 = ram_size k"
    "\<forall>j. busy k j \<longrightarrow> cells k2 (Buf j) = cells k (Buf j)" "bio.more k1 = bio.more k"
    "\<not> flag (b_flags (cells k2 (Buf i))) B_ERROR"
proof -
  note d = fs_okD [OF o]
  obtain i k1 where k1: "getblk ramstrategy D x k = Some (Got (Buf i), k1)" "cache_ok N D k1" "gets N (fsbtodb x) i k k1"
    using getblk_ok [OF d(1) f x(2)] by metis
  have i: "i < N" "busy k1 i" "\<And>j. busy k1 j = (j = i \<or> busy k j)" "live (cells k1 (Buf i))" "\<not> busy k i"
    "b_blkno (cells k1 (Buf i)) = fsbtodb x" "\<And>j. busy k j \<Longrightarrow> cells k1 (Buf j) = cells k (Buf j)" "ram_size k1 = ram_size k"
    "u_error (u k1) = u_error (u k)" "\<not> flag (b_flags (cells k1 (Buf i))) B_ERROR"
    using k1(3) by (simp_all add: gets_def)
  obtain H F where h: "cell_ok D H k1 i" "sizes_ok k1" using cache_okD [OF k1(2)] i(1) by metis
  have dx: "on_disk k x" using x(1) by (simp add: usable_def)
  have dk: "in_disk k1 (b_blkno (cells k1 (Buf i)))" using on_disk_fsbtodb(2) [OF dx] i(6,8) by (simp add: in_disk_def)
  have "upd_buf (Buf i) (\<lambda>b. b\<lparr>b_resid := 0\<rparr>) k1 = k1"
  proof -
    have "b_resid (bufs k1 (Buf i)) = 0" using h(1) by (simp add: cell_ok_def Let_def cell_fields)
    then have "(bufs k1 (Buf i))\<lparr>b_resid := 0\<rparr> = bufs k1 (Buf i)" by (cases "bufs k1 (Buf i)") simp
    then show ?thesis by (simp add: upd_buf_def fun_upd_idem)
  qed
  note rs0 = this
  define k5 where "k5 = (if clr then clrbuf (Buf i) k1 else k1)"
  define k2 where "k2 = upd_fs f (\<lambda>s. s\<lparr>fs_fmod := 1, fs_tfree := wrap32 (fs_tfree s - 1)\<rparr>) k5"
  have "length (replicate 512 (0 :: u_int)) = 512" by simp
  note p = put_data_ok [OF k1(2) i(1,2,4) dk this]
  have k5: "cache_ok N D k5" "cells k5 = cells k1" "ram_size k5 = ram_size k" "u_error (u k5) = u_error (u k)" "bio.more k5 = bio.more k"
    "clr \<Longrightarrow> get_data k5 (Buf i) = replicate 512 0"
    "\<And>n. even n \<Longrightarrow> n \<noteq> fsbtodb x \<Longrightarrow> content_at N k5 n = content_at N k n"
    using p(1-5) p(6) i k1(2,3) getblk_bmore [OF k1(1)] by (auto simp: k5_def clrbuf_def gets_def)
  have sc: "same_cache k5 k2" by (simp add: k2_def)
  note q = same_cache_cong [OF sc]
  have f2: "fss k2 f = (fss k f)\<lparr>fs_fmod := 1, fs_tfree := wrap32 (fs_tfree (fss k f) - 1)\<rparr>" "a_flock k2 = a_flock k"
    "ram_size k2 = ram_size k" "u_error (u k2) = u_error (u k)"
    using bmore_fsk [OF k5(5)] k5(3,4) by (simp_all add: k2_def)
  have ne: "\<not> flag (b_flags (cells k2 (Buf i))) B_ERROR" using i(10) q(1) k5(2) by simp
  have cl: "\<forall>j. busy k j \<longrightarrow> cells k2 (Buf j) = cells k (Buf j)" using i(7) q(1) k5(2) by simp
  have bu: "busy k2 j = (j = i \<or> busy k j)" for j using i(3) q(6) k5(2) by (simp add: busy_def)
  have ct: "content D k2 b = content D k b" if "on_disk k b" "b \<noteq> x" for b
    unfolding q(4) content_cache [OF k5(1)] content_cache [OF d(1)]
    using that on_disk_fsbtodb(1) [OF that(1)] on_disk_fsbtodb(1) [OF dx] fsbtodb_even by (intro k5(7)) auto
  have nb: "none_busy_at N k2 (fsbtodb b)" if "b = SUPERB \<or> b \<in> set xs" for b
  proof -
    have b: "on_disk k b" "b \<noteq> x" "none_busy_at N k (fsbtodb b)" using that d(4,6,7,8) x by (auto simp: usable_def)
    have "fsbtodb b \<noteq> fsbtodb x" using b(2) on_disk_fsbtodb(1) [OF b(1)] on_disk_fsbtodb(1) [OF dx] by simp
    then show ?thesis
      unfolding none_busy_at_def bu q(1) k5(2) using b(3) i(6,7) unfolding none_busy_at_def by metis
  qed
  have "fs_ok N D f xs k2"
    by (rule fs_ok_same [OF o _ f2(1-3)]) (use q(2) k5(1) ct x(3) d(8) nb in \<open>auto simp: usable_def\<close>)
  moreover have "is_block D (fsbtodb x) (bufs k2 (Buf i))"
    unfolding is_block_cells q(1) k5(2) using i(4,6) h(1) by (simp add: is_block_def live_def cell_ok_def Let_def)
  ultimately show thesis
    using that [OF k1(1), of k2] i(1,5) bu f2 k5(6) ct q(5) rs0 cl ne getblk_bmore [OF k1(1)] by (simp add: Let_def k2_def [symmetric] k5_def [symmetric])
qed

end
