(* ===== verification/FsStack.thy ===== *)
theory FsStack imports FsProps begin

text \<open>
  alloc and free as pop and push of the stack of free blocks.
\<close>

section \<open>alloc\<close>

lemma alloc_ok:
  assumes o: "fs_ok N D f (x # xs) k" and f: "\<exists>i < N. \<not> busy k i"
  obtains i k' where "alloc ramstrategy D f clr k = Some (Got (Some (Buf i)), k')" "fs_ok N D f xs k'" "i < N" "\<not> busy k i"
    "\<forall>j. busy k' j = (j = i \<or> busy k j)" "is_block D (fsbtodb x) (bufs k' (Buf i))" "clr \<longrightarrow> get_data k' (Buf i) = replicate 512 0"
    "fs_tfree (fss k' f) = wrap32 (fs_tfree (fss k f) - 1)" "fs_fmod (fss k' f) = 1" "u_error (u k') = u_error (u k)"
    "\<forall>b. on_disk k b \<longrightarrow> b \<noteq> x \<longrightarrow> b \<noteq> SUPERB \<longrightarrow> content D k' b = content D k b"
    "fs_isize (fss k' f) = fs_isize (fss k f)" "fs_fsize (fss k' f) = fs_fsize (fss k f)" "ram_size k' = ram_size k"
    "\<forall>j. busy k j \<longrightarrow> cells k' (Buf j) = cells k (Buf j)" "\<not> flag (b_flags (cells k' (Buf i))) B_ERROR"
proof -
  note d = fs_okD [OF o]
  obtain k1 where k1: "(case take_bno (fss k f) of (None, s) \<Rightarrow> None | (Some b, s) \<Rightarrow>
       if b \<noteq> x then None
       else if fs_nfree s \<le> 0 then next_list ramstrategy D f b (upd_fs f (\<lambda>_. s) k) else Some (Got True, upd_fs f (\<lambda>_. s) k)) = Some (Got True, k1)"
    "fs_ok N D f xs k1" "none_busy_at N k1 (fsbtodb x)" "fs_tfree (fss k1 f) = fs_tfree (fss k f)" "touches N D {SUPERB} k k1"
    "fs_isize (fss k1 f) = fs_isize (fss k f)" "fs_fsize (fss k1 f) = fs_fsize (fss k f)"
    using alloc_front [OF o f] .
  obtain s where s: "take_bno (fss k f) = (Some x, s)"
    "(if fs_nfree s \<le> 0 then next_list ramstrategy D f x (upd_fs f (\<lambda>_. s) k) else Some (Got True, upd_fs f (\<lambda>_. s) k)) = Some (Got True, k1)"
    using k1(1) by (auto split: prod.splits option.splits if_splits)
  have t: "ram_size k1 = ram_size k" "u_error (u k1) = u_error (u k)" "\<And>j. busy k1 j = busy k j"
    "\<And>j. busy k j \<Longrightarrow> cells k1 (Buf j) = cells k (Buf j)"
    using k1(5) by (simp_all add: touches_def)
  have us: "usable (fss k1 f) k1 = usable (fss k f) k" by (rule usable_cong) (use k1(6,7) t(1) in simp_all)
  have x: "usable (fss k1 f) k1 x" "x \<notin> set xs" using d(8,9) us by simp_all
  have f1: "\<exists>i < N. \<not> busy k1 i" using f t(3) by simp
  obtain i k2 k3 where k3: "getblk ramstrategy D x k1 = Some (Got (Buf i), k2)"
    "k3 = (let k4 = upd_buf (Buf i) (\<lambda>b. b\<lparr>b_resid := 0\<rparr>) k2; k5 = (if clr then clrbuf (Buf i) k4 else k4)
               in upd_fs f (\<lambda>s. s\<lparr>fs_fmod := 1, fs_tfree := wrap32 (fs_tfree s - 1)\<rparr>) k5)"
    "fs_ok N D f xs k3" "i < N" "\<not> busy k1 i" "\<forall>j. busy k3 j = (j = i \<or> busy k1 j)" "is_block D (fsbtodb x) (bufs k3 (Buf i))"
    "clr \<longrightarrow> get_data k3 (Buf i) = replicate 512 0" "fs_tfree (fss k3 f) = wrap32 (fs_tfree (fss k1 f) - 1)"
    "fss k3 f = (fss k1 f)\<lparr>fs_fmod := 1, fs_tfree := wrap32 (fs_tfree (fss k1 f) - 1)\<rparr>" "u_error (u k3) = u_error (u k1)"
    "\<forall>b. on_disk k1 b \<longrightarrow> b \<noteq> x \<longrightarrow> content D k3 b = content D k1 b" "ram_size k3 = ram_size k1"
    "\<forall>j. busy k1 j \<longrightarrow> cells k3 (Buf j) = cells k1 (Buf j)" "bio.more k2 = bio.more k1" "\<not> flag (b_flags (cells k3 (Buf i))) B_ERROR"
    using alloc_back [OF k1(2) f1 x(1) k1(3) x(2), where clr = clr] .
  have fl: "fs_flock (fss k f) = 0" using d(2) by (simp add: super_ok_def)
  have run: "alloc ramstrategy D f clr k = Some (Got (Some (Buf i)), k3)"
    unfolding alloc_def using fl s k3(1,2) by (simp add: and_then_def Let_def)
  have ct: "content D k3 b = content D k b" if "on_disk k b" "b \<noteq> x" "b \<noteq> SUPERB" for b
    using k3(12) k1(5) that t(1) by (simp add: touches_def on_disk_def)
  show thesis
    by (rule that [OF run k3(3,4)]) (use k3(5-14,16) k1(4,6,7) t ct in \<open>simp_all\<close>)
qed

section \<open>free\<close>

lemma same_cache_refl [simp]: "same_cache k k"
  by (simp add: same_cache_def same_mem_def)

lemma fs_ok_touched:
  assumes o: "fs_ok N D f ys k" and t: "touches N D E k k'"
    and s: "super_ok (fss k' f)" "fs_isize (fss k' f) = fs_isize (fss k f)" "fs_fsize (fss k' f) = fs_fsize (fss k f)" "a_flock k' = a_flock k"
    and l: "flist (usable (fss k f) k) (content D k') (entries (fs_nfree (fss k' f)) (fs_free (fss k' f))) xs"
    and nb: "\<And>b. b \<in> set xs \<Longrightarrow> none_busy_at N k (fsbtodb b)"
  shows "fs_ok N D f xs k'"
proof -
  note d = fs_okD [OF o]
  have rs: "ram_size k' = ram_size k" "cache_ok N D k'" using t by (simp_all add: touches_def)
  have u: "usable (fss k' f) k' = usable (fss k f) k" by (rule usable_cong) (use s rs in simp_all)
  have "\<forall>b \<in> insert SUPERB (set xs). none_busy_at N k' (fsbtodb b)" using touches_none_busy [OF t] d(7) nb by blast
  then show ?thesis unfolding fs_ok_def u using s(1,4) rs d(3,4) l by (simp add: on_disk_def)
qed

text \<open>A full list is moved to the block that is freed.\<close>

lemma spill_list_ok:
  assumes c: "cache_ok N D k" and f: "\<exists>i < N. \<not> busy k i" and nb: "none_busy_at N k (fsbtodb b)" and b: "on_disk k b"
    and s: "super_ok (fss k f)" "a_flock k f \<noteq> 0"
  obtains k' ws where "spill_list ramstrategy D f b k = Some (Got (), k')" "touches N D {b} k k'" "a_flock k' = a_flock k"
    "fss k' f = (fss k f)\<lparr>fs_nfree := 0\<rparr>" "content D k' b = fblk_words (fss k f) @ ws"
proof -
  define ka where "ka = upd_fs f (\<lambda>s. s\<lparr>fs_flock := fs_flock s + 1\<rparr>) k"
  have sc: "same_cache k ka" by (simp add: ka_def)
  note q = same_cache_cong [OF sc]
  have rs: "ram_size ka = ram_size k" "u ka = u k" "bmem ka = bmem k" by (simp_all add: ka_def)
  obtain i k1 where k1: "getblk ramstrategy D b ka = Some (Got (Buf i), k1)" "length (get_data k1 (Buf i)) = 512" "bio.more k1 = bio.more ka"
    and wr: "\<And>ws k2. length ws = 512 \<Longrightarrow> same_cache (put_data (Buf i) ws k1) k2 \<Longrightarrow>
       \<exists>k3. bwrite ramstrategy (Buf i) k2 = Some (Got (Buf i), k3) \<and> touches N D {b} ka k3 \<and> content D k3 b = ws \<and> bio.more k3 = bio.more k2"
    by (rule write_step [of N D ka b]) (use c f nb b in \<open>auto simp: q\<close>)
  define ws where "ws = drop 101 (get_data k1 (Buf i))"
  have f1: "fss k1 f = (fss k f)\<lparr>fs_flock := 1\<rparr>" "a_flock k1 = a_flock k"
    using bmore_fsk [OF k1(3)] s(1) by (simp_all add: ka_def super_ok_def)
  have l: "length (fblk_words (fss k f)) = 101" "fblk_words (fss k1 f) = fblk_words (fss k f)"
    using s(1) f1(1) by (simp_all add: length_fblk super_ok_def fblk_words_def)
  define k2 where "k2 = upd_fs f (\<lambda>s. s\<lparr>fs_nfree := 0\<rparr>) (put_words (Buf i) (fblk_words (fss k1 f)) k1)"
  have p: "put_words (Buf i) (fblk_words (fss k1 f)) k1 = put_data (Buf i) (fblk_words (fss k f) @ ws) k1"
    by (simp add: put_words_def l ws_def)
  have lw: "length (fblk_words (fss k f) @ ws) = 512" using k1(2) l(1) by (simp add: ws_def)
  have "same_cache (put_data (Buf i) (fblk_words (fss k f) @ ws) k1) k2" unfolding k2_def p by simp
  then obtain k3 where k3: "bwrite ramstrategy (Buf i) k2 = Some (Got (Buf i), k3)" "touches N D {b} ka k3"
    "content D k3 b = fblk_words (fss k f) @ ws" "bio.more k3 = bio.more k2" using wr [OF lw] by blast
  note m = bmore_fsk [OF k3(4)]
  have pm: "bio.more (put_words (Buf i) (fblk_words (fss k1 f)) k1) = bio.more k1" unfolding p by simp
  have f3: "fss k3 f = (fss k f)\<lparr>fs_flock := 1, fs_nfree := 0\<rparr>" "a_flock k3 = a_flock k"
    using m bmore_fsk [OF pm] f1 by (simp_all add: k2_def)
  have "sys_ok k3" using k3(2) by (simp add: touches_def cache_ok_def)
  then obtain k4 where k4: "unlock_free f k3 = Some k4" "same_cache k3 k4" "fss k4 = (fss k3)(f := (fss k3 f)\<lparr>fs_flock := 0\<rparr>)" "a_flock k4 = a_flock k3"
    by (rule unlock_free_ok) (use s(2) f3(2) in auto)
  have run: "spill_list ramstrategy D f b k = Some (Got (), k4)"
    unfolding spill_list_def and_then_def using k1(1) k3(1) k4(1) by (simp add: ka_def [symmetric] k2_def [symmetric] Let_def)
  have "touches N D {b} ka k4" using touches_cache [OF k3(2) k4(2)] .
  then have "touches N D {b} k k4" using q rs by (simp add: touches_def)
  moreover have "fss k4 f = (fss k f)\<lparr>fs_nfree := 0\<rparr>"
    using k4(3) f3(1) s(1) by (cases "fss k f") (simp add: super_ok_def)
  moreover have "content D k4 b = fblk_words (fss k f) @ ws" using same_cache_cong(4) [OF k4(2)] k3(3) by simp
  ultimately show thesis using that run k4(4) f3(2) by simp
qed

text \<open>Room in the super block's list for one more.\<close>

lemma free_room:
  assumes o: "fs_ok N D f xs k" and f: "\<exists>i < N. \<not> busy k i"
    and b: "usable (fss k f) k b" "b \<notin> set xs" "none_busy_at N k (fsbtodb b)" and n: "1 \<le> fs_nfree (fss k f)"
  obtains k' where "(if fs_nfree (fss k f) \<ge> NICFREE then spill_list ramstrategy D f b k else Some (Got (), k)) = Some (Got (), k')"
    "touches N D {b} k k'" "a_flock k' = a_flock k" "super_ok (fss k' f)" "fs_nfree (fss k' f) < 50"
    "flist (usable (fss k f) k) (content D k') (entries (fs_nfree (fss k' f)) (fs_free (fss k' f)) @ [b]) (b # xs)"
    "fs_isize (fss k' f) = fs_isize (fss k f)" "fs_fsize (fss k' f) = fs_fsize (fss k f)" "fs_tfree (fss k' f) = fs_tfree (fss k f)"
proof -
  note d = fs_okD [OF o]
  have len: "length (entries (fs_nfree (fss k f)) (fs_free (fss k f))) = nat (fs_nfree (fss k f))"
    using d(2) by (auto simp: entries_def super_ok_def min_def nat_le_iff)
  show thesis
  proof (cases "fs_nfree (fss k f) < 50")
    case True
    have "entries (fs_nfree (fss k f)) (fs_free (fss k f)) \<noteq> []" using len n by auto
    then have "flist (usable (fss k f) k) (content D k) (entries (fs_nfree (fss k f)) (fs_free (fss k f)) @ [b]) (b # xs)"
      using flist.pop b(1,2) d(5) by metis
    moreover have "touches N D {b} k k" using touches_mono [OF touches_refl [OF d(1)]] by blast
    ultimately show thesis using that [of k] True d(2) by simp
  next
    case False
    then have n50: "fs_nfree (fss k f) = 50" using d(2) by (simp add: super_ok_def)
    have bd: "on_disk k b" using b(1) by (simp add: usable_def)
    obtain k' ws where k': "spill_list ramstrategy D f b k = Some (Got (), k')" "touches N D {b} k k'" "a_flock k' = a_flock k"
      "fss k' f = (fss k f)\<lparr>fs_nfree := 0\<rparr>" "content D k' b = fblk_words (fss k f) @ ws"
      using spill_list_ok [OF d(1) f b(3) bd d(2,3)] by metis
    have su: "super_ok (fss k' f)" using d(2) by (simp add: k'(4) super_ok_def)
    define s' where "s' = load_fblk (fblk_words (fss k f) @ ws) (fss k f)"
    have "s' = (fss k f)\<lparr>fs_nfree := fs_nfree (fss k f), fs_free := fs_free (fss k f)\<rparr>"
      unfolding s'_def using d(2) by (intro fblk_roundtrip) (simp_all add: super_ok_def)
    then have "fs_nfree s' = 50" "fs_free s' = fs_free (fss k f)" using n50 by simp_all
    then have e: "sint (content D k' b ! 0) = 50" "block_entries (content D k' b) = entries (fs_nfree (fss k f)) (fs_free (fss k f))"
      using n50 by (simp_all add: s'_def load_fblk_def block_entries_def k'(5))
    have "content D k' c = content D k c" if "c \<in> set xs" for c
      using k'(2) that d(8) [OF that] b(2) by (auto simp: touches_def usable_def)
    then have "flist (usable (fss k f) k) (content D k') (block_entries (content D k' b)) xs"
      unfolding e(2) by (intro flist_cong [OF d(5)]) simp
    then have "flist (usable (fss k f) k) (content D k') [b] (b # xs)" using b(1,2) e(1) by (intro flist.link) simp_all
    then show thesis using that [of k'] k'(1-4) su n50 by (simp add: entries_def)
  qed
qed

lemma free_block_ok:
  assumes o: "fs_ok N D f xs k" and f: "\<exists>i < N. \<not> busy k i"
    and b: "usable (fss k f) k b" "b \<notin> set xs" "none_busy_at N k (fsbtodb b)"
  obtains k' where "free ramstrategy D f b k = Some (Got (), k')" "fs_ok N D f (b # xs) k'"
    "fs_tfree (fss k' f) = wrap32 (fs_tfree (fss k f) + 1)" "fs_fmod (fss k' f) = 1" "touches N D {b} k k'"
    "fs_isize (fss k' f) = fs_isize (fss k f)" "fs_fsize (fss k' f) = fs_fsize (fss k f)"
proof -
  note d = fs_okD [OF o]
  define k1 where "k1 = (if fs_nfree (fss k f) \<le> 0 then upd_fs f (\<lambda>s. s\<lparr>fs_nfree := 1, fs_free := (fs_free s)[0 := 0]\<rparr>) k else k)"
  have sc: "same_cache k k1" by (simp add: k1_def)
  have t1: "touches N D {} k k1" using touches_cache [OF touches_refl [OF d(1)] sc] .
  have s1: "a_flock k1 = a_flock k" "fs_isize (fss k1 f) = fs_isize (fss k f)" "fs_fsize (fss k1 f) = fs_fsize (fss k f)"
    "fs_tfree (fss k1 f) = fs_tfree (fss k f)" "1 \<le> fs_nfree (fss k1 f)" "ram_size k1 = ram_size k" "u_error (u k1) = u_error (u k)" by (auto simp: k1_def)
  have "\<forall>c \<in> set ((fs_free (fss k f))[0 := 0]). int32 c"
    using d(2) set_update_subset_insert [of "fs_free (fss k f)" 0 0] by (auto simp: super_ok_def int32_def)
  then have su: "super_ok (fss k1 f)" using d(2) by (auto simp: super_ok_def k1_def)
  have fl: "flist (usable (fss k f) k) (content D k1) (entries (fs_nfree (fss k1 f)) (fs_free (fss k1 f))) xs"
  proof (cases "fs_nfree (fss k f) \<le> 0")
    case True
    then have "entries (fs_nfree (fss k f)) (fs_free (fss k f)) = []" by (simp add: entries_def)
    then have "xs = []" using d(5) by (auto elim: flist.cases)
    moreover have "entries 1 ((fs_free (fss k f))[0 := 0]) = [0]" using d(2) by (cases "fs_free (fss k f)") (auto simp: entries_def super_ok_def)
    ultimately show ?thesis using True flist.ends by (simp add: k1_def)
  qed (use d(5) in \<open>simp add: k1_def\<close>)
  have o1: "fs_ok N D f xs k1" by (rule fs_ok_touched [OF o t1 su s1(2,3,1) fl d(6)])
  have us: "usable (fss k1 f) k1 = usable (fss k f) k" by (rule usable_cong) (use s1 in simp_all)
  have q: "\<exists>i < N. \<not> busy k1 i" "none_busy_at N k1 (fsbtodb b)" "usable (fss k1 f) k1 b"
    using f b(1,3) us same_cache_cong(6,8) [OF sc] by simp_all
  obtain k2 where k2: "(if fs_nfree (fss k1 f) \<ge> NICFREE then spill_list ramstrategy D f b k1 else Some (Got (), k1)) = Some (Got (), k2)"
    "touches N D {b} k1 k2" "a_flock k2 = a_flock k1" "super_ok (fss k2 f)" "fs_nfree (fss k2 f) < 50"
    "flist (usable (fss k1 f) k1) (content D k2) (entries (fs_nfree (fss k2 f)) (fs_free (fss k2 f)) @ [b]) (b # xs)"
    "fs_isize (fss k2 f) = fs_isize (fss k1 f)" "fs_fsize (fss k2 f) = fs_fsize (fss k1 f)" "fs_tfree (fss k2 f) = fs_tfree (fss k1 f)"
    using free_room [OF o1 q(1,3) b(2) q(2) s1(5)] by metis
  define k3 where "k3 = upd_fs f (\<lambda>s. s\<lparr>fs_free := (fs_free s)[nat (fs_nfree s) := b], fs_nfree := fs_nfree s + 1,
             fs_tfree := wrap32 (fs_tfree s + 1), fs_fmod := 1\<rparr>) k2"
  have c3: "same_cache k2 k3" by (simp add: k3_def)
  have t3: "touches N D {b} k k3" using touches_cache [OF touches_trans [OF t1 k2(2)] c3] by simp
  have n: "0 \<le> fs_nfree (fss k2 f)" "length (fs_free (fss k2 f)) = 50" using k2(4) by (simp_all add: super_ok_def)
  have m: "nat (fs_nfree (fss k2 f)) < 50" using k2(5) n(1) by simp
  have e: "entries (fs_nfree (fss k3 f)) (fs_free (fss k3 f)) = entries (fs_nfree (fss k2 f)) (fs_free (fss k2 f)) @ [b]"
    using n m by (simp add: k3_def entries_def nat_add_distrib take_Suc_conv_app_nth)
  have "\<forall>c \<in> set (fs_free (fss k3 f)). int32 c"
    using k2(4) b(1) set_update_subset_insert [of "fs_free (fss k2 f)" "nat (fs_nfree (fss k2 f))" b]
    by (auto simp: k3_def super_ok_def usable_def)
  then have su3: "super_ok (fss k3 f)" using k2(4,5) by (simp add: k3_def super_ok_def)
  have s3: "a_flock k3 = a_flock k" "fs_isize (fss k3 f) = fs_isize (fss k f)" "fs_fsize (fss k3 f) = fs_fsize (fss k f)"
    "fs_tfree (fss k3 f) = wrap32 (fs_tfree (fss k f) + 1)" "fs_fmod (fss k3 f) = 1" using s1 k2(3,7-9) by (simp_all add: k3_def)
  have fl3: "flist (usable (fss k f) k) (content D k3) (entries (fs_nfree (fss k3 f)) (fs_free (fss k3 f))) (b # xs)"
    unfolding e same_cache_cong(4) [OF c3] us [symmetric] by (rule k2(6))
  have ok3: "fs_ok N D f (b # xs) k3"
    by (rule fs_ok_touched [OF o t3 su3 s3(2,3,1) fl3]) (use d(6) b(3) in auto)
  have "fs_flock (fss k f) = 0" "\<not> badblock (fss k f) b" using d(2) b(1) by (simp_all add: super_ok_def usable_def)
  then have "free ramstrategy D f b k = Some (Got (), k3)"
    unfolding free_def using k2(1) by (simp add: k1_def [symmetric] Let_def and_then_def k3_def [symmetric])
  then show thesis using that ok3 s3 t3 by blast
qed

end
