(* ===== verification/Block_Stack.thy ===== *)
theory Block_Stack imports Prelude "HOL-Library.Multiset" begin

text \<open>
  The contract of an allocator of numbered blocks: the free blocks are a list without repetition, a block is taken off its
  front, and given back to its front. What its clients may rely on then: whatever they take and give back, in any
  order, no block is handed out twice, and none is lost.
\<close>

datatype blk_client = Take | Give nat

locale block_stack =
  fixes good :: "'s \<Rightarrow> int list \<Rightarrow> bool"
    and valid :: "'s \<Rightarrow> int \<Rightarrow> bool"
    and pop :: "'s \<Rightarrow> (int option \<times> 's) option"
    and push :: "int \<Rightarrow> 's \<Rightarrow> 's option"
  assumes pop_some: "good s (x # xs) \<Longrightarrow> \<exists>s'. pop s = Some (Some x, s') \<and> good s' xs \<and> valid s' = valid s"
    and pop_none: "good s [] \<Longrightarrow> \<exists>s'. pop s = Some (None, s') \<and> good s' [] \<and> valid s' = valid s"
    and push_ok: "good s xs \<Longrightarrow> valid s b \<Longrightarrow> b \<notin> set xs \<Longrightarrow> \<exists>s'. push b s = Some s' \<and> good s' (b # xs) \<and> valid s' = valid s"
    and good_valid: "good s xs \<Longrightarrow> b \<in> set xs \<Longrightarrow> valid s b"
begin

text \<open>The clients' steps: they hold some blocks, take one more, give the \<open>n\<close>th of theirs back.\<close>

fun turn :: "blk_client \<Rightarrow> 's \<times> int list \<Rightarrow> ('s \<times> int list) option" where
  "turn Take (s, held) = map_option (\<lambda>(r, s'). (s', case r of None \<Rightarrow> held | Some b \<Rightarrow> b # held)) (pop s)"
| "turn (Give n) (s, held) = (if n < length held then map_option (\<lambda>s'. (s', remove1 (held ! n) held)) (push (held ! n) s)
     else Some (s, held))"

fun turns :: "blk_client list \<Rightarrow> 's \<times> int list \<Rightarrow> ('s \<times> int list) option" where
  "turns [] x = Some x"
| "turns (op # ops) x = Option.bind (turn op x) (turns ops)"

text \<open>All blocks: the free ones and those that are held.\<close>

definition holds :: "'s \<Rightarrow> int list \<Rightarrow> int list \<Rightarrow> bool" where
  "holds s held xs \<longleftrightarrow> good s xs \<and> distinct (xs @ held) \<and> (\<forall>b \<in> set held. valid s b)"

lemma turn_ok:
  assumes "holds s held xs"
  shows "\<exists>s' held' xs'. turn op (s, held) = Some (s', held') \<and> holds s' held' xs' \<and> mset (xs' @ held') = mset (xs @ held)"
proof (cases op)
  case Take
  show ?thesis
  proof (cases xs)
    case Nil
    then obtain s' where "pop s = Some (None, s')" "good s' []" "valid s' = valid s" using assms pop_none by (auto simp: holds_def)
    then show ?thesis using assms Take Nil by (auto simp: holds_def intro!: exI [of _ "[]"])
  next
    case (Cons x ys)
    then have "good s (x # ys)" using assms by (simp add: holds_def)
    from pop_some [OF this] obtain s' where "pop s = Some (Some x, s')" "good s' ys" "valid s' = valid s" by blast
    moreover have "valid s x" using assms Cons good_valid [of s xs x] by (simp add: holds_def)
    ultimately show ?thesis using assms Take Cons by (auto simp: holds_def intro!: exI [of _ ys])
  qed
next
  case (Give n)
  show ?thesis
  proof (cases "n < length held")
    case True
    then have m: "held ! n \<in> set held" by simp
    then obtain s' where s': "push (held ! n) s = Some s'" "good s' (held ! n # xs)" "valid s' = valid s"
      using assms push_ok [of s xs "held ! n"] by (auto simp: holds_def)
    have "holds s' (remove1 (held ! n) held) (held ! n # xs)"
      using assms s'(2,3) m notin_set_remove1 by (auto simp: holds_def in_set_remove1)
    moreover have "mset ((held ! n # xs) @ remove1 (held ! n) held) = mset (xs @ held)" using m by simp
    ultimately show ?thesis using Give True s'(1) by (auto simp del: mset_append)
  next
    case False
    then show ?thesis using Give assms by auto
  qed
qed

lemma turns_ok:
  assumes "holds s held xs"
  shows "\<exists>s' held' xs'. turns ops (s, held) = Some (s', held') \<and> holds s' held' xs' \<and> mset (xs' @ held') = mset (xs @ held)"
  using assms
proof (induction ops arbitrary: s held xs)
  case Nil
  then show ?case by auto
next
  case (Cons op ops)
  obtain s1 held1 xs1 where s1: "turn op (s, held) = Some (s1, held1)" "holds s1 held1 xs1" "mset (xs1 @ held1) = mset (xs @ held)"
    using turn_ok [OF Cons.prems] by blast
  then show ?case using Cons.IH [OF s1(2)] by (metis bind.bind_lunit turns.simps(2))
qed

end

end
