(* ===== verification/FsUse.thy ===== *)
theory FsUse imports FsStack Block_Stack begin

text \<open>
  The free list as a stack of blocks for its users, and the properties of the allocator.
\<close>

section \<open>The file system is full\<close>

lemma take_bno_frame: "snd (take_bno s) = s\<lparr>fs_nfree := fs_nfree (snd (take_bno s))\<rparr>"
proof (induction s rule: take_bno.induct)
  case (1 s)
  have e: "s\<lparr>fs_nfree := fs_nfree s\<rparr> = s" by simp
  show ?case
    by (subst (1 2) take_bno.simps) (use 1 e in \<open>auto simp: Let_def\<close>)
qed

lemma set_error_fsk [simp]:
  "fss (set_error e k) = fss k" "a_flock (set_error e k) = a_flock k" "ram_size (set_error e k) = ram_size k" "bufs (set_error e k) = bufs k"
  "u_error (u (set_error e k)) = e"
  by (simp_all add: set_error_def upd_u_def)

lemma alloc_none:
  assumes o: "fs_ok N D f [] k"
  obtains k' where "alloc strat D f clr k = Some (Got None, k')" "fs_ok N D f [] k'" "fs_tfree (fss k' f) = 0" "u_error (u k') = ENOSPC"
    "\<forall>j. busy k' j = busy k j" "content D k' = content D k" "fs_isize (fss k' f) = fs_isize (fss k f)"
    "fs_fsize (fss k' f) = fs_fsize (fss k f)" "ram_size k' = ram_size k"
    "cells k' = cells k" "clean k' = clean k" "get_data k' = get_data k"
proof -
  note d = fs_okD [OF o]
  obtain s where s: "take_bno (fss k f) = (None, s)" using take_bno_none [OF d(5,2)] by (metis prod.collapse)
  define k1 where "k1 = upd_fs f (\<lambda>s. s\<lparr>fs_nfree := 0, fs_tfree := 0\<rparr>) (upd_fs f (\<lambda>_. s) k)"
  define k2 where "k2 = set_error ENOSPC k1"
  have "s = (fss k f)\<lparr>fs_nfree := fs_nfree s\<rparr>" using take_bno_frame [of "fss k f"] s by simp
  then obtain n where n: "s = (fss k f)\<lparr>fs_nfree := n\<rparr>" by blast
  have f1: "fss k2 f = (fss k f)\<lparr>fs_nfree := 0, fs_tfree := 0\<rparr>" "a_flock k2 = a_flock k" "ram_size k2 = ram_size k"
    by (simp_all add: k2_def k1_def n)
  have sc: "same_cache k k1" by (simp add: k1_def same_cache_def same_mem_def) (simp add: upd_fs_def sys_ok_def sched_ok_def queues_def sleepers_ok_def)
  note q = same_cache_cong [OF sc]
  have c: "cache_ok N D k2" using error_cache(1) [of N D k1] d(1) q(2) by (simp add: k2_def)
  have ct: "content D k2 = content D k"
    unfolding fun_eq_iff content_cache [OF c] content_cache [OF d(1)] unfolding k2_def error_cache(2) q(3) by simp
  have cl: "cells k2 = cells k" using q(1) by (simp add: k2_def cells_def fun_eq_iff)
  then have bu: "busy k2 = busy k" by (simp add: busy_def fun_eq_iff)
  have ds: "disk k2 = disk k1" "get_data k2 = get_data k1" by (simp_all add: k2_def disk_def get_data_def set_error_def upd_u_def fun_eq_iff split: baddr.split)
  then have cn: "clean k2 = clean k" "get_data k2 = get_data k" using cl q(1,5,9) by (simp_all add: clean_def fun_eq_iff)
  have nb: "none_busy_at N k2 = none_busy_at N k" by (simp add: none_busy_at_def fun_eq_iff cl bu)
  have fl: "flist P C (entries 0 ys) []" for P C ys by (simp add: entries_def flist.none)
  have "fs_ok N D f [] k2"
    unfolding fs_ok_def nb f1 using c d(2,3,4,7) fl f1(3) by (simp add: super_ok_def on_disk_def)
  moreover have "alloc strat D f clr k = Some (Got None, k2)"
    using s d(2) by (simp add: alloc_def super_ok_def nospace_def k2_def k1_def)
  ultimately show thesis using that f1 ct bu cl cn by (simp add: k2_def)
qed

section \<open>Allocating, writing, freeing\<close>

text \<open>A block is allocated, cleared and written; the number comes from the buffer, as in bmap.\<close>

definition obtain_block ::
  "(bref \<Rightarrow> 'a fsk_scheme \<Rightarrow> 'a fsk_scheme option) \<Rightarrow> u_int \<Rightarrow> nat \<Rightarrow> 'a fsk_scheme \<Rightarrow> (int option \<times> 'a fsk_scheme) option" where
  "obtain_block strat dev f k = (case alloc strat dev f True k of
       Some (Got None, k1) \<Rightarrow> Some (None, k1)
     | Some (Got (Some bp), k1) \<Rightarrow> map_option (\<lambda>(_, k2). (Some (dbtofsb (b_blkno (bufs k1 bp))), k2)) (bwrite strat bp k1)
     | _ \<Rightarrow> None)"

definition return_block ::
  "(bref \<Rightarrow> 'a fsk_scheme \<Rightarrow> 'a fsk_scheme option) \<Rightarrow> u_int \<Rightarrow> nat \<Rightarrow> int \<Rightarrow> 'a fsk_scheme \<Rightarrow> 'a fsk_scheme option" where
  "return_block strat dev f b k = (case free strat dev f b k of Some (Got _, k1) \<Rightarrow> Some k1 | _ \<Rightarrow> None)"

definition fs_idle :: "nat \<Rightarrow> u_int \<Rightarrow> nat \<Rightarrow> 'a fsk_scheme \<Rightarrow> int list \<Rightarrow> bool" where
  "fs_idle N D f k xs \<longleftrightarrow> fs_ok N D f xs k \<and> idle N D k"

abbreviation (input) in_fs :: "nat \<Rightarrow> 'a fsk_scheme \<Rightarrow> int \<Rightarrow> bool" where
  "in_fs f k \<equiv> usable (fss k f) k"

lemma idle_free: "idle N D k \<Longrightarrow> (\<exists>i < N. \<not> busy k i) \<and> none_busy_at N k n"
  by (auto simp: idle_def none_busy_at_def)

lemma obtain_block_some:
  assumes "fs_idle N D f k (x # xs)"
  shows "\<exists>k'. obtain_block ramstrategy D f k = Some (Some x, k') \<and> fs_idle N D f k' xs \<and> in_fs f k' = in_fs f k"
proof -
  have o: "fs_ok N D f (x # xs) k" and id: "idle N D k" using assms by (simp_all add: fs_idle_def)
  have fr: "\<exists>i < N. \<not> busy k i" using idle_free [OF id] by simp
  note d = fs_okD [OF o]
  obtain i k1 where k1: "alloc ramstrategy D f True k = Some (Got (Some (Buf i)), k1)" "fs_ok N D f xs k1" "i < N" "\<not> busy k i"
    "\<forall>j. busy k1 j = (j = i \<or> busy k j)" "is_block D (fsbtodb x) (bufs k1 (Buf i))"
    "fs_isize (fss k1 f) = fs_isize (fss k f)" "fs_fsize (fss k1 f) = fs_fsize (fss k f)" "ram_size k1 = ram_size k"
    using alloc_ok [OF o fr, where clr = True] by (metis (lifting))
  note d1 = fs_okD [OF k1(2)]
  have x: "usable (fss k f) k x" "x \<notin> set xs" using d(8,9) by simp_all
  have xd: "on_disk k x" using x(1) by (simp add: usable_def)
  have "D \<noteq> NODEV" using cache_okD [OF d1(1)] by metis
  then have c: "live (cells k1 (Buf i))" "b_blkno (cells k1 (Buf i)) = fsbtodb x"
    using is_block_live k1(6) unfolding is_block_cells by blast+
  have dk: "in_disk k1 (b_blkno (cells k1 (Buf i)))" using on_disk_fsbtodb(2) [OF xd] c(2) k1(9) by (simp add: in_disk_def)
  have bi: "busy k1 i" using k1(5) by simp
  obtain k2 where k2: "bwrite ramstrategy (Buf i) k1 = Some (Got (Buf i), k2)" "cache_ok N D k2" "beside i k1 k2" "\<not> busy k2 i"
    "\<And>n. even n \<Longrightarrow> content_at N k2 n = (if n = b_blkno (cells k1 (Buf i)) then get_data k1 (Buf i) else content_at N k1 n)"
    using bwrite_ok [OF d1(1) k1(3) bi c(1) dk] by metis
  have bu: "busy k2 j = (j \<noteq> i \<and> busy k1 j)" for j using k2(3,4) by (cases "j = i") (simp_all add: beside_def busy_def)
  note m = bmore_fsk [OF bwrite_bmore [OF k2(1)]]
  have rs: "ram_size k2 = ram_size k1" using k2(3) by (simp add: beside_def)
  have id2: "idle N D k2" using id k2(2) bu k1(5) by (simp add: idle_def)
  have ct: "content D k2 b = content D k1 b" if "b \<in> set xs" for b
  proof -
    have b: "on_disk k b" "b \<noteq> x" using d(8) x that by (auto simp: usable_def)
    then have "fsbtodb b \<noteq> fsbtodb x" using on_disk_fsbtodb(1) [OF b(1)] on_disk_fsbtodb(1) [OF xd] by simp
    then show ?thesis unfolding content_cache [OF k2(2)] content_cache [OF d1(1)] using k2(5) [OF fsbtodb_even, of b] c(2) by simp
  qed
  have "fs_ok N D f xs k2"
    by (rule fs_ok_same [OF k1(2) k2(2), where m = "fs_fmod (fss k1 f)" and t = "fs_tfree (fss k1 f)"])
      (use m rs ct idle_free [OF id2] in simp_all)
  moreover have "in_fs f k2 = in_fs f k" by (rule usable_cong) (simp_all add: m k1(7-9) rs)
  moreover have "dbtofsb (b_blkno (bufs k1 (Buf i))) = x" using c(2) on_disk_fsbtodb(1) [OF xd] by (simp add: dbtofsb_def cell_fields)
  ultimately show ?thesis using id2 k1(1) k2(1) by (auto simp: obtain_block_def fs_idle_def)
qed

lemma obtain_block_none:
  assumes "fs_idle N D f k []"
  shows "\<exists>k'. obtain_block ramstrategy D f k = Some (None, k') \<and> fs_idle N D f k' [] \<and> in_fs f k' = in_fs f k"
proof -
  have o: "fs_ok N D f [] k" and id: "idle N D k" using assms by (simp_all add: fs_idle_def)
  obtain k' where k': "alloc ramstrategy D f True k = Some (Got None, k')" "fs_ok N D f [] k'" "\<forall>j. busy k' j = busy k j"
    "fs_isize (fss k' f) = fs_isize (fss k f)" "fs_fsize (fss k' f) = fs_fsize (fss k f)" "ram_size k' = ram_size k"
    using alloc_none [OF o, where strat = ramstrategy and clr = True] by metis
  have "in_fs f k' = in_fs f k" by (rule usable_cong) (simp_all add: k')
  moreover have "idle N D k'" using id k'(3) fs_okD(1) [OF k'(2)] by (simp add: idle_def)
  ultimately show ?thesis using k'(1,2) by (simp add: obtain_block_def fs_idle_def)
qed

lemma return_block_ok:
  assumes "fs_idle N D f k xs" "in_fs f k b" "b \<notin> set xs"
  shows "\<exists>k'. return_block ramstrategy D f b k = Some k' \<and> fs_idle N D f k' (b # xs) \<and> in_fs f k' = in_fs f k"
proof -
  have o: "fs_ok N D f xs k" and id: "idle N D k" using assms(1) by (simp_all add: fs_idle_def)
  have fr: "\<exists>i < N. \<not> busy k i" "none_busy_at N k (fsbtodb b)" using idle_free [OF id] by simp_all
  obtain k' where k': "free ramstrategy D f b k = Some (Got (), k')" "fs_ok N D f (b # xs) k'" "touches N D {b} k k'"
    "fs_isize (fss k' f) = fs_isize (fss k f)" "fs_fsize (fss k' f) = fs_fsize (fss k f)"
    using free_block_ok [OF o fr(1) assms(2,3) fr(2)] by metis
  have t: "cache_ok N D k'" "\<And>j. busy k' j = busy k j" "ram_size k' = ram_size k" using k'(3) by (simp_all add: touches_def)
  have "in_fs f k' = in_fs f k" by (rule usable_cong) (simp_all add: k' t)
  moreover have "idle N D k'" using id t by (simp add: idle_def)
  ultimately show ?thesis using k'(1,2) by (simp add: return_block_def fs_idle_def)
qed

interpretation fbs: block_stack "fs_idle N D f" "in_fs f" "obtain_block ramstrategy D f" "return_block ramstrategy D f"
proof unfold_locales
  show "\<exists>k'. obtain_block ramstrategy D f k = Some (Some x, k') \<and> fs_idle N D f k' xs \<and> in_fs f k' = in_fs f k"
    if "fs_idle N D f k (x # xs)" for k :: "'a fsk_scheme" and x xs by (rule obtain_block_some [OF that])
  show "\<exists>k'. obtain_block ramstrategy D f k = Some (None, k') \<and> fs_idle N D f k' [] \<and> in_fs f k' = in_fs f k"
    if "fs_idle N D f k []" for k :: "'a fsk_scheme" by (rule obtain_block_none [OF that])
  show "\<exists>k'. return_block ramstrategy D f b k = Some k' \<and> fs_idle N D f k' (b # xs) \<and> in_fs f k' = in_fs f k"
    if "fs_idle N D f k xs" "in_fs f k b" "b \<notin> set xs" for k :: "'a fsk_scheme" and b xs by (rule return_block_ok [OF that])
  show "in_fs f k b" if "fs_idle N D f k xs" "b \<in> set xs" for k :: "'a fsk_scheme" and b xs
    using that fs_okD(8) by (auto simp: fs_idle_def)
qed

section \<open>A small file system\<close>

text \<open>Blocks 20 and 21 of the small RAM disk are free.\<close>

definition demo_super :: fs where
  "demo_super = \<lparr>fs_isize = 10, fs_fsize = 400, fs_nfree = 3, fs_free = [0, 20, 21] @ replicate 47 0, fs_ninode = 0,
     fs_inode = replicate 100 0, fs_flock = 0, fs_ilock = 0, fs_fmod = 0, fs_ronly = 0, fs_time = 0, fs_tfree = 2, fs_tinode = 0,
     fs_step = 0, fs_cyl = 0, fs_fsmnt = replicate 6 0, fs_lasti = 0, fs_nbehind = 0\<rparr>"

definition demo_fsk :: fsk where
  "demo_fsk = bio.extend demo_bio (fsk.fields [\<lparr>m_dev = 0x300, m_inodp = Some 0\<rparr>] (\<lambda>_. demo_super) (\<lambda>_. 0x700))"

lemma extend_fields [simp]:
  "bufs (bio.extend k m) = bufs k" "bmem (bio.extend k m) = bmem k" "ram (bio.extend k m) = ram k"
  "ram_base (bio.extend k m) = ram_base k" "ram_size (bio.extend k m) = ram_size k" "u (bio.extend k m) = u k"
  "sys_ok (bio.extend k m) = sys_ok k"
  by (cases k; simp add: bio.defs sys_ok_def sched_ok_def queues_def sleepers_ok_def)+

lemma extend_cells [simp]: "cells (bio.extend k m) = cells k" "busy (bio.extend k m) = busy k"
  by (simp_all add: cells_def busy_def fun_eq_iff)

lemma extend_idle [simp]: "idle N D (bio.extend k m) = idle N D k"
proof -
  let ?k = "bio.extend k m"
  have d: "disk ?k = disk k" "get_data ?k = get_data k" "in_disk ?k = in_disk k" "sizes_ok ?k = sizes_ok k"
    by (simp_all add: disk_def get_data_def in_disk_def sizes_ok_def fun_eq_iff split: baddr.split)
  then have cl: "clean ?k = clean k" by (simp add: clean_def fun_eq_iff)
  have "chains_ok N ?k = chains_ok N k" "free_ok N ?k = free_ok N k" by (simp_all add: chains_ok_def free_ok_def fun_eq_iff)
  moreover have "blocks_ok N D H ?k = blocks_ok N D H k" for H
    unfolding blocks_ok_def unique_def d(4) by (simp add: cell_ok_def Let_def cl d)
  ultimately show ?thesis unfolding idle_def cache_ok_def by simp
qed

lemma demo_fs_idle: "fs_idle 2 0x300 0 demo_fsk [21, 20]"
proof -
  have fs: "fss demo_fsk = (\<lambda>_. demo_super)" "a_flock demo_fsk = (\<lambda>_. 0x700)" "ram_size demo_fsk = 1000" and id: "idle 2 0x300 demo_fsk"
    using demo_idle by (simp_all add: demo_fsk_def) (simp_all add: bio.defs fsk.defs)
  have e: "entries (fs_nfree demo_super) (fs_free demo_super) = ([] @ [0, 20]) @ [21]" by (simp add: entries_def demo_super_def)
  have us: "usable demo_super demo_fsk b" if "b \<in> {20, 21, 22}" for b
    using that by (auto simp: usable_def badblock_def demo_super_def on_disk_def fs int32_def)
  have "flist (usable demo_super demo_fsk) C ([0] @ [20]) [20]" for C by (intro flist.pop flist.ends us) simp_all
  then have "flist (usable demo_super demo_fsk) C (([] @ [0, 20]) @ [21]) [21, 20]" for C by (intro flist.pop us) simp_all
  moreover have "super_ok demo_super" by (simp add: super_ok_def demo_super_def int32_def)
  ultimately have "fs_ok 2 0x300 0 [21, 20] demo_fsk"
    unfolding fs_ok_def fs e using id idle_free [OF id] by (simp add: idle_def on_disk_def fs)
  then show ?thesis using id by (simp add: fs_idle_def)
qed

lemma demo_in_fs: "in_fs 0 demo_fsk 22"
proof -
  have "fss demo_fsk = (\<lambda>_. demo_super)" "ram_size demo_fsk = 1000" by (simp_all add: demo_fsk_def) (simp_all add: bio.defs fsk.defs)
  then show ?thesis by (simp add: usable_def badblock_def demo_super_def on_disk_def int32_def)
qed

section \<open>Properties\<close>

text \<open>C26: alloc takes the first block off the list of free blocks, reading the next part of the list from the block itself if the
  super block has run out, and returns a locked buffer of that block, of zeros if asked for; the rest of the list stays as it
  is, and so do all blocks but the super block's.\<close>

theorem alloc_pops:
  assumes "fs_ok N D f (x # xs) k" "\<exists>i < N. \<not> busy k i"
  shows "\<exists>i k'. alloc ramstrategy D f clr k = Some (Got (Some (Buf i)), k') \<and> fs_ok N D f xs k' \<and> \<not> busy k i \<and> busy k' i \<and>
    is_block D (fsbtodb x) (bufs k' (Buf i)) \<and> (clr \<longrightarrow> get_data k' (Buf i) = replicate 512 0) \<and>
    fs_tfree (fss k' f) = wrap32 (fs_tfree (fss k f) - 1) \<and>
    (\<forall>b. on_disk k b \<longrightarrow> b \<noteq> x \<longrightarrow> b \<noteq> SUPERB \<longrightarrow> content D k' b = content D k b)"
proof -
  obtain i k' where "alloc ramstrategy D f clr k = Some (Got (Some (Buf i)), k')" "fs_ok N D f xs k'" "\<not> busy k i"
    "\<forall>j. busy k' j = (j = i \<or> busy k j)" "is_block D (fsbtodb x) (bufs k' (Buf i))" "clr \<longrightarrow> get_data k' (Buf i) = replicate 512 0"
    "fs_tfree (fss k' f) = wrap32 (fs_tfree (fss k f) - 1)"
    "\<forall>b. on_disk k b \<longrightarrow> b \<noteq> x \<longrightarrow> b \<noteq> SUPERB \<longrightarrow> content D k' b = content D k b"
    using alloc_ok [OF assms, where clr = clr] by (metis (lifting))
  then show ?thesis by blast
qed

theorem alloc_pops_witness:
  "\<exists>i k'. alloc ramstrategy 0x300 0 True demo_fsk = Some (Got (Some (Buf i)), k') \<and> fs_ok 2 0x300 0 [20] k' \<and>
     is_block 0x300 42 (bufs k' (Buf i)) \<and> get_data k' (Buf i) = replicate 512 0"
proof -
  have id: "idle 2 0x300 demo_fsk" and o: "fs_ok 2 0x300 0 [21, 20] demo_fsk" using demo_fs_idle by (simp_all add: fs_idle_def)
  have fr: "\<exists>i < 2. \<not> busy demo_fsk i" using idle_free [OF id] by blast
  have "fsbtodb 21 = 42" by (simp add: fsbtodb_def int32_def)
  then show ?thesis using alloc_pops [OF o fr, of True] by auto
qed

text \<open>With no free block left, alloc fails with ENOSPC, touching no block and no buffer, whatever the disk does.\<close>

lemma alloc_full:
  assumes "fs_ok N D f [] k"
  shows "\<exists>k'. alloc strat D f clr k = Some (Got None, k') \<and> u_error (u k') = ENOSPC \<and> fs_ok N D f [] k' \<and>
    fs_tfree (fss k' f) = 0 \<and> busy k' = busy k \<and> content D k' = content D k"
proof -
  obtain k' where "alloc strat D f clr k = Some (Got None, k')" "fs_ok N D f [] k'" "fs_tfree (fss k' f) = 0" "u_error (u k') = ENOSPC"
    "\<forall>j. busy k' j = busy k j" "content D k' = content D k" using alloc_none [OF assms, where strat = strat and clr = clr] by metis
  then show ?thesis by (auto simp: fun_eq_iff)
qed

lemma alloc_full_witness:
  "\<exists>(k :: fsk) k'. alloc ramstrategy 0x300 0 False k = Some (Got None, k') \<and> u_error (u k') = ENOSPC"
proof -
  obtain k1 where k1: "obtain_block ramstrategy 0x300 0 demo_fsk = Some (Some 21, k1)" "fs_idle 2 0x300 0 k1 [20]"
    using obtain_block_some [OF demo_fs_idle] by blast
  obtain k2 where k2: "obtain_block ramstrategy 0x300 0 k1 = Some (Some 20, k2)" "fs_idle 2 0x300 0 k2 []"
    using obtain_block_some [OF k1(2)] by blast
  then have "fs_ok 2 0x300 0 [] k2" by (simp add: fs_idle_def)
  from alloc_full [OF this, of ramstrategy False] show ?thesis by blast
qed

text \<open>C27: free puts the block in front of the list of free blocks. When the super block's list is full it is saved in the block that is
  freed, and no other block of the disk changes.\<close>

theorem free_pushes:
  assumes "fs_ok N D f xs k" "\<exists>i < N. \<not> busy k i" "usable (fss k f) k b" "b \<notin> set xs" "none_busy_at N k (fsbtodb b)"
  shows "\<exists>k'. free ramstrategy D f b k = Some (Got (), k') \<and> fs_ok N D f (b # xs) k' \<and> busy k' = busy k \<and>
    fs_tfree (fss k' f) = wrap32 (fs_tfree (fss k f) + 1) \<and> (\<forall>c. on_disk k c \<longrightarrow> c \<noteq> b \<longrightarrow> content D k' c = content D k c)"
proof -
  obtain k' where "free ramstrategy D f b k = Some (Got (), k')" "fs_ok N D f (b # xs) k'"
    "fs_tfree (fss k' f) = wrap32 (fs_tfree (fss k f) + 1)" "touches N D {b} k k'"
    using free_block_ok [OF assms] by metis
  then show ?thesis by (auto simp: touches_def fun_eq_iff)
qed

theorem free_pushes_witness:
  "\<exists>k'. free ramstrategy 0x300 0 22 demo_fsk = Some (Got (), k') \<and> fs_ok 2 0x300 0 [22, 21, 20] k'"
proof -
  have id: "idle 2 0x300 demo_fsk" and o: "fs_ok 2 0x300 0 [21, 20] demo_fsk" using demo_fs_idle by (simp_all add: fs_idle_def)
  have "(22 :: int) \<notin> set [21, 20]" by simp
  from free_pushes [OF o _ demo_in_fs this] show ?thesis using idle_free [OF id] by blast
qed

text \<open>C28: Whatever blocks are allocated, written and freed, in any order: no call fails but for want of blocks, no block is handed out
  while another holder has it, and together the free blocks and those handed out stay the same.\<close>

theorem blocks_conserved:
  assumes "fs_idle N D f k xs"
  shows "\<exists>k' held xs'. fbs.turns D f ops (k, []) = Some (k', held) \<and> fs_idle N D f k' xs' \<and> distinct (xs' @ held) \<and>
    mset (xs' @ held) = mset xs"
proof -
  have "fs_ok N D f xs k" using assms by (simp add: fs_idle_def)
  then have "fbs.holds N D f k [] xs" using assms fs_okD(9) by (simp add: fbs.holds_def)
  from fbs.turns_ok [OF this, of ops] show ?thesis unfolding fbs.holds_def by auto
qed

theorem blocks_conserved_witness:
  "\<exists>k' held xs'. fbs.turns 0x300 0 [Take, Take, Take, Give 1, Take, Give 0] (demo_fsk, []) = Some (k', held) \<and>
     mset (xs' @ held) = {#20, 21#}"
  using blocks_conserved [OF demo_fs_idle] by (metis add_mset_commute mset.simps)

end
