(* ===== verification/Bmap.thy ===== *)
theory Bmap imports FsAlloc Inode begin

text \<open>
  Where the blocks of a file are: bmap of \<open>src/sys/sys/ufs_bmap.c\<close>. The inodes are those of the inode table, by index;
  \<open>i_fs\<close> is the number of the mount table entry that holds the inode's super block. A \<open>daddr_t\<close> is an int: the
  sums and shifts of bmap stay below \<open>2 ^ 31\<close> for every block number.
\<close>

record ink = fsk +
  itab :: "nat \<Rightarrow> inode"
  i_fs :: "nat \<Rightarrow> nat"
  rablock :: int

abbreviation (input) "NADDR \<equiv> 7 :: nat"
abbreviation (input) "NSHIFT \<equiv> 8 :: nat"
abbreviation (input) "NMASK \<equiv> 0xff :: int"
abbreviation (input) "NINDIR \<equiv> 256 :: int"

definition upd_ino :: "nat \<Rightarrow> (inode \<Rightarrow> inode) \<Rightarrow> 'a ink_scheme \<Rightarrow> 'a ink_scheme" where
  "upd_ino ip g k = k\<lparr>itab := (itab k)(ip := g (itab k ip))\<rparr>"

definition set_addr :: "nat \<Rightarrow> nat \<Rightarrow> int \<Rightarrow> 'a ink_scheme \<Rightarrow> 'a ink_scheme" where
  "set_addr ip i nb = upd_ino ip (\<lambda>v. v\<lparr>i_addr := (i_addr v)[i := nb], i_flag := set_flag (or IUPD ICHG) (i_flag v)\<rparr>)"

definition is_dir :: "inode \<Rightarrow> bool" where
  "is_dir v \<longleftrightarrow> and (i_mode v) IFMT = IFDIR"

text \<open>\<open>bap[i]\<close> of an indirect block.\<close>

definition get_daddr :: "bref \<Rightarrow> nat \<Rightarrow> 'a bio_scheme \<Rightarrow> int" where
  "get_daddr bp i k = daddr_at (2 * i) (get_data k bp)"

definition put_daddr :: "bref \<Rightarrow> nat \<Rightarrow> int \<Rightarrow> 'a bio_scheme \<Rightarrow> 'a bio_scheme" where
  "put_daddr bp i nb k = (let ws = get_data k bp in put_data bp (take (2 * i) ws @ daddr_words nb @ drop (2 * i + 2) ws) k)"

text \<open>A block is allocated and its buffer written, at once or later; the result is the number of the block.\<close>

definition new_block ::
  "(bref \<Rightarrow> 'a ink_scheme \<Rightarrow> 'a ink_scheme option) \<Rightarrow> (u_int \<Rightarrow> bool) \<Rightarrow> nat \<Rightarrow> bool \<Rightarrow> bool \<Rightarrow> 'a ink_scheme \<Rightarrow>
   (int option bio_out \<times> 'a ink_scheme) option" where
  "new_block strat tape ip clrflg sync k =
     and_then (alloc strat (i_dev (itab k ip)) (i_fs k ip) clrflg k) (\<lambda>r k1. case r of
       None \<Rightarrow> Some (Got None, k1)
     | Some bp \<Rightarrow>
         and_then (if sync then bwrite strat bp k1 else bdwrite strat tape bp k1)
           (\<lambda>_ k2. Some (Got (Some (dbtofsb (b_blkno (bufs k1 bp)))), k2)))"

section \<open>How many levels of indirection\<close>

text \<open>The loop that counts \<open>j\<close> down: \<open>sh\<close>, \<open>nb\<close> and \<open>bn\<close> on entry; \<open>j\<close>, \<open>sh\<close> and \<open>bn\<close> after it.\<close>

fun bmap_levels :: "nat \<Rightarrow> nat \<Rightarrow> int \<Rightarrow> int \<Rightarrow> nat \<times> nat \<times> int" where
  "bmap_levels 0 sh nb bn = (0, sh, bn)"
| "bmap_levels (Suc j) sh nb bn =
     (let sh1 = sh + NSHIFT; nb1 = nb * 2 ^ NSHIFT in
      if bn < nb1 then (Suc j, sh1, bn) else bmap_levels j sh1 nb1 (bn - nb1))"

section \<open>Through the indirect blocks\<close>

text \<open>The last loop: \<open>n\<close> is the number of blocks still to go through, \<open>4 - j\<close>. The result is the block, with the read-ahead.\<close>

fun bmap_chain ::
  "(bref \<Rightarrow> 'a ink_scheme \<Rightarrow> 'a ink_scheme option) \<Rightarrow> (u_int \<Rightarrow> bool) \<Rightarrow> nat \<Rightarrow> bool \<Rightarrow> nat \<Rightarrow> nat \<Rightarrow> int \<Rightarrow> int \<Rightarrow> int \<Rightarrow>
   'a ink_scheme \<Rightarrow> (int bio_out \<times> 'a ink_scheme) option" where
  "bmap_chain strat tape ip reading 0 sh bn nb ra k = Some (Got nb, k\<lparr>rablock := ra\<rparr>)"
| "bmap_chain strat tape ip reading (Suc n) sh bn nb ra k =
     and_then (bread strat (i_dev (itab k ip)) nb k) (\<lambda>bp k1.
       if has_b k1 bp B_ERROR \<or> b_resid (bufs k1 bp) \<noteq> 0 then map_option (\<lambda>k2. (Got 0, k2)) (brelse bp k1)
       else
         let sh1 = sh - NSHIFT; i = nat (and (bn div 2 ^ sh1) NMASK);
             nb1 = get_daddr bp i k1; ra1 = (if int i < NINDIR - 1 then get_daddr bp (Suc i) k1 else ra)
         in
           if nb1 = 0 then
             if reading then map_option (\<lambda>k2. (Got (- 1), k2)) (brelse bp k1)
             else and_then (new_block strat tape ip True (0 < n \<or> is_dir (itab k1 ip)) k1) (\<lambda>r k2. case r of
                 None \<Rightarrow> map_option (\<lambda>k3. (Got (- 1), k3)) (brelse bp k2)
               | Some nb2 \<Rightarrow>
                   and_then (bdwrite strat tape bp (put_daddr bp i nb2 k2)) (\<lambda>_ k3.
                     bmap_chain strat tape ip reading n sh1 bn nb2 ra1 k3))
           else Option.bind (brelse bp k1) (bmap_chain strat tape ip reading n sh1 bn nb1 ra1))"

section \<open>bmap\<close>

definition bmap_direct ::
  "(bref \<Rightarrow> 'a ink_scheme \<Rightarrow> 'a ink_scheme option) \<Rightarrow> (u_int \<Rightarrow> bool) \<Rightarrow> nat \<Rightarrow> nat \<Rightarrow> bool \<Rightarrow> bool \<Rightarrow> 'a ink_scheme \<Rightarrow>
   (int bio_out \<times> 'a ink_scheme) option" where
  "bmap_direct strat tape ip i reading clrflg k =
     (let found = (\<lambda>nb k1. Some (Got nb, if i < NADDR - 4 then k1\<lparr>rablock := i_addr (itab k1 ip) ! Suc i\<rparr> else k1));
          nb = i_addr (itab k ip) ! i
      in
        if nb = 0 then
          if reading then Some (Got (- 1), k)
          else and_then (new_block strat tape ip clrflg (is_dir (itab k ip)) k) (\<lambda>r k1. case r of
              None \<Rightarrow> Some (Got (- 1), k1)
            | Some nb1 \<Rightarrow> found nb1 (set_addr ip i nb1 k1))
        else found nb k)"

definition bmap_indirect ::
  "(bref \<Rightarrow> 'a ink_scheme \<Rightarrow> 'a ink_scheme option) \<Rightarrow> (u_int \<Rightarrow> bool) \<Rightarrow> nat \<Rightarrow> nat \<Rightarrow> nat \<Rightarrow> int \<Rightarrow> bool \<Rightarrow> 'a ink_scheme \<Rightarrow>
   (int bio_out \<times> 'a ink_scheme) option" where
  "bmap_indirect strat tape ip j sh bn reading k =
     (let nb = i_addr (itab k ip) ! (NADDR - j) in
        if nb = 0 then
          if reading then Some (Got (- 1), k)
          else and_then (new_block strat tape ip True True k) (\<lambda>r k1. case r of
              None \<Rightarrow> Some (Got (- 1), k1)
            | Some nb1 \<Rightarrow> bmap_chain strat tape ip reading (4 - j) sh bn nb1 0 (set_addr ip (NADDR - j) nb1 k1))
        else bmap_chain strat tape ip reading (4 - j) sh bn nb 0 k)"

definition bmap ::
  "(bref \<Rightarrow> 'a ink_scheme \<Rightarrow> 'a ink_scheme option) \<Rightarrow> (u_int \<Rightarrow> bool) \<Rightarrow> nat \<Rightarrow> int \<Rightarrow> bool \<Rightarrow> bool \<Rightarrow> 'a ink_scheme \<Rightarrow>
   (int bio_out \<times> 'a ink_scheme) option" where
  "bmap strat tape ip bn reading clrflg k =
     (if bn < 0 then Some (Got 0, set_error EFBIG k)
      else
        let k1 = k\<lparr>rablock := 0\<rparr> in
        if bn < int NADDR - 3 then bmap_direct strat tape ip (nat bn) reading clrflg k1
        else case bmap_levels 3 0 1 (bn - (int NADDR - 3)) of (j, sh, bn1) \<Rightarrow>
          if j = 0 then Some (Got 0, set_error EFBIG k1) else bmap_indirect strat tape ip j sh bn1 reading k1)"

end
