(* ===== verification/BmapTree.thy ===== *)
theory BmapTree imports FsAlloc begin

text \<open>
  The blocks of a file as a tree: slots 0 to 3 of \<open>i_addr\<close> are blocks of the file, slots 4, 5 and 6 the roots of trees of 1, 2
  and 3 levels of indirect blocks with 256 addresses each. What setting one address does to it.
\<close>

section \<open>The tree\<close>

text \<open>The address at place \<open>p\<close> of level \<open>m\<close> below a root; 0 where there is nothing.\<close>

fun node :: "(int \<Rightarrow> u_int list) \<Rightarrow> int \<Rightarrow> nat \<Rightarrow> int \<Rightarrow> int" where
  "node C r 0 p = r"
| "node C r (Suc m) p = (let b = node C r m (p div 256) in if b = 0 then 0 else daddr_at (2 * nat (p mod 256)) (C b))"

text \<open>The slot of a block of the file, and its place on the last level there.\<close>

definition place :: "int \<Rightarrow> nat \<times> int" where
  "place bn = (if bn < 4 then (nat bn, 0)
     else if bn < 260 then (4, bn - 4)
     else if bn < 65796 then (5, bn - 260)
     else (6, bn - 65796))"

abbreviation (input) depth :: "nat \<Rightarrow> nat" where
  "depth s \<equiv> s - 3"

definition leaf :: "(int \<Rightarrow> u_int list) \<Rightarrow> int list \<Rightarrow> nat \<Rightarrow> int \<Rightarrow> int" where
  "leaf C addr s p = node C (addr ! s) (depth s) p"

text \<open>The block that holds a block of the file; \<open>None\<close> in a hole, where bmap answers -1.\<close>

definition file_block :: "(int \<Rightarrow> u_int list) \<Rightarrow> int list \<Rightarrow> int \<Rightarrow> int option" where
  "file_block C addr bn = (case place bn of (s, p) \<Rightarrow> if leaf C addr s p = 0 then None else Some (leaf C addr s p))"

definition answer :: "int option \<Rightarrow> int" where
  "answer r = (case r of None \<Rightarrow> - 1 | Some b \<Rightarrow> b)"

text \<open>The largest file: 4, 256, 65536 and 16777216 blocks.\<close>

abbreviation (input) "MAXBLK \<equiv> 16843012 :: int"

lemma place_inj: "place a = place b \<Longrightarrow> 0 \<le> a \<Longrightarrow> 0 \<le> b \<Longrightarrow> a = b"
  by (auto simp: place_def split: if_splits)

lemma place_ok:
  assumes "0 \<le> bn" "bn < MAXBLK" "place bn = (s, p)"
  shows "s < 7" "0 \<le> p" "p < 256 ^ depth s"
  using assms by (auto simp: place_def split: if_splits)

text \<open>The indirect blocks.\<close>

definition indirect :: "nat \<Rightarrow> nat \<Rightarrow> int \<Rightarrow> bool" where
  "indirect s m p \<longleftrightarrow> s < 7 \<and> m < depth s \<and> 0 \<le> p \<and> p < 256 ^ m"

text \<open>A good tree: its indirect blocks are all different, are blocks that \<open>ok\<close> allows, and are not free.\<close>

definition tree_ok :: "(int \<Rightarrow> bool) \<Rightarrow> int set \<Rightarrow> (int \<Rightarrow> u_int list) \<Rightarrow> int list \<Rightarrow> bool" where
  "tree_ok ok F C addr \<longleftrightarrow> length addr = 7 \<and>
     (\<forall>s m p. indirect s m p \<longrightarrow> node C (addr ! s) m p \<noteq> 0 \<longrightarrow> ok (node C (addr ! s) m p) \<and> node C (addr ! s) m p \<notin> F) \<and>
     (\<forall>s m p s' m' p'. indirect s m p \<longrightarrow> indirect s' m' p' \<longrightarrow> node C (addr ! s) m p \<noteq> 0 \<longrightarrow>
        node C (addr ! s) m p = node C (addr ! s') m' p' \<longrightarrow> s = s' \<and> m = m' \<and> p = p')"

lemma tree_okD:
  assumes "tree_ok ok F C addr"
  shows "length addr = 7"
    "\<And>s m p. indirect s m p \<Longrightarrow> node C (addr ! s) m p \<noteq> 0 \<Longrightarrow> ok (node C (addr ! s) m p) \<and> node C (addr ! s) m p \<notin> F"
    "\<And>s m p s' m' p'. indirect s m p \<Longrightarrow> indirect s' m' p' \<Longrightarrow> node C (addr ! s) m p \<noteq> 0 \<Longrightarrow>
        node C (addr ! s) m p = node C (addr ! s') m' p' \<Longrightarrow> s = s' \<and> m = m' \<and> p = p'"
  using assms unfolding tree_ok_def by blast+

lemma indirect_up: "indirect s (Suc m) p \<Longrightarrow> indirect s m (p div 256)"
  by (auto simp: indirect_def)

lemma prefix_bounds:
  fixes p :: int
  assumes "0 \<le> p" "p < 256 ^ (m + n)"
  shows "0 \<le> p div 256 ^ n" "p div 256 ^ n < 256 ^ m"
proof -
  show "0 \<le> p div 256 ^ n" using assms(1) by (simp add: pos_imp_zdiv_nonneg_iff)
  show "p div 256 ^ n < 256 ^ m"
  proof (rule ccontr)
    assume "\<not> p div 256 ^ n < 256 ^ m"
    then have "256 ^ m * 256 ^ n \<le> p div 256 ^ n * 256 ^ n" by (intro mult_right_mono) simp_all
    also have "\<dots> \<le> p" using pos_mod_sign [of "256 ^ n" p] by (simp add: minus_mod_eq_div_mult [symmetric])
    finally show False using assms(2) by (simp add: power_add)
  qed
qed

text \<open>Only the indirect blocks matter.\<close>

definition nodes_ok :: "(int \<Rightarrow> bool) \<Rightarrow> (int \<Rightarrow> u_int list) \<Rightarrow> int list \<Rightarrow> bool" where
  "nodes_ok ok C addr \<longleftrightarrow> (\<forall>s m p. indirect s m p \<longrightarrow> node C (addr ! s) m p \<noteq> 0 \<longrightarrow> ok (node C (addr ! s) m p))"

lemma nodes_okD: "nodes_ok ok C addr \<Longrightarrow> indirect s m p \<Longrightarrow> node C (addr ! s) m p \<noteq> 0 \<Longrightarrow> ok (node C (addr ! s) m p)"
  by (simp add: nodes_ok_def)

lemma tree_nodes: "tree_ok ok F C addr \<Longrightarrow> nodes_ok (\<lambda>b. ok b \<and> b \<notin> F) C addr"
  unfolding tree_ok_def nodes_ok_def by blast

lemma node_cong:
  assumes n: "nodes_ok ok C addr" and c: "\<forall>b. ok b \<longrightarrow> C' b = C b" and s: "s < 7" "m \<le> depth s" "0 \<le> p" "p < 256 ^ m"
  shows "node C' (addr ! s) m p = node C (addr ! s) m p"
  using s
proof (induction m arbitrary: p)
  case (Suc m)
  have i: "indirect s m (p div 256)" using Suc.prems by (auto simp: indirect_def)
  then have "node C' (addr ! s) m (p div 256) = node C (addr ! s) m (p div 256)" using Suc by (simp add: indirect_def)
  then show ?case using nodes_okD [OF n i] c by (simp add: Let_def)
qed simp

lemma nodes_cong:
  assumes "nodes_ok ok C addr" "\<forall>b. ok b \<longrightarrow> C' b = C b" "\<forall>b. ok b \<longrightarrow> ok' b"
  shows "nodes_ok ok' C' addr"
  unfolding nodes_ok_def using node_cong [OF assms(1,2)] assms(3) nodes_okD [OF assms(1)] by (simp add: indirect_def)

lemma tree_cong:
  assumes "tree_ok ok F C addr" "\<forall>b. ok b \<longrightarrow> b \<notin> F \<longrightarrow> C' b = C b" "\<forall>b. ok b \<longrightarrow> ok' b" "F' \<subseteq> F"
  shows "tree_ok ok' F' C' addr"
proof -
  have n: "node C' (addr ! s) m p = node C (addr ! s) m p" if "indirect s m p" for s m p
    using node_cong [OF tree_nodes [OF assms(1)], of C'] assms(2) that by (simp add: indirect_def)
  show ?thesis
    unfolding tree_ok_def
  proof (intro conjI allI impI)
    show "length addr = 7" using tree_okD(1) [OF assms(1)] .
  next
    fix s m p assume i: "indirect s m p" "node C' (addr ! s) m p \<noteq> 0"
    from tree_okD(2) [OF assms(1) i(1)] i show "ok' (node C' (addr ! s) m p)" "node C' (addr ! s) m p \<notin> F'"
      using assms(3,4) n by auto
  next
    fix s m p s' m' p' assume "indirect s m p" "indirect s' m' p'" "node C' (addr ! s) m p \<noteq> 0" "node C' (addr ! s) m p = node C' (addr ! s') m' p'"
    then show "s = s'" "m = m'" "p = p'" using tree_okD(3) [OF assms(1)] n by metis+
  qed
qed

text \<open>An indirect block of zeros holds nothing.\<close>

lemma zeros_at: "n + 1 < length ws \<Longrightarrow> \<forall>w \<in> set ws. w = 0 \<Longrightarrow> daddr_at n ws = 0"
proof -
  assume "n + 1 < length ws" "\<forall>w \<in> set ws. w = 0"
  then have "ws ! n = 0" "ws ! Suc n = 0" by simp_all
  then show ?thesis by (simp add: daddr_at_def words_long_def)
qed

section \<open>Setting an address in an indirect block\<close>

text \<open>
  The block \<open>x\<close> is taken from the free ones and put at place \<open>p\<close> of level \<open>m + 1\<close>, which was empty; if it is an indirect block it
  holds zeros. No other place of the tree changes.
\<close>

definition grow :: "(int \<Rightarrow> bool) \<Rightarrow> int set \<Rightarrow> nat \<Rightarrow> nat \<Rightarrow> int \<Rightarrow> int \<Rightarrow> (int \<Rightarrow> u_int list) \<Rightarrow> int list \<Rightarrow> (int \<Rightarrow> u_int list) \<Rightarrow> int list \<Rightarrow> bool" where
  "grow ok F s m p x C addr C' addr' \<longleftrightarrow> tree_ok ok F C addr \<and>
     s < 7 \<and> m \<le> depth s \<and> 0 \<le> p \<and> p < 256 ^ m \<and> x \<in> F \<and> x \<noteq> 0 \<and> ok x \<and> node C (addr ! s) m p = 0 \<and>
     (m < depth s \<longrightarrow> length (C' x) = 512 \<and> (\<forall>w \<in> set (C' x). w = 0)) \<and>
     (if m = 0 then addr' = addr[s := x] \<and> (\<forall>b. ok b \<longrightarrow> b \<noteq> x \<longrightarrow> C' b = C b)
      else let nb = node C (addr ! s) (m - 1) (p div 256) in
        addr' = addr \<and> nb \<noteq> 0 \<and> (\<forall>b. ok b \<longrightarrow> b \<noteq> x \<longrightarrow> b \<noteq> nb \<longrightarrow> C' b = C b) \<and>
        (\<forall>q. 0 \<le> q \<longrightarrow> q < 256 \<longrightarrow> daddr_at (2 * nat q) (C' nb) = (if q = p mod 256 then x else daddr_at (2 * nat q) (C nb))))"

lemma growD:
  assumes "grow ok F s m p x C addr C' addr'"
  shows "tree_ok ok F C addr" "s < 7" "m \<le> depth s" "0 \<le> p" "p < 256 ^ m" "x \<in> F" "x \<noteq> 0" "ok x"
    "node C (addr ! s) m p = 0" "m < depth s \<Longrightarrow> length (C' x) = 512 \<and> (\<forall>w \<in> set (C' x). w = 0)"
    "\<And>b. ok b \<Longrightarrow> b \<noteq> x \<Longrightarrow> m = 0 \<or> b \<noteq> node C (addr ! s) (m - 1) (p div 256) \<Longrightarrow> C' b = C b"
    "m = 0 \<Longrightarrow> addr' = addr[s := x]"
    "m \<noteq> 0 \<Longrightarrow> addr' = addr \<and> node C (addr ! s) (m - 1) (p div 256) \<noteq> 0 \<and>
        (\<forall>q. 0 \<le> q \<longrightarrow> q < 256 \<longrightarrow> daddr_at (2 * nat q) (C' (node C (addr ! s) (m - 1) (p div 256))) =
            (if q = p mod 256 then x else daddr_at (2 * nat q) (C (node C (addr ! s) (m - 1) (p div 256)))))"
    "length addr = 7"
  using assms unfolding grow_def Let_def tree_ok_def by (auto split: if_splits)

lemma node_grow:
  assumes g: "grow ok F s m p x C addr C' addr'" and "s' < 7" "m' \<le> depth s'" "0 \<le> p'" "p' < 256 ^ m'"
  shows "node C' (addr' ! s') m' p' = (if s' = s \<and> m' = m \<and> p' = p then x else node C (addr ! s') m' p')"
proof -
  note tree = growD(1) [OF g] and there = growD(2-5) [OF g] and free = growD(6-8) [OF g] and hole = growD(9) [OF g]
    and zeros = growD(10) [OF g] and same = growD(11) [OF g] and root = growD(12) [OF g] and inner = growD(13) [OF g]
    and length_addr = growD(14) [OF g]
  have parent: "m \<noteq> 0 \<Longrightarrow> indirect s (m - 1) (p div 256)" using there by (cases m) (auto simp: indirect_def)
  show ?thesis
  using assms(2-)
proof (induction m' arbitrary: p')
  case 0
  then have z: "p' = 0" by simp
  show ?case
  proof (cases "m = 0")
    case True
    then have "p = 0" using there by simp
    then show ?thesis using True root 0 z length_addr by simp
  next
    case False
    then show ?thesis using inner by simp
  qed
next
  case (Suc m')
  have ind: "indirect s' m' (p' div 256)" using Suc.prems by (auto simp: indirect_def)
  let ?b = "node C (addr ! s') m' (p' div 256)"
  have ih: "node C' (addr' ! s') m' (p' div 256) = (if s' = s \<and> m' = m \<and> p' div 256 = p then x else ?b)"
    using Suc ind by (auto simp: indirect_def)
  have q: "0 \<le> p' mod 256" "p' mod 256 < 256" by simp_all
  show ?case
  proof (cases "s' = s \<and> m' = m \<and> p' div 256 = p")
    case True
    then have "length (C' x) = 512 \<and> (\<forall>w \<in> set (C' x). w = 0)" using zeros Suc.prems(2) by simp
    then have "daddr_at (2 * nat (p' mod 256)) (C' x) = 0" by (intro zeros_at) auto
    then show ?thesis using True ih hole by simp
  next
    case False
    then have b': "node C' (addr' ! s') m' (p' div 256) = ?b" using ih if_not_P [OF False] by metis
    show ?thesis
    proof (cases "?b = 0")
      case True
      have "\<not> (s' = s \<and> Suc m' = m \<and> p' = p)"
      proof
        assume e: "s' = s \<and> Suc m' = m \<and> p' = p"
        then have "m \<noteq> 0" "m - 1 = m'" by auto
        then show False using inner True e by simp
      qed
      then show ?thesis using True b' by (simp only: if_False node.simps Let_def if_True simp_thms)
    next
      case nz: False
      note t = tree_okD(2) [OF tree ind nz]
      then have bx: "?b \<noteq> x" using free(1) by auto
      have u: "node C' (addr' ! s') (Suc m') p' = daddr_at (2 * nat (p' mod 256)) (C' ?b)"
        "node C (addr ! s') (Suc m') p' = daddr_at (2 * nat (p' mod 256)) (C ?b)" using b' nz by simp_all
      show ?thesis
      proof (cases "m \<noteq> 0 \<and> ?b = node C (addr ! s) (m - 1) (p div 256)")
        case True
        then have k: "s' = s" "Suc m' = m" "p' div 256 = p div 256" using tree_okD(3) [OF tree ind parent nz] by auto
        have "(p' mod 256 = p mod 256) = (p' = p)" using k(3) by (metis div_mult_mod_eq)
        then have d: "daddr_at (2 * nat (p' mod 256)) (C' ?b) = (if p' = p then x else daddr_at (2 * nat (p' mod 256)) (C ?b))"
          using inner True q by simp
        have "(s' = s \<and> Suc m' = m \<and> p' = p) = (p' = p)" using k(1,2) by simp
        then show ?thesis unfolding u d by simp
      next
        case other: False
        then have "m = 0 \<or> ?b \<noteq> node C (addr ! s) (m - 1) (p div 256)" by blast
        from same [OF conjunct1 [OF t] bx this] have "C' ?b = C ?b" .
        moreover have n: "\<not> (s' = s \<and> Suc m' = m \<and> p' = p)"
        proof
          assume e: "s' = s \<and> Suc m' = m \<and> p' = p"
          then have "m \<noteq> 0" "m - 1 = m'" by auto
          with other e have "?b \<noteq> node C (addr ! s) m' (p div 256)" by metis
          with e show False by blast
        qed
        ultimately show ?thesis unfolding u if_not_P [OF n] by simp
      qed
    qed
  qed
qed
qed

lemma tree_grow:
  assumes g: "grow ok F s m p x C addr C' addr'"
  shows "tree_ok ok (F - {x}) C' addr'"
proof -
  note tree = growD(1) [OF g] and free = growD(6-8) [OF g]
  have n: "node C' (addr' ! s') m' p' = (if s' = s \<and> m' = m \<and> p' = p then x else node C (addr ! s') m' p')" if "indirect s' m' p'" for s' m' p'
    using node_grow [OF g] that by (simp add: indirect_def)
  have x: "node C (addr ! s') m' p' \<noteq> x" if "indirect s' m' p'" for s' m' p'
    using tree_okD(2) [OF tree that] free by metis
  have "length addr' = 7" using growD(12-14) [OF g] by (cases "m = 0") simp_all
  moreover have "ok (node C' (addr' ! s') m' p') \<and> node C' (addr' ! s') m' p' \<notin> F - {x}"
    if "indirect s' m' p'" "node C' (addr' ! s') m' p' \<noteq> 0" for s' m' p'
    using that tree_okD(2) [OF tree that(1)] free(3) by (auto simp: n split: if_splits)
  moreover have "s' = t \<and> m' = l \<and> p' = q" if "indirect s' m' p'" "indirect t l q" "node C' (addr' ! s') m' p' \<noteq> 0"
      "node C' (addr' ! s') m' p' = node C' (addr' ! t) l q" for s' m' p' t l q
    using that(3,4) x [OF that(1)] x [OF that(2)] tree_okD(3) [OF tree that(1,2)] unfolding n [OF that(1)] n [OF that(2)]
    by (auto split: if_splits)
  ultimately show ?thesis unfolding tree_ok_def by blast
qed

lemma leaf_grow:
  assumes g: "grow ok F s m p x C addr C' addr'" and "s' < 7" "0 \<le> p'" "p' < 256 ^ depth s'"
  shows "leaf C' addr' s' p' = (if s' = s \<and> m = depth s \<and> p' = p then x else leaf C addr s' p')"
  using node_grow [OF g assms(2) order.refl assms(3,4)] unfolding leaf_def by auto

end
