(* ===== verification/BmapSpec.thy ===== *)
theory BmapSpec imports Bmap BmapTree FsUse begin

text \<open>
  The reading half of bmap, against the tree of the file's blocks.
\<close>

section \<open>Levels and indices\<close>

lemma levels_place:
  assumes "4 \<le> bn" "bn < MAXBLK"
  shows "bmap_levels 3 0 1 (bn - 4) = (case place bn of (s, p) \<Rightarrow> (7 - s, 8 * depth s, p))" "fst (place bn) \<in> {4, 5, 6}"
  using assms by (auto simp: place_def numeral_3_eq_3)

lemma levels_big: "MAXBLK \<le> bn \<Longrightarrow> fst (bmap_levels 3 0 1 (bn - 4)) = 0"
  by (simp add: numeral_3_eq_3)

lemma mask_mod: "and (x :: int) 0xff = x mod 256"
  using take_bit_eq_mask [of 8 x] by (simp add: take_bit_eq_mod mask_eq_exp_minus_1)

lemma index_eq: "and (bn div 2 ^ (8 * n)) NMASK = (bn div 256 ^ n) mod 256"
  by (simp add: mask_mod power_mult)

section \<open>Reading\<close>

lemma bmore_ink:
  assumes "bio.more (k' :: 'a ink_scheme) = bio.more k"
  shows "itab k' = itab k" "i_fs k' = i_fs k" "fss k' = fss k" "a_flock k' = a_flock k" "rablock k' = rablock k"
  using assms by (cases k; cases k'; simp)+

lemma rablock_cache [simp]: "same_cache k (k\<lparr>rablock := r\<rparr>)"
  by (simp add: same_cache_def same_mem_def sys_ok_def sched_ok_def queues_def sleepers_ok_def)

lemma touches_content: "touches N D {} k k' \<Longrightarrow> on_disk k b \<Longrightarrow> content D k' b = content D k b"
  by (simp add: touches_def)

text \<open>The state of the inodes and of the file systems is left alone.\<close>

definition same_fs :: "'a ink_scheme \<Rightarrow> 'a ink_scheme \<Rightarrow> bool" where
  "same_fs k k' \<longleftrightarrow> itab k' = itab k \<and> i_fs k' = i_fs k \<and> fss k' = fss k \<and> a_flock k' = a_flock k"

lemma same_fs_rablock [simp]: "same_fs k (k\<lparr>rablock := r\<rparr>)"
  by (simp add: same_fs_def)

text \<open>Down the tree: \<open>n\<close> levels from the block at place \<open>p div 256 ^ n\<close> of level \<open>m\<close>.\<close>

lemma node_step:
  "node C r (Suc m) (p div 256 ^ n) = (if node C r m (p div 256 ^ Suc n) = 0 then 0
     else daddr_at (2 * nat ((p div 256 ^ n) mod 256)) (C (node C r m (p div 256 ^ Suc n))))"
  by (simp add: Let_def zdiv_zmult2_eq [symmetric] mult.commute)

lemma node_zero: "node C r m (p div 256 ^ n) = 0 \<Longrightarrow> node C r (m + n) p = 0"
proof (induction n arbitrary: p)
  case (Suc n)
  have "node C r m ((p div 256) div 256 ^ n) = 0" using Suc.prems by (simp add: zdiv_zmult2_eq [symmetric])
  from Suc.IH [OF this] show ?case by simp
qed simp

lemma chain_reads:
  assumes "cache_ok N D k" "\<exists>i < N. \<not> busy k i" "i_dev (itab k ip) = D" "s < 7" "m + n = depth s" "0 \<le> p" "p < 256 ^ depth s"
    "nodes_ok (\<lambda>b. on_disk k b \<and> none_busy_at N k (fsbtodb b)) (content D k) addr"
    "node (content D k) (addr ! s) m (p div 256 ^ n) \<noteq> 0"
  shows "\<exists>k'. bmap_chain ramstrategy tape ip True n (8 * n) p (node (content D k) (addr ! s) m (p div 256 ^ n)) ra k =
      Some (Got (if leaf (content D k) addr s p = 0 then - 1 else leaf (content D k) addr s p), k') \<and>
    touches N D {} k k' \<and> same_fs k k'"
  using assms
proof (induction n arbitrary: m ra k)
  case 0
  then have "m = depth s" by simp
  then have "bmap_chain ramstrategy tape ip True 0 (8 * 0) p (node (content D k) (addr ! s) m (p div 256 ^ 0)) ra k =
      Some (Got (if leaf (content D k) addr s p = 0 then - 1 else leaf (content D k) addr s p), k\<lparr>rablock := ra\<rparr>)"
    using "0.prems"(9) by (simp add: leaf_def)
  then show ?case using touches_cache [OF touches_refl [OF 0(1)] rablock_cache] by (metis same_fs_rablock)
next
  case (Suc n)
  let ?C = "content D k"
  let ?nb = "node ?C (addr ! s) m (p div 256 ^ Suc n)"
  have pb: "p < 256 ^ (m + Suc n)" "p < 256 ^ (Suc m + n)" using Suc.prems(5,7) by simp_all
  have ind: "indirect s m (p div 256 ^ Suc n)"
    using prefix_bounds [OF Suc.prems(6) pb(1)] Suc.prems(4,5) by (simp add: indirect_def del: power_Suc)
  have nb: "on_disk k ?nb" "none_busy_at N k (fsbtodb ?nb)" using nodes_okD [OF Suc.prems(8) ind Suc.prems(9)] by simp_all
  obtain i k1 where k1: "bread ramstrategy D ?nb k = Some (Got (Buf i), k1)" "get_data k1 (Buf i) = ?C ?nb"
    "\<not> has_b k1 (Buf i) B_ERROR" "b_resid (bufs k1 (Buf i)) = 0" "bio.more k1 = bio.more k"
    and rel: "\<And>k2. same_cache k1 k2 \<Longrightarrow> \<exists>k3. brelse (Buf i) k2 = Some k3 \<and> touches N D {} k k3 \<and> bio.more k3 = bio.more k2"
    by (rule read_step [OF Suc.prems(1,2) nb(2,1)]) blast
  obtain k3 where k3: "brelse (Buf i) k1 = Some k3" "touches N D {} k k3" "bio.more k3 = bio.more k" using rel [OF same_cache_refl] k1(5) by auto
  note m3 = bmore_ink [OF k3(3)]
  let ?e = "node ?C (addr ! s) (Suc m) (p div 256 ^ n)"
  define ix where "ix = nat ((p div 256 ^ n) mod 256)"
  define ra1 where "ra1 = (if int ix < NINDIR - 1 then get_daddr (Buf i) (Suc ix) k1 else ra)"
  have e: "get_daddr (Buf i) ix k1 = ?e" using Suc.prems(9) unfolding node_step by (simp add: get_daddr_def k1(2) ix_def)
  have run: "bmap_chain ramstrategy tape ip True (Suc n) (8 * Suc n) p ?nb ra k =
      (if ?e = 0 then Some (Got (- 1), k3) else bmap_chain ramstrategy tape ip True n (8 * n) p ?e ra1 k3)"
    using k1(1,3,4) k3(1) Suc.prems(3) by (simp add: and_then_def Let_def index_eq ix_def [symmetric] e ra1_def del: node.simps)
  show ?case
  proof (cases "?e = 0")
    case True
    have "Suc m + n = depth s" using Suc.prems(5) by simp
    with node_zero [OF True] have "leaf ?C addr s p = 0" by (simp only: leaf_def)
    then show ?thesis using run True k3(2) m3 by (simp add: same_fs_def)
  next
    case False
    have t3: "cache_ok N D k3" "\<And>j. busy k3 j = busy k j" "ram_size k3 = ram_size k" using k3(2) by (simp_all add: touches_def)
    have ct: "\<forall>b. on_disk k b \<and> none_busy_at N k (fsbtodb b) \<longrightarrow> content D k3 b = ?C b" using touches_content [OF k3(2)] by blast
    have "nodes_ok (\<lambda>b. on_disk k3 b \<and> none_busy_at N k3 (fsbtodb b)) (content D k3) addr"
      by (rule nodes_cong [OF Suc.prems(8) ct]) (use touches_none_busy [OF k3(2)] t3(3) in \<open>auto simp: on_disk_def\<close>)
    moreover have e3: "node (content D k3) (addr ! s) (Suc m) (p div 256 ^ n) = ?e"
      using node_cong [OF Suc.prems(8) ct, of s "Suc m" "p div 256 ^ n"] Suc.prems(4,5) prefix_bounds [OF Suc.prems(6) pb(2)]
      by (simp del: node.simps power_Suc)
    moreover have lf: "leaf (content D k3) addr s p = leaf ?C addr s p"
      unfolding leaf_def using node_cong [OF Suc.prems(8) ct, of s "depth s" p] Suc.prems(4,6,7) by simp
    ultimately obtain k' where k': "bmap_chain ramstrategy tape ip True n (8 * n) p ?e ra1 k3 =
        Some (Got (if leaf ?C addr s p = 0 then - 1 else leaf ?C addr s p), k')"
      "touches N D {} k3 k'" "same_fs k3 k'" using Suc.IH [of k3 "Suc m" ra1] t3(1,2) Suc.prems(2-7) False m3 by (auto simp del: node.simps)
    then show ?thesis using run False touches_trans [OF k3(2) k'(2)] m3 by (simp add: same_fs_def del: node.simps)
  qed
qed

lemma bmap_reading:
  assumes c: "cache_ok N D k" and f: "\<exists>i < N. \<not> busy k i" and d: "i_dev (itab k ip) = D" and bn: "0 \<le> bn" "bn < MAXBLK"
    and w: "nodes_ok (\<lambda>b. on_disk k b \<and> none_busy_at N k (fsbtodb b)) (content D k) (i_addr (itab k ip))"
  obtains k' where "bmap ramstrategy tape ip bn True clr k = Some (Got (answer (file_block (content D k) (i_addr (itab k ip)) bn)), k')"
    "touches N D {} k k'" "same_fs k k'"
proof -
  define k1 where "k1 = k\<lparr>rablock := 0\<rparr>"
  let ?a = "i_addr (itab k ip)"
  have sc: "same_cache k k1" and s1: "same_fs k k1" "itab k1 = itab k" "ram_size k1 = ram_size k" by (simp_all add: k1_def same_fs_def)
  note q = same_cache_cong [OF sc]
  have t1: "touches N D {} k k1" using touches_cache [OF touches_refl [OF c] sc] .
  obtain s p where p: "place bn = (s, p)" by (cases "place bn")
  note pl = place_ok [OF bn p]
  show thesis
  proof (cases "bn < 4")
    case True
    let ?k = "if nat bn < NADDR - 4 then k1\<lparr>rablock := ?a ! Suc (nat bn)\<rparr> else k1"
    have "s = nat bn" "depth s = 0" using True p bn(1) by (auto simp: place_def)
    then have "bmap ramstrategy tape ip bn True clr k = Some (Got (answer (file_block (content D k) ?a bn)), if ?a ! nat bn = 0 then k1 else ?k)"
      using bn(1) True p by (simp add: bmap_def bmap_direct_def Let_def k1_def file_block_def leaf_def answer_def)
    moreover have "touches N D {} k (if ?a ! nat bn = 0 then k1 else ?k)" "same_fs k (if ?a ! nat bn = 0 then k1 else ?k)"
      using t1 touches_cache [OF t1 rablock_cache] s1(1) by (simp_all add: same_fs_def)
    ultimately show thesis by (rule that)
  next
    case False
    note lv = levels_place [of bn, unfolded p, simplified]
    have n: "s \<in> {4, 5, 6}" "7 - (7 - s) = s" "4 - (7 - s) = depth s" using lv(2) False bn by auto
    have run: "bmap ramstrategy tape ip bn True clr k =
        (if ?a ! s = 0 then Some (Got (- 1), k1) else bmap_chain ramstrategy tape ip True (depth s) (8 * depth s) p (?a ! s) 0 k1)"
      using lv(1) n bn False by (auto simp: bmap_def bmap_indirect_def Let_def k1_def [symmetric] s1(2))
    show thesis
    proof (cases "?a ! s = 0")
      case True
      then have "leaf (content D k) ?a s p = 0" using node_zero [of "content D k" "?a ! s" 0 p "depth s"] by (simp add: leaf_def)
      then show thesis using that [OF _ t1 s1(1)] run True by (simp add: file_block_def answer_def p)
    next
      case nz: False
      have w1: "nodes_ok (\<lambda>b. on_disk k1 b \<and> none_busy_at N k1 (fsbtodb b)) (content D k1) ?a" using w by (simp add: q)
      have r0: "node (content D k1) (?a ! s) 0 (p div 256 ^ depth s) = ?a ! s" by simp
      obtain k' where k': "bmap_chain ramstrategy tape ip True (depth s) (8 * depth s) p (?a ! s) 0 k1 =
          Some (Got (if leaf (content D k1) ?a s p = 0 then - 1 else leaf (content D k1) ?a s p), k')"
        "touches N D {} k1 k'" "same_fs k1 k'"
        using chain_reads [of N D k1 ip s 0 "depth s" p ?a tape 0] c f d q(2,6) s1(2) pl w1 nz unfolding r0 by auto
      have "touches N D {} k k'" using touches_trans [OF t1 k'(2)] by simp
      moreover have "same_fs k k'" using k'(3) s1(1) by (simp add: same_fs_def)
      ultimately show thesis using that k'(1) run nz by (simp add: file_block_def answer_def p q split: if_splits)
    qed
  qed
qed

end
