(* ===== verification/BmapWrite.thy ===== *)
theory BmapWrite imports BmapSpec begin

text \<open>
  The writing half of bmap: a missing block of a file is allocated, with the indirect blocks on the way to it.
\<close>

section \<open>What the allocator leaves alone\<close>

lemma fmore_bmore: "bio.more (k' :: 'a fsk_scheme) = bio.more k \<Longrightarrow> fsk.more k' = fsk.more k"
  by (cases k; cases k'; simp)

lemma fmore_upd [simp]: "fsk.more (upd_fs f g k) = fsk.more k"
  by (simp add: upd_fs_def)

lemma and_then_Some:
  "and_then r g = Some (y, k') \<longleftrightarrow> (\<exists>c p. y = Sleeps c p \<and> r = Some (Sleeps c p, k')) \<or> (\<exists>x k1. r = Some (Got x, k1) \<and> g x k1 = Some (y, k'))"
  by (auto simp: and_then_def split: option.splits bio_out.splits)

lemma fmore_put [simp]: "fsk.more (put_data bp ws k) = fsk.more k" "fsk.more (set_error e k) = fsk.more k"
  by (simp_all add: put_data_def set_error_def upd_u_def split: baddr.split)

lemma write_super_fmore: "write_super ramstrategy dev f k = Some (y, k') \<Longrightarrow> fsk.more k' = fsk.more k"
  unfolding write_super_def and_then_Some
  by (auto simp: Let_def put_words_def dest!: getblk_bmore bwrite_bmore dest: fmore_bmore) (metis fmore_bmore fmore_put fmore_upd)

lemma unlock_free_fmore: "unlock_free f k = Some k' \<Longrightarrow> fsk.more k' = fsk.more k"
  unfolding unlock_free_def Let_def by (metis fmore_bmore fmore_upd wakeup_bmore)

lemma and_then_inv:
  assumes "and_then r g = Some (y, k')" "\<And>z k1. r = Some (z, k1) \<Longrightarrow> P k1" "\<And>x k1. P k1 \<Longrightarrow> g x k1 = Some (y, k') \<Longrightarrow> P k'"
  shows "P k'"
  using assms by (auto simp: and_then_Some)

lemma next_list_fmore: "next_list ramstrategy dev f b k = Some (y, k') \<Longrightarrow> fsk.more k' = fsk.more k"
  unfolding next_list_def
proof (erule and_then_inv)
  fix z k1 assume "bread ramstrategy dev b (upd_fs f (\<lambda>s. s\<lparr>fs_flock := fs_flock s + 1\<rparr>) k) = Some (z, k1)"
  then show "fsk.more k1 = fsk.more k" using fmore_bmore [OF bread_bmore] by fastforce
next
  fix bp k1 assume k1: "fsk.more k1 = fsk.more k"
  define k2 where "k2 = (if \<not> has_b k1 bp B_ERROR \<and> b_resid (bufs k1 bp) = 0 then upd_fs f (load_fblk (get_data k1 bp)) k1 else k1)"
  have k2: "fsk.more k2 = fsk.more k" using k1 by (simp add: k2_def)
  assume "(let k2 = (if \<not> has_b k1 bp B_ERROR \<and> b_resid (bufs k1 bp) = 0 then upd_fs f (load_fblk (get_data k1 bp)) k1 else k1)
       in Option.bind (brelse bp k2) (\<lambda>k3. and_then (write_super ramstrategy dev f k3) (\<lambda>_ k4.
            map_option (\<lambda>k5. (Got (0 < fs_nfree (fss k5 f)), k5)) (unlock_free f k4)))) = Some (y, k')"
  then obtain k3 where k3: "brelse bp k2 = Some k3"
    and r: "and_then (write_super ramstrategy dev f k3) (\<lambda>_ k4. map_option (\<lambda>k5. (Got (0 < fs_nfree (fss k5 f)), k5)) (unlock_free f k4)) = Some (y, k')"
    unfolding Let_def k2_def [symmetric] by (auto simp: bind_eq_Some_conv)
  have "fsk.more k3 = fsk.more k" using fmore_bmore [OF brelse_bmore [OF k3]] k2 by simp
  with r show "fsk.more k' = fsk.more k"
    by (elim and_then_inv) (auto dest!: write_super_fmore unlock_free_fmore)
qed

lemma alloc_fmore:
  assumes "alloc ramstrategy dev f clr k = Some (y, k')"
  shows "fsk.more k' = fsk.more k"
proof (cases "fs_flock (fss k f) \<noteq> 0 \<or> fst (take_bno (fss k f)) = None")
  case True
  then show ?thesis using assms by (auto simp: alloc_def nospace_def split: prod.splits option.splits if_splits)
next
  case False
  then obtain b s where t: "take_bno (fss k f) = (Some b, s)" by (cases "take_bno (fss k f)") auto
  define k1 where "k1 = upd_fs f (\<lambda>_. s) k"
  have k1: "fsk.more k1 = fsk.more k" by (simp add: k1_def)
  have ub: "fsk.more (upd_buf bp g k3) = fsk.more k3" for bp g and k3 :: "'a fsk_scheme" by (simp add: upd_buf_def)
  have "and_then (if fs_nfree s \<le> 0 then next_list ramstrategy dev f b k1 else Some (Got True, k1)) (\<lambda>more k2.
             if \<not> more then Some (Got None, nospace f k2)
             else and_then (getblk ramstrategy dev b k2) (\<lambda>bp k3.
               let k4 = upd_buf bp (\<lambda>b. b\<lparr>b_resid := 0\<rparr>) k3;
                   k5 = (if clr then clrbuf bp k4 else k4)
               in Some (Got (Some bp), upd_fs f (\<lambda>s. s\<lparr>fs_fmod := 1, fs_tfree := wrap32 (fs_tfree s - 1)\<rparr>) k5))) = Some (y, k')"
    using assms t False unfolding alloc_def k1_def by (simp add: Let_def split del: if_split)
  then show ?thesis
  proof (rule and_then_inv)
    show "fsk.more k2 = fsk.more k" if "(if fs_nfree s \<le> 0 then next_list ramstrategy dev f b k1 else Some (Got True, k1)) = Some (z, k2)" for z k2
      using that k1 by (auto split: if_splits dest!: next_list_fmore)
  next
    fix m k2 assume k2: "fsk.more k2 = fsk.more k"
      and r: "(if \<not> m then Some (Got None, nospace f k2)
             else and_then (getblk ramstrategy dev b k2) (\<lambda>bp k3.
               let k4 = upd_buf bp (\<lambda>b. b\<lparr>b_resid := 0\<rparr>) k3;
                   k5 = (if clr then clrbuf bp k4 else k4)
               in Some (Got (Some bp), upd_fs f (\<lambda>s. s\<lparr>fs_fmod := 1, fs_tfree := wrap32 (fs_tfree s - 1)\<rparr>) k5))) = Some (y, k')"
    show "fsk.more k' = fsk.more k"
    proof (cases m)
      case True
      then show ?thesis using r k2
        by (auto simp: Let_def clrbuf_def ub elim!: and_then_inv dest!: getblk_bmore fmore_bmore split: if_splits)
    next
      case False
      then show ?thesis using r k2 by (auto simp: nospace_def)
    qed
  qed
qed

section \<open>Holding a buffer and letting it go\<close>

lemma fs_ok_hold:
  assumes o: "fs_ok N D f xs k" and g: "gets N (fsbtodb b) i k k1" and c: "cache_ok N D k1" and m: "bio.more k1 = bio.more k"
    and b: "on_disk k b" "b \<noteq> SUPERB" "b \<notin> set xs"
  shows "fs_ok N D f xs k1"
proof -
  note d = fs_okD [OF o]
  have i: "b_blkno (cells k1 (Buf i)) = fsbtodb b" "\<And>j. busy k1 j = (j = i \<or> busy k j)"
    "\<And>j. busy k j \<Longrightarrow> cells k1 (Buf j) = cells k (Buf j)" "ram_size k1 = ram_size k"
    using g by (simp_all add: gets_def)
  have ct: "content D k1 = content D k"
    using g fsbtodb_even by (simp add: fun_eq_iff content_cache [OF c] content_cache [OF d(1)] gets_def)
  have nb: "none_busy_at N k1 (fsbtodb a)" if "a \<in> insert SUPERB (set xs)" for a
  proof -
    have a: "on_disk k a" "a \<noteq> b" "none_busy_at N k (fsbtodb a)" using that d(4,6,7,8) b(2,3) by (auto simp: usable_def)
    then have "fsbtodb a \<noteq> fsbtodb b" using on_disk_fsbtodb(1) [OF a(1)] on_disk_fsbtodb(1) [OF b(1)] by simp
    then show ?thesis using a(3) i(1-3) unfolding none_busy_at_def by metis
  qed
  note mm = bmore_fsk [OF m]
  have fm: "fss k1 f = (fss k f)\<lparr>fs_fmod := fs_fmod (fss k f), fs_tfree := fs_tfree (fss k f)\<rparr>" by (simp add: mm)
  show ?thesis by (rule fs_ok_same [OF o c fm mm(2) i(4)]) (use ct nb in simp_all)
qed

lemma fs_ok_release:
  assumes o: "fs_ok N D f xs k" and c: "cache_ok N D k1" and be: "\<forall>j. j \<noteq> i \<longrightarrow> cells k1 (Buf j) = cells k (Buf j)" "\<not> busy k1 i" "ram_size k1 = ram_size k" and m: "bio.more k1 = bio.more k"
    and ct: "\<And>a. a \<in> set xs \<Longrightarrow> content D k1 a = content D k a"
  shows "fs_ok N D f xs k1"
proof -
  note d = fs_okD [OF o]
  note mm = bmore_fsk [OF m]
  have fm: "fss k1 f = (fss k f)\<lparr>fs_fmod := fs_fmod (fss k f), fs_tfree := fs_tfree (fss k f)\<rparr>" by (simp add: mm)
  have "cells k1 (Buf j) = cells k (Buf j)" "busy k1 j = busy k j" if "j \<noteq> i" for j
    using be(1) that by (simp_all add: busy_def)
  then have nb: "none_busy_at N k1 (fsbtodb a)" if "a \<in> insert SUPERB (set xs)" for a
    using d(6,7) that be(2) unfolding none_busy_at_def by (metis insertE)
  show ?thesis by (rule fs_ok_same [OF o c fm mm(2)]) (use be ct nb in simp_all)
qed

section \<open>A new block\<close>

lemma new_block_some:
  assumes o: "fs_ok N D (i_fs k ip) (x # xs) k" and f: "\<exists>i < N. \<not> busy k i" and dv: "i_dev (itab k ip) = D" and t: "\<not> tape D"
  obtains k' where "new_block ramstrategy tape ip clr sync k = Some (Got (Some x), k')" "fs_ok N D (i_fs k ip) xs k'"
    "\<forall>j. busy k' j = busy k j" "\<forall>j. busy k j \<longrightarrow> cells k' (Buf j) = cells k (Buf j)"
    "clr \<longrightarrow> content D k' x = replicate 512 0" "\<forall>b. on_disk k b \<longrightarrow> b \<noteq> x \<longrightarrow> b \<noteq> SUPERB \<longrightarrow> content D k' b = content D k b"
    "usable (fss k' (i_fs k ip)) k' = usable (fss k (i_fs k ip)) k" "itab k' = itab k" "i_fs k' = i_fs k" "ram_size k' = ram_size k"
proof -
  note d = fs_okD [OF o]
  obtain i k1 where k1: "alloc ramstrategy D (i_fs k ip) clr k = Some (Got (Some (Buf i)), k1)" "fs_ok N D (i_fs k ip) xs k1" "i < N" "\<not> busy k i"
    "\<forall>j. busy k1 j = (j = i \<or> busy k j)" "is_block D (fsbtodb x) (bufs k1 (Buf i))" "clr \<longrightarrow> get_data k1 (Buf i) = replicate 512 0"
    "\<forall>b. on_disk k b \<longrightarrow> b \<noteq> x \<longrightarrow> b \<noteq> SUPERB \<longrightarrow> content D k1 b = content D k b"
    "fs_isize (fss k1 (i_fs k ip)) = fs_isize (fss k (i_fs k ip))" "fs_fsize (fss k1 (i_fs k ip)) = fs_fsize (fss k (i_fs k ip))" "ram_size k1 = ram_size k"
    "\<forall>j. busy k j \<longrightarrow> cells k1 (Buf j) = cells k (Buf j)" "\<not> flag (b_flags (cells k1 (Buf i))) B_ERROR"
    using alloc_ok [OF o f, where clr = clr] by (metis (lifting))
  note d1 = fs_okD [OF k1(2)]
  have x: "usable (fss k (i_fs k ip)) k x" "x \<notin> set xs" using d(8,9) by simp_all
  have xd: "on_disk k x" using x(1) by (simp add: usable_def)
  have "D \<noteq> NODEV" using cache_okD [OF d1(1)] by metis
  then have c: "live (cells k1 (Buf i))" "b_blkno (cells k1 (Buf i)) = fsbtodb x"
    using is_block_live k1(6) unfolding is_block_cells by blast+
  have dk: "in_disk k1 (b_blkno (cells k1 (Buf i)))" using on_disk_fsbtodb(2) [OF xd] c(2) k1(11) by (simp add: in_disk_def)
  have bi: "busy k1 i" using k1(5) by simp
  define wr where "wr = (if sync then bwrite ramstrategy (Buf i) k1 else bdwrite ramstrategy tape (Buf i) k1)"
  have "\<exists>k2. wr = Some (Got (Buf i), k2) \<and> cache_ok N D k2 \<and> beside i k1 k2 \<and> \<not> busy k2 i \<and>
    (\<forall>n. even n \<longrightarrow> content_at N k2 n = (if n = b_blkno (cells k1 (Buf i)) then get_data k1 (Buf i) else content_at N k1 n))"
    unfolding wr_def using bwrite_ok [OF d1(1) k1(3) bi c(1) dk] bdwrite_ok [OF d1(1) k1(3) bi c(1) dk k1(13), of tape] t by (metis (no_types, lifting))
  then obtain k2 where k2: "wr = Some (Got (Buf i), k2)" "cache_ok N D k2" "beside i k1 k2" "\<not> busy k2 i"
    "\<And>n. even n \<Longrightarrow> content_at N k2 n = (if n = b_blkno (cells k1 (Buf i)) then get_data k1 (Buf i) else content_at N k1 n)" by blast
  have m: "bio.more k2 = bio.more k1" using k2(1) bwrite_bmore bdwrite_bmore unfolding wr_def by (metis (full_types))
  note mm = bmore_ink [OF m]
  have a1: "itab k1 = itab k" "i_fs k1 = i_fs k" using alloc_fmore [OF k1(1)] by (cases k; cases k1; simp)+
  have bu: "busy k2 j = busy k j" for j using k2(3,4) k1(4,5) by (cases "j = i") (simp_all add: beside_def busy_def)
  have ct: "content D k2 b = (if fsbtodb b = fsbtodb x then get_data k1 (Buf i) else content D k1 b)" for b
    unfolding content_cache [OF k2(2)] content_cache [OF d1(1)] using k2(5) [OF fsbtodb_even, of b] c(2) by simp
  have ct2: "content D k2 b = content D k1 b" if "on_disk k b" "b \<noteq> x" for b
    using ct [of b] on_disk_fsbtodb(1) [OF that(1)] on_disk_fsbtodb(1) [OF xd] that(2) by simp
  have "fs_ok N D (i_fs k ip) xs k2"
    by (rule fs_ok_release [OF k1(2) k2(2) _ k2(4) _ m]) (use k2(3) ct2 d(8) x(2) in \<open>auto simp: usable_def beside_def\<close>)
  moreover have "new_block ramstrategy tape ip clr sync k = Some (Got (Some x), k2)"
    using k1(1) k2(1) dv c(2) on_disk_fsbtodb(1) [OF xd] by (simp add: new_block_def and_then_def wr_def dbtofsb_def cell_fields)
  moreover have "usable (fss k2 (i_fs k ip)) k2 = usable (fss k (i_fs k ip)) k"
    by (rule usable_cong) (use k2(3) k1(9-11) mm in \<open>simp_all add: beside_def\<close>)
  moreover have "cells k2 (Buf j) = cells k (Buf j)" if "busy k j" for j
    using k2(3) k1(4,12) that by (cases "j = i") (auto simp: beside_def)
  moreover have "ram_size k2 = ram_size k" using k2(3) k1(11) by (simp add: beside_def)
  ultimately show thesis using that [of k2] bu ct ct2 k1(7,8) mm(1,2) a1 by simp
qed

text \<open>No block is left: the state is as before but for the counts and the error.\<close>

lemma new_block_none:
  assumes o: "fs_ok N D (i_fs k ip) [] k" and dv: "i_dev (itab k ip) = D"
  obtains k' where "new_block ramstrategy tape ip clr sync k = Some (Got None, k')" "fs_ok N D (i_fs k ip) [] k'"
    "cells k' = cells k" "clean k' = clean k" "content D k' = content D k" "u_error (u k') = ENOSPC"
    "usable (fss k' (i_fs k ip)) k' = usable (fss k (i_fs k ip)) k" "itab k' = itab k" "i_fs k' = i_fs k"
proof -
  obtain k' where k': "alloc ramstrategy D (i_fs k ip) clr k = Some (Got None, k')" "fs_ok N D (i_fs k ip) [] k'" "u_error (u k') = ENOSPC"
    "content D k' = content D k" "fs_isize (fss k' (i_fs k ip)) = fs_isize (fss k (i_fs k ip))"
    "fs_fsize (fss k' (i_fs k ip)) = fs_fsize (fss k (i_fs k ip))" "ram_size k' = ram_size k" "cells k' = cells k" "clean k' = clean k"
    using alloc_none [OF o, where strat = ramstrategy and clr = clr] by metis
  have "new_block ramstrategy tape ip clr sync k = Some (Got None, k')" using k'(1) dv by (simp add: new_block_def and_then_def)
  moreover have "usable (fss k' (i_fs k ip)) k' = usable (fss k (i_fs k ip)) k" by (rule usable_cong) (use k'(5-7) in simp_all)
  moreover have "itab k' = itab k" "i_fs k' = i_fs k" using alloc_fmore [OF k'(1)] by (cases k; cases k'; simp)+
  ultimately show thesis using that k' by blast
qed

section \<open>A file\<close>

text \<open>A file of a file system at rest, whose blocks are a good tree, clear of the free blocks.\<close>

definition file_ok :: "nat \<Rightarrow> u_int \<Rightarrow> nat \<Rightarrow> int list \<Rightarrow> 'a ink_scheme \<Rightarrow> bool" where
  "file_ok N D ip xs k \<longleftrightarrow> fs_ok N D (i_fs k ip) xs k \<and> idle N D k \<and> 2 \<le> N \<and> i_dev (itab k ip) = D \<and>
     tree_ok (usable (fss k (i_fs k ip)) k) (set xs) (content D k) (i_addr (itab k ip))"

lemma file_okD:
  assumes "file_ok N D ip xs k"
  shows "fs_ok N D (i_fs k ip) xs k" "idle N D k" "2 \<le> N" "i_dev (itab k ip) = D"
    "tree_ok (usable (fss k (i_fs k ip)) k) (set xs) (content D k) (i_addr (itab k ip))" "cache_ok N D k"
    "\<exists>i < N. \<not> busy k i" "none_busy_at N k n"
  using assms idle_nb by (auto simp: file_ok_def idle_def)

text \<open>An indirect block is read, and its buffer held.\<close>

lemma held_content:
  assumes c: "cache_ok N D k" and i: "i < N" and l: "live (cells k (Buf i))" "full (cells k (Buf i))" "b_blkno (cells k (Buf i)) = fsbtodb b"
  shows "content D k b = get_data k (Buf i)"
proof -
  obtain H where "unique N k" using cache_okD [OF c] by metis
  from content_at_held [OF this i l(1)] show ?thesis unfolding content_cache [OF c] using l by (simp add: cdata_def)
qed

lemma read_hold:
  assumes fo: "file_ok N D ip xs k" and b: "on_disk k b" "b \<noteq> SUPERB" "b \<notin> set xs"
  obtains i k1 where "bread ramstrategy D b k = Some (Got (Buf i), k1)" "cache_ok N D k1" "gets N (fsbtodb b) i k k1"
    "full (cells k1 (Buf i))" "get_data k1 (Buf i) = content D k b" "\<not> has_b k1 (Buf i) B_ERROR" "b_resid (bufs k1 (Buf i)) = 0"
    "fs_ok N D (i_fs k ip) xs k1" "\<exists>j < N. \<not> busy k1 j" "bio.more k1 = bio.more k" "content D k1 = content D k"
proof -
  note f = file_okD [OF fo]
  obtain i k1 where k1: "bread ramstrategy D b k = Some (Got (Buf i), k1)" "cache_ok N D k1" "gets N (fsbtodb b) i k k1"
    "full (cells k1 (Buf i))" "get_data k1 (Buf i) = content_at N k (fsbtodb b)"
    using bread_ok [OF f(6,7,8) on_disk_fsbtodb(2) [OF b(1)]] by metis
  note m = bread_bmore [OF k1(1)]
  have i: "i < N" "\<And>j. busy k1 j = (j = i \<or> busy k j)" using k1(3) by (simp_all add: gets_def)
  have ct: "content D k1 = content D k"
    using k1(3) fsbtodb_even by (simp add: fun_eq_iff content_cache [OF k1(2)] content_cache [OF f(6)] gets_def)
  obtain H F where h: "cell_ok D H k1 i" using cache_okD [OF k1(2)] i(1) by metis
  have "\<not> has_b k1 (Buf i) B_ERROR" using k1(4) by (simp add: full_def cell_fields)
  moreover have "b_resid (bufs k1 (Buf i)) = 0" using h by (simp add: cell_ok_def Let_def cell_fields)
  moreover have "\<exists>j < N. \<not> busy k1 j"
  proof (cases "i = 0")
    case True
    then show ?thesis using i(2) f(2,3) by (intro exI [of _ 1]) (simp add: idle_def)
  next
    case False
    then show ?thesis using i f(2) by (intro exI [of _ 0]) (simp add: idle_def)
  qed
  ultimately show thesis
    using that k1 fs_ok_hold [OF f(1) k1(3,2) m b] m ct by (simp add: content_cache [OF f(6)])
qed

end
