(* ===== verification/BmapFill.thy ===== *)
theory BmapFill imports BmapWrite begin

text \<open>
  bmap on a hole: one step of the way down at a time, then the whole of it.
\<close>

section \<open>An address is set in an indirect block\<close>

lemma daddr_put:
  assumes "length ws = 512" "i < 256" "q < 256" "int32 b"
  shows "daddr_at (2 * q) (take (2 * i) ws @ daddr_words b @ drop (2 * i + 2) ws) = (if q = i then b else daddr_at (2 * q) ws)"
proof -
  have w: "length (daddr_words b) = 2" by simp
  consider "q < i" | "q = i" | "i < q" by linarith
  then show ?thesis
  proof cases
    case 1
    then show ?thesis using assms(1,2) by (simp add: daddr_at_def nth_append)
  next
    case 2
    have "daddr_at (2 * i) (take (2 * i) ws @ daddr_words b @ drop (2 * i + 2) ws) = daddr_at 0 (daddr_words b @ drop (2 * i + 2) ws)"
      using assms(1,2) by (simp add: daddr_at_def nth_append)
    then show ?thesis using 2 daddr_at_append daddr_roundtrip [OF assms(4)] by simp
  next
    case 3
    then have "2 * q - 2 * i - 2 + (2 * i + 2) = 2 * q" "\<not> 2 * q - 2 * i < 2" "\<not> Suc (2 * q) - 2 * i < 2" by arith+
    then show ?thesis using 3 assms(1-3) w by (simp add: daddr_at_def nth_append)
  qed
qed

text \<open>The place \<open>p\<close> of level \<open>m + 1\<close> in the indirect block \<open>nb\<close>.\<close>

definition place_in :: "'a ink_scheme \<Rightarrow> u_int \<Rightarrow> nat \<Rightarrow> nat \<Rightarrow> nat \<Rightarrow> int \<Rightarrow> int \<Rightarrow> bool" where
  "place_in k D ip s m p nb \<longleftrightarrow> s < 7 \<and> Suc m \<le> depth s \<and> 0 \<le> p \<and> p < 256 ^ Suc m \<and>
     nb = node (content D k) (i_addr (itab k ip) ! s) m (p div 256) \<and> nb \<noteq> 0"

lemma place_block:
  assumes fo: "file_ok N D ip xs k" and p: "place_in k D ip s m p nb"
  shows "indirect s m (p div 256)" "usable (fss k (i_fs k ip)) k nb" "on_disk k nb" "nb \<noteq> SUPERB" "nb \<notin> set xs"
    "daddr_at (2 * nat (p mod 256)) (content D k nb) = node (content D k) (i_addr (itab k ip) ! s) (Suc m) p"
proof -
  note t = file_okD(5) [OF fo]
  show i: "indirect s m (p div 256)" using p by (auto simp: place_in_def indirect_def)
  have "usable (fss k (i_fs k ip)) k nb \<and> nb \<notin> set xs" using tree_okD(2) [OF t i] p by (simp add: place_in_def)
  then show "usable (fss k (i_fs k ip)) k nb" "on_disk k nb" "nb \<noteq> SUPERB" "nb \<notin> set xs" by (simp_all add: usable_def)
  show "daddr_at (2 * nat (p mod 256)) (content D k nb) = node (content D k) (i_addr (itab k ip) ! s) (Suc m) p"
    using p by (auto simp: place_in_def Let_def)
qed

lemma fill_step:
  assumes fo: "file_ok N D ip (x # xs) k" and p: "place_in k D ip s m p nb" and t: "\<not> tape D"
    and hole: "node (content D k) (i_addr (itab k ip) ! s) (Suc m) p = 0"
  obtains i k1 k2 k3 where "bread ramstrategy D nb k = Some (Got (Buf i), k1)" "\<not> has_b k1 (Buf i) B_ERROR" "b_resid (bufs k1 (Buf i)) = 0"
    "get_daddr (Buf i) (nat (p mod 256)) k1 = 0" "itab k1 = itab k" "i_fs k1 = i_fs k"
    "new_block ramstrategy tape ip True sync k1 = Some (Got (Some x), k2)"
    "bdwrite ramstrategy tape (Buf i) (put_daddr (Buf i) (nat (p mod 256)) x k2) = Some (Got (Buf i), k3)"
    "file_ok N D ip xs k3" "itab k3 = itab k" "i_fs k3 = i_fs k"
    "grow (usable (fss k (i_fs k ip)) k) (set (x # xs)) s (Suc m) p x (content D k) (i_addr (itab k ip)) (content D k3) (i_addr (itab k ip))"
proof -
  note f = file_okD [OF fo] and pb = place_block [OF fo p]
  note d = fs_okD [OF f(1)]
  let ?us = "usable (fss k (i_fs k ip)) k" and ?ix = "nat (p mod 256)"
  obtain i k1 where k1: "bread ramstrategy D nb k = Some (Got (Buf i), k1)" "cache_ok N D k1" "gets N (fsbtodb nb) i k k1"
    "full (cells k1 (Buf i))" "get_data k1 (Buf i) = content D k nb" "\<not> has_b k1 (Buf i) B_ERROR" "b_resid (bufs k1 (Buf i)) = 0"
    "fs_ok N D (i_fs k ip) (x # xs) k1" "\<exists>j < N. \<not> busy k1 j" "bio.more k1 = bio.more k" "content D k1 = content D k"
    by (rule read_hold [OF fo pb(3-5)]) blast
  note m1 = bmore_ink [OF k1(10)]
  have i: "i < N" "busy k1 i" "live (cells k1 (Buf i))" "b_blkno (cells k1 (Buf i)) = fsbtodb nb" "ram_size k1 = ram_size k"
    "\<And>j. busy k1 j = (j = i \<or> busy k j)" using k1(3) by (simp_all add: gets_def)
  have o1: "fs_ok N D (i_fs k1 ip) (x # xs) k1" "i_dev (itab k1 ip) = D" using k1(8) f(4) m1 by simp_all
  obtain k2 where k2: "new_block ramstrategy tape ip True sync k1 = Some (Got (Some x), k2)" "fs_ok N D (i_fs k1 ip) xs k2"
    "\<forall>j. busy k2 j = busy k1 j" "\<forall>j. busy k1 j \<longrightarrow> cells k2 (Buf j) = cells k1 (Buf j)"
    "content D k2 x = replicate 512 0" "\<forall>b. on_disk k1 b \<longrightarrow> b \<noteq> x \<longrightarrow> b \<noteq> SUPERB \<longrightarrow> content D k2 b = content D k1 b"
    "usable (fss k2 (i_fs k1 ip)) k2 = usable (fss k1 (i_fs k1 ip)) k1" "itab k2 = itab k1" "i_fs k2 = i_fs k1" "ram_size k2 = ram_size k1"
    using new_block_some [where tape = tape, OF o1(1) k1(9) o1(2) t, where clr = True and sync = sync] by (metis (no_types, lifting))
  note d2 = fs_okD [OF k2(2)]
  have us1: "usable (fss k1 (i_fs k1 ip)) k1 = ?us" using usable_cong [of "fss k1 (i_fs k1 ip)" "fss k (i_fs k ip)" k1 k] m1 i(5) by simp
  have x: "?us x" "x \<notin> set xs" "x \<noteq> nb" using d(8,9) pb(5) by auto
  then have xi: "int32 x" "x \<noteq> 0" "on_disk k x" by (simp_all add: usable_def)
  have c2: "cells k2 (Buf i) = cells k1 (Buf i)" "busy k2 i" using k2(3,4) i(2) by simp_all
  have rs2: "ram_size k2 = ram_size k" using k2(10) i(5) by simp
  have g2: "get_data k2 (Buf i) = content D k nb"
    using held_content [OF d2(1) i(1), of nb] c2(1) i(3,4) k1(4,11) k2(6) pb(3,4) x(3) i(5) by (simp add: on_disk_def)
  let ?ws = "content D k nb"
  have lw: "length ?ws = 512"
  proof -
    obtain H F where "cell_ok D H k1 i" "sizes_ok k1" using cache_okD [OF k1(2)] i(1) by metis
    from data_length [OF this] show ?thesis using k1(5) by simp
  qed
  define ws where "ws = take (2 * ?ix) ?ws @ daddr_words x @ drop (2 * ?ix + 2) ?ws"
  have ix: "?ix < 256" by (simp add: nat_less_iff)
  have lws: "length ws = 512" using lw ix by (simp add: ws_def)
  define kp where "kp = put_data (Buf i) ws k2"
  have kp: "put_daddr (Buf i) ?ix x k2 = kp" by (simp add: put_daddr_def g2 kp_def ws_def Let_def)
  have dk: "in_disk k2 (b_blkno (cells k2 (Buf i)))" using on_disk_fsbtodb(2) [OF pb(3)] c2(1) i(4) rs2 by (simp add: in_disk_def)
  have l2: "live (cells k2 (Buf i))" using c2(1) i(3) by simp
  note pd = put_data_ok [OF d2(1) i(1) c2(2) l2 dk lws, folded kp_def]
  have bp: "busy kp j = busy k2 j" for j by (simp add: busy_def pd(2))
  have q: "busy kp i" "live (cells kp (Buf i))" "in_disk kp (b_blkno (cells kp (Buf i)))" "\<not> flag (b_flags (cells kp (Buf i))) B_ERROR"
    using c2 l2 dk k1(4) pd(2,4) bp by (simp_all add: in_disk_def full_def)
  obtain k3 where k3: "bdwrite ramstrategy tape (Buf i) kp = Some (Got (Buf i), k3)" "cache_ok N D k3" "beside i kp k3" "\<not> busy k3 i"
    "\<And>n. even n \<Longrightarrow> content_at N k3 n = (if n = b_blkno (cells kp (Buf i)) then get_data kp (Buf i) else content_at N kp n)"
    using bdwrite_ok [where tape = tape, OF pd(1) i(1) q t] by metis
  have m: "bio.more k3 = bio.more k2" using bdwrite_bmore [OF k3(1)] by (simp add: kp_def)
  note m3 = bmore_ink [OF m]
  have oc: "cells k3 (Buf j) = cells k2 (Buf j)" if "j \<noteq> i" for j using k3(3) that pd(2) by (simp add: beside_def)
  have bz: "busy k3 j = (j \<noteq> i \<and> busy k2 j)" for j using k3(4) oc by (cases "j = i") (simp_all add: busy_def)
  have rs3: "ram_size k3 = ram_size k2" using k3(3) pd(4) by (simp add: beside_def)
  have ct3: "content D k3 b = (if fsbtodb b = fsbtodb nb then ws else content D k2 b)" for b
    unfolding content_cache [OF k3(2)] content_cache [OF d2(1)] k3(5) [OF fsbtodb_even] using pd(3) pd(6) [OF fsbtodb_even, of b] pd(2) c2(1) i(4) by simp
  have ct: "content D k3 b = content D k2 b" if "on_disk k b" "b \<noteq> nb" for b
    using ct3 on_disk_fsbtodb(1) [OF that(1)] on_disk_fsbtodb(1) [OF pb(3)] that(2) by simp
  have o3: "fs_ok N D (i_fs k ip) xs k3"
    using fs_ok_release [OF k2(2) k3(2) _ k3(4) rs3 m] oc ct pb(5) d(8) m1 by (auto simp: usable_def)
  have C: "content D k3 b = content D k b" if "?us b" "b \<noteq> x" "b \<noteq> nb" for b
    using ct k2(6) k1(11) that i(5) by (simp add: usable_def on_disk_def)
  have gr: "grow ?us (set (x # xs)) s (Suc m) p x (content D k) (i_addr (itab k ip)) (content D k3) (i_addr (itab k ip))"
    unfolding grow_def Let_def
  proof (intro conjI)
    have "content D k3 x = replicate 512 0" using ct xi(3) x(3) k2(5) by simp
    then show "Suc m < depth s \<longrightarrow> length (content D k3 x) = 512 \<and> (\<forall>w \<in> set (content D k3 x). w = 0)" by simp
    have "daddr_at (2 * nat r) (content D k3 nb) = (if r = p mod 256 then x else daddr_at (2 * nat r) (content D k nb))"
      if "0 \<le> r" "r < 256" for r
      using ct3 [of nb] daddr_put [OF lw ix, of "nat r" x] that xi(1) by (simp add: ws_def nat_less_iff eq_nat_nat_iff)
    moreover have "node (content D k) (i_addr (itab k ip) ! s) m (p div 256) = nb" "nb \<noteq> 0" using p by (simp_all add: place_in_def)
    ultimately show "if Suc m = 0 then i_addr (itab k ip) = (i_addr (itab k ip))[s := x] \<and>
          (\<forall>b. ?us b \<longrightarrow> b \<noteq> x \<longrightarrow> content D k3 b = content D k b)
        else i_addr (itab k ip) = i_addr (itab k ip) \<and> node (content D k) (i_addr (itab k ip) ! s) (Suc m - 1) (p div 256) \<noteq> 0 \<and>
          (\<forall>b. ?us b \<longrightarrow> b \<noteq> x \<longrightarrow> b \<noteq> node (content D k) (i_addr (itab k ip) ! s) (Suc m - 1) (p div 256) \<longrightarrow> content D k3 b = content D k b) \<and>
          (\<forall>q. 0 \<le> q \<longrightarrow> q < 256 \<longrightarrow> daddr_at (2 * nat q) (content D k3 (node (content D k) (i_addr (itab k ip) ! s) (Suc m - 1) (p div 256))) =
            (if q = p mod 256 then x else daddr_at (2 * nat q) (content D k (node (content D k) (i_addr (itab k ip) ! s) (Suc m - 1) (p div 256)))))"
      using C by simp
  qed (use f(5) p x xi hole in \<open>simp_all add: place_in_def\<close>)
  have us3: "usable (fss k3 (i_fs k3 ip)) k3 = ?us"
    using usable_cong [of "fss k3 (i_fs k3 ip)" "fss k2 (i_fs k2 ip)" k3 k2] m3 rs3 k2(7,9) us1 by simp
  have "set (x # xs) - {x} = set xs" using x(2) by simp
  then have "file_ok N D ip xs k3"
    unfolding file_ok_def us3 using tree_grow [OF gr] o3 k3(2) bz k2(3,8,9) i(6) f(2-4) m1 m3 by (simp add: idle_def)
  moreover have "get_daddr (Buf i) ?ix k1 = 0" using k1(5) pb(6) hole by (simp add: get_daddr_def)
  ultimately show thesis
    using that [OF k1(1,6,7) _ m1(1,2) k2(1) _ _ _ _ gr] k3(1) kp k2(8,9) m1 m3 by simp
qed

section \<open>Steps that leave the file alone\<close>

lemma leaf_cong:
  assumes "nodes_ok ok C addr" "\<forall>b. ok b \<longrightarrow> C' b = C b" "s < 7" "0 \<le> p" "p < 256 ^ depth s"
  shows "leaf C' addr s p = leaf C addr s p"
  unfolding leaf_def by (rule node_cong [OF assms(1-3) order.refl assms(4,5)])

lemma file_nodes: "file_ok N D ip xs k \<Longrightarrow> nodes_ok (\<lambda>b. usable (fss k (i_fs k ip)) k b \<and> b \<notin> set xs) (content D k) (i_addr (itab k ip))"
  by (rule tree_nodes [OF file_okD(5)])

lemma file_ok_same:
  assumes fo: "file_ok N D ip xs k" and o: "fs_ok N D (i_fs k ip) xs k'" and id: "idle N D k'"
    and it: "itab k' = itab k" "i_fs k' = i_fs k" and us: "usable (fss k' (i_fs k ip)) k' = usable (fss k (i_fs k ip)) k"
    and ct: "\<forall>b. on_disk k b \<longrightarrow> content D k' b = content D k b"
  shows "file_ok N D ip xs k'"
proof -
  have "tree_ok (usable (fss k' (i_fs k ip)) k') (set xs) (content D k') (i_addr (itab k ip))"
    by (rule tree_cong [OF file_okD(5) [OF fo]]) (use ct us in \<open>auto simp: usable_def\<close>)
  then show ?thesis using file_okD(3,4) [OF fo] o id it by (simp add: file_ok_def)
qed

lemma file_ok_touches:
  assumes fo: "file_ok N D ip xs k" and t: "touches N D {} k k'" and m: "same_fs k k'"
  shows "file_ok N D ip xs k'"
proof -
  note f = file_okD [OF fo] and mm = m [unfolded same_fs_def]
  note d = fs_okD [OF f(1)]
  have t': "cache_ok N D k'" "\<And>j. busy k' j = busy k j" "ram_size k' = ram_size k" using t by (simp_all add: touches_def)
  have o: "fs_ok N D (i_fs k ip) xs k'" by (rule fs_okI [OF f(1) t]) (use d(2,5) mm in auto)
  have us: "usable (fss k' (i_fs k ip)) k' = usable (fss k (i_fs k ip)) k" by (rule usable_cong) (use mm t' in simp_all)
  show ?thesis
    by (rule file_ok_same [OF fo o _ _ _ us]) (use f(2) t' mm touches_content [OF t] in \<open>auto simp: idle_def\<close>)
qed

section \<open>No block is left\<close>

lemma fill_fail:
  assumes fo: "file_ok N D ip [] k" and p: "place_in k D ip s m p nb"
    and hole: "node (content D k) (i_addr (itab k ip) ! s) (Suc m) p = 0"
  obtains i k1 k2 k3 where "bread ramstrategy D nb k = Some (Got (Buf i), k1)" "\<not> has_b k1 (Buf i) B_ERROR" "b_resid (bufs k1 (Buf i)) = 0"
    "get_daddr (Buf i) (nat (p mod 256)) k1 = 0" "itab k1 = itab k" "i_fs k1 = i_fs k"
    "new_block ramstrategy tape ip True sync k1 = Some (Got None, k2)" "brelse (Buf i) k2 = Some k3"
    "file_ok N D ip [] k3" "itab k3 = itab k" "i_fs k3 = i_fs k" "u_error (u k3) = ENOSPC" "content D k3 = content D k"
proof -
  note f = file_okD [OF fo] and pb = place_block [OF fo p]
  obtain i k1 where k1: "bread ramstrategy D nb k = Some (Got (Buf i), k1)" "cache_ok N D k1" "gets N (fsbtodb nb) i k k1"
    "full (cells k1 (Buf i))" "get_data k1 (Buf i) = content D k nb" "\<not> has_b k1 (Buf i) B_ERROR" "b_resid (bufs k1 (Buf i)) = 0"
    "fs_ok N D (i_fs k ip) [] k1" "bio.more k1 = bio.more k" "content D k1 = content D k"
    by (rule read_hold [OF fo pb(3-5)]) blast
  note m1 = bmore_ink [OF k1(9)]
  have i: "i < N" "busy k1 i" "ram_size k1 = ram_size k" "\<And>j. busy k1 j = (j = i \<or> busy k j)" using k1(3) by (simp_all add: gets_def)
  have o1: "fs_ok N D (i_fs k1 ip) [] k1" "i_dev (itab k1 ip) = D" using k1(8) f(4) m1 by simp_all
  obtain k2 where k2: "new_block ramstrategy tape ip True sync k1 = Some (Got None, k2)" "fs_ok N D (i_fs k1 ip) [] k2"
    "cells k2 = cells k1" "clean k2 = clean k1" "content D k2 = content D k1" "u_error (u k2) = ENOSPC"
    "usable (fss k2 (i_fs k1 ip)) k2 = usable (fss k1 (i_fs k1 ip)) k1" "itab k2 = itab k1" "i_fs k2 = i_fs k1"
    using new_block_none [OF o1, where tape = tape and clr = True and sync = sync] by metis
  note d2 = fs_okD [OF k2(2)]
  have b2: "busy k2 j = busy k1 j" for j by (simp add: busy_def k2(3))
  have coh: "live (cells k2 (Buf i)) \<and> full (cells k2 (Buf i)) \<and> \<not> flag (b_flags (cells k2 (Buf i))) B_DELWRI \<longrightarrow> clean k2 i"
    using k1(3) unfolding k2(3,4) by (simp add: gets_def)
  obtain k3 where k3: "brelse (Buf i) k2 = Some k3" "cache_ok N D k3" "same_mem k2 k3" "\<not> busy k3 i"
    "\<And>j. j \<noteq> i \<Longrightarrow> cells k3 (Buf j) = cells k2 (Buf j)" "\<And>n. even n \<Longrightarrow> content_at N k3 n = content_at N k2 n"
    using brelse_ok [OF d2(1) i(1) _ coh] b2 i(2) by metis
  note m = brelse_bmore [OF k3(1)]
  note m3 = bmore_ink [OF m]
  have ct: "content D k3 = content D k2"
    using k3(6) fsbtodb_even by (simp add: fun_eq_iff content_cache [OF k3(2)] content_cache [OF d2(1)])
  have rs: "ram_size k3 = ram_size k2" using k3(3) by (simp add: same_mem_def)
  have bz: "busy k3 j = (j \<noteq> i \<and> busy k2 j)" for j using k3(4,5) by (cases "j = i") (simp_all add: busy_def)
  have o3: "fs_ok N D (i_fs k1 ip) [] k3"
    by (rule fs_ok_release [OF k2(2) k3(2) _ k3(4) rs m]) (use k3(5) in simp_all)
  have "usable (fss k3 (i_fs k2 ip)) k3 = usable (fss k2 (i_fs k2 ip)) k2" by (rule usable_cong) (use m3 rs in simp_all)
  moreover have "usable (fss k1 (i_fs k1 ip)) k1 = usable (fss k (i_fs k ip)) k" by (rule usable_cong) (use m1 i(3) in simp_all)
  ultimately have us: "usable (fss k3 (i_fs k ip)) k3 = usable (fss k (i_fs k ip)) k" using k2(7,9) m1 by simp
  have "file_ok N D ip [] k3"
    by (rule file_ok_same [OF fo _ _ _ _ us]) (use o3 k3(2) bz b2 i(4) f(2) m1 m3 k2(5,8,9) k1(10) ct in \<open>auto simp: idle_def\<close>)
  moreover have "get_daddr (Buf i) (nat (p mod 256)) k1 = 0" using k1(5) pb(6) hole by (simp add: get_daddr_def)
  moreover have "u_error (u k3) = ENOSPC" using k3(3) k2(6) by (simp add: same_mem_def)
  ultimately show thesis
    using that [OF k1(1,6,7) _ m1(1,2) k2(1) k3(1)] k2(5,8,9) m1 m3 ct k1(10) by simp
qed

section \<open>The way down\<close>

text \<open>Of all the blocks of the file at most the one at \<open>(s, p)\<close> has changed, from a hole to \<open>r\<close>, unless there is no space.\<close>

definition filled :: "u_int \<Rightarrow> nat \<Rightarrow> nat \<Rightarrow> int \<Rightarrow> int \<Rightarrow> 'a ink_scheme \<Rightarrow> 'a ink_scheme \<Rightarrow> bool" where
  "filled D ip s p r k k' \<longleftrightarrow>
     (let f = leaf (content D k) (i_addr (itab k ip)); f' = leaf (content D k') (i_addr (itab k' ip)) in
      (\<forall>t q. t < 7 \<longrightarrow> 0 \<le> q \<longrightarrow> q < 256 ^ depth t \<longrightarrow> (t, q) \<noteq> (s, p) \<longrightarrow> f' t q = f t q) \<and>
      (f s p \<noteq> 0 \<longrightarrow> f' s p = f s p) \<and>
      (f' s p \<noteq> 0 \<and> r = f' s p \<or> f' s p = 0 \<and> r = - 1 \<and> u_error (u k') = ENOSPC))"

lemma filled_later:
  assumes f: "filled D ip s p r k1 k'" and sp: "s < 7" "0 \<le> p" "p < 256 ^ depth s"
    and l: "\<And>t q. t < 7 \<Longrightarrow> 0 \<le> q \<Longrightarrow> q < 256 ^ depth t \<Longrightarrow> (t, q) \<noteq> (s, p) \<or> leaf (content D k) (i_addr (itab k ip)) s p \<noteq> 0 \<Longrightarrow>
       leaf (content D k1) (i_addr (itab k1 ip)) t q = leaf (content D k) (i_addr (itab k ip)) t q"
  shows "filled D ip s p r k k'"
  using f l [OF sp] l unfolding filled_def Let_def by auto

definition fills :: "nat \<Rightarrow> u_int \<Rightarrow> nat \<Rightarrow> int list \<Rightarrow> nat \<Rightarrow> int \<Rightarrow> 'a ink_scheme \<Rightarrow> (int bio_out \<times> 'a ink_scheme) option \<Rightarrow> bool" where
  "fills N D ip xs s p k res \<longleftrightarrow> (\<exists>r k' xs'. res = Some (Got r, k') \<and> file_ok N D ip xs' k' \<and> set xs' \<subseteq> set xs \<and>
     i_fs k' = i_fs k \<and> filled D ip s p r k k')"

lemma fillsI:
  assumes "res = Some (Got r, k')" "file_ok N D ip xs' k'" "set xs' \<subseteq> set xs" "i_fs k' = i_fs k" "filled D ip s p r k k'"
  shows "fills N D ip xs s p k res"
  using assms unfolding fills_def by blast

lemma fills_later:
  assumes f: "fills N D ip ys s p k1 res" and sp: "s < 7" "0 \<le> p" "p < 256 ^ depth s" and y: "set ys \<subseteq> set xs" "i_fs k1 = i_fs k"
    and l: "\<And>t q. t < 7 \<Longrightarrow> 0 \<le> q \<Longrightarrow> q < 256 ^ depth t \<Longrightarrow> (t, q) \<noteq> (s, p) \<or> leaf (content D k) (i_addr (itab k ip)) s p \<noteq> 0 \<Longrightarrow>
       leaf (content D k1) (i_addr (itab k1 ip)) t q = leaf (content D k) (i_addr (itab k ip)) t q"
  shows "fills N D ip xs s p k res"
proof -
  obtain r k' xs' where r: "res = Some (Got r, k')" "file_ok N D ip xs' k'" "set xs' \<subseteq> set ys" "i_fs k' = i_fs k1" "filled D ip s p r k1 k'"
    using f unfolding fills_def by blast
  have "filled D ip s p r k k'" by (rule filled_later [OF r(5) sp l])
  then show ?thesis using fillsI [OF r(1,2)] r(3,4) y by simp
qed

text \<open>The whole way: \<open>n\<close> levels from the block at place \<open>p div 256 ^ n\<close> of level \<open>m\<close>.\<close>

lemma chain_fills:
  assumes "file_ok N D ip xs k" "s < 7" "m + n = depth s" "0 \<le> p" "p < 256 ^ depth s" "\<not> tape D"
    "node (content D k) (i_addr (itab k ip) ! s) m (p div 256 ^ n) \<noteq> 0"
  shows "fills N D ip xs s p k (bmap_chain ramstrategy tape ip False n (8 * n) p (node (content D k) (i_addr (itab k ip) ! s) m (p div 256 ^ n)) ra k)"
  using assms
proof (induction n arbitrary: m ra k xs)
  case 0
  note fo = "0.prems"(1)
  note t = touches_cache [OF touches_refl [OF file_okD(6) [OF fo]] rablock_cache [of k ra]]
  have "file_ok N D ip xs (k\<lparr>rablock := ra\<rparr>)" by (rule file_ok_touches [OF fo t same_fs_rablock])
  moreover have "leaf (content D k) (i_addr (itab k ip)) s p \<noteq> 0" using 0(3,7) by (simp add: leaf_def)
  then have "filled D ip s p (leaf (content D k) (i_addr (itab k ip)) s p) k (k\<lparr>rablock := ra\<rparr>)"
    unfolding filled_def Let_def same_cache_cong(4) [OF rablock_cache] by simp
  ultimately show ?case using "0.prems"(3) by (intro fillsI [where xs' = xs]) (simp_all add: leaf_def)
next
  case (Suc n)
  note fo = Suc.prems(1) and sp = Suc.prems(2,4,5)
  note f = file_okD [OF fo]
  let ?C = "content D k" and ?a = "i_addr (itab k ip)" and ?q = "p div 256 ^ n"
  let ?nb = "node ?C (?a ! s) m (p div 256 ^ Suc n)" and ?e = "node ?C (?a ! s) (Suc m) ?q"
  have pb: "p < 256 ^ (Suc m + n)" using Suc.prems(3,5) by simp
  have q: "?q div 256 = p div 256 ^ Suc n" by (simp add: zdiv_zmult2_eq [symmetric] mult.commute)
  have pl: "place_in k D ip s m ?q ?nb"
    using prefix_bounds [OF Suc.prems(4) pb] Suc.prems(2,3,7) unfolding place_in_def q by simp
  note nb = place_block [OF fo pl]
  show ?case
  proof (cases "?e = 0")
    case False
    obtain i k1 where k1: "bread ramstrategy D ?nb k = Some (Got (Buf i), k1)" "get_data k1 (Buf i) = ?C ?nb"
      "\<not> has_b k1 (Buf i) B_ERROR" "b_resid (bufs k1 (Buf i)) = 0" "bio.more k1 = bio.more k"
      and rel: "\<And>k2. same_cache k1 k2 \<Longrightarrow> \<exists>k3. brelse (Buf i) k2 = Some k3 \<and> touches N D {} k k3 \<and> bio.more k3 = bio.more k2"
      by (rule read_step [OF f(6,7,8) nb(3)]) blast
    obtain k3 where k3: "brelse (Buf i) k1 = Some k3" "touches N D {} k k3" "bio.more k3 = bio.more k" using rel [OF same_cache_refl] k1(5) by auto
    note m3 = bmore_ink [OF k3(3)]
    define ix where "ix = nat (?q mod 256)"
    define ra1 where "ra1 = (if int ix < NINDIR - 1 then get_daddr (Buf i) (Suc ix) k1 else ra)"
    have e: "get_daddr (Buf i) ix k1 = ?e" using nb(6) by (simp add: get_daddr_def k1(2) ix_def)
    have run: "bmap_chain ramstrategy tape ip False (Suc n) (8 * Suc n) p ?nb ra k = bmap_chain ramstrategy tape ip False n (8 * n) p ?e ra1 k3"
      using k1(1,3,4) k3(1) f(4) False by (simp add: and_then_def Let_def index_eq ix_def [symmetric] e ra1_def del: node.simps)
    have sf: "same_fs k k3" using m3 by (simp add: same_fs_def)
    have fo3: "file_ok N D ip xs k3" by (rule file_ok_touches [OF fo k3(2) sf])
    have ct: "\<forall>b. usable (fss k (i_fs k ip)) k b \<and> b \<notin> set xs \<longrightarrow> content D k3 b = ?C b"
      using touches_content [OF k3(2)] by (simp add: usable_def)
    have e3: "node (content D k3) (?a ! s) (Suc m) ?q = ?e"
      using node_cong [OF file_nodes [OF fo] ct, of s "Suc m" ?q] Suc.prems(2,3) prefix_bounds [OF Suc.prems(4) pb] by (simp del: node.simps power_Suc)
    have "fills N D ip xs s p k3 (bmap_chain ramstrategy tape ip False n (8 * n) p ?e ra1 k3)"
      using Suc.IH [OF fo3, of "Suc m" ra1] Suc.prems(2-6) False e3 m3 by (simp del: node.simps)
    then show ?thesis unfolding run
      by (rule fills_later [OF _ sp order.refl m3(2)]) (simp add: m3 leaf_cong [OF file_nodes [OF fo] ct])
  next
    case True
    show ?thesis
    proof (cases xs)
      case Nil
      obtain i k1 k2 k3 where k: "bread ramstrategy D ?nb k = Some (Got (Buf i), k1)" "\<not> has_b k1 (Buf i) B_ERROR" "b_resid (bufs k1 (Buf i)) = 0"
        "get_daddr (Buf i) (nat (?q mod 256)) k1 = 0" "itab k1 = itab k" "i_fs k1 = i_fs k"
        "new_block ramstrategy tape ip True (0 < n \<or> is_dir (itab k ip)) k1 = Some (Got None, k2)" "brelse (Buf i) k2 = Some k3"
        "file_ok N D ip [] k3" "itab k3 = itab k" "i_fs k3 = i_fs k" "u_error (u k3) = ENOSPC" "content D k3 = content D k"
        by (rule fill_fail [OF fo [unfolded Nil] pl True]) blast
      have "bmap_chain ramstrategy tape ip False (Suc n) (8 * Suc n) p ?nb ra k = Some (Got (- 1), k3)"
        using k f(4) by (simp add: and_then_def Let_def index_eq del: node.simps)
      moreover have "Suc m + n = depth s" using Suc.prems(3) by simp
      with node_zero [OF True] have "leaf ?C ?a s p = 0" by (simp only: leaf_def)
      then have "filled D ip s p (- 1) k k3" unfolding filled_def Let_def k(10,13) by (simp add: k(12))
      ultimately show ?thesis using fillsI k(9,11) Nil by blast
    next
      case (Cons x ys)
      obtain i k1 k2 k3 where k: "bread ramstrategy D ?nb k = Some (Got (Buf i), k1)" "\<not> has_b k1 (Buf i) B_ERROR" "b_resid (bufs k1 (Buf i)) = 0"
        "get_daddr (Buf i) (nat (?q mod 256)) k1 = 0" "itab k1 = itab k" "i_fs k1 = i_fs k"
        "new_block ramstrategy tape ip True (0 < n \<or> is_dir (itab k ip)) k1 = Some (Got (Some x), k2)"
        "bdwrite ramstrategy tape (Buf i) (put_daddr (Buf i) (nat (?q mod 256)) x k2) = Some (Got (Buf i), k3)"
        "file_ok N D ip ys k3" "itab k3 = itab k" "i_fs k3 = i_fs k"
        "grow (usable (fss k (i_fs k ip)) k) (set (x # ys)) s (Suc m) ?q x (content D k) (i_addr (itab k ip)) (content D k3) (i_addr (itab k ip))"
        by (rule fill_step [where tape = tape, OF fo [unfolded Cons] pl Suc.prems(6) True]) blast
      note g = growD [OF k(12)]
      define ra1 where "ra1 = (if int (nat (?q mod 256)) < NINDIR - 1 then get_daddr (Buf i) (Suc (nat (?q mod 256))) k1 else ra)"
      define ix where "ix = nat (?q mod 256)"
      have run: "bmap_chain ramstrategy tape ip False (Suc n) (8 * Suc n) p ?nb ra k = bmap_chain ramstrategy tape ip False n (8 * n) p x ra1 k3"
        using k f(4) unfolding ra1_def ix_def [symmetric] by (simp add: and_then_def Let_def index_eq ix_def [symmetric] del: node.simps)
      have x3: "node (content D k3) (?a ! s) (Suc m) ?q = x" using node_grow [OF k(12) g(2-5)] by (simp only: if_True simp_thms)
      have rest: "fills N D ip ys s p k3 (bmap_chain ramstrategy tape ip False n (8 * n) p x ra1 k3)"
        using Suc.IH [OF k(9), of "Suc m" ra1] Suc.prems(2-6) g(7) x3 k(10) by (simp del: node.simps)
      have lf: "leaf (content D k3) (i_addr (itab k3 ip)) t l = leaf ?C ?a t l"
        if "t < 7" "0 \<le> l" "l < 256 ^ depth t" "(t, l) \<noteq> (s, p) \<or> leaf ?C ?a s p \<noteq> 0" for t l
      proof -
        have sn: "Suc m + n = depth s" using Suc.prems(3) by simp
        with node_zero [OF True] have "leaf ?C ?a s p = 0" by (simp only: leaf_def)
        then have n: "(t, l) \<noteq> (s, p)" using that(4) by simp
        have "\<not> (t = s \<and> Suc m = depth s \<and> l = ?q)"
        proof
          assume e: "t = s \<and> Suc m = depth s \<and> l = ?q"
          then have "n = 0" using sn by linarith
          then show False using e n by simp
        qed
        then show ?thesis using leaf_grow [OF k(12) that(1-3)] k(10) by (simp only: if_False)
      qed
      show ?thesis unfolding run by (rule fills_later [OF rest sp _ k(11) lf]) (auto simp: Cons)
    qed
  qed
qed

section \<open>From the inode\<close>

lemma set_addr_simps [simp]:
  "itab (set_addr ip i b k) ip = (itab k ip)\<lparr>i_addr := (i_addr (itab k ip))[i := b], i_flag := set_flag (or IUPD ICHG) (i_flag (itab k ip))\<rparr>"
  "i_fs (set_addr ip i b k) = i_fs k" "fss (set_addr ip i b k) = fss k" "a_flock (set_addr ip i b k) = a_flock k" "ram_size (set_addr ip i b k) = ram_size k"
  by (simp_all add: set_addr_def upd_ino_def)

lemma set_addr_cache: "same_cache k (set_addr ip i b k)"
  by (simp add: same_cache_def same_mem_def set_addr_def upd_ino_def sys_ok_def sched_ok_def queues_def sleepers_ok_def)

lemma fs_ok_same_cache:
  assumes o: "fs_ok N D f xs k" and s: "same_cache k k'" "fss k' = fss k" "a_flock k' = a_flock k"
  shows "fs_ok N D f xs k'"
proof -
  note q = same_cache_cong [OF s(1)]
  have "ram_size k' = ram_size k" using s(1) by (simp add: same_cache_def same_mem_def)
  then have "usable (fss k' f) k' = usable (fss k f) k" by (intro usable_cong) (simp_all add: s)
  then show ?thesis using o unfolding fs_ok_def by (simp add: q s)
qed

lemma root_fill:
  assumes fo: "file_ok N D ip (x # xs) k" and s: "s < 7" "clr \<or> depth s = 0" and hole: "i_addr (itab k ip) ! s = 0" and t: "\<not> tape D"
  obtains k2 k3 where "new_block ramstrategy tape ip clr sync k = Some (Got (Some x), k2)" "k3 = set_addr ip s x k2" "file_ok N D ip xs k3"
    "i_fs k3 = i_fs k" "i_addr (itab k3 ip) = (i_addr (itab k ip))[s := x]"
    "grow (usable (fss k (i_fs k ip)) k) (set (x # xs)) s 0 0 x (content D k) (i_addr (itab k ip)) (content D k3) (i_addr (itab k3 ip))"
proof -
  note f = file_okD [OF fo]
  note d = fs_okD [OF f(1)]
  let ?us = "usable (fss k (i_fs k ip)) k"
  obtain k2 where k2: "new_block ramstrategy tape ip clr sync k = Some (Got (Some x), k2)" "fs_ok N D (i_fs k ip) xs k2"
    "\<forall>j. busy k2 j = busy k j" "clr \<longrightarrow> content D k2 x = replicate 512 0"
    "\<forall>b. on_disk k b \<longrightarrow> b \<noteq> x \<longrightarrow> b \<noteq> SUPERB \<longrightarrow> content D k2 b = content D k b"
    "usable (fss k2 (i_fs k ip)) k2 = ?us" "itab k2 = itab k" "i_fs k2 = i_fs k"
    using new_block_some [where tape = tape, OF f(1,7,4) t, where clr = clr and sync = sync] by (metis (no_types, lifting))
  define k3 where "k3 = set_addr ip s x k2"
  have sc: "same_cache k2 k3" by (simp add: k3_def set_addr_cache)
  note q = same_cache_cong [OF sc]
  have x: "?us x" "x \<notin> set xs" "x \<noteq> 0" using d(8) [of x] d(9) by (auto simp: usable_def)
  have a: "i_addr (itab k3 ip) = (i_addr (itab k ip))[s := x]" "i_dev (itab k3 ip) = D" using k2(7) f(4) by (simp_all add: k3_def)
  have len: "length (i_addr (itab k ip)) = 7" using tree_okD(1) [OF f(5)] .
  have gr: "grow ?us (set (x # xs)) s 0 0 x (content D k) (i_addr (itab k ip)) (content D k3) (i_addr (itab k3 ip))"
    unfolding grow_def q(4) a
    using f(5) s x hole k2(4,5) by (auto simp: usable_def)
  have us3: "usable (fss k3 (i_fs k3 ip)) k3 = ?us"
    using k2(6,8) usable_cong [of "fss k3 (i_fs k3 ip)" "fss k2 (i_fs k ip)" k3 k2] by (simp add: k3_def)
  have o3: "fs_ok N D (i_fs k ip) xs k3" by (rule fs_ok_same_cache [OF k2(2) sc]) (simp_all add: k3_def)
  have "idle N D k3" using f(2) k2(3) q(6) fs_okD(1) [OF o3] by (simp add: idle_def)
  moreover have "set (x # xs) - {x} = set xs" using x(2) by simp
  ultimately have "file_ok N D ip xs k3"
    unfolding file_ok_def us3 using tree_grow [OF gr] o3 f(3) a(2) k2(8) by (simp add: k3_def)
  then show thesis using that [OF k2(1) k3_def _ _ a(1) gr] k2(8) by (simp add: k3_def)
qed

text \<open>A root that is set leaves every other block of the file where it was.\<close>

lemma root_leaf:
  assumes g: "grow ok F s 0 0 x C addr C' addr'" and d: "t < 7" "0 \<le> q" "q < 256 ^ depth t" "t \<noteq> s \<or> depth s \<noteq> 0"
  shows "leaf C' addr' t q = leaf C addr t q"
  using leaf_grow [OF g d(1-3)] d(4) by auto

lemma filled_none:
  assumes "itab k' = itab k" "content D k' = content D k" "leaf (content D k) (i_addr (itab k ip)) s p = 0" "u_error (u k') = ENOSPC"
  shows "filled D ip s p (- 1) k k'"
  using assms by (simp add: filled_def)

lemma root_fail:
  assumes fo: "file_ok N D ip [] k"
  obtains k' where "new_block ramstrategy tape ip clr sync k = Some (Got None, k')" "file_ok N D ip [] k'" "i_fs k' = i_fs k"
    "itab k' = itab k" "content D k' = content D k" "u_error (u k') = ENOSPC"
proof -
  note f = file_okD [OF fo]
  obtain k' where k': "new_block ramstrategy tape ip clr sync k = Some (Got None, k')" "fs_ok N D (i_fs k ip) [] k'"
    "cells k' = cells k" "content D k' = content D k" "u_error (u k') = ENOSPC"
    "usable (fss k' (i_fs k ip)) k' = usable (fss k (i_fs k ip)) k" "itab k' = itab k" "i_fs k' = i_fs k"
    using new_block_none [OF f(1,4), where tape = tape and clr = clr and sync = sync] by metis
  have "idle N D k'" using f(2) fs_okD(1) [OF k'(2)] k'(3) by (simp add: idle_def busy_def)
  then have "file_ok N D ip [] k'" by (rule file_ok_same [OF fo k'(2) _ k'(7,8,6)]) (simp add: k'(4))
  then show thesis using that k' by blast
qed

end
