(* ===== verification/BmapProps.thy ===== *)
theory BmapProps imports BmapFill begin

text \<open>
  Properties of bmap: reading finds the block of the tree and changes nothing, writing fills a hole and nothing else.
\<close>

section \<open>The writing half\<close>

lemma fills_rablock:
  assumes fo: "file_ok N D ip xs k" and f: "fills N D ip xs s p (k\<lparr>rablock := r\<rparr>) res"
    and sp: "s < 7" "0 \<le> p" "p < 256 ^ depth s"
  shows "fills N D ip xs s p k res"
  by (rule fills_later [OF f sp]) (simp_all add: same_cache_cong(4) [OF rablock_cache])

lemma file_ok_rablock: "file_ok N D ip xs k \<Longrightarrow> file_ok N D ip xs (k\<lparr>rablock := r\<rparr>)"
  using file_ok_touches [OF _ touches_cache [OF touches_refl [OF file_okD(6)] rablock_cache] same_fs_rablock] by blast

lemma filled_rablock: "filled D ip s p r k (k'\<lparr>rablock := a\<rparr>) = filled D ip s p r k k'"
  by (simp add: filled_def same_cache_cong(4) [OF rablock_cache])

lemma bmap_direct_fills:
  assumes fo: "file_ok N D ip xs k" and i: "i < 4" and t: "\<not> tape D"
  shows "fills N D ip xs i 0 k (bmap_direct ramstrategy tape ip i False clr k)"
proof -
  let ?ra = "\<lambda>k1. if i < NADDR - 4 then k1\<lparr>rablock := i_addr (itab k1 ip) ! Suc i\<rparr> else k1"
  have ra: "file_ok N D ip ys k1 \<Longrightarrow> file_ok N D ip ys (?ra k1)" "filled D ip i 0 r k (?ra k1) = filled D ip i 0 r k k1"
    "i_fs (?ra k1) = i_fs k1" for ys k1 r
    by (simp_all add: file_ok_rablock filled_rablock)
  have lf: "leaf C a i 0 = a ! i" for C a using i by (simp add: leaf_def)
  show ?thesis
  proof (cases "i_addr (itab k ip) ! i = 0")
    case False
    then have "bmap_direct ramstrategy tape ip i False clr k = Some (Got (i_addr (itab k ip) ! i), ?ra k)" by (simp add: bmap_direct_def Let_def)
    moreover have "filled D ip i 0 (i_addr (itab k ip) ! i) k k" using False lf by (simp add: filled_def)
    ultimately show ?thesis using fillsI [OF _ ra(1) [OF fo]] ra(2,3) by blast
  next
    case True
    show ?thesis
    proof (cases xs)
      case Nil
      obtain k' where k': "new_block ramstrategy tape ip clr (is_dir (itab k ip)) k = Some (Got None, k')" "file_ok N D ip [] k'" "i_fs k' = i_fs k"
        "itab k' = itab k" "content D k' = content D k" "u_error (u k') = ENOSPC" by (rule root_fail [OF fo [unfolded Nil]])
      have "bmap_direct ramstrategy tape ip i False clr k = Some (Got (- 1), k')" using True k'(1) by (simp add: bmap_direct_def Let_def and_then_def)
      moreover have "filled D ip i 0 (- 1) k k'" by (rule filled_none [OF k'(4,5) _ k'(6)]) (simp add: lf True)
      ultimately show ?thesis using fillsI k'(2,3) Nil by blast
    next
      case (Cons x ys)
      have s: "i < 7" "clr \<or> depth i = 0" using i by simp_all
      obtain k2 k3 where k3: "new_block ramstrategy tape ip clr (is_dir (itab k ip)) k = Some (Got (Some x), k2)" "k3 = set_addr ip i x k2"
        "file_ok N D ip ys k3" "i_fs k3 = i_fs k" "i_addr (itab k3 ip) = (i_addr (itab k ip))[i := x]"
        "grow (usable (fss k (i_fs k ip)) k) (set (x # ys)) i 0 0 x (content D k) (i_addr (itab k ip)) (content D k3) (i_addr (itab k3 ip))"
        using root_fill [where tape = tape, OF fo [unfolded Cons] s True t] by metis
      have run: "bmap_direct ramstrategy tape ip i False clr k = Some (Got x, ?ra k3)"
        using True k3(1,2) by (simp add: bmap_direct_def Let_def and_then_def)
      have "leaf (content D k3) (i_addr (itab k3 ip)) i 0 = x" using lf k3(5) tree_okD(1) [OF file_okD(5) [OF fo]] i by simp
      moreover have "leaf (content D k3) (i_addr (itab k3 ip)) a q = leaf (content D k) (i_addr (itab k ip)) a q"
        if "a < 7" "0 \<le> q" "q < 256 ^ depth a" "(a, q) \<noteq> (i, 0)" for a q
        using root_leaf [OF k3(6) that(1-3)] that i by (cases "a = i") auto
      ultimately have "filled D ip i 0 x k k3" using growD(7) [OF k3(6)] True lf by (simp add: filled_def)
      then have fl: "filled D ip i 0 x k (?ra k3)" by (simp only: ra(2))
      show ?thesis using fillsI [OF run ra(1) [OF k3(3)] _ _ fl] ra(3) k3(4) Cons by (metis set_subset_Cons)
    qed
  qed
qed

lemma bmap_indirect_fills:
  assumes fo: "file_ok N D ip xs k" and s: "s \<in> {4, 5, 6}" and p: "0 \<le> p" "p < 256 ^ depth s" and t: "\<not> tape D"
  shows "fills N D ip xs s p k (bmap_indirect ramstrategy tape ip (7 - s) (8 * depth s) p False k)"
proof -
  have n: "s < 7" "7 - (7 - s) = s" "4 - (7 - s) = depth s" "depth s \<noteq> 0" using s by auto
  have chain: "fills N D ip ys s p k1 (bmap_chain ramstrategy tape ip False (depth s) (8 * depth s) p (i_addr (itab k1 ip) ! s) 0 k1)"
    if "file_ok N D ip ys k1" "i_addr (itab k1 ip) ! s \<noteq> 0" for ys k1
    using chain_fills [OF that(1) n(1), of 0 "depth s" p tape 0] p t that(2) by simp
  show ?thesis
  proof (cases "i_addr (itab k ip) ! s = 0")
    case False
    then show ?thesis using chain [OF fo] n by (simp add: bmap_indirect_def Let_def)
  next
    case True
    show ?thesis
    proof (cases xs)
      case Nil
      obtain k' where k': "new_block ramstrategy tape ip True True k = Some (Got None, k')" "file_ok N D ip [] k'" "i_fs k' = i_fs k"
        "itab k' = itab k" "content D k' = content D k" "u_error (u k') = ENOSPC" by (rule root_fail [OF fo [unfolded Nil]])
      have "bmap_indirect ramstrategy tape ip (7 - s) (8 * depth s) p False k = Some (Got (- 1), k')"
        using True k'(1) n by (simp add: bmap_indirect_def Let_def and_then_def)
      moreover have "leaf (content D k) (i_addr (itab k ip)) s p = 0"
        using node_zero [of "content D k" "i_addr (itab k ip) ! s" 0 p "depth s"] True by (simp add: leaf_def)
      then have "filled D ip s p (- 1) k k'" by (rule filled_none [OF k'(4,5) _ k'(6)])
      ultimately show ?thesis using fillsI k'(2,3) Nil by blast
    next
      case (Cons x ys)
      have tt: "True \<or> depth s = 0" by simp
      obtain k2 k3 where k3: "new_block ramstrategy tape ip True True k = Some (Got (Some x), k2)" "k3 = set_addr ip s x k2"
        "file_ok N D ip ys k3" "i_fs k3 = i_fs k" "i_addr (itab k3 ip) = (i_addr (itab k ip))[s := x]"
        "grow (usable (fss k (i_fs k ip)) k) (set (x # ys)) s 0 0 x (content D k) (i_addr (itab k ip)) (content D k3) (i_addr (itab k3 ip))"
        using root_fill [where tape = tape, OF fo [unfolded Cons] n(1) tt True t] by metis
      have x: "i_addr (itab k3 ip) ! s = x" "x \<noteq> 0" using k3(5) tree_okD(1) [OF file_okD(5) [OF fo]] n(1) growD(7) [OF k3(6)] by simp_all
      have run: "bmap_indirect ramstrategy tape ip (7 - s) (8 * depth s) p False k =
          bmap_chain ramstrategy tape ip False (depth s) (8 * depth s) p (i_addr (itab k3 ip) ! s) 0 k3"
        using True k3(1,2) n unfolding x(1) by (simp add: bmap_indirect_def Let_def and_then_def)
      show ?thesis unfolding run
        by (rule fills_later [OF chain [OF k3(3)] n(1) p _ k3(4)]) (use x n(4) Cons root_leaf [OF k3(6)] in auto)
    qed
  qed
qed

lemma bmap_writing:
  assumes fo: "file_ok N D ip xs k" and bn: "0 \<le> bn" "bn < MAXBLK" and t: "\<not> tape D" and p: "place bn = (s, p)"
  shows "fills N D ip xs s p k (bmap ramstrategy tape ip bn False clr k)"
proof -
  note pl = place_ok [OF bn p]
  have fo1: "file_ok N D ip xs (k\<lparr>rablock := 0\<rparr>)" by (rule file_ok_rablock [OF fo])
  have "fills N D ip xs s p (k\<lparr>rablock := 0\<rparr>) (bmap ramstrategy tape ip bn False clr k)"
  proof (cases "bn < 4")
    case True
    then have s: "s = nat bn" "p = 0" "nat bn < 4" using p bn by (auto simp: place_def)
    show ?thesis using bmap_direct_fills [where tape = tape, OF fo1 s(3) t] True bn by (simp add: bmap_def s)
  next
    case False
    note lv = levels_place [of bn, unfolded p, simplified]
    have s: "s \<in> {4, 5, 6}" using lv(2) False bn by auto
    then have "bmap ramstrategy tape ip bn False clr k = bmap_indirect ramstrategy tape ip (7 - s) (8 * depth s) p False (k\<lparr>rablock := 0\<rparr>)"
      using False bn lv(1) by (auto simp: bmap_def Let_def)
    then show ?thesis using bmap_indirect_fills [where tape = tape, OF fo1 s pl(2,3) t] by simp
  qed
  then show ?thesis by (rule fills_rablock [OF fo _ pl])
qed

section \<open>A small file\<close>

text \<open>An empty file on the small file system.\<close>

definition demo_ino :: inode where
  "demo_ino = \<lparr>i_flag = 0, i_count = 1, i_dev = 0x300, i_shlockc = 0, i_exlockc = 0, i_number = 3, i_rdev = 0, i_mode = IFREG, i_nlink = 1,
     i_uid = 0, i_gid = 0, i_size = 0, i_atime = 0, i_mtime = 0, i_ctime = 0, i_addr = replicate 7 0\<rparr>"

definition demo_ink :: ink where
  "demo_ink = fsk.extend demo_fsk (ink.fields (\<lambda>_. demo_ino) (\<lambda>_. 0) 0)"

lemma fsk_extend [simp]:
  "bufs (fsk.extend k m) = bufs k" "bmem (fsk.extend k m) = bmem k" "ram (fsk.extend k m) = ram k"
  "ram_base (fsk.extend k m) = ram_base k" "ram_size (fsk.extend k m) = ram_size k" "u (fsk.extend k m) = u k"
  "sys_ok (fsk.extend k m) = sys_ok k" "fss (fsk.extend k m) = fss k" "a_flock (fsk.extend k m) = a_flock k"
  by (cases k; simp add: fsk.defs sys_ok_def sched_ok_def queues_def sleepers_ok_def)+

lemma fsk_extend_cells [simp]: "cells (fsk.extend k m) = cells k" "busy (fsk.extend k m) = busy k"
  by (simp_all add: cells_def busy_def fun_eq_iff)

lemma fsk_extend_idle [simp]: "idle N D (fsk.extend k m) = idle N D k" "content D (fsk.extend k m) = content D k"
  "on_disk (fsk.extend k m) = on_disk k" "none_busy_at N (fsk.extend k m) = none_busy_at N k"
proof -
  let ?k = "fsk.extend k m"
  have d: "disk ?k = disk k" "get_data ?k = get_data k" "in_disk ?k = in_disk k" "sizes_ok ?k = sizes_ok k"
    by (simp_all add: disk_def get_data_def in_disk_def sizes_ok_def fun_eq_iff split: baddr.split)
  then have cl: "clean ?k = clean k" by (simp add: clean_def fun_eq_iff)
  have "chains_ok N ?k = chains_ok N k" "free_ok N ?k = free_ok N k" by (simp_all add: chains_ok_def free_ok_def fun_eq_iff)
  moreover have "blocks_ok N D H ?k = blocks_ok N D H k" for H
    unfolding blocks_ok_def unique_def d(4) by (simp add: cell_ok_def Let_def cl d)
  ultimately show "idle N D ?k = idle N D k" unfolding idle_def cache_ok_def by simp
  show "content D ?k = content D k" unfolding content_def fun_eq_iff find_block_def d fsk_extend by simp
  show "on_disk ?k = on_disk k" "none_busy_at N ?k = none_busy_at N k" by (simp_all add: on_disk_def none_busy_at_def fun_eq_iff)
qed

lemma empty_tree: "length addr = 7 \<Longrightarrow> \<forall>b \<in> set addr. b = 0 \<Longrightarrow> tree_ok ok F C addr"
proof -
  assume a: "length addr = 7" "\<forall>b \<in> set addr. b = 0"
  have "node C (addr ! s) m p = 0" if "s < 7" for s m p
    using node_zero [of C "addr ! s" 0 p m] a that by simp
  then show ?thesis using a(1) by (simp add: tree_ok_def indirect_def)
qed

lemma demo_file: "file_ok 2 0x300 0 [21, 20] demo_ink"
proof -
  have i: "itab demo_ink = (\<lambda>_. demo_ino)" "i_fs demo_ink = (\<lambda>_. 0)" by (simp_all add: demo_ink_def ink.defs fsk.defs)
  have fs: "fs_ok 2 0x300 0 [21, 20] demo_fsk" and id: "idle 2 0x300 demo_fsk" using demo_fs_idle by (simp_all add: fs_idle_def)
  have u: "usable (fss demo_ink 0) demo_ink = usable (fss demo_fsk 0) demo_fsk"
    by (simp add: usable_def fun_eq_iff demo_ink_def)
  have "cache_ok 2 0x300 demo_ink" using id by (simp add: demo_ink_def idle_def [symmetric]) (metis fsk_extend_idle(1) idle_def)
  then have "fs_ok 2 0x300 0 [21, 20] demo_ink" using fs u unfolding fs_ok_def by (simp add: demo_ink_def)
  moreover have "tree_ok ok F C (i_addr demo_ino)" for ok F C by (rule empty_tree) (simp_all add: demo_ino_def)
  ultimately show ?thesis unfolding file_ok_def i using id by (simp add: demo_ink_def demo_ino_def)
qed

section \<open>Properties\<close>

text \<open>C30: Asked to read, bmap finds the block of a file by the tree of addresses in the inode and in the indirect blocks, as far down as the
  triple indirect block, answers -1 in a hole, and changes no block, no inode and no super block.\<close>

theorem bmap_reads:
  assumes "cache_ok N D k" "\<exists>i < N. \<not> busy k i" "i_dev (itab k ip) = D" "0 \<le> bn" "bn < MAXBLK"
    "nodes_ok (\<lambda>b. on_disk k b \<and> none_busy_at N k (fsbtodb b)) (content D k) (i_addr (itab k ip))"
  shows "\<exists>k'. bmap ramstrategy tape ip bn True clr k = Some (Got (answer (file_block (content D k) (i_addr (itab k ip)) bn)), k') \<and>
    cache_ok N D k' \<and> busy k' = busy k \<and> (\<forall>b. on_disk k b \<longrightarrow> content D k' b = content D k b) \<and> itab k' = itab k \<and> fss k' = fss k"
proof -
  obtain k' where "bmap ramstrategy tape ip bn True clr k = Some (Got (answer (file_block (content D k) (i_addr (itab k ip)) bn)), k')"
    "touches N D {} k k'" "same_fs k k'" using bmap_reading [where tape = tape and clr = clr, OF assms] .
  then show ?thesis by (auto simp: touches_def same_fs_def fun_eq_iff)
qed

theorem bmap_reads_witness:
  "\<exists>k'. bmap ramstrategy (\<lambda>_. False) 0 70000 True False demo_ink = Some (Got (- 1), k') \<and> itab k' = itab demo_ink"
proof -
  note f = file_okD [OF demo_file]
  have n: "nodes_ok (\<lambda>b. on_disk demo_ink b \<and> none_busy_at 2 demo_ink (fsbtodb b)) (content 0x300 demo_ink) (i_addr (itab demo_ink 0))"
    by (rule nodes_cong [OF file_nodes [OF demo_file]]) (use f(8) in \<open>auto simp: usable_def\<close>)
  have b: "(0 :: int) \<le> 70000" "(70000 :: int) < MAXBLK" by simp_all
  have "i_addr (itab demo_ink 0) = replicate 7 0" by (simp add: demo_ink_def ink.defs fsk.defs demo_ino_def)
  then have "answer (file_block (content 0x300 demo_ink) (i_addr (itab demo_ink 0)) 70000) = - 1"
    using node_zero [of "content 0x300 demo_ink" 0 0 4204 3] by (simp add: answer_def file_block_def place_def leaf_def)
  then show ?thesis using bmap_reads [OF f(6,7,4) b n, of "\<lambda>_. False" False] by auto
qed



text \<open>A block number that is negative or beyond the triple indirect block gives EFBIG and block 0, whether bmap reads or writes, and
  nothing else happens; every other number is below the limit.\<close>

lemma bmap_too_big:
  assumes "bn < 0 \<or> MAXBLK \<le> bn"
  shows "\<exists>k'. bmap strat tape ip bn reading clr k = Some (Got 0, k') \<and> u_error (u k') = EFBIG \<and> bufs k' = bufs k \<and> itab k' = itab k \<and>
    fss k' = fss k"
proof (cases "bn < 0")
  case True
  then show ?thesis by (simp add: bmap_def) (simp add: set_error_def upd_u_def)
next
  case False
  then have "fst (bmap_levels 3 0 1 (bn - 4)) = 0" "\<not> bn < 4" using levels_big assms by auto
  then obtain x where "bmap_levels 3 0 1 (bn - 4) = (0, x)" by (cases "bmap_levels 3 0 1 (bn - 4)") auto
  then show ?thesis using False \<open>\<not> bn < 4\<close> by (cases x) (simp add: bmap_def, simp add: set_error_def upd_u_def)
qed

lemma bmap_too_big_witness:
  "\<exists>k'. bmap ramstrategy (\<lambda>_. False) 0 16843012 True False demo_ink = Some (Got 0, k') \<and> u_error (u k') = EFBIG"
proof -
  have "(16843012 :: int) < 0 \<or> MAXBLK \<le> 16843012" by simp
  from bmap_too_big [OF this] show ?thesis by blast
qed

end
