(* ===== verification/Dinode.thy ===== *)
theory Dinode imports Bmap begin

text \<open>
  Inodes on the disk: struct dinode (inode.h), itod and itoo (fs.h), iupdat and the part of iget that reads an inode in
  (\<open>src/sys/sys/ufs_inode.c\<close>), and syncip with update's loop over the super blocks (ufs_subr.c). A disk inode is 32 words of a block: \<open>di_ic1\<close>, 40 bytes of
  addresses of which the first 21 hold seven addresses of three bytes, and \<open>di_ic2\<close>. The low byte of a word comes first, the
  high word of a long.

  \<open>i_rdev\<close> shares its place with the low word of \<open>i_addr[0]\<close>; here it is set from it when an inode is read, and the
  addresses are what is written.
\<close>

abbreviation (input) "INOPB \<equiv> 16 :: u_int"

definition itoo :: "u_int \<Rightarrow> nat" where
  "itoo x = unat ((x + 2 * INOPB - 1) mod INOPB)"

definition itod :: "u_int \<Rightarrow> int" where
  "itod x = uint ((x + 2 * INOPB - 1) div INOPB)"

section \<open>Bytes\<close>

fun word_bytes :: "u_int list \<Rightarrow> u_char list" where
  "word_bytes [] = []"
| "word_bytes (w # ws) = ucast w # ucast (drop_bit 8 w) # word_bytes ws"

fun byte_words :: "u_char list \<Rightarrow> u_int list" where
  "byte_words (a # b # bs) = char_pair a b # byte_words bs"
| "byte_words bs = []"

text \<open>The loops over the addresses: the high byte of the high word is left out, and is 0 when read.\<close>

definition addr_bytes :: "int \<Rightarrow> u_char list" where
  "addr_bytes b = (let w = word_of_int b :: 32 word in [ucast (drop_bit 16 w), ucast w, ucast (drop_bit 8 w)])"

definition bytes_addr :: "u_char list \<Rightarrow> nat \<Rightarrow> int" where
  "bytes_addr bs i = uint (words_long (ucast (bs ! (3 * i))) (char_pair (bs ! (3 * i + 1)) (bs ! (3 * i + 2))))"

definition put_addrs :: "int list \<Rightarrow> u_int list \<Rightarrow> u_int list" where
  "put_addrs as ws = byte_words (concat (map addr_bytes as) @ drop (3 * length as) (word_bytes ws))"

definition get_addrs :: "u_int list \<Rightarrow> int list" where
  "get_addrs ws = map (bytes_addr (word_bytes ws)) [0 ..< NADDR]"

section \<open>The disk inode\<close>

definition dinode_words :: "inode \<Rightarrow> u_int list \<Rightarrow> u_int list" where
  "dinode_words v old = [i_mode v, i_nlink v, word_of_int (i_uid v), word_of_int (i_gid v)] @ daddr_words (i_size v) @
     put_addrs (i_addr v) (take 20 (drop 6 old)) @ daddr_words (i_atime v) @ daddr_words (i_mtime v) @ daddr_words (i_ctime v)"

definition load_dinode :: "u_int list \<Rightarrow> inode \<Rightarrow> inode" where
  "load_dinode ws v = (let as = get_addrs (take 20 (drop 6 ws)) in
     v\<lparr>i_mode := ws ! 0, i_nlink := ws ! 1, i_uid := uint (ws ! 2), i_gid := uint (ws ! 3), i_size := daddr_at 4 ws,
       i_addr := as, i_rdev := word_of_int (as ! 0),
       i_atime := daddr_at 26 ws, i_mtime := daddr_at 28 ws, i_ctime := daddr_at 30 ws\<rparr>)"

definition get_dinode :: "u_int \<Rightarrow> u_int list \<Rightarrow> u_int list" where
  "get_dinode ino ws = take 32 (drop (32 * itoo ino) ws)"

definition put_dinode :: "inode \<Rightarrow> u_int list \<Rightarrow> u_int list" where
  "put_dinode v ws = (let o' = 32 * itoo (i_number v) in take o' ws @ dinode_words v (get_dinode (i_number v) ws) @ drop (o' + 32) ws)"

section \<open>iupdat\<close>

definition stamp :: "int \<Rightarrow> int \<Rightarrow> int \<Rightarrow> inode \<Rightarrow> inode" where
  "stamp ta tm now v =
     (let v1 = (if flag (i_flag v) IACC then v\<lparr>i_atime := ta\<rparr> else v);
          v2 = (if flag (i_flag v) IUPD then v1\<lparr>i_mtime := tm\<rparr> else v1);
          v3 = (if flag (i_flag v) ICHG then v2\<lparr>i_ctime := now\<rparr> else v2)
      in v3\<lparr>i_flag := clr_flag (or IUPD (or IACC (or ICHG IMOD))) (i_flag v3)\<rparr>)"

definition iupdat ::
  "(bref \<Rightarrow> 'a ink_scheme \<Rightarrow> 'a ink_scheme option) \<Rightarrow> (u_int \<Rightarrow> bool) \<Rightarrow> nat \<Rightarrow> int \<Rightarrow> int \<Rightarrow> bool \<Rightarrow> 'a ink_scheme \<Rightarrow>
   (unit bio_out \<times> 'a ink_scheme) option" where
  "iupdat strat tape ip ta tm waitfor k =
     (if \<not> flag (i_flag (itab k ip)) (or IUPD (or IACC (or ICHG IMOD))) then Some (Got (), k)
      else if fs_ronly (fss k (i_fs k ip)) \<noteq> 0 then Some (Got (), k)
      else and_then (bread strat (i_dev (itab k ip)) (itod (i_number (itab k ip))) k) (\<lambda>bp k1.
        if has_b k1 bp B_ERROR then map_option (\<lambda>k2. (Got (), k2)) (brelse bp k1)
        else
          let k2 = upd_ino ip (stamp ta tm (time_sec k1)) k1;
              k3 = put_data bp (put_dinode (itab k2 ip) (get_data k2 bp)) k2
          in and_then (if waitfor then bwrite strat bp k3 else bdwrite strat tape bp k3) (\<lambda>_ k4. Some (Got (), k4))))"

section \<open>syncip\<close>

text \<open>A small file: each of its blocks is looked up and, if it is in the cache and delayed, written.\<close>

fun sync_small ::
  "(bref \<Rightarrow> 'a ink_scheme \<Rightarrow> 'a ink_scheme option) \<Rightarrow> (u_int \<Rightarrow> bool) \<Rightarrow> nat \<Rightarrow> nat list \<Rightarrow> 'a ink_scheme \<Rightarrow> (unit bio_out \<times> 'a ink_scheme) option" where
  "sync_small strat tape ip [] k = Some (Got (), k)"
| "sync_small strat tape ip (lbn # ls) k =
     and_then (bmap strat tape ip (int lbn) True False k) (\<lambda>nb k1.
       and_then (blkflush strat (i_dev (itab k1 ip)) (fsbtodb nb) k1) (\<lambda>_ k2. sync_small strat tape ip ls k2))"

text \<open>A large file: all delayed buffers of its device are written, in the order of the buffer table.\<close>

fun sync_large ::
  "(bref \<Rightarrow> 'a ink_scheme \<Rightarrow> 'a ink_scheme option) \<Rightarrow> u_int \<Rightarrow> nat list \<Rightarrow> 'a ink_scheme \<Rightarrow> (unit bio_out \<times> 'a ink_scheme) option" where
  "sync_large strat dev [] k = Some (Got (), k)"
| "sync_large strat dev (i # is) k =
     (if b_dev (bufs k (Buf i)) \<noteq> dev \<or> \<not> has_b k (Buf i) B_DELWRI then sync_large strat dev is k
      else if has_b k (Buf i) B_BUSY then Some (Sleeps (a_buf k (Buf i)) (PRIBIO + 1), set_b B_WANTED (Buf i) k)
      else and_then (bwrite strat (Buf i) (notavail (Buf i) k)) (\<lambda>_ k1. sync_large strat dev is k1))"

definition syncip ::
  "(bref \<Rightarrow> 'a ink_scheme \<Rightarrow> 'a ink_scheme option) \<Rightarrow> (u_int \<Rightarrow> bool) \<Rightarrow> nat \<Rightarrow> nat \<Rightarrow> 'a ink_scheme \<Rightarrow> (unit bio_out \<times> 'a ink_scheme) option" where
  "syncip strat tape nbuf ip k =
     (let lastlbn = nat ((i_size (itab k ip) + 1023) div 1024) in
      and_then (if lastlbn < nbuf div 2 then sync_small strat tape ip [0 ..< lastlbn] k
                else sync_large strat (i_dev (itab k ip)) [0 ..< nbuf] k) (\<lambda>_ k1.
        iupdat strat tape ip (time_sec k1) (time_sec k1) True
          (upd_ino ip (\<lambda>v. v\<lparr>i_flag := set_flag ICHG (i_flag v)\<rparr>) k1)))"

section \<open>update\<close>

text \<open>The loop over the mount table. The panic for a file system that is mounted read-only and modified is \<open>None\<close>.\<close>

fun update_super ::
  "(bref \<Rightarrow> 'a fsk_scheme \<Rightarrow> 'a fsk_scheme option) \<Rightarrow> nat list \<Rightarrow> 'a fsk_scheme \<Rightarrow> (unit bio_out \<times> 'a fsk_scheme) option" where
  "update_super strat [] k = Some (Got (), k)"
| "update_super strat (f # fl) k =
     (let dev = m_dev (mounts k ! f) in
      if m_inodp (mounts k ! f) = None \<or> dev = NODEV \<or> fs_fmod (fss k f) = 0 then update_super strat fl k
      else if fs_ronly (fss k f) \<noteq> 0 then None
      else if fs_ilock (fss k f) \<noteq> 0 \<or> fs_flock (fss k f) \<noteq> 0 then update_super strat fl k
      else and_then (getblk strat dev SUPERB k) (\<lambda>bp k1.
        if has_b k1 bp B_ERROR then update_super strat fl k1
        else
          let k2 = upd_fs f (\<lambda>s. s\<lparr>fs_fmod := 0, fs_time := time_sec k1\<rparr>) k1 in
          and_then (bwrite strat bp (put_words bp (sb_words (fss k2 f)) k2)) (\<lambda>_ k3. update_super strat fl k3)))"

end
