(* ===== verification/DinodeSpec.thy ===== *)
theory DinodeSpec imports Dinode BmapFill begin

text \<open>
  A disk inode reads back as it was written, the others of its block stay; iupdat on the buffer cache.
\<close>

section \<open>Bytes and words\<close>

lemma char_pair_split: "char_pair (ucast w) (ucast (drop_bit 8 w)) = w"
  unfolding char_pair_def by (rule bit_word_eqI) (auto simp: bit_or_iff bit_push_bit_iff bit_ucast_iff bit_drop_bit_eq)

lemma char_pair_bytes: "ucast (char_pair a b) = a" "ucast (drop_bit 8 (char_pair a b)) = b"
  unfolding char_pair_def
  by (rule bit_word_eqI; auto simp: bit_or_iff bit_push_bit_iff bit_ucast_iff bit_drop_bit_eq dest: bit_imp_le_length)+

lemma byte_words_inv: "byte_words (word_bytes ws) = ws"
  by (induction ws) (simp_all add: char_pair_split)

lemma word_bytes_inv: "even (length bs) \<Longrightarrow> word_bytes (byte_words bs) = bs"
  by (induction bs rule: byte_words.induct) (simp_all add: char_pair_bytes)

lemma length_word_bytes [simp]: "length (word_bytes ws) = 2 * length ws"
  by (induction ws) simp_all

lemma length_byte_words [simp]: "length (byte_words bs) = length bs div 2"
  by (induction bs rule: byte_words.induct) simp_all

section \<open>Addresses of three bytes\<close>

lemma length_addr_bytes [simp]: "length (addr_bytes b) = 3"
  by (simp add: addr_bytes_def Let_def)

lemma length_concat_addrs [simp]: "length (concat (map addr_bytes as)) = 3 * length as"
  by (induction as) simp_all

lemma addr_bytes_nth:
  "j < 3 \<Longrightarrow> i < length as \<Longrightarrow> (concat (map addr_bytes as) @ bs) ! (3 * i + j) = addr_bytes (as ! i) ! j"
proof (induction as arbitrary: i)
  case (Cons a as)
  show ?case
  proof (cases i)
    case 0
    then show ?thesis using Cons.prems by (simp add: nth_append)
  next
    case (Suc m)
    have "(concat (map addr_bytes (a # as)) @ bs) ! (3 * i + j) = (concat (map addr_bytes as) @ bs) ! (3 * m + j)"
      using Suc by (simp add: nth_append)
    then show ?thesis using Cons Suc by simp
  qed
qed simp

lemma three_bytes:
  fixes w :: "32 word"
  assumes "take_bit 24 w = w"
  shows "words_long (ucast (ucast (drop_bit 16 w) :: u_char)) (char_pair (ucast w) (ucast (drop_bit 8 w))) = w"
proof -
  have h: "bit w n \<Longrightarrow> n < 24" for n using assms by (metis bit_take_bit_iff)
  show ?thesis
    unfolding words_long_def char_pair_def
    by (rule bit_word_eqI, rename_tac n, case_tac "16 \<le> n")
      (auto simp: bit_or_iff bit_push_bit_iff bit_ucast_iff bit_drop_bit_eq dest: h)
qed

lemma addr_roundtrip:
  assumes "i < length as" "0 \<le> as ! i" "as ! i < 2 ^ 24"
  shows "bytes_addr (concat (map addr_bytes as) @ bs) i = as ! i"
proof -
  let ?w = "word_of_int (as ! i) :: 32 word"
  have u: "uint ?w = as ! i" using assms(2,3) by (simp add: unsigned_of_int take_bit_int_eq_self)
  have "take_bit 24 ?w = ?w" using assms(2,3) by (simp add: take_bit_of_int take_bit_int_eq_self)
  from three_bytes [OF this] show ?thesis
    using addr_bytes_nth [OF _ assms(1), of 0 bs] addr_bytes_nth [OF _ assms(1), of 1 bs] addr_bytes_nth [OF _ assms(1), of 2 bs] u
    by (simp add: bytes_addr_def addr_bytes_def Let_def)
qed

lemma length_put_addrs: "length as = 7 \<Longrightarrow> length ws = 20 \<Longrightarrow> length (put_addrs as ws) = 20"
  by (simp add: put_addrs_def)

lemma addrs_roundtrip:
  assumes "length as = 7" "length ws = 20" "\<forall>a \<in> set as. 0 \<le> a \<and> a < 2 ^ 24"
  shows "get_addrs (put_addrs as ws) = as"
proof -
  have "bytes_addr (word_bytes (put_addrs as ws)) i = as ! i" if "i < 7" for i
    using addr_roundtrip [of i as] that assms by (simp add: put_addrs_def word_bytes_inv)
  then show ?thesis using assms(1) by (simp add: get_addrs_def list_eq_iff_nth_eq)
qed

section \<open>The disk inode\<close>

text \<open>The inodes that fit into the fields of the disk.\<close>

definition fits :: "inode \<Rightarrow> bool" where
  "fits v \<longleftrightarrow> length (i_addr v) = 7 \<and> (\<forall>a \<in> set (i_addr v). 0 \<le> a \<and> a < 2 ^ 24) \<and> 0 \<le> i_uid v \<and> i_uid v < 2 ^ 16 \<and>
     0 \<le> i_gid v \<and> i_gid v < 2 ^ 16 \<and> int32 (i_size v) \<and> int32 (i_atime v) \<and> int32 (i_mtime v) \<and> int32 (i_ctime v)"

text \<open>An inode with what is on the disk of another.\<close>

definition with_disk :: "inode \<Rightarrow> inode \<Rightarrow> inode" where
  "with_disk v v' = v'\<lparr>i_mode := i_mode v, i_nlink := i_nlink v, i_uid := i_uid v, i_gid := i_gid v, i_size := i_size v,
     i_addr := i_addr v, i_rdev := word_of_int (i_addr v ! 0), i_atime := i_atime v, i_mtime := i_mtime v, i_ctime := i_ctime v\<rparr>"

lemma daddr_at_mid: "length ws = n \<Longrightarrow> int32 b \<Longrightarrow> daddr_at n (ws @ daddr_words b @ xs) = b"
  using daddr_roundtrip [of b] by (auto simp: daddr_at_def daddr_words_def long_words_def nth_append)

lemma length_dinode: "fits v \<Longrightarrow> length old = 32 \<Longrightarrow> length (dinode_words v old) = 32"
  by (simp add: dinode_words_def length_put_addrs fits_def)

lemma dinode_roundtrip:
  assumes v: "fits v" and o: "length old = 32"
  shows "load_dinode (dinode_words v old) v' = with_disk v v'"
proof -
  let ?h = "[i_mode v, i_nlink v, word_of_int (i_uid v), word_of_int (i_gid v)]" and ?p = "put_addrs (i_addr v) (take 20 (drop 6 old))"
  let ?ws = "dinode_words v old"
  have lp: "length ?p = 20" using v o by (intro length_put_addrs) (simp_all add: fits_def)
  have w: "?ws = ?h @ daddr_words (i_size v) @ ?p @ daddr_words (i_atime v) @ daddr_words (i_mtime v) @ daddr_words (i_ctime v)"
    by (simp add: dinode_words_def)
  have "daddr_at 4 ?ws = i_size v" unfolding w by (rule daddr_at_mid) (use v in \<open>simp_all add: fits_def\<close>)
  moreover have "daddr_at 26 ((?h @ daddr_words (i_size v) @ ?p) @ daddr_words (i_atime v) @ daddr_words (i_mtime v) @ daddr_words (i_ctime v)) = i_atime v"
    by (rule daddr_at_mid) (use v lp in \<open>simp_all add: fits_def\<close>)
  moreover have "daddr_at 28 ((?h @ daddr_words (i_size v) @ ?p @ daddr_words (i_atime v)) @ daddr_words (i_mtime v) @ daddr_words (i_ctime v)) = i_mtime v"
    by (rule daddr_at_mid) (use v lp in \<open>simp_all add: fits_def\<close>)
  moreover have "daddr_at 30 ((?h @ daddr_words (i_size v) @ ?p @ daddr_words (i_atime v) @ daddr_words (i_mtime v)) @ daddr_words (i_ctime v) @ []) = i_ctime v"
    by (rule daddr_at_mid) (use v lp in \<open>simp_all add: fits_def\<close>)
  moreover have "take 20 (drop 6 ?ws) = ?p" unfolding w using lp by simp
  moreover have "get_addrs ?p = i_addr v" using v o by (intro addrs_roundtrip) (simp_all add: fits_def)
  moreover have "?ws ! 0 = i_mode v" "?ws ! 1 = i_nlink v" "uint (?ws ! 2) = i_uid v" "uint (?ws ! 3) = i_gid v"
    using v by (simp_all add: w fits_def unsigned_of_int take_bit_int_eq_self)
  ultimately show ?thesis by (simp add: load_dinode_def with_disk_def Let_def w)
qed

lemma itoo_less: "itoo x < 16"
proof -
  have "(x + 2 * INOPB - 1) mod INOPB < 16" by (rule word_mod_less_divisor) simp
  then show ?thesis by (simp add: itoo_def word_less_nat_alt)
qed

text \<open>Two inodes have the same place only if they are the same.\<close>

lemma ino_place: "itod x = itod y \<Longrightarrow> itoo x = itoo y \<Longrightarrow> x = y"
proof -
  assume a: "itod x = itod y" "itoo x = itoo y"
  let ?f = "\<lambda>z :: u_int. z + 2 * INOPB - 1"
  have "?f x div INOPB = ?f y div INOPB" using a(1) unfolding itod_def by (rule word_uint_eqI)
  moreover have "?f x mod INOPB = ?f y mod INOPB" using a(2) unfolding itoo_def by (rule unsigned_word_eqI)
  ultimately have "?f x = ?f y" by (metis word_mod_div_equality)
  then show ?thesis by simp
qed

lemma put_dinode_get:
  assumes v: "fits v" and ws: "length ws = 512"
  shows "get_dinode ino (put_dinode v ws) = (if itoo ino = itoo (i_number v) then dinode_words v (get_dinode (i_number v) ws) else get_dinode ino ws)"
    "length (put_dinode v ws) = 512"
proof -
  let ?o = "itoo (i_number v)" and ?d = "dinode_words v (get_dinode (i_number v) ws)"
  have o: "?o < 16" "itoo ino < 16" by (rule itoo_less)+
  have lg: "length (get_dinode (i_number v) ws) = 32" using ws o by (simp add: get_dinode_def)
  have ld: "length ?d = 32" by (rule length_dinode [OF v lg])
  show "length (put_dinode v ws) = 512" using ld ws o by (simp add: put_dinode_def Let_def)
  have p: "put_dinode v ws = take (32 * ?o) ws @ ?d @ drop (32 * ?o + 32) ws" by (simp add: put_dinode_def Let_def)
  consider "itoo ino < ?o" | "itoo ino = ?o" | "?o < itoo ino" by linarith
  then show "get_dinode ino (put_dinode v ws) = (if itoo ino = ?o then ?d else get_dinode ino ws)"
  proof cases
    case 1
    then have "32 * itoo ino + 32 \<le> 32 * ?o" "32 \<le> 32 * ?o - 32 * itoo ino" by simp_all
    then show ?thesis using 1 ws o ld unfolding p get_dinode_def by (simp add: min_def drop_take)
  next
    case 2
    then show ?thesis using ws o ld unfolding p by (simp add: get_dinode_def)
  next
    case 3
    then have "32 * ?o + 32 \<le> 32 * itoo ino" by simp
    then have "32 * itoo ino - 32 * ?o - 32 + (32 * ?o + 32) = 32 * itoo ino" by simp
    then show ?thesis using 3 ws o ld unfolding p get_dinode_def by (simp add: add.commute)
  qed
qed

section \<open>Changing a block through the cache\<close>

lemma modify_step:
  assumes c: "cache_ok N D k" and f: "\<exists>i < N. \<not> busy k i" and nb: "none_busy_at N k (fsbtodb b)" and b: "on_disk k b" and t: "\<not> tape D"
  obtains i k1 where "bread ramstrategy D b k = Some (Got (Buf i), k1)" "get_data k1 (Buf i) = content D k b"
    "length (get_data k1 (Buf i)) = 512" "\<not> has_b k1 (Buf i) B_ERROR" "bio.more k1 = bio.more k"
    "\<And>ws k2. length ws = 512 \<Longrightarrow> same_cache (put_data (Buf i) ws k1) k2 \<Longrightarrow>
       \<exists>k3. (if w then bwrite ramstrategy (Buf i) k2 else bdwrite ramstrategy tape (Buf i) k2) = Some (Got (Buf i), k3) \<and>
         touches N D {b} k k3 \<and> content D k3 b = ws \<and> bio.more k3 = bio.more k2"
proof -
  obtain i k1 where k1: "bread ramstrategy D b k = Some (Got (Buf i), k1)" "cache_ok N D k1" "gets N (fsbtodb b) i k k1"
    "full (cells k1 (Buf i))" "get_data k1 (Buf i) = content_at N k (fsbtodb b)"
    using bread_ok [OF c f nb on_disk_fsbtodb(2) [OF b]] by metis
  have i: "i < N" "busy k1 i" "\<And>j. busy k1 j = (j = i \<or> busy k j)" "live (cells k1 (Buf i))" "\<not> busy k i"
    "b_blkno (cells k1 (Buf i)) = fsbtodb b" "\<And>j. busy k j \<Longrightarrow> cells k1 (Buf j) = cells k (Buf j)" "ram_size k1 = ram_size k"
    "u_error (u k1) = u_error (u k)" "\<And>j. busy k j \<Longrightarrow> bmem k1 j = bmem k j"
    using k1(3) by (simp_all add: gets_def)
  have dk: "in_disk k1 (b_blkno (cells k1 (Buf i)))" using on_disk_fsbtodb(2) [OF b] i by (simp add: in_disk_def)
  obtain H F where h: "cell_ok D H k1 i" "sizes_ok k1" using cache_okD [OF k1(2)] i(1) by metis
  have ne: "\<not> flag (b_flags (cells k1 (Buf i))) B_ERROR" using k1(4) by (simp add: full_def)
  have wr: "\<exists>k3. (if w then bwrite ramstrategy (Buf i) k2 else bdwrite ramstrategy tape (Buf i) k2) = Some (Got (Buf i), k3) \<and>
      touches N D {b} k k3 \<and> content D k3 b = ws \<and> bio.more k3 = bio.more k2"
    if ws: "length ws = 512" and s: "same_cache (put_data (Buf i) ws k1) k2" for ws k2
  proof -
    note p = put_data_ok [OF k1(2) i(1,2,4) dk ws]
    note sc = same_cache_cong [OF s]
    have c2: "cells k2 = cells k1" "busy k2 j = busy k1 j" for j using p(2) sc(1) by (simp_all add: busy_def)
    have rs: "ram_size k2 = ram_size k" "u_error (u k2) = u_error (u k)"
      using s p(4,5) i(8,9) by (simp_all add: same_cache_def same_mem_def)
    have dk2: "in_disk k2 (b_blkno (cells k2 (Buf i)))" using on_disk_fsbtodb(2) [OF b] i(6) rs c2 by (simp add: in_disk_def)
    have l2: "live (cells k2 (Buf i))" "busy k2 i" "cache_ok N D k2" "\<not> flag (b_flags (cells k2 (Buf i))) B_ERROR"
      using i(2,4) c2 p(1) sc(2) ne by simp_all
    define wr where "wr = (if w then bwrite ramstrategy (Buf i) k2 else bdwrite ramstrategy tape (Buf i) k2)"
    have "\<exists>k3. wr = Some (Got (Buf i), k3) \<and> cache_ok N D k3 \<and> beside i k2 k3 \<and> \<not> busy k3 i \<and>
      (\<forall>n. even n \<longrightarrow> content_at N k3 n = (if n = b_blkno (cells k2 (Buf i)) then get_data k2 (Buf i) else content_at N k2 n))"
      unfolding wr_def using bwrite_ok [OF l2(3) i(1) l2(2,1) dk2] bdwrite_ok [OF l2(3) i(1) l2(2,1) dk2 l2(4), of tape] t
      by (metis (no_types, lifting))
    then obtain k3 where k3: "wr = Some (Got (Buf i), k3)" "cache_ok N D k3" "beside i k2 k3" "\<not> busy k3 i"
      "\<And>n. even n \<Longrightarrow> content_at N k3 n = (if n = b_blkno (cells k2 (Buf i)) then get_data k2 (Buf i) else content_at N k2 n)" by blast
    have m: "bio.more k3 = bio.more k2" using k3(1) bwrite_bmore bdwrite_bmore unfolding wr_def by (metis (full_types))
    have ct: "content D k3 x = (if fsbtodb x = fsbtodb b then ws else content D k x)" for x
      unfolding content_cache [OF k3(2)] content_cache [OF c] k3(5) [OF fsbtodb_even] c2(1) sc(3,5)
      using p(3) p(6) [OF fsbtodb_even, of x] k1(3) fsbtodb_even i(6) by (simp add: gets_def)
    have "busy k3 j = busy k j" for j
      using k3(3,4) i(3,5) c2 by (cases "j = i") (simp_all add: busy_def beside_def)
    moreover have "cells k3 (Buf j) = cells k (Buf j)" if "busy k j" for j
      using k3(3) i(5,7) that c2(1) by (cases "j = i") (simp_all add: beside_def)
    moreover have "content D k3 x = content D k x" if "on_disk k x" "x \<noteq> b" for x
      using ct on_disk_fsbtodb(1) [OF that(1)] on_disk_fsbtodb(1) [OF b] that(2) by simp
    moreover have "bmem k3 j = bmem k j" if "busy k j" for j
      using k3(3) s i(5,10) put_data_bmem [OF k1(2) i(1), of j ws] that by (auto simp: beside_def same_cache_def same_mem_def)
    ultimately have "touches N D {b} k k3" using k3(2,3) rs by (simp add: touches_def beside_def)
    then show ?thesis using k3(1) ct m unfolding wr_def by auto
  qed
  show thesis using that [OF k1(1) _ data_length [OF h] _ bread_bmore [OF k1(1)]] wr k1(4,5) by (simp add: full_def cell_fields content_cache [OF c])
qed

section \<open>iupdat\<close>

lemma upd_ino_cache: "same_cache k (upd_ino ip g k)" "same_cache (put_data bp ws k) (put_data bp ws (upd_ino ip g k))"
  by (simp_all add: same_cache_def same_mem_def upd_ino_def put_data_def sys_ok_def sched_ok_def queues_def sleepers_ok_def split: baddr.split)

lemma upd_ino_simps [simp]:
  "itab (upd_ino ip g k) ip = g (itab k ip)" "time_sec (upd_ino ip g k) = time_sec k" "fss (upd_ino ip g k) = fss k"
  "i_fs (upd_ino ip g k) = i_fs k" "a_flock (upd_ino ip g k) = a_flock k"
  by (simp_all add: upd_ino_def)

lemma stamp_disk [simp]:
  "i_number (stamp ta tm now v) = i_number v" "i_mode (stamp ta tm now v) = i_mode v" "i_nlink (stamp ta tm now v) = i_nlink v"
  "i_uid (stamp ta tm now v) = i_uid v" "i_gid (stamp ta tm now v) = i_gid v" "i_size (stamp ta tm now v) = i_size v"
  "i_addr (stamp ta tm now v) = i_addr v" "i_dev (stamp ta tm now v) = i_dev v"
  by (simp_all add: stamp_def Let_def)

lemma fits_stamp: "fits v \<Longrightarrow> int32 ta \<Longrightarrow> int32 tm \<Longrightarrow> int32 now \<Longrightarrow> fits (stamp ta tm now v)"
  by (simp add: fits_def stamp_def Let_def)

abbreviation dirty_ino :: "inode \<Rightarrow> bool" where
  "dirty_ino v \<equiv> flag (i_flag v) (or IUPD (or IACC (or ICHG IMOD)))"

lemma clr_none: "\<not> flag (clr_flag m x) m"
  by (simp add: flag_def clr_flag_def and.assoc)

lemma stamp_clean: "\<not> dirty_ino (stamp ta tm now v)"
  using clr_none by (simp add: stamp_def Let_def del: or_numerals)

lemma bmore_rest: "bio.more (k' :: 'a ink_scheme) = bio.more k \<Longrightarrow> mounts k' = mounts k"
    "bio.more (k' :: 'a ink_scheme) = bio.more k \<Longrightarrow> ink.more k' = ink.more k"
  by (cases k; cases k'; simp)+

lemma iupdat_ok:
  assumes c: "cache_ok N D k" and f: "\<exists>i < N. \<not> busy k i" and d: "i_dev (itab k ip) = D"
    and nb: "none_busy_at N k (fsbtodb (itod (i_number (itab k ip))))" and b: "on_disk k (itod (i_number (itab k ip)))" and t: "\<not> tape D"
    and dirty: "dirty_ino (itab k ip)" "fs_ronly (fss k (i_fs k ip)) = 0" and ft: "fits (itab k ip)" "int32 ta" "int32 tm" "int32 (time_sec k)"
  obtains k' v where "iupdat ramstrategy tape ip ta tm w k = Some (Got (), k')" "touches N D {itod (i_number (itab k ip))} k k'"
    "v = stamp ta tm (time_sec k) (itab k ip)" "itab k' = (itab k)(ip := v)"
    "content D k' (itod (i_number v)) = put_dinode v (content D k (itod (i_number v)))" "fits v"
    "length (content D k (itod (i_number v))) = 512" "fss k' = fss k" "i_fs k' = i_fs k" "a_flock k' = a_flock k"
    "mounts k' = mounts k" "time_sec k' = time_sec k" "ink.more k' = ink.more k"
proof -
  let ?b = "itod (i_number (itab k ip))"
  obtain i k1 where k1: "bread ramstrategy D ?b k = Some (Got (Buf i), k1)" "get_data k1 (Buf i) = content D k ?b"
    "length (get_data k1 (Buf i)) = 512" "\<not> has_b k1 (Buf i) B_ERROR" "bio.more k1 = bio.more k"
    and wr: "\<And>ws k2. length ws = 512 \<Longrightarrow> same_cache (put_data (Buf i) ws k1) k2 \<Longrightarrow>
       \<exists>k3. (if w then bwrite ramstrategy (Buf i) k2 else bdwrite ramstrategy tape (Buf i) k2) = Some (Got (Buf i), k3) \<and>
         touches N D {?b} k k3 \<and> content D k3 ?b = ws \<and> bio.more k3 = bio.more k2"
    by (rule modify_step [where tape = tape and w = w, OF c f nb b t]) blast
  note m = bmore_ink [OF k1(5)] bmore_rest [OF k1(5)]
  have ts: "time_sec k1 = time_sec k" by (rule outerD(2) [OF bread_outer [OF k1(1)]])
  define v where "v = stamp ta tm (time_sec k) (itab k ip)"
  define k2 where "k2 = upd_ino ip (stamp ta tm (time_sec k)) k1"
  have v: "itab k2 ip = v" "itab k2 = (itab k)(ip := v)" by (simp_all add: k2_def v_def m(1) upd_ino_def)
  have fv: "fits v" unfolding v_def by (rule fits_stamp [OF ft])
  let ?ws = "put_dinode v (get_data k1 (Buf i))"
  have g: "get_data k2 (Buf i) = get_data k1 (Buf i)" by (simp add: k2_def same_cache_cong(5) [OF upd_ino_cache(1)])
  obtain k3 where k3: "(if w then bwrite ramstrategy (Buf i) (put_data (Buf i) ?ws k2) else bdwrite ramstrategy tape (Buf i) (put_data (Buf i) ?ws k2)) = Some (Got (Buf i), k3)"
    "touches N D {?b} k k3" "content D k3 ?b = ?ws" "bio.more k3 = bio.more (put_data (Buf i) ?ws k2)"
    using wr [OF put_dinode_get(2) [OF fv k1(3)], of "put_data (Buf i) ?ws k2"] upd_ino_cache(2) unfolding k2_def by blast
  have "bio.more k3 = bio.more k2" using k3(4) by simp
  note m3 = bmore_ink [OF this] bmore_rest [OF this]
  have ws: "outer k3 = outer (put_data (Buf i) ?ws k2)" using k3(1) by (cases w) (auto dest: bwrite_outer bdwrite_outer)
  then have "time_sec k3 = time_sec k" using ts outerD(2) [OF ws] by (simp add: outer_def k2_def put_data_def split: baddr.split)
  moreover have "iupdat ramstrategy tape ip ta tm w k = Some (Got (), k3)"
    using dirty d k1(1,4) k3(1) unfolding iupdat_def
    by (cases w) (simp_all add: and_then_def Let_def ts k2_def [symmetric] v(1) g)
  moreover have "i_number v = i_number (itab k ip)" by (simp add: v_def)
  ultimately show thesis using that [OF _ k3(2) v_def] k3(3) m3 v(2) m fv k1(2,3) by (simp add: k2_def upd_ino_def)
qed

end
