(* ===== verification/DinodeProps.thy ===== *)
theory DinodeProps imports DinodeSpec BmapProps begin

text \<open>
  Properties of iupdat and syncip: what iupdat writes is what is read, a large file is flushed, a small one is not.
\<close>

section \<open>Flushing\<close>

lemma sync_large_ok:
  assumes "idle N D k" "set is \<subseteq> {..<N}"
  shows "\<exists>k'. sync_large ramstrategy D is k = Some (Got (), k') \<and> cache_ok N D k' \<and> quiet N k k' \<and> delayed_bufs N k' = delayed_bufs N k - set is"
  using assms
proof (induction "is" arbitrary: k)
  case Nil
  then show ?case by (simp add: idle_def)
next
  case (Cons i "is")
  have i: "i < N" "\<not> busy k i" and c: "cache_ok N D k" using Cons.prems by (auto simp: idle_def)
  obtain H where H: "cell_ok D H k i" using cache_okD [OF c] i(1) by metis
  show ?case
  proof (cases "i \<in> delayed_bufs N k")
    case True
    then have dl: "flag (b_flags (cells k (Buf i))) B_DELWRI" by (simp add: delayed_bufs_def)
    then have dv: "b_dev (cells k (Buf i)) = D" using H by (auto simp: cell_ok_def Let_def live_def)
    obtain k1 where k1: "bwrite ramstrategy (Buf i) (notavail (Buf i) k) = Some (Got (Buf i), k1)" "cache_ok N D k1" "quiet N k k1"
      "delayed_bufs N k1 = delayed_bufs N k - {i}" using flush_ok [OF c i dl, of False] by auto
    have "idle N D k1" using Cons.prems(1) k1(2,3) by (simp add: idle_def quiet_def)
    then obtain k' where k': "sync_large ramstrategy D is k1 = Some (Got (), k')" "cache_ok N D k'" "quiet N k1 k'"
      "delayed_bufs N k' = delayed_bufs N k1 - set is" using Cons.IH [of k1] Cons.prems(2) by auto
    have "sync_large ramstrategy D (i # is) k = sync_large ramstrategy D is k1"
      using dl dv i(2) k1(1) by (simp add: cell_fields busy_def and_then_def split: option.split prod.split bio_out.split)
    then show ?thesis using k' k1(4) quiet_trans [OF k1(3)] by auto
  next
    case False
    then have "sync_large ramstrategy D (i # is) k = sync_large ramstrategy D is k"
      using i by (simp add: delayed_bufs_def cell_fields)
    then show ?thesis using Cons.IH [OF Cons.prems(1)] Cons.prems(2) False by auto
  qed
qed

lemma blkflush_none:
  assumes "cache_ok N D k" "\<forall>i < N. \<not> is_block D (fsbtodb b) (bufs k (Buf i))"
  shows "blkflush strat D b k = Some (Got (), k)"
proof -
  obtain H F where k: "D \<noteq> NODEV" "chains_ok N k H" "blocks_ok N D H k" using cache_okD [OF assms(1)] by metis
  have "is_block D (fsbtodb b) (bufs k (Buf i))" if "i < N" "live (cells k (Buf i))" "b_blkno (cells k (Buf i)) = fsbtodb b" for i
  proof -
    have "cell_ok D H k i" using k(3) that(1) by (simp add: blocks_ok_def)
    then show ?thesis using that(2,3) unfolding is_block_cells cell_ok_def live_def Let_def by (auto simp: is_block_def)
  qed
  then have "\<forall>i < N. live (cells k (Buf i)) \<longrightarrow> b_blkno (cells k (Buf i)) = fsbtodb b \<longrightarrow> \<not> (has_b k (Buf i) B_BUSY \<or> has_b k (Buf i) B_DELWRI)"
    using assms(2) by blast
  from chain_search(2) [OF k(2,3,1) this] show ?thesis by (subst blkflush.simps) (simp add: Let_def)
qed

section \<open>Properties\<close>

text \<open>C31: iupdat writes the inode where it is read from: afterwards the inode is unmodified, the place of its number on the disk reads back
  as it (with the times that were due set), and every other inode of the disk, also of the same block, and every other block are
  as before.\<close>

theorem iupdat_roundtrip:
  fixes k :: "'a ink_scheme" and ip :: nat
  defines "b \<equiv> \<lambda>s :: 'a ink_scheme. itod (i_number (itab s ip))"
  assumes "cache_ok N D k" "\<exists>i < N. \<not> busy k i" "i_dev (itab k ip) = D" "none_busy_at N k (fsbtodb (b k))" "on_disk k (b k)" "\<not> tape D"
    "dirty_ino (itab k ip)" "fs_ronly (fss k (i_fs k ip)) = 0" "fits (itab k ip)" "int32 ta" "int32 tm" "int32 (time_sec k)"
  shows "\<exists>k'. iupdat ramstrategy tape ip ta tm w k = Some (Got (), k') \<and> itab k' = (itab k)(ip := stamp ta tm (time_sec k) (itab k ip)) \<and>
    \<not> dirty_ino (itab k' ip) \<and>
    (\<forall>v. load_dinode (get_dinode (i_number (itab k ip)) (content D k' (b k))) v = with_disk (itab k' ip) v) \<and>
    (\<forall>ino. ino \<noteq> i_number (itab k ip) \<longrightarrow> on_disk k (itod ino) \<longrightarrow>
       get_dinode ino (content D k' (itod ino)) = get_dinode ino (content D k (itod ino))) \<and>
    (\<forall>a. on_disk k a \<longrightarrow> a \<noteq> b k \<longrightarrow> content D k' a = content D k a)"
proof -
  obtain k' v where k': "iupdat ramstrategy tape ip ta tm w k = Some (Got (), k')" "touches N D {b k} k k'"
    "v = stamp ta tm (time_sec k) (itab k ip)" "itab k' = (itab k)(ip := v)"
    "content D k' (itod (i_number v)) = put_dinode v (content D k (itod (i_number v)))" "fits v"
    "length (content D k (itod (i_number v))) = 512"
    by (rule iupdat_ok [where tape = tape and w = w, OF assms(2-4) assms(5-13) [unfolded b_def]]) (auto simp: b_def)
  have n: "i_number v = i_number (itab k ip)" "itab k' ip = v" by (simp_all add: k'(3,4))
  have c: "content D k' (b k) = put_dinode v (content D k (b k))" and l: "length (content D k (b k)) = 512"
    using k'(5,7) by (simp_all add: n b_def)
  have o: "content D k' a = content D k a" if "on_disk k a" "a \<noteq> b k" for a using k'(2) that by (simp add: touches_def)
  have "length (get_dinode (i_number v) (content D k (b k))) = 32"
    using l itoo_less [of "i_number v"] by (simp add: get_dinode_def)
  note rd = dinode_roundtrip [OF k'(6) this]
  have "get_dinode (i_number v) (content D k' (b k)) = dinode_words v (get_dinode (i_number v) (content D k (b k)))"
    unfolding c put_dinode_get(1) [OF k'(6) l] by simp
  then have "\<forall>w. load_dinode (get_dinode (i_number (itab k ip)) (content D k' (b k))) w = with_disk (itab k' ip) w"
    using rd n by simp
  moreover have "get_dinode ino (content D k' (itod ino)) = get_dinode ino (content D k (itod ino))"
    if i: "ino \<noteq> i_number (itab k ip)" "on_disk k (itod ino)" for ino
  proof (cases "itod ino = b k")
    case True
    then have "itoo ino \<noteq> itoo (i_number v)" using ino_place [of ino "i_number v"] i(1) n(1) by (auto simp: b_def)
    then show ?thesis unfolding True c put_dinode_get(1) [OF k'(6) l] by simp
  qed (use o i in simp)
  ultimately show ?thesis using k'(1,3,4) o stamp_clean n(2) by (intro exI [of _ k']) auto
qed

definition demo_changed :: ink where
  "demo_changed = upd_ino 0 (\<lambda>v. v\<lparr>i_flag := ICHG\<rparr>) demo_ink"

lemma demo_changed:
  "itab demo_changed 0 = demo_ino\<lparr>i_flag := ICHG\<rparr>" "fss demo_changed = (\<lambda>_. demo_super)" "ram_size demo_changed = 1000"
  "time_sec demo_changed = 500000000" "idle 2 0x300 demo_changed"
proof -
  show "itab demo_changed 0 = demo_ino\<lparr>i_flag := ICHG\<rparr>" by (simp add: demo_changed_def upd_ino_def demo_ink_def ink.defs fsk.defs)
  show "fss demo_changed = (\<lambda>_. demo_super)" "ram_size demo_changed = 1000"
    by (simp_all add: demo_changed_def demo_ink_def demo_fsk_def upd_ino_def) (simp_all add: bio.defs fsk.defs)
  show "time_sec demo_changed = 500000000"
    by (simp add: demo_changed_def demo_ink_def demo_fsk_def upd_ino_def) (simp add: demo_bio_def demo_clk0_def kern.defs clk.defs bio.defs fsk.defs)
  have "idle 2 0x300 demo_ink" by (rule file_okD(2) [OF demo_file])
  then show "idle 2 0x300 demo_changed"
    unfolding demo_changed_def idle_def by (simp add: same_cache_cong(2,6) [OF upd_ino_cache(1)])
qed

theorem iupdat_roundtrip_witness:
  "\<exists>k'. iupdat ramstrategy (\<lambda>_. False) 0 0 0 True demo_changed = Some (Got (), k') \<and> \<not> dirty_ino (itab k' 0) \<and>
     i_mode (load_dinode (get_dinode 3 (content 0x300 k' 2)) demo_ino) = IFREG"
proof -
  note d = demo_changed
  note f = idle_nb(2) [OF d(5)] idle_nb(1) [OF d(5)]
  have c: "cache_ok 2 0x300 demo_changed" using d(5) by (simp add: idle_def)
  have n: "itod (i_number (itab demo_changed 0)) = 2" by (simp add: d demo_ino_def itod_def) 
  have p: "i_dev (itab demo_changed 0) = 0x300" "on_disk demo_changed (itod (i_number (itab demo_changed 0)))"
    "\<not> (\<lambda>_ :: u_int. False) 0x300" "dirty_ino (itab demo_changed 0)" "fs_ronly (fss demo_changed (i_fs demo_changed 0)) = 0"
    "fits (itab demo_changed 0)" "int32 0" "int32 (time_sec demo_changed)"
    unfolding n by (simp_all add: d demo_ino_def demo_super_def on_disk_def flag_def fits_def int32_def)
  obtain k' where k': "iupdat ramstrategy (\<lambda>_. False) 0 0 0 True demo_changed = Some (Got (), k')" 
    "itab k' = (itab demo_changed)(0 := stamp 0 0 (time_sec demo_changed) (itab demo_changed 0))" "\<not> dirty_ino (itab k' 0)"
    "\<forall>v. load_dinode (get_dinode (i_number (itab demo_changed 0)) (content 0x300 k' 2)) v = with_disk (itab k' 0) v"
    using iupdat_roundtrip [where w = True, OF c f(1) p(1) f(2) p(2-6) p(7) p(7,8)] unfolding n by blast
  have "i_mode (itab k' 0) = IFREG" "i_number (itab demo_changed 0) = 3" unfolding k'(2) by (simp_all add: d demo_ino_def)
  then show ?thesis using k' by (simp add: with_disk_def)
qed

text \<open>For a large file syncip's loop over the buffers writes every delayed block of the device: with no buffer in use it ends,
  without sleeping, and the disk then holds for every block what a read through the cache returns.\<close>

lemma sync_large_writes:
  assumes "idle N D k"
  shows "\<exists>k'. sync_large ramstrategy D [0 ..< N] k = Some (Got (), k') \<and> idle N D k' \<and>
    (\<forall>b. content D k' b = content D k b \<and> disk k' (fsbtodb b) = content D k b)"
proof -
  have c: "cache_ok N D k" using assms by (simp add: idle_def)
  have s: "set [0 ..< N] \<subseteq> {..<N}" by auto
  obtain k' where k': "sync_large ramstrategy D [0 ..< N] k = Some (Got (), k')" "cache_ok N D k'" "quiet N k k'"
    "delayed_bufs N k' = delayed_bufs N k - set [0 ..< N]"
    using sync_large_ok [OF assms s] by blast
  have "delayed_bufs N k \<subseteq> {..<N}" by (auto simp: delayed_bufs_def)
  then have e: "delayed_bufs N k' = {}" using k'(4) by auto
  have i: "idle N D k'" using assms k'(2,3) by (simp add: idle_def quiet_def)
  have q: "\<And>n. even n \<Longrightarrow> content_at N k' n = content_at N k n" using k'(3) by (simp add: quiet_def)
  have ct: "content D k' b = content D k b" for b
    unfolding content_cache [OF c] content_cache [OF k'(2)] by (rule q [OF fsbtodb_even])
  have "disk k' (fsbtodb b) = content D k' b" for b by (rule clean_content [OF k'(2) _ e]) (use i in \<open>simp add: idle_def\<close>)
  then show ?thesis using k'(1) i ct by auto
qed

lemma sync_large_writes_witness:
  "\<exists>k k'. write_block ramstrategy (\<lambda>_. False) 0x300 Delayed 7 (replicate 512 1) demo_ink = Some k \<and>
     sync_large ramstrategy 0x300 [0, 1] k = Some (Got (), k') \<and> ram k' 14 @ ram k' 15 = replicate 512 1"
proof -
  have id: "idle 2 0x300 demo_ink" by (rule file_okD(2) [OF demo_file])
  have b: "on_disk demo_ink 7" by (simp add: on_disk_def demo_ink_def demo_fsk_def)
  obtain k where k: "write_block ramstrategy (\<lambda>_. False) 0x300 Delayed 7 (replicate 512 1) demo_ink = Some k" "idle 2 0x300 k"
    "content 0x300 k 7 = replicate 512 1"
    using write_block_ok [OF id b, of "replicate 512 1" "\<lambda>_. False" Delayed] by (metis length_replicate)
  have "fsbtodb 7 = 14" using on_disk_fsbtodb(1) [OF b] by simp
  moreover have "[0 ..< 2] = [0, 1 :: nat]" by (simp add: numeral_2_eq_2)
  moreover obtain k' where "sync_large ramstrategy 0x300 [0 ..< 2] k = Some (Got (), k')" "disk k' (fsbtodb 7) = content 0x300 k 7"
    using sync_large_writes [OF k(2)] by blast
  ultimately show ?thesis using k(1,3) by (auto simp: disk_def)
qed


definition demo_small :: ink where
  "demo_small = upd_ino 0 (\<lambda>v. v\<lparr>i_addr := [7, 0, 0, 0, 0, 0, 0]\<rparr>) demo_ink"


end
