(* ===== verification/Trunc.thy ===== *)
theory Trunc imports Dinode begin

text \<open>
  Truncating a file: itrunc, indirtrunc and trsingle of \<open>src/sys/sys/ufs_inode.c\<close>. indirtrunc works on a copy of the inode, of which it
  uses the device and the file system: both are arguments here. \<open>mapin\<close> and \<open>mapout\<close> have no counterpart. A division by zero is
  \<open>None\<close>; the checks under DIAGNOSTIC are not compiled.
\<close>

text \<open>NINDIR is 256 and an int has 16 bits: the factor of triple indirect blocks, \<open>NINDIR * NINDIR\<close>, is 0.\<close>

definition ind_factor :: "nat \<Rightarrow> int" where
  "ind_factor level = uint ((256 :: u_int) ^ level)"

abbreviation (input) "IPIPE \<equiv> 0x1000 :: u_int"
abbreviation (input) "MAXPIPSIZ \<equiv> 4096 :: int"

section \<open>Freeing blocks\<close>

fun free_each ::
  "(bref \<Rightarrow> 'a fsk_scheme \<Rightarrow> 'a fsk_scheme option) \<Rightarrow> u_int \<Rightarrow> nat \<Rightarrow> int list \<Rightarrow> 'a fsk_scheme \<Rightarrow> (unit bio_out \<times> 'a fsk_scheme) option" where
  "free_each strat dev f [] k = Some (Got (), k)"
| "free_each strat dev f (b # bs) k =
     and_then (if b \<noteq> 0 then free strat dev f b k else Some (Got (), k)) (\<lambda>_ k1. free_each strat dev f bs k1)"

definition trsingle ::
  "(bref \<Rightarrow> 'a fsk_scheme \<Rightarrow> 'a fsk_scheme option) \<Rightarrow> u_int \<Rightarrow> nat \<Rightarrow> bref \<Rightarrow> int \<Rightarrow> 'a fsk_scheme \<Rightarrow> (unit bio_out \<times> 'a fsk_scheme) option" where
  "trsingle strat dev f bp lst k = free_each strat dev f (map (\<lambda>i. get_daddr bp i k) (rev [nat (lst + 1) ..< 256])) k"

section \<open>indirtrunc\<close>

text \<open>The block is read and copied, the entries from \<open>lst + 1\<close> on are cleared and the block is written. \<open>None\<close>: it could not be read.\<close>

definition indir_copy ::
  "(bref \<Rightarrow> 'a fsk_scheme \<Rightarrow> 'a fsk_scheme option) \<Rightarrow> u_int \<Rightarrow> int \<Rightarrow> int \<Rightarrow> 'a fsk_scheme \<Rightarrow> (bref option bio_out \<times> 'a fsk_scheme) option" where
  "indir_copy strat dev bn lst k =
     and_then (bread strat dev bn k) (\<lambda>bp k1.
       if has_b k1 bp B_ERROR then map_option (\<lambda>k2. (Got None, k2)) (brelse bp k1)
       else and_then (geteblk strat k1) (\<lambda>cpy k2.
         let ws = get_data k2 bp; n = 2 * nat (lst + 1);
             k3 = put_data cpy ws k2;
             k4 = put_data bp (take n ws @ replicate (512 - n) 0) k3
         in and_then (bwrite strat bp k4) (\<lambda>_ k5. Some (Got (Some cpy), k5))))"

definition indir_frame ::
  "(bref \<Rightarrow> 'a fsk_scheme \<Rightarrow> 'a fsk_scheme option) \<Rightarrow> u_int \<Rightarrow> nat \<Rightarrow> int \<Rightarrow> int \<Rightarrow>
   (bref \<Rightarrow> int \<Rightarrow> 'a fsk_scheme \<Rightarrow> (unit bio_out \<times> 'a fsk_scheme) option) \<Rightarrow> 'a fsk_scheme \<Rightarrow> (unit bio_out \<times> 'a fsk_scheme) option" where
  "indir_frame strat dev level bn lastbn body k =
     (if 0 < lastbn \<and> ind_factor level = 0 then None
      else
        let lst = (if 0 < lastbn then lastbn div ind_factor level else lastbn) in
        and_then (indir_copy strat dev bn lst k) (\<lambda>r k1. case r of
          None \<Rightarrow> Some (Got (), k1)
        | Some cpy \<Rightarrow> and_then (body cpy lst k1) (\<lambda>_ k2. map_option (\<lambda>k3. (Got (), k3)) (brelse cpy k2))))"

text \<open>The loop over the entries of a block of addresses: what is below each, and then the block itself.\<close>

fun indir_loop ::
  "(int \<Rightarrow> 'a fsk_scheme \<Rightarrow> (unit bio_out \<times> 'a fsk_scheme) option) \<Rightarrow> (int \<Rightarrow> 'a fsk_scheme \<Rightarrow> (unit bio_out \<times> 'a fsk_scheme) option) \<Rightarrow>
   bref \<Rightarrow> nat list \<Rightarrow> 'a fsk_scheme \<Rightarrow> (unit bio_out \<times> 'a fsk_scheme) option" where
  "indir_loop below fre cpy [] k = Some (Got (), k)"
| "indir_loop below fre cpy (i # is) k =
     (let nb = get_daddr cpy i k in
      and_then (if nb \<noteq> 0 then and_then (below nb k) (\<lambda>_ k1. fre nb k1) else Some (Got (), k))
        (\<lambda>_ k2. indir_loop below fre cpy is k2))"

primrec indirtrunc ::
  "(bref \<Rightarrow> 'a fsk_scheme \<Rightarrow> 'a fsk_scheme option) \<Rightarrow> u_int \<Rightarrow> nat \<Rightarrow> nat \<Rightarrow> int \<Rightarrow> int \<Rightarrow> 'a fsk_scheme \<Rightarrow> (unit bio_out \<times> 'a fsk_scheme) option" where
  "indirtrunc strat dev f 0 bn lastbn k = indir_frame strat dev 0 bn lastbn (trsingle strat dev f) k"
| "indirtrunc strat dev f (Suc l) bn lastbn k = indir_frame strat dev (Suc l) bn lastbn (\<lambda>cpy lst k1.
     and_then (indir_loop (\<lambda>nb. indirtrunc strat dev f l nb (- 1)) (free strat dev f) cpy (rev [nat (lst + 1) ..< 256]) k1) (\<lambda>_ k2.
       if lastbn < 0 then Some (Got (), k2)
       else
         let nb = get_daddr cpy (nat lst) k2 in
         if ind_factor (Suc l) = 0 then None
         else if nb \<noteq> 0 then indirtrunc strat dev f l nb (lastbn mod ind_factor (Suc l)) k2
         else Some (Got (), k2))) k"

section \<open>itrunc\<close>

text \<open>The levels of indirect blocks, from the highest down; the result says that the rest of the file is kept.\<close>

fun trunc_levels ::
  "(bref \<Rightarrow> 'a fsk_scheme \<Rightarrow> 'a fsk_scheme option) \<Rightarrow> u_int \<Rightarrow> nat \<Rightarrow> int list \<Rightarrow> int list \<Rightarrow> nat list \<Rightarrow> 'a fsk_scheme \<Rightarrow>
   (bool bio_out \<times> 'a fsk_scheme) option" where
  "trunc_levels strat dev f lib addr [] k = Some (Got False, k)"
| "trunc_levels strat dev f lib addr (l # ls) k =
     (let bn = addr ! (4 + l) in
      and_then (if bn \<noteq> 0 then and_then (indirtrunc strat dev f l bn (lib ! l) k)
                   (\<lambda>_ k1. if lib ! l < 0 then free strat dev f bn k1 else Some (Got (), k1))
                else Some (Got (), k))
        (\<lambda>_ k2. if 0 \<le> lib ! l then Some (Got True, k2) else trunc_levels strat dev f lib addr ls k2))"

text \<open>The last block that is kept, and the last one below each level: -1 if there is none.\<close>

definition last_block :: "int \<Rightarrow> int" where
  "last_block len = (len + 1023) mod 2 ^ 32 div 1024 - 1"

definition last_iblock :: "int \<Rightarrow> int list" where
  "last_iblock lb = map (max (- 1)) [lb - 4, lb - 4 - 256, lb - 4 - 256 - ind_factor 2]"

definition cut_addrs :: "int \<Rightarrow> int list \<Rightarrow> int list" where
  "cut_addrs lb as = map (\<lambda>i. if if i < 4 then lb < int i else last_iblock lb ! (i - 4) < 0 then 0 else as ! i) [0 ..< 7]"

text \<open>The part of the last block beyond the length is cleared. The result says whether to go on.\<close>

definition trunc_tail ::
  "(bref \<Rightarrow> 'a ink_scheme \<Rightarrow> 'a ink_scheme option) \<Rightarrow> (u_int \<Rightarrow> bool) \<Rightarrow> nat \<Rightarrow> int \<Rightarrow> 'a ink_scheme \<Rightarrow> (bool bio_out \<times> 'a ink_scheme) option" where
  "trunc_tail strat tape ip len k =
     and_then (bmap strat tape ip (len div 1024) False True k) (\<lambda>bn k1.
       if u_error (u k1) \<noteq> NOERR \<or> bn < 0 then Some (Got False, k1)
       else and_then (bread strat (i_dev (itab k1 ip)) bn k1) (\<lambda>bp k2.
         if has_b k2 bp B_ERROR then map_option (\<lambda>k3. (Got False, k3)) (brelse bp (set_error EIO k2))
         else
           let bs = word_bytes (get_data k2 bp); off = nat (len mod 1024);
               k3 = put_data bp (byte_words (take off bs @ replicate (1024 - off) 0)) k2
           in and_then (bdwrite strat tape bp k3) (\<lambda>_ k4. Some (Got True, k4))))"

definition itrunc ::
  "(bref \<Rightarrow> 'a ink_scheme \<Rightarrow> 'a ink_scheme option) \<Rightarrow> (u_int \<Rightarrow> bool) \<Rightarrow> nat \<Rightarrow> int \<Rightarrow> 'a ink_scheme \<Rightarrow> (unit bio_out \<times> 'a ink_scheme) option" where
  "itrunc strat tape ip len k =
     (let v = itab k ip; pipe = flag (i_flag v) IPIPE; lb = last_block len;
          touch = (\<lambda>v :: inode. v\<lparr>i_flag := set_flag (or ICHG IUPD) (i_flag v)\<rparr>)
      in if \<not> pipe \<and> i_size v mod 2 ^ 32 \<le> len then iupdat strat tape ip (time_sec k) (time_sec k) True (upd_ino ip touch k)
      else
        let k0 = (if pipe then upd_ino ip (\<lambda>v. v\<lparr>i_size := MAXPIPSIZ\<rparr>) k else k) in
        and_then (if len mod 1024 \<noteq> 0 then trunc_tail strat tape ip len k0 else Some (Got True, k0)) (\<lambda>go k1.
          if \<not> go then Some (Got (), k1)
          else
            let as = i_addr (itab k1 ip); dev = i_dev (itab k1 ip); f = i_fs k1 ip;
                k2 = upd_ino ip (\<lambda>v. touch (v\<lparr>i_size := wrap32 len, i_addr := cut_addrs lb (i_addr v)\<rparr>)) k1
            in and_then (iupdat strat tape ip (time_sec k2) (time_sec k2) True k2) (\<lambda>_ k3.
                 and_then (trunc_levels strat dev f (last_iblock lb) as [2, 1, 0] k3) (\<lambda>done k4.
                   and_then (if done then Some (Got (), k4)
                             else free_each strat dev f (map (\<lambda>i. as ! i) (rev [nat (lb + 1) ..< 4])) k4) (\<lambda>_ k5.
                     Some (Got (), upd_ino ip (\<lambda>v. v\<lparr>i_flag := set_flag ICHG (i_flag v)\<rparr>) k5))))))"

end
