(* ===== verification/TruncSpec.thy ===== *)
theory TruncSpec imports Trunc DinodeProps begin

text \<open>
  Truncation on the buffer cache and the free list: a tree of blocks as the list in which indirtrunc frees them.
\<close>

section \<open>geteblk\<close>

text \<open>From \<open>k\<close> to \<open>k'\<close> buffer \<open>i\<close> is taken; it holds no block, and is out of the cache.\<close>

definition scratch :: "nat \<Rightarrow> nat \<Rightarrow> 'a bio_scheme \<Rightarrow> 'a bio_scheme \<Rightarrow> bool" where
  "scratch N i k k' \<longleftrightarrow> i < N \<and> \<not> live (cells k' (Buf i)) \<and> b_addr (cells k' (Buf i)) = Own i \<and> (\<forall>j. busy k' j = (j = i \<or> busy k j)) \<and>
     \<not> busy k i \<and> (\<forall>j. busy k j \<longrightarrow> cells k' (Buf j) = cells k (Buf j) \<and> bmem k' j = bmem k j) \<and> ram_size k' = ram_size k \<and>
     u_error (u k') = u_error (u k)"

lemma geteblk_ok:
  assumes c: "cache_ok N D k" and f: "\<exists>i < N. \<not> busy k i"
  obtains i k' where "geteblk ramstrategy k = Some (Got (Buf i), k')" "cache_ok N D k'" "scratch N i k k'"
    "\<And>m. even m \<Longrightarrow> content_at N k' m = content_at N k m" "outer k' = outer k"
proof -
  obtain k0 k1 i where g: "getnewbuf ramstrategy k = Some (Got (Buf i), k1)" "cache_ok N D k0" "quiet N k k0" "taken N i k0 k1"
    using getnewbuf_ok [OF c f] by blast
  let ?c = "cells k0 (Buf i)"
  obtain H where k: "D \<noteq> NODEV" "chains_ok N k0 H" "blocks_ok N D H k0" "unique N k0" "sizes_ok k0"
    "cell_ok D H k0 i" using cache_okD [OF g(2)] g(4) by (metis taken_def)
  have i: "i < N" "\<not> busy k0 i" "\<not> flag (b_flags ?c) B_DELWRI" and s1: "sys_ok k1" and m1: "same_mem k0 k1"
    and c1: "cells k1 = (cells k0)(Buf i := ?c\<lparr>b_addr := Own i, b_flags := B_BUSY\<rparr>)" and l1: "fwd k1 = fwd k0" "bck k1 = bck k0"
    using g(4) by (simp_all add: taken_def)
  obtain F where F: "free_ok N k1 F" using g(4) by (auto simp: taken_def)
  define kb where "kb = bfree (Buf i) (set_b B_INVAL (Buf i) k1)"
  define k2 where "k2 = binshash (Buf i) (Free 2) (bremhash (Buf i) kb)"
  define k' where "k' = upd_buf (Buf i) (\<lambda>b. b\<lparr>b_dev := NODEV, b_error := NOERR\<rparr>) k2"
  have lb: "same_links k1 kb" unfolding kb_def bfree_def
    by (rule same_trans(2) [OF flags_links(1)], rule upd_field_links) simp
  have "chains_ok N kb H" using k(2) l1 lb chains_ok_cong [of kb k0] by (simp add: same_links_def)
  moreover have d: "Free 2 \<in> heads" by (simp add: heads_def)
  ultimately obtain H' where H': "chains_ok N k2 H'" "\<And>e j. j \<noteq> i \<Longrightarrow> Buf j \<in> set (H e) \<Longrightarrow> Buf j \<in> set (H' e)"
    unfolding k2_def using rehash_ok i(1) by metis
  have l': "same_links k2 k'" unfolding k'_def by (simp add: upd_field_links)
  have r': "rest k' = rest k1" unfolding k'_def k2_def kb_def bfree_def by simp
  have m': "same_mem k0 k'" using same_trans(1) [OF m1 same_memI [OF r']] .
  have c2: "cells k2 = cells kb" by (simp add: k2_def)
  have cs: "cells k' (Buf j) = (if j = i then ?c\<lparr>b_addr := Own i, b_flags := set_flag B_INVAL B_BUSY, b_bcount := 0, b_dev := NODEV, b_error := NOERR\<rparr> else cells k0 (Buf j))" for j
    unfolding k'_def cells_upd payload_simps cells_def [symmetric] c2 kb_def bfree_def by (simp add: c1)
  have bu: "busy k' j = (j = i \<or> busy k0 j)" "busy k1 j = (j = i \<or> busy k0 j)" for j by (simp_all add: busy_def cs c1 fl)
  have a2: "afw k' = afw k1" "abk k' = abk k1" using l' lb by (simp_all add: same_links_def k2_def)
  have F': "free_ok N k' F" using F free_ok_cong [OF a2] bu by simp
  have h': "chains_ok N k' H'" using H'(1) l' chains_ok_cong [of k' k2] by (simp add: same_links_def)
  have nl: "\<not> live (cells k' (Buf i))" by (simp add: cs live_def)
  have o: "only i k0 k'" using only_same [OF m'] cs by simp
  have ok': "cell_ok D H' k' i" using nl bu(1) [of i] k(6) by (auto simp: cell_ok_def Let_def cs fl live_def)
  have bl: "blocks_ok N D H' k'"
    by (rule only_blocks [OF k(3) i(1) o _ H'(2) ok']) (use disk_same(3) [OF m'] k(5) nl in auto)
  have cc: "cache_ok N D k'" unfolding cache_ok_def using restD(7) [OF r'] s1 k(1) h' bl F' by blast
  have ct: "content_at N k' n = content_at N k0 n" if n: "even n" for n
  proof -
    have "live ?c \<Longrightarrow> content_at N k0 (b_blkno ?c) = disk k0 (b_blkno ?c)"
      using content_at_held [OF k(4) i(1)] k(6) i(2,3) by (simp add: cdata_def cell_ok_def Let_def clean_def)
    then show ?thesis unfolding only_content [OF k(3) i(1) o bl n] using nl disk_same(1) [OF m'] by auto
  qed
  have run: "geteblk ramstrategy k = Some (Got (Buf i), k')" by (simp add: geteblk_def g(1) k'_def k2_def kb_def)
  have "scratch N i k k'"
    using i(1,2) nl bu(1) m' cs g(3) by (auto simp: scratch_def quiet_def same_mem_def)
  moreover have "outer k' = outer k" using getnewbuf_outer [OF g(1)] by (simp add: k'_def k2_def kb_def)
  ultimately show thesis using that [OF run cc] ct g(3) by (simp add: quiet_def)
qed

lemma scratch_put:
  assumes c: "cache_ok N D k" and i: "i < N" "busy k i" and l: "\<not> live (cells k (Buf i))" "b_addr (cells k (Buf i)) = Own i" and ws: "length ws = 512"
  defines "k' \<equiv> put_data (Buf i) ws k"
  shows "cache_ok N D k'" "cells k' = cells k" "bmem k' = (bmem k)(i := ws)" "ram_size k' = ram_size k" "u k' = u k"
    "\<And>n. even n \<Longrightarrow> content_at N k' n = content_at N k n"
proof -
  obtain H F where k: "D \<noteq> NODEV" "chains_ok N k H" "free_ok N k F" "blocks_ok N D H k" "unique N k" "sizes_ok k"
    "cell_ok D H k i" "sys_ok k" using cache_okD [OF c] i(1) by metis
  have bf: "bufs k' = bufs k" "ram_size k' = ram_size k" "ram_base k' = ram_base k" "u k' = u k" "sys_ok k' = sys_ok k" "ram k' = ram k"
    "bmem k' = (bmem k)(i := ws)"
    using l(2) by (simp_all add: k'_def put_data_def cell_fields sys_ok_def sched_ok_def queues_def sleepers_ok_def)
  then show cs: "cells k' = cells k" and "ram_size k' = ram_size k" "u k' = u k" "bmem k' = (bmem k)(i := ws)" by (simp_all add: cells_def fun_eq_iff)
  have o: "only i k k'" using bf by (simp add: only_def cs)
  have s': "sizes_ok k'" using k(6) ws bf by (auto simp: sizes_ok_def)
  have dk': "in_disk k' n = in_disk k n" "busy k' j = busy k j" for n j by (simp_all add: in_disk_def bf(2) busy_def cs)
  have ok': "cell_ok D H k' i" using k(7) i(2) unfolding cell_ok_def Let_def cs dk' by simp
  have bl: "blocks_ok N D H k'" by (rule only_blocks [OF k(4) i(1) o s' _ ok']) (use l(1) cs in auto)
  have "chains_ok N k' H" using k(2) chains_ok_cong [of k' k] bf(1) by simp
  moreover have "free_ok N k' F" using k(3) free_ok_cong [of k' k] bf(1) dk' by simp
  ultimately show "cache_ok N D k'" unfolding cache_ok_def using bf(5) k(8,1) bl by blast
  show "content_at N k' n = content_at N k n" if n: "even n" for n
    unfolding only_content [OF k(4) i(1) o bl n(1)] cs using l(1) by simp
qed

section \<open>The copy of a block\<close>

text \<open>From \<open>k\<close> to \<open>k'\<close> a buffer \<open>i\<close> without a block has been taken, and only the blocks \<open>E\<close> may have changed.\<close>

definition lends :: "nat \<Rightarrow> u_int \<Rightarrow> int set \<Rightarrow> nat \<Rightarrow> 'a bio_scheme \<Rightarrow> 'a bio_scheme \<Rightarrow> bool" where
  "lends N D E i k k' \<longleftrightarrow> cache_ok N D k' \<and> scratch N i k k' \<and> (\<forall>b. on_disk k b \<longrightarrow> b \<notin> E \<longrightarrow> content D k' b = content D k b)"

lemma lends_touches:
  assumes l: "lends N D E i k k1" and t: "touches N D E' k1 k2"
  shows "lends N D (E \<union> E') i k k2" "get_data k2 (Buf i) = get_data k1 (Buf i)"
proof -
  have b: "busy k1 i" using l by (simp add: lends_def scratch_def)
  have c: "cells k2 (Buf i) = cells k1 (Buf i)" "bmem k2 i = bmem k1 i" using t b by (simp_all add: touches_def)
  have a: "b_addr (cells k1 (Buf i)) = Own i" using l by (simp add: lends_def scratch_def)
  show "get_data k2 (Buf i) = get_data k1 (Buf i)" using c a by (simp add: get_data_def cell_fields)
  show "lends N D (E \<union> E') i k k2"
    using l t c unfolding lends_def scratch_def touches_def on_disk_def by auto
qed

lemma lends_brelse:
  assumes l: "lends N D E i k k1"
  obtains k2 where "brelse (Buf i) k1 = Some k2" "touches N D E k k2" "outer k2 = outer k1" "content D k2 = content D k1"
    "\<forall>j. j \<noteq> i \<longrightarrow> cells k2 (Buf j) = cells k1 (Buf j)" "\<not> busy k2 i" "ram_size k2 = ram_size k1"
proof -
  have s: "cache_ok N D k1" "scratch N i k k1" using l by (simp_all add: lends_def)
  have i: "i < N" "busy k1 i" "\<not> live (cells k1 (Buf i))" "\<not> busy k i" using s(2) by (simp_all add: scratch_def)
  obtain k2 where k2: "brelse (Buf i) k1 = Some k2" "cache_ok N D k2" "same_mem k1 k2" "\<not> busy k2 i"
    "\<And>j. j \<noteq> i \<Longrightarrow> cells k2 (Buf j) = cells k1 (Buf j)" "\<And>n. even n \<Longrightarrow> content_at N k2 n = content_at N k1 n"
    using brelse_ok [OF s(1) i(1,2)] i(3) by metis
  have ct: "content D k2 b = content D k1 b" for b
    unfolding content_cache [OF k2(2)] content_cache [OF s(1)] using k2(6) [OF fsbtodb_even] .
  have bu: "busy k2 j = busy k j" for j using k2(4,5) s(2) i(4) by (cases "j = i") (simp_all add: busy_def scratch_def)
  have "cells k2 (Buf j) = cells k (Buf j)" if "busy k j" for j
    using k2(5) [of j] s(2) i(4) that by (cases "j = i") (simp_all add: scratch_def)
  then have "touches N D E k k2"
    unfolding touches_def using k2(2,3) bu ct l by (simp add: lends_def scratch_def same_mem_def)
  then show thesis using that [OF k2(1)] brelse_outer [OF k2(1)] ct k2(3,4,5) by (auto simp: same_mem_def)
qed

definition spare :: "nat \<Rightarrow> 'a bio_scheme \<Rightarrow> nat \<Rightarrow> bool" where
  "spare N k n \<longleftrightarrow> n \<le> card {i. i < N \<and> \<not> busy k i}"

lemma indir_copy_ok:
  assumes c: "cache_ok N D k" and f: "spare N k 2" and nb: "none_busy_at N k (fsbtodb bn)" and b: "on_disk k bn" and lst: "lst < 256"
  obtains i k' where "indir_copy ramstrategy D bn lst k = Some (Got (Some (Buf i)), k')" "lends N D {bn} i k k'"
    "get_data k' (Buf i) = content D k bn" "outer k' = outer k" "length (content D k bn) = 512"
    "content D k' bn = take (2 * nat (lst + 1)) (content D k bn) @ replicate (512 - 2 * nat (lst + 1)) 0"
proof -
  let ?F = "{i. i < N \<and> \<not> busy k i}" and ?n = "2 * nat (lst + 1)"
  have f2: "2 \<le> card ?F" using f by (simp add: spare_def)
  then have "?F \<noteq> {}" by (metis card.empty not_numeral_le_zero)
  then have f1: "\<exists>i < N. \<not> busy k i" by blast
  obtain a k1 where k1: "bread ramstrategy D bn k = Some (Got (Buf a), k1)" "cache_ok N D k1" "gets N (fsbtodb bn) a k k1"
    "full (cells k1 (Buf a))" "get_data k1 (Buf a) = content_at N k (fsbtodb bn)"
    using bread_ok [OF c f1 nb on_disk_fsbtodb(2) [OF b]] by metis
  have a: "a < N" "busy k1 a" "\<And>j. busy k1 j = (j = a \<or> busy k j)" "live (cells k1 (Buf a))" "\<not> busy k a"
    "b_blkno (cells k1 (Buf a)) = fsbtodb bn" "\<And>j. busy k j \<Longrightarrow> cells k1 (Buf j) = cells k (Buf j) \<and> bmem k1 j = bmem k j"
    "ram_size k1 = ram_size k" "u_error (u k1) = u_error (u k)" "\<And>m. even m \<Longrightarrow> content_at N k1 m = content_at N k m"
    using k1(3) by (simp_all add: gets_def)
  have "?F - {a} \<noteq> {}"
  proof
    assume "?F - {a} = {}"
    then have "?F \<subseteq> {a}" by blast
    then have "card ?F \<le> card {a}" by (intro card_mono) simp_all
    then show False using f2 by simp
  qed
  then have f1': "\<exists>i < N. \<not> busy k1 i" using a(3) by blast
  obtain i k2 where k2: "geteblk ramstrategy k1 = Some (Got (Buf i), k2)" "cache_ok N D k2" "scratch N i k1 k2"
    "\<And>m. even m \<Longrightarrow> content_at N k2 m = content_at N k1 m" "outer k2 = outer k1" using geteblk_ok [OF k1(2) f1'] by blast
  have i: "i < N" "busy k2 i" "\<not> live (cells k2 (Buf i))" "b_addr (cells k2 (Buf i)) = Own i" "\<not> busy k1 i" "i \<noteq> a" "\<not> busy k i"
    "cells k2 (Buf a) = cells k1 (Buf a)" "busy k2 a" "ram_size k2 = ram_size k1"
    using k2(3) a(2,3) by (auto simp: scratch_def)
  let ?ws = "content D k bn"
  have ct2: "content D k2 b = content D k b" for b
    unfolding content_cache [OF k2(2)] content_cache [OF c] using k2(4) a(10) fsbtodb_even by simp
  have ws: "get_data k2 (Buf a) = ?ws"
    using held_content [OF k2(2) a(1), of bn] i(8) a(4,6) k1(4) ct2 by simp
  obtain H F where h: "cell_ok D H k2 a" "sizes_ok k2" using cache_okD [OF k2(2)] a(1) by metis
  have lw: "length ?ws = 512" using data_length [OF h] ws by simp
  define k3 where "k3 = put_data (Buf i) ?ws k2"
  note p3 = scratch_put [OF k2(2) i(1,2,3,4) lw, folded k3_def]
  have b3: "busy k3 j = busy k2 j" for j by (simp add: busy_def p3(2))
  define zs where "zs = take ?n ?ws @ replicate (512 - ?n) 0"
  have lz: "length zs = 512" using lw lst by (simp add: zs_def)
  have rs: "ram_size k3 = ram_size k" using p3(4) i(10) a(8) by simp
  have dk: "in_disk k3 (b_blkno (cells k3 (Buf a)))" using on_disk_fsbtodb(2) [OF b] i(8) a(6) rs by (simp add: in_disk_def p3(2))
  define k4 where "k4 = put_data (Buf a) zs k3"
  have l3: "busy k3 a" "live (cells k3 (Buf a))" using i(8,9) a(4) b3 by (simp_all add: p3(2))
  note p4 = put_data_ok [OF p3(1) a(1) l3 dk lz, folded k4_def]
  have c4: "cells k4 = cells k2" using p4(2) p3(2) by simp
  have l4: "busy k4 a" "live (cells k4 (Buf a))" "in_disk k4 (b_blkno (cells k4 (Buf a)))"
    using l3 p4(2,4) dk by (simp_all add: busy_def in_disk_def)
  obtain k5 where k5: "bwrite ramstrategy (Buf a) k4 = Some (Got (Buf a), k5)" "cache_ok N D k5" "beside a k4 k5" "\<not> busy k5 a"
    "\<And>n. even n \<Longrightarrow> content_at N k5 n = (if n = b_blkno (cells k4 (Buf a)) then get_data k4 (Buf a) else content_at N k4 n)"
    using bwrite_ok [OF p4(1) a(1) l4] by metis
  have bn4: "b_blkno (cells k4 (Buf a)) = fsbtodb bn" "b_blkno (cells k3 (Buf a)) = fsbtodb bn" using c4 p3(2) i(8) a(6) by simp_all
  have ct: "content D k5 x = (if fsbtodb x = fsbtodb bn then zs else content D k x)" for x
    unfolding content_cache [OF k5(2)] k5(5) [OF fsbtodb_even] bn4
    using p4(3) p4(6) [OF fsbtodb_even, of x] p3(6) [OF fsbtodb_even, of x] ct2 [of x] by (simp add: bn4 content_cache [OF k2(2)])
  have m4: "bmem k4 j = bmem k3 j" if "j \<noteq> a" for j unfolding k4_def by (rule put_data_bmem [OF p3(1) a(1) that])
  have c5: "cells k5 (Buf j) = cells k2 (Buf j)" if "j \<noteq> a" for j using k5(3) that c4 by (simp add: beside_def)
  have m5: "bmem k5 = bmem k4" "ram_size k5 = ram_size k4" "u_error (u k5) = u_error (u k4)" using k5(3) by (simp_all add: beside_def)
  have "busy k5 j = (j = i \<or> busy k j)" for j
    using k5(4) c5 [of j] k2(3) a(3,5) by (cases "j = a") (auto simp: busy_def scratch_def)
  moreover have "cells k5 (Buf j) = cells k (Buf j) \<and> bmem k5 j = bmem k j" if "busy k j" for j
  proof -
    have "j \<noteq> a" "j \<noteq> i" using that a(5) i(7) by auto
    then show ?thesis using c5 m5(1) m4 p3(3) k2(3) a(3,7) that by (simp add: scratch_def)
  qed
  moreover have "u_error (u k5) = u_error (u k)" "ram_size k5 = ram_size k"
    using m5(2,3) p4(4,5) p3(4,5) k2(3) a(8,9) by (simp_all add: scratch_def)
  ultimately have "scratch N i k k5" using i c5 [OF i(6)] by (simp add: scratch_def)
  moreover have "content D k5 x = content D k x" if "on_disk k x" "x \<noteq> bn" for x
    using ct on_disk_fsbtodb(1) [OF that(1)] on_disk_fsbtodb(1) [OF b] that(2) by simp
  ultimately have "lends N D {bn} i k k5" using k5(2) by (simp add: lends_def)
  moreover have "get_data k5 (Buf i) = ?ws"
    using c5 [OF i(6)] i(4) m5(1) m4 [OF i(6)] p3(3) by (simp add: get_data_def cell_fields)
  moreover have "indir_copy ramstrategy D bn lst k = Some (Got (Some (Buf i)), k5)"
    using k1(1,4) k2(1) k5(1) ws
    by (simp add: indir_copy_def and_then_def Let_def full_def cell_fields k3_def [symmetric] k4_def [symmetric] zs_def [symmetric])
  moreover have "outer k5 = outer k"
    using bwrite_outer [OF k5(1)] k2(5) bread_outer [OF k1(1)] by (simp add: k4_def k3_def)
  ultimately show thesis using that lw ct [of bn] by (simp add: zs_def)
qed

section \<open>Freeing\<close>

text \<open>What freeing blocks leaves alone: the time, the mount table, the inodes and, in the super blocks, all but the list of free blocks.\<close>

definition nofree :: "fs \<Rightarrow> fs" where
  "nofree s = s\<lparr>fs_nfree := 0, fs_free := [], fs_tfree := 0, fs_fmod := 0, fs_flock := 0\<rparr>"

definition fouter :: "'a fsk_scheme \<Rightarrow> int \<times> mount list \<times> (nat \<Rightarrow> fs) \<times> 'a" where
  "fouter k = (time_sec k, mounts k, \<lambda>g. nofree (fss k g), fsk.more k)"

lemma fouter_outer: "outer k' = outer k \<Longrightarrow> fouter k' = fouter k"
  by (cases k; cases k') (simp add: outer_def fouter_def)

lemma fouter_upd [simp]: "(\<And>s. nofree (g s) = nofree s) \<Longrightarrow> fouter (upd_fs f g k) = fouter k"
  by (auto simp: fouter_def upd_fs_def)

lemma fouter_words [simp]: "fouter (put_words bp ws k) = fouter k"
  by (rule fouter_outer) (simp add: put_words_def)

lemma nofree_simps [simp]:
  "nofree (s\<lparr>fs_nfree := a\<rparr>) = nofree s" "nofree (s\<lparr>fs_free := b\<rparr>) = nofree s" "nofree (s\<lparr>fs_tfree := c\<rparr>) = nofree s"
  "nofree (s\<lparr>fs_fmod := d\<rparr>) = nofree s" "nofree (s\<lparr>fs_flock := e\<rparr>) = nofree s"
  by (simp_all add: nofree_def)

lemma nofreeD:
  assumes "nofree s' = nofree s"
  shows "fs_isize s' = fs_isize s" "fs_fsize s' = fs_fsize s" "fs_ronly s' = fs_ronly s" "fs_ilock s' = fs_ilock s"
    "fs_ninode s' = fs_ninode s" "fs_inode s' = fs_inode s" "fs_lasti s' = fs_lasti s" "fs_nbehind s' = fs_nbehind s" "fs_tinode s' = fs_tinode s"
  using assms by (cases s; cases s'; simp add: nofree_def)+

lemma unlock_free_fouter: "unlock_free f k = Some k' \<Longrightarrow> fouter k' = fouter k"
  unfolding unlock_free_def Let_def by (auto dest!: wakeup_outer fouter_outer)

lemma free_fouter: "free ramstrategy dev f b k = Some (y, k') \<Longrightarrow> fouter k' = fouter k"
proof -
  have sp: "fouter k2 = fouter k1" if "spill_list ramstrategy dev f b k1 = Some (z, k2)" for z and k1 k2 :: "'a fsk_scheme"
    using that unfolding spill_list_def
  proof (rule and_then_inv)
    show "fouter k3 = fouter k1" if "getblk ramstrategy dev b (upd_fs f (\<lambda>s. s\<lparr>fs_flock := fs_flock s + 1\<rparr>) k1) = Some (x, k3)" for x k3
      using fouter_outer [OF getblk_outer [OF that]] by simp
  next
    fix bp k3 assume "fouter k3 = fouter k1" "(let k2 = upd_fs f (\<lambda>s. s\<lparr>fs_nfree := 0\<rparr>) (put_words bp (fblk_words (fss k3 f)) k3) in
       and_then (bwrite ramstrategy bp k2) (\<lambda>_ k3. map_option (\<lambda>k4. (Got (), k4)) (unlock_free f k3))) = Some (z, k2)"
    then show "fouter k2 = fouter k1"
      unfolding Let_def by (elim and_then_inv) (auto dest!: bwrite_outer fouter_outer unlock_free_fouter)
  qed
  assume "free ramstrategy dev f b k = Some (y, k')"
  then show ?thesis
    by (auto simp: free_def Let_def and_then_Some split: if_splits dest!: sp)
qed

text \<open>What a routine that frees the blocks \<open>bs\<close> does: it may change the blocks \<open>E\<close>.\<close>

definition keeps :: "'a fsk_scheme \<Rightarrow> 'a fsk_scheme \<Rightarrow> bool" where
  "keeps k k' \<longleftrightarrow> fouter k' = fouter k"

lemma keepsD:
  assumes "keeps k k'"
  shows "nofree (fss k' f) = nofree (fss k f)" "fs_isize (fss k' f) = fs_isize (fss k f)" "fs_fsize (fss k' f) = fs_fsize (fss k f)"
    "fsk.more k' = fsk.more k" "time_sec k' = time_sec k" "mounts k' = mounts k"
proof -
  show n: "nofree (fss k' f) = nofree (fss k f)" using assms unfolding keeps_def fouter_def by (metis prod.inject)
  show "fs_isize (fss k' f) = fs_isize (fss k f)" "fs_fsize (fss k' f) = fs_fsize (fss k f)" using nofreeD [OF n] by simp_all
  show "fsk.more k' = fsk.more k" "time_sec k' = time_sec k" "mounts k' = mounts k" using assms by (simp_all add: keeps_def fouter_def)
qed

lemma keeps_refl [simp]: "keeps k k"
  by (simp add: keeps_def)

lemma keeps_trans: "keeps k k' \<Longrightarrow> keeps k' k'' \<Longrightarrow> keeps k k''"
  by (simp add: keeps_def)

definition frees :: "nat \<Rightarrow> u_int \<Rightarrow> nat \<Rightarrow> int list \<Rightarrow> int set \<Rightarrow> int list \<Rightarrow> 'a fsk_scheme \<Rightarrow> (unit bio_out \<times> 'a fsk_scheme) option \<Rightarrow> bool" where
  "frees N D f bs E xs k r \<longleftrightarrow> (\<exists>k'. r = Some (Got (), k') \<and> fs_ok N D f (rev bs @ xs) k' \<and> touches N D E k k' \<and> keeps k k')"

text \<open>The blocks \<open>bs\<close> can be freed.\<close>

definition clear :: "nat \<Rightarrow> u_int \<Rightarrow> nat \<Rightarrow> int list \<Rightarrow> int list \<Rightarrow> 'a fsk_scheme \<Rightarrow> bool" where
  "clear N D f bs xs k \<longleftrightarrow> fs_ok N D f xs k \<and> distinct bs \<and>
     (\<forall>b \<in> set bs. usable (fss k f) k b \<and> b \<notin> set xs \<and> none_busy_at N k (fsbtodb b))"

lemma clear_after:
  assumes c: "clear N D f bs xs k" and k': "fs_ok N D f (ys @ xs) k'" "touches N D E k k'" "keeps k k'" and s: "set bs' \<subseteq> set bs" "distinct bs'" "set bs' \<inter> set ys = {}"
  shows "clear N D f bs' (ys @ xs) k'"
proof -
  have "ram_size k' = ram_size k" using k'(2) by (simp add: touches_def)
  then have "usable (fss k' f) k' = usable (fss k f) k" using keepsD [OF k'(3)] by (intro usable_cong) simp_all
  then show ?thesis
    using c k'(1) s touches_none_busy [OF k'(2)] unfolding clear_def by auto
qed

lemma spare_touches: "touches N D E k k' \<Longrightarrow> spare N k' = spare N k"
  by (simp add: touches_def spare_def fun_eq_iff)

lemma spare_some: "spare N k n \<Longrightarrow> 0 < n \<Longrightarrow> \<exists>i < N. \<not> busy k i"
proof -
  assume s: "spare N k n" "0 < n"
  have "{i. i < N \<and> \<not> busy k i} \<noteq> {}" using s unfolding spare_def by (metis card.empty not_le)
  then show ?thesis by blast
qed

lemma free_clear:
  assumes c: "clear N D f [b] xs k" and s: "spare N k n" "0 < n"
  shows "frees N D f [b] {b} xs k (free ramstrategy D f b k)"
proof -
  have o: "fs_ok N D f xs k" and b: "usable (fss k f) k b" "b \<notin> set xs" "none_busy_at N k (fsbtodb b)" using c by (simp_all add: clear_def)
  obtain k' where "free ramstrategy D f b k = Some (Got (), k')" "fs_ok N D f (b # xs) k'" "touches N D {b} k k'"
    "fs_isize (fss k' f) = fs_isize (fss k f)" "fs_fsize (fss k' f) = fs_fsize (fss k f)"
    using free_block_ok [OF o spare_some [OF s] b] by metis
  then show ?thesis using free_fouter by (auto simp: frees_def keeps_def)
qed

text \<open>One after the other.\<close>

lemma frees_nil: "fs_ok N D f xs k \<Longrightarrow> frees N D f [] E xs k (Some (Got (), k))"
proof -
  assume o: "fs_ok N D f xs k"
  have "touches N D E k k" by (rule touches_mono [OF touches_refl [OF fs_okD(1) [OF o]]]) simp
  then show ?thesis using o by (simp add: frees_def)
qed

lemma frees_then:
  assumes f: "frees N D f bs E xs k r" and E: "E \<subseteq> E''" "E' \<subseteq> E''"
    and g: "\<And>k1. r = Some (Got (), k1) \<Longrightarrow> fs_ok N D f (rev bs @ xs) k1 \<Longrightarrow> touches N D E k k1 \<Longrightarrow> keeps k k1 \<Longrightarrow>
      frees N D f cs E' (rev bs @ xs) k1 (g () k1)"
  shows "frees N D f (bs @ cs) E'' xs k (and_then r g)"
proof -
  obtain k1 where k1: "r = Some (Got (), k1)" "fs_ok N D f (rev bs @ xs) k1" "touches N D E k k1" "keeps k k1"
    using f by (auto simp: frees_def)
  obtain k2 where k2: "g () k1 = Some (Got (), k2)" "fs_ok N D f (rev cs @ rev bs @ xs) k2" "touches N D E' k1 k2" "keeps k1 k2"
    using g [OF k1] by (auto simp: frees_def)
  have "touches N D E'' k k2" using touches_mono [OF touches_trans [OF k1(3) k2(3)]] E by blast
  then show ?thesis using k1(1) k2(1,2) keeps_trans [OF k1(4) k2(4)] by (simp add: frees_def and_then_def)
qed

lemma free_each_ok:
  assumes "clear N D f (filter (\<lambda>b. b \<noteq> 0) bs) xs k" "spare N k n" "0 < n"
  shows "frees N D f (filter (\<lambda>b. b \<noteq> 0) bs) (set (filter (\<lambda>b. b \<noteq> 0) bs)) xs k (free_each ramstrategy D f bs k)"
  using assms
proof (induction bs arbitrary: xs k)
  case Nil
  then show ?case by (simp add: frees_nil clear_def)
next
  case (Cons b bs)
  show ?case
  proof (cases "b = 0")
    case True
    then show ?thesis using Cons by (simp add: and_then_def)
  next
    case False
    let ?bs = "filter (\<lambda>b. b \<noteq> 0) bs"
    have c: "clear N D f (b # ?bs) xs k" using Cons.prems(1) False by simp
    then have cb: "clear N D f [b] xs k" by (simp add: clear_def)
    have "frees N D f ([b] @ ?bs) (set (b # ?bs)) xs k (and_then (free ramstrategy D f b k) (\<lambda>_ k1. free_each ramstrategy D f bs k1))"
    proof (rule frees_then [OF free_clear [OF cb Cons.prems(2,3)]])
      fix k1 assume k1: "fs_ok N D f (rev [b] @ xs) k1" "touches N D {b} k k1" "keeps k k1"
      have "clear N D f ?bs (rev [b] @ xs) k1"
        by (rule clear_after [OF c k1]) (use c in \<open>auto simp: clear_def\<close>)
      then show "frees N D f ?bs (set ?bs) (rev [b] @ xs) k1 (free_each ramstrategy D f bs k1)"
        by (rule Cons.IH) (use Cons.prems(2,3) spare_touches [OF k1(2)] in simp_all)
    qed auto
    then show ?thesis using False by simp
  qed
qed

section \<open>indirtrunc\<close>

text \<open>The blocks below an indirect block of depth \<open>d\<close>, in the order in which they are freed.\<close>

fun below :: "(int \<Rightarrow> u_int list) \<Rightarrow> nat \<Rightarrow> int \<Rightarrow> int list" where
  "below C 0 b = []"
| "below C (Suc d) b = concat (map (\<lambda>i. let nb = daddr_at (2 * i) (C b) in if nb = 0 then [] else below C d nb @ [nb]) (rev [0 ..< 256]))"

definition part :: "(int \<Rightarrow> u_int list) \<Rightarrow> nat \<Rightarrow> u_int list \<Rightarrow> nat list \<Rightarrow> int list" where
  "part C d ws is = concat (map (\<lambda>i. let nb = daddr_at (2 * i) ws in if nb = 0 then [] else below C d nb @ [nb]) is)"

lemma below_Suc: "below C (Suc d) b = part C d (C b) (rev [0 ..< 256])"
  by (simp add: part_def)

lemma part_Nil [simp]: "part C d ws [] = []"
  by (simp add: part_def)

lemma part_Cons: "part C d ws (i # is) = (let nb = daddr_at (2 * i) ws in if nb = 0 then [] else below C d nb @ [nb]) @ part C d ws is"
  by (simp add: part_def)

lemma part_0: "part C 0 ws is = filter (\<lambda>b. b \<noteq> 0) (map (\<lambda>i. daddr_at (2 * i) ws) is)"
  by (induction "is") (simp_all add: part_Cons Let_def)

text \<open>What the loop relies on for the level below.\<close>

definition below_ok :: "nat \<Rightarrow> u_int \<Rightarrow> nat \<Rightarrow> (int \<Rightarrow> u_int list) \<Rightarrow> nat \<Rightarrow> (int \<Rightarrow> 'a fsk_scheme \<Rightarrow> (unit bio_out \<times> 'a fsk_scheme) option) \<Rightarrow> bool" where
  "below_ok N D f C d rec \<longleftrightarrow> (\<forall>nb xs k. clear N D f (below C d nb @ [nb]) xs k \<longrightarrow> (\<forall>b \<in> set (below C d nb @ [nb]). content D k b = C b) \<longrightarrow>
     spare N k (d + 1) \<longrightarrow> frees N D f (below C d nb) (set (below C d nb @ [nb])) xs k (rec nb k))"

definition part1 :: "(int \<Rightarrow> u_int list) \<Rightarrow> nat \<Rightarrow> int \<Rightarrow> int list" where
  "part1 C d nb = (if nb = 0 then [] else below C d nb @ [nb])"

lemma part_step: "part C d ws (i # is) = part1 C d (daddr_at (2 * i) ws) @ part C d ws is"
  by (simp add: part_Cons part1_def Let_def)

text \<open>What is below a block, then the block.\<close>

lemma part1_frees:
  assumes r: "below_ok N D f C d rec" and cl: "clear N D f (part1 C d nb) xs k" and ct: "\<forall>b \<in> set (part1 C d nb). content D k b = C b"
    and sp: "spare N k (d + 1)"
  shows "frees N D f (part1 C d nb) (set (part1 C d nb)) xs k
    (if nb \<noteq> 0 then and_then (rec nb k) (\<lambda>_ k1. free ramstrategy D f nb k1) else Some (Got (), k))"
proof (cases "nb = 0")
  case True
  then show ?thesis using cl by (simp add: part1_def frees_nil clear_def)
next
  case False
  then have pc: "part1 C d nb = below C d nb @ [nb]" by (simp add: part1_def)
  have f1: "frees N D f (below C d nb) (set (part1 C d nb)) xs k (rec nb k)"
    using r cl ct sp unfolding below_ok_def pc by simp
  have "frees N D f (below C d nb @ [nb]) (set (part1 C d nb)) xs k (and_then (rec nb k) (\<lambda>_ k1. free ramstrategy D f nb k1))"
  proof (rule frees_then [OF f1 order.refl])
    fix k1 assume k1: "fs_ok N D f (rev (below C d nb) @ xs) k1" "touches N D (set (part1 C d nb)) k k1" "keeps k k1"
    have "clear N D f [nb] (rev (below C d nb) @ xs) k1"
      by (rule clear_after [OF cl k1]) (use cl in \<open>auto simp: clear_def pc\<close>)
    then show "frees N D f [nb] {nb} (rev (below C d nb) @ xs) k1 (free ramstrategy D f nb k1)"
      by (rule free_clear [where n = "d + 1"]) (use sp spare_touches [OF k1(2)] in simp_all)
  qed (simp add: pc)
  then show ?thesis using False by (simp add: pc)
qed

lemma content_after:
  assumes "clear N D f (as @ bs) xs k" "touches N D (set as) k k1" "b \<in> set bs"
  shows "content D k1 b = content D k b"
proof -
  have "on_disk k b" "b \<notin> set as" using assms(1,3) by (auto simp: clear_def usable_def)
  then show ?thesis using assms(2) by (simp add: touches_def)
qed

lemma indir_loop_ok:
  assumes r: "below_ok N D f C d rec"
  shows "clear N D f (part C d ws is) xs k \<Longrightarrow> \<forall>b \<in> set (part C d ws is). content D k b = C b \<Longrightarrow> spare N k (d + 1) \<Longrightarrow>
    busy k c \<Longrightarrow> b_addr (cells k (Buf c)) = Own c \<Longrightarrow> get_data k (Buf c) = ws \<Longrightarrow>
    frees N D f (part C d ws is) (set (part C d ws is)) xs k (indir_loop rec (free ramstrategy D f) (Buf c) is k)"
proof (induction "is" arbitrary: xs k)
  case Nil
  then show ?case by (simp add: frees_nil clear_def)
next
  case (Cons i "is")
  let ?nb = "daddr_at (2 * i) ws" and ?rest = "part C d ws is"
  let ?pc = "part1 C d ?nb"
  note cl = Cons.prems(1) [unfolded part_step] and ct = Cons.prems(2) [unfolded part_step]
  have cp: "clear N D f ?pc xs k" using cl by (simp add: clear_def)
  have one: "frees N D f ?pc (set ?pc) xs k
      (if ?nb \<noteq> 0 then and_then (rec ?nb k) (\<lambda>_ k1. free ramstrategy D f ?nb k1) else Some (Got (), k))"
    by (rule part1_frees [OF r cp _ Cons.prems(3)]) (use ct in simp)
  have "frees N D f (?pc @ ?rest) (set (?pc @ ?rest)) xs k
    (and_then (if ?nb \<noteq> 0 then and_then (rec ?nb k) (\<lambda>_ k1. free ramstrategy D f ?nb k1) else Some (Got (), k))
       (\<lambda>_ k2. indir_loop rec (free ramstrategy D f) (Buf c) is k2))"
  proof (rule frees_then [OF one])
    fix k1 assume k1: "fs_ok N D f (rev ?pc @ xs) k1" "touches N D (set ?pc) k k1" "keeps k k1"
    have "clear N D f ?rest (rev ?pc @ xs) k1"
      by (rule clear_after [OF cl k1]) (use cl in \<open>auto simp: clear_def\<close>)
    moreover have "content D k1 b = C b" if "b \<in> set ?rest" for b
      using content_after [OF cl k1(2) that] ct that by simp
    moreover have c: "cells k1 (Buf c) = cells k (Buf c)" "bmem k1 c = bmem k c" "busy k1 c"
      using k1(2) Cons.prems(4) by (simp_all add: touches_def)
    moreover have "get_data k1 (Buf c) = ws" using c Cons.prems(5,6) by (simp add: get_data_def cell_fields)
    ultimately show "frees N D f ?rest (set ?rest) (rev ?pc @ xs) k1 (indir_loop rec (free ramstrategy D f) (Buf c) is k1)"
      using Cons.IH [of "rev ?pc @ xs" k1] Cons.prems(3,5) spare_touches [OF k1(2)] by simp
  qed auto
  then show ?case unfolding part_step using Cons.prems(6) by (simp add: get_daddr_def Let_def)
qed

lemma scratch_none_busy: "scratch N i k k' \<Longrightarrow> none_busy_at N k n \<Longrightarrow> none_busy_at N k' n"
  unfolding scratch_def none_busy_at_def by metis

lemma scratch_spare:
  assumes "scratch N i k k'" "spare N k (Suc n)"
  shows "spare N k' n"
proof -
  have i: "i < N" "\<not> busy k i" "\<And>j. busy k' j = (j = i \<or> busy k j)" using assms(1) by (simp_all add: scratch_def)
  have "{j. j < N \<and> \<not> busy k' j} = {j. j < N \<and> \<not> busy k j} - {i}" using i(3) by auto
  then have "card {j. j < N \<and> \<not> busy k' j} = card {j. j < N \<and> \<not> busy k j} - 1" using i(1,2) by simp
  then show ?thesis using assms(2) by (simp add: spare_def)
qed

lemma clear_lends:
  assumes c: "clear N D f bs xs k" and l: "lends N D E i k k1" and m: "outer k1 = outer k" and E: "E \<inter> set xs = {}"
  shows "clear N D f bs xs k1"
proof -
  note d = fs_okD [of N D f xs k]
  have o: "fs_ok N D f xs k" using c by (simp add: clear_def)
  note d = fs_okD [OF o]
  have s: "cache_ok N D k1" "scratch N i k k1" using l by (simp_all add: lends_def)
  have rs: "ram_size k1 = ram_size k" using s(2) by (simp add: scratch_def)
  note mm = bmore_fsk [OF outerD(1) [OF m]]
  have us: "usable (fss k1 f) k1 = usable (fss k f) k" by (rule usable_cong) (simp_all add: mm rs)
  have fm: "fss k1 f = (fss k f)\<lparr>fs_fmod := fs_fmod (fss k f), fs_tfree := fs_tfree (fss k f)\<rparr>" by (simp add: mm)
  have "content D k1 b = content D k b" if "b \<in> set xs" for b
    using l E d(8) [OF that] that by (auto simp: lends_def usable_def)
  moreover have "none_busy_at N k1 (fsbtodb b)" if "b \<in> insert SUPERB (set xs)" for b
    using scratch_none_busy [OF s(2)] d(6,7) that by blast
  ultimately have "fs_ok N D f xs k1" by (intro fs_ok_same [OF o s(1) fm mm(2) rs]) simp_all
  then show ?thesis using c us scratch_none_busy [OF s(2)] unfolding clear_def by metis
qed

text \<open>The frame of indirtrunc around what frees the blocks \<open>bs\<close> below.\<close>

lemma indir_frame_ok:
  assumes cl: "clear N D f (bs @ [bn]) xs k" and sp: "spare N k (Suc (Suc n))"
    and lb: "lastbn \<le> 0 \<or> ind_factor level \<noteq> 0" and lst: "lst = (if 0 < lastbn then lastbn div ind_factor level else lastbn)" "lst < 256"
    and body: "\<And>i k1. clear N D f bs xs k1 \<Longrightarrow> \<forall>b \<in> set bs. content D k1 b = content D k b \<Longrightarrow> spare N k1 (Suc n) \<Longrightarrow> busy k1 i \<Longrightarrow>
      b_addr (cells k1 (Buf i)) = Own i \<Longrightarrow> get_data k1 (Buf i) = content D k bn \<Longrightarrow> frees N D f bs (set bs) xs k1 (body (Buf i) lst k1)"
  obtains k' where "indir_frame ramstrategy D level bn lastbn body k = Some (Got (), k')" "fs_ok N D f (rev bs @ xs) k'"
    "touches N D (insert bn (set bs)) k k'" "keeps k k'" "length (content D k bn) = 512"
    "content D k' bn = take (2 * nat (lst + 1)) (content D k bn) @ replicate (512 - 2 * nat (lst + 1)) 0"
proof -
  have o: "fs_ok N D f xs k" and bn: "usable (fss k f) k bn" "bn \<notin> set xs" "none_busy_at N k (fsbtodb bn)" "bn \<notin> set bs"
    using cl by (auto simp: clear_def)
  have bd: "on_disk k bn" using bn(1) by (simp add: usable_def)
  note c = fs_okD(1) [OF o]
  have s2: "spare N k 2" using sp by (simp add: spare_def)
  obtain i k1 where k1: "indir_copy ramstrategy D bn lst k = Some (Got (Some (Buf i)), k1)" "lends N D {bn} i k k1"
    "get_data k1 (Buf i) = content D k bn" "outer k1 = outer k" "length (content D k bn) = 512"
    "content D k1 bn = take (2 * nat (lst + 1)) (content D k bn) @ replicate (512 - 2 * nat (lst + 1)) 0"
    by (rule indir_copy_ok [OF c s2 bn(3) bd lst(2)]) blast
  have s1: "scratch N i k k1" using k1(2) by (simp add: lends_def)
  have cb: "clear N D f bs xs k" using cl by (simp add: clear_def)
  have bs: "on_disk k b" "b \<noteq> bn" if "b \<in> set bs" for b using cl that by (auto simp: clear_def usable_def)
  have "frees N D f bs (set bs) xs k1 (body (Buf i) lst k1)"
  proof (rule body)
    show "clear N D f bs xs k1" by (rule clear_lends [OF cb k1(2,4)]) (use bn(2) in simp)
    show "\<forall>b \<in> set bs. content D k1 b = content D k b" using k1(2) bs by (simp add: lends_def)
    show "spare N k1 (Suc n)" by (rule scratch_spare [OF s1 sp])
  qed (use s1 k1(3) in \<open>simp_all add: scratch_def\<close>)
  then obtain k2 where k2: "body (Buf i) lst k1 = Some (Got (), k2)" "fs_ok N D f (rev bs @ xs) k2" "touches N D (set bs) k1 k2" "keeps k1 k2"
    by (auto simp: frees_def)
  note l2 = lends_touches(1) [OF k1(2) k2(3)]
  obtain k3 where k3: "brelse (Buf i) k2 = Some k3" "touches N D ({bn} \<union> set bs) k k3" "outer k3 = outer k2" "content D k3 = content D k2"
    "\<forall>j. j \<noteq> i \<longrightarrow> cells k3 (Buf j) = cells k2 (Buf j)" "\<not> busy k3 i" "ram_size k3 = ram_size k2"
    using lends_brelse [OF l2] by metis
  have c3: "cache_ok N D k3" using k3(2) by (simp add: touches_def)
  have o3: "fs_ok N D f (rev bs @ xs) k3"
    by (rule fs_ok_release [OF k2(2) c3 k3(5,6,7) outerD(1) [OF k3(3)]]) (simp add: k3(4))
  have "keeps k k3"
    using k2(4) fouter_outer [OF k3(3)] fouter_outer [OF k1(4)] by (simp add: keeps_def)
  moreover have "on_disk k1 bn" using bd s1 by (simp add: scratch_def on_disk_def)
  then have "content D k3 bn = content D k1 bn" using k2(3) bn(4) by (simp add: k3(4) touches_def)
  moreover have "indir_frame ramstrategy D level bn lastbn body k = Some (Got (), k3)"
    using k1(1) k2(1) k3(1) lb unfolding indir_frame_def lst(1) [symmetric] by (auto simp: and_then_def Let_def)
  ultimately show thesis using that o3 k3(2) k1(5,6) by simp
qed

lemma trsingle_ok:
  assumes "clear N D f (part C 0 ws (rev [nat (lst + 1) ..< 256])) xs k" "spare N k n" "0 < n" "get_data k bp = ws"
  shows "frees N D f (part C 0 ws (rev [nat (lst + 1) ..< 256])) (set (part C 0 ws (rev [nat (lst + 1) ..< 256]))) xs k
    (trsingle ramstrategy D f bp lst k)"
proof -
  define bl where "bl = map (\<lambda>i. daddr_at (2 * i) ws) (rev [nat (lst + 1) ..< 256])"
  have "map (\<lambda>i. get_daddr bp i k) (rev [nat (lst + 1) ..< 256]) = bl" by (simp add: bl_def get_daddr_def assms(4))
  moreover have "part C 0 ws (rev [nat (lst + 1) ..< 256]) = filter (\<lambda>b. b \<noteq> 0) bl" unfolding part_0 bl_def ..
  ultimately show ?thesis unfolding trsingle_def using free_each_ok [of N D f bl xs k n] assms(1-3) by simp
qed

lemma indirtrunc_all: "below_ok N D f C (Suc l) (\<lambda>nb. indirtrunc ramstrategy D f l nb (- 1))"
proof (induction l)
  case 0
  show ?case
    unfolding below_ok_def
  proof (intro allI impI)
    fix nb xs and k :: "'a fsk_scheme"
    assume a: "clear N D f (below C (Suc 0) nb @ [nb]) xs k" "\<forall>b \<in> set (below C (Suc 0) nb @ [nb]). content D k b = C b" "spare N k (Suc 0 + 1)"
    have cn: "content D k nb = C nb" using a(2) by simp
    obtain k' where "indir_frame ramstrategy D 0 nb (- 1) (trsingle ramstrategy D f) k = Some (Got (), k')"
      "fs_ok N D f (rev (below C (Suc 0) nb) @ xs) k'" "touches N D (insert nb (set (below C (Suc 0) nb))) k k'" "keeps k k'"
    proof (rule indir_frame_ok [where n = 0 and lst = "- 1" and level = 0 and lastbn = "- 1" and body = "trsingle ramstrategy D f", OF a(1)])
      fix i and k1 :: "'a fsk_scheme" assume k1: "clear N D f (below C (Suc 0) nb) xs k1" "spare N k1 (Suc 0)" "get_data k1 (Buf i) = content D k nb"
      have "nat (- 1 + 1) = 0" by simp
      then show "frees N D f (below C (Suc 0) nb) (set (below C (Suc 0) nb)) xs k1 (trsingle ramstrategy D f (Buf i) (- 1) k1)"
        using trsingle_ok [of N D f C "C nb" "- 1" xs k1 "Suc 0" "Buf i"] k1 cn unfolding below_Suc by simp
    qed (use a(3) in \<open>auto simp: numeral_2_eq_2\<close>)
    then show "frees N D f (below C (Suc 0) nb) (set (below C (Suc 0) nb @ [nb])) xs k (indirtrunc ramstrategy D f 0 nb (- 1) k)"
      by (simp add: frees_def)
  qed
next
  case (Suc l)
  let ?body = "\<lambda>cpy lst k1. and_then (indir_loop (\<lambda>nb. indirtrunc ramstrategy D f l nb (- 1)) (free ramstrategy D f) cpy (rev [nat (lst + 1) ..< 256]) k1)
       (\<lambda>_ k2 :: 'a fsk_scheme. if (- 1 :: int) < 0 then Some (Got (), k2) else
         let nb = get_daddr cpy (nat lst) k2 in if ind_factor (Suc l) = 0 then None
         else if nb \<noteq> 0 then indirtrunc ramstrategy D f l nb (- 1 mod ind_factor (Suc l)) k2 else Some (Got (), k2))"
  show ?case
    unfolding below_ok_def
  proof (intro allI impI)
    fix nb xs and k :: "'a fsk_scheme"
    let ?bs = "below C (Suc (Suc l)) nb"
    assume a: "clear N D f (?bs @ [nb]) xs k" "\<forall>b \<in> set (?bs @ [nb]). content D k b = C b" "spare N k (Suc (Suc l) + 1)"
    have cn: "content D k nb = C nb" using a(2) by simp
    obtain k' where "indir_frame ramstrategy D (Suc l) nb (- 1) ?body k = Some (Got (), k')"
      "fs_ok N D f (rev ?bs @ xs) k'" "touches N D (insert nb (set ?bs)) k k'" "keeps k k'"
    proof (rule indir_frame_ok [where n = "Suc l" and lst = "- 1" and level = "Suc l" and lastbn = "- 1" and body = ?body, OF a(1)])
      fix i and k1 :: "'a fsk_scheme" assume k1: "clear N D f ?bs xs k1" "\<forall>b \<in> set ?bs. content D k1 b = content D k b" "spare N k1 (Suc (Suc l))"
        "busy k1 i" "b_addr (cells k1 (Buf i)) = Own i" "get_data k1 (Buf i) = content D k nb"
      have "frees N D f (part C (Suc l) (C nb) (rev [0 ..< 256])) (set (part C (Suc l) (C nb) (rev [0 ..< 256]))) xs k1
          (indir_loop (\<lambda>nb. indirtrunc ramstrategy D f l nb (- 1)) (free ramstrategy D f) (Buf i) (rev [0 ..< 256]) k1)"
        by (rule indir_loop_ok [OF Suc.IH]) (use k1 a(2) cn in \<open>simp_all add: below_Suc del: below.simps\<close>)
      then show "frees N D f ?bs (set ?bs) xs k1 (?body (Buf i) (- 1) k1)"
        unfolding below_Suc by (auto simp: frees_def and_then_def)
    qed (use a(3) in auto)
    then show "frees N D f ?bs (set (?bs @ [nb])) xs k (indirtrunc ramstrategy D f (Suc l) nb (- 1) k)"
      by (simp add: frees_def del: below.simps)
  qed
qed

section \<open>The levels of a file\<close>

text \<open>The blocks \<open>bs\<close> can be freed, those of them that are read hold what \<open>C\<close> says, and \<open>n\<close> buffers are free.\<close>

definition ready :: "nat \<Rightarrow> u_int \<Rightarrow> nat \<Rightarrow> (int \<Rightarrow> u_int list) \<Rightarrow> nat \<Rightarrow> int list \<Rightarrow> int list \<Rightarrow> 'a fsk_scheme \<Rightarrow> bool" where
  "ready N D f C n bs xs k \<longleftrightarrow> clear N D f bs xs k \<and> (\<forall>b \<in> set bs. content D k b = C b) \<and> spare N k n"

lemma ready_after:
  assumes r: "ready N D f C n (as @ bs) xs k" and k1: "fs_ok N D f (rev as @ xs) k1" "touches N D (set as) k k1" "keeps k k1"
  shows "ready N D f C n bs (rev as @ xs) k1"
proof -
  have cl: "clear N D f (as @ bs) xs k" using r by (simp add: ready_def)
  have "clear N D f bs (rev as @ xs) k1" by (rule clear_after [OF cl k1]) (use cl in \<open>auto simp: clear_def\<close>)
  then show ?thesis using r content_after [OF cl k1(2)] spare_touches [OF k1(2)] by (simp add: ready_def)
qed

lemma ready_front: "ready N D f C n (as @ bs) xs k \<Longrightarrow> ready N D f C n as xs k"
  by (simp add: ready_def clear_def)

lemma frees_seq:
  assumes r: "ready N D f C n (as @ bs) xs k"
    and a: "ready N D f C n as xs k \<Longrightarrow> frees N D f as (set as) xs k r"
    and b: "\<And>k1. ready N D f C n bs (rev as @ xs) k1 \<Longrightarrow> frees N D f bs E (rev as @ xs) k1 (g () k1)" and E: "set as \<subseteq> E'" "E \<subseteq> E'"
  shows "frees N D f (as @ bs) E' xs k (and_then r g)"
  by (rule frees_then [OF a [OF ready_front [OF r]] E]) (rule b [OF ready_after [OF r]])

text \<open>The blocks of a file, in the order in which they are freed.\<close>

abbreviation slot :: "(int \<Rightarrow> u_int list) \<Rightarrow> int list \<Rightarrow> nat \<Rightarrow> int list" where
  "slot C as l \<equiv> part1 C (Suc l) (as ! (4 + l))"

definition direct :: "int list \<Rightarrow> nat \<Rightarrow> int list" where
  "direct as n = filter (\<lambda>b. b \<noteq> 0) (map (\<lambda>i. as ! i) (rev [n ..< 4]))"

definition file_blocks :: "(int \<Rightarrow> u_int list) \<Rightarrow> int list \<Rightarrow> int list" where
  "file_blocks C as = slot C as 2 @ slot C as 1 @ slot C as 0 @ direct as 0"

text \<open>Those that a truncation to last block \<open>lb\<close> frees, as far as a single indirect block reaches.\<close>

definition dropped :: "(int \<Rightarrow> u_int list) \<Rightarrow> int list \<Rightarrow> int \<Rightarrow> int list" where
  "dropped C as lb = slot C as 2 @ slot C as 1 @
     (if lb < 4 then slot C as 0 @ direct as (nat (lb + 1))
      else if as ! 4 = 0 then [] else part C 0 (C (as ! 4)) (rev [nat (lb - 3) ..< 256]))"

text \<open>The step of \<open>trunc_levels\<close> for one level.\<close>

definition level_step :: "u_int \<Rightarrow> nat \<Rightarrow> int list \<Rightarrow> int list \<Rightarrow> nat \<Rightarrow> 'a fsk_scheme \<Rightarrow> (unit bio_out \<times> 'a fsk_scheme) option" where
  "level_step D f lib as l k = (if as ! (4 + l) \<noteq> 0 then and_then (indirtrunc ramstrategy D f l (as ! (4 + l)) (lib ! l) k)
     (\<lambda>_ k1. if lib ! l < 0 then free ramstrategy D f (as ! (4 + l)) k1 else Some (Got (), k1)) else Some (Got (), k))"

lemma and_then_assoc: "and_then (and_then r g) h = and_then r (\<lambda>x k. and_then (g x k) h)"
  by (simp add: and_then_def split: option.split prod.split bio_out.split)

lemma and_then_Got [simp]: "and_then (Some (Got x, k)) g = g x k"
  by (simp add: and_then_def)

lemma trunc_levels_Cons:
  "trunc_levels ramstrategy D f lib as (l # ls) k =
     and_then (level_step D f lib as l k) (\<lambda>_ k2. if 0 \<le> lib ! l then Some (Got True, k2) else trunc_levels ramstrategy D f lib as ls k2)"
  by (simp add: level_step_def Let_def)

lemma level_step_all:
  assumes "ready N D f C n (slot C as l) xs k" "lib ! l = - 1" "as ! (4 + l) \<noteq> 0 \<Longrightarrow> l + 2 \<le> n"
  shows "frees N D f (slot C as l) (set (slot C as l)) xs k (level_step D f lib as l k)"
proof -
  consider "as ! (4 + l) = 0" | "as ! (4 + l) \<noteq> 0" by blast
  then show ?thesis
  proof cases
    case 1
    then show ?thesis using assms(1) by (simp add: level_step_def part1_def frees_nil ready_def clear_def)
  next
    case 2
    have "spare N k (Suc l + 1)" using assms(1) assms(3) [OF 2] by (simp add: ready_def spare_def)
    then have "frees N D f (slot C as l) (set (slot C as l)) xs k (if as ! (4 + l) \<noteq> 0 then
        and_then (indirtrunc ramstrategy D f l (as ! (4 + l)) (- 1) k) (\<lambda>_ k1. free ramstrategy D f (as ! (4 + l)) k1) else Some (Got (), k))"
      using assms(1) by (intro part1_frees [OF indirtrunc_all]) (simp_all add: ready_def)
    moreover have "level_step D f lib as l k = (if as ! (4 + l) \<noteq> 0 then
        and_then (indirtrunc ramstrategy D f l (as ! (4 + l)) (- 1) k) (\<lambda>_ k1. free ramstrategy D f (as ! (4 + l)) k1) else Some (Got (), k))"
      by (simp add: level_step_def assms(2))
    ultimately show ?thesis by (simp only:)
  qed
qed

text \<open>How many buffers it takes: one for each level of indirect blocks, and one more.\<close>

definition levels_of :: "int list \<Rightarrow> nat" where
  "levels_of as = (if as ! 6 \<noteq> 0 then 3 else if as ! 5 \<noteq> 0 then 2 else if as ! 4 \<noteq> 0 then 1 else 0)"

lemma levels_of_le: "as ! 6 \<noteq> 0 \<Longrightarrow> 2 + 2 \<le> Suc (levels_of as)" "as ! 5 \<noteq> 0 \<Longrightarrow> 1 + 2 \<le> Suc (levels_of as)"
    "as ! 4 \<noteq> 0 \<Longrightarrow> 0 + 2 \<le> Suc (levels_of as)"
  by (simp_all add: levels_of_def)

lemma ind_factor_simps: "ind_factor 0 = 1" "ind_factor 2 = 0"
  by (simp_all add: ind_factor_def)

lemma last_iblock_simps:
  "lb < 260 \<Longrightarrow> last_iblock lb ! 2 = - 1" "lb < 260 \<Longrightarrow> last_iblock lb ! 1 = - 1" "last_iblock lb ! 0 = max (- 1) (lb - 4)"
  "260 \<le> lb \<Longrightarrow> last_iblock lb ! 2 = lb - 260" "260 \<le> lb \<Longrightarrow> last_iblock lb ! 1 = lb - 260"
  by (simp_all add: last_iblock_def ind_factor_simps)

lemma direct_frees:
  assumes "ready N D f C n (direct as m) xs k" "0 < n"
  shows "frees N D f (direct as m) (set (direct as m)) xs k (free_each ramstrategy D f (map (\<lambda>i. as ! i) (rev [m ..< 4])) k)"
  unfolding direct_def by (rule free_each_ok) (use assms in \<open>simp_all add: ready_def direct_def\<close>)

text \<open>The partial step of a single indirect block.\<close>

lemma level_step_part:
  assumes r: "ready N D f C n (part C 0 (C b) (rev [nat (lst + 1) ..< 256])) xs k" and b: "as ! 4 = b" "b \<noteq> 0" "b \<notin> set xs" "usable (fss k f) k b"
    "none_busy_at N k (fsbtodb b)" "content D k b = C b" "b \<notin> set (part C 0 (C b) (rev [nat (lst + 1) ..< 256]))"
    and l: "lib ! 0 = lst" "0 \<le> lst" "lst < 256" and n: "2 \<le> n"
  obtains k' where "level_step D f lib as 0 k = Some (Got (), k')" "fs_ok N D f (rev (part C 0 (C b) (rev [nat (lst + 1) ..< 256])) @ xs) k'"
    "touches N D (insert b (set (part C 0 (C b) (rev [nat (lst + 1) ..< 256])))) k k'" "keeps k k'" "length (C b) = 512"
    "content D k' b = take (2 * nat (lst + 1)) (C b) @ replicate (512 - 2 * nat (lst + 1)) 0"
proof -
  let ?bs = "part C 0 (C b) (rev [nat (lst + 1) ..< 256])"
  have cl: "clear N D f (?bs @ [b]) xs k" using r b by (auto simp: ready_def clear_def)
  have sp: "spare N k (Suc (Suc 0))" using r n by (simp add: ready_def spare_def)
  have f1: "ind_factor 0 = 1" by (simp add: ind_factor_def)
  obtain k' where k': "indir_frame ramstrategy D 0 b lst (trsingle ramstrategy D f) k = Some (Got (), k')" "fs_ok N D f (rev ?bs @ xs) k'"
    "touches N D (insert b (set ?bs)) k k'" "keeps k k'" "length (content D k b) = 512"
    "content D k' b = take (2 * nat (lst + 1)) (content D k b) @ replicate (512 - 2 * nat (lst + 1)) 0"
  proof (rule indir_frame_ok [where n = 0 and lst = lst and level = 0 and lastbn = lst and body = "trsingle ramstrategy D f", OF cl sp])
    fix i and k1 :: "'a fsk_scheme" assume k1: "clear N D f ?bs xs k1" "spare N k1 (Suc 0)" "get_data k1 (Buf i) = content D k b"
    show "frees N D f ?bs (set ?bs) xs k1 (trsingle ramstrategy D f (Buf i) lst k1)"
      by (rule trsingle_ok [OF k1(1,2)]) (use k1(3) b(6) in simp_all)
  qed (use l f1 in auto)
  show thesis
    by (rule that [OF _ k'(2-4)]) (use k' b(1,2,6) l(1,2) in \<open>simp_all add: level_step_def\<close>)
qed

text \<open>The whole of what follows iupdat in itrunc.\<close>

definition trunc_rest :: "u_int \<Rightarrow> nat \<Rightarrow> int \<Rightarrow> int list \<Rightarrow> 'a fsk_scheme \<Rightarrow> (unit bio_out \<times> 'a fsk_scheme) option" where
  "trunc_rest D f lb as k = and_then (trunc_levels ramstrategy D f (last_iblock lb) as [2, 1, 0] k) (\<lambda>done k4.
     if done then Some (Got (), k4) else free_each ramstrategy D f (map (\<lambda>i. as ! i) (rev [nat (lb + 1) ..< 4])) k4)"

text \<open>Nothing but single indirect blocks and direct ones is kept.\<close>

lemma trunc_rest_low:
  assumes r: "ready N D f C (Suc (levels_of as)) (dropped C as lb) xs k" and lb: "lb < 4"
  shows "frees N D f (dropped C as lb) (set (dropped C as lb)) xs k (trunc_rest D f lb as k)"
proof -
  let ?s = "level_step D f (last_iblock lb) as"
  have d: "dropped C as lb = slot C as 2 @ slot C as 1 @ slot C as 0 @ direct as (nat (lb + 1))" using lb by (simp add: dropped_def)
  have l: "last_iblock lb ! 2 = - 1" "last_iblock lb ! 1 = - 1" "last_iblock lb ! 0 = - 1"
    using lb last_iblock_simps(2) [of lb] by (simp_all add: last_iblock_simps)
  have "trunc_rest D f lb as k = and_then (?s 2 k) (\<lambda>_ k1. and_then (?s 1 k1) (\<lambda>_ k2. and_then (?s 0 k2) (\<lambda>_ k3.
      free_each ramstrategy D f (map (\<lambda>i. as ! i) (rev [nat (lb + 1) ..< 4])) k3)))"
    unfolding trunc_rest_def trunc_levels_Cons by (simp add: l(1,3) l(2) [unfolded One_nat_def] and_then_assoc)
  also have "frees N D f (slot C as 2 @ slot C as 1 @ slot C as 0 @ direct as (nat (lb + 1))) (set (dropped C as lb)) xs k \<dots>"
  proof (rule frees_seq [where E = "set (dropped C as lb)", OF r [unfolded d]])
    show "frees N D f (slot C as 2) (set (slot C as 2)) xs k (?s 2 k)" if "ready N D f C (Suc (levels_of as)) (slot C as 2) xs k"
      by (rule level_step_all [OF that l(1)]) (use levels_of_le(1) in simp)
    fix k1 :: "'a fsk_scheme" assume r1: "ready N D f C (Suc (levels_of as)) (slot C as 1 @ slot C as 0 @ direct as (nat (lb + 1))) (rev (slot C as 2) @ xs) k1"
    show "frees N D f (slot C as 1 @ slot C as 0 @ direct as (nat (lb + 1))) (set (dropped C as lb)) (rev (slot C as 2) @ xs) k1
      (and_then (?s 1 k1) (\<lambda>_ k2. and_then (?s 0 k2) (\<lambda>_ k3. free_each ramstrategy D f (map (\<lambda>i. as ! i) (rev [nat (lb + 1) ..< 4])) k3)))"
    proof (rule frees_seq [where E = "set (dropped C as lb)", OF r1])
      fix ys and k1 :: "'a fsk_scheme" assume "ready N D f C (Suc (levels_of as)) (slot C as 1) ys k1"
      then show "frees N D f (slot C as 1) (set (slot C as 1)) ys k1 (?s 1 k1)" by (rule level_step_all [OF _ l(2)]) (use levels_of_le(2) in simp)
    next
      fix ys and k2 :: "'a fsk_scheme" assume r2: "ready N D f C (Suc (levels_of as)) (slot C as 0 @ direct as (nat (lb + 1))) ys k2"
      show "frees N D f (slot C as 0 @ direct as (nat (lb + 1))) (set (dropped C as lb)) ys k2
        (and_then (?s 0 k2) (\<lambda>_ k3. free_each ramstrategy D f (map (\<lambda>i. as ! i) (rev [nat (lb + 1) ..< 4])) k3))"
      proof (rule frees_seq [where E = "set (direct as (nat (lb + 1)))", OF r2])
        assume "ready N D f C (Suc (levels_of as)) (slot C as 0) ys k2"
        then show "frees N D f (slot C as 0) (set (slot C as 0)) ys k2 (?s 0 k2)" by (rule level_step_all [OF _ l(3)]) (use levels_of_le(3) in simp)
      next
        fix zs and k3 :: "'a fsk_scheme" assume "ready N D f C (Suc (levels_of as)) (direct as (nat (lb + 1))) zs k3"
        then show "frees N D f (direct as (nat (lb + 1))) (set (direct as (nat (lb + 1)))) zs k3
          (free_each ramstrategy D f (map (\<lambda>i. as ! i) (rev [nat (lb + 1) ..< 4])) k3)" by (rule direct_frees) simp
      qed (auto simp: d)
    qed (auto simp: d)
  qed (auto simp: d)
  finally show ?thesis unfolding d .
qed

text \<open>A part of the single indirect block is kept.\<close>

lemma trunc_rest_mid:
  assumes r: "ready N D f C (Suc (levels_of as)) (dropped C as lb @ (if as ! 4 = 0 then [] else [as ! 4])) xs k" and lb: "4 \<le> lb" "lb < 260"
  obtains k' where "trunc_rest D f lb as k = Some (Got (), k')" "fs_ok N D f (rev (dropped C as lb) @ xs) k'"
    "touches N D (set (dropped C as lb @ (if as ! 4 = 0 then [] else [as ! 4]))) k k'" "keeps k k'"
    "as ! 4 \<noteq> 0 \<Longrightarrow> length (C (as ! 4)) = 512 \<and>
      content D k' (as ! 4) = take (2 * nat (lb - 3)) (C (as ! 4)) @ replicate (512 - 2 * nat (lb - 3)) 0"
proof -
  let ?s = "level_step D f (last_iblock lb) as" and ?up = "slot C as 2 @ slot C as 1"
  let ?pt = "if as ! 4 = 0 then [] else part C 0 (C (as ! 4)) (rev [nat (lb - 3) ..< 256])" and ?rt = "if as ! 4 = 0 then [] else [as ! 4]"
  have d: "dropped C as lb = ?up @ ?pt" using lb by (simp add: dropped_def)
  have l: "last_iblock lb ! 2 = - 1" "last_iblock lb ! 1 = - 1" "last_iblock lb ! 0 = lb - 4"
    using lb last_iblock_simps(2) [of lb] by (simp_all add: last_iblock_simps)
  have run: "trunc_rest D f lb as k = and_then (and_then (?s 2 k) (\<lambda>_ k1. ?s 1 k1)) (\<lambda>_ k2. and_then (?s 0 k2) (\<lambda>_ k3. Some (Got (), k3)))"
    unfolding trunc_rest_def trunc_levels_Cons using lb by (simp add: l(1,3) l(2) [unfolded One_nat_def] and_then_assoc)
  have r1: "ready N D f C (Suc (levels_of as)) (?up @ (?pt @ ?rt)) xs k" using r unfolding d by simp
  have "frees N D f ?up (set ?up) xs k (and_then (?s 2 k) (\<lambda>_ k1. ?s 1 k1))"
  proof (rule frees_seq [where E = "set (slot C as 1)", OF ready_front [OF r1]])
    show "frees N D f (slot C as 2) (set (slot C as 2)) xs k (?s 2 k)" if "ready N D f C (Suc (levels_of as)) (slot C as 2) xs k"
      by (rule level_step_all [OF that l(1)]) (use levels_of_le(1) in simp)
    fix ys and k1 :: "'a fsk_scheme" assume "ready N D f C (Suc (levels_of as)) (slot C as 1) ys k1"
    then show "frees N D f (slot C as 1) (set (slot C as 1)) ys k1 (?s 1 k1)" by (rule level_step_all [OF _ l(2)]) (use levels_of_le(2) in simp)
  qed auto
  then obtain k2 where k2: "and_then (?s 2 k) (\<lambda>_ k1. ?s 1 k1) = Some (Got (), k2)" "fs_ok N D f (rev ?up @ xs) k2" "touches N D (set ?up) k k2" "keeps k k2"
    by (auto simp: frees_def)
  note r2 = ready_after [OF r1 k2(2-4)]
  show thesis
  proof (cases "as ! 4 = 0")
    case True
    then have "trunc_rest D f lb as k = Some (Got (), k2)" unfolding run k2(1) by (simp add: level_step_def)
    moreover have "touches N D (set (dropped C as lb)) k k2" using k2(3) True by (simp add: d)
    ultimately show thesis using that k2(2,4) True by (simp add: d)
  next
    case False
    let ?b = "as ! 4" and ?bs = "part C 0 (C (as ! 4)) (rev [nat (lb - 4 + 1) ..< 256])"
    have e: "nat (lb - 4 + 1) = nat (lb - 3)" by simp
    have rb: "ready N D f C (Suc (levels_of as)) (?bs @ [?b]) (rev ?up @ xs) k2" using r2 False unfolding e by simp
    have b: "?b \<notin> set (rev ?up @ xs)" "usable (fss k2 f) k2 ?b" "none_busy_at N k2 (fsbtodb ?b)" "content D k2 ?b = C ?b" "?b \<notin> set ?bs"
      using rb by (simp_all add: ready_def clear_def)
    have n: "2 \<le> Suc (levels_of as)" using levels_of_le(3) [OF False] by simp
    obtain k3 where k3: "?s 0 k2 = Some (Got (), k3)" "fs_ok N D f (rev ?bs @ rev ?up @ xs) k3" "touches N D (insert ?b (set ?bs)) k2 k3" "keeps k2 k3"
      "length (C ?b) = 512" "content D k3 ?b = take (2 * nat (lb - 4 + 1)) (C ?b) @ replicate (512 - 2 * nat (lb - 4 + 1)) 0"
      by (rule level_step_part [where lst = "lb - 4" and lib = "last_iblock lb", OF ready_front [OF rb] refl False b]) (use l(3) lb n in auto)
    have dd: "dropped C as lb = ?up @ ?bs" unfolding d e using False by simp
    have "touches N D (set (dropped C as lb @ [?b])) k k3" by (rule touches_mono [OF touches_trans [OF k2(3) k3(3)]]) (auto simp: dd)
    moreover have "trunc_rest D f lb as k = Some (Got (), k3)" unfolding run k2(1) using k3(1) by simp
    ultimately show thesis using that k3(2,5,6) keeps_trans [OF k2(4) k3(4)] dd False unfolding e by simp
  qed
qed

end
