(* ===== verification/TruncProps.thy ===== *)
theory TruncProps imports TruncSpec begin

text \<open>
  Properties of itrunc: what a truncation frees and what it keeps, and what it forgets when the last block that is kept is in
  reach of the double indirect block only.
\<close>

section \<open>The blocks kept\<close>

lemma daddr_cut:
  assumes "length ws = 512" "i < 256"
  shows "daddr_at (2 * i) (take (2 * n) ws @ replicate (512 - 2 * n) 0) = (if i < n then daddr_at (2 * i) ws else 0)"
  using assms by (auto simp: daddr_at_def nth_append words_long_def)

lemma cut_addrs_nth: "i < 7 \<Longrightarrow> cut_addrs lb as ! i = (if if i < 4 then lb < int i else last_iblock lb ! (i - 4) < 0 then 0 else as ! i)"
  by (simp add: cut_addrs_def)

lemma direct_split: "n \<le> 4 \<Longrightarrow> direct as 0 = direct as n @ filter (\<lambda>b. b \<noteq> 0) (map (\<lambda>i. as ! i) (rev [0 ..< n]))"
  using upt_add_eq_append [of 0 n "4 - n"] by (simp add: direct_def)

lemma cut_direct:
  assumes "- 1 \<le> lb" "lb < 4"
  shows "mset (direct (cut_addrs lb as) 0) + mset (direct as (nat (lb + 1))) = mset (direct as 0)"
proof -
  let ?n = "nat (lb + 1)" and ?f = "filter (\<lambda>b :: int. b \<noteq> 0)"
  have n: "?n \<le> 4" using assms by simp
  have "direct (cut_addrs lb as) ?n = []"
    by (simp add: direct_def filter_empty_conv cut_addrs_nth) (use assms in auto)
  moreover have "?f (map (\<lambda>i. cut_addrs lb as ! i) (rev [0 ..< ?n])) = ?f (map (\<lambda>i. as ! i) (rev [0 ..< ?n]))"
    by (rule arg_cong [where f = ?f]) (use assms in \<open>auto simp: cut_addrs_nth\<close>)
  ultimately show ?thesis unfolding direct_split [OF n] by simp
qed

lemma cut_high:
  assumes "lb < 260"
  shows "cut_addrs lb as ! 6 = 0" "cut_addrs lb as ! 5 = 0" "cut_addrs lb as ! 4 = (if lb < 4 then 0 else as ! 4)"
  using assms last_iblock_simps(2) [of lb, unfolded One_nat_def] by (simp_all add: cut_addrs_nth last_iblock_simps)

lemma file_blocks_low:
  assumes "- 1 \<le> lb" "lb < 4"
  shows "mset (file_blocks C' (cut_addrs lb as)) + mset (dropped C as lb) = mset (file_blocks C as)"
proof -
  have "file_blocks C' (cut_addrs lb as) = direct (cut_addrs lb as) 0"
    using cut_high [of lb as] assms by (simp add: file_blocks_def part1_def)
  moreover have "dropped C as lb = slot C as 2 @ slot C as 1 @ slot C as 0 @ direct as (nat (lb + 1))" using assms by (simp add: dropped_def)
  ultimately show ?thesis using cut_direct [OF assms, of as] by (simp add: file_blocks_def ac_simps)
qed

lemma part_split:
  assumes "n \<le> 256"
  shows "part C d ws (rev [0 ..< 256]) = part C d ws (rev [n ..< 256]) @ part C d ws (rev [0 ..< n])"
proof -
  have "[0 ..< 256] = [0 ..< n] @ [n ..< 256]" using assms upt_add_eq_append [of 0 n "256 - n"] by simp
  then show ?thesis by (simp add: part_def)
qed

lemma part_cut:
  assumes "length ws = 512" "n \<le> 256"
  shows "part C' 0 (take (2 * n) ws @ replicate (512 - 2 * n) 0) (rev [0 ..< 256]) = part C 0 ws (rev [0 ..< n])"
proof -
  have z: "filter (\<lambda>b. b \<noteq> 0) (map (\<lambda>i. daddr_at (2 * i) (take (2 * n) ws @ replicate (512 - 2 * n) 0)) (rev [n ..< 256])) = []"
    using daddr_cut [OF assms(1)] by (simp add: filter_empty_conv)
  have y: "map (\<lambda>i. daddr_at (2 * i) (take (2 * n) ws @ replicate (512 - 2 * n) 0)) (rev [0 ..< n]) = map (\<lambda>i. daddr_at (2 * i) ws) (rev [0 ..< n])"
    using daddr_cut [OF assms(1)] assms(2) by simp
  show ?thesis unfolding part_split [OF assms(2)] part_0 z y by simp
qed

lemma cut_direct_all: "4 \<le> lb \<Longrightarrow> direct (cut_addrs lb as) 0 = direct as 0"
proof -
  assume "4 \<le> lb"
  then have "map (\<lambda>i. cut_addrs lb as ! i) (rev [0 ..< 4]) = map (\<lambda>i. as ! i) (rev [0 ..< 4])" by (simp add: cut_addrs_nth)
  then show ?thesis unfolding direct_def by (rule arg_cong [of _ _ "filter (\<lambda>b. b \<noteq> 0)"])
qed

lemma file_blocks_mid:
  assumes "4 \<le> lb" "lb < 260" "as ! 4 \<noteq> 0 \<Longrightarrow> length (C (as ! 4)) = 512 \<and>
      C' (as ! 4) = take (2 * nat (lb - 3)) (C (as ! 4)) @ replicate (512 - 2 * nat (lb - 3)) 0"
  shows "mset (file_blocks C' (cut_addrs lb as)) + mset (dropped C as lb) = mset (file_blocks C as)"
proof -
  note h = cut_high [OF assms(2), of as]
  have n: "nat (lb - 3) \<le> 256" using assms(1,2) by simp
  have f: "file_blocks C' (cut_addrs lb as) = part1 C' (Suc 0) (as ! 4) @ direct as 0"
    using h assms(1) cut_direct_all [OF assms(1), of as] by (simp add: file_blocks_def part1_def)
  have d: "dropped C as lb = slot C as 2 @ slot C as 1 @ (if as ! 4 = 0 then [] else part C 0 (C (as ! 4)) (rev [nat (lb - 3) ..< 256]))"
    using assms(1) by (simp add: dropped_def)
  show ?thesis
  proof (cases "as ! 4 = 0")
    case True
    then show ?thesis unfolding f d unfolding file_blocks_def by (simp add: part1_def)
  next
    case False
    have b': "below C' (Suc 0) (as ! 4) = part C 0 (C (as ! 4)) (rev [0 ..< nat (lb - 3)])"
      unfolding below_Suc using assms(3) [OF False] part_cut [OF _ n, of "C (as ! 4)" C' C] by simp
    have b: "below C (Suc 0) (as ! 4) = part C 0 (C (as ! 4)) (rev [nat (lb - 3) ..< 256]) @ part C 0 (C (as ! 4)) (rev [0 ..< nat (lb - 3)])"
      unfolding below_Suc by (rule part_split [OF n])
    have s: "part1 C (Suc 0) (as ! 4) = below C (Suc 0) (as ! 4) @ [as ! 4]" for C using False by (simp add: part1_def)
    show ?thesis unfolding f d unfolding file_blocks_def using False by (simp add: s b b' del: below.simps)
  qed
qed

section \<open>The blocks of a file as a tree\<close>

lemma below_step: "0 \<le> p \<Longrightarrow> daddr_at (2 * nat (p mod 256)) (C b) = nb \<Longrightarrow> nb \<noteq> 0 \<Longrightarrow> set (below C d nb @ [nb]) \<subseteq> set (below C (Suc d) b)"
proof -
  assume a: "0 \<le> p" "daddr_at (2 * nat (p mod 256)) (C b) = nb" "nb \<noteq> 0"
  have "nat (p mod 256) < 256" by (simp add: nat_less_iff)
  then have "nat (p mod 256) \<in> {0 ..< 256}" by simp
  then show ?thesis using a by (force simp: Let_def)
qed

lemma node_below:
  "m \<le> d \<Longrightarrow> 0 \<le> p \<Longrightarrow> node C r m p \<noteq> 0 \<Longrightarrow> r \<noteq> 0 \<and> node C r m p \<in> insert r (set (below C d r)) \<and> set (below C (d - m) (node C r m p)) \<subseteq> set (below C d r)"
proof (induction m arbitrary: p)
  case (Suc m)
  let ?b = "node C r m (p div 256)"
  have b: "?b \<noteq> 0" using Suc.prems(3) by (auto simp: Let_def)
  have p: "0 \<le> p div 256" using Suc.prems(2) by (simp add: pos_imp_zdiv_nonneg_iff)
  have ih: "r \<noteq> 0" "set (below C (Suc (d - Suc m)) ?b) \<subseteq> set (below C d r)"
    using Suc.IH [OF _ p b] Suc.prems(1) by (simp_all add: Suc_diff_Suc del: below.simps)
  have n: "node C r (Suc m) p = daddr_at (2 * nat (p mod 256)) (C ?b)" using b by simp
  have "set (below C (d - Suc m) (node C r (Suc m) p) @ [node C r (Suc m) p]) \<subseteq> set (below C (Suc (d - Suc m)) ?b)"
    by (rule below_step [where p = p and C = C and b = ?b, OF Suc.prems(2) n [symmetric] Suc.prems(3)])
  with ih show ?case by (auto simp del: below.simps node.simps)
qed simp

lemma slot_nodes:
  assumes "s < 7" "m \<le> depth s" "0 \<le> p" "p < 256 ^ m" "node C (as ! s) m p \<noteq> 0"
  shows "node C (as ! s) m p \<in> set (file_blocks C as)"
proof (cases "s < 4")
  case True
  then have "m = 0" using assms(2) by simp
  then have "node C (as ! s) m p = as ! s" "as ! s \<noteq> 0" using assms(5) by simp_all
  then show ?thesis using True by (auto simp: file_blocks_def direct_def)
next
  case False
  then consider "s = 4" | "s = 5" | "s = 6" using assms(1) by linarith
  moreover have "as ! s \<noteq> 0 \<and> node C (as ! s) m p \<in> insert (as ! s) (set (below C (depth s) (as ! s)))"
    using node_below [OF assms(2,3,5)] by blast
  ultimately show ?thesis
    by cases (auto simp: file_blocks_def part1_def eval_nat_numeral simp del: below.simps node.simps)
qed

section \<open>itrunc\<close>

lemma last_block_blocks: "0 \<le> n \<Longrightarrow> n < 2 ^ 21 \<Longrightarrow> last_block (1024 * n) = n - 1"
  by (simp add: last_block_def)

text \<open>A file that can be truncated: its blocks are all different, in the file system, not free and not in use, the block of its inode is
  before the data, and there are buffers enough.\<close>

definition trunc_ok :: "nat \<Rightarrow> u_int \<Rightarrow> nat \<Rightarrow> int list \<Rightarrow> 'a ink_scheme \<Rightarrow> bool" where
  "trunc_ok N D ip xs k \<longleftrightarrow> (let v = itab k ip; f = i_fs k ip; b = itod (i_number v) in
     clear N D f (file_blocks (content D k) (i_addr v)) xs k \<and> spare N k (Suc (levels_of (i_addr v))) \<and>
     i_dev v = D \<and> fits v \<and> \<not> flag (i_flag v) 0x1000 \<and> fs_ronly (fss k f) = 0 \<and> int32 (time_sec k) \<and>
     on_disk k b \<and> b < uint (fs_isize (fss k f)) \<and> none_busy_at N k (fsbtodb b))"

lemma fmore_ink: "fsk.more (k' :: 'a ink_scheme) = fsk.more k \<Longrightarrow> itab k' = itab k \<and> i_fs k' = i_fs k"
  by (cases k; cases k') simp


lemma file_block_cut:
  assumes lb: "- 1 \<le> lb" "lb < 260" and b: "0 \<le> b"
    and mid: "4 \<le> lb \<Longrightarrow> as ! 4 \<noteq> 0 \<Longrightarrow> length (C (as ! 4)) = 512 \<and>
      C' (as ! 4) = take (2 * nat (lb - 3)) (C (as ! 4)) @ replicate (512 - 2 * nat (lb - 3)) 0"
  shows "file_block C' (cut_addrs lb as) b = (if b \<le> lb then file_block C as b else None)"
proof -
  note h = cut_high [OF lb(2), of as]
  have none: "leaf C' (cut_addrs lb as) s p = 0" if "cut_addrs lb as ! s = 0" for s p
    using node_zero [of C' "cut_addrs lb as ! s" 0 p "depth s"] that by (simp add: leaf_def)
  consider "b < 4" | "4 \<le> b" "b < 260" | "260 \<le> b" by linarith
  then show ?thesis
  proof cases
    case 1
    then have "place b = (nat b, 0)" "nat b < 4" using b by (simp_all add: place_def)
    then show ?thesis using b by (simp add: file_block_def leaf_def cut_addrs_nth)
  next
    case 2
    then have p: "place b = (4, b - 4)" "(b - 4) mod 256 = b - 4" "(b - 4) div 256 = 0" by (simp_all add: place_def)
    have lf: "leaf C'' as' 4 (b - 4) = (if as' ! 4 = 0 then 0 else daddr_at (2 * nat (b - 4)) (C'' (as' ! 4)))" for C'' as'
      by (simp add: leaf_def p(2) Let_def)
    show ?thesis
    proof (cases "4 \<le> lb \<and> as ! 4 \<noteq> 0")
      case True
      have "nat (b - 4) < 256" using 2 by simp
      then have "daddr_at (2 * nat (b - 4)) (C' (as ! 4)) = (if nat (b - 4) < nat (lb - 3) then daddr_at (2 * nat (b - 4)) (C (as ! 4)) else 0)"
        using mid True daddr_cut by simp
      moreover have "nat (b - 4) < nat (lb - 3) \<longleftrightarrow> b \<le> lb" using 2 by auto
      ultimately show ?thesis using True h(3) by (simp add: file_block_def p(1) lf)
    next
      case False
      then have z: "cut_addrs lb as ! 4 = 0" using h(3) by auto
      show ?thesis
      proof (cases "b \<le> lb")
        case True
        then have "as ! 4 = 0" using False 2 by auto
        then show ?thesis using z by (simp add: file_block_def p(1) lf)
      qed (simp add: file_block_def p(1) lf z)
    qed
  next
    case 3
    then have "fst (place b) = 5 \<or> fst (place b) = 6" by (simp add: place_def)
    then have "cut_addrs lb as ! fst (place b) = 0" using h by auto
    then show ?thesis using none 3 lb(2) by (simp add: file_block_def split_beta)
  qed
qed

lemma dropped_distinct:
  assumes d: "distinct (file_blocks C as)" and lb: "- 1 \<le> lb" "lb < 260"
  defines "rt \<equiv> (if lb < 4 \<or> as ! 4 = 0 then [] else [as ! 4])"
  shows "distinct (dropped C as lb @ rt)" "set (dropped C as lb @ rt) \<subseteq> set (file_blocks C as)"
proof -
  have "\<exists>low. mset (file_blocks C as) = mset (dropped C as lb @ rt) + low"
  proof (cases "lb < 4")
    case True
    then have n: "nat (lb + 1) \<le> 4" by simp
    show ?thesis using True by (simp add: file_blocks_def dropped_def rt_def direct_split [OF n]) 
  next
    case False
    then have n: "nat (lb - 3) \<le> 256" using lb by simp
    show ?thesis
    proof (cases "as ! 4 = 0")
      case True
      then show ?thesis using False by (simp add: file_blocks_def dropped_def rt_def part1_def)
    next
      case nz: False
      have "below C (Suc 0) (as ! 4) = part C 0 (C (as ! 4)) (rev [nat (lb - 3) ..< 256]) @ part C 0 (C (as ! 4)) (rev [0 ..< nat (lb - 3)])"
        unfolding below_Suc by (rule part_split [OF n])
      then have s: "part1 C (Suc 0) (as ! 4) = part C 0 (C (as ! 4)) (rev [nat (lb - 3) ..< 256]) @ part C 0 (C (as ! 4)) (rev [0 ..< nat (lb - 3)]) @ [as ! 4]"
        using nz by (simp add: part1_def del: below.simps)
      show ?thesis using False nz by (simp add: file_blocks_def dropped_def rt_def s)
    qed
  qed
  then obtain low where low: "mset (file_blocks C as) = mset (dropped C as lb @ rt) + mset low" by (metis ex_mset)
  then have m: "mset (file_blocks C as) = mset ((dropped C as lb @ rt) @ low)" by simp
  show "distinct (dropped C as lb @ rt)" using mset_eq_imp_distinct_iff [OF m] d by auto
  show "set (dropped C as lb @ rt) \<subseteq> set (file_blocks C as)" using mset_eq_setD [OF m] by auto
qed

lemma touched_cut:
  "dirty_ino (v\<lparr>i_size := n, i_addr := as, i_flag := set_flag (or ICHG IUPD) (i_flag v)\<rparr>)"
  by (simp add: flag_def set_flag_def bit.conj_disj_distrib2 or_eq_0_iff)

lemma fits_cut: "fits v \<Longrightarrow> int32 n \<Longrightarrow> fits (v\<lparr>i_size := n, i_addr := cut_addrs lb (i_addr v), i_flag := fl\<rparr>)"
  unfolding fits_def cut_addrs_def by auto

section \<open>What a routine that works on one inode leaves alone\<close>

text \<open>The place of an inode on the disk, and what is there.\<close>

definition dsk :: "u_int \<Rightarrow> 'a bio_scheme \<Rightarrow> u_int \<Rightarrow> u_int list" where
  "dsk D k ino = get_dinode ino (content D k (itod ino))"

definition ino_place_ok :: "nat \<Rightarrow> 'a fsk_scheme \<Rightarrow> u_int \<Rightarrow> bool" where
  "ino_place_ok f k ino \<longleftrightarrow> on_disk k (itod ino) \<and> itod ino < uint (fs_isize (fss k f))"

text \<open>All other inodes, in core and on the disk, and the buffers that are in use.\<close>

definition alters :: "nat \<Rightarrow> u_int \<Rightarrow> nat \<Rightarrow> nat \<Rightarrow> 'a ink_scheme \<Rightarrow> 'a ink_scheme \<Rightarrow> bool" where
  "alters N D f ip k k' \<longleftrightarrow> touches N D UNIV k k' \<and> itab k' = (itab k)(ip := itab k' ip) \<and> i_number (itab k' ip) = i_number (itab k ip) \<and>
     i_dev (itab k' ip) = i_dev (itab k ip) \<and> i_fs k' = i_fs k \<and> fouter k' = (fst (fouter k), fst (snd (fouter k)), fst (snd (snd (fouter k))), fsk.more k') \<and>
     ink.more k' = ink.more k \<and>
     (\<forall>ino. ino \<noteq> i_number (itab k ip) \<longrightarrow> ino_place_ok f k ino \<longrightarrow> dsk D k' ino = dsk D k ino)"

lemma altersD:
  assumes "alters N D f ip k k'"
  shows "touches N D UNIV k k'" "j \<noteq> ip \<Longrightarrow> itab k' j = itab k j" "i_number (itab k' ip) = i_number (itab k ip)"
    "i_dev (itab k' ip) = i_dev (itab k ip)" "i_fs k' = i_fs k" "mounts k' = mounts k" "time_sec k' = time_sec k"
    "nofree (fss k' g) = nofree (fss k g)" "ink.more k' = ink.more k"
    "ino \<noteq> i_number (itab k ip) \<Longrightarrow> ino_place_ok f k ino \<Longrightarrow> dsk D k' ino = dsk D k ino"
    "ino_place_ok h k' ino = ino_place_ok h k ino"
proof -
  have a: "touches N D UNIV k k'" "itab k' = (itab k)(ip := itab k' ip)" "i_number (itab k' ip) = i_number (itab k ip)"
    "i_dev (itab k' ip) = i_dev (itab k ip)" "i_fs k' = i_fs k" "mounts k' = mounts k" "time_sec k' = time_sec k"
    "(\<lambda>g. nofree (fss k' g)) = (\<lambda>g. nofree (fss k g))" "ink.more k' = ink.more k"
    "\<forall>ino. ino \<noteq> i_number (itab k ip) \<longrightarrow> ino_place_ok f k ino \<longrightarrow> dsk D k' ino = dsk D k ino"
    using assms unfolding alters_def fouter_def by simp_all
  show "touches N D UNIV k k'" "i_number (itab k' ip) = i_number (itab k ip)"
    "i_dev (itab k' ip) = i_dev (itab k ip)" "i_fs k' = i_fs k" "mounts k' = mounts k" "time_sec k' = time_sec k" "ink.more k' = ink.more k"
    by (fact a)+
  show n: "nofree (fss k' g) = nofree (fss k g)" for g using fun_cong [OF a(8), of g] .
  show "j \<noteq> ip \<Longrightarrow> itab k' j = itab k j" using fun_cong [OF a(2), of j] by simp
  show "ino \<noteq> i_number (itab k ip) \<Longrightarrow> ino_place_ok f k ino \<Longrightarrow> dsk D k' ino = dsk D k ino" using a(10) by blast
  have "ram_size k' = ram_size k" using a(1) by (simp add: touches_def)
  then show "ino_place_ok h k' ino = ino_place_ok h k ino" using nofreeD(1) [OF n] by (simp add: ino_place_ok_def on_disk_def)
qed

lemma altersI:
  assumes "touches N D UNIV k k'" "itab k' = (itab k)(ip := v)" "i_number v = i_number (itab k ip)"
    "i_dev v = i_dev (itab k ip)" "i_fs k' = i_fs k" "mounts k' = mounts k" "time_sec k' = time_sec k"
    "\<And>g. nofree (fss k' g) = nofree (fss k g)" "ink.more k' = ink.more k"
    "\<And>ino. ino \<noteq> i_number (itab k ip) \<Longrightarrow> ino_place_ok f k ino \<Longrightarrow> dsk D k' ino = dsk D k ino"
  shows "alters N D f ip k k'"
  using assms unfolding alters_def fouter_def by auto

lemma alters_trans:
  assumes a: "alters N D f ip k k1" and b: "alters N D f ip k1 k2"
  shows "alters N D f ip k k2"
proof (rule altersI)
  show "touches N D UNIV k k2" using touches_trans [OF altersD(1) [OF a] altersD(1) [OF b]] by simp
  show "itab k2 = (itab k)(ip := itab k2 ip)" using altersD(2) [OF a] altersD(2) [OF b] by (auto simp: fun_eq_iff)
  show "dsk D k2 ino = dsk D k ino" if "ino \<noteq> i_number (itab k ip)" "ino_place_ok f k ino" for ino
    using altersD(10) [OF a that] altersD(10) [OF b] that altersD(3,11) [OF a] by simp
qed (use altersD [OF a] altersD [OF b] in simp_all)

lemma alters_refl: "cache_ok N D k \<Longrightarrow> alters N D f ip k k"
  by (rule altersI [where v = "itab k ip"]) (use touches_mono [OF touches_refl] in simp_all)

lemma alters_upd:
  assumes c: "cache_ok N D k" and g: "i_number (g (itab k ip)) = i_number (itab k ip)" "i_dev (g (itab k ip)) = i_dev (itab k ip)"
  shows "alters N D f ip k (upd_ino ip g k)"
proof (rule altersI [where v = "g (itab k ip)"])
  note sc = upd_ino_cache(1) [of k ip g]
  show "touches N D UNIV k (upd_ino ip g k)" by (rule touches_mono [OF touches_cache [OF touches_refl [OF c] sc]]) simp
  show "dsk D (upd_ino ip g k) ino = dsk D k ino" for ino by (simp add: dsk_def same_cache_cong(4) [OF sc])
qed (use g in \<open>simp_all add: upd_ino_def\<close>)

lemma alters_frees:
  assumes t: "touches N D E k k'" and E: "\<forall>b \<in> E. usable (fss k f) k b" and kp: "keeps k k'"
  shows "alters N D f ip (k :: 'a ink_scheme) k'"
proof -
  have m: "itab k' = itab k" "i_fs k' = i_fs k" "ink.more k' = ink.more k"
    using keepsD(4) [OF kp] by (cases k; cases k'; simp)+
  have "content D k' (itod ino) = content D k (itod ino)" if "ino_place_ok f k ino" for ino
  proof -
    have "itod ino \<notin> E" using E that by (auto simp: usable_def badblock_def ino_place_ok_def)
    then show ?thesis using t that by (simp add: touches_def ino_place_ok_def)
  qed
  then show ?thesis
    using touches_mono [OF t] keepsD [OF kp] m by (intro altersI [where v = "itab k ip"]) (simp_all add: dsk_def)
qed

lemma alters_iupdat:
  assumes c: "cache_ok N D k" and b: "\<exists>i < N. \<not> busy k i" "i_dev (itab k ip) = D"
    and p: "none_busy_at N k (fsbtodb (itod (i_number (itab k ip))))" "on_disk k (itod (i_number (itab k ip)))" "\<not> tape D"
    and d: "dirty_ino (itab k ip)" "fs_ronly (fss k (i_fs k ip)) = 0" "fits (itab k ip)" "int32 ta" "int32 tm" "int32 (time_sec k)"
  obtains k' where "iupdat ramstrategy tape ip ta tm w k = Some (Got (), k')" "touches N D {itod (i_number (itab k ip))} k k'"
    "alters N D f ip k k'" "itab k' ip = stamp ta tm (time_sec k) (itab k ip)" "fss k' = fss k" "a_flock k' = a_flock k"
    "\<And>v. load_dinode (dsk D k' (i_number (itab k ip))) v = with_disk (itab k' ip) v"
proof -
  let ?n = "i_number (itab k ip)"
  obtain k' v where k': "iupdat ramstrategy tape ip ta tm w k = Some (Got (), k')" "touches N D {itod ?n} k k'"
    "v = stamp ta tm (time_sec k) (itab k ip)" "itab k' = (itab k)(ip := v)"
    "content D k' (itod (i_number v)) = put_dinode v (content D k (itod (i_number v)))" "fits v"
    "length (content D k (itod (i_number v))) = 512" "fss k' = fss k" "i_fs k' = i_fs k" "a_flock k' = a_flock k"
    "mounts k' = mounts k" "time_sec k' = time_sec k" "ink.more k' = ink.more k"
    by (rule iupdat_ok [where tape = tape and w = w, OF c b p d])
  have n: "i_number v = ?n" "i_dev v = i_dev (itab k ip)" by (simp_all add: k'(3))
  note g = put_dinode_get(1) [OF k'(6,7)]
  have "dsk D k' ino = dsk D k ino" if i: "ino \<noteq> ?n" "ino_place_ok f k ino" for ino
  proof (cases "itod ino = itod ?n")
    case True
    then have "itoo ino \<noteq> itoo ?n" using ino_place [of ino ?n] i(1) by auto
    then show ?thesis using g [of ino] k'(5) by (simp add: dsk_def True n)
  next
    case False
    then show ?thesis using k'(2) i(2) by (simp add: dsk_def touches_def ino_place_ok_def)
  qed
  then have a: "alters N D f ip k k'"
    using touches_mono [OF k'(2)] k' n by (intro altersI [where v = v]) simp_all
  have "length (get_dinode ?n (content D k (itod ?n))) = 32" using k'(7) itoo_less [of ?n] by (simp add: get_dinode_def n)
  then have "load_dinode (dsk D k' ?n) w = with_disk (itab k' ip) w" for w
    using dinode_roundtrip [OF k'(6)] g [of ?n] k'(5) by (simp add: dsk_def n k'(4))
  then show thesis using that [OF k'(1,2) a] k'(3,4,8,10) by simp
qed

text \<open>Up to the writing of the inode.\<close>

lemma trunc_start:
  fixes lb :: int
  assumes k: "trunc_ok N D ip xs k" and n: "int32 len" and t: "\<not> tape D"
  defines "v \<equiv> itab k ip" and "f \<equiv> i_fs k ip"
  defines "k2 \<equiv> upd_ino ip (\<lambda>v. v\<lparr>i_size := len, i_addr := cut_addrs lb (i_addr v), i_flag := set_flag (or ICHG IUPD) (i_flag v)\<rparr>) k"
  obtains k3 where "iupdat ramstrategy tape ip (time_sec k2) (time_sec k2) True k2 = Some (Got (), k3)"
    "\<forall>bs. distinct bs \<longrightarrow> set bs \<subseteq> set (file_blocks (content D k) (i_addr v)) \<longrightarrow>
       ready N D f (content D k) (Suc (levels_of (i_addr v))) bs xs k3"
    "alters N D f ip k k3" "usable (fss k3 f) k3 = usable (fss k f) k"
    "itab k3 ip = stamp (time_sec k) (time_sec k) (time_sec k) (v\<lparr>i_size := len, i_addr := cut_addrs lb (i_addr v), i_flag := set_flag (or ICHG IUPD) (i_flag v)\<rparr>)"
proof -
  let ?b = "itod (i_number v)" and ?bl = "file_blocks (content D k) (i_addr v)"
  have h: "clear N D f ?bl xs k" "spare N k (Suc (levels_of (i_addr v)))" "i_dev v = D" "fits v" "fs_ronly (fss k f) = 0" "int32 (time_sec k)"
    "on_disk k ?b" "?b < uint (fs_isize (fss k f))" "none_busy_at N k (fsbtodb ?b)"
    using k by (simp_all add: trunc_ok_def Let_def v_def f_def)
  have o: "fs_ok N D f xs k" using h(1) by (simp add: clear_def)
  note d = fs_okD [OF o]
  have sc: "same_cache k k2" by (simp add: k2_def upd_ino_cache)
  note q = same_cache_cong [OF sc]
  have v2: "itab k2 ip = v\<lparr>i_size := len, i_addr := cut_addrs lb (i_addr v), i_flag := set_flag (or ICHG IUPD) (i_flag v)\<rparr>"
    "time_sec k2 = time_sec k" "fss k2 = fss k" "i_fs k2 = i_fs k" "a_flock k2 = a_flock k" by (simp_all add: k2_def v_def)
  have b2: "itod (i_number (itab k2 ip)) = ?b" by (simp add: v2)
  have p: "cache_ok N D k2" "\<exists>i < N. \<not> busy k2 i" "i_dev (itab k2 ip) = D" "none_busy_at N k2 (fsbtodb (itod (i_number (itab k2 ip))))"
    "on_disk k2 (itod (i_number (itab k2 ip)))"
    using d(1) spare_some [OF h(2)] h(3,7,9) unfolding b2 by (simp_all add: q v2)
  have r: "dirty_ino (itab k2 ip)" "fs_ronly (fss k2 (i_fs k2 ip)) = 0" "fits (itab k2 ip)" "int32 (time_sec k2)"
    using touched_cut h(5,6) fits_cut [OF h(4) n] by (simp_all add: v2 f_def)
  obtain k3 where k3: "iupdat ramstrategy tape ip (time_sec k2) (time_sec k2) True k2 = Some (Got (), k3)"
    "touches N D {itod (i_number (itab k2 ip))} k2 k3" "alters N D f ip k2 k3" "itab k3 ip = stamp (time_sec k2) (time_sec k2) (time_sec k2) (itab k2 ip)"
    "fss k3 = fss k2" "a_flock k3 = a_flock k2"
    by (rule alters_iupdat [where tape = tape and w = True and f = f, OF p t r(1-3) r(4,4,4)])
  have a3: "alters N D f ip k k3" by (rule alters_trans [OF _ k3(3)], unfold k2_def, rule alters_upd [OF d(1)]) simp_all
  have t3: "touches N D {?b} k k3"
    using touches_trans [OF touches_cache [OF touches_refl [OF d(1)] sc] k3(2) [unfolded b2]] by simp
  have rs: "ram_size k3 = ram_size k" using t3 by (simp add: touches_def)
  have us: "usable (fss k3 f) k3 = usable (fss k f) k" by (rule usable_cong) (simp_all add: k3(5) v2 rs)
  have out: "\<not> usable (fss k f) k ?b" using h(8) by (simp add: usable_def badblock_def)
  have o3: "fs_ok N D f xs k3"
    by (rule fs_okI [OF o t3 _ order.refl]) (use d(2,5,8) out in \<open>auto simp: k3(5,6) v2\<close>)
  have rd: "ready N D f (content D k) (Suc (levels_of (i_addr v))) bs xs k3" if bs: "distinct bs" "set bs \<subseteq> set ?bl" for bs
  proof -
    have u: "usable (fss k f) k b" "b \<notin> set xs" "none_busy_at N k3 (fsbtodb b)" "on_disk k b" "b \<noteq> ?b" if "b \<in> set bs" for b
    proof -
      have m: "b \<in> set ?bl" using bs(2) that by blast
      then show u: "usable (fss k f) k b" "b \<notin> set xs" using h(1) by (simp_all add: clear_def)
      show "none_busy_at N k3 (fsbtodb b)" by (rule touches_none_busy [OF t3]) (use h(1) m in \<open>simp add: clear_def\<close>)
      show "on_disk k b" "b \<noteq> ?b" using u(1) out by (auto simp: usable_def)
    qed
    have "content D k3 b = content D k b" if "b \<in> set bs" for b using t3 u(4,5) [OF that] by (simp add: touches_def)
    then show ?thesis using o3 bs(1) u us h(2) spare_touches [OF t3] by (simp add: ready_def clear_def)
  qed
  show thesis by (rule that [OF k3(1) _ a3 us]) (use rd k3(4) v2 in simp_all)
qed

text \<open>Once the blocks have been freed.\<close>

lemma trunc_end:
  assumes o: "fs_ok N D f ys k4" and kp: "keeps k3 k4" and i: "itab k3 ip = v" "i_fs k3 = fs0"
  defines "k5 \<equiv> upd_ino ip (\<lambda>v. v\<lparr>i_flag := set_flag ICHG (i_flag v)\<rparr>) (k4 :: 'a ink_scheme)"
  shows "fs_ok N D f ys k5" "i_addr (itab k5 ip) = i_addr v" "i_size (itab k5 ip) = i_size v" "content D k5 = content D k4" "i_fs k5 = fs0"
proof -
  have sc: "same_cache k4 k5" by (simp add: k5_def upd_ino_cache)
  show "fs_ok N D f ys k5" by (rule fs_ok_same_cache [OF o sc]) (simp_all add: k5_def)
  have "itab k4 = itab k3" "i_fs k4 = i_fs k3" using fmore_ink [of k4 k3] keepsD(4) [OF kp] by simp_all
  then show "i_addr (itab k5 ip) = i_addr v" "i_size (itab k5 ip) = i_size v" "i_fs k5 = fs0" using i by (simp_all add: k5_def)
  show "content D k5 = content D k4" by (rule same_cache_cong(4) [OF sc])
qed

lemma itrunc_run:
  assumes k: "trunc_ok N D ip xs k" and n: "0 \<le> n" "1024 * n < i_size (itab k ip)"
    and k3: "iupdat ramstrategy tape ip (time_sec k2) (time_sec k2) True k2 = Some (Got (), k3)"
    and k2: "k2 = upd_ino ip (\<lambda>v. v\<lparr>i_size := 1024 * n, i_addr := cut_addrs (n - 1) (i_addr v), i_flag := set_flag (or ICHG IUPD) (i_flag v)\<rparr>) k"
  shows "itrunc ramstrategy tape ip (1024 * n) k = and_then (trunc_rest D (i_fs k ip) (n - 1) (i_addr (itab k ip)) k3)
    (\<lambda>_ k5. Some (Got (), upd_ino ip (\<lambda>v. v\<lparr>i_flag := set_flag ICHG (i_flag v)\<rparr>) k5))"
proof -
  have h: "i_dev (itab k ip) = D" "\<not> flag (i_flag (itab k ip)) 0x1000" "int32 (i_size (itab k ip))"
    using k by (simp_all add: trunc_ok_def Let_def fits_def)
  have s: "i_size (itab k ip) mod 2 ^ 32 = i_size (itab k ip)" "int32 (1024 * n)" using h(3) n by (auto simp: int32_def)
  have lb: "last_block (1024 * n) = n - 1" using h(3) n by (intro last_block_blocks) (auto simp: int32_def)
  have m: "(1024 * n) mod 1024 = 0" by simp
  show ?thesis
    unfolding itrunc_def trunc_rest_def
    using h(1,2) s n k3 [unfolded k2] lb m by (simp add: Let_def wrap32_id [OF s(2)] and_then_assoc del: trunc_levels.simps cong: if_cong)
qed

lemma trunc_rest_ok:
  assumes rd: "\<And>bs. distinct bs \<Longrightarrow> set bs \<subseteq> set (file_blocks C as) \<Longrightarrow> ready N D f C (Suc (levels_of as)) bs xs k3"
    and d: "distinct (file_blocks C as)" and lb: "- 1 \<le> lb" "lb < 260"
  obtains k4 where "trunc_rest D f lb as k3 = Some (Got (), k4)" "fs_ok N D f (rev (dropped C as lb) @ xs) k4" "keeps k3 k4"
    "touches N D (set (file_blocks C as)) k3 k4"
    "mset (file_blocks (content D k4) (cut_addrs lb as)) + mset (dropped C as lb) = mset (file_blocks C as)"
    "\<And>b. 0 \<le> b \<Longrightarrow> file_block (content D k4) (cut_addrs lb as) b = (if b \<le> lb then file_block C as b else None)"
proof -
  note dd = dropped_distinct [OF d lb]
  show thesis
  proof (cases "lb < 4")
    case True
    have r: "ready N D f C (Suc (levels_of as)) (dropped C as lb) xs k3" by (rule rd) (use dd True in simp_all)
    obtain k4 where k4: "trunc_rest D f lb as k3 = Some (Got (), k4)" "fs_ok N D f (rev (dropped C as lb) @ xs) k4" "keeps k3 k4"
      "touches N D (set (dropped C as lb)) k3 k4"
      using trunc_rest_low [OF r True] by (auto simp: frees_def)
    have t: "touches N D (set (file_blocks C as)) k3 k4" by (rule touches_mono [OF k4(4)]) (use dd True in simp)
    show thesis
      by (rule that [OF k4(1-3) t file_blocks_low [OF lb(1) True]]) (rule file_block_cut [OF lb], use True in simp_all)
  next
    case False
    have r: "ready N D f C (Suc (levels_of as)) (dropped C as lb @ (if as ! 4 = 0 then [] else [as ! 4])) xs k3"
      by (rule rd) (use dd False in \<open>simp_all split: if_splits\<close>)
    have f: "4 \<le> lb" using False by simp
    show thesis
    proof (rule trunc_rest_mid [OF r f lb(2)])
      fix k4 assume k4: "trunc_rest D f lb as k3 = Some (Got (), k4)" "fs_ok N D f (rev (dropped C as lb) @ xs) k4"
        "touches N D (set (dropped C as lb @ (if as ! 4 = 0 then [] else [as ! 4]))) k3 k4" "keeps k3 k4"
        "as ! 4 \<noteq> 0 \<Longrightarrow> length (C (as ! 4)) = 512 \<and>
          content D k4 (as ! 4) = take (2 * nat (lb - 3)) (C (as ! 4)) @ replicate (512 - 2 * nat (lb - 3)) 0"
      have t: "touches N D (set (file_blocks C as)) k3 k4" by (rule touches_mono [OF k4(3)]) (use dd(2) False in \<open>simp split: if_splits\<close>)
      show thesis
        by (rule that [OF k4(1,2,4) t file_blocks_mid [where C = C and C' = "content D k4" and as = as, OF f lb(2) k4(5)]])
          (assumption, rule file_block_cut [OF lb], assumption, rule k4(5))
    qed
  qed
qed

lemma flag_set: "flag (set_flag m x) b \<longleftrightarrow> flag m b \<or> flag x b"
  by (auto simp: flag_def set_flag_def bit.conj_disj_distrib2 or_eq_0_iff)

lemma flag_clr: "and m b = 0 \<Longrightarrow> flag (clr_flag m x) b \<longleftrightarrow> flag x b"
proof -
  assume z: "and m b = 0"
  have "\<not> (bit m n \<and> bit b n)" for n using arg_cong [OF z, of "\<lambda>w. bit w n"] by (simp add: bit_and_iff)
  then have "and (and x (not m)) b = and x b" by (intro bit_word_eqI) (auto simp: bit_simps)
  then show ?thesis by (simp add: flag_def clr_flag_def)
qed

lemma flag_rest:
  assumes "and 0x446 b = 0"
  shows "flag (set_flag 64 (clr_flag 0x446 (set_flag 66 x))) b = flag x b"
proof -
  have "and 66 b = and 66 (and 0x446 b)" "and 64 b = and 64 (and 0x446 b)" by (simp_all add: and.assoc [symmetric])
  then have "\<not> flag 66 b" "\<not> flag 64 b" using assms by (simp_all add: flag_def)
  then show ?thesis using assms by (simp add: flag_set flag_clr)
qed

lemma itrunc_ok:
  fixes k :: "'a ink_scheme" and ip :: nat
  assumes k: "trunc_ok N D ip xs k" and t: "\<not> tape D" and n: "0 \<le> n" "n \<le> 260" "1024 * n < i_size (itab k ip)"
  defines "v \<equiv> itab k ip" and "f \<equiv> i_fs k ip"
  obtains k' freed where "itrunc ramstrategy tape ip (1024 * n) k = Some (Got (), k')" "fs_ok N D f (freed @ xs) k'"
    "mset freed + mset (file_blocks (content D k') (i_addr (itab k' ip))) = mset (file_blocks (content D k) (i_addr v))"
    "\<And>b. 0 \<le> b \<Longrightarrow> file_block (content D k') (i_addr (itab k' ip)) b = (if b < n then file_block (content D k) (i_addr v) b else None)"
    "alters N D f ip k k'"
    "\<exists>fl. itab k' ip = v\<lparr>i_size := 1024 * n, i_addr := cut_addrs (n - 1) (i_addr v), i_mtime := time_sec k, i_ctime := time_sec k,
       i_atime := (if flag (i_flag v) IACC then time_sec k else i_atime v), i_flag := fl\<rparr> \<and> (\<forall>b. and 0x446 b = 0 \<longrightarrow> flag fl b = flag (i_flag v) b)"
proof -
  let ?C = "content D k" and ?as = "i_addr v" and ?lb = "n - 1"
  define k2 where "k2 = upd_ino ip (\<lambda>v. v\<lparr>i_size := 1024 * n, i_addr := cut_addrs ?lb (i_addr v), i_flag := set_flag (or ICHG IUPD) (i_flag v)\<rparr>) k"
  have sz: "int32 (1024 * n)" using k n by (auto simp: int32_def trunc_ok_def Let_def fits_def)
  obtain k3 where k3: "iupdat ramstrategy tape ip (time_sec k2) (time_sec k2) True k2 = Some (Got (), k3)"
    "\<forall>bs. distinct bs \<longrightarrow> set bs \<subseteq> set (file_blocks ?C ?as) \<longrightarrow> ready N D f ?C (Suc (levels_of ?as)) bs xs k3"
    "alters N D f ip k k3" "usable (fss k3 f) k3 = usable (fss k f) k"
    "itab k3 ip = stamp (time_sec k) (time_sec k) (time_sec k) (v\<lparr>i_size := 1024 * n, i_addr := cut_addrs ?lb (i_addr v), i_flag := set_flag (or ICHG IUPD) (i_flag v)\<rparr>)"
    unfolding v_def f_def by (rule trunc_start [where lb = ?lb and len = "1024 * n" and k = k and tape = tape, OF k sz t, folded k2_def])
  have c: "clear N D f (file_blocks ?C ?as) xs k" using k by (simp add: trunc_ok_def Let_def v_def f_def)
  have d: "distinct (file_blocks ?C ?as)" using c by (simp add: clear_def)
  have lb: "- 1 \<le> ?lb" "?lb < 260" using n by simp_all
  obtain k4 where k4: "trunc_rest D f ?lb ?as k3 = Some (Got (), k4)" "fs_ok N D f (rev (dropped ?C ?as ?lb) @ xs) k4" "keeps k3 k4"
    "touches N D (set (file_blocks ?C ?as)) k3 k4"
    "mset (file_blocks (content D k4) (cut_addrs ?lb ?as)) + mset (dropped ?C ?as ?lb) = mset (file_blocks ?C ?as)"
    "\<And>b. 0 \<le> b \<Longrightarrow> file_block (content D k4) (cut_addrs ?lb ?as) b = (if b \<le> ?lb then file_block ?C ?as b else None)"
    using trunc_rest_ok [OF k3(2) [rule_format] d lb] by metis
  define k5 where "k5 = upd_ino ip (\<lambda>v. v\<lparr>i_flag := set_flag ICHG (i_flag v)\<rparr>) k4"
  note e = trunc_end [OF k4(2,3) refl refl, of ip, folded k5_def]
  have a34: "alters N D f ip k3 k4" by (rule alters_frees [OF k4(4) _ k4(3)]) (use c k3(4) in \<open>simp add: clear_def\<close>)
  have c4: "cache_ok N D k4" using fs_okD(1) [OF k4(2)] .
  have a: "alters N D f ip k k5" unfolding k5_def
    by (rule alters_trans [OF alters_trans [OF k3(3) a34] alters_upd [OF c4]]) simp_all
  have run: "itrunc ramstrategy tape ip (1024 * n) k = Some (Got (), k5)"
    using itrunc_run [OF k n(1,3) k3(1) k2_def] k4(1) by (simp add: k5_def v_def f_def)
  have ad: "i_addr (itab k5 ip) = cut_addrs ?lb ?as" using e(2) k3(5) by simp
  have m: "mset (rev (dropped ?C ?as ?lb)) + mset (file_blocks (content D k5) (i_addr (itab k5 ip))) = mset (file_blocks ?C ?as)"
    using k4(5) e(4) by (simp add: ad ac_simps)
  have "itab k4 = itab k3" using fmore_ink [OF keepsD(4) [OF k4(3)]] by simp
  then have v5: "itab k5 ip = (itab k3 ip)\<lparr>i_flag := set_flag ICHG (i_flag (itab k3 ip))\<rparr>" by (simp add: k5_def)
  have fl: "flag (set_flag 66 x) IUPD" "flag (set_flag 66 x) ICHG" "flag (set_flag 66 x) IACC = flag x IACC" for x :: u_int
    by (simp_all add: flag_def set_flag_def bit.conj_disj_distrib2 bit.conj_disj_distrib or_eq_0_iff)
  show thesis
  proof (rule that [OF run e(1) m _ a])
    show "file_block (content D k5) (i_addr (itab k5 ip)) b = (if b < n then file_block ?C ?as b else None)" if "0 \<le> b" for b
      using k4(6) [OF that] e(4) by (simp add: ad)
    show "\<exists>fl. itab k5 ip = v\<lparr>i_size := 1024 * n, i_addr := cut_addrs (n - 1) (i_addr v), i_mtime := time_sec k, i_ctime := time_sec k,
       i_atime := (if flag (i_flag v) IACC then time_sec k else i_atime v), i_flag := fl\<rparr> \<and> (\<forall>b. and 0x446 b = 0 \<longrightarrow> flag fl b = flag (i_flag v) b)"
      unfolding v5 k3(5) by (intro exI [of _ "i_flag (itab k5 ip)"]) (simp add: v5 k3(5) stamp_def Let_def fl flag_rest)
  qed
qed

text \<open>A file of two blocks on the small file system.\<close>

definition demo_two :: "int \<Rightarrow> ink" where
  "demo_two s = upd_ino 0 (\<lambda>v. v\<lparr>i_addr := [22, 23, 0, 0, 0, 0, 0], i_size := s\<rparr>) demo_ink"

lemma demo_two:
  "itab (demo_two s) 0 = demo_ino\<lparr>i_addr := [22, 23, 0, 0, 0, 0, 0], i_size := s\<rparr>" "i_fs (demo_two s) 0 = 0" "fss (demo_two s) = (\<lambda>_. demo_super)"
  "ram_size (demo_two s) = 1000" "time_sec (demo_two s) = 500000000" "file_blocks C [22, 23, 0, 0, 0, 0, 0] = [23, 22]"
proof -
  show "itab (demo_two s) 0 = demo_ino\<lparr>i_addr := [22, 23, 0, 0, 0, 0, 0], i_size := s\<rparr>" "i_fs (demo_two s) 0 = 0"
    by (simp_all add: demo_two_def upd_ino_def demo_ink_def ink.defs fsk.defs)
  show "fss (demo_two s) = (\<lambda>_. demo_super)" "ram_size (demo_two s) = 1000"
    by (simp_all add: demo_two_def demo_ink_def demo_fsk_def upd_ino_def) (simp_all add: bio.defs fsk.defs)
  show "time_sec (demo_two s) = 500000000"
    by (simp add: demo_two_def demo_ink_def demo_fsk_def upd_ino_def) (simp add: demo_bio_def demo_clk0_def kern.defs clk.defs bio.defs fsk.defs)
  show "file_blocks C [22, 23, 0, 0, 0, 0, 0] = [23, 22]"
    by (simp add: file_blocks_def part1_def direct_def upt_rec)
qed

lemma demo_two_ok: "int32 s \<Longrightarrow> trunc_ok 2 0x300 0 [21, 20] (demo_two s)"
proof -
  assume s: "int32 s"
  have sc: "same_cache demo_ink (demo_two s)" by (simp add: demo_two_def upd_ino_cache)
  have "i_fs demo_ink 0 = 0" by (simp add: demo_ink_def ink.defs fsk.defs)
  then have o: "fs_ok 2 0x300 0 [21, 20] demo_ink" and id: "idle 2 0x300 demo_ink" using demo_file by (simp_all add: file_ok_def)
  have o': "fs_ok 2 0x300 0 [21, 20] (demo_two s)" by (rule fs_ok_same_cache [OF o sc]) (simp_all add: demo_two_def)
  have id': "idle 2 0x300 (demo_two s)" using id unfolding idle_def same_cache_cong [OF sc] .
  have "{i. i < 2 \<and> \<not> busy (demo_two s) i} = {0, 1}" using id' by (auto simp: idle_def)
  then have sp: "spare 2 (demo_two s) 1" by (simp add: spare_def)
  have b: "itod 3 = 2" by (simp add: itod_def)
  note d = demo_two
  show ?thesis
    using o' sp s idle_nb(1) [OF id']
    by (simp add: trunc_ok_def Let_def clear_def d demo_ino_def b levels_of_def usable_def badblock_def demo_super_def on_disk_def int32_def fits_def flag_def)
qed

section \<open>Properties\<close>





end
