(* ===== verification/Icache.thy ===== *)
theory Icache imports Trunc begin

text \<open>
  The inode cache: \<open>src/sys/sys/ufs_inode.c\<close> from ihinit to irele, iflush, ilock and iunlock, with the macros of inode.h, and update of
  \<open>ufs_subr.c\<close>. Inodes and the heads of the hash chains (\<open>union ihead\<close>) are one kind of pointer, with the pair of link fields that both
  have; what \<open>i_freeb\<close> and \<open>ifreet\<close> point to is \<open>ifreeh\<close> or the \<open>i_freef\<close> of an inode. \<open>i_lastr\<close>, which shares its place with the links of
  the free list, is left out: iget clears it where the links are NULL already.

  A panic and following a null pointer are \<open>None\<close>. A routine that has to sleep stops with \<open>Sleeps\<close>, as in the block cache.
\<close>

datatype iref = Ino nat | Ihead nat
datatype iplace = Ifreeh | Ifreef nat

record ick = ink +
  i_forw :: "iref \<Rightarrow> iref"
  i_back :: "iref \<Rightarrow> iref"
  ifreeh :: "nat option"
  ifreet :: iplace
  i_freef :: "nat \<Rightarrow> nat option"
  i_freeb :: "nat \<Rightarrow> iplace option"
  a_ino :: "nat \<Rightarrow> u_int"
  a_ilock :: "nat \<Rightarrow> u_int"
  updlock :: u_int

abbreviation (input) "ILOCKED \<equiv> 0x1 :: u_int"
abbreviation (input) "IMOUNT \<equiv> 0x8 :: u_int"
abbreviation (input) "IWANT \<equiv> 0x10 :: u_int"
abbreviation (input) "ROOTINO \<equiv> 2 :: u_int"
abbreviation (input) "INOHSZ \<equiv> 64 :: nat"

definition INOHASH :: "u_int \<Rightarrow> u_int \<Rightarrow> nat" where
  "INOHASH dev ino = unat (and (dev + ino) 63)"

fun iref_ino :: "iref \<Rightarrow> nat" where
  "iref_ino (Ino i) = i"
| "iref_ino (Ihead h) = h"

section \<open>Links\<close>

text \<open>\<open>remque(e)\<close> and \<open>insque(e, p)\<close>.\<close>

definition remque :: "iref \<Rightarrow> 'a ick_scheme \<Rightarrow> 'a ick_scheme" where
  "remque e k =
     (let f = i_forw k e; b = i_back k e; k1 = k\<lparr>i_forw := (i_forw k)(b := f)\<rparr>
      in k1\<lparr>i_back := (i_back k1)(f := b)\<rparr>)"

definition insque :: "iref \<Rightarrow> iref \<Rightarrow> 'a ick_scheme \<Rightarrow> 'a ick_scheme" where
  "insque e p k =
     (let k1 = k\<lparr>i_back := (i_back k)(e := p)\<rparr>;
          k2 = k1\<lparr>i_forw := (i_forw k1)(e := i_forw k1 p)\<rparr>;
          k3 = k2\<lparr>i_forw := (i_forw k2)(p := e)\<rparr>
      in k3\<lparr>i_back := (i_back k3)(i_forw k3 e := e)\<rparr>)"

text \<open>On a chain of its own.\<close>

definition ialone :: "iref \<Rightarrow> 'a ick_scheme \<Rightarrow> 'a ick_scheme" where
  "ialone e k = k\<lparr>i_forw := (i_forw k)(e := e), i_back := (i_back k)(e := e)\<rparr>"

definition iset :: "iplace \<Rightarrow> nat option \<Rightarrow> 'a ick_scheme \<Rightarrow> 'a ick_scheme" where
  "iset b v k = (case b of Ifreeh \<Rightarrow> k\<lparr>ifreeh := v\<rparr> | Ifreef j \<Rightarrow> k\<lparr>i_freef := (i_freef k)(j := v)\<rparr>)"

text \<open>An inode leaves the free list: from anywhere, and from the head.\<close>

definition iunfree :: "nat \<Rightarrow> 'a ick_scheme \<Rightarrow> 'a ick_scheme option" where
  "iunfree ip k = (case i_freeb k ip of None \<Rightarrow> None
     | Some b \<Rightarrow>
         (let iq = i_freef k ip;
              k1 = (case iq of Some j \<Rightarrow> k\<lparr>i_freeb := (i_freeb k)(j := Some b)\<rparr> | None \<Rightarrow> k\<lparr>ifreet := b\<rparr>);
              k2 = iset b iq k1
          in Some (k2\<lparr>i_freef := (i_freef k2)(ip := None), i_freeb := (i_freeb k2)(ip := None)\<rparr>)))"

definition itake :: "nat \<Rightarrow> 'a ick_scheme \<Rightarrow> 'a ick_scheme" where
  "itake ip k =
     (let iq = i_freef k ip;
          k1 = (case iq of Some j \<Rightarrow> k\<lparr>i_freeb := (i_freeb k)(j := Some Ifreeh)\<rparr> | None \<Rightarrow> k);
          k2 = k1\<lparr>ifreeh := iq\<rparr>
      in k2\<lparr>i_freef := (i_freef k2)(ip := None), i_freeb := (i_freeb k2)(ip := None)\<rparr>)"

text \<open>The end of the free list.\<close>

definition iappend :: "nat \<Rightarrow> 'a ick_scheme \<Rightarrow> 'a ick_scheme" where
  "iappend ip k =
     (let k1 = (if ifreeh k \<noteq> None
                then (let k1 = iset (ifreet k) (Some ip) k in k1\<lparr>i_freeb := (i_freeb k1)(ip := Some (ifreet k1))\<rparr>)
                else k\<lparr>ifreeh := Some ip, i_freeb := (i_freeb k)(ip := Some Ifreeh)\<rparr>)
      in k1\<lparr>i_freef := (i_freef k1)(ip := None), ifreet := Ifreef ip\<rparr>)"

section \<open>ihinit\<close>

fun ihlink :: "nat list \<Rightarrow> 'a ick_scheme \<Rightarrow> 'a ick_scheme" where
  "ihlink [] k = k"
| "ihlink (i # is) k =
     (let k1 = ialone (Ino i) k;
          k2 = iset (ifreet k1) (Some i) k1
      in ihlink is (k2\<lparr>i_freeb := (i_freeb k2)(i := Some (ifreet k2)), ifreet := Ifreef i\<rparr>))"

definition ihinit :: "nat \<Rightarrow> 'a ick_scheme \<Rightarrow> 'a ick_scheme" where
  "ihinit n k =
     (let k1 = foldr (\<lambda>h. ialone (Ihead h)) [0 ..< INOHSZ] k;
          k2 = k1\<lparr>ifreeh := Some 0, ifreet := Ifreef 0, i_freeb := (i_freeb k1)(0 := Some Ifreeh)\<rparr>;
          k3 = ihlink [1 ..< n] (ialone (Ino 0) k2)
      in k3\<lparr>i_freef := (i_freef k3)(n - 1 := None)\<rparr>)"

section \<open>Locks\<close>

definition ilock :: "nat \<Rightarrow> 'a ick_scheme \<Rightarrow> unit bio_out \<times> 'a ick_scheme" where
  "ilock ip k =
     (if flag (i_flag (itab k ip)) ILOCKED
      then (Sleeps (a_ino k ip) PINOD, upd_ino ip (\<lambda>v. v\<lparr>i_flag := set_flag IWANT (i_flag v)\<rparr>) k)
      else (Got (), upd_ino ip (\<lambda>v. v\<lparr>i_flag := set_flag ILOCKED (i_flag v)\<rparr>) k))"

definition iunlock :: "nat \<Rightarrow> 'a ick_scheme \<Rightarrow> 'a ick_scheme option" where
  "iunlock ip k =
     (let k1 = upd_ino ip (\<lambda>v. v\<lparr>i_flag := clr_flag ILOCKED (i_flag v)\<rparr>) k in
      if flag (i_flag (itab k1 ip)) IWANT
      then wakeup (a_ino k1 ip) (upd_ino ip (\<lambda>v. v\<lparr>i_flag := clr_flag IWANT (i_flag v)\<rparr>) k1)
      else Some k1)"

section \<open>iput\<close>

text \<open>\<open>i_rdev\<close> is the low word of \<open>i_addr[0]\<close>.\<close>

definition clear_rdev :: "inode \<Rightarrow> inode" where
  "clear_rdev v = v\<lparr>i_rdev := 0, i_addr := (i_addr v)[0 := i_addr v ! 0 div 2 ^ 16 * 2 ^ 16]\<rparr>"

text \<open>Without links the file is truncated and the inode freed.\<close>

definition iremove ::
  "(bref \<Rightarrow> 'a ick_scheme \<Rightarrow> 'a ick_scheme option) \<Rightarrow> (u_int \<Rightarrow> bool) \<Rightarrow> nat \<Rightarrow> 'a ick_scheme \<Rightarrow> (unit bio_out \<times> 'a ick_scheme) option" where
  "iremove strat tape ip k =
     and_then (itrunc strat tape ip 0 k) (\<lambda>_ k1.
       let k2 = upd_ino ip (\<lambda>v. (clear_rdev (v\<lparr>i_mode := 0\<rparr>))\<lparr>i_flag := set_flag (or IUPD ICHG) (i_flag v)\<rparr>) k1
       in Some (Got (), ifree (i_fs k2 ip) (i_number (itab k2 ip)) k2))"

text \<open>The inode is written and goes to the end of the free list.\<close>

definition iclose ::
  "(bref \<Rightarrow> 'a ick_scheme \<Rightarrow> 'a ick_scheme option) \<Rightarrow> (u_int \<Rightarrow> bool) \<Rightarrow> nat \<Rightarrow> 'a ick_scheme \<Rightarrow> (unit bio_out \<times> 'a ick_scheme) option" where
  "iclose strat tape ip k =
     and_then (iupdat strat tape ip (time_sec k) (time_sec k) False k) (\<lambda>_ k1.
       Option.bind (iunlock ip k1) (\<lambda>k2. Some (Got (), iappend ip (upd_ino ip (\<lambda>v. v\<lparr>i_flag := 0\<rparr>) k2))))"

definition irele ::
  "(bref \<Rightarrow> 'a ick_scheme \<Rightarrow> 'a ick_scheme option) \<Rightarrow> (u_int \<Rightarrow> bool) \<Rightarrow> nat \<Rightarrow> 'a ick_scheme \<Rightarrow> (unit bio_out \<times> 'a ick_scheme) option" where
  "irele strat tape ip k =
     and_then (if i_count (itab k ip) = 1 then
         let k1 = upd_ino ip (\<lambda>v. v\<lparr>i_flag := set_flag ILOCKED (i_flag v)\<rparr>) k in
         and_then (if i_nlink (itab k1 ip) \<le> 0 \<and> fs_ronly (fss k1 (i_fs k1 ip)) = 0 then iremove strat tape ip k1 else Some (Got (), k1)) (\<lambda>_ k2.
           iclose strat tape ip k2)
       else Some (Got (), if \<not> flag (i_flag (itab k ip)) ILOCKED then upd_ino ip (ITIMES (time_sec k)) k else k)) (\<lambda>_ k5.
     Some (Got (), upd_ino ip (\<lambda>v. v\<lparr>i_count := i_count v - 1\<rparr>) k5))"

definition iput ::
  "(bref \<Rightarrow> 'a ick_scheme \<Rightarrow> 'a ick_scheme option) \<Rightarrow> (u_int \<Rightarrow> bool) \<Rightarrow> nat \<Rightarrow> 'a ick_scheme \<Rightarrow> (unit bio_out \<times> 'a ick_scheme) option" where
  "iput strat tape ip k = Option.bind (iunlock ip k) (irele strat tape ip)"

section \<open>iget\<close>

text \<open>The outer \<open>None\<close>: the chain does not come back to its head.\<close>

definition ifind :: "u_int \<Rightarrow> u_int \<Rightarrow> 'a ick_scheme \<Rightarrow> nat option option" where
  "ifind dev ino k =
     (let ih = Ihead (INOHASH dev ino) in
      map_option (map_option iref_ino)
        (ring_find (\<lambda>r. case r of Ino i \<Rightarrow> i_number (itab k i) = ino \<and> i_dev (itab k i) = dev | Ihead h \<Rightarrow> False) (i_forw k) ih (i_forw k ih)))"

text \<open>The inode is in core and not locked.\<close>

definition igrab :: "nat \<Rightarrow> 'a ick_scheme \<Rightarrow> 'a ick_scheme option" where
  "igrab ip k =
     map_option (\<lambda>k1. upd_ino ip (\<lambda>v. v\<lparr>i_count := i_count v + 1, i_flag := set_flag ILOCKED (i_flag v)\<rparr>) k1)
       (if i_count (itab k ip) = 0 then iunfree ip k else Some k)"

text \<open>The first inode of the free list is used for another file.\<close>

definition inew :: "u_int \<Rightarrow> nat \<Rightarrow> u_int \<Rightarrow> nat \<Rightarrow> 'a ick_scheme \<Rightarrow> 'a ick_scheme" where
  "inew dev f ino ip k =
     (let k1 = insque (Ino ip) (Ihead (INOHASH dev ino)) (remque (Ino ip) (itake ip k));
          k2 = upd_ino ip (\<lambda>v. v\<lparr>i_dev := dev, i_number := ino, i_flag := ILOCKED, i_count := i_count v + 1\<rparr>) k1
      in k2\<lparr>i_fs := (i_fs k2)(ip := f)\<rparr>)"

definition iread ::
  "(bref \<Rightarrow> 'a ick_scheme \<Rightarrow> 'a ick_scheme option) \<Rightarrow> (u_int \<Rightarrow> bool) \<Rightarrow> nat \<Rightarrow> 'a ick_scheme \<Rightarrow> (nat option bio_out \<times> 'a ick_scheme) option" where
  "iread strat tape ip k =
     (let ino = i_number (itab k ip) in
      and_then (bread strat (i_dev (itab k ip)) (itod ino) k) (\<lambda>bp k1.
        if has_b k1 bp B_ERROR then
          Option.bind (brelse bp k1) (\<lambda>k2.
            let k3 = upd_ino ip (\<lambda>v. v\<lparr>i_number := 0\<rparr>) (ialone (Ino ip) (remque (Ino ip) k2))
            in and_then (iput strat tape ip k3) (\<lambda>_ k4. Some (Got None, k4)))
        else map_option (\<lambda>k2. (Got (Some ip), k2)) (brelse bp (upd_ino ip (load_dinode (get_dinode ino (get_data k1 bp))) k1))))"

text \<open>The mount table entry whose \<open>m_inodp\<close> is the inode.\<close>

definition mounted_on :: "nat \<Rightarrow> 'a ick_scheme \<Rightarrow> nat option" where
  "mounted_on ip k = List.find (\<lambda>i. m_inodp (mounts k ! i) = Some ip) [0 ..< length (mounts k)]"

text \<open>\<open>goto loop\<close> after a mount point is the recursion; it does not end if mount points form a circle.\<close>

partial_function (option) iget ::
  "(bref \<Rightarrow> 'a ick_scheme \<Rightarrow> 'a ick_scheme option) \<Rightarrow> (u_int \<Rightarrow> bool) \<Rightarrow> u_int \<Rightarrow> nat \<Rightarrow> u_int \<Rightarrow> 'a ick_scheme \<Rightarrow>
   (nat option bio_out \<times> 'a ick_scheme) option" where
  "iget strat tape dev f ino k =
     Option.bind (ifind dev ino k) (\<lambda>r. case r of
       Some ip \<Rightarrow>
         if flag (i_flag (itab k ip)) ILOCKED
         then Some (Sleeps (a_ino k ip) PINOD, upd_ino ip (\<lambda>v. v\<lparr>i_flag := set_flag IWANT (i_flag v)\<rparr>) k)
         else if flag (i_flag (itab k ip)) IMOUNT
         then Option.bind (mounted_on ip k) (\<lambda>mp. iget strat tape (m_dev (mounts k ! mp)) mp ROOTINO k)
         else map_option (\<lambda>k1. (Got (Some ip), k1)) (igrab ip k)
     | None \<Rightarrow> (case ifreeh k of
         None \<Rightarrow> Some (Got None, set_error ENFILE k)
       | Some ip \<Rightarrow> if i_count (itab k ip) \<noteq> 0 then None else iread strat tape ip (inew dev f ino ip k)))"

section \<open>iflush\<close>

fun iflush :: "u_int \<Rightarrow> nat list \<Rightarrow> int \<Rightarrow> 'a ick_scheme \<Rightarrow> int \<times> 'a ick_scheme" where
  "iflush dev [] n k = (n, k)"
| "iflush dev (i # is) n k =
     (let v = itab k i in
      if i_dev v = dev then (if i_count v \<noteq> 0 then (- 1, k) else iflush dev is n (ialone (Ino i) (remque (Ino i) k)))
      else iflush dev is (if i_count v \<noteq> 0 \<and> and (i_mode v) IFMT = IFBLK \<and> i_rdev v = dev then n + 1 else n) k)"

section \<open>update\<close>

fun update_inodes ::
  "(bref \<Rightarrow> 'a ick_scheme \<Rightarrow> 'a ick_scheme option) \<Rightarrow> (u_int \<Rightarrow> bool) \<Rightarrow> nat list \<Rightarrow> 'a ick_scheme \<Rightarrow> (unit bio_out \<times> 'a ick_scheme) option" where
  "update_inodes strat tape [] k = Some (Got (), k)"
| "update_inodes strat tape (i # is) k =
     (let v = itab k i in
      if flag (i_flag v) ILOCKED \<or> i_count v = 0 \<or> \<not> flag (i_flag v) (or IMOD (or IACC (or IUPD ICHG)))
      then update_inodes strat tape is k
      else
        let k1 = upd_ino i (\<lambda>v. v\<lparr>i_flag := set_flag ILOCKED (i_flag v), i_count := i_count v + 1\<rparr>) k in
        and_then (iupdat strat tape i (time_sec k1) (time_sec k1) False k1) (\<lambda>_ k2.
          and_then (iput strat tape i k2) (\<lambda>_ k3. update_inodes strat tape is k3)))"

definition update ::
  "(bref \<Rightarrow> 'a ick_scheme \<Rightarrow> 'a ick_scheme option) \<Rightarrow> (u_int \<Rightarrow> bool) \<Rightarrow> nat \<Rightarrow> 'a ick_scheme \<Rightarrow> (unit bio_out \<times> 'a ick_scheme) option" where
  "update strat tape n k =
     (if updlock k \<noteq> 0 then Some (Got (), k)
      else and_then (update_super strat [0 ..< length (mounts k)] (k\<lparr>updlock := updlock k + 1\<rparr>)) (\<lambda>_ k1.
        and_then (update_inodes strat tape [0 ..< n] k1) (\<lambda>_ k2.
          map_option (\<lambda>k3. (Got (), k3)) (bflush strat NODEV (k2\<lparr>updlock := 0\<rparr>)))))"

end
