(* ===== verification/IcacheLinks.thy ===== *)
theory IcacheLinks imports Icache TruncProps begin

text \<open>
  The links of the inode cache: the free list as a list that can give up any element and grows at the end, the hash chains as rings.
\<close>

section \<open>The free list\<close>

definition at_place :: "nat option \<Rightarrow> (nat \<Rightarrow> nat option) \<Rightarrow> iplace \<Rightarrow> nat option" where
  "at_place h nx b = (case b of Ifreeh \<Rightarrow> h | Ifreef j \<Rightarrow> nx j)"

lemma at_place_simps [simp]: "at_place h nx Ifreeh = h" "at_place h nx (Ifreef j) = nx j"
  by (simp_all add: at_place_def)

text \<open>From the place \<open>b\<close> on the list is \<open>F\<close>, and every inode points back to the place that points to it.\<close>

fun itq :: "nat option \<Rightarrow> (nat \<Rightarrow> nat option) \<Rightarrow> (nat \<Rightarrow> iplace option) \<Rightarrow> iplace \<Rightarrow> nat list \<Rightarrow> bool" where
  "itq h nx bk b [] \<longleftrightarrow> at_place h nx b = None"
| "itq h nx bk b (i # F) \<longleftrightarrow> at_place h nx b = Some i \<and> bk i = Some b \<and> itq h nx bk (Ifreef i) F"

definition itail :: "iplace \<Rightarrow> nat list \<Rightarrow> iplace" where
  "itail b F = (if F = [] then b else Ifreef (last F))"

lemma itail_simps [simp]: "itail b [] = b" "itail b (i # F) = itail (Ifreef i) F"
  by (simp_all add: itail_def)

lemma itq_cong:
  assumes "at_place h' nx' b = at_place h nx b" "\<forall>i \<in> set F. nx' i = nx i \<and> bk' i = bk i"
  shows "itq h' nx' bk' b F = itq h nx bk b F"
  using assms by (induction F arbitrary: b) auto

definition fstore :: "iplace \<Rightarrow> 'a \<Rightarrow> 'a \<times> (nat \<Rightarrow> 'a) \<Rightarrow> 'a \<times> (nat \<Rightarrow> 'a)" where
  "fstore b v p = (case b of Ifreeh \<Rightarrow> (v, snd p) | Ifreef j \<Rightarrow> (fst p, (snd p)(j := v)))"

lemma fstore_simps [simp]: "fstore Ifreeh v p = (v, snd p)" "fstore (Ifreef j) v p = (fst p, (snd p)(j := v))"
  by (simp_all add: fstore_def)

lemma at_fstore: "fstore b v (h, nx) = (h', nx') \<Longrightarrow> at_place h' nx' c = (if c = b then v else at_place h nx c)"
  by (cases b; cases c) auto

text \<open>One element leaves.\<close>

lemma itq_remove:
  assumes "itq h nx bk b (as @ i # bs)" "distinct (as @ i # bs)" "b \<notin> Ifreef ` set (as @ i # bs)"
    and "fstore (itail b as) (nx i) (h, nx) = (h', nx')"
    and "bk' = (case nx i of Some j \<Rightarrow> bk(j := Some (itail b as)) | None \<Rightarrow> bk)"
  shows "bk i = Some (itail b as)" "nx i = (if bs = [] then None else Some (hd bs))" "itq h' nx' bk' b (as @ bs)"
proof -
  have "bk i = Some (itail b as) \<and> nx i = (if bs = [] then None else Some (hd bs)) \<and> itq h' nx' bk' b (as @ bs)"
    using assms
  proof (induction as arbitrary: b)
    case Nil
    have at: "at_place h' nx' c = (if c = b then nx i else at_place h nx c)" for c using at_fstore [OF Nil.prems(4)] by simp
    have nx: "nx' j = nx j" if "j \<in> set bs" for j using at [of "Ifreef j"] Nil.prems(3) that by auto
    show ?case
    proof (cases bs)
      case Nil': Nil
      then show ?thesis using Nil.prems at by simp
    next
      case (Cons j cs)
      then have n: "nx i = Some j" using Nil.prems(1) by simp
      have "itq h' nx' bk' (Ifreef j) cs = itq h nx bk (Ifreef j) cs"
        by (rule itq_cong) (use Cons n nx Nil.prems(2,5) in auto)
      then show ?thesis using Nil.prems(1,5) Cons n at by simp
    qed
  next
    case (Cons a as)
    have ih: "bk i = Some (itail (Ifreef a) as)" "nx i = (if bs = [] then None else Some (hd bs))" "itq h' nx' bk' (Ifreef a) (as @ bs)"
    proof -
      have "itq h nx bk (Ifreef a) (as @ i # bs)" "distinct (as @ i # bs)" "Ifreef a \<notin> Ifreef ` set (as @ i # bs)"
        using Cons.prems(1,2) by auto
      from Cons.IH [OF this Cons.prems(4,5) [unfolded itail_simps]]
      show "bk i = Some (itail (Ifreef a) as)" "nx i = (if bs = [] then None else Some (hd bs))" "itq h' nx' bk' (Ifreef a) (as @ bs)"
        by blast+
    qed
    have at: "at_place h' nx' c = (if c = itail (Ifreef a) as then nx i else at_place h nx c)" for c
      using at_fstore [OF Cons.prems(4)] by simp
    have t: "itail (Ifreef a) as \<in> Ifreef ` set (a # as)" by (auto simp: itail_def)
    have "b \<noteq> itail (Ifreef a) as" using t Cons.prems(3) by auto
    moreover have "bk' a = bk a" using Cons.prems(2,5) ih(2) by (auto split: if_splits)
    ultimately show ?case using ih Cons.prems(1) at by simp
  qed
  then show "bk i = Some (itail b as)" "nx i = (if bs = [] then None else Some (hd bs))" "itq h' nx' bk' b (as @ bs)" by blast+
qed

text \<open>One joins at the end.\<close>

lemma itq_append:
  assumes "itq h nx bk b F" "i \<notin> set F" "b \<noteq> Ifreef i" "b \<notin> Ifreef ` set F" "distinct F"
    and "fstore (itail b F) (Some i) (h, nx) = (h', nx')"
  shows "itq h' (nx'(i := None)) (bk(i := Some (itail b F))) b (F @ [i])"
  using assms
proof (induction F arbitrary: b)
  case Nil
  then show ?case by (cases b) auto
next
  case (Cons a F)
  have t: "itail (Ifreef a) F \<in> Ifreef ` set (a # F)" by (auto simp: itail_def)
  have "b \<noteq> itail (Ifreef a) F" using t Cons.prems(4) by auto
  then have "at_place h' nx' b = at_place h nx b" using at_fstore [OF Cons.prems(6), of b] by simp
  moreover have "at_place h' (nx'(i := None)) b = at_place h' nx' b" using Cons.prems(3) by (cases b) auto
  moreover have "itq h' (nx'(i := None)) (bk(i := Some (itail (Ifreef a) F))) (Ifreef a) (F @ [i])"
    by (rule Cons.IH) (use Cons.prems in auto)
  ultimately show ?case using Cons.prems(1,2) by (simp del: fun_upd_apply) simp
qed

lemma head_no_link [simp]: "Ifreeh \<notin> Ifreef ` A"
  by auto

definition ilist :: "'a ick_scheme \<Rightarrow> nat list \<Rightarrow> bool" where
  "ilist k F \<longleftrightarrow> distinct F \<and> itq (ifreeh k) (i_freef k) (i_freeb k) Ifreeh F \<and> (F \<noteq> [] \<longrightarrow> ifreet k = Ifreef (last F))"

text \<open>Only links change, those of the free list and those of the chains.\<close>

definition list_only :: "'a ick_scheme \<Rightarrow> 'a ick_scheme \<Rightarrow> bool" where
  "list_only k k' \<longleftrightarrow> k' = k\<lparr>ifreeh := ifreeh k', ifreet := ifreet k', i_freef := i_freef k', i_freeb := i_freeb k'\<rparr>"

definition chain_only :: "'a ick_scheme \<Rightarrow> 'a ick_scheme \<Rightarrow> bool" where
  "chain_only k k' \<longleftrightarrow> k' = k\<lparr>i_forw := i_forw k', i_back := i_back k'\<rparr>"

lemma iset_fields [simp]:
  "i_freeb (iset b v k) = i_freeb k" "ifreet (iset b v k) = ifreet k" "list_only k (iset b v k)"
  "fstore b v (ifreeh k, i_freef k) = (ifreeh (iset b v k), i_freef (iset b v k))"
  by (cases b; simp add: iset_def list_only_def)+

lemma list_only_trans: "list_only k k1 \<Longrightarrow> list_only k1 k2 \<Longrightarrow> list_only k k2"
  by (cases k; cases k1; cases k2) (simp add: list_only_def)

lemma list_only_upd [simp]:
  "list_only k (k1\<lparr>ifreeh := a\<rparr>) = list_only k k1" "list_only k (k1\<lparr>ifreet := b\<rparr>) = list_only k k1"
  "list_only k (k1\<lparr>i_freef := c\<rparr>) = list_only k k1" "list_only k (k1\<lparr>i_freeb := d\<rparr>) = list_only k k1" "list_only k k"
  by (cases k; cases k1; simp add: list_only_def)+

lemma ilist_head: "ilist k F \<Longrightarrow> ifreeh k = (if F = [] then None else Some (hd F))"
  by (cases F) (simp_all add: ilist_def)

lemma iunfree_ok:
  assumes l: "ilist k (as @ i # bs)"
  obtains k' where "iunfree i k = Some k'" "ilist k' (as @ bs)" "list_only k k'"
proof -
  let ?b = "itail Ifreeh as"
  define k1 where "k1 = (case i_freef k i of Some j \<Rightarrow> k\<lparr>i_freeb := (i_freeb k)(j := Some ?b)\<rparr> | None \<Rightarrow> k\<lparr>ifreet := ?b\<rparr>)"
  define k2 where "k2 = iset ?b (i_freef k i) k1"
  define k' where "k' = k2\<lparr>i_freef := (i_freef k2)(i := None), i_freeb := (i_freeb k2)(i := None)\<rparr>"
  have q: "itq (ifreeh k) (i_freef k) (i_freeb k) Ifreeh (as @ i # bs)" and d: "distinct (as @ i # bs)"
    and t: "ifreet k = Ifreef (last (as @ i # bs))" using l by (simp_all add: ilist_def)
  have f1: "ifreeh k1 = ifreeh k" "i_freef k1 = i_freef k" by (simp_all add: k1_def split: option.split)
  have st: "fstore ?b (i_freef k i) (ifreeh k, i_freef k) = (ifreeh k2, i_freef k2)"
    using iset_fields(4) [of ?b "i_freef k i" k1] f1 by (simp add: k2_def)
  have bk: "i_freeb k2 = (case i_freef k i of Some j \<Rightarrow> (i_freeb k)(j := Some ?b) | None \<Rightarrow> i_freeb k)"
    by (simp add: k2_def k1_def split: option.split)
  note r = itq_remove [OF q d head_no_link st bk]
  have "iunfree i k = Some k'" using r(1) by (simp add: iunfree_def k'_def k2_def k1_def Let_def)
  moreover have "list_only k k1" by (simp add: k1_def split: option.split)
  then have "list_only k k'" unfolding k'_def k2_def using list_only_trans [OF _ iset_fields(3)] by simp
  moreover have "itq (ifreeh k') (i_freef k') (i_freeb k') Ifreeh (as @ bs) = itq (ifreeh k2) (i_freef k2) (i_freeb k2) Ifreeh (as @ bs)"
    by (rule itq_cong) (use d in \<open>auto simp: k'_def\<close>)
  moreover have "ifreet k' = Ifreef (last (as @ bs))" if "as @ bs \<noteq> []"
    using that t r(2) by (cases bs) (auto simp: k'_def k2_def k1_def itail_def)
  ultimately show thesis using that r(3) d by (simp add: ilist_def)
qed

lemma itake_ok:
  assumes l: "ilist k (i # F)"
  shows "ilist (itake i k) F" "list_only k (itake i k)"
proof -
  have q: "itq (ifreeh k) (i_freef k) (i_freeb k) Ifreeh ([] @ i # F)" and d: "distinct ([] @ i # F)"
    and t: "ifreet k = Ifreef (last (i # F))" using l unfolding ilist_def append_Nil by blast+
  define k1 where "k1 = (case i_freef k i of Some j \<Rightarrow> k\<lparr>i_freeb := (i_freeb k)(j := Some Ifreeh)\<rparr> | None \<Rightarrow> k)"
  define k2 where "k2 = k1\<lparr>ifreeh := i_freef k i\<rparr>"
  have k': "itake i k = k2\<lparr>i_freef := (i_freef k2)(i := None), i_freeb := (i_freeb k2)(i := None)\<rparr>"
    by (simp add: itake_def k2_def k1_def Let_def)
  have f: "ifreeh k2 = i_freef k i" "i_freef k2 = i_freef k" by (simp_all add: k2_def k1_def split: option.split)
  have bk: "i_freeb k2 = (case i_freef k i of Some j \<Rightarrow> (i_freeb k)(j := Some (itail Ifreeh [])) | None \<Rightarrow> i_freeb k)"
    by (simp add: k2_def k1_def split: option.split)
  have st: "fstore (itail Ifreeh []) (i_freef k i) (ifreeh k, i_freef k) = (ifreeh k2, i_freef k2)" by (simp add: f del: iset_fields)
  note r = itq_remove [OF q d head_no_link st bk]
  show "list_only k (itake i k)" unfolding k' by (simp add: k2_def k1_def split: option.split)
  have "itq (ifreeh (itake i k)) (i_freef (itake i k)) (i_freeb (itake i k)) Ifreeh F = itq (ifreeh k2) (i_freef k2) (i_freeb k2) Ifreeh F"
    by (rule itq_cong) (use d in \<open>auto simp: k'\<close>)
  moreover have "ifreet (itake i k) = ifreet k" by (simp add: k' k2_def k1_def split: option.split)
  ultimately show "ilist (itake i k) F" using r(3) d t by (auto simp: ilist_def)
qed

lemma iappend_ok:
  assumes l: "ilist k F" and i: "i \<notin> set F"
  shows "ilist (iappend i k) (F @ [i])" "list_only k (iappend i k)"
proof -
  have q: "itq (ifreeh k) (i_freef k) (i_freeb k) Ifreeh F" and d: "distinct F" using l by (simp_all add: ilist_def)
  define k1 where "k1 = iset (itail Ifreeh F) (Some i) k"
  have k': "iappend i k = (k1\<lparr>i_freeb := (i_freeb k1)(i := Some (itail Ifreeh F))\<rparr>)\<lparr>i_freef := (i_freef k1)(i := None), ifreet := Ifreef i\<rparr>"
    using ilist_head [OF l] l by (cases "F = []") (simp_all add: iappend_def k1_def Let_def ilist_def itail_def iset_def [of Ifreeh])
  have st: "fstore (itail Ifreeh F) (Some i) (ifreeh k, i_freef k) = (ifreeh k1, i_freef k1)" by (simp add: k1_def)
  have b: "i_freeb k1 = i_freeb k" by (simp add: k1_def)
  from itq_append [OF q i _ _ d st] have "itq (ifreeh k1) ((i_freef k1)(i := None)) ((i_freeb k)(i := Some (itail Ifreeh F))) Ifreeh (F @ [i])"
    by auto
  then show "ilist (iappend i k) (F @ [i])" using d i b by (simp add: ilist_def k')
  show "list_only k (iappend i k)" unfolding k' by (simp add: k1_def)
qed

lemma list_onlyD:
  assumes "list_only k k'"
  shows "itab k' = itab k" "i_fs k' = i_fs k" "fss k' = fss k" "mounts k' = mounts k" "a_flock k' = a_flock k" "i_forw k' = i_forw k"
    "i_back k' = i_back k" "a_ino k' = a_ino k" "time_sec k' = time_sec k" "same_cache k k'" "u k' = u k" "ram_size k' = ram_size k"
    "a_ilock k' = a_ilock k" "updlock k' = updlock k" "ick.more k' = ick.more k"
proof -
  obtain a b c d where e: "k' = k\<lparr>ifreeh := a, ifreet := b, i_freef := c, i_freeb := d\<rparr>" using assms unfolding list_only_def by blast
  show "itab k' = itab k" "i_fs k' = i_fs k" "fss k' = fss k" "mounts k' = mounts k" "a_flock k' = a_flock k" "i_forw k' = i_forw k"
    "i_back k' = i_back k" "a_ino k' = a_ino k" "time_sec k' = time_sec k" "same_cache k k'" "u k' = u k" "ram_size k' = ram_size k"
    "a_ilock k' = a_ilock k" "updlock k' = updlock k" "ick.more k' = ick.more k"
    unfolding e by (simp_all add: same_cache_def same_mem_def sys_ok_def sched_ok_def queues_def sleepers_ok_def)
qed

lemma chain_onlyD:
  assumes "chain_only k k'"
  shows "itab k' = itab k" "i_fs k' = i_fs k" "fss k' = fss k" "mounts k' = mounts k" "a_flock k' = a_flock k" "ilist k' = ilist k"
    "a_ino k' = a_ino k" "time_sec k' = time_sec k" "same_cache k k'" "u k' = u k" "ram_size k' = ram_size k"
    "a_ilock k' = a_ilock k" "updlock k' = updlock k" "ick.more k' = ick.more k"
proof -
  obtain a b where e: "k' = k\<lparr>i_forw := a, i_back := b\<rparr>" using assms unfolding chain_only_def by blast
  show "itab k' = itab k" "i_fs k' = i_fs k" "fss k' = fss k" "mounts k' = mounts k" "a_flock k' = a_flock k" "ilist k' = ilist k"
    "a_ino k' = a_ino k" "time_sec k' = time_sec k" "same_cache k k'" "u k' = u k" "ram_size k' = ram_size k"
    "a_ilock k' = a_ilock k" "updlock k' = updlock k" "ick.more k' = ick.more k"
    unfolding e by (simp_all add: same_cache_def same_mem_def sys_ok_def sched_ok_def queues_def sleepers_ok_def ilist_def fun_eq_iff)
qed

section \<open>The hash chains\<close>

definition iheads :: "iref set" where
  "iheads = Ihead ` {..<64}"

text \<open>The inodes of the table are on the chains, or each on a chain of its own.\<close>

definition iring :: "nat \<Rightarrow> 'a ick_scheme \<Rightarrow> (iref \<Rightarrow> iref list) \<Rightarrow> bool" where
  "iring M k H \<longleftrightarrow> rings (i_forw k) (i_back k) iheads H \<and> elems iheads H \<subseteq> Ino ` {..<M} \<and>
     (\<forall>i < M. Ino i \<notin> elems iheads H \<longrightarrow> i_forw k (Ino i) = Ino i \<and> i_back k (Ino i) = Ino i)"

lemma Ino_head [simp]: "Ino i \<notin> iheads" "Ihead h \<in> iheads \<longleftrightarrow> h < 64"
  by (auto simp: iheads_def)

lemma rings_cong_out:
  assumes r: "rings n p D X" and s: "\<And>z. z \<in> D \<Longrightarrow> n' z = n z \<and> p' z = p z" "\<And>z. z \<in> elems D X \<Longrightarrow> n' z = n z \<and> p' z = p z"
  shows "rings n' p' D X"
proof -
  have "ring n' p' d (X d)" if "d \<in> D" for d
  proof -
    have "\<forall>z \<in> set (d # X d). n' z = n z \<and> p' z = p z" using s that by (auto simp: elems_def)
    from ring_cong [OF this] show ?thesis using ringsD(1) [OF r that] by simp
  qed
  then show ?thesis using r by (simp add: rings_def)
qed

lemma rings_near:
  assumes r: "rings n p D X" and x: "x \<in> elems D X"
  shows "n x \<in> D \<union> elems D X" "p x \<in> D \<union> elems D X"
proof -
  obtain e where e: "e \<in> D" "x \<in> set (X e)" using x by (auto simp: elems_def)
  from ring_near [OF ringsD(1) [OF r e(1)], of x] e
  show "n x \<in> D \<union> elems D X" "p x \<in> D \<union> elems D X" by (auto simp: elems_def)
qed

lemma remque_fields [simp]:
  "i_forw (remque e k) = (i_forw k)(i_back k e := i_forw k e)" "i_back (remque e k) = (i_back k)(i_forw k e := i_back k e)"
  by (simp_all add: remque_def Let_def)

lemma insque_fields:
  "p \<noteq> e \<Longrightarrow> i_forw (insque e p k) = (i_forw k)(e := i_forw k p, p := e)"
  "p \<noteq> e \<Longrightarrow> i_back (insque e p k) = (i_back k)(e := p, i_forw k p := e)"
  by (simp_all add: insque_def Let_def)

lemma chain_only_links [simp]: "chain_only k (remque e k)" "chain_only k (insque e p k)" "chain_only k (ialone e k)" "chain_only k k"
  by (cases k; simp add: chain_only_def remque_def insque_def ialone_def Let_def)+

lemma chain_only_trans: "chain_only k k1 \<Longrightarrow> chain_only k1 k2 \<Longrightarrow> chain_only k k2"
  by (cases k; cases k1; cases k2) (simp add: chain_only_def)

text \<open>Off its chain, whichever that is: the links of the inode itself are stale.\<close>

lemma remque_ok:
  assumes h: "iring M k H" and i: "i < M"
  obtains H' where "rings (i_forw (remque (Ino i) k)) (i_back (remque (Ino i) k)) iheads H'" "\<And>e. e \<in> iheads \<Longrightarrow> set (H' e) = set (H e) - {Ino i}"
    "\<And>j. j < M \<Longrightarrow> j \<noteq> i \<Longrightarrow> Ino j \<notin> elems iheads H \<Longrightarrow> i_forw (remque (Ino i) k) (Ino j) = Ino j \<and> i_back (remque (Ino i) k) (Ino j) = Ino j"
proof (cases "Ino i \<in> elems iheads H")
  case True
  have r: "rings (i_forw k) (i_back k) iheads H" using h by (simp add: iring_def)
  obtain e where e: "e \<in> iheads" "Ino i \<in> set (H e)" using True by (auto simp: elems_def)
  let ?H = "H(e := remove1 (Ino i) (H e))"
  note m = rings_remove [OF r e]
  have d: "distinct (H e)" using ringsD(1) [OF r e(1)] by (simp add: ring_def)
  have s: "set (?H c) = set (H c) - {Ino i}" if "c \<in> iheads" for c
    using ringsD(3) [OF r that e(1)] e(2) d by auto
  have "Ino j \<noteq> i_forw k (Ino i) \<and> Ino j \<noteq> i_back k (Ino i)" if "Ino j \<notin> elems iheads H" for j
    using rings_near [OF r True] that Ino_head(1) [of j] by (metis UnE)
  then have o: "i_forw (remque (Ino i) k) (Ino j) = Ino j \<and> i_back (remque (Ino i) k) (Ino j) = Ino j"
    if "j < M" "Ino j \<notin> elems iheads H" for j using that h by (simp add: iring_def)
  show thesis by (rule that [of ?H]) (use m(1) s o in simp_all)
next
  case False
  then have s: "i_forw k (Ino i) = Ino i" "i_back k (Ino i) = Ino i" using h i by (simp_all add: iring_def)
  then have "i_forw (remque (Ino i) k) = i_forw k" "i_back (remque (Ino i) k) = i_back k" by (simp_all add: fun_eq_iff)
  moreover have "set (H e) = set (H e) - {Ino i}" if "e \<in> iheads" for e using False that by (auto simp: elems_def)
  ultimately show thesis using that [of H] h by (simp add: iring_def)
qed

lemma elems_eq: "(\<And>e. e \<in> D \<Longrightarrow> set (X e) = set (Y e)) \<Longrightarrow> elems D X = elems D Y"
  by (simp add: elems_def)

lemma unhash_ok:
  assumes h: "iring M k H" and i: "i < M"
  obtains H' where "iring M (ialone (Ino i) (remque (Ino i) k)) H'" "\<And>e. e \<in> iheads \<Longrightarrow> set (H' e) = set (H e) - {Ino i}"
proof -
  obtain H' where H': "rings (i_forw (remque (Ino i) k)) (i_back (remque (Ino i) k)) iheads H'" "\<And>e. e \<in> iheads \<Longrightarrow> set (H' e) = set (H e) - {Ino i}"
    "\<And>j. j < M \<Longrightarrow> j \<noteq> i \<Longrightarrow> Ino j \<notin> elems iheads H \<Longrightarrow> i_forw (remque (Ino i) k) (Ino j) = Ino j \<and> i_back (remque (Ino i) k) (Ino j) = Ino j"
    using remque_ok [OF h i] by blast
  have el: "elems iheads H' = elems iheads H - {Ino i}" using H'(2) by (auto simp: elems_def)
  have "rings (i_forw (ialone (Ino i) (remque (Ino i) k))) (i_back (ialone (Ino i) (remque (Ino i) k))) iheads H'"
    by (rule rings_cong_out [OF H'(1)]) (auto simp: ialone_def el)
  then have "iring M (ialone (Ino i) (remque (Ino i) k)) H'"
    using h H'(3) el by (auto simp: iring_def ialone_def)
  then show thesis using that H'(2) by blast
qed

lemma rehash_ino:
  assumes h: "iring M k H" and i: "i < M" and c: "c < 64"
  obtains H' where "iring M (insque (Ino i) (Ihead c) (remque (Ino i) k)) H'"
    "\<And>e. e \<in> iheads \<Longrightarrow> set (H' e) = (set (H e) - {Ino i}) \<union> (if e = Ihead c then {Ino i} else {})"
proof -
  let ?k1 = "remque (Ino i) k" and ?k2 = "insque (Ino i) (Ihead c) (remque (Ino i) k)"
  obtain H1 where H1: "rings (i_forw ?k1) (i_back ?k1) iheads H1" "\<And>e. e \<in> iheads \<Longrightarrow> set (H1 e) = set (H e) - {Ino i}"
    "\<And>j. j < M \<Longrightarrow> j \<noteq> i \<Longrightarrow> Ino j \<notin> elems iheads H \<Longrightarrow> i_forw ?k1 (Ino j) = Ino j \<and> i_back ?k1 (Ino j) = Ino j"
    using remque_ok [OF h i] by blast
  have el: "elems iheads H1 = elems iheads H - {Ino i}" using H1(2) by (auto simp: elems_def)
  have c': "Ihead c \<in> iheads" using c by simp
  have x: "Ino i \<notin> iheads" "Ino i \<notin> elems iheads H1" by (simp_all add: el)
  note m = rings_insert_front [OF H1(1) c' x]
  let ?H = "H1(Ihead c := Ino i # H1 (Ihead c))"
  have f: "i_forw ?k2 = (i_forw ?k1)(Ino i := i_forw ?k1 (Ihead c), Ihead c := Ino i)"
    "i_back ?k2 = (i_back ?k1)(Ino i := Ihead c, i_forw ?k1 (Ihead c) := Ino i)" by (rule insque_fields; simp)+
  have near: "i_forw ?k1 (Ihead c) \<in> iheads \<union> elems iheads H1"
    using ring_near(1) [OF ringsD(1) [OF H1(1) c'], of "Ihead c"] c' unfolding elems_def by (simp del: remque_fields Ino_head) (metis c')
  have "i_forw ?k2 (Ino j) = Ino j \<and> i_back ?k2 (Ino j) = Ino j" if j: "j < M" "Ino j \<notin> elems iheads ?H" for j
  proof -
    have n: "j \<noteq> i" "Ino j \<notin> elems iheads H" using j(2) unfolding m(2) el by auto
    have "i_forw ?k1 (Ihead c) \<noteq> Ino j" using near n el Ino_head(1) [of j] by (metis DiffE UnE)
    then show ?thesis using H1(3) [OF j(1) n] n(1) unfolding f by (simp del: remque_fields)
  qed
  moreover have "elems iheads ?H \<subseteq> Ino ` {..<M}" unfolding m(2) el using h i by (auto simp: iring_def)
  moreover have "rings (i_forw ?k2) (i_back ?k2) iheads ?H" using m(1) unfolding f .
  ultimately have "iring M ?k2 ?H" by (simp add: iring_def)
  moreover have "set (?H e) = (set (H e) - {Ino i}) \<union> (if e = Ihead c then {Ino i} else {})" if "e \<in> iheads" for e
    using H1(2) [OF that] by auto
  ultimately show thesis using that by blast
qed

text \<open>The search.\<close>

lemma INOHASH_less: "INOHASH dev ino < 64"
proof -
  have "unat (and (dev + ino) (63 :: u_int)) \<le> unat (63 :: u_int)" by (rule word_and_le1 [THEN word_le_nat_alt [THEN iffD1]])
  then show ?thesis by (simp add: INOHASH_def)
qed

lemma ifind_ok:
  assumes h: "iring M k H"
  shows "ifind dev ino k = Some (map_option iref_ino (List.find (\<lambda>r. case r of Ino i \<Rightarrow> i_number (itab k i) = ino \<and> i_dev (itab k i) = dev | Ihead h \<Rightarrow> False)
    (H (Ihead (INOHASH dev ino)))))"
proof -
  have "ring (i_forw k) (i_back k) (Ihead (INOHASH dev ino)) (H (Ihead (INOHASH dev ino)))"
    using h INOHASH_less by (auto simp: iring_def intro: ringsD(1))
  from ring_find_ok [OF this] show ?thesis by (simp add: ifind_def Let_def)
qed

end
