(* ===== verification/IcacheSpec.thy ===== *)
theory IcacheSpec imports IcacheLinks begin

text \<open>
  What the inode cache promises. \<open>itable\<close> is the invariant of the table of inodes on device \<open>D\<close>: hash chains and free list are as they
  should be, an inode of the disk is in core at most once, an inode in use is found by its number, and one that is not marked modified
  agrees with the disk. \<open>iview\<close> is the inode of a number as the kernel sees it, in core or on the disk.
\<close>

section \<open>Flags\<close>

declare flag_set [simp]

lemma flag_num [simp]: "\<not> flag 0 b" "flag 1 1" "flag 1 (numeral n) \<longleftrightarrow> and 1 (numeral n :: u_int) \<noteq> 0"
  "flag (numeral m) (numeral n) \<longleftrightarrow> and (numeral m :: u_int) (numeral n) \<noteq> 0" "flag (numeral m) 1 \<longleftrightarrow> and (numeral m :: u_int) 1 \<noteq> 0"
  by (simp_all add: flag_def)

lemma dirty_lock [simp]: "flag (set_flag 1 x) 1094 = flag x 1094" "flag (clr_flag 1 x) 1094 = flag x 1094" "flag (clr_flag 16 x) 1094 = flag x 1094"
    "flag (set_flag 16 x) 1094 = flag x 1094" "flag (clr_flag 1 x) 8 = flag x 8" "flag (clr_flag 16 x) 8 = flag x 8"
  by (simp_all add: flag_clr)

lemma flag_mono: "flag x c \<Longrightarrow> and b c = c \<Longrightarrow> flag x b"
proof -
  assume x: "flag x c" and b: "and b c = c"
  have "and x c = and (and x b) c" by (simp only: and.assoc b)
  then show ?thesis using x by (auto simp: flag_def)
qed

text \<open>The flags of an inode other than those of its lock.\<close>

definition other_flags :: "u_int \<Rightarrow> u_int \<Rightarrow> bool" where
  "other_flags fl x \<longleftrightarrow> (\<forall>b. and ILOCKED b = 0 \<longrightarrow> and IWANT b = 0 \<longrightarrow> flag fl b = flag x b)"

lemma other_flagsD:
  assumes "other_flags fl x"
  shows "flag fl 2 = flag x 2" "flag fl 4 = flag x 4" "flag fl 64 = flag x 64" "flag fl 8 = flag x 8" "flag fl 1094 = flag x 1094" "flag fl 0x1000 = flag x 0x1000"
  using assms by (simp_all add: other_flags_def)

section \<open>The table\<close>

definition on_chain :: "(iref \<Rightarrow> iref list) \<Rightarrow> nat \<Rightarrow> bool" where
  "on_chain H i \<longleftrightarrow> Ino i \<in> elems iheads H"

definition coherent :: "u_int \<Rightarrow> 'a ick_scheme \<Rightarrow> nat \<Rightarrow> bool" where
  "coherent D k i \<longleftrightarrow> load_dinode (dsk D k (i_number (itab k i))) = with_disk (itab k i)"

definition cell_ino :: "u_int \<Rightarrow> nat \<Rightarrow> 'a ick_scheme \<Rightarrow> nat \<Rightarrow> bool" where
  "cell_ino D f k i \<longleftrightarrow> (let v = itab k i in i_dev v = D \<and> i_fs k i = f \<and> ino_place_ok f k (i_number v) \<and> fits v \<and>
     \<not> flag (i_flag v) IMOUNT \<and> (\<not> dirty_ino v \<longrightarrow> coherent D k i))"

definition itable :: "u_int \<Rightarrow> nat \<Rightarrow> nat \<Rightarrow> (iref \<Rightarrow> iref list) \<Rightarrow> nat list \<Rightarrow> 'a ick_scheme \<Rightarrow> bool" where
  "itable D f M H F k \<longleftrightarrow> iring M k H \<and> ilist k F \<and> set F = {i. i < M \<and> i_count (itab k i) = 0} \<and>
     (\<forall>h < 64. \<forall>i. Ino i \<in> set (H (Ihead h)) \<longrightarrow> INOHASH D (i_number (itab k i)) = h) \<and>
     (\<forall>i j. on_chain H i \<longrightarrow> on_chain H j \<longrightarrow> i_number (itab k i) = i_number (itab k j) \<longrightarrow> i = j) \<and>
     (\<forall>i < M. i_count (itab k i) = 0 \<longrightarrow> i_flag (itab k i) = 0) \<and> (\<forall>i < M. i_count (itab k i) \<noteq> 0 \<longrightarrow> on_chain H i) \<and>
     (\<forall>i. on_chain H i \<longrightarrow> cell_ino D f k i)"

definition iwritable :: "nat \<Rightarrow> 'a ick_scheme \<Rightarrow> bool" where
  "iwritable f k \<longleftrightarrow> fs_ronly (fss k f) = 0 \<and> int32 (time_sec k) \<and> (\<forall>i. a_ino k i \<noteq> 0)"

definition icache_ok :: "nat \<Rightarrow> u_int \<Rightarrow> nat \<Rightarrow> nat \<Rightarrow> 'a ick_scheme \<Rightarrow> bool" where
  "icache_ok N D f M k \<longleftrightarrow> idle N D k \<and> iwritable f k \<and> (\<exists>H F. itable D f M H F k)"

definition iview :: "u_int \<Rightarrow> 'a ick_scheme \<Rightarrow> u_int \<Rightarrow> inode \<Rightarrow> inode" where
  "iview D k ino = (case ifind D ino k of Some (Some i) \<Rightarrow> with_disk (itab k i) | _ \<Rightarrow> load_dinode (dsk D k ino))"

lemma itableD:
  assumes "itable D f M H F k"
  shows "iring M k H" "ilist k F" "set F = {i. i < M \<and> i_count (itab k i) = 0}"
    "h < 64 \<Longrightarrow> Ino i \<in> set (H (Ihead h)) \<Longrightarrow> INOHASH D (i_number (itab k i)) = h"
    "on_chain H i \<Longrightarrow> on_chain H j \<Longrightarrow> i_number (itab k i) = i_number (itab k j) \<Longrightarrow> i = j"
    "i < M \<Longrightarrow> i_count (itab k i) = 0 \<Longrightarrow> i_flag (itab k i) = 0" "i < M \<Longrightarrow> i_count (itab k i) \<noteq> 0 \<Longrightarrow> on_chain H i"
    "on_chain H i \<Longrightarrow> cell_ino D f k i" "on_chain H i \<Longrightarrow> i < M"
  using assms unfolding itable_def iring_def on_chain_def by auto

lemma on_chain_head: "on_chain H i \<longleftrightarrow> (\<exists>h < 64. Ino i \<in> set (H (Ihead h)))"
  by (auto simp: on_chain_def elems_def iheads_def)

lemma ifind_chain:
  assumes t: "itable D f M H F k"
  shows "on_chain H i \<Longrightarrow> ifind D (i_number (itab k i)) k = Some (Some i)"
    "\<forall>i. on_chain H i \<longrightarrow> i_number (itab k i) \<noteq> ino \<Longrightarrow> ifind D ino k = Some None"
proof -
  let ?P = "\<lambda>ino r. case r of Ino i \<Rightarrow> i_number (itab k i) = ino \<and> i_dev (itab k i) = D | Ihead h \<Rightarrow> False"
  have f: "ifind D ino k = Some (map_option iref_ino (List.find (?P ino) (H (Ihead (INOHASH D ino)))))" for ino
    by (rule ifind_ok [OF itableD(1) [OF t]])
  have hit: "\<exists>j. r = Ino j \<and> on_chain H j \<and> i_number (itab k j) = ino"
    if "List.find (?P ino) (H (Ihead (INOHASH D ino))) = Some r" for ino r
  proof -
    have r: "r \<in> set (H (Ihead (INOHASH D ino)))" "?P ino r" using that by (auto simp: find_Some_iff)
    obtain j where j: "r = Ino j" "i_number (itab k j) = ino" using r(2) by (cases r) simp_all
    then show ?thesis using r(1) INOHASH_less [of D ino] unfolding on_chain_head by blast
  qed
  show "ifind D (i_number (itab k i)) k = Some (Some i)" if i: "on_chain H i"
  proof -
    let ?n = "i_number (itab k i)"
    obtain h where h: "h < 64" "Ino i \<in> set (H (Ihead h))" using i by (auto simp: on_chain_head)
    have "INOHASH D ?n = h" by (rule itableD(4) [OF t h])
    moreover have "i_dev (itab k i) = D" using itableD(8) [OF t i] by (simp add: cell_ino_def Let_def)
    ultimately have "List.find (?P ?n) (H (Ihead (INOHASH D ?n))) \<noteq> None" using h by (auto simp: find_None_iff)
    then obtain r where r: "List.find (?P ?n) (H (Ihead (INOHASH D ?n))) = Some r" by blast
    then obtain j where j: "r = Ino j" "on_chain H j" "i_number (itab k j) = ?n" using hit [OF r] by blast
    have "i = j" by (rule itableD(5) [OF t i j(2)]) (simp add: j(3))
    then show ?thesis using f [of ?n] r j(1) by simp
  qed
  show "ifind D ino k = Some None" if "\<forall>i. on_chain H i \<longrightarrow> i_number (itab k i) \<noteq> ino"
    using f [of ino] hit [of ino] that by (cases "List.find (?P ino) (H (Ihead (INOHASH D ino)))") auto
qed

lemma iview_chain:
  assumes t: "itable D f M H F k"
  shows "on_chain H i \<Longrightarrow> iview D k (i_number (itab k i)) = with_disk (itab k i)"
    "\<forall>i. on_chain H i \<longrightarrow> i_number (itab k i) \<noteq> ino \<Longrightarrow> iview D k ino = load_dinode (dsk D k ino)"
  using ifind_chain [OF t] by (simp_all add: iview_def)

lemma ink_more:
  assumes "ink.more (k' :: 'a ick_scheme) = ink.more k"
  shows "i_forw k' = i_forw k" "i_back k' = i_back k" "ifreeh k' = ifreeh k" "ifreet k' = ifreet k" "i_freef k' = i_freef k"
    "i_freeb k' = i_freeb k" "a_ino k' = a_ino k" "iring M k' H = iring M k H" "ilist k' F = ilist k F" "a_ilock k' = a_ilock k" "updlock k' = updlock k"
proof -
  show "i_forw k' = i_forw k" "i_back k' = i_back k" "ifreeh k' = ifreeh k" "ifreet k' = ifreet k" "i_freef k' = i_freef k"
    "i_freeb k' = i_freeb k" "a_ino k' = a_ino k" "a_ilock k' = a_ilock k" "updlock k' = updlock k"
    using assms by (cases k; cases k'; simp)+
  then show "iring M k' H = iring M k H" "ilist k' F = ilist k F" by (simp_all add: iring_def ilist_def)
qed

section \<open>Frames\<close>

text \<open>A routine that works on one inode in core.\<close>

lemma cell_other:
  assumes t: "itable D f M H F k" and a: "alters N D f ip k k'" and j: "on_chain H j" "on_chain H ip" "j \<noteq> ip"
  shows "cell_ino D f k' j"
proof -
  have n: "i_number (itab k j) \<noteq> i_number (itab k ip)" using itableD(5) [OF t j(1,2)] j(3) by blast
  note d = altersD(2) [OF a j(3)] altersD(5) [OF a] altersD(11) [OF a]
  have c: "cell_ino D f k j" by (rule itableD(8) [OF t j(1)])
  then have "dsk D k' (i_number (itab k j)) = dsk D k (i_number (itab k j))"
    using altersD(10) [OF a n] by (simp add: cell_ino_def Let_def)
  then show ?thesis using c d by (simp add: cell_ino_def Let_def coherent_def)
qed

lemma itable_alters:
  assumes t: "itable D f M H F k" and a: "alters N D f ip k k'" and ip: "on_chain H ip"
    and c: "i_count (itab k' ip) = 0 \<longleftrightarrow> i_count (itab k ip) = 0" "i_count (itab k' ip) = 0 \<Longrightarrow> i_flag (itab k' ip) = 0" "cell_ino D f k' ip"
  shows "itable D f M H F k'" "ino \<noteq> i_number (itab k ip) \<Longrightarrow> ino_place_ok f k ino \<Longrightarrow> iview D k' ino = iview D k ino"
    "iview D k' (i_number (itab k ip)) = with_disk (itab k' ip)"
proof -
  note d = altersD [OF a] and m = ink_more [OF altersD(9) [OF a]]
  have s: "i_number (itab k' j) = i_number (itab k j)" "(i_count (itab k' j) = 0) = (i_count (itab k j) = 0)" for j
    using d(2) [of j] d(3) c(1) by (cases "j = ip"; simp)+
  have fl: "i_flag (itab k' j) = 0" if "j < M" "i_count (itab k' j) = 0" for j
    using c(2) itableD(6) [OF t that(1)] d(2) [of j] s(2) that(2) by (cases "j = ip") auto
  have ce: "cell_ino D f k' j" if "on_chain H j" for j using cell_other [OF t a that ip] c(3) by (cases "j = ip") simp_all
  show t': "itable D f M H F k'"
    using t fl ce unfolding itable_def by (simp add: m(8,9) s)
  have f: "ifind D ino k' = ifind D ino k" for ino
  proof (cases "\<exists>i. on_chain H i \<and> i_number (itab k i) = ino")
    case True
    then show ?thesis using ifind_chain(1) [OF t] ifind_chain(1) [OF t'] s(1) by metis
  next
    case False
    then show ?thesis using ifind_chain(2) [OF t] ifind_chain(2) [OF t'] s(1) by metis
  qed
  show "iview D k' (i_number (itab k ip)) = with_disk (itab k' ip)" using iview_chain(1) [OF t' ip] s(1) by simp
  show "iview D k' ino = iview D k ino" if n: "ino \<noteq> i_number (itab k ip)" "ino_place_ok f k ino"
  proof (cases "\<exists>i. on_chain H i \<and> i_number (itab k i) = ino")
    case True
    then obtain i where i: "on_chain H i" "i_number (itab k i) = ino" by blast
    then have "i \<noteq> ip" using n(1) by auto
    then show ?thesis using iview_chain(1) [OF t i(1)] iview_chain(1) [OF t' i(1)] i(2) s(1) d(2) by simp
  next
    case False
    then show ?thesis using iview_chain(2) [OF t] iview_chain(2) [OF t'] s(1) d(10) [OF n] by simp
  qed
qed

lemma idle_alters: "idle N D k \<Longrightarrow> alters N D f ip k k' \<Longrightarrow> idle N D k'"
  using altersD(1) [of N D f ip k k'] by (auto simp: idle_def touches_def)

lemma writable_alters: "iwritable f k \<Longrightarrow> alters N D f ip k k' \<Longrightarrow> iwritable f k'"
  using altersD(7) [of N D f ip k k'] nofreeD(3) [OF altersD(8) [of N D f ip k k' f]] ink_more(7) [OF altersD(9) [of N D f ip k k']]
  by (simp add: iwritable_def)

section \<open>Locks\<close>

lemma iunlock_ok:
  assumes c: "cache_ok N D k" and w: "a_ino k ip \<noteq> 0"
  obtains k' fl where "iunlock ip k = Some k'" "alters N D f ip k k'" "itab k' ip = (itab k ip)\<lparr>i_flag := fl\<rparr>" "same_cache k k'"
    "other_flags fl (i_flag (itab k ip))" "\<not> flag fl ILOCKED" "fss k' = fss k" "a_flock k' = a_flock k"
proof -
  let ?g = "\<lambda>v :: inode. v\<lparr>i_flag := clr_flag ILOCKED (i_flag v)\<rparr>" and ?w = "\<lambda>v :: inode. v\<lparr>i_flag := clr_flag IWANT (i_flag v)\<rparr>"
  let ?k1 = "upd_ino ip ?g k" and ?f = "clr_flag ILOCKED (i_flag (itab k ip))"
  have a1: "alters N D f ip k ?k1" by (rule alters_upd [OF c]) simp_all
  have l: "\<not> flag ?f ILOCKED" by (rule clr_none)
  have l2: "\<not> flag (clr_flag 16 ?f) ILOCKED" using l by (simp add: flag_clr)
  show thesis
  proof (cases "flag ?f IWANT")
    case False
    have "iunlock ip k = Some ?k1" using False by (simp add: iunlock_def)
    from that [OF this a1, of ?f] show thesis using l by (simp add: upd_ino_cache other_flags_def flag_clr)
  next
    case True
    let ?k2 = "upd_ino ip ?w ?k1"
    have c1: "cache_ok N D ?k1" using same_cache_cong(2) [OF upd_ino_cache(1), of N D ip ?g k] c by simp
    have sc: "same_cache k ?k2" using upd_ino_cache(1) [of k ip ?g] upd_ino_cache(1) [of ?k1 ip ?w] by (simp add: same_cache_def same_mem_def)
    have a2: "alters N D f ip k ?k2" by (rule alters_trans [OF a1 alters_upd [OF c1]]) simp_all
    have "sys_ok k" using c by (auto simp: cache_ok_def)
    then have s: "sys_ok ?k2" using sc by (simp add: same_cache_def)
    have w2: "a_ino ?k2 ip \<noteq> 0" using w by (simp add: upd_ino_def)
    obtain k' where k': "wakeup (a_ino ?k2 ip) ?k2 = Some k'" "same_cache ?k2 k'" "bio.more k' = bio.more ?k2"
      by (rule wake_chan [OF s w2])
    note m = bmore_ink [OF k'(3)] bmore_rest [OF k'(3)]
    have sc': "same_cache k k'" using sc k'(2) by (simp add: same_cache_def same_mem_def)
    have "alters N D f ip ?k2 k'"
    proof (rule altersI [where v = "itab ?k2 ip"])
      have "cache_ok N D ?k2" using same_cache_cong(2) [OF sc] c by simp
      then show "touches N D UNIV ?k2 k'" using touches_mono [OF touches_cache [OF touches_refl k'(2)]] by simp
      show "itab k' = (itab ?k2)(ip := itab ?k2 ip)" by (simp only: m(1) fun_upd_triv)
      show "time_sec k' = time_sec ?k2" by (rule outerD(2) [OF wakeup_outer [OF k'(1)]])
      show "dsk D k' ino = dsk D ?k2 ino" for ino using same_cache_cong(4) [OF k'(2)] by (simp add: dsk_def)
    qed (use m in simp_all)
    then have a: "alters N D f ip k k'" by (rule alters_trans [OF a2])
    have "iunlock ip k = Some k'" using True k'(1) by (simp add: iunlock_def upd_ino_def Let_def)
    from that [OF this a _ sc', of "clr_flag IWANT ?f"] show thesis using m l2 by (simp add: upd_ino_def other_flags_def flag_clr)
  qed
qed

end
