(* ===== verification/IcacheOps.thy ===== *)
theory IcacheOps imports IcacheSpec begin

text \<open>
  iput and iget on the invariant of the inode cache.
\<close>

section \<open>One inode and its place on the free list\<close>

lemma ilist_upd [simp]: "ilist (upd_ino ip g k) F = ilist k F" "iring M (upd_ino ip g k) H = iring M k H" "a_ino (upd_ino ip g k) = a_ino k"
    "ram_size (upd_ino ip g k) = ram_size k" "u (upd_ino ip g k) = u k"
    "i_freeb (upd_ino ip g k) = i_freeb k" "i_freef (upd_ino ip g k) = i_freef k" "ifreeh (upd_ino ip g k) = ifreeh k"
  by (simp_all add: ilist_def iring_def upd_ino_def)

lemma upd_ino_other: "j \<noteq> ip \<Longrightarrow> itab (upd_ino ip g k) j = itab k j"
  by (simp add: upd_ino_def)

lemma dsk_cache: "same_cache k k' \<Longrightarrow> dsk D k' = dsk D k"
  by (simp add: dsk_def fun_eq_iff same_cache_cong(4))

lemma place_cong: "fss k' = fss k \<Longrightarrow> ram_size k' = ram_size k \<Longrightarrow> ino_place_ok f k' = ino_place_ok f k"
  by (simp add: ino_place_ok_def on_disk_def fun_eq_iff)

lemma same_cache_trans: "same_cache k k1 \<Longrightarrow> same_cache k1 k2 \<Longrightarrow> same_cache k k2"
  by (simp add: same_cache_def same_mem_def)

lemma same_cache_ram: "same_cache k k' \<Longrightarrow> ram_size k' = ram_size k"
  by (simp add: same_cache_def same_mem_def)

lemma idle_cache: "same_cache k k' \<Longrightarrow> idle N D k' = idle N D k"
  by (simp add: idle_def same_cache_cong)

lemma itable_relink:
  assumes t: "itable D f M H F k" and l: "list_only k k1" "ilist k1 F'" and ip: "on_chain H ip"
    and v: "i_number (g (itab k ip)) = i_number (itab k ip)" "i_dev (g (itab k ip)) = i_dev (itab k ip)"
      "with_disk (g (itab k ip)) = with_disk (itab k ip)" "fits (g (itab k ip))" "\<not> flag (i_flag (g (itab k ip))) IMOUNT"
    and fl: "\<not> dirty_ino (g (itab k ip)) \<longrightarrow> coherent D k ip" "i_count (g (itab k ip)) = 0 \<longrightarrow> i_flag (g (itab k ip)) = 0"
    and F: "set F' = (if i_count (g (itab k ip)) = 0 then insert ip (set F) else set F - {ip})"
  shows "itable D f M H F' (upd_ino ip g k1)" "iview D (upd_ino ip g k1) ino = iview D k ino"
proof -
  note d = list_onlyD [OF l(1)]
  let ?k = "upd_ino ip g k1"
  have sc: "same_cache k ?k" using same_cache_trans [OF d(10) upd_ino_cache(1)] .
  note p = place_cong [of ?k k, OF _ same_cache_ram [OF sc]]
  have tb: "itab ?k j = (if j = ip then g (itab k ip) else itab k j)" for j by (simp add: upd_ino_def d(1))
  have s: "i_number (itab ?k j) = i_number (itab k j)" for j using v(1) by (simp add: tb)
  have ce: "cell_ino D f ?k j" if "on_chain H j" for j
    using itableD(8) [OF t that] v fl(1) by (auto simp: cell_ino_def Let_def tb p d coherent_def dsk_cache [OF sc])
  have M: "ip < M" by (rule itableD(9) [OF t ip])
  have "iring M k1 H" using itableD(1) [OF t] d(6,7) by (simp add: iring_def)
  then have r: "iring M ?k H" by simp
  have Fs: "set F' = {i. i < M \<and> i_count (itab ?k i) = 0}" unfolding F using itableD(3) [OF t] M by (auto simp: tb)
  have z: "i_flag (itab ?k j) = 0" if "j < M" "i_count (itab ?k j) = 0" for j
    using that itableD(6) [OF t that(1)] fl(2) by (auto simp: tb split: if_splits)
  have on: "on_chain H j" if "j < M" "i_count (itab ?k j) \<noteq> 0" for j
    using that itableD(7) [OF t that(1)] ip by (auto simp: tb split: if_splits)
  show t': "itable D f M H F' ?k"
    using t l(2) r Fs z on ce unfolding itable_def s by simp
  show "iview D ?k ino = iview D k ino"
  proof (cases "\<exists>i. on_chain H i \<and> i_number (itab k i) = ino")
    case True
    then obtain i where i: "on_chain H i" "i_number (itab k i) = ino" by blast
    have "with_disk (itab ?k i) = with_disk (itab k i)" using v(3) by (simp add: tb)
    then show ?thesis using iview_chain(1) [OF t i(1)] iview_chain(1) [OF t' i(1), unfolded s] i(2) by simp
  next
    case False
    then show ?thesis using iview_chain(2) [OF t] iview_chain(2) [OF t'] by (simp add: s dsk_cache [OF sc])
  qed
qed

section \<open>igrab\<close>

lemma with_disk_eqI: "i_mode v' = i_mode v \<Longrightarrow> i_nlink v' = i_nlink v \<Longrightarrow> i_uid v' = i_uid v \<Longrightarrow> i_gid v' = i_gid v \<Longrightarrow> i_size v' = i_size v \<Longrightarrow>
    i_addr v' = i_addr v \<Longrightarrow> i_atime v' = i_atime v \<Longrightarrow> i_mtime v' = i_mtime v \<Longrightarrow> i_ctime v' = i_ctime v \<Longrightarrow> with_disk v' = with_disk v"
  by (simp add: with_disk_def fun_eq_iff)

lemma with_disk_upd [simp]:
  "with_disk (v\<lparr>i_flag := a\<rparr>) = with_disk v" "with_disk (v\<lparr>i_count := b\<rparr>) = with_disk v" "with_disk (v\<lparr>i_dev := c\<rparr>) = with_disk v"
  "with_disk (v\<lparr>i_number := d\<rparr>) = with_disk v" "fits (v\<lparr>i_flag := a\<rparr>) = fits v" "fits (v\<lparr>i_count := b\<rparr>) = fits v"
  "fits (v\<lparr>i_dev := c\<rparr>) = fits v" "fits (v\<lparr>i_number := d\<rparr>) = fits v"
  by (simp_all add: with_disk_def fits_def fun_eq_iff)

lemma igrab_ok:
  assumes t: "itable D f M H F k" and ip: "on_chain H ip" and n: "i_count (itab k ip) + 1 \<noteq> 0"
  obtains k' F' where "igrab ip k = Some k'" "itable D f M H F' k'" "same_cache k k'" "\<forall>ino. iview D k' ino = iview D k ino"
    "itab k' = (itab k)(ip := (itab k ip)\<lparr>i_count := i_count (itab k ip) + 1, i_flag := set_flag ILOCKED (i_flag (itab k ip))\<rparr>)"
    "i_fs k' = i_fs k" "fss k' = fss k" "mounts k' = mounts k" "time_sec k' = time_sec k" "a_ino k' = a_ino k" "a_flock k' = a_flock k"
proof -
  let ?g = "\<lambda>v :: inode. v\<lparr>i_count := i_count v + 1, i_flag := set_flag ILOCKED (i_flag v)\<rparr>"
  have ce: "cell_ino D f k ip" by (rule itableD(8) [OF t ip])
  have M: "ip < M" by (rule itableD(9) [OF t ip])
  note res = that
  have main: thesis if k1: "(if i_count (itab k ip) = 0 then iunfree ip k else Some k) = Some k1" "list_only k k1" "ilist k1 F'" "set F' = set F - {ip}" for k1 F'
  proof -
    note d = list_onlyD [OF k1(2)]
    note r = itable_relink [OF t k1(2,3) ip, where g = ?g]
    have t': "itable D f M H F' (upd_ino ip ?g k1)" "iview D (upd_ino ip ?g k1) ino = iview D k ino" for ino
      by (rule r; use ce n k1(4) in \<open>simp add: cell_ino_def Let_def\<close>)+
    show thesis
      by (rule res [OF _ t'(1) same_cache_trans [OF d(10) upd_ino_cache(1)]])
        (use k1(1) d t'(2) in \<open>simp_all add: igrab_def upd_ino_def\<close>)
  qed
  show thesis
  proof (cases "i_count (itab k ip) = 0")
    case True
    then have "ip \<in> set F" using itableD(3) [OF t] M by simp
    then obtain as bs where F: "F = as @ ip # bs" by (auto dest: split_list)
    have l: "ilist k (as @ ip # bs)" using itableD(2) [OF t] F by simp
    obtain k1 where k1: "iunfree ip k = Some k1" "ilist k1 (as @ bs)" "list_only k k1" by (rule iunfree_ok [OF l])
    have "set (as @ bs) = set F - {ip}" using l by (auto simp: F ilist_def)
    then show thesis using main [OF _ k1(3,2)] True k1(1) by simp
  next
    case False
    then have "ip \<notin> set F" using itableD(3) [OF t] by simp
    then show thesis using main [of k F] False itableD(2) [OF t] by simp
  qed
qed

section \<open>iput\<close>

lemma stamp_frame: "with_disk (ITIMES t v) = with_disk (stamp t t t v)" "fits v \<Longrightarrow> int32 t \<Longrightarrow> fits (ITIMES t v)"
  "i_number (ITIMES t v) = i_number v" "i_dev (ITIMES t v) = i_dev v" "i_count (ITIMES t v) = i_count v" "i_count (stamp t t t v) = i_count v"
proof -
  show "i_number (ITIMES t v) = i_number v" "i_dev (ITIMES t v) = i_dev v" "i_count (ITIMES t v) = i_count v" "i_count (stamp t t t v) = i_count v"
    by (simp_all add: ITIMES_def stamp_def Let_def)
  have or3: "flag x (or a (or b c)) \<longleftrightarrow> flag x a \<or> flag x b \<or> flag x c" for x a b c :: u_int
    by (simp add: flag_def bit.conj_disj_distrib or_eq_0_iff)
  have "flag x 70 \<longleftrightarrow> flag x 2 \<or> flag x 4 \<or> flag x 64" for x using or3 [of x 2 4 64] by simp
  then show "with_disk (ITIMES t v) = with_disk (stamp t t t v)"
    by (intro with_disk_eqI) (simp_all add: ITIMES_def stamp_def Let_def)
  show "fits v \<Longrightarrow> int32 t \<Longrightarrow> fits (ITIMES t v)" by (simp add: fits_def ITIMES_def)
qed

lemma stamp_clean_disk: "\<not> dirty_ino v \<Longrightarrow> with_disk (stamp t t t v) = with_disk v"
proof -
  assume d: "\<not> dirty_ino v"
  have or4: "flag x (or a (or b (or c d))) \<longleftrightarrow> flag x a \<or> flag x b \<or> flag x c \<or> flag x d" for x a b c d :: u_int
    by (simp add: flag_def bit.conj_disj_distrib or_eq_0_iff)
  have "\<not> flag (i_flag v) (or IUPD (or IACC (or ICHG IMOD)))" using d by simp
  then have "\<not> flag (i_flag v) IACC" "\<not> flag (i_flag v) IUPD" "\<not> flag (i_flag v) ICHG" unfolding or4 by simp_all
  then show ?thesis by (intro with_disk_eqI) (simp_all add: stamp_def Let_def)
qed

lemma iappend_commute: "upd_ino ip g (iappend ip (upd_ino ip h k)) = upd_ino ip (\<lambda>v. g (h v)) (iappend ip k)"
  by (cases "ifreet k") (simp_all add: iappend_def upd_ino_def iset_def Let_def)

text \<open>Changes of the flags other than the marks of modification.\<close>

lemma itable_flags:
  assumes t: "itable D f M H F k" and a: "alters N D f ip k k'" and ip: "on_chain H ip" and n: "i_count (itab k ip) \<noteq> 0"
    and v: "itab k' ip = (itab k ip)\<lparr>i_flag := fl\<rparr>" "flag fl 1094 = dirty_ino (itab k ip)" "\<not> flag fl IMOUNT" and sc: "same_cache k k'"
  shows "itable D f M H F k'" "ino_place_ok f k ino \<Longrightarrow> iview D k' ino = iview D k ino"
proof -
  have ce: "cell_ino D f k ip" by (rule itableD(8) [OF t ip])
  have wd: "with_disk (itab k' ip) = with_disk (itab k ip)" unfolding v(1) by (rule with_disk_eqI) simp_all
  have "cell_ino D f k' ip" using ce altersD(5,11) [OF a] v(2,3) wd by (simp add: cell_ino_def Let_def v(1) fits_def coherent_def dsk_cache [OF sc])
  note r = itable_alters [OF t a ip _ _ this]
  show "itable D f M H F k'" by (rule r(1)) (use n in \<open>simp_all add: v(1)\<close>)
  show "iview D k' ino = iview D k ino" if p: "ino_place_ok f k ino"
  proof (cases "ino = i_number (itab k ip)")
    case True
    have "iview D k' (i_number (itab k ip)) = with_disk (itab k' ip)" by (rule r(3)) (use n in \<open>simp_all add: v(1)\<close>)
    then show ?thesis using True wd iview_chain(1) [OF t ip] by simp
  next
    case False
    show ?thesis by (rule r(2) [OF _ _ False p]) (use n in \<open>simp_all add: v(1)\<close>)
  qed
qed

lemma iwrite_ok:
  assumes t: "itable D f M H F k" and id: "idle N D k" and w: "iwritable f k" and ip: "on_chain H ip" and tp: "\<not> tape D"
  defines "v \<equiv> itab k ip"
  obtains k' where "iupdat ramstrategy tape ip (time_sec k) (time_sec k) sy k = Some (Got (), k')" "alters N D f ip k k'" "cell_ino D f k' ip"
    "\<not> dirty_ino (itab k' ip)" "coherent D k' ip" "with_disk (itab k' ip) = with_disk (stamp (time_sec k) (time_sec k) (time_sec k) v)"
    "i_count (itab k' ip) = i_count v" "fss k' = fss k" "\<forall>xs. fs_ok N D f xs k \<longrightarrow> fs_ok N D f xs k'"
proof -
  have ce: "i_dev v = D" "i_fs k ip = f" "ino_place_ok f k (i_number v)" "fits v" "\<not> flag (i_flag v) IMOUNT" "\<not> dirty_ino v \<longrightarrow> coherent D k ip"
    using itableD(8) [OF t ip] by (simp_all add: cell_ino_def Let_def v_def)
  have wr: "fs_ronly (fss k f) = 0" "int32 (time_sec k)" using w by (simp_all add: iwritable_def)
  have c: "cache_ok N D k" using id by (simp add: idle_def)
  show thesis
  proof (cases "dirty_ino v")
    case False
    then have "iupdat ramstrategy tape ip (time_sec k) (time_sec k) sy k = Some (Got (), k)" by (simp add: iupdat_def v_def)
    from that [OF this alters_refl [OF c] itableD(8) [OF t ip]] show thesis
      using False ce(6) stamp_clean_disk [OF False] by (simp add: v_def)
  next
    case True
    obtain k' where k': "iupdat ramstrategy tape ip (time_sec k) (time_sec k) sy k = Some (Got (), k')" "alters N D f ip k k'"
      "itab k' ip = stamp (time_sec k) (time_sec k) (time_sec k) v" "touches N D {itod (i_number v)} k k'" "fss k' = fss k" "a_flock k' = a_flock k"
      "\<And>x. load_dinode (dsk D k' (i_number v)) x = with_disk (itab k' ip) x"
      unfolding v_def
      by (rule alters_iupdat [where tape = tape and w = sy and ip = ip and f = f and k = k and ta = "time_sec k" and tm = "time_sec k",
            OF c idle_nb(2) [OF id]])
        (use ce wr tp True idle_nb(1) [OF id] in \<open>simp_all add: v_def ino_place_ok_def\<close>)
    have n: "i_number (itab k' ip) = i_number v" by (simp add: k'(3))
    have co: "coherent D k' ip" using k'(7) by (simp add: coherent_def n fun_eq_iff)
    have fl: "\<not> flag (i_flag (itab k' ip)) IMOUNT" using ce(5) by (simp add: k'(3) stamp_def Let_def flag_clr)
    have "cell_ino D f k' ip"
      using ce altersD(5,11) [OF k'(2)] co fl fits_stamp [OF ce(4) wr(2) wr(2) wr(2)] by (simp add: cell_ino_def Let_def k'(3))
    moreover have "fs_ok N D f xs k'" if o: "fs_ok N D f xs k" for xs
    proof -
      have "\<not> usable (fss k f) k (itod (i_number v))" using ce(3) by (simp add: usable_def badblock_def ino_place_ok_def)
      then show ?thesis by (intro fs_okI [OF o k'(4) _ order.refl]) (use fs_okD(2,5,8) [OF o] in \<open>auto simp: k'(5,6)\<close>)
    qed
    ultimately show thesis using that [OF k'(1,2) _ _ co] stamp_clean by (simp add: k'(3,5) stamp_frame)
  qed
qed

text \<open>The end of the last reference.\<close>

lemma iclose_ok:
  assumes t: "itable D f M H F k" and id: "idle N D k" and w: "iwritable f k" and ip: "on_chain H ip" and tp: "\<not> tape D"
    and c: "i_count (itab k ip) = 1"
  defines "v \<equiv> itab k ip"
  obtains k1 k' where "iclose ramstrategy tape ip k = Some (Got (), k1)" "k' = upd_ino ip (\<lambda>v. v\<lparr>i_count := i_count v - 1\<rparr>) k1"
    "itable D f M H (F @ [ip]) k'" "idle N D k'" "iwritable f k'"
    "iview D k' (i_number v) = with_disk (stamp (time_sec k) (time_sec k) (time_sec k) v)"
    "\<forall>ino. ino \<noteq> i_number v \<longrightarrow> ino_place_ok f k ino \<longrightarrow> iview D k' ino = iview D k ino"
    "i_count (itab k' ip) = 0" "i_number (itab k' ip) = i_number v" "\<forall>j. j \<noteq> ip \<longrightarrow> itab k' j = itab k j" "ino_place_ok f k' = ino_place_ok f k"
    "coherent D k' ip" "fss k' = fss k" "\<forall>xs. fs_ok N D f xs k \<longrightarrow> fs_ok N D f xs k'"
proof -
  let ?t = "time_sec k"
  obtain k3 where k3: "iupdat ramstrategy tape ip ?t ?t False k = Some (Got (), k3)" "alters N D f ip k k3" "cell_ino D f k3 ip"
    "\<not> dirty_ino (itab k3 ip)" "coherent D k3 ip" "with_disk (itab k3 ip) = with_disk (stamp ?t ?t ?t v)" "i_count (itab k3 ip) = 1"
    "fss k3 = fss k" "\<forall>xs. fs_ok N D f xs k \<longrightarrow> fs_ok N D f xs k3"
    by (rule iwrite_ok [where sy = False and tape = tape, OF t id w ip tp]) (use c in \<open>simp_all add: v_def\<close>)
  note r3 = itable_alters [OF t k3(2) ip _ _ k3(3)]
  have t3: "itable D f M H F k3" by (rule r3(1)) (use c k3(7) in simp_all)
  have n3: "i_number (itab k3 ip) = i_number v" using altersD(3) [OF k3(2)] by (simp add: v_def)
  have c3: "cache_ok N D k3" and w3: "a_ino k3 ip \<noteq> 0"
    using idle_alters [OF id k3(2)] writable_alters [OF w k3(2)] by (simp_all add: idle_def iwritable_def)
  obtain k4 fl where k4: "iunlock ip k3 = Some k4" "alters N D f ip k3 k4" "itab k4 ip = (itab k3 ip)\<lparr>i_flag := fl\<rparr>" "same_cache k3 k4"
    "other_flags fl (i_flag (itab k3 ip))" "\<not> flag fl ILOCKED" "fss k4 = fss k3" "a_flock k4 = a_flock k3"
    by (rule iunlock_ok [where f = f, OF c3 w3])
  have f4: "itable D f M H F k4" "ino_place_ok f k3 ino \<Longrightarrow> iview D k4 ino = iview D k3 ino" for ino
    by (rule itable_flags [OF t3 k4(2) ip _ k4(3) _ _ k4(4)]; use k3(3,7) other_flagsD [OF k4(5)] in \<open>simp add: cell_ino_def Let_def\<close>)+
  have co4: "coherent D k4 ip" using k3(5) by (simp add: coherent_def k4(3) dsk_cache [OF k4(4)])
  let ?g = "\<lambda>v :: inode. v\<lparr>i_flag := 0, i_count := i_count v - 1\<rparr>"
  define k5 where "k5 = iappend ip k4"
  have nF: "ip \<notin> set F" using itableD(3) [OF f4(1)] k3(7) by (simp add: k4(3))
  note ap = iappend_ok [OF itableD(2) [OF f4(1)] nF, folded k5_def]
  have ce4: "cell_ino D f k4 ip" by (rule itableD(8) [OF f4(1) ip])
  note rl = itable_relink [OF f4(1) ap(2,1) ip, where g = ?g]
  have r: "itable D f M H (F @ [ip]) (upd_ino ip ?g k5)" "\<And>ino. iview D (upd_ino ip ?g k5) ino = iview D k4 ino"
    by (rule rl(1), use ce4 co4 k3(7) in \<open>simp_all add: cell_ino_def Let_def k4(3)\<close>) (rule rl(2), use ce4 co4 k3(7) in \<open>simp_all add: cell_ino_def Let_def k4(3)\<close>)
  let ?k = "upd_ino ip ?g k5"
  have a: "alters N D f ip k k4" by (rule alters_trans [OF k3(2) k4(2)])
  note l5 = list_onlyD [OF ap(2)]
  have sc: "same_cache k4 ?k" using same_cache_trans [OF l5(10) upd_ino_cache(1)] .
  have run: "iclose ramstrategy tape ip k = Some (Got (), iappend ip (upd_ino ip (\<lambda>v. v\<lparr>i_flag := 0\<rparr>) k4))"
    "?k = upd_ino ip (\<lambda>v. v\<lparr>i_count := i_count v - 1\<rparr>) (iappend ip (upd_ino ip (\<lambda>v. v\<lparr>i_flag := 0\<rparr>) k4))"
    using k3(1) k4(1) by (simp_all add: iclose_def iappend_commute k5_def)
  have pl: "ino_place_ok f k' = ino_place_ok f k" if "k' \<in> {k3, k4}" for k'
    using altersD(11) [OF k3(2)] altersD(11) [OF a] that by (auto simp: fun_eq_iff)
  have p5: "ino_place_ok f ?k = ino_place_ok f k4" by (rule place_cong) (simp_all add: l5)
  have ki: "itab ?k = (itab k4)(ip := ?g (itab k4 ip))" by (simp add: upd_ino_def l5)
  have vw: "iview D ?k (i_number v) = with_disk (stamp ?t ?t ?t v)"
  proof -
    have "iview D k3 (i_number (itab k ip)) = with_disk (itab k3 ip)" by (rule r3(3)) (use c k3(7) in simp_all)
    moreover have "ino_place_ok f k3 (i_number v)" using k3(3) n3 by (simp add: cell_ino_def Let_def)
    ultimately show ?thesis using r(2) f4(2) k3(6) by (simp add: v_def)
  qed
  have ov: "iview D ?k ino = iview D k ino" if i: "ino \<noteq> i_number v" "ino_place_ok f k ino" for ino
  proof -
    have "iview D k3 ino = iview D k ino" by (rule r3(2)) (use c k3(7) i in \<open>simp_all add: v_def\<close>)
    then show ?thesis using r(2) f4(2) i(2) pl by simp
  qed
  have fo: "fs_ok N D f xs ?k" if "fs_ok N D f xs k" for xs
  proof -
    have "fs_ok N D f xs k3" using k3(9) that by blast
    then have "fs_ok N D f xs k4" by (rule fs_ok_same_cache [OF _ k4(4,7,8)])
    then show ?thesis by (rule fs_ok_same_cache [OF _ sc]) (simp_all add: l5)
  qed
  have "idle N D ?k" "iwritable f ?k" using idle_alters [OF id a] writable_alters [OF w a]
    by (simp_all add: idle_cache [OF sc] iwritable_def l5)
  moreover have "coherent D ?k ip" using co4 by (simp add: coherent_def ki dsk_cache [OF sc])
  ultimately show thesis
    using that [OF run r(1) _ _ vw] ov fo k3(7,8) n3 altersD(2) [OF a] pl p5 k4(7) l5 by (simp add: ki k4(3))
qed

text \<open>The last reference to an inode that has links.\<close>

lemma irele_last:
  assumes t: "itable D f M H F k" and id: "idle N D k" and w: "iwritable f k" and ip: "on_chain H ip" and tp: "\<not> tape D"
    and c: "i_count (itab k ip) = 1" "i_nlink (itab k ip) \<noteq> 0"
  defines "v \<equiv> itab k ip"
  obtains k' where "irele ramstrategy tape ip k = Some (Got (), k')" "itable D f M H (F @ [ip]) k'" "idle N D k'" "iwritable f k'"
    "iview D k' (i_number v) = with_disk (stamp (time_sec k) (time_sec k) (time_sec k) v)"
    "\<And>ino. ino \<noteq> i_number v \<Longrightarrow> ino_place_ok f k ino \<Longrightarrow> iview D k' ino = iview D k ino"
    "i_count (itab k' ip) = 0" "i_number (itab k' ip) = i_number v" "\<And>j. j \<noteq> ip \<Longrightarrow> itab k' j = itab k j" "ino_place_ok f k' = ino_place_ok f k"
    "coherent D k' ip"
proof -
  let ?t = "time_sec k"
  define k1 where "k1 = upd_ino ip (\<lambda>v. v\<lparr>i_flag := set_flag ILOCKED (i_flag v)\<rparr>) k"
  have ck: "cache_ok N D k" using id by (simp add: idle_def)
  have ce: "cell_ino D f k ip" by (rule itableD(8) [OF t ip])
  have a1: "alters N D f ip k k1" unfolding k1_def by (rule alters_upd [OF ck]) simp_all
  have v1: "itab k1 ip = v\<lparr>i_flag := set_flag ILOCKED (i_flag v)\<rparr>" "time_sec k1 = ?t" by (simp_all add: k1_def v_def)
  have f1: "itable D f M H F k1" "ino_place_ok f k ino \<Longrightarrow> iview D k1 ino = iview D k ino" for ino
    by (rule itable_flags [OF t a1 ip _ v1(1) [unfolded v_def]]; use c ce in \<open>simp add: k1_def upd_ino_cache cell_ino_def Let_def\<close>)+
  have id1: "idle N D k1" and w1: "iwritable f k1" using idle_alters [OF id a1] writable_alters [OF w a1] .
  have pl: "ino_place_ok f k1 = ino_place_ok f k" using altersD(11) [OF a1] by (simp add: fun_eq_iff)
  have st: "with_disk (stamp ?t ?t ?t (itab k1 ip)) = with_disk (stamp ?t ?t ?t v)"
    by (rule with_disk_eqI) (simp_all add: v1 stamp_def Let_def)
  have c1: "i_count (itab k1 ip) = 1" using c by (simp add: v1 v_def)
  show thesis
  proof (rule iclose_ok [where tape = tape, OF f1(1) id1 w1 ip tp c1])
    fix k2 k' assume k': "iclose ramstrategy tape ip k1 = Some (Got (), k2)" "k' = upd_ino ip (\<lambda>v. v\<lparr>i_count := i_count v - 1\<rparr>) k2"
      "itable D f M H (F @ [ip]) k'" "idle N D k'" "iwritable f k'"
      "iview D k' (i_number (itab k1 ip)) = with_disk (stamp (time_sec k1) (time_sec k1) (time_sec k1) (itab k1 ip))"
      "\<forall>ino. ino \<noteq> i_number (itab k1 ip) \<longrightarrow> ino_place_ok f k1 ino \<longrightarrow> iview D k' ino = iview D k1 ino"
      "i_count (itab k' ip) = 0" "i_number (itab k' ip) = i_number (itab k1 ip)" "\<forall>j. j \<noteq> ip \<longrightarrow> itab k' j = itab k1 j"
      "ino_place_ok f k' = ino_place_ok f k1" "coherent D k' ip"
    have "irele ramstrategy tape ip k = Some (Got (), k')"
      using c k'(1) unfolding irele_def by (simp add: k1_def [symmetric] v1 v_def k'(2) word_le_nat_alt unat_eq_0)
    then show thesis
      by (rule that [OF _ k'(3-5)]) (use k'(6-) v1 st f1(2) pl altersD(2) [OF a1] in simp_all)
  qed
qed

text \<open>Another reference remains.\<close>

lemma irele_more:
  assumes t: "itable D f M H F k" and id: "idle N D k" and w: "iwritable f k" and ip: "on_chain H ip"
    and c: "i_count (itab k ip) \<noteq> 0" "i_count (itab k ip) \<noteq> 1" and l: "\<not> flag (i_flag (itab k ip)) ILOCKED"
  defines "v \<equiv> itab k ip"
  obtains k' where "irele strat tape ip k = Some (Got (), k')" "itable D f M H F k'" "alters N D f ip k k'"
    "iview D k' (i_number v) = with_disk (stamp (time_sec k) (time_sec k) (time_sec k) v)"
    "\<And>ino. ino \<noteq> i_number v \<Longrightarrow> ino_place_ok f k ino \<Longrightarrow> iview D k' ino = iview D k ino" "i_count (itab k' ip) = i_count v - 1"
    "itab k' ip = (ITIMES (time_sec k) v)\<lparr>i_count := i_count v - 1\<rparr>"
proof -
  let ?t = "time_sec k"
  let ?g = "\<lambda>v :: inode. (ITIMES ?t v)\<lparr>i_count := i_count (ITIMES ?t v) - 1\<rparr>"
  let ?k = "upd_ino ip ?g k"
  have ck: "cache_ok N D k" using id by (simp add: idle_def)
  have ce: "i_dev v = D" "i_fs k ip = f" "ino_place_ok f k (i_number v)" "fits v" "\<not> flag (i_flag v) IMOUNT" "\<not> dirty_ino v \<longrightarrow> coherent D k ip"
    using itableD(8) [OF t ip] by (simp_all add: cell_ino_def Let_def v_def)
  have a: "alters N D f ip k ?k" by (rule alters_upd [OF ck]) (simp_all add: stamp_frame)
  have nz: "i_count v - 1 \<noteq> 0" using c by (simp add: v_def)
  have dy: "ITIMES ?t v = v" if "\<not> dirty_ino (ITIMES ?t v)"
  proof -
    have "\<not> flag (i_flag (ITIMES ?t v)) 1024" using that flag_mono [of _ 1024 1094] by auto
    then show ?thesis by (auto simp: ITIMES_def flag_clr split: if_splits)
  qed
  have fl: "\<not> flag (i_flag (ITIMES ?t v)) IMOUNT" using ce(5) by (simp add: ITIMES_def flag_clr)
  have sc: "same_cache k ?k" by (rule upd_ino_cache)
  have "coherent D ?k ip" if d: "\<not> dirty_ino (ITIMES ?t v)"
    using d ce(6) dy [OF d] by (simp add: coherent_def v_def [symmetric] dsk_cache [OF sc])
  then have ce': "cell_ino D f ?k ip"
    using ce fl stamp_frame(2) [OF ce(4)] w altersD(11) [OF a] by (simp add: cell_ino_def Let_def v_def [symmetric] stamp_frame iwritable_def)
  note r = itable_alters [OF t a ip _ _ ce']
  have run: "irele strat tape ip k = Some (Got (), ?k)" using c l by (simp add: irele_def upd_ino_def)
  have vw: "iview D ?k (i_number v) = with_disk (stamp ?t ?t ?t v)" unfolding v_def
    by (subst r(3)) (use c nz in \<open>simp_all add: v_def stamp_frame\<close>)
  show thesis
  proof (rule that [OF run r(1) a vw])
    show "iview D ?k ino = iview D k ino" if "ino \<noteq> i_number v" "ino_place_ok f k ino" for ino
      by (rule r(2)) (use that c nz in \<open>simp_all add: v_def stamp_frame\<close>)
  qed (use c nz in \<open>simp_all add: v_def stamp_frame\<close>)
qed

lemma stamp_flags:
  assumes "other_flags fl (i_flag v)"
  shows "with_disk (stamp t t t (v\<lparr>i_flag := fl\<rparr>)) = with_disk (stamp t t t v)"
  using other_flagsD [OF assms] by (intro with_disk_eqI) (simp_all add: stamp_def Let_def)

text \<open>What iput does to an inode with links: the reference goes, and with the last one the inode, written back, goes to the end of the
  free list.\<close>

lemma iput_ok:
  assumes t: "itable D f M H F k" and id: "idle N D k" and w: "iwritable f k" and ip: "on_chain H ip" and tp: "\<not> tape D"
    and c: "i_count (itab k ip) \<noteq> 0" "i_count (itab k ip) = 1 \<Longrightarrow> i_nlink (itab k ip) \<noteq> 0"
  defines "v \<equiv> itab k ip"
  obtains k' where "iput ramstrategy tape ip k = Some (Got (), k')" "itable D f M H (if i_count v = 1 then F @ [ip] else F) k'" "idle N D k'" "iwritable f k'"
    "iview D k' (i_number v) = with_disk (stamp (time_sec k) (time_sec k) (time_sec k) v)"
    "\<And>ino. ino \<noteq> i_number v \<Longrightarrow> ino_place_ok f k ino \<Longrightarrow> iview D k' ino = iview D k ino"
    "i_count (itab k' ip) = i_count v - 1" "i_number (itab k' ip) = i_number v" "\<And>j. j \<noteq> ip \<Longrightarrow> itab k' j = itab k j"
    "ino_place_ok f k' = ino_place_ok f k" "i_count v = 1 \<Longrightarrow> coherent D k' ip"
proof -
  have c1: "cache_ok N D k" and w1: "a_ino k ip \<noteq> 0" using id w by (simp_all add: idle_def iwritable_def)
  obtain k1 fl where k1: "iunlock ip k = Some k1" "alters N D f ip k k1" "itab k1 ip = v\<lparr>i_flag := fl\<rparr>" "same_cache k k1"
    "other_flags fl (i_flag v)" "\<not> flag fl ILOCKED" "fss k1 = fss k" "a_flock k1 = a_flock k"
    unfolding v_def by (rule iunlock_ok [where f = f, OF c1 w1])
  have ce: "cell_ino D f k ip" by (rule itableD(8) [OF t ip])
  have f1: "itable D f M H F k1" "\<And>ino. ino_place_ok f k ino \<Longrightarrow> iview D k1 ino = iview D k ino"
    by (rule itable_flags(1) [OF t k1(2) ip _ k1(3) [unfolded v_def] _ _ k1(4)], use c ce other_flagsD [OF k1(5)] in \<open>simp_all add: cell_ino_def Let_def v_def\<close>)
      (rule itable_flags(2) [OF t k1(2) ip _ k1(3) [unfolded v_def] _ _ k1(4)], use c ce other_flagsD [OF k1(5)] in \<open>simp_all add: cell_ino_def Let_def v_def\<close>)
  have id1: "idle N D k1" and w1: "iwritable f k1" using idle_alters [OF id k1(2)] writable_alters [OF w k1(2)] .
  note st = stamp_flags [OF k1(5), where t = "time_sec k"]
  have tm: "time_sec k1 = time_sec k" by (rule altersD(7) [OF k1(2)])
  have pl: "ino_place_ok f k1 = ino_place_ok f k" using altersD(11) [OF k1(2)] by (simp add: fun_eq_iff)
  have run: "iput ramstrategy tape ip k = irele ramstrategy tape ip k1" by (simp add: iput_def k1(1))
  show thesis
  proof (cases "i_count v = 1")
    case True
    have c': "i_count (itab k1 ip) = 1" "i_nlink (itab k1 ip) \<noteq> 0" using True c by (simp_all add: k1(3) v_def)
    show thesis
    proof (rule irele_last [where tape = tape, OF f1(1) id1 w1 ip tp c'])
      fix k' assume k': "irele ramstrategy tape ip k1 = Some (Got (), k')" "itable D f M H (F @ [ip]) k'" "idle N D k'" "iwritable f k'"
        "iview D k' (i_number (itab k1 ip)) = with_disk (stamp (time_sec k1) (time_sec k1) (time_sec k1) (itab k1 ip))"
        "\<And>ino. ino \<noteq> i_number (itab k1 ip) \<Longrightarrow> ino_place_ok f k1 ino \<Longrightarrow> iview D k' ino = iview D k1 ino"
        "i_count (itab k' ip) = 0" "i_number (itab k' ip) = i_number (itab k1 ip)" "\<And>j. j \<noteq> ip \<Longrightarrow> itab k' j = itab k1 j"
        "ino_place_ok f k' = ino_place_ok f k1" "coherent D k' ip"
      show thesis
        by (rule that [of k']) (use k' True run f1(2) st tm pl altersD(2) [OF k1(2)] in \<open>simp_all add: k1(3)\<close>)
    qed
  next
    case False
    have c': "i_count (itab k1 ip) \<noteq> 0" "i_count (itab k1 ip) \<noteq> 1" "\<not> flag (i_flag (itab k1 ip)) ILOCKED"
      using False c k1(6) by (simp_all add: k1(3) v_def)
    show thesis
    proof (rule irele_more [where tape = tape and strat = ramstrategy, OF f1(1) id1 w1 ip c'])
      fix k' assume k': "irele ramstrategy tape ip k1 = Some (Got (), k')" "itable D f M H F k'" "alters N D f ip k1 k'"
        "iview D k' (i_number (itab k1 ip)) = with_disk (stamp (time_sec k1) (time_sec k1) (time_sec k1) (itab k1 ip))"
        "\<And>ino. ino \<noteq> i_number (itab k1 ip) \<Longrightarrow> ino_place_ok f k1 ino \<Longrightarrow> iview D k' ino = iview D k1 ino"
        "i_count (itab k' ip) = i_count (itab k1 ip) - 1" "itab k' ip = (ITIMES (time_sec k1) (itab k1 ip))\<lparr>i_count := i_count (itab k1 ip) - 1\<rparr>"
      have "ino_place_ok f k' = ino_place_ok f k1" using altersD(11) [OF k'(3)] by (simp add: fun_eq_iff)
      then show thesis
        by (intro that [of k'])
          (use k' False run f1(2) st tm pl altersD(2) [OF k1(2)] altersD(2,3) [OF k'(3)] idle_alters [OF id1 k'(3)] writable_alters [OF w1 k'(3)] in \<open>simp_all add: k1(3)\<close>)
    qed
  qed
qed

section \<open>iget\<close>

lemma with_load [simp]: "with_disk (load_dinode ws v) = load_dinode ws"
  by (simp add: with_disk_def load_dinode_def Let_def fun_eq_iff)

lemma load_keeps [simp]: "i_number (load_dinode ws v) = i_number v" "i_dev (load_dinode ws v) = i_dev v" "i_flag (load_dinode ws v) = i_flag v"
    "i_count (load_dinode ws v) = i_count v"
  by (simp_all add: load_dinode_def Let_def)

lemma load_fits: "fits (load_dinode ws v)"
proof -
  have a: "uint (words_long (ucast (x :: u_char)) y) < 2 ^ 24" for x y
  proof -
    let ?w = "words_long (ucast x) y"
    have "take_bit 24 ?w = ?w"
      by (intro bit_word_eqI) (auto simp: words_long_def bit_simps dest: bit_imp_le_length)
    then have "uint ?w = take_bit 24 (uint ?w)" by (metis unsigned_take_bit_eq)
    then show ?thesis by (metis take_bit_int_less_exp)
  qed
  have "\<forall>b \<in> set (get_addrs bs). 0 \<le> b \<and> b < 2 ^ 24" for bs using a by (auto simp: get_addrs_def bytes_addr_def)
  moreover have "int32 (daddr_at j ws)" for j by (rule daddr_int32)
  moreover have "uint (w :: u_int) < 2 ^ 16" for w using uint_lt2p [of w] by simp
  ultimately show ?thesis by (simp add: fits_def load_dinode_def Let_def get_addrs_def)
qed

text \<open>The first inode of the free list has been moved to the chain of another number, but not yet read in.\<close>

lemma inew_ok:
  assumes t: "itable D f M H (i # F) k"
  obtains H' where "iring M (inew D f ino i k) H'" "ilist (inew D f ino i k) F" "same_cache k (inew D f ino i k)"
    "\<forall>h < 64. set (H' (Ihead h)) = (set (H (Ihead h)) - {Ino i}) \<union> (if h = INOHASH D ino then {Ino i} else {})"
    "\<forall>j. on_chain H' j \<longleftrightarrow> j = i \<or> on_chain H j"
    "itab (inew D f ino i k) = (itab k)(i := (itab k i)\<lparr>i_dev := D, i_number := ino, i_flag := ILOCKED, i_count := 1\<rparr>)"
    "i_fs (inew D f ino i k) = (i_fs k)(i := f)" "fss (inew D f ino i k) = fss k" "mounts (inew D f ino i k) = mounts k"
    "time_sec (inew D f ino i k) = time_sec k" "a_ino (inew D f ino i k) = a_ino k"
    "a_flock (inew D f ino i k) = a_flock k"
proof -
  have i: "i < M" "i_count (itab k i) = 0" using itableD(3) [OF t] by auto
  define ka where "ka = itake i k"
  define kb where "kb = insque (Ino i) (Ihead (INOHASH D ino)) (remque (Ino i) ka)"
  let ?g = "\<lambda>v :: inode. v\<lparr>i_dev := D, i_number := ino, i_flag := ILOCKED, i_count := i_count v + 1\<rparr>"
  have kc: "inew D f ino i k = (upd_ino i ?g kb)\<lparr>i_fs := (i_fs kb)(i := f)\<rparr>"
    by (simp add: inew_def Let_def ka_def kb_def upd_ino_def)
  note la = itake_ok [OF itableD(2) [OF t], folded ka_def]
  note da = list_onlyD [OF la(2)]
  have ra: "iring M ka H" using itableD(1) [OF t] da(6,7) by (simp add: iring_def)
  obtain H' where H': "iring M kb H'" "\<And>e. e \<in> iheads \<Longrightarrow> set (H' e) = (set (H e) - {Ino i}) \<union> (if e = Ihead (INOHASH D ino) then {Ino i} else {})"
    using rehash_ino [OF ra i(1) INOHASH_less, of D ino] unfolding kb_def by blast
  have "chain_only ka kb" unfolding kb_def by (rule chain_only_trans [OF chain_only_links(1,2)])
  note db = chain_onlyD [OF this]
  have H2: "set (H' (Ihead h)) = (set (H (Ihead h)) - {Ino i}) \<union> (if h = INOHASH D ino then {Ino i} else {})" if "h < 64" for h
    using H'(2) [of "Ihead h"] that by simp
  have mem: "Ino j \<in> set (H' (Ihead h)) \<longleftrightarrow> (if j = i then h = INOHASH D ino else Ino j \<in> set (H (Ihead h)))" if "h < 64" for j h
    using H2 [OF that] by simp
  have on: "on_chain H' j \<longleftrightarrow> j = i \<or> on_chain H j" for j
    using mem INOHASH_less [of D ino] unfolding on_chain_head by (cases "j = i") auto
  have sc: "same_cache kb (inew D f ino i k)" unfolding kc
    by (simp add: same_cache_def same_mem_def upd_ino_def sys_ok_def sched_ok_def queues_def sleepers_ok_def)
  have "ilist kb F" using la(1) db(6) by simp
  then have "iring M (inew D f ino i k) H'" "ilist (inew D f ino i k) F"
    using H'(1) unfolding kc by (simp_all add: iring_def ilist_def upd_ino_def)
  then show thesis
    by (rule that [OF _ _ same_cache_trans [OF same_cache_trans [OF da(10) db(9)] sc]])
      (use H2 on da db i(2) in \<open>simp_all add: kc upd_ino_def\<close>)
qed

lemma iget_miss:
  assumes t: "itable D f M H (i # F) k" and id: "idle N D k" and w: "iwritable f k"
    and n: "\<forall>j. on_chain H j \<longrightarrow> i_number (itab k j) \<noteq> ino" "ino_place_ok f k ino"
  obtains k' H' where "iread ramstrategy tape i (inew D f ino i k) = Some (Got (Some i), k')" "itable D f M H' F k'" "idle N D k'" "iwritable f k'"
    "\<forall>m. ino_place_ok f k m \<longrightarrow> iview D k' m = iview D k m" "\<forall>j. on_chain H' j \<longleftrightarrow> j = i \<or> on_chain H j" "i_count (itab k' i) = 1" "i_number (itab k' i) = ino"
    "i_flag (itab k' i) = ILOCKED" "\<forall>j. j \<noteq> i \<longrightarrow> itab k' j = itab k j" "ino_place_ok f k' = ino_place_ok f k"
    "with_disk (itab k' i) = iview D k ino" "mounts k' = mounts k"
    "\<forall>xs. fs_ok N D f xs k \<longrightarrow> fs_ok N D f xs k'" "usable (fss k' f) k' = usable (fss k f) k"
proof -
  let ?kc = "inew D f ino i k" and ?v = "(itab k i)\<lparr>i_dev := D, i_number := ino, i_flag := ILOCKED, i_count := 1\<rparr>"
  let ?ws = "dsk D k ino"
  obtain H' where c: "iring M ?kc H'" "ilist ?kc F" "same_cache k ?kc"
    "\<forall>h < 64. set (H' (Ihead h)) = (set (H (Ihead h)) - {Ino i}) \<union> (if h = INOHASH D ino then {Ino i} else {})"
    "\<forall>j. on_chain H' j \<longleftrightarrow> j = i \<or> on_chain H j"
    "itab ?kc = (itab k)(i := ?v)" "i_fs ?kc = (i_fs k)(i := f)" "fss ?kc = fss k" "mounts ?kc = mounts k" "time_sec ?kc = time_sec k" "a_ino ?kc = a_ino k" "a_flock ?kc = a_flock k"
    by (rule inew_ok [OF t, of ino])
  have idc: "idle N D ?kc" using id idle_cache [OF c(3)] by simp
  have ck: "cache_ok N D ?kc" using idc by (simp add: idle_def)
  have b: "on_disk ?kc (itod ino)" using n(2) same_cache_ram [OF c(3)] by (simp add: ino_place_ok_def on_disk_def)
  obtain j k1 where k1: "bread ramstrategy D (itod ino) ?kc = Some (Got (Buf j), k1)" "get_data k1 (Buf j) = content D ?kc (itod ino)"
    "\<not> has_b k1 (Buf j) B_ERROR" "bio.more k1 = bio.more ?kc"
    and rel: "\<And>k2. same_cache k1 k2 \<Longrightarrow> \<exists>k3. brelse (Buf j) k2 = Some k3 \<and> touches N D {} ?kc k3 \<and> bio.more k3 = bio.more k2"
    by (rule read_step [OF ck idle_nb(2) [OF idc] idle_nb(1) [OF idc] b]) blast
  note m1 = bmore_ink [OF k1(4)] bmore_rest [OF k1(4)]
  have gd: "get_dinode ino (get_data k1 (Buf j)) = ?ws" using k1(2) same_cache_cong(4) [OF c(3)] by (simp add: dsk_def)
  define k2 where "k2 = upd_ino i (load_dinode ?ws) k1"
  have sc12: "same_cache k1 k2" unfolding k2_def by (rule upd_ino_cache)
  obtain k3 where k3: "brelse (Buf j) k2 = Some k3" "touches N D {} ?kc k3" "bio.more k3 = bio.more k2" using rel [OF sc12] by blast
  note m3 = bmore_ink [OF k3(3)] bmore_rest [OF k3(3)]
  have tb: "itab k3 = (itab k)(i := load_dinode ?ws ?v)" by (simp add: m3(1) k2_def upd_ino_def m1(1) c(6))
  have im: "ink.more k3 = ink.more ?kc" using m3(7) m1(7) by (simp add: k2_def upd_ino_def)
  have o: "i_fs k3 = (i_fs k)(i := f)" "fss k3 = fss k" "mounts k3 = mounts k" using m3 m1 c(7-9) by (simp_all add: k2_def upd_ino_def)
  have tm: "time_sec k3 = time_sec k"
    using outerD(2) [OF brelse_outer [OF k3(1)]] outerD(2) [OF bread_outer [OF k1(1)]] c(10) by (simp add: k2_def)
  have rs: "ram_size k3 = ram_size k" using k3(2) same_cache_ram [OF c(3)] by (simp add: touches_def)
  have pl: "ino_place_ok f k3 = ino_place_ok f k" by (rule place_cong [OF o(2) rs])
  have dk: "dsk D k3 m = dsk D k m" if "ino_place_ok f k m" for m
    using k3(2) that same_cache_cong(4,7) [OF c(3)] by (simp add: dsk_def touches_def ino_place_ok_def)
  have run: "iread ramstrategy tape i ?kc = Some (Got (Some i), k3)"
    using k1(1,3) k3(1) by (simp add: iread_def Let_def c(6) gd k2_def)
  have M: "i < M" "i_count (itab k i) = 0" "i \<notin> set F" using itableD(2,3) [OF t] by (auto simp: ilist_def)
  have co: "coherent D k3 i" using dk [OF n(2)] by (simp add: coherent_def tb)
  have ce: "cell_ino D f k3 x" if "on_chain H' x" for x
  proof (cases "x = i")
    case True
    then show ?thesis using co n(2) load_fits by (simp add: cell_ino_def Let_def tb o pl)
  next
    case False
    then have "cell_ino D f k x" using that c(5) itableD(8) [OF t] by simp
    then show ?thesis using False dk by (simp add: cell_ino_def Let_def tb o pl coherent_def)
  qed
  have Fs: "set F = {x. x < M \<and> i_count (itab k3 x) = 0}"
  proof -
    have "set (i # F) = {x. x < M \<and> i_count (itab k x) = 0}" by (rule itableD(3) [OF t])
    then show ?thesis using M(3) by (auto simp: tb)
  qed
  have hs: "INOHASH D (i_number (itab k3 x)) = h" if "h < 64" "Ino x \<in> set (H' (Ihead h))" for h x
    using that c(4) [rule_format, OF that(1)] itableD(4) [OF t that(1), of x] by (cases "x = i") (auto simp: tb split: if_splits)
  have un: "x = y" if "on_chain H' x" "on_chain H' y" "i_number (itab k3 x) = i_number (itab k3 y)" for x y
    using that n(1) itableD(5) [OF t, of x y] c(5) by (auto simp: tb split: if_splits)
  have t': "itable D f M H' F k3"
    unfolding itable_def
  proof (intro conjI allI impI)
    show "iring M k3 H'" "ilist k3 F" using c(1,2) ink_more(8,9) [OF im] by simp_all
    show "i_flag (itab k3 x) = 0" if "x < M" "i_count (itab k3 x) = 0" for x
      using that itableD(6) [OF t that(1)] by (auto simp: tb split: if_splits)
    show "on_chain H' x" if "x < M" "i_count (itab k3 x) \<noteq> 0" for x
      using that itableD(7) [OF t that(1)] c(5) by (auto simp: tb split: if_splits)
  qed (use Fs hs un ce in simp_all)
  have vw: "iview D k3 m = iview D k m" if p: "ino_place_ok f k m" for m
  proof (cases "\<exists>x. x \<noteq> i \<and> on_chain H x \<and> i_number (itab k x) = m")
    case True
    then obtain x where x: "x \<noteq> i" "on_chain H x" "i_number (itab k x) = m" by blast
    then show ?thesis using iview_chain(1) [OF t x(2)] iview_chain(1) [OF t', of x] c(5) by (simp add: tb)
  next
    case False
    have k3v: "iview D k3 m = load_dinode (dsk D k m)"
    proof (cases "m = ino")
      case True
      then show ?thesis using iview_chain(1) [OF t', of i] c(5) by (simp add: tb)
    next
      case nm: False
      have "\<forall>x. on_chain H' x \<longrightarrow> i_number (itab k3 x) \<noteq> m" using False nm c(5) by (auto simp: tb)
      from iview_chain(2) [OF t' this] show ?thesis using dk [OF p] by simp
    qed
    show ?thesis
    proof (cases "on_chain H i \<and> i_number (itab k i) = m")
      case True
      then have "cell_ino D f k i" "i_flag (itab k i) = 0" using itableD(8) [OF t] itableD(6) [OF t M(1,2)] by blast+
      then have "coherent D k i" by (simp add: cell_ino_def Let_def)
      then show ?thesis using iview_chain(1) [OF t, of i] True k3v by (simp add: coherent_def)
    next
      case no: False
      have "\<forall>x. on_chain H x \<longrightarrow> i_number (itab k x) \<noteq> m" using False no by metis
      from iview_chain(2) [OF t this] show ?thesis using k3v by simp
    qed
  qed
  have w': "iwritable f k3" using w c(11) ink_more(7) [OF im] by (simp add: iwritable_def o tm)
  have id': "idle N D k3" using idc k3(2) by (simp add: idle_def touches_def)
  have fo: "fs_ok N D f xs k3" if "fs_ok N D f xs k" for xs
  proof -
    have o': "fs_ok N D f xs ?kc" by (rule fs_ok_same_cache [OF that c(3,8,12)])
    have "a_flock k3 = a_flock ?kc" using m3 m1 by (simp add: k2_def)
    then show ?thesis by (intro fs_okI [OF o' k3(2) _ order.refl]) (use fs_okD(2,5) [OF o'] o(2) c(8) in simp_all)
  qed
  have us: "usable (fss k3 f) k3 = usable (fss k f) k" by (rule usable_cong) (simp_all add: o(2) rs)
  show thesis
    by (rule that [OF run t' id' w']) (use vw fo us c(5) pl o iview_chain(2) [OF t n(1)] in \<open>simp_all add: tb\<close>)
qed

end
