(* ===== verification/IcacheInit.thy ===== *)
theory IcacheInit imports IcacheSpec begin

text \<open>
  ihinit: an empty cache. All chains are empty, and every inode is on the free list, in the order of the table.
\<close>

lemma ialone_fields [simp]:
  "i_forw (ialone e k) = (i_forw k)(e := e)" "i_back (ialone e k) = (i_back k)(e := e)" "ilist (ialone e k) = ilist k"
  "ifreeh (ialone e k) = ifreeh k" "ifreet (ialone e k) = ifreet k" "i_freef (ialone e k) = i_freef k" "i_freeb (ialone e k) = i_freeb k"
  by (simp_all add: ialone_def ilist_def fun_eq_iff)

definition links_only :: "'a ick_scheme \<Rightarrow> 'a ick_scheme \<Rightarrow> bool" where
  "links_only k k' \<longleftrightarrow> (\<exists>k1. list_only k k1 \<and> chain_only k1 k')"

lemma links_onlyD:
  assumes "links_only k k'"
  shows "itab k' = itab k" "i_fs k' = i_fs k" "fss k' = fss k" "mounts k' = mounts k" "a_ino k' = a_ino k" "time_sec k' = time_sec k"
    "idle N D k' = idle N D k" "content D k' = content D k" "ram_size k' = ram_size k"
proof -
  obtain k1 where k1: "list_only k k1" "chain_only k1 k'" using assms by (auto simp: links_only_def)
  note l = list_onlyD [OF k1(1)] chain_onlyD [OF k1(2)]
  show "itab k' = itab k" "i_fs k' = i_fs k" "fss k' = fss k" "mounts k' = mounts k" "a_ino k' = a_ino k" "time_sec k' = time_sec k"
    "ram_size k' = ram_size k" using l by simp_all
  show "idle N D k' = idle N D k" "content D k' = content D k"
    using same_cache_cong(2,4,6) [OF list_onlyD(10) [OF k1(1)]] same_cache_cong(2,4,6) [OF chain_onlyD(9) [OF k1(2)]]
    by (simp_all add: idle_def fun_eq_iff)
qed

lemma links_only_fs:
  assumes "links_only k k'" and o: "fs_ok N D f xs k"
  shows "fs_ok N D f xs k'"
proof -
  obtain k1 where k1: "list_only k k1" "chain_only k1 k'" using assms(1) by (auto simp: links_only_def)
  have "fs_ok N D f xs k1" by (rule fs_ok_same_cache [OF o list_onlyD(10,3,5) [OF k1(1)]])
  then show ?thesis by (rule fs_ok_same_cache [OF _ chain_onlyD(9,3,5) [OF k1(2)]])
qed

lemma links_onlyI: "list_only k k1 \<Longrightarrow> chain_only k1 k' \<Longrightarrow> links_only k k'"
  by (auto simp: links_only_def)

lemma links_only_eq: "links_only k k' \<longleftrightarrow>
    k' = k\<lparr>i_forw := i_forw k', i_back := i_back k', ifreeh := ifreeh k', ifreet := ifreet k', i_freef := i_freef k', i_freeb := i_freeb k'\<rparr>"
proof
  assume "links_only k k'"
  then obtain k1 where "list_only k k1" "chain_only k1 k'" by (auto simp: links_only_def)
  then show "k' = k\<lparr>i_forw := i_forw k', i_back := i_back k', ifreeh := ifreeh k', ifreet := ifreet k', i_freef := i_freef k', i_freeb := i_freeb k'\<rparr>"
    by (cases k; cases k1; cases k') (simp add: list_only_def chain_only_def)
next
  assume e: "k' = k\<lparr>i_forw := i_forw k', i_back := i_back k', ifreeh := ifreeh k', ifreet := ifreet k', i_freef := i_freef k', i_freeb := i_freeb k'\<rparr>"
  let ?k1 = "k\<lparr>ifreeh := ifreeh k', ifreet := ifreet k', i_freef := i_freef k', i_freeb := i_freeb k'\<rparr>"
  have "list_only k ?k1" by simp
  moreover have "chain_only ?k1 k'" using e by (cases k; cases k') (simp add: chain_only_def)
  ultimately show "links_only k k'" by (rule links_onlyI)
qed

lemma links_only_trans: "links_only k k1 \<Longrightarrow> links_only k1 k2 \<Longrightarrow> links_only k k2"
  unfolding links_only_eq by (cases k; cases k1; cases k2) simp

lemma links_only_steps [simp]: "links_only k (ialone e k)" "links_only k (iset b v k)" "links_only k (k\<lparr>i_freeb := c\<rparr>)"
    "links_only k (k\<lparr>ifreet := d\<rparr>)" "links_only k (k\<lparr>ifreeh := h\<rparr>)" "links_only k (k\<lparr>i_freef := g\<rparr>)" "links_only k k"
  by (auto simp: links_only_def intro: exI [of _ k]) (rule exI, rule conjI [rotated], rule chain_only_links(4), simp)+

section \<open>The free list\<close>

definition end_at :: "nat \<Rightarrow> 'a ick_scheme \<Rightarrow> 'a ick_scheme" where
  "end_at p k = k\<lparr>i_freef := (i_freef k)(p := None)\<rparr>"

lemma ihlink_step:
  assumes k: "ilist (end_at p k) F" and F: "F \<noteq> []" "last F = p" "i \<notin> set F"
  defines "k2 \<equiv> iset (ifreet (ialone (Ino i) k)) (Some i) (ialone (Ino i) k)"
  defines "k3 \<equiv> k2\<lparr>i_freeb := (i_freeb k2)(i := Some (ifreet k2)), ifreet := Ifreef i\<rparr>"
  shows "ilist (end_at i k3) (F @ [i])" "links_only k k3"
    "i_forw k3 = (i_forw k)(Ino i := Ino i)" "i_back k3 = (i_back k)(Ino i := Ino i)"
proof -
  let ?k0 = "end_at p k"
  have t: "ifreet k = Ifreef p" using k F by (simp add: ilist_def end_at_def)
  have h: "ifreeh k \<noteq> None" using ilist_head [OF k] F(1) by (simp add: end_at_def)
  have "ilist (iappend i ?k0) (F @ [i])" by (rule iappend_ok(1) [OF k F(3)])
  moreover have "ifreeh (iappend i ?k0) = ifreeh k3" "ifreet (iappend i ?k0) = ifreet k3" "i_freeb (iappend i ?k0) = i_freeb k3"
    "i_freef (iappend i ?k0) = (i_freef k3)(i := None)"
    using h t by (simp_all add: iappend_def end_at_def k3_def k2_def iset_def Let_def)
  ultimately show "ilist (end_at i k3) (F @ [i])" by (simp add: ilist_def end_at_def)
  have "links_only k k2" unfolding k2_def by (rule links_only_trans [OF links_only_steps(1,2)])
  then show "links_only k k3" unfolding k3_def using links_only_trans [OF links_only_trans [OF _ links_only_steps(3)] links_only_steps(4)] by blast
  show "i_forw k3 = (i_forw k)(Ino i := Ino i)" "i_back k3 = (i_back k)(Ino i := Ino i)"
    by (simp_all add: k3_def k2_def iset_def t)
qed

lemma ihlink_ok:
  assumes "ilist (end_at p k) F" "F \<noteq> []" "last F = p" "distinct (F @ ns)"
  defines "k' \<equiv> ihlink ns k"
  shows "ilist (end_at (last (p # ns)) k') (F @ ns)" "links_only k k'"
    "i_forw k' r = (if r \<in> Ino ` set ns then r else i_forw k r)" "i_back k' r = (if r \<in> Ino ` set ns then r else i_back k r)"
proof -
  have "ilist (end_at (last (p # ns)) k') (F @ ns) \<and> links_only k k' \<and>
    i_forw k' r = (if r \<in> Ino ` set ns then r else i_forw k r) \<and> i_back k' r = (if r \<in> Ino ` set ns then r else i_back k r)"
    using assms(1-4) unfolding k'_def
  proof (induction ns arbitrary: k p F)
    case Nil
    then show ?case by simp
  next
    case (Cons i ns)
    have i: "i \<notin> set F" using Cons.prems(4) by simp
    note s = ihlink_step [OF Cons.prems(1-3) i]
    let ?k3 = "let k1 = ialone (Ino i) k; k2 = iset (ifreet k1) (Some i) k1 in k2\<lparr>i_freeb := (i_freeb k2)(i := Some (ifreet k2)), ifreet := Ifreef i\<rparr>"
    have "ilist (end_at (last (i # ns)) (ihlink ns ?k3)) ((F @ [i]) @ ns) \<and> links_only ?k3 (ihlink ns ?k3) \<and>
      i_forw (ihlink ns ?k3) r = (if r \<in> Ino ` set ns then r else i_forw ?k3 r) \<and> i_back (ihlink ns ?k3) r = (if r \<in> Ino ` set ns then r else i_back ?k3 r)"
      by (rule Cons.IH) (use s(1) Cons.prems(4) in \<open>simp_all add: Let_def\<close>)
    then show ?case using s(2-4) links_only_trans [OF s(2)] by (auto simp: Let_def)
  qed
  then show "ilist (end_at (last (p # ns)) k') (F @ ns)" "links_only k k'"
    "i_forw k' r = (if r \<in> Ino ` set ns then r else i_forw k r)" "i_back k' r = (if r \<in> Ino ` set ns then r else i_back k r)"
    by blast+
qed

section \<open>The cache\<close>

lemma heads_alone: "i_forw (foldr (\<lambda>h. ialone (Ihead h)) hs k) r = (if r \<in> Ihead ` set hs then r else i_forw k r)"
    "i_back (foldr (\<lambda>h. ialone (Ihead h)) hs k) r = (if r \<in> Ihead ` set hs then r else i_back k r)"
    "links_only k (foldr (\<lambda>h. ialone (Ihead h)) hs k)"
  by (induction hs) (auto intro: links_only_trans [OF _ links_only_steps(1)])

lemma ihinit_ok:
  assumes n: "0 < n" and z: "\<forall>i < n. i_count (itab k i) = 0 \<and> i_flag (itab k i) = 0"
  shows "itable D f n (\<lambda>_. []) [0 ..< n] (ihinit n k)" "links_only k (ihinit n k)"
proof -
  define k1 where "k1 = foldr (\<lambda>h. ialone (Ihead h)) [0 ..< INOHSZ] k"
  define k2 where "k2 = ialone (Ino 0) (k1\<lparr>ifreeh := Some 0, ifreet := Ifreef 0, i_freeb := (i_freeb k1)(0 := Some Ifreeh)\<rparr>)"
  define k3 where "k3 = ihlink [1 ..< n] k2"
  have e: "ihinit n k = end_at (n - 1) k3" by (simp add: end_at_def ihinit_def k3_def k2_def k1_def Let_def)
  have "ilist (end_at 0 k2) [0]" by (simp add: ilist_def k2_def end_at_def)
  note l = ihlink_ok [OF this, where ns = "[1 ..< n]", folded k3_def]
  have la: "last (0 # [1 ..< n]) = n - 1" "[0] @ [1 ..< n] = [0 ..< n]" using n upt_conv_Cons [of 0 n] last_upt [of 0 n] by simp_all
  have il: "ilist (ihinit n k) [0 ..< n]" using l(1) la by (simp add: e)
  have "links_only k k1" unfolding k1_def by (rule heads_alone(3))
  moreover have "links_only k1 k2" unfolding k2_def
    by (rule links_only_trans [OF links_only_trans [OF links_only_trans [OF links_only_steps(5,4)] links_only_steps(3)] links_only_steps(1)])
  ultimately have "links_only k k2" by (rule links_only_trans)
  moreover have "links_only k2 (ihinit n k)" unfolding e end_at_def by (rule links_only_trans [OF l(2) links_only_steps(6)]) simp_all
  ultimately show lo: "links_only k (ihinit n k)" by (rule links_only_trans)
  have ff: "i_forw (ihinit n k) r = r" "i_back (ihinit n k) r = r" if "r \<in> Ihead ` {..<64} \<union> Ino ` {..<n}" for r
    using that l(3,4) [of r] by (auto simp: e end_at_def k2_def k1_def heads_alone image_iff)
  have "iring n (ihinit n k) (\<lambda>_. [])" using ff by (auto simp: iring_def elems_def iheads_def rings_def ring_def)
  moreover have "itab (ihinit n k) = itab k" using lo by (simp add: links_onlyD)
  ultimately show "itable D f n (\<lambda>_. []) [0 ..< n] (ihinit n k)"
    using il z by (auto simp: itable_def on_chain_def elems_def)
qed

end
