(* ===== verification/IcacheProps.thy ===== *)
theory IcacheProps imports IcacheOps IcacheInit begin

text \<open>
  Properties of the inode cache: ihinit, iget, iput and iflush, one by one and in every order.
\<close>

section \<open>References\<close>

text \<open>How many references there are to the inode of a number.\<close>

definition irefs :: "u_int \<Rightarrow> 'a ick_scheme \<Rightarrow> u_int \<Rightarrow> nat" where
  "irefs D k ino = (case ifind D ino k of Some (Some i) \<Rightarrow> unat (i_count (itab k i)) | _ \<Rightarrow> 0)"

lemma irefs_chain:
  assumes t: "itable D f M H F k"
  shows "on_chain H i \<Longrightarrow> irefs D k (i_number (itab k i)) = unat (i_count (itab k i))"
    "\<forall>i. on_chain H i \<longrightarrow> i_number (itab k i) \<noteq> ino \<Longrightarrow> irefs D k ino = 0"
  using ifind_chain [OF t] by (simp_all add: irefs_def)

lemma ifind_itable:
  assumes t: "itable D f M H F k"
  shows "ifind D ino k = Some (Some i) \<longleftrightarrow> on_chain H i \<and> i_number (itab k i) = ino" "\<exists>r. ifind D ino k = Some r"
proof -
  show "ifind D ino k = Some (Some i) \<longleftrightarrow> on_chain H i \<and> i_number (itab k i) = ino"
  proof (cases "\<exists>j. on_chain H j \<and> i_number (itab k j) = ino")
    case True
    then obtain j where j: "on_chain H j" "i_number (itab k j) = ino" by blast
    have "ifind D ino k = Some (Some j)" using ifind_chain(1) [OF t j(1)] j(2) by simp
    moreover have "i = j" if "on_chain H i" "i_number (itab k i) = ino" using itableD(5) [OF t that(1) j(1)] that(2) j(2) by simp
    ultimately show ?thesis using j by auto
  next
    case False
    then have "ifind D ino k = Some None" using ifind_chain(2) [OF t, of ino] by blast
    then show ?thesis using False by simp
  qed
  show "\<exists>r. ifind D ino k = Some r"
  proof (cases "\<exists>j. on_chain H j \<and> i_number (itab k j) = ino")
    case True
    then obtain j where "on_chain H j" "i_number (itab k j) = ino" by blast
    then show ?thesis using ifind_chain(1) [OF t, of j] by simp
  next
    case False
    then show ?thesis using ifind_chain(2) [OF t, of ino] by simp
  qed
qed

lemma irefs_upd:
  assumes t: "itable D f M H F k" and t': "itable D f M H F' k'" and ip: "on_chain H ip"
    and o: "\<And>j. j \<noteq> ip \<Longrightarrow> itab k' j = itab k j" "i_number (itab k' ip) = i_number (itab k ip)"
  shows "irefs D k' = (irefs D k)(i_number (itab k ip) := unat (i_count (itab k' ip)))" "ifind D ino k' = ifind D ino k"
proof -
  have n: "i_number (itab k' j) = i_number (itab k j)" for j using o by (cases "j = ip") simp_all
  show "irefs D k' = (irefs D k)(i_number (itab k ip) := unat (i_count (itab k' ip)))"
  proof (rule ext)
    fix m
    show "irefs D k' m = ((irefs D k)(i_number (itab k ip) := unat (i_count (itab k' ip)))) m"
    proof (cases "\<exists>j. on_chain H j \<and> i_number (itab k j) = m")
      case True
      then obtain j where j: "on_chain H j" "i_number (itab k j) = m" by blast
      then show ?thesis
        using irefs_chain(1) [OF t j(1)] irefs_chain(1) [OF t' j(1)] n itableD(5) [OF t j(1) ip] o(1) [of j] by (cases "j = ip") auto
    next
      case False
      then show ?thesis using irefs_chain(2) [OF t, of m] irefs_chain(2) [OF t', of m] ip n by auto
    qed
  qed
  show "ifind D ino k' = ifind D ino k"
  proof (cases "\<exists>j. on_chain H j \<and> i_number (itab k j) = ino")
    case True
    then obtain j where j: "on_chain H j" "i_number (itab k j) = ino" by blast
    then show ?thesis using ifind_chain(1) [OF t j(1)] ifind_chain(1) [OF t' j(1)] n by simp
  next
    case False
    then show ?thesis using ifind_chain(2) [OF t, of ino] ifind_chain(2) [OF t', of ino] n by simp
  qed
qed

lemma irefs_new:
  assumes t: "itable D f M H (i # F) k" and t': "itable D f M H' F k'" and on: "\<forall>j. on_chain H' j \<longleftrightarrow> j = i \<or> on_chain H j"
    and o: "\<forall>j. j \<noteq> i \<longrightarrow> itab k' j = itab k j" and n: "\<forall>j. on_chain H j \<longrightarrow> i_number (itab k j) \<noteq> i_number (itab k' i)"
  shows "irefs D k' = (irefs D k)(i_number (itab k' i) := unat (i_count (itab k' i)))"
proof (rule ext)
  fix m
  let ?n = "i_number (itab k' i)"
  have z: "i_count (itab k i) = 0" using itableD(3) [OF t] by auto
  show "irefs D k' m = ((irefs D k)(?n := unat (i_count (itab k' i)))) m"
  proof (cases "m = ?n")
    case True
    then show ?thesis using irefs_chain(1) [OF t', of i] on by simp
  next
    case False
    show ?thesis
    proof (cases "\<exists>j. j \<noteq> i \<and> on_chain H j \<and> i_number (itab k j) = m")
      case True
      then obtain j where j: "j \<noteq> i" "on_chain H j" "i_number (itab k j) = m" by blast
      then show ?thesis using irefs_chain(1) [OF t j(2)] irefs_chain(1) [OF t', of j] on o j(1) False by simp
    next
      case none: False
      have "irefs D k' m = 0" using irefs_chain(2) [OF t', of m] on o none False by metis
      moreover have "irefs D k m = 0"
      proof (cases "on_chain H i \<and> i_number (itab k i) = m")
        case True
        then show ?thesis using irefs_chain(1) [OF t, of i] z by auto
      next
        case False
        then show ?thesis using irefs_chain(2) [OF t, of m] none by metis
      qed
      ultimately show ?thesis using False by simp
    qed
  qed
qed

section \<open>iget\<close>

lemma iget_found:
  assumes t: "itable D f M H F k" and ip: "on_chain H ip" "i_number (itab k ip) = ino"
  shows "iget strat tape D f ino k = (if flag (i_flag (itab k ip)) ILOCKED
    then Some (Sleeps (a_ino k ip) PINOD, upd_ino ip (\<lambda>v. v\<lparr>i_flag := set_flag IWANT (i_flag v)\<rparr>) k)
    else map_option (\<lambda>k1. (Got (Some ip), k1)) (igrab ip k))"
proof -
  have "\<not> flag (i_flag (itab k ip)) IMOUNT" using itableD(8) [OF t ip(1)] by (simp add: cell_ino_def Let_def)
  then show ?thesis using ifind_chain(1) [OF t ip(1)] ip(2) by (subst iget.simps) simp
qed

lemma iget_not_found:
  assumes t: "itable D f M H F k" and n: "\<forall>j. on_chain H j \<longrightarrow> i_number (itab k j) \<noteq> ino"
  shows "iget strat tape D f ino k = (case F of [] \<Rightarrow> Some (Got None, set_error ENFILE k) | i # _ \<Rightarrow> iread strat tape i (inew D f ino i k))"
  using ifind_chain(2) [OF t n] ilist_head [OF itableD(2) [OF t]] itableD(3) [OF t] by (subst iget.simps) (cases F; auto)

text \<open>iget that returns an inode.\<close>

lemma iget_ok:
  assumes k: "icache_ok N D f M k" and ino: "ino_place_ok f k ino"
    and l: "\<And>i. ifind D ino k = Some (Some i) \<Longrightarrow> \<not> flag (i_flag (itab k i)) ILOCKED" and n: "irefs D k ino < 65535"
    and fr: "ifind D ino k = Some None \<Longrightarrow> ifreeh k \<noteq> None"
  obtains ip k' where "iget ramstrategy tape D f ino k = Some (Got (Some ip), k')" "icache_ok N D f M k'" "irefs D k' = (irefs D k)(ino := irefs D k ino + 1)"
    "\<forall>m. ino_place_ok f k m \<longrightarrow> iview D k' m = iview D k m" "ifind D ino k' = Some (Some ip)" "flag (i_flag (itab k' ip)) ILOCKED"
    "with_disk (itab k' ip) = iview D k ino" "ino_place_ok f k' = ino_place_ok f k"
    "\<forall>xs. fs_ok N D f xs k \<longrightarrow> fs_ok N D f xs k'" "usable (fss k' f) k' = usable (fss k f) k"
proof -
  obtain H F where t: "itable D f M H F k" and id: "idle N D k" and w: "iwritable f k" using k by (auto simp: icache_ok_def)
  show thesis
  proof (cases "\<exists>ip. on_chain H ip \<and> i_number (itab k ip) = ino")
    case True
    then obtain ip where ip: "on_chain H ip" "i_number (itab k ip) = ino" by blast
    have fi: "ifind D ino k = Some (Some ip)" using ifind_chain(1) [OF t ip(1)] ip(2) by simp
    have c: "unat (i_count (itab k ip)) < 65535" using n irefs_chain(1) [OF t ip(1)] ip(2) by simp
    have s: "unat (i_count (itab k ip) + 1) = unat (i_count (itab k ip)) + 1" using c by (simp add: unat_word_ariths)
    then have nz: "i_count (itab k ip) + 1 \<noteq> 0" by (metis Suc_eq_plus1 nat.simps(3) unat_0)
    obtain k' F' where k': "igrab ip k = Some k'" "itable D f M H F' k'" "same_cache k k'" "\<forall>ino. iview D k' ino = iview D k ino"
      "itab k' = (itab k)(ip := (itab k ip)\<lparr>i_count := i_count (itab k ip) + 1, i_flag := set_flag ILOCKED (i_flag (itab k ip))\<rparr>)"
      "i_fs k' = i_fs k" "fss k' = fss k" "mounts k' = mounts k" "time_sec k' = time_sec k" "a_ino k' = a_ino k" "a_flock k' = a_flock k"
      by (rule igrab_ok [OF t ip(1) nz])
    note r = irefs_upd [OF t k'(2) ip(1)]
    have rf: "irefs D k' = (irefs D k)(ino := irefs D k ino + 1)" "ifind D ino k' = ifind D ino k"
      using r(1) r(2) [of ino] irefs_chain(1) [OF t ip(1)] s ip(2) by (simp_all add: k'(5))
    have ok: "icache_ok N D f M k'" using k' w id idle_cache [OF k'(3)] by (auto simp: icache_ok_def iwritable_def)
    have us: "usable (fss k' f) k' = usable (fss k f) k" by (rule usable_cong) (simp_all add: k'(7) same_cache_ram [OF k'(3)])
    show thesis
    proof (rule that [OF _ ok rf(1)])
      show "iget ramstrategy tape D f ino k = Some (Got (Some ip), k')" using iget_found [OF t ip] l [OF fi] k'(1) by simp
      show "with_disk (itab k' ip) = iview D k ino" using iview_chain(1) [OF t ip(1)] ip(2) by (simp add: k'(5))
    qed (use k'(4,5) rf fi place_cong [OF k'(7) same_cache_ram [OF k'(3)]] fs_ok_same_cache [OF _ k'(3,7,11)] us in simp_all)
  next
    case False
    then have nf: "\<forall>j. on_chain H j \<longrightarrow> i_number (itab k j) \<noteq> ino" by blast
    have "F \<noteq> []" using fr ifind_chain(2) [OF t nf] ilist_head [OF itableD(2) [OF t]] by auto
    then obtain i F' where F: "F = i # F'" by (cases F) auto
    note t1 = t [unfolded F]
    obtain k' H' where k': "iread ramstrategy tape i (inew D f ino i k) = Some (Got (Some i), k')" "itable D f M H' F' k'" "idle N D k'" "iwritable f k'"
      "\<forall>m. ino_place_ok f k m \<longrightarrow> iview D k' m = iview D k m" "\<forall>j. on_chain H' j \<longleftrightarrow> j = i \<or> on_chain H j" "i_count (itab k' i) = 1"
      "i_number (itab k' i) = ino" "i_flag (itab k' i) = ILOCKED" "\<forall>j. j \<noteq> i \<longrightarrow> itab k' j = itab k j" "ino_place_ok f k' = ino_place_ok f k"
      "with_disk (itab k' i) = iview D k ino" "mounts k' = mounts k"
      "\<forall>xs. fs_ok N D f xs k \<longrightarrow> fs_ok N D f xs k'" "usable (fss k' f) k' = usable (fss k f) k"
      by (rule iget_miss [OF t1 id w nf ino])
    have r: "irefs D k' = (irefs D k)(ino := 1)" using irefs_new [OF t1 k'(2,6,10)] nf k'(7,8) by simp
    have z: "irefs D k ino = 0" by (rule irefs_chain(2) [OF t nf])
    have fi: "ifind D ino k' = Some (Some i)" using ifind_chain(1) [OF k'(2), of i] k'(6,8) by simp
    have ok: "icache_ok N D f M k'" using k'(2-4) by (auto simp: icache_ok_def)
    show thesis
    proof (rule that [OF _ ok _ _ fi])
      show "iget ramstrategy tape D f ino k = Some (Got (Some i), k')" using iget_not_found [OF t nf] k'(1) by (simp add: F)
    qed (use k'(5,9,11,12,14,15) r z in simp_all)
  qed
qed

text \<open>iget that waits, and iget that finds no room.\<close>

lemma iget_locked:
  assumes k: "icache_ok N D f M k" and i: "ifind D ino k = Some (Some ip)" "flag (i_flag (itab k ip)) ILOCKED"
  defines "k' \<equiv> upd_ino ip (\<lambda>v. v\<lparr>i_flag := set_flag IWANT (i_flag v)\<rparr>) k"
  shows "iget strat tape D f ino k = Some (Sleeps (a_ino k ip) PINOD, k')" "icache_ok N D f M k'" "irefs D k' = irefs D k"
    "ino_place_ok f k m \<Longrightarrow> iview D k' m = iview D k m" "flag (i_flag (itab k' ip)) IWANT" "ino_place_ok f k' = ino_place_ok f k"
proof -
  obtain H F where t: "itable D f M H F k" and id: "idle N D k" and w: "iwritable f k" using k by (auto simp: icache_ok_def)
  have ip: "on_chain H ip" "i_number (itab k ip) = ino" using i(1) ifind_itable(1) [OF t] by simp_all
  have nz: "i_count (itab k ip) \<noteq> 0" using itableD(6) [OF t itableD(9) [OF t ip(1)]] i(2) by (auto simp: flag_def)
  have ck: "cache_ok N D k" using id by (simp add: idle_def)
  have ce: "cell_ino D f k ip" by (rule itableD(8) [OF t ip(1)])
  have a: "alters N D f ip k k'" unfolding k'_def by (rule alters_upd [OF ck]) simp_all
  have v: "itab k' ip = (itab k ip)\<lparr>i_flag := set_flag IWANT (i_flag (itab k ip))\<rparr>" by (simp add: k'_def)
  have fl: "\<not> flag (set_flag IWANT (i_flag (itab k ip))) IMOUNT" using ce by (simp add: cell_ino_def Let_def)
  have sc: "same_cache k k'" unfolding k'_def by (rule upd_ino_cache)
  note r = itable_flags [OF t a ip(1) nz v _ fl sc]
  have t': "itable D f M H F k'" by (rule r(1)) simp
  show "iget strat tape D f ino k = Some (Sleeps (a_ino k ip) PINOD, k')" using iget_found [OF t ip] i(2) by (simp add: k'_def)
  show "icache_ok N D f M k'" using t' idle_alters [OF id a] writable_alters [OF w a] by (auto simp: icache_ok_def)
  show "irefs D k' = irefs D k"
    using irefs_upd(1) [OF t t' ip(1)] by (simp add: k'_def upd_ino_other irefs_chain(1) [OF t ip(1), symmetric])
  show "ino_place_ok f k m \<Longrightarrow> iview D k' m = iview D k m" by (rule r(2)) simp_all
  show "flag (i_flag (itab k' ip)) IWANT" by (simp add: v)
  show "ino_place_ok f k' = ino_place_ok f k" using altersD(11) [OF a] by (simp add: fun_eq_iff)
qed

lemma set_error_ick [simp]: "itab (set_error e k) = itab k" "i_fs (set_error e k) = i_fs k" "fss (set_error e k) = fss k"
    "time_sec (set_error e k) = time_sec k" "a_ino (set_error e k) = a_ino k" "ram_size (set_error e k) = ram_size k"
    "iring M (set_error e k) H = iring M k H" "ilist (set_error e k) F = ilist k F" "ifind D m (set_error e k) = ifind D m k"
  by (simp_all add: set_error_def upd_u_def iring_def ilist_def ifind_def)

lemma set_error_idle: "idle N D k \<Longrightarrow> idle N D (set_error e k)" "content D (set_error e k) = content D k"
proof -
  have b: "bufs (set_error e k) = bufs k" "bmem (set_error e k) = bmem k" "ram (set_error e k) = ram k"
    by (simp_all add: set_error_def upd_u_def)
  show "content D (set_error e k) = content D k"
    by (simp add: fun_eq_iff content_def find_block_def b disk_def get_data_def split: option.split baddr.split)
  show "idle N D k \<Longrightarrow> idle N D (set_error e k)"
    using error_cache(1) by (auto simp: idle_def busy_def cells_def b)
qed

lemma iget_full:
  assumes k: "icache_ok N D f M k" and i: "ifind D ino k = Some None" "ifreeh k = None"
  defines "k' \<equiv> set_error ENFILE k"
  shows "iget strat tape D f ino k = Some (Got None, k')" "icache_ok N D f M k'" "irefs D k' = irefs D k" "iview D k' m = iview D k m"
    "ino_place_ok f k' = ino_place_ok f k" "\<forall>i < M. i_count (itab k i) \<noteq> 0"
proof -
  obtain H F where t: "itable D f M H F k" and id: "idle N D k" and w: "iwritable f k" using k by (auto simp: icache_ok_def)
  have nf: "\<forall>j. on_chain H j \<longrightarrow> i_number (itab k j) \<noteq> ino" using ifind_itable(1) [OF t, of ino] i(1) by simp
  have F: "F = []" using ilist_head [OF itableD(2) [OF t]] i(2) by (simp split: if_splits)
  have pl: "ino_place_ok f k' = ino_place_ok f k" by (rule place_cong) (simp_all add: k'_def)
  have dk: "dsk D k' = dsk D k" by (simp add: k'_def dsk_def fun_eq_iff set_error_idle)
  have t': "itable D f M H F k'" using t unfolding itable_def cell_ino_def Let_def coherent_def pl dk by (simp add: k'_def)
  show "iget strat tape D f ino k = Some (Got None, k')" using iget_not_found [OF t nf] F by (simp add: k'_def)
  show "icache_ok N D f M k'" using t' set_error_idle(1) [OF id] w by (auto simp: icache_ok_def iwritable_def k'_def)
  show "irefs D k' = irefs D k" "iview D k' m = iview D k m" using dk by (simp_all add: irefs_def iview_def k'_def fun_eq_iff cong: option.case_cong)
  show "ino_place_ok f k' = ino_place_ok f k" by (rule pl)
  show "\<forall>i < M. i_count (itab k i) \<noteq> 0" using itableD(3) [OF t] F by auto
qed

section \<open>iput\<close>

lemma iput_refs:
  assumes k: "icache_ok N D f M k" and tp: "\<not> tape D" and i: "ifind D ino k = Some (Some ip)" "irefs D k ino \<noteq> 0"
    and l: "irefs D k ino = 1 \<Longrightarrow> i_nlink (itab k ip) \<noteq> 0"
  obtains k' where "iput ramstrategy tape ip k = Some (Got (), k')" "icache_ok N D f M k'" "irefs D k' = (irefs D k)(ino := irefs D k ino - 1)"
    "iview D k' ino = with_disk (stamp (time_sec k) (time_sec k) (time_sec k) (itab k ip))"
    "\<forall>m. m \<noteq> ino \<longrightarrow> ino_place_ok f k m \<longrightarrow> iview D k' m = iview D k m" "ino_place_ok f k' = ino_place_ok f k"
    "irefs D k ino = 1 \<longrightarrow> load_dinode (dsk D k' ino) = iview D k' ino"
proof -
  obtain H F where t: "itable D f M H F k" and id: "idle N D k" and w: "iwritable f k" using k by (auto simp: icache_ok_def)
  have ip: "on_chain H ip" "i_number (itab k ip) = ino" using i(1) ifind_itable(1) [OF t] by simp_all
  have r: "irefs D k ino = unat (i_count (itab k ip))" using irefs_chain(1) [OF t ip(1)] ip(2) by simp
  have one: "i_count (itab k ip) = 1 \<longleftrightarrow> irefs D k ino = 1" unfolding r by (simp add: word_unat_eq_iff)
  have c: "i_count (itab k ip) \<noteq> 0" "i_count (itab k ip) = 1 \<Longrightarrow> i_nlink (itab k ip) \<noteq> 0" using i(2) r l one by auto
  show thesis
  proof (rule iput_ok [where tape = tape, OF t id w ip(1) tp c])
    fix k' assume k': "iput ramstrategy tape ip k = Some (Got (), k')" "itable D f M H (if i_count (itab k ip) = 1 then F @ [ip] else F) k'"
      "idle N D k'" "iwritable f k'"
      "iview D k' (i_number (itab k ip)) = with_disk (stamp (time_sec k) (time_sec k) (time_sec k) (itab k ip))"
      "\<And>ino. ino \<noteq> i_number (itab k ip) \<Longrightarrow> ino_place_ok f k ino \<Longrightarrow> iview D k' ino = iview D k ino"
      "i_count (itab k' ip) = i_count (itab k ip) - 1" "i_number (itab k' ip) = i_number (itab k ip)" "\<And>j. j \<noteq> ip \<Longrightarrow> itab k' j = itab k j"
      "ino_place_ok f k' = ino_place_ok f k" "i_count (itab k ip) = 1 \<Longrightarrow> coherent D k' ip"
    have "irefs D k' = (irefs D k)(ino := unat (i_count (itab k ip) - 1))"
      using irefs_upd(1) [OF t k'(2) ip(1)] k'(7-9) ip(2) by simp
    moreover have "unat (i_count (itab k ip) - 1) = irefs D k ino - 1" using c(1) unfolding r by (simp add: unat_minus_one)
    moreover have "load_dinode (dsk D k' ino) = iview D k' ino" if "irefs D k ino = 1"
      using k'(8,11) that one iview_chain(1) [OF k'(2) ip(1)] ip(2) by (simp add: coherent_def)
    ultimately show thesis
      by (intro that [of k']) (use k' ip(2) in \<open>auto simp: icache_ok_def\<close>)
  qed
qed

end
