(* ===== verification/IcacheFree.thy ===== *)
theory IcacheFree imports IcacheProps begin

text \<open>
  iput of the last reference to an inode without links: the blocks of the file and the inode become free.
\<close>

section \<open>ifree\<close>

text \<open>The number of the inode joins those that ialloc will hand out first, if there is room.\<close>

definition inode_noted :: "u_int \<Rightarrow> fs \<Rightarrow> fs \<Rightarrow> bool" where
  "inode_noted ino s s' \<longleftrightarrow> fs_tinode s' = fs_tinode s + 1 \<and>
     (fs_ilock s = 0 \<and> 0 \<le> fs_ninode s \<and> fs_ninode s < NICINOD \<longrightarrow>
        fs_ninode s' = fs_ninode s + 1 \<and> fs_inode s' = (fs_inode s)[nat (fs_ninode s) := ino])"

lemma ifree_fields [simp]:
  "itab (ifree f ino k) = itab k" "i_fs (ifree f ino k) = i_fs k" "time_sec (ifree f ino k) = time_sec k" "a_ino (ifree f ino k) = a_ino k"
  "ram_size (ifree f ino k) = ram_size k" "iring M (ifree f ino k) H = iring M k H" "ilist (ifree f ino k) F = ilist k F"
  "a_flock (ifree f ino k) = a_flock k" "fs_isize (fss (ifree f ino k) g) = fs_isize (fss k g)" "fs_ronly (fss (ifree f ino k) g) = fs_ronly (fss k g)"
  "same_cache k (ifree f ino k)"
  by (simp_all add: ifree_def upd_fs_def iring_def ilist_def Let_def same_cache_def same_mem_def sys_ok_def sched_ok_def queues_def sleepers_ok_def)

lemma ifree_super:
  shows "inode_noted ino (fss k f) (fss (ifree f ino k) f)" "super_ok (fss k f) \<Longrightarrow> super_ok (fss (ifree f ino k) f)"
    "fs_fsize (fss (ifree f ino k) f) = fs_fsize (fss k f)" "fs_nfree (fss (ifree f ino k) f) = fs_nfree (fss k f)"
    "fs_free (fss (ifree f ino k) f) = fs_free (fss k f)"
  by (simp_all add: ifree_def upd_fs_def Let_def inode_noted_def super_ok_def)

lemma ifree_keeps:
  assumes t: "itable D f M H F k" and id: "idle N D k" and w: "iwritable f k"
    and k': "k' = ifree f ino k"
  shows "itable D f M H F k'" "idle N D k'" "iwritable f k'" "iview D k' m = iview D k m" "ino_place_ok f k' = ino_place_ok f k"
    "fs_ok N D f xs k \<Longrightarrow> fs_ok N D f xs k'"
proof -
  have sc: "same_cache k k'" by (simp add: k')
  have pl: "ino_place_ok f k' = ino_place_ok f k" by (simp add: ino_place_ok_def on_disk_def fun_eq_iff k')
  then show "ino_place_ok f k' = ino_place_ok f k" .
  show "itable D f M H F k'" using t unfolding itable_def cell_ino_def Let_def coherent_def pl dsk_cache [OF sc] by (simp add: k')
  show "idle N D k'" using id idle_cache [OF sc] by simp
  show "iwritable f k'" using w by (simp add: iwritable_def k')
  have "ifind D m k' = ifind D m k" by (simp add: ifind_def k' ifree_def upd_fs_def Let_def)
  then show "iview D k' m = iview D k m" using dsk_cache [OF sc, of D] by (simp add: iview_def k' cong: option.case_cong)
  show "fs_ok N D f xs k'" if o: "fs_ok N D f xs k"
  proof -
    have tc: "touches N D {} k k'" by (rule touches_cache [OF touches_refl [OF fs_okD(1) [OF o]] sc])
    show ?thesis by (rule fs_okI [OF o tc _ order.refl]) (use fs_okD(2,5) [OF o] ifree_super(2) in \<open>simp_all add: k' ifree_super(3-5)\<close>)
  qed
qed

section \<open>Removing a file\<close>

lemma no_links: "i_nlink v = 0 \<longleftrightarrow> i_nlink v \<le> 0"
  by (simp add: word_le_nat_alt unat_eq_0)

text \<open>The file can be removed: it is not empty and not a pipe, its blocks are not in use, and there are buffers enough.\<close>

definition removable :: "nat \<Rightarrow> u_int \<Rightarrow> nat \<Rightarrow> nat \<Rightarrow> int list \<Rightarrow> 'a ick_scheme \<Rightarrow> bool" where
  "removable N D f ip xs k \<longleftrightarrow> (let v = itab k ip in
     clear N D f (file_blocks (content D k) (i_addr v)) xs k \<and> Suc (levels_of (i_addr v)) \<le> N \<and> \<not> flag (i_flag v) 0x1000 \<and> 0 < i_size v)"

lemma removable_flags:
  assumes r: "removable N D f ip xs k" and s: "same_cache k k'" "fss k' = fss k" "a_flock k' = a_flock k"
    and v: "itab k' ip = (itab k ip)\<lparr>i_flag := fl\<rparr>" "flag fl 0x1000 = flag (i_flag (itab k ip)) 0x1000"
  shows "removable N D f ip xs k'"
proof -
  note q = same_cache_cong [OF s(1)]
  have u: "usable (fss k' f) k' = usable (fss k f) k" by (rule usable_cong) (simp_all add: s same_cache_ram [OF s(1)])
  have "clear N D f bs xs k \<Longrightarrow> clear N D f bs xs k'" for bs
    using fs_ok_same_cache [OF _ s] by (simp add: clear_def u q)
  then show ?thesis using r v by (simp add: removable_def Let_def q)
qed

lemma removable_trunc:
  assumes r: "removable N D f ip xs k" and t: "itable D f M H F k" and id: "idle N D k" and w: "iwritable f k" and ip: "on_chain H ip"
  shows "trunc_ok N D ip xs k"
proof -
  have ce: "cell_ino D f k ip" by (rule itableD(8) [OF t ip])
  have "{i. i < N \<and> \<not> busy k i} = {..<N}" using id by (auto simp: idle_def)
  then have "spare N k n \<longleftrightarrow> n \<le> N" for n by (simp add: spare_def)
  then show ?thesis using r ce w idle_nb(1) [OF id]
    by (simp add: trunc_ok_def removable_def Let_def cell_ino_def iwritable_def ino_place_ok_def)
qed

text \<open>iremove: truncation, the marks of a free inode, ifree.\<close>

lemma iremove_ok:
  assumes t: "itable D f M H F k" and id: "idle N D k" and w: "iwritable f k" and ip: "on_chain H ip" and tp: "\<not> tape D"
    and c: "i_count (itab k ip) = 1" and r: "removable N D f ip xs k"
  defines "v \<equiv> itab k ip"
  obtains k' freed where "iremove ramstrategy tape ip k = Some (Got (), k')" "itable D f M H F k'" "idle N D k'" "iwritable f k'"
    "fs_ok N D f (freed @ xs) k'" "mset freed = mset (file_blocks (content D k) (i_addr v))"
    "\<forall>ino. ino \<noteq> i_number v \<longrightarrow> ino_place_ok f k ino \<longrightarrow> iview D k' ino = iview D k ino"
    "i_count (itab k' ip) = 1" "i_number (itab k' ip) = i_number v" "\<forall>j. j \<noteq> ip \<longrightarrow> itab k' j = itab k j" "ino_place_ok f k' = ino_place_ok f k"
    "i_mode (itab k' ip) = 0" "i_size (itab k' ip) = 0" "i_addr (itab k' ip) = replicate 7 0" "i_nlink (itab k' ip) = i_nlink v"
    "i_uid (itab k' ip) = i_uid v" "i_gid (itab k' ip) = i_gid v"
    "inode_noted (i_number v) (fss k f) (fss k' f)" "time_sec k' = time_sec k"
proof -
  have ce: "i_dev v = D" "i_fs k ip = f" "ino_place_ok f k (i_number v)" "fits v" "\<not> flag (i_flag v) IMOUNT"
    using itableD(8) [OF t ip] by (simp_all add: cell_ino_def Let_def v_def)
  have tr: "trunc_ok N D ip xs k" by (rule removable_trunc [OF r t id w ip])
  have n: "0 \<le> (0 :: int)" "(0 :: int) \<le> 260" "1024 * 0 < i_size (itab k ip)" using r by (simp_all add: removable_def Let_def)
  obtain k1 freed fl where k1: "itrunc ramstrategy tape ip (1024 * 0) k = Some (Got (), k1)" "fs_ok N D f (freed @ xs) k1"
    "mset freed + mset (file_blocks (content D k1) (i_addr (itab k1 ip))) = mset (file_blocks (content D k) (i_addr v))" "alters N D f ip k k1"
    "itab k1 ip = v\<lparr>i_size := 1024 * 0, i_addr := cut_addrs (0 - 1) (i_addr v), i_mtime := time_sec k, i_ctime := time_sec k,
       i_atime := (if flag (i_flag v) IACC then time_sec k else i_atime v), i_flag := fl\<rparr>" "\<forall>b. and 0x446 b = 0 \<longrightarrow> flag fl b = flag (i_flag v) b"
  proof (rule itrunc_ok [where tape = tape, OF tr tp n])
    fix k1 freed
    assume a: "itrunc ramstrategy tape ip (1024 * 0) k = Some (Got (), k1)" "fs_ok N D (i_fs k ip) (freed @ xs) k1"
      "mset freed + mset (file_blocks (content D k1) (i_addr (itab k1 ip))) = mset (file_blocks (content D k) (i_addr (itab k ip)))"
      "alters N D (i_fs k ip) ip k k1"
      "\<exists>fl. itab k1 ip = (itab k ip)\<lparr>i_size := 1024 * 0, i_addr := cut_addrs (0 - 1) (i_addr (itab k ip)), i_mtime := time_sec k, i_ctime := time_sec k,
         i_atime := (if flag (i_flag (itab k ip)) IACC then time_sec k else i_atime (itab k ip)), i_flag := fl\<rparr> \<and>
         (\<forall>b. and 0x446 b = 0 \<longrightarrow> flag fl b = flag (i_flag (itab k ip)) b)"
    show thesis using that a unfolding v_def ce(2) by blast
  qed
  have ad: "cut_addrs (- 1) as = replicate 7 0" for as
  proof -
    have "[0 ..< 7] = [0, 1, 2, 3, 4, 5, 6 :: nat]" by (simp add: upt_rec)
    moreover have "replicate 7 (0 :: int) = [0, 0, 0, 0, 0, 0, 0]" by (simp add: eval_nat_numeral)
    ultimately show ?thesis using last_iblock_simps(2) [of "- 1", unfolded One_nat_def] by (simp add: cut_addrs_def last_iblock_simps)
  qed
  have fb: "file_blocks C (replicate 7 0) = []" for C
    by (simp add: file_blocks_def part1_def direct_def eval_nat_numeral)
  have m: "mset freed = mset (file_blocks (content D k) (i_addr v))" using k1(3) by (simp add: k1(5) ad fb)
  define k2 where "k2 = upd_ino ip (\<lambda>v. (clear_rdev (v\<lparr>i_mode := 0\<rparr>))\<lparr>i_flag := set_flag (or IUPD ICHG) (i_flag v)\<rparr>) k1"
  have ck1: "cache_ok N D k1" by (rule fs_okD(1) [OF k1(2)])
  have a: "alters N D f ip k k2" unfolding k2_def by (rule alters_trans [OF k1(4) alters_upd [OF ck1]]) (simp_all add: clear_rdev_def)
  have v2: "itab k2 ip = v\<lparr>i_mode := 0, i_rdev := 0, i_size := 0, i_addr := replicate 7 0, i_mtime := time_sec k, i_ctime := time_sec k,
       i_atime := (if flag (i_flag v) IACC then time_sec k else i_atime v), i_flag := set_flag (or IUPD ICHG) fl\<rparr>"
    by (simp add: k2_def k1(5) clear_rdev_def ad eval_nat_numeral)
  have tm: "int32 (time_sec k)" "int32 0" using w by (simp_all add: iwritable_def) (simp add: int32_def)
  have "\<not> flag fl 8" using k1(6) ce(5) by simp
  then have ce2: "cell_ino D f k2 ip"
    using ce tm altersD(5,11) [OF a] by (simp add: cell_ino_def Let_def v2 fits_def)
  note r2 = itable_alters [OF t a ip _ _ ce2]
  have t2: "itable D f M H F k2" by (rule r2(1)) (use c in \<open>simp_all add: v2 v_def\<close>)
  have id2: "idle N D k2" and w2: "iwritable f k2" using idle_alters [OF id a] writable_alters [OF w a] .
  have o2: "fs_ok N D f (freed @ xs) k2" unfolding k2_def by (rule fs_ok_same_cache [OF k1(2) upd_ino_cache(1)]) simp_all
  define k3 where "k3 = ifree f (i_number v) k2"
  note f3 = ifree_keeps [OF t2 id2 w2 k3_def]
  have run: "iremove ramstrategy tape ip k = Some (Got (), k3)"
  proof -
    have "iremove ramstrategy tape ip k = Some (Got (), ifree (i_fs k2 ip) (i_number (itab k2 ip)) k2)"
      using k1(1) by (simp add: iremove_def k2_def)
    then show ?thesis using altersD(5) [OF a] ce(2) by (simp add: k3_def v2)
  qed
  have vo: "iview D k3 ino = iview D k ino" if "ino \<noteq> i_number v" "ino_place_ok f k ino" for ino
  proof -
    have "iview D k2 ino = iview D k ino" by (rule r2(2)) (use c that in \<open>simp_all add: v2 v_def\<close>)
    then show ?thesis using f3(4) by simp
  qed
  have nt: "inode_noted (i_number v) (fss k f) (fss k3 f)"
    using ifree_super(1) [of "i_number v" k2 f] nofreeD [OF altersD(8) [OF a, of f]] by (simp add: inode_noted_def k3_def)
  have pl: "ino_place_ok f k3 = ino_place_ok f k" using f3(5) altersD(11) [OF a] by (simp add: fun_eq_iff)
  show thesis
    by (rule that [OF run f3(1-3,6) m _ _ _ _ pl _ _ _ _ _ _ nt])
      (use o2 vo c altersD(2,7) [OF a] in \<open>simp_all add: k3_def v2 v_def\<close>)
qed

text \<open>The last iput of an inode without links.\<close>

lemma iput_removes:
  assumes k: "icache_ok N D f M k" and tp: "\<not> tape D" and i: "ifind D ino k = Some (Some ip)" "irefs D k ino = 1"
    and l: "i_nlink (itab k ip) = 0" and r: "removable N D f ip xs k"
  defines "v \<equiv> itab k ip"
  obtains k' freed w where "iput ramstrategy tape ip k = Some (Got (), k')" "icache_ok N D f M k'" "irefs D k' = (irefs D k)(ino := 0)"
    "fs_ok N D f (freed @ xs) k'" "mset freed = mset (file_blocks (content D k) (i_addr v))"
    "\<forall>m. m \<noteq> ino \<longrightarrow> ino_place_ok f k m \<longrightarrow> iview D k' m = iview D k m" "ino_place_ok f k' = ino_place_ok f k"
    "iview D k' ino = with_disk w" "load_dinode (dsk D k' ino) = with_disk w" "i_mode w = 0" "i_nlink w = 0" "i_uid w = i_uid v" "i_gid w = i_gid v"
    "i_size w = 0" "i_addr w = replicate 7 0" "inode_noted ino (fss k f) (fss k' f)"
proof -
  obtain H F where t: "itable D f M H F k" and id: "idle N D k" and w: "iwritable f k" using k by (auto simp: icache_ok_def)
  have ip: "on_chain H ip" "i_number v = ino" using i(1) ifind_itable(1) [OF t] by (simp_all add: v_def)
  have "unat (i_count v) = 1" using irefs_chain(1) [OF t ip(1)] ip(2) i(2) by (simp add: v_def)
  then have c: "i_count v = 1" by (simp add: word_unat_eq_iff)
  have ck: "cache_ok N D k" "a_ino k ip \<noteq> 0" using id w by (simp_all add: idle_def iwritable_def)
  obtain k1 fl where k1: "iunlock ip k = Some k1" "alters N D f ip k k1" "itab k1 ip = v\<lparr>i_flag := fl\<rparr>" "same_cache k k1"
    "other_flags fl (i_flag v)" "\<not> flag fl ILOCKED" "fss k1 = fss k" "a_flock k1 = a_flock k"
    unfolding v_def by (rule iunlock_ok [where f = f, OF ck])
  define k2 where "k2 = upd_ino ip (\<lambda>v. v\<lparr>i_flag := set_flag ILOCKED (i_flag v)\<rparr>) k1"
  have ck1: "cache_ok N D k1" using altersD(1) [OF k1(2)] by (simp add: touches_def)
  have a: "alters N D f ip k k2" unfolding k2_def by (rule alters_trans [OF k1(2) alters_upd [OF ck1]]) simp_all
  have v2: "itab k2 ip = v\<lparr>i_flag := set_flag ILOCKED fl\<rparr>" by (simp add: k2_def k1(3))
  have sc: "same_cache k k2" unfolding k2_def by (rule same_cache_trans [OF k1(4) upd_ino_cache(1)])
  have of: "other_flags (set_flag ILOCKED fl) (i_flag v)" using k1(5) by (auto simp: other_flags_def flag_def [of ILOCKED])
  have ce: "cell_ino D f k ip" by (rule itableD(8) [OF t ip(1)])
  note fo = other_flagsD [OF of]
  have t2: "itable D f M H F k2" "ino_place_ok f k m \<Longrightarrow> iview D k2 m = iview D k m" for m
    by (rule itable_flags [OF t a ip(1) _ v2 [unfolded v_def] _ _ sc]; use c ce fo in \<open>simp add: v_def cell_ino_def Let_def\<close>)+
  have id2: "idle N D k2" and w2: "iwritable f k2" using idle_alters [OF id a] writable_alters [OF w a] .
  have r2: "removable N D f ip xs k2"
    by (rule removable_flags [OF r sc _ _ v2 [unfolded v_def]]) (use k1(7,8) fo(6) in \<open>simp_all add: k2_def v_def\<close>)
  have c2: "i_count (itab k2 ip) = 1" using c by (simp add: v2)
  have tm: "time_sec k2 = time_sec k" "fss k2 = fss k" "i_fs k2 = i_fs k" "content D k2 = content D k"
    using altersD(5,7) [OF a] k1(7) same_cache_cong(4) [OF sc] by (simp_all add: k2_def)
  obtain k3 freed where k3: "iremove ramstrategy tape ip k2 = Some (Got (), k3)" "itable D f M H F k3" "idle N D k3" "iwritable f k3"
    "fs_ok N D f (freed @ xs) k3" "mset freed = mset (file_blocks (content D k2) (i_addr (itab k2 ip)))"
    "\<forall>m. m \<noteq> i_number (itab k2 ip) \<longrightarrow> ino_place_ok f k2 m \<longrightarrow> iview D k3 m = iview D k2 m"
    "i_count (itab k3 ip) = 1" "i_number (itab k3 ip) = i_number (itab k2 ip)" "\<forall>j. j \<noteq> ip \<longrightarrow> itab k3 j = itab k2 j" "ino_place_ok f k3 = ino_place_ok f k2"
    "i_mode (itab k3 ip) = 0" "i_size (itab k3 ip) = 0" "i_addr (itab k3 ip) = replicate 7 0" "i_nlink (itab k3 ip) = i_nlink (itab k2 ip)"
    "i_uid (itab k3 ip) = i_uid (itab k2 ip)" "i_gid (itab k3 ip) = i_gid (itab k2 ip)"
    "inode_noted (i_number (itab k2 ip)) (fss k2 f) (fss k3 f)" "time_sec k3 = time_sec k2"
    by (rule iremove_ok [where tape = tape, OF t2(1) id2 w2 ip(1) tp c2 r2])
  let ?w = "stamp (time_sec k3) (time_sec k3) (time_sec k3) (itab k3 ip)"
  have pl: "ino_place_ok f k2 = ino_place_ok f k" using altersD(11) [OF a] by (simp add: fun_eq_iff)
  have ro: "fs_ronly (fss k2 (i_fs k2 ip)) = 0" using w ce by (simp add: tm iwritable_def cell_ino_def Let_def)
  show thesis
  proof (rule iclose_ok [where tape = tape, OF k3(2-4) ip(1) tp k3(8)])
    fix k4 k' assume k': "iclose ramstrategy tape ip k3 = Some (Got (), k4)" "k' = upd_ino ip (\<lambda>v. v\<lparr>i_count := i_count v - 1\<rparr>) k4"
      "itable D f M H (F @ [ip]) k'" "idle N D k'" "iwritable f k'" "iview D k' (i_number (itab k3 ip)) = with_disk ?w"
      "\<forall>m. m \<noteq> i_number (itab k3 ip) \<longrightarrow> ino_place_ok f k3 m \<longrightarrow> iview D k' m = iview D k3 m"
      "i_count (itab k' ip) = 0" "i_number (itab k' ip) = i_number (itab k3 ip)" "\<forall>j. j \<noteq> ip \<longrightarrow> itab k' j = itab k3 j"
      "ino_place_ok f k' = ino_place_ok f k3" "coherent D k' ip" "fss k' = fss k3" "\<forall>xs. fs_ok N D f xs k3 \<longrightarrow> fs_ok N D f xs k'"
    have run: "iput ramstrategy tape ip k = Some (Got (), k')"
      using c l ro k3(1) k'(1) by (simp add: iput_def k1(1,3) irele_def k2_def [symmetric] v2 v_def k'(2))
    have rf: "irefs D k' = (irefs D k)(ino := 0)"
      using irefs_upd(1) [OF t k'(3) ip(1)] k'(8-10) k3(9,10) altersD(2) [OF a] ip(2) v2 by (simp add: v_def)
    have dk: "load_dinode (dsk D k' ino) = with_disk ?w"
      using k'(6,9,12) k3(9) v2 ip(2) iview_chain(1) [OF k'(3) ip(1)] by (simp add: coherent_def)
    have vw: "iview D k' m = iview D k m" if "m \<noteq> ino" "ino_place_ok f k m" for m
      using k'(7) k3(7,9,11) t2(2) that pl v2 ip(2) by simp
    have ok: "icache_ok N D f M k'" using k'(3-5) by (auto simp: icache_ok_def)
    have fo: "fs_ok N D f (freed @ xs) k'" using k'(14) k3(5) by blast
    have mf: "mset freed = mset (file_blocks (content D k) (i_addr v))" using k3(6) by (simp add: tm v2)
    have nt: "inode_noted ino (fss k f) (fss k' f)" using k3(18) k'(13) v2 ip(2) by (simp add: tm)
    have sw: "i_mode ?w = 0" "i_nlink ?w = 0" "i_uid ?w = i_uid v" "i_gid ?w = i_gid v" "i_size ?w = 0" "i_addr ?w = replicate 7 0"
      using k3(12-17) l v2 by (simp_all add: stamp_def Let_def v_def)
    have p': "ino_place_ok f k' = ino_place_ok f k" using k'(11) k3(11) pl by simp
    have vi: "iview D k' ino = with_disk ?w" using k'(6) k3(9) v2 ip(2) by simp
    show thesis by (rule that [OF run ok rf fo mf _ p' vi dk sw nt]) (use vw in blast)
  qed
qed

end
