(* ===== verification/IcacheRun.thy ===== *)
theory IcacheRun imports IcacheFree begin

text \<open>
  Users of the inode cache in any order: what they see is a table of files and a count of references to each, whatever the cache holds.
\<close>

section \<open>Steps that do not change the references\<close>

lemma iflags_ok:
  assumes k: "icache_ok N D f M k" and i: "ifind D ino k = Some (Some ip)" "irefs D k ino \<noteq> 0"
    and a: "alters N D f ip k k'" and sc: "same_cache k k'"
    and v: "itab k' ip = (itab k ip)\<lparr>i_flag := fl\<rparr>" "other_flags fl (i_flag (itab k ip))"
  shows "icache_ok N D f M k'" "irefs D k' = irefs D k" "ino_place_ok f k m \<Longrightarrow> iview D k' m = iview D k m"
    "ino_place_ok f k' = ino_place_ok f k"
proof -
  obtain H F where t: "itable D f M H F k" and id: "idle N D k" and w: "iwritable f k" using k by (auto simp: icache_ok_def)
  have ip: "on_chain H ip" "i_number (itab k ip) = ino" using i(1) ifind_itable(1) [OF t] by simp_all
  have nz: "i_count (itab k ip) \<noteq> 0" using i(2) irefs_chain(1) [OF t ip(1)] ip(2) by auto
  have ce: "cell_ino D f k ip" by (rule itableD(8) [OF t ip(1)])
  note fo = other_flagsD [OF v(2)]
  have fl: "flag fl 1094 = dirty_ino (itab k ip)" "\<not> flag fl IMOUNT" using fo ce by (simp_all add: cell_ino_def Let_def)
  note r = itable_flags [OF t a ip(1) nz v(1) fl sc]
  show "icache_ok N D f M k'" using r(1) idle_alters [OF id a] writable_alters [OF w a] by (auto simp: icache_ok_def)
  show "irefs D k' = irefs D k"
    using irefs_upd(1) [OF t r(1) ip(1)] altersD(2) [OF a] by (simp add: v(1) irefs_chain(1) [OF t ip(1), symmetric])
  show "ino_place_ok f k m \<Longrightarrow> iview D k' m = iview D k m" by (rule r(2))
  show "ino_place_ok f k' = ino_place_ok f k" using altersD(11) [OF a] by (simp add: fun_eq_iff)
qed

lemma ilock_refs:
  assumes k: "icache_ok N D f M k" and i: "ifind D ino k = Some (Some ip)" "irefs D k ino \<noteq> 0" and l: "ilock ip k = (r, k')"
  shows "icache_ok N D f M k'" "irefs D k' = irefs D k" "ino_place_ok f k m \<Longrightarrow> iview D k' m = iview D k m"
    "ino_place_ok f k' = ino_place_ok f k"
proof -
  let ?b = "if flag (i_flag (itab k ip)) ILOCKED then IWANT else ILOCKED"
  have k': "k' = upd_ino ip (\<lambda>v. v\<lparr>i_flag := set_flag ?b (i_flag v)\<rparr>) k" using l by (auto simp: ilock_def split: if_splits)
  have c: "cache_ok N D k" using k by (simp add: icache_ok_def idle_def)
  have a: "alters N D f ip k k'" unfolding k' by (rule alters_upd [OF c]) simp_all
  have sc: "same_cache k k'" unfolding k' by (rule upd_ino_cache)
  have v: "itab k' ip = (itab k ip)\<lparr>i_flag := set_flag ?b (i_flag (itab k ip))\<rparr>" by (simp add: k')
  have "other_flags (set_flag ?b (i_flag (itab k ip))) (i_flag (itab k ip))"
    by (auto simp: other_flags_def flag_def [of ILOCKED] flag_def [of IWANT])
  note r = iflags_ok [OF k i a sc v this]
  show "icache_ok N D f M k'" "irefs D k' = irefs D k" "ino_place_ok f k m \<Longrightarrow> iview D k' m = iview D k m"
    "ino_place_ok f k' = ino_place_ok f k" by (fact r)+
qed

lemma iunlock_refs:
  assumes k: "icache_ok N D f M k" and i: "ifind D ino k = Some (Some ip)" "irefs D k ino \<noteq> 0"
  obtains k' where "iunlock ip k = Some k'" "icache_ok N D f M k'" "irefs D k' = irefs D k"
    "\<forall>m. ino_place_ok f k m \<longrightarrow> iview D k' m = iview D k m" "ino_place_ok f k' = ino_place_ok f k" "\<not> flag (i_flag (itab k' ip)) ILOCKED"
proof -
  have c: "cache_ok N D k" "a_ino k ip \<noteq> 0" using k by (simp_all add: icache_ok_def idle_def iwritable_def)
  obtain k' fl where k': "iunlock ip k = Some k'" "alters N D f ip k k'" "itab k' ip = (itab k ip)\<lparr>i_flag := fl\<rparr>" "same_cache k k'"
    "other_flags fl (i_flag (itab k ip))" "\<not> flag fl ILOCKED" "fss k' = fss k" "a_flock k' = a_flock k" by (rule iunlock_ok [where f = f, OF c])
  note r = iflags_ok [OF k i k'(2,4,3,5)]
  show thesis by (rule that [OF k'(1) r(1,2)]) (use r k'(3,6) in simp_all)
qed

text \<open>The kernel works on an inode that it has a reference to, and marks it.\<close>

definition ichange_ok :: "inode \<Rightarrow> inode \<Rightarrow> bool" where
  "ichange_ok v v' \<longleftrightarrow> i_number v' = i_number v \<and> i_dev v' = i_dev v \<and> i_count v' = i_count v \<and> fits v' \<and>
     \<not> flag (i_flag v') IMOUNT \<and> dirty_ino v'"

lemma ichange_refs:
  assumes k: "icache_ok N D f M k" and i: "ifind D ino k = Some (Some ip)" "irefs D k ino \<noteq> 0" and v: "ichange_ok (itab k ip) v'"
  defines "k' \<equiv> upd_ino ip (\<lambda>_. v') k"
  shows "icache_ok N D f M k'" "irefs D k' = irefs D k" "m \<noteq> ino \<Longrightarrow> ino_place_ok f k m \<Longrightarrow> iview D k' m = iview D k m"
    "iview D k' ino = with_disk v'" "ino_place_ok f k' = ino_place_ok f k"
proof -
  obtain H F where t: "itable D f M H F k" and id: "idle N D k" and w: "iwritable f k" using k by (auto simp: icache_ok_def)
  have ip: "on_chain H ip" "i_number (itab k ip) = ino" using i(1) ifind_itable(1) [OF t] by simp_all
  have nz: "i_count (itab k ip) \<noteq> 0" using i(2) irefs_chain(1) [OF t ip(1)] ip(2) by auto
  have ce: "cell_ino D f k ip" by (rule itableD(8) [OF t ip(1)])
  have c: "cache_ok N D k" using id by (simp add: idle_def)
  have a: "alters N D f ip k k'" unfolding k'_def by (rule alters_upd [OF c]) (use v in \<open>simp_all add: ichange_ok_def\<close>)
  have vi: "itab k' ip = v'" by (simp add: k'_def)
  have "cell_ino D f k' ip" using ce v altersD(5,11) [OF a] by (simp add: cell_ino_def Let_def vi ichange_ok_def)
  note r = itable_alters [OF t a ip(1) _ _ this, unfolded vi]
  have n: "i_count v' = i_count (itab k ip)" using v by (simp add: ichange_ok_def)
  have t': "itable D f M H F k'" by (rule r(1)) (use nz n in simp_all)
  show "icache_ok N D f M k'" using t' idle_alters [OF id a] writable_alters [OF w a] by (auto simp: icache_ok_def)
  show "irefs D k' = irefs D k"
    using irefs_upd(1) [OF t t' ip(1)] altersD(2,3) [OF a] by (simp add: vi n irefs_chain(1) [OF t ip(1), symmetric])
  show "m \<noteq> ino \<Longrightarrow> ino_place_ok f k m \<Longrightarrow> iview D k' m = iview D k m" by (rule r(2)) (use nz n ip(2) in simp_all)
  show "iview D k' ino = with_disk v'" using r(3) nz n by (simp add: ip(2))
  show "ino_place_ok f k' = ino_place_ok f k" using altersD(11) [OF a] by (simp add: fun_eq_iff)
qed

text \<open>An inode is written.\<close>

lemma iupdat_refs:
  assumes k: "icache_ok N D f M k" and tp: "\<not> tape D" and i: "ifind D ino k = Some (Some ip)" "irefs D k ino \<noteq> 0"
  obtains k' where "iupdat ramstrategy tape ip (time_sec k) (time_sec k) sy k = Some (Got (), k')" "icache_ok N D f M k'" "irefs D k' = irefs D k"
    "\<forall>m. m \<noteq> ino \<longrightarrow> ino_place_ok f k m \<longrightarrow> iview D k' m = iview D k m"
    "iview D k' ino = with_disk (stamp (time_sec k) (time_sec k) (time_sec k) (itab k ip))" "ino_place_ok f k' = ino_place_ok f k"
    "load_dinode (dsk D k' ino) = iview D k' ino"
proof -
  obtain H F where t: "itable D f M H F k" and id: "idle N D k" and w: "iwritable f k" using k by (auto simp: icache_ok_def)
  have ip: "on_chain H ip" "i_number (itab k ip) = ino" using i(1) ifind_itable(1) [OF t] by simp_all
  have nz: "i_count (itab k ip) \<noteq> 0" using i(2) irefs_chain(1) [OF t ip(1)] ip(2) by auto
  obtain k' where k': "iupdat ramstrategy tape ip (time_sec k) (time_sec k) sy k = Some (Got (), k')" "alters N D f ip k k'" "cell_ino D f k' ip"
    "\<not> dirty_ino (itab k' ip)" "coherent D k' ip" "with_disk (itab k' ip) = with_disk (stamp (time_sec k) (time_sec k) (time_sec k) (itab k ip))"
    "i_count (itab k' ip) = i_count (itab k ip)" "fss k' = fss k" "\<forall>xs. fs_ok N D f xs k \<longrightarrow> fs_ok N D f xs k'"
    by (rule iwrite_ok [where sy = sy and tape = tape, OF t id w ip(1) tp])
  note r = itable_alters [OF t k'(2) ip(1) _ _ k'(3)]
  have t': "itable D f M H F k'" by (rule r(1)) (use nz k'(7) in simp_all)
  have n: "i_number (itab k' ip) = ino" using altersD(3) [OF k'(2)] ip(2) by simp
  have vw: "iview D k' ino = with_disk (itab k' ip)" using iview_chain(1) [OF t' ip(1)] n by simp
  have rf: "irefs D k' = irefs D k"
    using irefs_upd(1) [OF t t' ip(1)] altersD(2,3) [OF k'(2)] by (simp add: k'(7) irefs_chain(1) [OF t ip(1), symmetric])
  have o: "iview D k' m = iview D k m" if "m \<noteq> ino" "ino_place_ok f k m" for m
    by (rule r(2)) (use nz k'(7) ip(2) that in simp_all)
  show thesis
  proof (rule that [OF k'(1) _ rf])
    show "icache_ok N D f M k'" using t' idle_alters [OF id k'(2)] writable_alters [OF w k'(2)] by (auto simp: icache_ok_def)
    show "load_dinode (dsk D k' ino) = iview D k' ino" using k'(5) n vw by (simp add: coherent_def)
    show "ino_place_ok f k' = ino_place_ok f k" using altersD(11) [OF k'(2)] by (simp add: fun_eq_iff)
  qed (use vw k'(6) o in simp_all)
qed

end
