(* ===== verification/IcacheLife.thy ===== *)
theory IcacheLife imports IcacheRun begin

text \<open>
  The properties of the inode cache: ihinit, iget and iput one by one, and all users in any order as a refinement of a table of files with
  reference counts.
\<close>

section \<open>A small cache\<close>

text \<open>Two inodes, as ihinit leaves them.\<close>

definition demo_boot :: ick where
  "demo_boot = ink.extend (fsk.extend demo_fsk (ink.fields (\<lambda>_. demo_ino\<lparr>i_count := 0\<rparr>) (\<lambda>_. 0) 0))
     (ick.fields (\<lambda>_. Ihead 0) (\<lambda>_. Ihead 0) None Ifreeh (\<lambda>_. None) (\<lambda>_. None) (\<lambda>i. if i = 0 then 0x2000 else 0x2040) (\<lambda>_. 0x3000) 0)"

definition demo_icache :: ick where
  "demo_icache = ihinit 2 demo_boot"

lemma demo_boot: "itab demo_boot = (\<lambda>_. demo_ino\<lparr>i_count := 0\<rparr>)" "a_ino demo_boot = (\<lambda>i. if i = 0 then 0x2000 else 0x2040)"
  "fss demo_boot = (\<lambda>_. demo_super)" "ram_size demo_boot = 1000" "time_sec demo_boot = 500000000" "idle 2 0x300 demo_boot"
proof -
  show "itab demo_boot = (\<lambda>_. demo_ino\<lparr>i_count := 0\<rparr>)" "a_ino demo_boot = (\<lambda>i. if i = 0 then 0x2000 else 0x2040)"
    by (simp_all add: demo_boot_def ink.defs ick.defs fsk.defs)
  obtain m where m: "demo_boot = fsk.extend demo_fsk m" by (simp add: demo_boot_def fsk.defs ink.defs)
  show "fss demo_boot = (\<lambda>_. demo_super)" "ram_size demo_boot = 1000"
    by (simp_all add: m) (simp_all add: demo_fsk_def bio.defs fsk.defs)
  show "idle 2 0x300 demo_boot" using demo_fs_idle by (simp add: m fs_idle_def)
  show "time_sec demo_boot = 500000000"
    by (simp add: m demo_fsk_def) (simp add: demo_bio_def demo_clk0_def kern.defs clk.defs bio.defs fsk.defs)
qed

lemma demo_icache_ok:
  "icache_ok 2 0x300 0 2 demo_icache" "irefs 0x300 demo_icache = (\<lambda>_. 0)" "ifind 0x300 ino demo_icache = Some None"
  "ifreeh demo_icache = Some 0" "ino_place_ok 0 demo_icache 3"
proof -
  have z: "\<forall>i < 2. i_count (itab demo_boot i) = 0 \<and> i_flag (itab demo_boot i) = 0" by (simp add: demo_boot demo_ino_def)
  have t: "itable 0x300 0 2 (\<lambda>_. []) [0 ..< 2] demo_icache" and lo: "links_only demo_boot demo_icache"
    unfolding demo_icache_def by (rule ihinit_ok [OF _ z], simp)+
  note l = links_onlyD [OF lo]
  have "idle 2 0x300 demo_icache" by (simp add: l demo_boot)
  moreover have "iwritable 0 demo_icache" by (simp add: iwritable_def l demo_boot demo_super_def int32_def)
  ultimately show "icache_ok 2 0x300 0 2 demo_icache" using t by (auto simp: icache_ok_def)
  have no: "\<not> on_chain (\<lambda>_. []) i" for i by (simp add: on_chain_def elems_def)
  show "ifind 0x300 ino demo_icache = Some None" for ino by (rule ifind_chain(2) [OF t]) (simp add: no)
  then show "irefs 0x300 demo_icache = (\<lambda>_. 0)" by (simp add: irefs_def fun_eq_iff)
  show "ifreeh demo_icache = Some 0" using ilist_head [OF itableD(2) [OF t]] by simp
  show "ino_place_ok 0 demo_icache 3" by (simp add: ino_place_ok_def on_disk_def l demo_boot itod_def demo_super_def)
qed

lemma demo_icache_fs: "fs_ok 2 0x300 0 [21, 20] demo_icache" "fss demo_icache = (\<lambda>_. demo_super)" "ram_size demo_icache = 1000"
proof -
  have z: "\<forall>i < 2. i_count (itab demo_boot i) = 0 \<and> i_flag (itab demo_boot i) = 0" by (simp add: demo_boot demo_ino_def)
  have lo: "links_only demo_boot demo_icache" unfolding demo_icache_def by (rule ihinit_ok(2) [OF _ z]) simp
  obtain m where m: "demo_boot = fsk.extend demo_fsk m" by (simp add: demo_boot_def fsk.defs ink.defs)
  have fs: "fs_ok 2 0x300 0 [21, 20] demo_fsk" and id: "idle 2 0x300 demo_fsk" using demo_fs_idle by (simp_all add: fs_idle_def)
  have u: "usable (fss demo_boot 0) demo_boot = usable (fss demo_fsk 0) demo_fsk"
    by (simp add: usable_def fun_eq_iff m)
  have "cache_ok 2 0x300 demo_boot" using demo_boot(6) by (simp add: idle_def)
  then have "fs_ok 2 0x300 0 [21, 20] demo_boot" using fs u unfolding fs_ok_def by (simp add: m)
  then show "fs_ok 2 0x300 0 [21, 20] demo_icache" by (rule links_only_fs [OF lo])
  show "fss demo_icache = (\<lambda>_. demo_super)" "ram_size demo_icache = 1000" using links_onlyD [OF lo] by (simp_all add: demo_boot)
qed

text \<open>Inode 3 in core, with a length and blocks.\<close>

lemma demo_held:
  assumes n: "length as = 7" "\<forall>b \<in> set as. 0 \<le> b \<and> b < 2 ^ 24" "int32 s"
  obtains ip v and k k' :: ick where "iget ramstrategy (\<lambda>_. False) 0x300 0 3 demo_icache = Some (Got (Some ip), k)" "k' = upd_ino ip (\<lambda>_. v) k"
    "i_nlink v = l" "i_addr v = as" "i_size v = s" "\<not> flag (i_flag v) 0x1000"
    "icache_ok 2 0x300 0 2 k" "ifind 0x300 3 k = Some (Some ip)" "irefs 0x300 k 3 = 1" "ichange_ok (itab k ip) v"
    "icache_ok 2 0x300 0 2 k'" "ifind 0x300 3 k' = Some (Some ip)" "irefs 0x300 k' 3 = 1" "itab k' ip = v"
    "fs_ok 2 0x300 0 [21, 20] k'" "usable (fss k' 0) k' = usable demo_super demo_icache"
    "\<forall>j < 2. unat (i_count (itab k' j)) < 65535" "\<not> flag (i_flag v) ILOCKED"
proof -
  obtain ip k where k: "iget ramstrategy (\<lambda>_. False) 0x300 0 3 demo_icache = Some (Got (Some ip), k)" "icache_ok 2 0x300 0 2 k"
    "irefs 0x300 k = (irefs 0x300 demo_icache)(3 := irefs 0x300 demo_icache 3 + 1)" "ifind 0x300 3 k = Some (Some ip)"
    "\<forall>xs. fs_ok 2 0x300 0 xs demo_icache \<longrightarrow> fs_ok 2 0x300 0 xs k" "usable (fss k 0) k = usable (fss demo_icache 0) demo_icache"
    by (rule iget_ok [where tape = "\<lambda>_. False", OF demo_icache_ok(1,5)]) (use demo_icache_ok(2-4) in simp_all)
  have r: "irefs 0x300 k 3 = 1" by (simp add: k(3) demo_icache_ok)
  obtain H F where t: "itable 0x300 0 2 H F k" using k(2) by (auto simp: icache_ok_def)
  have on: "on_chain H ip" "i_number (itab k ip) = 3" using k(4) ifind_itable(1) [OF t] by simp_all
  have ce: "cell_ino 0x300 0 k ip" by (rule itableD(8) [OF t on(1)])
  define v where "v = (itab k ip)\<lparr>i_nlink := l, i_addr := as, i_size := s, i_flag := ICHG\<rparr>"
  have v: "ichange_ok (itab k ip) v" "i_nlink v = l" "i_addr v = as" "i_size v = s" "\<not> flag (i_flag v) 0x1000" "\<not> flag (i_flag v) ILOCKED"
    using ce n by (simp_all add: ichange_ok_def v_def cell_ino_def Let_def fits_def)
  have c: "irefs 0x300 k 3 \<noteq> 0" using r by simp
  note ch = ichange_refs [OF k(2,4) c v(1)]
  define k' where "k' = upd_ino ip (\<lambda>_. v) k"
  have i: "icache_ok 2 0x300 0 2 k'" "irefs 0x300 k' 3 = 1" "itab k' ip = v" using ch(1,2) r by (simp_all add: k'_def)
  have fi: "ifind 0x300 3 k' = Some (Some ip)"
  proof -
    have "i_number (itab k' j) = i_number (itab k j) \<and> i_dev (itab k' j) = i_dev (itab k j)" for j
      using v(1) by (cases "j = ip") (simp_all add: k'_def upd_ino_other ichange_ok_def)
    then show ?thesis using k(4) by (simp add: ifind_def k'_def upd_ino_def cong: iref.case_cong)
  qed
  have sc: "same_cache k k'" unfolding k'_def by (rule upd_ino_cache)
  have fo: "fs_ok 2 0x300 0 [21, 20] k'"
    by (rule fs_ok_same_cache [OF _ sc]) (use k(5) demo_icache_fs(1) in \<open>simp_all add: k'_def\<close>)
  have us: "usable (fss k' 0) k' = usable demo_super demo_icache"
    using k(6) usable_cong [of "fss k' 0" "fss k 0" k' k] by (simp add: k'_def demo_icache_fs(2))
  obtain H' F' where t': "itable 0x300 0 2 H' F' k'" using i(1) by (auto simp: icache_ok_def)
  have "irefs 0x300 k' m \<le> 1" for m using ch(2) k(3) by (simp add: k'_def demo_icache_ok)
  then have "unat (i_count (itab k' j)) \<le> 1" if "on_chain H' j" for j using irefs_chain(1) [OF t' that] by metis
  then have le: "unat (i_count (itab k' j)) \<le> 1" if "j < 2" for j using itableD(7) [OF t' that] by (cases "i_count (itab k' j) = 0") auto
  then have "\<forall>j < 2. unat (i_count (itab k' j)) < 65535" by fastforce
  then show thesis by (rule that [OF k(1) k'_def v(2-5) k(2,4) r v(1) i(1) fi i(2,3) fo us _ v(6)])
qed

section \<open>ihinit\<close>

text \<open>ihinit makes an empty cache: no inode is found, none has a reference, and every inode of the table is on the free list, in the
  order of the table.\<close>

lemma ihinit_empty:
  assumes "0 < M" "\<forall>i < M. i_count (itab k i) = 0 \<and> i_flag (itab k i) = 0" "idle N D k" "iwritable f k"
  shows "icache_ok N D f M (ihinit M k) \<and> ilist (ihinit M k) [0 ..< M] \<and> (\<forall>ino. ifind D ino (ihinit M k) = Some None)"
proof -
  note h = ihinit_ok(1) [OF assms(1,2), of D f]
  note l = links_onlyD [OF ihinit_ok(2) [OF assms(1,2)]]
  have no: "\<not> on_chain (\<lambda>_. []) i" for i by (simp add: on_chain_def elems_def)
  have "ifind D ino (ihinit M k) = Some None" for ino by (rule ifind_chain(2) [OF h]) (simp add: no)
  then show ?thesis using h itableD(2) [OF h] assms(3,4) by (auto simp: icache_ok_def iwritable_def l)
qed

lemma ihinit_empty_witness:
  "icache_ok 2 0x300 0 2 demo_icache \<and> ilist demo_icache [0 ..< 2] \<and> (\<forall>ino. ifind 0x300 ino demo_icache = Some None)"
  unfolding demo_icache_def
  by (rule ihinit_empty) (simp_all add: demo_boot iwritable_def demo_super_def int32_def, simp add: demo_ino_def)

section \<open>iget\<close>

text \<open>C36: iget for an inode that no one has locked returns, locked and with one more reference, the one in-core inode of that number,
  read from the disk if it is not in core and taken off the free list if no one else uses it; what the kernel sees of every inode of the
  disk stays as it is, also if the in-core inode served another file before.\<close>

theorem iget_correct:
  fixes ino :: u_int
  assumes "icache_ok N D f M k" "ino_place_ok f k ino" "irefs D k ino < 65535"
    "\<forall>i. ifind D ino k = Some (Some i) \<longrightarrow> \<not> flag (i_flag (itab k i)) ILOCKED" "ifind D ino k = Some None \<longrightarrow> ifreeh k \<noteq> None"
  shows "\<exists>ip k'. iget ramstrategy tape D f ino k = Some (Got (Some ip), k') \<and> icache_ok N D f M k' \<and>
    irefs D k' = (irefs D k)(ino := irefs D k ino + 1) \<and> (\<forall>m. ino_place_ok f k m \<longrightarrow> iview D k' m = iview D k m) \<and>
    ifind D ino k' = Some (Some ip) \<and> flag (i_flag (itab k' ip)) ILOCKED \<and> with_disk (itab k' ip) = iview D k ino"
proof -
  obtain ip k' where "iget ramstrategy tape D f ino k = Some (Got (Some ip), k')" "icache_ok N D f M k'"
    "irefs D k' = (irefs D k)(ino := irefs D k ino + 1)" "\<forall>m. ino_place_ok f k m \<longrightarrow> iview D k' m = iview D k m"
    "ifind D ino k' = Some (Some ip)" "flag (i_flag (itab k' ip)) ILOCKED" "with_disk (itab k' ip) = iview D k ino"
    by (rule iget_ok [where tape = tape, OF assms(1,2) _ assms(3)]) (use assms(4,5) in blast)+
  then show ?thesis by blast
qed

theorem iget_correct_witness:
  "\<exists>ip k'. iget ramstrategy (\<lambda>_. False) 0x300 0 3 demo_icache = Some (Got (Some ip), k') \<and> icache_ok 2 0x300 0 2 k' \<and>
     irefs 0x300 k' 3 = 1 \<and> ifind 0x300 3 k' = Some (Some ip)"
  using iget_correct [where tape = "\<lambda>_. False", OF demo_icache_ok(1,5)] demo_icache_ok(2-4) by fastforce



section \<open>iput\<close>




text \<open>Blocks 22 and 23 of the small file system.\<close>

lemma demo_removable:
  assumes o: "fs_ok 2 0x300 0 [21, 20] k" and u: "usable (fss k 0) k = usable demo_super demo_icache" and c: "icache_ok 2 0x300 0 2 k"
    and v: "i_addr (itab k ip) = [22, 23, 0, 0, 0, 0, 0]" "i_size (itab k ip) = 2048" "\<not> flag (i_flag (itab k ip)) 0x1000"
  shows "removable 2 0x300 0 ip [21, 20] k" "mset (file_blocks C (i_addr (itab k ip))) = {#22, 23#}"
proof -
  have b: "file_blocks C [22, 23, 0, 0, 0, 0, 0] = [23, 22]" for C by (rule demo_two(6))
  have id: "idle 2 0x300 k" using c by (simp add: icache_ok_def)
  have "usable demo_super demo_icache b" if "b \<in> {22, 23}" for b
    using that by (auto simp: usable_def badblock_def demo_super_def on_disk_def demo_icache_fs(3) int32_def)
  then have "clear 2 0x300 0 [23, 22] [21, 20] k" using o idle_nb(1) [OF id] by (simp add: clear_def u)
  then show "removable 2 0x300 0 ip [21, 20] k" using v by (simp add: removable_def Let_def b levels_of_def)
  show "mset (file_blocks C (i_addr (itab k ip))) = {#22, 23#}" by (simp add: v b)
qed


section \<open>All users\<close>

text \<open>What the users of inodes do: Get and what else can come of it (Miss), lock and unlock, change the inode, have it written, and Put.\<close>

datatype iact = Get u_int | Miss u_int | Lock u_int | Unlock u_int | Change u_int inode | Sync u_int | Put u_int | Remove u_int

inductive istep :: "nat \<Rightarrow> (u_int \<Rightarrow> bool) \<Rightarrow> u_int \<Rightarrow> nat \<Rightarrow> 'a ick_scheme \<Rightarrow> iact \<Rightarrow> 'a ick_scheme \<Rightarrow> bool"
  for N :: nat and tape :: "u_int \<Rightarrow> bool" and D :: u_int and f :: nat where
  get: "ino_place_ok f k ino \<Longrightarrow> irefs D k ino < 65535 \<Longrightarrow> iget ramstrategy tape D f ino k = Some (Got (Some ip), k') \<Longrightarrow>
    istep N tape D f k (Get ino) k'"
| miss: "ino_place_ok f k ino \<Longrightarrow> irefs D k ino < 65535 \<Longrightarrow> iget ramstrategy tape D f ino k = Some (r, k') \<Longrightarrow> \<forall>ip. r \<noteq> Got (Some ip) \<Longrightarrow>
    istep N tape D f k (Miss ino) k'"
| lock: "ifind D ino k = Some (Some ip) \<Longrightarrow> irefs D k ino \<noteq> 0 \<Longrightarrow> ilock ip k = (r, k') \<Longrightarrow> istep N tape D f k (Lock ino) k'"
| unlock: "ifind D ino k = Some (Some ip) \<Longrightarrow> irefs D k ino \<noteq> 0 \<Longrightarrow> iunlock ip k = Some k' \<Longrightarrow> istep N tape D f k (Unlock ino) k'"
| change: "ifind D ino k = Some (Some ip) \<Longrightarrow> irefs D k ino \<noteq> 0 \<Longrightarrow> ichange_ok (itab k ip) v \<Longrightarrow>
    istep N tape D f k (Change ino v) (upd_ino ip (\<lambda>_. v) k)"
| sync: "ifind D ino k = Some (Some ip) \<Longrightarrow> irefs D k ino \<noteq> 0 \<Longrightarrow>
    iupdat ramstrategy tape ip (time_sec k) (time_sec k) w k = Some (r, k') \<Longrightarrow> istep N tape D f k (Sync ino) k'"
| put: "ifind D ino k = Some (Some ip) \<Longrightarrow> irefs D k ino \<noteq> 0 \<Longrightarrow> irefs D k ino = 1 \<longrightarrow> i_nlink (itab k ip) \<noteq> 0 \<Longrightarrow>
    iput ramstrategy tape ip k = Some (r, k') \<Longrightarrow> istep N tape D f k (Put ino) k'"
| remove: "ifind D ino k = Some (Some ip) \<Longrightarrow> irefs D k ino = 1 \<Longrightarrow> i_nlink (itab k ip) = 0 \<Longrightarrow> removable N D f ip xs k \<Longrightarrow>
    iput ramstrategy tape ip k = Some (r, k') \<Longrightarrow> istep N tape D f k (Remove ino) k'"

inductive_cases istepE: "istep N tape D f k a k'"

inductive isteps :: "nat \<Rightarrow> (u_int \<Rightarrow> bool) \<Rightarrow> u_int \<Rightarrow> nat \<Rightarrow> 'a ick_scheme \<Rightarrow> iact list \<Rightarrow> 'a ick_scheme \<Rightarrow> bool"
  for N :: nat and tape :: "u_int \<Rightarrow> bool" and D :: u_int and f :: nat and k :: "'a ick_scheme" where
  none: "isteps N tape D f k [] k"
| more: "isteps N tape D f k as k1 \<Longrightarrow> istep N tape D f k1 a k2 \<Longrightarrow> isteps N tape D f k (as @ [a]) k2"

text \<open>What they should see: a file for each number, apart from its times, and the number of references.\<close>

type_synonym ifile = "u_int \<times> u_int \<times> int \<times> int \<times> int \<times> int list"

definition file_of :: "inode \<Rightarrow> ifile" where
  "file_of v = (i_mode v, i_nlink v, i_uid v, i_gid v, i_size v, i_addr v)"

definition ifile :: "u_int \<Rightarrow> 'a ick_scheme \<Rightarrow> u_int \<Rightarrow> ifile" where
  "ifile D k ino = file_of (iview D k ino (itab k 0))"

fun emptied :: "ifile \<Rightarrow> ifile" where
  "emptied (m, l, uid, gid, n, as) = (0, l, uid, gid, 0, replicate 7 0)"

fun ispec :: "iact \<Rightarrow> (u_int \<Rightarrow> nat) \<times> (u_int \<Rightarrow> ifile) \<Rightarrow> (u_int \<Rightarrow> nat) \<times> (u_int \<Rightarrow> ifile)" where
  "ispec (Get ino) (R, A) = (R(ino := R ino + 1), A)"
| "ispec (Put ino) (R, A) = (R(ino := R ino - 1), A)"
| "ispec (Remove ino) (R, A) = (R(ino := 0), A(ino := emptied (A ino)))"
| "ispec (Change ino v) (R, A) = (R, A(ino := file_of v))"
| "ispec _ (R, A) = (R, A)"

lemma file_of_view [simp]: "file_of (with_disk v x) = file_of v" "file_of (stamp a b c v) = file_of v"
  by (simp_all add: file_of_def with_disk_def stamp_def Let_def)

lemma ifile_view: "iview D k' m = iview D k m \<Longrightarrow> ifile D k' m = ifile D k m"
proof -
  have "file_of (iview D k m v) = file_of (iview D k m w)" for v w
    by (simp add: iview_def file_of_def load_dinode_def with_disk_def Let_def split: option.split)
  then show "iview D k' m = iview D k m \<Longrightarrow> ifile D k' m = ifile D k m" by (simp add: ifile_def)
qed

text \<open>The numbers of references and the files that the disk has room for.\<close>

definition agrees :: "u_int \<Rightarrow> nat \<Rightarrow> 'a ick_scheme \<Rightarrow> (u_int \<Rightarrow> nat) \<times> (u_int \<Rightarrow> ifile) \<Rightarrow> bool" where
  "agrees D f k s \<longleftrightarrow> irefs D k = fst s \<and> (\<forall>m. ino_place_ok f k m \<longrightarrow> ifile D k m = snd s m)"

lemma agrees_same:
  assumes "agrees D f k (R, A)" "irefs D k' = R'" "ino_place_ok f k' = ino_place_ok f k" "\<And>m. ino_place_ok f k m \<Longrightarrow> iview D k' m = iview D k m"
  shows "agrees D f k' (R', A)"
  using assms(1-3) ifile_view [OF assms(4)] by (simp add: agrees_def)

lemma agrees_but:
  assumes "agrees D f k (R, A)" "irefs D k' = R'" "ino_place_ok f k' = ino_place_ok f k"
    "\<And>m. m \<noteq> ino \<Longrightarrow> ino_place_ok f k m \<Longrightarrow> iview D k' m = iview D k m" "ifile D k' ino = a"
  shows "agrees D f k' (R', A(ino := a))"
  using assms(1-3,5) ifile_view [OF assms(4)] by (simp add: agrees_def)

lemma agrees_keep:
  assumes "agrees D f k (R, A)" "irefs D k' = R'" "ino_place_ok f k' = ino_place_ok f k"
    "\<And>m. m \<noteq> ino \<Longrightarrow> ino_place_ok f k m \<Longrightarrow> iview D k' m = iview D k m" "ifile D k' ino = ifile D k ino"
  shows "agrees D f k' (R', A)"
proof -
  have "ifile D k' m = A m" if "ino_place_ok f k m" for m
    using assms(1,5) that ifile_view [OF assms(4) [OF _ that]] by (cases "m = ino") (simp_all add: agrees_def)
  then show ?thesis using assms(2,3) by (simp add: agrees_def)
qed

lemma in_core_place: "icache_ok N D f M k \<Longrightarrow> ifind D ino k = Some (Some ip) \<Longrightarrow> ino_place_ok f k ino"
  using ifind_itable(1) itableD(8) by (fastforce simp: icache_ok_def cell_ino_def Let_def)

lemma in_core_view: "icache_ok N D f M k \<Longrightarrow> ifind D ino k = Some (Some ip) \<Longrightarrow> ifile D k ino = file_of (itab k ip)"
  by (simp add: ifile_def iview_def)

lemma istep_ok:
  assumes k: "icache_ok N D f M k" and tp: "\<not> tape D" and s: "istep N tape D f k a k'" and g: "agrees D f k (R, A)"
  shows "icache_ok N D f M k' \<and> agrees D f k' (ispec a (R, A))"
  using s
proof (cases rule: istep.cases)
  case (get ino ip)
  have l: "\<not> flag (i_flag (itab k i)) ILOCKED" if "ifind D ino k = Some (Some i)" for i
    using get(4) iget_locked(1) [OF k that, of ramstrategy tape] by auto
  have fr: "ifreeh k \<noteq> None" if "ifind D ino k = Some None" using get(4) iget_full(1) [OF k that, of ramstrategy tape] by auto
  obtain ip' k1 where k1: "iget ramstrategy tape D f ino k = Some (Got (Some ip'), k1)" "icache_ok N D f M k1" "irefs D k1 = (irefs D k)(ino := irefs D k ino + 1)"
    "\<forall>m. ino_place_ok f k m \<longrightarrow> iview D k1 m = iview D k m" "ino_place_ok f k1 = ino_place_ok f k"
    by (rule iget_ok [where tape = tape, OF k get(2) l get(3) fr])
  then have "k' = k1" using get(4) by simp
  moreover have "agrees D f k1 (R(ino := R ino + 1), A)"
    by (rule agrees_same [OF g]) (use g k1 in \<open>simp_all add: agrees_def\<close>)
  ultimately show ?thesis using k1(2) get(1) by simp
next
  case (miss ino r)
  consider ip where "ifind D ino k = Some (Some ip)" "flag (i_flag (itab k ip)) ILOCKED" | "ifind D ino k = Some None" "ifreeh k = None"
    using iget_ok [where tape = tape, OF k miss(2) _ miss(3)] miss(4,5) by (metis option.inject prod.inject)
  then show ?thesis
  proof cases
    case 1
    note r = iget_locked [OF k 1]
    have "k' = upd_ino ip (\<lambda>v. v\<lparr>i_flag := set_flag IWANT (i_flag v)\<rparr>) k" using miss(4) r(1) [of ramstrategy tape] by simp
    moreover have "agrees D f (upd_ino ip (\<lambda>v. v\<lparr>i_flag := set_flag IWANT (i_flag v)\<rparr>) k) (R, A)"
      by (rule agrees_same [OF g _ r(6,4)]) (use g r(3) in \<open>simp_all add: agrees_def\<close>)
    ultimately show ?thesis using r(2) miss(1) by simp
  next
    case 2
    note r = iget_full [OF k 2]
    have "k' = set_error ENFILE k" using miss(4) r(1) [of ramstrategy tape] by simp
    moreover have "agrees D f (set_error ENFILE k) (R, A)"
      by (rule agrees_same [OF g _ r(5,4)]) (use g r(3) in \<open>simp_all add: agrees_def\<close>)
    ultimately show ?thesis using r(2) miss(1) by simp
  qed
next
  case (lock ino ip r)
  note r = ilock_refs [OF k lock(2-4)]
  have "agrees D f k' (R, A)" by (rule agrees_same [OF g _ r(4,3)]) (use g r(2) in \<open>simp_all add: agrees_def\<close>)
  then show ?thesis using r(1) lock(1) by simp
next
  case (unlock ino ip)
  obtain k1 where r: "iunlock ip k = Some k1" "icache_ok N D f M k1" "irefs D k1 = irefs D k"
    "\<forall>m. ino_place_ok f k m \<longrightarrow> iview D k1 m = iview D k m" "ino_place_ok f k1 = ino_place_ok f k"
    by (rule iunlock_refs [OF k unlock(2,3)])
  then have "k' = k1" using unlock(4) by simp
  moreover have "agrees D f k1 (R, A)" by (rule agrees_same [OF g _ r(5)]) (use g r in \<open>simp_all add: agrees_def\<close>)
  ultimately show ?thesis using r(2) unlock(1) by simp
next
  case (change ino ip v)
  note r = ichange_refs [OF k change(3-5)]
  have v: "ifile D k' ino = file_of v" using r(4) change(2) by (simp add: ifile_def)
  have "agrees D f k' (R, A(ino := file_of v))"
    unfolding change(2) by (rule agrees_but [OF g _ r(5,3)]) (use g r(2) change(2) v in \<open>simp_all add: agrees_def\<close>)
  then show ?thesis using r(1) change(1,2) by simp
next
  case (sync ino ip w r)
  obtain k1 where r: "iupdat ramstrategy tape ip (time_sec k) (time_sec k) w k = Some (Got (), k1)" "icache_ok N D f M k1" "irefs D k1 = irefs D k"
    "\<forall>m. m \<noteq> ino \<longrightarrow> ino_place_ok f k m \<longrightarrow> iview D k1 m = iview D k m"
    "iview D k1 ino = with_disk (stamp (time_sec k) (time_sec k) (time_sec k) (itab k ip))" "ino_place_ok f k1 = ino_place_ok f k"
    by (rule iupdat_refs [where sy = w and tape = tape, OF k tp sync(2,3)])
  then have e: "k' = k1" using sync(4) by simp
  have "ifile D k1 ino = ifile D k ino" using r(5) in_core_view [OF k sync(2)] by (simp add: ifile_def)
  then have "agrees D f k1 (R, A)"
    by (intro agrees_keep [OF g _ r(6), where ino = ino]) (use g r in \<open>simp_all add: agrees_def\<close>)
  then show ?thesis using r(2) sync(1) e by simp
next
  case (put ino ip r)
  obtain k1 where r: "iput ramstrategy tape ip k = Some (Got (), k1)" "icache_ok N D f M k1" "irefs D k1 = (irefs D k)(ino := irefs D k ino - 1)"
    "iview D k1 ino = with_disk (stamp (time_sec k) (time_sec k) (time_sec k) (itab k ip))"
    "\<forall>m. m \<noteq> ino \<longrightarrow> ino_place_ok f k m \<longrightarrow> iview D k1 m = iview D k m" "ino_place_ok f k1 = ino_place_ok f k"
    by (rule iput_refs [where tape = tape, OF k tp put(2,3)]) (use put(4) in blast)+
  then have e: "k' = k1" using put(5) by simp
  have "ifile D k1 ino = ifile D k ino" using r(4) in_core_view [OF k put(2)] by (simp add: ifile_def)
  then have "agrees D f k1 (R(ino := R ino - 1), A)"
    by (intro agrees_keep [OF g _ r(6), where ino = ino]) (use g r in \<open>simp_all add: agrees_def\<close>)
  then show ?thesis using r(2) put(1) e by simp
next
  case (remove ino ip xs r)
  obtain k1 freed w where r: "iput ramstrategy tape ip k = Some (Got (), k1)" "icache_ok N D f M k1" "irefs D k1 = (irefs D k)(ino := 0)"
    "\<forall>m. m \<noteq> ino \<longrightarrow> ino_place_ok f k m \<longrightarrow> iview D k1 m = iview D k m" "ino_place_ok f k1 = ino_place_ok f k" "iview D k1 ino = with_disk w"
    "i_mode w = 0" "i_nlink w = 0" "i_uid w = i_uid (itab k ip)" "i_gid w = i_gid (itab k ip)" "i_size w = 0" "i_addr w = replicate 7 0"
    by (rule iput_removes [where tape = tape, OF k tp remove(2-5)])
  then have e: "k' = k1" using remove(6) by simp
  have "A ino = file_of (itab k ip)" using g in_core_place [OF k remove(2)] in_core_view [OF k remove(2)] by (simp add: agrees_def)
  then have "ifile D k1 ino = emptied (A ino)" using r(6-12) remove(4) by (simp add: ifile_def file_of_def with_disk_def)
  then have "agrees D f k1 (R(ino := 0), A(ino := emptied (A ino)))"
    by (intro agrees_but [OF g _ r(5)]) (use g r in \<open>simp_all add: agrees_def\<close>)
  then show ?thesis using r(2) remove(1) e by simp
qed

text \<open>C35: Whatever its users do, in any order and however often an in-core inode is used for another file, the cache behaves as a table of
  files with a count of references for each: iget and iput count, a change is seen by all from then on, the last iput of a file without links empties it, and all else, waiting,
  finding the table full, locking, writing back and giving an in-core inode to another file, has no effect on it.\<close>

theorem icache_refines:
  assumes "icache_ok N D f M k" "\<not> tape D" "isteps N tape D f k as k'"
  shows "icache_ok N D f M k' \<and> agrees D f k' (fold ispec as (irefs D k, ifile D k))"
  using assms(3)
proof induction
  case none
  then show ?case using assms(1) by (simp add: agrees_def)
next
  case (more as k1 a k2)
  obtain R A where "fold ispec as (irefs D k, ifile D k) = (R, A)" by (rule prod.exhaust)
  then show ?case using istep_ok [where tape = tape, of N D f M k1 a k2 R A] assms(2) more by simp
qed

theorem icache_refines_witness:
  "\<exists>v k'. i_nlink v = 1 \<and> isteps 2 (\<lambda>_. False) 0x300 0 demo_icache [Get 3, Change 3 v, Put 3] k' \<and> irefs 0x300 k' 3 = 0 \<and>
     ifile 0x300 k' 3 = file_of v"
proof (rule demo_held [where as = "replicate 7 0" and s = 0 and l = 1])
  fix ip v and k k' :: ick
  assume h: "iget ramstrategy (\<lambda>_. False) 0x300 0 3 demo_icache = Some (Got (Some ip), k)" "k' = upd_ino ip (\<lambda>_. v) k" "i_nlink v = 1"
    "ifind 0x300 3 k = Some (Some ip)" "irefs 0x300 k 3 = 1" "ichange_ok (itab k ip) v"
    "icache_ok 2 0x300 0 2 k'" "ifind 0x300 3 k' = Some (Some ip)" "irefs 0x300 k' 3 = 1" "itab k' ip = v"
  have tp: "\<not> (\<lambda>_ :: u_int. False) 0x300" by simp
  have c: "irefs 0x300 k' 3 \<noteq> 0" "irefs 0x300 k' 3 = 1 \<Longrightarrow> i_nlink (itab k' ip) \<noteq> 0" using h by simp_all
  obtain k2 where k2: "iput ramstrategy (\<lambda>_. False) ip k' = Some (Got (), k2)" "ino_place_ok 0 k2 = ino_place_ok 0 k'"
    by (rule iput_refs [where tape = "\<lambda>_. False", OF h(7) tp h(8) c])
  let ?t = "\<lambda>_ :: u_int. False"
  have s: "istep 2 ?t 0x300 0 demo_icache (Get 3) k" by (rule istep.get [OF _ _ h(1)]) (simp_all add: demo_icache_ok)
  have s': "istep 2 ?t 0x300 0 k (Change 3 v) k'" unfolding h(2) by (rule istep.change) (use h in simp_all)
  have s'': "istep 2 ?t 0x300 0 k' (Put 3) k2" by (rule istep.put) (use h k2 in simp_all)
  note isteps.more [OF isteps.more [OF isteps.more [OF isteps.none s] s'] s'']
  then have st: "isteps 2 ?t 0x300 0 demo_icache [Get 3, Change 3 v, Put 3] k2" by simp
  have "agrees 0x300 0 k2 (fold ispec [Get 3, Change 3 v, Put 3] (irefs 0x300 demo_icache, ifile 0x300 demo_icache))" "icache_ok 2 0x300 0 2 k2"
    using icache_refines [OF demo_icache_ok(1) tp st] by blast+
  moreover have "ino_place_ok 0 k2 3" using in_core_place [OF h(7,8)] k2(2) by simp
  ultimately show ?thesis using st h(3) by (intro exI [of _ v] exI [of _ k2]) (simp add: agrees_def demo_icache_ok)
qed (simp_all add: int32_def)

end
