(* ===== verification/IcacheSync.thy ===== *)
theory IcacheSync imports IcacheLife begin

text \<open>
  The part of update that writes the inodes: after it the disk has every inode in use that no one had locked, as the kernel sees it.
\<close>

lemma itimes_none: "\<not> dirty_ino v \<Longrightarrow> ITIMES t v = v"
  using flag_mono [of "i_flag v" "0x46" "0x446"] by (auto simp: ITIMES_def)

text \<open>One inode.\<close>

lemma sync_one:
  assumes t: "itable D f M H F k" and id: "idle N D k" and w: "iwritable f k" and ip: "on_chain H ip" and tp: "\<not> tape D"
    and c: "i_count (itab k ip) \<noteq> 0" "unat (i_count (itab k ip)) < 65535"
  defines "k1 \<equiv> upd_ino ip (\<lambda>v. v\<lparr>i_flag := set_flag ILOCKED (i_flag v), i_count := i_count v + 1\<rparr>) k"
  obtains k2 k3 where "iupdat ramstrategy tape ip (time_sec k1) (time_sec k1) False k1 = Some (Got (), k2)" "iput ramstrategy tape ip k2 = Some (Got (), k3)"
    "itable D f M H F k3" "alters N D f ip k k3" "i_count (itab k3 ip) = i_count (itab k ip)" "\<not> dirty_ino (itab k3 ip)"
    "file_of (itab k3 ip) = file_of (itab k ip)"
proof -
  have ck: "cache_ok N D k" using id by (simp add: idle_def)
  have ce: "cell_ino D f k ip" by (rule itableD(8) [OF t ip])
  have s: "unat (i_count (itab k ip) + 1) = unat (i_count (itab k ip)) + 1" using c by (simp add: unat_word_ariths)
  have nz: "i_count (itab k ip) + 1 \<noteq> 0" "i_count (itab k ip) + 1 \<noteq> 1" using s c(1) by (auto simp: unat_eq_0)
  have a1: "alters N D f ip k k1" unfolding k1_def by (rule alters_upd [OF ck]) simp_all
  have v1: "itab k1 ip = (itab k ip)\<lparr>i_flag := set_flag ILOCKED (i_flag (itab k ip)), i_count := i_count (itab k ip) + 1\<rparr>" by (simp add: k1_def)
  have sc: "same_cache k k1" unfolding k1_def by (rule upd_ino_cache)
  have "cell_ino D f k1 ip" using ce altersD(5,11) [OF a1] by (simp add: cell_ino_def Let_def v1 coherent_def dsk_cache [OF sc])
  note r1 = itable_alters [OF t a1 ip _ _ this]
  have t1: "itable D f M H F k1" by (rule r1(1)) (use c nz in \<open>simp_all add: v1\<close>)
  have id1: "idle N D k1" and w1: "iwritable f k1" using idle_alters [OF id a1] writable_alters [OF w a1] .
  obtain k2 where k2: "iupdat ramstrategy tape ip (time_sec k1) (time_sec k1) False k1 = Some (Got (), k2)" "alters N D f ip k1 k2" "cell_ino D f k2 ip"
    "\<not> dirty_ino (itab k2 ip)" "with_disk (itab k2 ip) = with_disk (stamp (time_sec k1) (time_sec k1) (time_sec k1) (itab k1 ip))"
    "i_count (itab k2 ip) = i_count (itab k1 ip)"
    by (rule iwrite_ok [where sy = False and tape = tape, OF t1 id1 w1 ip tp])
  note r2 = itable_alters [OF t1 k2(2) ip _ _ k2(3)]
  have t2: "itable D f M H F k2" by (rule r2(1)) (use nz in \<open>simp_all add: k2(6) v1\<close>)
  have id2: "idle N D k2" and w2: "iwritable f k2" using idle_alters [OF id1 k2(2)] writable_alters [OF w1 k2(2)] .
  have c2: "cache_ok N D k2" "a_ino k2 ip \<noteq> 0" using id2 w2 by (simp_all add: idle_def iwritable_def)
  obtain k3 fl where k3: "iunlock ip k2 = Some k3" "alters N D f ip k2 k3" "itab k3 ip = (itab k2 ip)\<lparr>i_flag := fl\<rparr>" "same_cache k2 k3"
    "other_flags fl (i_flag (itab k2 ip))" "\<not> flag fl ILOCKED" "fss k3 = fss k2" "a_flock k3 = a_flock k2"
    by (rule iunlock_ok [where f = f, OF c2])
  note fo = other_flagsD [OF k3(5)]
  have t3: "itable D f M H F k3"
    by (rule itable_flags(1) [OF t2 k3(2) ip _ k3(3) _ _ k3(4)]) (use k2(3) nz fo in \<open>simp_all add: k2(6) v1 cell_ino_def Let_def\<close>)
  have id3: "idle N D k3" and w3: "iwritable f k3" using idle_alters [OF id2 k3(2)] writable_alters [OF w2 k3(2)] .
  have c3: "i_count (itab k3 ip) \<noteq> 0" "i_count (itab k3 ip) \<noteq> 1" "\<not> flag (i_flag (itab k3 ip)) ILOCKED"
    using nz k3(6) by (simp_all add: k3(3) k2(6) v1)
  have d3: "\<not> dirty_ino (itab k3 ip)" using fo k2(4) by (simp add: k3(3))
  obtain k4 where k4: "irele ramstrategy tape ip k3 = Some (Got (), k4)" "itable D f M H F k4" "alters N D f ip k3 k4"
    "itab k4 ip = (ITIMES (time_sec k3) (itab k3 ip))\<lparr>i_count := i_count (itab k3 ip) - 1\<rparr>"
    by (rule irele_more [where tape = tape and strat = ramstrategy, OF t3 id3 w3 ip c3])
  have v4: "itab k4 ip = (itab k2 ip)\<lparr>i_flag := fl, i_count := i_count (itab k ip)\<rparr>"
    using k4(4) itimes_none [OF d3] by (simp add: k3(3) k2(6) v1)
  show thesis
  proof (rule that [OF k2(1) _ k4(2)])
    show "iput ramstrategy tape ip k2 = Some (Got (), k4)" by (simp add: iput_def k3(1) k4(1))
    show "alters N D f ip k k4" by (rule alters_trans [OF alters_trans [OF a1 k2(2)] alters_trans [OF k3(2) k4(3)]])
    have "file_of (itab k2 ip) = file_of (itab k1 ip)" using file_of_view(1) [of "itab k2 ip" undefined] k2(5) by simp
    then show "file_of (itab k4 ip) = file_of (itab k ip)" by (simp add: file_of_def v4 v1)
  qed (use d3 in \<open>simp_all add: v4 k3(3)\<close>)
qed

section \<open>The loop\<close>

text \<open>What the kernel sees stays.\<close>

definition sync_kept :: "u_int \<Rightarrow> nat \<Rightarrow> 'a ick_scheme \<Rightarrow> 'a ick_scheme \<Rightarrow> bool" where
  "sync_kept D f k k' \<longleftrightarrow> irefs D k' = irefs D k \<and> (\<forall>ino. ifind D ino k' = ifind D ino k) \<and> ino_place_ok f k' = ino_place_ok f k \<and>
     (\<forall>ino. ino_place_ok f k ino \<longrightarrow> ifile D k' ino = ifile D k ino)"

lemma sync_kept_trans: "sync_kept D f k k1 \<Longrightarrow> sync_kept D f k1 k2 \<Longrightarrow> sync_kept D f k k2"
  by (simp add: sync_kept_def)

lemma sync_keptI:
  assumes t: "itable D f M H F k" "itable D f M H F k'" and a: "alters N D f ip k k'" and ip: "on_chain H ip"
    and c: "i_count (itab k' ip) = i_count (itab k ip)" "i_count (itab k ip) \<noteq> 0" "file_of (itab k' ip) = file_of (itab k ip)"
  shows "sync_kept D f k k'" "on_chain H j \<Longrightarrow> j \<noteq> ip \<Longrightarrow> coherent D k' j = coherent D k j"
proof -
  note o = altersD(2,3) [OF a]
  have r: "irefs D k' = irefs D k"
    using irefs_upd(1) [OF t ip] o by (simp add: c irefs_chain(1) [OF t(1) ip, symmetric])
  have fi: "ifind D ino k' = ifind D ino k" for ino by (rule irefs_upd(2) [OF t ip]) (use o in simp_all)
  note v = itable_alters(2) [OF t(1) a ip _ _ itableD(8) [OF t(2) ip]]
  have "ifile D k' ino = ifile D k ino" if p: "ino_place_ok f k ino" for ino
  proof (cases "ino = i_number (itab k ip)")
    case True
    then show ?thesis using iview_chain(1) [OF t(1) ip] iview_chain(1) [OF t(2) ip] o(2) c(3) by (simp add: ifile_def)
  next
    case False
    then show ?thesis by (intro ifile_view v) (use c p in simp_all)
  qed
  then show "sync_kept D f k k'" using r fi altersD(11) [OF a] by (simp add: sync_kept_def fun_eq_iff)
  show "coherent D k' j = coherent D k j" if j: "on_chain H j" "j \<noteq> ip"
  proof -
    have "i_number (itab k j) \<noteq> i_number (itab k ip)" using itableD(5) [OF t(1) j(1) ip] j(2) by blast
    moreover have "ino_place_ok f k (i_number (itab k j))" using itableD(8) [OF t(1) j(1)] by (simp add: cell_ino_def Let_def)
    ultimately show ?thesis using altersD(10) [OF a] o(1) [OF j(2)] by (simp add: coherent_def)
  qed
qed

definition synced :: "nat \<Rightarrow> u_int \<Rightarrow> nat \<Rightarrow> nat \<Rightarrow> (iref \<Rightarrow> iref list) \<Rightarrow> nat list \<Rightarrow> nat list \<Rightarrow> 'a ick_scheme \<Rightarrow> 'a ick_scheme \<Rightarrow> bool" where
  "synced N D f M H F is k k' \<longleftrightarrow> itable D f M H F k' \<and> idle N D k' \<and> iwritable f k' \<and> sync_kept D f k k' \<and>
     (\<forall>i. i \<notin> set is \<longrightarrow> itab k' i = itab k i \<and> (on_chain H i \<longrightarrow> coherent D k' i = coherent D k i)) \<and>
     (\<forall>i \<in> set is. i_count (itab k i) \<noteq> 0 \<and> \<not> flag (i_flag (itab k i)) ILOCKED \<longrightarrow> coherent D k' i)"

lemma sync_inodes_ok:
  assumes "itable D f M H F k" "idle N D k" "iwritable f k" "\<not> tape D" "set is \<subseteq> {..<M}" "distinct is" "\<forall>i < M. unat (i_count (itab k i)) < 65535"
  shows "\<exists>k'. update_inodes ramstrategy tape is k = Some (Got (), k') \<and> synced N D f M H F is k k'"
  using assms
proof (induction "is" arbitrary: k)
  case Nil
  then show ?case by (simp add: synced_def sync_kept_def)
next
  case (Cons i "is")
  let ?v = "itab k i"
  have i: "i < M" "i \<notin> set is" "distinct is" "set is \<subseteq> {..<M}" using Cons.prems(5,6) by simp_all
  show ?case
  proof (cases "flag (i_flag ?v) ILOCKED \<or> i_count ?v = 0 \<or> \<not> dirty_ino ?v")
    case True
    obtain k' where k': "update_inodes ramstrategy tape is k = Some (Got (), k')" "synced N D f M H F is k k'"
      using Cons.IH [OF Cons.prems(1-4) i(4,3) Cons.prems(7)] by blast
    have "coherent D k' i" if c: "i_count ?v \<noteq> 0" "\<not> flag (i_flag ?v) ILOCKED"
    proof -
      have on: "on_chain H i" by (rule itableD(7) [OF Cons.prems(1) i(1) c(1)])
      have "\<not> dirty_ino ?v" using True c by blast
      then have "coherent D k i" using itableD(8) [OF Cons.prems(1) on] by (simp add: cell_ino_def Let_def)
      then show ?thesis using k'(2) i(2) on by (simp add: synced_def)
    qed
    then have "synced N D f M H F (i # is) k k'" using k'(2) by (auto simp: synced_def)
    moreover have "update_inodes ramstrategy tape (i # is) k = Some (Got (), k')"
      using True k'(1) by (auto simp: Let_def)
    ultimately show ?thesis by blast
  next
    case False
    then have c: "i_count ?v \<noteq> 0" "unat (i_count ?v) < 65535" using Cons.prems(7) i(1) by auto
    have on: "on_chain H i" by (rule itableD(7) [OF Cons.prems(1) i(1) c(1)])
    define k1 where "k1 = upd_ino i (\<lambda>v. v\<lparr>i_flag := set_flag ILOCKED (i_flag v), i_count := i_count v + 1\<rparr>) k"
    obtain k2 k3 where k3: "iupdat ramstrategy tape i (time_sec k1) (time_sec k1) False k1 = Some (Got (), k2)" "iput ramstrategy tape i k2 = Some (Got (), k3)"
      "itable D f M H F k3" "alters N D f i k k3" "i_count (itab k3 i) = i_count (itab k i)" "\<not> dirty_ino (itab k3 i)"
      "file_of (itab k3 i) = file_of (itab k i)"
      unfolding k1_def by (rule sync_one [where tape = tape, OF Cons.prems(1-3) on Cons.prems(4) c])
    have id3: "idle N D k3" and w3: "iwritable f k3" using idle_alters [OF Cons.prems(2) k3(4)] writable_alters [OF Cons.prems(3) k3(4)] .
    note kp = sync_keptI [OF Cons.prems(1) k3(3,4) on k3(5) c(1) k3(7)]
    note o = altersD(2) [OF k3(4)]
    have n3: "\<forall>j < M. unat (i_count (itab k3 j)) < 65535" using Cons.prems(7) k3(5) o by metis
    obtain k' where k': "update_inodes ramstrategy tape is k3 = Some (Got (), k')" "synced N D f M H F is k3 k'"
      using Cons.IH [OF k3(3) id3 w3 Cons.prems(4) i(4,3) n3] by blast
    have "coherent D k3 i" using itableD(8) [OF k3(3) on] k3(6) by (simp add: cell_ino_def Let_def)
    then have ci: "coherent D k' i" using k'(2) i(2) on by (simp add: synced_def)
    have cj: "coherent D k' j" if "j \<in> set is" "i_count (itab k j) \<noteq> 0" "\<not> flag (i_flag (itab k j)) ILOCKED" for j
    proof -
      have "j \<noteq> i" using that(1) i(2) by blast
      then show ?thesis using k'(2) that o [of j] by (simp add: synced_def)
    qed
    have oj: "itab k' j = itab k j \<and> (on_chain H j \<longrightarrow> coherent D k' j = coherent D k j)" if "j \<notin> set (i # is)" for j
      using k'(2) that o [of j] kp(2) [of j] by (simp add: synced_def)
    have "sync_kept D f k k'" using sync_kept_trans [OF kp(1)] k'(2) by (simp add: synced_def)
    then have "synced N D f M H F (i # is) k k'" using k'(2) ci cj oj by (simp add: synced_def)
    moreover have "update_inodes ramstrategy tape (i # is) k = Some (Got (), k')"
      using False k3(1,2) k'(1) by (simp add: Let_def k1_def)
    ultimately show ?thesis by blast
  qed
qed



end
