(* ===== verification/Spec2Isabelle.thy ===== *)
theory Spec2Isabelle
imports Prelude ResourceMap Segments Space_Allocator ResourceMapSpec ResourceMapProps
  Clist ClistSpec Byte_Fifo ClistProps
  Kern Umem Sched SchedSpec SchedProps Sig SigSpec SigTake SigProps
  SigFrame Callout Timer_Queue CalloutSpec CalloutProps Sleep SleepProps
  Inode Cred CredProps Resource Timeofday TimeProps
  Files SysInode Descrip FlockProps FdProps
  Ring Bio Ramdisk BioSpec BioCache BioOps BioGet Block_Store BioStore BioProps
  BioFrame FsAlloc FsSpec FsProps FsStack Block_Stack FsUse
  Bmap BmapTree BmapSpec BmapWrite BmapFill BmapProps Dinode DinodeSpec DinodeProps
  Trunc TruncSpec TruncProps
  Icache IcacheLinks IcacheSpec IcacheOps IcacheInit IcacheProps IcacheFree IcacheRun IcacheLife IcacheSync
begin

text \<open>
  2.10BSD for the PDP-11: the resource, process and file system core of the kernel, \<open>src/sys/sys\<close>.

  \<^bold>\<open>The program.\<close> The kernel keeps processes (process table, run and sleep queues, signals, timers, ids and limits), hands out
  address space by resource maps, queues terminal input in character lists, and serves files: descriptors refer to the open-file
  table, its entries to in-core inodes, bmap finds the blocks of an inode, the allocator provides free blocks, and all of them reach
  the disk through the buffer cache and a driver's strategy routine. The inode cache keeps those inodes in core that have references. The
  theories follow these layers from the bottom up, and each layer is built on the definitions of the layers below it, not on a specification of them.

  \<^bold>\<open>The state\<close> is one record, extended layer by layer as the theories import each other: \<open>kern\<close> (Kern: processes, user structure,
  queues, user memory), \<open>clk\<close> (Callout: callout table, time), \<open>bio\<close> (Bio: buffers, their memory, the RAM disk), \<open>fsk\<close>
  (FsAlloc: mount table and super blocks), \<open>ink\<close> (Bmap: inode table), \<open>ick\<close> (Icache: the links of the inode
  cache); beside it \<open>fdk\<close> (Files: open-file table) on \<open>kern\<close>.
  Operations are polymorphic in the rest of the record, so that a lower layer runs unchanged in a bigger state; SigFrame and BioFrame
  prove what it leaves alone there. Pointers into tables are indices, NULL is \<open>None\<close>; list heads and buffers in the cache are one
  datatype of references, as the C macros treat them. An \<open>int\<close> of the PDP-11 is a 16-bit word where its width matters and an int
  otherwise, with the wrap-around of a long written out (\<open>wrap32\<close>).

  \<^bold>\<open>Results.\<close> An operation that can panic, follow a wild pointer or run forever returns an option, and \<open>None\<close> is each of these; a
  loop without an obvious measure is a \<open>partial_function\<close>, and the lemmas prove it returns \<open>Some\<close>. There is no fuel anywhere. An
  operation that can sleep answers \<open>Sleeps\<close> with the channel and the state at that point (Bio, Sleep, SysInode); what other processes
  do meanwhile is then a step relation (\<open>cache_use\<close>, \<open>lock_step\<close>) or the caller's argument. Errors are the values of \<open>u_error\<close>.

  \<^bold>\<open>Theories and code.\<close>
  \<^item> Prelude: C integers, words, linked lists through a table. Umem: user memory. Ring: circular doubly linked lists.
  \<^item> ResourceMap, Segments, ResourceMapSpec, ResourceMapProps: malloc, mfree, malloc3 (subr_rmap.c) refine a sorted list of segments;
    locale \<open>space_allocator\<close> (Space_Allocator): what is handed out never overlaps.
  \<^item> Clist, ClistSpec, ClistProps: getc, putc, q_to_b, b_to_q, catq and the rest of tty_subr.c implement byte queues; locale
    \<open>byte_fifo\<close> (Byte_Fifo).
  \<^item> Kern, Sched, SchedSpec, SchedProps: kern_synch.c and kern_proc.c: run queue, sleep queues, wakeup, setrun, swtch, pid hash.
  \<^item> Sig, SigSpec, SigTake, SigProps, SigFrame: kern_sig.c, sendsig and sigreturn of machdep.c; psignal refines a table of cases.
  \<^item> Callout, CalloutSpec, CalloutProps: kern_clock.c refines a queue of events with the ticks left (locale \<open>timer_queue\<close>,
    Timer_Queue). Sleep, SleepProps: sleep and schedcpu. Timeofday, Resource, TimeProps: kern_time.c, kern_resrce.c.
  \<^item> Cred, CredProps: kern_prot.c and the checks of ufs_fio.c.
  \<^item> Inode, Files, SysInode, Descrip, FlockProps, FdProps: sys_inode.c without data transfer, kern_descrip.c; advisory locks exclude
    each other and leave no sleeper behind, the reference counts of files are exact.
  \<^item> Bio, Ramdisk, BioSpec, BioCache, BioOps, BioGet, BioStore, BioProps, BioFrame: ufs_bio.c with the RAM disk of pdp/ram.c. The
    invariant \<open>cache_ok\<close> says that the hash chains and free lists are rings over exactly the buffers they should hold, that no
    block has two buffers and that a buffer without a delayed write agrees with the disk; \<open>content\<close> is the disk as the kernel sees it
    through the cache. Locale \<open>block_store\<close> (Block_Store): the cache is invisible to its clients.
  \<^item> FsAlloc, FsSpec, FsStack, FsProps, FsUse: alloc, free and ifree of ufs_alloc.c. \<open>flist\<close> reads the chained free list as a list of
    blocks, \<open>fs_ok\<close> is the invariant; locale \<open>block_stack\<close> (Block_Stack): no block is handed out twice or lost.
  \<^item> Bmap, BmapTree, BmapSpec, BmapWrite, BmapFill, BmapProps: ufs_bmap.c. \<open>leaf\<close> is the block of a file by the tree of addresses,
    \<open>tree_ok\<close> the invariant, \<open>grow\<close> what setting one address does; \<open>file_ok\<close> joins it with \<open>fs_ok\<close>.
  \<^item> Dinode, DinodeSpec, DinodeProps: inodes on the disk and iupdat of ufs_inode.c, syncip and the super blocks of update
    (ufs_subr.c).
  \<^item> Trunc, TruncSpec, TruncProps: itrunc, indirtrunc and trsingle of ufs_inode.c. \<open>file_blocks\<close> lists the blocks of a file in the
    order in which they are freed, \<open>frees\<close> says what a routine that frees such a list does to the free list, and \<open>ready\<close> when it can.
  \<^item> Icache, IcacheLinks, IcacheSpec, IcacheOps, IcacheInit, IcacheProps, IcacheFree, IcacheRun, IcacheLife, IcacheSync: ihinit, ifind,
    iget, iput, irele, iflush, ilock and iunlock of ufs_inode.c, update of ufs_subr.c. \<open>itable\<close> is the invariant of the table: an
    inode of the disk is in core at most once and found by its number, the free list holds those without references, and an inode
    that is not marked modified agrees with the disk. \<open>iview\<close> is the inode of a number as the kernel sees it, \<open>irefs\<close> the number
    of references to it. The users of the cache are the step relation \<open>istep\<close>, which \<open>ispec\<close> abstracts to a table of files with
    counts; the steps are those of a file system that is not mounted on, whose inode blocks can be read.

  \<^bold>\<open>Bounds.\<close> NICFREE 50 free blocks in a super block, NADDR 7 addresses in an inode, NINDIR 256 in an indirect block, hence
  \<open>MAXBLK\<close> 16843012 blocks in a file; 64 hash chains of buffers; the number of buffers, files, processes and callouts is a parameter.
  The file system theories are about the device \<open>D\<close> of the RAM disk, so that a transfer is complete when strategy returns; asynchronous
  completion appears as \<open>biodone\<close> and in \<open>biowait\<close>'s answer \<open>Sleeps\<close>.

  \<^bold>\<open>Not modelled.\<close> Register save and restore, mapping registers (mapin, mapout) and priority levels (spl), which have no counterpart in
  the state; console messages; code the configuration leaves out (UCB_METER, UCB_QUOTAS, DIAGNOSTIC). Process creation, exec and exit,
  swapping, path names, terminal line disciplines, sockets and the network, drivers, assembly and all user programs are other
  components. Routines of theirs that modelled code calls are arguments of the definitions (for instance \<open>strat\<close>, the record
  \<open>fileops\<close>, \<open>call\<close> for the routines run by softclock), used only through what the definitions hand to them.
\<close>

end
